(* ===== verification/Airy_Prelude.thy ===== *)
theory Airy_Prelude
  imports Main "HOL-Library.Word"
begin

text \<open>
  Shared groundwork of the development.

  \<^item> The parts of the C standard library the daemons use, as functions on \<open>string\<close> (a C
    string is the list of its characters before the terminating zero): bounded formatting
    (\<open>snprintf\<close> with \<open>%s\<close>), \<open>strncat\<close>, \<open>strtok_r\<close>, \<open>strtol\<close>, \<open>strstr\<close>, \<open>fgets\<close> and
    the decimal and hexadecimal conversions of \<open>printf\<close>.
  \<^item> Three interfaces that recur in every daemon, as locales: a step function with an
    invariant (\<open>inv_machine\<close>), a table searched front to back by key (\<open>keyed_table\<close>) and a
    delay that grows towards a cap (\<open>capped_delay\<close>). The component theories interpret them
    on their own definitions.
  \<^item> The collections \<open>cstr\<close> (length facts of the string operations) and \<open>frame\<close> (which
    fields an operation leaves alone).
\<close>

named_theorems cstr
named_theorems frame

type_synonym c_string = string

section \<open>C strings\<close>

text \<open>
  \<open>snprintf(buf, sz, "%s", s)\<close> with \<open>sz > 0\<close> keeps the first \<open>sz - 1\<close> characters.
\<close>

definition snprintf_s :: "nat \<Rightarrow> string \<Rightarrow> string" where
  "snprintf_s sz s = take (sz - 1) s"

text \<open>
  \<open>strncat(dst, src, sizeof(dst) - strlen(dst) - 1)\<close>, the form every call site has:
  the result never exceeds \<open>sz - 1\<close> characters.
\<close>

definition strncat_sz :: "nat \<Rightarrow> string \<Rightarrow> string \<Rightarrow> string" where
  "strncat_sz sz dst src = dst @ take (sz - length dst - 1) src"

lemma length_snprintf_s [cstr]: "length (snprintf_s sz s) \<le> sz - 1"
  by (simp add: snprintf_s_def)

lemma snprintf_s_id [cstr]: "length s < sz \<Longrightarrow> snprintf_s sz s = s"
  by (simp add: snprintf_s_def)

lemma snprintf_s_eq_Nil [simp]: "1 < sz \<Longrightarrow> snprintf_s sz s = [] \<longleftrightarrow> s = []"
  by (auto simp: snprintf_s_def)

lemma length_strncat_sz [cstr]: "length dst < sz \<Longrightarrow> length (strncat_sz sz dst src) < sz"
  by (simp add: strncat_sz_def)

lemma strncat_sz_id [cstr]:
  "length dst + length src < sz \<Longrightarrow> strncat_sz sz dst src = dst @ src"
  by (simp add: strncat_sz_def)

text \<open>Character classes of the C locale.\<close>

definition chr_tab :: char where "chr_tab = CHR 0x09"
definition chr_nl :: char where "chr_nl = CHR 0x0A"
definition chr_cr :: char where "chr_cr = CHR 0x0D"

definition c_isspace :: "char \<Rightarrow> bool" where
  "c_isspace c \<longleftrightarrow> c \<in> {CHR '' '', CHR 0x09, CHR 0x0A, CHR 0x0B, CHR 0x0C, CHR 0x0D}"

definition c_isdigit :: "char \<Rightarrow> bool" where
  "c_isdigit c \<longleftrightarrow> 48 \<le> (of_char c :: nat) \<and> (of_char c :: nat) \<le> 57"

definition c_digit_val :: "char \<Rightarrow> int" where
  "c_digit_val c = int (of_char c :: nat) - 48"

definition c_toupper :: "char \<Rightarrow> char" where
  "c_toupper c =
     (if 97 \<le> (of_char c :: nat) \<and> (of_char c :: nat) \<le> 122
      then char_of ((of_char c :: nat) - 32) else c)"

text \<open>\<open>strtok_r(s, " \t", &save)\<close> called until it returns NULL: the maximal runs of
  characters that are no delimiter, in order.\<close>

fun strtok_acc :: "(char \<Rightarrow> bool) \<Rightarrow> string \<Rightarrow> string \<Rightarrow> string list" where
  "strtok_acc d acc [] = (if acc = [] then [] else [rev acc])"
| "strtok_acc d acc (c # cs) =
     (if d c then (if acc = [] then strtok_acc d [] cs else rev acc # strtok_acc d [] cs)
      else strtok_acc d (c # acc) cs)"

definition is_blank :: "char \<Rightarrow> bool" where
  "is_blank c \<longleftrightarrow> c = CHR '' '' \<or> c = chr_tab"

definition strtok_blank :: "string \<Rightarrow> string list" where
  "strtok_blank s = strtok_acc is_blank [] s"

lemma strtok_acc_tokens:
  assumes "t \<in> set (strtok_acc d acc s)" and "\<forall>c\<in>set acc. \<not> d c"
  shows "t \<noteq> [] \<and> (\<forall>c\<in>set t. \<not> d c)"
  using assms
proof (induction s arbitrary: acc)
  case Nil
  then show ?case by (auto split: if_splits)
next
  case (Cons c cs)
  show ?case
  proof (cases "d c")
    case True
    with Cons.prems have "t = rev acc \<and> acc \<noteq> [] \<or> t \<in> set (strtok_acc d [] cs)"
      by (auto split: if_splits)
    with Cons.prems(2) show ?thesis using Cons.IH [of "[]"] by fastforce
  next
    case False
    with Cons.prems have "t \<in> set (strtok_acc d (c # acc) cs)"
      and "\<forall>x\<in>set (c # acc). \<not> d x" by simp_all
    then show ?thesis by (rule Cons.IH)
  qed
qed

lemma strtok_blank_tokens:
  "t \<in> set (strtok_blank s) \<Longrightarrow> t \<noteq> [] \<and> (\<forall>c\<in>set t. \<not> is_blank c)"
  unfolding strtok_blank_def by (rule strtok_acc_tokens [where acc = "[]"]) simp_all

lemma strtok_acc_word:
  "\<forall>c\<in>set w. \<not> d c \<Longrightarrow> strtok_acc d acc (w @ s) = strtok_acc d (rev w @ acc) s"
  by (induction w arbitrary: acc) auto

lemma strtok_blank_unwords:
  assumes "\<forall>w\<in>set ws. w \<noteq> [] \<and> (\<forall>c\<in>set w. \<not> is_blank c)"
  shows "strtok_blank (concat (map (\<lambda>w. w @ '' '') ws)) = ws"
  using assms
proof (induction ws)
  case Nil
  then show ?case by (simp add: strtok_blank_def)
next
  case (Cons w ws)
  then show ?case by (simp add: strtok_blank_def strtok_acc_word is_blank_def)
qed

text \<open>
  \<open>strtol(s, &end, 10)\<close> on a 64-bit \<open>long\<close>: leading white space, an optional sign, digits;
  the value saturates at the limits of \<open>long\<close>. Without a digit the value is 0 and \<open>end\<close> is
  the start of the string. The second component is what \<open>end\<close> points at.
\<close>

definition LONG_MAX :: int where "LONG_MAX = 2 ^ 63 - 1"
definition LONG_MIN :: int where "LONG_MIN = - (2 ^ 63)"

fun c_digits :: "int \<Rightarrow> string \<Rightarrow> int \<times> string" where
  "c_digits v [] = (v, [])"
| "c_digits v (c # cs) = (if c_isdigit c then c_digits (10 * v + c_digit_val c) cs else (v, c # cs))"

definition strtol_body :: "string \<Rightarrow> (int \<times> string) option" where
  "strtol_body s =
     (case s of
        [] \<Rightarrow> None
      | c # cs \<Rightarrow>
          (if c_isdigit c then Some (c_digits 0 s)
           else if c = CHR ''-'' \<and> cs \<noteq> [] \<and> c_isdigit (hd cs)
             then (let (v, r) = c_digits 0 cs in Some (- v, r))
           else if c = CHR ''+'' \<and> cs \<noteq> [] \<and> c_isdigit (hd cs) then Some (c_digits 0 cs)
           else None))"

definition clamp_long :: "int \<Rightarrow> int" where
  "clamp_long v = max LONG_MIN (min LONG_MAX v)"

definition strtol :: "string \<Rightarrow> int \<times> string" where
  "strtol s =
     (case strtol_body (dropWhile c_isspace s) of
        None \<Rightarrow> (0, s)
      | Some (v, r) \<Rightarrow> (clamp_long v, r))"

lemma strtol_range: "LONG_MIN \<le> fst (strtol s) \<and> fst (strtol s) \<le> LONG_MAX"
  by (auto simp: strtol_def clamp_long_def LONG_MIN_def LONG_MAX_def
      split: option.splits prod.splits)

text \<open>\<open>strstr\<close>: the rest of the text from the first occurrence of the pattern.\<close>

fun is_prefix :: "string \<Rightarrow> string \<Rightarrow> bool" where
  "is_prefix [] s = True"
| "is_prefix (p # ps) [] = False"
| "is_prefix (p # ps) (c # cs) = (p = c \<and> is_prefix ps cs)"

fun strstr :: "string \<Rightarrow> string \<Rightarrow> string option" where
  "strstr s pat =
     (if is_prefix pat s then Some s
      else case s of [] \<Rightarrow> None | _ # cs \<Rightarrow> strstr cs pat)"

declare strstr.simps [simp del]

lemma is_prefix_append [simp]: "is_prefix p (p @ s)"
  by (induction p) auto

lemma is_prefix_iff: "is_prefix p s \<longleftrightarrow> (\<exists>r. s = p @ r)"
  by (induction p s rule: is_prefix.induct) auto

lemma strstr_Some:
  assumes "strstr s pat = Some r"
  shows "is_prefix pat r \<and> (\<exists>u. s = u @ r)"
  using assms
proof (induction s)
  case Nil
  then show ?case by (auto simp: strstr.simps [of "[]"] split: if_splits)
next
  case (Cons c cs)
  show ?case
  proof (cases "is_prefix pat (c # cs)")
    case True
    with Cons.prems show ?thesis by (simp add: strstr.simps [of "c # cs"])
  next
    case False
    with Cons.prems have "strstr cs pat = Some r" by (simp add: strstr.simps [of "c # cs"])
    with Cons.IH obtain u where "is_prefix pat r" "cs = u @ r" by blast
    then show ?thesis by (metis append_Cons)
  qed
qed

text \<open>
  \<open>fgets(line, sz, f)\<close> called until it returns NULL: pieces of at most \<open>sz - 1\<close> characters,
  each ending at a newline when one occurs.
\<close>

fun fgets_acc :: "nat \<Rightarrow> nat \<Rightarrow> string \<Rightarrow> string \<Rightarrow> string list" where
  "fgets_acc sz k acc [] = (if acc = [] then [] else [rev acc])"
| "fgets_acc sz k acc (c # cs) =
     (if c = chr_nl \<or> Suc k \<ge> sz - 1
      then rev (c # acc) # fgets_acc sz 0 [] cs
      else fgets_acc sz (Suc k) (c # acc) cs)"

definition fgets_lines :: "nat \<Rightarrow> string \<Rightarrow> string list" where
  "fgets_lines sz s = fgets_acc sz 0 [] s"

lemma fgets_acc_concat: "concat (fgets_acc sz k acc s) = rev acc @ s"
  by (induction sz k acc s rule: fgets_acc.induct) auto

lemma fgets_acc_bound:
  "l \<in> set (fgets_acc sz k acc s) \<Longrightarrow> length acc = k \<Longrightarrow> k < sz - 1 \<Longrightarrow> length l \<le> sz - 1"
  by (induction sz k acc s rule: fgets_acc.induct) (auto split: if_splits)

text \<open>\<open>%d\<close>, \<open>%lld\<close> and \<open>%x\<close>.\<close>

definition hex_digit :: "nat \<Rightarrow> char" where
  "hex_digit n = (if n < 10 then char_of (48 + n) else char_of (87 + n))"

fun show_base :: "nat \<Rightarrow> nat \<Rightarrow> string" where
  "show_base b n = (if b < 2 \<or> n < b then [hex_digit n] else show_base b (n div b) @ [hex_digit (n mod b)])"

declare show_base.simps [simp del]

definition show_nat :: "nat \<Rightarrow> string" where "show_nat n = show_base 10 n"
definition show_hex :: "nat \<Rightarrow> string" where "show_hex n = show_base 16 n"

definition show_int :: "int \<Rightarrow> string" where
  "show_int i = (if i < 0 then CHR ''-'' # show_nat (nat (- i)) else show_nat (nat i))"

lemma length_show_nat: "n < 10 ^ k \<Longrightarrow> 0 < k \<Longrightarrow> length (show_nat n) \<le> k"
  unfolding show_nat_def
proof (induction k arbitrary: n)
  case 0
  then show ?case by simp
next
  case (Suc k)
  show ?case
  proof (cases "n < 10")
    case True
    then show ?thesis by (simp add: show_base.simps [of 10 n])
  next
    case False
    with Suc.prems have "0 < k" by (cases k) auto
    moreover from Suc.prems have "n div 10 < 10 ^ k" by (simp add: div_less_iff_less_mult mult.commute)
    ultimately have "length (show_base 10 (n div 10)) \<le> k" by (rule Suc.IH [rotated])
    with False show ?thesis by (simp add: show_base.simps [of 10 n])
  qed
qed

lemma length_show_int32:
  assumes "- (2 ^ 31) \<le> i" and "i < 2 ^ 31"
  shows "length (show_int i) \<le> 11"
proof (cases "i < 0")
  case True
  with assms(1) have "nat (- i) < 10 ^ 10" by simp
  then have "length (show_nat (nat (- i))) \<le> 10" by (rule length_show_nat) simp
  with True show ?thesis by (simp add: show_int_def)
next
  case False
  with assms(2) have "nat i < 10 ^ 10" by simp
  then have "length (show_nat (nat i)) \<le> 10" by (rule length_show_nat) simp
  with False show ?thesis by (simp add: show_int_def)
qed

text \<open>What \<open>%d\<close> prints, \<open>strtol\<close> reads back.\<close>

lemma hex_digit_digit:
  assumes "n < 10"
  shows "c_isdigit (hex_digit n)" and "c_digit_val (hex_digit n) = int n"
proof -
  have o: "(of_char (hex_digit n) :: nat) = 48 + n"
    using assms by (simp add: hex_digit_def)
  then show "c_isdigit (hex_digit n)" using assms by (simp add: c_isdigit_def)
  from o show "c_digit_val (hex_digit n) = int n" by (simp add: c_digit_val_def)
qed

lemma c_digits_snoc:
  "c_digits v xs = (w, []) \<Longrightarrow> c_isdigit d \<Longrightarrow> c_digits v (xs @ [d]) = (10 * w + c_digit_val d, [])"
  by (induction v xs rule: c_digits.induct) (auto split: if_splits)

lemma c_digits_show_nat: "c_digits 0 (show_nat n) = (int n, [])"
  unfolding show_nat_def
proof (induction n rule: less_induct)
  case (less n)
  show ?case
  proof (cases "n < 10")
    case True
    then show ?thesis by (simp add: show_base.simps [of 10 n] hex_digit_digit)
  next
    case False
    then have "c_digits 0 (show_base 10 (n div 10)) = (int (n div 10), [])" by (intro less.IH) simp
    from c_digits_snoc [OF this, of "hex_digit (n mod 10)"] False show ?thesis
      by (simp add: show_base.simps [of 10 n] hex_digit_digit zmod_int zdiv_int)
  qed
qed

lemma show_nat_Cons: "\<exists>c cs. show_nat n = c # cs \<and> c_isdigit c"
  unfolding show_nat_def
proof (induction n rule: less_induct)
  case (less n)
  show ?case
  proof (cases "n < 10")
    case True
    then show ?thesis by (simp add: show_base.simps [of 10 n] hex_digit_digit)
  next
    case False
    then obtain c cs where "show_base 10 (n div 10) = c # cs \<and> c_isdigit c"
      using less.IH [of "n div 10"] by auto
    with False show ?thesis by (simp add: show_base.simps [of 10 n])
  qed
qed

lemma digit_not_space: "c_isdigit c \<Longrightarrow> \<not> c_isspace c"
  by (auto simp: c_isdigit_def c_isspace_def)

lemma c_digits_append:
  "c_digits v xs = (w, []) \<Longrightarrow> r = [] \<or> \<not> c_isdigit (hd r) \<Longrightarrow> c_digits v (xs @ r) = (w, r)"
proof (induction v xs rule: c_digits.induct)
  case (1 v)
  then show ?case by (cases r) auto
next
  case (2 v c cs)
  then show ?case by (auto split: if_splits)
qed

lemma strtol_show_nat_rest:
  assumes "int n \<le> LONG_MAX" and "r = [] \<or> \<not> c_isdigit (hd r)"
  shows "strtol (show_nat n @ r) = (int n, r)"
proof -
  obtain c cs where c: "show_nat n = c # cs" "c_isdigit c" using show_nat_Cons by blast
  then have "strtol_body (dropWhile c_isspace (show_nat n @ r)) = Some (int n, r)"
    using c_digits_append [OF c_digits_show_nat [of n] assms(2)]
    by (simp add: strtol_body_def digit_not_space)
  with assms(1) show ?thesis by (simp add: strtol_def clamp_long_def LONG_MIN_def)
qed

lemma strtol_show_nat: "int n \<le> LONG_MAX \<Longrightarrow> strtol (show_nat n) = (int n, [])"
  using strtol_show_nat_rest [of n "[]"] by simp

lemma show_nat_digits: "c \<in> set (show_nat n) \<Longrightarrow> c_isdigit c"
  unfolding show_nat_def
proof (induction "10 :: nat" n rule: show_base.induct)
  case (1 n)
  then show ?case
    by (cases "n < 10") (auto simp: hex_digit_digit show_base.simps [of 10 n])
qed

lemma show_nat_inj:
  assumes "show_nat m = show_nat n"
  shows "m = n"
proof -
  have "c_digits 0 (show_nat m) = c_digits 0 (show_nat n)" by (rule arg_cong [OF assms])
  then show ?thesis unfolding c_digits_show_nat by simp
qed

section \<open>Interfaces shared by the daemons\<close>

text \<open>A counter that has not reached its last value counts.\<close>

lemma unat_add_one:
  fixes w :: "'a::len word"
  assumes "unat w + 1 < 2 ^ LENGTH('a)"
  shows "unat (w + 1) = unat w + 1"
  using assms by (simp add: unat_word_ariths)

text \<open>
  A component with a step function and an invariant: whatever sequence of admissible events
  it handles, the invariant survives. A run is the fold of the step function over a trace.
\<close>

locale event_machine =
  fixes step :: "'s \<Rightarrow> 'e \<Rightarrow> 's"
    and ok :: "'e \<Rightarrow> bool"
    and inv :: "'s \<Rightarrow> bool"
  assumes event_inv: "inv s \<Longrightarrow> ok e \<Longrightarrow> inv (step s e)"
begin

lemma events_inv: "inv s \<Longrightarrow> list_all ok es \<Longrightarrow> inv (foldl step s es)"
  by (induction es arbitrary: s) (auto intro: event_inv)

end

text \<open>The frequent case in which every event is admissible.\<close>

locale inv_machine =
  fixes step :: "'s \<Rightarrow> 'e \<Rightarrow> 's"
    and inv :: "'s \<Rightarrow> bool"
  assumes inv_step: "inv s \<Longrightarrow> inv (step s e)"

sublocale inv_machine \<subseteq> event_machine step "\<lambda>_. True" inv
  by unfold_locales (rule inv_step)

context inv_machine
begin

lemma run_inv: "inv s \<Longrightarrow> inv (foldl step s es)"
  by (rule events_inv) (simp_all add: list_all_iff)

end

text \<open>The weight of a trace: the sum of what its steps weigh, each in the state it starts from.\<close>

fun trace_sum :: "('s \<Rightarrow> 'e \<Rightarrow> 's) \<Rightarrow> ('s \<Rightarrow> 'e \<Rightarrow> nat) \<Rightarrow> 's \<Rightarrow> 'e list \<Rightarrow> nat" where
  "trace_sum step weight s [] = 0"
| "trace_sum step weight s (e # es) = weight s e + trace_sum step weight (step s e) es"

text \<open>
  A potential that every admissible step raises by at least the step's weight, and that the
  invariant bounds: then no trace weighs more than the room left below the bound.
\<close>

locale potential_machine = event_machine step ok inv
  for step :: "'s \<Rightarrow> 'e \<Rightarrow> 's" and ok :: "'e \<Rightarrow> bool" and inv :: "'s \<Rightarrow> bool" +
  fixes weight :: "'s \<Rightarrow> 'e \<Rightarrow> nat"
    and pot :: "'s \<Rightarrow> nat"
    and bound :: nat
  assumes pot_bound: "inv s \<Longrightarrow> pot s \<le> bound"
    and pot_step: "inv s \<Longrightarrow> ok e \<Longrightarrow> pot s + weight s e \<le> pot (step s e)"
begin

lemma trace_sum_pot:
  "inv s \<Longrightarrow> list_all ok es \<Longrightarrow> pot s + trace_sum step weight s es \<le> pot (foldl step s es)"
proof (induction es arbitrary: s)
  case Nil
  then show ?case by simp
next
  case (Cons e es)
  then have "pot s + weight s e \<le> pot (step s e)" by (auto intro: pot_step)
  moreover from Cons have
    "pot (step s e) + trace_sum step weight (step s e) es \<le> pot (foldl step (step s e) es)"
    by (auto intro: event_inv)
  ultimately show ?case by simp
qed

lemma trace_sum_bound:
  assumes "inv s" and "list_all ok es"
  shows "pot s + trace_sum step weight s es \<le> bound"
proof -
  have "pot s + trace_sum step weight s es \<le> pot (foldl step s es)"
    using assms by (rule trace_sum_pot)
  also have "\<dots> \<le> bound" using assms by (intro pot_bound events_inv)
  finally show ?thesis .
qed

end

text \<open>
  A table searched front to back for a key. The law is the one every \<open>for\<close> loop with
  \<open>strcmp\<close> and an early return has: the answer is the first index that carries the key,
  and a key the loop's guard rejects (\<open>valid\<close>) is never found.
\<close>

locale keyed_table =
  fixes keys :: "'t \<Rightarrow> 'k list"
    and valid :: "'k \<Rightarrow> bool"
    and find :: "'t \<Rightarrow> 'k \<Rightarrow> nat option"
  assumes find_law: "valid k \<Longrightarrow>
      find t k = Some i \<longleftrightarrow> i < length (keys t) \<and> keys t ! i = k \<and> (\<forall>j<i. keys t ! j \<noteq> k)"
    and find_invalid: "\<not> valid k \<Longrightarrow> find t k = None"
begin

lemma find_SomeD: "find t k = Some i \<Longrightarrow> valid k \<and> i < length (keys t) \<and> keys t ! i = k"
  using find_invalid [of k t] by (cases "valid k") (auto simp: find_law)

lemma find_Some_mem: "find t k = Some i \<Longrightarrow> k \<in> set (keys t)"
  by (auto dest!: find_SomeD)

lemma mem_find_Some:
  assumes "valid k" and "k \<in> set (keys t)"
  shows "\<exists>i. find t k = Some i"
proof -
  from assms(2) obtain n where "n < length (keys t) \<and> keys t ! n = k"
    by (auto simp: in_set_conv_nth)
  then obtain i where "i < length (keys t) \<and> keys t ! i = k"
    and "\<forall>j<i. \<not> (j < length (keys t) \<and> keys t ! j = k)"
    using exists_least_iff [of "\<lambda>i. i < length (keys t) \<and> keys t ! i = k"] by blast
  with assms(1) have "find t k = Some i" by (auto simp: find_law)
  then show ?thesis ..
qed

lemma find_None: "valid k \<Longrightarrow> find t k = None \<longleftrightarrow> k \<notin> set (keys t)"
  using mem_find_Some [of k t] find_Some_mem [of t k] by (cases "find t k") auto

lemma find_nth_distinct:
  assumes "distinct (keys t)" and "i < length (keys t)" and "valid (keys t ! i)"
  shows "find t (keys t ! i) = Some i"
  using assms by (auto simp: find_law nth_eq_iff_index_eq)

lemma find_cong:
  assumes "keys t = keys u"
  shows "find t k = find u k"
proof (cases "valid k")
  case True
  with assms have "find t k = Some i \<longleftrightarrow> find u k = Some i" for i by (simp add: find_law)
  then show ?thesis by (cases "find u k"; cases "find t k") auto
next
  case False
  then show ?thesis by (simp add: find_invalid)
qed

end

text \<open>
  A delay that depends on how often something failed: it never shrinks with further
  failures, starts at its base value and never exceeds its cap.
\<close>

locale capped_delay =
  fixes delay :: "nat \<Rightarrow> int"
    and base :: int
    and cap :: int
  assumes delay_first: "delay 0 = min base cap"
    and delay_mono_Suc: "delay n \<le> delay (Suc n)"
    and delay_cap: "delay n \<le> cap"
begin

lemma delay_mono: "m \<le> n \<Longrightarrow> delay m \<le> delay n"
  by (rule lift_Suc_mono_le [of delay]) (auto intro: delay_mono_Suc)

lemma delay_range: "min base cap \<le> delay n \<and> delay n \<le> cap"
  using delay_mono [of 0 n] delay_cap [of n] by (simp add: delay_first)

lemma delay_pos: "0 < base \<Longrightarrow> 0 < cap \<Longrightarrow> 0 < delay n"
  using delay_range [of n] by (auto simp: min_def split: if_splits)

end

text \<open>The one search loop behind most tables: first index whose element satisfies a test.\<close>

fun find_index :: "('a \<Rightarrow> bool) \<Rightarrow> 'a list \<Rightarrow> nat option" where
  "find_index P [] = None"
| "find_index P (x # xs) = (if P x then Some 0 else map_option Suc (find_index P xs))"

lemma find_index_Some_iff:
  "find_index P xs = Some i \<longleftrightarrow> i < length xs \<and> P (xs ! i) \<and> (\<forall>j<i. \<not> P (xs ! j))"
proof (induction xs arbitrary: i)
  case Nil
  then show ?case by simp
next
  case (Cons x xs)
  then show ?case
    by (cases i) (auto simp: All_less_Suc2)
qed

lemma find_index_None: "find_index P xs = None \<longleftrightarrow> (\<forall>x\<in>set xs. \<not> P x)"
  by (induction xs) auto

lemma find_index_map_law:
  "find_index (\<lambda>x. f x = k) xs = Some i \<longleftrightarrow>
     i < length (map f xs) \<and> map f xs ! i = k \<and> (\<forall>j<i. map f xs ! j \<noteq> k)"
  by (auto simp: find_index_Some_iff)

text \<open>Updates of one element.\<close>

lemma map_update_same: "f v = f (xs ! i) \<Longrightarrow> map f (xs[i := v]) = map f xs"
  by (simp add: map_update) (metis list_update_beyond list_update_id map_update not_le)

lemma list_all_update: "list_all P xs \<Longrightarrow> P v \<Longrightarrow> list_all P (xs[i := v])"
  by (induction xs arbitrary: i) (auto split: nat.split)

text \<open>Positional map: the body sees its index, as a \<open>for\<close> loop over an array does.\<close>

fun mapi_from :: "nat \<Rightarrow> (nat \<Rightarrow> 'a \<Rightarrow> 'b) \<Rightarrow> 'a list \<Rightarrow> 'b list" where
  "mapi_from n f [] = []"
| "mapi_from n f (x # xs) = f n x # mapi_from (Suc n) f xs"

abbreviation mapi :: "(nat \<Rightarrow> 'a \<Rightarrow> 'b) \<Rightarrow> 'a list \<Rightarrow> 'b list" where
  "mapi f xs \<equiv> mapi_from 0 f xs"

lemma length_mapi_from [simp]: "length (mapi_from n f xs) = length xs"
  by (induction xs arbitrary: n) auto

lemma nth_mapi_from [simp]: "i < length xs \<Longrightarrow> mapi_from n f xs ! i = f (n + i) (xs ! i)"
  by (induction xs arbitrary: n i) (auto simp: nth_Cons split: nat.split)

lemma mapi_from_mapi_from: "mapi_from n f (mapi_from n g xs) = mapi_from n (\<lambda>i x. f i (g i x)) xs"
  by (induction xs arbitrary: n) auto

lemma map_mapi_from: "map h (mapi_from n f xs) = mapi_from n (\<lambda>i x. h (f i x)) xs"
  by (induction xs arbitrary: n) auto

lemma mapi_from_const [simp]: "mapi_from n (\<lambda>i. g) xs = map g xs"
  by (induction xs arbitrary: n) auto

lemma list_all_mapi_from:
  "(\<And>i x. x \<in> set xs \<Longrightarrow> P x \<Longrightarrow> Q (f i x)) \<Longrightarrow> list_all P xs \<Longrightarrow> list_all Q (mapi_from n f xs)"
  by (induction xs arbitrary: n) auto

end
