(* ===== verification/Sup_Decl.thy ===== *)
theory Sup_Decl
  imports Airy_Prelude
begin

text \<open>
  The declaration layer of \<open>supervisor_d\<close> (src/supervisor_d/src/decl/decl.c and the shared
  structures of supervisor_d_internal.h), POSIX branch: how the launch section of
  \<open>profile.env\<close> becomes the process table. The environment (\<open>getenv\<close>), the password entry
  and the text of the profile file are arguments; everything decl.c computes from them is a
  definition here. The lemmas show that the table is well formed whatever the file holds,
  that declarations for unregistered names change nothing, and when names are unique.
\<close>

section \<open>Data\<close>

definition SUP_MAX_DAEMONS :: nat where "SUP_MAX_DAEMONS = 16"
definition SUP_NAME_MAX :: nat where "SUP_NAME_MAX = 32"
definition SUP_PATH_MAX :: nat where "SUP_PATH_MAX = 512"
definition SUP_ARGS_MAX :: nat where "SUP_ARGS_MAX = 512"
definition SUP_PID_INVALID :: int where "SUP_PID_INVALID = -1"

definition SUP_DEFAULT_TICK_MS :: int where "SUP_DEFAULT_TICK_MS = 5000"
definition SUP_DEFAULT_BACKOFF_BASE_MS :: int where "SUP_DEFAULT_BACKOFF_BASE_MS = 1000"
definition SUP_DEFAULT_BACKOFF_MAX_MS :: int where "SUP_DEFAULT_BACKOFF_MAX_MS = 30000"
definition SUP_DEFAULT_MAX_ATTEMPTS :: int where "SUP_DEFAULT_MAX_ATTEMPTS = 5"
definition SUP_DEFAULT_LIVENESS_TICKS :: int where "SUP_DEFAULT_LIVENESS_TICKS = 3"
definition SUP_TERM_GRACE_MS :: int where "SUP_TERM_GRACE_MS = 5000"

lemmas sup_consts = SUP_MAX_DAEMONS_def SUP_NAME_MAX_def SUP_PATH_MAX_def SUP_ARGS_MAX_def
  SUP_PID_INVALID_def

datatype sup_role = SUP_ROLE_CORE | SUP_ROLE_AUX

datatype sup_state =
    SUP_ST_STOPPED | SUP_ST_STARTING | SUP_ST_RUNNING | SUP_ST_BACKOFF | SUP_ST_FAILED

text \<open>The array \<open>procs[SUP_MAX_DAEMONS]\<close> with its \<open>count\<close> is the list of the first \<open>count\<close>
  entries.\<close>

record sup_proc =
  p_name :: string
  p_bin :: string
  p_sock :: string
  p_args :: string
  p_role :: sup_role
  p_state :: sup_state
  p_pid :: int
  p_fail_count :: int
  p_next_ms :: int
  p_dead_ticks :: int
  p_last_death :: string

record sup_ctx =
  procs :: "sup_proc list"
  airy_home :: string
  runtime_dir :: string
  log_dir :: string
  ctrl_ep :: string
  tick_ms :: int
  backoff_base_ms :: int
  backoff_max_ms :: int
  max_attempts :: int
  liveness_ticks :: int
  shutdown_flag :: bool

type_synonym getenv = "string \<Rightarrow> string option"

section \<open>Operations\<close>

definition path_join :: "nat \<Rightarrow> string \<Rightarrow> string \<Rightarrow> string" where
  "path_join sz a b = snprintf_s sz (a @ ''/'' @ b)"

text \<open>The directories \<open>mkdir_p\<close> creates, in the order of its \<open>mkdir\<close> calls.\<close>

fun mkdir_prefixes :: "string \<Rightarrow> string \<Rightarrow> string list" where
  "mkdir_prefixes done [] = []"
| "mkdir_prefixes done (c # cs) =
     (if c = CHR ''/'' then done # mkdir_prefixes (done @ [c]) cs
      else mkdir_prefixes (done @ [c]) cs)"

definition mkdir_p :: "string \<Rightarrow> string list" where
  "mkdir_p path =
     (let tmp = snprintf_s SUP_PATH_MAX path
      in mkdir_prefixes (take 1 tmp) (drop 1 tmp) @ [tmp])"

definition ensure_dirs :: "sup_ctx \<Rightarrow> string list" where
  "ensure_dirs ctx =
     mkdir_p (snprintf_s SUP_PATH_MAX (airy_home ctx @ ''/config''))
     @ mkdir_p (snprintf_s SUP_PATH_MAX (runtime_dir ctx))
     @ mkdir_p (snprintf_s SUP_PATH_MAX (log_dir ctx))"

text \<open>\<open>pw\<close> is the home directory \<open>getpwuid(getuid())\<close> reports, \<open>None\<close> when it fails.\<close>

definition home_default :: "getenv \<Rightarrow> string option \<Rightarrow> string" where
  "home_default env pw =
     (case env ''AIRY_HOME'' of
        Some (c # cs) \<Rightarrow> snprintf_s SUP_PATH_MAX (c # cs)
      | _ \<Rightarrow>
          (let up = (case env ''HOME'' of
                       Some h \<Rightarrow> h
                     | None \<Rightarrow> (case pw of Some d \<Rightarrow> d | None \<Rightarrow> ''.''))
           in snprintf_s SUP_PATH_MAX (up @ ''/.airymaxrt'')))"

definition ns_of :: "nat \<Rightarrow> string \<Rightarrow> string" where
  "ns_of sz name =
     (let n = length name;
          n1 = (if 2 < n \<and> drop (n - 2) name = ''_d'' then n - 2 else n);
          n2 = (if n1 \<ge> sz then sz - 1 else n1)
      in snprintf_s sz (take n2 name))"

definition resolve_ep :: "getenv \<Rightarrow> sup_ctx \<Rightarrow> sup_proc \<Rightarrow> sup_proc" where
  "resolve_ep env ctx p =
     (let ns = ns_of SUP_NAME_MAX (p_name p);
          env_key = map c_toupper (snprintf_s 64 (''AIRY_'' @ ns @ ''_SOCK''))
      in case env env_key of
           Some (c # cs) \<Rightarrow> p\<lparr>p_sock := snprintf_s SUP_PATH_MAX (c # cs)\<rparr>
         | _ \<Rightarrow>
             (if ns = ''gateway'' then p\<lparr>p_sock := []\<rparr>
              else p\<lparr>p_sock := strncat_sz SUP_PATH_MAX
                                 (path_join SUP_PATH_MAX (runtime_dir ctx) ns) ''.sock''\<rparr>))"

definition sup_proc_find :: "sup_ctx \<Rightarrow> string \<Rightarrow> nat option" where
  "sup_proc_find ctx name =
     (if name = [] then None else find_index (\<lambda>p. p_name p = name) (procs ctx))"

definition blank_proc :: "sup_ctx \<Rightarrow> string \<Rightarrow> sup_role \<Rightarrow> sup_proc" where
  "blank_proc ctx name role =
     \<lparr>p_name = snprintf_s SUP_NAME_MAX name,
      p_bin = strncat_sz SUP_PATH_MAX
                (strncat_sz SUP_PATH_MAX (path_join SUP_PATH_MAX (airy_home ctx) ''bin'') ''/'')
                name,
      p_sock = [], p_args = [], p_role = role, p_state = SUP_ST_STOPPED,
      p_pid = SUP_PID_INVALID, p_fail_count = 0, p_next_ms = 0, p_dead_ticks = 0,
      p_last_death = []\<rparr>"

definition add_proc :: "getenv \<Rightarrow> sup_ctx \<Rightarrow> string \<Rightarrow> sup_role \<Rightarrow> sup_ctx" where
  "add_proc env ctx name role =
     (if length (procs ctx) \<ge> SUP_MAX_DAEMONS \<or> name = [] then ctx
      else if sup_proc_find ctx name \<noteq> None then ctx
      else ctx\<lparr>procs := procs ctx @ [resolve_ep env ctx (blank_proc ctx name role)]\<rparr>)"

definition add_procs :: "getenv \<Rightarrow> sup_role \<Rightarrow> sup_ctx \<Rightarrow> string list \<Rightarrow> sup_ctx" where
  "add_procs env role = foldl (\<lambda>ctx name. add_proc env ctx name role)"

definition split_names :: "getenv \<Rightarrow> sup_ctx \<Rightarrow> string \<Rightarrow> sup_role \<Rightarrow> sup_ctx" where
  "split_names env ctx val role =
     add_procs env role ctx (strtok_blank (snprintf_s SUP_ARGS_MAX val))"

definition trail_ws :: "char \<Rightarrow> bool" where
  "trail_ws c \<longleftrightarrow> c = chr_nl \<or> c = chr_cr \<or> c = CHR '' '' \<or> c = chr_tab"

definition trim_val :: "string \<Rightarrow> string" where
  "trim_val s =
     (let t = rev (dropWhile trail_ws (rev (dropWhile is_blank s))); n = length t
      in if n \<ge> 2 \<and> (hd t = CHR 0x22 \<and> last t = CHR 0x22 \<or> hd t = CHR 0x27 \<and> last t = CHR 0x27)
         then tl (butlast t) else t)"

definition env_long :: "getenv \<Rightarrow> string \<Rightarrow> int \<Rightarrow> int" where
  "env_long env key dflt =
     (case env key of
        Some (c # cs) \<Rightarrow>
          (let (r, rest) = strtol (c # cs) in if rest = [] \<and> r > 0 then r else dflt)
      | _ \<Rightarrow> dflt)"

text \<open>The cast of a \<open>long\<close> to a 32-bit \<open>int\<close>.\<close>

definition c_int_of_long :: "int \<Rightarrow> int" where
  "c_int_of_long v = (v + 2 ^ 31) mod 2 ^ 32 - 2 ^ 31"

text \<open>\<open>strncmp(key, pfx, strlen(pfx)) != 0\<close> and \<open>key + strlen(pfx)\<close>.\<close>

definition strip_pfx :: "string \<Rightarrow> string \<Rightarrow> string option" where
  "strip_pfx pfx key = (if is_prefix pfx key then Some (drop (length pfx) key) else None)"

definition apply_args_line :: "sup_ctx \<Rightarrow> string \<Rightarrow> string \<Rightarrow> sup_ctx" where
  "apply_args_line ctx key val =
     (case strip_pfx ''AIRYRT_LAUNCH_ARGS_'' key of
        None \<Rightarrow> ctx
      | Some nm \<Rightarrow>
          (case sup_proc_find ctx nm of
             None \<Rightarrow> ctx
           | Some i \<Rightarrow> ctx\<lparr>procs := (procs ctx)[i := (procs ctx ! i)
                                \<lparr>p_args := snprintf_s SUP_ARGS_MAX val\<rparr>]\<rparr>))"

definition apply_bin_line :: "sup_ctx \<Rightarrow> string \<Rightarrow> string \<Rightarrow> sup_ctx" where
  "apply_bin_line ctx key val =
     (case strip_pfx ''AIRYRT_LAUNCH_BIN_'' key of
        None \<Rightarrow> ctx
      | Some nm \<Rightarrow>
          (if val = [] then ctx
           else case sup_proc_find ctx nm of
             None \<Rightarrow> ctx
           | Some i \<Rightarrow> ctx\<lparr>procs := (procs ctx)[i := (procs ctx ! i)
                                \<lparr>p_bin := snprintf_s SUP_PATH_MAX val\<rparr>]\<rparr>))"

definition ep_val_ok :: "string \<Rightarrow> bool" where
  "ep_val_ok val =
     (if is_prefix ''tcp:'' val
      then (let (port, rest) = strtol (drop 4 val) in rest = [] \<and> 1 \<le> port \<and> port \<le> 65535)
      else True)"

definition apply_ep_line :: "sup_ctx \<Rightarrow> string \<Rightarrow> string \<Rightarrow> sup_ctx" where
  "apply_ep_line ctx key val =
     (case strip_pfx ''AIRYRT_LAUNCH_EP_'' key of
        None \<Rightarrow> ctx
      | Some nm \<Rightarrow>
          (if val = [] then ctx
           else case sup_proc_find ctx nm of
             None \<Rightarrow> ctx
           | Some i \<Rightarrow>
               (if ep_val_ok val
                then ctx\<lparr>procs := (procs ctx)[i := (procs ctx ! i)
                           \<lparr>p_sock := snprintf_s SUP_PATH_MAX val\<rparr>]\<rparr>
                else ctx)))"

definition default_core :: "string list" where
  "default_core = [''gateway_d'', ''llm_d'', ''think_d'', ''agent_d'', ''tool_d'']"

definition default_aux :: "string list" where
  "default_aux = [''monit_d'', ''sched_d'', ''channel_d'', ''market_d'', ''cupolas_d'', ''mem_d'',
                  ''a2a_d'', ''notify_d'']"

definition sup_decl_defaults :: "getenv \<Rightarrow> sup_ctx \<Rightarrow> int \<times> sup_ctx" where
  "sup_decl_defaults env ctx =
     (let ctx' = add_procs env SUP_ROLE_AUX
                   (add_procs env SUP_ROLE_CORE (ctx\<lparr>procs := []\<rparr>) default_core) default_aux
      in (if procs ctx' \<noteq> [] then 0 else -1, ctx'))"

text \<open>One line of the profile: \<open>None\<close> when it has no \<open>=\<close> or begins with one.\<close>

definition decl_kv :: "string \<Rightarrow> (string \<times> string) option" where
  "decl_kv line =
     (let key = takeWhile (\<lambda>c. c \<noteq> CHR ''='') line; rest = dropWhile (\<lambda>c. c \<noteq> CHR ''='') line
      in if rest = [] \<or> key = [] then None else Some (key, trim_val (tl rest)))"

definition decl_pass0 :: "getenv \<Rightarrow> bool \<times> sup_ctx \<Rightarrow> string \<Rightarrow> bool \<times> sup_ctx" where
  "decl_pass0 env st line =
     (case decl_kv line of
        None \<Rightarrow> st
      | Some (key, val) \<Rightarrow>
          (if key = ''AIRYRT_LAUNCH_CORE'' then (True, split_names env (snd st) val SUP_ROLE_CORE)
           else if key = ''AIRYRT_LAUNCH_AUX'' then (True, split_names env (snd st) val SUP_ROLE_AUX)
           else st))"

definition decl_pass1 :: "sup_ctx \<Rightarrow> string \<Rightarrow> sup_ctx" where
  "decl_pass1 ctx line =
     (case decl_kv line of
        None \<Rightarrow> ctx
      | Some (key, val) \<Rightarrow>
          apply_ep_line (apply_bin_line (apply_args_line ctx key val) key val) key val)"

definition decl_base :: "getenv \<Rightarrow> string option \<Rightarrow> sup_ctx \<Rightarrow> sup_ctx" where
  "decl_base env pw ctx =
     (let home = home_default env pw;
          rt = (case env ''AIRY_RUNTIME_DIR'' of
                  Some (c # cs) \<Rightarrow> snprintf_s SUP_PATH_MAX (c # cs)
                | _ \<Rightarrow> path_join SUP_PATH_MAX home ''run'');
          ce = (case env ''AIRY_SUPERVISOR_SOCK'' of
                  Some (c # cs) \<Rightarrow> snprintf_s SUP_PATH_MAX (c # cs)
                | _ \<Rightarrow> path_join SUP_PATH_MAX rt ''supervisor.sock'')
      in ctx\<lparr>airy_home := home, runtime_dir := rt,
             log_dir := path_join SUP_PATH_MAX home ''logs'', ctrl_ep := ce,
             tick_ms := env_long env ''AIRYRT_SUP_TICK_MS'' SUP_DEFAULT_TICK_MS,
             backoff_base_ms :=
               env_long env ''AIRYRT_SUP_BACKOFF_BASE_MS'' SUP_DEFAULT_BACKOFF_BASE_MS,
             backoff_max_ms := env_long env ''AIRYRT_SUP_BACKOFF_MAX_MS'' SUP_DEFAULT_BACKOFF_MAX_MS,
             max_attempts :=
               c_int_of_long (env_long env ''AIRYRT_SUP_MAX_ATTEMPTS'' SUP_DEFAULT_MAX_ATTEMPTS),
             liveness_ticks :=
               c_int_of_long (env_long env ''AIRYRT_SUP_LIVENESS_TICKS'' SUP_DEFAULT_LIVENESS_TICKS),
             shutdown_flag := False\<rparr>)"

text \<open>\<open>profile\<close> is the text of \<open>config/profile.env\<close>, \<open>None\<close> when \<open>fopen\<close> fails.\<close>

definition sup_decl_load ::
  "getenv \<Rightarrow> string option \<Rightarrow> string option \<Rightarrow> sup_ctx \<Rightarrow> int \<times> sup_ctx" where
  "sup_decl_load env pw profile ctx =
     (let base = decl_base env pw ctx
      in case profile of
           None \<Rightarrow> sup_decl_defaults env base
         | Some txt \<Rightarrow>
             (let ls = fgets_lines (SUP_ARGS_MAX + 64) txt;
                  (have_launch, c0) = foldl (decl_pass0 env) (False, base\<lparr>procs := []\<rparr>) ls;
                  c1 = foldl decl_pass1 c0 ls
              in if \<not> have_launch \<or> procs c1 = [] then sup_decl_defaults env c1 else (0, c1)))"

section \<open>Well-formed declarations\<close>

text \<open>What every entry of a freshly loaded table satisfies: its buffers hold terminated
  strings, and the process it describes has not been started.\<close>

definition proc_decl_ok :: "sup_proc \<Rightarrow> bool" where
  "proc_decl_ok p \<longleftrightarrow>
     p_name p \<noteq> [] \<and> length (p_name p) < SUP_NAME_MAX \<and> length (p_bin p) < SUP_PATH_MAX \<and>
     length (p_sock p) < SUP_PATH_MAX \<and> length (p_args p) < SUP_ARGS_MAX \<and>
     p_state p = SUP_ST_STOPPED \<and> p_pid p = SUP_PID_INVALID \<and> p_fail_count p = 0 \<and>
     p_dead_ticks p = 0"

definition table_ok :: "sup_ctx \<Rightarrow> bool" where
  "table_ok ctx \<longleftrightarrow> length (procs ctx) \<le> SUP_MAX_DAEMONS \<and> list_all proc_decl_ok (procs ctx)"

abbreviation proc_names :: "sup_ctx \<Rightarrow> string list" where
  "proc_names ctx \<equiv> map p_name (procs ctx)"

abbreviation proc_roles :: "sup_ctx \<Rightarrow> sup_role list" where
  "proc_roles ctx \<equiv> map p_role (procs ctx)"

text \<open>The search of the table obeys the table interface.\<close>

interpretation pt: keyed_table "\<lambda>ctx. map p_name (procs ctx)" "\<lambda>n. n \<noteq> []" sup_proc_find
proof
  fix k :: string and t :: sup_ctx and i
  show "sup_proc_find t k = Some i \<longleftrightarrow> i < length (proc_names t) \<and> proc_names t ! i = k \<and>
      (\<forall>j<i. proc_names t ! j \<noteq> k)" if "k \<noteq> []"
    using that by (simp add: sup_proc_find_def find_index_map_law)
qed (simp add: sup_proc_find_def)

lemma path_join_bound [cstr]: "0 < sz \<Longrightarrow> length (path_join sz a b) < sz"
  unfolding path_join_def using length_snprintf_s [of sz "a @ ''/'' @ b"] by simp

lemma snprintf_bound [cstr]: "0 < sz \<Longrightarrow> length (snprintf_s sz s) < sz"
  using length_snprintf_s [of sz s] by simp

lemma resolve_ep_sock:
  "\<exists>v. resolve_ep env ctx p = p\<lparr>p_sock := v\<rparr> \<and> length v < SUP_PATH_MAX"
  unfolding resolve_ep_def Let_def
  by (auto simp: sup_consts intro!: length_strncat_sz snprintf_bound path_join_bound
      split: option.splits list.splits)

lemma blank_proc_ok: "name \<noteq> [] \<Longrightarrow> proc_decl_ok (blank_proc ctx name role)"
  by (auto simp: proc_decl_ok_def blank_proc_def sup_consts
      intro!: length_strncat_sz snprintf_bound path_join_bound)

lemma new_proc_ok:
  "name \<noteq> [] \<Longrightarrow> proc_decl_ok (resolve_ep env ctx (blank_proc ctx name role))"
  using resolve_ep_sock [of env ctx "blank_proc ctx name role"]
    blank_proc_ok [of name ctx role] by (auto simp: proc_decl_ok_def)

lemma new_proc_name [simp]:
  "p_name (resolve_ep env ctx (blank_proc ctx name role)) = snprintf_s SUP_NAME_MAX name"
  "p_role (resolve_ep env ctx (blank_proc ctx name role)) = role"
  using resolve_ep_sock [of env ctx "blank_proc ctx name role"] by (auto simp: blank_proc_def)

lemma add_proc_ok: "table_ok ctx \<Longrightarrow> table_ok (add_proc env ctx name role)"
  by (auto simp: table_ok_def add_proc_def new_proc_ok)

lemma add_proc_prefix: "\<exists>more. procs (add_proc env ctx name role) = procs ctx @ more"
  by (auto simp: add_proc_def)

interpretation ap: inv_machine "\<lambda>ctx name. add_proc env ctx name role" table_ok for env role
  by unfold_locales (rule add_proc_ok)

lemma add_procs_ok: "table_ok ctx \<Longrightarrow> table_ok (add_procs env role ctx names)"
  unfolding add_procs_def by (rule ap.run_inv)

lemma add_procs_prefix: "\<exists>more. procs (add_procs env role ctx names) = procs ctx @ more"
  unfolding add_procs_def
proof (induction names arbitrary: ctx)
  case Nil
  then show ?case by simp
next
  case (Cons n ns)
  obtain m1 where "procs (add_proc env ctx n role) = procs ctx @ m1"
    using add_proc_prefix by blast
  moreover obtain m2 where "procs (foldl (\<lambda>ctx name. add_proc env ctx name role)
      (add_proc env ctx n role) ns) = procs (add_proc env ctx n role) @ m2"
    using Cons.IH by blast
  ultimately show ?case by simp
qed

lemma split_names_ok: "table_ok ctx \<Longrightarrow> table_ok (split_names env ctx val role)"
  by (simp add: split_names_def add_procs_ok)

text \<open>The defaults always give a table, since the first name fits into an empty one.\<close>

lemma add_procs_nonempty:
  assumes "procs ctx = []" and "n \<noteq> []"
  shows "procs (add_procs env role ctx (n # ns)) \<noteq> []"
proof -
  have "procs (add_proc env ctx n role) \<noteq> []"
    using assms by (simp add: add_proc_def sup_proc_find_def sup_consts)
  moreover obtain more where "procs (add_procs env role (add_proc env ctx n role) ns) =
      procs (add_proc env ctx n role) @ more"
    using add_procs_prefix by blast
  ultimately show ?thesis by (simp add: add_procs_def)
qed

lemma sup_decl_defaults_ok:
  "fst (sup_decl_defaults env ctx) = 0 \<and> procs (snd (sup_decl_defaults env ctx)) \<noteq> [] \<and>
   table_ok (snd (sup_decl_defaults env ctx))"
proof -
  let ?c0 = "ctx\<lparr>procs := []\<rparr>"
  let ?c1 = "add_procs env SUP_ROLE_CORE ?c0 default_core"
  let ?c2 = "add_procs env SUP_ROLE_AUX ?c1 default_aux"
  have "table_ok ?c0" by (simp add: table_ok_def)
  then have ok: "table_ok ?c2" by (intro add_procs_ok)
  have "procs ?c1 \<noteq> []"
    unfolding default_core_def by (rule add_procs_nonempty) simp_all
  moreover obtain more where "procs ?c2 = procs ?c1 @ more" using add_procs_prefix by blast
  ultimately have "procs ?c2 \<noteq> []" by simp
  with ok show ?thesis by (simp add: sup_decl_defaults_def Let_def)
qed

section \<open>The second pass is fail-closed\<close>

text \<open>Two tables that agree on everything the second pass may not touch.\<close>

definition same_shape :: "sup_ctx \<Rightarrow> sup_ctx \<Rightarrow> bool" where
  "same_shape c d \<longleftrightarrow>
     c\<lparr>procs := []\<rparr> = d\<lparr>procs := []\<rparr> \<and>
     map (\<lambda>p. p\<lparr>p_args := [], p_bin := [], p_sock := []\<rparr>) (procs c) =
     map (\<lambda>p. p\<lparr>p_args := [], p_bin := [], p_sock := []\<rparr>) (procs d)"

lemma same_shape_refl [simp]: "same_shape c c"
  by (simp add: same_shape_def)

lemma same_shape_trans: "same_shape c d \<Longrightarrow> same_shape d e \<Longrightarrow> same_shape c e"
  by (simp add: same_shape_def)

lemma same_shape_update:
  "p\<lparr>p_args := [], p_bin := [], p_sock := []\<rparr> =
     (procs c ! i)\<lparr>p_args := [], p_bin := [], p_sock := []\<rparr> \<Longrightarrow>
   same_shape c (c\<lparr>procs := (procs c)[i := p]\<rparr>)"
  unfolding same_shape_def
  by (simp add: map_update_same [where f = "\<lambda>p. p\<lparr>p_args := [], p_bin := [], p_sock := []\<rparr>"])

lemma apply_lines_shape:
  "same_shape ctx (apply_args_line ctx key val)"
  "same_shape ctx (apply_bin_line ctx key val)"
  "same_shape ctx (apply_ep_line ctx key val)"
  by (auto simp: apply_args_line_def apply_bin_line_def apply_ep_line_def
      intro!: same_shape_update split: option.split)

lemma decl_pass1_shape: "same_shape ctx (decl_pass1 ctx line)"
  unfolding decl_pass1_def
  using apply_lines_shape(1) [of ctx] apply_lines_shape(2) apply_lines_shape(3)
  by (auto split: option.split dest: same_shape_trans) (metis same_shape_trans)

lemma decl_pass1_run_shape: "same_shape ctx (foldl decl_pass1 ctx ls)"
proof (induction ls arbitrary: ctx)
  case Nil
  then show ?case by simp
next
  case (Cons l ls)
  have "same_shape ctx (decl_pass1 ctx l)" by (rule decl_pass1_shape)
  moreover have "same_shape (decl_pass1 ctx l) (foldl decl_pass1 (decl_pass1 ctx l) ls)"
    by (rule Cons.IH)
  ultimately show ?case by (simp add: same_shape_trans)
qed

lemma same_shape_names:
  assumes "same_shape c d"
  shows "proc_names c = proc_names d \<and> proc_roles c = proc_roles d"
proof -
  let ?z = "\<lambda>p. p\<lparr>p_args := [], p_bin := [], p_sock := []\<rparr>"
  from assms have "map p_name (map ?z (procs c)) = map p_name (map ?z (procs d))"
    and "map p_role (map ?z (procs c)) = map p_role (map ?z (procs d))"
    unfolding same_shape_def by simp_all
  then show ?thesis by (simp add: comp_def)
qed

lemma table_ok_update:
  "table_ok ctx \<Longrightarrow> proc_decl_ok v \<Longrightarrow> table_ok (ctx\<lparr>procs := (procs ctx)[i := v]\<rparr>)"
  by (simp add: table_ok_def list_all_update)

lemma table_ok_nth: "table_ok ctx \<Longrightarrow> i < length (procs ctx) \<Longrightarrow> proc_decl_ok (procs ctx ! i)"
  by (simp add: table_ok_def list_all_length)

lemma proc_decl_ok_fields:
  "proc_decl_ok p \<Longrightarrow> proc_decl_ok (p\<lparr>p_args := snprintf_s SUP_ARGS_MAX v\<rparr>)"
  "proc_decl_ok p \<Longrightarrow> proc_decl_ok (p\<lparr>p_bin := snprintf_s SUP_PATH_MAX v\<rparr>)"
  "proc_decl_ok p \<Longrightarrow> proc_decl_ok (p\<lparr>p_sock := snprintf_s SUP_PATH_MAX v\<rparr>)"
  unfolding proc_decl_ok_def sup_consts by (simp_all add: snprintf_bound)

lemma apply_lines_ok:
  assumes "table_ok ctx"
  shows "table_ok (apply_args_line ctx key val)"
    and "table_ok (apply_bin_line ctx key val)"
    and "table_ok (apply_ep_line ctx key val)"
  using assms
  by (auto simp: apply_args_line_def apply_bin_line_def apply_ep_line_def
      dest!: pt.find_SomeD split: option.split
      intro!: table_ok_update proc_decl_ok_fields table_ok_nth)

interpretation dp0: inv_machine "decl_pass0 env" "\<lambda>st. table_ok (snd st)" for env
  by unfold_locales (auto simp: decl_pass0_def split_names_ok split: option.split)

interpretation dp1: inv_machine decl_pass1 table_ok
  by unfold_locales (auto simp: decl_pass1_def intro!: apply_lines_ok split: option.split)

lemma decl_pass1_other:
  assumes "i < length (procs ctx)"
    and "\<forall>k v. decl_kv l = Some (k, v) \<longrightarrow>
      k \<notin> {''AIRYRT_LAUNCH_ARGS_'' @ nm, ''AIRYRT_LAUNCH_BIN_'' @ nm, ''AIRYRT_LAUNCH_EP_'' @ nm}"
    and "nm = p_name (procs ctx ! i)"
  shows "procs (decl_pass1 ctx l) ! i = procs ctx ! i"
proof -
  have upd: "procs (f ctx' k v) ! i = procs ctx' ! i"
    if "f \<in> {apply_args_line, apply_bin_line, apply_ep_line}" and "decl_kv l = Some (k, v)"
      and "proc_names ctx' = proc_names ctx" for f ctx' k v
  proof -
    have len: "i < length (procs ctx')" using that(3) assms(1) by (metis length_map)
    have nm: "p_name (procs ctx' ! i) = nm" using that(3) assms(1,3) len by (metis nth_map)
    show ?thesis
      using that(1,2) assms(2) len nm
      by (auto simp: apply_args_line_def apply_bin_line_def apply_ep_line_def strip_pfx_def
          is_prefix_iff dest!: pt.find_SomeD split: option.split if_splits
          intro!: nth_list_update_neq)
  qed
  show ?thesis
  proof (cases "decl_kv l")
    case None
    then show ?thesis by (simp add: decl_pass1_def)
  next
    case (Some kv)
    obtain k v where kv: "decl_kv l = Some (k, v)" using Some by (cases kv) auto
    let ?c1 = "apply_args_line ctx k v"
    let ?c2 = "apply_bin_line ?c1 k v"
    have n1: "proc_names ?c1 = proc_names ctx" using same_shape_names apply_lines_shape by metis
    have n2: "proc_names ?c2 = proc_names ctx" using n1 same_shape_names apply_lines_shape by metis
    show ?thesis using upd [OF _ kv, of apply_args_line ctx] upd [OF _ kv n1, of apply_bin_line]
        upd [OF _ kv n2, of apply_ep_line] kv by (simp add: decl_pass1_def)
  qed
qed

lemma add_proc_distinct:
  assumes "distinct (proc_names ctx)" and "length name < SUP_NAME_MAX"
  shows "distinct (proc_names (add_proc env ctx name role))"
proof (cases "length (procs ctx) \<ge> SUP_MAX_DAEMONS \<or> name = [] \<or> sup_proc_find ctx name \<noteq> None")
  case True
  with assms(1) show ?thesis by (auto simp: add_proc_def)
next
  case False
  then have "name \<notin> set (proc_names ctx)" using pt.find_None [of name ctx] by auto
  with False assms show ?thesis by (auto simp: add_proc_def snprintf_s_id)
qed

lemma add_procs_distinct:
  "distinct (proc_names ctx) \<Longrightarrow> \<forall>n\<in>set ns. length n < SUP_NAME_MAX \<Longrightarrow>
   distinct (proc_names (add_procs env role ctx ns))"
  unfolding add_procs_def
  by (induction ns arbitrary: ctx) (auto simp: add_proc_distinct)

text \<open>All names a profile line declares fit the name buffer.\<close>

definition short_names :: "string \<Rightarrow> bool" where
  "short_names line =
     (case decl_kv line of
        None \<Rightarrow> True
      | Some (k, v) \<Rightarrow>
          list_all (\<lambda>t. length t < SUP_NAME_MAX) (strtok_blank (snprintf_s SUP_ARGS_MAX v)))"

lemma decl_pass0_distinct:
  "distinct (proc_names (snd st)) \<Longrightarrow> short_names l \<Longrightarrow>
   distinct (proc_names (snd (decl_pass0 env st l)))"
  by (auto simp: decl_pass0_def short_names_def split_names_def list_all_iff
      intro!: add_procs_distinct split: option.splits)

lemma decl_pass0_run_distinct:
  "distinct (proc_names (snd st)) \<Longrightarrow> list_all short_names ls \<Longrightarrow>
   distinct (proc_names (snd (foldl (decl_pass0 env) st ls)))"
  by (induction ls arbitrary: st) (auto simp: decl_pass0_distinct)

lemma sup_decl_defaults_distinct: "distinct (proc_names (snd (sup_decl_defaults env ctx)))"
  unfolding sup_decl_defaults_def Let_def snd_conv
  by (intro add_procs_distinct) (auto simp: default_core_def default_aux_def sup_consts)

lemma strtok_blank_pair:
  assumes "n \<noteq> []" and "\<forall>c\<in>set n. \<not> is_blank c"
  shows "strtok_blank (n @ '' '' @ n) = [n, n]"
proof -
  have "strtok_acc is_blank [] (n @ '' '' @ n) = n # strtok_acc is_blank [] n"
    using assms strtok_acc_word [of n is_blank "[]" "'' '' @ n"] by (simp add: is_blank_def)
  moreover have "strtok_acc is_blank [] n = [n]"
    using assms strtok_acc_word [of n is_blank "[]" "[]"] by simp
  ultimately show ?thesis by (simp add: strtok_blank_def)
qed

section \<open>Properties\<close>

text \<open>
  Whatever the environment, the password entry and the profile file hold, loading the
  declarations succeeds with a nonempty table of at most 16 processes, each with a nonempty
  name that fits its buffer, terminated path and argument buffers, and no process started.
\<close>

theorem sup_decl_load_ok:
  "fst (sup_decl_load env pw profile ctx) = 0 \<and>
   procs (snd (sup_decl_load env pw profile ctx)) \<noteq> [] \<and>
   table_ok (snd (sup_decl_load env pw profile ctx))"
proof (cases profile)
  case None
  then show ?thesis by (simp add: sup_decl_load_def sup_decl_defaults_ok Let_def)
next
  case (Some content)
  let ?ls = "fgets_lines (SUP_ARGS_MAX + 64) content"
  let ?s0 = "foldl (decl_pass0 env) (False, (decl_base env pw ctx)\<lparr>procs := []\<rparr>) ?ls"
  have "table_ok (snd ?s0)" by (rule dp0.run_inv) (simp add: table_ok_def)
  then have "table_ok (foldl decl_pass1 (snd ?s0) ?ls)" by (rule dp1.run_inv)
  with Some sup_decl_defaults_ok show ?thesis
    by (simp add: sup_decl_load_def Let_def case_prod_unfold)
qed

text \<open>
  The second pass is fail-closed: it never adds, removes, renames or re-roles an entry and
  never touches a run-time field, and an entry none of whose three declaration keys occurs in
  the file keeps its binary path, its endpoint and its arguments.
\<close>

theorem decl_pass1_fail_closed:
  assumes "i < length (procs ctx)"
    and "\<forall>l\<in>set ls. \<forall>k v. decl_kv l = Some (k, v) \<longrightarrow>
      k \<notin> {''AIRYRT_LAUNCH_ARGS_'' @ p_name (procs ctx ! i),
            ''AIRYRT_LAUNCH_BIN_'' @ p_name (procs ctx ! i),
            ''AIRYRT_LAUNCH_EP_'' @ p_name (procs ctx ! i)}"
  shows "same_shape ctx (foldl decl_pass1 ctx ls) \<and>
    procs (foldl decl_pass1 ctx ls) ! i = procs ctx ! i"
proof -
  have "procs (foldl decl_pass1 ctx ls) ! i = procs ctx ! i"
    using assms
  proof (induction ls arbitrary: ctx)
    case Nil
    then show ?case by simp
  next
    case (Cons l ls)
    let ?c = "decl_pass1 ctx l"
    have i: "procs ?c ! i = procs ctx ! i"
      by (rule decl_pass1_other [OF Cons.prems(1) _ refl]) (use Cons.prems(2) in simp)
    have "proc_names ctx = proc_names ?c" using decl_pass1_shape same_shape_names by blast
    then have "i < length (procs ?c)" using Cons.prems(1) by (metis length_map)
    then show ?case using Cons.IH [of ?c] Cons.prems(2) i by simp
  qed
  with decl_pass1_run_shape show ?thesis by blast
qed

definition example_ctx :: "string list \<Rightarrow> sup_ctx" where
  "example_ctx ns =
     (let c = \<lparr>procs = [], airy_home = ''/h'', runtime_dir = ''/r'', log_dir = ''/l'',
               ctrl_ep = ''/r/supervisor.sock'', tick_ms = 5000, backoff_base_ms = 1000,
               backoff_max_ms = 30000, max_attempts = 5, liveness_ticks = 3,
               shutdown_flag = False\<rparr>
      in c\<lparr>procs := map (\<lambda>n. blank_proc c n SUP_ROLE_CORE) ns\<rparr>)"

theorem decl_pass1_fail_closed_witness:
  "procs (foldl decl_pass1 (example_ctx [''llm_d'', ''mem_d''])
     [''AIRYRT_LAUNCH_BIN_llm_d=/x'', ''AIRYRT_LAUNCH_BIN_zzz=/y'']) ! 1 =
   procs (example_ctx [''llm_d'', ''mem_d'']) ! 1"
proof -
  have len: "1 < length (procs (example_ctx [''llm_d'', ''mem_d'']))"
    by (simp add: example_ctx_def Let_def)
  have nm: "p_name (procs (example_ctx [''llm_d'', ''mem_d'']) ! 1) = ''mem_d''"
    by (simp add: example_ctx_def blank_proc_def snprintf_s_def sup_consts Let_def)
  have "decl_kv ''AIRYRT_LAUNCH_BIN_llm_d=/x'' = Some (''AIRYRT_LAUNCH_BIN_llm_d'', ''/x'')"
    and "decl_kv ''AIRYRT_LAUNCH_BIN_zzz=/y'' = Some (''AIRYRT_LAUNCH_BIN_zzz'', ''/y'')"
    by (simp_all add: decl_kv_def trim_val_def is_blank_def trail_ws_def chr_tab_def chr_nl_def
        chr_cr_def Let_def)
  then show ?thesis
    using decl_pass1_fail_closed
      [OF len, of "[''AIRYRT_LAUNCH_BIN_llm_d=/x'', ''AIRYRT_LAUNCH_BIN_zzz=/y'']"]
    unfolding nm by auto
qed

text \<open>
  When every name in the launch lists fits the 32-byte name buffer, the loaded table holds
  no name twice (the first registration wins), so lookup by name is unambiguous.
\<close>

theorem sup_decl_load_distinct:
  assumes "\<And>content. profile = Some content \<Longrightarrow>
      list_all short_names (fgets_lines (SUP_ARGS_MAX + 64) content)"
  shows "distinct (proc_names (snd (sup_decl_load env pw profile ctx)))"
proof (cases profile)
  case None
  then show ?thesis by (simp add: sup_decl_load_def sup_decl_defaults_distinct Let_def)
next
  case (Some content)
  let ?ls = "fgets_lines (SUP_ARGS_MAX + 64) content"
  let ?s0 = "foldl (decl_pass0 env) (False, (decl_base env pw ctx)\<lparr>procs := []\<rparr>) ?ls"
  have "distinct (proc_names (snd ?s0))"
    by (rule decl_pass0_run_distinct) (use assms [OF Some] in simp_all)
  moreover have "proc_names (snd ?s0) = proc_names (foldl decl_pass1 (snd ?s0) ?ls)"
    using decl_pass1_run_shape same_shape_names by blast
  ultimately have "distinct (proc_names (foldl decl_pass1 (snd ?s0) ?ls))" by simp
  with Some show ?thesis
    by (simp add: sup_decl_load_def sup_decl_defaults_distinct Let_def case_prod_unfold)
qed

theorem sup_decl_load_distinct_witness:
  "distinct (proc_names (snd (sup_decl_load (\<lambda>_. None) None
     (Some ''AIRYRT_LAUNCH_CORE=llm_d llm_d'') (example_ctx []))))"
  by (rule sup_decl_load_distinct)
    (auto simp: fgets_lines_def sup_consts short_names_def decl_kv_def trim_val_def is_blank_def
      trail_ws_def chr_tab_def chr_nl_def chr_cr_def Let_def snprintf_s_def strtok_blank_def)

text \<open>
  The duplicate check compares the declared name with the stored, truncated ones, so a name
  of 32 or more characters that is declared twice is registered twice, under one and the same
  stored name.
\<close>

theorem long_name_registered_twice:
  assumes "SUP_NAME_MAX \<le> length n" and "length n \<le> 255" and "\<forall>c\<in>set n. \<not> is_blank c"
    and "procs ctx = []"
  shows "proc_names (split_names env ctx (n @ '' '' @ n) role) = [take 31 n, take 31 n]"
proof -
  have ne: "n \<noteq> []" using assms(1) by (auto simp: sup_consts)
  have "snprintf_s SUP_ARGS_MAX (n @ '' '' @ n) = n @ '' '' @ n"
    using assms(2) by (intro snprintf_s_id) (simp add: sup_consts)
  then have toks: "strtok_blank (snprintf_s SUP_ARGS_MAX (n @ '' '' @ n)) = [n, n]"
    using strtok_blank_pair [OF ne assms(3)] by simp
  have "snprintf_s SUP_NAME_MAX n \<noteq> n"
    using assms(1) length_snprintf_s [of SUP_NAME_MAX n] by (auto simp: sup_consts)
  then have "add_procs env role ctx [n, n] =
      ctx\<lparr>procs := [resolve_ep env ctx (blank_proc ctx n role),
        resolve_ep env (ctx\<lparr>procs := [resolve_ep env ctx (blank_proc ctx n role)]\<rparr>)
          (blank_proc (ctx\<lparr>procs := [resolve_ep env ctx (blank_proc ctx n role)]\<rparr>) n role)]\<rparr>"
    using assms(4) ne by (simp add: add_procs_def add_proc_def sup_proc_find_def sup_consts)
  then show ?thesis unfolding split_names_def toks by (simp add: snprintf_s_def sup_consts)
qed

theorem long_name_registered_twice_witness:
  "proc_names (split_names (\<lambda>_. None) (example_ctx [])
     (replicate 40 CHR ''x'' @ '' '' @ replicate 40 CHR ''x'') SUP_ROLE_CORE) =
   [replicate 31 CHR ''x'', replicate 31 CHR ''x'']"
proof -
  have "SUP_NAME_MAX \<le> length (replicate 40 CHR ''x'')" and "length (replicate 40 CHR ''x'') \<le> 255"
    and "\<forall>c\<in>set (replicate 40 CHR ''x''). \<not> is_blank c" and "procs (example_ctx []) = []"
    by (simp_all add: sup_consts is_blank_def chr_tab_def example_ctx_def Let_def)
  from long_name_registered_twice [OF this] show ?thesis by simp
qed

text \<open>
  A declared endpoint \<open>tcp:\<close> followed by a decimal number is accepted exactly when the
  number is a port, 1 to 65535.
\<close>

theorem ep_tcp_port_range:
  assumes "int n \<le> LONG_MAX"
  shows "ep_val_ok (''tcp:'' @ show_nat n) \<longleftrightarrow> 1 \<le> n \<and> n \<le> 65535"
  using assms by (auto simp: ep_val_ok_def strtol_show_nat)

theorem ep_tcp_port_range_witness:
  "ep_val_ok (''tcp:'' @ show_nat 11435) \<and> \<not> ep_val_ok (''tcp:'' @ show_nat 65536)"
  using ep_tcp_port_range [of 11435] ep_tcp_port_range [of 65536] by (simp add: LONG_MAX_def)

text \<open>
  The endpoint check is looser than its comment, which asks for digits only: blanks and a
  plus sign before the number pass.
\<close>

theorem ep_tcp_accepts_sign:
  "ep_val_ok ''tcp: +80'' \<and> \<not> ep_val_ok ''tcp:80x'' \<and> \<not> ep_val_ok ''tcp:''"
  by (simp add: ep_val_ok_def strtol_def strtol_body_def c_isspace_def c_isdigit_def
      c_digit_val_def clamp_long_def LONG_MIN_def LONG_MAX_def Let_def)

end
