(* ===== verification/Sup_Proc.thy ===== *)
theory Sup_Proc
  imports Sup_Decl
begin

text \<open>
  The process layer of \<open>supervisor_d\<close> (src/supervisor_d/src/proc/proc.c), POSIX branch:
  spawn, reap, exponential backoff, the reconcile loop, the liveness probe, activation,
  shutdown and the pid file. What the operating system answers (\<open>fork\<close>, \<open>waitpid\<close>, the
  clock, the socket probe) is an argument, one answer per table slot and call, so a theorem
  holds for every behaviour of the system. Signals, spawns and failed spawns (the error line
  \<open>spawn_posix\<close> logs before it returns -1) are returned as a list of effects in the order the
  code issues them.
\<close>

section \<open>Answers of the operating system and effects\<close>

datatype wait_status = Exited int | Signaled int | OtherStatus nat

text \<open>\<open>waitpid(pid, &st, WNOHANG)\<close>: 0, a negative value with \<open>errno\<close>, or the pid.\<close>

datatype wait_res = WaitRunning | WaitError int | WaitDead wait_status

definition EINTR :: int where "EINTR = 4"
definition ECHILD :: int where "ECHILD = 10"
definition SIGKILL :: int where "SIGKILL = 9"
definition SIGTERM :: int where "SIGTERM = 15"

datatype sup_eff =
    EffSpawn string "string list" int
  | EffSpawnFail string
  | EffKill int int
  | EffWait int

record tick_env =
  te_now :: int
  te_wait :: "nat \<Rightarrow> wait_res"
  te_reap_clock :: "nat \<Rightarrow> int"
  te_fork :: "nat \<Rightarrow> int"
  te_probe :: "nat \<Rightarrow> bool"

section \<open>Operations\<close>

definition SUP_ARGV_MAX :: nat where "SUP_ARGV_MAX = 64"

definition spawn_argv :: "sup_proc \<Rightarrow> string list" where
  "spawn_argv p = p_bin p # strtok_blank (snprintf_s SUP_ARGS_MAX (p_args p))"

text \<open>\<open>fk\<close> is what \<open>fork\<close> returns in the parent.\<close>

definition spawn_posix :: "sup_proc \<Rightarrow> int \<Rightarrow> int \<times> sup_proc \<times> sup_eff list" where
  "spawn_posix p fk =
     (if length (spawn_argv p) > SUP_ARGV_MAX - 1 then (-1, p, [EffSpawnFail (p_name p)])
      else if fk < 0 then (-1, p, [EffSpawnFail (p_name p)])
      else (0, p\<lparr>p_pid := fk\<rparr>, [EffSpawn (p_name p) (spawn_argv p) fk]))"

definition sup_proc_spawn :: "sup_proc \<Rightarrow> int \<Rightarrow> int \<times> sup_proc \<times> sup_eff list" where
  "sup_proc_spawn p fk =
     (if p_pid p \<noteq> SUP_PID_INVALID then (0, p, [])
      else case spawn_posix p fk of
        (rc, q, effs) \<Rightarrow>
          (if rc \<noteq> 0 then (-1, q\<lparr>p_fail_count := p_fail_count q + 1\<rparr>, effs)
           else (0, q\<lparr>p_state := SUP_ST_STARTING, p_dead_ticks := 0\<rparr>, effs)))"

fun backoff_loop :: "int \<Rightarrow> nat \<Rightarrow> int \<Rightarrow> int" where
  "backoff_loop mx 0 ms = ms"
| "backoff_loop mx (Suc k) ms = (if ms < mx then backoff_loop mx k (ms * 2) else ms)"

definition sup_backoff_ms :: "sup_ctx \<Rightarrow> sup_proc \<Rightarrow> int" where
  "sup_backoff_ms ctx p =
     (let ms = backoff_loop (backoff_max_ms ctx) (nat (p_fail_count p - 1)) (backoff_base_ms ctx)
      in if ms < backoff_max_ms ctx then ms else backoff_max_ms ctx)"

fun status_cause :: "wait_status \<Rightarrow> string" where
  "status_cause (Exited n) = ''exit='' @ show_int n"
| "status_cause (Signaled n) = ''signal='' @ show_int n"
| "status_cause (OtherStatus n) = ''status=0x'' @ show_hex n"

text \<open>\<open>None\<close>: the loop continues with the next slot; otherwise the recorded cause of death.\<close>

fun reap_cause :: "wait_res \<Rightarrow> string option" where
  "reap_cause WaitRunning = None"
| "reap_cause (WaitError e) =
     (if e = EINTR then None else Some (snprintf_s 96 (''wait-error='' @ show_int e)))"
| "reap_cause (WaitDead st) = Some (snprintf_s 96 (status_cause st))"

definition reap_proc :: "sup_ctx \<Rightarrow> wait_res \<Rightarrow> int \<Rightarrow> sup_proc \<Rightarrow> sup_proc" where
  "reap_proc ctx wr clk p =
     (if p_pid p = SUP_PID_INVALID then p
      else case reap_cause wr of
        None \<Rightarrow> p
      | Some cause \<Rightarrow>
          (let q = p\<lparr>p_pid := SUP_PID_INVALID, p_fail_count := p_fail_count p + 1,
                     p_last_death := snprintf_s 128 cause\<rparr>
           in if p_role q = SUP_ROLE_CORE
              then q\<lparr>p_state := SUP_ST_BACKOFF, p_next_ms := clk + sup_backoff_ms ctx q\<rparr>
              else q\<lparr>p_state := SUP_ST_STOPPED\<rparr>))"

definition sup_proc_reap :: "sup_ctx \<Rightarrow> (nat \<Rightarrow> wait_res) \<Rightarrow> (nat \<Rightarrow> int) \<Rightarrow> sup_ctx" where
  "sup_proc_reap ctx wr clk =
     ctx\<lparr>procs := mapi (\<lambda>i. reap_proc ctx (wr i) (clk i)) (procs ctx)\<rparr>"

definition spawn_or_backoff ::
  "sup_ctx \<Rightarrow> int \<Rightarrow> int \<Rightarrow> sup_proc \<Rightarrow> sup_proc \<times> sup_eff list" where
  "spawn_or_backoff ctx now fk p =
     (case sup_proc_spawn p fk of
        (rc, q, effs) \<Rightarrow>
          (if rc = 0 then (q, effs)
           else (q\<lparr>p_state := SUP_ST_BACKOFF, p_next_ms := now + sup_backoff_ms ctx q\<rparr>, effs)))"

text \<open>\<open>reach\<close> is whether \<open>sup_probe_sock\<close> returns 0.\<close>

definition sup_health_tick :: "sup_ctx \<Rightarrow> bool \<Rightarrow> sup_proc \<Rightarrow> sup_proc \<times> sup_eff list" where
  "sup_health_tick ctx reach p =
     (if p_pid p = SUP_PID_INVALID then (p, [])
      else if p_sock p = [] then
        (if p_state p = SUP_ST_STARTING
         then (p\<lparr>p_state := SUP_ST_RUNNING, p_fail_count := 0\<rparr>, []) else (p, []))
      else if reach then
        (p\<lparr>p_state := SUP_ST_RUNNING, p_dead_ticks := 0, p_fail_count := 0\<rparr>, [])
      else
        (let q = p\<lparr>p_dead_ticks := p_dead_ticks p + 1\<rparr>
         in (q, if p_dead_ticks q \<ge> liveness_ticks ctx then [EffKill (p_pid q) SIGKILL] else [])))"

text \<open>The body of the reconcile loop for one slot (after the reap pass).\<close>

definition tick_proc :: "sup_ctx \<Rightarrow> int \<Rightarrow> int \<Rightarrow> bool \<Rightarrow> sup_proc \<Rightarrow> sup_proc \<times> sup_eff list" where
  "tick_proc ctx now fk reach p =
     (if p_role p \<noteq> SUP_ROLE_CORE then (p, [])
      else case p_state p of
        SUP_ST_STOPPED \<Rightarrow> spawn_or_backoff ctx now fk p
      | SUP_ST_BACKOFF \<Rightarrow>
          (if now \<ge> p_next_ms p then
             (if p_fail_count p \<ge> max_attempts ctx then (p\<lparr>p_state := SUP_ST_FAILED\<rparr>, [])
              else spawn_or_backoff ctx now fk p)
           else (p, []))
      | SUP_ST_STARTING \<Rightarrow> sup_health_tick ctx reach p
      | SUP_ST_RUNNING \<Rightarrow> sup_health_tick ctx reach p
      | SUP_ST_FAILED \<Rightarrow> (p, []))"

definition sup_reconcile :: "sup_ctx \<Rightarrow> tick_env \<Rightarrow> sup_ctx \<times> sup_eff list" where
  "sup_reconcile ctx te =
     (let c1 = sup_proc_reap ctx (te_wait te) (te_reap_clock te);
          rs = mapi (\<lambda>i. tick_proc c1 (te_now te) (te_fork te i) (te_probe te i)) (procs c1)
      in (c1\<lparr>procs := map fst rs\<rparr>, concat (map snd rs)))"

definition sup_activate ::
  "sup_ctx \<Rightarrow> string \<Rightarrow> int \<Rightarrow> int \<Rightarrow> int \<times> sup_ctx \<times> sup_eff list" where
  "sup_activate ctx name now fk =
     (case sup_proc_find ctx name of
        None \<Rightarrow> (-1, ctx, [])
      | Some i \<Rightarrow>
          (let p = procs ctx ! i
           in if p_pid p \<noteq> SUP_PID_INVALID then (0, ctx, [])
              else case spawn_or_backoff ctx now fk
                          (p\<lparr>p_fail_count := 0, p_state := SUP_ST_STOPPED\<rparr>) of
                (q, effs) \<Rightarrow>
                  (if p_state q = SUP_ST_STARTING then 0 else -1,
                   ctx\<lparr>procs := (procs ctx)[i := q]\<rparr>, effs)))"

text \<open>Shutdown: TERM to every live child, polling until all are gone or the grace period is
  over, KILL to the rest, and a blocking wait for each of those (\<open>EffWait\<close>: the wait has
  returned and was not interrupted).\<close>

definition live_pids :: "sup_proc list \<Rightarrow> int list" where
  "live_pids ps = map p_pid (filter (\<lambda>p. p_pid p \<noteq> SUP_PID_INVALID) ps)"

fun poll_gone :: "wait_res \<Rightarrow> bool" where
  "poll_gone WaitRunning = False"
| "poll_gone (WaitError e) = (e = ECHILD)"
| "poll_gone (WaitDead st) = True"

definition shut_round :: "(nat \<Rightarrow> wait_res) \<Rightarrow> sup_proc list \<Rightarrow> sup_proc list" where
  "shut_round wr ps =
     mapi (\<lambda>i p. if p_pid p \<noteq> SUP_PID_INVALID \<and> poll_gone (wr i)
                 then p\<lparr>p_pid := SUP_PID_INVALID\<rparr> else p) ps"

fun shut_poll ::
  "nat \<Rightarrow> (nat \<Rightarrow> nat \<Rightarrow> wait_res) \<Rightarrow> (nat \<Rightarrow> int) \<Rightarrow> int \<Rightarrow> nat \<Rightarrow> sup_proc list \<Rightarrow> sup_proc list option"
where
  "shut_poll 0 wr clk deadline k ps = None"
| "shut_poll (Suc fuel) wr clk deadline k ps =
     (let qs = shut_round (wr k) ps
      in if live_pids qs = [] \<or> clk k \<ge> deadline then Some qs
         else shut_poll fuel wr clk deadline (Suc k) qs)"

text \<open>\<open>while (waitpid(pid, &st, 0) < 0 && errno == EINTR);\<close>\<close>

fun wait_blocking :: "nat \<Rightarrow> (nat \<Rightarrow> wait_res) \<Rightarrow> nat \<Rightarrow> bool" where
  "wait_blocking 0 w k = False"
| "wait_blocking (Suc fuel) w k = (if w k = WaitError EINTR then wait_blocking fuel w (Suc k) else True)"

record shut_env =
  se_start :: int
  se_poll :: "nat \<Rightarrow> nat \<Rightarrow> wait_res"
  se_clock :: "nat \<Rightarrow> int"
  se_final :: "nat \<Rightarrow> nat \<Rightarrow> wait_res"

definition sup_shutdown_all :: "nat \<Rightarrow> shut_env \<Rightarrow> sup_ctx \<Rightarrow> (sup_ctx \<times> sup_eff list) option" where
  "sup_shutdown_all fuel se ctx =
     (case shut_poll fuel (se_poll se) (se_clock se) (se_start se + SUP_TERM_GRACE_MS) 0 (procs ctx) of
        None \<Rightarrow> None
      | Some qs \<Rightarrow>
          (if list_all (\<lambda>i. p_pid (qs ! i) = SUP_PID_INVALID \<or> wait_blocking fuel (se_final se i) 0)
                [0..<length qs]
           then Some (ctx\<lparr>procs := map (\<lambda>p. p\<lparr>p_pid := SUP_PID_INVALID\<rparr>) qs\<rparr>,
                      map (\<lambda>pid. EffKill pid SIGTERM) (live_pids (procs ctx))
                      @ map (\<lambda>pid. EffKill pid SIGKILL) (live_pids qs)
                      @ map EffWait (live_pids qs))
           else None))"

text \<open>The pid file. \<open>alive\<close> is whether \<open>kill(pid, 0)\<close> succeeds or fails with EPERM; \<open>old\<close> is
  the text of the file (\<open>None\<close>: it cannot be opened), \<open>writable\<close> whether it can be created.
  The result is the return code and the text afterwards.\<close>

definition pid_alive :: "(int \<Rightarrow> bool) \<Rightarrow> int \<Rightarrow> bool" where
  "pid_alive alive pid \<longleftrightarrow> pid > 0 \<and> alive pid"

definition pidfile_busy :: "(int \<Rightarrow> bool) \<Rightarrow> string option \<Rightarrow> bool" where
  "pidfile_busy alive old =
     (case old of
        None \<Rightarrow> False
      | Some content \<Rightarrow>
          (case fgets_lines 64 content of
             [] \<Rightarrow> False
           | line # _ \<Rightarrow> (let (v, rest) = strtol line in rest \<noteq> line \<and> pid_alive alive v)))"

definition sup_pidfile_write ::
  "(int \<Rightarrow> bool) \<Rightarrow> string option \<Rightarrow> bool \<Rightarrow> int \<Rightarrow> int \<times> string option" where
  "sup_pidfile_write alive old writable self =
     (if pidfile_busy alive old then (-1, old)
      else if \<not> writable then (-1, old)
      else (0, Some (show_int self @ [chr_nl])))"

definition sup_pidfile_clear :: "string option \<Rightarrow> string option" where
  "sup_pidfile_clear old = None"

section \<open>One slot at a time\<close>

text \<open>
  The reconcile loop makes two passes over the table, but no slot looks at another one, so a
  tick is the same as reaping and then ticking every slot by itself.
\<close>

definition slot_reaped :: "sup_ctx \<Rightarrow> nat \<Rightarrow> sup_proc \<Rightarrow> tick_env \<Rightarrow> sup_proc" where
  "slot_reaped ctx i p te = reap_proc ctx (te_wait te i) (te_reap_clock te i) p"

definition slot_tick :: "sup_ctx \<Rightarrow> nat \<Rightarrow> sup_proc \<Rightarrow> tick_env \<Rightarrow> sup_proc \<times> sup_eff list" where
  "slot_tick ctx i p te =
     tick_proc ctx (te_now te) (te_fork te i) (te_probe te i) (slot_reaped ctx i p te)"

definition slot_step :: "sup_ctx \<Rightarrow> nat \<Rightarrow> sup_proc \<Rightarrow> tick_env \<Rightarrow> sup_proc" where
  "slot_step ctx i p te = fst (slot_tick ctx i p te)"

definition slot_effs :: "sup_ctx \<Rightarrow> nat \<Rightarrow> sup_proc \<Rightarrow> tick_env \<Rightarrow> sup_eff list" where
  "slot_effs ctx i p te = snd (slot_tick ctx i p te)"

abbreviation same_cfg :: "sup_ctx \<Rightarrow> sup_ctx \<Rightarrow> bool" where
  "same_cfg c d \<equiv> c\<lparr>procs := []\<rparr> = d\<lparr>procs := []\<rparr>"

lemma same_cfgD:
  assumes "same_cfg c d"
  shows "backoff_base_ms c = backoff_base_ms d" "backoff_max_ms c = backoff_max_ms d"
    "max_attempts c = max_attempts d" "liveness_ticks c = liveness_ticks d"
  using assms by (cases c; cases d; simp)+

lemma tick_proc_cfg:
  assumes "same_cfg c d"
  shows "tick_proc c = tick_proc d" and "reap_proc c = reap_proc d"
proof -
  note eqs = same_cfgD [OF assms]
  have b: "sup_backoff_ms c = sup_backoff_ms d" by (rule ext) (unfold sup_backoff_ms_def eqs, rule refl)
  have s: "spawn_or_backoff c = spawn_or_backoff d"
    by (intro ext) (unfold spawn_or_backoff_def b, rule refl)
  have h: "sup_health_tick c = sup_health_tick d"
    by (intro ext) (unfold sup_health_tick_def eqs, rule refl)
  show "tick_proc c = tick_proc d" by (intro ext) (unfold tick_proc_def eqs s h, rule refl)
  show "reap_proc c = reap_proc d" by (intro ext) (unfold reap_proc_def b, rule refl)
qed

lemma slot_step_cfg:
  assumes "same_cfg c d"
  shows "slot_step c = slot_step d"
  by (intro ext)
    (unfold slot_step_def slot_tick_def slot_reaped_def tick_proc_cfg [OF assms], rule refl)

lemma reconcile_slots:
  "sup_reconcile ctx te =
     (ctx\<lparr>procs := mapi (\<lambda>i p. slot_step ctx i p te) (procs ctx)\<rparr>,
      concat (mapi (\<lambda>i p. slot_effs ctx i p te) (procs ctx)))"
proof -
  let ?c1 = "sup_proc_reap ctx (te_wait te) (te_reap_clock te)"
  have "same_cfg ?c1 ctx" by (simp add: sup_proc_reap_def)
  then have "tick_proc ?c1 = tick_proc ctx" by (rule tick_proc_cfg)
  then show ?thesis
    by (simp add: sup_reconcile_def Let_def sup_proc_reap_def mapi_from_mapi_from map_mapi_from
        slot_step_def slot_effs_def slot_tick_def slot_reaped_def)
qed

abbreviation reconcile_run :: "sup_ctx \<Rightarrow> tick_env list \<Rightarrow> sup_ctx" where
  "reconcile_run \<equiv> foldl (\<lambda>c te. fst (sup_reconcile c te))"

lemma reconcile_run_cfg: "same_cfg (reconcile_run ctx tes) ctx"
  by (induction tes arbitrary: ctx) (simp_all add: reconcile_slots)

lemma reconcile_run_length: "length (procs (reconcile_run ctx tes)) = length (procs ctx)"
  by (induction tes arbitrary: ctx) (simp_all add: reconcile_slots)

lemma reconcile_run_slot:
  "i < length (procs ctx) \<Longrightarrow>
   procs (reconcile_run ctx tes) ! i = foldl (slot_step ctx i) (procs ctx ! i) tes"
proof (induction tes arbitrary: ctx)
  case Nil
  then show ?case by simp
next
  case (Cons te tes)
  let ?c = "fst (sup_reconcile ctx te)"
  have "procs (reconcile_run ?c tes) ! i = foldl (slot_step ?c i) (procs ?c ! i) tes"
    by (rule Cons.IH) (use Cons.prems in \<open>simp add: reconcile_slots\<close>)
  moreover have "slot_step ?c = slot_step ctx"
    by (rule slot_step_cfg) (simp add: reconcile_slots)
  ultimately show ?case using Cons.prems by (simp add: reconcile_slots)
qed

section \<open>Invariant of a supervised process\<close>

text \<open>
  A process has a pid exactly while it is starting or running, never a pid the kernel would
  read as a group or as everyone; a running process has a clean failure record; a failed one
  has used up its attempts; on-demand processes never run or fail by themselves.
\<close>

definition proc_inv :: "int \<Rightarrow> sup_proc \<Rightarrow> bool" where
  "proc_inv mx p \<longleftrightarrow>
     (p_pid p = SUP_PID_INVALID \<or> 0 < p_pid p) \<and>
     (p_pid p \<noteq> SUP_PID_INVALID \<longleftrightarrow> p_state p \<in> {SUP_ST_STARTING, SUP_ST_RUNNING}) \<and>
     0 \<le> p_fail_count p \<and> 0 \<le> p_dead_ticks p \<and>
     (p_state p = SUP_ST_RUNNING \<longrightarrow> p_fail_count p = 0) \<and>
     (p_state p = SUP_ST_FAILED \<longrightarrow> p_fail_count p \<ge> mx) \<and>
     (p_role p = SUP_ROLE_CORE \<and> p_state p = SUP_ST_STOPPED \<longrightarrow> p_fail_count p = 0) \<and>
     (p_role p = SUP_ROLE_AUX \<longrightarrow> p_state p \<notin> {SUP_ST_RUNNING, SUP_ST_FAILED})"

definition ctx_inv :: "sup_ctx \<Rightarrow> bool" where
  "ctx_inv ctx \<longleftrightarrow> list_all (proc_inv (max_attempts ctx)) (procs ctx)"

lemma decl_ok_inv: "proc_decl_ok p \<Longrightarrow> proc_inv mx p"
  by (auto simp: proc_decl_ok_def proc_inv_def)

lemma spawn_or_backoff_cases:
  assumes "p_pid p = SUP_PID_INVALID"
  shows "spawn_or_backoff ctx now fk p =
    (if length (spawn_argv p) > SUP_ARGV_MAX - 1 \<or> fk < 0
     then (let q = p\<lparr>p_fail_count := p_fail_count p + 1\<rparr>
           in (q\<lparr>p_state := SUP_ST_BACKOFF, p_next_ms := now + sup_backoff_ms ctx q\<rparr>,
               [EffSpawnFail (p_name p)]))
     else (p\<lparr>p_pid := fk, p_state := SUP_ST_STARTING, p_dead_ticks := 0\<rparr>,
           [EffSpawn (p_name p) (spawn_argv p) fk]))"
  using assms by (auto simp: spawn_or_backoff_def sup_proc_spawn_def spawn_posix_def Let_def)

lemma spawn_or_backoff_inv:
  assumes "p_pid p = SUP_PID_INVALID" and "fk \<noteq> 0" and "0 \<le> p_fail_count p"
    and "0 \<le> p_dead_ticks p"
  shows "proc_inv mx (fst (spawn_or_backoff ctx now fk p))"
  using assms unfolding spawn_or_backoff_cases [OF assms(1)]
  by (auto simp: proc_inv_def Let_def SUP_PID_INVALID_def)

lemma reap_inv: "proc_inv mx p \<Longrightarrow> proc_inv mx (reap_proc ctx wr clk p)"
  by (cases "p_role p") (auto simp: reap_proc_def proc_inv_def Let_def split: option.split)

lemma health_inv:
  "proc_inv mx p \<Longrightarrow> p_role p = SUP_ROLE_CORE \<Longrightarrow> proc_inv mx (fst (sup_health_tick ctx reach p))"
  by (auto simp: sup_health_tick_def proc_inv_def Let_def)

lemma tick_inv:
  assumes "proc_inv (max_attempts ctx) p" and "fk \<noteq> 0"
  shows "proc_inv (max_attempts ctx) (fst (tick_proc ctx now fk reach p))"
proof (cases "p_role p = SUP_ROLE_CORE")
  case True
  have spawn: "proc_inv (max_attempts ctx) (fst (spawn_or_backoff ctx now fk p))"
    if "p_state p \<in> {SUP_ST_STOPPED, SUP_ST_BACKOFF}"
    by (rule spawn_or_backoff_inv) (use assms that in \<open>auto simp: proc_inv_def\<close>)
  have failed: "proc_inv (max_attempts ctx) (p\<lparr>p_state := SUP_ST_FAILED\<rparr>)"
    if "p_state p = SUP_ST_BACKOFF" and "p_fail_count p \<ge> max_attempts ctx"
    using assms(1) that True by (auto simp: proc_inv_def)
  show ?thesis
    using True assms(1) spawn failed health_inv [OF assms(1) True]
    by (auto simp: tick_proc_def split: sup_state.split)
next
  case False
  with assms(1) show ?thesis by (simp add: tick_proc_def)
qed

definition tick_ok :: "tick_env \<Rightarrow> bool" where
  "tick_ok te \<longleftrightarrow> (\<forall>i. te_fork te i \<noteq> 0)"

lemma slot_step_inv:
  "proc_inv (max_attempts ctx) p \<Longrightarrow> te_fork te i \<noteq> 0 \<Longrightarrow>
   proc_inv (max_attempts ctx) (slot_step ctx i p te)"
  by (simp add: slot_step_def slot_tick_def slot_reaped_def tick_inv reap_inv)

lemma reconcile_inv: "ctx_inv ctx \<Longrightarrow> tick_ok te \<Longrightarrow> ctx_inv (fst (sup_reconcile ctx te))"
  by (auto simp: ctx_inv_def reconcile_slots tick_ok_def list_all_length slot_step_inv)

lemma activate_inv:
  assumes "ctx_inv ctx" and "fk \<noteq> 0"
  shows "ctx_inv (fst (snd (sup_activate ctx name now fk)))"
proof (cases "sup_proc_find ctx name")
  case None
  with assms(1) show ?thesis by (simp add: sup_activate_def)
next
  case (Some i)
  then have "i < length (procs ctx)" using pt.find_SomeD [OF Some] by simp
  then have "proc_inv (max_attempts ctx) (procs ctx ! i)"
    using assms(1) by (simp add: ctx_inv_def list_all_length)
  then have "p_pid (procs ctx ! i) = SUP_PID_INVALID \<Longrightarrow> proc_inv (max_attempts ctx)
      (fst (spawn_or_backoff ctx now fk
        ((procs ctx ! i)\<lparr>p_fail_count := 0, p_state := SUP_ST_STOPPED\<rparr>)))"
    using assms(2) by (intro spawn_or_backoff_inv) (auto simp: proc_inv_def)
  with Some assms(1) show ?thesis
    by (auto simp: sup_activate_def Let_def ctx_inv_def case_prod_unfold intro!: list_all_update)
qed

text \<open>The two things that happen to the table between start and shutdown.\<close>

datatype sup_event = EvTick tick_env | EvActivate string int int

fun sup_event_ok :: "sup_event \<Rightarrow> bool" where
  "sup_event_ok (EvTick te) = tick_ok te"
| "sup_event_ok (EvActivate name now fk) = (fk \<noteq> 0)"

fun sup_step :: "sup_ctx \<Rightarrow> sup_event \<Rightarrow> sup_ctx" where
  "sup_step ctx (EvTick te) = fst (sup_reconcile ctx te)"
| "sup_step ctx (EvActivate name now fk) = fst (snd (sup_activate ctx name now fk))"

interpretation sm: event_machine sup_step sup_event_ok ctx_inv
proof
  fix s e
  assume "ctx_inv s" and "sup_event_ok e"
  then show "ctx_inv (sup_step s e)" by (cases e) (simp_all add: reconcile_inv activate_inv)
qed

section \<open>Backoff\<close>

lemma backoff_loop_ge: "0 \<le> ms \<Longrightarrow> ms \<le> backoff_loop mx k ms"
proof (induction mx k ms rule: backoff_loop.induct)
  case (2 mx k ms)
  then show ?case by (cases "ms < mx") auto
qed simp

lemma backoff_loop_exact:
  "0 < ms \<Longrightarrow> min (backoff_loop mx k ms) mx = min (ms * 2 ^ k) mx"
proof (induction mx k ms rule: backoff_loop.induct)
  case (1 mx ms)
  then show ?case by simp
next
  case (2 mx k ms)
  show ?case
  proof (cases "ms < mx")
    case True
    with 2 show ?thesis by (simp add: mult.assoc)
  next
    case False
    have "(1 :: int) \<le> 2 ^ Suc k" by (rule one_le_power) simp
    then have "ms * 1 \<le> ms * 2 ^ Suc k" using "2.prems" by (intro mult_left_mono) simp_all
    with False have "mx \<le> ms * 2 ^ Suc k" by linarith
    moreover have "backoff_loop mx (Suc k) ms = ms" using False by simp
    ultimately show ?thesis using False by (simp only: min_absorb2 linorder_not_less)
  qed
qed

lemma backoff_loop_bound: "0 < ms \<Longrightarrow> ms \<le> mx \<Longrightarrow> backoff_loop mx k ms \<le> 2 * mx"
proof (induction mx k ms rule: backoff_loop.induct)
  case (2 mx k ms)
  show ?case
  proof (cases "ms < mx")
    case True
    show ?thesis
    proof (cases "ms * 2 \<le> mx")
      case True
      with 2 \<open>ms < mx\<close> show ?thesis by simp
    next
      case False
      then have "backoff_loop mx k (ms * 2) = ms * 2" by (cases k) auto
      with \<open>ms < mx\<close> show ?thesis by simp
    qed
  next
    case False
    with "2.prems" show ?thesis by simp
  qed
qed simp

lemma sup_backoff_formula:
  assumes "0 < backoff_base_ms ctx"
  shows "sup_backoff_ms ctx p =
    min (backoff_base_ms ctx * 2 ^ nat (p_fail_count p - 1)) (backoff_max_ms ctx)"
  using backoff_loop_exact [OF assms, of "backoff_max_ms ctx" "nat (p_fail_count p - 1)"]
  by (auto simp: sup_backoff_ms_def Let_def min_def split: if_splits)

text \<open>A context whose delays are positive, as \<open>env_long\<close> guarantees.\<close>

definition cfg_pos :: "sup_ctx \<Rightarrow> bool" where
  "cfg_pos ctx \<longleftrightarrow> 0 < backoff_base_ms ctx \<and> 0 < backoff_max_ms ctx"

lemma env_long_pos: "0 < dflt \<Longrightarrow> 0 < env_long env key dflt"
  by (auto simp: env_long_def Let_def split: option.split list.split prod.split)

lemma decl_base_pos: "cfg_pos (decl_base env pw ctx)"
  by (simp add: cfg_pos_def decl_base_def Let_def env_long_pos SUP_DEFAULT_BACKOFF_BASE_MS_def
      SUP_DEFAULT_BACKOFF_MAX_MS_def)

definition pos_delay :: "sup_ctx \<Rightarrow> nat \<Rightarrow> int" where
  "pos_delay ctx n =
     min (max 1 (backoff_base_ms ctx) * 2 ^ n) (max 1 (backoff_max_ms ctx))"

interpretation bo: capped_delay "pos_delay ctx" "max 1 (backoff_base_ms ctx)"
    "max 1 (backoff_max_ms ctx)" for ctx
proof
  fix n
  have "max 1 (backoff_base_ms ctx) * 2 ^ n \<le> max 1 (backoff_base_ms ctx) * 2 ^ Suc n"
    by (intro mult_left_mono) simp_all
  then show "pos_delay ctx n \<le> pos_delay ctx (Suc n)" by (auto simp: pos_delay_def min_def)
qed (simp_all add: pos_delay_def)

lemma backoff_pos_delay:
  "cfg_pos ctx \<Longrightarrow> sup_backoff_ms ctx p = pos_delay ctx (nat (p_fail_count p - 1))"
  by (simp add: sup_backoff_formula cfg_pos_def pos_delay_def max_def)

lemma sup_backoff_pos: "cfg_pos ctx \<Longrightarrow> 0 < sup_backoff_ms ctx p"
  by (simp add: backoff_pos_delay bo.delay_pos)

section \<open>The lifecycle as an automaton\<close>

text \<open>The transitions a tick may make, by role. Leaving \<open>FAILED\<close> is not among them.\<close>

inductive sup_trans :: "sup_role \<Rightarrow> sup_state \<Rightarrow> sup_state \<Rightarrow> bool" where
  started: "sup_trans SUP_ROLE_CORE SUP_ST_STOPPED SUP_ST_STARTING"
| start_failed: "sup_trans SUP_ROLE_CORE SUP_ST_STOPPED SUP_ST_BACKOFF"
| retried: "sup_trans SUP_ROLE_CORE SUP_ST_BACKOFF SUP_ST_STARTING"
| gave_up: "sup_trans SUP_ROLE_CORE SUP_ST_BACKOFF SUP_ST_FAILED"
| healthy: "sup_trans SUP_ROLE_CORE SUP_ST_STARTING SUP_ST_RUNNING"
| died_starting: "sup_trans SUP_ROLE_CORE SUP_ST_STARTING SUP_ST_BACKOFF"
| died_running: "sup_trans SUP_ROLE_CORE SUP_ST_RUNNING SUP_ST_BACKOFF"
| aux_died: "sup_trans SUP_ROLE_AUX SUP_ST_STARTING SUP_ST_STOPPED"

code_pred sup_trans .

inductive_cases failed_transE: "sup_trans r SUP_ST_FAILED st"
inductive_cases aux_transE: "sup_trans SUP_ROLE_AUX st st'"

lemma reap_role [frame, simp]: "p_role (reap_proc ctx wr clk p) = p_role p"
  by (auto simp: reap_proc_def Let_def split: option.split)

lemma reap_trans:
  assumes "proc_inv mx p"
  shows "(sup_trans (p_role p))\<^sup>=\<^sup>= (p_state p) (p_state (reap_proc ctx wr clk p))"
  using assms
  by (cases "p_role p"; cases "p_state p")
    (auto simp: reap_proc_def proc_inv_def Let_def intro: sup_trans.intros split: option.split)

lemma tick_trans:
  assumes "proc_inv mx p"
  shows "(sup_trans (p_role p))\<^sup>=\<^sup>= (p_state p) (p_state (fst (tick_proc ctx now fk reach p)))"
proof (cases "p_role p")
  case SUP_ROLE_AUX
  then show ?thesis by (simp add: tick_proc_def)
next
  case SUP_ROLE_CORE
  have spawn: "p_state (fst (spawn_or_backoff ctx now fk p)) \<in> {SUP_ST_STARTING, SUP_ST_BACKOFF}"
    if "p_pid p = SUP_PID_INVALID"
    unfolding spawn_or_backoff_cases [OF that] by (simp add: Let_def)
  show ?thesis
    using SUP_ROLE_CORE assms spawn
    by (cases "p_state p")
      (auto simp: tick_proc_def sup_health_tick_def proc_inv_def Let_def intro: sup_trans.intros)
qed

section \<open>Counting starts\<close>

text \<open>
  A start of process \<open>n\<close> is counted where the tick issues it: a \<open>fork\<close> that gave a child, or a
  start that failed in \<open>spawn_posix\<close>.
\<close>

fun starts_of :: "string \<Rightarrow> sup_eff \<Rightarrow> bool" where
  "starts_of n (EffSpawn m argv pid) = (m = n)"
| "starts_of n (EffSpawnFail m) = (m = n)"
| "starts_of n (EffKill pid sig) = False"
| "starts_of n (EffWait pid) = False"

abbreviation count_starts :: "string \<Rightarrow> sup_eff list \<Rightarrow> nat" where
  "count_starts n effs \<equiv> length (filter (starts_of n) effs)"

lemma reap_name [frame, simp]: "p_name (reap_proc ctx wr clk p) = p_name p"
  by (auto simp: reap_proc_def Let_def split: option.split)

lemma tick_name [frame, simp]: "p_name (fst (tick_proc ctx now fk reach p)) = p_name p"
  by (auto simp: tick_proc_def spawn_or_backoff_def sup_proc_spawn_def spawn_posix_def
      sup_health_tick_def Let_def split: sup_state.split)

lemma slot_step_name [frame, simp]: "p_name (slot_step ctx i p te) = p_name p"
  by (simp add: slot_step_def slot_tick_def slot_reaped_def)

lemma spawn_effs_name:
  "e \<in> set (snd (spawn_or_backoff ctx now fk p)) \<Longrightarrow> starts_of n e \<Longrightarrow> n = p_name p"
  by (auto simp: spawn_or_backoff_def sup_proc_spawn_def spawn_posix_def split: if_splits)

lemma tick_effs_name:
  "e \<in> set (snd (tick_proc ctx now fk reach p)) \<Longrightarrow> starts_of n e \<Longrightarrow> n = p_name p"
  by (cases "p_state p")
    (auto simp: tick_proc_def sup_health_tick_def Let_def dest: spawn_effs_name split: if_splits)

lemma slot_effs_name:
  "e \<in> set (slot_effs ctx i p te) \<Longrightarrow> starts_of n e \<Longrightarrow> n = p_name p"
  by (auto simp: slot_effs_def slot_tick_def slot_reaped_def dest: tick_effs_name)

lemma count_starts_concat: "count_starts n (concat xss) = sum_list (map (count_starts n) xss)"
  by (induction xss) simp_all

lemma sum_list_single:
  "i < length xs \<Longrightarrow> (\<And>j. j < length xs \<Longrightarrow> j \<noteq> i \<Longrightarrow> xs ! j = (0::nat)) \<Longrightarrow> sum_list xs = xs ! i"
  by (simp add: sum_list_sum_nth) (subst sum.remove [of _ i], auto)

text \<open>With distinct names the starts of a process are those of its own slot.\<close>

lemma reconcile_starts:
  assumes "distinct (proc_names ctx)" and "i < length (procs ctx)"
  shows "count_starts (p_name (procs ctx ! i)) (snd (sup_reconcile ctx te)) =
    count_starts (p_name (procs ctx ! i)) (slot_effs ctx i (procs ctx ! i) te)"
proof -
  let ?n = "p_name (procs ctx ! i)"
  let ?xss = "mapi (\<lambda>i p. slot_effs ctx i p te) (procs ctx)"
  have "count_starts ?n (slot_effs ctx j (procs ctx ! j) te) = 0"
    if "j < length (procs ctx)" "j \<noteq> i" for j
  proof -
    have "?n \<noteq> p_name (procs ctx ! j)"
      using nth_eq_iff_index_eq [OF assms(1), of i j] assms(2) that by auto
    then show ?thesis using slot_effs_name [of _ ctx j "procs ctx ! j" te ?n] by (auto simp: filter_empty_conv)
  qed
  then have "sum_list (map (count_starts ?n) ?xss) = map (count_starts ?n) ?xss ! i"
    using assms(2) by (intro sum_list_single) simp_all
  then show ?thesis using assms(2) by (simp add: reconcile_slots count_starts_concat)
qed

definition unhealthy :: "nat \<Rightarrow> tick_env \<Rightarrow> bool" where
  "unhealthy i te \<longleftrightarrow> te_fork te i \<noteq> 0 \<and> \<not> te_probe te i"

definition start_pot :: "sup_proc \<Rightarrow> nat" where
  "start_pot p = nat (p_fail_count p) + (if p_pid p \<noteq> SUP_PID_INVALID then 1 else 0)"

definition start_bound :: "sup_ctx \<Rightarrow> nat" where
  "start_bound ctx = max 1 (nat (max_attempts ctx))"

definition storm_inv :: "sup_ctx \<Rightarrow> sup_proc \<Rightarrow> bool" where
  "storm_inv ctx p \<longleftrightarrow>
     proc_inv (max_attempts ctx) p \<and> p_sock p \<noteq> [] \<and> start_pot p \<le> start_bound ctx"

lemma reap_sock [frame, simp]: "p_sock (reap_proc ctx wr clk p) = p_sock p"
  by (auto simp: reap_proc_def Let_def split: option.split)

lemma reap_pot: "proc_inv mx p \<Longrightarrow> start_pot (reap_proc ctx wr clk p) = start_pot p"
  by (auto simp: reap_proc_def proc_inv_def start_pot_def Let_def split: option.split)

lemma tick_sock [frame, simp]: "p_sock (fst (tick_proc ctx now fk reach p)) = p_sock p"
  by (auto simp: tick_proc_def spawn_or_backoff_def sup_proc_spawn_def spawn_posix_def
      sup_health_tick_def Let_def split: sup_state.split)

lemma failed_pot: "start_pot (p\<lparr>p_state := st\<rparr>) = start_pot p"
  by (simp add: start_pot_def)

lemma spawn_pot:
  assumes "p_pid p = SUP_PID_INVALID" and "fk \<noteq> 0" and "0 \<le> p_fail_count p"
  shows "start_pot (fst (spawn_or_backoff ctx now fk p)) = start_pot p + 1"
  using assms unfolding spawn_or_backoff_cases [OF assms(1)]
  by (auto simp: start_pot_def Let_def SUP_PID_INVALID_def)

lemma spawn_starts:
  "p_pid p = SUP_PID_INVALID \<Longrightarrow> count_starts n (snd (spawn_or_backoff ctx now fk p)) \<le> 1"
  by (simp add: spawn_or_backoff_cases Let_def)

text \<open>Every start raises the potential; a tick of an unreachable process never lowers it.\<close>

lemma tick_pot:
  assumes "proc_inv (max_attempts ctx) p" and "fk \<noteq> 0" and "p_sock p \<noteq> []"
  shows "start_pot p + count_starts n (snd (tick_proc ctx now fk False p)) \<le>
    start_pot (fst (tick_proc ctx now fk False p))"
proof -
  have spawn: "start_pot p + count_starts n (snd (spawn_or_backoff ctx now fk p)) \<le>
      start_pot (fst (spawn_or_backoff ctx now fk p))"
    if "p_state p \<in> {SUP_ST_STOPPED, SUP_ST_BACKOFF}"
  proof -
    have pid: "p_pid p = SUP_PID_INVALID" and fc: "0 \<le> p_fail_count p"
      using assms(1) that by (auto simp: proc_inv_def)
    show ?thesis using spawn_pot [OF pid assms(2) fc] spawn_starts [OF pid] by simp
  qed
  have health: "start_pot p + count_starts n (snd (sup_health_tick ctx False p)) \<le>
      start_pot (fst (sup_health_tick ctx False p))"
    using assms(3) by (simp add: sup_health_tick_def start_pot_def Let_def)
  show ?thesis
    using spawn health by (cases "p_state p") (auto simp: tick_proc_def failed_pot)
qed

text \<open>Here the guard on \<open>max_attempts\<close> is what keeps the potential below the bound.\<close>

lemma tick_pot_bound:
  assumes "proc_inv (max_attempts ctx) p" and "fk \<noteq> 0" and "p_sock p \<noteq> []"
    and "start_pot p \<le> start_bound ctx"
  shows "start_pot (fst (tick_proc ctx now fk False p)) \<le> start_bound ctx"
proof -
  have spawn: "start_pot (fst (spawn_or_backoff ctx now fk p)) \<le> start_bound ctx"
    if role: "p_role p = SUP_ROLE_CORE"
      and st: "p_state p = SUP_ST_STOPPED \<or> p_state p = SUP_ST_BACKOFF \<and> p_fail_count p < max_attempts ctx"
  proof -
    have pid: "p_pid p = SUP_PID_INVALID" and fc: "0 \<le> p_fail_count p"
      using assms(1) st by (auto simp: proc_inv_def)
    have "p_fail_count p < max 1 (max_attempts ctx)"
      using assms(1) st role by (auto simp: proc_inv_def)
    then show ?thesis
      using spawn_pot [OF pid assms(2) fc] pid by (simp add: start_pot_def start_bound_def)
  qed
  have health: "start_pot (fst (sup_health_tick ctx False p)) = start_pot p"
    using assms(3) by (simp add: sup_health_tick_def start_pot_def Let_def)
  show ?thesis
    using assms(4) spawn health by (cases "p_state p") (auto simp: tick_proc_def failed_pot)
qed

interpretation storm: potential_machine "slot_step ctx i" "unhealthy i" "storm_inv ctx"
    "\<lambda>p te. count_starts n (slot_effs ctx i p te)" start_pot "start_bound ctx" for ctx i n
proof
  fix p te
  assume p: "storm_inv ctx p" and te: "unhealthy i te"
  let ?q = "slot_reaped ctx i p te"
  have q: "proc_inv (max_attempts ctx) ?q" "p_sock ?q \<noteq> []" "start_pot ?q = start_pot p"
    using p reap_pot [of "max_attempts ctx" p] by (simp_all add: storm_inv_def slot_reaped_def reap_inv)
  have step: "slot_step ctx i p te = fst (tick_proc ctx (te_now te) (te_fork te i) False ?q)"
    "slot_effs ctx i p te = snd (tick_proc ctx (te_now te) (te_fork te i) False ?q)"
    and fk: "te_fork te i \<noteq> 0"
    using te by (simp_all add: slot_step_def slot_effs_def slot_tick_def unhealthy_def)
  show "storm_inv ctx (slot_step ctx i p te)"
    using p q fk by (simp add: storm_inv_def step tick_inv tick_pot_bound)
  show "start_pot p + count_starts n (slot_effs ctx i p te) \<le> start_pot (slot_step ctx i p te)"
    using tick_pot [OF q(1) fk q(2), of n] q(3) by (simp add: step)
qed (simp add: storm_inv_def)

section \<open>Hung processes\<close>

definition hung_tick :: "nat \<Rightarrow> tick_env \<Rightarrow> bool" where
  "hung_tick i te \<longleftrightarrow> te_wait te i = WaitRunning \<and> \<not> te_probe te i"

definition hung_proc :: "sup_proc \<Rightarrow> bool" where
  "hung_proc p \<longleftrightarrow> p_role p = SUP_ROLE_CORE \<and> p_pid p \<noteq> SUP_PID_INVALID \<and> p_sock p \<noteq> [] \<and>
     p_state p \<in> {SUP_ST_STARTING, SUP_ST_RUNNING}"

lemma hung_step:
  assumes "hung_proc p" and "hung_tick i te"
  shows "slot_step ctx i p te = p\<lparr>p_dead_ticks := p_dead_ticks p + 1\<rparr>"
    and "slot_effs ctx i p te =
      (if p_dead_ticks p + 1 \<ge> liveness_ticks ctx then [EffKill (p_pid p) SIGKILL] else [])"
  using assms
  by (auto simp: slot_step_def slot_effs_def slot_tick_def slot_reaped_def reap_proc_def
      hung_proc_def hung_tick_def tick_proc_def sup_health_tick_def Let_def)

lemma hung_run:
  "hung_proc p \<Longrightarrow> list_all (hung_tick i) tes \<Longrightarrow>
   foldl (slot_step ctx i) p tes = p\<lparr>p_dead_ticks := p_dead_ticks p + int (length tes)\<rparr>"
proof (induction tes arbitrary: p)
  case Nil
  then show ?case by simp
next
  case (Cons te tes)
  have "hung_proc (p\<lparr>p_dead_ticks := p_dead_ticks p + 1\<rparr>)"
    using Cons.prems(1) by (simp add: hung_proc_def)
  with Cons show ?case by (simp add: hung_step(1))
qed

section \<open>Shutdown and the pid file\<close>

lemma shut_poll_total:
  assumes "clk N \<ge> deadline" and "k \<le> N" and "N - k < fuel"
  shows "\<exists>qs. shut_poll fuel wr clk deadline k ps = Some qs"
  using assms
proof (induction fuel arbitrary: k ps)
  case 0
  then show ?case by simp
next
  case (Suc fuel)
  show ?case
  proof (cases "k = N")
    case True
    with Suc.prems show ?thesis by (simp add: Let_def)
  next
    case False
    with Suc.prems have "Suc k \<le> N" and "N - Suc k < fuel" by linarith+
    then obtain qs where "shut_poll fuel wr clk deadline (Suc k) (shut_round (wr k) ps) = Some qs"
      using Suc.IH Suc.prems(1) by blast
    then show ?thesis by (simp add: Let_def)
  qed
qed

text \<open>
  Which children are still there after the polling rounds \<open>0, \<dots>, K\<close>, said of the answers of
  \<open>waitpid\<close> alone: no round found the child dead or unknown.
\<close>

definition still_there :: "shut_env \<Rightarrow> nat \<Rightarrow> nat \<Rightarrow> bool" where
  "still_there se K i \<longleftrightarrow>
     (\<forall>k\<le>K. se_poll se k i \<noteq> WaitError ECHILD \<and> (\<forall>st. se_poll se k i \<noteq> WaitDead st))"

definition survivors :: "shut_env \<Rightarrow> sup_proc list \<Rightarrow> nat \<Rightarrow> nat list" where
  "survivors se ps K =
     filter (\<lambda>i. p_pid (ps ! i) \<noteq> SUP_PID_INVALID \<and> still_there se K i) [0..<length ps]"

text \<open>The table after \<open>k\<close> rounds of polling.\<close>

definition polled :: "(nat \<Rightarrow> nat \<Rightarrow> wait_res) \<Rightarrow> nat \<Rightarrow> sup_proc list \<Rightarrow> sup_proc list" where
  "polled wr k ps =
     mapi (\<lambda>i p. if \<exists>j<k. poll_gone (wr j i) then p\<lparr>p_pid := SUP_PID_INVALID\<rparr> else p) ps"

lemma polled_0: "polled wr 0 ps = ps"
  by (rule nth_equalityI) (simp_all add: polled_def)

lemma shut_round_polled: "shut_round (wr k) (polled wr k ps) = polled wr (Suc k) ps"
  by (rule nth_equalityI) (auto simp: polled_def shut_round_def less_Suc_eq)

lemma live_pids_index:
  "live_pids ps = map (\<lambda>i. p_pid (ps ! i)) (filter (\<lambda>i. p_pid (ps ! i) \<noteq> SUP_PID_INVALID) [0..<length ps])"
proof -
  have "filter P ps = map ((!) ps) (filter (P \<circ> (!) ps) [0..<length ps])" for P
    by (subst filter_map [symmetric]) (simp add: map_nth)
  then show ?thesis by (simp add: live_pids_def comp_def)
qed

lemma poll_gone_iff: "poll_gone r \<longleftrightarrow> r = WaitError ECHILD \<or> (\<exists>st. r = WaitDead st)"
  by (cases r) auto

lemma live_polled:
  "live_pids (polled (se_poll se) (Suc K) ps) = map (\<lambda>i. p_pid (ps ! i)) (survivors se ps K)"
proof -
  have "p_pid (polled (se_poll se) (Suc K) ps ! i) \<noteq> SUP_PID_INVALID \<longleftrightarrow>
      p_pid (ps ! i) \<noteq> SUP_PID_INVALID \<and> still_there se K i" if "i < length ps" for i
    using that by (auto simp: polled_def still_there_def poll_gone_iff less_Suc_eq_le)
  then have "filter (\<lambda>i. p_pid (polled (se_poll se) (Suc K) ps ! i) \<noteq> SUP_PID_INVALID) [0..<length ps] =
      survivors se ps K"
    unfolding survivors_def by (intro filter_cong) auto
  moreover have "p_pid (polled (se_poll se) (Suc K) ps ! i) = p_pid (ps ! i)"
    if "i \<in> set (survivors se ps K)" for i
    using that by (auto simp: survivors_def polled_def still_there_def poll_gone_iff less_Suc_eq_le)
  moreover have "length (polled (se_poll se) (Suc K) ps) = length ps" by (simp add: polled_def)
  ultimately show ?thesis by (simp add: live_pids_index)
qed

text \<open>The polling loop stops at the first round after which nobody is left or the time is up.\<close>

lemma shut_poll_exact:
  "shut_poll fuel wr clk deadline k (polled wr k ps) = Some qs \<Longrightarrow>
   \<exists>K\<ge>k. qs = polled wr (Suc K) ps \<and> (live_pids qs = [] \<or> deadline \<le> clk K) \<and>
     (\<forall>j. k \<le> j \<and> j < K \<longrightarrow> live_pids (polled wr (Suc j) ps) \<noteq> [] \<and> clk j < deadline)"
proof (induction fuel arbitrary: k)
  case 0
  then show ?case by simp
next
  case (Suc fuel)
  show ?case
  proof (cases "live_pids (polled wr (Suc k) ps) = [] \<or> clk k \<ge> deadline")
    case True
    with Suc.prems show ?thesis by (intro exI [of _ k]) (auto simp: shut_round_polled Let_def)
  next
    case False
    with Suc.prems have "shut_poll fuel wr clk deadline (Suc k) (polled wr (Suc k) ps) = Some qs"
      by (simp add: shut_round_polled Let_def)
    from Suc.IH [OF this] obtain K where K: "K \<ge> Suc k" "qs = polled wr (Suc K) ps"
      "live_pids qs = [] \<or> deadline \<le> clk K"
      "\<forall>j. Suc k \<le> j \<and> j < K \<longrightarrow> live_pids (polled wr (Suc j) ps) \<noteq> [] \<and> clk j < deadline"
      by blast
    have "live_pids (polled wr (Suc j) ps) \<noteq> [] \<and> clk j < deadline" if "k \<le> j" "j < K" for j
      using that K(4) False by (cases "j = k") auto
    with K show ?thesis by (intro exI [of _ K]) auto
  qed
qed

lemma wait_blocking_total:
  "w N \<noteq> WaitError EINTR \<Longrightarrow> k \<le> N \<Longrightarrow> N - k < fuel \<Longrightarrow> wait_blocking fuel w k"
proof (induction fuel arbitrary: k)
  case 0
  then show ?case by simp
next
  case (Suc fuel)
  show ?case
  proof (cases "k = N")
    case True
    with Suc.prems show ?thesis by simp
  next
    case False
    with Suc.prems have "Suc k \<le> N" and "N - Suc k < fuel" by linarith+
    then have "wait_blocking fuel w (Suc k)" using Suc.IH Suc.prems(1) by blast
    then show ?thesis by simp
  qed
qed

lemma fgets_first_line:
  assumes "\<forall>c\<in>set s. c \<noteq> chr_nl" and "length s + length acc < sz - 1" and "length acc = k"
  shows "fgets_acc sz k acc (s @ [chr_nl]) = [rev acc @ s @ [chr_nl]]"
  using assms by (induction s arbitrary: acc k) auto

lemma pidfile_busy_own:
  assumes "0 < self" and "self < 2 ^ 31" and "alive self"
  shows "pidfile_busy alive (Some (show_int self @ [chr_nl]))"
proof -
  let ?s = "show_nat (nat self)"
  have s: "show_int self = ?s" using assms(1) by (simp add: show_int_def)
  have nl: "\<forall>c\<in>set ?s. c \<noteq> chr_nl"
    using show_nat_digits [of chr_nl "nat self"] by (auto simp: c_isdigit_def chr_nl_def)
  have "nat self < 10 ^ 10" using assms(2) by simp
  then have "length ?s \<le> 10" by (rule length_show_nat) simp
  then have line: "fgets_lines 64 (?s @ [chr_nl]) = [?s @ [chr_nl]]"
    using nl fgets_first_line [of ?s "[]" 64 0] by (simp add: fgets_lines_def)
  have "strtol (?s @ [chr_nl]) = (int (nat self), [chr_nl])"
    using assms(1,2) by (intro strtol_show_nat_rest) (simp_all add: LONG_MAX_def c_isdigit_def chr_nl_def)
  moreover have "?s \<noteq> []" using show_nat_Cons [of "nat self"] by auto
  ultimately show ?thesis
    using assms by (simp add: pidfile_busy_def s line pid_alive_def)
qed

section \<open>Properties\<close>

lemma reconcile_run_starts:
  "distinct (proc_names ctx) \<Longrightarrow> i < length (procs ctx) \<Longrightarrow> p_name (procs ctx ! i) = n \<Longrightarrow>
   trace_sum (\<lambda>c te. fst (sup_reconcile c te)) (\<lambda>c te. count_starts n (snd (sup_reconcile c te))) ctx tes =
   trace_sum (slot_step ctx i) (\<lambda>p te. count_starts n (slot_effs ctx i p te)) (procs ctx ! i) tes"
proof (induction tes arbitrary: ctx)
  case Nil
  then show ?case by simp
next
  case (Cons te tes)
  let ?c = "fst (sup_reconcile ctx te)"
  have cfg: "same_cfg ?c ctx" by (simp add: reconcile_slots)
  have "slot_effs ?c = slot_effs ctx"
    by (intro ext) (unfold slot_effs_def slot_tick_def slot_reaped_def tick_proc_cfg [OF cfg], rule refl)
  moreover have "slot_step ?c = slot_step ctx" using cfg by (rule slot_step_cfg)
  moreover have p: "procs ?c ! i = slot_step ctx i (procs ctx ! i) te"
    using Cons.prems(2) by (simp add: reconcile_slots)
  moreover have "proc_names ?c = proc_names ctx"
    by (rule nth_equalityI) (simp_all add: reconcile_slots)
  moreover have "length (procs ?c) = length (procs ctx)" by (simp add: reconcile_slots)
  ultimately show ?case
    using Cons.IH [of ?c] reconcile_starts [OF Cons.prems(1,2), of te] Cons.prems by simp
qed

lemma ctx_inv_nth: "ctx_inv ctx \<Longrightarrow> i < length (procs ctx) \<Longrightarrow> proc_inv (max_attempts ctx) (procs ctx ! i)"
  by (simp add: ctx_inv_def list_all_length)

lemma table_ok_ctx_inv: "table_ok ctx \<Longrightarrow> ctx_inv ctx"
  by (simp add: table_ok_def ctx_inv_def list_all_length decl_ok_inv)

text \<open>
  C5. From a freshly loaded table on, whatever ticks and activations happen in whatever order
  and whatever the system answers, every process keeps the lifecycle invariant: it has a
  (positive) pid exactly while starting or running, a running one has no failures on record,
  a failed one has used up its attempts, an on-demand one is never running or failed.
\<close>

theorem supervisor_run_inv:
  assumes "list_all sup_event_ok es"
  shows "ctx_inv (foldl sup_step (snd (sup_decl_load env pw profile ctx)) es)"
  using assms
proof (intro sm.events_inv)
  have "table_ok (snd (sup_decl_defaults env c))" for c using sup_decl_defaults_ok by blast
  moreover have "table_ok (foldl decl_pass1 (snd (foldl (decl_pass0 env) (False, c\<lparr>procs := []\<rparr>) ls)) ls)"
    for c ls by (intro dp1.run_inv dp0.run_inv) (simp add: table_ok_def)
  ultimately have "table_ok (snd (sup_decl_load env pw profile ctx))"
    by (simp add: sup_decl_load_def Let_def case_prod_unfold split: option.split)
  then show "ctx_inv (snd (sup_decl_load env pw profile ctx))" by (rule table_ok_ctx_inv)
qed

definition example_te :: "wait_res \<Rightarrow> int \<Rightarrow> int \<Rightarrow> bool \<Rightarrow> tick_env" where
  "example_te wr now fk reach =
     \<lparr>te_now = now, te_wait = (\<lambda>_. wr), te_reap_clock = (\<lambda>_. now), te_fork = (\<lambda>_. fk),
      te_probe = (\<lambda>_. reach)\<rparr>"

theorem supervisor_run_inv_witness:
  "ctx_inv (foldl sup_step (snd (sup_decl_load (\<lambda>_. None) None None (example_ctx [])))
     [EvTick (example_te WaitRunning 0 77 False), EvActivate ''mem_d'' 5 78])"
  by (rule supervisor_run_inv) (simp add: tick_ok_def example_te_def)

text \<open>
  C2. No restart storm: as long as a core process with an endpoint is never found reachable, the
  supervisor starts it at most \<open>max_attempts\<close> times (once, should the limit be 0 or less),
  however many ticks pass and however its children die. What is counted are the starts the
  ticks really issue for that name, \<open>fork\<close>s that gave a child and starts that failed alike; after
  the last of them only an explicit activation starts the process again. Names in the table are
  distinct.
\<close>

theorem restart_storm_bounded:
  assumes "ctx_inv ctx" and "distinct (proc_names ctx)"
    and "i < length (procs ctx)" and "p_sock (procs ctx ! i) \<noteq> []"
    and "p_fail_count (procs ctx ! i) = 0" and "p_pid (procs ctx ! i) = SUP_PID_INVALID"
    and "list_all (unhealthy i) tes"
  shows "trace_sum (\<lambda>c te. fst (sup_reconcile c te))
      (\<lambda>c te. length (filter (starts_of (p_name (procs ctx ! i))) (snd (sup_reconcile c te)))) ctx tes
    \<le> max 1 (nat (max_attempts ctx))"
proof -
  have "storm_inv ctx (procs ctx ! i)"
    using assms(1,3-6) ctx_inv_nth by (simp add: storm_inv_def start_pot_def)
  from storm.trace_sum_bound [OF this assms(7), of "p_name (procs ctx ! i)"] show ?thesis
    using reconcile_run_starts [OF assms(2,3) refl, of tes] by (simp add: start_bound_def)
qed

lemma example_ctx_ok:
  assumes "\<forall>n\<in>set ns. n \<noteq> []" and "length ns \<le> 16"
  shows "table_ok (example_ctx ns)"
  using assms by (auto simp: table_ok_def example_ctx_def Let_def list_all_iff sup_consts
      intro: blank_proc_ok)

lemma example_ctx_proc:
  "procs (example_ctx [n]) ! 0 = blank_proc (example_ctx []) n SUP_ROLE_CORE"
  "length (procs (example_ctx [n])) = 1"
  by (simp_all add: example_ctx_def Let_def blank_proc_def)

theorem restart_storm_bounded_witness:
  "trace_sum (\<lambda>c te. fst (sup_reconcile c te))
     (\<lambda>c te. length (filter (starts_of ''llm_d'') (snd (sup_reconcile c te))))
     ((example_ctx [''llm_d''])\<lparr>procs := [(procs (example_ctx [''llm_d'']) ! 0)\<lparr>p_sock := ''s''\<rparr>]\<rparr>)
     (replicate 100 (example_te (WaitDead (Exited 1)) 0 9 False)) \<le> 5"
proof -
  let ?p = "(procs (example_ctx [''llm_d'']) ! 0)\<lparr>p_sock := ''s''\<rparr>"
  let ?c = "(example_ctx [''llm_d''])\<lparr>procs := [?p]\<rparr>"
  have p: "proc_decl_ok (procs (example_ctx [''llm_d'']) ! 0)"
    by (rule table_ok_nth [OF example_ctx_ok]) (simp_all add: example_ctx_def Let_def)
  then have inv: "ctx_inv ?c"
    by (intro table_ok_ctx_inv) (simp add: table_ok_def proc_decl_ok_def sup_consts)
  have mx: "max_attempts ?c = 5" by (simp add: example_ctx_def Let_def)
  have n: "p_name ?p = ''llm_d''" by (simp add: example_ctx_proc blank_proc_def snprintf_s_def sup_consts)
  show ?thesis
    using restart_storm_bounded [OF inv, of 0 "replicate 100 (example_te (WaitDead (Exited 1)) 0 9 False)"]
      p mx n by (simp add: proc_decl_ok_def list_all_iff unhealthy_def example_te_def)
qed

text \<open>
  The delay after the n-th failure in a row is \<open>base * 2 ^ (n - 1)\<close> capped at the configured
  maximum; it is always positive, never shrinks as failures accumulate, and the doubling loop
  never leaves the range of a 64-bit integer when the maximum is at most \<open>2 ^ 62\<close>.
\<close>

theorem backoff_delay_law:
  assumes "0 < backoff_base_ms ctx" and "0 < backoff_max_ms ctx"
  shows "sup_backoff_ms ctx p =
      min (backoff_base_ms ctx * 2 ^ nat (p_fail_count p - 1)) (backoff_max_ms ctx) \<and>
    0 < sup_backoff_ms ctx p \<and> sup_backoff_ms ctx p \<le> backoff_max_ms ctx \<and>
    (p_fail_count p \<le> p_fail_count q \<longrightarrow> sup_backoff_ms ctx p \<le> sup_backoff_ms ctx q) \<and>
    (backoff_base_ms ctx \<le> backoff_max_ms ctx \<and> backoff_max_ms ctx \<le> 2 ^ 62 \<longrightarrow>
     backoff_loop (backoff_max_ms ctx) k (backoff_base_ms ctx) \<le> 2 ^ 63)"
proof -
  have pos: "cfg_pos ctx" using assms by (simp add: cfg_pos_def)
  have mono: "sup_backoff_ms ctx p \<le> sup_backoff_ms ctx q" if "p_fail_count p \<le> p_fail_count q"
    unfolding backoff_pos_delay [OF pos] using that by (intro bo.delay_mono) simp
  have loop: "backoff_loop (backoff_max_ms ctx) k (backoff_base_ms ctx) \<le> 2 * backoff_max_ms ctx"
    if "backoff_base_ms ctx \<le> backoff_max_ms ctx"
    using assms(1) that by (rule backoff_loop_bound)
  show ?thesis
    using sup_backoff_formula [OF assms(1), of p] sup_backoff_pos [OF pos, of p] mono loop by auto
qed

theorem backoff_delay_law_witness:
  "sup_backoff_ms (example_ctx []) ((blank_proc (example_ctx []) ''x'' SUP_ROLE_CORE)\<lparr>p_fail_count := 4\<rparr>)
   = 8000"
  using backoff_delay_law [of "example_ctx []"
      "(blank_proc (example_ctx []) ''x'' SUP_ROLE_CORE)\<lparr>p_fail_count := 4\<rparr>"]
  by (simp add: example_ctx_def Let_def)

text \<open>
  A core process found dead in a tick is not started in that tick: it goes to \<open>BACKOFF\<close> with
  one more failure on record, its earliest restart lies a full backoff delay after the moment it
  was reaped, and until that moment every tick leaves it alone.
\<close>

theorem core_death_waits_backoff:
  assumes "0 < backoff_base_ms ctx" and "0 < backoff_max_ms ctx"
    and "p_role p = SUP_ROLE_CORE" and "p_pid p \<noteq> SUP_PID_INVALID"
    and "te_wait te i = WaitDead st" and "te_now te \<le> te_reap_clock te i"
  shows "let q = slot_step ctx i p te
    in slot_effs ctx i p te = [] \<and> p_state q = SUP_ST_BACKOFF \<and> p_pid q = SUP_PID_INVALID \<and>
       p_fail_count q = p_fail_count p + 1 \<and>
       p_next_ms q = te_reap_clock te i +
         min (backoff_base_ms ctx * 2 ^ nat (p_fail_count p)) (backoff_max_ms ctx) \<and>
       (te_now te' < p_next_ms q \<longrightarrow> slot_step ctx i q te' = q \<and> slot_effs ctx i q te' = [])"
proof -
  let ?q = "slot_reaped ctx i p te"
  have q: "p_state ?q = SUP_ST_BACKOFF" "p_pid ?q = SUP_PID_INVALID"
    "p_fail_count ?q = p_fail_count p + 1" "p_role ?q = SUP_ROLE_CORE"
    "p_next_ms ?q = te_reap_clock te i + sup_backoff_ms ctx ?q"
    using assms(3-5) by (simp_all add: slot_reaped_def reap_proc_def Let_def sup_backoff_ms_def)
  have b: "sup_backoff_ms ctx ?q =
      min (backoff_base_ms ctx * 2 ^ nat (p_fail_count p)) (backoff_max_ms ctx)"
    using sup_backoff_formula [OF assms(1), of ?q] q(3) by simp
  have "cfg_pos ctx" using assms(1,2) by (simp add: cfg_pos_def)
  then have "te_now te < p_next_ms ?q"
    using q(5) assms(6) sup_backoff_pos [of ctx ?q] by simp
  then have tick: "slot_tick ctx i p te = (?q, [])"
    using q by (simp add: slot_tick_def tick_proc_def)
  have wait: "slot_tick ctx i ?q te' = (?q, [])" if "te_now te' < p_next_ms ?q"
    using q that by (simp add: slot_tick_def slot_reaped_def [of ctx i ?q] reap_proc_def tick_proc_def)
  show ?thesis
    using q b tick wait by (simp add: slot_step_def slot_effs_def Let_def)
qed

theorem core_death_waits_backoff_witness:
  "p_next_ms (slot_step (example_ctx []) 0
     ((blank_proc (example_ctx []) ''x'' SUP_ROLE_CORE)\<lparr>p_pid := 7, p_state := SUP_ST_RUNNING\<rparr>)
     (example_te (WaitDead (Signaled 9)) 100 1 True)) = 1100"
  using core_death_waits_backoff [of "example_ctx []"
      "(blank_proc (example_ctx []) ''x'' SUP_ROLE_CORE)\<lparr>p_pid := 7, p_state := SUP_ST_RUNNING\<rparr>"
      "example_te (WaitDead (Signaled 9)) 100 1 True" 0 "Signaled 9"]
  by (simp add: example_ctx_def Let_def blank_proc_def example_te_def SUP_PID_INVALID_def)

text \<open>
  A hung core process (alive, but its endpoint never answers) is killed exactly from the
  tick on that makes its count of unanswered probes reach \<open>liveness_ticks\<close>, and not earlier.
\<close>

theorem hung_process_killed:
  assumes "hung_proc p" and "list_all (hung_tick i) tes" and "hung_tick i te"
  shows "slot_effs ctx i (foldl (slot_step ctx i) p tes) te =
    (if p_dead_ticks p + int (length tes) + 1 \<ge> liveness_ticks ctx
     then [EffKill (p_pid p) SIGKILL] else [])"
proof -
  have "hung_proc (p\<lparr>p_dead_ticks := p_dead_ticks p + int (length tes)\<rparr>)"
    using assms(1) by (simp add: hung_proc_def)
  then show ?thesis
    unfolding hung_run [OF assms(1,2)] using hung_step(2) [OF _ assms(3)] by simp
qed

theorem hung_process_killed_witness:
  "slot_effs (example_ctx []) 0
     (foldl (slot_step (example_ctx []) 0)
        ((blank_proc (example_ctx []) ''x'' SUP_ROLE_CORE)
           \<lparr>p_pid := 7, p_sock := ''s'', p_state := SUP_ST_RUNNING\<rparr>)
        [example_te WaitRunning 0 1 False, example_te WaitRunning 5 1 False])
     (example_te WaitRunning 9 1 False) = [EffKill 7 9]"
proof -
  have "hung_proc ((blank_proc (example_ctx []) ''x'' SUP_ROLE_CORE)
      \<lparr>p_pid := 7, p_sock := ''s'', p_state := SUP_ST_RUNNING\<rparr>)"
    by (simp add: hung_proc_def blank_proc_def SUP_PID_INVALID_def)
  from hung_process_killed [OF this, of 0
      "[example_te WaitRunning 0 1 False, example_te WaitRunning 5 1 False]"
      "example_te WaitRunning 9 1 False" "example_ctx []"]
  show ?thesis
    by (simp add: hung_tick_def example_te_def blank_proc_def example_ctx_def Let_def SIGKILL_def)
qed

text \<open>
  C7. The table after a tick is reached from the table before it by at most two transitions of
  the documented lifecycle per process (one for reaping, one for ticking); in particular no tick
  moves a process out of \<open>FAILED\<close>, and no tick touches the configuration.
\<close>

theorem reconcile_refines_lifecycle:
  assumes "ctx_inv ctx" and "i < length (procs ctx)"
  shows "let p = procs ctx ! i; q = procs (fst (sup_reconcile ctx te)) ! i
    in ((sup_trans (p_role p))\<^sup>=\<^sup>= OO (sup_trans (p_role p))\<^sup>=\<^sup>=) (p_state p) (p_state q) \<and>
       (p_state p = SUP_ST_FAILED \<longrightarrow> p_state q = SUP_ST_FAILED) \<and>
       (fst (sup_reconcile ctx te))\<lparr>procs := procs ctx\<rparr> = ctx"
proof -
  let ?p = "procs ctx ! i" and ?r = "slot_reaped ctx i (procs ctx ! i) te"
  have p: "proc_inv (max_attempts ctx) ?p" using assms by (rule ctx_inv_nth)
  have q: "procs (fst (sup_reconcile ctx te)) ! i =
      fst (tick_proc ctx (te_now te) (te_fork te i) (te_probe te i) ?r)"
    using assms(2) by (simp add: reconcile_slots slot_step_def slot_tick_def)
  have 1: "(sup_trans (p_role ?p))\<^sup>=\<^sup>= (p_state ?p) (p_state ?r)"
    unfolding slot_reaped_def using p by (rule reap_trans)
  have "proc_inv (max_attempts ctx) ?r" unfolding slot_reaped_def using p by (rule reap_inv)
  from tick_trans [OF this] have 2: "(sup_trans (p_role ?p))\<^sup>=\<^sup>= (p_state ?r)
      (p_state (fst (tick_proc ctx (te_now te) (te_fork te i) (te_probe te i) ?r)))"
    by (simp add: slot_reaped_def)
  have "p_state ?r = SUP_ST_FAILED" if "p_state ?p = SUP_ST_FAILED"
    using 1 that by (auto elim: failed_transE)
  then have 3: "p_state (fst (tick_proc ctx (te_now te) (te_fork te i) (te_probe te i) ?r)) = SUP_ST_FAILED"
    if "p_state ?p = SUP_ST_FAILED"
    using 2 that by (auto elim: failed_transE)
  have "(fst (sup_reconcile ctx te))\<lparr>procs := procs ctx\<rparr> = ctx" by (simp add: reconcile_slots)
  moreover from 1 2 have "((sup_trans (p_role ?p))\<^sup>=\<^sup>= OO (sup_trans (p_role ?p))\<^sup>=\<^sup>=) (p_state ?p)
      (p_state (fst (tick_proc ctx (te_now te) (te_fork te i) (te_probe te i) ?r)))"
    by (rule relcomppI)
  ultimately show ?thesis using 3 unfolding Let_def q by blast
qed

theorem reconcile_refines_lifecycle_witness:
  "((sup_trans SUP_ROLE_CORE)\<^sup>=\<^sup>= OO (sup_trans SUP_ROLE_CORE)\<^sup>=\<^sup>=) SUP_ST_STOPPED
     (p_state (procs (fst (sup_reconcile (example_ctx [''x'']) (example_te WaitRunning 0 5 True))) ! 0))"
proof -
  have "ctx_inv (example_ctx [''x''])" by (rule table_ok_ctx_inv [OF example_ctx_ok]) simp_all
  from reconcile_refines_lifecycle [OF this, of 0] show ?thesis
    by (simp add: Let_def example_ctx_proc blank_proc_def)
qed

text \<open>
  Every signal a tick sends is a \<open>SIGKILL\<close> to the positive pid of a child the table holds
  before and after the tick; the supervisor never signals a process group, everyone, or a
  process it has already reaped.
\<close>

theorem reconcile_signals_own_children:
  assumes "ctx_inv ctx" and "EffKill pid sig \<in> set (snd (sup_reconcile ctx te))"
  shows "sig = SIGKILL \<and> 0 < pid \<and> pid \<in> set (live_pids (procs ctx)) \<and>
    pid \<in> set (live_pids (procs (fst (sup_reconcile ctx te))))"
proof -
  obtain i where i: "i < length (procs ctx)" "EffKill pid sig \<in> set (slot_effs ctx i (procs ctx ! i) te)"
    using assms(2) by (fastforce simp: reconcile_slots in_set_conv_nth)
  let ?p = "procs ctx ! i" and ?r = "slot_reaped ctx i (procs ctx ! i) te"
  have inv: "proc_inv (max_attempts ctx) ?r"
    unfolding slot_reaped_def using ctx_inv_nth [OF assms(1) i(1)] by (rule reap_inv)
  have spawn: "EffKill pid sig \<notin> set (snd (spawn_or_backoff ctx now fk q))" for now fk q
    by (auto simp: spawn_or_backoff_def sup_proc_spawn_def spawn_posix_def)
  have r: "sig = SIGKILL \<and> pid = p_pid ?r \<and> p_pid ?r \<noteq> SUP_PID_INVALID \<and>
      p_pid (slot_step ctx i ?p te) = p_pid ?r"
    using i(2) spawn
    by (cases "p_state ?r")
      (auto simp: slot_effs_def slot_step_def slot_tick_def tick_proc_def sup_health_tick_def Let_def
        split: if_splits)
  moreover have "p_pid ?p = p_pid ?r" if "p_pid ?r \<noteq> SUP_PID_INVALID"
    using that by (auto simp: slot_reaped_def reap_proc_def Let_def split: option.splits if_splits)
  ultimately have old: "p_pid ?p = pid" and new: "p_pid (procs (fst (sup_reconcile ctx te)) ! i) = pid"
    and pid: "pid \<noteq> SUP_PID_INVALID" "0 < pid" "sig = SIGKILL"
    using i(1) inv by (auto simp: reconcile_slots proc_inv_def)
  have "pid \<in> set (live_pids (procs ctx))"
    using old pid(1) nth_mem [OF i(1)] by (auto simp: live_pids_def)
  moreover have "procs (fst (sup_reconcile ctx te)) ! i \<in> set (procs (fst (sup_reconcile ctx te)))"
    using i(1) by (intro nth_mem) (simp add: reconcile_slots)
  then have "pid \<in> set (live_pids (procs (fst (sup_reconcile ctx te))))"
    using new pid(1) by (auto simp: live_pids_def)
  ultimately show ?thesis using pid by simp
qed

theorem reconcile_signals_own_children_witness:
  "(let c = (example_ctx [])\<lparr>procs := [(blank_proc (example_ctx []) ''x'' SUP_ROLE_CORE)
        \<lparr>p_pid := 7, p_sock := ''s'', p_dead_ticks := 2, p_state := SUP_ST_RUNNING\<rparr>]\<rparr>
    in EffKill 7 SIGKILL \<in> set (snd (sup_reconcile c (example_te WaitRunning 0 1 False))) \<and>
       7 \<in> set (live_pids (procs c)))"
proof -
  let ?c = "(example_ctx [])\<lparr>procs := [(blank_proc (example_ctx []) ''x'' SUP_ROLE_CORE)
        \<lparr>p_pid := 7, p_sock := ''s'', p_dead_ticks := 2, p_state := SUP_ST_RUNNING\<rparr>]\<rparr>"
  have inv: "ctx_inv ?c" by (simp add: ctx_inv_def proc_inv_def blank_proc_def SUP_PID_INVALID_def)
  have eff: "EffKill 7 SIGKILL \<in> set (snd (sup_reconcile ?c (example_te WaitRunning 0 1 False)))"
    by (simp add: reconcile_slots slot_effs_def slot_tick_def slot_reaped_def reap_proc_def
        example_te_def tick_proc_def sup_health_tick_def blank_proc_def SUP_PID_INVALID_def
        example_ctx_def Let_def)
  from reconcile_signals_own_children [OF inv eff] eff show ?thesis by (simp add: Let_def)
qed

text \<open>
  Activation: the call returns 0 exactly when afterwards the named process has a pid; it
  touches no other process; and once it has returned 0 a further activation is a no-op that
  returns 0 again, whatever \<open>fork\<close> would answer.
\<close>

theorem activate_contract:
  assumes "fk \<noteq> 0" and "sup_activate ctx name now fk = (rc, ctx', effs)"
  shows "(rc = 0 \<or> rc = -1) \<and>
    (rc = 0 \<longleftrightarrow> (\<exists>i. sup_proc_find ctx' name = Some i \<and> p_pid (procs ctx' ! i) \<noteq> SUP_PID_INVALID)) \<and>
    (\<forall>j. sup_proc_find ctx name \<noteq> Some j \<longrightarrow> procs ctx' ! j = procs ctx ! j) \<and>
    (rc = 0 \<longrightarrow> sup_activate ctx' name now' fk' = (0, ctx', []))"
proof (cases "sup_proc_find ctx name")
  case None
  with assms(2) show ?thesis by (auto simp: sup_activate_def)
next
  case (Some i)
  let ?p = "(procs ctx ! i)\<lparr>p_fail_count := 0, p_state := SUP_ST_STOPPED\<rparr>"
  have i: "i < length (procs ctx)" using pt.find_SomeD [OF Some] by simp
  show ?thesis
  proof (cases "p_pid (procs ctx ! i) = SUP_PID_INVALID")
    case False
    with Some assms(2) show ?thesis by (auto simp: sup_activate_def Let_def)
  next
    case True
    let ?q = "fst (spawn_or_backoff ctx now fk ?p)"
    have pid: "p_pid ?p = SUP_PID_INVALID" using True by simp
    have q: "p_name ?q = p_name (procs ctx ! i)"
      "p_state ?q = SUP_ST_STARTING \<longleftrightarrow> p_pid ?q \<noteq> SUP_PID_INVALID"
      unfolding spawn_or_backoff_cases [OF pid] using True assms(1)
      by (auto simp: Let_def SUP_PID_INVALID_def)
    have ctx': "ctx' = ctx\<lparr>procs := (procs ctx)[i := ?q]\<rparr>"
      and rc: "rc = (if p_state ?q = SUP_ST_STARTING then 0 else -1)"
      using Some True assms(2) by (auto simp: sup_activate_def Let_def case_prod_unfold)
    have "proc_names ctx' = proc_names ctx"
      using q(1) by (simp add: ctx' map_update_same [where f = p_name])
    then have find: "sup_proc_find ctx' name = Some i" using pt.find_cong [of ctx' ctx name] Some by simp
    have at_i: "procs ctx' ! i = ?q" using i by (simp add: ctx')
    have "sup_activate ctx' name now' fk' = (0, ctx', [])" if "p_pid ?q \<noteq> SUP_PID_INVALID"
      using that by (simp add: sup_activate_def find at_i)
    then show ?thesis using rc q(2) find at_i Some by (auto simp: ctx')
  qed
qed

theorem activate_contract_witness:
  "fst (sup_activate (example_ctx [''x'']) ''x'' 0 42) = 0 \<and>
   (\<exists>i. sup_proc_find (fst (snd (sup_activate (example_ctx [''x'']) ''x'' 0 42))) ''x'' = Some i)"
proof -
  obtain rc c e where a: "sup_activate (example_ctx [''x'']) ''x'' 0 42 = (rc, c, e)"
    by (metis prod_cases3)
  have "rc = 0"
    using a by (simp add: sup_activate_def sup_proc_find_def example_ctx_def Let_def blank_proc_def
        snprintf_s_def sup_consts spawn_or_backoff_def sup_proc_spawn_def spawn_posix_def
        spawn_argv_def strtok_blank_def SUP_ARGV_MAX_def)
  with activate_contract [OF _ a, of 0 0] a show ?thesis by (auto simp: SUP_PID_INVALID_def)
qed

text \<open>
  On-demand processes have no second try: when \<open>fork\<close> fails during an activation the process
  is left in \<open>BACKOFF\<close>, and no number of later ticks starts it, clears it or changes it in any
  way, whatever the clock says.
\<close>

theorem aux_spawn_failure_stuck:
  assumes "sup_proc_find ctx name = Some i" and "p_role (procs ctx ! i) = SUP_ROLE_AUX"
    and "p_pid (procs ctx ! i) = SUP_PID_INVALID" and "fk < 0"
    and "ctx' = fst (snd (sup_activate ctx name now fk))"
  shows "p_state (procs ctx' ! i) = SUP_ST_BACKOFF \<and>
    procs (reconcile_run ctx' tes) ! i = procs ctx' ! i"
proof -
  let ?p = "(procs ctx ! i)\<lparr>p_fail_count := 0, p_state := SUP_ST_STOPPED\<rparr>"
  let ?q = "fst (spawn_or_backoff ctx now fk ?p)"
  have i: "i < length (procs ctx)" using pt.find_SomeD [OF assms(1)] by simp
  have pid: "p_pid ?p = SUP_PID_INVALID" using assms(3) by simp
  have c': "ctx' = ctx\<lparr>procs := (procs ctx)[i := ?q]\<rparr>"
    using assms(1,3,5) by (simp add: sup_activate_def Let_def case_prod_unfold)
  have q: "p_state ?q = SUP_ST_BACKOFF" "p_role ?q = SUP_ROLE_AUX" "p_pid ?q = SUP_PID_INVALID"
    unfolding spawn_or_backoff_cases [OF pid] using assms(2-4) by (simp_all add: Let_def)
  have "slot_step ctx' i ?q te = ?q" for te
    using q by (simp add: slot_step_def slot_tick_def slot_reaped_def reap_proc_def tick_proc_def)
  then have "foldl (slot_step ctx' i) ?q tes = ?q" by (induction tes) simp_all
  moreover have at_i: "procs ctx' ! i = ?q" using i by (simp add: c')
  moreover have "i < length (procs ctx')" using i by (simp add: c')
  ultimately show ?thesis using reconcile_run_slot [of i ctx' tes] q(1) by simp
qed

theorem aux_spawn_failure_stuck_witness:
  "(let c = (example_ctx [])\<lparr>procs := [blank_proc (example_ctx []) ''mem_d'' SUP_ROLE_AUX]\<rparr>;
        c' = fst (snd (sup_activate c ''mem_d'' 0 (-1)))
    in p_state (procs (reconcile_run c' [example_te WaitRunning 999999 5 True]) ! 0) = SUP_ST_BACKOFF)"
proof -
  let ?c = "(example_ctx [])\<lparr>procs := [blank_proc (example_ctx []) ''mem_d'' SUP_ROLE_AUX]\<rparr>"
  have f: "sup_proc_find ?c ''mem_d'' = Some 0"
    by (simp add: sup_proc_find_def blank_proc_def snprintf_s_def sup_consts)
  from aux_spawn_failure_stuck [OF f, of "-1" _ 0 "[example_te WaitRunning 999999 5 True]"]
  show ?thesis by (simp add: Let_def blank_proc_def)
qed

text \<open>
  C38. Shutdown ends and leaves no child behind: once the clock reaches the end of the grace
  period within N polling rounds and every blocking wait stops being interrupted within N tries,
  N + 1 units of fuel are enough. Then every child that was alive has been sent \<open>SIGTERM\<close>; the
  polling stopped at the first round K after which no child was left or the grace period was
  over; exactly the children no round up to K found dead or unknown, each once and in table
  order, are sent \<open>SIGKILL\<close> and then waited for; and every pid is cleared.
\<close>

theorem shutdown_reaps_all:
  assumes "se_clock se N \<ge> se_start se + SUP_TERM_GRACE_MS"
    and "\<And>i. i < length (procs ctx) \<Longrightarrow> \<exists>k\<le>N. se_final se i k \<noteq> WaitError EINTR"
    and "N < fuel"
  shows "\<exists>ctx' K. K \<le> N \<and> sup_shutdown_all fuel se ctx =
      Some (ctx', map (\<lambda>pid. EffKill pid SIGTERM) (live_pids (procs ctx))
        @ map (\<lambda>i. EffKill (p_pid (procs ctx ! i)) SIGKILL) (survivors se (procs ctx) K)
        @ map (\<lambda>i. EffWait (p_pid (procs ctx ! i))) (survivors se (procs ctx) K)) \<and>
    live_pids (procs ctx') = [] \<and> length (procs ctx') = length (procs ctx) \<and>
    (survivors se (procs ctx) K = [] \<or> se_start se + SUP_TERM_GRACE_MS \<le> se_clock se K) \<and>
    (\<forall>k<K. survivors se (procs ctx) k \<noteq> [] \<and> se_clock se k < se_start se + SUP_TERM_GRACE_MS)"
proof -
  let ?dl = "se_start se + SUP_TERM_GRACE_MS"
  obtain qs where qs: "shut_poll fuel (se_poll se) (se_clock se) ?dl 0 (procs ctx) = Some qs"
    using shut_poll_total [of ?dl "se_clock se" N 0 fuel] assms(1,3) by auto
  then obtain K where K: "qs = polled (se_poll se) (Suc K) (procs ctx)"
    "live_pids qs = [] \<or> ?dl \<le> se_clock se K"
    "\<forall>j<K. live_pids (polled (se_poll se) (Suc j) (procs ctx)) \<noteq> [] \<and> se_clock se j < ?dl"
    using shut_poll_exact [of fuel "se_poll se" "se_clock se" ?dl 0 "procs ctx" qs]
    by (auto simp: polled_0)
  have "K \<le> N" using K(3) assms(1) by (meson not_le)
  have len: "length qs = length (procs ctx)" by (simp add: K(1) polled_def)
  have "wait_blocking fuel (se_final se i) 0" if i: "i < length qs" for i
  proof -
    obtain k where "k \<le> N" "se_final se i k \<noteq> WaitError EINTR" using assms(2) len i by auto
    then show ?thesis using assms(3) by (intro wait_blocking_total [of _ k]) simp_all
  qed
  then have run: "sup_shutdown_all fuel se ctx =
      Some (ctx\<lparr>procs := map (\<lambda>p. p\<lparr>p_pid := SUP_PID_INVALID\<rparr>) qs\<rparr>,
        map (\<lambda>pid. EffKill pid SIGTERM) (live_pids (procs ctx))
        @ map (\<lambda>i. EffKill (p_pid (procs ctx ! i)) SIGKILL) (survivors se (procs ctx) K)
        @ map (\<lambda>i. EffWait (p_pid (procs ctx ! i))) (survivors se (procs ctx) K))"
    by (simp add: sup_shutdown_all_def qs list_all_iff K(1) live_polled comp_def)
  have "live_pids (map (\<lambda>p. p\<lparr>p_pid := SUP_PID_INVALID\<rparr>) qs) = []"
    by (simp add: live_pids_def filter_empty_conv)
  then show ?thesis
    using \<open>K \<le> N\<close> K(2,3) len run by (auto simp: K(1) live_polled intro!: exI [of _ K])
qed

theorem shutdown_reaps_all_witness:
  "\<exists>ctx' K. sup_shutdown_all 61
     \<lparr>se_start = 0, se_poll = (\<lambda>k i. if i = 0 then WaitRunning else WaitDead (Exited 0)),
      se_clock = (\<lambda>k. 100 * int k), se_final = (\<lambda>_ _. WaitDead (Signaled 9))\<rparr>
     ((example_ctx [])\<lparr>procs := [(blank_proc (example_ctx []) ''x'' SUP_ROLE_CORE)\<lparr>p_pid := 7\<rparr>,
        (blank_proc (example_ctx []) ''y'' SUP_ROLE_CORE)\<lparr>p_pid := 8\<rparr>]\<rparr>) =
     Some (ctx', [EffKill 7 SIGTERM, EffKill 8 SIGTERM, EffKill 7 SIGKILL, EffWait 7]) \<and>
     live_pids (procs ctx') = [] \<and> SUP_TERM_GRACE_MS \<le> 100 * int K"
proof -
  let ?se = "\<lparr>se_start = 0, se_poll = (\<lambda>k i. if i = 0 then WaitRunning else WaitDead (Exited 0)),
      se_clock = (\<lambda>k. 100 * int k), se_final = (\<lambda>_ _. WaitDead (Signaled 9))\<rparr>"
  let ?c = "(example_ctx [])\<lparr>procs := [(blank_proc (example_ctx []) ''x'' SUP_ROLE_CORE)\<lparr>p_pid := 7\<rparr>,
        (blank_proc (example_ctx []) ''y'' SUP_ROLE_CORE)\<lparr>p_pid := 8\<rparr>]\<rparr>"
  have live: "live_pids (procs ?c) = [7, 8]" by (simp add: live_pids_def SUP_PID_INVALID_def)
  have surv: "survivors ?se (procs ?c) K = [0]" for K
    by (auto simp: survivors_def still_there_def upt_rec SUP_PID_INVALID_def)
  have "se_clock ?se 60 \<ge> se_start ?se + SUP_TERM_GRACE_MS"
    by (simp add: SUP_TERM_GRACE_MS_def)
  from shutdown_reaps_all [OF this, of ?c 61] show ?thesis
    unfolding live surv by (auto simp: SUP_PID_INVALID_def)
qed

text \<open>
  The pid file admits one supervisor: once a live process has written it successfully, every
  later attempt by anyone fails and leaves the file as it is.
\<close>

theorem pidfile_excludes_second:
  assumes "sup_pidfile_write alive old writable self = (0, content)"
    and "0 < self" and "self < 2 ^ 31" and "alive self"
  shows "sup_pidfile_write alive content writable' other = (-1, content)"
proof -
  have "content = Some (show_int self @ [chr_nl])"
    using assms(1) by (auto simp: sup_pidfile_write_def split: if_splits)
  then show ?thesis
    using pidfile_busy_own [of self alive] assms(2-4) by (simp add: sup_pidfile_write_def)
qed

theorem pidfile_excludes_second_witness:
  "sup_pidfile_write (\<lambda>p. p = 4711)
     (snd (sup_pidfile_write (\<lambda>p. p = 4711) None True 4711)) True 4712 =
   (-1, Some (show_int 4711 @ [chr_nl]))"
proof -
  have "sup_pidfile_write (\<lambda>p. p = 4711) None True 4711 = (0, Some (show_int 4711 @ [chr_nl]))"
    by (simp add: sup_pidfile_write_def pidfile_busy_def)
  then show ?thesis using pidfile_excludes_second [of "\<lambda>p. p = 4711" None True 4711] by simp
qed

end
