(* ===== verification/Sup_Ctrl.thy ===== *)
theory Sup_Ctrl
  imports Sup_Proc
begin

text \<open>
  The control endpoint of \<open>supervisor_d\<close> (src/supervisor_d/src/ctrl/ctrl.c) and its main-loop
  step (src/supervisor_d/src/svc.c): the hand-written JSON field scan, the dispatch of a
  request, the framing of requests read from a socket, the command-line client that produces
  them, and one round of the service loop. A connection is the list of chunks \<open>read\<close> delivers
  (each a nonempty run of characters without NUL, at most 512 long). A response that would be
  written outside its buffer is \<open>None\<close>; a lemma shows that this never happens.
\<close>

section \<open>Operations\<close>

definition SUP_REQ_MAX :: nat where "SUP_REQ_MAX = 2048"
definition SUP_RESP_MAX :: nat where "SUP_RESP_MAX = SUP_MAX_DAEMONS * 96 + 128"

fun state_str :: "sup_state \<Rightarrow> string" where
  "state_str SUP_ST_STARTING = ''starting''"
| "state_str SUP_ST_RUNNING = ''running''"
| "state_str SUP_ST_BACKOFF = ''backoff''"
| "state_str SUP_ST_FAILED = ''failed''"
| "state_str SUP_ST_STOPPED = ''stopped''"

definition chr_quote :: char where "chr_quote = CHR 0x22"
definition chr_bslash :: char where "chr_bslash = CHR 0x5C"

definition json_ws :: "char \<Rightarrow> bool" where
  "json_ws c \<longleftrightarrow> c = CHR '' '' \<or> c = chr_tab \<or> c = chr_cr \<or> c = chr_nl"

definition key_pat :: "string \<Rightarrow> string" where
  "key_pat key = chr_quote # key @ [chr_quote]"

function find_key_from :: "string \<Rightarrow> string \<Rightarrow> string option" where
  "find_key_from key s =
     (case strstr s (key_pat key) of
        None \<Rightarrow> None
      | Some r \<Rightarrow>
          (let c = dropWhile json_ws (drop (length (key_pat key)) r)
           in if c \<noteq> [] \<and> hd c = CHR '':'' then Some (dropWhile json_ws (tl c))
              else find_key_from key c))"
  by pat_completeness auto
termination
proof (relation "measure (\<lambda>(key, s). length s)")
  fix key s r c
  assume st: "strstr s (key_pat key) = Some r"
    and c: "c = dropWhile json_ws (drop (length (key_pat key)) r)"
  from strstr_Some [OF st] obtain u v where "s = u @ r" and "r = key_pat key @ v"
    by (auto simp: is_prefix_iff)
  moreover have "length c \<le> length v"
    using c \<open>r = key_pat key @ v\<close> by (simp add: length_dropWhile_le)
  ultimately show "((key, c), key, s) \<in> measure (\<lambda>(key, s). length s)"
    by (simp add: key_pat_def)
qed simp

declare find_key_from.simps [simp del]

definition sup_find_key :: "string \<Rightarrow> string \<Rightarrow> string option" where
  "sup_find_key json key = (if length (key_pat key) \<ge> 64 then None else find_key_from key json)"

text \<open>The body of a JSON string up to its closing quote; the flag says that the quote was there.\<close>

fun scan_str :: "string \<Rightarrow> string \<times> bool" where
  "scan_str [] = ([], False)"
| "scan_str (c # cs) =
     (if c = chr_quote then ([], True)
      else if c = chr_bslash then
        (case cs of
           [] \<Rightarrow> ([c], False)
         | d # ds \<Rightarrow> (let (v, ok) = scan_str ds in (d # v, ok)))
      else (let (v, ok) = scan_str cs in (c # v, ok)))"

definition sup_json_field :: "string \<Rightarrow> string \<Rightarrow> nat \<Rightarrow> string option" where
  "sup_json_field json key out_sz =
     (if out_sz = 0 then None
      else case sup_find_key json key of
        None \<Rightarrow> None
      | Some c \<Rightarrow>
          (if c = [] \<or> hd c \<noteq> chr_quote then None
           else let (v, ok) = scan_str (tl c) in if ok then Some (take (out_sz - 1) v) else None))"

definition qt :: "string \<Rightarrow> string" where
  "qt s = chr_quote # s @ [chr_quote]"

definition resp_line :: "string \<Rightarrow> string \<Rightarrow> int \<Rightarrow> string" where
  "resp_line key val rid =
     ''{'' @ qt key @ '':'' @ qt val @ '','' @ qt ''id'' @ '':'' @ show_int rid @ ''}'' @ [chr_nl]"

text \<open>The \<open>health_check\<close> answer: \<open>off\<close> counts what \<open>snprintf\<close> would have written.\<close>

definition health_entry :: "nat \<Rightarrow> sup_proc \<Rightarrow> string" where
  "health_entry i p =
     (if i = 0 then [] else '','') @ ''{'' @ qt ''name'' @ '':'' @ qt (p_name p) @ '','' @ qt ''state'' @ '':''
     @ qt (state_str (p_state p)) @ '','' @ qt ''fails'' @ '':'' @ show_int (p_fail_count p) @ ''}''"

fun health_loop :: "nat \<Rightarrow> string \<Rightarrow> sup_proc list \<Rightarrow> string" where
  "health_loop i acc [] = acc"
| "health_loop i acc (p # ps) =
     (if length acc < SUP_RESP_MAX then health_loop (Suc i) (acc @ health_entry i p) ps else acc)"

definition health_head :: string where
  "health_head = ''{'' @ qt ''result'' @ '':'' @ qt ''ok'' @ '','' @ qt ''daemons'' @ '':[''"

definition health_resp :: "sup_ctx \<Rightarrow> int \<Rightarrow> string option" where
  "health_resp ctx rid =
     (let body = health_loop 0 health_head (procs ctx)
      in if length body > SUP_RESP_MAX then None
         else Some (snprintf_s SUP_RESP_MAX
                (body @ ''],'' @ qt ''id'' @ '':'' @ show_int rid @ ''}'' @ [chr_nl])))"

definition sup_dispatch ::
  "sup_ctx \<Rightarrow> string \<Rightarrow> int \<Rightarrow> int \<Rightarrow> sup_ctx \<times> string option \<times> sup_eff list" where
  "sup_dispatch ctx req now fk =
     (let rid = (case sup_find_key req ''id'' of None \<Rightarrow> 0 | Some s \<Rightarrow> fst (strtol s))
      in case sup_json_field req ''method'' 64 of
           None \<Rightarrow> (ctx, Some (resp_line ''error'' ''missing method'' rid), [])
         | Some method \<Rightarrow>
             (if method = ''supervisor.activate'' then
                (case sup_json_field req ''name'' SUP_NAME_MAX of
                   None \<Rightarrow> (ctx, Some (resp_line ''error'' ''missing name'' rid), [])
                 | Some name \<Rightarrow>
                     (case sup_activate ctx name now fk of
                        (rc, ctx', effs) \<Rightarrow>
                          (ctx', Some (if rc = 0 then resp_line ''result'' ''ok'' rid
                                       else resp_line ''error'' ''activate failed'' rid), effs)))
              else if method = ''supervisor.shutdown'' then
                (ctx\<lparr>shutdown_flag := True\<rparr>, Some (resp_line ''result'' ''ok'' rid), [])
              else if method = ''health_check'' then (ctx, health_resp ctx rid, [])
              else (ctx, Some (resp_line ''error'' ''unknown method'' rid), [])))"

fun read_req :: "string \<Rightarrow> string list \<Rightarrow> string" where
  "read_req acc [] = acc"
| "read_req acc (ch # chs) =
     (if ch = [] then acc
      else if length acc + length ch \<ge> SUP_REQ_MAX then []
      else let acc' = acc @ ch
           in if chr_nl \<in> set acc' \<or> CHR 0x7D \<in> set acc' then acc' else read_req acc' chs)"

definition sup_ctrl_serve ::
  "sup_ctx \<Rightarrow> string list \<Rightarrow> int \<Rightarrow> int \<Rightarrow> sup_ctx \<times> string option \<times> sup_eff list" where
  "sup_ctrl_serve ctx chunks now fk =
     (let req = read_req [] chunks
      in if req = [] then (ctx, None, []) else sup_dispatch ctx req now fk)"

datatype cli_act = CliUsage | CliSend string

definition activate_req :: "string \<Rightarrow> string" where
  "activate_req name =
     ''{'' @ qt ''method'' @ '':'' @ qt ''supervisor.activate'' @ '','' @ qt ''params'' @ '':{'' @ qt ''name'' @ '':''
     @ qt name @ ''},'' @ qt ''id'' @ '':1}'' @ [chr_nl]"

definition plain_req :: "string \<Rightarrow> string" where
  "plain_req method = ''{'' @ qt ''method'' @ '':'' @ qt method @ '','' @ qt ''id'' @ '':1}'' @ [chr_nl]"

text \<open>\<open>args\<close> is \<open>argv[1..argc-1]\<close>, nonempty by the caller's test \<open>argc >= 2\<close>.\<close>

definition sup_ctrl_client :: "string list \<Rightarrow> cli_act" where
  "sup_ctrl_client args =
     (if hd args = ''--help'' \<or> hd args = ''-h'' then CliUsage
      else if hd args = ''activate'' \<and> length args = 2
        then CliSend (snprintf_s (SUP_NAME_MAX + 128) (activate_req (args ! 1)))
      else if hd args = ''stop'' \<and> length args = 1
        then CliSend (snprintf_s (SUP_NAME_MAX + 128) (plain_req ''supervisor.shutdown''))
      else if hd args = ''status'' \<and> length args = 1
        then CliSend (snprintf_s (SUP_NAME_MAX + 128) (plain_req ''health_check''))
      else CliUsage)"

text \<open>One round of the main loop. \<open>stop1\<close> and \<open>stop2\<close> are the two readings of \<open>g_stop\<close>; the
  connection is \<open>None\<close> when \<open>select\<close> times out or \<open>accept\<close> fails.\<close>

definition sup_svc_step ::
  "bool \<Rightarrow> bool \<Rightarrow> tick_env \<Rightarrow> string list option \<Rightarrow> int \<Rightarrow> int \<Rightarrow> sup_ctx
   \<Rightarrow> int \<times> sup_ctx \<times> string option \<times> sup_eff list" where
  "sup_svc_step stop1 stop2 te conn now fk ctx =
     (if stop1 \<or> shutdown_flag ctx then (1, ctx, None, [])
      else case sup_reconcile ctx te of
        (c1, effs) \<Rightarrow>
          (if stop2 \<or> shutdown_flag c1 then (1, c1, None, effs)
           else case conn of
             None \<Rightarrow> (0, c1, None, effs)
           | Some chunks \<Rightarrow>
               (case sup_ctrl_serve c1 chunks now fk of
                  (c2, resp, effs2) \<Rightarrow> (0, c2, resp, effs @ effs2))))"

text \<open>Start-up: the pid file, then the control socket (\<open>lfd\<close> is what \<open>sup_ctrl_listen\<close>
  returns). The result is the return code and the text of the pid file.\<close>

definition sup_svc_prepare ::
  "(int \<Rightarrow> bool) \<Rightarrow> string option \<Rightarrow> bool \<Rightarrow> int \<Rightarrow> int \<Rightarrow> int \<times> string option" where
  "sup_svc_prepare alive old writable self lfd =
     (case sup_pidfile_write alive old writable self of
        (rc, file) \<Rightarrow>
          (if rc \<noteq> 0 then (-1, file)
           else if lfd < 0 then (-1, sup_pidfile_clear file)
           else (0, file)))"

definition sup_svc_clear ::
  "nat \<Rightarrow> shut_env \<Rightarrow> sup_ctx \<Rightarrow> string option \<Rightarrow> (sup_ctx \<times> sup_eff list \<times> string option) option" where
  "sup_svc_clear fuel se ctx file =
     map_option (\<lambda>(c, effs). (c, effs, sup_pidfile_clear file)) (sup_shutdown_all fuel se ctx)"

section \<open>Lemmas\<close>

lemma find_key_hit:
  assumes "strstr s (key_pat key) = Some (key_pat key @ '':'' @ v)"
  shows "find_key_from key s = Some (dropWhile json_ws v)"
  using assms
  by (subst find_key_from.simps) (simp add: json_ws_def chr_tab_def chr_cr_def chr_nl_def)

lemma strstr_here: "is_prefix pat s \<Longrightarrow> strstr s pat = Some s"
  by (simp add: strstr.simps)

lemma strstr_next: "\<not> is_prefix pat (c # s) \<Longrightarrow> strstr (c # s) pat = strstr s pat"
  by (simp add: strstr.simps [of "c # s"])

lemma scan_str_plain:
  assumes "\<forall>c\<in>set v. c \<noteq> chr_quote \<and> c \<noteq> chr_bslash"
  shows "scan_str (v @ chr_quote # rest) = (v, True)"
  using assms by (induction v) (auto simp: case_prod_unfold)

lemma json_ws_quote [simp]: "\<not> json_ws chr_quote"
  by (simp add: json_ws_def chr_quote_def chr_tab_def chr_cr_def chr_nl_def)

lemma json_field_string:
  assumes "length (key_pat key) < 64" and "0 < sz"
    and "find_key_from key json = Some (dropWhile json_ws (qt v @ rest))"
    and "\<forall>c\<in>set v. c \<noteq> chr_quote \<and> c \<noteq> chr_bslash"
  shows "sup_json_field json key sz = Some (take (sz - 1) v)"
  using assms
  by (simp add: sup_json_field_def sup_find_key_def qt_def scan_str_plain)

text \<open>What a request must look like up to the first closing brace.\<close>

definition req_upto :: "string \<Rightarrow> string" where
  "req_upto name =
     ''{'' @ qt ''method'' @ '':'' @ qt ''supervisor.activate'' @ '','' @ qt ''params'' @ '':{'' @ qt ''name'' @ '':''
     @ qt name @ ''}''"

lemma activate_req_split: "activate_req name = req_upto name @ '','' @ qt ''id'' @ '':1}'' @ [chr_nl]"
  by (simp add: activate_req_def req_upto_def qt_def)

lemma req_method_key:
  "find_key_from ''method'' (req_upto name @ rest) =
   Some (dropWhile json_ws (qt ''supervisor.activate'' @ '','' @ qt ''params'' @ '':{'' @ qt ''name'' @ '':''
     @ qt name @ ''}'' @ rest))"
  by (rule find_key_hit)
    (simp add: req_upto_def qt_def key_pat_def chr_quote_def strstr_here strstr_next)

lemma req_name_key:
  "find_key_from ''name'' (req_upto name @ rest) = Some (dropWhile json_ws (qt name @ ''}'' @ rest))"
  by (rule find_key_hit)
    (simp add: req_upto_def qt_def key_pat_def chr_quote_def strstr_here strstr_next)

lemma req_method_field:
  "sup_json_field (req_upto name @ rest) ''method'' 64 = Some ''supervisor.activate''"
  using json_field_string [OF _ _ req_method_key, of 64]
  by (simp add: key_pat_def chr_quote_def chr_bslash_def)

lemma req_name_field:
  assumes "\<forall>c\<in>set name. c \<noteq> chr_quote \<and> c \<noteq> chr_bslash" and "length name < SUP_NAME_MAX"
  shows "sup_json_field (req_upto name @ rest) ''name'' SUP_NAME_MAX = Some name"
  using json_field_string [OF _ _ req_name_key assms(1), of SUP_NAME_MAX] assms(2)
  by (simp add: key_pat_def sup_consts)

lemma read_req_prefix:
  assumes "s = acc @ concat chs" and "\<forall>ch\<in>set chs. ch \<noteq> []"
    and "length s < SUP_REQ_MAX" and "s = u @ CHR 0x7D # v"
    and "\<forall>c\<in>set u. c \<noteq> CHR 0x7D \<and> c \<noteq> chr_nl" and "length acc \<le> length u"
  shows "\<exists>rest. read_req acc chs = u @ CHR 0x7D # rest"
  using assms
proof (induction chs arbitrary: acc)
  case Nil
  then show ?case by auto
next
  case (Cons ch chs)
  have len: "length acc + length ch < SUP_REQ_MAX" using Cons.prems(1,3) by simp
  show ?case
  proof (cases "length (acc @ ch) \<le> length u")
    case True
    have "acc @ ch = take (length (acc @ ch)) s" using Cons.prems(1) by simp
    also have "\<dots> = take (length (acc @ ch)) u" using True Cons.prems(4) by simp
    finally have "set (acc @ ch) \<subseteq> set u" by (metis set_take_subset)
    then have "chr_nl \<notin> set (acc @ ch) \<and> CHR 0x7D \<notin> set (acc @ ch)" using Cons.prems(5) by blast
    moreover have "\<exists>rest. read_req (acc @ ch) chs = u @ CHR 0x7D # rest"
      by (rule Cons.IH) (use Cons.prems True in simp_all)
    ultimately show ?thesis using Cons.prems(2) len by (simp add: Let_def)
  next
    case False
    then obtain r where "acc @ ch = u @ CHR 0x7D # r"
    proof -
      have "acc @ ch = take (length (acc @ ch)) (u @ CHR 0x7D # v)" using Cons.prems(1,4) by simp
      also have "\<dots> = u @ take (length (acc @ ch) - length u) (CHR 0x7D # v)" using False by simp
      also have "\<dots> = u @ CHR 0x7D # take (length (acc @ ch) - length u - 1) v"
        using False by (simp add: take_Cons')
      finally show ?thesis using that by blast
    qed
    moreover from this have "CHR 0x7D \<in> set (acc @ ch)" by simp
    ultimately show ?thesis using Cons.prems(2) len by (simp add: Let_def)
  qed
qed

lemma health_entry_length:
  assumes "length (p_name p) < SUP_NAME_MAX" and "- (2 ^ 31) \<le> p_fail_count p" and "p_fail_count p < 2 ^ 31"
  shows "length (health_entry i p) \<le> 82"
proof -
  have "length (state_str (p_state p)) \<le> 8" by (cases "p_state p") simp_all
  then show ?thesis
    using assms(1) length_show_int32 [OF assms(2,3)]
    by (simp add: health_entry_def qt_def sup_consts)
qed

lemma health_loop_full:
  assumes "length acc + 82 * length ps < SUP_RESP_MAX"
    and "\<forall>p\<in>set ps. \<forall>i. length (health_entry i p) \<le> 82"
  shows "health_loop i acc ps = acc @ concat (mapi_from i health_entry ps) \<and>
    length (health_loop i acc ps) \<le> length acc + 82 * length ps"
  using assms
proof (induction ps arbitrary: i acc)
  case Nil
  then show ?case by simp
next
  case (Cons p ps)
  have e: "length (health_entry i p) \<le> 82" using Cons.prems(2) by simp
  then have "length (acc @ health_entry i p) + 82 * length ps < SUP_RESP_MAX"
    using Cons.prems(1) by simp
  then have "health_loop (Suc i) (acc @ health_entry i p) ps =
      (acc @ health_entry i p) @ concat (mapi_from (Suc i) health_entry ps) \<and>
      length (health_loop (Suc i) (acc @ health_entry i p) ps) \<le>
      length (acc @ health_entry i p) + 82 * length ps"
    by (rule Cons.IH) (use Cons.prems(2) in simp)
  moreover have "length acc < SUP_RESP_MAX" using Cons.prems(1) by simp
  ultimately show ?case using e by auto
qed

section \<open>Properties\<close>

text \<open>
  A status request never overruns or truncates its buffer: for every table of at most 16
  processes with names that fit their buffers and 32-bit failure counts, the answer is the
  complete list of all processes with their states and failure counts, followed by the
  request's id.
\<close>

theorem health_resp_complete:
  assumes "length (procs ctx) \<le> SUP_MAX_DAEMONS"
    and "\<forall>p\<in>set (procs ctx). length (p_name p) < SUP_NAME_MAX \<and>
      - (2 ^ 31) \<le> p_fail_count p \<and> p_fail_count p < 2 ^ 31"
    and "LONG_MIN \<le> rid" and "rid \<le> LONG_MAX"
  shows "health_resp ctx rid =
    Some (health_head @ concat (mapi health_entry (procs ctx)) @ ''],'' @ qt ''id'' @ '':''
          @ show_int rid @ ''}'' @ [chr_nl])"
proof -
  have head: "length health_head = 26" by (simp add: health_head_def qt_def)
  have ents: "\<forall>p\<in>set (procs ctx). \<forall>i. length (health_entry i p) \<le> 82"
    using assms(2) health_entry_length by blast
  have small: "length health_head + 82 * length (procs ctx) < SUP_RESP_MAX"
    using assms(1) by (simp add: head SUP_RESP_MAX_def sup_consts)
  note full = health_loop_full [OF small ents, of 0]
  from full have body: "health_loop 0 health_head (procs ctx) =
      health_head @ concat (mapi health_entry (procs ctx))" by blast
  from full have len: "length (health_loop 0 health_head (procs ctx)) \<le> 26 + 82 * length (procs ctx)"
    unfolding head by blast
  have "nat \<bar>rid\<bar> < 10 ^ 20" using assms(3,4) by (simp add: LONG_MIN_def LONG_MAX_def)
  then have "length (show_nat (nat \<bar>rid\<bar>)) \<le> 20" by (rule length_show_nat) simp
  then have "length (show_int rid) \<le> 21" by (auto simp: show_int_def abs_if split: if_splits)
  then have "length (health_loop 0 health_head (procs ctx) @ ''],'' @ qt ''id'' @ '':''
      @ show_int rid @ ''}'' @ [chr_nl]) < SUP_RESP_MAX"
    using len assms(1) by (simp add: SUP_RESP_MAX_def sup_consts qt_def)
  with len assms(1) show ?thesis
    by (simp add: health_resp_def Let_def snprintf_s_id body)
qed

theorem health_resp_complete_witness:
  "health_resp (example_ctx [''llm_d'']) 7 =
   Some (health_head @ health_entry 0 (blank_proc (example_ctx []) ''llm_d'' SUP_ROLE_CORE)
     @ ''],'' @ qt ''id'' @ '':'' @ show_int 7 @ ''}'' @ [chr_nl])"
proof -
  have ps: "procs (example_ctx [''llm_d'']) = [blank_proc (example_ctx []) ''llm_d'' SUP_ROLE_CORE]"
    by (simp add: example_ctx_def Let_def blank_proc_def)
  show ?thesis
    using health_resp_complete [of "example_ctx [''llm_d'']" 7]
    by (simp add: ps blank_proc_def snprintf_s_def sup_consts LONG_MIN_def LONG_MAX_def)
qed

text \<open>
  What \<open>supervisor_d activate NAME\<close> sends, the running supervisor carries out: however the
  request is cut into chunks on its way, serving the connection has exactly the effect of
  activating the process of that name (for names that fit the name buffer and hold no quote,
  backslash, brace or newline).
\<close>

theorem activate_request_roundtrip:
  assumes "length name < SUP_NAME_MAX"
    and "\<forall>c\<in>set name. c \<noteq> chr_quote \<and> c \<noteq> chr_bslash \<and> c \<noteq> CHR 0x7D \<and> c \<noteq> chr_nl"
    and "sup_ctrl_client [''activate'', name] = CliSend req"
    and "concat chunks = req" and "\<forall>ch\<in>set chunks. ch \<noteq> []"
  shows "fst (sup_ctrl_serve ctx chunks now fk) = fst (snd (sup_activate ctx name now fk)) \<and>
    snd (snd (sup_ctrl_serve ctx chunks now fk)) = snd (snd (sup_activate ctx name now fk))"
proof -
  have len: "length (activate_req name) < SUP_NAME_MAX + 128"
    using assms(1) by (simp add: activate_req_def qt_def sup_consts)
  then have req: "req = activate_req name"
    using assms(3) by (simp add: sup_ctrl_client_def snprintf_s_id)
  obtain u where u: "req_upto name = u @ [CHR 0x7D]" "\<forall>c\<in>set u. c \<noteq> CHR 0x7D \<and> c \<noteq> chr_nl"
    using assms(2) by (force simp: req_upto_def qt_def chr_quote_def chr_nl_def)
  obtain rest where "read_req [] chunks = u @ CHR 0x7D # rest"
    using read_req_prefix [of "activate_req name" "[]" chunks u "'','' @ qt ''id'' @ '':1}'' @ [chr_nl]"]
      assms(4,5) len u req by (auto simp: activate_req_split SUP_REQ_MAX_def sup_consts)
  then have rd: "read_req [] chunks = req_upto name @ rest" using u(1) by simp
  have "req_upto name \<noteq> []" by (simp add: req_upto_def)
  then show ?thesis
    using req_method_field [of name rest] req_name_field [of name rest] assms(1,2)
    by (simp add: sup_ctrl_serve_def rd sup_dispatch_def Let_def case_prod_unfold)
qed

theorem activate_request_roundtrip_witness:
  "fst (sup_ctrl_serve (example_ctx [''mem_d''])
      [take 20 (activate_req ''mem_d''), drop 20 (activate_req ''mem_d'')] 0 42) =
   fst (snd (sup_activate (example_ctx [''mem_d'']) ''mem_d'' 0 42))"
proof -
  have "sup_ctrl_client [''activate'', ''mem_d''] = CliSend (activate_req ''mem_d'')"
    by (simp add: sup_ctrl_client_def snprintf_s_def activate_req_def qt_def sup_consts)
  moreover have "take 20 (activate_req ''mem_d'') \<noteq> []" "drop 20 (activate_req ''mem_d'') \<noteq> []"
    by (simp_all add: activate_req_def qt_def)
  ultimately show ?thesis
    using activate_request_roundtrip [of "''mem_d''" "activate_req ''mem_d''"
        "[take 20 (activate_req ''mem_d''), drop 20 (activate_req ''mem_d'')]"]
    by (simp add: sup_consts chr_quote_def chr_bslash_def chr_nl_def)
qed

text \<open>
  One round of the service loop is a reconcile tick followed by at most one activation (or
  nothing, once a stop is pending), apart from the shutdown flag, which only a control request
  sets; a round with the flag set does nothing and asks the caller to stop.
\<close>

theorem svc_step_events:
  assumes "tick_ok te" and "fk \<noteq> 0"
    and "sup_svc_step stop1 stop2 te conn now fk ctx = (rc, ctx', resp, effs)"
  shows "(\<exists>es. length es \<le> 2 \<and> list_all sup_event_ok es \<and>
      ctx'\<lparr>shutdown_flag := False\<rparr> = (foldl sup_step ctx es)\<lparr>shutdown_flag := False\<rparr>) \<and>
    (shutdown_flag ctx \<longrightarrow> rc = 1 \<and> ctx' = ctx \<and> effs = [])"
proof -
  let ?c1 = "fst (sup_reconcile ctx te)"
  have serve: "\<exists>es. length es \<le> 1 \<and> list_all sup_event_ok es \<and>
      (fst (sup_ctrl_serve ?c1 chunks now fk))\<lparr>shutdown_flag := False\<rparr> =
      (foldl sup_step ?c1 es)\<lparr>shutdown_flag := False\<rparr>" for chunks
  proof (cases "\<exists>name. fst (sup_ctrl_serve ?c1 chunks now fk) = fst (snd (sup_activate ?c1 name now fk))")
    case True
    then obtain name where
      "fst (sup_ctrl_serve ?c1 chunks now fk) = fst (snd (sup_activate ?c1 name now fk))" by blast
    with assms(2) show ?thesis by (intro exI [of _ "[EvActivate name now fk]"]) simp
  next
    case False
    then have "(fst (sup_ctrl_serve ?c1 chunks now fk))\<lparr>shutdown_flag := False\<rparr> =
        ?c1\<lparr>shutdown_flag := False\<rparr>"
      by (auto simp: sup_ctrl_serve_def sup_dispatch_def Let_def case_prod_unfold
          split: option.splits if_splits)
    then show ?thesis by (intro exI [of _ "[]"]) simp
  qed
  have tick: "\<exists>es. length es \<le> 2 \<and> list_all sup_event_ok es \<and>
      c\<lparr>shutdown_flag := False\<rparr> = (foldl sup_step ctx es)\<lparr>shutdown_flag := False\<rparr>"
    if c: "\<exists>es. length es \<le> 1 \<and> list_all sup_event_ok es \<and>
      c\<lparr>shutdown_flag := False\<rparr> = (foldl sup_step ?c1 es)\<lparr>shutdown_flag := False\<rparr>" for c
  proof -
    obtain es where "length es \<le> 1" "list_all sup_event_ok es"
      "c\<lparr>shutdown_flag := False\<rparr> = (foldl sup_step ?c1 es)\<lparr>shutdown_flag := False\<rparr>" using c by blast
    then show ?thesis using assms(1) by (intro exI [of _ "EvTick te # es"]) simp
  qed
  consider "ctx' = ctx" "stop1 \<or> shutdown_flag ctx" | "ctx' = ?c1"
    | chunks where "ctx' = fst (sup_ctrl_serve ?c1 chunks now fk)"
    using assms(3) by (auto simp: sup_svc_step_def case_prod_unfold split: if_splits option.splits)
  then have "\<exists>es. length es \<le> 2 \<and> list_all sup_event_ok es \<and>
      ctx'\<lparr>shutdown_flag := False\<rparr> = (foldl sup_step ctx es)\<lparr>shutdown_flag := False\<rparr>"
  proof cases
    case 1
    then show ?thesis by (intro exI [of _ "[]"]) simp
  next
    case 2
    then show ?thesis by (intro tick exI [of _ "[]"]) simp
  next
    case 3
    then show ?thesis using serve by (intro tick) simp
  qed
  then show ?thesis using assms(3) by (auto simp: sup_svc_step_def)
qed

theorem svc_step_events_witness:
  "(\<exists>es. length es \<le> 2 \<and> list_all sup_event_ok es \<and>
     (fst (snd (sup_svc_step False False (example_te WaitRunning 0 5 True) (Some [plain_req ''supervisor.shutdown''])
        0 6 (example_ctx [''x'']))))\<lparr>shutdown_flag := False\<rparr> =
     (foldl sup_step (example_ctx [''x'']) es)\<lparr>shutdown_flag := False\<rparr>)"
proof -
  obtain rc c r e where s: "sup_svc_step False False (example_te WaitRunning 0 5 True)
      (Some [plain_req ''supervisor.shutdown'']) 0 6 (example_ctx [''x'']) = (rc, c, r, e)"
    by (metis prod_cases4)
  show ?thesis using svc_step_events [OF _ _ s] s by (simp add: tick_ok_def example_te_def)
qed

definition nested_req :: string where
  "nested_req = ''{'' @ qt ''params'' @ '':{'' @ qt ''method'' @ '':'' @ qt ''supervisor.shutdown'' @ ''},''
     @ qt ''method'' @ '':'' @ qt ''health_check'' @ ''}''"

text \<open>
  The scan for a field does not track nesting: a \<open>method\<close> inside \<open>params\<close> that comes before
  the request's own \<open>method\<close> is the one that is carried out.
\<close>

theorem nested_method_taken:
  "sup_json_field nested_req ''method'' 64 = Some ''supervisor.shutdown'' \<and>
   shutdown_flag (fst (sup_dispatch ctx nested_req now fk))"
proof -
  have "find_key_from ''method'' nested_req = Some (dropWhile json_ws (qt ''supervisor.shutdown'' @ ''},''
      @ qt ''method'' @ '':'' @ qt ''health_check'' @ ''}''))"
    by (rule find_key_hit)
      (simp add: nested_req_def qt_def key_pat_def chr_quote_def strstr_here strstr_next)
  then have "sup_json_field nested_req ''method'' 64 = Some (take 63 ''supervisor.shutdown'')"
    using json_field_string [of "''method''" 64 nested_req "''supervisor.shutdown''"]
    by (simp add: key_pat_def chr_quote_def chr_bslash_def)
  then show ?thesis by (simp add: sup_dispatch_def Let_def)
qed

end
