(* ===== verification/Sched_Parse.thy ===== *)
theory Sched_Parse
  imports Complex_Main Airy_Prelude
begin

text \<open>
  sched_d, blueprint graphs: the data model (\<open>sched_service_internal.h\<close>,
  \<open>scheduler_service.h\<close>) and the builder \<open>sched_dag_parse.c\<close>.

  A submitted blueprint is a cJSON tree. cJSON is a library the daemon only calls, so a tree
  is a value of an arbitrary type \<open>'j\<close> and the calls the daemon makes are the fields of the
  record \<open>sched_env\<close>, together with the artifact validator and the role vocabulary, which
  are external too. Allocation does not fail in the model, except where cJSON itself reports
  it (\<open>cJSON_PrintUnformatted\<close> returning NULL).

  The main result is that the builder accepts exactly the well-formed acyclic graphs: the
  marking loop of \<open>sched_dag_detect_cycle\<close> marks every node if and only if the dependency
  relation is acyclic.
\<close>

section \<open>Data model\<close>

text \<open>The error codes the scheduler tells apart; every other code is \<open>AIRY_ERR_OTHER\<close>.\<close>

datatype airy_err =
    AIRY_SUCCESS
  | AIRY_ERR_INVALID_PARAM | AIRY_ERR_OVERFLOW | AIRY_ERR_CYCLE_DETECTED
  | AIRY_ERR_NOT_FOUND | AIRY_ERR_BUSY
  | AIRY_ERR_OUT_OF_MEMORY | AIRY_ERR_SYS_RESOURCE | AIRY_ERR_SYS_THREAD | AIRY_ERR_SYS_MUTEX
  | AIRY_ERR_SYS_SEMAPHORE | AIRY_ERR_SYS_CONDITION | AIRY_ERR_SYS_PIPE | AIRY_ERR_SYS_PROCESS
  | AIRY_ERR_SYS_SOCKET | AIRY_ERR_SYS_FILE
  | AIRY_ERR_TIMEOUT | AIRY_ERR_EXEC_TIMEOUT | AIRY_ERR_SVC_NOT_READY | AIRY_ERR_SVC_BUSY
  | AIRY_ERR_SVC_STOPPED | AIRY_ERR_LLM_RATE_LIMIT | AIRY_ERR_LLM_PROVIDER_FAIL
  | AIRY_ERR_LLM_PARSE_RESP | AIRY_ERR_LLM_EMPTY_RESP | AIRY_ERR_PARSE_ERROR
  | AIRY_ERR_INTERRUPTED | AIRY_ERR_WOULD_BLOCK | AIRY_ERR_ALREADY_EXISTS
  | AIRY_ERR_STATE_ERROR
  | AIRY_ERR_OTHER int

datatype sched_dag_node_status =
    NODE_PENDING | NODE_READY | NODE_RUNNING | NODE_COMPLETED | NODE_SEMANTIC_FAILED
  | NODE_FAILED | NODE_CANCELED

datatype sched_dag_status =
    DAG_ACTIVE | DAG_COMPLETED | DAG_SEMANTIC_FAILED | DAG_FAILED | DAG_CANCELED

definition SCHED_DAG_MAX_NODES :: nat where "SCHED_DAG_MAX_NODES = 64"
definition SCHED_DAG_MAX_DEPS :: nat where "SCHED_DAG_MAX_DEPS = 8"
definition SCHED_DAG_MAX_DAGS :: nat where "SCHED_DAG_MAX_DAGS = 32"

text \<open>A NULL string field is \<open>None\<close>; \<open>depends[0 .. dep_count)\<close> is a list.\<close>

record sched_dag_node =
  n_id :: string
  n_goal :: string
  n_role :: string
  n_depends :: "string list"
  n_status :: sched_dag_node_status
  n_output :: "string option"
  n_error :: "string option"
  n_started_at_ms :: "64 word"
  n_finished_at_ms :: "64 word"
  n_max_retries :: "32 word"
  n_retry_delay_ms :: "32 word"
  n_retry_count :: "32 word"
  n_retry_at_ms :: "64 word"
  n_validator_rule_json :: "string option"

record sched_dag =
  d_dag_id :: string
  d_name :: string
  d_input :: string
  d_workspace_dir :: string
  d_nodes :: "sched_dag_node list"
  d_status :: sched_dag_status
  d_created_at_ms :: "64 word"
  d_finished_at_ms :: "64 word"
  d_retry_budget_ms :: "64 word"

text \<open>
  What the daemon calls and does not define. \<open>js_str\<close> is \<open>cJSON_IsString\<close> with a non-NULL
  \<open>valuestring\<close>, \<open>js_num\<close> is \<open>cJSON_IsNumber\<close> with its (finite) \<open>valuedouble\<close>, \<open>js_arr\<close> is
  \<open>cJSON_IsArray\<close> with its items. \<open>av_load\<close> is the artifact validator built from a rule
  text (\<open>None\<close> when the rules do not load); the validator answers whether it rejects an
  artifact.
\<close>

record 'j sched_env =
  js_parse :: "string \<Rightarrow> 'j option"
  js_get :: "'j \<Rightarrow> string \<Rightarrow> 'j option"
  js_str :: "'j \<Rightarrow> string option"
  js_num :: "'j \<Rightarrow> rat option"
  js_arr :: "'j \<Rightarrow> 'j list option"
  js_obj :: "'j \<Rightarrow> bool"
  js_print :: "'j \<Rightarrow> string option"
  vocab_fallback :: string
  av_load :: "string \<Rightarrow> (string \<Rightarrow> bool) option"

text \<open>A zeroed node (\<open>AIRY_CALLOC\<close>) that carries its id.\<close>

definition calloc_node :: "string \<Rightarrow> sched_dag_node" where
  "calloc_node i =
     \<lparr>n_id = i, n_goal = [], n_role = [], n_depends = [], n_status = NODE_PENDING,
      n_output = None, n_error = None, n_started_at_ms = 0, n_finished_at_ms = 0,
      n_max_retries = 0, n_retry_delay_ms = 0, n_retry_count = 0, n_retry_at_ms = 0,
      n_validator_rule_json = None\<rparr>"

section \<open>Parsing a node\<close>

text \<open>A field read as a string with a default; a field read as a positive number.\<close>

definition str_field :: "'j sched_env \<Rightarrow> 'j \<Rightarrow> string \<Rightarrow> string \<Rightarrow> string" where
  "str_field env j k dflt =
     (case Option.bind (js_get env j k) (js_str env) of Some s \<Rightarrow> s | None \<Rightarrow> dflt)"

definition pos_field :: "'j sched_env \<Rightarrow> 'j \<Rightarrow> string \<Rightarrow> rat option" where
  "pos_field env j k =
     (case Option.bind (js_get env j k) (js_num env) of
        Some r \<Rightarrow> if 0 < r then Some r else None
      | None \<Rightarrow> None)"

text \<open>
  The casts \<open>(uint32_t)valuedouble\<close> and \<open>(uint64_t)valuedouble\<close> truncate towards zero. A
  value outside the target type makes the C cast undefined; the model keeps the low bits.
\<close>

definition cast_uint :: "rat \<Rightarrow> 'a::len word" where
  "cast_uint r = word_of_int \<lfloor>r\<rfloor>"

definition node_fields :: "'j sched_env \<Rightarrow> 'j \<Rightarrow> sched_dag_node \<Rightarrow> sched_dag_node \<times> airy_err" where
  "node_fields env nj node =
     (let node = node\<lparr>n_goal := str_field env nj ''goal'' [],
                      n_role := str_field env nj ''role'' (vocab_fallback env)\<rparr>;
          node = (case pos_field env nj ''max_retries'' of
                    None \<Rightarrow> node
                  | Some m \<Rightarrow>
                      (let node = node\<lparr>n_max_retries := cast_uint m\<rparr>
                       in case pos_field env nj ''retry_delay_ms'' of
                            None \<Rightarrow> node
                          | Some d \<Rightarrow> node\<lparr>n_retry_delay_ms := cast_uint d\<rparr>))
      in case js_get env nj ''validator'' of
           None \<Rightarrow> (node, AIRY_SUCCESS)
         | Some v \<Rightarrow>
             if js_obj env v
             then (node\<lparr>n_validator_rule_json := js_print env v\<rparr>,
                   if js_print env v = None then AIRY_ERR_OUT_OF_MEMORY else AIRY_SUCCESS)
             else (node, AIRY_SUCCESS))"

text \<open>The loop over the dependency items, up to the first that is no string.\<close>

fun take_deps :: "'j sched_env \<Rightarrow> 'j list \<Rightarrow> sched_dag_node \<Rightarrow> sched_dag_node \<times> airy_err" where
  "take_deps env [] node = (node, AIRY_SUCCESS)"
| "take_deps env (dj # djs) node =
     (case js_str env dj of
        None \<Rightarrow> (node, AIRY_ERR_INVALID_PARAM)
      | Some s \<Rightarrow> take_deps env djs (node\<lparr>n_depends := n_depends node @ [s]\<rparr>))"

definition node_deps ::
  "'j sched_env \<Rightarrow> 'j \<Rightarrow> sched_dag_node \<times> airy_err \<Rightarrow> sched_dag_node \<times> airy_err" where
  "node_deps env nj ne =
     (case ne of (node, err) \<Rightarrow>
        (case Option.bind (js_get env nj ''depends'') (js_arr env) of
           None \<Rightarrow> (node, err)
         | Some deps \<Rightarrow>
             if err \<noteq> AIRY_SUCCESS then (node, err)
             else if SCHED_DAG_MAX_DEPS < length deps then (node, AIRY_ERR_INVALID_PARAM)
             else take_deps env deps node))"

section \<open>Validation\<close>

text \<open>The inner search loop: the first node whose id is the dependency.\<close>

definition find_id :: "sched_dag_node list \<Rightarrow> string \<Rightarrow> nat option" where
  "find_id ns i = find_index (\<lambda>n. n_id n = i) ns"

definition sched_dag_validate_deps :: "sched_dag_node list \<Rightarrow> airy_err" where
  "sched_dag_validate_deps ns =
     (if list_all (\<lambda>n. list_all (\<lambda>d. find_id ns d \<noteq> None) (n_depends n)) ns
      then AIRY_SUCCESS else AIRY_ERR_INVALID_PARAM)"

text \<open>
  The cycle check. \<open>indeg[i]\<close> starts as the number of resolved dependencies and is set to
  \<open>SIZE_MAX\<close> once node \<open>i\<close> is processed; \<open>kahn_ok\<close> is the test \<open>all_ok\<close>, \<open>kahn_node\<close> the loop
  body, \<open>kahn_sweep\<close> one run of the inner loop and \<open>kahn_loop\<close> the outer one.
\<close>

definition SIZE_MAX :: nat where "SIZE_MAX = 2 ^ 64 - 1"

definition kahn_init :: "sched_dag_node list \<Rightarrow> nat list" where
  "kahn_init ns = map (\<lambda>n. length (filter (\<lambda>d. find_id ns d \<noteq> None) (n_depends n))) ns"

definition kahn_ok :: "sched_dag_node list \<Rightarrow> nat list \<Rightarrow> nat \<Rightarrow> bool" where
  "kahn_ok ns indeg i =
     list_all (\<lambda>d. case find_id ns d of None \<Rightarrow> True | Some j \<Rightarrow> indeg ! j = SIZE_MAX)
       (n_depends (ns ! i))"

definition kahn_node ::
  "sched_dag_node list \<Rightarrow> nat list \<times> nat \<times> bool \<Rightarrow> nat \<Rightarrow> nat list \<times> nat \<times> bool" where
  "kahn_node ns st i =
     (case st of (indeg, processed, progressed) \<Rightarrow>
        if indeg ! i \<noteq> SIZE_MAX \<and> kahn_ok ns indeg i
        then (indeg[i := SIZE_MAX], Suc processed, True)
        else st)"

definition kahn_sweep :: "sched_dag_node list \<Rightarrow> nat list \<Rightarrow> nat \<Rightarrow> nat list \<times> nat \<times> bool" where
  "kahn_sweep ns indeg processed =
     foldl (kahn_node ns) (indeg, processed, False) [0..<length indeg]"

lemma kahn_node_eq:
  "kahn_node ns (indeg, p, g) i =
     (if indeg ! i \<noteq> SIZE_MAX \<and> kahn_ok ns indeg i
      then (indeg[i := SIZE_MAX], Suc p, True) else (indeg, p, g))"
  by (simp add: kahn_node_def)

text \<open>The number of nodes not yet processed, the measure of the outer loop.\<close>

definition unmarked :: "nat list \<Rightarrow> nat" where
  "unmarked indeg = sum_list (map (\<lambda>x. if x = SIZE_MAX then 0 else 1) indeg)"

lemma unmarked_update:
  assumes "i < length indeg" and "indeg ! i \<noteq> SIZE_MAX"
  shows "Suc (unmarked (indeg[i := SIZE_MAX])) = unmarked indeg"
proof -
  let ?f = "\<lambda>x. if x = SIZE_MAX then 0 else 1 :: nat"
  have "sum_list (map ?f (indeg[i := SIZE_MAX]))
      = sum_list (map ?f indeg) + 0 - map ?f indeg ! i"
    using assms by (simp add: map_update sum_list_update)
  moreover have "map ?f indeg ! i = 1" using assms by simp
  moreover have "map ?f indeg ! i \<le> sum_list (map ?f indeg)"
    by (rule elem_le_sum_list) (simp add: assms(1))
  ultimately show ?thesis unfolding unmarked_def by simp
qed

text \<open>
  One fact carries both the termination and the correctness of the cycle check: what a run of
  the inner loop over any index list does to the markers.
\<close>

lemma kahn_fold:
  assumes "foldl (kahn_node ns) (indeg, p, g) is = (indeg', p', g')"
    and "\<forall>i\<in>set is. i < length indeg"
  shows "length indeg' = length indeg \<and> p' + unmarked indeg' = p + unmarked indeg \<and>
    unmarked indeg' \<le> unmarked indeg \<and>
    (g' \<longrightarrow> g \<or> unmarked indeg' < unmarked indeg) \<and>
    (\<not> g' \<longrightarrow> \<not> g \<and> indeg' = indeg \<and>
       (\<forall>i\<in>set is. indeg ! i = SIZE_MAX \<or> \<not> kahn_ok ns indeg i))"
  using assms
proof (induction "is" arbitrary: indeg p g)
  case Nil
  then show ?case by auto
next
  case (Cons i js)
  show ?case
  proof (cases "indeg ! i \<noteq> SIZE_MAX \<and> kahn_ok ns indeg i")
    case True
    have run: "foldl (kahn_node ns) (indeg[i := SIZE_MAX], Suc p, True) js = (indeg', p', g')"
      using Cons.prems(1) True by (simp add: kahn_node_eq)
    have "Suc (unmarked (indeg[i := SIZE_MAX])) = unmarked indeg"
      using True Cons.prems(2) by (intro unmarked_update) auto
    with Cons.IH [OF run] Cons.prems(2) show ?thesis by auto
  next
    case False
    have run: "foldl (kahn_node ns) (indeg, p, g) js = (indeg', p', g')"
      using Cons.prems(1) False by (auto simp: kahn_node_eq)
    from Cons.IH [OF run] Cons.prems(2) False show ?thesis by auto
  qed
qed

lemma kahn_sweep_measure:
  "kahn_sweep ns indeg p = (indeg', p', True) \<Longrightarrow> unmarked indeg' < unmarked indeg"
  using kahn_fold [of ns indeg p False "[0..<length indeg]" indeg' p' True]
  by (simp add: kahn_sweep_def)

function kahn_loop :: "sched_dag_node list \<Rightarrow> nat list \<Rightarrow> nat \<Rightarrow> nat" where
  "kahn_loop ns indeg processed =
     (case kahn_sweep ns indeg processed of (indeg', processed', progressed) \<Rightarrow>
        if progressed then kahn_loop ns indeg' processed' else processed')"
  by pat_completeness auto

termination kahn_loop
  by (relation "measure (\<lambda>(ns, indeg, p). unmarked indeg)")
    (auto intro: kahn_sweep_measure [OF sym])

declare kahn_loop.simps [simp del]

definition sched_dag_detect_cycle :: "sched_dag_node list \<Rightarrow> airy_err" where
  "sched_dag_detect_cycle ns =
     (if kahn_loop ns (kahn_init ns) 0 \<noteq> length ns then AIRY_ERR_CYCLE_DETECTED
      else AIRY_SUCCESS)"

section \<open>Building a graph\<close>

fun build_nodes ::
  "'j sched_env \<Rightarrow> 'j list \<Rightarrow> sched_dag_node list \<Rightarrow> airy_err + sched_dag_node list" where
  "build_nodes env [] acc = Inr acc"
| "build_nodes env (nj # njs) acc =
     (case Option.bind (js_get env nj ''id'') (js_str env) of
        None \<Rightarrow> Inl AIRY_ERR_INVALID_PARAM
      | Some nid \<Rightarrow>
          if nid = [] then Inl AIRY_ERR_INVALID_PARAM
          else if find_id acc nid \<noteq> None then Inl AIRY_ERR_INVALID_PARAM
          else (case node_deps env nj (node_fields env nj (calloc_node nid)) of (node, err) \<Rightarrow>
                  if err \<noteq> AIRY_SUCCESS then Inl err
                  else build_nodes env njs (acc @ [node])))"

definition sched_dag_validate_and_build :: "'j sched_env \<Rightarrow> 'j \<Rightarrow> airy_err + sched_dag" where
  "sched_dag_validate_and_build env rt =
     (case Option.bind (js_get env rt ''nodes'') (js_arr env) of
        None \<Rightarrow> Inl AIRY_ERR_INVALID_PARAM
      | Some njs \<Rightarrow>
          if njs = [] then Inl AIRY_ERR_INVALID_PARAM
          else if SCHED_DAG_MAX_NODES < length njs then Inl AIRY_ERR_OVERFLOW
          else (case build_nodes env njs [] of
                  Inl e \<Rightarrow> Inl e
                | Inr ns \<Rightarrow>
                    if sched_dag_validate_deps ns \<noteq> AIRY_SUCCESS
                    then Inl (sched_dag_validate_deps ns)
                    else if sched_dag_detect_cycle ns \<noteq> AIRY_SUCCESS
                    then Inl (sched_dag_detect_cycle ns)
                    else Inr
                      \<lparr>d_dag_id = [],
                       d_name = str_field env rt ''name'' ''unnamed_dag'',
                       d_input = str_field env rt ''input'' [],
                       d_workspace_dir = str_field env rt ''workspace_dir'' [],
                       d_nodes = ns, d_status = DAG_ACTIVE,
                       d_created_at_ms = 0, d_finished_at_ms = 0,
                       d_retry_budget_ms =
                         (case pos_field env rt ''retry_budget_ms'' of
                            None \<Rightarrow> 0 | Some b \<Rightarrow> cast_uint b)\<rparr>))"

section \<open>Correctness of the cycle check\<close>

text \<open>
  The dependency relation of a graph, on node positions: \<open>(j, i)\<close> when node \<open>i\<close> lists the id
  of node \<open>j\<close>.
\<close>

definition dep_rel :: "sched_dag_node list \<Rightarrow> (nat \<times> nat) set" where
  "dep_rel ns = {(j, i). i < length ns \<and> (\<exists>d\<in>set (n_depends (ns ! i)). find_id ns d = Some j)}"

lemma find_id_SomeD: "find_id ns d = Some j \<Longrightarrow> j < length ns \<and> n_id (ns ! j) = d"
  by (simp add: find_id_def find_index_Some_iff)

interpretation ids: keyed_table "map n_id" "\<lambda>_. True" find_id
  by unfold_locales (simp_all add: find_id_def find_index_map_law)

lemma dep_rel_sub: "dep_rel ns \<subseteq> {..<length ns} \<times> {..<length ns}"
  by (auto simp: dep_rel_def dest: find_id_SomeD)

lemma finite_dep_rel: "finite (dep_rel ns)"
  using dep_rel_sub by (rule finite_subset) simp

lemma kahn_ok_iff:
  "i < length ns \<Longrightarrow> kahn_ok ns indeg i \<longleftrightarrow> (\<forall>j. (j, i) \<in> dep_rel ns \<longrightarrow> indeg ! j = SIZE_MAX)"
  by (fastforce simp: kahn_ok_def dep_rel_def list_all_iff split: option.splits)

definition marks :: "nat list \<Rightarrow> nat set" where
  "marks indeg = {i. i < length indeg \<and> indeg ! i = SIZE_MAX}"

lemma kahn_fold_acc:
  assumes "foldl (kahn_node ns) (indeg, p, g) is = (indeg', p', g')"
    and "\<forall>i\<in>set is. i < length indeg" and "length indeg = length ns"
    and "marks indeg \<subseteq> Wellfounded.acc (dep_rel ns)"
  shows "marks indeg' \<subseteq> Wellfounded.acc (dep_rel ns)"
  using assms
proof (induction "is" arbitrary: indeg p g)
  case Nil
  then show ?case by simp
next
  case (Cons i js)
  show ?case
  proof (cases "indeg ! i \<noteq> SIZE_MAX \<and> kahn_ok ns indeg i")
    case True
    have run: "foldl (kahn_node ns) (indeg[i := SIZE_MAX], Suc p, True) js = (indeg', p', g')"
      using Cons.prems(1) True by (simp add: kahn_node_eq)
    have "i \<in> Wellfounded.acc (dep_rel ns)"
    proof (rule acc.accI)
      fix j assume "(j, i) \<in> dep_rel ns"
      with True Cons.prems dep_rel_sub [of ns] have "j \<in> marks indeg"
        by (auto simp: kahn_ok_iff marks_def)
      with Cons.prems(4) show "j \<in> Wellfounded.acc (dep_rel ns)" by blast
    qed
    moreover have "marks (indeg[i := SIZE_MAX]) \<subseteq> insert i (marks indeg)"
      unfolding marks_def by (auto simp: nth_list_update)
    ultimately have "marks (indeg[i := SIZE_MAX]) \<subseteq> Wellfounded.acc (dep_rel ns)"
      using Cons.prems(4) by blast
    with Cons.IH [OF run] Cons.prems(2,3) show ?thesis by simp
  next
    case False
    have run: "foldl (kahn_node ns) (indeg, p, g) js = (indeg', p', g')"
      using Cons.prems(1) False by (auto simp: kahn_node_eq)
    from Cons.IH [OF run] Cons.prems(2,3,4) show ?thesis by simp
  qed
qed

lemma unmarked_0: "unmarked indeg = 0 \<longleftrightarrow> marks indeg = {..<length indeg}"
proof -
  have "unmarked indeg = 0 \<longleftrightarrow> (\<forall>x\<in>set indeg. x = SIZE_MAX)"
    by (induction indeg) (auto simp: unmarked_def)
  also have "\<dots> \<longleftrightarrow> marks indeg = {..<length indeg}"
    unfolding marks_def all_set_conv_all_nth by blast
  finally show ?thesis .
qed

text \<open>At a fixed point every unmarked node waits for another unmarked one.\<close>

lemma kahn_fixpoint:
  assumes len: "length indeg = length ns"
    and fp: "\<forall>i<length indeg. indeg ! i = SIZE_MAX \<or> \<not> kahn_ok ns indeg i"
    and ac: "acyclic (dep_rel ns)"
  shows "marks indeg = {..<length indeg}"
proof (rule ccontr)
  assume "marks indeg \<noteq> {..<length indeg}"
  then obtain i where i: "i < length indeg \<and> indeg ! i \<noteq> SIZE_MAX" by (auto simp: marks_def)
  let ?U = "{i. i < length indeg \<and> indeg ! i \<noteq> SIZE_MAX}"
  have "wf (dep_rel ns)" using finite_dep_rel ac by (rule finite_acyclic_wf)
  moreover from i have "i \<in> ?U" by simp
  ultimately obtain m where m: "m \<in> ?U" and least: "\<And>j. (j, m) \<in> dep_rel ns \<Longrightarrow> j \<notin> ?U"
    by (rule wfE_min) blast
  from m fp len obtain j where "(j, m) \<in> dep_rel ns \<and> indeg ! j \<noteq> SIZE_MAX"
    by (auto simp: kahn_ok_iff)
  with least [of j] dep_rel_sub [of ns] len show False by auto
qed

lemma acc_all_wf:
  assumes "{..<length ns} \<subseteq> Wellfounded.acc (dep_rel ns)"
  shows "wf (dep_rel ns)"
proof -
  have "i \<in> Wellfounded.acc (dep_rel ns)" for i
  proof (cases "i < length ns")
    case True
    with assms show ?thesis by auto
  next
    case False
    then show ?thesis by - (rule acc.accI, simp add: dep_rel_def)
  qed
  then show ?thesis by (rule acc_wfI [rule_format])
qed

lemma kahn_loop_acyclic:
  assumes "length indeg = length ns" and "p + unmarked indeg = length ns"
    and "marks indeg \<subseteq> Wellfounded.acc (dep_rel ns)"
  shows "kahn_loop ns indeg p = length ns \<longleftrightarrow> acyclic (dep_rel ns)"
  using assms
proof (induction ns indeg p rule: kahn_loop.induct)
  case (1 ns indeg p)
  obtain indeg' p' g where sw: "kahn_sweep ns indeg p = (indeg', p', g)"
    by (cases "kahn_sweep ns indeg p") auto
  note run = sw [unfolded kahn_sweep_def]
  have fold: "length indeg' = length indeg" "p' + unmarked indeg' = p + unmarked indeg"
      "\<not> g \<Longrightarrow> indeg' = indeg"
      "\<not> g \<Longrightarrow> \<forall>i<length indeg. indeg ! i = SIZE_MAX \<or> \<not> kahn_ok ns indeg i"
    using kahn_fold [OF run] by auto
  have acc: "marks indeg' \<subseteq> Wellfounded.acc (dep_rel ns)"
    using kahn_fold_acc [OF run] "1.prems" by simp
  show ?case
  proof (cases g)
    case True
    then have "kahn_loop ns indeg p = kahn_loop ns indeg' p'"
      using sw by (simp add: kahn_loop.simps [of ns indeg p])
    with "1.IH" [OF sw [symmetric] refl True] fold(1,2) acc "1.prems" show ?thesis by simp
  next
    case False
    then have exit: "kahn_loop ns indeg p = p'"
      using sw by (simp add: kahn_loop.simps [of ns indeg p])
    have "p' = length ns \<longleftrightarrow> marks indeg = {..<length indeg}"
      unfolding unmarked_0 [symmetric] using fold(2) fold(3) [OF False] "1.prems"(2) by auto
    moreover have "marks indeg = {..<length indeg} \<Longrightarrow> acyclic (dep_rel ns)"
      using "1.prems" by (intro wf_acyclic acc_all_wf) simp
    moreover have "acyclic (dep_rel ns) \<Longrightarrow> marks indeg = {..<length indeg}"
      using kahn_fixpoint "1.prems"(1) fold(4) [OF False] by blast
    ultimately show ?thesis using exit by blast
  qed
qed

lemma kahn_init_bound:
  assumes "\<forall>n\<in>set ns. length (n_depends n) \<le> SCHED_DAG_MAX_DEPS" and "i < length ns"
  shows "kahn_init ns ! i \<noteq> SIZE_MAX"
proof -
  have "kahn_init ns ! i \<le> length (n_depends (ns ! i))"
    using assms(2) by (simp add: kahn_init_def)
  also have "\<dots> \<le> 8" using assms by (simp add: SCHED_DAG_MAX_DEPS_def)
  finally show ?thesis by (simp add: SIZE_MAX_def)
qed

lemma detect_cycle_acyclic:
  assumes "\<forall>n\<in>set ns. length (n_depends n) \<le> SCHED_DAG_MAX_DEPS"
  shows "sched_dag_detect_cycle ns = AIRY_SUCCESS \<longleftrightarrow> acyclic (dep_rel ns)"
proof -
  have len: "length (kahn_init ns) = length ns" by (simp add: kahn_init_def)
  have none: "marks (kahn_init ns) = {}"
    using kahn_init_bound [OF assms] len by (auto simp: marks_def)
  have "map (\<lambda>x. if x = SIZE_MAX then 0 else 1) (kahn_init ns) = replicate (length ns) (1::nat)"
    using kahn_init_bound [OF assms] len by (intro nth_equalityI) auto
  then have "unmarked (kahn_init ns) = length ns" by (simp add: unmarked_def sum_list_replicate)
  with len none have "kahn_loop ns (kahn_init ns) 0 = length ns \<longleftrightarrow> acyclic (dep_rel ns)"
    by (intro kahn_loop_acyclic) simp_all
  then show ?thesis by (simp add: sched_dag_detect_cycle_def)
qed

section \<open>What the builder accepts\<close>

text \<open>A node that no dispatch has touched, and a well-formed graph.\<close>

definition fresh_node :: "sched_dag_node \<Rightarrow> bool" where
  "fresh_node n \<longleftrightarrow> n_status n = NODE_PENDING \<and> n_output n = None \<and> n_error n = None \<and>
     n_retry_count n = 0 \<and> n_retry_at_ms n = 0"

definition deps_known :: "sched_dag_node list \<Rightarrow> bool" where
  "deps_known ns \<longleftrightarrow> (\<forall>n\<in>set ns. set (n_depends n) \<subseteq> n_id ` set ns)"

definition graph_ok :: "sched_dag_node list \<Rightarrow> bool" where
  "graph_ok ns \<longleftrightarrow> ns \<noteq> [] \<and> length ns \<le> SCHED_DAG_MAX_NODES \<and>
     distinct (map n_id ns) \<and> [] \<notin> n_id ` set ns \<and>
     (\<forall>n\<in>set ns. length (n_depends n) \<le> SCHED_DAG_MAX_DEPS) \<and>
     deps_known ns \<and> acyclic (dep_rel ns)"

text \<open>The node the builder makes of one JSON item, field by field.\<close>

definition node_from :: "'j sched_env \<Rightarrow> 'j \<Rightarrow> sched_dag_node \<Rightarrow> bool" where
  "node_from env nj n \<longleftrightarrow>
     Option.bind (js_get env nj ''id'') (js_str env) = Some (n_id n) \<and> n_id n \<noteq> [] \<and>
     n_goal n = str_field env nj ''goal'' [] \<and>
     n_role n = str_field env nj ''role'' (vocab_fallback env) \<and>
     map Some (n_depends n) =
       (case Option.bind (js_get env nj ''depends'') (js_arr env) of
          None \<Rightarrow> [] | Some ds \<Rightarrow> map (js_str env) ds) \<and>
     length (n_depends n) \<le> SCHED_DAG_MAX_DEPS \<and> fresh_node n"

lemma take_deps_SUCCESS:
  "take_deps env djs node = (n, AIRY_SUCCESS) \<Longrightarrow>
     \<exists>ss. map (js_str env) djs = map Some ss \<and> n = node\<lparr>n_depends := n_depends node @ ss\<rparr>"
proof (induction djs arbitrary: node)
  case Nil
  then show ?case by simp
next
  case (Cons dj djs)
  then obtain s where s: "js_str env dj = Some s" by (cases "js_str env dj") auto
  with Cons.prems have "take_deps env djs (node\<lparr>n_depends := n_depends node @ [s]\<rparr>)
      = (n, AIRY_SUCCESS)" by simp
  from Cons.IH [OF this] obtain ss where "map (js_str env) djs = map Some ss"
    and "n = node\<lparr>n_depends := n_depends node @ s # ss\<rparr>" by auto
  with s show ?case by (intro exI [of _ "s # ss"]) simp
qed

lemma node_fields_calloc:
  "node_fields env nj (calloc_node i) = (n, e) \<Longrightarrow>
     n_id n = i \<and> n_goal n = str_field env nj ''goal'' [] \<and>
     n_role n = str_field env nj ''role'' (vocab_fallback env) \<and> n_depends n = [] \<and> fresh_node n"
  by (auto simp: node_fields_def calloc_node_def Let_def fresh_node_def
      split: option.splits if_splits)

lemma build_node_from:
  assumes id: "Option.bind (js_get env nj ''id'') (js_str env) = Some i" and "i \<noteq> []"
    and nd: "node_deps env nj (node_fields env nj (calloc_node i)) = (n, AIRY_SUCCESS)"
  shows "node_from env nj n"
proof -
  obtain m e where nf: "node_fields env nj (calloc_node i) = (m, e)" by fastforce
  note m = node_fields_calloc [OF nf]
  show ?thesis
  proof (cases "Option.bind (js_get env nj ''depends'') (js_arr env)")
    case None
    with nd nf have "n = m" by (simp add: node_deps_def)
    with m None id assms(2) show ?thesis by (simp add: node_from_def)
  next
    case (Some ds)
    with nd nf have td: "take_deps env ds m = (n, AIRY_SUCCESS)"
      and len: "length ds \<le> SCHED_DAG_MAX_DEPS"
      by (auto simp: node_deps_def split: if_splits)
    from take_deps_SUCCESS [OF td] m obtain ss
      where ss: "map (js_str env) ds = map Some ss" and n: "n = m\<lparr>n_depends := ss\<rparr>" by auto
    from arg_cong [OF ss, of length] len have "length ss \<le> SCHED_DAG_MAX_DEPS" by simp
    with m n ss Some id assms(2) show ?thesis by (simp add: node_from_def fresh_node_def)
  qed
qed

lemma build_nodes_spec:
  assumes "build_nodes env njs acc = Inr ns" and "distinct (map n_id acc)"
  shows "\<exists>ms. ns = acc @ ms \<and> list_all2 (node_from env) njs ms \<and> distinct (map n_id ns)"
  using assms
proof (induction njs arbitrary: acc)
  case Nil
  then show ?case by simp
next
  case (Cons nj njs)
  from Cons.prems(1) obtain i where
    i: "Option.bind (js_get env nj ''id'') (js_str env) = Some i" "i \<noteq> []" "find_id acc i = None"
    by (auto split: option.splits if_splits)
  obtain n e where nd: "node_deps env nj (node_fields env nj (calloc_node i)) = (n, e)"
    by fastforce
  from Cons.prems(1) i nd have e: "e = AIRY_SUCCESS"
    and run: "build_nodes env njs (acc @ [n]) = Inr ns" by (auto split: if_splits)
  have nf: "node_from env nj n" by (rule build_node_from [OF i(1,2)]) (simp add: nd e)
  then have "n_id n = i" using i(1) by (simp add: node_from_def)
  moreover have "i \<notin> set (map n_id acc)" using i(3) ids.find_None [of acc i] by simp
  ultimately have "distinct (map n_id (acc @ [n]))" using Cons.prems(2) by simp
  from Cons.IH [OF run this] obtain ms where "ns = (acc @ [n]) @ ms"
    and "list_all2 (node_from env) njs ms" and "distinct (map n_id ns)" by blast
  with nf show ?case by (intro exI [of _ "n # ms"]) simp
qed

lemma validate_deps_iff: "sched_dag_validate_deps ns = AIRY_SUCCESS \<longleftrightarrow> deps_known ns"
proof -
  have "find_id ns d \<noteq> None \<longleftrightarrow> d \<in> n_id ` set ns" for d
    using ids.find_None [of ns d] by simp
  then show ?thesis
    unfolding sched_dag_validate_deps_def deps_known_def list_all_iff by auto
qed

lemma node_from_list:
  assumes "list_all2 (node_from env) njs ns" and "n \<in> set ns"
  shows "length (n_depends n) \<le> SCHED_DAG_MAX_DEPS \<and> n_id n \<noteq> [] \<and> fresh_node n"
  using assms by (auto simp: list_all2_conv_all_nth in_set_conv_nth node_from_def)

text \<open>
  The builder as a decision: the nodes parse one by one into \<open>ns\<close>, and then the answer
  depends only on whether the dependencies resolve and whether they form a cycle.
\<close>

lemma build_cases:
  assumes nj: "Option.bind (js_get env rt ''nodes'') (js_arr env) = Some njs"
    and "njs \<noteq> []" and "length njs \<le> SCHED_DAG_MAX_NODES"
    and ns: "build_nodes env njs [] = Inr ns"
  shows "if \<not> deps_known ns then sched_dag_validate_and_build env rt = Inl AIRY_ERR_INVALID_PARAM
    else if \<not> acyclic (dep_rel ns)
    then sched_dag_validate_and_build env rt = Inl AIRY_ERR_CYCLE_DETECTED
    else \<exists>d. sched_dag_validate_and_build env rt = Inr d \<and> d_nodes d = ns"
proof -
  from build_nodes_spec [OF ns] have l2: "list_all2 (node_from env) njs ns" by auto
  have cyc: "sched_dag_detect_cycle ns = AIRY_SUCCESS \<longleftrightarrow> acyclic (dep_rel ns)"
    by (rule detect_cycle_acyclic) (use node_from_list [OF l2] in blast)
  have two: "sched_dag_validate_deps ns = AIRY_SUCCESS \<or>
      sched_dag_validate_deps ns = AIRY_ERR_INVALID_PARAM"
    "sched_dag_detect_cycle ns = AIRY_SUCCESS \<or>
      sched_dag_detect_cycle ns = AIRY_ERR_CYCLE_DETECTED"
    by (simp_all add: sched_dag_validate_deps_def sched_dag_detect_cycle_def)
  from two cyc assms show ?thesis
    unfolding validate_deps_iff [symmetric]
    by (auto simp: sched_dag_validate_and_build_def)
qed

lemma build_InrD:
  assumes "sched_dag_validate_and_build env rt = Inr d"
  shows "\<exists>njs. Option.bind (js_get env rt ''nodes'') (js_arr env) = Some njs \<and> njs \<noteq> [] \<and>
     length njs \<le> SCHED_DAG_MAX_NODES \<and> build_nodes env njs [] = Inr (d_nodes d) \<and>
     d_status d = DAG_ACTIVE \<and> sched_dag_validate_deps (d_nodes d) = AIRY_SUCCESS \<and>
     sched_dag_detect_cycle (d_nodes d) = AIRY_SUCCESS"
  using assms
  by (auto simp: sched_dag_validate_and_build_def split: option.splits if_splits sum.splits)

lemma build_graph_ok:
  assumes "sched_dag_validate_and_build env rt = Inr d"
  shows "graph_ok (d_nodes d) \<and> list_all fresh_node (d_nodes d) \<and> d_status d = DAG_ACTIVE"
proof -
  from build_InrD [OF assms] obtain njs where n: "njs \<noteq> []" "length njs \<le> SCHED_DAG_MAX_NODES"
    and b: "build_nodes env njs [] = Inr (d_nodes d)" and st: "d_status d = DAG_ACTIVE"
    and vd: "sched_dag_validate_deps (d_nodes d) = AIRY_SUCCESS"
    and cy: "sched_dag_detect_cycle (d_nodes d) = AIRY_SUCCESS" by blast
  from build_nodes_spec [OF b] have l2: "list_all2 (node_from env) njs (d_nodes d)"
    and di: "distinct (map n_id (d_nodes d))" by auto
  note each = node_from_list [OF l2]
  have "acyclic (dep_rel (d_nodes d))" using cy each by (simp add: detect_cycle_acyclic)
  moreover have "d_nodes d \<noteq> []" "length (d_nodes d) \<le> SCHED_DAG_MAX_NODES"
    using l2 n list_all2_lengthD [OF l2] by auto
  moreover have "[] \<notin> n_id ` set (d_nodes d)" using each by force
  ultimately show ?thesis
    using each di vd st by (auto simp: graph_ok_def validate_deps_iff list_all_iff)
qed

section \<open>Properties\<close>

text \<open>A small JSON type that stands in for cJSON trees in the concrete examples.\<close>

datatype ex_json =
    XNum rat | XStr string | XArr "ex_json list" | XObj "(string \<times> ex_json) list"

definition example_env :: "ex_json sched_env" where
  "example_env =
     \<lparr>js_parse = (\<lambda>s. if s = ''chain'' then
          Some (XObj [(''nodes'', XArr [XObj [(''id'', XStr ''a'')],
            XObj [(''id'', XStr ''b''), (''depends'', XArr [XStr ''a''])]])]) else None),
      js_get = (\<lambda>j k. case j of XObj kvs \<Rightarrow> map_of kvs k | _ \<Rightarrow> None),
      js_str = (\<lambda>j. case j of XStr s \<Rightarrow> Some s | _ \<Rightarrow> None),
      js_num = (\<lambda>j. case j of XNum r \<Rightarrow> Some r | _ \<Rightarrow> None),
      js_arr = (\<lambda>j. case j of XArr js \<Rightarrow> Some js | _ \<Rightarrow> None),
      js_obj = (\<lambda>j. case j of XObj kvs \<Rightarrow> True | _ \<Rightarrow> False),
      js_print = (\<lambda>j. Some ''{}''),
      vocab_fallback = ''coding'',
      av_load = (\<lambda>r. if r = ''{}'' then Some (\<lambda>out. length out < 4) else None)\<rparr>"

definition example_chain :: ex_json where
  "example_chain = XObj [(''nodes'', XArr [XObj [(''id'', XStr ''a'')],
     XObj [(''id'', XStr ''b''), (''depends'', XArr [XStr ''a'']), (''max_retries'', XNum 2)]])]"

definition example_ring :: ex_json where
  "example_ring = XObj [(''nodes'', XArr [
     XObj [(''id'', XStr ''a''), (''depends'', XArr [XStr ''b''])],
     XObj [(''id'', XStr ''b''), (''depends'', XArr [XStr ''a''])]])]"

lemmas example_json = example_env_def example_chain_def example_ring_def
lemmas build_eval = example_json node_deps_def node_fields_def
  calloc_node_def str_field_def pos_field_def SCHED_DAG_MAX_DEPS_def SCHED_DAG_MAX_NODES_def
  find_id_def sched_dag_validate_deps_def Let_def cast_uint_def
lemmas cycle_eval = sched_dag_detect_cycle_def kahn_loop.simps kahn_sweep_def kahn_init_def
  kahn_node_def kahn_ok_def SIZE_MAX_def find_id_def calloc_node_def

definition example_chain_nodes :: "sched_dag_node list" where
  "example_chain_nodes = [calloc_node ''a''\<lparr>n_role := ''coding''\<rparr>,
     calloc_node ''b''\<lparr>n_role := ''coding'', n_depends := [''a''], n_max_retries := 2\<rparr>]"

definition example_ring_nodes :: "sched_dag_node list" where
  "example_ring_nodes = [calloc_node ''a''\<lparr>n_role := ''coding'', n_depends := [''b'']\<rparr>,
     calloc_node ''b''\<lparr>n_role := ''coding'', n_depends := [''a'']\<rparr>]"

lemma example_chain_cycle: "sched_dag_detect_cycle example_chain_nodes = AIRY_SUCCESS"
  by (simp add: example_chain_nodes_def cycle_eval)

lemma example_chain_build:
  "\<exists>d. sched_dag_validate_and_build example_env example_chain = Inr d \<and>
     d_nodes d = example_chain_nodes"
proof -
  have "build_nodes example_env [XObj [(''id'', XStr ''a'')],
      XObj [(''id'', XStr ''b''), (''depends'', XArr [XStr ''a'']), (''max_retries'', XNum 2)]] []
    = Inr example_chain_nodes"
    by (simp add: build_eval example_chain_nodes_def)
  moreover have "sched_dag_validate_deps example_chain_nodes = AIRY_SUCCESS"
    by (simp add: build_eval example_chain_nodes_def)
  ultimately show ?thesis
    using example_chain_cycle
    by (simp add: sched_dag_validate_and_build_def example_json SCHED_DAG_MAX_NODES_def)
qed

text \<open>
  C4. The blueprint builder decides acyclicity. Once the node items have parsed, a graph with an
  unresolved dependency is refused with INVALID_PARAM, otherwise a graph whose dependency
  relation has a cycle is refused with CYCLE_DETECTED, and every other graph is accepted with
  exactly the parsed nodes. The marking loop of the cycle check is therefore both sound and
  complete for the mathematical notion of an acyclic relation.
\<close>

theorem dag_build_decides:
  assumes "Option.bind (js_get env rt ''nodes'') (js_arr env) = Some njs"
    and "njs \<noteq> []" and "length njs \<le> SCHED_DAG_MAX_NODES"
    and "build_nodes env njs [] = Inr ns"
  shows "if \<not> deps_known ns then sched_dag_validate_and_build env rt = Inl AIRY_ERR_INVALID_PARAM
    else if \<not> acyclic (dep_rel ns)
    then sched_dag_validate_and_build env rt = Inl AIRY_ERR_CYCLE_DETECTED
    else \<exists>d. sched_dag_validate_and_build env rt = Inr d \<and> d_nodes d = ns"
  using assms by (rule build_cases)

text \<open>The two-node ring parses, its ids resolve, and the check reports the cycle.\<close>

theorem dag_build_decides_witness:
  "deps_known example_ring_nodes \<and> \<not> acyclic (dep_rel example_ring_nodes) \<and>
   sched_dag_validate_and_build example_env example_ring = Inl AIRY_ERR_CYCLE_DETECTED"
proof -
  have known: "deps_known example_ring_nodes"
    by (simp add: deps_known_def example_ring_nodes_def calloc_node_def)
  have "sched_dag_detect_cycle example_ring_nodes \<noteq> AIRY_SUCCESS"
    by (simp add: example_ring_nodes_def cycle_eval)
  then have cyc: "\<not> acyclic (dep_rel example_ring_nodes)"
    by (subst (asm) detect_cycle_acyclic)
      (simp_all add: example_ring_nodes_def calloc_node_def SCHED_DAG_MAX_DEPS_def)
  have "if \<not> deps_known example_ring_nodes
    then sched_dag_validate_and_build example_env example_ring = Inl AIRY_ERR_INVALID_PARAM
    else if \<not> acyclic (dep_rel example_ring_nodes)
    then sched_dag_validate_and_build example_env example_ring = Inl AIRY_ERR_CYCLE_DETECTED
    else \<exists>d. sched_dag_validate_and_build example_env example_ring = Inr d \<and>
           d_nodes d = example_ring_nodes"
    by (rule dag_build_decides [where njs = "[XObj [(''id'', XStr ''a''), (''depends'', XArr [XStr ''b''])],
        XObj [(''id'', XStr ''b''), (''depends'', XArr [XStr ''a''])]]"])
      (simp_all add: build_eval example_ring_nodes_def)
  with known cyc show ?thesis by simp
qed

text \<open>
  Every graph the builder lets through is well formed: between 1 and 64 nodes with distinct,
  non-empty ids, at most 8 dependencies each, all of them nodes of the graph, no cycle; every
  node is untouched and pending and the graph is active.
\<close>

theorem dag_build_sound:
  assumes "sched_dag_validate_and_build env rt = Inr d"
  shows "graph_ok (d_nodes d) \<and> list_all fresh_node (d_nodes d) \<and> d_status d = DAG_ACTIVE"
  using assms by (rule build_graph_ok)

theorem dag_build_sound_witness:
  "\<exists>d. sched_dag_validate_and_build example_env example_chain = Inr d \<and>
     graph_ok (d_nodes d) \<and> map n_id (d_nodes d) = [''a'', ''b'']"
proof -
  obtain d where d: "sched_dag_validate_and_build example_env example_chain = Inr d"
    and "d_nodes d = example_chain_nodes" using example_chain_build by blast
  then have "map n_id (d_nodes d) = [''a'', ''b'']"
    by (simp add: example_chain_nodes_def calloc_node_def)
  with d dag_build_sound [OF d] show ?thesis by (intro exI [of _ d]) simp
qed

end
