(* ===== verification/Sched_Engine.thy ===== *)
theory Sched_Engine
  imports Sched_Parse
begin

text \<open>
  sched_d, blueprint graphs: the execution engine \<open>sched_dag_engine.c\<close> and the predicates of
  \<open>sched_dag_internal.h\<close>. Every function runs under the service lock, so each is a function of
  the graph (or of the list of graphs) it works on. The wall clock is an argument \<open>now\<close>, one
  reading per call of a function; times and retry counters keep their width, so additions and
  shifts wrap as in C. Log lines are left out.

  Shown here: what a node's composed input looks like and that its buffer is large enough; that
  failure propagation ends and cancels exactly the doomed nodes; how every outcome of a dispatch
  is graded; and, for every engine operation, which node states it can move to which.
\<close>

section \<open>Status predicates\<close>

definition sched_dag_node_done :: "sched_dag_node_status \<Rightarrow> bool" where
  "sched_dag_node_done st \<longleftrightarrow> st = NODE_COMPLETED \<or> st = NODE_SEMANTIC_FAILED \<or>
     st = NODE_FAILED \<or> st = NODE_CANCELED"

definition sched_dag_dep_broken :: "sched_dag_node_status \<Rightarrow> bool" where
  "sched_dag_dep_broken st \<longleftrightarrow> st = NODE_SEMANTIC_FAILED \<or> st = NODE_FAILED \<or> st = NODE_CANCELED"

definition sched_dag_has_output :: "string option \<Rightarrow> bool" where
  "sched_dag_has_output out =
     (case out of
        None \<Rightarrow> False
      | Some s \<Rightarrow> list_ex (\<lambda>c. c \<noteq> CHR '' '' \<and> c \<noteq> chr_tab \<and> c \<noteq> chr_nl \<and> c \<noteq> chr_cr) s)"

section \<open>Composing a node's input\<close>

definition SCHED_DAG_UPSTREAM_BUDGET :: nat where "SCHED_DAG_UPSTREAM_BUDGET = 4096"

definition sched_dag_agent_input :: "sched_dag \<Rightarrow> sched_dag_node \<Rightarrow> string" where
  "sched_dag_agent_input d node =
     (if n_goal node \<noteq> [] \<and> n_goal node \<noteq> n_id node then n_goal node else d_input d)"

definition sched_dag_find_node :: "sched_dag_node list \<Rightarrow> string \<Rightarrow> sched_dag_node option" where
  "sched_dag_find_node ns i = map_option ((!) ns) (find_id ns i)"

text \<open>The dependencies that contribute: completed, with a non-empty output.\<close>

definition eligible_deps :: "sched_dag \<Rightarrow> sched_dag_node \<Rightarrow> (string \<times> string) list" where
  "eligible_deps d node =
     List.map_filter (\<lambda>i. case sched_dag_find_node (d_nodes d) i of
         None \<Rightarrow> None
       | Some dep \<Rightarrow>
           (if n_status dep \<noteq> NODE_COMPLETED then None
            else case n_output dep of
                   None \<Rightarrow> None
                 | Some out \<Rightarrow> if out = [] then None else Some (n_id dep, out)))
       (take SCHED_DAG_MAX_DEPS (n_depends node))"

text \<open>How much of each output is taken: an equal share, within what the budget has left.\<close>

fun take_shares ::
  "nat \<Rightarrow> nat \<Rightarrow> nat \<Rightarrow> (string \<times> string) list \<Rightarrow> (string \<times> string) list" where
  "take_shares budget share used [] = []"
| "take_shares budget share used ((i, out) # deps) =
     (let tk = min (min (length out) share) (budget - used)
      in if tk = 0 then []
         else (i, take tk out) # take_shares budget share (used + tk) deps)"

definition upstream_hdr :: "string \<Rightarrow> string" where
  "upstream_hdr i =
     [chr_nl, chr_nl] @ ''--- '' @
     [CHR 0xE4, CHR 0xB8, CHR 0x8A, CHR 0xE6, CHR 0xB8, CHR 0xB8,
      CHR 0xE4, CHR 0xBA, CHR 0xA7, CHR 0xE5, CHR 0x87, CHR 0xBA] @
     '' ['' @ i @ ''] ---'' @ [chr_nl]"

text \<open>The write loop: stops where \<open>snprintf\<close> reports that the header does not fit.\<close>

fun write_deps :: "nat \<Rightarrow> string \<Rightarrow> (string \<times> string) list \<Rightarrow> string" where
  "write_deps tot out [] = out"
| "write_deps tot out ((i, body) # deps) =
     (if tot - length out \<le> length (upstream_hdr i) then out
      else write_deps tot (out @ upstream_hdr i @ body) deps)"

definition input_total :: "string \<Rightarrow> (string \<times> string) list \<Rightarrow> nat" where
  "input_total base picks =
     length base + 1 + sum_list (map (\<lambda>(i, body). length i + length body + 32) picks)"

definition sched_dag_node_input :: "sched_dag \<Rightarrow> sched_dag_node \<Rightarrow> nat \<Rightarrow> string" where
  "sched_dag_node_input d node budget =
     (let base = sched_dag_agent_input d node;
          deps = eligible_deps d node
      in if deps = [] then base
         else let picks = take_shares budget (budget div length deps) 0 deps
              in if picks = [] then base
                 else write_deps (input_total base picks) base picks)"

section \<open>Readiness\<close>

fun deps_state :: "sched_dag_node list \<Rightarrow> string list \<Rightarrow> int" where
  "deps_state ns [] = 1"
| "deps_state ns (i # is) =
     (case sched_dag_find_node ns i of
        None \<Rightarrow> 0
      | Some dep \<Rightarrow>
          if n_status dep = NODE_COMPLETED then deps_state ns is
          else if sched_dag_dep_broken (n_status dep) then -1 else 0)"

definition sched_dag_node_ready :: "64 word \<Rightarrow> sched_dag_node list \<Rightarrow> nat \<Rightarrow> int" where
  "sched_dag_node_ready now ns idx =
     (let node = ns ! idx
      in if n_status node \<noteq> NODE_PENDING then 0
         else if n_retry_at_ms node \<noteq> 0 \<and> now < n_retry_at_ms node then 0
         else deps_state ns (n_depends node))"

definition dag_ready_idx :: "64 word \<Rightarrow> sched_dag \<Rightarrow> nat option" where
  "dag_ready_idx now d =
     (if d_status d \<noteq> DAG_ACTIVE then None
      else find_index (\<lambda>j. 0 < sched_dag_node_ready now (d_nodes d) j) [0..<length (d_nodes d)])"

definition sched_dag_find_ready :: "64 word \<Rightarrow> sched_dag list \<Rightarrow> (nat \<times> nat) option" where
  "sched_dag_find_ready now ds =
     (case find_index (\<lambda>d. dag_ready_idx now d \<noteq> None) ds of
        None \<Rightarrow> None
      | Some i \<Rightarrow> map_option (Pair i) (dag_ready_idx now (ds ! i)))"

definition sched_dag_all_terminal :: "sched_dag \<Rightarrow> bool" where
  "sched_dag_all_terminal d = list_all (\<lambda>n. sched_dag_node_done (n_status n)) (d_nodes d)"

section \<open>Failure grading\<close>

fun sched_dag_error_is_fatal :: "airy_err \<Rightarrow> bool" where
  "sched_dag_error_is_fatal AIRY_ERR_OUT_OF_MEMORY = True"
| "sched_dag_error_is_fatal AIRY_ERR_SYS_RESOURCE = True"
| "sched_dag_error_is_fatal AIRY_ERR_SYS_THREAD = True"
| "sched_dag_error_is_fatal AIRY_ERR_SYS_MUTEX = True"
| "sched_dag_error_is_fatal AIRY_ERR_SYS_SEMAPHORE = True"
| "sched_dag_error_is_fatal AIRY_ERR_SYS_CONDITION = True"
| "sched_dag_error_is_fatal AIRY_ERR_SYS_PIPE = True"
| "sched_dag_error_is_fatal AIRY_ERR_SYS_PROCESS = True"
| "sched_dag_error_is_fatal AIRY_ERR_SYS_SOCKET = True"
| "sched_dag_error_is_fatal AIRY_ERR_SYS_FILE = True"
| "sched_dag_error_is_fatal _ = False"

fun sched_dag_error_is_transient :: "airy_err \<Rightarrow> bool" where
  "sched_dag_error_is_transient AIRY_ERR_TIMEOUT = True"
| "sched_dag_error_is_transient AIRY_ERR_EXEC_TIMEOUT = True"
| "sched_dag_error_is_transient AIRY_ERR_SVC_NOT_READY = True"
| "sched_dag_error_is_transient AIRY_ERR_SVC_BUSY = True"
| "sched_dag_error_is_transient AIRY_ERR_SVC_STOPPED = True"
| "sched_dag_error_is_transient AIRY_ERR_LLM_RATE_LIMIT = True"
| "sched_dag_error_is_transient AIRY_ERR_LLM_PROVIDER_FAIL = True"
| "sched_dag_error_is_transient AIRY_ERR_LLM_PARSE_RESP = True"
| "sched_dag_error_is_transient AIRY_ERR_LLM_EMPTY_RESP = True"
| "sched_dag_error_is_transient AIRY_ERR_PARSE_ERROR = True"
| "sched_dag_error_is_transient AIRY_ERR_INTERRUPTED = True"
| "sched_dag_error_is_transient AIRY_ERR_WOULD_BLOCK = True"
| "sched_dag_error_is_transient _ = False"

definition node_err_set :: "string option \<Rightarrow> sched_dag_node \<Rightarrow> sched_dag_node" where
  "node_err_set msg node = node\<lparr>n_error := msg\<rparr>"

definition node_final ::
  "64 word \<Rightarrow> sched_dag_node_status \<Rightarrow> sched_dag_node \<Rightarrow> sched_dag_node" where
  "node_final now st node = node\<lparr>n_status := st, n_retry_at_ms := 0, n_finished_at_ms := now\<rparr>"

definition dag_cascade_cancel :: "64 word \<Rightarrow> sched_dag_node list \<Rightarrow> sched_dag_node list" where
  "dag_cascade_cancel now ns =
     map (\<lambda>n. if n_status n = NODE_PENDING \<or> n_status n = NODE_READY
              then node_final now NODE_CANCELED n else n) ns"

definition node_discard :: "64 word \<Rightarrow> sched_dag_node \<Rightarrow> sched_dag_node" where
  "node_discard now node = node_final now NODE_CANCELED node"

text \<open>1 (\<open>True\<close>) = pass; the reason of a rejection is only logged.\<close>

definition node_verify :: "'j sched_env \<Rightarrow> sched_dag_node \<Rightarrow> string \<Rightarrow> bool" where
  "node_verify env node out =
     (case n_validator_rule_json node of
        None \<Rightarrow> True
      | Some rules \<Rightarrow>
          if rules = [] then True
          else (case av_load env rules of None \<Rightarrow> True | Some rejects \<Rightarrow> \<not> rejects out))"

definition node_succeed ::
  "'j sched_env \<Rightarrow> 64 word \<Rightarrow> sched_dag_node \<Rightarrow> string option \<Rightarrow> sched_dag_node \<times> bool" where
  "node_succeed env now node out =
     (if \<not> sched_dag_has_output out
      then (node_final now NODE_SEMANTIC_FAILED
              (node_err_set (Some ''agent produced no artifact'') node), False)
      else if \<not> node_verify env node (the out)
      then (node_final now NODE_FAILED
              (node_err_set (Some ''artifact verification failed'') node), False)
      else (node_final now NODE_COMPLETED (node_err_set None (node\<lparr>n_output := out\<rparr>)), True))"

definition set_node :: "sched_dag \<Rightarrow> nat \<Rightarrow> sched_dag_node \<Rightarrow> sched_dag" where
  "set_node d j node = d\<lparr>d_nodes := (d_nodes d)[j := node]\<rparr>"

definition dag_abort :: "64 word \<Rightarrow> sched_dag \<Rightarrow> nat \<Rightarrow> sched_dag_node \<Rightarrow> string \<Rightarrow> sched_dag" where
  "dag_abort now d j node msg =
     (let d = set_node d j ((node_err_set (Some msg) node)\<lparr>n_status := NODE_FAILED\<rparr>)
      in d\<lparr>d_status := DAG_FAILED, d_nodes := dag_cascade_cancel now (d_nodes d)\<rparr>)"

text \<open>
  \<open>None\<close> = no retry. The product is a 64-bit one and wraps; a shift by 64 or more, undefined in
  C, gives 0 in the model.
\<close>

definition node_backoff ::
  "64 word \<Rightarrow> sched_dag \<Rightarrow> sched_dag_node \<Rightarrow> airy_err \<Rightarrow> sched_dag_node option" where
  "node_backoff now d node dret =
     (if \<not> sched_dag_error_is_transient dret \<or> n_max_retries node \<le> n_retry_count node then None
      else let deadline = (if d_retry_budget_ms d \<noteq> 0
                           then d_created_at_ms d + d_retry_budget_ms d else 0)
           in if deadline \<noteq> 0 \<and> deadline \<le> now then None
              else let rc = n_retry_count node + 1;
                       backoff = (if n_retry_delay_ms node \<noteq> 0
                                  then ucast (n_retry_delay_ms node) else 1000)
                                 * push_bit (unat (rc - 1)) (1 :: 64 word)
                   in Some (node\<lparr>n_retry_count := rc, n_retry_at_ms := now + backoff,
                                 n_error := Some ''transient failure, retrying with backoff'',
                                 n_status := NODE_PENDING, n_finished_at_ms := 0\<rparr>))"

definition sched_dag_write_back_node ::
  "'j sched_env \<Rightarrow> bool \<Rightarrow> 64 word \<Rightarrow> sched_dag \<Rightarrow> nat \<Rightarrow> airy_err \<Rightarrow> string option
     \<Rightarrow> sched_dag \<times> bool" where
  "sched_dag_write_back_node env dag_fatal_cascade now d j dret out =
     (let node = d_nodes d ! j
      in if n_status node = NODE_CANCELED \<or> d_status d = DAG_CANCELED \<or> d_status d = DAG_FAILED
         then (set_node d j (node_discard now node), False)
         else if dret = AIRY_SUCCESS
         then (case node_succeed env now node out of (node', ok) \<Rightarrow> (set_node d j node', ok))
         else let node = node_err_set None (node\<lparr>n_finished_at_ms := now\<rparr>);
                  fatal = (dag_fatal_cascade \<and> sched_dag_error_is_fatal dret);
                  why = (if fatal then ''agent dispatch failed (fatal)''
                         else if dret = AIRY_ERR_SVC_NOT_READY then ''dag executor not injected''
                         else ''agent dispatch failed'')
              in if fatal \<or> \<not> dag_fatal_cascade then (dag_abort now d j node why, False)
                 else (case node_backoff now d node dret of
                         Some node' \<Rightarrow> (set_node d j node', False)
                       | None \<Rightarrow>
                           (set_node d j ((node_err_set (Some ''agent dispatch failed'') node)
                              \<lparr>n_status := NODE_FAILED\<rparr>), False)))"

section \<open>Convergence\<close>

definition unreachable_node :: "sched_dag_node list \<Rightarrow> nat \<Rightarrow> bool" where
  "unreachable_node ns j \<longleftrightarrow> n_status (ns ! j) = NODE_PENDING \<and>
     list_ex (\<lambda>i. case sched_dag_find_node ns i of
                     None \<Rightarrow> False | Some dep \<Rightarrow> sched_dag_dep_broken (n_status dep))
       (n_depends (ns ! j))"

definition prop_node ::
  "64 word \<Rightarrow> sched_dag_node list \<times> bool \<Rightarrow> nat \<Rightarrow> sched_dag_node list \<times> bool" where
  "prop_node now st j =
     (case st of (ns, changed) \<Rightarrow>
        if unreachable_node ns j then (ns[j := node_final now NODE_CANCELED (ns ! j)], True)
        else (ns, changed))"

definition prop_dag :: "64 word \<Rightarrow> sched_dag \<Rightarrow> sched_dag \<times> bool" where
  "prop_dag now d =
     (if d_status d \<noteq> DAG_ACTIVE then (d, False)
      else case foldl (prop_node now) (d_nodes d, False) [0..<length (d_nodes d)] of
             (ns, changed) \<Rightarrow> (d\<lparr>d_nodes := ns\<rparr>, changed))"

definition prop_sweep :: "64 word \<Rightarrow> sched_dag list \<Rightarrow> sched_dag list \<times> bool" where
  "prop_sweep now ds =
     (map (\<lambda>d. fst (prop_dag now d)) ds, list_ex (\<lambda>d. snd (prop_dag now d)) ds)"

definition pending_count :: "sched_dag_node list \<Rightarrow> nat" where
  "pending_count ns = sum_list (map (\<lambda>n. if n_status n = NODE_PENDING then 1 else 0) ns)"

lemma pending_count_update:
  assumes "j < length ns" and "n_status (ns ! j) = NODE_PENDING" and "n_status n \<noteq> NODE_PENDING"
  shows "pending_count (ns[j := n]) < pending_count ns"
proof -
  let ?f = "\<lambda>n. if n_status n = NODE_PENDING then 1 else 0 :: nat"
  have "sum_list (map ?f (ns[j := n])) = sum_list (map ?f ns) + 0 - map ?f ns ! j"
    using assms by (simp add: map_update sum_list_update)
  moreover have "map ?f ns ! j = 1" using assms by simp
  moreover have "map ?f ns ! j \<le> sum_list (map ?f ns)"
    by (rule elem_le_sum_list) (simp add: assms(1))
  ultimately show ?thesis unfolding pending_count_def by simp
qed

lemma prop_node_eq:
  "prop_node now (ns, ch) j =
     (if unreachable_node ns j then (ns[j := node_final now NODE_CANCELED (ns ! j)], True)
      else (ns, ch))"
  by (simp add: prop_node_def)

lemma node_final_status [simp]: "n_status (node_final now st n) = st"
  by (simp add: node_final_def)

lemma prop_fold_measure:
  assumes "foldl (prop_node now) (ns, ch) js = (ns', ch')" and "\<forall>j\<in>set js. j < length ns"
  shows "pending_count ns' \<le> pending_count ns \<and>
    (ch' \<longrightarrow> ch \<or> pending_count ns' < pending_count ns) \<and>
    (\<not> ch' \<longrightarrow> \<not> ch \<and> ns' = ns \<and> (\<forall>j\<in>set js. \<not> unreachable_node ns j))"
  using assms
proof (induction js arbitrary: ns ch)
  case Nil
  then show ?case by auto
next
  case (Cons j js)
  show ?case
  proof (cases "unreachable_node ns j")
    case True
    have run: "foldl (prop_node now) (ns[j := node_final now NODE_CANCELED (ns ! j)], True) js
        = (ns', ch')" using Cons.prems(1) True by (simp add: prop_node_eq)
    have "pending_count (ns[j := node_final now NODE_CANCELED (ns ! j)]) < pending_count ns"
      using True Cons.prems(2) by (intro pending_count_update) (auto simp: unreachable_node_def)
    with Cons.IH [OF run] Cons.prems(2) show ?thesis by auto
  next
    case False
    have run: "foldl (prop_node now) (ns, ch) js = (ns', ch')"
      using Cons.prems(1) False by (simp add: prop_node_eq)
    from Cons.IH [OF run] Cons.prems(2) False show ?thesis by auto
  qed
qed

lemma prop_dag_measure:
  "pending_count (d_nodes (fst (prop_dag now d))) \<le> pending_count (d_nodes d) \<and>
   (snd (prop_dag now d) \<longrightarrow>
      pending_count (d_nodes (fst (prop_dag now d))) < pending_count (d_nodes d)) \<and>
   (\<not> snd (prop_dag now d) \<longrightarrow> fst (prop_dag now d) = d \<and>
      (d_status d = DAG_ACTIVE \<longrightarrow> (\<forall>j<length (d_nodes d). \<not> unreachable_node (d_nodes d) j)))"
proof (cases "d_status d = DAG_ACTIVE")
  case True
  obtain ns ch where run: "foldl (prop_node now) (d_nodes d, False) [0..<length (d_nodes d)] = (ns, ch)"
    by fastforce
  from prop_fold_measure [OF run] True run show ?thesis by (auto simp: prop_dag_def)
qed (simp add: prop_dag_def)

definition pending_total :: "sched_dag list \<Rightarrow> nat" where
  "pending_total ds = sum_list (map (\<lambda>d. pending_count (d_nodes d)) ds)"

lemma prop_sweep_measure:
  assumes "prop_sweep now ds = (ds', ch)"
  shows "pending_total ds' \<le> pending_total ds \<and> (ch \<longrightarrow> pending_total ds' < pending_total ds)"
  using assms
proof (induction ds arbitrary: ds' ch)
  case Nil
  then show ?case by (simp add: prop_sweep_def pending_total_def)
next
  case (Cons d ds)
  have "pending_total (fst (prop_sweep now ds)) \<le> pending_total ds"
    "snd (prop_sweep now ds) \<Longrightarrow> pending_total (fst (prop_sweep now ds)) < pending_total ds"
    using Cons.IH [OF prod.collapse [symmetric]] by simp_all
  with prop_dag_measure [of now d] Cons.prems show ?case
    by (auto simp: prop_sweep_def pending_total_def)
qed

function sched_dag_propagate_unreachable :: "64 word \<Rightarrow> sched_dag list \<Rightarrow> sched_dag list" where
  "sched_dag_propagate_unreachable now ds =
     (case prop_sweep now ds of (ds', changed) \<Rightarrow>
        if changed then sched_dag_propagate_unreachable now ds' else ds')"
  by pat_completeness auto

termination sched_dag_propagate_unreachable
  by (relation "measure (\<lambda>(now, ds). pending_total ds)")
    (auto dest!: prop_sweep_measure [OF sym])

declare sched_dag_propagate_unreachable.simps [simp del]

definition finalize_dag :: "64 word \<Rightarrow> sched_dag \<Rightarrow> sched_dag" where
  "finalize_dag now d =
     (if d_status d \<noteq> DAG_ACTIVE then d
      else if \<not> sched_dag_all_terminal d then d
      else d\<lparr>d_status :=
               (if list_ex (\<lambda>n. n_status n = NODE_FAILED) (d_nodes d) then DAG_FAILED
                else if list_ex (\<lambda>n. n_status n = NODE_SEMANTIC_FAILED) (d_nodes d)
                then DAG_SEMANTIC_FAILED else DAG_COMPLETED),
             d_finished_at_ms := now\<rparr>)"

definition sched_dag_finalize_terminal :: "64 word \<Rightarrow> sched_dag list \<Rightarrow> sched_dag list" where
  "sched_dag_finalize_terminal now ds = map (finalize_dag now) ds"

definition min_retry_node :: "64 word \<Rightarrow> 64 word \<Rightarrow> sched_dag_node \<Rightarrow> 64 word" where
  "min_retry_node now m n =
     (if n_status n = NODE_PENDING \<and> now < n_retry_at_ms n \<and> (m = 0 \<or> n_retry_at_ms n < m)
      then n_retry_at_ms n else m)"

definition sched_dag_min_retry_at :: "64 word \<Rightarrow> sched_dag list \<Rightarrow> 64 word" where
  "sched_dag_min_retry_at now ds =
     foldl (\<lambda>m d. if d_status d \<noteq> DAG_ACTIVE then m
                  else foldl (min_retry_node now) m (d_nodes d)) 0 ds"

section \<open>The composed input\<close>

lemma length_upstream_hdr: "length (upstream_hdr i) = 26 + length i"
  by (simp add: upstream_hdr_def)

text \<open>The buffer is always large enough, so no header is ever dropped.\<close>

lemma write_deps_fits:
  assumes "length out + sum_list (map (\<lambda>(i, body). length i + length body + 32) deps) < tot"
  shows "write_deps tot out deps = out @ concat (map (\<lambda>(i, body). upstream_hdr i @ body) deps)"
  using assms
proof (induction deps arbitrary: out)
  case Nil
  then show ?case by simp
next
  case (Cons p deps)
  obtain i body where p: "p = (i, body)" by fastforce
  have "write_deps tot (out @ upstream_hdr i @ body) deps =
      (out @ upstream_hdr i @ body) @ concat (map (\<lambda>(i, body). upstream_hdr i @ body) deps)"
    by (rule Cons.IH) (use Cons.prems p in \<open>simp add: length_upstream_hdr\<close>)
  moreover have "\<not> tot - length out \<le> length (upstream_hdr i)"
    using Cons.prems p by (simp add: length_upstream_hdr)
  ultimately show ?case using p by simp
qed

lemma take_shares_all:
  assumes "used + length deps * share \<le> budget" and "0 < share"
    and "\<forall>p\<in>set deps. snd p \<noteq> []"
  shows "take_shares budget share used deps = map (\<lambda>(i, out). (i, take share out)) deps"
  using assms
proof (induction deps arbitrary: used)
  case Nil
  then show ?case by simp
next
  case (Cons p deps)
  obtain i out where p: "p = (i, out)" by fastforce
  let ?tk = "min (length out) share"
  have tk: "min (min (length out) share) (budget - used) = ?tk" and pos: "0 < ?tk"
    using Cons.prems p by auto
  have "take_shares budget share (used + ?tk) deps = map (\<lambda>(i, out). (i, take share out)) deps"
    by (rule Cons.IH) (use Cons.prems in auto)
  moreover have "take ?tk out = take share out" by (simp add: min_def)
  ultimately show ?case using tk pos p by (simp add: Let_def)
qed

lemma map_filter_bound: "length (List.map_filter f xs) \<le> length xs"
  by (induction xs) (auto simp: List.map_filter_simps split: option.splits)

lemma eligible_deps_bound: "length (eligible_deps d node) \<le> SCHED_DAG_MAX_DEPS"
  unfolding eligible_deps_def by (rule le_trans [OF map_filter_bound]) simp

lemma eligible_deps_nonempty: "\<forall>p\<in>set (eligible_deps d node). snd p \<noteq> []"
  by (auto simp: eligible_deps_def List.map_filter_def split: option.splits if_splits)

lemma node_input_exact:
  fixes d :: sched_dag and node :: sched_dag_node
  assumes "SCHED_DAG_MAX_DEPS \<le> budget"
  defines "deps \<equiv> eligible_deps d node"
  shows "sched_dag_node_input d node budget =
    sched_dag_agent_input d node @
    concat (map (\<lambda>(i, out). upstream_hdr i @ take (budget div length deps) out) deps)"
proof (cases "deps = []")
  case True
  then show ?thesis by (simp add: sched_dag_node_input_def deps_def)
next
  case False
  let ?share = "budget div length deps"
  let ?picks = "take_shares budget ?share 0 deps"
  have "length deps \<le> budget" using assms(1) eligible_deps_bound [of d node]
    by (simp add: deps_def)
  with False have "0 < ?share" by (simp add: div_greater_zero_iff)
  moreover have "0 + length deps * ?share \<le> budget" by simp
  ultimately have picks: "?picks = map (\<lambda>(i, out). (i, take ?share out)) deps"
    using eligible_deps_nonempty [of d node] unfolding deps_def by (intro take_shares_all) auto
  have "write_deps (input_total (sched_dag_agent_input d node) ?picks)
        (sched_dag_agent_input d node) ?picks =
      sched_dag_agent_input d node @ concat (map (\<lambda>(i, body). upstream_hdr i @ body) ?picks)"
    by (rule write_deps_fits) (simp add: input_total_def)
  with False picks show ?thesis
    by (simp add: sched_dag_node_input_def Let_def deps_def comp_def case_prod_unfold)
qed

section \<open>Layout and readiness\<close>

text \<open>
  No operation touches ids, dependencies or retry limits. \<open>same_layout\<close> records that, so facts
  about the shape of a graph survive every step.
\<close>

definition node_layout :: "sched_dag_node \<Rightarrow> string \<times> string list \<times> 32 word" where
  "node_layout n = (n_id n, n_depends n, n_max_retries n)"

definition same_layout :: "sched_dag_node list \<Rightarrow> sched_dag_node list \<Rightarrow> bool" where
  "same_layout ns ns' \<longleftrightarrow> map node_layout ns' = map node_layout ns"

lemma same_layout_length: "same_layout ns ns' \<Longrightarrow> length ns' = length ns"
  unfolding same_layout_def by (drule arg_cong [of _ _ length]) simp

lemma same_layout_nth:
  "same_layout ns ns' \<Longrightarrow> i < length ns \<Longrightarrow> node_layout (ns' ! i) = node_layout (ns ! i)"
proof -
  assume lay: "same_layout ns ns'" and i: "i < length ns"
  then have "map node_layout ns' ! i = map node_layout ns ! i" by (simp add: same_layout_def)
  with i same_layout_length [OF lay] show ?thesis by simp
qed

lemma same_layoutI:
  assumes "length ns' = length ns"
    and "\<And>i. i < length ns \<Longrightarrow> node_layout (ns' ! i) = node_layout (ns ! i)"
  shows "same_layout ns ns'"
  unfolding same_layout_def using assms by (intro nth_equalityI) simp_all

lemma same_layout_refl [simp]: "same_layout ns ns"
  by (simp add: same_layout_def)

lemma same_layout_trans: "same_layout a b \<Longrightarrow> same_layout b c \<Longrightarrow> same_layout a c"
  by (simp add: same_layout_def)

lemma same_layout_ids: "same_layout ns ns' \<Longrightarrow> map n_id ns' = map n_id ns"
  unfolding same_layout_def
  by (drule arg_cong [of _ _ "map fst"]) (simp add: node_layout_def comp_def)

lemma same_layout_find: "same_layout ns ns' \<Longrightarrow> find_id ns' i = find_id ns i"
  by (rule ids.find_cong) (rule same_layout_ids)

lemma same_layout_dep_rel:
  assumes "same_layout ns ns'"
  shows "dep_rel ns' = dep_rel ns"
proof -
  have "n_depends (ns' ! i) = n_depends (ns ! i)" if "i < length ns" for i
    using same_layout_nth [OF assms that] by (simp add: node_layout_def)
  then show ?thesis
    by (auto simp: dep_rel_def same_layout_find [OF assms] same_layout_length [OF assms])
qed

lemma same_layout_graph_ok:
  assumes "same_layout ns ns'"
  shows "graph_ok ns' = graph_ok ns"
proof -
  have sets: "node_layout ` set ns' = node_layout ` set ns"
    using assms by (simp add: same_layout_def flip: set_map)
  have ids: "n_id ` set ns' = n_id ` set ns"
    using same_layout_ids [OF assms] by (metis set_map)
  have deps: "(\<forall>n\<in>set ns'. P (n_depends n)) = (\<forall>n\<in>set ns. P (n_depends n))" for P
  proof -
    have "(\<forall>n\<in>set ms. P (n_depends n)) = (\<forall>l\<in>node_layout ` set ms. P (fst (snd l)))" for ms
      by (simp add: node_layout_def)
    with sets show ?thesis by metis
  qed
  have "ns' = [] \<longleftrightarrow> ns = []" using same_layout_length [OF assms] by auto
  then show ?thesis
    unfolding graph_ok_def deps_known_def same_layout_ids [OF assms] same_layout_dep_rel [OF assms]
      ids same_layout_length [OF assms]
    using deps [of "\<lambda>ds. length ds \<le> SCHED_DAG_MAX_DEPS"] deps [of "\<lambda>ds. set ds \<subseteq> n_id ` set ns"]
    by simp
qed

text \<open>A dependency of a well-formed graph resolves, so the readiness test reads the relation.\<close>

lemma graph_ok_dep:
  assumes "graph_ok ns" and "j < length ns" and "i \<in> set (n_depends (ns ! j))"
  shows "\<exists>k. find_id ns i = Some k \<and> (k, j) \<in> dep_rel ns \<and> k < length ns"
proof -
  have "i \<in> set (map n_id ns)"
    using assms by (auto simp: graph_ok_def deps_known_def)
  with ids.find_None [of ns i] obtain k where k: "find_id ns i = Some k" by auto
  with assms find_id_SomeD [OF k] show ?thesis by (auto simp: dep_rel_def)
qed

lemma deps_state_1:
  "0 < deps_state ns is \<longleftrightarrow>
     (\<forall>i\<in>set is. \<exists>k. find_id ns i = Some k \<and> n_status (ns ! k) = NODE_COMPLETED)"
  by (induction "is") (auto simp: sched_dag_find_node_def split: option.splits)

lemma node_ready_iff:
  assumes "graph_ok ns" and "j < length ns"
  shows "0 < sched_dag_node_ready now ns j \<longleftrightarrow>
    n_status (ns ! j) = NODE_PENDING \<and> n_retry_at_ms (ns ! j) \<le> now \<and>
    (\<forall>k. (k, j) \<in> dep_rel ns \<longrightarrow> n_status (ns ! k) = NODE_COMPLETED)"
proof -
  have "(\<forall>i\<in>set (n_depends (ns ! j)). \<exists>k. find_id ns i = Some k \<and>
          n_status (ns ! k) = NODE_COMPLETED) \<longleftrightarrow>
        (\<forall>k. (k, j) \<in> dep_rel ns \<longrightarrow> n_status (ns ! k) = NODE_COMPLETED)"
    using graph_ok_dep [OF assms] assms(2) by (fastforce simp: dep_rel_def)
  moreover have "n_retry_at_ms (ns ! j) \<noteq> 0 \<and> now < n_retry_at_ms (ns ! j) \<longleftrightarrow>
      \<not> n_retry_at_ms (ns ! j) \<le> now"
    by (auto simp: not_le)
  ultimately show ?thesis
    by (simp add: sched_dag_node_ready_def Let_def deps_state_1)
qed

lemma dag_ready_idx_Some:
  assumes "dag_ready_idx now d = Some j"
  shows "d_status d = DAG_ACTIVE \<and> j < length (d_nodes d) \<and>
    0 < sched_dag_node_ready now (d_nodes d) j"
  using assms by (auto simp: dag_ready_idx_def find_index_Some_iff split: if_splits)

lemma dag_ready_idx_None:
  "dag_ready_idx now d = None \<longleftrightarrow> (d_status d = DAG_ACTIVE \<longrightarrow>
    (\<forall>j<length (d_nodes d). \<not> 0 < sched_dag_node_ready now (d_nodes d) j))"
  by (auto simp: dag_ready_idx_def find_index_None)

lemma find_ready_Some:
  assumes "sched_dag_find_ready now ds = Some (i, j)"
  shows "i < length ds \<and> dag_ready_idx now (ds ! i) = Some j"
  using assms
  by (auto simp: sched_dag_find_ready_def find_index_Some_iff split: option.splits)

lemma find_ready_None:
  "sched_dag_find_ready now ds = None \<longleftrightarrow> (\<forall>d\<in>set ds. dag_ready_idx now d = None)"
proof (cases "find_index (\<lambda>d. dag_ready_idx now d \<noteq> None) ds")
  case None
  then have "\<forall>d\<in>set ds. dag_ready_idx now d = None" by (simp add: find_index_None)
  with None show ?thesis by (simp add: sched_dag_find_ready_def del: not_None_eq)
next
  case (Some i)
  then have "i < length ds \<and> dag_ready_idx now (ds ! i) \<noteq> None"
    by (simp add: find_index_Some_iff)
  moreover from this have "ds ! i \<in> set ds" by simp
  ultimately have "\<exists>d\<in>set ds. dag_ready_idx now d \<noteq> None" by blast
  moreover from \<open>i < length ds \<and> dag_ready_idx now (ds ! i) \<noteq> None\<close> Some
  have "sched_dag_find_ready now ds \<noteq> None"
    by (simp add: sched_dag_find_ready_def del: not_None_eq)
  ultimately show ?thesis by metis
qed

section \<open>The node life cycle and the graph invariant\<close>

text \<open>
  Which state a node may move to: pending nodes start or are canceled, running nodes finish one
  way or the other or go back to pending for a retry, and a terminal state is never left.
\<close>

definition node_moves :: "sched_dag_node_status \<Rightarrow> sched_dag_node_status \<Rightarrow> bool" where
  "node_moves a b \<longleftrightarrow> a = b \<or>
     a = NODE_PENDING \<and> (b = NODE_RUNNING \<or> b = NODE_CANCELED) \<or>
     a = NODE_READY \<and> b = NODE_CANCELED \<or>
     a = NODE_RUNNING \<and> b \<noteq> NODE_READY"

definition dag_moves :: "sched_dag_node list \<Rightarrow> sched_dag_node list \<Rightarrow> bool" where
  "dag_moves ns ns' \<longleftrightarrow> same_layout ns ns' \<and>
     (\<forall>i<length ns. node_moves (n_status (ns ! i)) (n_status (ns' ! i)))"

text \<open>A node that has been dispatched and not been put back.\<close>

definition started :: "sched_dag_node_status \<Rightarrow> bool" where
  "started st \<longleftrightarrow> st = NODE_RUNNING \<or> st = NODE_COMPLETED \<or> st = NODE_SEMANTIC_FAILED \<or>
     st = NODE_FAILED"

definition ordered :: "sched_dag_node list \<Rightarrow> bool" where
  "ordered ns \<longleftrightarrow> (\<forall>k i. (k, i) \<in> dep_rel ns \<longrightarrow> started (n_status (ns ! i)) \<longrightarrow>
     n_status (ns ! k) = NODE_COMPLETED)"

definition node_ok :: "'j sched_env \<Rightarrow> sched_dag_node \<Rightarrow> bool" where
  "node_ok env n \<longleftrightarrow> n_status n \<noteq> NODE_READY \<and> n_retry_count n \<le> n_max_retries n \<and>
     (if n_status n = NODE_COMPLETED
      then sched_dag_has_output (n_output n) \<and> node_verify env n (the (n_output n))
      else n_output n = None)"

definition canc_ok :: "sched_dag_node list \<Rightarrow> bool" where
  "canc_ok ns \<longleftrightarrow> (\<forall>i<length ns. n_status (ns ! i) = NODE_CANCELED \<longrightarrow>
     (\<exists>k. (k, i) \<in> dep_rel ns \<and> sched_dag_dep_broken (n_status (ns ! k))))"

definition no_waiting :: "sched_dag_node list \<Rightarrow> bool" where
  "no_waiting ns \<longleftrightarrow> (\<forall>i<length ns. n_status (ns ! i) \<noteq> NODE_PENDING)"

definition status_ok :: "sched_dag \<Rightarrow> bool" where
  "status_ok d \<longleftrightarrow>
     (case d_status d of
        DAG_ACTIVE \<Rightarrow> canc_ok (d_nodes d)
      | DAG_COMPLETED \<Rightarrow> \<forall>i<length (d_nodes d). n_status (d_nodes d ! i) = NODE_COMPLETED
      | DAG_SEMANTIC_FAILED \<Rightarrow>
          (\<forall>i<length (d_nodes d). sched_dag_node_done (n_status (d_nodes d ! i)) \<and>
             n_status (d_nodes d ! i) \<noteq> NODE_FAILED) \<and>
          (\<exists>i<length (d_nodes d). n_status (d_nodes d ! i) = NODE_SEMANTIC_FAILED)
      | DAG_FAILED \<Rightarrow> no_waiting (d_nodes d) \<and>
          (\<exists>i<length (d_nodes d). n_status (d_nodes d ! i) = NODE_FAILED)
      | DAG_CANCELED \<Rightarrow> no_waiting (d_nodes d))"

definition dag_inv :: "'j sched_env \<Rightarrow> sched_dag \<Rightarrow> bool" where
  "dag_inv env d \<longleftrightarrow> graph_ok (d_nodes d) \<and> ordered (d_nodes d) \<and>
     (\<forall>i<length (d_nodes d). node_ok env (d_nodes d ! i)) \<and> status_ok d"

lemma node_moves_refl [simp]: "node_moves a a"
  by (simp add: node_moves_def)

lemma dag_moves_refl [simp]: "dag_moves ns ns"
  by (simp add: dag_moves_def)

lemma dag_movesD:
  assumes "dag_moves ns ns'"
  shows "same_layout ns ns'" and "length ns' = length ns" and "dep_rel ns' = dep_rel ns"
    and "graph_ok ns' = graph_ok ns"
    and "i < length ns \<Longrightarrow> node_moves (n_status (ns ! i)) (n_status (ns' ! i))"
  using assms same_layout_length same_layout_dep_rel same_layout_graph_ok
  by (auto simp: dag_moves_def)

lemma dep_rel_bounds: "(k, i) \<in> dep_rel ns \<Longrightarrow> k < length ns \<and> i < length ns"
  using dep_rel_sub [of ns] by auto

text \<open>The order of execution survives every move that starts only nodes whose dependencies are complete.\<close>

lemma ordered_step:
  assumes "ordered ns" and mv: "dag_moves ns ns'"
    and new: "\<And>i. i < length ns \<Longrightarrow> \<not> started (n_status (ns ! i)) \<Longrightarrow> started (n_status (ns' ! i)) \<Longrightarrow>
      \<forall>k. (k, i) \<in> dep_rel ns \<longrightarrow> n_status (ns ! k) = NODE_COMPLETED"
  shows "ordered ns'"
  unfolding ordered_def
proof (intro allI impI)
  fix k i assume "(k, i) \<in> dep_rel ns'" and st: "started (n_status (ns' ! i))"
  then have ki: "(k, i) \<in> dep_rel ns" by (simp add: dag_movesD(3) [OF mv])
  then have "n_status (ns ! k) = NODE_COMPLETED"
    using assms(1) new [of i] st dep_rel_bounds [OF ki] by (auto simp: ordered_def)
  with dag_movesD(5) [OF mv, of k] dep_rel_bounds [OF ki] show "n_status (ns' ! k) = NODE_COMPLETED"
    by (auto simp: node_moves_def)
qed

lemma canc_ok_step:
  assumes "canc_ok ns" and mv: "dag_moves ns ns'"
    and new: "\<And>i. i < length ns \<Longrightarrow> n_status (ns ! i) \<noteq> NODE_CANCELED \<Longrightarrow>
      n_status (ns' ! i) = NODE_CANCELED \<Longrightarrow>
      \<exists>k. (k, i) \<in> dep_rel ns \<and> sched_dag_dep_broken (n_status (ns ! k))"
  shows "canc_ok ns'"
  unfolding canc_ok_def
proof (intro allI impI)
  fix i assume "i < length ns'" and "n_status (ns' ! i) = NODE_CANCELED"
  then obtain k where ki: "(k, i) \<in> dep_rel ns" and br: "sched_dag_dep_broken (n_status (ns ! k))"
    using assms(1) new [of i] dag_movesD(2) [OF mv] by (auto simp: canc_ok_def)
  from br dag_movesD(5) [OF mv, of k] dep_rel_bounds [OF ki]
  have "sched_dag_dep_broken (n_status (ns' ! k))"
    by (auto simp: node_moves_def sched_dag_dep_broken_def)
  with ki show "\<exists>k. (k, i) \<in> dep_rel ns' \<and> sched_dag_dep_broken (n_status (ns' ! k))"
    by (auto simp: dag_movesD(3) [OF mv])
qed

lemma failed_persists:
  assumes "dag_moves ns ns'" and "\<exists>i<length ns. n_status (ns ! i) = NODE_FAILED"
  shows "\<exists>i<length ns'. n_status (ns' ! i) = NODE_FAILED"
  using assms dag_movesD(2,5) [OF assms(1)] by (fastforce simp: node_moves_def)

text \<open>In an acyclic graph a canceled node goes back to one that failed on its own.\<close>

lemma canceled_root:
  assumes "graph_ok ns" and co: "canc_ok ns" and "i < length ns"
    and "n_status (ns ! i) = NODE_CANCELED"
  shows "\<exists>k<length ns. n_status (ns ! k) = NODE_FAILED \<or> n_status (ns ! k) = NODE_SEMANTIC_FAILED"
proof -
  let ?C = "{i. i < length ns \<and> n_status (ns ! i) = NODE_CANCELED}"
  have "wf (dep_rel ns)" using assms(1) finite_dep_rel by (simp add: graph_ok_def finite_acyclic_wf)
  moreover have "i \<in> ?C" using assms by simp
  ultimately obtain m where m: "m \<in> ?C" and least: "\<And>k. (k, m) \<in> dep_rel ns \<Longrightarrow> k \<notin> ?C"
    by (rule wfE_min) blast
  from m co obtain k where k: "(k, m) \<in> dep_rel ns" "sched_dag_dep_broken (n_status (ns ! k))"
    by (auto simp: canc_ok_def)
  with least [OF k(1)] dep_rel_bounds [OF k(1)] show ?thesis
    by (auto simp: sched_dag_dep_broken_def)
qed

section \<open>What the operations do to a graph\<close>

lemma d_nodes_set_node [simp]: "d_nodes (set_node d j n) = (d_nodes d)[j := n]"
  by (simp add: set_node_def)

lemma d_status_set_node [simp]: "d_status (set_node d j n) = d_status d"
  by (simp add: set_node_def)

lemma dag_moves_update:
  assumes "j < length ns" and "node_layout n = node_layout (ns ! j)"
    and "node_moves (n_status (ns ! j)) (n_status n)"
  shows "dag_moves ns (ns[j := n])"
  unfolding dag_moves_def
  by (intro conjI same_layoutI) (use assms in \<open>auto simp: nth_list_update\<close>)

lemma node_layout_simps [simp]:
  "node_layout (node_final now st n) = node_layout n"
  "node_layout (node_err_set e n) = node_layout n"
  "node_layout (n\<lparr>n_output := x\<rparr>) = node_layout n"
  "node_layout (n\<lparr>n_status := y\<rparr>) = node_layout n"
  "node_layout (n\<lparr>n_finished_at_ms := z\<rparr>) = node_layout n"
  "node_layout (n\<lparr>n_started_at_ms := z\<rparr>) = node_layout n"
  "node_layout (n\<lparr>n_error := x\<rparr>) = node_layout n"
  by (simp_all add: node_layout_def node_final_def node_err_set_def)

text \<open>A running node of an active graph comes to rest: the common part of success, ordinary
  failure and retry.\<close>

lemma set_node_inv:
  assumes inv: "dag_inv env d" and j: "j < length (d_nodes d)"
    and run: "n_status (d_nodes d ! j) = NODE_RUNNING" and act: "d_status d = DAG_ACTIVE"
    and lay: "node_layout n = node_layout (d_nodes d ! j)" and ok: "node_ok env n"
    and st: "n_status n \<noteq> NODE_CANCELED" and "n_status n \<noteq> NODE_RUNNING"
  shows "dag_inv env (set_node d j n) \<and> dag_moves (d_nodes d) ((d_nodes d)[j := n])"
proof -
  have "n_status n \<noteq> NODE_READY" using ok by (simp add: node_ok_def)
  then have mv: "dag_moves (d_nodes d) ((d_nodes d)[j := n])"
    using j lay run by (intro dag_moves_update) (auto simp: node_moves_def)
  have "ordered ((d_nodes d)[j := n])"
  proof (rule ordered_step [OF _ mv])
    show "ordered (d_nodes d)" using inv by (simp add: dag_inv_def)
  qed (use run j in \<open>auto simp: nth_list_update started_def split: if_splits\<close>)
  moreover have "canc_ok ((d_nodes d)[j := n])"
  proof (rule canc_ok_step [OF _ mv])
    show "canc_ok (d_nodes d)" using inv act by (simp add: dag_inv_def status_ok_def)
  qed (use st j in \<open>auto simp: nth_list_update split: if_splits\<close>)
  ultimately show ?thesis
    using inv act mv dag_movesD(4) [OF mv] ok j
    by (auto simp: dag_inv_def status_ok_def nth_list_update)
qed

lemma node_verify_final [simp]:
  "node_verify env (node_final now st (node_err_set e (n\<lparr>n_output := x\<rparr>))) out = node_verify env n out"
  by (simp add: node_verify_def node_final_def node_err_set_def)

lemma node_final_simps [simp]:
  "n_output (node_final now st n) = n_output n"
  "n_retry_count (node_final now st n) = n_retry_count n"
  "n_max_retries (node_final now st n) = n_max_retries n"
  "n_output (node_err_set e n) = n_output n"
  "n_retry_count (node_err_set e n) = n_retry_count n"
  "n_max_retries (node_err_set e n) = n_max_retries n"
  "n_status (node_err_set e n) = n_status n"
  by (simp_all add: node_final_def node_err_set_def)

lemma node_succeed_ok:
  assumes "node_succeed env now node out = (n, b)" and "n_output node = None"
    and "n_retry_count node \<le> n_max_retries node"
  shows "node_ok env n \<and> node_layout n = node_layout node \<and>
    n_status n \<in> {NODE_SEMANTIC_FAILED, NODE_FAILED, NODE_COMPLETED} \<and>
    (b \<longleftrightarrow> n_status n = NODE_COMPLETED)"
  using assms
  by (auto simp: node_succeed_def node_ok_def split: if_splits)

lemma less_inc_le: "(a :: 'a::len word) < b \<Longrightarrow> a + 1 \<le> b"
  by (simp add: inc_le)

lemma node_backoff_ok:
  assumes "node_backoff now d node dret = Some n" and "n_output node = None"
  shows "node_ok env n \<and> node_layout n = node_layout node \<and> n_status n = NODE_PENDING \<and>
    n_retry_count n = n_retry_count node + 1 \<and> n_retry_count node < n_max_retries node"
  using assms
  by (auto simp: node_backoff_def node_ok_def node_layout_def Let_def not_le less_inc_le
      split: if_splits)

text \<open>A canceled or failed graph keeps nothing of a late result.\<close>

lemma dead_update_inv:
  assumes inv: "dag_inv env d" and j: "j < length (d_nodes d)"
    and run: "n_status (d_nodes d ! j) = NODE_RUNNING"
    and dead: "d_status d = DAG_CANCELED \<or> d_status d = DAG_FAILED"
    and lay: "node_layout n = node_layout (d_nodes d ! j)" and ok: "node_ok env n"
    and st: "n_status n = NODE_CANCELED \<or> n_status n = NODE_FAILED"
  shows "dag_inv env (set_node d j n) \<and> dag_moves (d_nodes d) ((d_nodes d)[j := n])"
proof -
  have mv: "dag_moves (d_nodes d) ((d_nodes d)[j := n])"
    using j lay st run by (intro dag_moves_update) (auto simp: node_moves_def)
  have "ordered ((d_nodes d)[j := n])"
  proof (rule ordered_step [OF _ mv])
    show "ordered (d_nodes d)" using inv by (simp add: dag_inv_def)
  qed (use run j in \<open>auto simp: nth_list_update started_def split: if_splits\<close>)
  moreover have "status_ok (set_node d j n)"
    using inv dead st j failed_persists [OF mv]
    by (auto simp: dag_inv_def status_ok_def no_waiting_def nth_list_update)
  ultimately show ?thesis
    using inv j ok mv dag_movesD(4) [OF mv] by (auto simp: dag_inv_def nth_list_update)
qed

lemma nth_cascade [simp]:
  "i < length ns \<Longrightarrow> dag_cascade_cancel now ns ! i =
     (if n_status (ns ! i) = NODE_PENDING \<or> n_status (ns ! i) = NODE_READY
      then node_final now NODE_CANCELED (ns ! i) else ns ! i)"
  by (simp add: dag_cascade_cancel_def)

lemma length_cascade [simp]: "length (dag_cascade_cancel now ns) = length ns"
  by (simp add: dag_cascade_cancel_def)

lemma dag_abort_inv:
  assumes inv: "dag_inv env d" and j: "j < length (d_nodes d)"
    and run: "n_status (d_nodes d ! j) = NODE_RUNNING"
    and lay: "node_layout n = node_layout (d_nodes d ! j)" and "n_output n = None"
    and "n_retry_count n \<le> n_max_retries n"
  shows "dag_inv env (dag_abort now d j n msg) \<and>
    dag_moves (d_nodes d) (d_nodes (dag_abort now d j n msg))"
proof -
  let ?n = "(node_err_set (Some msg) n)\<lparr>n_status := NODE_FAILED\<rparr>"
  let ?ns = "d_nodes (dag_abort now d j n msg)"
  have st: "d_status (dag_abort now d j n msg) = DAG_FAILED"
    by (simp add: dag_abort_def Let_def)
  have nth: "?ns ! i = (if i = j then ?n
      else if n_status (d_nodes d ! i) = NODE_PENDING \<or> n_status (d_nodes d ! i) = NODE_READY
      then node_final now NODE_CANCELED (d_nodes d ! i) else d_nodes d ! i)"
    if "i < length (d_nodes d)" for i
    using that j by (simp add: dag_abort_def Let_def nth_list_update)
  have len: "length ?ns = length (d_nodes d)" by (simp add: dag_abort_def Let_def)
  have mv: "dag_moves (d_nodes d) ?ns"
    unfolding dag_moves_def
    by (intro conjI same_layoutI allI impI) (use len nth lay run in \<open>auto simp: node_moves_def\<close>)
  have "ordered ?ns"
  proof (rule ordered_step [OF _ mv])
    show "ordered (d_nodes d)" using inv by (simp add: dag_inv_def)
  qed (use nth run in \<open>auto simp: started_def split: if_splits\<close>)
  moreover have "node_ok env (?ns ! i)" if "i < length (d_nodes d)" for i
    using inv nth [OF that] that assms(5,6) by (auto simp: dag_inv_def node_ok_def)
  moreover have "status_ok (dag_abort now d j n msg)"
    using st len nth [of j] j nth by (auto simp: status_ok_def no_waiting_def)
  ultimately show ?thesis
    using inv mv dag_movesD(4) [OF mv] len by (auto simp: dag_inv_def)
qed

text \<open>A running node belongs to an active, canceled or failed graph.\<close>

lemma running_status:
  assumes "dag_inv env d" and "j < length (d_nodes d)"
    and "n_status (d_nodes d ! j) = NODE_RUNNING"
  shows "d_status d = DAG_ACTIVE \<or> d_status d = DAG_CANCELED \<or> d_status d = DAG_FAILED"
  using assms
  by (cases "d_status d") (auto simp: dag_inv_def status_ok_def sched_dag_node_done_def)

lemma write_back_inv:
  assumes inv: "dag_inv env d" and j: "j < length (d_nodes d)"
    and run: "n_status (d_nodes d ! j) = NODE_RUNNING"
    and d'_def: "d' = fst (sched_dag_write_back_node env fc now d j dret out)"
  shows "dag_inv env d' \<and> dag_moves (d_nodes d) (d_nodes d')"
proof -
  let ?node = "d_nodes d ! j"
  have nok: "n_output ?node = None" "n_retry_count ?node \<le> n_max_retries ?node"
    using inv j run by (auto simp: dag_inv_def node_ok_def)
  consider (dead) "d_status d = DAG_CANCELED \<or> d_status d = DAG_FAILED"
    | (succ) "d_status d = DAG_ACTIVE" "dret = AIRY_SUCCESS"
    | (fail) "d_status d = DAG_ACTIVE" "dret \<noteq> AIRY_SUCCESS"
    using running_status [OF inv j run] by blast
  then show ?thesis
  proof cases
    case dead
    let ?n = "node_discard now ?node"
    have "node_ok env ?n" using nok by (simp add: node_discard_def node_ok_def)
    with dead_update_inv [OF inv j run dead, of ?n] dead show ?thesis
      by (auto simp: d'_def sched_dag_write_back_node_def Let_def node_discard_def)
  next
    case succ
    obtain n b where nb: "node_succeed env now ?node out = (n, b)" by fastforce
    from node_succeed_ok [OF nb nok] succ set_node_inv [OF inv j run succ(1), of n] nb run
    show ?thesis by (auto simp: d'_def sched_dag_write_back_node_def Let_def)
  next
    case fail
    let ?n = "node_err_set None (?node\<lparr>n_finished_at_ms := now\<rparr>)"
    have n: "n_output ?n = None" "n_retry_count ?n \<le> n_max_retries ?n" using nok by simp_all
    have abort: "dag_inv env (dag_abort now d j ?n msg) \<and>
        dag_moves (d_nodes d) (d_nodes (dag_abort now d j ?n msg))" for msg
      by (rule dag_abort_inv [OF inv j run]) (simp_all add: nok)
    have failed: "dag_inv env (set_node d j m) \<and> dag_moves (d_nodes d) ((d_nodes d)[j := m])"
      if "m = (node_err_set (Some msg) ?n)\<lparr>n_status := NODE_FAILED\<rparr>" for m msg
      by (rule set_node_inv [OF inv j run fail(1)]) (use that nok in \<open>simp_all add: node_ok_def\<close>)
    have retry: "dag_inv env (set_node d j m) \<and> dag_moves (d_nodes d) ((d_nodes d)[j := m])"
      if "node_backoff now d ?n dret = Some m" for m
      using node_backoff_ok [OF that n(1), of env]
      by (intro set_node_inv [OF inv j run fail(1)]) simp_all
    show ?thesis
      using fail run abort failed [OF refl] retry
      by (auto simp: d'_def sched_dag_write_back_node_def Let_def split: option.splits)
  qed
qed

section \<open>Failure propagation\<close>

text \<open>
  The reference: a pending node is doomed when a dependency is broken, or is itself a doomed
  pending node.
\<close>

inductive doomed :: "sched_dag_node list \<Rightarrow> nat \<Rightarrow> bool" for ns where
  doomed_dep: "n_status (ns ! i) = NODE_PENDING \<Longrightarrow> (k, i) \<in> dep_rel ns \<Longrightarrow>
    sched_dag_dep_broken (n_status (ns ! k)) \<Longrightarrow> doomed ns i"
| doomed_chain: "n_status (ns ! i) = NODE_PENDING \<Longrightarrow> (k, i) \<in> dep_rel ns \<Longrightarrow>
    doomed ns k \<Longrightarrow> doomed ns i"

inductive_cases doomedE: "doomed ns i"

lemma unreachable_iff:
  "j < length ns \<Longrightarrow> unreachable_node ns j \<longleftrightarrow> n_status (ns ! j) = NODE_PENDING \<and>
     (\<exists>k. (k, j) \<in> dep_rel ns \<and> sched_dag_dep_broken (n_status (ns ! k)))"
  by (fastforce simp: unreachable_node_def sched_dag_find_node_def dep_rel_def list_ex_iff
      split: option.splits)

text \<open>
  The relation between the nodes before and during propagation: every node is either untouched
  or was doomed and is now canceled.
\<close>

definition prop_rel :: "64 word \<Rightarrow> sched_dag_node list \<Rightarrow> sched_dag_node list \<Rightarrow> bool" where
  "prop_rel now ns ns' \<longleftrightarrow> length ns' = length ns \<and>
     (\<forall>i<length ns. ns' ! i = ns ! i \<or>
        doomed ns i \<and> ns' ! i = node_final now NODE_CANCELED (ns ! i))"

lemma doomed_pending: "doomed ns i \<Longrightarrow> n_status (ns ! i) = NODE_PENDING"
  by (erule doomed.cases) auto

lemma prop_rel_refl [simp]: "prop_rel now ns ns"
  by (simp add: prop_rel_def)

lemma prop_rel_moves: "prop_rel now ns ns' \<Longrightarrow> dag_moves ns ns'"
  unfolding dag_moves_def prop_rel_def
  by (intro conjI same_layoutI allI impI) (fastforce dest: doomed_pending simp: node_moves_def)+

lemma prop_rel_step:
  assumes rel: "prop_rel now ns ms" and j: "j < length ms" and un: "unreachable_node ms j"
  shows "prop_rel now ns (ms[j := node_final now NODE_CANCELED (ms ! j)])"
proof -
  note mv = prop_rel_moves [OF rel]
  have jn: "j < length ns" using j dag_movesD(2) [OF mv] by simp
  from un j obtain k where pend: "n_status (ms ! j) = NODE_PENDING"
    and kj: "(k, j) \<in> dep_rel ns" and br: "sched_dag_dep_broken (n_status (ms ! k))"
    by (auto simp: unreachable_iff dag_movesD(3) [OF mv])
  have old: "ms ! j = ns ! j"
    using rel jn pend by (auto simp: prop_rel_def)
  have "doomed ns j"
  proof (cases "ms ! k = ns ! k")
    case True
    with br kj pend old show ?thesis by (auto intro: doomed_dep)
  next
    case False
    with rel dep_rel_bounds [OF kj] have "doomed ns k" by (auto simp: prop_rel_def)
    with kj pend old show ?thesis by (auto intro: doomed_chain)
  qed
  with rel old jn show ?thesis by (auto simp: prop_rel_def nth_list_update)
qed

lemma prop_fold_rel:
  assumes "foldl (prop_node now) (ms, ch) js = (ms', ch')" and "\<forall>j\<in>set js. j < length ms"
    and "prop_rel now ns ms"
  shows "prop_rel now ns ms'"
  using assms
proof (induction js arbitrary: ms ch)
  case Nil
  then show ?case by simp
next
  case (Cons j js)
  show ?case
  proof (cases "unreachable_node ms j")
    case True
    show ?thesis
      by (rule Cons.IH [of "ms[j := node_final now NODE_CANCELED (ms ! j)]" True])
        (use Cons.prems True prop_rel_step in \<open>auto simp: prop_node_eq\<close>)
  next
    case False
    with Cons show ?thesis by (simp add: prop_node_eq)
  qed
qed

definition dag_prop_rel :: "64 word \<Rightarrow> sched_dag \<Rightarrow> sched_dag \<Rightarrow> bool" where
  "dag_prop_rel now d d' \<longleftrightarrow> (\<exists>ns. d' = d\<lparr>d_nodes := ns\<rparr> \<and> prop_rel now (d_nodes d) ns) \<and>
     (d_status d \<noteq> DAG_ACTIVE \<longrightarrow> d' = d)"

lemma prop_dag_rel:
  assumes "dag_prop_rel now d0 d"
  shows "dag_prop_rel now d0 (fst (prop_dag now d))"
proof (cases "d_status d = DAG_ACTIVE")
  case True
  from assms obtain ms where d: "d = d0\<lparr>d_nodes := ms\<rparr>" and rel: "prop_rel now (d_nodes d0) ms"
    by (auto simp: dag_prop_rel_def)
  obtain ns ch where run: "foldl (prop_node now) (ms, False) [0..<length ms] = (ns, ch)"
    by fastforce
  from prop_fold_rel [OF run _ rel] have "prop_rel now (d_nodes d0) ns" by simp
  with True d run show ?thesis by (auto simp: prop_dag_def dag_prop_rel_def)
next
  case False
  with assms show ?thesis by (simp add: prop_dag_def)
qed

text \<open>The loop as a whole: related to its start, and at rest.\<close>

definition settled :: "sched_dag \<Rightarrow> bool" where
  "settled d \<longleftrightarrow> d_status d = DAG_ACTIVE \<longrightarrow>
     (\<forall>j<length (d_nodes d). \<not> unreachable_node (d_nodes d) j)"

lemma propagate_rel:
  assumes "list_all2 (dag_prop_rel now) ds0 ds"
  shows "list_all2 (dag_prop_rel now) ds0 (sched_dag_propagate_unreachable now ds) \<and>
    list_all settled (sched_dag_propagate_unreachable now ds)"
  using assms
proof (induction now ds rule: sched_dag_propagate_unreachable.induct)
  case (1 now ds)
  obtain ds' ch where sw: "prop_sweep now ds = (ds', ch)" by fastforce
  have ds': "ds' = map (\<lambda>d. fst (prop_dag now d)) ds" and ch: "ch = list_ex (\<lambda>d. snd (prop_dag now d)) ds"
    using sw by (simp_all add: prop_sweep_def)
  have rel: "list_all2 (dag_prop_rel now) ds0 ds'"
    using "1.prems" prop_dag_rel by (auto simp: ds' list_all2_conv_all_nth)
  show ?case
  proof (cases ch)
    case True
    with "1.IH" [OF sw [symmetric] True rel] sw show ?thesis
      by (simp add: sched_dag_propagate_unreachable.simps [of now ds])
  next
    case False
    have "settled d \<and> fst (prop_dag now d) = d" if "d \<in> set ds" for d
      using prop_dag_measure [of now d] False ch that by (auto simp: settled_def list_ex_iff)
    then have "ds' = ds" and "list_all settled ds" by (auto simp: ds' list_all_iff intro: map_idI)
    with False sw rel show ?thesis
      by (simp add: sched_dag_propagate_unreachable.simps [of now ds])
  qed
qed

text \<open>At rest, everything doomed is canceled.\<close>

lemma doomed_canceled:
  assumes rel: "prop_rel now ns ns'" and rest: "\<forall>j<length ns'. \<not> unreachable_node ns' j"
    and "doomed ns i" and "i < length ns"
  shows "ns' ! i = node_final now NODE_CANCELED (ns ! i)"
  using assms(3,4)
proof (induction i rule: doomed.induct)
  case (doomed_dep i k)
  note mv = prop_rel_moves [OF rel]
  from doomed_dep have "sched_dag_dep_broken (n_status (ns' ! k))"
    using dag_movesD(5) [OF mv, of k] dep_rel_bounds [of k i ns]
    by (auto simp: node_moves_def sched_dag_dep_broken_def)
  with rest doomed_dep dag_movesD(2,3) [OF mv] have "n_status (ns' ! i) \<noteq> NODE_PENDING"
    by (auto simp: unreachable_iff)
  with rel doomed_dep show ?case by (auto simp: prop_rel_def)
next
  case (doomed_chain i k)
  note mv = prop_rel_moves [OF rel]
  from doomed_chain have "sched_dag_dep_broken (n_status (ns' ! k))"
    using dep_rel_bounds [of k i ns] by (simp add: sched_dag_dep_broken_def)
  with rest doomed_chain dag_movesD(2,3) [OF mv] have "n_status (ns' ! i) \<noteq> NODE_PENDING"
    by (auto simp: unreachable_iff)
  with rel doomed_chain show ?case by (auto simp: prop_rel_def)
qed

lemma dag_prop_rel_refl [simp]: "dag_prop_rel now d d"
  by (cases d) (auto simp: dag_prop_rel_def intro!: exI [of _ "d_nodes d"])

lemma propagate_nth:
  assumes "i < length ds"
  shows "dag_prop_rel now (ds ! i) (sched_dag_propagate_unreachable now ds ! i) \<and>
    settled (sched_dag_propagate_unreachable now ds ! i)"
proof -
  have "list_all2 (dag_prop_rel now) ds ds" by (simp add: list_all2_conv_all_nth)
  from propagate_rel [OF this] assms show ?thesis
    by (auto simp: list_all2_conv_all_nth list_all_length)
qed

lemma length_propagate [simp]: "length (sched_dag_propagate_unreachable now ds) = length ds"
proof -
  have "list_all2 (dag_prop_rel now) ds ds" by (simp add: list_all2_conv_all_nth)
  from propagate_rel [OF this] show ?thesis by (auto dest: list_all2_lengthD)
qed

lemma dag_prop_rel_inv:
  assumes inv: "dag_inv env d" and rel: "dag_prop_rel now d d'" and "settled d'"
  shows "dag_inv env d' \<and> dag_moves (d_nodes d) (d_nodes d')"
proof (cases "d_status d = DAG_ACTIVE")
  case True
  from rel obtain ns where d': "d' = d\<lparr>d_nodes := ns\<rparr>" and pr: "prop_rel now (d_nodes d) ns"
    by (auto simp: dag_prop_rel_def)
  note mv = prop_rel_moves [OF pr]
  have nth: "ns ! i = d_nodes d ! i \<or>
      n_status (d_nodes d ! i) = NODE_PENDING \<and> ns ! i = node_final now NODE_CANCELED (d_nodes d ! i)"
    if "i < length (d_nodes d)" for i using pr that by (auto simp: prop_rel_def doomed_pending)
  have ord: "ordered ns"
  proof (rule ordered_step [OF _ mv])
    show "ordered (d_nodes d)" using inv by (simp add: dag_inv_def)
  next
    fix i assume "i < length (d_nodes d)" "\<not> started (n_status (d_nodes d ! i))"
      "started (n_status (ns ! i))"
    with nth [of i] show "\<forall>k. (k, i) \<in> dep_rel (d_nodes d) \<longrightarrow> n_status (d_nodes d ! k) = NODE_COMPLETED"
      by (auto simp: started_def)
  qed
  have "canc_ok ns" unfolding canc_ok_def
  proof (intro allI impI)
    fix i assume i: "i < length ns" and c: "n_status (ns ! i) = NODE_CANCELED"
    show "\<exists>k. (k, i) \<in> dep_rel ns \<and> sched_dag_dep_broken (n_status (ns ! k))"
    proof (cases "ns ! i = d_nodes d ! i")
      case True
      with inv i c \<open>d_status d = DAG_ACTIVE\<close> dag_movesD(2) [OF mv] obtain k
        where k: "(k, i) \<in> dep_rel (d_nodes d)" "sched_dag_dep_broken (n_status (d_nodes d ! k))"
        by (auto simp: dag_inv_def status_ok_def canc_ok_def)
      with dag_movesD(5) [OF mv, of k] dep_rel_bounds [OF k(1)] show ?thesis
        by (auto simp: dag_movesD(3) [OF mv] node_moves_def sched_dag_dep_broken_def)
    next
      case False
      with pr i dag_movesD(2) [OF mv] have "doomed (d_nodes d) i" by (auto simp: prop_rel_def)
      then show ?thesis
      proof (cases rule: doomed.cases)
        case (doomed_dep k)
        with dag_movesD(5) [OF mv, of k] dep_rel_bounds [OF doomed_dep(2)] show ?thesis
          by (auto simp: dag_movesD(3) [OF mv] node_moves_def sched_dag_dep_broken_def)
      next
        case (doomed_chain k)
        have "ns ! k = node_final now NODE_CANCELED (d_nodes d ! k)"
          using assms(3) True doomed_chain d' dep_rel_bounds [OF doomed_chain(2)]
            doomed_canceled [OF pr] by (auto simp: settled_def)
        with doomed_chain show ?thesis
          by (auto simp: dag_movesD(3) [OF mv] sched_dag_dep_broken_def)
      qed
    qed
  qed
  moreover have "node_ok env (ns ! i)" if "i < length (d_nodes d)" for i
    using inv nth [OF that] that by (auto simp: dag_inv_def node_ok_def)
  ultimately show ?thesis
    using inv True d' ord mv dag_movesD(2,4) [OF mv] by (auto simp: dag_inv_def status_ok_def)
next
  case False
  with inv rel show ?thesis by (simp add: dag_prop_rel_def)
qed

section \<open>Dispatch and finalization of a graph\<close>

text \<open>Setting a ready node running, as both dispatch paths do.\<close>

definition start_node :: "64 word \<Rightarrow> sched_dag_node \<Rightarrow> sched_dag_node" where
  "start_node now n = n\<lparr>n_status := NODE_RUNNING, n_started_at_ms := now\<rparr>"

lemma start_node_inv:
  assumes inv: "dag_inv env d" and act: "d_status d = DAG_ACTIVE" and j: "j < length (d_nodes d)"
    and r: "0 < sched_dag_node_ready now (d_nodes d) j"
  shows "dag_inv env (set_node d j (start_node now (d_nodes d ! j))) \<and>
    dag_moves (d_nodes d) ((d_nodes d)[j := start_node now (d_nodes d ! j)])"
proof -
  have gok: "graph_ok (d_nodes d)" using inv by (simp add: dag_inv_def)
  note rd = r [unfolded node_ready_iff [OF gok j]]
  let ?n = "start_node now (d_nodes d ! j)"
  have n: "node_layout ?n = node_layout (d_nodes d ! j)" "n_status ?n = NODE_RUNNING"
    by (simp_all add: start_node_def)
  have mv: "dag_moves (d_nodes d) ((d_nodes d)[j := ?n])"
    using j rd n by (intro dag_moves_update) (auto simp: node_moves_def)
  have "ordered ((d_nodes d)[j := ?n])"
  proof (rule ordered_step [OF _ mv])
    show "ordered (d_nodes d)" using inv by (simp add: dag_inv_def)
  qed (use rd j in \<open>auto simp: nth_list_update started_def split: if_splits\<close>)
  moreover have "canc_ok ((d_nodes d)[j := ?n])"
  proof (rule canc_ok_step [OF _ mv])
    show "canc_ok (d_nodes d)" using inv act by (simp add: dag_inv_def status_ok_def)
  qed (use j n in \<open>auto simp: nth_list_update split: if_splits\<close>)
  moreover have "node_ok env ?n"
    using inv j rd by (auto simp: dag_inv_def node_ok_def start_node_def)
  ultimately show ?thesis
    using inv act j mv dag_movesD(4) [OF mv] by (auto simp: dag_inv_def status_ok_def nth_list_update)
qed

lemma finalize_inv:
  assumes inv: "dag_inv env d"
  shows "dag_inv env (finalize_dag now d) \<and> d_nodes (finalize_dag now d) = d_nodes d"
proof (cases "d_status d = DAG_ACTIVE \<and> sched_dag_all_terminal d")
  case True
  then have dn: "\<forall>i<length (d_nodes d). sched_dag_node_done (n_status (d_nodes d ! i))"
    by (simp add: sched_dag_all_terminal_def list_all_length)
  have blame: "\<exists>k<length (d_nodes d). n_status (d_nodes d ! k) = NODE_FAILED \<or>
      n_status (d_nodes d ! k) = NODE_SEMANTIC_FAILED"
    if "i < length (d_nodes d)" "n_status (d_nodes d ! i) \<noteq> NODE_COMPLETED" for i
    using that dn inv True canceled_root [of "d_nodes d" i]
    by (auto simp: dag_inv_def status_ok_def sched_dag_node_done_def)
  have all: "n_status (d_nodes d ! i) = NODE_COMPLETED"
    if "\<not> list_ex (\<lambda>n. n_status n = NODE_FAILED) (d_nodes d)"
      "\<not> list_ex (\<lambda>n. n_status n = NODE_SEMANTIC_FAILED) (d_nodes d)" "i < length (d_nodes d)" for i
  proof (rule ccontr)
    assume "n_status (d_nodes d ! i) \<noteq> NODE_COMPLETED"
    from blame [OF that(3) this] that(1,2) show False by (auto simp: list_ex_length)
  qed
  have "status_ok (finalize_dag now d)"
  proof -
    let ?f = "list_ex (\<lambda>n. n_status n = NODE_FAILED) (d_nodes d)"
    let ?s = "list_ex (\<lambda>n. n_status n = NODE_SEMANTIC_FAILED) (d_nodes d)"
    have wait: "no_waiting (d_nodes d)"
      using dn unfolding no_waiting_def sched_dag_node_done_def by fastforce
    consider "?f" | "\<not> ?f" "?s" | "\<not> ?f" "\<not> ?s" by blast
    then show ?thesis
    proof cases
      case 1
      with True wait show ?thesis by (simp add: finalize_dag_def status_ok_def list_ex_length)
    next
      case 2
      with True dn wait show ?thesis by (simp add: finalize_dag_def status_ok_def list_ex_length)
    next
      case 3
      with True all show ?thesis by (simp add: finalize_dag_def status_ok_def)
    qed
  qed
  with inv show ?thesis by (auto simp: dag_inv_def finalize_dag_def)
next
  case False
  with inv show ?thesis by (auto simp: finalize_dag_def)
qed

section \<open>Progress\<close>

text \<open>
  An active graph at rest with no running node is either finished or has a pending node whose
  dependencies are all complete: the minimal pending node of the acyclic relation.
\<close>

lemma dag_progress:
  assumes inv: "dag_inv env d" and "d_status d = DAG_ACTIVE" and "settled d"
    and idle: "\<forall>i<length (d_nodes d). n_status (d_nodes d ! i) \<noteq> NODE_RUNNING"
    and unfin: "\<not> sched_dag_all_terminal d"
  shows "\<exists>j<length (d_nodes d). n_status (d_nodes d ! j) = NODE_PENDING \<and>
    (\<forall>k. (k, j) \<in> dep_rel (d_nodes d) \<longrightarrow> n_status (d_nodes d ! k) = NODE_COMPLETED)"
proof -
  let ?ns = "d_nodes d"
  let ?P = "{j. j < length ?ns \<and> n_status (?ns ! j) = NODE_PENDING}"
  have st: "n_status (?ns ! i) = NODE_PENDING \<or> sched_dag_node_done (n_status (?ns ! i))"
    if "i < length ?ns" for i
    using inv idle that
    by (cases "n_status (?ns ! i)") (auto simp: dag_inv_def node_ok_def sched_dag_node_done_def)
  obtain i where "i \<in> ?P" using unfin st by (auto simp: sched_dag_all_terminal_def list_all_length)
  moreover have "wf (dep_rel ?ns)"
    using inv finite_dep_rel by (simp add: dag_inv_def graph_ok_def finite_acyclic_wf)
  ultimately obtain m where m: "m \<in> ?P" and least: "\<And>k. (k, m) \<in> dep_rel ?ns \<Longrightarrow> k \<notin> ?P"
    by - (erule wfE_min, assumption, blast)
  have "n_status (?ns ! k) = NODE_COMPLETED" if k: "(k, m) \<in> dep_rel ?ns" for k
  proof -
    have "\<not> sched_dag_dep_broken (n_status (?ns ! k))"
      using assms(2,3) m k by (auto simp: settled_def unreachable_iff)
    with st [of k] least [OF k] dep_rel_bounds [OF k] show ?thesis
      by (auto simp: sched_dag_node_done_def sched_dag_dep_broken_def)
  qed
  with m show ?thesis by auto
qed

text \<open>The waiting time: the least retry time that lies in the future, or 0 if there is none.\<close>

definition waiting_times :: "64 word \<Rightarrow> sched_dag list \<Rightarrow> 64 word list" where
  "waiting_times now ds = concat (map (\<lambda>d. if d_status d \<noteq> DAG_ACTIVE then []
     else map n_retry_at_ms
            (filter (\<lambda>n. n_status n = NODE_PENDING \<and> now < n_retry_at_ms n) (d_nodes d))) ds)"

lemma min_retry_nodes:
  "foldl (min_retry_node now) m ns =
     foldl (\<lambda>m x. if m = 0 \<or> x < m then x else m) m
       (map n_retry_at_ms (filter (\<lambda>n. n_status n = NODE_PENDING \<and> now < n_retry_at_ms n) ns))"
  by (induction ns arbitrary: m) (simp_all add: min_retry_node_def)

lemma min_retry_waiting:
  "sched_dag_min_retry_at now ds =
     foldl (\<lambda>m x. if m = 0 \<or> x < m then x else m) 0 (waiting_times now ds)"
proof -
  have "foldl (\<lambda>m d. if d_status d \<noteq> DAG_ACTIVE then m else foldl (min_retry_node now) m (d_nodes d))
      m ds = foldl (\<lambda>m x. if m = 0 \<or> x < m then x else m) m (waiting_times now ds)" for m
    by (induction ds arbitrary: m) (simp_all add: waiting_times_def min_retry_nodes)
  then show ?thesis by (simp add: sched_dag_min_retry_at_def)
qed

lemma fold_min_word:
  fixes xs :: "64 word list"
  assumes "\<forall>x\<in>set xs. x \<noteq> 0"
  shows "foldl (\<lambda>m x. if m = 0 \<or> x < m then x else m) m xs =
    (if xs = [] then m else if m = 0 then Min (set xs) else Min (insert m (set xs)))"
  using assms
proof (induction xs arbitrary: m)
  case Nil
  then show ?case by simp
next
  case (Cons x xs)
  have "x \<noteq> 0" using Cons.prems by simp
  moreover have "Min (insert a (set xs)) = (if xs = [] then a else min a (Min (set xs)))" for a
    by (simp add: Min_insert)
  ultimately show ?case
    using Cons.prems Cons.IH [of x] Cons.IH [of m]
    by (auto simp: min_def Min_insert2 insert_commute)
qed

lemma min_retry_spec:
  "sched_dag_min_retry_at now ds =
     (if waiting_times now ds = [] then 0 else Min (set (waiting_times now ds)))"
proof -
  have "\<forall>x\<in>set (waiting_times now ds). x \<noteq> 0"
    by (auto simp: waiting_times_def)
  then show ?thesis by (simp add: min_retry_waiting fold_min_word)
qed

lemma waiting_times_Nil:
  "waiting_times now ds = [] \<longleftrightarrow> (\<forall>d\<in>set ds. d_status d = DAG_ACTIVE \<longrightarrow>
     (\<forall>n\<in>set (d_nodes d). n_status n = NODE_PENDING \<longrightarrow> n_retry_at_ms n \<le> now))"
  by (induction ds) (auto simp: waiting_times_def filter_empty_conv not_less)

lemma min_retry_0:
  "sched_dag_min_retry_at now ds = 0 \<longleftrightarrow>
     (\<forall>d\<in>set ds. d_status d = DAG_ACTIVE \<longrightarrow>
        (\<forall>n\<in>set (d_nodes d). n_status n = NODE_PENDING \<longrightarrow> n_retry_at_ms n \<le> now))"
proof -
  have 0: "0 \<notin> set (waiting_times now ds)" by (auto simp: waiting_times_def)
  have "sched_dag_min_retry_at now ds = 0 \<longleftrightarrow> waiting_times now ds = []"
  proof (cases "waiting_times now ds = []")
    case False
    then have "Min (set (waiting_times now ds)) \<in> set (waiting_times now ds)" by (intro Min_in) auto
    with 0 have "Min (set (waiting_times now ds)) \<noteq> 0" by metis
    with False show ?thesis by (simp add: min_retry_spec)
  qed (simp add: min_retry_spec)
  also have "\<dots> \<longleftrightarrow> (\<forall>d\<in>set ds. d_status d = DAG_ACTIVE \<longrightarrow>
        (\<forall>n\<in>set (d_nodes d). n_status n = NODE_PENDING \<longrightarrow> n_retry_at_ms n \<le> now))"
    by (rule waiting_times_Nil)
  finally show ?thesis .
qed

end
