(* ===== verification/Sched_Work.thy ===== *)
theory Sched_Work
  imports Sched_Engine
begin

text \<open>
  sched_d, blueprint graphs: the public operations \<open>sched_dag_impl.c\<close> and the worker thread
  \<open>sched_dag_worker.c\<close>, composed into one step function.

  The service lock makes every critical section atomic; the executor runs outside it. A run of
  the service is therefore a sequence of critical sections, and \<open>sched_step\<close> has one event per
  section: a submission, a cancellation, the worker picking one node (serial path) or a batch
  (parallel path), a result coming back, and the barrier at the end of a batch. Submissions and
  cancellations may fall between a dispatch and its result, which is the interleaving the code
  has to survive. \<open>s_inflight\<close> and \<open>s_barrier\<close> are the worker thread's local state: the nodes
  it has handed out, and whether it waits at the end of a batch.
\<close>

section \<open>Service state and public operations\<close>

record sched_service =
  s_initialized :: bool
  s_dags :: "sched_dag list"
  s_dag_seq :: nat
  s_executor :: bool
  s_parallel :: bool
  s_dag_batch_size :: nat
  s_dag_fatal_cascade :: bool
  s_batch_pending :: nat
  s_inflight :: "(nat \<times> nat) list"
  s_barrier :: bool

definition dag_id_of :: "64 word \<Rightarrow> nat \<Rightarrow> string" where
  "dag_id_of secs sq = snprintf_s 64 (''dag_'' @ show_nat (unat secs) @ ''_'' @ show_nat sq)"

definition sched_find_dag :: "sched_service \<Rightarrow> string \<Rightarrow> nat option" where
  "sched_find_dag s i = find_index (\<lambda>d. d_dag_id d = i) (s_dags s)"

definition sched_service_submit_dag ::
  "'j sched_env \<Rightarrow> 64 word \<Rightarrow> 64 word \<Rightarrow> sched_service \<Rightarrow> string \<Rightarrow> sched_service \<times> (airy_err + string)"
  where
  "sched_service_submit_dag env secs now s dag_json =
     (if \<not> s_initialized s then (s, Inl AIRY_ERR_INVALID_PARAM)
      else case js_parse env dag_json of
             None \<Rightarrow> (s, Inl AIRY_ERR_PARSE_ERROR)
           | Some rt \<Rightarrow>
               (case sched_dag_validate_and_build env rt of
                  Inl e \<Rightarrow> (s, Inl e)
                | Inr d \<Rightarrow>
                    if SCHED_DAG_MAX_DAGS \<le> length (s_dags s) then (s, Inl AIRY_ERR_OVERFLOW)
                    else let id_buf = dag_id_of secs (s_dag_seq s);
                             d = d\<lparr>d_dag_id := id_buf, d_status := DAG_ACTIVE,
                                   d_created_at_ms := now\<rparr>
                         in (s\<lparr>s_dag_seq := s_dag_seq s + 1, s_dags := s_dags s @ [d]\<rparr>,
                             Inr id_buf)))"

definition cancel_node :: "64 word \<Rightarrow> sched_dag_node \<Rightarrow> sched_dag_node" where
  "cancel_node now n =
     (if n_status n = NODE_PENDING \<or> n_status n = NODE_READY
      then n\<lparr>n_status := NODE_CANCELED, n_finished_at_ms := now,
             n_error := Some ''canceled by user''\<rparr>
      else n)"

definition cancel_dag :: "64 word \<Rightarrow> sched_dag \<Rightarrow> sched_dag" where
  "cancel_dag now d =
     d\<lparr>d_status := DAG_CANCELED, d_finished_at_ms := now,
       d_nodes := map (cancel_node now) (d_nodes d)\<rparr>"

definition sched_service_cancel_dag ::
  "64 word \<Rightarrow> sched_service \<Rightarrow> string \<Rightarrow> sched_service \<times> airy_err" where
  "sched_service_cancel_dag now s dag_id =
     (if \<not> s_initialized s then (s, AIRY_ERR_INVALID_PARAM)
      else case sched_find_dag s dag_id of
             None \<Rightarrow> (s, AIRY_ERR_NOT_FOUND)
           | Some i \<Rightarrow>
               let d = s_dags s ! i
               in if d_status d \<noteq> DAG_ACTIVE then (s, AIRY_ERR_BUSY)
                  else (s\<lparr>s_dags := (s_dags s)[i := cancel_dag now d]\<rparr>, AIRY_SUCCESS))"

text \<open>
  The answers of the status queries, as the tree handed to cJSON for printing. Numbers are the
  integers before their conversion to \<open>double\<close>.
\<close>

datatype jval = JStr string | JNum nat | JArr "jval list" | JObj "(string \<times> jval) list"

fun sched_dag_state_name :: "sched_dag_status \<Rightarrow> string" where
  "sched_dag_state_name DAG_ACTIVE = ''active''"
| "sched_dag_state_name DAG_COMPLETED = ''completed''"
| "sched_dag_state_name DAG_SEMANTIC_FAILED = ''semantic_failed''"
| "sched_dag_state_name DAG_FAILED = ''failed''"
| "sched_dag_state_name DAG_CANCELED = ''canceled''"

fun sched_dag_node_name :: "sched_dag_node_status \<Rightarrow> string" where
  "sched_dag_node_name NODE_PENDING = ''pending''"
| "sched_dag_node_name NODE_READY = ''ready''"
| "sched_dag_node_name NODE_RUNNING = ''running''"
| "sched_dag_node_name NODE_COMPLETED = ''completed''"
| "sched_dag_node_name NODE_SEMANTIC_FAILED = ''semantic_failed''"
| "sched_dag_node_name NODE_FAILED = ''failed''"
| "sched_dag_node_name NODE_CANCELED = ''canceled''"

definition dag_done_count :: "sched_dag \<Rightarrow> nat" where
  "dag_done_count d = length (filter (\<lambda>n. sched_dag_node_done (n_status n)) (d_nodes d))"

definition dag_summary_json :: "sched_dag \<Rightarrow> (string \<times> jval) list" where
  "dag_summary_json d =
     [(''dag_id'', JStr (d_dag_id d)), (''name'', JStr (d_name d)),
      (''status'', JStr (sched_dag_state_name (d_status d))),
      (''node_count'', JNum (length (d_nodes d))), (''progress'', JNum (dag_done_count d)),
      (''created_at_ms'', JNum (unat (d_created_at_ms d))),
      (''finished_at_ms'', JNum (unat (d_finished_at_ms d)))]"

definition opt_field :: "string \<Rightarrow> string option \<Rightarrow> (string \<times> jval) list" where
  "opt_field k v = (case v of None \<Rightarrow> [] | Some s \<Rightarrow> [(k, JStr s)])"

definition dag_node_json :: "sched_dag_node \<Rightarrow> jval" where
  "dag_node_json n = JObj
     ([(''id'', JStr (n_id n)), (''goal'', JStr (n_goal n)), (''role'', JStr (n_role n)),
       (''status'', JStr (sched_dag_node_name (n_status n))),
       (''depends'', JArr (map JStr (n_depends n)))]
      @ opt_field ''output'' (n_output n) @ opt_field ''error'' (n_error n)
      @ [(''started_at_ms'', JNum (unat (n_started_at_ms n))),
         (''finished_at_ms'', JNum (unat (n_finished_at_ms n)))]
      @ (if 0 < n_max_retries n
         then [(''max_retries'', JNum (unat (n_max_retries n))),
               (''retry_count'', JNum (unat (n_retry_count n)))]
         else []))"

definition sched_service_get_dag :: "sched_service \<Rightarrow> string \<Rightarrow> airy_err + jval" where
  "sched_service_get_dag s dag_id =
     (if \<not> s_initialized s then Inl AIRY_ERR_INVALID_PARAM
      else case sched_find_dag s dag_id of
             None \<Rightarrow> Inl AIRY_ERR_NOT_FOUND
           | Some i \<Rightarrow>
               let d = s_dags s ! i
               in Inr (JObj (dag_summary_json d
                    @ [(''retry_budget_ms'', JNum (unat (d_retry_budget_ms d))),
                       (''nodes'', JArr (map dag_node_json (d_nodes d)))])))"

definition sched_dag_list_json :: "sched_service \<Rightarrow> airy_err + jval" where
  "sched_dag_list_json s =
     (if \<not> s_initialized s then Inl AIRY_ERR_INVALID_PARAM
      else Inr (JObj [(''dags'', JArr (map (\<lambda>d. JObj (dag_summary_json d)) (s_dags s))),
                      (''count'', JNum (length (s_dags s)))]))"

section \<open>The worker\<close>

definition sched_dag_batch_done :: "sched_service \<Rightarrow> sched_service" where
  "sched_dag_batch_done s =
     (if 0 < s_batch_pending s then s\<lparr>s_batch_pending := s_batch_pending s - 1\<rparr> else s)"

definition start_at :: "64 word \<Rightarrow> sched_dag list \<Rightarrow> nat \<times> nat \<Rightarrow> sched_dag list" where
  "start_at now ds p =
     (case p of (i, j) \<Rightarrow> ds[i := set_node (ds ! i) j (start_node now (d_nodes (ds ! i) ! j))])"

definition all_positions :: "sched_dag list \<Rightarrow> (nat \<times> nat) list" where
  "all_positions ds =
     concat (map (\<lambda>i. map (Pair i) [0..<length (d_nodes (ds ! i))]) [0..<length ds])"

definition collect_one ::
  "64 word \<Rightarrow> nat \<Rightarrow> sched_dag list \<times> (nat \<times> nat) list \<Rightarrow> nat \<times> nat
     \<Rightarrow> sched_dag list \<times> (nat \<times> nat) list" where
  "collect_one now mx acc p =
     (case acc of (ds, out) \<Rightarrow>
        if length out < mx \<and> d_status (ds ! fst p) = DAG_ACTIVE \<and>
           0 < sched_dag_node_ready now (d_nodes (ds ! fst p)) (snd p)
        then (start_at now ds p, out @ [p]) else (ds, out))"

definition sched_dag_collect_ready_batch ::
  "64 word \<Rightarrow> sched_dag list \<Rightarrow> nat \<Rightarrow> sched_dag list \<times> (nat \<times> nat) list" where
  "sched_dag_collect_ready_batch now ds mx = foldl (collect_one now mx) (ds, []) (all_positions ds)"

text \<open>
  One turn of \<open>sched_dag_wait_ready\<close>. Every test of a node against its retry time reads the
  clock anew: \<open>rc i j\<close> is what it says when node \<open>j\<close> of graph \<open>i\<close> is tested, \<open>mc\<close> when
  \<open>sched_dag_min_retry_at\<close> reads it afterwards, \<open>tc\<close> when the waiting time is computed.
\<close>

datatype dag_wait = DwStop | DwReady | DwSleep | DwTimed "32 word"

definition dag_ready_at :: "(nat \<Rightarrow> nat \<Rightarrow> 64 word) \<Rightarrow> nat \<Rightarrow> sched_dag \<Rightarrow> nat option" where
  "dag_ready_at rc i d =
     (if d_status d \<noteq> DAG_ACTIVE then None
      else find_index (\<lambda>j. 0 < sched_dag_node_ready (rc i j) (d_nodes d) j) [0..<length (d_nodes d)])"

definition find_ready_at :: "(nat \<Rightarrow> nat \<Rightarrow> 64 word) \<Rightarrow> sched_dag list \<Rightarrow> (nat \<times> nat) option" where
  "find_ready_at rc ds =
     (case find_index (\<lambda>i. dag_ready_at rc i (ds ! i) \<noteq> None) [0..<length ds] of
        None \<Rightarrow> None
      | Some i \<Rightarrow> map_option (Pair i) (dag_ready_at rc i (ds ! i)))"

definition sched_dag_wait_ready ::
  "bool \<Rightarrow> (nat \<Rightarrow> nat \<Rightarrow> 64 word) \<Rightarrow> 64 word \<Rightarrow> 64 word \<Rightarrow> sched_dag list \<Rightarrow> dag_wait" where
  "sched_dag_wait_ready dag_run rc mc tc ds =
     (if find_ready_at rc ds = None \<and> dag_run then
        (let min_retry = sched_dag_min_retry_at mc ds
         in if min_retry = 0 then DwSleep
            else DwTimed (if tc < min_retry then ucast (min_retry - tc) else 1))
      else if \<not> dag_run then DwStop else DwReady)"

text \<open>The two halves of \<open>sched_dag_run_batch\<close>: up to the release of the lock, and after the barrier.\<close>

definition run_batch_begin :: "64 word \<Rightarrow> sched_service \<Rightarrow> sched_service" where
  "run_batch_begin now s =
     (case sched_dag_collect_ready_batch now (s_dags s) (s_dag_batch_size s) of (ds, batch) \<Rightarrow>
        if batch = [] then s
        else s\<lparr>s_dags := ds, s_batch_pending := length batch, s_inflight := batch,
               s_barrier := True\<rparr>)"

definition run_batch_end :: "64 word \<Rightarrow> sched_service \<Rightarrow> sched_service" where
  "run_batch_end now s =
     s\<lparr>s_dags := sched_dag_finalize_terminal now (sched_dag_propagate_unreachable now (s_dags s)),
       s_barrier := False\<rparr>"

text \<open>What the executor hands back; without an executor the dispatch itself fails.\<close>

definition exec_result ::
  "sched_service \<Rightarrow> airy_err \<times> string option \<Rightarrow> airy_err \<times> string option" where
  "exec_result s r = (if s_executor s then r else (AIRY_ERR_SVC_NOT_READY, None))"

definition write_back_at ::
  "'j sched_env \<Rightarrow> 64 word \<Rightarrow> sched_service \<Rightarrow> nat \<times> nat \<Rightarrow> airy_err \<times> string option
     \<Rightarrow> sched_service" where
  "write_back_at env now s p r =
     (case p of (i, j) \<Rightarrow>
        s\<lparr>s_dags := (s_dags s)[i := fst (sched_dag_write_back_node env (s_dag_fatal_cascade s) now
                       (s_dags s ! i) j (fst (exec_result s r)) (snd (exec_result s r)))],
          s_inflight := remove1 p (s_inflight s)\<rparr>)"

definition sched_dag_batch_worker ::
  "'j sched_env \<Rightarrow> 64 word \<Rightarrow> sched_service \<Rightarrow> nat \<times> nat \<Rightarrow> airy_err \<times> string option
     \<Rightarrow> sched_service" where
  "sched_dag_batch_worker env now s p r = sched_dag_batch_done (write_back_at env now s p r)"

definition sched_dag_fail_node ::
  "64 word \<Rightarrow> sched_service \<Rightarrow> nat \<times> nat \<Rightarrow> string \<Rightarrow> sched_service" where
  "sched_dag_fail_node now s p msg =
     (case p of (i, j) \<Rightarrow>
        sched_dag_batch_done
          (s\<lparr>s_dags := (s_dags s)[i := set_node (s_dags s ! i) j
                ((d_nodes (s_dags s ! i) ! j)\<lparr>n_status := NODE_FAILED, n_error := Some msg,
                    n_finished_at_ms := now\<rparr>)],
             s_inflight := remove1 p (s_inflight s)\<rparr>))"

text \<open>The two halves of \<open>sched_dag_run_one\<close>.\<close>

definition run_one_begin :: "64 word \<Rightarrow> sched_service \<Rightarrow> sched_service" where
  "run_one_begin now s =
     (case sched_dag_find_ready now (s_dags s) of
        None \<Rightarrow> s
      | Some p \<Rightarrow> s\<lparr>s_dags := start_at now (s_dags s) p, s_inflight := [p]\<rparr>)"

definition run_one_end ::
  "'j sched_env \<Rightarrow> 64 word \<Rightarrow> sched_service \<Rightarrow> nat \<times> nat \<Rightarrow> airy_err \<times> string option
     \<Rightarrow> sched_service" where
  "run_one_end env now s p r =
     (let s = write_back_at env now s p r
      in s\<lparr>s_dags := sched_dag_finalize_terminal now
             (sched_dag_propagate_unreachable now (s_dags s))\<rparr>)"

datatype sched_ev =
    EvSubmit string "64 word" "64 word"
  | EvCancel string "64 word"
  | EvDispatch "64 word"
  | EvLand "nat \<times> nat" "airy_err \<times> string option" "64 word"
  | EvAllocFail "nat \<times> nat" "64 word"
  | EvBarrier "64 word"

text \<open>
  One critical section. The worker thread picks work only when it holds none; a result can come
  back only for a node that is out; the barrier opens when no batch item is pending.
\<close>

fun sched_step :: "'j sched_env \<Rightarrow> sched_service \<Rightarrow> sched_ev \<Rightarrow> sched_service" where
  "sched_step env s (EvSubmit j secs now) = fst (sched_service_submit_dag env secs now s j)"
| "sched_step env s (EvCancel i now) = fst (sched_service_cancel_dag now s i)"
| "sched_step env s (EvDispatch now) =
     (if s_inflight s \<noteq> [] \<or> s_barrier s then s
      else if s_parallel s then run_batch_begin now s else run_one_begin now s)"
| "sched_step env s (EvLand p r now) =
     (if p \<notin> set (s_inflight s) then s
      else if s_parallel s then sched_dag_batch_worker env now s p r
      else run_one_end env now s p r)"
| "sched_step env s (EvAllocFail p now) =
     (if p \<notin> set (s_inflight s) \<or> \<not> s_parallel s then s
      else sched_dag_fail_node now s p ''batch item alloc failed'')"
| "sched_step env s (EvBarrier now) =
     (if s_barrier s \<and> s_batch_pending s = 0 then run_batch_end now s else s)"

text \<open>
  The service as \<open>sched_service_create\<close> leaves it; \<open>pool_ok\<close> says whether the delegation
  framework and the thread pool could be created.
\<close>

definition sched_service_create :: "bool \<Rightarrow> bool \<Rightarrow> nat \<Rightarrow> nat \<Rightarrow> bool \<Rightarrow> sched_service" where
  "sched_service_create ex pool_ok max_parallel batch_size fatal_cascade =
     \<lparr>s_initialized = True, s_dags = [], s_dag_seq = 0, s_executor = ex,
      s_parallel = (0 < max_parallel \<and> pool_ok),
      s_dag_batch_size =
        (let b = (if batch_size = 0 then max_parallel else batch_size)
         in if SCHED_DAG_MAX_NODES < b then SCHED_DAG_MAX_NODES else b),
      s_dag_fatal_cascade = fatal_cascade, s_batch_pending = 0,
      s_inflight = [], s_barrier = False\<rparr>"

section \<open>The service invariant\<close>

text \<open>An active graph at rest that still has something to do.\<close>

definition quiet :: "sched_dag \<Rightarrow> bool" where
  "quiet d \<longleftrightarrow> d_status d = DAG_ACTIVE \<longrightarrow> settled d \<and> \<not> sched_dag_all_terminal d"

definition running_at :: "sched_dag list \<Rightarrow> (nat \<times> nat) set" where
  "running_at ds = {(i, j). i < length ds \<and> j < length (d_nodes (ds ! i)) \<and>
     n_status (d_nodes (ds ! i) ! j) = NODE_RUNNING}"

definition sched_inv :: "'j sched_env \<Rightarrow> sched_service \<Rightarrow> bool" where
  "sched_inv env s \<longleftrightarrow>
     (\<forall>d\<in>set (s_dags s). dag_inv env d) \<and>
     length (s_dags s) \<le> SCHED_DAG_MAX_DAGS \<and> s_dag_seq s = length (s_dags s) \<and>
     (\<forall>i<length (s_dags s). \<exists>t. d_dag_id (s_dags s ! i) = dag_id_of t i) \<and>
     distinct (s_inflight s) \<and> set (s_inflight s) = running_at (s_dags s) \<and>
     (if s_parallel s
      then s_batch_pending s = length (s_inflight s) \<and> (s_barrier s \<or> s_inflight s = [])
      else \<not> s_barrier s \<and> length (s_inflight s) \<le> 1) \<and>
     (\<not> s_barrier s \<longrightarrow> (\<forall>d\<in>set (s_dags s). quiet d))"

text \<open>Replacing one graph by a later version of itself.\<close>

lemma dag_inv_update:
  "\<forall>d\<in>set ds. dag_inv env d \<Longrightarrow> dag_inv env d' \<Longrightarrow> \<forall>d\<in>set (ds[i := d']). dag_inv env d"
  using set_update_subset_insert [of ds i d'] by blast

lemma running_at_update:
  assumes "i < length ds" and "length (d_nodes d') = length (d_nodes (ds ! i))"
    and "\<And>k. k < length (d_nodes (ds ! i)) \<Longrightarrow> n_status (d_nodes d' ! k) = NODE_RUNNING \<longleftrightarrow>
      n_status (d_nodes (ds ! i) ! k) = NODE_RUNNING \<and> k \<noteq> j"
  shows "running_at (ds[i := d']) = running_at ds - {(i, j)}"
  using assms by (auto simp: running_at_def nth_list_update split: if_splits)

text \<open>
  What a write-back does to the node: it comes to rest with its retry count unchanged, or goes
  back to pending with the count raised while retries are left.
\<close>

definition rests :: "sched_dag_node \<Rightarrow> sched_dag_node \<Rightarrow> bool" where
  "rests n m \<longleftrightarrow> node_layout m = node_layout n \<and> n_status m \<noteq> NODE_RUNNING \<and>
     (if n_status m = NODE_PENDING
      then n_retry_count m = n_retry_count n + 1 \<and> n_retry_count n < n_max_retries n
      else n_retry_count m = n_retry_count n)"

lemma write_back_shape:
  assumes "d' = fst (sched_dag_write_back_node env fc now d j dret out)"
  shows "(\<exists>n. d' = set_node d j n \<and> rests (d_nodes d ! j) n) \<or>
    (\<exists>n msg. d' = dag_abort now d j n msg \<and> node_layout n = node_layout (d_nodes d ! j) \<and>
       n_retry_count n = n_retry_count (d_nodes d ! j))"
proof -
  let ?node = "d_nodes d ! j"
  let ?n = "node_err_set None (?node\<lparr>n_finished_at_ms := now\<rparr>)"
  have bo: "rests ?node m" if "node_backoff now d ?n dret = Some m" for m
    using that
    by (auto simp: node_backoff_def Let_def rests_def node_layout_def node_err_set_def split: if_splits)
  have su: "rests ?node (fst (node_succeed env now ?node out))"
    by (simp add: node_succeed_def rests_def)
  consider (dead) "n_status ?node = NODE_CANCELED \<or> d_status d = DAG_CANCELED \<or> d_status d = DAG_FAILED"
    | (succ) "\<not> (n_status ?node = NODE_CANCELED \<or> d_status d = DAG_CANCELED \<or> d_status d = DAG_FAILED)"
        "dret = AIRY_SUCCESS"
    | (fail) "\<not> (n_status ?node = NODE_CANCELED \<or> d_status d = DAG_CANCELED \<or> d_status d = DAG_FAILED)"
        "dret \<noteq> AIRY_SUCCESS" by blast
  then show ?thesis
  proof cases
    case dead
    then have "d' = set_node d j (node_discard now ?node)"
      by (simp add: assms sched_dag_write_back_node_def)
    moreover have "rests ?node (node_discard now ?node)" by (simp add: node_discard_def rests_def)
    ultimately show ?thesis by blast
  next
    case succ
    then have "d' = set_node d j (fst (node_succeed env now ?node out))"
      by (simp add: assms sched_dag_write_back_node_def Let_def case_prod_beta)
    with su show ?thesis by blast
  next
    case fail
    show ?thesis
    proof (cases "\<not> fc \<or> sched_dag_error_is_fatal dret")
      case True
      with fail obtain msg where "d' = dag_abort now d j ?n msg"
        by (auto simp: assms sched_dag_write_back_node_def Let_def)
      moreover have "node_layout ?n = node_layout ?node" "n_retry_count ?n = n_retry_count ?node"
        by simp_all
      ultimately show ?thesis by blast
    next
      case False
      show ?thesis
      proof (cases "node_backoff now d ?n dret")
        case None
        let ?m = "(node_err_set (Some ''agent dispatch failed'') ?n)\<lparr>n_status := NODE_FAILED\<rparr>"
        have "d' = set_node d j ?m"
          using fail False None by (simp add: assms sched_dag_write_back_node_def Let_def)
        moreover have "rests ?node ?m" by (simp add: rests_def)
        ultimately show ?thesis by blast
      next
        case (Some m)
        with fail False have "d' = set_node d j m"
          by (simp add: assms sched_dag_write_back_node_def Let_def)
        with bo [OF Some] show ?thesis by blast
      qed
    qed
  qed
qed

lemma write_back_running:
  assumes j: "j < length (d_nodes d)" and k: "k < length (d_nodes d)"
    and "d' = fst (sched_dag_write_back_node env fc now d j dret out)"
  shows "n_status (d_nodes d' ! k) = NODE_RUNNING \<longleftrightarrow>
    n_status (d_nodes d ! k) = NODE_RUNNING \<and> k \<noteq> j"
  using write_back_shape [OF assms(3)] j k
  by (auto simp: dag_abort_def Let_def nth_list_update rests_def split: if_splits)

lemma settled_moves:
  assumes "settled d" and "d_nodes d' = (d_nodes d)[j := start_node now (d_nodes d ! j)]"
    and "d_status d' = d_status d"
  shows "settled d'"
proof (cases "j < length (d_nodes d)")
  case True
  let ?ns = "(d_nodes d)[j := start_node now (d_nodes d ! j)]"
  have "same_layout (d_nodes d) ?ns"
    by (rule same_layoutI) (auto simp: nth_list_update True start_node_def)
  then have dr: "dep_rel ?ns = dep_rel (d_nodes d)" by (rule same_layout_dep_rel)
  show ?thesis unfolding settled_def
  proof (intro impI allI)
    fix i assume act: "d_status d' = DAG_ACTIVE" and i: "i < length (d_nodes d')"
    have "\<not> unreachable_node ?ns i"
    proof
      assume "unreachable_node ?ns i"
      with i assms(2) obtain k where k: "(k, i) \<in> dep_rel (d_nodes d)"
        and "n_status (?ns ! i) = NODE_PENDING" and "sched_dag_dep_broken (n_status (?ns ! k))"
        by (auto simp: unreachable_iff dr)
      then have "n_status (d_nodes d ! i) = NODE_PENDING"
        and "sched_dag_dep_broken (n_status (d_nodes d ! k))"
        using True by (auto simp: nth_list_update start_node_def sched_dag_dep_broken_def
            split: if_splits)
      with k assms act i show False by (auto simp: settled_def unreachable_iff)
    qed
    then show "\<not> unreachable_node (d_nodes d') i" by (simp add: assms(2))
  qed
next
  case False
  with assms show ?thesis by (simp add: settled_def list_update_beyond not_less)
qed

section \<open>Dispatch\<close>

text \<open>What holds of the graphs while the worker picks: \<open>out\<close> lists the nodes running.\<close>

definition pick_inv :: "'j sched_env \<Rightarrow> sched_dag list \<Rightarrow> (nat \<times> nat) list \<Rightarrow> bool" where
  "pick_inv env ds out \<longleftrightarrow> (\<forall>d\<in>set ds. dag_inv env d) \<and> (\<forall>d\<in>set ds. quiet d) \<and>
     running_at ds = set out \<and> distinct out"

definition in_range :: "sched_dag list \<Rightarrow> nat \<times> nat \<Rightarrow> bool" where
  "in_range ds p \<longleftrightarrow> fst p < length ds \<and> snd p < length (d_nodes (ds ! fst p))"

definition same_graphs :: "sched_dag list \<Rightarrow> sched_dag list \<Rightarrow> bool" where
  "same_graphs ds ds' \<longleftrightarrow> map d_dag_id ds' = map d_dag_id ds \<and>
     map (map node_layout \<circ> d_nodes) ds' = map (map node_layout \<circ> d_nodes) ds"

lemma same_graphs_refl [simp]: "same_graphs ds ds"
  by (simp add: same_graphs_def)

lemma same_graphs_trans: "same_graphs a b \<Longrightarrow> same_graphs b c \<Longrightarrow> same_graphs a c"
  by (simp add: same_graphs_def)

lemma same_graphs_length: "same_graphs ds ds' \<Longrightarrow> length ds' = length ds"
  unfolding same_graphs_def by (metis length_map)

lemma same_graphs_layout:
  assumes "same_graphs ds ds'" and "i < length ds"
  shows "same_layout (d_nodes (ds ! i)) (d_nodes (ds' ! i))"
proof -
  have "map (map node_layout \<circ> d_nodes) ds' ! i = map (map node_layout \<circ> d_nodes) ds ! i"
    using assms by (simp add: same_graphs_def)
  with assms same_graphs_length [OF assms(1)] show ?thesis by (simp add: same_layout_def)
qed

lemma same_graphs_id:
  assumes "same_graphs ds ds'" and "i < length ds"
  shows "d_dag_id (ds' ! i) = d_dag_id (ds ! i)"
proof -
  have "map d_dag_id ds' ! i = map d_dag_id ds ! i" using assms by (simp add: same_graphs_def)
  with assms same_graphs_length [OF assms(1)] show ?thesis by simp
qed

lemma same_graphsI:
  assumes "length ds' = length ds"
    and "\<And>i. i < length ds \<Longrightarrow> d_dag_id (ds' ! i) = d_dag_id (ds ! i) \<and>
      same_layout (d_nodes (ds ! i)) (d_nodes (ds' ! i))"
  shows "same_graphs ds ds'"
  unfolding same_graphs_def using assms
  by (intro conjI nth_equalityI) (auto simp: same_layout_def)

lemma same_graphs_update:
  assumes "d_dag_id d' = d_dag_id (ds ! i)" and "same_layout (d_nodes (ds ! i)) (d_nodes d')"
  shows "same_graphs ds (ds[i := d'])"
proof (cases "i < length ds")
  case True
  show ?thesis by (rule same_graphsI) (use assms True in \<open>auto simp: nth_list_update\<close>)
next
  case False
  then show ?thesis by (simp add: list_update_beyond not_less)
qed

lemma in_range_shape: "same_graphs ds ds' \<Longrightarrow> in_range ds' p = in_range ds p"
  using same_graphs_length same_graphs_layout [THEN same_layout_length]
  by (fastforce simp: in_range_def)

lemma start_at_pick:
  assumes inv: "pick_inv env ds out" and "in_range ds p"
    and act: "d_status (ds ! fst p) = DAG_ACTIVE"
    and rdy: "0 < sched_dag_node_ready now (d_nodes (ds ! fst p)) (snd p)"
  shows "pick_inv env (start_at now ds p) (out @ [p]) \<and> same_graphs ds (start_at now ds p)"
proof -
  obtain i j where p: "p = (i, j)" by fastforce
  let ?d = "ds ! i"
  let ?d' = "set_node ?d j (start_node now (d_nodes ?d ! j))"
  have i: "i < length ds" and j: "j < length (d_nodes ?d)"
    using assms(2) p by (auto simp: in_range_def)
  have dinv: "dag_inv env ?d" and q: "quiet ?d" using inv i by (auto simp: pick_inv_def)
  have gok: "graph_ok (d_nodes ?d)" using dinv by (simp add: dag_inv_def)
  have pend: "n_status (d_nodes ?d ! j) = NODE_PENDING"
    using rdy p node_ready_iff [OF gok j] by simp
  have new: "dag_inv env ?d'" "dag_moves (d_nodes ?d) ((d_nodes ?d)[j := start_node now (d_nodes ?d ! j)])"
    using start_node_inv [OF dinv _ j] act rdy p by auto
  have "quiet ?d'"
  proof -
    have "settled ?d'" by (rule settled_moves [of ?d]) (use q act p in \<open>simp_all add: quiet_def\<close>)
    moreover have "n_status (d_nodes ?d' ! j) = NODE_RUNNING" using j by (simp add: start_node_def)
    then have "\<not> sched_dag_all_terminal ?d'"
      using j by (auto simp: sched_dag_all_terminal_def list_all_length sched_dag_node_done_def
          intro!: exI [of _ j])
    ultimately show ?thesis by (simp add: quiet_def)
  qed
  moreover have "running_at (ds[i := ?d']) = insert (i, j) (running_at ds)"
    using i j by (auto simp: running_at_def nth_list_update start_node_def split: if_splits)
  moreover have "(i, j) \<notin> running_at ds" using pend by (simp add: running_at_def)
  moreover have "\<forall>d\<in>set (ds[i := ?d']). dag_inv env d"
    using inv new(1) dag_inv_update [of ds env ?d' i] by (simp add: pick_inv_def)
  moreover have "\<forall>d\<in>set (ds[i := ?d']). quiet d"
    using inv \<open>quiet ?d'\<close> set_update_subset_insert [of ds i ?d'] by (auto simp: pick_inv_def)
  moreover have "same_graphs ds (ds[i := ?d'])"
    by (rule same_graphs_update) (use dag_movesD(1) [OF new(2)] in \<open>simp_all add: set_node_def\<close>)
  ultimately show ?thesis using inv p by (auto simp: pick_inv_def start_at_def)
qed

lemma collect_fold:
  assumes "foldl (collect_one now mx) (ds, out) ps = (ds', out')"
    and "pick_inv env ds out" and "\<forall>p\<in>set ps. in_range ds p"
  shows "pick_inv env ds' out' \<and> same_graphs ds ds'"
  using assms
proof (induction ps arbitrary: ds out)
  case Nil
  then show ?case by simp
next
  case (Cons p ps)
  show ?case
  proof (cases "length out < mx \<and> d_status (ds ! fst p) = DAG_ACTIVE \<and>
      0 < sched_dag_node_ready now (d_nodes (ds ! fst p)) (snd p)")
    case True
    have run: "foldl (collect_one now mx) (start_at now ds p, out @ [p]) ps = (ds', out')"
      using Cons.prems(1) True by (simp add: collect_one_def [of now mx "(ds, out)" p])
    have step: "pick_inv env (start_at now ds p) (out @ [p])" "same_graphs ds (start_at now ds p)"
      using start_at_pick [OF Cons.prems(2)] Cons.prems(3) True by auto
    have "\<forall>q\<in>set ps. in_range (start_at now ds p) q"
      using Cons.prems(3) in_range_shape [OF step(2)] by simp
    from Cons.IH [OF run step(1) this] step(2) show ?thesis by (auto intro: same_graphs_trans)
  next
    case False
    have run: "foldl (collect_one now mx) (ds, out) ps = (ds', out')"
      using Cons.prems(1) False by (simp add: collect_one_def [of now mx "(ds, out)" p])
    from Cons.IH [OF run Cons.prems(2)] Cons.prems(3) show ?thesis by simp
  qed
qed

lemma all_positions_range: "p \<in> set (all_positions ds) \<Longrightarrow> in_range ds p"
  by (auto simp: all_positions_def in_range_def)

section \<open>Every critical section keeps the invariant\<close>

lemma fresh_dag:
  assumes "graph_ok (d_nodes d)" and fr: "list_all fresh_node (d_nodes d)" and "d_status d = DAG_ACTIVE"
  shows "dag_inv env d \<and> quiet d \<and> (\<forall>n\<in>set (d_nodes d). n_status n = NODE_PENDING)"
proof -
  let ?ns = "d_nodes d"
  have pend: "n_status (?ns ! i) = NODE_PENDING" if "i < length ?ns" for i
    using fr that by (simp add: list_all_length fresh_node_def)
  have "ordered ?ns" using pend dep_rel_bounds by (fastforce simp: ordered_def started_def)
  moreover have "node_ok env (?ns ! i)" if "i < length ?ns" for i
    using fr that by (auto simp: list_all_length fresh_node_def node_ok_def)
  moreover have "canc_ok ?ns" using pend by (simp add: canc_ok_def)
  moreover have "\<not> unreachable_node ?ns j" if "j < length ?ns" for j
    using that pend dep_rel_bounds by (fastforce simp: unreachable_iff sched_dag_dep_broken_def)
  moreover have "\<not> sched_dag_all_terminal d"
    using assms(1) pend [of 0]
    by (auto simp: graph_ok_def sched_dag_all_terminal_def list_all_length sched_dag_node_done_def
        intro!: exI [of _ 0])
  ultimately show ?thesis
    using assms pend by (auto simp: dag_inv_def status_ok_def quiet_def settled_def in_set_conv_nth)
qed

lemma submit_inv:
  assumes inv: "sched_inv env s"
  shows "sched_inv env (fst (sched_service_submit_dag env secs now s j))"
proof (cases "\<exists>i. snd (sched_service_submit_dag env secs now s j) = Inr i")
  case True
  then obtain rt d where len: "length (s_dags s) < SCHED_DAG_MAX_DAGS"
    and b: "sched_dag_validate_and_build env rt = Inr d" and
    sub: "fst (sched_service_submit_dag env secs now s j) =
      s\<lparr>s_dag_seq := s_dag_seq s + 1,
        s_dags := s_dags s @ [d\<lparr>d_dag_id := dag_id_of secs (s_dag_seq s), d_status := DAG_ACTIVE,
          d_created_at_ms := now\<rparr>]\<rparr>"
    by (auto simp: sched_service_submit_dag_def Let_def split: if_splits option.splits sum.splits)
  define d' where "d' = d\<lparr>d_dag_id := dag_id_of secs (s_dag_seq s), d_status := DAG_ACTIVE,
          d_created_at_ms := now\<rparr>"
  have fd: "dag_inv env d' \<and> quiet d' \<and> (\<forall>n\<in>set (d_nodes d'). n_status n = NODE_PENDING)"
    by (rule fresh_dag) (use build_graph_ok [OF b] in \<open>simp_all add: d'_def\<close>)
  then have "running_at (s_dags s @ [d']) = running_at (s_dags s)"
    by (auto simp: running_at_def nth_append split: if_splits)
  moreover have "d_dag_id d' = dag_id_of secs (length (s_dags s))"
    using inv by (simp add: d'_def sched_inv_def)
  ultimately show ?thesis
    using inv fd len unfolding sub d'_def [symmetric]
    by (auto simp: sched_inv_def nth_append less_Suc_eq)
next
  case False
  then have "fst (sched_service_submit_dag env secs now s j) = s"
    by (auto simp: sched_service_submit_dag_def Let_def split: if_splits option.splits sum.splits)
  with inv show ?thesis by simp
qed

lemma cancel_node_simps [simp]:
  "node_layout (cancel_node now n) = node_layout n"
  "n_status (cancel_node now n) = NODE_RUNNING \<longleftrightarrow> n_status n = NODE_RUNNING"
  "n_status (cancel_node now n) \<noteq> NODE_PENDING"
  by (auto simp: cancel_node_def)

lemma cancel_dag_inv:
  assumes inv: "dag_inv env d"
  shows "dag_inv env (cancel_dag now d) \<and> dag_moves (d_nodes d) (d_nodes (cancel_dag now d))"
proof -
  let ?ns = "map (cancel_node now) (d_nodes d)"
  have mv: "dag_moves (d_nodes d) ?ns"
    unfolding dag_moves_def
    by (intro conjI same_layoutI allI impI) (auto simp: cancel_node_def node_moves_def)
  have "ordered ?ns"
  proof (rule ordered_step [OF _ mv])
    show "ordered (d_nodes d)" using inv by (simp add: dag_inv_def)
  qed (auto simp: cancel_node_def started_def split: if_splits)
  moreover have "node_ok env (?ns ! i)" if "i < length (d_nodes d)" for i
    using inv that by (auto simp: dag_inv_def node_ok_def cancel_node_def)
  ultimately show ?thesis
    using inv mv dag_movesD(4) [OF mv]
    by (simp add: dag_inv_def cancel_dag_def status_ok_def no_waiting_def)
qed

lemma cancel_inv:
  assumes inv: "sched_inv env s"
  shows "sched_inv env (fst (sched_service_cancel_dag now s j))"
proof (cases "snd (sched_service_cancel_dag now s j) = AIRY_SUCCESS")
  case True
  then obtain i where f: "sched_find_dag s j = Some i" and "d_status (s_dags s ! i) = DAG_ACTIVE"
    and eq: "fst (sched_service_cancel_dag now s j) =
      s\<lparr>s_dags := (s_dags s)[i := cancel_dag now (s_dags s ! i)]\<rparr>"
    by (auto simp: sched_service_cancel_dag_def Let_def split: if_splits option.splits)
  have i: "i < length (s_dags s)" using f by (simp add: sched_find_dag_def find_index_Some_iff)
  let ?d = "s_dags s ! i" and ?ds = "(s_dags s)[i := cancel_dag now (s_dags s ! i)]"
  have "dag_inv env ?d" using inv i by (simp add: sched_inv_def)
  then have c: "dag_inv env (cancel_dag now ?d)" using cancel_dag_inv by blast
  have "running_at ?ds = running_at (s_dags s)"
    using i by (auto simp: running_at_def nth_list_update cancel_dag_def split: if_splits)
  moreover have "\<forall>d\<in>set ?ds. dag_inv env d"
    using c inv dag_inv_update [of "s_dags s" env] by (simp add: sched_inv_def)
  moreover have "\<not> s_barrier s \<longrightarrow> (\<forall>d\<in>set ?ds. quiet d)"
    using inv set_update_subset_insert [of "s_dags s" i "cancel_dag now ?d"]
    by (auto simp: sched_inv_def quiet_def cancel_dag_def)
  moreover have "d_dag_id (?ds ! k) = d_dag_id (s_dags s ! k)" if "k < length (s_dags s)" for k
    using that i by (simp add: nth_list_update cancel_dag_def)
  ultimately show ?thesis using inv unfolding eq by (auto simp: sched_inv_def)
next
  case False
  then have "fst (sched_service_cancel_dag now s j) = s"
    by (auto simp: sched_service_cancel_dag_def Let_def split: if_splits option.splits)
  with inv show ?thesis by simp
qed

text \<open>A result coming back: the graph it belongs to, and the set of nodes still out.\<close>

lemma inflight_range:
  assumes "sched_inv env s" and "(i, j) \<in> set (s_inflight s)"
  shows "i < length (s_dags s) \<and> j < length (d_nodes (s_dags s ! i)) \<and>
    n_status (d_nodes (s_dags s ! i) ! j) = NODE_RUNNING \<and> dag_inv env (s_dags s ! i)"
  using assms by (auto simp: sched_inv_def running_at_def)

text \<open>
  The invariant without its last clause: what holds between a result and the convergence that
  follows it.
\<close>

definition land_inv :: "'j sched_env \<Rightarrow> sched_service \<Rightarrow> bool" where
  "land_inv env s \<longleftrightarrow>
     (\<forall>d\<in>set (s_dags s). dag_inv env d) \<and>
     length (s_dags s) \<le> SCHED_DAG_MAX_DAGS \<and> s_dag_seq s = length (s_dags s) \<and>
     (\<forall>i<length (s_dags s). \<exists>t. d_dag_id (s_dags s ! i) = dag_id_of t i) \<and>
     distinct (s_inflight s) \<and> set (s_inflight s) = running_at (s_dags s)"

lemma land_update:
  assumes inv: "sched_inv env s" and p: "(i, j) \<in> set (s_inflight s)"
    and d': "dag_inv env d'" "dag_moves (d_nodes (s_dags s ! i)) (d_nodes d')"
      "d_dag_id d' = d_dag_id (s_dags s ! i)"
    and run: "\<And>k. k < length (d_nodes (s_dags s ! i)) \<Longrightarrow> n_status (d_nodes d' ! k) = NODE_RUNNING \<longleftrightarrow>
      n_status (d_nodes (s_dags s ! i) ! k) = NODE_RUNNING \<and> k \<noteq> j"
  shows "land_inv env (s\<lparr>s_dags := (s_dags s)[i := d'], s_inflight := remove1 (i, j) (s_inflight s)\<rparr>)"
proof -
  have i: "i < length (s_dags s)" using inflight_range [OF inv p] by simp
  have "running_at ((s_dags s)[i := d']) = running_at (s_dags s) - {(i, j)}"
    by (rule running_at_update [OF i]) (use dag_movesD(2) [OF d'(2)] run in auto)
  moreover have "\<forall>d\<in>set ((s_dags s)[i := d']). dag_inv env d"
    using d'(1) inv dag_inv_update [of "s_dags s" env] by (simp add: sched_inv_def)
  moreover have "d_dag_id ((s_dags s)[i := d'] ! k) = d_dag_id (s_dags s ! k)"
    if "k < length (s_dags s)" for k using that i d'(3) by (simp add: nth_list_update)
  ultimately show ?thesis using inv by (simp add: land_inv_def sched_inv_def)
qed

lemma write_back_dag_id:
  "d_dag_id (fst (sched_dag_write_back_node env fc now d j dret out)) = d_dag_id d"
proof -
  have "d_dag_id (set_node d j n) = d_dag_id d" "d_dag_id (dag_abort now d j n msg) = d_dag_id d"
    for n msg by (simp_all add: set_node_def dag_abort_def Let_def)
  with write_back_shape [OF refl, of env fc now d j dret out] show ?thesis by auto
qed

lemma write_back_land:
  assumes inv: "sched_inv env s" and p: "p \<in> set (s_inflight s)"
  shows "land_inv env (write_back_at env now s p r)"
proof -
  obtain i j where ij: "p = (i, j)" by fastforce
  note rg = inflight_range [OF inv p [unfolded ij]]
  let ?d' = "fst (sched_dag_write_back_node env (s_dag_fatal_cascade s) now (s_dags s ! i) j
      (fst (exec_result s r)) (snd (exec_result s r)))"
  have "dag_inv env ?d' \<and> dag_moves (d_nodes (s_dags s ! i)) (d_nodes ?d')"
    by (rule write_back_inv [where j = j]) (use rg in auto)
  then have "land_inv env
      (s\<lparr>s_dags := (s_dags s)[i := ?d'], s_inflight := remove1 (i, j) (s_inflight s)\<rparr>)"
    using rg by (intro land_update [OF inv p [unfolded ij]] write_back_dag_id write_back_running) auto
  then show ?thesis by (simp add: write_back_at_def ij)
qed

lemma fail_node_land:
  assumes inv: "sched_inv env s" and p: "(i, j) \<in> set (s_inflight s)"
    and n_def: "n = (d_nodes (s_dags s ! i) ! j)\<lparr>n_status := NODE_FAILED, n_error := Some msg,
      n_finished_at_ms := now\<rparr>"
  shows "land_inv env (s\<lparr>s_dags := (s_dags s)[i := set_node (s_dags s ! i) j n],
      s_inflight := remove1 (i, j) (s_inflight s)\<rparr>)"
proof -
  let ?d = "s_dags s ! i"
  note rg = inflight_range [OF inv p]
  have n: "node_layout n = node_layout (d_nodes ?d ! j)" "node_ok env n" "n_status n = NODE_FAILED"
    using rg by (auto simp: n_def dag_inv_def node_ok_def)
  have "dag_inv env (set_node ?d j n) \<and> dag_moves (d_nodes ?d) ((d_nodes ?d)[j := n])"
  proof (cases "d_status ?d = DAG_ACTIVE")
    case True
    with rg n show ?thesis by (intro set_node_inv) auto
  next
    case False
    with rg n running_status [of env ?d j] show ?thesis by (intro dead_update_inv) auto
  qed
  then show ?thesis
    using n rg by (intro land_update [OF inv p]) (auto simp: nth_list_update set_node_def split: if_splits)
qed

text \<open>Convergence: propagation and finalization over all graphs.\<close>

abbreviation converge :: "64 word \<Rightarrow> sched_dag list \<Rightarrow> sched_dag list" where
  "converge now ds \<equiv> sched_dag_finalize_terminal now (sched_dag_propagate_unreachable now ds)"

lemma length_finalize [simp]: "length (sched_dag_finalize_terminal now ds) = length ds"
  by (simp add: sched_dag_finalize_terminal_def)

lemma converge_nth:
  assumes inv: "dag_inv env (ds ! i)" and i: "i < length ds"
  shows "dag_inv env (converge now ds ! i) \<and> quiet (converge now ds ! i) \<and>
    dag_moves (d_nodes (ds ! i)) (d_nodes (converge now ds ! i)) \<and>
    d_dag_id (converge now ds ! i) = d_dag_id (ds ! i) \<and>
    (\<forall>k<length (d_nodes (ds ! i)). n_status (d_nodes (converge now ds ! i) ! k) = NODE_RUNNING \<longleftrightarrow>
       n_status (d_nodes (ds ! i) ! k) = NODE_RUNNING)"
proof -
  let ?m = "sched_dag_propagate_unreachable now ds ! i"
  have rel: "dag_prop_rel now (ds ! i) ?m" and se: "settled ?m" using propagate_nth [OF i] by auto
  note m = dag_prop_rel_inv [OF inv rel se]
  have c: "converge now ds ! i = finalize_dag now ?m"
    using i by (simp add: sched_dag_finalize_terminal_def)
  have fin: "dag_inv env (finalize_dag now ?m)" "d_nodes (finalize_dag now ?m) = d_nodes ?m"
    using finalize_inv m by blast+
  have "quiet (finalize_dag now ?m)" using se by (auto simp: quiet_def finalize_dag_def settled_def)
  moreover have "d_dag_id (finalize_dag now ?m) = d_dag_id (ds ! i)"
    using rel by (auto simp: finalize_dag_def dag_prop_rel_def)
  moreover have "n_status (d_nodes ?m ! k) = NODE_RUNNING \<longleftrightarrow>
      n_status (d_nodes (ds ! i) ! k) = NODE_RUNNING" if "k < length (d_nodes (ds ! i))" for k
    using rel that by (fastforce simp: dag_prop_rel_def prop_rel_def dest: doomed_pending)
  ultimately show ?thesis using c fin m by simp
qed

lemma converge_land:
  assumes "land_inv env s"
  shows "land_inv env (s\<lparr>s_dags := converge now (s_dags s)\<rparr>) \<and>
    (\<forall>d\<in>set (converge now (s_dags s)). quiet d)"
proof -
  let ?ds = "converge now (s_dags s)"
  have each: "dag_inv env (?ds ! i) \<and> quiet (?ds ! i) \<and>
      length (d_nodes (?ds ! i)) = length (d_nodes (s_dags s ! i)) \<and>
      d_dag_id (?ds ! i) = d_dag_id (s_dags s ! i) \<and>
      (\<forall>k<length (d_nodes (s_dags s ! i)). n_status (d_nodes (?ds ! i) ! k) = NODE_RUNNING \<longleftrightarrow>
         n_status (d_nodes (s_dags s ! i) ! k) = NODE_RUNNING)" if "i < length (s_dags s)" for i
    using converge_nth [of env "s_dags s" i now] assms that dag_movesD(2) by (auto simp: land_inv_def)
  then have "running_at ?ds = running_at (s_dags s)" by (auto simp: running_at_def)
  with each assms show ?thesis by (auto simp: land_inv_def in_set_conv_nth)
qed

lemma sched_inv_land: "sched_inv env s \<longleftrightarrow> land_inv env s \<and>
   (if s_parallel s
    then s_batch_pending s = length (s_inflight s) \<and> (s_barrier s \<or> s_inflight s = [])
    else \<not> s_barrier s \<and> length (s_inflight s) \<le> 1) \<and>
   (\<not> s_barrier s \<longrightarrow> (\<forall>d\<in>set (s_dags s). quiet d))"
  by (auto simp: sched_inv_def land_inv_def)

lemma batch_done_fields [simp]:
  "s_dags (sched_dag_batch_done s) = s_dags s" "s_inflight (sched_dag_batch_done s) = s_inflight s"
  "s_parallel (sched_dag_batch_done s) = s_parallel s" "s_barrier (sched_dag_batch_done s) = s_barrier s"
  "s_dag_seq (sched_dag_batch_done s) = s_dag_seq s"
  "s_batch_pending (sched_dag_batch_done s) = s_batch_pending s - 1"
  by (simp_all add: sched_dag_batch_done_def)

lemma batch_item_inv:
  assumes inv: "sched_inv env s" and p: "p \<in> set (s_inflight s)" and par: "s_parallel s"
    and land: "land_inv env t" and t: "s_inflight t = remove1 p (s_inflight s)" "s_parallel t"
      "s_barrier t = s_barrier s" "s_batch_pending t = s_batch_pending s"
  shows "sched_inv env (sched_dag_batch_done t)"
proof -
  have bar: "s_barrier s" using inv p par by (auto simp: sched_inv_land)
  have "land_inv env (sched_dag_batch_done t)" using land by (simp add: land_inv_def)
  moreover have "s_batch_pending s = length (s_inflight s)" using inv par by (simp add: sched_inv_land)
  ultimately show ?thesis using t bar p by (simp add: sched_inv_land length_remove1)
qed

lemma write_back_at_fields [simp]:
  "s_inflight (write_back_at env now s p r) = remove1 p (s_inflight s)"
  "s_parallel (write_back_at env now s p r) = s_parallel s"
  "s_barrier (write_back_at env now s p r) = s_barrier s"
  "s_batch_pending (write_back_at env now s p r) = s_batch_pending s"
  by (cases p, simp add: write_back_at_def)+

lemma batch_worker_inv:
  assumes "sched_inv env s" and "p \<in> set (s_inflight s)" and "s_parallel s"
  shows "sched_inv env (sched_dag_batch_worker env now s p r)"
  unfolding sched_dag_batch_worker_def
  by (rule batch_item_inv [OF assms write_back_land [OF assms(1,2)]]) (simp_all add: assms(3))

lemma fail_node_inv:
  assumes "sched_inv env s" and "p \<in> set (s_inflight s)" and "s_parallel s"
  shows "sched_inv env (sched_dag_fail_node now s p msg)"
proof -
  obtain i j where p: "p = (i, j)" by fastforce
  have "(i, j) \<in> set (s_inflight s)" using assms(2) p by simp
  from batch_item_inv [OF assms fail_node_land [OF assms(1) this refl]]
  show ?thesis unfolding sched_dag_fail_node_def p by (simp add: assms(3) p)
qed

lemma run_one_end_inv:
  assumes inv: "sched_inv env s" and p: "p \<in> set (s_inflight s)" and ser: "\<not> s_parallel s"
  shows "sched_inv env (run_one_end env now s p r)"
proof -
  let ?t = "write_back_at env now s p r"
  have "land_inv env (?t\<lparr>s_dags := converge now (s_dags ?t)\<rparr>) \<and>
      (\<forall>d\<in>set (converge now (s_dags ?t)). quiet d)"
    by (rule converge_land [OF write_back_land [OF inv p]])
  moreover have "\<not> s_barrier s" "length (remove1 p (s_inflight s)) \<le> 1"
    using inv ser by (auto simp: sched_inv_land length_remove1)
  ultimately show ?thesis using ser by (simp add: run_one_end_def Let_def sched_inv_land)
qed

lemma run_batch_end_inv:
  assumes inv: "sched_inv env s" and "s_barrier s" and z: "s_batch_pending s = 0"
  shows "sched_inv env (run_batch_end now s)"
proof -
  have "land_inv env s" using inv by (simp add: sched_inv_land)
  from converge_land [OF this, of now] have "land_inv env (run_batch_end now s)"
    and "\<forall>d\<in>set (s_dags (run_batch_end now s)). quiet d"
    by (simp_all add: run_batch_end_def land_inv_def)
  with assms show ?thesis by (auto simp: sched_inv_land run_batch_end_def)
qed

lemma pick_inv_idle:
  assumes "sched_inv env s" and "s_inflight s = []" and "\<not> s_barrier s"
  shows "pick_inv env (s_dags s) []"
  using assms by (simp add: sched_inv_def pick_inv_def)

lemma picked_land:
  assumes inv: "sched_inv env s" and pk: "pick_inv env ds out" and sh: "same_graphs (s_dags s) ds"
    and t: "s_dags t = ds" "s_inflight t = out" "s_dag_seq t = s_dag_seq s"
  shows "land_inv env t"
  using inv pk same_graphs_length [OF sh] same_graphs_id [OF sh] t
  by (simp add: sched_inv_def pick_inv_def land_inv_def)

lemma run_batch_begin_inv:
  assumes inv: "sched_inv env s" and idle: "s_inflight s = []" "\<not> s_barrier s" and par: "s_parallel s"
  shows "sched_inv env (run_batch_begin now s)"
proof -
  obtain ds batch where c: "sched_dag_collect_ready_batch now (s_dags s) (s_dag_batch_size s) = (ds, batch)"
    by fastforce
  note pk = collect_fold [OF c [unfolded sched_dag_collect_ready_batch_def] pick_inv_idle [OF inv idle]]
  have "pick_inv env ds batch \<and> same_graphs (s_dags s) ds"
    by (rule pk) (simp add: all_positions_range)
  then have "land_inv env (s\<lparr>s_dags := ds, s_batch_pending := length batch, s_inflight := batch,
      s_barrier := True\<rparr>)"
    by (intro picked_land [OF inv]) auto
  with inv c par show ?thesis by (simp add: run_batch_begin_def sched_inv_land)
qed

lemma run_one_begin_inv:
  assumes inv: "sched_inv env s" and idle: "s_inflight s = []" "\<not> s_barrier s" and ser: "\<not> s_parallel s"
  shows "sched_inv env (run_one_begin now s)"
proof (cases "sched_dag_find_ready now (s_dags s)")
  case None
  with inv show ?thesis by (simp add: run_one_begin_def)
next
  case (Some p)
  obtain i j where p: "p = (i, j)" by fastforce
  from find_ready_Some [OF Some [unfolded p]] have i: "i < length (s_dags s)"
    and rd: "dag_ready_idx now (s_dags s ! i) = Some j" by auto
  note rr = dag_ready_idx_Some [OF rd]
  have pk: "pick_inv env (start_at now (s_dags s) p) [p] \<and> same_graphs (s_dags s) (start_at now (s_dags s) p)"
    using start_at_pick [OF pick_inv_idle [OF inv idle], of p now] rr i p by (simp add: in_range_def)
  then have "land_inv env (s\<lparr>s_dags := start_at now (s_dags s) p, s_inflight := [p]\<rparr>)"
    by (intro picked_land [OF inv]) auto
  with Some idle ser pk show ?thesis by (simp add: run_one_begin_def sched_inv_land pick_inv_def)
qed

lemma sched_step_inv: "sched_inv env s \<Longrightarrow> sched_inv env (sched_step env s e)"
  by (cases e) (simp_all add: submit_inv cancel_inv run_batch_begin_inv run_one_begin_inv
      batch_worker_inv run_one_end_inv fail_node_inv run_batch_end_inv)

interpretation sch: inv_machine "sched_step env" "sched_inv env" for env :: "'j sched_env"
  by unfold_locales (rule sched_step_inv)

lemma sched_create_inv: "sched_inv env (sched_service_create ex ok mp bs fc)"
  by (simp add: sched_service_create_def sched_inv_def running_at_def)

end
