(* ===== verification/Sched_Spec.thy ===== *)
theory Sched_Spec
  imports Sched_Work
begin

text \<open>
  sched_d, blueprint graphs: the properties of whole runs. How often a node can be dispatched,
  that the worker never blocks while a graph still has work, that graph ids identify graphs, and
  the properties of single engine functions restated over the source's definitions.
\<close>

section \<open>How often a node is dispatched\<close>

text \<open>
  The dispatches a node has used up: its retry count, plus the current or last attempt once it is
  no longer pending. Every step raises this by at least one when it starts the node.
\<close>

definition used :: "sched_dag_node \<Rightarrow> nat" where
  "used n = unat (n_retry_count n) + (if n_status n = NODE_PENDING then 0 else 1)"

definition used_le :: "sched_dag_node \<Rightarrow> sched_dag_node \<Rightarrow> bool" where
  "used_le n n' \<longleftrightarrow> node_layout n' = node_layout n \<and> used n \<le> used n' \<and>
     (n_status n' = NODE_RUNNING \<and> n_status n \<noteq> NODE_RUNNING \<longrightarrow> used n < used n')"

definition ds_used :: "sched_dag list \<Rightarrow> sched_dag list \<Rightarrow> bool" where
  "ds_used ds ds' \<longleftrightarrow> length ds \<le> length ds' \<and>
     (\<forall>i<length ds. length (d_nodes (ds' ! i)) = length (d_nodes (ds ! i)) \<and>
        (\<forall>k<length (d_nodes (ds ! i)). used_le (d_nodes (ds ! i) ! k) (d_nodes (ds' ! i) ! k)))"

lemma used_le_refl [simp]: "used_le n n"
  by (simp add: used_le_def)

lemma used_le_trans: "used_le a b \<Longrightarrow> used_le b c \<Longrightarrow> used_le a c"
  by (auto simp: used_le_def)

lemma ds_used_refl [simp]: "ds_used ds ds"
  by (simp add: ds_used_def)

lemma ds_used_trans: "ds_used a b \<Longrightarrow> ds_used b c \<Longrightarrow> ds_used a c"
proof -
  assume ab: "ds_used a b" and bc: "ds_used b c"
  have len: "length a \<le> length b" "length b \<le> length c"
    using ab bc by (simp_all add: ds_used_def)
  have "length (d_nodes (c ! i)) = length (d_nodes (a ! i)) \<and>
      (\<forall>k<length (d_nodes (a ! i)). used_le (d_nodes (a ! i) ! k) (d_nodes (c ! i) ! k))"
    if i: "i < length a" for i
  proof -
    have l: "length (d_nodes (b ! i)) = length (d_nodes (a ! i))"
      "length (d_nodes (c ! i)) = length (d_nodes (b ! i))"
      using ab bc i len by (simp_all add: ds_used_def)
    have "used_le (d_nodes (a ! i) ! k) (d_nodes (c ! i) ! k)" if k: "k < length (d_nodes (a ! i))" for k
    proof (rule used_le_trans)
      show "used_le (d_nodes (a ! i) ! k) (d_nodes (b ! i) ! k)" using ab i k by (simp add: ds_used_def)
      show "used_le (d_nodes (b ! i) ! k) (d_nodes (c ! i) ! k)"
        using bc i k l len by (simp add: ds_used_def)
    qed
    with l show ?thesis by simp
  qed
  with len show ?thesis by (simp add: ds_used_def)
qed

lemma ds_used_update:
  assumes "length (d_nodes d') = length (d_nodes (ds ! i))"
    and "\<And>k. k < length (d_nodes (ds ! i)) \<Longrightarrow> used_le (d_nodes (ds ! i) ! k) (d_nodes d' ! k)"
  shows "ds_used ds (ds[i := d'])"
proof (cases "i < length ds")
  case True
  then show ?thesis using assms by (auto simp: ds_used_def nth_list_update)
next
  case False
  then show ?thesis by (simp add: list_update_beyond not_less)
qed

lemma used_final [simp]: "used_le n (node_final now NODE_CANCELED n)"
  by (simp add: used_le_def used_def node_final_def node_layout_def)

lemma start_at_used:
  assumes "n_status (d_nodes (ds ! i) ! j) = NODE_PENDING"
  shows "ds_used ds (start_at now ds (i, j))"
  unfolding start_at_def prod.case
proof (rule ds_used_update)
  fix k assume "k < length (d_nodes (ds ! i))"
  with assms show "used_le (d_nodes (ds ! i) ! k)
      (d_nodes (set_node (ds ! i) j (start_node now (d_nodes (ds ! i) ! j))) ! k)"
    by (cases "k = j") (auto simp: used_le_def used_def start_node_def node_layout_def)
qed simp

lemma node_ready_pending:
  "0 < sched_dag_node_ready now ns j \<Longrightarrow> n_status (ns ! j) = NODE_PENDING"
  by (simp add: sched_dag_node_ready_def Let_def split: if_splits)

lemma collect_used:
  assumes "foldl (collect_one now mx) (ds, out) ps = (ds', out')"
  shows "ds_used ds ds'"
  using assms
proof (induction ps arbitrary: ds out)
  case Nil
  then show ?case by simp
next
  case (Cons p ps)
  obtain i j where p: "p = (i, j)" by fastforce
  show ?case
  proof (cases "length out < mx \<and> d_status (ds ! i) = DAG_ACTIVE \<and>
      0 < sched_dag_node_ready now (d_nodes (ds ! i)) j")
    case True
    have run: "foldl (collect_one now mx) (start_at now ds p, out @ [p]) ps = (ds', out')"
      using Cons.prems True by (simp add: p collect_one_def [of now mx "(ds, out)" "(i, j)"])
    have "ds_used ds (start_at now ds p)"
      unfolding p using True by (intro start_at_used) (auto dest: node_ready_pending)
    with Cons.IH [OF run] show ?thesis by (auto intro: ds_used_trans)
  next
    case False
    have run: "foldl (collect_one now mx) (ds, out) ps = (ds', out')"
      using Cons.prems False by (auto simp: p collect_one_def [of now mx "(ds, out)" "(i, j)"])
    from Cons.IH [OF run] show ?thesis .
  qed
qed

lemma rests_used:
  assumes "rests n m" and "n_status n = NODE_RUNNING"
  shows "used_le n m"
proof -
  have "unat (n_retry_count n + 1) = unat (n_retry_count n) + 1"
    if "n_retry_count n < n_max_retries n"
    using that by unat_arith
  with assms show ?thesis by (auto simp: rests_def used_le_def used_def split: if_splits)
qed

lemma write_back_used:
  assumes "j < length (d_nodes d)" and "n_status (d_nodes d ! j) = NODE_RUNNING"
    and "k < length (d_nodes d)"
    and "d' = fst (sched_dag_write_back_node env fc now d j dret out)"
  shows "used_le (d_nodes d ! k) (d_nodes d' ! k) \<and> length (d_nodes d') = length (d_nodes d)"
  using write_back_shape [OF assms(4)] assms(1-3)
  by (auto simp: dag_abort_def Let_def nth_list_update rests_used used_le_def [of _ "_ \<lparr>n_status := _\<rparr>"]
      used_def)

lemma write_back_at_used:
  assumes "sched_inv env s" and "p \<in> set (s_inflight s)"
  shows "ds_used (s_dags s) (s_dags (write_back_at env now s p r))"
proof -
  obtain i j where p: "p = (i, j)" by fastforce
  note rg = inflight_range [OF assms(1) assms(2) [unfolded p]]
  let ?d' = "fst (sched_dag_write_back_node env (s_dag_fatal_cascade s) now (s_dags s ! i) j
      (fst (exec_result s r)) (snd (exec_result s r)))"
  have wb: "used_le (d_nodes (s_dags s ! i) ! k) (d_nodes ?d' ! k) \<and>
      length (d_nodes ?d') = length (d_nodes (s_dags s ! i))"
    if "k < length (d_nodes (s_dags s ! i))" for k
    by (rule write_back_used [where j = j]) (use rg that in auto)
  have "ds_used (s_dags s) ((s_dags s)[i := ?d'])"
    by (rule ds_used_update) (use wb [of j] wb rg in auto)
  then show ?thesis by (simp add: write_back_at_def p)
qed

lemma propagate_used: "ds_used ds (converge now ds)"
  unfolding ds_used_def
proof (intro conjI allI impI)
  show "length ds \<le> length (converge now ds)" by simp
next
  fix i assume i: "i < length ds"
  have f: "d_nodes (converge now ds ! i) = d_nodes (sched_dag_propagate_unreachable now ds ! i)"
    using i by (simp add: sched_dag_finalize_terminal_def finalize_dag_def)
  have rel: "dag_prop_rel now (ds ! i) (sched_dag_propagate_unreachable now ds ! i)"
    using propagate_nth [OF i] by simp
  then show "length (d_nodes (converge now ds ! i)) = length (d_nodes (ds ! i))"
    unfolding f by (auto simp: dag_prop_rel_def prop_rel_def)
  fix k assume "k < length (d_nodes (ds ! i))"
  with rel show "used_le (d_nodes (ds ! i) ! k) (d_nodes (converge now ds ! i) ! k)"
    unfolding f by (auto simp: dag_prop_rel_def prop_rel_def)
qed

lemma fail_node_used:
  assumes "sched_inv env s" and "p \<in> set (s_inflight s)"
  shows "ds_used (s_dags s) (s_dags (sched_dag_fail_node now s p msg))"
proof -
  obtain i j where p: "p = (i, j)" by fastforce
  note rg = inflight_range [OF assms(1) assms(2) [unfolded p]]
  show ?thesis unfolding sched_dag_fail_node_def p prod.case
    by simp (rule ds_used_update, use rg in
      \<open>auto simp: nth_list_update used_le_def used_def node_layout_def\<close>)
qed

lemma cancel_used: "ds_used (s_dags s) (s_dags (fst (sched_service_cancel_dag now s i)))"
proof -
  have "ds_used ds (ds[k := cancel_dag now (ds ! k)])" for ds k
    by (rule ds_used_update)
      (auto simp: cancel_dag_def cancel_node_def used_le_def used_def node_layout_def)
  then show ?thesis
    by (simp add: sched_service_cancel_dag_def Let_def split: option.split)
qed

lemma submit_used: "ds_used (s_dags s) (s_dags (fst (sched_service_submit_dag env secs now s j)))"
  by (auto simp: sched_service_submit_dag_def Let_def ds_used_def nth_append
      split: option.split sum.split)

lemma sched_step_used:
  assumes inv: "sched_inv env s"
  shows "ds_used (s_dags s) (s_dags (sched_step env s e))"
proof (cases e)
  case (EvDispatch now)
  have "ds_used (s_dags s) (s_dags (run_batch_begin now s))"
    using collect_used [of now "s_dag_batch_size s" "s_dags s" "[]" "all_positions (s_dags s)"]
    by (auto simp: run_batch_begin_def sched_dag_collect_ready_batch_def split: prod.split)
  moreover have "ds_used (s_dags s) (s_dags (run_one_begin now s))"
  proof (cases "sched_dag_find_ready now (s_dags s)")
    case (Some p)
    obtain i j where p: "p = (i, j)" by fastforce
    have "n_status (d_nodes (s_dags s ! i) ! j) = NODE_PENDING"
      using find_ready_Some [OF Some [unfolded p]] dag_ready_idx_Some node_ready_pending by blast
    with Some p show ?thesis by (simp add: run_one_begin_def start_at_used)
  qed (simp add: run_one_begin_def)
  ultimately show ?thesis using EvDispatch by simp
next
  case (EvLand p r now)
  then show ?thesis
    using write_back_at_used [OF inv, of p now r] propagate_used
    by (auto simp: sched_dag_batch_worker_def run_one_end_def Let_def intro: ds_used_trans)
qed (use fail_node_used [OF inv] propagate_used cancel_used submit_used in
    \<open>auto simp: run_batch_end_def\<close>)

definition node_at :: "sched_service \<Rightarrow> nat \<times> nat \<Rightarrow> sched_dag_node" where
  "node_at s p = d_nodes (s_dags s ! fst p) ! snd p"

text \<open>Whether a step hands node \<open>p\<close> to the executor.\<close>

definition dispatches ::
  "'j sched_env \<Rightarrow> nat \<times> nat \<Rightarrow> sched_service \<Rightarrow> sched_ev \<Rightarrow> nat" where
  "dispatches env p s e =
     (if p \<notin> set (s_inflight s) \<and> p \<in> set (s_inflight (sched_step env s e)) then 1 else 0)"

definition track_inv ::
  "'j sched_env \<Rightarrow> nat \<times> nat \<Rightarrow> 32 word \<Rightarrow> sched_service \<Rightarrow> bool" where
  "track_inv env p m s \<longleftrightarrow> sched_inv env s \<and> in_range (s_dags s) p \<and> n_max_retries (node_at s p) = m"

lemma inflight_iff:
  assumes "sched_inv env s" and "in_range (s_dags s) p"
  shows "p \<in> set (s_inflight s) \<longleftrightarrow> n_status (node_at s p) = NODE_RUNNING"
  using assms by (cases p) (simp add: sched_inv_def running_at_def in_range_def node_at_def)

lemma track_step:
  assumes "track_inv env p m s"
  shows "track_inv env p m (sched_step env s e) \<and>
    used_le (node_at s p) (node_at (sched_step env s e) p)"
proof -
  have inv: "sched_inv env s" and rg: "in_range (s_dags s) p" using assms by (auto simp: track_inv_def)
  have u: "used_le (node_at s p) (node_at (sched_step env s e) p)"
    and rg': "in_range (s_dags (sched_step env s e)) p"
    using sched_step_used [OF inv, of e] rg by (auto simp: ds_used_def in_range_def node_at_def)
  from u have "n_max_retries (node_at (sched_step env s e) p) = n_max_retries (node_at s p)"
    by (simp add: used_le_def node_layout_def)
  with assms u rg' sched_step_inv [OF inv] show ?thesis by (simp add: track_inv_def)
qed

interpretation disp: potential_machine "sched_step env" "\<lambda>_. True" "track_inv env p m"
  "dispatches env p" "\<lambda>s. used (node_at s p)" "unat m + 1"
  for env :: "'j sched_env" and p :: "nat \<times> nat" and m :: "32 word"
proof
  fix s e assume t: "track_inv env p m s"
  show "track_inv env p m (sched_step env s e)" using track_step [OF t] by simp
  have inv: "sched_inv env s" and rg: "in_range (s_dags s) p" using t by (auto simp: track_inv_def)
  have "node_ok env (node_at s p)"
    using inv rg by (auto simp: sched_inv_def dag_inv_def in_range_def node_at_def)
  then have "n_retry_count (node_at s p) \<le> m" using t by (simp add: node_ok_def track_inv_def)
  then show "used (node_at s p) \<le> unat m + 1" by (simp add: used_def word_le_nat_alt)
  have "track_inv env p m (sched_step env s e)" using track_step [OF t] by simp
  then have "p \<in> set (s_inflight (sched_step env s e)) \<longleftrightarrow>
      n_status (node_at (sched_step env s e) p) = NODE_RUNNING"
    by (intro inflight_iff) (auto simp: track_inv_def)
  with track_step [OF t, of e] inflight_iff [OF inv rg]
  show "used (node_at s p) + dispatches env p s e \<le> used (node_at (sched_step env s e) p)"
    by (auto simp: dispatches_def used_le_def)
qed

section \<open>Graph ids\<close>

lemma dag_id_of_full:
  assumes "sq \<le> SCHED_DAG_MAX_DAGS"
  shows "dag_id_of secs sq = ''dag_'' @ show_nat (unat secs) @ ''_'' @ show_nat sq"
proof -
  have "unat secs < 2 ^ LENGTH(64)" by (rule unsigned_less)
  then have "unat secs < 10 ^ 20" by simp
  then have "length (show_nat (unat secs)) \<le> 20" by (rule length_show_nat) simp
  moreover have "length (show_nat sq) \<le> 2"
    using assms by (intro length_show_nat) (simp_all add: SCHED_DAG_MAX_DAGS_def)
  ultimately show ?thesis unfolding dag_id_of_def by (intro snprintf_s_id) simp
qed

lemma dag_id_inj:
  assumes "dag_id_of t i = dag_id_of u j" and "i \<le> SCHED_DAG_MAX_DAGS" and "j \<le> SCHED_DAG_MAX_DAGS"
  shows "i = j"
proof -
  have nd: "CHR ''_'' \<notin> set (show_nat n)" for n
    using show_nat_digits [of "CHR ''_''" n] by (auto simp: c_isdigit_def)
  have "show_nat (unat t) @ CHR ''_'' # show_nat i = show_nat (unat u) @ CHR ''_'' # show_nat j"
    using assms by (simp add: dag_id_of_full)
  then have "dropWhile (\<lambda>c. c \<noteq> CHR ''_'') (show_nat (unat t) @ CHR ''_'' # show_nat i) =
      dropWhile (\<lambda>c. c \<noteq> CHR ''_'') (show_nat (unat u) @ CHR ''_'' # show_nat j)" by simp
  moreover have "dropWhile (\<lambda>c. c \<noteq> CHR ''_'') (show_nat m @ CHR ''_'' # show_nat n) = CHR ''_'' # show_nat n"
    for m n using nd [of m] by (subst dropWhile_append2) auto
  ultimately show ?thesis by (auto dest: show_nat_inj)
qed

lemma dag_ids_distinct:
  assumes "sched_inv env s"
  shows "distinct (map d_dag_id (s_dags s))"
  unfolding distinct_conv_nth
proof (intro allI impI)
  fix i j assume "i < length (map d_dag_id (s_dags s))" "j < length (map d_dag_id (s_dags s))"
    and ne: "i \<noteq> j"
  then have ij: "i < length (s_dags s)" "j < length (s_dags s)" by simp_all
  have bnd: "length (s_dags s) \<le> SCHED_DAG_MAX_DAGS" using assms by (simp add: sched_inv_def)
  have "\<forall>i<length (s_dags s). \<exists>t. d_dag_id (s_dags s ! i) = dag_id_of t i"
    using assms by (simp add: sched_inv_def)
  with ij obtain t u
    where "d_dag_id (s_dags s ! i) = dag_id_of t i" "d_dag_id (s_dags s ! j) = dag_id_of u j" by blast
  with ij ne bnd dag_id_inj [of t i u j] show "map d_dag_id (s_dags s) ! i \<noteq> map d_dag_id (s_dags s) ! j"
    by auto
qed

interpretation dg: keyed_table "\<lambda>s. map d_dag_id (s_dags s)" "\<lambda>_. True" sched_find_dag
  by unfold_locales (simp_all add: sched_find_dag_def find_index_map_law)

section \<open>A canceled graph stays as it is\<close>

text \<open>Once a graph is canceled no step starts one of its nodes or gives one an output.\<close>

definition frozen :: "sched_dag \<Rightarrow> sched_dag \<Rightarrow> bool" where
  "frozen d d' \<longleftrightarrow> d_status d' = DAG_CANCELED \<and> length (d_nodes d') = length (d_nodes d) \<and>
     (\<forall>k<length (d_nodes d). n_output (d_nodes d' ! k) = n_output (d_nodes d ! k) \<and>
        (n_status (d_nodes d' ! k) = NODE_RUNNING \<longrightarrow> n_status (d_nodes d ! k) = NODE_RUNNING))"

lemma frozen_refl: "d_status d = DAG_CANCELED \<Longrightarrow> frozen d d"
  by (simp add: frozen_def)

lemma frozen_trans: "frozen a b \<Longrightarrow> frozen b c \<Longrightarrow> frozen a c"
  by (auto simp: frozen_def)

lemma frozen_set_node:
  assumes "d_status d = DAG_CANCELED" and "n_output n = n_output (d_nodes d ! j)"
    and "n_status n \<noteq> NODE_RUNNING"
  shows "frozen d (set_node d j n)"
proof -
  have "n_output ((d_nodes d)[j := n] ! k) = n_output (d_nodes d ! k) \<and>
      (n_status ((d_nodes d)[j := n] ! k) = NODE_RUNNING \<longrightarrow> n_status (d_nodes d ! k) = NODE_RUNNING)"
    if "k < length (d_nodes d)" for k using assms that by (cases "k = j") auto
  with assms(1) show ?thesis by (simp add: frozen_def)
qed

lemma frozen_write_back:
  "d_status d = DAG_CANCELED \<Longrightarrow> frozen d (fst (sched_dag_write_back_node env fc now d j dret out))"
  by (simp add: sched_dag_write_back_node_def Let_def frozen_set_node node_discard_def)

lemma frozen_collect:
  assumes "foldl (collect_one now mx) (ds, out) ps = (ds', out')" and "i < length ds"
    and "d_status (ds ! i) = DAG_CANCELED"
  shows "ds' ! i = ds ! i \<and> length ds' = length ds"
  using assms
proof (induction ps arbitrary: ds out)
  case Nil
  then show ?case by simp
next
  case (Cons p ps)
  let ?r = "collect_one now mx (ds, out) p"
  have "length (fst ?r) = length ds"
    by (simp add: collect_one_def start_at_def split: prod.split)
  moreover have "fst ?r ! i = ds ! i"
    using Cons.prems(2,3) by (cases "fst p = i") (auto simp: collect_one_def start_at_def split: prod.split)
  ultimately show ?case using Cons.IH [of "fst ?r" "snd ?r"] Cons.prems by simp
qed

lemma frozen_converge:
  assumes "i < length ds" and "d_status (ds ! i) = DAG_CANCELED"
  shows "converge now ds ! i = ds ! i"
proof -
  have "sched_dag_propagate_unreachable now ds ! i = ds ! i"
    using propagate_nth [OF assms(1), of now] assms(2) by (simp add: dag_prop_rel_def)
  with assms show ?thesis by (simp add: sched_dag_finalize_terminal_def finalize_dag_def)
qed

lemma frozen_step:
  assumes i: "i < length (s_dags s)" and c: "d_status (s_dags s ! i) = DAG_CANCELED"
  shows "i < length (s_dags (sched_step env s e)) \<and>
    frozen (s_dags s ! i) (s_dags (sched_step env s e) ! i)"
proof -
  have upd: "frozen (s_dags s ! i) ((s_dags s)[k := d'] ! i)" if "k = i \<Longrightarrow> frozen (s_dags s ! i) d'" for k d'
    using i frozen_refl [OF c] that by (cases "k = i") auto
  have wb: "frozen (s_dags s ! i) (s_dags (write_back_at env now s p r) ! i) \<and>
    length (s_dags (write_back_at env now s p r)) = length (s_dags s)" for now p r
    unfolding write_back_at_def using frozen_write_back [OF c] by (cases p) (auto intro!: upd)
  have conv: "frozen (s_dags s ! i) (converge now (s_dags (write_back_at env now s p r)) ! i)" for now p r
    using wb [of now p r] frozen_converge [of i "s_dags (write_back_at env now s p r)" now] i
    by (auto simp: frozen_def)
  show ?thesis
  proof (cases e)
    case (EvSubmit j secs now)
    then show ?thesis using i c frozen_refl
      by (auto simp: sched_service_submit_dag_def Let_def nth_append split: option.split sum.split)
  next
    case (EvCancel j now)
    then show ?thesis using i c frozen_refl [OF c]
      by (auto simp: sched_service_cancel_dag_def Let_def intro!: upd split: option.split)
  next
    case (EvDispatch now)
    obtain ds b where col: "sched_dag_collect_ready_batch now (s_dags s) (s_dag_batch_size s) = (ds, b)"
      by fastforce
    have "ds ! i = s_dags s ! i \<and> length ds = length (s_dags s)"
      by (rule frozen_collect [OF col [unfolded sched_dag_collect_ready_batch_def] i c])
    moreover have "sched_dag_find_ready now (s_dags s) = Some p \<Longrightarrow> fst p \<noteq> i" for p
      using find_ready_Some [of now "s_dags s" "fst p" "snd p"] dag_ready_idx_Some c by auto
    ultimately show ?thesis
      using EvDispatch i c frozen_refl col
      by (auto simp: run_batch_begin_def run_one_begin_def start_at_def split: option.split)
  next
    case (EvLand p r now)
    then show ?thesis using i c frozen_refl wb [of now p r] conv [of now p r]
      by (auto simp: sched_dag_batch_worker_def run_one_end_def Let_def)
  next
    case (EvAllocFail p now)
    then show ?thesis using i c frozen_refl
      by (cases p) (auto simp: sched_dag_fail_node_def intro!: upd frozen_set_node)
  next
    case (EvBarrier now)
    then show ?thesis using i c frozen_refl frozen_converge by (simp add: run_batch_end_def)
  qed
qed

lemma frozen_run:
  assumes "i < length (s_dags s)" and "d_status (s_dags s ! i) = DAG_CANCELED"
  shows "i < length (s_dags (foldl (sched_step env) s es)) \<and>
    frozen (s_dags s ! i) (s_dags (foldl (sched_step env) s es) ! i)"
  using assms
proof (induction es arbitrary: s)
  case Nil
  then show ?case by (simp add: frozen_refl)
next
  case (Cons e es)
  note st = frozen_step [OF Cons.prems, of env e]
  then have "i < length (s_dags (sched_step env s e))"
    "d_status (s_dags (sched_step env s e) ! i) = DAG_CANCELED" by (simp_all add: frozen_def)
  from Cons.IH [OF this] st show ?case by (auto intro: frozen_trans)
qed

section \<open>Properties of whole runs\<close>

text \<open>
  A concrete run: a service with an executor and the serial path takes the two-node chain
  \<open>a\<close>, \<open>b\<close> and the executor answers for \<open>a\<close>.
\<close>

definition example_svc :: sched_service where
  "example_svc = sched_service_create True False 0 0 True"

definition example_run :: "sched_ev list" where
  "example_run = [EvSubmit ''chain'' 7 100, EvDispatch 110,
     EvLand (0, 0) (AIRY_SUCCESS, Some ''out'') 120, EvDispatch 130]"

definition example_done :: sched_dag_node where
  "example_done = calloc_node ''a''\<lparr>n_role := ''coding'', n_status := NODE_COMPLETED,
     n_output := Some ''out'', n_started_at_ms := 110, n_finished_at_ms := 120\<rparr>"

definition example_next :: "sched_dag_node_status \<Rightarrow> sched_dag_node" where
  "example_next st = calloc_node ''b''\<lparr>n_role := ''coding'', n_depends := [''a''], n_status := st,
     n_started_at_ms := (if st = NODE_PENDING then 0 else 130)\<rparr>"

definition example_dag :: "sched_dag_node list \<Rightarrow> sched_dag" where
  "example_dag ns = \<lparr>d_dag_id = ''dag_7_0'', d_name = ''unnamed_dag'', d_input = [],
     d_workspace_dir = [], d_nodes = ns, d_status = DAG_ACTIVE, d_created_at_ms = 100,
     d_finished_at_ms = 0, d_retry_budget_ms = 0\<rparr>"

definition example_at :: "sched_dag_node list \<Rightarrow> (nat \<times> nat) list \<Rightarrow> sched_service" where
  "example_at ns fl = example_svc\<lparr>s_dags := [example_dag ns], s_dag_seq := 1, s_inflight := fl\<rparr>"

lemmas example_svc_eval = example_svc_def sched_service_create_def example_at_def
lemmas example_node_eval = example_done_def example_next_def calloc_node_def

lemma show_nat_small: "n < 10 \<Longrightarrow> show_nat n = [hex_digit n]"
  by (simp add: show_nat_def show_base.simps [of 10 n])

lemma example_id: "dag_id_of 7 0 = ''dag_7_0''"
  by (simp add: dag_id_of_def snprintf_s_def show_nat_small hex_digit_def char_of_def bit_0)

lemma example_build:
  "sched_dag_validate_and_build example_env (XObj [(''nodes'', XArr [XObj [(''id'', XStr ''a'')],
     XObj [(''id'', XStr ''b''), (''depends'', XArr [XStr ''a''])]])]) =
   Inr (example_dag [calloc_node ''a''\<lparr>n_role := ''coding''\<rparr>, example_next NODE_PENDING]
     \<lparr>d_dag_id := [], d_created_at_ms := 0\<rparr>)"
proof -
  let ?ns = "[calloc_node ''a''\<lparr>n_role := ''coding''\<rparr>, example_next NODE_PENDING]"
  have "build_nodes example_env [XObj [(''id'', XStr ''a'')],
      XObj [(''id'', XStr ''b''), (''depends'', XArr [XStr ''a''])]] [] = Inr ?ns"
    by (simp add: build_eval example_node_eval)
  moreover have "sched_dag_validate_deps ?ns = AIRY_SUCCESS"
    by (simp add: build_eval example_node_eval)
  moreover have "sched_dag_detect_cycle ?ns = AIRY_SUCCESS"
    by (simp add: cycle_eval example_node_eval)
  ultimately show ?thesis
    by (simp add: sched_dag_validate_and_build_def example_env_def SCHED_DAG_MAX_NODES_def
        str_field_def pos_field_def example_dag_def)
qed

lemma example_parse:
  "js_parse example_env ''chain'' = Some (XObj [(''nodes'', XArr [XObj [(''id'', XStr ''a'')],
     XObj [(''id'', XStr ''b''), (''depends'', XArr [XStr ''a''])]])])"
  by (simp add: example_env_def)

lemma example_submit:
  "sched_step example_env example_svc (EvSubmit ''chain'' 7 100) =
     example_at [calloc_node ''a''\<lparr>n_role := ''coding''\<rparr>, example_next NODE_PENDING] []"
  by (simp add: sched_service_submit_dag_def example_parse example_build example_id example_svc_eval
      SCHED_DAG_MAX_DAGS_def Let_def example_dag_def)

lemma propagate_still:
  "\<not> snd (prop_sweep now ds) \<Longrightarrow> sched_dag_propagate_unreachable now ds = fst (prop_sweep now ds)"
  by (simp add: sched_dag_propagate_unreachable.simps [of now ds] case_prod_beta)

lemmas ready_eval = sched_dag_find_ready_def dag_ready_idx_def sched_dag_node_ready_def
  sched_dag_find_node_def find_id_def sched_dag_dep_broken_def start_at_def start_node_def set_node_def

lemma example_dispatch_a:
  "sched_step example_env
     (example_at [calloc_node ''a''\<lparr>n_role := ''coding''\<rparr>, example_next NODE_PENDING] []) (EvDispatch 110) =
   example_at [calloc_node ''a''\<lparr>n_role := ''coding'', n_status := NODE_RUNNING, n_started_at_ms := 110\<rparr>,
     example_next NODE_PENDING] [(0, 0)]"
  by (simp add: example_svc_eval run_one_begin_def ready_eval example_dag_def example_node_eval
      upt_rec [of _ 2] upt_rec [of _ "Suc _"])

lemma example_land_a:
  "sched_step example_env
     (example_at [calloc_node ''a''\<lparr>n_role := ''coding'', n_status := NODE_RUNNING, n_started_at_ms := 110\<rparr>,
        example_next NODE_PENDING] [(0, 0)]) (EvLand (0, 0) (AIRY_SUCCESS, Some ''out'') 120) =
   example_at [example_done, example_next NODE_PENDING] []"
proof -
  have "\<not> snd (prop_sweep 120 [example_dag [example_done, example_next NODE_PENDING]]) \<and>
      fst (prop_sweep 120 [example_dag [example_done, example_next NODE_PENDING]]) =
        [example_dag [example_done, example_next NODE_PENDING]]"
    by (simp add: prop_sweep_def prop_dag_def prop_node_def unreachable_node_def example_dag_def
        example_node_eval ready_eval upt_rec [of _ 2] upt_rec [of _ "Suc _"])
  then have "converge 120 [example_dag [example_done, example_next NODE_PENDING]] =
      [example_dag [example_done, example_next NODE_PENDING]]"
    by (simp add: propagate_still sched_dag_finalize_terminal_def finalize_dag_def
        sched_dag_all_terminal_def example_dag_def example_node_eval sched_dag_node_done_def)
  moreover have "write_back_at example_env 120
      (example_at [calloc_node ''a''\<lparr>n_role := ''coding'', n_status := NODE_RUNNING, n_started_at_ms := 110\<rparr>,
        example_next NODE_PENDING] [(0, 0)]) (0, 0) (AIRY_SUCCESS, Some ''out'') =
      example_at [example_done, example_next NODE_PENDING] []"
    by (simp add: write_back_at_def example_svc_eval exec_result_def sched_dag_write_back_node_def
        node_succeed_def sched_dag_has_output_def node_verify_def example_dag_def example_node_eval
        set_node_def node_final_def node_err_set_def chr_tab_def chr_nl_def chr_cr_def)
  ultimately show ?thesis by (simp add: run_one_end_def Let_def example_svc_eval)
qed

lemma example_dispatch_b:
  "sched_step example_env (example_at [example_done, example_next NODE_PENDING] []) (EvDispatch 130) =
   example_at [example_done, example_next NODE_RUNNING] [(0, 1)]"
  by (simp add: example_svc_eval run_one_begin_def ready_eval example_dag_def example_node_eval
      upt_rec [of _ 2] upt_rec [of _ "Suc _"])

lemma example_run_state:
  "foldl (sched_step example_env) (sched_service_create True False 0 0 True) example_run =
     example_at [example_done, example_next NODE_RUNNING] [(0, 1)]"
  unfolding example_run_def example_svc_def [symmetric]
  by (simp only: foldl.simps example_submit example_dispatch_a example_land_a example_dispatch_b)

lemma run_sched_inv: "sched_inv env (foldl (sched_step env) (sched_service_create ex ok mp bs fc) es)"
  by (rule sch.run_inv) (rule sched_create_inv)

lemma run_dag_inv:
  assumes "d \<in> set (s_dags (foldl (sched_step env) (sched_service_create ex ok mp bs fc) es))"
  shows "dag_inv env d"
  using assms run_sched_inv [of env ex ok mp bs fc es] by (auto simp: sched_inv_def)

text \<open>
  C1. Blueprint nodes run in dependency order. After any sequence of submissions, cancellations,
  dispatches and results, serial or batched, a node that has been handed to the executor (and is
  running, completed or failed) has only dependencies that are COMPLETED, and each of those
  carries an output that is not blank and that its declared validator accepts.
\<close>

theorem dag_execution_order:
  assumes "d \<in> set (s_dags (foldl (sched_step env) (sched_service_create ex ok mp bs fc) es))"
    and "(k, i) \<in> dep_rel (d_nodes d)" and "started (n_status (d_nodes d ! i))"
  shows "n_status (d_nodes d ! k) = NODE_COMPLETED \<and>
    sched_dag_has_output (n_output (d_nodes d ! k)) \<and>
    node_verify env (d_nodes d ! k) (the (n_output (d_nodes d ! k)))"
proof -
  note inv = run_dag_inv [OF assms(1)]
  then have st: "n_status (d_nodes d ! k) = NODE_COMPLETED"
    using assms(2,3) by (auto simp: dag_inv_def ordered_def)
  have "node_ok env (d_nodes d ! k)" using inv dep_rel_bounds [OF assms(2)] by (simp add: dag_inv_def)
  with st show ?thesis by (simp add: node_ok_def)
qed

lemma example_dep: "(0, 1) \<in> dep_rel [example_done, example_next st]"
  by (simp add: dep_rel_def example_node_eval find_id_def)

theorem dag_execution_order_witness:
  "started (n_status (example_next NODE_RUNNING)) \<and> n_status example_done = NODE_COMPLETED \<and>
   sched_dag_has_output (n_output example_done)"
  using dag_execution_order [of "example_dag [example_done, example_next NODE_RUNNING]" example_env
      True False 0 0 True example_run 0 1]
  by (simp only: example_run_state)
    (simp add: example_at_def example_dag_def example_dep [simplified] started_def,
     simp add: example_next_def)

lemma example_cancel:
  "sched_step example_env
     (example_at [calloc_node ''a''\<lparr>n_role := ''coding''\<rparr>, example_next NODE_PENDING] []) (EvCancel ''dag_7_0'' 105) =
   example_svc\<lparr>s_dags := [cancel_dag 105 (example_dag
      [calloc_node ''a''\<lparr>n_role := ''coding''\<rparr>, example_next NODE_PENDING])], s_dag_seq := 1\<rparr>"
  by (simp add: sched_service_cancel_dag_def example_svc_eval sched_find_dag_def example_dag_def Let_def)

lemma example_cancel_state:
  "foldl (sched_step example_env) (sched_service_create True False 0 0 True)
     [EvSubmit ''chain'' 7 100, EvCancel ''dag_7_0'' 105] =
   example_svc\<lparr>s_dags := [cancel_dag 105 (example_dag
      [calloc_node ''a''\<lparr>n_role := ''coding''\<rparr>, example_next NODE_PENDING])], s_dag_seq := 1\<rparr>"
  unfolding example_svc_def [symmetric]
  by (simp only: foldl.simps example_submit example_cancel)

text \<open>
  C6. The verdict of a graph means what it says. COMPLETED: every node completed with an
  artifact. SEMANTIC_FAILED: every node is terminal, none hard-failed and at least one finished
  without an artifact. FAILED: some node failed and none waits. CANCELED: none waits. In
  particular a graph in which a node was canceled for a failed dependency is never reported
  COMPLETED.
\<close>

theorem dag_verdict_sound:
  assumes "d \<in> set (s_dags (foldl (sched_step env) (sched_service_create ex ok mp bs fc) es))"
  shows "case d_status d of
      DAG_ACTIVE \<Rightarrow> True
    | DAG_COMPLETED \<Rightarrow> \<forall>n\<in>set (d_nodes d). n_status n = NODE_COMPLETED \<and> sched_dag_has_output (n_output n)
    | DAG_SEMANTIC_FAILED \<Rightarrow>
        (\<forall>n\<in>set (d_nodes d). sched_dag_node_done (n_status n) \<and> n_status n \<noteq> NODE_FAILED) \<and>
        (\<exists>n\<in>set (d_nodes d). n_status n = NODE_SEMANTIC_FAILED)
    | DAG_FAILED \<Rightarrow> (\<exists>n\<in>set (d_nodes d). n_status n = NODE_FAILED) \<and>
        (\<forall>n\<in>set (d_nodes d). n_status n \<noteq> NODE_PENDING)
    | DAG_CANCELED \<Rightarrow> \<forall>n\<in>set (d_nodes d). n_status n \<noteq> NODE_PENDING"
proof -
  note inv = run_dag_inv [OF assms]
  have nok: "node_ok env (d_nodes d ! i)" if "i < length (d_nodes d)" for i
    using inv that by (simp add: dag_inv_def)
  have st: "status_ok d" using inv by (simp add: dag_inv_def)
  have comp: "sched_dag_has_output (n_output n)"
    if "n \<in> set (d_nodes d)" "n_status n = NODE_COMPLETED" for n
    using nok that by (auto simp: in_set_conv_nth node_ok_def)
  show ?thesis
  proof (cases "d_status d")
    case DAG_COMPLETED
    with st have "\<forall>n\<in>set (d_nodes d). n_status n = NODE_COMPLETED"
      by (auto simp: status_ok_def in_set_conv_nth)
    with comp DAG_COMPLETED show ?thesis by simp
  next
    case DAG_SEMANTIC_FAILED
    with st show ?thesis by (fastforce simp: status_ok_def in_set_conv_nth)
  next
    case DAG_FAILED
    with st show ?thesis by (fastforce simp: status_ok_def no_waiting_def in_set_conv_nth)
  next
    case DAG_CANCELED
    with st show ?thesis by (auto simp: status_ok_def no_waiting_def in_set_conv_nth)
  qed simp
qed

theorem dag_verdict_sound_witness:
  "list_all (\<lambda>n. n_status n \<noteq> NODE_PENDING)
     (d_nodes (cancel_dag 105 (example_dag [calloc_node ''a''\<lparr>n_role := ''coding''\<rparr>,
        example_next NODE_PENDING])))"
  using dag_verdict_sound [of "cancel_dag 105 (example_dag [calloc_node ''a''\<lparr>n_role := ''coding''\<rparr>,
      example_next NODE_PENDING])" example_env True False 0 0 True
      "[EvSubmit ''chain'' 7 100, EvCancel ''dag_7_0'' 105]"]
  unfolding list_all_iff by (simp only: example_cancel_state) (simp add: cancel_dag_def)

lemma find_ready_at_None:
  "find_ready_at rc ds = None \<longleftrightarrow>
     (\<forall>i<length ds. d_status (ds ! i) = DAG_ACTIVE \<longrightarrow>
        (\<forall>j<length (d_nodes (ds ! i)). \<not> 0 < sched_dag_node_ready (rc i j) (d_nodes (ds ! i)) j))"
proof -
  have "find_ready_at rc ds = None \<longleftrightarrow> (\<forall>i<length ds. dag_ready_at rc i (ds ! i) = None)"
    by (auto simp: find_ready_at_def find_index_None find_index_Some_iff split: option.splits)
  also have "\<dots> \<longleftrightarrow> (\<forall>i<length ds. d_status (ds ! i) = DAG_ACTIVE \<longrightarrow>
      (\<forall>j<length (d_nodes (ds ! i)). \<not> 0 < sched_dag_node_ready (rc i j) (d_nodes (ds ! i)) j))"
    by (auto simp: dag_ready_at_def find_index_None)
  finally show ?thesis .
qed

lemma find_ready_at_const: "find_ready_at (\<lambda>_ _. now) ds = None \<longleftrightarrow> sched_dag_find_ready now ds = None"
  unfolding find_ready_at_None find_ready_None dag_ready_idx_None all_set_conv_all_nth ..

text \<open>
  C3. The worker never blocks for good while there is work, but for one race. Suppose it holds
  nothing and \<open>sched_dag_wait_ready\<close> decides to sleep on the condition variable without a timeout
  in a reachable state. Then every graph that is still active has a pending node, all of whose
  dependencies are complete, whose backoff ended just between its readiness test (which read the
  clock before the end) and the clock read of \<open>sched_dag_min_retry_at\<close> (which was not before the
  end). If no backoff ends between these reads, no graph is active.
\<close>

theorem dag_worker_no_deadlock:
  assumes s: "s = foldl (sched_step env) (sched_service_create ex ok mp bs fc) es"
    and idle: "s_inflight s = []" "\<not> s_barrier s"
    and sleep: "sched_dag_wait_ready dag_run rc mc tc (s_dags s) = DwSleep"
    and i: "i < length (s_dags s)" and act: "d_status (s_dags s ! i) = DAG_ACTIVE"
  shows "\<exists>j<length (d_nodes (s_dags s ! i)).
    n_status (d_nodes (s_dags s ! i) ! j) = NODE_PENDING \<and>
    (\<forall>k. (k, j) \<in> dep_rel (d_nodes (s_dags s ! i)) \<longrightarrow>
       n_status (d_nodes (s_dags s ! i) ! k) = NODE_COMPLETED) \<and>
    rc i j < n_retry_at_ms (d_nodes (s_dags s ! i) ! j) \<and>
    n_retry_at_ms (d_nodes (s_dags s ! i) ! j) \<le> mc"
proof -
  let ?d = "s_dags s ! i"
  have d: "?d \<in> set (s_dags s)" using i by simp
  have inv: "sched_inv env s" unfolding s by (rule run_sched_inv)
  have dinv: "dag_inv env ?d" and q: "quiet ?d" using inv idle d by (auto simp: sched_inv_def)
  have gok: "graph_ok (d_nodes ?d)" using dinv by (simp add: dag_inv_def)
  have "running_at (s_dags s) = {}" using inv idle by (simp add: sched_inv_def)
  then have norun: "\<forall>k<length (d_nodes ?d). n_status (d_nodes ?d ! k) \<noteq> NODE_RUNNING"
    using i by (auto simp: running_at_def)
  obtain j where j: "j < length (d_nodes ?d)" "n_status (d_nodes ?d ! j) = NODE_PENDING"
    and dep: "\<forall>k. (k, j) \<in> dep_rel (d_nodes ?d) \<longrightarrow> n_status (d_nodes ?d ! k) = NODE_COMPLETED"
    using dag_progress [OF dinv act _ norun] q act by (auto simp: quiet_def)
  have none: "find_ready_at rc (s_dags s) = None" and wait: "sched_dag_min_retry_at mc (s_dags s) = 0"
    using sleep by (auto simp: sched_dag_wait_ready_def Let_def split: if_splits)
  have "\<not> 0 < sched_dag_node_ready (rc i j) (d_nodes ?d) j"
    using none i j act by (simp add: find_ready_at_None del: not_gr_zero)
  then have "rc i j < n_retry_at_ms (d_nodes ?d ! j)"
    using node_ready_iff [OF gok j(1)] j(2) dep by (auto simp: not_le)
  moreover have "n_retry_at_ms (d_nodes ?d ! j) \<le> mc"
    using wait d act j by (simp add: min_retry_0)
  ultimately show ?thesis using j dep by blast
qed

text \<open>
  The race is real. A one-node graph whose first run failed with a timeout waits for its retry
  at 1120; its readiness is tested at 1119, the minimum is taken at 1120, and the worker goes to
  sleep without a timeout although the node is ready from then on: only a later submission,
  cancellation or stop wakes it.
\<close>

definition solo_env :: "ex_json sched_env" where
  "solo_env = example_env\<lparr>js_parse := (\<lambda>_. Some (XObj [(''nodes'',
     XArr [XObj [(''id'', XStr ''a''), (''max_retries'', XNum 2)]])]))\<rparr>"

definition solo_node :: sched_dag_node where
  "solo_node = calloc_node ''a''\<lparr>n_role := ''coding'', n_max_retries := 2\<rparr>"

definition solo_wait :: sched_dag_node where
  "solo_wait = solo_node\<lparr>n_started_at_ms := 110, n_retry_count := 1, n_retry_at_ms := 1120,
     n_error := Some ''transient failure, retrying with backoff''\<rparr>"

lemmas solo_eval = solo_env_def solo_node_def solo_wait_def

lemma solo_build:
  "sched_dag_validate_and_build solo_env (XObj [(''nodes'',
     XArr [XObj [(''id'', XStr ''a''), (''max_retries'', XNum 2)]])]) =
   Inr (example_dag [solo_node]\<lparr>d_dag_id := [], d_created_at_ms := 0\<rparr>)"
proof -
  have "build_nodes solo_env [XObj [(''id'', XStr ''a''), (''max_retries'', XNum 2)]] [] = Inr [solo_node]"
    by (simp add: solo_eval build_eval)
  moreover have "sched_dag_validate_deps [solo_node] = AIRY_SUCCESS"
    by (simp add: solo_eval build_eval)
  moreover have "sched_dag_detect_cycle [solo_node] = AIRY_SUCCESS"
    by (simp add: solo_eval cycle_eval)
  ultimately show ?thesis
    by (simp add: sched_dag_validate_and_build_def solo_env_def example_env_def SCHED_DAG_MAX_NODES_def
        str_field_def pos_field_def example_dag_def)
qed

lemma solo_submit:
  "sched_step solo_env example_svc (EvSubmit ''solo'' 7 100) = example_at [solo_node] []"
proof -
  have "js_parse solo_env ''solo'' =
      Some (XObj [(''nodes'', XArr [XObj [(''id'', XStr ''a''), (''max_retries'', XNum 2)]])])"
    by (simp add: solo_env_def)
  then show ?thesis
    by (simp add: sched_service_submit_dag_def solo_build example_id example_svc_eval
        SCHED_DAG_MAX_DAGS_def Let_def example_dag_def)
qed

lemma solo_dispatch:
  "sched_step solo_env (example_at [solo_node] []) (EvDispatch 110) =
   example_at [solo_node\<lparr>n_status := NODE_RUNNING, n_started_at_ms := 110\<rparr>] [(0, 0)]"
  by (simp add: example_svc_eval run_one_begin_def ready_eval example_dag_def solo_node_def calloc_node_def)

lemma solo_land:
  "sched_step solo_env
     (example_at [solo_node\<lparr>n_status := NODE_RUNNING, n_started_at_ms := 110\<rparr>] [(0, 0)])
     (EvLand (0, 0) (AIRY_ERR_TIMEOUT, None) 120) = example_at [solo_wait] []"
proof -
  have "\<not> snd (prop_sweep 120 [example_dag [solo_wait]]) \<and>
      fst (prop_sweep 120 [example_dag [solo_wait]]) = [example_dag [solo_wait]]"
    by (simp add: prop_sweep_def prop_dag_def prop_node_def unreachable_node_def example_dag_def
        solo_eval calloc_node_def ready_eval)
  then have "converge 120 [example_dag [solo_wait]] = [example_dag [solo_wait]]"
    by (simp add: propagate_still sched_dag_finalize_terminal_def finalize_dag_def
        sched_dag_all_terminal_def example_dag_def solo_eval calloc_node_def sched_dag_node_done_def)
  moreover have "write_back_at solo_env 120
      (example_at [solo_node\<lparr>n_status := NODE_RUNNING, n_started_at_ms := 110\<rparr>] [(0, 0)])
      (0, 0) (AIRY_ERR_TIMEOUT, None) = example_at [solo_wait] []"
    by (simp add: write_back_at_def example_svc_eval exec_result_def sched_dag_write_back_node_def
        node_backoff_def example_dag_def solo_eval calloc_node_def
        Let_def set_node_def node_err_set_def)
  ultimately show ?thesis by (simp add: run_one_end_def Let_def example_svc_eval)
qed

lemma solo_state:
  "foldl (sched_step solo_env) (sched_service_create True False 0 0 True)
     [EvSubmit ''solo'' 7 100, EvDispatch 110, EvLand (0, 0) (AIRY_ERR_TIMEOUT, None) 120] =
   example_at [solo_wait] []"
  using solo_submit solo_dispatch solo_land by (simp add: example_svc_def del: sched_step.simps)

lemma dag_worker_lost_wakeup:
  "s_dags (example_at [solo_wait] []) = [example_dag [solo_wait]]"
  "d_status (example_dag [solo_wait]) = DAG_ACTIVE"
  "sched_dag_wait_ready True (\<lambda>_ _. 1119) 1120 1120 [example_dag [solo_wait]] = DwSleep"
  "sched_dag_find_ready 1120 [example_dag [solo_wait]] = Some (0, 0)"
proof -
  show "s_dags (example_at [solo_wait] []) = [example_dag [solo_wait]]"
    and act: "d_status (example_dag [solo_wait]) = DAG_ACTIVE"
    by (simp_all add: example_at_def example_dag_def)
  have "find_ready_at (\<lambda>_ _. 1119) [example_dag [solo_wait]] = None"
    by (simp add: find_ready_at_None sched_dag_node_ready_def example_dag_def solo_eval calloc_node_def)
  moreover have "sched_dag_min_retry_at 1120 [example_dag [solo_wait]] = 0"
    by (simp add: min_retry_0 example_dag_def solo_eval calloc_node_def)
  ultimately show "sched_dag_wait_ready True (\<lambda>_ _. 1119) 1120 1120 [example_dag [solo_wait]] = DwSleep"
    by (simp add: sched_dag_wait_ready_def)
  show "sched_dag_find_ready 1120 [example_dag [solo_wait]] = Some (0, 0)"
    by (simp add: sched_dag_find_ready_def dag_ready_idx_def sched_dag_node_ready_def example_dag_def
        solo_eval calloc_node_def)
qed

theorem dag_worker_no_deadlock_witness:
  "\<exists>j<length (d_nodes (example_dag [solo_wait])).
     (1119 :: 64 word) < n_retry_at_ms (d_nodes (example_dag [solo_wait]) ! j) \<and>
     n_retry_at_ms (d_nodes (example_dag [solo_wait]) ! j) \<le> 1120"
proof -
  note run = solo_state [symmetric] and lost = dag_worker_lost_wakeup
  have "s_inflight (example_at [solo_wait] []) = []" "\<not> s_barrier (example_at [solo_wait] [])"
    by (simp_all add: example_svc_eval)
  from dag_worker_no_deadlock [OF run this, of True "\<lambda>_ _. 1119" 1120 1120 0] lost
  show ?thesis by auto
qed

text \<open>
  C9. Retries are bounded. From any reachable state in which a node exists, whatever follows, the
  node is handed to the executor at most \<open>1 + max_retries\<close> times.
\<close>

theorem dag_dispatch_bounded:
  assumes s: "s = foldl (sched_step env) (sched_service_create ex ok mp bs fc) es0"
    and "i < length (s_dags s)" and "j < length (d_nodes (s_dags s ! i))"
  shows "trace_sum (sched_step env) (dispatches env (i, j)) s es
    \<le> 1 + unat (n_max_retries (d_nodes (s_dags s ! i) ! j))"
proof -
  have "sched_inv env s" unfolding s by (rule run_sched_inv)
  with assms have "track_inv env (i, j) (n_max_retries (node_at s (i, j))) s"
    by (simp add: track_inv_def in_range_def)
  from disp.trace_sum_bound [OF this, of es] show ?thesis by (simp add: node_at_def list_all_iff)
qed

theorem dag_dispatch_bounded_witness:
  "trace_sum (sched_step example_env) (dispatches example_env (0, 1))
     (example_at [calloc_node ''a''\<lparr>n_role := ''coding''\<rparr>, example_next NODE_PENDING] [])
     [EvDispatch 110, EvLand (0, 0) (AIRY_SUCCESS, Some ''out'') 120, EvDispatch 130] \<le> 1"
proof -
  have "example_at [calloc_node ''a''\<lparr>n_role := ''coding''\<rparr>, example_next NODE_PENDING] [] =
      foldl (sched_step example_env) (sched_service_create True False 0 0 True) [EvSubmit ''chain'' 7 100]"
    unfolding example_svc_def [symmetric] by (simp only: foldl.simps example_submit)
  note bound = dag_dispatch_bounded [OF this, of 0 1]
  let ?s = "example_at [calloc_node ''a''\<lparr>n_role := ''coding''\<rparr>, example_next NODE_PENDING] []"
  have "0 < length (s_dags ?s)" "1 < length (d_nodes (s_dags ?s ! 0))"
    "1 + unat (n_max_retries (d_nodes (s_dags ?s ! 0) ! 1)) = 1"
    by (simp_all add: example_at_def example_dag_def example_node_eval)
  with bound show ?thesis by (simp only: simp_thms)
qed

text \<open>
  C8. Failure propagation ends and cancels exactly the doomed nodes: in an active graph a pending
  node is canceled if and only if it reaches, through pending nodes, a dependency that failed or
  was canceled; every other node, and every graph that is not active, is left as it was.
\<close>

theorem dag_propagate_exact:
  assumes "i < length ds" and "k < length (d_nodes (ds ! i))"
  shows "d_nodes (sched_dag_propagate_unreachable now ds ! i) ! k =
    (if d_status (ds ! i) = DAG_ACTIVE \<and> doomed (d_nodes (ds ! i)) k
     then node_final now NODE_CANCELED (d_nodes (ds ! i) ! k) else d_nodes (ds ! i) ! k)"
proof (cases "d_status (ds ! i) = DAG_ACTIVE")
  case True
  let ?d' = "sched_dag_propagate_unreachable now ds ! i"
  from propagate_nth [OF assms(1), of now] obtain ns where d': "?d' = (ds ! i)\<lparr>d_nodes := ns\<rparr>"
    and rel: "prop_rel now (d_nodes (ds ! i)) ns" unfolding dag_prop_rel_def by blast
  have se: "settled ?d'" using propagate_nth [OF assms(1), of now] by simp
  have "\<forall>j<length ns. \<not> unreachable_node ns j" using se d' True by (simp add: settled_def)
  with doomed_canceled [OF rel _ _ assms(2)] rel assms(2) True d' show ?thesis
    by (auto simp: prop_rel_def)
next
  case False
  with propagate_nth [OF assms(1), of now] show ?thesis by (simp add: dag_prop_rel_def)
qed

theorem dag_propagate_exact_witness:
  "n_status (d_nodes (sched_dag_propagate_unreachable 200
     [example_dag [example_done\<lparr>n_status := NODE_FAILED\<rparr>, example_next NODE_PENDING]] ! 0) ! 1) =
   NODE_CANCELED"
proof -
  let ?ns = "[example_done\<lparr>n_status := NODE_FAILED\<rparr>, example_next NODE_PENDING]"
  have "(0, 1) \<in> dep_rel ?ns" by (simp add: dep_rel_def example_node_eval find_id_def)
  then have "doomed ?ns 1"
    by (intro doomed_dep [of _ 1 0]) (simp_all add: example_next_def sched_dag_dep_broken_def)
  then show ?thesis
    using dag_propagate_exact [of 0 "[example_dag ?ns]" 1 200] by (simp add: example_dag_def)
qed

section \<open>Properties of single operations\<close>

text \<open>
  How a result is graded. For a running node of an active graph: success with a blank or
  missing output leaves the node SEMANTIC_FAILED; success with an output its validator rejects
  leaves it FAILED; any other success leaves it COMPLETED with that output. A failed dispatch
  under the fatal-cascade policy aborts the graph when the code is fatal, puts the node back to
  PENDING when the code is transient, retries are left and the budget window is open, and
  otherwise fails the node alone; without that policy every failure aborts the graph. Only an
  abort changes the status of the graph.
\<close>

theorem dag_write_back_grading:
  assumes "j < length (d_nodes d)" and run: "n_status (d_nodes d ! j) = NODE_RUNNING"
    and act: "d_status d = DAG_ACTIVE"
    and wb: "sched_dag_write_back_node env fc now d j dret out = (d', ok)"
  shows "n_status (d_nodes d' ! j) =
      (if dret = AIRY_SUCCESS
       then (if \<not> sched_dag_has_output out then NODE_SEMANTIC_FAILED
             else if \<not> node_verify env (d_nodes d ! j) (the out) then NODE_FAILED else NODE_COMPLETED)
       else if fc \<and> \<not> sched_dag_error_is_fatal dret \<and> sched_dag_error_is_transient dret \<and>
               n_retry_count (d_nodes d ! j) < n_max_retries (d_nodes d ! j) \<and>
               (d_retry_budget_ms d = 0 \<or> d_created_at_ms d + d_retry_budget_ms d = 0 \<or>
                now < d_created_at_ms d + d_retry_budget_ms d)
       then NODE_PENDING else NODE_FAILED) \<and>
    d_status d' = (if dret \<noteq> AIRY_SUCCESS \<and> (\<not> fc \<or> sched_dag_error_is_fatal dret)
                   then DAG_FAILED else DAG_ACTIVE) \<and>
    (ok \<longleftrightarrow> n_status (d_nodes d' ! j) = NODE_COMPLETED) \<and>
    (ok \<longrightarrow> n_output (d_nodes d' ! j) = out)"
proof (cases "dret = AIRY_SUCCESS")
  case True
  with assms show ?thesis
    by (auto simp: sched_dag_write_back_node_def Let_def node_succeed_def split: if_splits)
next
  case False
  let ?n = "node_err_set None ((d_nodes d ! j)\<lparr>n_finished_at_ms := now\<rparr>)"
  have bo: "(\<exists>m. node_backoff now d ?n dret = Some m \<and> n_status m = NODE_PENDING) =
      (sched_dag_error_is_transient dret \<and>
       n_retry_count (d_nodes d ! j) < n_max_retries (d_nodes d ! j) \<and>
       (d_retry_budget_ms d = 0 \<or> d_created_at_ms d + d_retry_budget_ms d = 0 \<or>
        now < d_created_at_ms d + d_retry_budget_ms d))"
    by (auto simp: node_backoff_def Let_def not_le)
  have st: "node_backoff now d ?n dret = Some m \<Longrightarrow> n_status m = NODE_PENDING" for m
    by (auto simp: node_backoff_def Let_def split: if_splits)
  show ?thesis
  proof (cases "\<not> fc \<or> sched_dag_error_is_fatal dret")
    case True
    with False assms show ?thesis
      by (auto simp: sched_dag_write_back_node_def Let_def dag_abort_def split: if_splits)
  next
    case nofatal: False
    show ?thesis
    proof (cases "node_backoff now d ?n dret")
      case None
      with bo False nofatal assms show ?thesis
        by (auto simp: sched_dag_write_back_node_def Let_def)
    next
      case (Some m)
      with bo st [OF Some] False nofatal assms show ?thesis
        by (auto simp: sched_dag_write_back_node_def Let_def)
    qed
  qed
qed

theorem dag_write_back_grading_witness:
  "n_status (d_nodes (fst (sched_dag_write_back_node example_env True 140
      (example_dag [example_done, example_next NODE_RUNNING]) 1 AIRY_SUCCESS (Some '' ''))) ! 1) =
    NODE_SEMANTIC_FAILED"
proof -
  let ?d = "example_dag [example_done, example_next NODE_RUNNING]"
  have "1 < length (d_nodes ?d)" "n_status (d_nodes ?d ! 1) = NODE_RUNNING" "d_status ?d = DAG_ACTIVE"
    by (simp_all add: example_dag_def example_next_def)
  from dag_write_back_grading [OF this prod.collapse [symmetric], of example_env True 140
      AIRY_SUCCESS "Some '' ''"]
  show ?thesis by (simp add: sched_dag_has_output_def)
qed

text \<open>
  Cancellation is final. Once \<open>sched_service_cancel_dag\<close> has returned success for an id, then
  after any further run the graph is still CANCELED, none of its nodes has been handed out again,
  and no node has received an output: results that come back late are thrown away.
\<close>

theorem dag_cancel_final:
  assumes c: "sched_service_cancel_dag now s dag_id = (s', AIRY_SUCCESS)"
    and f: "sched_find_dag s dag_id = Some i"
    and k: "k < length (d_nodes (s_dags s ! i))"
  shows "let d = s_dags (foldl (sched_step env) s' es) ! i
    in d_status d = DAG_CANCELED \<and>
       n_output (d_nodes d ! k) = n_output (d_nodes (s_dags s ! i) ! k) \<and>
       (n_status (d_nodes d ! k) = NODE_RUNNING \<longrightarrow>
          n_status (d_nodes (s_dags s ! i) ! k) = NODE_RUNNING)"
proof -
  have i: "i < length (s_dags s)" using f by (simp add: sched_find_dag_def find_index_Some_iff)
  have s': "s' = s\<lparr>s_dags := (s_dags s)[i := cancel_dag now (s_dags s ! i)]\<rparr>"
    using c f by (auto simp: sched_service_cancel_dag_def Let_def split: if_splits)
  have "s_dags s' ! i = cancel_dag now (s_dags s ! i)" "i < length (s_dags s')"
    using i by (simp_all add: s')
  with frozen_run [of i s' env es] k show ?thesis
    by (simp add: Let_def frozen_def cancel_dag_def) (auto simp: cancel_node_def split: if_splits)
qed

theorem dag_cancel_final_witness:
  "d_status (s_dags (foldl (sched_step example_env)
      (sched_step example_env (example_at [calloc_node ''a''\<lparr>n_role := ''coding''\<rparr>,
         example_next NODE_PENDING] []) (EvCancel ''dag_7_0'' 105))
      [EvDispatch 110]) ! 0) = DAG_CANCELED"
proof -
  let ?s = "example_at [calloc_node ''a''\<lparr>n_role := ''coding''\<rparr>, example_next NODE_PENDING] []"
  have f: "sched_find_dag ?s ''dag_7_0'' = Some 0"
    by (simp add: example_svc_eval sched_find_dag_def example_dag_def)
  have "snd (sched_service_cancel_dag 105 ?s ''dag_7_0'') = AIRY_SUCCESS"
    using f by (simp add: sched_service_cancel_dag_def example_svc_eval example_dag_def Let_def)
  then have c: "sched_service_cancel_dag 105 ?s ''dag_7_0'' =
      (sched_step example_env ?s (EvCancel ''dag_7_0'' 105), AIRY_SUCCESS)"
    by (metis prod.collapse sched_step.simps(2))
  have "0 < length (d_nodes (s_dags ?s ! 0))" by (simp add: example_at_def example_dag_def)
  from dag_cancel_final [OF c f this, of example_env "[EvDispatch 110]"] show ?thesis
    by (simp only: Let_def)
qed

text \<open>
  Graph ids identify graphs. In every reachable state all ids are different (the fixed 64-byte
  buffer never cuts one short), so after a successful submission the returned id finds exactly
  the new graph, and every id that was known before finds what it found before.
\<close>

theorem dag_submit_find:
  assumes s: "s = foldl (sched_step env) (sched_service_create ex ok mp bs fc) es"
    and sub: "sched_service_submit_dag env secs now s dag_json = (s', Inr i)"
  shows "distinct (map d_dag_id (s_dags s')) \<and>
    sched_find_dag s' i = Some (length (s_dags s)) \<and>
    (\<forall>k<length (s_dags s). sched_find_dag s' (d_dag_id (s_dags s ! k)) = Some k)"
proof -
  have inv: "sched_inv env s" unfolding s by (rule run_sched_inv)
  then have inv': "sched_inv env s'" using submit_inv [of env s secs now dag_json] sub by simp
  obtain d where s': "s_dags s' = s_dags s @ [d]" and id: "d_dag_id d = i"
    using sub by (auto simp: sched_service_submit_dag_def Let_def split: if_splits option.splits sum.splits)
  note di = dag_ids_distinct [OF inv']
  have "sched_find_dag s' (map d_dag_id (s_dags s') ! k) = Some k" if "k < length (s_dags s')" for k
    using dg.find_nth_distinct [of s' k] di that by simp
  then have at: "sched_find_dag s' (d_dag_id (s_dags s' ! k)) = Some k" if "k < length (s_dags s')" for k
    using that by fastforce
  have "sched_find_dag s' (d_dag_id (s_dags s ! k)) = Some k" if "k < length (s_dags s)" for k
    using at [of k] that by (simp add: s' nth_append)
  with at [of "length (s_dags s)"] di show ?thesis by (simp add: s' id)
qed

theorem dag_submit_find_witness:
  "\<exists>s'. sched_service_submit_dag example_env 7 100 (sched_service_create True False 0 0 True) ''chain''
      = (s', Inr ''dag_7_0'') \<and> sched_find_dag s' ''dag_7_0'' = Some 0"
proof -
  let ?r = "sched_service_submit_dag example_env 7 100 (sched_service_create True False 0 0 True) ''chain''"
  have f: "fst ?r = example_at [calloc_node ''a''\<lparr>n_role := ''coding''\<rparr>, example_next NODE_PENDING] []"
    using example_submit by (simp add: example_svc_def)
  then have "\<exists>i. snd ?r = Inr i"
    by (auto simp: sched_service_submit_dag_def example_svc_eval Let_def split: option.splits sum.splits if_splits)
  then obtain i where i: "?r = (fst ?r, Inr i)" by (metis prod.collapse)
  from i f have "i = ''dag_7_0''"
    by (auto simp: example_id sched_service_submit_dag_def example_svc_eval example_dag_def Let_def
        split: option.splits sum.splits if_splits)
  moreover have "sched_service_create True False 0 0 True = foldl (sched_step example_env)
      (sched_service_create True False 0 0 True) []" by simp
  from dag_submit_find [OF this i] have "sched_find_dag (fst ?r) i = Some 0"
    by (simp add: sched_service_create_def)
  ultimately show ?thesis using i by metis
qed

text \<open>
  The composed input of a node. With a budget of at least one byte per dependency (the code
  uses 4096 for at most 8) it is exactly the base input followed, for every completed dependency
  with an output in dependency order, by a header naming it and the first \<open>budget / n\<close> bytes of
  its output, \<open>n\<close> being the number of such dependencies. No dependency is crowded out, the
  upstream bytes stay within the budget, and the whole text with its terminator fits the
  allocated buffer.
\<close>

theorem dag_node_input_exact:
  assumes "SCHED_DAG_MAX_DEPS \<le> budget"
  shows "sched_dag_node_input d node budget =
      sched_dag_agent_input d node @
      concat (map (\<lambda>(i, out). upstream_hdr i @ take (budget div length (eligible_deps d node)) out)
        (eligible_deps d node)) \<and>
    sum_list (map (\<lambda>(i, out). length (take (budget div length (eligible_deps d node)) out))
      (eligible_deps d node)) \<le> budget \<and>
    length (sched_dag_node_input d node budget) + 1
      \<le> input_total (sched_dag_agent_input d node)
           (map (\<lambda>(i, out). (i, take (budget div length (eligible_deps d node)) out)) (eligible_deps d node))"
proof -
  let ?deps = "eligible_deps d node"
  let ?sh = "budget div length ?deps"
  have exact: "sched_dag_node_input d node budget = sched_dag_agent_input d node @
      concat (map (\<lambda>(i, out). upstream_hdr i @ take ?sh out) ?deps)"
    by (rule node_input_exact [OF assms])
  have "sum_list (map (\<lambda>(i, out). length (take sh out)) xs) \<le> length xs * sh"
    for sh and xs :: "(string \<times> string) list"
    by (induction xs) auto
  then have "sum_list (map (\<lambda>(i, out). length (take ?sh out)) ?deps) \<le> length ?deps * ?sh" by blast
  also have "\<dots> \<le> budget" by simp
  finally have sum: "sum_list (map (\<lambda>(i, out). length (take ?sh out)) ?deps) \<le> budget" .
  have "length (concat (map (\<lambda>(i, out). upstream_hdr i @ take sh out) xs)) \<le>
      sum_list (map (\<lambda>(i, out). length i + length (take sh out) + 32) xs)"
    for sh and xs :: "(string \<times> string) list"
    by (induction xs) (auto simp: length_upstream_hdr)
  from this [of ?sh ?deps] exact have "length (sched_dag_node_input d node budget) + 1
      \<le> input_total (sched_dag_agent_input d node) (map (\<lambda>(i, out). (i, take ?sh out)) ?deps)"
    by (simp add: input_total_def comp_def case_prod_unfold)
  with exact sum show ?thesis by blast
qed

theorem dag_node_input_exact_witness:
  "sched_dag_node_input (example_dag [example_done, example_next NODE_PENDING])
      (example_next NODE_PENDING) SCHED_DAG_UPSTREAM_BUDGET = upstream_hdr ''a'' @ ''out''"
proof -
  let ?d = "example_dag [example_done, example_next NODE_PENDING]"
  have e: "eligible_deps ?d (example_next NODE_PENDING) = [(''a'', ''out'')]"
    by (simp add: eligible_deps_def example_dag_def example_node_eval sched_dag_find_node_def find_id_def
        SCHED_DAG_MAX_DEPS_def List.map_filter_simps)
  have b: "sched_dag_agent_input ?d (example_next NODE_PENDING) = []"
    by (simp add: sched_dag_agent_input_def example_dag_def example_node_eval)
  have "SCHED_DAG_MAX_DEPS \<le> SCHED_DAG_UPSTREAM_BUDGET"
    by (simp add: SCHED_DAG_MAX_DEPS_def SCHED_DAG_UPSTREAM_BUDGET_def)
  from dag_node_input_exact [OF this, of ?d "example_next NODE_PENDING"] show ?thesis
    by (simp add: e b SCHED_DAG_UPSTREAM_BUDGET_def)
qed

text \<open>
  The retry delay doubles. A transient failure of a node with retries left and an open budget
  window raises its retry count by one and sets it to wait \<open>delay * 2 ^ retry_count\<close> milliseconds
  (\<open>delay\<close> defaults to 1000), as long as that time is representable in 64 bits; until then the
  node is not ready. Beyond the 64th retry the shift in the code has no defined result.
\<close>

theorem dag_retry_backoff:
  assumes "sched_dag_error_is_transient dret" and "n_retry_count node < n_max_retries node"
    and "d_retry_budget_ms d = 0 \<or> now < d_created_at_ms d + d_retry_budget_ms d"
    and dl: "dl = (if n_retry_delay_ms node = 0 then 1000 else unat (n_retry_delay_ms node))"
    and fits: "unat now + dl * 2 ^ unat (n_retry_count node) < 2 ^ 64"
  shows "\<exists>m. node_backoff now d node dret = Some m \<and> n_status m = NODE_PENDING \<and>
    unat (n_retry_count m) = unat (n_retry_count node) + 1 \<and>
    unat (n_retry_at_ms m) = unat now + dl * 2 ^ unat (n_retry_count node) \<and>
    (\<forall>t ns i. ns ! i = m \<longrightarrow> t < n_retry_at_ms m \<longrightarrow> sched_dag_node_ready t ns i = 0)"
proof -
  let ?rc = "n_retry_count node"
  let ?dw = "if n_retry_delay_ms node \<noteq> 0 then ucast (n_retry_delay_ms node) else 1000 :: 64 word"
  let ?bo = "?dw * push_bit (unat ?rc) (1 :: 64 word)"
  have dpos: "0 < dl" using dl by (simp add: unat_gt_0)
  have rc64: "unat ?rc < 64"
  proof (rule ccontr)
    assume "\<not> unat ?rc < 64"
    then have "(2 :: nat) ^ 64 \<le> 2 ^ unat ?rc" by (intro power_increasing) simp_all
    also have "\<dots> \<le> dl * 2 ^ unat ?rc" using dpos by simp
    finally show False using fits by simp
  qed
  have dw: "unat ?dw = dl"
  proof -
    have "unat (n_retry_delay_ms node) < 2 ^ LENGTH(32)" by (rule unsigned_less)
    then have "unat (ucast (n_retry_delay_ms node) :: 64 word) = unat (n_retry_delay_ms node)"
      by (simp add: unsigned_ucast_eq take_bit_nat_eq_self)
    with dl show ?thesis by simp
  qed
  have sh: "unat (push_bit (unat ?rc) (1 :: 64 word)) = 2 ^ unat ?rc"
  proof -
    have "(2 :: nat) ^ unat ?rc < 2 ^ 64" using rc64 by (intro power_strict_increasing) simp_all
    then show ?thesis
      unfolding unsigned_push_bit_eq using rc64 by (simp add: push_bit_eq_mult take_bit_nat_eq_self)
  qed
  have "dl * 2 ^ unat ?rc < 2 ^ LENGTH(64)" using fits by simp
  then have bo: "unat ?bo = dl * 2 ^ unat ?rc"
    using unat_mult_lem [of ?dw "push_bit (unat ?rc) (1 :: 64 word)"] unfolding dw sh by simp
  have at: "unat (now + ?bo) = unat now + dl * 2 ^ unat ?rc"
    using unat_add_lem [of now ?bo] fits unfolding bo by simp
  have inc: "unat (?rc + 1) = unat ?rc + 1" using assms(2) by unat_arith
  have "node_backoff now d node dret = Some (node\<lparr>n_retry_count := ?rc + 1, n_retry_at_ms := now + ?bo,
      n_error := Some ''transient failure, retrying with backoff'', n_status := NODE_PENDING,
      n_finished_at_ms := 0\<rparr>)"
    using assms(1-3) by (auto simp: node_backoff_def Let_def not_le)
  then show ?thesis
    using at inc by (intro exI conjI) (auto simp: sched_dag_node_ready_def Let_def)
qed

theorem dag_retry_backoff_witness:
  "\<exists>m. node_backoff 500 (example_dag []) (calloc_node ''b''\<lparr>n_max_retries := 3, n_retry_count := 2\<rparr>)
      AIRY_ERR_TIMEOUT = Some m \<and> unat (n_retry_at_ms m) = 4500"
proof -
  let ?n = "calloc_node ''b''\<lparr>n_max_retries := 3, n_retry_count := 2\<rparr>"
  have "\<exists>m. node_backoff 500 (example_dag []) ?n AIRY_ERR_TIMEOUT = Some m \<and> n_status m = NODE_PENDING \<and>
      unat (n_retry_count m) = unat (n_retry_count ?n) + 1 \<and>
      unat (n_retry_at_ms m) = unat (500 :: 64 word) + 1000 * 2 ^ unat (n_retry_count ?n) \<and>
      (\<forall>t ns i. ns ! i = m \<longrightarrow> t < n_retry_at_ms m \<longrightarrow> sched_dag_node_ready t ns i = 0)"
    by (rule dag_retry_backoff) (simp_all add: calloc_node_def example_dag_def)
  then show ?thesis by (auto simp: calloc_node_def)
qed

text \<open>
  A graph that a node failure aborts never gets a finish time. The abort sets the graph to
  FAILED and leaves \<open>finished_at_ms\<close> as it was (0), and convergence, which is where the finish
  time is set, skips every graph that is no longer active; so the status query reports a failed
  graph with \<open>finished_at_ms\<close> 0 for good.
\<close>

theorem dag_abort_no_finish_time:
  assumes "d_status d = DAG_ACTIVE" and "n_status (d_nodes d ! j) = NODE_RUNNING"
    and "dret \<noteq> AIRY_SUCCESS" and "\<not> fc \<or> sched_dag_error_is_fatal dret"
    and d': "d' = fst (sched_dag_write_back_node env fc now d j dret out)"
    and ds: "i < length ds" "ds ! i = d'"
  shows "d_status d' = DAG_FAILED \<and> d_finished_at_ms d' = d_finished_at_ms d \<and>
    sched_dag_finalize_terminal now' (sched_dag_propagate_unreachable now' ds) ! i = d'"
proof -
  have f: "d_status d' = DAG_FAILED \<and> d_finished_at_ms d' = d_finished_at_ms d"
    using assms(1-4) unfolding d'
    by (auto simp: sched_dag_write_back_node_def Let_def dag_abort_def set_node_def)
  then have "sched_dag_propagate_unreachable now' ds ! i = d'"
    using propagate_nth [OF ds(1), of now'] ds(2) by (simp add: dag_prop_rel_def)
  with f ds show ?thesis by (simp add: sched_dag_finalize_terminal_def finalize_dag_def)
qed

theorem dag_abort_no_finish_time_witness:
  "d_status (fst (sched_dag_write_back_node example_env True 140
       (example_dag [example_done, example_next NODE_RUNNING]) 1 AIRY_ERR_OUT_OF_MEMORY None)) = DAG_FAILED \<and>
   d_finished_at_ms (fst (sched_dag_write_back_node example_env True 140
       (example_dag [example_done, example_next NODE_RUNNING]) 1 AIRY_ERR_OUT_OF_MEMORY None)) = 0"
proof -
  let ?d = "example_dag [example_done, example_next NODE_RUNNING]"
  let ?d' = "fst (sched_dag_write_back_node example_env True 140 ?d 1 AIRY_ERR_OUT_OF_MEMORY None)"
  have "d_status ?d' = DAG_FAILED \<and> d_finished_at_ms ?d' = d_finished_at_ms ?d \<and>
      sched_dag_finalize_terminal 150 (sched_dag_propagate_unreachable 150 [?d']) ! 0 = ?d'"
    by (rule dag_abort_no_finish_time [OF _ _ _ _ refl])
      (simp_all add: example_dag_def example_next_def)
  then show ?thesis by (simp add: example_dag_def)
qed

text \<open>
  The graph table only ever grows: a service that has accepted 32 blueprints refuses every
  later submission, whatever happens in between.
\<close>

theorem dag_table_lifetime_cap:
  assumes s: "s = foldl (sched_step env) (sched_service_create ex ok mp bs fc) es0"
    and "length (s_dags s) = SCHED_DAG_MAX_DAGS"
  shows "\<exists>e. snd (sched_service_submit_dag env secs now (foldl (sched_step env) s es) dag_json) = Inl e"
proof -
  have grow: "length (s_dags s) \<le> length (s_dags (foldl (sched_step env) s es))" if "sched_inv env s" for s es
    using that
  proof (induction es arbitrary: s)
    case Nil
    then show ?case by simp
  next
    case (Cons e es)
    have "length (s_dags s) \<le> length (s_dags (sched_step env s e))"
      using sched_step_used [OF Cons.prems, of e] by (simp add: ds_used_def)
    also have "\<dots> \<le> length (s_dags (foldl (sched_step env) (sched_step env s e) es))"
      by (rule Cons.IH) (rule sched_step_inv [OF Cons.prems])
    finally show ?case by simp
  qed
  have "SCHED_DAG_MAX_DAGS \<le> length (s_dags (foldl (sched_step env) s es))"
    using grow [of s es] run_sched_inv [of env ex ok mp bs fc es0] assms by simp
  then show ?thesis
    by (auto simp: sched_service_submit_dag_def split: option.split sum.split)
qed

lemma example_fill:
  assumes "n \<le> SCHED_DAG_MAX_DAGS"
  shows "length (s_dags (foldl (sched_step example_env) (sched_service_create True False 0 0 True)
      (replicate n (EvSubmit ''chain'' 7 100)))) = n \<and>
    s_initialized (foldl (sched_step example_env) (sched_service_create True False 0 0 True)
      (replicate n (EvSubmit ''chain'' 7 100)))"
  using assms
proof (induction n)
  case 0
  then show ?case by (simp add: sched_service_create_def)
next
  case (Suc n)
  let ?s = "foldl (sched_step example_env) (sched_service_create True False 0 0 True)
      (replicate n (EvSubmit ''chain'' 7 100))"
  have "foldl (sched_step example_env) (sched_service_create True False 0 0 True)
      (replicate (Suc n) (EvSubmit ''chain'' 7 100)) = sched_step example_env ?s (EvSubmit ''chain'' 7 100)"
    by (simp add: foldl_append flip: replicate_append_same)
  with Suc show ?case
    by (simp add: sched_service_submit_dag_def example_parse example_build Let_def)
qed

theorem dag_table_lifetime_cap_witness:
  "\<exists>e. snd (sched_service_submit_dag example_env 8 200
      (foldl (sched_step example_env)
        (foldl (sched_step example_env) (sched_service_create True False 0 0 True)
          (replicate 32 (EvSubmit ''chain'' 7 100))) [EvDispatch 150]) ''chain'') = Inl e"
  by (rule dag_table_lifetime_cap [OF refl])
    (use example_fill [of 32] in \<open>simp add: SCHED_DAG_MAX_DAGS_def\<close>)

end
