(* ===== verification/Sched_Tasks.thy ===== *)
theory Sched_Tasks
  imports Sched_Work
begin

text \<open>
  sched_d, single tasks: the agent registry and the selection strategies
  (\<open>sched_service_agent.c\<close>), the task queue (\<open>sched_service_task.c\<close>) and its worker thread
  (\<open>sched_service_worker.c\<close>).

  The part of \<open>struct sched_service\<close> these files use is the record \<open>task_service\<close>. Task records
  are appended to \<open>tasks[]\<close> and never moved or freed while the service runs, so a pointer to a
  record is its index in \<open>q_tasks\<close>, and a slot of the ring \<open>queue[]\<close> is \<open>None\<close> (NULL) or such an
  index. Following a NULL slot makes an operation return \<open>None\<close>. The lock makes each critical
  section atomic; the worker's three sections (take a task, select an agent, write the result
  back) are three events, and every other operation may fall between them. The executor's
  answer, the clocks and the client's data are arguments. \<open>float\<close> values are exact rationals;
  the delegation framework (mac) that mirrors the agents is an external library and is left out.
\<close>

section \<open>Data model\<close>

definition AIRY_CAP_MAX_TASKS :: nat where "AIRY_CAP_MAX_TASKS = 256"

datatype sched_strategy =
    SCHED_STRATEGY_ROUND_ROBIN | SCHED_STRATEGY_WEIGHTED | SCHED_STRATEGY_ML_BASED
  | SCHED_STRATEGY_PRIORITY_BASED | SCHED_STRATEGY_UNKNOWN

datatype task_status =
    TASK_PENDING | TASK_RUNNING | TASK_COMPLETED | TASK_FAILED | TASK_CANCELED

text \<open>
  \<open>task_priority_t\<close> has no negative member, so its values are \<open>unsigned int\<close>; the RPC layer
  stores whatever integer the client sends.
\<close>

type_synonym task_priority = "32 word"

definition TASK_PRIORITY_NORMAL :: task_priority where "TASK_PRIORITY_NORMAL = 1"
definition TASK_PRIORITY_HIGH :: task_priority where "TASK_PRIORITY_HIGH = 2"
definition TASK_PRIORITY_URGENT :: task_priority where "TASK_PRIORITY_URGENT = 3"

record sched_task_info =
  ti_task_id :: "string option"
  ti_description :: "string option"
  ti_priority :: task_priority
  ti_timeout_ms :: "32 word"

record task_record =
  t_task_id :: string
  t_description :: string
  t_priority :: task_priority
  t_timeout_ms :: "32 word"
  t_status :: task_status
  t_selected :: "string option"
  t_output :: "string option"
  t_error :: "string option"
  t_created_at_ms :: "64 word"
  t_finished_at_ms :: "64 word"

record agent_info =
  a_id :: string
  a_name :: string
  a_load_factor :: rat
  a_success_rate :: rat
  a_avg_response_time_ms :: "32 word"
  a_is_available :: bool
  a_weight :: rat

record sched_result =
  r_selected :: "string option"
  r_confidence :: rat
  r_estimated_time_ms :: "32 word"

text \<open>Where the worker thread is: not running, waiting, or holding a task between two sections.\<close>

datatype worker_state = W_Off | W_Idle | W_Taken nat | W_Selected nat "string option"

record task_service =
  q_initialized :: bool
  q_strategy :: sched_strategy
  q_agents :: "agent_info list"
  q_scheduled :: "64 word"
  q_success :: "64 word"
  q_tasks :: "task_record list"
  q_queue :: "nat option list"
  q_head :: nat
  q_tail :: nat
  q_task_seq :: nat
  q_executor :: bool
  q_worker_run :: bool
  q_worker :: worker_state

definition task_service_init :: "sched_strategy \<Rightarrow> task_service" where
  "task_service_init strategy =
     \<lparr>q_initialized = True, q_strategy = strategy, q_agents = [], q_scheduled = 0, q_success = 0,
      q_tasks = [], q_queue = replicate AIRY_CAP_MAX_TASKS None, q_head = 0, q_tail = 0,
      q_task_seq = 0, q_executor = False, q_worker_run = False, q_worker = W_Off\<rparr>"

section \<open>Agent registry and selection\<close>

definition find_agent :: "agent_info list \<Rightarrow> string \<Rightarrow> nat option" where
  "find_agent as i = find_index (\<lambda>a. a_id a = i) as"

definition sched_refresh :: "task_service \<Rightarrow> agent_info \<Rightarrow> task_service option" where
  "sched_refresh s info =
     (case find_agent (q_agents s) (a_id info) of
        None \<Rightarrow> None
      | Some i \<Rightarrow>
          let a = q_agents s ! i
          in Some (s\<lparr>q_agents := (q_agents s)[i := a\<lparr>
                 a_load_factor := a_load_factor info, a_success_rate := a_success_rate info,
                 a_avg_response_time_ms := a_avg_response_time_ms info,
                 a_is_available := a_is_available info, a_weight := a_weight info\<rparr>]\<rparr>))"

text \<open>\<open>AIRY_CAP_MAX_AGENTS\<close> comes from a header outside the repository: an argument.\<close>

definition sched_service_register_agent ::
  "nat \<Rightarrow> task_service \<Rightarrow> agent_info \<Rightarrow> task_service \<times> airy_err" where
  "sched_service_register_agent max_agents s info =
     (if \<not> q_initialized s then (s, AIRY_ERR_INVALID_PARAM)
      else if max_agents \<le> length (q_agents s) then (s, AIRY_ERR_OVERFLOW)
      else case sched_refresh s info of
             Some s' \<Rightarrow> (s', AIRY_SUCCESS)
           | None \<Rightarrow> (s\<lparr>q_agents := q_agents s @ [info]\<rparr>, AIRY_SUCCESS))"

definition sched_service_unregister_agent ::
  "task_service \<Rightarrow> string \<Rightarrow> task_service \<times> airy_err" where
  "sched_service_unregister_agent s agent_id =
     (if \<not> q_initialized s then (s, AIRY_ERR_INVALID_PARAM)
      else case find_agent (q_agents s) agent_id of
             None \<Rightarrow> (s, AIRY_ERR_NOT_FOUND)
           | Some i \<Rightarrow> (s\<lparr>q_agents := take i (q_agents s) @ drop (Suc i) (q_agents s)\<rparr>,
                        AIRY_SUCCESS))"

definition sched_score_weighted :: "agent_info \<Rightarrow> rat" where
  "sched_score_weighted a = a_weight a * a_success_rate a * (1 - a_load_factor a)"

definition sched_score_rr :: "task_service \<Rightarrow> nat \<Rightarrow> rat" where
  "sched_score_rr s idx =
     (if length (q_agents s) = 0 then 0
      else if unat (q_scheduled s) mod length (q_agents s) = idx then 100 else 0)"

definition sched_score_ml_based :: "agent_info \<Rightarrow> rat" where
  "sched_score_ml_based a = a_success_rate a * (1 - a_load_factor a)"

definition sched_score_priority :: "task_priority \<Rightarrow> agent_info \<Rightarrow> rat" where
  "sched_score_priority prio a =
     (let pw = (if TASK_PRIORITY_URGENT \<le> prio then 4
                else if TASK_PRIORITY_HIGH \<le> prio then 2
                else if TASK_PRIORITY_NORMAL \<le> prio then 3 / 2 else 1)
      in (a_weight a * a_success_rate a * (1 - a_load_factor a)) * pw)"

definition sched_score_default :: "agent_info \<Rightarrow> rat" where
  "sched_score_default a = a_weight a"

fun sched_strategy_score :: "task_service \<Rightarrow> task_priority \<Rightarrow> sched_strategy \<Rightarrow> agent_info \<Rightarrow> nat \<Rightarrow> rat" where
  "sched_strategy_score s prio SCHED_STRATEGY_WEIGHTED a i = sched_score_weighted a"
| "sched_strategy_score s prio SCHED_STRATEGY_ROUND_ROBIN a i = sched_score_rr s i"
| "sched_strategy_score s prio SCHED_STRATEGY_ML_BASED a i = sched_score_ml_based a"
| "sched_strategy_score s prio SCHED_STRATEGY_PRIORITY_BASED a i = sched_score_priority prio a"
| "sched_strategy_score s prio SCHED_STRATEGY_UNKNOWN a i = sched_score_default a"

text \<open>The candidate loop: the first available agent with the highest score above the start value.\<close>

fun best_agent :: "(agent_info \<Rightarrow> nat \<Rightarrow> rat) \<Rightarrow> nat \<Rightarrow> agent_info option \<times> rat \<Rightarrow> agent_info list \<Rightarrow> agent_info option \<times> rat" where
  "best_agent score i b [] = b"
| "best_agent score i (best, best_score) (a # as) =
     best_agent score (Suc i)
       (if a_is_available a \<and> best_score < score a i then (Some a, score a i)
        else (best, best_score)) as"

definition sched_service_schedule_task ::
  "task_service \<Rightarrow> task_priority \<Rightarrow> task_service \<times> (airy_err + sched_result)" where
  "sched_service_schedule_task s prio =
     (if \<not> q_initialized s then (s, Inl AIRY_ERR_INVALID_PARAM)
      else case best_agent (sched_strategy_score s prio (q_strategy s)) 0 (None, -1) (q_agents s) of
             (Some a, sc) \<Rightarrow>
               (s\<lparr>q_scheduled := q_scheduled s + 1, q_success := q_success s + 1\<rparr>,
                Inr \<lparr>r_selected = Some (a_id a),
                     r_confidence = (if 0 < sc then (if 1 < sc then 1 else sc) else 1 / 2),
                     r_estimated_time_ms = a_avg_response_time_ms a\<rparr>)
           | (None, _) \<Rightarrow>
               (s\<lparr>q_scheduled := q_scheduled s + 1\<rparr>,
                Inr \<lparr>r_selected = None, r_confidence = 0, r_estimated_time_ms = 0\<rparr>))"

definition sched_service_health_check :: "task_service \<Rightarrow> airy_err + bool" where
  "sched_service_health_check s =
     (if \<not> q_initialized s then Inl AIRY_ERR_INVALID_PARAM
      else Inr (\<not> list_ex (\<lambda>a. 95 / 100 < a_load_factor a) (q_agents s)))"

section \<open>The ring\<close>

text \<open>
  \<open>for (qi = head; qi != tail; qi = (qi + 1) % CAP)\<close> visits the positions \<open>ring_span head tail\<close>.
  Head and tail are only ever assigned remainders modulo the capacity (\<open>tq_inv\<close> below), so the
  range test never decides; for an index out of range the C loop would not end.
\<close>

definition ring_next :: "nat \<Rightarrow> nat" where
  "ring_next i = (i + 1) mod AIRY_CAP_MAX_TASKS"

definition ring_dist :: "nat \<Rightarrow> nat \<Rightarrow> nat" where
  "ring_dist head tail = (tail + AIRY_CAP_MAX_TASKS - head) mod AIRY_CAP_MAX_TASKS"

lemma ring_dist_eq:
  assumes "i < AIRY_CAP_MAX_TASKS" and "j < AIRY_CAP_MAX_TASKS"
  shows "ring_dist i j = (if i \<le> j then j - i else j + AIRY_CAP_MAX_TASKS - i)"
proof (cases "i \<le> j")
  case True
  then have e: "j + AIRY_CAP_MAX_TASKS - i = (j - i) + AIRY_CAP_MAX_TASKS" by simp
  have "ring_dist i j = (j - i) mod AIRY_CAP_MAX_TASKS"
    unfolding ring_dist_def e mod_add_self2 ..
  then show ?thesis using assms True by simp
next
  case False
  then show ?thesis using assms by (simp add: ring_dist_def)
qed

lemma ring_next_eq:
  "i < AIRY_CAP_MAX_TASKS \<Longrightarrow> ring_next i = (if Suc i = AIRY_CAP_MAX_TASKS then 0 else Suc i)"
  by (simp add: ring_next_def)

lemma ring_next_less [simp]: "ring_next i < AIRY_CAP_MAX_TASKS"
  by (simp add: ring_next_def AIRY_CAP_MAX_TASKS_def)

lemma ring_dist_next:
  assumes "qi \<noteq> tail" and "qi < AIRY_CAP_MAX_TASKS" and "tail < AIRY_CAP_MAX_TASKS"
  shows "ring_dist qi tail = Suc (ring_dist (ring_next qi) tail)"
  using assms ring_dist_eq [OF assms(2,3)] ring_dist_eq [OF ring_next_less assms(3), of qi]
  by (auto simp: ring_next_eq split: if_splits)

function ring_span :: "nat \<Rightarrow> nat \<Rightarrow> nat list" where
  "ring_span qi tail =
     (if qi = tail \<or> \<not> (qi < AIRY_CAP_MAX_TASKS \<and> tail < AIRY_CAP_MAX_TASKS) then []
      else qi # ring_span (ring_next qi) tail)"
  by auto

termination
  by (relation "measure (\<lambda>(qi, tail). ring_dist qi tail)") (auto dest: ring_dist_next)

declare ring_span.simps [simp del]

text \<open>Closing the hole at a position: the later entries move one place towards the head.\<close>

definition ring_shift :: "nat option list \<Rightarrow> nat \<Rightarrow> nat list \<Rightarrow> nat option list" where
  "ring_shift q hole srcs = fst (foldl (\<lambda>(q, dst) src. (q[dst := q ! src], ring_next dst)) (q, hole) srcs)"

definition ring_remove :: "nat \<Rightarrow> task_service \<Rightarrow> task_service" where
  "ring_remove hole s = s\<lparr>
     q_queue := ring_shift (q_queue s) hole (ring_span (ring_next hole) (q_tail s)),
     q_tail := (q_tail s + AIRY_CAP_MAX_TASKS - 1) mod AIRY_CAP_MAX_TASKS\<rparr>"

definition ring_push :: "nat \<Rightarrow> task_service \<Rightarrow> task_service" where
  "ring_push i s = s\<lparr>q_queue := (q_queue s)[q_tail s := Some i], q_tail := ring_next (q_tail s)\<rparr>"

text \<open>The priority of the task a slot points to; \<open>None\<close> when the slot is NULL.\<close>

definition slot_priority :: "task_service \<Rightarrow> nat \<Rightarrow> task_priority option" where
  "slot_priority s qi = map_option (\<lambda>t. t_priority (q_tasks s ! t)) (q_queue s ! qi)"

fun scan_best :: "(nat \<Rightarrow> task_priority option) \<Rightarrow> nat \<Rightarrow> task_priority \<Rightarrow> nat list \<Rightarrow> nat option" where
  "scan_best pr best best_p [] = Some best"
| "scan_best pr best best_p (qi # qis) =
     (case pr qi of
        None \<Rightarrow> None
      | Some p \<Rightarrow> if best_p < p then scan_best pr qi p qis else scan_best pr best best_p qis)"

definition sched_queue_take_highest :: "task_service \<Rightarrow> (task_service \<times> nat option) option" where
  "sched_queue_take_highest s =
     (if q_head s = q_tail s then Some (s, None)
      else case slot_priority s (q_head s) of
             None \<Rightarrow> None
           | Some p \<Rightarrow>
               map_option (\<lambda>best. (ring_remove best s, q_queue s ! best))
                 (scan_best (slot_priority s) (q_head s) p (ring_span (q_head s) (q_tail s))))"

section \<open>Task operations\<close>

definition find_task :: "task_service \<Rightarrow> string \<Rightarrow> nat option" where
  "find_task s i = find_index (\<lambda>t. t_task_id t = i) (q_tasks s)"

definition task_id_of :: "64 word \<Rightarrow> nat \<Rightarrow> string" where
  "task_id_of secs sq = snprintf_s 64 (''task_'' @ show_nat (unat secs) @ ''_'' @ show_nat sq)"

definition submit_id :: "64 word \<Rightarrow> task_service \<Rightarrow> sched_task_info \<Rightarrow> task_service \<times> string" where
  "submit_id secs s info =
     (case ti_task_id info of
        Some (c # cs) \<Rightarrow> (s, snprintf_s 64 (c # cs))
      | _ \<Rightarrow> (s\<lparr>q_task_seq := q_task_seq s + 1\<rparr>, task_id_of secs (q_task_seq s)))"

definition opt_str :: "string option \<Rightarrow> string" where
  "opt_str v = (case v of None \<Rightarrow> '''' | Some x \<Rightarrow> x)"

definition new_task :: "64 word \<Rightarrow> string \<Rightarrow> sched_task_info \<Rightarrow> task_record" where
  "new_task now id_buf info =
     \<lparr>t_task_id = id_buf, t_description = opt_str (ti_description info),
      t_priority = ti_priority info, t_timeout_ms = ti_timeout_ms info,
      t_status = TASK_PENDING, t_selected = None, t_output = None, t_error = None,
      t_created_at_ms = now, t_finished_at_ms = 0\<rparr>"

definition sched_service_submit_task ::
  "64 word \<Rightarrow> 64 word \<Rightarrow> task_service \<Rightarrow> sched_task_info \<Rightarrow> task_service \<times> (airy_err + string)" where
  "sched_service_submit_task secs now s info =
     (if \<not> q_initialized s then (s, Inl AIRY_ERR_INVALID_PARAM)
      else let (s, id_buf) = submit_id secs s info;
               qlen = ring_dist (q_head s) (q_tail s)
           in if find_task s id_buf \<noteq> None then (s, Inl AIRY_ERR_ALREADY_EXISTS)
              else if AIRY_CAP_MAX_TASKS - 1 \<le> qlen \<or> AIRY_CAP_MAX_TASKS \<le> length (q_tasks s)
              then (s, Inl AIRY_ERR_OVERFLOW)
              else (ring_push (length (q_tasks s))
                      (s\<lparr>q_tasks := q_tasks s @ [new_task now id_buf info]\<rparr>),
                    Inr id_buf))"

fun task_status_name :: "task_status \<Rightarrow> string" where
  "task_status_name TASK_PENDING = ''pending''"
| "task_status_name TASK_RUNNING = ''running''"
| "task_status_name TASK_COMPLETED = ''completed''"
| "task_status_name TASK_FAILED = ''failed''"
| "task_status_name TASK_CANCELED = ''canceled''"

definition task_json :: "task_record \<Rightarrow> jval" where
  "task_json t = JObj
     [(''task_id'', JStr (t_task_id t)), (''status'', JStr (task_status_name (t_status t))),
      (''priority'', JNum (unat (t_priority t))), (''timeout_ms'', JNum (unat (t_timeout_ms t))),
      (''selected_agent_id'', JStr (opt_str (t_selected t))),
      (''output'', JStr (opt_str (t_output t))), (''error'', JStr (opt_str (t_error t))),
      (''created_at_ms'', JNum (unat (t_created_at_ms t))),
      (''finished_at_ms'', JNum (unat (t_finished_at_ms t)))]"

definition sched_service_get_task :: "task_service \<Rightarrow> string \<Rightarrow> airy_err + jval" where
  "sched_service_get_task s task_id =
     (if \<not> q_initialized s then Inl AIRY_ERR_INVALID_PARAM
      else case find_task s task_id of
             None \<Rightarrow> Inl AIRY_ERR_NOT_FOUND
           | Some i \<Rightarrow> Inr (task_json (q_tasks s ! i)))"

definition sched_service_set_executor :: "task_service \<Rightarrow> task_service \<times> airy_err" where
  "sched_service_set_executor s =
     (if \<not> q_initialized s then (s, AIRY_ERR_INVALID_PARAM)
      else (s\<lparr>q_executor := True\<rparr>, AIRY_SUCCESS))"

definition set_task :: "nat \<Rightarrow> (task_record \<Rightarrow> task_record) \<Rightarrow> task_service \<Rightarrow> task_service" where
  "set_task i f s = s\<lparr>q_tasks := (q_tasks s)[i := f (q_tasks s ! i)]\<rparr>"

definition unqueue :: "nat \<Rightarrow> task_service \<Rightarrow> task_service" where
  "unqueue i s =
     (case find (\<lambda>qi. q_queue s ! qi = Some i) (ring_span (q_head s) (q_tail s)) of
        None \<Rightarrow> s
      | Some qi \<Rightarrow> ring_remove qi (s\<lparr>q_queue := (q_queue s)[qi := None]\<rparr>))"

definition sched_service_cancel_task ::
  "64 word \<Rightarrow> task_service \<Rightarrow> string \<Rightarrow> task_service \<times> airy_err" where
  "sched_service_cancel_task now s task_id =
     (if \<not> q_initialized s then (s, AIRY_ERR_INVALID_PARAM)
      else case find_task s task_id of
             None \<Rightarrow> (s, AIRY_ERR_NOT_FOUND)
           | Some i \<Rightarrow>
               if t_status (q_tasks s ! i) \<noteq> TASK_PENDING then (s, AIRY_ERR_BUSY)
               else (set_task i (\<lambda>t. t\<lparr>t_status := TASK_CANCELED, t_finished_at_ms := now,
                                      t_error := Some ''canceled by user''\<rparr>) (unqueue i s),
                     AIRY_SUCCESS))"

section \<open>Worker thread\<close>

text \<open>First critical section: leave when told to stop, else take a task, if there is one.\<close>

definition worker_take :: "task_service \<Rightarrow> task_service option" where
  "worker_take s =
     (if \<not> q_worker_run s then Some (s\<lparr>q_worker := W_Off\<rparr>)
      else if q_head s = q_tail s then Some s
      else case sched_queue_take_highest s of
             None \<Rightarrow> None
           | Some (s', None) \<Rightarrow> Some s'
           | Some (s', Some i) \<Rightarrow>
               Some ((set_task i (\<lambda>t. t\<lparr>t_status := TASK_RUNNING\<rparr>) s')\<lparr>q_worker := W_Taken i\<rparr>))"

text \<open>Second section: \<open>sched_service_schedule_task\<close> for the task just taken.\<close>

definition worker_select :: "nat \<Rightarrow> task_service \<Rightarrow> task_service" where
  "worker_select i s =
     (case sched_service_schedule_task s (t_priority (q_tasks s ! i)) of
        (s', Inl e) \<Rightarrow> s'\<lparr>q_worker := W_Selected i None\<rparr>
      | (s', Inr r) \<Rightarrow> s'\<lparr>q_worker := W_Selected i (r_selected r)\<rparr>)"

text \<open>What the code outside the lock leaves in \<open>sret\<close>, \<open>output\<close> and \<open>error\<close>.\<close>

definition exec_outcome ::
  "bool \<Rightarrow> string option \<Rightarrow> airy_err \<times> string option \<Rightarrow> airy_err \<times> string option \<times> string option" where
  "exec_outcome executor sel answer =
     (case sel of
        None \<Rightarrow> (AIRY_SUCCESS, None, Some ''no available agent registered'')
      | Some a \<Rightarrow>
          if \<not> executor then (AIRY_ERR_SVC_NOT_READY, None, Some ''task executor not injected'')
          else case answer of (rc, out) \<Rightarrow>
            (rc, out, if rc \<noteq> AIRY_SUCCESS \<or> out = None then Some ''agent dispatch failed'' else None))"

definition task_finish ::
  "64 word \<Rightarrow> 64 word \<Rightarrow> string option \<Rightarrow> airy_err \<times> string option \<times> string option \<Rightarrow> task_record \<Rightarrow> task_record" where
  "task_finish now elapsed sel outcome t =
     (case outcome of (sret, out, err) \<Rightarrow>
        let t = t\<lparr>t_selected := sel, t_finished_at_ms := now\<rparr>
        in if sret = AIRY_SUCCESS \<and> out \<noteq> None
           then if 0 < t_timeout_ms t \<and> unat (t_timeout_ms t) < unat elapsed
                then t\<lparr>t_status := TASK_FAILED, t_error := Some ''task timed out''\<rparr>
                else t\<lparr>t_status := TASK_COMPLETED, t_output := out\<rparr>
           else t\<lparr>t_status := TASK_FAILED, t_error := err\<rparr>)"

text \<open>Third section: the result is written back.\<close>

definition worker_finish ::
  "64 word \<Rightarrow> 64 word \<Rightarrow> airy_err \<times> string option \<Rightarrow> nat \<Rightarrow> string option \<Rightarrow> task_service \<Rightarrow> task_service" where
  "worker_finish now elapsed answer i sel s =
     (set_task i (task_finish now elapsed sel (exec_outcome (q_executor s) sel answer)) s)
       \<lparr>q_worker := W_Idle\<rparr>"

text \<open>Thread creation succeeds; stopping is a request that the worker follows at its next section.\<close>

definition sched_service_start_workers :: "task_service \<Rightarrow> task_service \<times> airy_err" where
  "sched_service_start_workers s =
     (if \<not> q_initialized s then (s, AIRY_ERR_INVALID_PARAM)
      else if q_worker s \<noteq> W_Off then (s, AIRY_SUCCESS)
      else (s\<lparr>q_worker_run := True, q_worker := W_Idle\<rparr>, AIRY_SUCCESS))"

definition sched_service_stop_workers :: "task_service \<Rightarrow> task_service" where
  "sched_service_stop_workers s =
     (if \<not> q_initialized s \<or> q_worker s = W_Off then s else s\<lparr>q_worker_run := False\<rparr>)"

section \<open>Interleavings\<close>

text \<open>
  One event per critical section. The worker events happen only at the place the worker thread
  has reached. A step that would follow a NULL pointer leads to \<open>None\<close>, from which no step leads
  back.
\<close>

datatype task_ev =
    T_Submit "64 word" "64 word" sched_task_info
  | T_Cancel "64 word" string
  | T_Register nat agent_info
  | T_Unregister string
  | T_Schedule task_priority
  | T_Set_Executor
  | T_Start
  | T_Stop
  | T_Take
  | T_Select
  | T_Finish "64 word" "64 word" "airy_err \<times> string option"

fun task_step :: "task_service \<Rightarrow> task_ev \<Rightarrow> task_service option" where
  "task_step s (T_Submit secs now info) = Some (fst (sched_service_submit_task secs now s info))"
| "task_step s (T_Cancel now i) = Some (fst (sched_service_cancel_task now s i))"
| "task_step s (T_Register mx info) = Some (fst (sched_service_register_agent mx s info))"
| "task_step s (T_Unregister i) = Some (fst (sched_service_unregister_agent s i))"
| "task_step s (T_Schedule prio) = Some (fst (sched_service_schedule_task s prio))"
| "task_step s T_Set_Executor = Some (fst (sched_service_set_executor s))"
| "task_step s T_Start = Some (fst (sched_service_start_workers s))"
| "task_step s T_Stop = Some (sched_service_stop_workers s)"
| "task_step s T_Take = (case q_worker s of W_Idle \<Rightarrow> worker_take s | _ \<Rightarrow> Some s)"
| "task_step s T_Select = (case q_worker s of W_Taken i \<Rightarrow> Some (worker_select i s) | _ \<Rightarrow> Some s)"
| "task_step s (T_Finish now elapsed answer) =
     (case q_worker s of
        W_Selected i sel \<Rightarrow> Some (worker_finish now elapsed answer i sel s)
      | _ \<Rightarrow> Some s)"

definition task_next :: "task_service option \<Rightarrow> task_ev \<Rightarrow> task_service option" where
  "task_next s e = Option.bind s (\<lambda>s. task_step s e)"

definition task_run :: "task_service \<Rightarrow> task_ev list \<Rightarrow> task_service option" where
  "task_run s es = foldl task_next (Some s) es"

text \<open>\<open>sched_service_checkpoint_save\<close> walks the ring; its graph part reads the DAG table.\<close>

fun count_slots :: "task_service \<Rightarrow> nat \<times> nat \<Rightarrow> nat list \<Rightarrow> (nat \<times> nat) option" where
  "count_slots s c [] = Some c"
| "count_slots s (pending, running) (qi # qis) =
     (case q_queue s ! qi of
        None \<Rightarrow> None
      | Some i \<Rightarrow>
          count_slots s
            (if t_status (q_tasks s ! i) = TASK_PENDING then (pending + 1, running)
             else if t_status (q_tasks s ! i) = TASK_RUNNING then (pending, running + 1)
             else (pending, running)) qis)"

definition sched_service_checkpoint_save ::
  "64 word \<Rightarrow> task_service \<Rightarrow> sched_dag list \<Rightarrow> (airy_err + jval) option" where
  "sched_service_checkpoint_save now s dags =
     (if \<not> q_initialized s then Some (Inl AIRY_ERR_INVALID_PARAM)
      else map_option (\<lambda>(pending, running). Inr (JObj
        [(''agent_count'', JNum (length (q_agents s))),
         (''total_tasks'', JNum (unat (q_scheduled s))),
         (''pending'', JNum pending), (''running'', JNum running),
         (''dag_count'', JNum (length dags)),
         (''active_dags'', JNum (length (filter (\<lambda>d. d_status d = DAG_ACTIVE) dags))),
         (''completed_dags'', JNum (length (filter (\<lambda>d. d_status d = DAG_COMPLETED) dags))),
         (''timestamp_ms'', JNum (unat now))]))
        (count_slots s (0, 0) (ring_span (q_head s) (q_tail s))))"

end
