(* ===== verification/Sched_Tasks_Spec.thy ===== *)
theory Sched_Tasks_Spec
  imports Sched_Tasks
begin

text \<open>
  Correctness of the single-task queue of sched_d.

  The ring buffer implements a plain list with insertion at the end and removal at a position
  (\<open>list_queue\<close>, interpreted on the ring operations). On top of it the service keeps the
  invariant that the queue is exactly the pending tasks in submission order, so that the worker
  takes the earliest task of the highest priority, no pending task is lost, and no slot that is
  followed is NULL.
\<close>

section \<open>A list behind an interface\<close>

text \<open>
  A bounded queue that is seen only through the list of its elements: what is put in comes last,
  and an element may leave from any position.
\<close>

locale list_queue =
  fixes slot :: "'a \<Rightarrow> 'b"
    and elems :: "'q \<Rightarrow> 'b list"
    and invar :: "'q \<Rightarrow> bool"
    and cap :: nat
    and push :: "'a \<Rightarrow> 'q \<Rightarrow> 'q"
    and remove_at :: "nat \<Rightarrow> 'q \<Rightarrow> 'q"
  assumes elems_push:
      "invar q \<Longrightarrow> Suc (length (elems q)) < cap \<Longrightarrow> elems (push x q) = elems q @ [slot x] \<and> invar (push x q)"
    and elems_remove:
      "invar q \<Longrightarrow> k < length (elems q) \<Longrightarrow>
         elems (remove_at k q) = take k (elems q) @ drop (Suc k) (elems q) \<and> invar (remove_at k q)"
begin

lemma remove_invar: "invar q \<Longrightarrow> k < length (elems q) \<Longrightarrow> invar (remove_at k q)"
  using elems_remove by blast

lemma remove_filter:
  assumes "invar q" and "elems q = map f xs" and "distinct xs" and "k < length xs"
  shows "elems (remove_at k q) = map f (filter (\<lambda>x. x \<noteq> xs ! k) xs)"
proof -
  obtain ys zs where xs: "xs = ys @ xs ! k # zs" and k: "length ys = k"
    using assms(4) id_take_nth_drop [of k xs] by (metis length_take min.absorb4)
  have "distinct (ys @ xs ! k # zs)" using assms(3) xs by simp
  then have "filter (\<lambda>x. x \<noteq> xs ! k) ys = ys" and "filter (\<lambda>x. x \<noteq> xs ! k) zs = zs"
    by (auto intro!: filter_True)
  then have "filter (\<lambda>x. x \<noteq> xs ! k) (ys @ xs ! k # zs) = ys @ zs" by simp
  moreover have "take k xs @ drop (Suc k) xs = ys @ zs"
    using k by (subst (1 2) xs) simp
  ultimately have "take k xs @ drop (Suc k) xs = filter (\<lambda>x. x \<noteq> xs ! k) xs" using xs by simp
  moreover have "elems (remove_at k q) = take k (elems q) @ drop (Suc k) (elems q)"
    using elems_remove [of q k] assms by simp
  ultimately show ?thesis using assms(2) by (simp add: take_map drop_map flip: map_append)
qed

end

section \<open>The ring implements it\<close>

definition ring_pos :: "nat \<Rightarrow> nat \<Rightarrow> nat" where
  "ring_pos head k = (head + k) mod AIRY_CAP_MAX_TASKS"

definition ring_ok :: "task_service \<Rightarrow> bool" where
  "ring_ok s \<longleftrightarrow> length (q_queue s) = AIRY_CAP_MAX_TASKS \<and>
     q_head s < AIRY_CAP_MAX_TASKS \<and> q_tail s < AIRY_CAP_MAX_TASKS"

definition ring_list :: "task_service \<Rightarrow> nat option list" where
  "ring_list s = map (\<lambda>qi. q_queue s ! qi) (ring_span (q_head s) (q_tail s))"

lemma cap_pos [simp]: "0 < AIRY_CAP_MAX_TASKS" "AIRY_CAP_MAX_TASKS \<noteq> 0"
  by (simp_all add: AIRY_CAP_MAX_TASKS_def)

lemma ring_next_pos: "ring_next (ring_pos h k) = ring_pos h (Suc k)"
  by (simp add: ring_next_def ring_pos_def mod_simps)

lemma ring_pos_next: "ring_pos (ring_next h) k = ring_pos h (Suc k)"
  by (simp add: ring_next_def ring_pos_def mod_simps)

lemma ring_pos_less_neq:
  assumes "j < k" and "k < AIRY_CAP_MAX_TASKS"
  shows "ring_pos h j \<noteq> ring_pos h k"
proof
  assume "ring_pos h j = ring_pos h k"
  then have "AIRY_CAP_MAX_TASKS dvd (h + k) - (h + j)"
    using assms(1) mod_eq_dvd_iff_nat [of "h + j" "h + k" AIRY_CAP_MAX_TASKS]
    by (simp add: ring_pos_def)
  with assms show False using nat_dvd_not_less [of "k - j" AIRY_CAP_MAX_TASKS] by simp
qed

lemma ring_pos_inj:
  "j < AIRY_CAP_MAX_TASKS \<Longrightarrow> k < AIRY_CAP_MAX_TASKS \<Longrightarrow> ring_pos h j = ring_pos h k \<longleftrightarrow> j = k"
  using ring_pos_less_neq by (metis linorder_neqE_nat)

lemma ring_pos_less [simp]: "ring_pos h k < AIRY_CAP_MAX_TASKS"
  by (simp add: ring_pos_def)

lemma ring_dist_less [simp]: "ring_dist h t < AIRY_CAP_MAX_TASKS"
  by (simp add: ring_dist_def)

lemma ring_span_conv:
  "h < AIRY_CAP_MAX_TASKS \<Longrightarrow> t < AIRY_CAP_MAX_TASKS \<Longrightarrow>
     ring_span h t = map (ring_pos h) [0..<ring_dist h t]"
proof (induction h t rule: ring_span.induct)
  case (1 h t)
  show ?case
  proof (cases "h = t")
    case True
    with 1(2) show ?thesis by (simp add: ring_span.simps [of t t] ring_dist_eq)
  next
    case False
    with 1 have "ring_span h t = h # map (ring_pos (ring_next h)) [0..<ring_dist (ring_next h) t]"
      by (simp add: ring_span.simps [of h t])
    also have "\<dots> = map (ring_pos h) [0..<Suc (ring_dist (ring_next h) t)]"
      using 1(2) by (simp add: ring_pos_next map_upt_Suc ring_pos_def [of h 0] del: upt_Suc)
    also have "Suc (ring_dist (ring_next h) t) = ring_dist h t"
      using 1(2,3) False by (simp add: ring_dist_next)
    finally show ?thesis .
  qed
qed

lemma ring_list_nth:
  "ring_ok s \<Longrightarrow> k < ring_dist (q_head s) (q_tail s) \<Longrightarrow>
     ring_list s ! k = q_queue s ! ring_pos (q_head s) k"
  by (simp add: ring_list_def ring_ok_def ring_span_conv)

lemma length_ring_list:
  "ring_ok s \<Longrightarrow> length (ring_list s) = ring_dist (q_head s) (q_tail s)"
  by (simp add: ring_list_def ring_ok_def ring_span_conv)

text \<open>The tail is where the next element goes.\<close>

lemma tail_pos: "ring_ok s \<Longrightarrow> q_tail s = ring_pos (q_head s) (ring_dist (q_head s) (q_tail s))"
  by (auto simp: ring_ok_def ring_dist_eq ring_pos_def)

lemma ring_dist_pos:
  assumes "h < AIRY_CAP_MAX_TASKS" and "n < AIRY_CAP_MAX_TASKS"
  shows "ring_dist h (ring_pos h n) = n"
proof (cases "h + n < AIRY_CAP_MAX_TASKS")
  case True
  then show ?thesis using assms by (simp add: ring_dist_eq ring_pos_def)
next
  case False
  then have "ring_pos h n = h + n - AIRY_CAP_MAX_TASKS"
    using assms by (simp add: ring_pos_def mod_if)
  then show ?thesis using assms False by (auto simp: ring_dist_eq)
qed

lemma ring_list_push:
  assumes "ring_ok s" and "Suc (length (ring_list s)) < AIRY_CAP_MAX_TASKS"
  shows "ring_list (ring_push i s) = ring_list s @ [Some i] \<and> ring_ok (ring_push i s)"
proof -
  let ?h = "q_head s" and ?n = "ring_dist (q_head s) (q_tail s)"
  have ok: "ring_ok (ring_push i s)" using assms(1) by (simp add: ring_ok_def ring_push_def)
  have t: "q_tail s = ring_pos ?h ?n" using assms(1) by (rule tail_pos)
  then have "ring_next (q_tail s) = ring_pos ?h (Suc ?n)" by (metis ring_next_pos)
  then have d: "ring_dist ?h (ring_next (q_tail s)) = Suc ?n"
    using assms by (simp add: ring_dist_pos ring_ok_def length_ring_list)
  have "ring_list (ring_push i s) ! k = (ring_list s @ [Some i]) ! k" if "k < Suc ?n" for k
  proof -
    have "ring_list (ring_push i s) ! k = (q_queue s)[q_tail s := Some i] ! ring_pos ?h k"
      using ring_list_nth [OF ok] that d by (simp add: ring_push_def)
    moreover have "(ring_pos ?h k = q_tail s) = (k = ?n)"
      using that assms(2) length_ring_list [OF assms(1)] ring_pos_inj [of k ?n ?h] t by simp
    ultimately show ?thesis
      using that assms(1) length_ring_list [OF assms(1)] ring_list_nth [OF assms(1), of k]
      by (auto simp: nth_append ring_ok_def nth_list_update)
  qed
  then have "ring_list (ring_push i s) = ring_list s @ [Some i]"
    using d length_ring_list [OF ok] length_ring_list [OF assms(1)]
    by (intro nth_equalityI) (simp_all add: ring_push_def)
  with ok show ?thesis by simp
qed

text \<open>Where the entries are after the loop that closes a hole has handled the positions below \<open>m\<close>.\<close>

lemma shift_foldl:
  assumes "h < AIRY_CAP_MAX_TASKS" and "length q = AIRY_CAP_MAX_TASKS"
    and "k < m" and "m \<le> AIRY_CAP_MAX_TASKS"
  shows "\<exists>q'. foldl (\<lambda>(q, dst) src. (q[dst := q ! src], ring_next dst)) (q, ring_pos h k)
           (map (ring_pos h) [Suc k..<m]) = (q', ring_pos h (m - 1)) \<and>
         length q' = AIRY_CAP_MAX_TASKS \<and>
         (\<forall>j<AIRY_CAP_MAX_TASKS.
            q' ! ring_pos h j = q ! ring_pos h (if k \<le> j \<and> Suc j < m then Suc j else j))"
  using assms(3,4)
proof (induction m)
  case 0
  then show ?case by simp
next
  case (Suc m)
  show ?case
  proof (cases "k = m")
    case True
    with assms Suc show ?thesis by auto
  next
    case False
    with Suc obtain q' where
      f: "foldl (\<lambda>(q, dst) src. (q[dst := q ! src], ring_next dst)) (q, ring_pos h k)
           (map (ring_pos h) [Suc k..<m]) = (q', ring_pos h (m - 1))"
      and l: "length q' = AIRY_CAP_MAX_TASKS"
      and n: "\<forall>j<AIRY_CAP_MAX_TASKS.
            q' ! ring_pos h j = q ! ring_pos h (if k \<le> j \<and> Suc j < m then Suc j else j)"
      by auto
    let ?q = "q'[ring_pos h (m - 1) := q' ! ring_pos h m]"
    have "?q ! ring_pos h j = q ! ring_pos h (if k \<le> j \<and> Suc j < Suc m then Suc j else j)"
      if "j < AIRY_CAP_MAX_TASKS" for j
    proof (cases "j = m - 1")
      case True
      have "?q ! ring_pos h j = q' ! ring_pos h m" using True l by simp
      moreover have "q' ! ring_pos h m = q ! ring_pos h m"
        using n [rule_format, of m] Suc.prems by simp
      moreover have "k \<le> j" and "Suc j = m" using True False Suc.prems by auto
      ultimately show ?thesis by simp
    next
      case F: False
      then have "ring_pos h (m - 1) \<noteq> ring_pos h j"
        using that Suc by (subst ring_pos_inj) auto
      then have "?q ! ring_pos h j = q' ! ring_pos h j" by simp
      moreover have "Suc j < Suc m \<longleftrightarrow> Suc j < m" using F by auto
      ultimately show ?thesis using n [rule_format, OF that] by simp
    qed
    moreover have "ring_next (ring_pos h (m - 1)) = ring_pos h m"
      using Suc False by (simp add: ring_next_pos)
    ultimately show ?thesis using f l Suc False by simp
  qed
qed

lemma tail_pred:
  assumes "ring_ok s" and "0 < ring_dist (q_head s) (q_tail s)"
  shows "(q_tail s + AIRY_CAP_MAX_TASKS - 1) mod AIRY_CAP_MAX_TASKS =
           ring_pos (q_head s) (ring_dist (q_head s) (q_tail s) - 1)"
proof -
  have "q_tail s = ring_next (ring_pos (q_head s) (ring_dist (q_head s) (q_tail s) - 1))"
    using tail_pos [OF assms(1)] assms(2) by (simp add: ring_next_pos)
  moreover have "(ring_next i + AIRY_CAP_MAX_TASKS - 1) mod AIRY_CAP_MAX_TASKS = i"
    if "i < AIRY_CAP_MAX_TASKS" for i
    using that by (auto simp: ring_next_eq)
  ultimately show ?thesis by (metis ring_pos_less)
qed

lemma ring_span_pos:
  assumes "h < AIRY_CAP_MAX_TASKS" and "k \<le> n" and "n < AIRY_CAP_MAX_TASKS"
  shows "ring_span (ring_pos h k) (ring_pos h n) = map (ring_pos h) [k..<n]"
proof -
  have p: "ring_pos (ring_pos h k) j = ring_pos h (k + j)" for j
    by (simp add: ring_pos_def mod_simps add.assoc)
  have "ring_dist (ring_pos h k) (ring_pos h n) = n - k"
    using ring_dist_pos [of "ring_pos h k" "n - k"] assms p [of "n - k"] by simp
  then show ?thesis
    by (intro nth_equalityI) (simp_all add: ring_span_conv p)
qed

lemma ring_list_remove:
  assumes "ring_ok s" and "k < length (ring_list s)"
  shows "ring_list (ring_remove (ring_pos (q_head s) k) s) = take k (ring_list s) @ drop (Suc k) (ring_list s)
         \<and> ring_ok (ring_remove (ring_pos (q_head s) k) s)"
proof -
  let ?h = "q_head s" and ?n = "ring_dist (q_head s) (q_tail s)"
  let ?s = "ring_remove (ring_pos ?h k) s"
  have k: "k < ?n" using assms by (simp add: length_ring_list)
  have t: "q_tail s = ring_pos ?h ?n" using assms(1) by (rule tail_pos)
  have "ring_span (ring_next (ring_pos ?h k)) (q_tail s) = map (ring_pos ?h) [Suc k..<?n]"
    using k assms(1) by (subst t) (simp add: ring_next_pos ring_span_pos ring_ok_def)
  then obtain q' where q': "q_queue ?s = q'" and l: "length q' = AIRY_CAP_MAX_TASKS"
    and nth: "\<forall>j<AIRY_CAP_MAX_TASKS.
      q' ! ring_pos ?h j = q_queue s ! ring_pos ?h (if k \<le> j \<and> Suc j < ?n then Suc j else j)"
    using shift_foldl [of ?h "q_queue s" k ?n] k assms(1) ring_dist_less [of ?h "q_tail s"]
    by (auto simp: ring_remove_def ring_shift_def ring_ok_def)
  have tl: "q_tail ?s = ring_pos ?h (?n - 1)" 
    using tail_pred [OF assms(1)] k by (simp add: ring_remove_def)
  then have d: "ring_dist (q_head ?s) (q_tail ?s) = ?n - 1"
    using assms(1) by (simp add: ring_dist_pos ring_ok_def ring_remove_def less_imp_diff_less)
  have ok: "ring_ok ?s" using assms(1) l q' tl by (simp add: ring_ok_def ring_remove_def)
  have h: "q_head ?s = ?h" by (simp add: ring_remove_def)
  have "ring_list ?s ! j = (take k (ring_list s) @ drop (Suc k) (ring_list s)) ! j" if "j < ?n - 1" for j
  proof -
    have "j < AIRY_CAP_MAX_TASKS" using that less_trans [OF _ ring_dist_less [of ?h "q_tail s"], of j] by auto
    then have "ring_list ?s ! j = q_queue s ! ring_pos ?h (if k \<le> j then Suc j else j)"
      using ring_list_nth [OF ok, of j] that d h q' nth by auto
    also have "\<dots> = ring_list s ! (if k \<le> j then Suc j else j)"
      using ring_list_nth [OF assms(1)] that by auto
    finally show ?thesis using that k length_ring_list [OF assms(1)] by (auto simp: nth_append)
  qed
  then have "ring_list ?s = take k (ring_list s) @ drop (Suc k) (ring_list s)"
    using d length_ring_list [OF ok] length_ring_list [OF assms(1)] k
    by (intro nth_equalityI) (simp_all add: min_def)
  with ok show ?thesis by simp
qed

interpretation rq: list_queue Some ring_list ring_ok AIRY_CAP_MAX_TASKS
    ring_push "\<lambda>k s. ring_remove (ring_pos (q_head s) k) s"
  by unfold_locales (rule ring_list_push ring_list_remove; assumption)+

section \<open>The service invariant\<close>

definition pend :: "task_service \<Rightarrow> nat list" where
  "pend s = filter (\<lambda>i. t_status (q_tasks s ! i) = TASK_PENDING) [0..<length (q_tasks s)]"

fun held :: "worker_state \<Rightarrow> nat option" where
  "held (W_Taken i) = Some i"
| "held (W_Selected i sel) = Some i"
| "held _ = None"

text \<open>What the fields of a record say for each status.\<close>

definition task_ok :: "task_record \<Rightarrow> bool" where
  "task_ok t \<longleftrightarrow>
     (case t_status t of
        TASK_PENDING \<Rightarrow> t_selected t = None \<and> t_output t = None \<and> t_error t = None \<and> t_finished_at_ms t = 0
      | TASK_RUNNING \<Rightarrow> t_selected t = None \<and> t_output t = None \<and> t_error t = None \<and> t_finished_at_ms t = 0
      | TASK_COMPLETED \<Rightarrow> t_selected t \<noteq> None \<and> t_output t \<noteq> None \<and> t_error t = None
      | TASK_FAILED \<Rightarrow> t_output t = None \<and> t_error t \<noteq> None
      | TASK_CANCELED \<Rightarrow> t_selected t = None \<and> t_output t = None \<and> t_error t = Some ''canceled by user'')"

definition queue_ok :: "task_service \<Rightarrow> bool" where
  "queue_ok s \<longleftrightarrow> ring_ok s \<and> ring_list s = map Some (pend s)"

definition tq_inv :: "task_service \<Rightarrow> bool" where
  "tq_inv s \<longleftrightarrow> q_initialized s \<and> queue_ok s \<and> length (q_tasks s) \<le> AIRY_CAP_MAX_TASKS \<and>
     distinct (map t_task_id (q_tasks s)) \<and> list_all task_ok (q_tasks s) \<and>
     (\<forall>i. held (q_worker s) = Some i \<longleftrightarrow>
        i < length (q_tasks s) \<and> t_status (q_tasks s ! i) = TASK_RUNNING)"

lemma mem_pend: "i \<in> set (pend s) \<longleftrightarrow> i < length (q_tasks s) \<and> t_status (q_tasks s ! i) = TASK_PENDING"
  by (auto simp: pend_def)

lemma distinct_pend [simp]: "distinct (pend s)"
  by (simp add: pend_def)

lemma sorted_pend: "sorted_wrt (<) (pend s)"
  by (simp add: pend_def sorted_wrt_filter)

text \<open>Operations that leave the tasks, the ring and the worker's task alone keep the invariant.\<close>

lemma tq_inv_frame:
  assumes "tq_inv s" and "q_initialized s' = q_initialized s" and "q_tasks s' = q_tasks s"
    and "q_queue s' = q_queue s" and "q_head s' = q_head s" and "q_tail s' = q_tail s"
    and "held (q_worker s') = held (q_worker s)"
  shows "tq_inv s'"
  using assms by (simp add: tq_inv_def queue_ok_def ring_ok_def ring_list_def pend_def)

lemma ring_list_tasks [simp]: "ring_list (s\<lparr>q_tasks := ts\<rparr>) = ring_list s"
  by (simp add: ring_list_def)

lemma ring_ok_tasks [simp]: "ring_ok (s\<lparr>q_tasks := ts\<rparr>) = ring_ok s"
  by (simp add: ring_ok_def)

lemma ring_worker [simp]:
  "ring_list (s\<lparr>q_worker := w\<rparr>) = ring_list s" "ring_ok (s\<lparr>q_worker := w\<rparr>) = ring_ok s"
  "pend (s\<lparr>q_worker := w\<rparr>) = pend s"
  by (simp_all add: ring_list_def ring_ok_def pend_def)

lemma ring_remove_frame [simp]:
  "q_tasks (ring_remove k s) = q_tasks s" "q_worker (ring_remove k s) = q_worker s"
  "q_head (ring_remove k s) = q_head s" "q_initialized (ring_remove k s) = q_initialized s"
  "q_executor (ring_remove k s) = q_executor s" "q_worker_run (ring_remove k s) = q_worker_run s"
  by (simp_all add: ring_remove_def)

lemma set_task_frame [simp]:
  "length (q_tasks (set_task i f s)) = length (q_tasks s)" "q_worker (set_task i f s) = q_worker s"
  "q_initialized (set_task i f s) = q_initialized s" "q_worker_run (set_task i f s) = q_worker_run s"
  "ring_list (set_task i f s) = ring_list s" "ring_ok (set_task i f s) = ring_ok s"
  by (simp_all add: set_task_def)

lemma set_task_nth:
  "j < length (q_tasks s) \<Longrightarrow>
     q_tasks (set_task i f s) ! j = (if j = i then f (q_tasks s ! i) else q_tasks s ! j)"
  by (auto simp: set_task_def nth_list_update)

text \<open>A task that stops being pending leaves the list of pending tasks, and only that task.\<close>

lemma pend_set_task:
  assumes "i < length (q_tasks s)" and "t_status (f (q_tasks s ! i)) \<noteq> TASK_PENDING"
  shows "pend (set_task i f s) = filter (\<lambda>j. j \<noteq> i) (pend s)"
  unfolding pend_def filter_filter
  by (rule filter_cong) (auto simp: set_task_nth assms)

lemma list_all_set_task:
  "list_all P (q_tasks s) \<Longrightarrow> i < length (q_tasks s) \<Longrightarrow> P (f (q_tasks s ! i)) \<Longrightarrow>
     list_all P (q_tasks (set_task i f s))"
  by (auto simp: list_all_length set_task_nth)

lemma ids_set_task:
  "(\<And>t. t_task_id (f t) = t_task_id t) \<Longrightarrow> map t_task_id (q_tasks (set_task i f s)) = map t_task_id (q_tasks s)"
  by (rule nth_equalityI) (auto simp: set_task_nth)

text \<open>Moving a task out of the queue and out of the pending state keeps queue and table in step.\<close>

lemma queue_ok_drop:
  assumes "queue_ok s" and "i \<in> set (pend s)" and "ring_list s ! k = Some i" and "k < length (ring_list s)"
    and "t_status (f (q_tasks s ! i)) \<noteq> TASK_PENDING"
  shows "queue_ok (set_task i f (ring_remove (ring_pos (q_head s) k) s))"
proof -
  let ?s = "ring_remove (ring_pos (q_head s) k) s"
  have k: "k < length (pend s)" and pk: "pend s ! k = i"
    using assms(1,3,4) by (auto simp: queue_ok_def)
  have "ring_list ?s = map Some (filter (\<lambda>j. j \<noteq> i) (pend s))"
    using rq.remove_filter [of s Some "pend s" k] assms(1) k pk by (simp add: queue_ok_def)
  moreover have "pend ?s = pend s" by (simp add: pend_def)
  ultimately have "ring_list (set_task i f ?s) = map Some (pend (set_task i f ?s))"
    using assms(2,5) by (simp add: pend_set_task mem_pend)
  moreover have "ring_ok ?s" using rq.remove_invar assms(1,4) by (simp add: queue_ok_def)
  ultimately show ?thesis by (simp add: queue_ok_def)
qed

section \<open>Submitting\<close>

interpretation tsk: keyed_table "\<lambda>s. map t_task_id (q_tasks s)" "\<lambda>_. True" find_task
  by unfold_locales (simp_all add: find_task_def find_index_map_law)

lemma submit_id_frame:
  "submit_id secs s info = (s', i) \<Longrightarrow>
     q_tasks s' = q_tasks s \<and> q_queue s' = q_queue s \<and> q_head s' = q_head s \<and> q_tail s' = q_tail s \<and>
     q_worker s' = q_worker s \<and> q_initialized s' = q_initialized s"
  by (auto simp: submit_id_def split: option.splits list.splits)

lemma submit_inv_new:
  assumes "tq_inv s" and "i \<notin> set (map t_task_id (q_tasks s))"
    and "Suc (ring_dist (q_head s) (q_tail s)) < AIRY_CAP_MAX_TASKS"
    and "length (q_tasks s) < AIRY_CAP_MAX_TASKS"
  shows "tq_inv (ring_push (length (q_tasks s)) (s\<lparr>q_tasks := q_tasks s @ [new_task now i info]\<rparr>))"
proof -
  let ?t = "new_task now i info" and ?n = "length (q_tasks s)"
  let ?s = "s\<lparr>q_tasks := q_tasks s @ [?t]\<rparr>"
  have st: "t_status ?t = TASK_PENDING" "t_task_id ?t = i" "task_ok ?t"
    by (simp_all add: new_task_def task_ok_def)
  have ok: "ring_ok s" "ring_list s = map Some (pend s)" using assms(1) by (auto simp: tq_inv_def queue_ok_def)
  have "ring_list (ring_push ?n ?s) = ring_list s @ [Some ?n] \<and> ring_ok (ring_push ?n ?s)"
    using rq.elems_push [of ?s ?n] ok(1) assms(3) length_ring_list [OF ok(1)] by simp
  moreover have "pend (ring_push ?n ?s) = pend s @ [?n]"
  proof -
    have "filter (\<lambda>j. t_status ((q_tasks s @ [?t]) ! j) = TASK_PENDING) [0..<?n] = pend s"
      unfolding pend_def by (rule filter_cong) (auto simp: nth_append)
    then show ?thesis using st(1) by (simp add: pend_def ring_push_def)
  qed
  ultimately have "queue_ok (ring_push ?n ?s)" using ok by (simp add: queue_ok_def)
  moreover have "held (q_worker s) = Some j \<longleftrightarrow>
      j < Suc ?n \<and> t_status ((q_tasks s @ [?t]) ! j) = TASK_RUNNING" for j
    using assms(1) st(1) by (auto simp: tq_inv_def nth_append less_Suc_eq)
  ultimately show ?thesis using assms st by (simp add: tq_inv_def ring_push_def)
qed

lemma task_submit_inv:
  assumes "tq_inv s"
  shows "tq_inv (fst (sched_service_submit_task secs now s info))"
proof -
  obtain s1 i where e: "submit_id secs s info = (s1, i)" by (cases "submit_id secs s info")
  have i1: "tq_inv s1" using assms submit_id_frame [OF e] by (auto intro: tq_inv_frame)
  show ?thesis
    using assms i1 submit_inv_new [OF i1, of i now info] tsk.find_None [where t = s1 and k = i]
    by (auto simp: sched_service_submit_task_def e Let_def tq_inv_def [of s] not_le less_Suc_eq_le)
qed

section \<open>Cancelling\<close>

text \<open>The scan of the ring for a record finds the slot that points to it.\<close>

lemma find_slot:
  assumes "ring_ok s" and "Some i \<in> set (ring_list s)"
  obtains k where "find (\<lambda>qi. q_queue s ! qi = Some i) (ring_span (q_head s) (q_tail s)) = Some (ring_pos (q_head s) k)"
    and "k < length (ring_list s)" and "ring_list s ! k = Some i"
proof -
  let ?sp = "ring_span (q_head s) (q_tail s)"
  have "\<exists>qi\<in>set ?sp. q_queue s ! qi = Some i" using assms(2) by (auto simp: ring_list_def)
  then have "find (\<lambda>qi. q_queue s ! qi = Some i) ?sp \<noteq> None" by (auto simp: find_None_iff)
  then obtain qi where f: "find (\<lambda>qi. q_queue s ! qi = Some i) ?sp = Some qi" by blast
  then obtain k where k: "k < length ?sp" "?sp ! k = qi" "q_queue s ! qi = Some i"
    by (auto simp: find_Some_iff)
  then have "qi = ring_pos (q_head s) k" and "k < length (ring_list s)" and "ring_list s ! k = Some i"
    using assms(1) by (auto simp: ring_span_conv ring_ok_def ring_list_def)
  with f that show thesis by blast
qed

text \<open>Clearing the slot first changes nothing: the shift overwrites it, or the tail excludes it.\<close>

lemma remove_cleared:
  assumes "ring_ok s" and "k < length (ring_list s)"
  shows "ring_list (ring_remove (ring_pos (q_head s) k) (s\<lparr>q_queue := (q_queue s)[ring_pos (q_head s) k := None]\<rparr>))
           = ring_list (ring_remove (ring_pos (q_head s) k) s)
         \<and> ring_ok (ring_remove (ring_pos (q_head s) k) (s\<lparr>q_queue := (q_queue s)[ring_pos (q_head s) k := None]\<rparr>))"
proof -
  let ?c = "s\<lparr>q_queue := (q_queue s)[ring_pos (q_head s) k := None]\<rparr>"
  have ok: "ring_ok ?c" using assms(1) by (simp add: ring_ok_def)
  have l: "length (ring_list ?c) = length (ring_list s)"
    using length_ring_list [OF ok] length_ring_list [OF assms(1)] by simp
  have "ring_list ?c ! j = ring_list s ! j" if "j < length (ring_list s)" "j \<noteq> k" for j
  proof -
    have "j < AIRY_CAP_MAX_TASKS" "k < AIRY_CAP_MAX_TASKS"
      using that assms by (auto simp: length_ring_list intro: less_trans ring_dist_less)
    then have "ring_pos (q_head s) k \<noteq> ring_pos (q_head s) j" using that by (simp add: ring_pos_inj)
    then show ?thesis
      using that ring_list_nth [OF ok] ring_list_nth [OF assms(1)] length_ring_list [OF assms(1)] by simp
  qed
  then have "take k (ring_list ?c) = take k (ring_list s)" "drop (Suc k) (ring_list ?c) = drop (Suc k) (ring_list s)"
    using l assms(2) by (auto intro!: nth_equalityI)
  then show ?thesis
    using rq.elems_remove [OF ok, of k] rq.elems_remove [OF assms(1), of k] l assms(2) by simp
qed

lemma queue_ok_unqueue:
  assumes "queue_ok s" and "i \<in> set (pend s)" and "t_status (f (q_tasks s ! i)) \<noteq> TASK_PENDING"
  shows "queue_ok (set_task i f (unqueue i s)) \<and> q_tasks (unqueue i s) = q_tasks s \<and>
         q_worker (unqueue i s) = q_worker s \<and> q_initialized (unqueue i s) = q_initialized s"
proof -
  have "ring_ok s" and "Some i \<in> set (ring_list s)" using assms(1,2) by (auto simp: queue_ok_def)
  then obtain k where
    k: "find (\<lambda>qi. q_queue s ! qi = Some i) (ring_span (q_head s) (q_tail s)) = Some (ring_pos (q_head s) k)"
      "k < length (ring_list s)" "ring_list s ! k = Some i"
    by (rule find_slot)
  let ?r = "ring_remove (ring_pos (q_head s) k) s"
  have u: "unqueue i s = ring_remove (ring_pos (q_head s) k) (s\<lparr>q_queue := (q_queue s)[ring_pos (q_head s) k := None]\<rparr>)"
    using k(1) by (simp add: unqueue_def)
  have "queue_ok (set_task i f ?r)" using queue_ok_drop [of s i k f] assms k by simp
  moreover have "pend (set_task i f (unqueue i s)) = pend (set_task i f ?r)"
    by (simp add: u pend_def set_task_def)
  ultimately show ?thesis
    using remove_cleared [OF \<open>ring_ok s\<close> k(2)] u by (simp add: queue_ok_def)
qed

lemma task_cancel_inv:
  assumes "tq_inv s"
  shows "tq_inv (fst (sched_service_cancel_task now s task_id))"
proof (cases "find_task s task_id")
  case None
  with assms show ?thesis by (simp add: sched_service_cancel_task_def)
next
  case (Some i)
  let ?f = "\<lambda>t. t\<lparr>t_status := TASK_CANCELED, t_finished_at_ms := now, t_error := Some ''canceled by user''\<rparr>"
  have i: "i < length (q_tasks s)" using tsk.find_SomeD [OF Some] by simp
  show ?thesis
  proof (cases "t_status (q_tasks s ! i) = TASK_PENDING")
    case False
    with assms Some show ?thesis by (simp add: sched_service_cancel_task_def)
  next
    case True
    have u: "queue_ok (set_task i ?f (unqueue i s)) \<and> q_tasks (unqueue i s) = q_tasks s \<and>
        q_worker (unqueue i s) = q_worker s \<and> q_initialized (unqueue i s) = q_initialized s"
      using assms i True by (intro queue_ok_unqueue) (auto simp: tq_inv_def mem_pend)
    have "task_ok (q_tasks s ! i)" using assms i by (auto simp: tq_inv_def list_all_length)
    then have "task_ok (?f (q_tasks s ! i))" using True by (simp add: task_ok_def)
    then have "list_all task_ok (q_tasks (set_task i ?f (unqueue i s)))"
      using assms i u by (intro list_all_set_task) (auto simp: tq_inv_def)
    moreover have "map t_task_id (q_tasks (set_task i ?f (unqueue i s))) = map t_task_id (q_tasks s)"
      using u by (simp add: ids_set_task)
    moreover have "j < length (q_tasks s) \<Longrightarrow> t_status (q_tasks (set_task i ?f (unqueue i s)) ! j) = TASK_RUNNING
        \<longleftrightarrow> t_status (q_tasks s ! j) = TASK_RUNNING" for j
      using u True by (simp add: set_task_nth)
    ultimately have "tq_inv (set_task i ?f (unqueue i s))"
      using assms u by (auto simp: tq_inv_def)
    then show ?thesis using Some True assms by (simp add: sched_service_cancel_task_def tq_inv_def)
  qed
qed

section \<open>Taking the task of highest priority\<close>

text \<open>The scan returns the first position with the largest priority among those it has seen.\<close>

lemma scan_best_correct:
  assumes "pr best = Some bp" and "\<forall>p\<in>set ps. pr p \<noteq> None"
  shows "\<exists>us b vs pb. best # ps = us @ b # vs \<and> scan_best pr best bp ps = Some b \<and> pr b = Some pb \<and>
           (\<forall>u\<in>set us. the (pr u) < pb) \<and> (\<forall>v\<in>set vs. the (pr v) \<le> pb)"
  using assms
proof (induction ps arbitrary: best bp)
  case Nil
  then show ?case by - (rule exI [of _ "[]"], simp)
next
  case (Cons q ps)
  then obtain p where p: "pr q = Some p" by auto
  show ?case
  proof (cases "bp < p")
    case True
    with Cons p obtain us b vs pb where
      IH: "q # ps = us @ b # vs" "scan_best pr q p ps = Some b" "pr b = Some pb"
        "\<forall>u\<in>set us. the (pr u) < pb" "\<forall>v\<in>set vs. the (pr v) \<le> pb"
      by (metis list.set_intros(2))
    have "p \<le> pb" using IH(1,3-5) p by (cases us) (auto intro: less_imp_le)
    then have "\<forall>u\<in>set (best # us). the (pr u) < pb" using IH(4) True Cons.prems(1) by auto
    moreover have "best # q # ps = (best # us) @ b # vs" using IH(1) by simp
    moreover have "scan_best pr best bp (q # ps) = Some b" using True p IH(2) by simp
    ultimately show ?thesis using IH(3,5) by blast
  next
    case False
    with Cons p obtain us b vs pb where
      IH: "best # ps = us @ b # vs" "scan_best pr best bp ps = Some b" "pr b = Some pb"
        "\<forall>u\<in>set us. the (pr u) < pb" "\<forall>v\<in>set vs. the (pr v) \<le> pb"
      by (metis list.set_intros(2))
    show ?thesis
    proof (cases us)
      case Nil
      with IH False p Cons.prems(1) show ?thesis
        by - (rule exI [of _ "[]"], rule exI [of _ b], rule exI [of _ "q # vs"], rule exI [of _ pb], auto)
    next
      case (Cons u us')
      with IH False p \<open>pr best = Some bp\<close> show ?thesis
        by - (rule exI [of _ "best # q # us'"], rule exI [of _ b], rule exI [of _ vs], rule exI [of _ pb], auto)
    qed
  qed
qed

lemma scan_best_nth:
  assumes "ps \<noteq> []" and "\<forall>j<length ps. pr (ps ! j) = Some (f j)"
  obtains k where "k < length ps" and "scan_best pr (ps ! 0) (f 0) ps = Some (ps ! k)"
    and "\<forall>j<length ps. f j \<le> f k \<and> (j < k \<longrightarrow> f j < f k)"
proof -
  have "pr (ps ! 0) = Some (f 0)" and "\<forall>p\<in>set ps. pr p \<noteq> None"
    using assms by (auto simp: in_set_conv_nth)
  then obtain us b vs pb where
    b: "ps ! 0 # ps = us @ b # vs" "scan_best pr (ps ! 0) (f 0) ps = Some b" "pr b = Some pb"
      "\<forall>u\<in>set us. the (pr u) < pb" "\<forall>v\<in>set vs. the (pr v) \<le> pb"
    using scan_best_correct [of pr "ps ! 0" "f 0" ps] by blast
  have "\<exists>us' vs'. ps = us' @ b # vs' \<and> (\<forall>u\<in>set us'. the (pr u) < pb) \<and> (\<forall>v\<in>set vs'. the (pr v) \<le> pb)"
  proof (cases us)
    case Nil
    with b(1) assms(1) have "ps = [] @ b # tl ps" and "set (tl ps) \<subseteq> set vs" by (cases ps, auto)+
    with b(5) show ?thesis by (metis empty_iff list.set(1) subsetD)
  next
    case (Cons u us')
    with b show ?thesis by auto
  qed
  then obtain us' vs' where s': "ps = us' @ b # vs'" "\<forall>u\<in>set us'. the (pr u) < pb"
    "\<forall>v\<in>set vs'. the (pr v) \<le> pb" by blast
  define k where "k = length us'"
  have k: "k < length ps" "ps ! k = b" using s'(1) by (auto simp: k_def)
  have pb: "pb = f k" using assms(2) k b(3) by auto
  have "f j \<le> f k \<and> (j < k \<longrightarrow> f j < f k)" if "j < length ps" for j
  proof -
    have fj: "f j = the (pr (ps ! j))" using assms(2) that by simp
    consider "j < k" | "j = k" | "k < j" by linarith
    then show ?thesis
    proof cases
      case 1
      then have "ps ! j \<in> set us'" using s'(1) by (auto simp: k_def nth_append)
      then show ?thesis using s'(2) fj pb by (auto intro: less_imp_le)
    next
      case 3
      then have "ps ! j \<in> set vs'" using s'(1) that by (auto simp: k_def nth_append nth_Cons split: nat.split)
      then show ?thesis using s'(3) fj pb 3 by auto
    qed simp
  qed
  with k b(2) that show thesis by blast
qed

text \<open>
  In a state that satisfies the invariant the worker's take succeeds: the task it returns is
  pending, no pending task has a higher priority, and every pending task submitted before it has
  a lower one.
\<close>

lemma take_highest_correct:
  assumes "queue_ok s" and "pend s \<noteq> []"
  obtains k i where "sched_queue_take_highest s = Some (ring_remove (ring_pos (q_head s) k) s, Some i)"
    and "k < length (ring_list s)" and "ring_list s ! k = Some i" and "i \<in> set (pend s)"
    and "\<forall>j\<in>set (pend s). t_priority (q_tasks s ! j) \<le> t_priority (q_tasks s ! i) \<and>
           (j < i \<longrightarrow> t_priority (q_tasks s ! j) < t_priority (q_tasks s ! i))"
proof -
  let ?sp = "ring_span (q_head s) (q_tail s)"
  let ?f = "\<lambda>j. t_priority (q_tasks s ! (pend s ! j))"
  have ok: "ring_ok s" and rl: "ring_list s = map Some (pend s)" using assms(1) by (auto simp: queue_ok_def)
  have n: "length ?sp = length (pend s)" using rl by (metis length_map ring_list_def)
  have slot: "q_queue s ! (?sp ! j) = Some (pend s ! j)" if "j < length (pend s)" for j
    using rl that n by (metis nth_map ring_list_def)
  then have pr: "\<forall>j<length ?sp. slot_priority s (?sp ! j) = Some (?f j)"
    using n by (simp add: slot_priority_def)
  have ne: "?sp \<noteq> []" using assms(2) n by auto
  obtain k where k: "k < length ?sp"
    "scan_best (slot_priority s) (?sp ! 0) (?f 0) ?sp = Some (?sp ! k)"
    "\<forall>j<length ?sp. ?f j \<le> ?f k \<and> (j < k \<longrightarrow> ?f j < ?f k)"
    by (rule scan_best_nth [OF ne pr])
  have hd: "q_head s \<noteq> q_tail s" "?sp ! 0 = q_head s"
    using ne by (auto simp: ring_span.simps [of "q_head s"] split: if_splits)
  have "slot_priority s (q_head s) = Some (?f 0)"
    using slot [of 0] hd(2) assms(2) by (simp add: slot_priority_def)
  then have "sched_queue_take_highest s = Some (ring_remove (?sp ! k) s, Some (pend s ! k))"
    using hd k(2) slot [of k] k(1) n by (simp add: sched_queue_take_highest_def)
  moreover have "?sp ! k = ring_pos (q_head s) k" using k(1) ok by (simp add: ring_span_conv ring_ok_def)
  moreover have "\<forall>j\<in>set (pend s). t_priority (q_tasks s ! j) \<le> ?f k \<and> (j < pend s ! k \<longrightarrow> t_priority (q_tasks s ! j) < ?f k)"
  proof
    fix j assume "j \<in> set (pend s)"
    then obtain m where m: "m < length (pend s)" "pend s ! m = j" by (auto simp: in_set_conv_nth)
    have "m < k" if "j < pend s ! k"
      using that m k(1) n sorted_pend [of s] by (metis linorder_neqE_nat order_less_asym sorted_wrt_nth_less)
    then show "t_priority (q_tasks s ! j) \<le> ?f k \<and> (j < pend s ! k \<longrightarrow> t_priority (q_tasks s ! j) < ?f k)"
      using k(3) m n by auto
  qed
  ultimately show thesis
    using that [of k "pend s ! k"] k(1) n rl by simp
qed

lemma queue_empty_iff:
  assumes "queue_ok s"
  shows "q_head s = q_tail s \<longleftrightarrow> pend s = []"
proof -
  have "length (pend s) = ring_dist (q_head s) (q_tail s)"
    using assms length_ring_list [of s] by (simp add: queue_ok_def)
  moreover have "q_head s = q_tail s \<longleftrightarrow> ring_dist (q_head s) (q_tail s) = 0"
    using assms ring_dist_next [of "q_head s" "q_tail s"]
    by (cases "q_head s = q_tail s") (auto simp: queue_ok_def ring_ok_def ring_dist_eq)
  ultimately show ?thesis by auto
qed

section \<open>Every step keeps the invariant\<close>

lemma worker_take_inv:
  assumes "tq_inv s" and "q_worker s = W_Idle"
  shows "\<exists>s'. worker_take s = Some s' \<and> tq_inv s'"
proof (cases "q_worker_run s \<and> q_head s \<noteq> q_tail s")
  case False
  then have "worker_take s = Some (if q_worker_run s then s else s\<lparr>q_worker := W_Off\<rparr>)"
    by (auto simp: worker_take_def)
  moreover have "tq_inv (s\<lparr>q_worker := W_Off\<rparr>)" using assms by (auto intro: tq_inv_frame)
  ultimately show ?thesis using assms(1) by simp
next
  case True
  have q: "queue_ok s" using assms(1) by (simp add: tq_inv_def)
  have "pend s \<noteq> []" using True queue_empty_iff [OF q] by simp
  with q obtain k i where
    k: "sched_queue_take_highest s = Some (ring_remove (ring_pos (q_head s) k) s, Some i)"
      "k < length (ring_list s)" "ring_list s ! k = Some i" "i \<in> set (pend s)"
    by (rule take_highest_correct)
  let ?f = "\<lambda>t. t\<lparr>t_status := TASK_RUNNING\<rparr>"
  let ?s = "set_task i ?f (ring_remove (ring_pos (q_head s) k) s)"
  have i: "i < length (q_tasks s)" "t_status (q_tasks s ! i) = TASK_PENDING" using k(4) by (auto simp: mem_pend)
  have "queue_ok ?s" using queue_ok_drop [of s i k ?f] q k by simp
  moreover have "task_ok (?f (q_tasks s ! i))"
    using assms(1) i by (auto simp: tq_inv_def list_all_length task_ok_def dest!: spec [of _ i])
  then have "list_all task_ok (q_tasks ?s)"
    using assms(1) i by (intro list_all_set_task) (auto simp: tq_inv_def)
  moreover have "map t_task_id (q_tasks ?s) = map t_task_id (q_tasks s)" by (simp add: ids_set_task)
  moreover have "i = j \<longleftrightarrow> j < length (q_tasks s) \<and> t_status (q_tasks ?s ! j) = TASK_RUNNING" for j
    using assms i by (auto simp: set_task_nth tq_inv_def split: if_splits)
  ultimately have "tq_inv (?s\<lparr>q_worker := W_Taken i\<rparr>)"
    using assms(1) by (auto simp: tq_inv_def queue_ok_def)
  then show ?thesis using True k(1) by (auto simp: worker_take_def)
qed

lemma schedule_frame:
  "sched_service_schedule_task s prio = (s', r) \<Longrightarrow>
     q_initialized s' = q_initialized s \<and> q_tasks s' = q_tasks s \<and> q_queue s' = q_queue s \<and>
     q_head s' = q_head s \<and> q_tail s' = q_tail s \<and> q_worker s' = q_worker s \<and>
     q_agents s' = q_agents s \<and> q_executor s' = q_executor s \<and> q_worker_run s' = q_worker_run s"
  by (auto simp: sched_service_schedule_task_def split: if_splits prod.splits option.splits)

lemma schedule_inv: "tq_inv s \<Longrightarrow> tq_inv (fst (sched_service_schedule_task s prio))"
  using schedule_frame [of s prio] by (cases "sched_service_schedule_task s prio") (auto intro: tq_inv_frame)

lemma worker_select_inv:
  assumes "tq_inv s" and "q_worker s = W_Taken i"
  shows "tq_inv (worker_select i s)"
proof -
  obtain s' r where e: "sched_service_schedule_task s (t_priority (q_tasks s ! i)) = (s', r)" by force
  from schedule_frame [OF this] e assms show ?thesis
    by (auto simp: worker_select_def split: sum.split intro!: tq_inv_frame [OF assms(1)])
qed

lemma task_finish_ok:
  assumes "t_status t = TASK_RUNNING" and "task_ok t"
  shows "task_ok (task_finish now el sel (exec_outcome ex sel answer) t)"
    and "t_status (task_finish now el sel (exec_outcome ex sel answer) t) \<in> {TASK_COMPLETED, TASK_FAILED}"
    and "t_task_id (task_finish now el sel out t) = t_task_id t"
  using assms
  by (auto simp: task_finish_def exec_outcome_def task_ok_def Let_def split: option.splits prod.splits)

lemma task_finish_id: "t_task_id (task_finish now el sel out t) = t_task_id t"
  by (simp add: task_finish_def Let_def split: prod.splits)

lemma worker_finish_pend:
  assumes "tq_inv s" and "q_worker s = W_Selected i sel"
  shows "pend (worker_finish now el answer i sel s) = pend s"
proof -
  let ?f = "task_finish now el sel (exec_outcome (q_executor s) sel answer)"
  have i: "i < length (q_tasks s)" "t_status (q_tasks s ! i) = TASK_RUNNING"
    using assms by (auto simp: tq_inv_def)
  have ok: "task_ok (q_tasks s ! i)" using assms(1) i by (auto simp: tq_inv_def list_all_length)
  have "t_status (?f (q_tasks s ! i)) \<in> {TASK_COMPLETED, TASK_FAILED}"
    by (rule task_finish_ok(2) [OF i(2) ok])
  then have "pend (set_task i ?f s) = filter (\<lambda>j. j \<noteq> i) (pend s)"
    using i by (intro pend_set_task) auto
  also have "\<dots> = pend s" using i by (auto simp: filter_id_conv mem_pend)
  finally show ?thesis by (simp add: worker_finish_def)
qed

lemma worker_finish_inv:
  assumes "tq_inv s" and "q_worker s = W_Selected i sel"
  shows "tq_inv (worker_finish now el answer i sel s)"
proof -
  let ?f = "task_finish now el sel (exec_outcome (q_executor s) sel answer)"
  let ?s = "set_task i ?f s"
  have i: "i < length (q_tasks s)" "t_status (q_tasks s ! i) = TASK_RUNNING"
    and only: "\<And>j. i = j \<longleftrightarrow> j < length (q_tasks s) \<and> t_status (q_tasks s ! j) = TASK_RUNNING"
    using assms by (auto simp: tq_inv_def)
  have ok: "task_ok (q_tasks s ! i)" using assms(1) i by (auto simp: tq_inv_def list_all_length)
  have st: "t_status (?f (q_tasks s ! i)) \<in> {TASK_COMPLETED, TASK_FAILED}"
    using task_finish_ok(2) [OF i(2) ok] .
  have "pend ?s = pend s" using worker_finish_pend [OF assms] by (simp add: worker_finish_def)
  then have "queue_ok ?s" using assms(1) by (simp add: tq_inv_def queue_ok_def)
  moreover have "list_all task_ok (q_tasks ?s)"
    using assms(1) i task_finish_ok(1) [OF i(2) ok] by (intro list_all_set_task) (auto simp: tq_inv_def)
  moreover have "map t_task_id (q_tasks ?s) = map t_task_id (q_tasks s)"
    by (simp add: ids_set_task task_finish_id)
  moreover have "j < length (q_tasks s) \<Longrightarrow> t_status (q_tasks ?s ! j) \<noteq> TASK_RUNNING" for j
    using only [of j] st by (auto simp: set_task_nth)
  ultimately show ?thesis using assms by (auto simp: worker_finish_def tq_inv_def queue_ok_def)
qed

lemma register_inv: "tq_inv s \<Longrightarrow> tq_inv (fst (sched_service_register_agent mx s info))"
  by (auto simp: sched_service_register_agent_def sched_refresh_def Let_def split: option.splits
      intro: tq_inv_frame)

lemma unregister_inv: "tq_inv s \<Longrightarrow> tq_inv (fst (sched_service_unregister_agent s i))"
  by (auto simp: sched_service_unregister_agent_def split: option.splits intro: tq_inv_frame)

lemma start_stop_inv:
  "tq_inv s \<Longrightarrow> tq_inv (fst (sched_service_start_workers s))"
  "tq_inv s \<Longrightarrow> tq_inv (sched_service_stop_workers s)"
  "tq_inv s \<Longrightarrow> tq_inv (fst (sched_service_set_executor s))"
  by (auto simp: sched_service_start_workers_def sched_service_stop_workers_def
      sched_service_set_executor_def intro: tq_inv_frame)

text \<open>No step follows a NULL slot, and the invariant survives.\<close>

lemma task_step_inv:
  assumes "tq_inv s"
  shows "\<exists>s'. task_step s e = Some s' \<and> tq_inv s'"
proof (cases e)
  case T_Take
  with assms worker_take_inv show ?thesis by (auto split: worker_state.split)
next
  case T_Select
  with assms worker_select_inv show ?thesis by (auto split: worker_state.split)
next
  case (T_Finish now el answer)
  with assms worker_finish_inv show ?thesis by (auto split: worker_state.split)
qed (simp_all add: assms task_submit_inv task_cancel_inv register_inv unregister_inv schedule_inv start_stop_inv)

definition tq_live :: "task_service option \<Rightarrow> bool" where
  "tq_live o' \<longleftrightarrow> (\<exists>s. o' = Some s \<and> tq_inv s)"

interpretation tqm: inv_machine task_next tq_live
proof
  fix o' e assume "tq_live o'"
  then show "tq_live (task_next o' e)"
    using task_step_inv by (auto simp: tq_live_def task_next_def)
qed

lemma init_inv: "tq_inv (task_service_init strategy)"
  by (auto simp: tq_inv_def task_service_init_def queue_ok_def ring_ok_def ring_list_def pend_def
      ring_span.simps)

lemma run_from_init:
  "\<exists>s. task_run (task_service_init strategy) es = Some s \<and> tq_inv s"
  using tqm.run_inv [of "Some (task_service_init strategy)" es] init_inv [of strategy]
  by (auto simp: tq_live_def task_run_def)

section \<open>The life of a task\<close>

definition terminal :: "task_status \<Rightarrow> bool" where
  "terminal st \<longleftrightarrow> st \<noteq> TASK_PENDING \<and> st \<noteq> TASK_RUNNING"

text \<open>What one step may do to a record: nothing, or move its status along one of four edges.\<close>

definition task_succ :: "task_record \<Rightarrow> task_record \<Rightarrow> bool" where
  "task_succ t t' \<longleftrightarrow>
     t' = t \<or>
     (t_task_id t' = t_task_id t \<and> t_description t' = t_description t \<and>
      t_priority t' = t_priority t \<and> t_timeout_ms t' = t_timeout_ms t \<and>
      t_created_at_ms t' = t_created_at_ms t \<and>
      (t_status t, t_status t') \<in>
        {(TASK_PENDING, TASK_RUNNING), (TASK_PENDING, TASK_CANCELED),
         (TASK_RUNNING, TASK_COMPLETED), (TASK_RUNNING, TASK_FAILED)})"

definition tasks_succ :: "task_service \<Rightarrow> task_service \<Rightarrow> bool" where
  "tasks_succ s s' \<longleftrightarrow> length (q_tasks s) \<le> length (q_tasks s') \<and>
     (\<forall>i<length (q_tasks s). task_succ (q_tasks s ! i) (q_tasks s' ! i))"

lemma tasks_succ_same: "q_tasks s' = q_tasks s \<Longrightarrow> tasks_succ s s'"
  by (simp add: tasks_succ_def task_succ_def)

lemma tasks_succ_set:
  "q_tasks s' = q_tasks s \<Longrightarrow> task_succ (q_tasks s ! i) (f (q_tasks s ! i)) \<Longrightarrow> tasks_succ s (set_task i f s')"
  by (auto simp: tasks_succ_def set_task_nth task_succ_def)

lemma submit_succ: "tasks_succ s (fst (sched_service_submit_task secs now s info))"
proof -
  obtain s1 i where e: "submit_id secs s info = (s1, i)" by (cases "submit_id secs s info")
  then have "q_tasks s1 = q_tasks s" using submit_id_frame by blast
  then show ?thesis
    by (auto simp: sched_service_submit_task_def e Let_def tasks_succ_def task_succ_def ring_push_def nth_append)
qed

lemma cancel_succ: "tasks_succ s (fst (sched_service_cancel_task now s task_id))"
proof -
  have u: "q_tasks (unqueue i s) = q_tasks s" for i by (simp add: unqueue_def split: option.split)
  have "tasks_succ s (set_task i (\<lambda>t. t\<lparr>t_status := TASK_CANCELED, t_finished_at_ms := now,
      t_error := Some ''canceled by user''\<rparr>) (unqueue i s))"
    if "t_status (q_tasks s ! i) = TASK_PENDING" for i
    by (rule tasks_succ_set [OF u]) (simp add: task_succ_def that)
  then show ?thesis
    by (auto simp: sched_service_cancel_task_def tasks_succ_same split: option.split)
qed

lemma take_succ:
  assumes "tq_inv s" and "q_worker s = W_Idle" and "worker_take s = Some s'"
  shows "tasks_succ s s'"
proof (cases "q_worker_run s \<and> q_head s \<noteq> q_tail s")
  case False
  with assms show ?thesis by (auto simp: worker_take_def intro!: tasks_succ_same split: if_splits)
next
  case True
  have q: "queue_ok s" using assms(1) by (simp add: tq_inv_def)
  have "pend s \<noteq> []" using True queue_empty_iff [OF q] by simp
  with q obtain k i where
    k: "sched_queue_take_highest s = Some (ring_remove (ring_pos (q_head s) k) s, Some i)" "i \<in> set (pend s)"
    by (rule take_highest_correct)
  let ?s = "set_task i (\<lambda>t. t\<lparr>t_status := TASK_RUNNING\<rparr>) (ring_remove (ring_pos (q_head s) k) s)"
  have "tasks_succ s ?s" using k(2) by (intro tasks_succ_set) (auto simp: task_succ_def mem_pend)
  moreover have "s' = ?s\<lparr>q_worker := W_Taken i\<rparr>" using assms(3) k(1) True by (simp add: worker_take_def)
  ultimately show ?thesis by (simp add: tasks_succ_def)
qed

lemma finish_succ:
  assumes "tq_inv s" and "q_worker s = W_Selected i sel"
  shows "tasks_succ s (worker_finish now el answer i sel s)"
proof -
  let ?f = "task_finish now el sel (exec_outcome (q_executor s) sel answer)"
  have r: "t_status (q_tasks s ! i) = TASK_RUNNING" and i: "i < length (q_tasks s)"
    using assms by (auto simp: tq_inv_def)
  have "task_ok (q_tasks s ! i)" using assms(1) i by (auto simp: tq_inv_def list_all_length)
  from task_finish_ok(2) [OF r this]
  have "task_succ (q_tasks s ! i) (?f (q_tasks s ! i))"
    using r by (auto simp: task_succ_def task_finish_def Let_def split: prod.splits)
  then have "tasks_succ s (set_task i ?f s)" by (intro tasks_succ_set) simp_all
  then show ?thesis by (simp add: worker_finish_def tasks_succ_def)
qed

lemma select_succ: "tasks_succ s (worker_select i s)"
  using schedule_frame [of s "t_priority (q_tasks s ! i)"]
  by (cases "sched_service_schedule_task s (t_priority (q_tasks s ! i))")
    (auto simp: worker_select_def split: sum.split intro!: tasks_succ_same)

lemma other_succ:
  "tasks_succ s (fst (sched_service_register_agent mx s info))"
  "tasks_succ s (fst (sched_service_unregister_agent s a))"
  "tasks_succ s (fst (sched_service_schedule_task s prio))"
  "tasks_succ s (fst (sched_service_set_executor s))"
  "tasks_succ s (fst (sched_service_start_workers s))"
  "tasks_succ s (sched_service_stop_workers s)"
  using schedule_frame [of s prio]
  by (auto simp: sched_service_register_agent_def sched_refresh_def sched_service_unregister_agent_def
      sched_service_set_executor_def sched_service_start_workers_def sched_service_stop_workers_def
      Let_def split: option.split intro!: tasks_succ_same) (metis prod.collapse)

lemma task_step_succ:
  assumes "tq_inv s" and "task_step s e = Some s'"
  shows "tasks_succ s s'"
proof (cases e)
  case T_Take
  with assms take_succ show ?thesis
    by (auto split: worker_state.splits intro: tasks_succ_same)
next
  case T_Select
  with assms select_succ show ?thesis
    by (auto split: worker_state.splits intro: tasks_succ_same)
next
  case (T_Finish now el answer)
  with assms show ?thesis
    by (auto split: worker_state.splits intro: tasks_succ_same finish_succ)
qed (insert assms, auto simp: submit_succ cancel_succ other_succ)

text \<open>A record with a final status is never written again.\<close>

lemma run_terminal:
  assumes "tq_inv s" and "i < length (q_tasks s)" and "terminal (t_status (q_tasks s ! i))"
    and "task_run s es = Some s'"
  shows "i < length (q_tasks s') \<and> q_tasks s' ! i = q_tasks s ! i"
  using assms
proof (induction es arbitrary: s)
  case Nil
  then show ?case by (simp add: task_run_def)
next
  case (Cons e es)
  obtain s1 where s1: "task_step s e = Some s1" "tq_inv s1" using task_step_inv [OF Cons.prems(1)] by blast
  have "tasks_succ s s1" using task_step_succ [OF Cons.prems(1) s1(1)] .
  then have "i < length (q_tasks s1)" and "q_tasks s1 ! i = q_tasks s ! i"
    using Cons.prems(2,3) by (auto simp: tasks_succ_def task_succ_def terminal_def dest!: spec [of _ i])
  moreover have "task_run s1 es = Some s'" using Cons.prems(4) s1(1) by (simp add: task_run_def task_next_def)
  ultimately show ?case using Cons.IH [OF s1(2)] Cons.prems(3) by simp
qed

section \<open>The worker empties the queue\<close>

lemma worker_take_some:
  assumes "tq_inv s" and "q_worker s = W_Idle" and "q_worker_run s" and "pend s \<noteq> []"
  obtains s' i where "worker_take s = Some s'" and "tq_inv s'" and "q_worker s' = W_Taken i"
    and "q_worker_run s'" and "i \<in> set (pend s)" and "pend s' = filter (\<lambda>j. j \<noteq> i) (pend s)"
    and "length (q_tasks s') = length (q_tasks s)" and "t_status (q_tasks s' ! i) = TASK_RUNNING"
    and "\<forall>j\<in>set (pend s). t_priority (q_tasks s ! j) \<le> t_priority (q_tasks s ! i) \<and>
           (j < i \<longrightarrow> t_priority (q_tasks s ! j) < t_priority (q_tasks s ! i))"
proof -
  have q: "queue_ok s" using assms(1) by (simp add: tq_inv_def)
  obtain k i where
    k: "sched_queue_take_highest s = Some (ring_remove (ring_pos (q_head s) k) s, Some i)" "i \<in> set (pend s)"
      "\<forall>j\<in>set (pend s). t_priority (q_tasks s ! j) \<le> t_priority (q_tasks s ! i) \<and>
           (j < i \<longrightarrow> t_priority (q_tasks s ! j) < t_priority (q_tasks s ! i))"
    by (rule take_highest_correct [OF q assms(4)])
  let ?f = "\<lambda>t. t\<lparr>t_status := TASK_RUNNING\<rparr>"
  let ?r = "ring_remove (ring_pos (q_head s) k) s"
  let ?s = "(set_task i ?f ?r)\<lparr>q_worker := W_Taken i\<rparr>"
  have t: "worker_take s = Some ?s"
    using k(1) assms(3,4) queue_empty_iff [OF q] by (simp add: worker_take_def)
  moreover have "pend ?s = filter (\<lambda>j. j \<noteq> i) (pend ?r)"
    using k(2) by (simp add: pend_set_task mem_pend)
  moreover have "pend ?r = pend s" by (simp add: pend_def)
  moreover have "tq_inv ?s" using worker_take_inv [OF assms(1,2)] t by auto
  moreover have "t_status (q_tasks ?s ! i) = TASK_RUNNING" using k(2) by (simp add: set_task_nth mem_pend)
  ultimately show thesis using that [of ?s i] k assms(3) by simp
qed

definition work_round :: "64 word \<times> 64 word \<times> airy_err \<times> string option \<Rightarrow> task_ev list" where
  "work_round = (\<lambda>(now, el, answer). [T_Take, T_Select, T_Finish now el answer])"

lemma foldl_None: "foldl task_next None es = None"
  by (induction es) (simp_all add: task_next_def)

lemma task_run_Nil: "task_run s [] = Some s"
  by (simp add: task_run_def)

lemma task_run_Cons: "task_run s (e # es) = Option.bind (task_step s e) (\<lambda>s. task_run s es)"
  by (cases "task_step s e") (simp_all add: task_run_def task_next_def foldl_None)

lemma task_run_append:
  "task_run s (es @ fs) = Option.bind (task_run s es) (\<lambda>s. task_run s fs)"
  by (cases "task_run s es") (simp_all add: task_run_def foldl_None)

lemma worker_select_effect:
  "\<exists>sel. q_worker (worker_select i s) = W_Selected i sel \<and> q_tasks (worker_select i s) = q_tasks s \<and>
     q_worker_run (worker_select i s) = q_worker_run s"
  using schedule_frame [of s "t_priority (q_tasks s ! i)"]
  by (cases "sched_service_schedule_task s (t_priority (q_tasks s ! i))")
    (auto simp: worker_select_def split: sum.split)

lemma length_filter_neq:
  "distinct xs \<Longrightarrow> x \<in> set xs \<Longrightarrow> length (filter (\<lambda>y. y \<noteq> x) xs) = length xs - 1"
  using removeAll_filter_not_eq [of x] distinct_remove1_removeAll [of xs x] length_remove1 [of x xs]
  by (simp add: eq_commute [of x])

lemma work_round_progress:
  assumes "tq_inv s" and "q_worker s = W_Idle" and "q_worker_run s"
  shows "\<exists>s'. task_run s (work_round r) = Some s' \<and> tq_inv s' \<and> q_worker s' = W_Idle \<and> q_worker_run s' \<and>
           length (pend s') = length (pend s) - 1"
proof (cases "pend s = []")
  case True
  then have "worker_take s = Some s"
    using assms queue_empty_iff [of s] by (simp add: worker_take_def tq_inv_def)
  with assms True show ?thesis
    by (auto simp: work_round_def task_run_Cons task_run_Nil split: prod.split)
next
  case False
  obtain now el answer where r: "r = (now, el, answer)" by (cases r)
  obtain s1 i where s1: "worker_take s = Some s1" "tq_inv s1" "q_worker s1 = W_Taken i"
    "q_worker_run s1" "i \<in> set (pend s)" "pend s1 = filter (\<lambda>j. j \<noteq> i) (pend s)"
    by (rule worker_take_some [OF assms False])
  obtain sel where s2: "q_worker (worker_select i s1) = W_Selected i sel"
    "q_tasks (worker_select i s1) = q_tasks s1" "q_worker_run (worker_select i s1)"
    using worker_select_effect [of i s1] s1(4) by blast
  have i2: "tq_inv (worker_select i s1)" by (rule worker_select_inv [OF s1(2,3)])
  let ?s3 = "worker_finish now el answer i sel (worker_select i s1)"
  have "pend ?s3 = pend s1" using worker_finish_pend [OF i2 s2(1)] s2(2) by (simp add: pend_def)
  then have "length (pend ?s3) = length (pend s) - 1"
    using s1(5,6) by (simp add: length_filter_neq)
  moreover have "tq_inv ?s3" by (rule worker_finish_inv [OF i2 s2(1)])
  moreover have "task_run s (work_round r) = Some ?s3"
    using s1(1,3) s2(1) assms(2) by (simp add: r work_round_def task_run_Cons task_run_Nil)
  moreover have "q_worker ?s3 = W_Idle" and "q_worker_run ?s3"
    using s2(3) by (simp_all add: worker_finish_def)
  ultimately show ?thesis by blast
qed

lemma drain_rounds:
  assumes "tq_inv s" and "q_worker s = W_Idle" and "q_worker_run s" and "length (pend s) \<le> length rs"
  shows "\<exists>s'. task_run s (concat (map work_round rs)) = Some s' \<and> tq_inv s' \<and> q_worker s' = W_Idle \<and> pend s' = []"
  using assms
proof (induction rs arbitrary: s)
  case Nil
  then show ?case by (simp add: task_run_def)
next
  case (Cons r rs)
  obtain s1 where s1: "task_run s (work_round r) = Some s1" "tq_inv s1" "q_worker s1 = W_Idle"
    "q_worker_run s1" "length (pend s1) = length (pend s) - 1"
    using work_round_progress [OF Cons.prems(1-3)] by blast
  moreover have "length (pend s1) \<le> length rs" using s1(5) Cons.prems(4) by simp
  ultimately obtain s' where
    "task_run s1 (concat (map work_round rs)) = Some s' \<and> tq_inv s' \<and> q_worker s' = W_Idle \<and> pend s' = []"
    using Cons.IH by blast
  with s1(1) show ?case by (simp add: task_run_append)
qed

text \<open>With an idle worker and an empty queue every task has a final status.\<close>

lemma idle_all_terminal:
  assumes "tq_inv s" and "q_worker s = W_Idle" and "pend s = []"
  shows "list_all (\<lambda>t. terminal (t_status t)) (q_tasks s)"
proof -
  have "t_status (q_tasks s ! i) \<noteq> TASK_PENDING" if "i < length (q_tasks s)" for i
    using mem_pend [of i s] assms(3) that by simp
  moreover have "t_status (q_tasks s ! i) \<noteq> TASK_RUNNING" if "i < length (q_tasks s)" for i
    using assms(1,2) that by (simp add: tq_inv_def)
  ultimately show ?thesis by (simp add: list_all_length terminal_def)
qed

end
