(* ===== verification/Sched_Tasks_Thms.thy ===== *)
theory Sched_Tasks_Thms
  imports Sched_Tasks_Spec
begin

text \<open>
  The properties of the single-task part of sched_d: agent selection, queue discipline, life
  cycle, drain, and the status query, each for every reachable state.
\<close>

section \<open>Agent selection\<close>

lemma best_agent_law:
  "(best_agent f i (b, m) as = (b, m) \<and> (\<forall>j<length as. a_is_available (as ! j) \<longrightarrow> f (as ! j) (i + j) \<le> m)) \<or>
   (\<exists>k<length as. best_agent f i (b, m) as = (Some (as ! k), f (as ! k) (i + k)) \<and>
      a_is_available (as ! k) \<and> m < f (as ! k) (i + k) \<and>
      (\<forall>j<length as. a_is_available (as ! j) \<longrightarrow>
         f (as ! j) (i + j) \<le> f (as ! k) (i + k) \<and> (j < k \<longrightarrow> f (as ! j) (i + j) < f (as ! k) (i + k))))"
proof (induction as arbitrary: i b m)
  case Nil
  then show ?case by simp
next
  case (Cons a as)
  let ?g = "\<lambda>j. f ((a # as) ! j) (i + j)" and ?av = "\<lambda>j. a_is_available ((a # as) ! j)"
  show ?case
  proof (cases "a_is_available a \<and> m < f a i")
    case True
    then have e: "best_agent f i (b, m) (a # as) = best_agent f (Suc i) (Some a, f a i) as" by simp
    from Cons.IH [of "Suc i" "Some a" "f a i"] show ?thesis
    proof (elim disjE exE conjE)
      assume "best_agent f (Suc i) (Some a, f a i) as = (Some a, f a i)"
        and "\<forall>j<length as. a_is_available (as ! j) \<longrightarrow> f (as ! j) (Suc i + j) \<le> f a i"
      then show ?thesis using True e
        by (intro disjI2 exI [of _ 0]) (auto simp: nth_Cons split: nat.split)
    next
      fix k assume "k < length as" "best_agent f (Suc i) (Some a, f a i) as = (Some (as ! k), f (as ! k) (Suc i + k))"
        "a_is_available (as ! k)" "f a i < f (as ! k) (Suc i + k)"
        "\<forall>j<length as. a_is_available (as ! j) \<longrightarrow> f (as ! j) (Suc i + j) \<le> f (as ! k) (Suc i + k) \<and>
           (j < k \<longrightarrow> f (as ! j) (Suc i + j) < f (as ! k) (Suc i + k))"
      then show ?thesis using True e
        by (intro disjI2 exI [of _ "Suc k"]) (auto simp: nth_Cons split: nat.split)
    qed
  next
    case False
    then have e: "best_agent f i (b, m) (a # as) = best_agent f (Suc i) (b, m) as" by auto
    from Cons.IH [of "Suc i" b m] show ?thesis
    proof (elim disjE exE conjE)
      assume "best_agent f (Suc i) (b, m) as = (b, m)"
        and "\<forall>j<length as. a_is_available (as ! j) \<longrightarrow> f (as ! j) (Suc i + j) \<le> m"
      then show ?thesis using False e
        by (intro disjI1) (auto simp: nth_Cons split: nat.split)
    next
      fix k assume "k < length as" "best_agent f (Suc i) (b, m) as = (Some (as ! k), f (as ! k) (Suc i + k))"
        "a_is_available (as ! k)" "m < f (as ! k) (Suc i + k)"
        "\<forall>j<length as. a_is_available (as ! j) \<longrightarrow> f (as ! j) (Suc i + j) \<le> f (as ! k) (Suc i + k) \<and>
           (j < k \<longrightarrow> f (as ! j) (Suc i + j) < f (as ! k) (Suc i + k))"
      then show ?thesis using False e
        by (intro disjI2 exI [of _ "Suc k"]) (auto simp: nth_Cons split: nat.split)
    qed
  qed
qed

text \<open>The two outcomes of a selection, as a rule for case analysis.\<close>

lemma best_agent_cases:
  obtains (none) "best_agent f 0 (None, -1) as = (None, -1)"
      "\<forall>j<length as. a_is_available (as ! j) \<longrightarrow> f (as ! j) j \<le> -1"
  | (agent) k where "k < length as" "best_agent f 0 (None, -1) as = (Some (as ! k), f (as ! k) k)"
      "a_is_available (as ! k)" "-1 < f (as ! k) k"
      "\<forall>j<length as. a_is_available (as ! j) \<longrightarrow> f (as ! j) j \<le> f (as ! k) k \<and> (j < k \<longrightarrow> f (as ! j) j < f (as ! k) k)"
  using best_agent_law [of f 0 None "-1" as] by (elim disjE exE conjE) simp_all

text \<open>A choice that satisfies the law is the choice.\<close>

lemma best_agent_unique:
  assumes "k < length as" and "a_is_available (as ! k)" and "-1 < f (as ! k) k"
    and "\<forall>j<length as. a_is_available (as ! j) \<longrightarrow> f (as ! j) j \<le> f (as ! k) k \<and> (j < k \<longrightarrow> f (as ! j) j < f (as ! k) k)"
  shows "best_agent f 0 (None, -1) as = (Some (as ! k), f (as ! k) k)"
proof (cases rule: best_agent_cases [of f as])
  case none
  with assms show ?thesis by fastforce
next
  case (agent k')
  have "k' = k"
  proof (rule linorder_cases [of k' k])
    assume "k' < k"
    with assms agent show ?thesis by fastforce
  next
    assume "k < k'"
    with assms agent show ?thesis by fastforce
  qed
  with agent show ?thesis by simp
qed

lemma schedule_selected:
  assumes "q_initialized s" and "best_agent (sched_strategy_score s prio (q_strategy s)) 0 (None, -1) (q_agents s) = (a, sc)"
  shows "\<exists>s' r. sched_service_schedule_task s prio = (s', Inr r) \<and> r_selected r = map_option a_id a \<and>
           q_scheduled s' = q_scheduled s + 1 \<and> q_agents s' = q_agents s \<and> q_strategy s' = q_strategy s \<and>
           q_initialized s' = q_initialized s"
  using assms by (cases a) (simp_all add: sched_service_schedule_task_def)

lemma round_robin_choice:
  assumes "q_strategy s = SCHED_STRATEGY_ROUND_ROBIN" and "q_agents s \<noteq> []"
    and "list_all a_is_available (q_agents s)"
  shows "fst (best_agent (sched_strategy_score s prio (q_strategy s)) 0 (None, -1) (q_agents s)) =
           Some (q_agents s ! (unat (q_scheduled s) mod length (q_agents s)))"
proof -
  let ?k = "unat (q_scheduled s) mod length (q_agents s)"
  have "?k < length (q_agents s)" using assms(2) by simp
  then have "best_agent (sched_strategy_score s prio (q_strategy s)) 0 (None, -1) (q_agents s) =
      (Some (q_agents s ! ?k), sched_strategy_score s prio (q_strategy s) (q_agents s ! ?k) ?k)"
    using assms by (intro best_agent_unique) (auto simp: sched_score_rr_def list_all_length)
  then show ?thesis by simp
qed

text \<open>The agents a sequence of selections picks.\<close>

fun select_seq :: "task_service \<Rightarrow> task_priority list \<Rightarrow> string option list" where
  "select_seq s [] = []"
| "select_seq s (p # ps) =
     (case sched_service_schedule_task s p of
        (s', Inl e) \<Rightarrow> None # select_seq s' ps
      | (s', Inr r) \<Rightarrow> r_selected r # select_seq s' ps)"

text \<open>
  Round robin is a rotation. With every agent available, consecutive selections pick the
  registered agents cyclically, starting at the counter of scheduled tasks modulo the number of
  agents (as long as the 64-bit counter does not wrap).
\<close>

theorem round_robin_rotates:
  assumes "q_initialized s" and "q_strategy s = SCHED_STRATEGY_ROUND_ROBIN" and "q_agents s \<noteq> []"
    and "list_all a_is_available (q_agents s)" and "unat (q_scheduled s) + length ps < 2 ^ 64"
  shows "select_seq s ps =
    map (\<lambda>k. Some (a_id (q_agents s ! ((unat (q_scheduled s) + k) mod length (q_agents s))))) [0..<length ps]"
  using assms
proof (induction ps arbitrary: s)
  case Nil
  then show ?case by simp
next
  case (Cons p ps)
  obtain a sc where b: "best_agent (sched_strategy_score s p (q_strategy s)) 0 (None, -1) (q_agents s) = (a, sc)"
    by force
  with Cons.prems have a: "a = Some (q_agents s ! (unat (q_scheduled s) mod length (q_agents s)))"
    using round_robin_choice [of s p] by simp
  obtain s' r where s': "sched_service_schedule_task s p = (s', Inr r)" "r_selected r = map_option a_id a"
    "q_scheduled s' = q_scheduled s + 1" "q_agents s' = q_agents s" "q_strategy s' = q_strategy s"
    "q_initialized s' = q_initialized s"
    using schedule_selected [OF Cons.prems(1) b] by blast
  have w: "unat (q_scheduled s') = unat (q_scheduled s) + 1"
    using Cons.prems(5) by (simp add: s'(3) unat_add_one)
  have "select_seq s' ps = map (\<lambda>k. Some (a_id (q_agents s ! ((unat (q_scheduled s) + 1 + k) mod length (q_agents s))))) [0..<length ps]"
    using Cons.IH [of s'] Cons.prems s' w by simp
  then show ?case
    using s' a by (simp add: map_upt_Suc del: upt_Suc)
qed

definition ex_agent :: "string \<Rightarrow> rat \<Rightarrow> agent_info" where
  "ex_agent i w = \<lparr>a_id = i, a_name = i, a_load_factor = 0, a_success_rate = 1,
     a_avg_response_time_ms = 5, a_is_available = True, a_weight = w\<rparr>"

definition ex_service :: "sched_strategy \<Rightarrow> agent_info list \<Rightarrow> task_service" where
  "ex_service st as = (task_service_init st)\<lparr>q_agents := as\<rparr>"

theorem round_robin_rotates_witness:
  "select_seq (ex_service SCHED_STRATEGY_ROUND_ROBIN [ex_agent ''a'' 1, ex_agent ''b'' 1]) [0, 0, 0] =
     [Some ''a'', Some ''b'', Some ''a'']"
  using round_robin_rotates [of "ex_service SCHED_STRATEGY_ROUND_ROBIN [ex_agent ''a'' 1, ex_agent ''b'' 1]" "[0, 0, 0]"]
  by (simp add: ex_service_def task_service_init_def ex_agent_def del: select_seq.simps)

text \<open>
  Agent selection, for every strategy. The chosen agent is available, its score is the
  largest among the available agents and it is the first with that score; nothing is chosen only
  if every available agent scores at most -1. The reported confidence lies between 0 and 1.
\<close>

theorem agent_selection_best:
  assumes "sched_service_schedule_task s prio = (s', Inr r)"
  shows "(case r_selected r of
            None \<Rightarrow> \<forall>j<length (q_agents s). a_is_available (q_agents s ! j) \<longrightarrow>
                      sched_strategy_score s prio (q_strategy s) (q_agents s ! j) j \<le> -1
          | Some i \<Rightarrow> \<exists>k<length (q_agents s). i = a_id (q_agents s ! k) \<and> a_is_available (q_agents s ! k) \<and>
                      (\<forall>j<length (q_agents s). a_is_available (q_agents s ! j) \<longrightarrow>
                         sched_strategy_score s prio (q_strategy s) (q_agents s ! j) j
                           \<le> sched_strategy_score s prio (q_strategy s) (q_agents s ! k) k \<and>
                         (j < k \<longrightarrow> sched_strategy_score s prio (q_strategy s) (q_agents s ! j) j
                           < sched_strategy_score s prio (q_strategy s) (q_agents s ! k) k)))
         \<and> 0 \<le> r_confidence r \<and> r_confidence r \<le> 1"
proof -
  have q: "q_initialized s" using assms by (auto simp: sched_service_schedule_task_def split: if_splits)
  show ?thesis
  proof (cases rule: best_agent_cases [of "sched_strategy_score s prio (q_strategy s)" "q_agents s"])
    case none
    with assms q have "r_selected r = None" and "r_confidence r = 0"
      by (auto simp: sched_service_schedule_task_def)
    with none show ?thesis by simp
  next
    case (agent k)
    with assms q have "r_selected r = Some (a_id (q_agents s ! k))" and "0 \<le> r_confidence r \<and> r_confidence r \<le> 1"
      by (auto simp: sched_service_schedule_task_def)
    with agent show ?thesis by auto
  qed
qed

theorem agent_selection_best_witness:
  "\<exists>s' r. sched_service_schedule_task (ex_service SCHED_STRATEGY_WEIGHTED [ex_agent ''a'' (1/2), ex_agent ''b'' 1]) 0 = (s', Inr r)
     \<and> r_selected r = Some ''b'' \<and> r_confidence r \<le> 1"
proof -
  let ?s = "ex_service SCHED_STRATEGY_WEIGHTED [ex_agent ''a'' (1/2), ex_agent ''b'' 1]"
  obtain s' r where r: "sched_service_schedule_task ?s 0 = (s', Inr r)" and b: "r_selected r = Some ''b''"
    by (simp add: sched_service_schedule_task_def ex_service_def task_service_init_def ex_agent_def
        sched_score_weighted_def)
  from agent_selection_best [OF r] have "r_confidence r \<le> 1" by simp
  with r b show ?thesis by blast
qed

text \<open>
  The priority strategy does not look at the priority. When no available agent has a
  negative weighted score, it chooses the agent the weighted strategy chooses, whatever the
  priority of the task: the factor is the same for every candidate.
\<close>

theorem priority_strategy_is_weighted:
  assumes "\<forall>j<length as. a_is_available (as ! j) \<longrightarrow> 0 \<le> sched_score_weighted (as ! j)"
  shows "fst (best_agent (\<lambda>a i. sched_score_priority prio a) 0 (None, -1) as) =
         fst (best_agent (\<lambda>a i. sched_score_weighted a) 0 (None, -1) as)"
proof -
  define pw :: rat where "pw = (if TASK_PRIORITY_URGENT \<le> prio then 4 else if TASK_PRIORITY_HIGH \<le> prio then 2
    else if TASK_PRIORITY_NORMAL \<le> prio then 3 / 2 else 1)"
  have pw: "0 < pw" by (simp add: pw_def)
  have sp: "sched_score_priority prio a = sched_score_weighted a * pw" for a
    by (simp add: sched_score_priority_def sched_score_weighted_def pw_def Let_def)
  show ?thesis
  proof (cases rule: best_agent_cases [of "\<lambda>a i. sched_score_weighted a" as])
    case none
    then have "\<not> a_is_available (as ! j)" if "j < length as" for j
      using assms that by fastforce
    then have "fst (best_agent (\<lambda>a i. sched_score_priority prio a) 0 (None, -1) as) = None"
      by (cases rule: best_agent_cases [of "\<lambda>a i. sched_score_priority prio a" as]) auto
    with none show ?thesis by simp
  next
    case (agent k)
    have "0 \<le> sched_score_weighted (as ! k)" using assms agent by simp
    then have "-1 < sched_score_priority prio (as ! k)" using pw sp [of "as ! k"] by (simp add: order.strict_trans2 [of "-1" 0])
    then have "best_agent (\<lambda>a i. sched_score_priority prio a) 0 (None, -1) as = (Some (as ! k), sched_score_priority prio (as ! k))"
      using agent pw by (intro best_agent_unique) (auto simp: sp)
    with agent show ?thesis by simp
  qed
qed

theorem priority_strategy_is_weighted_witness:
  "fst (best_agent (\<lambda>a i. sched_score_priority 3 a) 0 (None, -1) [ex_agent ''a'' 1, ex_agent ''b'' 2]) =
     fst (best_agent (\<lambda>a i. sched_score_weighted a) 0 (None, -1) [ex_agent ''a'' 1, ex_agent ''b'' 2])"
  by (rule priority_strategy_is_weighted)
    (auto simp: ex_agent_def sched_score_weighted_def nth_Cons split: nat.split)

section \<open>Queue and life cycle\<close>

definition ex_task :: "string \<Rightarrow> task_priority \<Rightarrow> sched_task_info" where
  "ex_task i p = \<lparr>ti_task_id = Some i, ti_description = Some ''d'', ti_priority = p, ti_timeout_ms = 0\<rparr>"

definition ex_run :: "task_ev list" where
  "ex_run = [T_Submit 1 10 (ex_task ''x'' 1), T_Submit 1 11 (ex_task ''y'' 2), T_Start]"

abbreviation ex_init :: task_service where
  "ex_init \<equiv> task_service_init SCHED_STRATEGY_WEIGHTED"

text \<open>The example run ends with two pending tasks and an idle worker.\<close>

lemma ex_run_state:
  obtains s where "task_run ex_init ex_run = Some s" and "tq_inv s" and "q_worker s = W_Idle"
    and "q_worker_run s" and "map t_status (q_tasks s) = [TASK_PENDING, TASK_PENDING]"
    and "map t_priority (q_tasks s) = [1, 2]"
proof -
  obtain s where s: "task_run ex_init ex_run = Some s" "tq_inv s" using run_from_init by blast
  have "map_option (\<lambda>s. (q_worker s, q_worker_run s, map t_status (q_tasks s), map t_priority (q_tasks s)))
      (task_run ex_init ex_run) = Some (W_Idle, True, [TASK_PENDING, TASK_PENDING], [1, 2])"
    by code_simp
  with s that show thesis by auto
qed

text \<open>
  C39. No reachable state loses a task or follows a NULL slot. Every sequence of operations and
  worker steps from a fresh service runs through; the ring then holds exactly the pending tasks,
  in the order of their submission, ids are distinct and at most 256 records exist.
\<close>

theorem task_queue_exact:
  "\<exists>s. task_run (task_service_init strategy) es = Some s \<and> ring_list s = map Some (pend s) \<and>
       distinct (map t_task_id (q_tasks s)) \<and> length (q_tasks s) \<le> 256"
  using run_from_init [of strategy es] by (auto simp: tq_inv_def queue_ok_def AIRY_CAP_MAX_TASKS_def)

text \<open>
  C40. Record and status agree. In every reachable state a pending or running task has no agent,
  output, error or finish time, a completed one has an agent and an output and no error, a failed
  one has an error and no output, a canceled one says who canceled it; the running task is
  exactly the one the worker holds.
\<close>

theorem task_record_typed:
  "\<exists>s. task_run (task_service_init strategy) es = Some s \<and> list_all task_ok (q_tasks s) \<and>
       (\<forall>i. held (q_worker s) = Some i \<longleftrightarrow> i < length (q_tasks s) \<and> t_status (q_tasks s ! i) = TASK_RUNNING)"
  using run_from_init [of strategy es] by (auto simp: tq_inv_def)

text \<open>
  C33. Priority order, first come first served within a priority. In every reachable state with a
  waiting worker and a pending task, the worker's next step starts a pending task such that no
  pending task has a higher priority and every pending task submitted earlier has a lower one.
\<close>

theorem task_take_order:
  assumes "task_run (task_service_init strategy) es = Some s" and "q_worker s = W_Idle" and "q_worker_run s"
    and "p < length (q_tasks s)" and "t_status (q_tasks s ! p) = TASK_PENDING"
  shows "\<exists>s' i. task_step s T_Take = Some s' \<and> q_worker s' = W_Taken i \<and>
           i < length (q_tasks s) \<and> t_status (q_tasks s ! i) = TASK_PENDING \<and> t_status (q_tasks s' ! i) = TASK_RUNNING \<and>
           (\<forall>j<length (q_tasks s). t_status (q_tasks s ! j) = TASK_PENDING \<longrightarrow>
              t_priority (q_tasks s ! j) \<le> t_priority (q_tasks s ! i) \<and>
              (j < i \<longrightarrow> t_priority (q_tasks s ! j) < t_priority (q_tasks s ! i)))"
proof -
  have inv: "tq_inv s" using run_from_init [of strategy es] assms(1) by auto
  have "p \<in> set (pend s)" using assms(4,5) by (simp add: mem_pend)
  then have ne: "pend s \<noteq> []" by auto
  obtain s' i where "worker_take s = Some s'" "q_worker s' = W_Taken i" "i \<in> set (pend s)"
    "t_status (q_tasks s' ! i) = TASK_RUNNING"
    "\<forall>j\<in>set (pend s). t_priority (q_tasks s ! j) \<le> t_priority (q_tasks s ! i) \<and>
           (j < i \<longrightarrow> t_priority (q_tasks s ! j) < t_priority (q_tasks s ! i))"
    by (rule worker_take_some [OF inv assms(2,3) ne])
  then show ?thesis using assms(2) by (auto simp: mem_pend)
qed

theorem task_take_order_witness:
  "\<exists>s s' i. task_run ex_init ex_run = Some s \<and> task_step s T_Take = Some s' \<and> q_worker s' = W_Taken i \<and>
     t_priority (q_tasks s ! 1) \<le> t_priority (q_tasks s ! i)"
proof -
  obtain s where s: "task_run ex_init ex_run = Some s" "q_worker s = W_Idle" "q_worker_run s"
    "map t_status (q_tasks s) = [TASK_PENDING, TASK_PENDING]"
    by (rule ex_run_state)
  then have l: "length (q_tasks s) = 2" "t_status (q_tasks s ! 1) = TASK_PENDING"
    by (auto simp: map_eq_Cons_conv)
  with task_take_order [OF s(1-3), of 1] s(1) show ?thesis by fastforce
qed

text \<open>
  A final status is final. Once a task of a reachable state is completed, failed or canceled,
  no further operation or worker step changes its record; in particular a canceled task never
  runs.
\<close>

theorem task_terminal_final:
  assumes "task_run (task_service_init strategy) es = Some s" and "task_run s es' = Some s'"
    and "i < length (q_tasks s)" and "terminal (t_status (q_tasks s ! i))"
  shows "i < length (q_tasks s') \<and> q_tasks s' ! i = q_tasks s ! i"
proof -
  have "tq_inv s" using run_from_init [of strategy es] assms(1) by auto
  with assms show ?thesis by (intro run_terminal) auto
qed

definition ex_cancel :: "task_ev list" where
  "ex_cancel = ex_run @ [T_Cancel 20 ''y'']"

theorem task_terminal_final_witness:
  "\<exists>s s'. task_run ex_init ex_cancel = Some s \<and> task_run s [T_Take, T_Select, T_Finish 1 1 (AIRY_SUCCESS, Some ''o'')] = Some s' \<and>
     t_status (q_tasks s ! 1) = TASK_CANCELED \<and> q_tasks s' ! 1 = q_tasks s ! 1"
proof -
  obtain s where s: "task_run ex_init ex_cancel = Some s" "tq_inv s" using run_from_init by blast
  obtain s' where s': "task_run s [T_Take, T_Select, T_Finish 1 1 (AIRY_SUCCESS, Some ''o'')] = Some s'"
    using tqm.run_inv [of "Some s" "[T_Take, T_Select, T_Finish 1 1 (AIRY_SUCCESS, Some ''o'')]"] s(2)
    by (auto simp: tq_live_def task_run_def)
  have "map_option (\<lambda>s. map t_status (q_tasks s)) (task_run ex_init ex_cancel) = Some [TASK_PENDING, TASK_CANCELED]"
    by code_simp
  with s(1) have "length (q_tasks s) = 2" "t_status (q_tasks s ! 1) = TASK_CANCELED"
    by (auto simp: map_eq_Cons_conv)
  with task_terminal_final [OF s(1) s', of 1] s(1) s' show ?thesis by (auto simp: terminal_def)
qed

text \<open>
  The worker drains the queue. From every reachable state with a waiting, running worker,
  as many worker rounds (take, select, finish) as there are pending tasks leave every task with a
  final status, whatever the executor answers.
\<close>

theorem task_queue_drains:
  assumes "task_run (task_service_init strategy) es = Some s" and "q_worker s = W_Idle" and "q_worker_run s"
    and "length (filter (\<lambda>t. t_status t = TASK_PENDING) (q_tasks s)) \<le> length rs"
  shows "\<exists>s'. task_run s (concat (map work_round rs)) = Some s' \<and>
           list_all (\<lambda>t. terminal (t_status t)) (q_tasks s')"
proof -
  have inv: "tq_inv s" using run_from_init [of strategy es] assms(1) by auto
  have "length (pend s) = length (filter (\<lambda>t. t_status t = TASK_PENDING) (map ((!) (q_tasks s)) [0..<length (q_tasks s)]))"
    unfolding pend_def filter_map by (simp add: comp_def)
  then have "length (pend s) \<le> length rs" using assms(4) by (simp add: map_nth)
  then obtain s' where "task_run s (concat (map work_round rs)) = Some s'" "tq_inv s'" "q_worker s' = W_Idle" "pend s' = []"
    using drain_rounds [OF inv assms(2,3)] by blast
  then show ?thesis using idle_all_terminal by blast
qed

theorem task_queue_drains_witness:
  "\<exists>s s'. task_run ex_init ex_run = Some s \<and>
     task_run s (concat (map work_round [(5, 1, AIRY_SUCCESS, Some ''o''), (6, 1, AIRY_SUCCESS, None)])) = Some s' \<and>
     list_all (\<lambda>t. terminal (t_status t)) (q_tasks s')"
proof -
  obtain s where s: "task_run ex_init ex_run = Some s" "q_worker s = W_Idle" "q_worker_run s"
    "map t_status (q_tasks s) = [TASK_PENDING, TASK_PENDING]"
    by (rule ex_run_state)
  then have "length (filter (\<lambda>t. t_status t = TASK_PENDING) (q_tasks s)) \<le> 2"
    using length_filter_le [of "\<lambda>t. t_status t = TASK_PENDING" "q_tasks s"] by (metis length_map length_Cons list.size(3) numeral_2_eq_2)
  with task_queue_drains [OF s(1-3), of "[(5, 1, AIRY_SUCCESS, Some ''o''), (6, 1, AIRY_SUCCESS, None)]"] s(1)
  show ?thesis by auto
qed

section \<open>Status queries\<close>

lemma submit_success:
  assumes "sched_service_submit_task secs now s info = (s', Inr i)"
  shows "q_tasks s' = q_tasks s @ [new_task now i info] \<and> q_initialized s \<and> q_initialized s' \<and> i \<notin> set (map t_task_id (q_tasks s))"
proof -
  obtain s1 j where e: "submit_id secs s info = (s1, j)" by (cases "submit_id secs s info")
  from assms have "s' = ring_push (length (q_tasks s1)) (s1\<lparr>q_tasks := q_tasks s1 @ [new_task now j info]\<rparr>)"
    and "i = j" and "find_task s1 j = None" and "q_initialized s"
    by (auto simp: sched_service_submit_task_def e Let_def split: if_splits)
  with submit_id_frame [OF e] show ?thesis
    using tsk.find_None [where t = s1 and k = j] by (simp add: ring_push_def)
qed

lemma find_task_append:
  assumes "q_tasks s' = q_tasks s @ [t]" and "t_task_id t \<notin> set (map t_task_id (q_tasks s))"
  shows "find_task s' (t_task_id t) = Some (length (q_tasks s))"
    and "k \<noteq> t_task_id t \<Longrightarrow> find_task s' k = find_task s k"
proof -
  have p: "find_index (\<lambda>x. t_task_id x = k) (xs @ [t]) =
      (case find_index (\<lambda>x. t_task_id x = k) xs of
         Some i \<Rightarrow> Some i | None \<Rightarrow> if t_task_id t = k then Some (length xs) else None)" for xs k
    by (induction xs) (auto split: option.split)
  have "t_task_id x \<noteq> t_task_id t" if "x \<in> set (q_tasks s)" for x
    using assms(2) that by (metis image_eqI set_map)
  then have "find_index (\<lambda>x. t_task_id x = t_task_id t) (q_tasks s) = None"
    by (simp add: find_index_None)
  then show "find_task s' (t_task_id t) = Some (length (q_tasks s))"
    by (simp add: find_task_def assms(1) p)
  show "k \<noteq> t_task_id t \<Longrightarrow> find_task s' k = find_task s k"
    by (auto simp: find_task_def assms(1) p split: option.split)
qed

text \<open>
  What was submitted can be asked for. After an accepted submission the returned id leads to
  the record of that task, pending, with the client's priority and timeout; every other id gets
  the answer it got before.
\<close>

theorem task_submit_get:
  assumes "sched_service_submit_task secs now s info = (s', Inr i)"
  shows "sched_service_get_task s' i = Inr (task_json (new_task now i info)) \<and>
         (\<forall>k. k \<noteq> i \<longrightarrow> sched_service_get_task s' k = sched_service_get_task s k)"
proof -
  have t: "q_tasks s' = q_tasks s @ [new_task now i info]" "q_initialized s' \<and> q_initialized s"
    "t_task_id (new_task now i info) \<notin> set (map t_task_id (q_tasks s))"
    using submit_success [OF assms] by (simp_all add: new_task_def)
  have "t_task_id (new_task now i info) = i" by (simp add: new_task_def)
  with find_task_append [OF t(1,3)] have
    "find_task s' i = Some (length (q_tasks s))" and "\<And>k. k \<noteq> i \<Longrightarrow> find_task s' k = find_task s k" by auto
  moreover have "j < length (q_tasks s)" if "find_task s k = Some j" for j k using tsk.find_SomeD [OF that] by simp
  ultimately show ?thesis
    using t by (auto simp: sched_service_get_task_def nth_append split: option.split)
qed

theorem task_submit_get_witness:
  "\<exists>s'. sched_service_submit_task 1 10 ex_init (ex_task ''x'' 1) = (s', Inr ''x'') \<and>
     sched_service_get_task s' ''x'' = Inr (task_json (new_task 10 ''x'' (ex_task ''x'' 1)))"
proof -
  obtain s' where s': "sched_service_submit_task 1 10 ex_init (ex_task ''x'' 1) = (s', Inr ''x'')"
    by (simp add: sched_service_submit_task_def task_service_init_def submit_id_def ex_task_def
        snprintf_s_def find_task_def ring_dist_def AIRY_CAP_MAX_TASKS_def)
  from task_submit_get [OF this] s' show ?thesis by blast
qed

lemma count_slots_pending:
  assumes "\<forall>qi\<in>set qis. \<exists>i. q_queue s ! qi = Some i \<and> t_status (q_tasks s ! i) = TASK_PENDING"
  shows "count_slots s (p, r) qis = Some (p + length qis, r)"
  using assms by (induction qis arbitrary: p) auto

text \<open>
  The checkpoint counts the pending tasks and never a running one. In every reachable state
  the walk over the ring succeeds, the field \<open>pending\<close> is the number of pending tasks and the
  field \<open>running\<close> is 0, even while the worker runs a task.
\<close>

theorem checkpoint_never_running:
  "\<exists>s. task_run (task_service_init strategy) es = Some s \<and>
       sched_service_checkpoint_save now s dags = Some (Inr (JObj
        [(''agent_count'', JNum (length (q_agents s))),
         (''total_tasks'', JNum (unat (q_scheduled s))),
         (''pending'', JNum (length (pend s))), (''running'', JNum 0),
         (''dag_count'', JNum (length dags)),
         (''active_dags'', JNum (length (filter (\<lambda>d. d_status d = DAG_ACTIVE) dags))),
         (''completed_dags'', JNum (length (filter (\<lambda>d. d_status d = DAG_COMPLETED) dags))),
         (''timestamp_ms'', JNum (unat now))]))"
proof -
  obtain s where s: "task_run (task_service_init strategy) es = Some s" "tq_inv s" using run_from_init by blast
  let ?sp = "ring_span (q_head s) (q_tail s)"
  have rl: "map (\<lambda>qi. q_queue s ! qi) ?sp = map Some (pend s)"
    using s(2) by (simp add: tq_inv_def queue_ok_def ring_list_def)
  have "\<exists>i. q_queue s ! qi = Some i \<and> t_status (q_tasks s ! i) = TASK_PENDING" if "qi \<in> set ?sp" for qi
  proof -
    have "q_queue s ! qi \<in> set (map (\<lambda>qi. q_queue s ! qi) ?sp)" using that by simp
    then show ?thesis unfolding rl by (auto simp: mem_pend)
  qed
  then have "count_slots s (0, 0) ?sp = Some (0 + length ?sp, 0)" by (intro count_slots_pending) blast
  moreover have "length ?sp = length (pend s)" using rl by (metis length_map)
  ultimately have "count_slots s (0, 0) ?sp = Some (length (pend s), 0)" by simp
  then show ?thesis using s by (auto simp: sched_service_checkpoint_save_def tq_inv_def)
qed

text \<open>
  The record table is never cleaned: after 256 accepted submissions every later one is refused,
  whatever has finished in between.
\<close>

lemma task_table_lifetime_cap:
  assumes "tq_inv s" and "length (q_tasks s) = AIRY_CAP_MAX_TASKS" and "task_run s es = Some s'"
  shows "\<exists>e. snd (sched_service_submit_task secs now s' info) = Inl e"
proof -
  have inv': "tq_inv s'" using tqm.run_inv [of "Some s" es] assms by (auto simp: tq_live_def task_run_def)
  have "length (q_tasks s) \<le> length (q_tasks s')" using assms(1,3)
  proof (induction es arbitrary: s)
    case Nil
    then show ?case by (simp add: task_run_def)
  next
    case (Cons e es)
    obtain s1 where s1: "task_step s e = Some s1" "tq_inv s1" using task_step_inv [OF Cons.prems(1)] by blast
    then have "length (q_tasks s) \<le> length (q_tasks s1)"
      using task_step_succ [OF Cons.prems(1)] by (auto simp: tasks_succ_def)
    moreover have "task_run s1 es = Some s'" using Cons.prems(2) s1(1) by (simp add: task_run_Cons)
    ultimately show ?case using Cons.IH [OF s1(2)] by simp
  qed
  then have full: "AIRY_CAP_MAX_TASKS \<le> length (q_tasks s')" using assms(2) by simp
  obtain s1 j where e: "submit_id secs s' info = (s1, j)" by (cases "submit_id secs s' info")
  show ?thesis
    using full submit_id_frame [OF e] by (simp add: sched_service_submit_task_def e Let_def)
qed

text \<open>A full agent table refuses even the refresh of an agent it already holds.\<close>

lemma full_table_refuses_refresh:
  assumes "q_initialized s" and "length (q_agents s) = mx"
  shows "sched_service_register_agent mx s info = (s, AIRY_ERR_OVERFLOW)"
  using assms by (simp add: sched_service_register_agent_def)

end
