(* ===== verification/Svc_Swap.thy ===== *)
theory Svc_Swap
  imports Sched_Parse
begin

text \<open>
  svc_common, the hot-swap gate (\<open>common/src/svc/svc_swap.c\<close>), and its one client, the
  configuration reload of llm_d (\<open>llm_d/src/rpc/service_reload.c\<close>) together with the request
  path that takes and returns tickets (\<open>service_request.c\<close>).

  Every function of the gate is one critical section under \<open>s->lock\<close>, except \<open>svc_swap_begin\<close>,
  which gives the lock up while it waits: it is its first section and one section per wake-up.
  The composed system interleaves any number of requests with one reload thread (SIGHUP is the
  only entry to a reload). A loaded configuration (provider registry and price table) is a
  number; a request that looks up a provider reads the one installed at that moment and may do
  so several times, since each candidate of a failover chain is looked up anew.
\<close>

section \<open>The gate\<close>

definition SVC_SWAP_DRAIN_MS :: "32 word" where "SVC_SWAP_DRAIN_MS = 30000"

record svc_swap =
  sw_gen :: "32 word"
  sw_inflight :: "32 word"
  sw_drain_ms :: "32 word"
  sw_draining :: bool
  sw_swapped :: "32 word"
  sw_mismatch :: "64 word"
  sw_drain_tmo :: "64 word"

definition svc_swap_init :: "32 word \<Rightarrow> svc_swap" where
  "svc_swap_init drain_ms =
     \<lparr>sw_gen = 1, sw_inflight = 0,
      sw_drain_ms = (if drain_ms = 0 then SVC_SWAP_DRAIN_MS else drain_ms), sw_draining = False,
      sw_swapped = 0, sw_mismatch = 0, sw_drain_tmo = 0\<rparr>"

definition svc_swap_enter :: "svc_swap \<Rightarrow> svc_swap \<times> (airy_err + 32 word)" where
  "svc_swap_enter s =
     (if sw_draining s then (s, Inl AIRY_ERR_BUSY)
      else (s\<lparr>sw_inflight := sw_inflight s + 1\<rparr>, Inr (sw_gen s)))"

definition svc_swap_leave :: "svc_swap \<Rightarrow> 32 word \<Rightarrow> svc_swap \<times> bool" where
  "svc_swap_leave s gen =
     (let ok = (gen \<noteq> 0 \<and> gen = sw_gen s);
          s = (if ok then s else s\<lparr>sw_mismatch := sw_mismatch s + 1\<rparr>);
          s = (if 0 < sw_inflight s then s\<lparr>sw_inflight := sw_inflight s - 1\<rparr> else s)
      in (s, ok))"

text \<open>\<open>svc_swap_begin\<close>: the entry section, and what each pass of the wait loop decides.\<close>

definition swap_begin_entry :: "64 word \<Rightarrow> svc_swap \<Rightarrow> svc_swap \<times> (airy_err + 64 word)" where
  "swap_begin_entry now s =
     (if sw_draining s then (s, Inl AIRY_ERR_BUSY)
      else (s\<lparr>sw_draining := True\<rparr>, Inr (now + ucast (sw_drain_ms s))))"

definition swap_begin_pass :: "64 word \<Rightarrow> 64 word \<Rightarrow> svc_swap \<Rightarrow> svc_swap \<times> int option" where
  "swap_begin_pass deadline now s =
     (if \<not> 0 < sw_inflight s then (s, Some 0)
      else if deadline \<le> now then (s\<lparr>sw_drain_tmo := sw_drain_tmo s + 1\<rparr>, Some 1)
      else (s, None))"

definition svc_swap_commit :: "svc_swap \<Rightarrow> svc_swap \<times> airy_err" where
  "svc_swap_commit s =
     (if \<not> sw_draining s then (s, AIRY_ERR_STATE_ERROR)
      else (let g = sw_gen s + 1
            in s\<lparr>sw_gen := (if g = 0 then 1 else g), sw_swapped := sw_swapped s + 1,
                 sw_draining := False\<rparr>, AIRY_SUCCESS))"

definition svc_swap_abort :: "svc_swap \<Rightarrow> svc_swap" where
  "svc_swap_abort s = s\<lparr>sw_draining := False\<rparr>"

section \<open>Reload and requests of llm_d\<close>

definition LLM_RETIRED_MAX :: nat where "LLM_RETIRED_MAX = 4"
definition LLM_RETIRED_GRACE_MS :: "64 word" where "LLM_RETIRED_GRACE_MS = 600000"
definition LLM_RELOAD_BACKOFF_MS :: "64 word" where "LLM_RELOAD_BACKOFF_MS = 30000"

text \<open>A request between \<open>req_enter\<close> and \<open>req_leave\<close>: its ticket and the configurations it has read.\<close>

record llm_req =
  rq_client :: nat
  rq_gen :: "32 word"
  rq_seen :: "nat list"

text \<open>Where the reload thread is.\<close>

datatype reload_phase =
    R_Idle
  | R_Draining "64 word" nat
  | R_Drained bool nat
  | R_Installed bool nat
  | R_Committed bool nat

record llm_gate =
  lg_swap :: svc_swap
  lg_cfg :: nat
  lg_fresh :: nat
  lg_reqs :: "llm_req list"
  lg_phase :: reload_phase
  lg_retired :: "(nat \<times> 64 word) list"
  lg_freed :: "nat list"
  lg_next_ms :: "64 word"
  lg_ok :: "32 word"
  lg_fail :: "32 word"

definition llm_gate_init :: "32 word \<Rightarrow> llm_gate" where
  "llm_gate_init drain_ms =
     \<lparr>lg_swap = svc_swap_init drain_ms, lg_cfg = 0, lg_fresh = 1, lg_reqs = [], lg_phase = R_Idle,
      lg_retired = [], lg_freed = [], lg_next_ms = 0, lg_ok = 0, lg_fail = 0\<rparr>"

definition find_req :: "llm_gate \<Rightarrow> nat \<Rightarrow> llm_req option" where
  "find_req s c = find (\<lambda>r. rq_client r = c) (lg_reqs s)"

text \<open>A thread serves one request at a time: it takes a ticket only when it holds none.\<close>

definition req_enter :: "nat \<Rightarrow> llm_gate \<Rightarrow> llm_gate" where
  "req_enter c s =
     (if find_req s c \<noteq> None then s
      else case svc_swap_enter (lg_swap s) of
             (w, Inl e) \<Rightarrow> s\<lparr>lg_swap := w\<rparr>
           | (w, Inr g) \<Rightarrow> s\<lparr>lg_swap := w,
               lg_reqs := lg_reqs s @ [\<lparr>rq_client = c, rq_gen = g, rq_seen = []\<rparr>]\<rparr>)"

definition svc_find_prov :: "nat \<Rightarrow> llm_gate \<Rightarrow> llm_gate" where
  "svc_find_prov c s = s\<lparr>lg_reqs := map (\<lambda>r. if rq_client r = c
       then r\<lparr>rq_seen := rq_seen r @ [lg_cfg s]\<rparr> else r) (lg_reqs s)\<rparr>"

text \<open>The second component tells whether the response is handed to the caller.\<close>

definition req_leave :: "nat \<Rightarrow> llm_gate \<Rightarrow> llm_gate \<times> bool" where
  "req_leave c s =
     (case find_req s c of
        None \<Rightarrow> (s, False)
      | Some r \<Rightarrow>
          (case svc_swap_leave (lg_swap s) (rq_gen r) of
             (w, ok) \<Rightarrow> (s\<lparr>lg_swap := w, lg_reqs := filter (\<lambda>r. rq_client r \<noteq> c) (lg_reqs s)\<rparr>, ok)))"

definition retire_reap :: "64 word \<Rightarrow> llm_gate \<Rightarrow> llm_gate" where
  "retire_reap now s = s\<lparr>
     lg_retired := filter (\<lambda>(c, t). now - t < LLM_RETIRED_GRACE_MS) (lg_retired s),
     lg_freed := lg_freed s @ map fst (filter (\<lambda>(c, t). \<not> now - t < LLM_RETIRED_GRACE_MS) (lg_retired s))\<rparr>"

definition retire_push :: "64 word \<Rightarrow> nat \<Rightarrow> llm_gate \<Rightarrow> llm_gate" where
  "retire_push now cfg s =
     (let s = retire_reap now s;
          s = (if LLM_RETIRED_MAX \<le> length (lg_retired s)
               then s\<lparr>lg_freed := lg_freed s @ [fst (hd (lg_retired s))], lg_retired := tl (lg_retired s)\<rparr>
               else s)
      in s\<lparr>lg_retired := lg_retired s @ [(cfg, now)]\<rparr>)"

definition old_dispose :: "64 word \<Rightarrow> nat \<Rightarrow> bool \<Rightarrow> llm_gate \<Rightarrow> llm_gate" where
  "old_dispose now cfg forced s =
     (if forced then retire_push now cfg s else s\<lparr>lg_freed := lg_freed s @ [cfg]\<rparr>)"

text \<open>
  \<open>llm_service_reload\<close>: the read-in part (\<open>loaded\<close> says whether the file could be read and a
  registry built), the drain, the installation of the new tables, the commit, the disposal.
\<close>

definition reload_start :: "64 word \<Rightarrow> string \<Rightarrow> bool \<Rightarrow> llm_gate \<Rightarrow> llm_gate" where
  "reload_start now cfg_path loaded s =
     (if lg_phase s \<noteq> R_Idle \<or> cfg_path = [] \<or> (lg_next_ms s \<noteq> 0 \<and> now < lg_next_ms s) then s
      else if \<not> loaded then s\<lparr>lg_fail := lg_fail s + 1, lg_next_ms := now + LLM_RELOAD_BACKOFF_MS\<rparr>
      else case swap_begin_entry now (lg_swap s) of
             (w, Inl e) \<Rightarrow> s\<lparr>lg_swap := w\<rparr>
           | (w, Inr deadline) \<Rightarrow> s\<lparr>lg_swap := w, lg_fresh := lg_fresh s + 1,
               lg_phase := R_Draining deadline (lg_fresh s)\<rparr>)"

definition reload_wait :: "64 word \<Rightarrow> llm_gate \<Rightarrow> llm_gate" where
  "reload_wait now s =
     (case lg_phase s of
        R_Draining deadline new \<Rightarrow>
          (case swap_begin_pass deadline now (lg_swap s) of
             (w, None) \<Rightarrow> s\<lparr>lg_swap := w\<rparr>
           | (w, Some rc) \<Rightarrow> s\<lparr>lg_swap := w, lg_phase := R_Drained (rc = 1) new\<rparr>)
      | _ \<Rightarrow> s)"

definition reload_install :: "llm_gate \<Rightarrow> llm_gate" where
  "reload_install s =
     (case lg_phase s of
        R_Drained forced new \<Rightarrow> s\<lparr>lg_cfg := new, lg_phase := R_Installed forced (lg_cfg s)\<rparr>
      | _ \<Rightarrow> s)"

definition reload_commit :: "llm_gate \<Rightarrow> llm_gate" where
  "reload_commit s =
     (case lg_phase s of
        R_Installed forced old \<Rightarrow>
          (case svc_swap_commit (lg_swap s) of
             (w, rc) \<Rightarrow> s\<lparr>lg_swap := (if rc \<noteq> AIRY_SUCCESS then svc_swap_abort w else w),
                            lg_phase := R_Committed forced old\<rparr>)
      | _ \<Rightarrow> s)"

definition reload_finish :: "64 word \<Rightarrow> llm_gate \<Rightarrow> llm_gate" where
  "reload_finish now s =
     (case lg_phase s of
        R_Committed forced old \<Rightarrow>
          (old_dispose now old forced s)\<lparr>lg_ok := lg_ok s + 1, lg_next_ms := 0, lg_phase := R_Idle\<rparr>
      | _ \<Rightarrow> s)"

datatype gate_ev =
    G_Enter nat | G_Read nat | G_Leave nat
  | G_Start "64 word" string bool | G_Wait "64 word" | G_Install | G_Commit | G_Finish "64 word"

fun gate_step :: "llm_gate \<Rightarrow> gate_ev \<Rightarrow> llm_gate" where
  "gate_step s (G_Enter c) = req_enter c s"
| "gate_step s (G_Read c) = svc_find_prov c s"
| "gate_step s (G_Leave c) = fst (req_leave c s)"
| "gate_step s (G_Start now cfg_path loaded) = reload_start now cfg_path loaded s"
| "gate_step s (G_Wait now) = reload_wait now s"
| "gate_step s G_Install = reload_install s"
| "gate_step s G_Commit = reload_commit s"
| "gate_step s (G_Finish now) = reload_finish now s"

section \<open>Invariant\<close>

text \<open>Admissible events: a bounded number of request threads, numbered below \<open>2 ^ 31\<close>.\<close>

fun gate_ok :: "gate_ev \<Rightarrow> bool" where
  "gate_ok (G_Enter c) = (c < 2 ^ 31)"
| "gate_ok _ = True"

fun forced_phase :: "reload_phase \<Rightarrow> bool" where
  "forced_phase (R_Drained f _) = f"
| "forced_phase (R_Installed f _) = f"
| "forced_phase (R_Committed f _) = f"
| "forced_phase _ = False"

fun draining_phase :: "reload_phase \<Rightarrow> bool" where
  "draining_phase R_Idle = False"
| "draining_phase (R_Committed _ _) = False"
| "draining_phase _ = True"

text \<open>Phases of an unforced reload in which no request is in flight.\<close>

fun empty_phase :: "reload_phase \<Rightarrow> bool" where
  "empty_phase (R_Drained f _) = (\<not> f)"
| "empty_phase (R_Installed f _) = (\<not> f)"
| "empty_phase _ = False"

text \<open>The window between the installation of the new tables and the commit, after a forced drain.\<close>

definition forced_window :: "llm_gate \<Rightarrow> bool" where
  "forced_window s \<longleftrightarrow> (\<exists>old. lg_phase s = R_Installed True old)"

fun phase_cfgs :: "nat \<Rightarrow> nat \<Rightarrow> reload_phase \<Rightarrow> bool" where
  "phase_cfgs cfg fresh R_Idle = True"
| "phase_cfgs cfg fresh (R_Draining _ new) = (cfg < new \<and> new < fresh)"
| "phase_cfgs cfg fresh (R_Drained _ new) = (cfg < new \<and> new < fresh)"
| "phase_cfgs cfg fresh (R_Installed _ old) = (old < cfg)"
| "phase_cfgs cfg fresh (R_Committed _ old) = (old < cfg)"

definition tickets_ok :: "llm_gate \<Rightarrow> bool" where
  "tickets_ok s \<longleftrightarrow> distinct (map rq_client (lg_reqs s)) \<and> (\<forall>c\<in>set (map rq_client (lg_reqs s)). c < 2 ^ 31) \<and>
     sw_inflight (lg_swap s) = word_of_nat (length (lg_reqs s))"

text \<open>\<open>n\<close> is the number of steps taken so far; it keeps the counters away from their wrap.\<close>

definition gens_ok :: "nat \<Rightarrow> llm_gate \<Rightarrow> bool" where
  "gens_ok n s \<longleftrightarrow> 1 \<le> unat (sw_gen (lg_swap s)) \<and> unat (sw_gen (lg_swap s)) \<le> n + 1 \<and>
     unat (sw_drain_tmo (lg_swap s)) \<le> n \<and>
     (\<forall>r\<in>set (lg_reqs s). 1 \<le> unat (rq_gen r) \<and> unat (rq_gen r) \<le> unat (sw_gen (lg_swap s)))"

definition phase_ok :: "llm_gate \<Rightarrow> bool" where
  "phase_ok s \<longleftrightarrow> sw_draining (lg_swap s) = draining_phase (lg_phase s) \<and>
     (empty_phase (lg_phase s) \<longrightarrow> lg_reqs s = []) \<and>
     lg_cfg s < lg_fresh s \<and> phase_cfgs (lg_cfg s) (lg_fresh s) (lg_phase s)"

definition reads_ok :: "llm_gate \<Rightarrow> bool" where
  "reads_ok s \<longleftrightarrow> (forced_window s \<or>
     (\<forall>r\<in>set (lg_reqs s). rq_gen r = sw_gen (lg_swap s) \<longrightarrow> set (rq_seen r) \<subseteq> {lg_cfg s}))"

text \<open>As long as no drain timed out, every request belongs to the current generation.\<close>

definition calm_ok :: "llm_gate \<Rightarrow> bool" where
  "calm_ok s \<longleftrightarrow> (sw_drain_tmo (lg_swap s) = 0 \<longrightarrow>
     \<not> forced_phase (lg_phase s) \<and> (\<forall>r\<in>set (lg_reqs s). rq_gen r = sw_gen (lg_swap s)) \<and>
     (\<forall>x\<in>set (lg_freed s). x < lg_cfg s) \<and> lg_retired s = [])"

definition gate_inv :: "nat \<Rightarrow> llm_gate \<Rightarrow> bool" where
  "gate_inv n s \<longleftrightarrow> tickets_ok s \<and> gens_ok n s \<and> phase_ok s \<and> reads_ok s \<and> calm_ok s"

lemmas gate_inv_defs = gate_inv_def tickets_ok_def gens_ok_def phase_ok_def reads_ok_def calm_ok_def
  forced_window_def

lemma gate_inv_Suc: "gate_inv n s \<Longrightarrow> gate_inv (Suc n) s"
  by (auto simp: gate_inv_def gens_ok_def)

lemma tickets_bound:
  assumes "tickets_ok s"
  shows "length (lg_reqs s) \<le> 2 ^ 31"
proof -
  have "length (lg_reqs s) = card (rq_client ` set (lg_reqs s))"
    using assms distinct_card [of "map rq_client (lg_reqs s)"] by (simp add: tickets_ok_def)
  also have "\<dots> \<le> card {..<2 ^ 31 :: nat}"
    using assms by (intro card_mono) (auto simp: tickets_ok_def)
  finally show ?thesis by simp
qed

lemma inflight_zero:
  assumes "tickets_ok s"
  shows "sw_inflight (lg_swap s) = 0 \<longleftrightarrow> lg_reqs s = []"
proof -
  have "length (lg_reqs s) < 2 ^ 32" using tickets_bound [OF assms] by simp
  then have "unat (word_of_nat (length (lg_reqs s)) :: 32 word) = length (lg_reqs s)"
    by (simp add: unat_of_nat)
  then have "(word_of_nat (length (lg_reqs s)) :: 32 word) = 0 \<longleftrightarrow> length (lg_reqs s) = 0"
    by (metis unat_eq_zero)
  then show ?thesis using assms by (simp add: tickets_ok_def)
qed

lemma init_gate_inv: "gate_inv n (llm_gate_init d)"
  by (simp add: gate_inv_defs llm_gate_init_def svc_swap_init_def)

section \<open>Every step keeps it\<close>

lemma req_enter_inv:
  assumes "gate_inv n s" and "c < 2 ^ 31"
  shows "gate_inv n (req_enter c s)"
proof (cases "find_req s c \<noteq> None \<or> sw_draining (lg_swap s)")
  case True
  with assms show ?thesis by (auto simp: req_enter_def svc_swap_enter_def)
next
  case False
  then have new: "c \<notin> rq_client ` set (lg_reqs s)" by (auto simp: find_req_def find_None_iff)
  have "\<not> forced_window s" "\<not> empty_phase (lg_phase s)" "\<not> draining_phase (lg_phase s)"
    using assms(1) False by (auto simp: gate_inv_def phase_ok_def forced_window_def elim: empty_phase.elims)
  with assms False new show ?thesis
    by (auto simp: gate_inv_defs req_enter_def svc_swap_enter_def)
qed

lemma svc_find_prov_inv:
  assumes "gate_inv n s"
  shows "gate_inv n (svc_find_prov c s)"
proof -
  have m: "map rq_client (lg_reqs (svc_find_prov c s)) = map rq_client (lg_reqs s)"
    by (simp add: svc_find_prov_def)
  have "tickets_ok (svc_find_prov c s)"
    using assms unfolding gate_inv_def tickets_ok_def m by (simp add: svc_find_prov_def)
  have f [simp]: "lg_swap (svc_find_prov c s) = lg_swap s" "lg_cfg (svc_find_prov c s) = lg_cfg s"
    "lg_fresh (svc_find_prov c s) = lg_fresh s" "lg_phase (svc_find_prov c s) = lg_phase s"
    "lg_freed (svc_find_prov c s) = lg_freed s" "lg_retired (svc_find_prov c s) = lg_retired s"
    "lg_reqs (svc_find_prov c s) = [] \<longleftrightarrow> lg_reqs s = []"
    by (simp_all add: svc_find_prov_def)
  have r: "\<exists>r\<in>set (lg_reqs s). rq_gen r' = rq_gen r \<and> set (rq_seen r') \<subseteq> insert (lg_cfg s) (set (rq_seen r))"
    if "r' \<in> set (lg_reqs (svc_find_prov c s))" for r'
    using that by (auto simp: svc_find_prov_def split: if_splits)
  have "gens_ok n (svc_find_prov c s)"
    using assms r by (fastforce simp: gate_inv_def gens_ok_def)
  moreover have "phase_ok (svc_find_prov c s)" using assms by (simp add: gate_inv_def phase_ok_def)
  moreover have "reads_ok (svc_find_prov c s)"
    using assms r by (fastforce simp: gate_inv_def reads_ok_def forced_window_def)
  moreover have "calm_ok (svc_find_prov c s)"
    using assms r by (fastforce simp: gate_inv_def calm_ok_def)
  moreover note \<open>tickets_ok (svc_find_prov c s)\<close>
  ultimately show ?thesis by (simp add: gate_inv_def)
qed

lemma req_leave_inv:
  assumes "gate_inv n s"
  shows "gate_inv n (fst (req_leave c s))"
proof (cases "find_req s c")
  case None
  with assms show ?thesis by (simp add: req_leave_def)
next
  case (Some r)
  let ?s = "fst (req_leave c s)"
  have r: "r \<in> set (lg_reqs s)" "rq_client r = c" using Some by (auto simp: find_req_def find_Some_iff)
  have t: "tickets_ok s" using assms by (simp add: gate_inv_def)
  have ne: "0 < sw_inflight (lg_swap s)"
    using inflight_zero [OF t] r(1) by (auto simp: word_gt_0)
  have w: "sw_gen (lg_swap ?s) = sw_gen (lg_swap s)" "sw_inflight (lg_swap ?s) = sw_inflight (lg_swap s) - 1"
    "sw_draining (lg_swap ?s) = sw_draining (lg_swap s)" "sw_drain_tmo (lg_swap ?s) = sw_drain_tmo (lg_swap s)"
    "lg_reqs ?s = filter (\<lambda>r. rq_client r \<noteq> c) (lg_reqs s)" "lg_cfg ?s = lg_cfg s" "lg_fresh ?s = lg_fresh s"
    "lg_phase ?s = lg_phase s" "lg_freed ?s = lg_freed s" "lg_retired ?s = lg_retired s"
    using Some ne by (simp_all add: req_leave_def svc_swap_leave_def Let_def)
  have d: "distinct (map rq_client (lg_reqs s))" using t by (simp add: tickets_ok_def)
  have "map rq_client (filter (\<lambda>r. rq_client r \<noteq> c) (lg_reqs s)) = removeAll c (map rq_client (lg_reqs s))"
    by (simp add: removeAll_filter_not_eq filter_map comp_def eq_commute)
  then have "Suc (length (filter (\<lambda>r. rq_client r \<noteq> c) (lg_reqs s))) = length (lg_reqs s)"
    using d r by (metis distinct_remove1_removeAll length_map length_remove1 length_pos_if_in_set
        image_eqI set_map Suc_pred')
  then have "word_of_nat (length (lg_reqs s)) = (1 + word_of_nat (length (filter (\<lambda>r. rq_client r \<noteq> c) (lg_reqs s))) :: 32 word)"
    by (metis of_nat_Suc)
  then have "tickets_ok ?s"
    using t by (auto simp: tickets_ok_def w distinct_map_filter)
  moreover have "gens_ok n ?s" using assms by (auto simp: gate_inv_def gens_ok_def w)
  moreover have "phase_ok ?s" using assms by (auto simp: gate_inv_def phase_ok_def w)
  moreover have "reads_ok ?s" using assms by (auto simp: gate_inv_def reads_ok_def forced_window_def w)
  moreover have "calm_ok ?s" using assms by (auto simp: gate_inv_def calm_ok_def w)
  ultimately show ?thesis by (simp add: gate_inv_def)
qed

lemma reload_start_inv:
  assumes "gate_inv n s"
  shows "gate_inv n (reload_start now cfg_path loaded s)"
  using assms
  by (auto simp: gate_inv_defs reload_start_def swap_begin_entry_def)

lemma reload_wait_inv:
  assumes "gate_inv n s" and "n < 2 ^ 32 - 1"
  shows "gate_inv (Suc n) (reload_wait now s)"
proof (cases "lg_phase s")
  case (R_Draining deadline new)
  have z: "sw_inflight (lg_swap s) = 0 \<longleftrightarrow> lg_reqs s = []"
    using assms(1) by (intro inflight_zero) (simp add: gate_inv_def)
  show ?thesis
  proof (cases "lg_reqs s = []")
    case True
    with assms R_Draining z show ?thesis
      by (auto simp: gate_inv_defs reload_wait_def swap_begin_pass_def)
  next
    case False
    have tm: "unat (sw_drain_tmo (lg_swap s) + 1) = unat (sw_drain_tmo (lg_swap s)) + 1"
      using assms by (intro unat_add_one) (auto simp: gate_inv_def gens_ok_def)
    then have "sw_drain_tmo (lg_swap s) + 1 \<noteq> 0" by (metis Suc_eq_plus1 nat.distinct(1) unat_0)
    with assms R_Draining z False tm show ?thesis
      by (auto simp: gate_inv_defs reload_wait_def swap_begin_pass_def word_gt_0)
  qed
qed (insert assms gate_inv_Suc, auto simp: reload_wait_def)

lemma reload_install_inv:
  assumes "gate_inv n s"
  shows "gate_inv n (reload_install s)"
proof (cases "lg_phase s")
  case (R_Drained forced new)
  with assms show ?thesis
    by (cases forced) (auto simp: gate_inv_defs reload_install_def)
qed (insert assms, auto simp: reload_install_def)

lemma reload_commit_inv:
  assumes "gate_inv n s" and "n < 2 ^ 32 - 2"
  shows "gate_inv (Suc n) (reload_commit s)"
proof (cases "lg_phase s")
  case (R_Installed forced old)
  let ?g = "sw_gen (lg_swap s)"
  have g: "unat (?g + 1) = unat ?g + 1"
    using assms by (intro unat_add_one) (simp add: gate_inv_def gens_ok_def)
  then have nz: "?g + 1 \<noteq> 0" by (metis Suc_eq_plus1 nat.distinct(1) unat_0)
  have dr: "sw_draining (lg_swap s)" using assms(1) R_Installed by (simp add: gate_inv_def phase_ok_def)
  have new: "rq_gen r \<noteq> ?g + 1" if "r \<in> set (lg_reqs s)" for r
    using assms(1) that g by (auto simp: gate_inv_def gens_ok_def)
  have e: "reload_commit s = s\<lparr>lg_swap := (lg_swap s)\<lparr>sw_gen := ?g + 1, sw_swapped := sw_swapped (lg_swap s) + 1,
      sw_draining := False\<rparr>, lg_phase := R_Committed forced old\<rparr>"
    using R_Installed dr nz by (simp add: reload_commit_def svc_swap_commit_def Let_def)
  have "gens_ok (Suc n) (reload_commit s)" using assms(1) g by (fastforce simp: e gate_inv_def gens_ok_def)
  moreover have "reads_ok (reload_commit s)" using new by (auto simp: e reads_ok_def)
  moreover have "tickets_ok (reload_commit s)" "phase_ok (reload_commit s)" "calm_ok (reload_commit s)"
    using assms(1) R_Installed by (auto simp: e gate_inv_def tickets_ok_def phase_ok_def calm_ok_def)
  ultimately show ?thesis by (simp add: gate_inv_def)
qed (insert assms gate_inv_Suc, auto simp: reload_commit_def)

lemma retire_push_frame [simp]:
  "lg_swap (retire_push now c s) = lg_swap s" "lg_cfg (retire_push now c s) = lg_cfg s"
  "lg_fresh (retire_push now c s) = lg_fresh s" "lg_reqs (retire_push now c s) = lg_reqs s"
  by (simp_all add: retire_push_def retire_reap_def Let_def)

lemma reload_finish_inv:
  assumes "gate_inv n s"
  shows "gate_inv n (reload_finish now s)"
proof (cases "lg_phase s")
  case (R_Committed forced old)
  with assms show ?thesis
    by (cases forced) (auto simp: gate_inv_defs reload_finish_def old_dispose_def)
qed (insert assms, auto simp: reload_finish_def)

lemma gate_step_inv:
  assumes "gate_inv n s" and "gate_ok e" and "n < 2 ^ 32 - 2"
  shows "gate_inv (Suc n) (gate_step s e)"
  using assms
  by (cases e)
    (auto simp: req_enter_inv svc_find_prov_inv req_leave_inv reload_start_inv reload_wait_inv
      reload_install_inv reload_commit_inv reload_finish_inv intro!: gate_inv_Suc)

text \<open>Runs carry their length, which bounds the counters.\<close>

definition counted_step :: "llm_gate \<times> nat \<Rightarrow> gate_ev \<Rightarrow> llm_gate \<times> nat" where
  "counted_step = (\<lambda>(s, n) e. (gate_step s e, Suc n))"

definition counted_inv :: "llm_gate \<times> nat \<Rightarrow> bool" where
  "counted_inv = (\<lambda>(s, n). n < 2 ^ 32 - 1 \<longrightarrow> gate_inv n s)"

interpretation lgm: event_machine counted_step gate_ok counted_inv
  by unfold_locales (auto simp: counted_step_def counted_inv_def intro!: gate_step_inv)

lemma counted_run: "foldl counted_step (s, n) es = (foldl gate_step s es, n + length es)"
  by (induction es arbitrary: s n) (simp_all add: counted_step_def)

lemma gate_run_inv:
  assumes "list_all gate_ok es" and "length es < 2 ^ 32 - 1"
  shows "gate_inv (length es) (foldl gate_step (llm_gate_init d) es)"
  using lgm.events_inv [of "(llm_gate_init d, 0)" es] assms init_gate_inv
  by (simp add: counted_run counted_inv_def)

section \<open>Properties\<close>

lemma delivered_gen:
  assumes "find_req s c = Some r" and "snd (req_leave c s)"
  shows "rq_gen r = sw_gen (lg_swap s)" and "r \<in> set (lg_reqs s)"
proof -
  show "rq_gen r = sw_gen (lg_swap s)" using assms by (simp add: req_leave_def svc_swap_leave_def Let_def)
  show "r \<in> set (lg_reqs s)" using assms(1) by (auto simp: find_req_def find_Some_iff)
qed

text \<open>
  C26. No response mixes two configurations. In every interleaving of requests and reloads (below
  \<open>2 ^ 32\<close> steps), a response that is handed to its caller comes from a request that has read at
  most the configuration installed at that moment, unless it leaves in the window between the
  installation of new tables after a timed-out drain and the commit.
\<close>

theorem swap_no_mixed_result:
  assumes "list_all gate_ok es" and "length es < 2 ^ 32 - 1"
    and "find_req (foldl gate_step (llm_gate_init d) es) c = Some r"
    and "snd (req_leave c (foldl gate_step (llm_gate_init d) es))"
    and "\<not> forced_window (foldl gate_step (llm_gate_init d) es)"
  shows "set (rq_seen r) \<subseteq> {lg_cfg (foldl gate_step (llm_gate_init d) es)}"
  using gate_run_inv [OF assms(1,2), of d] delivered_gen [OF assms(3,4)] assms(5)
  by (auto simp: gate_inv_def reads_ok_def)

text \<open>A request that spans the start of a drain and finishes in time.\<close>

definition ex_drain :: "gate_ev list" where
  "ex_drain = [G_Enter 7, G_Read 7, G_Start 1 ''model.yaml'' True, G_Wait 2, G_Enter 8, G_Read 7]"

theorem swap_no_mixed_result_witness:
  "find_req (foldl gate_step (llm_gate_init 10) ex_drain) 7 = Some \<lparr>rq_client = 7, rq_gen = 1, rq_seen = [0, 0]\<rparr> \<and>
   snd (req_leave 7 (foldl gate_step (llm_gate_init 10) ex_drain)) \<and>
   set [0, 0 :: nat] \<subseteq> {lg_cfg (foldl gate_step (llm_gate_init 10) ex_drain)}"
proof -
  have f: "find_req (foldl gate_step (llm_gate_init 10) ex_drain) 7 = Some \<lparr>rq_client = 7, rq_gen = 1, rq_seen = [0, 0]\<rparr>"
    by code_simp
  have l: "snd (req_leave 7 (foldl gate_step (llm_gate_init 10) ex_drain))" by code_simp
  have "lg_phase (foldl gate_step (llm_gate_init 10) ex_drain) = R_Draining 11 1" by code_simp
  then have "\<not> forced_window (foldl gate_step (llm_gate_init 10) ex_drain)" by (simp add: forced_window_def)
  with swap_no_mixed_result [OF _ _ f l] f l show ?thesis by (simp add: ex_drain_def)
qed

text \<open>
  Nothing in use is freed. As long as no drain has timed out, no request in flight has read a
  configuration that was released.
\<close>

theorem swap_dispose_safe:
  assumes "list_all gate_ok es" and "length es < 2 ^ 32 - 1"
    and "sw_drain_tmo (lg_swap (foldl gate_step (llm_gate_init d) es)) = 0"
    and "r \<in> set (lg_reqs (foldl gate_step (llm_gate_init d) es))"
  shows "set (rq_seen r) \<inter> set (lg_freed (foldl gate_step (llm_gate_init d) es)) = {}"
proof -
  let ?s = "foldl gate_step (llm_gate_init d) es"
  have inv: "calm_ok ?s" "reads_ok ?s" using gate_run_inv [OF assms(1,2), of d] by (simp_all add: gate_inv_def)
  then have "\<not> forced_window ?s" and "rq_gen r = sw_gen (lg_swap ?s)" and "\<forall>x\<in>set (lg_freed ?s). x < lg_cfg ?s"
    using assms(3,4) by (auto simp: calm_ok_def forced_window_def)
  then show ?thesis using inv(2) assms(4) by (fastforce simp: reads_ok_def)
qed

definition ex_swap :: "gate_ev list" where
  "ex_swap = [G_Enter 7, G_Read 7, G_Start 1 ''model.yaml'' True, G_Leave 7, G_Wait 2, G_Install, G_Commit, G_Enter 8, G_Read 8, G_Finish 3]"

theorem swap_dispose_safe_witness:
  "lg_reqs (foldl gate_step (llm_gate_init 10) ex_swap) = [\<lparr>rq_client = 8, rq_gen = 2, rq_seen = [1]\<rparr>] \<and>
   lg_freed (foldl gate_step (llm_gate_init 10) ex_swap) = [0] \<and>
   set [1] \<inter> set (lg_freed (foldl gate_step (llm_gate_init 10) ex_swap)) = {}"
proof -
  have r: "lg_reqs (foldl gate_step (llm_gate_init 10) ex_swap) = [\<lparr>rq_client = 8, rq_gen = 2, rq_seen = [1]\<rparr>]"
    by code_simp
  have t: "sw_drain_tmo (lg_swap (foldl gate_step (llm_gate_init 10) ex_swap)) = 0" by code_simp
  have f: "lg_freed (foldl gate_step (llm_gate_init 10) ex_swap) = [0]" by code_simp
  have "set (rq_seen \<lparr>rq_client = 8, rq_gen = 2, rq_seen = [1]\<rparr>) \<inter> set (lg_freed (foldl gate_step (llm_gate_init 10) ex_swap)) = {}"
    by (rule swap_dispose_safe [OF _ _ t]) (simp add: ex_swap_def, simp add: ex_swap_def, simp add: r)
  then show ?thesis using r f by simp
qed

text \<open>
  The window is real. A run of seven steps with a timed-out drain after which a request that
  has read both the old and the new configuration leaves before the commit and has its response
  handed to the caller.
\<close>

theorem swap_forced_window_mixes:
  "\<exists>es r. list_all gate_ok es \<and> find_req (foldl gate_step (llm_gate_init 10) es) 7 = Some r \<and>
     rq_seen r = [0, 1] \<and> snd (req_leave 7 (foldl gate_step (llm_gate_init 10) es))"
proof -
  let ?es = "[G_Enter 7, G_Read 7, G_Start 1 ''model.yaml'' True, G_Wait 100, G_Install, G_Read 7]"
  have "find_req (foldl gate_step (llm_gate_init 10) ?es) 7 = Some \<lparr>rq_client = 7, rq_gen = 1, rq_seen = [0, 1]\<rparr>"
    by code_simp
  moreover have "snd (req_leave 7 (foldl gate_step (llm_gate_init 10) ?es))" by code_simp
  ultimately have "list_all gate_ok ?es \<and>
      find_req (foldl gate_step (llm_gate_init 10) ?es) 7 = Some \<lparr>rq_client = 7, rq_gen = 1, rq_seen = [0, 1]\<rparr> \<and>
      rq_seen \<lparr>rq_client = 7, rq_gen = 1, rq_seen = [0, 1]\<rparr> = [0, 1] \<and>
      snd (req_leave 7 (foldl gate_step (llm_gate_init 10) ?es))"
    by (simp only: list.pred_inject gate_ok.simps llm_req.select_convs) simp
  then show ?thesis by blast
qed

text \<open>
  The retire table holds four configurations: when it is full, the oldest one is released on the
  spot, whoever still uses it.
\<close>

lemma retire_full_frees_oldest:
  assumes "lg_retired s = (c, t) # rs" and "length (lg_retired s) = LLM_RETIRED_MAX"
    and "\<forall>(x, u) \<in> set (lg_retired s). now - u < LLM_RETIRED_GRACE_MS"
  shows "c \<in> set (lg_freed (old_dispose now new True s)) \<and> lg_reqs (old_dispose now new True s) = lg_reqs s"
proof -
  have "filter (\<lambda>(x, u). now - u < LLM_RETIRED_GRACE_MS) (lg_retired s) = lg_retired s"
    using assms(3) by (intro filter_True) auto
  then show ?thesis
    using assms(1,2) by (simp add: old_dispose_def retire_push_def retire_reap_def Let_def)
qed

end
