(* ===== verification/Llm_Breaker.thy ===== *)
theory Llm_Breaker
  imports Complex_Main Airy_Prelude
begin

unbundle bit_operations_syntax

text \<open>
  llm_d, endpoint health: the failover classification \<open>llm_failover.c\<close>, the circuit breaker and
  its table operations \<open>llm_health.c\<close>.

  The clock is \<open>airy_time_ms()\<close> cut to 32 bits, so every time is a 32-bit word and the comparisons
  are the code's: the sign of a wrapped difference. What the files call and do not define is a
  parameter: the error codes and the transport class of the error model, and the bounded copy
  \<open>AIRY_STRNCPY_TERM\<close>.
\<close>

section \<open>Failover classification\<close>

datatype llm_fo_reason = LLM_FO_NONE | LLM_FO_TRANSPORT | LLM_FO_RATE_LIMIT | LLM_FO_AUTH

record fo_env =
  err_llm_auth_fail :: int
  err_llm_rate_limit :: int
  err_io :: int
  err_is_transport :: "int \<Rightarrow> bool"
  strncpy_term :: "nat \<Rightarrow> string \<Rightarrow> string"

definition k_fo_map :: "fo_env \<Rightarrow> (int \<times> llm_fo_reason) list" where
  "k_fo_map env = [(err_llm_auth_fail env, LLM_FO_AUTH), (err_llm_rate_limit env, LLM_FO_RATE_LIMIT),
     (err_io env, LLM_FO_TRANSPORT)]"

definition fo_map_find :: "fo_env \<Rightarrow> int \<Rightarrow> llm_fo_reason" where
  "fo_map_find env code = (case map_of (k_fo_map env) code of None \<Rightarrow> LLM_FO_NONE | Some r \<Rightarrow> r)"

definition llm_fo_reason_of :: "fo_env \<Rightarrow> int \<Rightarrow> llm_fo_reason" where
  "llm_fo_reason_of env err_code =
     (let code = (if 0 < err_code then - err_code else err_code)
      in if code = 0 then LLM_FO_NONE
         else let mapped = fo_map_find env code
              in if mapped \<noteq> LLM_FO_NONE then mapped
                 else if err_is_transport env code then LLM_FO_TRANSPORT
                 else LLM_FO_NONE)"

fun fo_num :: "llm_fo_reason \<Rightarrow> nat" where
  "fo_num LLM_FO_NONE = 0"
| "fo_num LLM_FO_TRANSPORT = 1"
| "fo_num LLM_FO_RATE_LIMIT = 2"
| "fo_num LLM_FO_AUTH = 3"

definition llm_fo_should :: "fo_env \<Rightarrow> int \<Rightarrow> 32 word \<Rightarrow> bool" where
  "llm_fo_should env err_code on_mask =
     (let reason = llm_fo_reason_of env err_code
      in reason \<noteq> LLM_FO_NONE \<and> on_mask AND push_bit (fo_num reason) 1 \<noteq> 0)"

fun llm_fo_name :: "llm_fo_reason \<Rightarrow> string" where
  "llm_fo_name LLM_FO_NONE = ''none''"
| "llm_fo_name LLM_FO_TRANSPORT = ''transport''"
| "llm_fo_name LLM_FO_RATE_LIMIT = ''rate_limit''"
| "llm_fo_name LLM_FO_AUTH = ''auth''"

definition llm_fo_parse :: "string option \<Rightarrow> llm_fo_reason" where
  "llm_fo_parse name =
     (case name of
        None \<Rightarrow> LLM_FO_NONE
      | Some s \<Rightarrow>
          (case find (\<lambda>r. s = llm_fo_name r)
                  [LLM_FO_NONE, LLM_FO_TRANSPORT, LLM_FO_RATE_LIMIT, LLM_FO_AUTH] of
             None \<Rightarrow> LLM_FO_NONE | Some r \<Rightarrow> r))"

section \<open>The endpoint and its breaker\<close>

text \<open>Costs are doubles in the code; the model computes with exact rationals.\<close>

record llm_endpoint =
  ep_provider_name :: string
  ep_model_name :: string
  ep_endpoint :: string
  ep_api_key_env :: string
  ep_capabilities :: "32 word"
  ep_context_window :: "32 word"
  ep_cost_per_1k_input :: rat
  ep_cost_per_1k_output :: rat
  ep_avg_latency_ms :: "32 word"
  ep_enabled :: bool
  ep_priority :: int
  ep_consec_fail :: "32 word"
  ep_last_fail_ms :: "32 word"
  ep_open_until_ms :: "32 word"
  ep_probe_until_ms :: "32 word"
  ep_probe_fail :: "32 word"
  ep_open_level :: "8 word"

datatype llm_ep_status = LLM_EP_CLOSED | LLM_EP_OPEN | LLM_EP_HALF

definition LLM_EP_FAIL_MAX :: "32 word" where "LLM_EP_FAIL_MAX = 3"
definition LLM_EP_FAIL_WINDOW_MS :: "32 word" where "LLM_EP_FAIL_WINDOW_MS = 60000"
definition LLM_EP_OPEN_MS :: "64 word" where "LLM_EP_OPEN_MS = 30000"
definition LLM_EP_OPEN_MAX_MS :: "64 word" where "LLM_EP_OPEN_MAX_MS = 300000"
definition LLM_EP_MAX_LEVEL :: nat where "LLM_EP_MAX_LEVEL = 4"
definition LLM_EP_PROBE_MS :: "32 word" where "LLM_EP_PROBE_MS = 10000"
definition LLM_EP_PROBE_MAX :: "32 word" where "LLM_EP_PROBE_MAX = 3"

lemmas ep_consts = LLM_EP_FAIL_MAX_def LLM_EP_FAIL_WINDOW_MS_def LLM_EP_OPEN_MS_def
  LLM_EP_OPEN_MAX_MS_def LLM_EP_MAX_LEVEL_def LLM_EP_PROBE_MS_def LLM_EP_PROBE_MAX_def

text \<open>\<open>(int32_t)(a - b) > 0\<close>.\<close>

definition after32 :: "32 word \<Rightarrow> 32 word \<Rightarrow> bool" where
  "after32 a b \<longleftrightarrow> 0 < sint (a - b)"

definition nz32 :: "32 word \<Rightarrow> 32 word" where
  "nz32 t = (if t \<noteq> 0 then t else 1)"

definition open_hold :: "8 word \<Rightarrow> 32 word" where
  "open_hold lvl =
     (let level = (if unat lvl < LLM_EP_MAX_LEVEL then unat lvl else LLM_EP_MAX_LEVEL);
          hold = push_bit level LLM_EP_OPEN_MS;
          hold = (if LLM_EP_OPEN_MAX_MS < hold then LLM_EP_OPEN_MAX_MS else hold)
      in ucast hold)"

definition ep_open :: "32 word \<Rightarrow> llm_endpoint \<Rightarrow> llm_endpoint" where
  "ep_open now ep =
     ep\<lparr>ep_open_until_ms := nz32 (now + open_hold (ep_open_level ep)), ep_probe_until_ms := 0,
        ep_open_level := (if ep_open_level ep < 255 then ep_open_level ep + 1 else ep_open_level ep)\<rparr>"

definition llm_ep_state :: "llm_endpoint \<Rightarrow> 32 word \<Rightarrow> llm_ep_status" where
  "llm_ep_state ep now =
     (if ep_open_until_ms ep = 0 then LLM_EP_CLOSED
      else if after32 (ep_open_until_ms ep) now then LLM_EP_OPEN
      else LLM_EP_HALF)"

definition llm_ep_admit :: "llm_endpoint \<Rightarrow> 32 word \<Rightarrow> llm_endpoint \<times> bool" where
  "llm_ep_admit ep now =
     (case llm_ep_state ep now of
        LLM_EP_OPEN \<Rightarrow> (ep, False)
      | LLM_EP_CLOSED \<Rightarrow> (ep, True)
      | LLM_EP_HALF \<Rightarrow>
          if ep_probe_until_ms ep \<noteq> 0 \<and> after32 (ep_probe_until_ms ep) now then (ep, False)
          else (ep\<lparr>ep_probe_until_ms := nz32 (now + LLM_EP_PROBE_MS)\<rparr>, True))"

definition ep_count :: "32 word \<Rightarrow> llm_endpoint \<Rightarrow> llm_endpoint" where
  "ep_count now ep =
     (let cf = (if ep_consec_fail ep \<noteq> 0 \<and> LLM_EP_FAIL_WINDOW_MS \<le> now - ep_last_fail_ms ep
                then 0 else ep_consec_fail ep)
      in ep\<lparr>ep_consec_fail := (if cf < - 1 then cf + 1 else cf), ep_last_fail_ms := now\<rparr>)"

definition llm_ep_fail :: "fo_env \<Rightarrow> llm_endpoint \<Rightarrow> int \<Rightarrow> 32 word \<Rightarrow> llm_endpoint" where
  "llm_ep_fail env ep err now =
     (let reason = llm_fo_reason_of env err
      in if reason = LLM_FO_NONE then ep
         else case llm_ep_state ep now of
                LLM_EP_OPEN \<Rightarrow> ep\<lparr>ep_last_fail_ms := now\<rparr>
              | LLM_EP_HALF \<Rightarrow>
                  (let ep = ep\<lparr>ep_last_fail_ms := now\<rparr>;
                       pf = (if reason = LLM_FO_AUTH then ep_probe_fail ep else ep_probe_fail ep + 1)
                   in if reason = LLM_FO_AUTH \<or> LLM_EP_PROBE_MAX \<le> pf
                      then ep_open now (ep\<lparr>ep_probe_fail := 0\<rparr>)
                      else ep\<lparr>ep_probe_fail := pf\<rparr>)
              | LLM_EP_CLOSED \<Rightarrow>
                  (let ep = ep_count now ep
                   in if reason = LLM_FO_AUTH \<or> LLM_EP_FAIL_MAX \<le> ep_consec_fail ep
                      then ep_open now (ep\<lparr>ep_probe_fail := 0\<rparr>)
                      else ep))"

definition llm_ep_ok :: "llm_endpoint \<Rightarrow> llm_endpoint" where
  "llm_ep_ok ep =
     ep\<lparr>ep_consec_fail := 0, ep_last_fail_ms := 0, ep_open_until_ms := 0, ep_probe_until_ms := 0,
        ep_probe_fail := 0, ep_open_level := 0\<rparr>"

section \<open>Table operations\<close>

record router_ep_snap =
  sn_provider_name :: string
  sn_model_name :: string
  sn_consec_fail :: "32 word"
  sn_last_fail_age_ms :: "32 word"
  sn_open_remain_ms :: "32 word"
  sn_probe_fail :: "32 word"
  sn_open_level :: "8 word"
  sn_state :: "8 word"

text \<open>The part of \<open>router_ctx_t\<close> that the health plane uses.\<close>

record router_ctx =
  r_endpoints :: "llm_endpoint list"
  r_initialized :: bool
  r_round_robin_index :: "64 word"
  r_restore :: "router_ep_snap list"

definition router_ep_find :: "llm_endpoint list \<Rightarrow> string \<times> string \<Rightarrow> nat option" where
  "router_ep_find eps k = find_index (\<lambda>ep. (ep_provider_name ep, ep_model_name ep) = k) eps"

definition llm_rtr_admit :: "'z router_ctx_scheme \<Rightarrow> string \<Rightarrow> string \<Rightarrow> 32 word \<Rightarrow> 'z router_ctx_scheme \<times> bool" where
  "llm_rtr_admit c provider model now =
     (if \<not> r_initialized c then (c, False)
      else case router_ep_find (r_endpoints c) (provider, model) of
             None \<Rightarrow> (c, False)
           | Some i \<Rightarrow>
               (case llm_ep_admit (r_endpoints c ! i) now of (ep, ok) \<Rightarrow>
                  (c\<lparr>r_endpoints := (r_endpoints c)[i := ep]\<rparr>, ok)))"

definition llm_rtr_known :: "'z router_ctx_scheme \<Rightarrow> string \<Rightarrow> string \<Rightarrow> bool" where
  "llm_rtr_known c provider model \<longleftrightarrow>
     r_initialized c \<and> router_ep_find (r_endpoints c) (provider, model) \<noteq> None"

type_synonym ep_sig = "32 word \<times> 32 word \<times> 32 word \<times> 32 word \<times> 32 word \<times> 8 word"

definition ep_sig_of :: "llm_endpoint \<Rightarrow> ep_sig" where
  "ep_sig_of ep = (ep_consec_fail ep, ep_last_fail_ms ep, ep_open_until_ms ep, ep_probe_until_ms ep,
     ep_probe_fail ep, ep_open_level ep)"

text \<open>The endpoint after one observation, and whether its health changed (then it is saved).\<close>

definition ep_step :: "fo_env \<Rightarrow> llm_endpoint \<Rightarrow> bool \<Rightarrow> int \<Rightarrow> 32 word \<Rightarrow> llm_endpoint \<times> bool" where
  "ep_step env ep ok err now =
     (let ep' = (if ok then llm_ep_ok ep else llm_ep_fail env ep err now)
      in (ep', ep_sig_of ep \<noteq> ep_sig_of ep'))"

datatype note_rc = NOTE_OK | NOTE_NOT_FOUND | NOTE_NOT_INIT

text \<open>The last component: whether the state file is rewritten.\<close>

definition ep_note ::
  "fo_env \<Rightarrow> 'z router_ctx_scheme \<Rightarrow> string \<Rightarrow> string \<Rightarrow> int \<Rightarrow> bool \<Rightarrow> 32 word \<Rightarrow> 'z router_ctx_scheme \<times> note_rc \<times> bool"
  where
  "ep_note env c provider model err ok now =
     (if \<not> r_initialized c then (c, NOTE_NOT_INIT, False)
      else case router_ep_find (r_endpoints c) (provider, model) of
             None \<Rightarrow> (c, NOTE_NOT_FOUND, False)
           | Some i \<Rightarrow>
               (case ep_step env (r_endpoints c ! i) ok err now of (ep, dirty) \<Rightarrow>
                  (c\<lparr>r_endpoints := (r_endpoints c)[i := ep]\<rparr>, NOTE_OK, dirty)))"

definition llm_rtr_fail ::
  "fo_env \<Rightarrow> 'z router_ctx_scheme \<Rightarrow> string \<Rightarrow> string \<Rightarrow> int \<Rightarrow> 32 word \<Rightarrow> 'z router_ctx_scheme \<times> note_rc \<times> bool" where
  "llm_rtr_fail env c provider model err now = ep_note env c provider model err False now"

definition llm_rtr_ok ::
  "fo_env \<Rightarrow> 'z router_ctx_scheme \<Rightarrow> string \<Rightarrow> string \<Rightarrow> 32 word \<Rightarrow> 'z router_ctx_scheme \<times> note_rc \<times> bool" where
  "llm_rtr_ok env c provider model now = ep_note env c provider model 0 True now"

definition llm_rtr_prov_note ::
  "fo_env \<Rightarrow> router_ctx \<Rightarrow> string \<Rightarrow> bool \<Rightarrow> 32 word \<Rightarrow> router_ctx \<times> nat \<times> bool" where
  "llm_rtr_prov_note env c provider ok now =
     (if provider = [] \<or> \<not> r_initialized c then (c, 0, False)
      else (c\<lparr>r_endpoints := map (\<lambda>ep. if ep_provider_name ep = provider
                                       then fst (ep_step env ep ok (err_io env) now) else ep)
                               (r_endpoints c)\<rparr>,
            length (filter (\<lambda>ep. ep_provider_name ep = provider) (r_endpoints c)),
            list_ex (\<lambda>ep. ep_provider_name ep = provider \<and>
                          snd (ep_step env ep ok (err_io env) now)) (r_endpoints c)))"

datatype llm_health_state = LLM_HEALTH_DOWN | LLM_HEALTH_DEGRADED | LLM_HEALTH_OK

fun llm_health_name :: "llm_health_state \<Rightarrow> string" where
  "llm_health_name LLM_HEALTH_OK = ''ok''"
| "llm_health_name LLM_HEALTH_DEGRADED = ''degraded''"
| "llm_health_name LLM_HEALTH_DOWN = ''down''"

record llm_health_snap =
  hs_state :: llm_health_state
  hs_total :: nat
  hs_ok :: nat
  hs_down :: nat

definition health_add :: "32 word \<Rightarrow> llm_health_snap \<Rightarrow> llm_endpoint \<Rightarrow> llm_health_snap" where
  "health_add now s ep =
     (if \<not> ep_enabled ep then s
      else let s = s\<lparr>hs_total := hs_total s + 1\<rparr>
           in if llm_ep_state ep now = LLM_EP_CLOSED then s\<lparr>hs_ok := hs_ok s + 1\<rparr>
              else s\<lparr>hs_down := hs_down s + 1\<rparr>)"

definition llm_rtr_health :: "router_ctx \<Rightarrow> 32 word \<Rightarrow> llm_health_snap" where
  "llm_rtr_health c now =
     (let snap = \<lparr>hs_state = LLM_HEALTH_DOWN, hs_total = 0, hs_ok = 0, hs_down = 0\<rparr>
      in if \<not> r_initialized c then snap
         else let snap = foldl (health_add now) snap (r_endpoints c)
              in snap\<lparr>hs_state :=
                   (if hs_total snap = 0 \<or> hs_ok snap = 0 then LLM_HEALTH_DOWN
                    else if hs_ok snap = hs_total snap then LLM_HEALTH_OK
                    else LLM_HEALTH_DEGRADED)\<rparr>)"

section \<open>Wrapped time\<close>

text \<open>Within half the clock's range the sign of the wrapped difference is the order in time.\<close>

lemma sint_diff_small:
  assumes "h < 2 ^ 31" and "t < 2 ^ 31"
  shows "sint (of_nat h - of_nat t :: 32 word) = int h - int t"
proof -
  have "(of_nat h - of_nat t :: 32 word) = word_of_int (int h - int t)" by simp
  then have "sint (of_nat h - of_nat t :: 32 word) = signed_take_bit 31 (int h - int t)"
    by (simp only: sint_sbintrunc') simp
  also have "\<dots> = int h - int t"
    using assms by (intro signed_take_bit_int_eq_self) simp_all
  finally show ?thesis .
qed

lemma after32_offset:
  assumes "h < 2 ^ 31" and "t < 2 ^ 31"
  shows "after32 (now + of_nat h) (now + of_nat t) \<longleftrightarrow> t < h"
  using sint_diff_small [OF assms] by (simp add: after32_def)

lemma open_hold_val: "open_hold lvl = of_nat (min (30000 * 2 ^ min (unat lvl) 4) 300000)"
proof -
  have "k \<in> {0, 1, 2, 3, 4} \<Longrightarrow>
      ucast (if 300000 < push_bit k (30000 :: 64 word) then 300000 else push_bit k (30000 :: 64 word)) =
      (of_nat (min (30000 * 2 ^ k) 300000) :: 32 word)" for k :: nat
    by auto
  moreover have "min (unat lvl) 4 \<in> {0, 1, 2, 3, 4}" by (simp add: min_def, linarith)
  moreover have "(if unat lvl < 4 then unat lvl else 4) = min (unat lvl) 4" by simp
  ultimately show ?thesis unfolding open_hold_def ep_consts Let_def by (simp only:)
qed

text \<open>The end of the hold period as a distance from now; the clock value 0 is moved to 1.\<close>

definition hold_of :: "32 word \<Rightarrow> 8 word \<Rightarrow> nat" where
  "hold_of now lvl =
     (let h = min (30000 * 2 ^ min (unat lvl) 4) 300000
      in if now + of_nat h = 0 then h + 1 else h)"

lemma hold_of_bounds: "30000 \<le> hold_of now lvl \<and> hold_of now lvl \<le> 300001"
proof -
  define h :: nat where "h = min (30000 * 2 ^ min (unat lvl) 4) 300000"
  have "(30000 :: nat) * 1 \<le> 30000 * 2 ^ min (unat lvl) 4" by (intro mult_le_mono2) simp
  then have "30000 \<le> h \<and> h \<le> 300000" by (simp add: h_def)
  then show ?thesis unfolding hold_of_def Let_def h_def [symmetric] by simp
qed

lemma ep_open_until: "ep_open_until_ms (ep_open now ep) = now + of_nat (hold_of now (ep_open_level ep))"
proof (cases "now + open_hold (ep_open_level ep) = 0")
  case True
  then have "now + of_nat (hold_of now (ep_open_level ep)) = 0 + 1"
    by (simp add: hold_of_def open_hold_val Let_def algebra_simps)
  with True show ?thesis by (simp add: ep_open_def nz32_def)
next
  case False
  then show ?thesis by (simp add: ep_open_def nz32_def hold_of_def open_hold_val Let_def)
qed

lemma ep_open_until_nz: "ep_open_until_ms (ep_open now ep) \<noteq> 0"
  by (simp add: ep_open_def nz32_def)

text \<open>
  How long the breaker stays open. Right after opening, and for the next \<open>2 ^ 31\<close> ms, the
  endpoint is OPEN exactly for the hold period and HALF-open afterwards; the period doubles with
  every level from 30 s and never exceeds 300 s (one more millisecond where the clock value 0 is
  skipped).
\<close>

theorem breaker_open_window:
  assumes "dt < 2 ^ 31"
  shows "llm_ep_state (ep_open now ep) (now + of_nat dt) =
      (if dt < hold_of now (ep_open_level ep) then LLM_EP_OPEN else LLM_EP_HALF) \<and>
    30000 \<le> hold_of now (ep_open_level ep) \<and> hold_of now (ep_open_level ep) \<le> 300001"
proof -
  have "hold_of now (ep_open_level ep) < 2 ^ 31"
    using hold_of_bounds [of now "ep_open_level ep"] by simp
  from after32_offset [OF this assms, of now] show ?thesis
    using ep_open_until_nz [of now ep] hold_of_bounds
    by (simp add: llm_ep_state_def ep_open_until)
qed

definition example_ep :: llm_endpoint where
  "example_ep =
     \<lparr>ep_provider_name = ''acme'', ep_model_name = ''m1'', ep_endpoint = ''http'', ep_api_key_env = [],
      ep_capabilities = 1, ep_context_window = 4096, ep_cost_per_1k_input = 1,
      ep_cost_per_1k_output = 2, ep_avg_latency_ms = 50, ep_enabled = True, ep_priority = 1,
      ep_consec_fail = 0, ep_last_fail_ms = 0, ep_open_until_ms = 0, ep_probe_until_ms = 0,
      ep_probe_fail = 0, ep_open_level = 0\<rparr>"

definition example_fo :: fo_env where
  "example_fo = \<lparr>err_llm_auth_fail = - 401, err_llm_rate_limit = - 429, err_io = - 5,
     err_is_transport = (\<lambda>e. e = - 110), strncpy_term = (\<lambda>n s. take (n - 1) s)\<rparr>"

theorem breaker_open_window_witness:
  "llm_ep_state (ep_open 100 example_ep) (100 + of_nat 29999) = LLM_EP_OPEN \<and>
   llm_ep_state (ep_open 100 example_ep) (100 + of_nat 30000) = LLM_EP_HALF"
  using breaker_open_window [of 29999 100 example_ep] breaker_open_window [of 30000 100 example_ep]
  by (simp add: hold_of_def example_ep_def)

text \<open>
  A half-open endpoint lets one probe through at a time. When a caller is admitted to an
  endpoint that is not closed, everybody else is refused for the next 10 s, unless a success is
  reported in between.
\<close>

theorem breaker_single_probe:
  assumes "llm_ep_state ep now \<noteq> LLM_EP_CLOSED" and "llm_ep_admit ep now = (ep', True)"
    and "dt < 10000"
  shows "llm_ep_admit ep' (now + of_nat dt) = (ep', False)"
proof -
  have st: "llm_ep_state ep now = LLM_EP_HALF"
    and ep': "ep' = ep\<lparr>ep_probe_until_ms := nz32 (now + 10000)\<rparr>"
    using assms(1,2)
    by (cases "llm_ep_state ep now"; auto simp: llm_ep_admit_def LLM_EP_PROBE_MS_def split: if_splits)+
  define h where "h = (if now + (10000 :: 32 word) = 0 then 10001 else 10000 :: nat)"
  have until: "nz32 (now + 10000) = now + of_nat h"
  proof (cases "now + (10000 :: 32 word) = 0")
    case True
    then have "now + (10001 :: 32 word) = 1" by (simp add: algebra_simps)
    with True show ?thesis by (simp add: nz32_def h_def)
  next
    case False
    then show ?thesis by (simp add: nz32_def h_def)
  qed
  have "after32 (now + of_nat h) (now + of_nat dt)"
    using assms(3) by (subst after32_offset) (auto simp: h_def)
  then have busy: "after32 (ep_probe_until_ms ep') (now + of_nat dt)" using ep' until by simp
  have "ep_probe_until_ms ep' \<noteq> 0" using ep' by (simp add: nz32_def)
  moreover have "llm_ep_state ep' (now + of_nat dt) \<noteq> LLM_EP_CLOSED"
    using st ep' by (auto simp: llm_ep_state_def split: if_splits)
  ultimately show ?thesis
    using busy by (cases "llm_ep_state ep' (now + of_nat dt)") (simp_all add: llm_ep_admit_def)
qed

theorem breaker_single_probe_witness:
  "snd (llm_ep_admit (fst (llm_ep_admit (ep_open 100 example_ep) 40000)) (40000 + of_nat 9999)) = False"
proof -
  have "llm_ep_state (ep_open 100 example_ep) (100 + of_nat 39900) = LLM_EP_HALF"
    unfolding llm_ep_state_def ep_open_until
    by (simp add: hold_of_def example_ep_def after32_def)
  then have half: "llm_ep_state (ep_open 100 example_ep) 40000 = LLM_EP_HALF" by simp
  obtain ep' where ep': "llm_ep_admit (ep_open 100 example_ep) 40000 = (ep', True)"
    using half by (simp add: llm_ep_admit_def ep_open_def)
  have "llm_ep_admit ep' (40000 + of_nat 9999) = (ep', False)"
    by (rule breaker_single_probe [OF _ ep']) (simp_all add: half)
  then show ?thesis by (simp add: ep')
qed

text \<open>
  A half-open endpoint that nobody probes is not half-open for ever: once the clock is more than half
  its range past the deadline, the sign of the difference flips and the endpoint reads as OPEN again.
\<close>

lemma half_open_relapse:
  assumes "ep_open_until_ms ep \<noteq> 0" and "2 ^ 31 < d" and "d < 2 ^ 32"
  shows "llm_ep_state ep (ep_open_until_ms ep + of_nat d) = LLM_EP_OPEN"
proof -
  have "(ep_open_until_ms ep - (ep_open_until_ms ep + of_nat d) :: 32 word) = word_of_int (2 ^ 32 - int d)"
    by simp
  then have "sint (ep_open_until_ms ep - (ep_open_until_ms ep + of_nat d)) = signed_take_bit 31 (2 ^ 32 - int d)"
    by (simp only: sint_sbintrunc') simp
  also have "\<dots> = 2 ^ 32 - int d" using assms by (intro signed_take_bit_int_eq_self) simp_all
  finally show ?thesis using assms by (simp add: llm_ep_state_def after32_def)
qed

section \<open>When the breaker trips\<close>

text \<open>Three failures in a row, each less than the window after the one before.\<close>

fun close3 :: "32 word list \<Rightarrow> bool" where
  "close3 (a # b # c # ts) \<longleftrightarrow>
     b - a < LLM_EP_FAIL_WINDOW_MS \<and> c - b < LLM_EP_FAIL_WINDOW_MS \<or> close3 (b # c # ts)"
| "close3 _ \<longleftrightarrow> False"

abbreviation fails :: "fo_env \<Rightarrow> int \<Rightarrow> llm_endpoint \<Rightarrow> 32 word list \<Rightarrow> llm_endpoint" where
  "fails env err ep ts \<equiv> foldl (\<lambda>ep t. llm_ep_fail env ep err t) ep ts"

lemma llm_ep_fail_stays_open:
  assumes "ep_open_until_ms ep \<noteq> 0"
  shows "ep_open_until_ms (llm_ep_fail env ep err t) \<noteq> 0"
  using assms
  by (auto simp: llm_ep_fail_def Let_def ep_open_until_nz llm_ep_state_def split: llm_ep_status.split)

lemma fails_stay_open: "ep_open_until_ms ep \<noteq> 0 \<Longrightarrow> ep_open_until_ms (fails env err ep ts) \<noteq> 0"
  by (induction ts arbitrary: ep) (simp_all add: llm_ep_fail_stays_open)

text \<open>One failure of a closed endpoint, for a reason that is neither ignored nor authentication.\<close>

lemma llm_ep_fail_closed:
  assumes "ep_open_until_ms ep = 0" and "llm_fo_reason_of env err \<in> {LLM_FO_TRANSPORT, LLM_FO_RATE_LIMIT}"
  shows "llm_ep_fail env ep err t =
    (if 3 \<le> ep_consec_fail (ep_count t ep) then ep_open t ((ep_count t ep)\<lparr>ep_probe_fail := 0\<rparr>)
     else ep_count t ep)"
  using assms by (auto simp: llm_ep_fail_def llm_ep_state_def Let_def LLM_EP_FAIL_MAX_def)

lemma not_3_le: "\<not> (3 :: 32 word) \<le> 1" "\<not> (3 :: 32 word) \<le> 2"
  by (simp_all add: word_le_nat_alt)

lemma small_below_max: "(0 :: 32 word) < - 1" "(1 :: 32 word) < - 1" "(2 :: 32 word) < - 1"
  by (simp_all add: word_order.not_eq_extremum [symmetric])

lemma trip_from_2:
  assumes r: "llm_fo_reason_of env err \<in> {LLM_FO_TRANSPORT, LLM_FO_RATE_LIMIT}"
    and "ep_open_until_ms ep = 0" and "ep_last_fail_ms ep = b"
  shows "ep_consec_fail ep = 2 \<and> b - a < LLM_EP_FAIL_WINDOW_MS \<or>
      ep_consec_fail ep = 1 \<and> \<not> b - a < LLM_EP_FAIL_WINDOW_MS \<Longrightarrow>
    ep_open_until_ms (fails env err ep ts) = 0 \<longleftrightarrow> \<not> close3 (a # b # ts)"
  using assms(2,3)
proof (induction ts arbitrary: ep a b)
  case Nil
  then show ?case by simp
next
  case (Cons t ts)
  note f = llm_ep_fail_closed [OF Cons.prems(2) r, of t]
  show ?case
  proof (cases "t - b < LLM_EP_FAIL_WINDOW_MS")
    case near: True
    show ?thesis
    proof (cases "ep_consec_fail ep = 2")
      case True
      with near Cons.prems have "ep_consec_fail (ep_count t ep) = 3" by (auto simp: ep_count_def not_le small_below_max)
      then have "llm_ep_fail env ep err t = ep_open t ((ep_count t ep)\<lparr>ep_probe_fail := 0\<rparr>)"
        using f by simp
      then have "ep_open_until_ms (fails env err ep (t # ts)) \<noteq> 0"
        by (simp add: fails_stay_open ep_open_until_nz)
      moreover have "close3 (a # b # t # ts)" using True near Cons.prems(1) by auto
      ultimately show ?thesis by simp
    next
      case False
      then have one: "ep_consec_fail ep = 1" and far: "\<not> b - a < LLM_EP_FAIL_WINDOW_MS"
        using Cons.prems(1) by auto
      have c: "ep_consec_fail (ep_count t ep) = 2" "ep_last_fail_ms (ep_count t ep) = t"
        "ep_open_until_ms (ep_count t ep) = 0"
        using one near Cons.prems by (auto simp: ep_count_def not_le small_below_max)
      from c(1) f have "llm_ep_fail env ep err t = ep_count t ep" by simp
      with Cons.IH [of "ep_count t ep" t b] c near far show ?thesis by simp
    qed
  next
    case far: False
    have c: "ep_consec_fail (ep_count t ep) = 1" "ep_last_fail_ms (ep_count t ep) = t"
      "ep_open_until_ms (ep_count t ep) = 0"
      using far Cons.prems by (auto simp: ep_count_def not_le small_below_max)
    from c(1) f not_3_le have "llm_ep_fail env ep err t = ep_count t ep" by simp
    with Cons.IH [of "ep_count t ep" t b] c far show ?thesis by simp
  qed
qed

text \<open>
  C37. When the breaker trips. Take an endpoint that has just succeeded and let it fail at the times
  \<open>ts\<close> for transport or rate-limit reasons. It is still closed afterwards if and only if nowhere in
  \<open>ts\<close> three failures follow each other with both gaps shorter than the 60 s window. Errors that
  are not failover reasons never change the endpoint, and a single authentication failure opens it.
\<close>

theorem breaker_trip_law:
  assumes "llm_fo_reason_of env err \<in> {LLM_FO_TRANSPORT, LLM_FO_RATE_LIMIT}"
    and "llm_fo_reason_of env aerr = LLM_FO_AUTH" and "llm_fo_reason_of env nerr = LLM_FO_NONE"
  shows "(ep_open_until_ms (fails env err (llm_ep_ok ep) ts) = 0 \<longleftrightarrow> \<not> close3 ts) \<and>
    ep_open_until_ms (llm_ep_fail env (llm_ep_ok ep) aerr now) \<noteq> 0 \<and>
    llm_ep_fail env ep' nerr now = ep'"
proof -
  have "ep_open_until_ms (fails env err (llm_ep_ok ep) ts) = 0 \<longleftrightarrow> \<not> close3 ts"
  proof (cases ts)
    case Nil
    then show ?thesis by (simp add: llm_ep_ok_def)
  next
    case (Cons t us)
    let ?e = "ep_count t (llm_ep_ok ep)"
    have e: "ep_consec_fail ?e = 1" "ep_last_fail_ms ?e = t" "ep_open_until_ms ?e = 0"
      by (simp_all add: ep_count_def llm_ep_ok_def small_below_max)
    have z: "ep_open_until_ms (llm_ep_ok ep) = 0" by (simp add: llm_ep_ok_def)
    have first: "llm_ep_fail env (llm_ep_ok ep) err t = ?e"
      using llm_ep_fail_closed [OF z assms(1), of t] e(1) not_3_le by simp
    have far: "\<not> t - (t - LLM_EP_FAIL_WINDOW_MS) < LLM_EP_FAIL_WINDOW_MS" by simp
    have "close3 ((t - LLM_EP_FAIL_WINDOW_MS) # t # us) = close3 (t # us)"
      using far by (cases us) simp_all
    with trip_from_2 [OF assms(1) e(3,2), of "t - LLM_EP_FAIL_WINDOW_MS" us] e(1) far first Cons
    show ?thesis by simp
  qed
  moreover have "ep_open_until_ms (llm_ep_fail env (llm_ep_ok ep) aerr now) \<noteq> 0"
    using assms(2) by (simp add: llm_ep_fail_def Let_def llm_ep_state_def llm_ep_ok_def ep_open_until_nz)
  moreover have "llm_ep_fail env ep' nerr now = ep'" using assms(3) by (simp add: llm_ep_fail_def)
  ultimately show ?thesis by blast
qed

theorem breaker_trip_law_witness:
  "ep_open_until_ms (fails example_fo (- 5) (llm_ep_ok example_ep) [1000, 50000, 200000, 210000]) = 0 \<and>
   ep_open_until_ms (fails example_fo (- 5) (llm_ep_ok example_ep) [1000, 50000, 100000]) \<noteq> 0"
proof -
  have r: "llm_fo_reason_of example_fo (- 5) \<in> {LLM_FO_TRANSPORT, LLM_FO_RATE_LIMIT}"
    "llm_fo_reason_of example_fo (- 401) = LLM_FO_AUTH" "llm_fo_reason_of example_fo (- 22) = LLM_FO_NONE"
    by (simp_all add: llm_fo_reason_of_def fo_map_find_def k_fo_map_def example_fo_def)
  from breaker_trip_law [OF r, of example_ep "[1000, 50000, 200000, 210000]"]
    breaker_trip_law [OF r, of example_ep "[1000, 50000, 100000]"]
  show ?thesis by (simp add: LLM_EP_FAIL_WINDOW_MS_def)
qed

end
