(* ===== verification/Llm_State.thy ===== *)
theory Llm_State
  imports Llm_Breaker
begin

text \<open>
  llm_d, persistence of the endpoint health (\<open>router_state.c\<close>) and the two operations of
  \<open>llm_router.c\<close> that consume it, registration and hot reload. The state file holds one line of
  eight tab-separated columns per endpoint; the file itself is its text, \<open>None\<close> when it cannot be
  read.
\<close>

section \<open>Persistence\<close>

definition LLM_ROUTER_MAX_ENDPOINTS :: nat where "LLM_ROUTER_MAX_ENDPOINTS = 64"
definition RTR_STATE_LINE_MAX :: nat where "RTR_STATE_LINE_MAX = 320"

fun st_num :: "llm_ep_status \<Rightarrow> 8 word" where
  "st_num LLM_EP_CLOSED = 0"
| "st_num LLM_EP_OPEN = 1"
| "st_num LLM_EP_HALF = 2"

definition snap_from_ep :: "fo_env \<Rightarrow> llm_endpoint \<Rightarrow> 32 word \<Rightarrow> router_ep_snap" where
  "snap_from_ep env ep now =
     (let st = llm_ep_state ep now;
          age = (if ep_last_fail_ms ep \<noteq> 0 then now - ep_last_fail_ms ep else 0)
      in \<lparr>sn_provider_name = strncpy_term env 64 (ep_provider_name ep),
          sn_model_name = strncpy_term env 64 (ep_model_name ep),
          sn_consec_fail = ep_consec_fail ep,
          sn_last_fail_age_ms = (if ep_consec_fail ep \<noteq> 0 \<and> age = 0 then 1 else age),
          sn_open_remain_ms = (if st = LLM_EP_OPEN then ep_open_until_ms ep - now else 0),
          sn_probe_fail = ep_probe_fail ep, sn_open_level = ep_open_level ep, sn_state = st_num st\<rparr>)"

fun field_loop :: "32 word \<Rightarrow> string \<Rightarrow> 32 word option" where
  "field_loop v [] = Some v"
| "field_loop v (c # cs) =
     (if \<not> c_isdigit c then None
      else let d = word_of_int (c_digit_val c)
           in if (- 1 - d) div 10 < v then None else field_loop (v * 10 + d) cs)"

definition field_u32 :: "string \<Rightarrow> 32 word option" where
  "field_u32 s = (if s = [] then None else field_loop 0 s)"

fun split_at :: "char \<Rightarrow> string \<Rightarrow> string list" where
  "split_at d [] = [[]]"
| "split_at d (c # cs) =
     (if c = d then [] # split_at d cs
      else case split_at d cs of [] \<Rightarrow> [[c]] | w # ws \<Rightarrow> (c # w) # ws)"

text \<open>Exactly eight columns, or the line is refused.\<close>

definition line_split :: "string \<Rightarrow> string list option" where
  "line_split line = (let f = split_at chr_tab line in if length f = 8 then Some f else None)"

definition snap_num :: "string list \<Rightarrow> 32 word list option" where
  "snap_num f = those (map field_u32 (drop 2 f))"

definition snap_fill :: "fo_env \<Rightarrow> string list \<Rightarrow> 32 word list \<Rightarrow> router_ep_snap" where
  "snap_fill env f v =
     \<lparr>sn_provider_name = strncpy_term env 64 (f ! 0), sn_model_name = strncpy_term env 64 (f ! 1),
      sn_consec_fail = (if LLM_EP_FAIL_MAX < v ! 0 then LLM_EP_FAIL_MAX else v ! 0),
      sn_last_fail_age_ms =
        (if LLM_EP_FAIL_WINDOW_MS < v ! 1 then LLM_EP_FAIL_WINDOW_MS else v ! 1),
      sn_open_remain_ms =
        (if ucast LLM_EP_OPEN_MAX_MS < v ! 3 then ucast LLM_EP_OPEN_MAX_MS else v ! 3),
      sn_probe_fail = (if LLM_EP_PROBE_MAX < v ! 4 then LLM_EP_PROBE_MAX else v ! 4),
      sn_open_level = (if of_nat LLM_EP_MAX_LEVEL < v ! 5 then of_nat LLM_EP_MAX_LEVEL
                       else ucast (v ! 5)),
      sn_state = ucast (v ! 2)\<rparr>"

definition state_parse :: "fo_env \<Rightarrow> router_ep_snap list \<Rightarrow> string \<Rightarrow> router_ep_snap list" where
  "state_parse env restore line =
     (case line_split line of
        None \<Rightarrow> restore
      | Some f \<Rightarrow>
          if f ! 0 = [] \<or> f ! 1 = [] then restore
          else case snap_num f of
                 None \<Rightarrow> restore
               | Some v \<Rightarrow>
                   if 2 < v ! 2 then restore
                   else if LLM_ROUTER_MAX_ENDPOINTS \<le> length restore then restore
                   else restore @ [snap_fill env f v])"

text \<open>The line loop stops at an empty line and when the snapshot table is full.\<close>

fun load_lines :: "fo_env \<Rightarrow> router_ep_snap list \<Rightarrow> string list \<Rightarrow> router_ep_snap list" where
  "load_lines env restore [] = restore"
| "load_lines env restore (l # ls) =
     (if l = [] \<or> LLM_ROUTER_MAX_ENDPOINTS \<le> length restore then restore
      else load_lines env (state_parse env restore l) ls)"

text \<open>\<open>None\<close> stands for a path that cannot be formed or a file that cannot be read.\<close>

definition router_state_load :: "fo_env \<Rightarrow> string option \<Rightarrow> router_ctx \<Rightarrow> router_ctx" where
  "router_state_load env content c =
     (case content of
        None \<Rightarrow> c\<lparr>r_restore := []\<rparr>
      | Some text \<Rightarrow> c\<lparr>r_restore := load_lines env [] (split_at chr_nl text)\<rparr>)"

definition rtr_state_capture :: "fo_env \<Rightarrow> 32 word \<Rightarrow> router_ctx \<Rightarrow> router_ctx" where
  "rtr_state_capture env now c =
     c\<lparr>r_restore := map (\<lambda>ep. snap_from_ep env ep now) (take LLM_ROUTER_MAX_ENDPOINTS (r_endpoints c))\<rparr>"

definition restore_from :: "32 word \<Rightarrow> router_ep_snap \<Rightarrow> llm_endpoint \<Rightarrow> llm_endpoint" where
  "restore_from now s ep =
     ep\<lparr>ep_consec_fail := sn_consec_fail s, ep_probe_fail := sn_probe_fail s,
        ep_open_level := sn_open_level s,
        ep_last_fail_ms := (if sn_last_fail_age_ms s \<noteq> 0 then now - sn_last_fail_age_ms s else 0),
        ep_probe_until_ms := 0,
        ep_open_until_ms :=
          (if sn_state s = st_num LLM_EP_OPEN
           then now + (if sn_open_remain_ms s \<noteq> 0 then sn_open_remain_ms s else 1)
           else if sn_state s = st_num LLM_EP_HALF then (if now \<noteq> 0 then now else 1)
           else 0)\<rparr>"

text \<open>Restoring consumes the snapshot: the last entry moves into its place.\<close>

definition rtr_ep_restore ::
  "32 word \<Rightarrow> router_ep_snap list \<Rightarrow> llm_endpoint \<Rightarrow> router_ep_snap list \<times> llm_endpoint" where
  "rtr_ep_restore now restore ep =
     (case find_index (\<lambda>s. sn_provider_name s = ep_provider_name ep \<and>
                           sn_model_name s = ep_model_name ep) restore of
        None \<Rightarrow> (restore, ep)
      | Some i \<Rightarrow> (butlast (restore[i := last restore]), restore_from now (restore ! i) ep))"

definition show_word :: "'a::len word \<Rightarrow> string" where
  "show_word w = show_nat (unat w)"

definition snap_line :: "router_ep_snap \<Rightarrow> string" where
  "snap_line s =
     sn_provider_name s @ [chr_tab] @ sn_model_name s @ [chr_tab] @
     show_word (sn_consec_fail s) @ [chr_tab] @ show_word (sn_last_fail_age_ms s) @ [chr_tab] @
     show_word (sn_state s) @ [chr_tab] @ show_word (sn_open_remain_ms s) @ [chr_tab] @
     show_word (sn_probe_fail s) @ [chr_tab] @ show_word (sn_open_level s) @ [chr_nl]"

fun save_lines :: "nat \<Rightarrow> string \<Rightarrow> router_ep_snap list \<Rightarrow> string" where
  "save_lines cap buf [] = buf"
| "save_lines cap buf (s # ss) =
     (if cap - length buf \<le> length (snap_line s) then buf
      else save_lines cap (buf @ snap_line s) ss)"

text \<open>The text written to the state file; \<open>None\<close> when nothing is written.\<close>

definition rtr_state_save :: "fo_env \<Rightarrow> 32 word \<Rightarrow> router_ctx \<Rightarrow> string option" where
  "rtr_state_save env now c =
     (if \<not> r_initialized c \<or> r_endpoints c = [] then None
      else Some (save_lines (length (r_endpoints c) * (RTR_STATE_LINE_MAX + 1) + 1) []
                   (map (\<lambda>ep. snap_from_ep env ep now) (r_endpoints c))))"

definition llm_router_register_endpoint ::
  "32 word \<Rightarrow> router_ctx \<Rightarrow> llm_endpoint \<Rightarrow> router_ctx option" where
  "llm_router_register_endpoint now c ep =
     (if LLM_ROUTER_MAX_ENDPOINTS \<le> length (r_endpoints c) then None
      else case rtr_ep_restore now (r_restore c) (llm_ep_ok ep) of (restore, slot) \<Rightarrow>
             Some (c\<lparr>r_endpoints := r_endpoints c @ [slot], r_restore := restore\<rparr>))"

definition llm_rtr_reset_eps :: "fo_env \<Rightarrow> 32 word \<Rightarrow> router_ctx \<Rightarrow> router_ctx \<times> bool" where
  "llm_rtr_reset_eps env now c =
     (if \<not> r_initialized c then (c, False)
      else ((rtr_state_capture env now c)\<lparr>r_endpoints := [], r_round_robin_index := 0\<rparr>, True))"

section \<open>Columns and lines\<close>

lemma c_isdigit_val: "c_isdigit c \<Longrightarrow> 0 \<le> c_digit_val c \<and> c_digit_val c \<le> 9"
  by (auto simp: c_isdigit_def c_digit_val_def)

lemma c_digits_mono: "c_digits v xs = (w, r) \<Longrightarrow> 0 \<le> v \<Longrightarrow> v \<le> w"
proof (induction v xs rule: c_digits.induct)
  case (1 v)
  then show ?case by simp
next
  case (2 v c cs)
  show ?case
  proof (cases "c_isdigit c")
    case True
    with 2 c_isdigit_val [OF True] have "10 * v + c_digit_val c \<le> w" by simp
    with 2(3) c_isdigit_val [OF True] show ?thesis by simp
  next
    case False
    with 2 show ?thesis by simp
  qed
qed

text \<open>The overflow test of the digit loop is exact: it rejects only values of more than 32 bits.\<close>

lemma field_overflow_iff:
  assumes "0 \<le> d" and "d \<le> 9"
  shows "(- 1 - word_of_int d) div 10 < (v :: 32 word) \<longleftrightarrow> 2 ^ 32 \<le> 10 * uint v + d"
proof -
  have m: "uint (- 1 - word_of_int d :: 32 word) = 2 ^ 32 - 1 - d"
  proof -
    have "(- 1 - word_of_int d :: 32 word) = word_of_int (2 ^ 32 - 1 - d)"
      by simp
    then have "uint (- 1 - word_of_int d :: 32 word) = take_bit 32 (2 ^ 32 - 1 - d)"
      by (simp only: uint_word_of_int_eq len_num0 len_bit0 len_num1) simp
    also have "\<dots> = 2 ^ 32 - 1 - d" using assms by (intro take_bit_int_eq_self) simp_all
    finally show ?thesis .
  qed
  have "(- 1 - word_of_int d) div 10 < v \<longleftrightarrow> (2 ^ 32 - 1 - d) div 10 < uint v"
    by (simp add: word_less_def uint_div m)
  also have "\<dots> \<longleftrightarrow> 2 ^ 32 \<le> 10 * uint v + d" by presburger
  finally show ?thesis .
qed

lemma field_loop_digits:
  "c_digits (uint v) xs = (w, []) \<Longrightarrow> w < 2 ^ 32 \<Longrightarrow> field_loop v xs = Some (word_of_int w)"
proof (induction xs arbitrary: v)
  case Nil
  then show ?case by auto
next
  case (Cons c cs)
  let ?d = "c_digit_val c"
  have dig: "c_isdigit c" and rest: "c_digits (10 * uint v + ?d) cs = (w, [])"
    using Cons.prems(1) by (auto split: if_splits)
  note b = c_isdigit_val [OF dig]
  have le: "10 * uint v + ?d \<le> w" using c_digits_mono [OF rest] b by simp
  then have no: "\<not> (- 1 - word_of_int ?d) div 10 < v"
    using Cons.prems(2) field_overflow_iff [of ?d v] b by simp
  have v': "v * 10 + word_of_int ?d = (word_of_int (10 * uint v + ?d) :: 32 word)" by simp
  have "uint (v * 10 + word_of_int ?d) = take_bit 32 (10 * uint v + ?d)"
    unfolding v' by (simp only: uint_word_of_int_eq len_num0 len_bit0 len_num1) simp
  also have "\<dots> = 10 * uint v + ?d"
    using le b Cons.prems(2) by (intro take_bit_int_eq_self) simp_all
  finally have "c_digits (uint (v * 10 + word_of_int ?d)) cs = (w, [])" using rest by simp
  from Cons.IH [OF this Cons.prems(2)] dig no show ?case by (simp add: Let_def)
qed

lemma field_u32_show:
  assumes "n < 2 ^ 32"
  shows "field_u32 (show_nat n) = Some (of_nat n)"
proof -
  have "show_nat n \<noteq> []" using show_nat_Cons [of n] by auto
  then show ?thesis
    using field_loop_digits [of 0 "show_nat n" "int n"] assms
    by (simp add: field_u32_def c_digits_show_nat)
qed

lemma field_u32_show_word:
  fixes w :: "'a::len word"
  assumes "LENGTH('a) \<le> 32"
  shows "field_u32 (show_word w) = Some (ucast w)"
proof -
  have "unat w < 2 ^ LENGTH('a)" by (rule unsigned_less)
  also have "\<dots> \<le> (2 :: nat) ^ 32" using assms by (intro power_increasing) simp_all
  finally show ?thesis by (simp add: show_word_def field_u32_show)
qed

lemma split_at_free: "d \<notin> set w \<Longrightarrow> split_at d w = [w]"
  by (induction w) auto

lemma split_at_sep: "d \<notin> set w \<Longrightarrow> split_at d (w @ d # r) = w # split_at d r"
  by (induction w) (auto split: list.split)

lemma show_word_free: "\<not> c_isdigit d \<Longrightarrow> d \<notin> set (show_word w)"
  using show_nat_digits by (auto simp: show_word_def)

lemma sep_not_digit: "\<not> c_isdigit chr_tab" "\<not> c_isdigit chr_nl"
  by (simp_all add: c_isdigit_def chr_tab_def chr_nl_def)

section \<open>The state file round trip\<close>

text \<open>A name that fits its column: what \<open>AIRY_STRNCPY_TERM\<close> keeps and the line format can hold.\<close>

definition name_ok :: "string \<Rightarrow> bool" where
  "name_ok s \<longleftrightarrow> s \<noteq> [] \<and> length s \<le> 63 \<and> chr_tab \<notin> set s \<and> chr_nl \<notin> set s"

definition snap_ok :: "router_ep_snap \<Rightarrow> bool" where
  "snap_ok s \<longleftrightarrow> name_ok (sn_provider_name s) \<and> name_ok (sn_model_name s) \<and> sn_state s \<le> 2"

text \<open>What reading a line back keeps of a snapshot: the numbers cut to their limits.\<close>

definition snap_clip :: "router_ep_snap \<Rightarrow> router_ep_snap" where
  "snap_clip s = s\<lparr>
     sn_consec_fail := min (sn_consec_fail s) 3, sn_last_fail_age_ms := min (sn_last_fail_age_ms s) 60000,
     sn_open_remain_ms := min (sn_open_remain_ms s) 300000, sn_probe_fail := min (sn_probe_fail s) 3,
     sn_open_level := min (sn_open_level s) 4\<rparr>"

definition snap_text :: "router_ep_snap \<Rightarrow> string" where
  "snap_text s = butlast (snap_line s)"

lemma snap_line_text: "snap_line s = snap_text s @ [chr_nl]"
  by (simp add: snap_text_def snap_line_def butlast_append)

lemma snap_text_split:
  assumes "snap_ok s"
  shows "line_split (snap_text s) =
    Some [sn_provider_name s, sn_model_name s, show_word (sn_consec_fail s),
      show_word (sn_last_fail_age_ms s), show_word (sn_state s), show_word (sn_open_remain_ms s),
      show_word (sn_probe_fail s), show_word (sn_open_level s)]"
  using assms sep_not_digit
  by (simp add: line_split_def snap_text_def snap_line_def butlast_append snap_ok_def name_ok_def
      split_at_sep split_at_free show_word_free)

lemma unat_ucast_8_32: "unat (ucast (w :: 8 word) :: 32 word) = unat w"
  by transfer (simp add: take_bit_take_bit)

lemma ucast_8_32: "ucast (ucast (w :: 8 word) :: 32 word) = w"
  by transfer (simp add: take_bit_take_bit)

lemma ucast_8_32_less: "n < 256 \<Longrightarrow> (of_nat n :: 32 word) < ucast (w :: 8 word) \<longleftrightarrow> of_nat n < w"
  by (simp add: word_less_nat_alt unat_ucast_8_32 unat_of_nat)

lemma if_less_min: "(if (k :: 'a::linorder) < v then k else v) = min v k"
  by (auto simp: min_def)

text \<open>The copy keeps names that fit.\<close>

definition copies_names :: "fo_env \<Rightarrow> bool" where
  "copies_names env \<longleftrightarrow> (\<forall>s. length s \<le> 63 \<longrightarrow> strncpy_term env 64 s = s)"

lemma snap_fill_columns:
  assumes "copies_names env" and "snap_ok s"
  shows "snap_fill env (sn_provider_name s # sn_model_name s # fs)
      [sn_consec_fail s, sn_last_fail_age_ms s, ucast (sn_state s), sn_open_remain_ms s, sn_probe_fail s,
       ucast (sn_open_level s)] = snap_clip s"
proof -
  have n: "strncpy_term env 64 (sn_provider_name s) = sn_provider_name s"
    "strncpy_term env 64 (sn_model_name s) = sn_model_name s"
    using assms by (simp_all add: copies_names_def snap_ok_def name_ok_def)
  have lv: "(4 :: 32 word) < ucast (sn_open_level s) \<longleftrightarrow> 4 < sn_open_level s"
    using ucast_8_32_less [of 4 "sn_open_level s"] by simp
  have "snap_fill env (sn_provider_name s # sn_model_name s # fs)
      [sn_consec_fail s, sn_last_fail_age_ms s, ucast (sn_state s), sn_open_remain_ms s, sn_probe_fail s,
       ucast (sn_open_level s)] = \<lparr>sn_provider_name = sn_provider_name s, sn_model_name = sn_model_name s,
      sn_consec_fail = min (sn_consec_fail s) 3, sn_last_fail_age_ms = min (sn_last_fail_age_ms s) 60000,
      sn_open_remain_ms = min (sn_open_remain_ms s) 300000, sn_probe_fail = min (sn_probe_fail s) 3,
      sn_open_level = min (sn_open_level s) 4, sn_state = sn_state s\<rparr>"
    using n by (simp add: snap_fill_def if_less_min [symmetric] lv ucast_8_32 ep_consts)
  then show ?thesis by (simp add: snap_clip_def)
qed

lemma state_parse_text:
  assumes "copies_names env" and "snap_ok s" and "length restore < 64"
  shows "state_parse env restore (snap_text s) = restore @ [snap_clip s]"
proof -
  have "\<not> 2 < (ucast (sn_state s) :: 32 word)"
    using assms(2) ucast_8_32_less [of 2 "sn_state s"] by (simp add: snap_ok_def not_less)
  then show ?thesis
    using assms(2,3) snap_fill_columns [OF assms(1,2)]
    by (simp add: state_parse_def snap_text_split snap_num_def field_u32_show_word
        LLM_ROUTER_MAX_ENDPOINTS_def) (simp add: snap_ok_def name_ok_def)
qed

lemma load_lines_texts:
  assumes "copies_names env" and "list_all snap_ok ss"
  shows "length restore + length ss \<le> 64 \<Longrightarrow>
    load_lines env restore (map snap_text ss @ [[]]) = restore @ map snap_clip ss"
  using assms(2)
proof (induction ss arbitrary: restore)
  case Nil
  then show ?case by simp
next
  case (Cons s ss)
  have "snap_text s \<noteq> []" by (simp add: snap_text_def snap_line_def butlast_append)
  with Cons state_parse_text [OF assms(1), of s restore] show ?case
    by (simp add: LLM_ROUTER_MAX_ENDPOINTS_def)
qed

lemma nl_not_in_text: "snap_ok s \<Longrightarrow> chr_nl \<notin> set (snap_text s)"
  using sep_not_digit
  by (auto simp: snap_text_def snap_line_def butlast_append snap_ok_def name_ok_def
      dest: show_word_free [of chr_nl, THEN notE]) (simp_all add: chr_nl_def chr_tab_def)

lemma split_lines: "list_all snap_ok ss \<Longrightarrow>
    split_at chr_nl (concat (map snap_line ss)) = map snap_text ss @ [[]]"
  by (induction ss) (simp_all add: snap_line_text split_at_sep nl_not_in_text)

lemma length_show_word:
  fixes w :: "'a::len word"
  assumes "LENGTH('a) \<le> 32"
  shows "length (show_word w) \<le> 10"
proof -
  have "unat w < 2 ^ LENGTH('a)" by (rule unsigned_less)
  also have "\<dots> \<le> (2 :: nat) ^ 32" using assms by (intro power_increasing) simp_all
  finally show ?thesis unfolding show_word_def by (intro length_show_nat) simp_all
qed

text \<open>A line never reaches the space reserved for it, so the save loop never stops early.\<close>

lemma length_snap_line: "snap_ok s \<Longrightarrow> length (snap_line s) \<le> 194"
  using length_show_word [of "sn_consec_fail s"] length_show_word [of "sn_last_fail_age_ms s"]
    length_show_word [of "sn_state s"] length_show_word [of "sn_open_remain_ms s"]
    length_show_word [of "sn_probe_fail s"] length_show_word [of "sn_open_level s"]
  by (simp add: snap_line_def snap_ok_def name_ok_def)

lemma save_lines_all:
  "list_all snap_ok ss \<Longrightarrow> length buf + length ss * 321 < cap \<Longrightarrow>
    save_lines cap buf ss = buf @ concat (map snap_line ss)"
proof (induction ss arbitrary: buf)
  case (Cons s ss)
  then have "length (snap_line s) \<le> 194" by (intro length_snap_line) simp
  with Cons.prems(2) have "\<not> cap - length buf \<le> length (snap_line s)"
    "length (buf @ snap_line s) + length ss * 321 < cap" by auto
  with Cons show ?case by simp
qed simp

lemma st_num_le: "st_num st \<le> 2"
  by (cases st) simp_all

lemma snap_from_ep_ok:
  assumes "copies_names env" and "name_ok (ep_provider_name ep)" and "name_ok (ep_model_name ep)"
  shows "snap_ok (snap_from_ep env ep now)"
  using assms by (simp add: snap_ok_def snap_from_ep_def Let_def st_num_le copies_names_def name_ok_def)

lemma state_load_save:
  assumes "copies_names env" and "r_initialized c" and "r_endpoints c \<noteq> []"
    and "length (r_endpoints c) \<le> 64"
    and "list_all (\<lambda>ep. name_ok (ep_provider_name ep) \<and> name_ok (ep_model_name ep)) (r_endpoints c)"
  shows "r_restore (router_state_load env (rtr_state_save env now c) c') =
    map (\<lambda>ep. snap_clip (snap_from_ep env ep now)) (r_endpoints c)"
proof -
  let ?ss = "map (\<lambda>ep. snap_from_ep env ep now) (r_endpoints c)"
  have ok: "list_all snap_ok ?ss"
    using assms(5) snap_from_ep_ok [OF assms(1)] by (simp add: list_all_iff)
  have "rtr_state_save env now c = Some (concat (map snap_line ?ss))"
    using assms(2,3) save_lines_all [OF ok, of "[]" "length (r_endpoints c) * 321 + 1"]
    by (simp add: rtr_state_save_def RTR_STATE_LINE_MAX_def)
  then show ?thesis
    using split_lines [OF ok] load_lines_texts [OF assms(1) ok, of "[]"] assms(4)
    by (simp add: router_state_load_def comp_def)
qed

text \<open>
  The state file loses nothing but what it clips. When the endpoint names fit their columns,
  reading back the text that \<open>rtr_state_save\<close> writes gives the snapshot of every endpoint, in order,
  with each number cut to its limit; no line is dropped by the buffer limit or refused by the parser.
\<close>

theorem state_file_roundtrip:
  assumes "copies_names env" and "r_initialized c" and "r_endpoints c \<noteq> []"
    and "length (r_endpoints c) \<le> 64"
    and "list_all (\<lambda>ep. name_ok (ep_provider_name ep) \<and> name_ok (ep_model_name ep)) (r_endpoints c)"
  shows "r_restore (router_state_load env (rtr_state_save env now c) c') =
    map (\<lambda>ep. snap_clip (snap_from_ep env ep now)) (r_endpoints c)"
  using assms by (rule state_load_save)

definition example_router :: router_ctx where
  "example_router =
     \<lparr>r_endpoints = [example_ep, ep_open 100 (example_ep\<lparr>ep_model_name := ''m2''\<rparr>)], r_initialized = True,
      r_round_robin_index = 0, r_restore = []\<rparr>"

lemma example_copies: "copies_names example_fo"
  by (simp add: copies_names_def example_fo_def)

lemma example_names: "list_all (\<lambda>ep. name_ok (ep_provider_name ep) \<and> name_ok (ep_model_name ep))
    (r_endpoints example_router)"
  by (simp add: example_router_def name_ok_def example_ep_def ep_open_def chr_tab_def chr_nl_def)

theorem state_file_roundtrip_witness:
  "map sn_model_name (r_restore (router_state_load example_fo (rtr_state_save example_fo 1000 example_router)
      example_router)) = [''m1'', ''m2'']"
proof -
  have "r_restore (router_state_load example_fo (rtr_state_save example_fo 1000 example_router)
      example_router) = map (\<lambda>ep. snap_clip (snap_from_ep example_fo ep 1000)) (r_endpoints example_router)"
    by (rule state_file_roundtrip [OF example_copies _ _ _ example_names])
      (simp_all add: example_router_def)
  then show ?thesis
    by (simp add: example_router_def snap_clip_def snap_from_ep_def Let_def example_fo_def example_ep_def
        ep_open_def)
qed

section \<open>A restart keeps the breaker\<close>

abbreviation sn_key :: "router_ep_snap \<Rightarrow> string \<times> string" where
  "sn_key s \<equiv> (sn_provider_name s, sn_model_name s)"

abbreviation ep_key :: "llm_endpoint \<Rightarrow> string \<times> string" where
  "ep_key ep \<equiv> (ep_provider_name ep, ep_model_name ep)"

interpretation snt: keyed_table "map sn_key" "\<lambda>_. True" "\<lambda>t k. find_index (\<lambda>s. sn_key s = k) t"
  by unfold_locales (auto simp: find_index_map_law)

lemma rtr_ep_restore_at:
  assumes "distinct (map sn_key restore)" and "i < length restore" and "sn_key (restore ! i) = ep_key ep"
  shows "rtr_ep_restore now restore ep =
    (butlast (restore[i := last restore]), restore_from now (restore ! i) ep)"
proof -
  have "find_index (\<lambda>s. sn_key s = ep_key ep) restore = Some i"
    using snt.find_nth_distinct [of restore i] assms by simp
  then show ?thesis by (simp add: rtr_ep_restore_def)
qed

lemma st_num_inj: "st_num a = st_num b \<longleftrightarrow> a = b"
  by (cases a; cases b) simp_all

text \<open>The breaker that a restored endpoint has.\<close>

lemma restore_state:
  assumes "now' \<noteq> 0" and "dt < 2 ^ 31"
    and "llm_ep_state ep now = LLM_EP_OPEN \<Longrightarrow> now' + min (ep_open_until_ms ep - now) 300000 \<noteq> 0"
  shows "llm_ep_state (restore_from now' (snap_clip (snap_from_ep env ep now)) ep0) (now' + of_nat dt) =
    (case llm_ep_state ep now of
       LLM_EP_CLOSED \<Rightarrow> LLM_EP_CLOSED
     | LLM_EP_HALF \<Rightarrow> LLM_EP_HALF
     | LLM_EP_OPEN \<Rightarrow> if dt < min (unat (ep_open_until_ms ep - now)) 300000 then LLM_EP_OPEN else LLM_EP_HALF)"
proof (cases "llm_ep_state ep now")
  case LLM_EP_CLOSED
  then show ?thesis
    by (simp add: llm_ep_state_def restore_from_def snap_clip_def snap_from_ep_def Let_def)
next
  case LLM_EP_HALF
  have "\<not> after32 (now' + of_nat 0) (now' + of_nat dt)" using assms(2) by (subst after32_offset) auto
  with LLM_EP_HALF assms(1) show ?thesis
    by (simp add: llm_ep_state_def restore_from_def snap_clip_def snap_from_ep_def Let_def)
next
  case LLM_EP_OPEN
  let ?r = "ep_open_until_ms ep - now" and ?h = "min (unat (ep_open_until_ms ep - now)) 300000"
  have pos: "?r \<noteq> 0" using LLM_EP_OPEN by (auto simp: llm_ep_state_def after32_def split: if_splits)
  have h: "min ?r 300000 = of_nat ?h" by (simp add: min_def word_le_nat_alt)
  have "unat ?r \<noteq> 0" using pos by (simp add: unat_eq_0)
  then have nz: "min ?r 300000 \<noteq> 0" using pos by (simp add: min_def)
  have "after32 (now' + of_nat ?h) (now' + of_nat dt) \<longleftrightarrow> dt < ?h"
    using assms(2) by (intro after32_offset) auto
  then have "after32 (now' + min ?r 300000) (now' + of_nat dt) \<longleftrightarrow> dt < ?h" using h by simp
  moreover have "ep_open_until_ms (restore_from now' (snap_clip (snap_from_ep env ep now)) ep0) =
      now' + min ?r 300000"
    using LLM_EP_OPEN nz by (simp add: restore_from_def snap_clip_def snap_from_ep_def Let_def)
  ultimately show ?thesis
    using LLM_EP_OPEN assms(3)
    by (simp add: llm_ep_state_def [of "restore_from now' (snap_clip (snap_from_ep env ep now)) ep0"])
qed

text \<open>
  C17. A restart keeps the breaker. The router saves its state at \<open>now\<close>, a new process loads the file and
  registers the \<open>i\<close>-th endpoint again at \<open>now'\<close>. From then on (for \<open>2 ^ 31\<close> ms) the new endpoint is closed if it
  was closed, half-open if it was half-open, and if it was open it stays open exactly for what was left
  of the hold period, capped at 300 s. The clock values 0 and \<open>- remaining\<close> are excluded.
\<close>

theorem restart_keeps_breaker:
  assumes "copies_names env" and "r_initialized c" and "length (r_endpoints c) \<le> 64"
    and "list_all (\<lambda>ep. name_ok (ep_provider_name ep) \<and> name_ok (ep_model_name ep)) (r_endpoints c)"
    and "distinct (map ep_key (r_endpoints c))" and "i < length (r_endpoints c)"
    and "ep = r_endpoints c ! i" and "ep_key ep0 = ep_key ep" and "length (r_endpoints c') < 64"
    and "now' \<noteq> 0" and "dt < 2 ^ 31"
    and "llm_ep_state ep now = LLM_EP_OPEN \<Longrightarrow> now' + min (ep_open_until_ms ep - now) 300000 \<noteq> 0"
  shows "map_option (\<lambda>c2. llm_ep_state (last (r_endpoints c2)) (now' + of_nat dt))
      (llm_router_register_endpoint now' (router_state_load env (rtr_state_save env now c) c') ep0) =
    Some (case llm_ep_state ep now of
       LLM_EP_CLOSED \<Rightarrow> LLM_EP_CLOSED
     | LLM_EP_HALF \<Rightarrow> LLM_EP_HALF
     | LLM_EP_OPEN \<Rightarrow> if dt < min (unat (ep_open_until_ms ep - now)) 300000 then LLM_EP_OPEN else LLM_EP_HALF)"
proof -
  let ?sn = "\<lambda>ep. snap_clip (snap_from_ep env ep now)"
  let ?c1 = "router_state_load env (rtr_state_save env now c) c'"
  have restore: "r_restore ?c1 = map ?sn (r_endpoints c)"
    using assms(6) by (intro state_load_save [OF assms(1,2) _ assms(3,4)]) auto
  have keys: "map sn_key (r_restore ?c1) = map ep_key (r_endpoints c)"
    unfolding restore using assms(1,4) by (auto simp: snap_clip_def snap_from_ep_def Let_def list_all_iff
        copies_names_def name_ok_def)
  have "rtr_ep_restore now' (r_restore ?c1) (llm_ep_ok ep0) =
      (butlast ((r_restore ?c1)[i := last (r_restore ?c1)]), restore_from now' (r_restore ?c1 ! i) (llm_ep_ok ep0))"
  proof (rule rtr_ep_restore_at)
    show "distinct (map sn_key (r_restore ?c1))" unfolding keys by (rule assms(5))
    show "i < length (r_restore ?c1)" unfolding restore using assms(6) by simp
    have "sn_key (r_restore ?c1 ! i) = map sn_key (r_restore ?c1) ! i"
      unfolding restore using assms(6) by simp
    also have "\<dots> = ep_key ep" unfolding keys using assms(6,7) by simp
    finally show "sn_key (r_restore ?c1 ! i) = ep_key (llm_ep_ok ep0)"
      using assms(8) by (simp add: llm_ep_ok_def)
  qed
  moreover have "r_restore ?c1 ! i = ?sn ep" unfolding restore using assms(6,7) by simp
  moreover have "length (r_endpoints ?c1) < 64"
    using assms(9) by (simp add: router_state_load_def split: option.split)
  ultimately show ?thesis
    using restore_state [OF assms(10,11,12), of env "llm_ep_ok ep0"]
    by (simp add: llm_router_register_endpoint_def LLM_ROUTER_MAX_ENDPOINTS_def)
qed

theorem restart_keeps_breaker_witness:
  "map_option (\<lambda>c2. llm_ep_state (last (r_endpoints c2)) (5 + of_nat 29099))
     (llm_router_register_endpoint 5 (router_state_load example_fo (rtr_state_save example_fo 1000 example_router)
        (example_router\<lparr>r_endpoints := []\<rparr>)) (example_ep\<lparr>ep_model_name := ''m2''\<rparr>)) = Some LLM_EP_OPEN \<and>
   map_option (\<lambda>c2. llm_ep_state (last (r_endpoints c2)) (5 + of_nat 29100))
     (llm_router_register_endpoint 5 (router_state_load example_fo (rtr_state_save example_fo 1000 example_router)
        (example_router\<lparr>r_endpoints := []\<rparr>)) (example_ep\<lparr>ep_model_name := ''m2''\<rparr>)) = Some LLM_EP_HALF"
proof -
  let ?ep = "ep_open 100 (example_ep\<lparr>ep_model_name := ''m2''\<rparr>)"
  have u: "ep_open_until_ms ?ep = 30100"
    by (simp add: ep_open_def example_ep_def nz32_def open_hold_val)
  have st: "llm_ep_state ?ep 1000 = LLM_EP_OPEN"
    by (simp add: llm_ep_state_def u after32_def)
  have "map_option (\<lambda>c2. llm_ep_state (last (r_endpoints c2)) (5 + of_nat dt))
     (llm_router_register_endpoint 5 (router_state_load example_fo (rtr_state_save example_fo 1000 example_router)
        (example_router\<lparr>r_endpoints := []\<rparr>)) (example_ep\<lparr>ep_model_name := ''m2''\<rparr>)) =
     Some (case llm_ep_state ?ep 1000 of
       LLM_EP_CLOSED \<Rightarrow> LLM_EP_CLOSED
     | LLM_EP_HALF \<Rightarrow> LLM_EP_HALF
     | LLM_EP_OPEN \<Rightarrow> if dt < min (unat (ep_open_until_ms ?ep - 1000)) 300000 then LLM_EP_OPEN else LLM_EP_HALF)"
    if "dt < 2 ^ 31" for dt
  proof (rule restart_keeps_breaker [OF example_copies _ _ example_names _ _ _ _ _ _ that, of 1])
    show "distinct (map ep_key (r_endpoints example_router))"
      by (simp add: example_router_def ep_open_def example_ep_def)
  qed (simp_all add: example_router_def u, simp_all add: ep_open_def example_ep_def)
  from this [of 29099] this [of 29100] show ?thesis by (simp add: st u)
qed

text \<open>
  The excluded clock value matters: unlike \<open>ep_open\<close>, the restore does not move the deadline 0 to 1,
  so an open endpoint whose remaining time ends exactly at the wrap of the clock comes back closed.
\<close>

lemma restore_open_lost:
  assumes "sn_state s = st_num LLM_EP_OPEN" and "sn_open_remain_ms s \<noteq> 0"
    and "now' = - sn_open_remain_ms s"
  shows "llm_ep_state (restore_from now' s ep) t = LLM_EP_CLOSED"
  using assms by (simp add: restore_from_def llm_ep_state_def)

end
