(* ===== verification/Llm_Router.thy ===== *)
theory Llm_Router
  imports Llm_State "HOL-Library.Multiset"
begin

text \<open>
  llm_d, endpoint selection: the shared helpers of \<open>router_context.h\<close>, the four rules of
  \<open>router_strategy.c\<close> and the orchestration of \<open>llm_router.c\<close> (route, pick, measurement).

  An endpoint is named by its index in the endpoint table, which is what the code's pointers into
  the table are. Costs are exact rationals; the infinite cost that starts the search for the
  cheapest endpoint is \<open>None\<close>. What the files call and do not define is a parameter: the token
  counter of the runtime and, because it leaves the order of equal elements open, \<open>qsort\<close>.
\<close>

section \<open>Data model\<close>

datatype llm_route_strategy =
    LLM_ROUTE_COMPLEXITY | LLM_ROUTE_COST | LLM_ROUTE_LATENCY | LLM_ROUTE_FALLBACK
  | LLM_ROUTE_ROUND_ROBIN

definition LLM_ROUTE_EST_OUTPUT_TOKENS :: nat where "LLM_ROUTE_EST_OUTPUT_TOKENS = 1024"

text \<open>A strategy value of \<open>LLM_ROUTE_COUNT\<close> or more is \<open>None\<close>; a NULL prompt is \<open>None\<close>.\<close>

record llm_route_request =
  rr_prompt :: "string option"
  rr_prompt_len :: nat
  rr_required_caps :: "32 word"
  rr_max_tokens :: "32 word"
  rr_max_cost :: rat
  rr_max_latency_ms :: "32 word"
  rr_strategy :: "llm_route_strategy option"
  rr_preferred_provider :: string

record llm_route_result =
  res_provider_name :: string
  res_model_name :: string
  res_endpoint :: string
  res_estimated_cost :: rat
  res_estimated_latency_ms :: "32 word"
  res_strategy_used :: llm_route_strategy
  res_confidence :: int
  res_fallback_provider :: string
  res_fallback_model :: string

text \<open>A zeroed result: \<open>LLM_ROUTE_COMPLEXITY\<close> is the enumerator 0.\<close>

definition zero_result :: llm_route_result where
  "zero_result = \<lparr>res_provider_name = [], res_model_name = [], res_endpoint = [], res_estimated_cost = 0,
     res_estimated_latency_ms = 0, res_strategy_used = LLM_ROUTE_COMPLEXITY, res_confidence = 0,
     res_fallback_provider = [], res_fallback_model = []\<rparr>"

record llm_router_stats =
  st_total_requests :: "64 word"
  st_routed_count :: "llm_route_strategy \<Rightarrow> 64 word"
  st_fallback_count :: "64 word"
  st_error_count :: "64 word"
  st_total_cost :: rat
  st_total_tokens :: "64 word"
  st_lat_samples :: "64 word"
  st_lat_total_ms :: "64 word"
  st_prompt_tokens_sum :: "64 word"
  st_cached_tokens_sum :: "64 word"
  st_meas_samples :: "64 word"
  st_prefill_tokens :: "64 word"
  st_decode_tokens :: "64 word"
  st_kv_cache_tokens :: "64 word"
  st_prefill_ms :: rat
  st_decode_ms :: rat

record route_ctx = router_ctx +
  rc_default_strategy :: llm_route_strategy
  rc_stats :: llm_router_stats

record route_env = fo_env +
  token_count :: "string \<Rightarrow> nat option"
  qsort :: "(nat \<Rightarrow> nat \<Rightarrow> int) \<Rightarrow> nat list \<Rightarrow> nat list"

datatype route_err = ROUTE_NOT_FOUND | ROUTE_NOT_INIT | ROUTE_INVALID_PARAM

section \<open>Shared helpers\<close>

definition router_estimate_tokens :: "route_env \<Rightarrow> string option \<Rightarrow> nat \<Rightarrow> nat" where
  "router_estimate_tokens env prompt prompt_len =
     (case prompt of
        None \<Rightarrow> prompt_len div 4
      | Some p \<Rightarrow> (case token_count env p of None \<Rightarrow> prompt_len div 4 | Some n \<Rightarrow> n))"

definition router_estimate_cost :: "llm_endpoint \<Rightarrow> nat \<Rightarrow> nat \<Rightarrow> rat" where
  "router_estimate_cost ep input_tokens output_tokens =
     ep_cost_per_1k_input ep * of_nat input_tokens / 1000 + ep_cost_per_1k_output ep * of_nat output_tokens / 1000"

definition router_has_capabilities :: "llm_endpoint \<Rightarrow> 32 word \<Rightarrow> bool" where
  "router_has_capabilities ep required_caps \<longleftrightarrow> ep_capabilities ep AND required_caps = required_caps"

definition ep_eligible :: "32 word \<Rightarrow> llm_route_request \<Rightarrow> llm_endpoint \<Rightarrow> bool" where
  "ep_eligible now rq ep \<longleftrightarrow> ep_enabled ep \<and> llm_ep_state ep now \<noteq> LLM_EP_OPEN \<and>
     router_has_capabilities ep (rr_required_caps rq) \<and>
     (rr_preferred_provider rq = [] \<or> ep_provider_name ep = rr_preferred_provider rq)"

definition router_get_eligible :: "32 word \<Rightarrow> route_ctx \<Rightarrow> llm_route_request \<Rightarrow> nat list" where
  "router_get_eligible now c rq =
     take LLM_ROUTER_MAX_ENDPOINTS
       (filter (\<lambda>i. ep_eligible now rq (r_endpoints c ! i)) [0..<length (r_endpoints c)])"

definition router_fill_result ::
  "route_env \<Rightarrow> llm_route_result \<Rightarrow> llm_endpoint \<Rightarrow> llm_route_strategy \<Rightarrow> int \<Rightarrow> nat \<Rightarrow> nat \<Rightarrow> llm_route_result" where
  "router_fill_result env r ep strategy confidence in_tok out_tok =
     r\<lparr>res_provider_name := strncpy_term env 64 (ep_provider_name ep),
       res_model_name := strncpy_term env 64 (ep_model_name ep),
       res_endpoint := strncpy_term env 256 (ep_endpoint ep),
       res_estimated_cost := router_estimate_cost ep in_tok out_tok,
       res_estimated_latency_ms := ep_avg_latency_ms ep,
       res_strategy_used := strategy, res_confidence := confidence\<rparr>"

definition router_set_fallback :: "route_env \<Rightarrow> llm_route_result \<Rightarrow> llm_endpoint \<Rightarrow> llm_route_result" where
  "router_set_fallback env r ep =
     r\<lparr>res_fallback_provider := strncpy_term env 64 (ep_provider_name ep),
       res_fallback_model := strncpy_term env 64 (ep_model_name ep)\<rparr>"

section \<open>Selection rules\<close>

definition strategy_tokens :: "route_env \<Rightarrow> llm_route_request \<Rightarrow> nat \<times> nat" where
  "strategy_tokens env rq =
     (router_estimate_tokens env (rr_prompt rq) (rr_prompt_len rq),
      if 0 < rr_max_tokens rq then unat (rr_max_tokens rq) else LLM_ROUTE_EST_OUTPUT_TOKENS)"

text \<open>\<open>best\<close> and the fallback are table indices; the fallback is set only when it differs.\<close>

definition strategy_finish ::
  "route_env \<Rightarrow> route_ctx \<Rightarrow> llm_route_result \<Rightarrow> nat \<Rightarrow> nat option \<Rightarrow> llm_route_strategy \<Rightarrow> int \<Rightarrow> nat \<times> nat \<Rightarrow> llm_route_result" where
  "strategy_finish env c r best fallback type score toks =
     (let r = router_fill_result env r (r_endpoints c ! best) type score (fst toks) (snd toks)
      in case fallback of
           None \<Rightarrow> r
         | Some fb \<Rightarrow> if fb \<noteq> best then router_set_fallback env r (r_endpoints c ! fb) else r)"

text \<open>
  One candidate of the cost rule: \<open>i\<close> is its position among the eligible endpoints; the state
  holds \<open>best_idx\<close>, \<open>fb_idx\<close> and \<open>best_cost\<close>.
\<close>

definition cost_step ::
  "llm_route_request \<Rightarrow> (nat \<Rightarrow> llm_endpoint) \<Rightarrow> nat \<times> nat \<Rightarrow> nat \<times> nat \<times> rat option \<Rightarrow> nat \<Rightarrow> nat \<times> nat \<times> rat option" where
  "cost_step rq ep toks st i =
     (case st of (best, fb, best_cost) \<Rightarrow>
        let cost = router_estimate_cost (ep i) (fst toks) (snd toks)
        in if 0 < rr_max_cost rq \<and> rr_max_cost rq < cost then st
           else if 0 < rr_max_latency_ms rq \<and> rr_max_latency_ms rq < ep_avg_latency_ms (ep i) then st
           else if (case best_cost of None \<Rightarrow> True | Some b \<Rightarrow> cost < b) then (i, best, Some cost)
           else st)"

definition cost_scan ::
  "llm_route_request \<Rightarrow> (nat \<Rightarrow> llm_endpoint) \<Rightarrow> nat \<times> nat \<Rightarrow> nat \<Rightarrow> nat \<times> nat \<times> rat option" where
  "cost_scan rq ep toks n = foldl (cost_step rq ep toks) (0, 0, None) [0..<n]"

definition route_cost_aware ::
  "route_env \<Rightarrow> 32 word \<Rightarrow> route_ctx \<Rightarrow> llm_route_request \<Rightarrow> llm_route_result \<Rightarrow> llm_route_result option" where
  "route_cost_aware env now c rq r =
     (let es = router_get_eligible now c rq; toks = strategy_tokens env rq
      in if es = [] then None
         else case cost_scan rq (\<lambda>i. r_endpoints c ! (es ! i)) toks (length es) of
                (best, fb, None) \<Rightarrow> None
              | (best, fb, Some _) \<Rightarrow>
                  Some (strategy_finish env c r (es ! best)
                    (if fb \<noteq> best then Some (es ! fb) else None) LLM_ROUTE_COST 90 toks))"

definition route_round_robin ::
  "route_env \<Rightarrow> 32 word \<Rightarrow> route_ctx \<Rightarrow> llm_route_request \<Rightarrow> llm_route_result \<Rightarrow> route_ctx \<times> llm_route_result option" where
  "route_round_robin env now c rq r =
     (let es = router_get_eligible now c rq
      in if es = [] then (c, None)
         else let idx = unat (r_round_robin_index c) mod length es
              in (c\<lparr>r_round_robin_index := r_round_robin_index c + 1\<rparr>,
                  Some (strategy_finish env c r (es ! idx)
                    (if 1 < length es then Some (es ! ((idx + 1) mod length es)) else None)
                    LLM_ROUTE_ROUND_ROBIN 70 (strategy_tokens env rq))))"

definition lat_step ::
  "(nat \<Rightarrow> llm_endpoint) \<Rightarrow> nat \<times> nat \<times> 32 word \<times> 32 word \<Rightarrow> nat \<Rightarrow> nat \<times> nat \<times> 32 word \<times> 32 word" where
  "lat_step ep st i =
     (case st of (best_idx, fb_idx, best, second) \<Rightarrow>
        let latency = ep_avg_latency_ms (ep i)
        in if latency < best then (i, best_idx, latency, best)
           else if latency < second then (best_idx, i, best, latency)
           else st)"

definition lat_scan :: "(nat \<Rightarrow> llm_endpoint) \<Rightarrow> nat \<Rightarrow> nat \<times> nat \<times> 32 word \<times> 32 word" where
  "lat_scan ep n = foldl (lat_step ep) (0, 0, - 1, - 1) [0..<n]"

definition route_least_latency ::
  "route_env \<Rightarrow> 32 word \<Rightarrow> route_ctx \<Rightarrow> llm_route_request \<Rightarrow> llm_route_result \<Rightarrow> llm_route_result option" where
  "route_least_latency env now c rq r =
     (let es = router_get_eligible now c rq
      in if es = [] then None
         else case lat_scan (\<lambda>i. r_endpoints c ! (es ! i)) (length es) of
                (best, fb, _, _) \<Rightarrow>
                  Some (strategy_finish env c r (es ! best) (Some (es ! fb)) LLM_ROUTE_LATENCY 85
                    (strategy_tokens env rq)))"

definition quality_cmp :: "(nat \<Rightarrow> llm_endpoint) \<Rightarrow> nat \<Rightarrow> nat \<Rightarrow> int" where
  "quality_cmp ep a b =
     (if ep_priority (ep a) \<noteq> ep_priority (ep b)
      then if ep_priority (ep b) < ep_priority (ep a) then -1 else 1
      else if ep_context_window (ep a) \<noteq> ep_context_window (ep b)
      then if ep_context_window (ep b) < ep_context_window (ep a) then -1 else 1
      else 0)"

definition route_quality_first ::
  "route_env \<Rightarrow> 32 word \<Rightarrow> route_ctx \<Rightarrow> llm_route_request \<Rightarrow> llm_route_result \<Rightarrow> llm_route_result option" where
  "route_quality_first env now c rq r =
     (let es = router_get_eligible now c rq
      in if es = [] then None
         else let es = qsort env (quality_cmp (\<lambda>i. r_endpoints c ! i)) es
              in Some (strategy_finish env c r (es ! 0) (if 1 < length es then Some (es ! 1) else None)
                   LLM_ROUTE_COMPLEXITY 95 (strategy_tokens env rq)))"

section \<open>Routing\<close>

text \<open>
  The result record is zeroed before the first attempt. \<open>AIRY_MEMSET\<close> between the cost rule and
  its replacement zeroes it again.
\<close>

definition bump_fallback :: "route_ctx \<Rightarrow> route_ctx" where
  "bump_fallback c = c\<lparr>rc_stats := (rc_stats c)\<lparr>st_fallback_count := st_fallback_count (rc_stats c) + 1\<rparr>\<rparr>"

fun route_dispatch ::
  "route_env \<Rightarrow> 32 word \<Rightarrow> route_ctx \<Rightarrow> llm_route_request \<Rightarrow> llm_route_strategy \<Rightarrow> route_ctx \<times> llm_route_result option" where
  "route_dispatch env now c rq LLM_ROUTE_COST =
     (case route_cost_aware env now c rq zero_result of
        Some r \<Rightarrow> (c, Some r)
      | None \<Rightarrow> route_round_robin env now (bump_fallback c) rq zero_result)"
| "route_dispatch env now c rq LLM_ROUTE_ROUND_ROBIN = route_round_robin env now c rq zero_result"
| "route_dispatch env now c rq LLM_ROUTE_LATENCY = (c, route_least_latency env now c rq zero_result)"
| "route_dispatch env now c rq LLM_ROUTE_COMPLEXITY = (c, route_quality_first env now c rq zero_result)"
| "route_dispatch env now c rq LLM_ROUTE_FALLBACK =
     (case route_round_robin env now c rq zero_result of
        (c, Some r) \<Rightarrow> (c, Some r)
      | (c, None) \<Rightarrow>
          (case route_cost_aware env now c rq zero_result of
             Some r \<Rightarrow> (c, Some r)
           | None \<Rightarrow> (c, route_least_latency env now c rq zero_result)))"

definition route_account ::
  "route_env \<Rightarrow> route_ctx \<Rightarrow> llm_route_request \<Rightarrow> llm_route_strategy \<Rightarrow> llm_route_result option \<Rightarrow> route_ctx" where
  "route_account env c rq strategy res =
     (let st = (rc_stats c)\<lparr>st_total_requests := st_total_requests (rc_stats c) + 1\<rparr>
      in c\<lparr>rc_stats :=
           (case res of
              None \<Rightarrow> st\<lparr>st_error_count := st_error_count st + 1\<rparr>
            | Some r \<Rightarrow>
                st\<lparr>st_routed_count := (st_routed_count st)(strategy := st_routed_count st strategy + 1),
                   st_total_cost := st_total_cost st + res_estimated_cost r,
                   st_total_tokens := (case rr_prompt rq of
                      None \<Rightarrow> st_total_tokens st
                    | Some p \<Rightarrow> st_total_tokens st + of_nat (router_estimate_tokens env (Some p) (rr_prompt_len rq)))\<rparr>)\<rparr>)"

definition llm_router_route ::
  "route_env \<Rightarrow> 32 word \<Rightarrow> route_ctx \<Rightarrow> llm_route_request \<Rightarrow> route_ctx \<times> (route_err + llm_route_result)" where
  "llm_router_route env now c rq =
     (if \<not> r_initialized c then (c, Inl ROUTE_NOT_INIT)
      else let strategy = (case rr_strategy rq of None \<Rightarrow> rc_default_strategy c | Some st \<Rightarrow> st)
           in case route_dispatch env now c rq strategy of
                (c', res) \<Rightarrow>
                  (route_account env c' rq strategy res,
                   case res of None \<Rightarrow> Inl ROUTE_NOT_FOUND | Some r \<Rightarrow> Inr r))"

section \<open>Candidates of a failover chain\<close>

definition cand_precedes :: "(nat \<Rightarrow> llm_endpoint) \<Rightarrow> nat \<times> nat \<Rightarrow> nat \<Rightarrow> nat \<Rightarrow> bool" where
  "cand_precedes ep toks a b =
     (if ep_priority (ep a) \<noteq> ep_priority (ep b) then ep_priority (ep b) < ep_priority (ep a)
      else router_estimate_cost (ep a) (fst toks) (snd toks) < router_estimate_cost (ep b) (fst toks) (snd toks))"

text \<open>The inner loop moves the key to the left past the entries it precedes: the sorted prefix, last first.\<close>

fun cand_shift :: "(nat \<Rightarrow> nat \<Rightarrow> bool) \<Rightarrow> nat \<Rightarrow> nat list \<Rightarrow> nat list" where
  "cand_shift prec key [] = [key]"
| "cand_shift prec key (y # ys) = (if prec key y then y # cand_shift prec key ys else key # y # ys)"

definition cand_insert :: "(nat \<Rightarrow> nat \<Rightarrow> bool) \<Rightarrow> nat list \<Rightarrow> nat \<Rightarrow> nat list" where
  "cand_insert prec prefix key = rev (cand_shift prec key (rev prefix))"

definition cand_sort :: "(nat \<Rightarrow> nat \<Rightarrow> bool) \<Rightarrow> nat list \<Rightarrow> nat list" where
  "cand_sort prec xs = foldl (cand_insert prec) [] xs"

text \<open>\<open>out0\<close> is what the slots of the caller's array held; the fallback fields are not written.\<close>

definition llm_router_pick ::
  "route_env \<Rightarrow> 32 word \<Rightarrow> route_ctx \<Rightarrow> llm_route_request \<Rightarrow> llm_route_result \<Rightarrow> nat \<Rightarrow> route_err + llm_route_result list" where
  "llm_router_pick env now c rq out0 max_n =
     (if max_n = 0 then Inl ROUTE_INVALID_PARAM
      else if \<not> r_initialized c then Inl ROUTE_NOT_INIT
      else let toks = strategy_tokens env rq;
               eps = cand_sort (cand_precedes (\<lambda>i. r_endpoints c ! i) toks) (router_get_eligible now c rq)
           in Inr (map (\<lambda>i. router_fill_result env out0 (r_endpoints c ! i) LLM_ROUTE_COST 100 (fst toks) (snd toks))
                    (take max_n eps)))"

section \<open>Measurement\<close>

text \<open>
  \<open>llm_rtr_meas\<close>: the moving average of the endpoint's latency and the sums. A cache hit (no
  provider) only adds its token counts. The response type is declared outside this repository;
  the record holds the fields that are read here.
\<close>

record resp_meas =
  rm_prompt_tokens :: "64 word"
  rm_cached_tokens :: "64 word"
  rm_prefill_tokens :: "64 word"
  rm_decode_tokens :: "64 word"
  rm_kv_cache_tokens :: "64 word"
  rm_prefill_ms :: rat
  rm_decode_ms :: rat

definition ewma :: "32 word \<Rightarrow> 64 word \<Rightarrow> 32 word" where
  "ewma avg lat = ucast ((ucast avg * 4 + lat + 2) div (5 :: 64 word))"

definition meas_latency :: "route_ctx \<Rightarrow> string \<times> string \<Rightarrow> 64 word \<Rightarrow> route_ctx" where
  "meas_latency c k lat_ms =
     (case router_ep_find (r_endpoints c) k of
        None \<Rightarrow> c
      | Some i \<Rightarrow> c\<lparr>r_endpoints := (r_endpoints c)[i := (r_endpoints c ! i)\<lparr>
          ep_avg_latency_ms := ewma (ep_avg_latency_ms (r_endpoints c ! i)) lat_ms\<rparr>]\<rparr>)
     \<lparr>rc_stats := (rc_stats c)\<lparr>st_lat_samples := st_lat_samples (rc_stats c) + 1,
        st_lat_total_ms := st_lat_total_ms (rc_stats c) + lat_ms\<rparr>\<rparr>"

definition has_timings :: "resp_meas \<Rightarrow> bool" where
  "has_timings m \<longleftrightarrow> rm_prefill_tokens m \<noteq> 0 \<or> rm_decode_tokens m \<noteq> 0 \<or> rm_kv_cache_tokens m \<noteq> 0 \<or>
     rm_prefill_ms m \<noteq> 0 \<or> rm_decode_ms m \<noteq> 0"

definition meas_timings :: "llm_router_stats \<Rightarrow> resp_meas \<Rightarrow> llm_router_stats" where
  "meas_timings st m =
     st\<lparr>st_meas_samples := st_meas_samples st + 1,
        st_prefill_tokens := st_prefill_tokens st + rm_prefill_tokens m,
        st_decode_tokens := st_decode_tokens st + rm_decode_tokens m,
        st_kv_cache_tokens := st_kv_cache_tokens st + rm_kv_cache_tokens m,
        st_prefill_ms := st_prefill_ms st + rm_prefill_ms m,
        st_decode_ms := st_decode_ms st + rm_decode_ms m\<rparr>"

definition llm_rtr_meas ::
  "route_ctx \<Rightarrow> (string \<times> string) option \<Rightarrow> resp_meas \<Rightarrow> 64 word \<Rightarrow> route_ctx \<times> (route_err + unit)" where
  "llm_rtr_meas c key m lat_ms =
     (if \<not> r_initialized c then (c, Inl ROUTE_NOT_INIT)
      else let c = (case key of None \<Rightarrow> c | Some k \<Rightarrow> meas_latency c k lat_ms);
               st = (rc_stats c)\<lparr>st_prompt_tokens_sum := st_prompt_tokens_sum (rc_stats c) + rm_prompt_tokens m,
                      st_cached_tokens_sum := st_cached_tokens_sum (rc_stats c) + rm_cached_tokens m\<rparr>;
               st = (if key \<noteq> None \<and> has_timings m then meas_timings st m else st)
           in (c\<lparr>rc_stats := st\<rparr>, Inr ()))"

end
