(* ===== verification/Llm_Chain.thy ===== *)
theory Llm_Chain
  imports Llm_Router
begin

text \<open>
  llm_d, call-level failover (\<open>rpc/service_chain.c\<close>) with what it calls of the request path
  (\<open>service_request.c\<close>) and the provider registry (\<open>providers/core/registry.c\<close>,
  \<open>adapter.c\<close>). It composes the selection of \<open>Llm_Router\<close> with the breaker of \<open>Llm_Breaker\<close>:
  admission before a call, the health record and the latency measurement after it.

  A provider is its index in the registry. The adapter call and the clock are parameters of a
  run: \<open>rv_attempt k\<close> is what the \<open>k\<close>-th call returns. Between two rounds of the loop no lock is
  held; what other requests do to the router and to the seats of local endpoints in between is
  the arbitrary function \<open>rv_others\<close>.
\<close>

section \<open>Registry\<close>

record provider =
  pv_name :: string
  pv_models :: "string list option"
  pv_max_output :: "int list option"
  pv_max_concurrent :: "int list option"
  pv_props_state :: int
  pv_total_slots :: int

definition has_model :: "string \<Rightarrow> provider \<Rightarrow> bool" where
  "has_model model p = (case pv_models p of None \<Rightarrow> False | Some ms \<Rightarrow> model \<in> set ms)"

definition provider_registry_find :: "provider list \<Rightarrow> string \<Rightarrow> nat option" where
  "provider_registry_find reg model = find_index (has_model model) reg"

text \<open>The value of a model in a table that runs parallel to the model names; 0 when absent.\<close>

definition model_value :: "provider \<Rightarrow> int list option \<Rightarrow> string \<Rightarrow> int" where
  "model_value p tab model =
     (case (pv_models p, tab) of
        (Some ms, Some vs) \<Rightarrow>
          (case find_index (\<lambda>m. m = model) ms of
             None \<Rightarrow> 0 | Some i \<Rightarrow> if i < length vs then vs ! i else 0)
      | _ \<Rightarrow> 0)"

definition provider_registry_model_max_output :: "provider \<Rightarrow> string \<Rightarrow> int" where
  "provider_registry_model_max_output p model = model_value p (pv_max_output p) model"

definition prov_max_conc :: "provider \<Rightarrow> string \<Rightarrow> int" where
  "prov_max_conc p model = model_value p (pv_max_concurrent p) model"

section \<open>Chain state\<close>

definition SVC_CHAIN_OFF :: int where "SVC_CHAIN_OFF = 0"
definition SVC_CHAIN_AUTO :: int where "SVC_CHAIN_AUTO = 1"
definition SVC_CHAIN_DEF_DEPTH :: int where "SVC_CHAIN_DEF_DEPTH = 2"
definition SVC_CHAIN_MAX_TRIED :: nat where "SVC_CHAIN_MAX_TRIED = 8"

record llm_route_cfg =
  rc_mode :: int
  rc_depth :: int
  rc_on_mask :: "32 word"
  rc_budget_ms :: int

record svc_chain =
  ch_cfg :: llm_route_cfg
  ch_start_ms :: "64 word"
  ch_hops :: int
  ch_first_err :: int
  ch_tried :: "(string \<times> string) list"

record chain_env = route_env +
  fo_on_default :: "32 word"
  err_busy :: int
  err_invalid_model :: int

definition svc_chain_def :: "chain_env \<Rightarrow> llm_route_cfg" where
  "svc_chain_def env = \<lparr>rc_mode = SVC_CHAIN_OFF, rc_depth = SVC_CHAIN_DEF_DEPTH, rc_on_mask = fo_on_default env,
     rc_budget_ms = 0\<rparr>"

definition svc_chain_init :: "chain_env \<Rightarrow> llm_route_cfg option \<Rightarrow> 64 word \<Rightarrow> svc_chain" where
  "svc_chain_init env cfg now = \<lparr>ch_cfg = (case cfg of None \<Rightarrow> svc_chain_def env | Some c \<Rightarrow> c), ch_start_ms = now,
     ch_hops = 0, ch_first_err = 0, ch_tried = []\<rparr>"

definition svc_chain_left :: "svc_chain \<Rightarrow> 64 word \<Rightarrow> bool" where
  "svc_chain_left ch now \<longleftrightarrow> rc_budget_ms (ch_cfg ch) \<le> 0 \<or>
     now - ch_start_ms ch < word_of_int (rc_budget_ms (ch_cfg ch))"

definition svc_chain_auto :: "svc_chain \<Rightarrow> bool" where
  "svc_chain_auto ch \<longleftrightarrow> rc_mode (ch_cfg ch) = SVC_CHAIN_AUTO"

definition chain_tried :: "svc_chain \<Rightarrow> string \<Rightarrow> string \<Rightarrow> bool" where
  "chain_tried ch prov model \<longleftrightarrow> list_ex (\<lambda>(p, m). p = prov \<and> m = model) (ch_tried ch)"

definition svc_chain_mark :: "chain_env \<Rightarrow> svc_chain \<Rightarrow> string \<Rightarrow> string \<Rightarrow> svc_chain" where
  "svc_chain_mark env ch prov model =
     (if SVC_CHAIN_MAX_TRIED \<le> length (ch_tried ch) \<or> chain_tried ch prov model then ch
      else ch\<lparr>ch_tried := ch_tried ch @ [(strncpy_term env 64 prov, strncpy_term env 64 model)]\<rparr>)"

text \<open>\<open>svc_chain_retry\<close> also records the first error.\<close>

definition svc_chain_retry :: "chain_env \<Rightarrow> svc_chain \<Rightarrow> int \<Rightarrow> 64 word \<Rightarrow> svc_chain \<times> bool" where
  "svc_chain_retry env ch err now =
     (let ch = (if ch_first_err ch = 0 then ch\<lparr>ch_first_err := err\<rparr> else ch)
      in (ch, svc_chain_auto ch \<and> llm_fo_should (fo_env.truncate env) err (rc_on_mask (ch_cfg ch)) \<and>
              ch_hops ch < rc_depth (ch_cfg ch) \<and> svc_chain_left ch now))"

text \<open>The first candidate that was not tried, with the chain that has it marked.\<close>

fun next_cand :: "chain_env \<Rightarrow> svc_chain \<Rightarrow> llm_route_result list \<Rightarrow> (svc_chain \<times> string \<times> string) option" where
  "next_cand env ch [] = None"
| "next_cand env ch (r # rs) =
     (if chain_tried ch (res_provider_name r) (res_model_name r) then next_cand env ch rs
      else Some ((svc_chain_mark env ch (res_provider_name r) (res_model_name r))\<lparr>ch_hops := ch_hops ch + 1\<rparr>,
                 strncpy_term env 64 (res_provider_name r), strncpy_term env 128 (res_model_name r)))"

definition svc_chain_next ::
  "chain_env \<Rightarrow> 32 word \<Rightarrow> route_ctx \<Rightarrow> llm_route_request \<Rightarrow> svc_chain \<Rightarrow> (svc_chain \<times> string \<times> string) option" where
  "svc_chain_next env now c rq ch =
     (if SVC_CHAIN_MAX_TRIED \<le> length (ch_tried ch) then None
      else case llm_router_pick (route_env.truncate env) now c rq zero_result SVC_CHAIN_MAX_TRIED of
             Inl e \<Rightarrow> None
           | Inr cands \<Rightarrow> next_cand env ch cands)"

section \<open>One round\<close>

record llm_svc =
  sv_registry :: "provider list"
  sv_default_model :: string
  sv_default_max_output :: int
  sv_route :: llm_route_cfg

record chain_req =
  cq_model :: string
  cq_max_tokens :: int
  cq_route :: llm_route_request

definition resolve_gen_params :: "chain_env \<Rightarrow> llm_svc \<Rightarrow> provider \<Rightarrow> string \<Rightarrow> int \<Rightarrow> nat \<Rightarrow> string \<times> int" where
  "resolve_gen_params env svc p req_model want msz =
     (let model = (if req_model \<noteq> [] then req_model else sv_default_model svc);
          limit = provider_registry_model_max_output p model;
          limit = (if limit \<le> 0 then sv_default_max_output svc else limit);
          resolved = (if 0 < limit \<and> (want \<le> 0 \<or> limit < want) then limit else want)
      in (strncpy_term env msz model, if resolved < 0 then 0 else resolved))"

text \<open>The effective model of a round: the candidate's when there is one, else the request's.\<close>

definition step_build :: "chain_env \<Rightarrow> llm_svc \<Rightarrow> chain_req \<Rightarrow> provider \<Rightarrow> string \<Rightarrow> string \<times> int" where
  "step_build env svc q p cur_model =
     resolve_gen_params env svc p (if cur_model \<noteq> [] then cur_model else cq_model q) (cq_max_tokens q) 128"

text \<open>What the requests share: the router and, per provider, the calls in flight. \<open>cw_log\<close> is a
  ghost: the calls of this run.\<close>

record chain_world =
  cw_router :: route_ctx
  cw_inflight :: "nat \<Rightarrow> int"
  cw_log :: "(nat \<times> string) list"

definition svc_gate_limit :: "provider \<Rightarrow> string \<Rightarrow> int" where
  "svc_gate_limit p model =
     (if pv_props_state p = 0 then 0
      else let cfg = prov_max_conc p model;
               sp = (if 0 < pv_total_slots p then pv_total_slots p else if 0 < cfg then cfg else 1);
               mi = (if 0 < cfg then cfg else 1)
           in if mi < sp then mi else sp)"

text \<open>\<open>None\<close>: no gate; \<open>Some False\<close>: all seats taken; \<open>Some True\<close>: seat taken.\<close>

definition svc_gate_acquire :: "provider \<Rightarrow> nat \<Rightarrow> string \<Rightarrow> chain_world \<Rightarrow> chain_world \<times> bool option" where
  "svc_gate_acquire p pix model w =
     (let limit = svc_gate_limit p model
      in if limit \<le> 0 then (w, None)
         else if limit \<le> cw_inflight w pix then (w, Some False)
         else (w\<lparr>cw_inflight := (cw_inflight w)(pix := cw_inflight w pix + 1)\<rparr>, Some True))"

definition svc_gate_release :: "nat \<Rightarrow> chain_world \<Rightarrow> chain_world" where
  "svc_gate_release pix w = w\<lparr>cw_inflight := (cw_inflight w)(pix := cw_inflight w pix - 1)\<rparr>"

definition ep_gate :: "provider \<Rightarrow> string \<Rightarrow> 32 word \<Rightarrow> route_ctx \<Rightarrow> route_ctx \<times> bool" where
  "ep_gate p model now c =
     (case llm_rtr_admit c (pv_name p) model now of
        (c, True) \<Rightarrow> (c, True)
      | (c, False) \<Rightarrow> (c, \<not> llm_rtr_known c (pv_name p) model))"

datatype gate_res = Gate_Pass bool | Gate_Next | Gate_Busy

definition chain_gate ::
  "chain_env \<Rightarrow> provider \<Rightarrow> nat \<Rightarrow> string \<Rightarrow> bool \<Rightarrow> 32 word \<Rightarrow> svc_chain \<Rightarrow> chain_world \<Rightarrow> svc_chain \<times> chain_world \<times> gate_res" where
  "chain_gate env p pix model auto now ch w =
     (let ch = (if auto then svc_chain_mark env ch (pv_name p) model else ch);
          (c, open_ok) = (if auto then ep_gate p model now (cw_router w) else (cw_router w, True));
          w = w\<lparr>cw_router := c\<rparr>
      in if \<not> open_ok then (ch, w, Gate_Next)
         else case svc_gate_acquire p pix model w of
                (w, Some False) \<Rightarrow> (ch, w, if auto then Gate_Next else Gate_Busy)
              | (w, Some True) \<Rightarrow> (ch, w, Gate_Pass True)
              | (w, None) \<Rightarrow> (ch, w, Gate_Pass False))"

text \<open>
  The environment of one run: clocks (32-bit for the health record, 64-bit for the budget) and,
  per call, the return code, what the response reports and the time taken; whether content has
  gone out after so many calls; and what other requests do between two rounds.
\<close>

record run_env =
  rv_now32 :: "nat \<Rightarrow> 32 word"
  rv_now64 :: "nat \<Rightarrow> 64 word"
  rv_attempt :: "nat \<Rightarrow> int \<times> resp_meas \<times> 64 word"
  rv_sent :: "nat \<Rightarrow> bool"
  rv_others :: "nat \<Rightarrow> route_ctx \<times> (nat \<Rightarrow> int) \<Rightarrow> route_ctx \<times> (nat \<Rightarrow> int)"

text \<open>Round \<open>k\<close> makes call number \<open>length (cw_log w)\<close>.\<close>

definition attempt_run ::
  "chain_env \<Rightarrow> run_env \<Rightarrow> nat \<Rightarrow> provider \<Rightarrow> nat \<Rightarrow> string \<Rightarrow> bool \<Rightarrow> chain_world \<Rightarrow> chain_world \<times> int" where
  "attempt_run env rv k p pix model gated w =
     (case rv_attempt rv (length (cw_log w)) of
        (ret, m, lat) \<Rightarrow>
          let w = w\<lparr>cw_log := cw_log w @ [(pix, model)]\<rparr>;
              w = (if gated then svc_gate_release pix w else w)
          in if ret = 0
             then (w\<lparr>cw_router := fst (llm_rtr_meas
                      (fst (llm_rtr_ok (fo_env.truncate env) (cw_router w) (pv_name p) model (rv_now32 rv k)))
                      (Some (pv_name p, model)) m lat)\<rparr>, 0)
             else (w\<lparr>cw_router := fst (llm_rtr_fail (fo_env.truncate env) (cw_router w) (pv_name p) model ret (rv_now32 rv k))\<rparr>, ret))"

datatype try_res = CHAIN_OK | CHAIN_NEXT | CHAIN_STOP | CHAIN_ERR int

definition chain_try ::
  "chain_env \<Rightarrow> run_env \<Rightarrow> llm_svc \<Rightarrow> chain_req \<Rightarrow> nat \<Rightarrow> nat \<Rightarrow> string \<Rightarrow> svc_chain \<Rightarrow> chain_world \<Rightarrow>
   svc_chain \<times> chain_world \<times> (string \<times> int) \<times> try_res" where
  "chain_try env rv svc q k pix cur_model ch w =
     (let p = sv_registry svc ! pix; am = svc_chain_auto ch; (model, max_tokens) = step_build env svc q p cur_model
      in case chain_gate env p pix model am (rv_now32 rv k) ch w of
           (ch, w, Gate_Next) \<Rightarrow> (ch, w, (model, max_tokens), CHAIN_NEXT)
         | (ch, w, Gate_Busy) \<Rightarrow> (ch, w, (model, max_tokens), CHAIN_ERR (err_busy env))
         | (ch, w, Gate_Pass gated) \<Rightarrow>
             (case attempt_run env rv k p pix model gated w of
                (w, ret) \<Rightarrow>
                  if ret = 0 then (ch, w, (model, max_tokens), CHAIN_OK)
                  else if \<not> am then (ch, w, (model, max_tokens), CHAIN_ERR ret)
                  else case svc_chain_retry env ch ret (rv_now64 rv k) of
                         (ch, False) \<Rightarrow> (ch, w, (model, max_tokens), CHAIN_STOP)
                       | (ch, True) \<Rightarrow> (ch, w, (model, max_tokens),
                           if rv_sent rv (length (cw_log w)) then CHAIN_STOP else CHAIN_NEXT)))"

section \<open>The loop\<close>

lemma next_cand_tried:
  "next_cand env ch rs = Some (ch', p, m) \<Longrightarrow> length (ch_tried ch) < SVC_CHAIN_MAX_TRIED \<Longrightarrow>
     length (ch_tried ch') = length (ch_tried ch) + 1"
  by (induction rs) (auto simp: svc_chain_mark_def split: if_splits)

lemma svc_chain_next_tried:
  "svc_chain_next env now c rq ch = Some (ch', p, m) \<Longrightarrow>
     length (ch_tried ch) < SVC_CHAIN_MAX_TRIED \<and> length (ch_tried ch') = length (ch_tried ch) + 1"
  by (auto simp: svc_chain_next_def not_le dest: next_cand_tried split: if_splits sum.splits)

text \<open>The next candidate the registry knows; its model becomes \<open>cur_model\<close>.\<close>

function next_prov ::
  "chain_env \<Rightarrow> 32 word \<Rightarrow> llm_svc \<Rightarrow> route_ctx \<Rightarrow> llm_route_request \<Rightarrow> svc_chain \<Rightarrow> svc_chain \<times> (nat \<times> string) option" where
  "next_prov env now svc c rq ch =
     (case svc_chain_next env now c rq ch of
        None \<Rightarrow> (ch, None)
      | Some (ch', p, model) \<Rightarrow>
          (case provider_registry_find (sv_registry svc) model of
             Some pix \<Rightarrow> (ch', Some (pix, model))
           | None \<Rightarrow> next_prov env now svc c rq ch'))"
  by pat_completeness auto
termination next_prov
  by (relation "measure (\<lambda>(env, now, svc, c, rq, ch). SVC_CHAIN_MAX_TRIED - length (ch_tried ch))")
    (auto dest: svc_chain_next_tried)

declare next_prov.simps [simp del]

lemma next_prov_tried:
  "next_prov env now svc c rq ch = (ch', Some (pix, model)) \<Longrightarrow>
     length (ch_tried ch) < SVC_CHAIN_MAX_TRIED \<and> length (ch_tried ch) < length (ch_tried ch')"
proof (induction env now svc c rq ch rule: next_prov.induct)
  case (1 env now svc c rq ch)
  show ?case
  proof (cases "svc_chain_next env now c rq ch")
    case None
    with 1 show ?thesis by (simp add: next_prov.simps [of env now svc c rq ch])
  next
    case (Some a)
    obtain c1 p m where a: "a = (c1, p, m)" by (cases a) auto
    note t = svc_chain_next_tried [OF Some [unfolded a]]
    show ?thesis
    proof (cases "provider_registry_find (sv_registry svc) m")
      case (Some i)
      with 1 \<open>svc_chain_next env now c rq ch = Some a\<close> a t show ?thesis by (simp add: next_prov.simps [of env now svc c rq ch])
    next
      case None
      then have n: "next_prov env now svc c rq c1 = (ch', Some (pix, model))"
        using 1(2) Some a by (simp add: next_prov.simps [of env now svc c rq ch])
      from 1(1) [OF Some a [symmetric] refl None n] t show ?thesis by simp
    qed
  qed
qed

datatype chain_result = Chain_Ok nat string int | Chain_Err int

definition others :: "run_env \<Rightarrow> nat \<Rightarrow> chain_world \<Rightarrow> chain_world" where
  "others rv k w = (case rv_others rv k (cw_router w, cw_inflight w) of
     (c, f) \<Rightarrow> w\<lparr>cw_router := c, cw_inflight := f\<rparr>)"

lemma tried_mark: "length (ch_tried ch) \<le> length (ch_tried (svc_chain_mark env ch p m))"
  by (simp add: svc_chain_mark_def)

lemma tried_retry [simp]: "ch_tried (fst (svc_chain_retry env ch err now)) = ch_tried ch"
  by (simp add: svc_chain_retry_def Let_def)

lemma tried_gate: "length (ch_tried ch) \<le> length (ch_tried (fst (chain_gate env p pix model auto now ch w)))"
  using tried_mark [of ch env "pv_name p" model]
  by (auto simp: chain_gate_def Let_def split: prod.split option.split bool.split)

lemma tried_try: "length (ch_tried ch) \<le> length (ch_tried (fst (chain_try env rv svc q k pix cm ch w)))"
proof -
  obtain model mt where sb: "step_build env svc q (sv_registry svc ! pix) cm = (model, mt)" by fastforce
  obtain ch1 w1 g where g: "chain_gate env (sv_registry svc ! pix) pix model (svc_chain_auto ch) (rv_now32 rv k) ch w = (ch1, w1, g)"
    by (metis prod_cases3)
  have t: "length (ch_tried ch) \<le> length (ch_tried ch1)" using tried_gate g by (metis fst_conv)
  have r: "ch_tried ch2 = ch_tried ch1" if "svc_chain_retry env ch1 e n = (ch2, b)" for e n ch2 b
    using tried_retry [of env ch1 e n] that by simp
  show ?thesis
    using t by (cases g) (auto simp: chain_try_def Let_def sb g dest!: r split: prod.split bool.split)
qed

lemma chain_round_measure:
  assumes "chain_try env rv svc q k pix cm ch w = (ch1, x)" and "next_prov env now svc c rq ch1 = (ch2, Some (pix2, m2))"
  shows "SVC_CHAIN_MAX_TRIED - length (ch_tried ch2) < SVC_CHAIN_MAX_TRIED - length (ch_tried ch)"
  using tried_try [of ch env rv svc q k pix cm w] assms(1) next_prov_tried [OF assms(2)] by (simp, linarith)

function chain_loop ::
  "chain_env \<Rightarrow> run_env \<Rightarrow> llm_svc \<Rightarrow> chain_req \<Rightarrow> nat \<Rightarrow> nat \<Rightarrow> string \<Rightarrow> svc_chain \<Rightarrow> chain_world \<Rightarrow> chain_world \<times> chain_result" where
  "chain_loop env rv svc q k pix cur_model ch w =
     (case chain_try env rv svc q k pix cur_model ch w of
        (ch1, w1, (model, mt), CHAIN_OK) \<Rightarrow> (w1, Chain_Ok pix model mt)
      | (ch1, w1, _, CHAIN_ERR e) \<Rightarrow> (w1, Chain_Err e)
      | (ch1, w1, _, CHAIN_STOP) \<Rightarrow>
          (w1, Chain_Err (if ch_first_err ch1 \<noteq> 0 then ch_first_err ch1 else err_invalid_model env))
      | (ch1, w1, _, CHAIN_NEXT) \<Rightarrow>
          (let w2 = others rv k w1
           in case next_prov env (rv_now32 rv k) svc (cw_router w2) (cq_route q) ch1 of
                (ch2, Some (pix2, model2)) \<Rightarrow> chain_loop env rv svc q (Suc k) pix2 model2 ch2 w2
              | (ch2, None) \<Rightarrow>
                  (w2, Chain_Err (if ch_first_err ch2 \<noteq> 0 then ch_first_err ch2 else err_invalid_model env))))"
  by pat_completeness auto
termination chain_loop
  by (relation "measure (\<lambda>(env, rv, svc, q, k, pix, cm, ch, w). SVC_CHAIN_MAX_TRIED - length (ch_tried ch))")
    (auto dest!: chain_round_measure [OF sym sym])

declare chain_loop.simps [simp del]

definition svc_chain_run ::
  "chain_env \<Rightarrow> run_env \<Rightarrow> llm_svc \<Rightarrow> chain_req \<Rightarrow> nat \<Rightarrow> route_ctx \<times> (nat \<Rightarrow> int) \<Rightarrow> chain_world \<times> chain_result" where
  "svc_chain_run env rv svc q first s =
     chain_loop env rv svc q 0 first [] (svc_chain_init env (Some (sv_route svc)) (rv_now64 rv 0))
       \<lparr>cw_router = fst s, cw_inflight = snd s, cw_log = []\<rparr>"

section \<open>Choice of the first provider\<close>

text \<open>\<open>select_provider_via_router\<close> and \<open>pick_provider\<close>: the registry for an explicit model, else the router.\<close>

definition select_provider_via_router ::
  "chain_env \<Rightarrow> 32 word \<Rightarrow> llm_svc \<Rightarrow> route_ctx \<Rightarrow> chain_req \<Rightarrow> route_ctx \<times> nat option" where
  "select_provider_via_router env now svc c q =
     (case (if cq_model q \<noteq> [] then provider_registry_find (sv_registry svc) (cq_model q) else None) of
        Some pix \<Rightarrow> (c, Some pix)
      | None \<Rightarrow>
          (case llm_router_route (route_env.truncate env) now c (cq_route q) of
             (c, Inl _) \<Rightarrow> (c, None)
           | (c, Inr r) \<Rightarrow> (c, provider_registry_find (sv_registry svc) (res_model_name r))))"

definition pick_provider ::
  "chain_env \<Rightarrow> 32 word \<Rightarrow> llm_svc \<Rightarrow> route_ctx \<Rightarrow> chain_req \<Rightarrow> route_ctx \<times> nat option" where
  "pick_provider env now svc c q =
     (case select_provider_via_router env now svc c q of
        (c, Some pix) \<Rightarrow> (c, Some pix)
      | (c, None) \<Rightarrow> (c, provider_registry_find (sv_registry svc) (cq_model q)))"

end
