(* ===== verification/Llm_Router_Spec.thy ===== *)
theory Llm_Router_Spec
  imports Llm_Router
begin

text \<open>
  Correctness of endpoint selection in llm_d: what every rule chooses, that a request is routed
  exactly when an eligible endpoint exists and only to an eligible one, and that the candidate
  list of a failover chain is the stable sort by priority and cost.
\<close>

section \<open>The candidate order\<close>

text \<open>Higher priority first, then lower cost, as a linear order.\<close>

datatype cand_key = Cand_Key (ck_priority: int) (ck_cost: rat)

instantiation cand_key :: linorder
begin

definition less_eq_cand_key :: "cand_key \<Rightarrow> cand_key \<Rightarrow> bool" where
  "less_eq_cand_key a b \<longleftrightarrow>
     ck_priority b < ck_priority a \<or> (ck_priority a = ck_priority b \<and> ck_cost a \<le> ck_cost b)"

definition less_cand_key :: "cand_key \<Rightarrow> cand_key \<Rightarrow> bool" where
  "less_cand_key a b \<longleftrightarrow>
     ck_priority b < ck_priority a \<or> (ck_priority a = ck_priority b \<and> ck_cost a < ck_cost b)"

instance
  by standard (auto simp: less_eq_cand_key_def less_cand_key_def intro: cand_key.expand)

end

definition cand_key_of :: "(nat \<Rightarrow> llm_endpoint) \<Rightarrow> nat \<times> nat \<Rightarrow> nat \<Rightarrow> cand_key" where
  "cand_key_of ep toks i = Cand_Key (ep_priority (ep i)) (router_estimate_cost (ep i) (fst toks) (snd toks))"

lemma cand_precedes_less: "cand_precedes ep toks a b \<longleftrightarrow> cand_key_of ep toks a < cand_key_of ep toks b"
  by (auto simp: cand_precedes_def cand_key_of_def less_cand_key_def)

lemma mset_cand_shift: "mset (cand_shift prec x ys) = add_mset x (mset ys)"
  by (induction ys) auto

lemma set_cand_shift: "set (cand_shift prec x ys) = insert x (set ys)"
  using mset_cand_shift [of prec x ys] by (metis set_mset_add_mset_insert set_mset_mset)

lemma cand_shift_sorted:
  fixes f :: "nat \<Rightarrow> 'k::linorder"
  shows "sorted_wrt (\<lambda>a b. f b \<le> f a) ys \<Longrightarrow> sorted_wrt (\<lambda>a b. f b \<le> f a) (cand_shift (\<lambda>a b. f a < f b) x ys)"
  by (induction ys) (auto simp: set_cand_shift intro: order.trans)

lemma cand_shift_stable:
  fixes f :: "nat \<Rightarrow> 'k::linorder"
  shows "filter (\<lambda>y. f k = f y) (cand_shift (\<lambda>a b. f a < f b) x ys) =
    (if f k = f x then [x] else []) @ filter (\<lambda>y. f k = f y) ys"
  by (induction ys) auto

lemma cand_insert_laws:
  fixes f :: "nat \<Rightarrow> 'k::linorder"
  assumes "sorted (map f ys)"
  shows "mset (cand_insert (\<lambda>a b. f a < f b) ys x) = add_mset x (mset ys)"
    and "sorted (map f (cand_insert (\<lambda>a b. f a < f b) ys x))"
    and "filter (\<lambda>y. f k = f y) (cand_insert (\<lambda>a b. f a < f b) ys x) = filter (\<lambda>y. f k = f y) (ys @ [x])"
proof -
  show "mset (cand_insert (\<lambda>a b. f a < f b) ys x) = add_mset x (mset ys)"
    by (simp add: cand_insert_def mset_cand_shift)
  have "sorted_wrt (\<lambda>a b. f b \<le> f a) (rev ys)"
    using assms by (simp add: sorted_wrt_map sorted_wrt_rev)
  then have "sorted_wrt (\<lambda>a b. f b \<le> f a) (cand_shift (\<lambda>a b. f a < f b) x (rev ys))"
    by (rule cand_shift_sorted)
  then show "sorted (map f (cand_insert (\<lambda>a b. f a < f b) ys x))"
    by (simp add: cand_insert_def sorted_wrt_map sorted_wrt_rev)
  show "filter (\<lambda>y. f k = f y) (cand_insert (\<lambda>a b. f a < f b) ys x) = filter (\<lambda>y. f k = f y) (ys @ [x])"
    by (simp add: cand_insert_def rev_filter [symmetric] cand_shift_stable)
qed

lemma cand_sort_is_sort_key:
  fixes f :: "nat \<Rightarrow> 'k::linorder"
  shows "cand_sort (\<lambda>a b. f a < f b) xs = sort_key f xs"
proof -
  have "mset (cand_sort (\<lambda>a b. f a < f b) xs) = mset xs \<and> sorted (map f (cand_sort (\<lambda>a b. f a < f b) xs)) \<and>
      (\<forall>k. filter (\<lambda>y. f k = f y) (cand_sort (\<lambda>a b. f a < f b) xs) = filter (\<lambda>y. f k = f y) xs)"
  proof (induction xs rule: rev_induct)
    case Nil
    then show ?case by (simp add: cand_sort_def)
  next
    case (snoc x xs)
    then show ?case
      using cand_insert_laws [where f = f and ys = "cand_sort (\<lambda>a b. f a < f b) xs" and x = x]
      by (simp add: cand_sort_def)
  qed
  then show ?thesis by (intro properties_for_sort_key [symmetric]) auto
qed

section \<open>Eligible endpoints\<close>

lemma eligible_mem:
  "i \<in> set (router_get_eligible now c rq) \<Longrightarrow> i < length (r_endpoints c) \<and> ep_eligible now rq (r_endpoints c ! i)"
  by (auto simp: router_get_eligible_def dest: in_set_takeD)

lemma eligible_empty:
  "router_get_eligible now c rq = [] \<longleftrightarrow> \<not> (\<exists>i<length (r_endpoints c). ep_eligible now rq (r_endpoints c ! i))"
  by (auto simp: router_get_eligible_def LLM_ROUTER_MAX_ENDPOINTS_def filter_empty_conv)

text \<open>With at most 64 endpoints, which registration guarantees, none is cut off.\<close>

lemma eligible_all:
  "length (r_endpoints c) \<le> LLM_ROUTER_MAX_ENDPOINTS \<Longrightarrow>
     router_get_eligible now c rq = filter (\<lambda>i. ep_eligible now rq (r_endpoints c ! i)) [0..<length (r_endpoints c)]"
  using length_filter_le [of "\<lambda>i. ep_eligible now rq (r_endpoints c ! i)" "[0..<length (r_endpoints c)]"]
  by (simp add: router_get_eligible_def)

section \<open>The cost rule\<close>

definition within_caps :: "llm_route_request \<Rightarrow> (nat \<Rightarrow> llm_endpoint) \<Rightarrow> nat \<times> nat \<Rightarrow> nat \<Rightarrow> bool" where
  "within_caps rq ep toks i \<longleftrightarrow>
     (0 < rr_max_cost rq \<longrightarrow> router_estimate_cost (ep i) (fst toks) (snd toks) \<le> rr_max_cost rq) \<and>
     (0 < rr_max_latency_ms rq \<longrightarrow> ep_avg_latency_ms (ep i) \<le> rr_max_latency_ms rq)"

definition est :: "(nat \<Rightarrow> llm_endpoint) \<Rightarrow> nat \<times> nat \<Rightarrow> nat \<Rightarrow> rat" where
  "est ep toks i = router_estimate_cost (ep i) (fst toks) (snd toks)"

lemma cost_scan_law:
  "case cost_scan rq ep toks n of
     (b, fb, None) \<Rightarrow> b = 0 \<and> (\<forall>j<n. \<not> within_caps rq ep toks j)
   | (b, fb, Some m) \<Rightarrow> b < n \<and> fb < n \<and> within_caps rq ep toks b \<and> m = est ep toks b \<and>
       (\<forall>j<n. within_caps rq ep toks j \<longrightarrow> est ep toks b \<le> est ep toks j \<and> (j < b \<longrightarrow> est ep toks b < est ep toks j))"
proof (induction n)
  case 0
  then show ?case by (simp add: cost_scan_def)
next
  case (Suc n)
  obtain b fb m where s: "cost_scan rq ep toks n = (b, fb, m)" by (metis prod_cases3)
  have step: "cost_scan rq ep toks (Suc n) = cost_step rq ep toks (b, fb, m) n"
    using s by (simp add: cost_scan_def)
  have caps: "within_caps rq ep toks n \<longleftrightarrow>
      \<not> (0 < rr_max_cost rq \<and> rr_max_cost rq < est ep toks n) \<and>
      \<not> (0 < rr_max_latency_ms rq \<and> rr_max_latency_ms rq < ep_avg_latency_ms (ep n))"
    by (auto simp: within_caps_def est_def not_less)
  show ?case
  proof (cases "within_caps rq ep toks n \<and> (case m of None \<Rightarrow> True | Some k \<Rightarrow> est ep toks n < k)")
    case True
    then have e: "cost_scan rq ep toks (Suc n) = (n, b, Some (est ep toks n))"
      using step caps by (auto simp: cost_step_def est_def Let_def split: option.splits)
    show ?thesis
    proof (cases m)
      case None
      with Suc s True show ?thesis by (auto simp: e less_Suc_eq)
    next
      case (Some k)
      with Suc s True show ?thesis by (fastforce simp: e less_Suc_eq)
    qed
  next
    case False
    then have e: "cost_scan rq ep toks (Suc n) = (b, fb, m)"
      using step caps by (auto simp: cost_step_def est_def Let_def split: option.splits)
    show ?thesis using Suc s False by (auto simp: e less_Suc_eq split: option.splits)
  qed
qed

section \<open>The latency rule\<close>

definition lat :: "(nat \<Rightarrow> llm_endpoint) \<Rightarrow> nat \<Rightarrow> 32 word" where
  "lat ep i = ep_avg_latency_ms (ep i)"

lemma lat_scan_law:
  assumes "\<forall>i\<le>n. lat ep i < - 1"
  shows "\<exists>b fb second. lat_scan ep (Suc n) = (b, fb, lat ep b, second) \<and> b \<le> n \<and> fb \<le> n \<and>
     (\<forall>j\<le>n. lat ep b \<le> lat ep j \<and> (j < b \<longrightarrow> lat ep b < lat ep j)) \<and>
     (if n = 0 then fb = b \<and> second = - 1
      else fb \<noteq> b \<and> second = lat ep fb \<and> (\<forall>j\<le>n. j \<noteq> b \<longrightarrow> lat ep fb \<le> lat ep j))"
  using assms
proof (induction n)
  case 0
  then show ?case by (simp add: lat_scan_def lat_step_def lat_def)
next
  case (Suc n)
  then obtain b fb second where
    IH: "lat_scan ep (Suc n) = (b, fb, lat ep b, second)" "b \<le> n" "fb \<le> n"
      "\<forall>j\<le>n. lat ep b \<le> lat ep j \<and> (j < b \<longrightarrow> lat ep b < lat ep j)"
      "if n = 0 then fb = b \<and> second = - 1
       else fb \<noteq> b \<and> second = lat ep fb \<and> (\<forall>j\<le>n. j \<noteq> b \<longrightarrow> lat ep fb \<le> lat ep j)"
    by auto
  have step: "lat_scan ep (Suc (Suc n)) =
      (if lat ep (Suc n) < lat ep b then (Suc n, b, lat ep (Suc n), lat ep b)
       else if lat ep (Suc n) < second then (b, Suc n, lat ep b, lat ep (Suc n))
       else (b, fb, lat ep b, second))"
    using IH(1) by (simp add: lat_scan_def lat_step_def lat_def)
  consider (new) "lat ep (Suc n) < lat ep b" | (snd) "\<not> lat ep (Suc n) < lat ep b" "lat ep (Suc n) < second"
    | (old) "\<not> lat ep (Suc n) < lat ep b" "\<not> lat ep (Suc n) < second"
    by blast
  then show ?case
  proof cases
    case new
    then have "lat_scan ep (Suc (Suc n)) = (Suc n, b, lat ep (Suc n), lat ep b)" by (simp add: step)
    moreover have "lat ep (Suc n) < lat ep j" if "j \<le> n" for j using new IH(4) that by (meson le_less_trans order.strict_trans2)
    ultimately show ?thesis using IH(2,4) by (auto simp: le_Suc_eq intro: less_imp_le)
  next
    case snd
    then have "lat_scan ep (Suc (Suc n)) = (b, Suc n, lat ep b, lat ep (Suc n))" by (simp add: step)
    moreover have "lat ep (Suc n) \<le> lat ep j" if "j \<le> n" "j \<noteq> b" for j
      using snd IH(2,5) that by (cases "n = 0") (auto intro: order.trans [OF less_imp_le])
    ultimately show ?thesis using snd(1) IH(2,4) by (auto simp: le_Suc_eq not_less)
  next
    case old
    have "lat ep (Suc n) < - 1" using Suc.prems by simp
    then have "n \<noteq> 0" using old(2) IH(5) by (cases "n = 0") auto
    moreover have "lat_scan ep (Suc (Suc n)) = (b, fb, lat ep b, second)" using old by (simp add: step)
    ultimately show ?thesis using old IH by (auto simp: le_Suc_eq not_less)
  qed
qed

section \<open>Properties\<close>

text \<open>What the C library promises of \<open>qsort\<close>: the same elements, in an order the comparison accepts.\<close>

definition qsort_ok :: "route_env \<Rightarrow> bool" where
  "qsort_ok env \<longleftrightarrow> (\<forall>ep xs. mset (qsort env (quality_cmp ep) xs) = mset xs \<and>
     sorted_wrt (\<lambda>a b. quality_cmp ep a b \<le> 0) (qsort env (quality_cmp ep) xs))"

text \<open>A result that describes an endpoint of the table.\<close>

definition describes :: "route_env \<Rightarrow> route_ctx \<Rightarrow> llm_route_request \<Rightarrow> llm_route_result \<Rightarrow> nat \<Rightarrow> bool" where
  "describes env c rq r i \<longleftrightarrow>
     res_provider_name r = strncpy_term env 64 (ep_provider_name (r_endpoints c ! i)) \<and>
     res_model_name r = strncpy_term env 64 (ep_model_name (r_endpoints c ! i)) \<and>
     res_endpoint r = strncpy_term env 256 (ep_endpoint (r_endpoints c ! i)) \<and>
     res_estimated_cost r = est (\<lambda>i. r_endpoints c ! i) (strategy_tokens env rq) i \<and>
     res_estimated_latency_ms r = ep_avg_latency_ms (r_endpoints c ! i)"

lemma strategy_finish_describes:
  "describes env c rq (strategy_finish env c r0 i fb ty sc (strategy_tokens env rq)) i"
  by (simp add: describes_def strategy_finish_def router_fill_result_def router_set_fallback_def Let_def est_def
      split: option.split)

definition routed :: "route_env \<Rightarrow> 32 word \<Rightarrow> route_ctx \<Rightarrow> llm_route_request \<Rightarrow> llm_route_result option \<Rightarrow> bool" where
  "routed env now c rq res \<longleftrightarrow>
     (case res of
        None \<Rightarrow> router_get_eligible now c rq = []
      | Some r \<Rightarrow> \<exists>i\<in>set (router_get_eligible now c rq). describes env c rq r i)"

lemma routedI:
  "i \<in> set (router_get_eligible now c rq) \<Longrightarrow>
     routed env now c rq (Some (strategy_finish env c r0 i fb ty sc (strategy_tokens env rq)))"
  by (auto simp: routed_def intro: strategy_finish_describes)

lemma routed_None: "router_get_eligible now c rq = [] \<Longrightarrow> routed env now c rq None"
  by (simp add: routed_def)

lemma round_robin_routed: "routed env now c rq (snd (route_round_robin env now c rq r0))"
  by (auto simp: route_round_robin_def Let_def intro!: routedI routed_None)

lemma cost_aware_routed:
  "route_cost_aware env now c rq r0 = Some r \<Longrightarrow> routed env now c rq (Some r)"
  using cost_scan_law [where rq = rq and ep = "\<lambda>i. r_endpoints c ! (router_get_eligible now c rq ! i)"
      and toks = "strategy_tokens env rq" and n = "length (router_get_eligible now c rq)"]
  by (auto simp: route_cost_aware_def Let_def split: if_splits prod.splits option.splits intro!: routedI)

lemma lat_scan_bound: "0 < n \<Longrightarrow> fst (lat_scan ep n) < n \<and> fst (snd (lat_scan ep n)) < n"
proof (induction n)
  case (Suc n)
  then show ?case
    by (cases "n = 0") (auto simp: lat_scan_def lat_step_def Let_def split: prod.splits)
qed simp

lemma latency_routed: "routed env now c rq (route_least_latency env now c rq r0)"
proof (cases "router_get_eligible now c rq = []")
  case True
  then show ?thesis by (simp add: routed_def route_least_latency_def)
next
  case False
  let ?es = "router_get_eligible now c rq"
  obtain b fb x y where l: "lat_scan (\<lambda>i. r_endpoints c ! (?es ! i)) (length ?es) = (b, fb, x, y)" by (metis prod_cases4)
  then have "b < length ?es" using lat_scan_bound [of "length ?es" "\<lambda>i. r_endpoints c ! (?es ! i)"] False by simp
  then show ?thesis
    using False l by (simp add: route_least_latency_def Let_def routedI)
qed

lemma quality_routed:
  assumes "qsort_ok env"
  shows "routed env now c rq (route_quality_first env now c rq r0)"
proof (cases "router_get_eligible now c rq = []")
  case True
  then show ?thesis by (simp add: routed_def route_quality_first_def)
next
  case False
  let ?es = "router_get_eligible now c rq" and ?q = "qsort env (quality_cmp (\<lambda>i. r_endpoints c ! i)) (router_get_eligible now c rq)"
  have m: "mset ?q = mset ?es" using assms by (simp add: qsort_ok_def)
  then have "set ?q = set ?es" and "?q \<noteq> []" using False by (auto dest: mset_eq_setD)
  then have "?q ! 0 \<in> set ?es" using nth_mem [of 0 ?q] by simp
  then show ?thesis
    using False by (simp add: route_quality_first_def Let_def routedI)
qed

lemma eligible_frame:
  "r_endpoints c' = r_endpoints c \<Longrightarrow> router_get_eligible now c' rq = router_get_eligible now c rq"
  by (simp add: router_get_eligible_def)

lemma routed_frame:
  assumes "r_endpoints c' = r_endpoints c"
  shows "routed env now c' rq res = routed env now c rq res"
  unfolding routed_def eligible_frame [OF assms] describes_def assms ..

lemma round_robin_frame: "r_endpoints (fst (route_round_robin env now c rq r0)) = r_endpoints c"
  by (simp add: route_round_robin_def Let_def)

lemma bump_frame: "r_endpoints (bump_fallback c) = r_endpoints c"
  by (simp add: bump_fallback_def)

lemma dispatch_routed:
  assumes "qsort_ok env"
  shows "routed env now c rq (snd (route_dispatch env now c rq st))"
proof (cases st)
  case LLM_ROUTE_COST
  have "routed env now (bump_fallback c) rq (snd (route_round_robin env now (bump_fallback c) rq zero_result))"
    by (rule round_robin_routed)
  then have "routed env now c rq (snd (route_round_robin env now (bump_fallback c) rq zero_result))"
    by (simp add: routed_frame [OF bump_frame])
  with LLM_ROUTE_COST show ?thesis by (auto simp: cost_aware_routed split: option.split)
next
  case LLM_ROUTE_FALLBACK
  have rr: "routed env now c rq (snd (route_round_robin env now c rq zero_result))" by (rule round_robin_routed)
  obtain c' res where e: "route_round_robin env now c rq zero_result = (c', res)" by force
  show ?thesis
  proof (cases res)
    case None
    then have "router_get_eligible now c rq = []" using rr e by (simp add: routed_def)
    moreover have "r_endpoints c' = r_endpoints c" using round_robin_frame [of env now c rq zero_result] e by simp
    ultimately have "router_get_eligible now c' rq = []" "router_get_eligible now c rq = []"
      by (simp_all add: eligible_frame [of c' c])
    then show ?thesis
      using None e LLM_ROUTE_FALLBACK by (simp add: route_cost_aware_def route_least_latency_def routed_def)
  next
    case (Some r)
    with rr e LLM_ROUTE_FALLBACK show ?thesis by simp
  qed
qed (simp_all add: round_robin_routed latency_routed quality_routed [OF assms])

text \<open>
  Routing is sound and complete. On an initialized router a request is routed if and only if
  some endpoint is enabled, not blocked by its breaker, capable and of the preferred provider;
  and the result describes such an endpoint. Otherwise the answer is \<open>AIRY_ERR_NOT_FOUND\<close>. This
  holds for every strategy, including the ones that fall back to another rule.
\<close>

theorem route_sound_complete:
  assumes "qsort_ok env" and "r_initialized c"
  shows "case snd (llm_router_route env now c rq) of
      Inl e \<Rightarrow> e = ROUTE_NOT_FOUND \<and> (\<forall>i<length (r_endpoints c). \<not> ep_eligible now rq (r_endpoints c ! i))
    | Inr r \<Rightarrow> \<exists>i<length (r_endpoints c). ep_eligible now rq (r_endpoints c ! i) \<and> describes env c rq r i"
proof -
  define st where "st = (case rr_strategy rq of None \<Rightarrow> rc_default_strategy c | Some st \<Rightarrow> st)"
  have d: "routed env now c rq (snd (route_dispatch env now c rq st))" by (rule dispatch_routed [OF assms(1)])
  have "snd (llm_router_route env now c rq) =
      (case snd (route_dispatch env now c rq st) of None \<Rightarrow> Inl ROUTE_NOT_FOUND | Some r \<Rightarrow> Inr r)"
    using assms(2) by (simp add: llm_router_route_def st_def Let_def split: prod.split option.split)
  then show ?thesis
    using d eligible_empty [of now c rq] eligible_mem [of _ now c rq]
    by (cases "snd (route_dispatch env now c rq st)") (auto simp: routed_def)
qed

text \<open>An instance of the parameters: a comparison sort and a counter of four characters a token.\<close>

fun insert_by :: "(nat \<Rightarrow> nat \<Rightarrow> int) \<Rightarrow> nat \<Rightarrow> nat list \<Rightarrow> nat list" where
  "insert_by cmp x [] = [x]"
| "insert_by cmp x (y # ys) = (if cmp x y \<le> 0 then x # y # ys else y # insert_by cmp x ys)"

definition example_route_env :: route_env where
  "example_route_env = fo_env.extend example_fo
     (route_env.fields (\<lambda>p. Some (length p div 4)) (\<lambda>cmp xs. foldr (insert_by cmp) xs []))"

lemma example_qsort: "qsort example_route_env = (\<lambda>cmp xs. foldr (insert_by cmp) xs [])"
  by (simp add: example_route_env_def fo_env.defs route_env.defs)

lemma quality_cmp_order:
  "quality_cmp ep a b \<le> 0 \<Longrightarrow> quality_cmp ep b d \<le> 0 \<Longrightarrow> quality_cmp ep a d \<le> 0"
  "\<not> quality_cmp ep a b \<le> 0 \<Longrightarrow> quality_cmp ep b a \<le> 0"
  by (auto simp: quality_cmp_def split: if_splits)

lemma mset_insert_by: "mset (insert_by cmp x ys) = add_mset x (mset ys)"
  by (induction ys) auto

lemma insert_by_sorted:
  "sorted_wrt (\<lambda>a b. quality_cmp ep a b \<le> 0) ys \<Longrightarrow>
     sorted_wrt (\<lambda>a b. quality_cmp ep a b \<le> 0) (insert_by (quality_cmp ep) x ys)"
proof (induction ys)
  case (Cons y ys)
  have "set (insert_by (quality_cmp ep) x ys) = insert x (set ys)"
    using mset_insert_by by (metis set_mset_add_mset_insert set_mset_mset)
  with Cons show ?case by (auto intro: quality_cmp_order)
qed simp

lemma example_qsort_ok: "qsort_ok example_route_env"
proof -
  have "mset (foldr (insert_by (quality_cmp ep)) xs []) = mset xs \<and>
      sorted_wrt (\<lambda>a b. quality_cmp ep a b \<le> 0) (foldr (insert_by (quality_cmp ep)) xs [])" for ep xs
    by (induction xs) (auto simp: mset_insert_by insert_by_sorted)
  then show ?thesis by (simp add: qsort_ok_def example_qsort)
qed

definition example_stats :: llm_router_stats where
  "example_stats = \<lparr>st_total_requests = 0, st_routed_count = (\<lambda>_. 0), st_fallback_count = 0, st_error_count = 0,
     st_total_cost = 0, st_total_tokens = 0, st_lat_samples = 0, st_lat_total_ms = 0,
     st_prompt_tokens_sum = 0, st_cached_tokens_sum = 0, st_meas_samples = 0, st_prefill_tokens = 0,
     st_decode_tokens = 0, st_kv_cache_tokens = 0, st_prefill_ms = 0, st_decode_ms = 0\<rparr>"

definition example_ctx :: "llm_endpoint list \<Rightarrow> route_ctx" where
  "example_ctx eps = \<lparr>r_endpoints = eps, r_initialized = True, r_round_robin_index = 0, r_restore = [],
     rc_default_strategy = LLM_ROUTE_COST, rc_stats = example_stats\<rparr>"

definition example_req :: "rat \<Rightarrow> llm_route_request" where
  "example_req budget = \<lparr>rr_prompt = None, rr_prompt_len = 4000, rr_required_caps = 0, rr_max_tokens = 0,
     rr_max_cost = budget, rr_max_latency_ms = 0, rr_strategy = Some LLM_ROUTE_COST, rr_preferred_provider = []\<rparr>"

text \<open>Endpoints with an input price per thousand tokens, a latency and a priority.\<close>

definition priced :: "string \<Rightarrow> rat \<Rightarrow> 32 word \<Rightarrow> int \<Rightarrow> llm_endpoint" where
  "priced m cost l p = example_ep\<lparr>ep_model_name := m, ep_enabled := True, ep_open_until_ms := 0, ep_cost_per_1k_input := cost,
     ep_cost_per_1k_output := 0, ep_avg_latency_ms := l, ep_priority := p\<rparr>"

definition ex_two :: route_ctx where
  "ex_two = example_ctx [priced ''dear'' 5 9 1, priced ''cheap'' 1 3 0]"

lemma ex_two_eligible: "router_get_eligible 0 ex_two (example_req b) = [0, 1]"
  by (simp add: router_get_eligible_def ex_two_def example_ctx_def example_req_def ep_eligible_def priced_def
      llm_ep_state_def router_has_capabilities_def LLM_ROUTER_MAX_ENDPOINTS_def)

theorem route_sound_complete_witness:
  "case snd (llm_router_route example_route_env 0 ex_two (example_req 0)) of
      Inl e \<Rightarrow> False
    | Inr r \<Rightarrow> \<exists>i<length (r_endpoints ex_two). ep_eligible 0 (example_req 0) (r_endpoints ex_two ! i) \<and>
                 describes example_route_env ex_two (example_req 0) r i"
proof -
  have "\<exists>i<length (r_endpoints ex_two). ep_eligible 0 (example_req 0) (r_endpoints ex_two ! i)"
    using eligible_empty [of 0 ex_two "example_req 0"] by (simp add: ex_two_eligible)
  moreover have "r_initialized ex_two" by (simp add: ex_two_def example_ctx_def)
  ultimately show ?thesis
    using route_sound_complete [OF example_qsort_ok, of ex_two 0 "example_req 0"]
    by (cases "snd (llm_router_route example_route_env 0 ex_two (example_req 0))") auto
qed

text \<open>
  The candidate list. The endpoints handed to a failover chain are the first \<open>max\<close> of the
  eligible endpoints in the stable sort by priority (descending) and estimated cost (ascending):
  the insertion sort of the code is the library's sort.
\<close>

theorem pick_is_stable_sort:
  assumes "r_initialized c" and "0 < max_n" and "length (r_endpoints c) \<le> 64"
  shows "llm_router_pick env now c rq out0 max_n =
    Inr (map (\<lambda>i. router_fill_result env out0 (r_endpoints c ! i) LLM_ROUTE_COST 100
                   (fst (strategy_tokens env rq)) (snd (strategy_tokens env rq)))
          (take max_n (sort_key (cand_key_of (\<lambda>i. r_endpoints c ! i) (strategy_tokens env rq))
             (filter (\<lambda>i. ep_eligible now rq (r_endpoints c ! i)) [0..<length (r_endpoints c)]))))"
proof -
  have "cand_precedes ep toks = (\<lambda>a b. cand_key_of ep toks a < cand_key_of ep toks b)" for ep toks
    by (intro ext) (simp add: cand_precedes_less)
  with assms show ?thesis
    by (simp add: llm_router_pick_def Let_def eligible_all LLM_ROUTER_MAX_ENDPOINTS_def cand_sort_is_sort_key)
qed

theorem pick_is_stable_sort_witness:
  "llm_router_pick example_route_env 0 ex_two (example_req 0) zero_result 1 =
    Inr (map (\<lambda>i. router_fill_result example_route_env zero_result (r_endpoints ex_two ! i) LLM_ROUTE_COST 100
                   (fst (strategy_tokens example_route_env (example_req 0))) (snd (strategy_tokens example_route_env (example_req 0))))
          (take 1 (sort_key (cand_key_of (\<lambda>i. r_endpoints ex_two ! i) (strategy_tokens example_route_env (example_req 0)))
             (filter (\<lambda>i. ep_eligible 0 (example_req 0) (r_endpoints ex_two ! i)) [0..<length (r_endpoints ex_two)]))))"
  by (rule pick_is_stable_sort) (simp_all add: ex_two_def example_ctx_def)

text \<open>
  The cost rule. If it succeeds, the result describes an eligible endpoint within the budget
  and latency caps, and no eligible endpoint within the caps is cheaper; if it fails, no eligible
  endpoint is within the caps.
\<close>

theorem cost_rule_cheapest:
  "case route_cost_aware env now c rq r0 of
     None \<Rightarrow> \<forall>j\<in>set (router_get_eligible now c rq).
               \<not> within_caps rq (\<lambda>i. r_endpoints c ! i) (strategy_tokens env rq) j
   | Some r \<Rightarrow> \<exists>i\<in>set (router_get_eligible now c rq). describes env c rq r i \<and>
               within_caps rq (\<lambda>i. r_endpoints c ! i) (strategy_tokens env rq) i \<and>
               (\<forall>j\<in>set (router_get_eligible now c rq).
                  within_caps rq (\<lambda>i. r_endpoints c ! i) (strategy_tokens env rq) j \<longrightarrow>
                  est (\<lambda>i. r_endpoints c ! i) (strategy_tokens env rq) i \<le> est (\<lambda>i. r_endpoints c ! i) (strategy_tokens env rq) j)"
proof -
  let ?es = "router_get_eligible now c rq" and ?t = "strategy_tokens env rq"
  let ?ep = "\<lambda>i. r_endpoints c ! (router_get_eligible now c rq ! i)"
  have w: "within_caps rq ?ep ?t k = within_caps rq (\<lambda>i. r_endpoints c ! i) ?t (?es ! k)" for k
    by (simp add: within_caps_def)
  have e: "est ?ep ?t k = est (\<lambda>i. r_endpoints c ! i) ?t (?es ! k)" for k by (simp add: est_def)
  obtain b fb m where s: "cost_scan rq ?ep ?t (length ?es) = (b, fb, m)" by (metis prod_cases3)
  note law = cost_scan_law [where rq = rq and ep = ?ep and toks = ?t and n = "length ?es", unfolded s w e, simplified]
  show ?thesis
  proof (cases m)
    case None
    then have "route_cost_aware env now c rq r0 = None" using s by (simp add: route_cost_aware_def Let_def)
    with None law show ?thesis by (auto simp: in_set_conv_nth)
  next
    case (Some k)
    with law have b: "b < length ?es" by simp
    then have "route_cost_aware env now c rq r0 =
        Some (strategy_finish env c r0 (?es ! b) (if fb \<noteq> b then Some (?es ! fb) else None) LLM_ROUTE_COST 90 ?t)"
      using s Some by (auto simp: route_cost_aware_def Let_def)
    moreover have "within_caps rq (\<lambda>i. r_endpoints c ! i) ?t (?es ! b)" using law Some by simp
    moreover have "\<forall>j\<in>set ?es. within_caps rq (\<lambda>i. r_endpoints c ! i) ?t j \<longrightarrow>
        est (\<lambda>i. r_endpoints c ! i) ?t (?es ! b) \<le> est (\<lambda>i. r_endpoints c ! i) ?t j"
      using law Some by (auto simp: in_set_conv_nth)
    ultimately show ?thesis
      using strategy_finish_describes nth_mem [OF b] by (simp only: option.case) blast
  qed
qed

theorem cost_rule_cheapest_witness:
  "\<exists>r. route_cost_aware example_route_env 0 ex_two (example_req 2) zero_result = Some r \<and> res_model_name r = ''cheap''"
proof -
  let ?t = "strategy_tokens example_route_env (example_req 2)"
  have t: "fst ?t = 1000" by (simp add: strategy_tokens_def router_estimate_tokens_def example_req_def)
  have e: "est (\<lambda>i. r_endpoints ex_two ! i) ?t 0 = 5" "est (\<lambda>i. r_endpoints ex_two ! i) ?t 1 = 1"
    by (simp_all add: est_def router_estimate_cost_def t ex_two_def example_ctx_def priced_def)
  have w: "\<not> within_caps (example_req 2) (\<lambda>i. r_endpoints ex_two ! i) ?t 0"
    "within_caps (example_req 2) (\<lambda>i. r_endpoints ex_two ! i) ?t 1"
    using e by (simp_all add: within_caps_def est_def) (simp_all add: example_req_def)
  have m: "strncpy_term example_route_env 64 (ep_model_name (r_endpoints ex_two ! 1)) = ''cheap''"
    by (simp add: example_route_env_def example_fo_def fo_env.defs route_env.defs ex_two_def example_ctx_def priced_def)
  from cost_rule_cheapest [where env = example_route_env and now = 0 and c = ex_two and rq = "example_req 2"
      and ?r0.0 = zero_result] w
  obtain r i where "route_cost_aware example_route_env 0 ex_two (example_req 2) zero_result = Some r" "i \<in> {0, 1}"
    "describes example_route_env ex_two (example_req 2) r i" "within_caps (example_req 2) (\<lambda>i. r_endpoints ex_two ! i) ?t i"
    by (auto simp: ex_two_eligible split: option.splits)
  with w m show ?thesis by (auto simp: describes_def)
qed

text \<open>
  The cost rule's alternative ignores the caps. With a budget of 2 and two endpoints at 5 and
  1, the rule chooses the cheap endpoint and names the one it has just rejected as too expensive
  as the fallback: the index it starts from.
\<close>

theorem cost_fallback_over_budget:
  "\<exists>r. route_cost_aware example_route_env 0 ex_two (example_req 2) zero_result = Some r \<and>
     res_model_name r = ''cheap'' \<and> res_fallback_model r = ''dear'' \<and>
     \<not> within_caps (example_req 2) (\<lambda>i. r_endpoints ex_two ! i) (strategy_tokens example_route_env (example_req 2)) 0 \<and>
     ep_model_name (r_endpoints ex_two ! 0) = ''dear''"
proof -
  let ?t = "strategy_tokens example_route_env (example_req 2)"
  have t: "fst ?t = 1000" by (simp add: strategy_tokens_def router_estimate_tokens_def example_req_def)
  have c: "router_estimate_cost (r_endpoints ex_two ! 0) (fst ?t) (snd ?t) = 5"
    "router_estimate_cost (r_endpoints ex_two ! Suc 0) (fst ?t) (snd ?t) = 1"
    by (simp_all add: router_estimate_cost_def t ex_two_def example_ctx_def priced_def)
  have s: "cost_scan (example_req 2) (\<lambda>i. r_endpoints ex_two ! ([0, 1] ! i)) ?t 2 = (1, 0, Some 1)"
    by (simp add: cost_scan_def cost_step_def numeral_2_eq_2 c Let_def) (simp add: example_req_def)
  have "\<not> within_caps (example_req 2) (\<lambda>i. r_endpoints ex_two ! i) ?t 0"
    by (simp add: within_caps_def c) (simp add: example_req_def)
  moreover have "route_cost_aware example_route_env 0 ex_two (example_req 2) zero_result =
      Some (strategy_finish example_route_env ex_two zero_result 1 (Some 0) LLM_ROUTE_COST 90 ?t)"
    using s by (simp add: route_cost_aware_def ex_two_eligible Let_def numeral_2_eq_2)
  ultimately show ?thesis
    by (simp add: strategy_finish_def router_fill_result_def router_set_fallback_def example_route_env_def
        example_fo_def fo_env.defs route_env.defs ex_two_def example_ctx_def priced_def Let_def)
qed

section \<open>Measurement\<close>

lemma unat_ewma:
  assumes "unat l < 2 ^ 32"
  shows "unat (ewma a l) = (4 * unat a + unat l + 2) div 5"
proof -
  have a: "unat a < 2 ^ 32" using unsigned_less [of a] by simp
  have u: "unat (ucast a :: 64 word) = unat a" using a by (simp add: unsigned_ucast_eq take_bit_nat_eq_self_iff)
  have m: "unat (ucast a * 4 :: 64 word) = 4 * unat a"
    using iffD1 [OF unat_mult_lem, of "ucast a :: 64 word" 4] a by (simp add: u)
  have p: "unat (ucast a * 4 + l :: 64 word) = 4 * unat a + unat l"
    using iffD1 [OF unat_add_lem, of "ucast a * 4 :: 64 word" l] a assms by (simp add: m)
  have "unat (ucast a * 4 + l + 2 :: 64 word) = 4 * unat a + unat l + 2"
    using iffD1 [OF unat_add_lem, of "ucast a * 4 + l :: 64 word" 2] a assms by (simp add: p)
  then have "unat ((ucast a * 4 + l + 2) div (5 :: 64 word)) = (4 * unat a + unat l + 2) div 5"
    by (simp add: unat_div_distrib)
  then show ?thesis using a assms by (simp add: ewma_def unsigned_ucast_eq take_bit_nat_eq_self_iff)
qed

text \<open>
  The latency average. For a measured latency below \<open>2 ^ 32\<close> ms the stored average becomes the
  rounded fifth of four times the old average plus the sample, without wrapping at 32 or 64 bits,
  and it lies between the two; the endpoint's other fields, and with them its breaker, and every
  other endpoint keep their values.
\<close>

theorem meas_latency_average:
  assumes "r_initialized c" and "router_ep_find (r_endpoints c) k = Some i" and "unat l < 2 ^ 32"
  shows "\<exists>a. r_endpoints (fst (llm_rtr_meas c (Some k) m l)) =
             (r_endpoints c)[i := (r_endpoints c ! i)\<lparr>ep_avg_latency_ms := a\<rparr>] \<and>
           unat a = (4 * unat (ep_avg_latency_ms (r_endpoints c ! i)) + unat l + 2) div 5 \<and>
           min (unat (ep_avg_latency_ms (r_endpoints c ! i))) (unat l) \<le> unat a \<and>
           unat a \<le> max (unat (ep_avg_latency_ms (r_endpoints c ! i))) (unat l)"
proof -
  let ?a = "ewma (ep_avg_latency_ms (r_endpoints c ! i)) l"
  have e: "r_endpoints (fst (llm_rtr_meas c (Some k) m l)) =
      (r_endpoints c)[i := (r_endpoints c ! i)\<lparr>ep_avg_latency_ms := ?a\<rparr>]"
    using assms(1,2) by (simp add: llm_rtr_meas_def meas_latency_def Let_def)
  show ?thesis
    by (rule exI [of _ ?a]) (simp only: e unat_ewma [OF assms(3)], auto simp: min_def max_def)
qed

theorem meas_latency_average_witness:
  "\<exists>a. r_endpoints (fst (llm_rtr_meas ex_two (Some (ep_provider_name (priced ''cheap'' 1 3 0), ''cheap''))
          \<lparr>rm_prompt_tokens = 0, rm_cached_tokens = 0, rm_prefill_tokens = 0, rm_decode_tokens = 0,
           rm_kv_cache_tokens = 0, rm_prefill_ms = 0, rm_decode_ms = 0\<rparr> 13)) =
        (r_endpoints ex_two)[1 := (r_endpoints ex_two ! 1)\<lparr>ep_avg_latency_ms := a\<rparr>] \<and> unat a = 5"
proof -
  have f: "router_ep_find (r_endpoints ex_two) (ep_provider_name (priced ''cheap'' 1 3 0), ''cheap'') = Some 1"
    by code_simp
  have v: "ep_avg_latency_ms (r_endpoints ex_two ! 1) = 3" by (simp add: ex_two_def example_ctx_def priced_def)
  have i: "r_initialized ex_two" by (simp add: ex_two_def example_ctx_def)
  have l: "unat (13 :: 64 word) < 2 ^ 32" by simp
  have n: "(4 * unat (3 :: 32 word) + unat (13 :: 64 word) + 2) div 5 = 5" by simp
  show ?thesis using meas_latency_average [OF i f l] unfolding v n by blast
qed

end
