(* ===== verification/Llm_Chain_Spec.thy ===== *)
theory Llm_Chain_Spec
  imports Llm_Chain Llm_Router_Spec
begin

text \<open>
  What the failover chain of llm_d promises: how many calls it makes, which error it reports,
  that a stream is never restarted, that seats are returned, and when a provider is called
  twice.
\<close>

section \<open>What one round does\<close>

lemma mark_frame [simp]:
  "ch_cfg (svc_chain_mark env ch p m) = ch_cfg ch" "ch_hops (svc_chain_mark env ch p m) = ch_hops ch"
  "ch_first_err (svc_chain_mark env ch p m) = ch_first_err ch"
  by (simp_all add: svc_chain_mark_def)

lemma acquire_frame:
  "svc_gate_acquire p i model w = (w', r) \<Longrightarrow> cw_log w' = cw_log w \<and> cw_router w' = cw_router w"
  by (auto simp: svc_gate_acquire_def Let_def split: if_splits)

lemma chain_gate_frame:
  assumes "chain_gate env p i model am now ch w = (ch1, w1, g)"
  shows "ch_cfg ch1 = ch_cfg ch" "ch_hops ch1 = ch_hops ch" "ch_first_err ch1 = ch_first_err ch"
    "cw_log w1 = cw_log w" "ch_tried ch1 = (if am then ch_tried (svc_chain_mark env ch (pv_name p) model) else ch_tried ch)"
    "g = Gate_Next \<Longrightarrow> am" "g = Gate_Busy \<Longrightarrow> \<not> am"
  using assms
  by (auto simp: chain_gate_def Let_def dest!: acquire_frame split: if_splits prod.splits option.splits bool.splits)

lemma attempt_run_frame:
  assumes "attempt_run env rv k p i model gated w = (w1, ret)"
  shows "ret = fst (rv_attempt rv (length (cw_log w)))" "cw_log w1 = cw_log w @ [(i, model)]"
  using assms by (auto simp: attempt_run_def svc_gate_release_def Let_def split: prod.splits if_splits)

lemma retry_frame:
  assumes "svc_chain_retry env ch e now = (ch1, go)"
  shows "ch_cfg ch1 = ch_cfg ch" "ch_hops ch1 = ch_hops ch" "ch_tried ch1 = ch_tried ch"
    "ch_first_err ch1 = (if ch_first_err ch = 0 then e else ch_first_err ch)"
    "go \<Longrightarrow> ch_hops ch < rc_depth (ch_cfg ch)"
  using assms by (auto simp: svc_chain_retry_def Let_def split: if_splits)

lemma chain_try_eq:
  assumes "step_build env svc q (sv_registry svc ! i) cm = (md, mx)"
    and "chain_gate env (sv_registry svc ! i) i md (svc_chain_auto ch) (rv_now32 rv k) ch w = (c2, w2, g)"
  shows "chain_try env rv svc q k i cm ch w =
    (case g of
       Gate_Next \<Rightarrow> (c2, w2, (md, mx), CHAIN_NEXT)
     | Gate_Busy \<Rightarrow> (c2, w2, (md, mx), CHAIN_ERR (err_busy env))
     | Gate_Pass b \<Rightarrow>
         let (w3, ret) = attempt_run env rv k (sv_registry svc ! i) i md b w2;
             (c4, go) = svc_chain_retry env c2 ret (rv_now64 rv k)
         in if ret = 0 then (c2, w3, (md, mx), CHAIN_OK)
            else if \<not> svc_chain_auto ch then (c2, w3, (md, mx), CHAIN_ERR ret)
            else (c4, w3, (md, mx), if go \<and> \<not> rv_sent rv (length (cw_log w3)) then CHAIN_NEXT else CHAIN_STOP))"
  unfolding chain_try_def Let_def assms(1) prod.case assms(2)
  by (cases g) (simp_all split: prod.split bool.split)

text \<open>The two ways a round can go: no call, or one call with its return code.\<close>

lemma chain_try_cases:
  assumes "chain_try env rv svc q k i cm ch w = (ch1, w1, (model, mt), r)"
  obtains
    (gated) "cw_log w1 = cw_log w" "ch_first_err ch1 = ch_first_err ch" "ch_cfg ch1 = ch_cfg ch" "ch_hops ch1 = ch_hops ch"
      "r = (if svc_chain_auto ch then CHAIN_NEXT else CHAIN_ERR (err_busy env))"
  | (called) "cw_log w1 = cw_log w @ [(i, model)]" "ch_cfg ch1 = ch_cfg ch" "ch_hops ch1 = ch_hops ch"
      "r = CHAIN_OK \<longleftrightarrow> fst (rv_attempt rv (length (cw_log w))) = 0"
      "\<not> svc_chain_auto ch \<Longrightarrow> r \<noteq> CHAIN_OK \<Longrightarrow> r = CHAIN_ERR (fst (rv_attempt rv (length (cw_log w))))"
      "svc_chain_auto ch \<Longrightarrow> r \<noteq> CHAIN_OK \<Longrightarrow> r \<in> {CHAIN_NEXT, CHAIN_STOP} \<and>
         ch_first_err ch1 = (if ch_first_err ch = 0 then fst (rv_attempt rv (length (cw_log w))) else ch_first_err ch)"
      "r = CHAIN_NEXT \<Longrightarrow> ch_hops ch < rc_depth (ch_cfg ch) \<and> \<not> rv_sent rv (Suc (length (cw_log w)))"
proof -
  let ?p = "sv_registry svc ! i"
  obtain md mx where sb: "step_build env svc q ?p cm = (md, mx)" by fastforce
  obtain c2 w2 g where g: "chain_gate env ?p i md (svc_chain_auto ch) (rv_now32 rv k) ch w = (c2, w2, g)"
    by (metis prod_cases3)
  note gf = chain_gate_frame [OF g] and eq = assms [unfolded chain_try_eq [OF sb g]]
  show thesis
  proof (cases g)
    case (Gate_Pass b)
    obtain w3 ret where a: "attempt_run env rv k ?p i md b w2 = (w3, ret)" by fastforce
    note af = attempt_run_frame [OF a]
    obtain c4 go where rt: "svc_chain_retry env c2 ret (rv_now64 rv k) = (c4, go)" by fastforce
    note rf = retry_frame [OF rt]
    have e: "(if ret = 0 then (c2, w3, (md, mx), CHAIN_OK)
        else if \<not> svc_chain_auto ch then (c2, w3, (md, mx), CHAIN_ERR ret)
        else (c4, w3, (md, mx), if go \<and> \<not> rv_sent rv (length (cw_log w3)) then CHAIN_NEXT else CHAIN_STOP)) =
        (ch1, w1, (model, mt), r)"
      using eq by (simp add: Gate_Pass a rt)
    show thesis
    proof (rule called)
      show "cw_log w1 = cw_log w @ [(i, model)]" using e af gf by (auto split: if_splits)
      show "ch_cfg ch1 = ch_cfg ch" "ch_hops ch1 = ch_hops ch" using e gf rf by (auto split: if_splits)
      show "r = CHAIN_OK \<longleftrightarrow> fst (rv_attempt rv (length (cw_log w))) = 0"
        using e af gf by (auto split: if_splits)
      show "r = CHAIN_ERR (fst (rv_attempt rv (length (cw_log w))))" if "\<not> svc_chain_auto ch" "r \<noteq> CHAIN_OK"
        using e af gf that by (auto split: if_splits)
      show "r \<in> {CHAIN_NEXT, CHAIN_STOP} \<and>
         ch_first_err ch1 = (if ch_first_err ch = 0 then fst (rv_attempt rv (length (cw_log w))) else ch_first_err ch)"
        if "svc_chain_auto ch" "r \<noteq> CHAIN_OK"
        using e af gf rf that by (auto split: if_splits)
      show "ch_hops ch < rc_depth (ch_cfg ch) \<and> \<not> rv_sent rv (Suc (length (cw_log w)))" if "r = CHAIN_NEXT"
        using e af gf rf that by (auto split: if_splits)
    qed
  next
    case Gate_Next
    with eq gf show thesis by (intro gated) auto
  next
    case Gate_Busy
    with eq gf show thesis by (intro gated) auto
  qed
qed

lemma next_cand_frame:
  "next_cand env ch rs = Some (ch', p, m) \<Longrightarrow>
     ch_cfg ch' = ch_cfg ch \<and> ch_hops ch' = ch_hops ch + 1 \<and> ch_first_err ch' = ch_first_err ch"
  by (induction rs) (auto split: if_splits)

lemma next_frame:
  "svc_chain_next env now c rq ch = Some (ch', p, m) \<Longrightarrow>
     ch_cfg ch' = ch_cfg ch \<and> ch_hops ch' = ch_hops ch + 1 \<and> ch_first_err ch' = ch_first_err ch"
  by (auto simp: svc_chain_next_def dest: next_cand_frame split: if_splits sum.splits)

lemma next_prov_frame:
  "next_prov env now svc c rq ch = (ch', r) \<Longrightarrow>
     ch_cfg ch' = ch_cfg ch \<and> ch_hops ch + (if r = None then 0 else 1) \<le> ch_hops ch' \<and> ch_first_err ch' = ch_first_err ch"
proof (induction env now svc c rq ch rule: next_prov.induct)
  case (1 env now svc c rq ch)
  show ?case
  proof (cases "svc_chain_next env now c rq ch")
    case None
    with 1(2) show ?thesis by (auto simp: next_prov.simps [of env now svc c rq ch])
  next
    case (Some a)
    obtain c1 p m where a: "a = (c1, p, m)" by (cases a) auto
    note t = next_frame [OF Some [unfolded a]]
    show ?thesis
    proof (cases "provider_registry_find (sv_registry svc) m")
      case (Some j)
      with 1(2) \<open>svc_chain_next env now c rq ch = Some a\<close> a t show ?thesis
        by (auto simp: next_prov.simps [of env now svc c rq ch])
    next
      case None
      then have n: "next_prov env now svc c rq c1 = (ch', r)"
        using 1(2) Some a by (simp add: next_prov.simps [of env now svc c rq ch])
      from 1(1) [OF Some a [symmetric] refl None n] t show ?thesis by (auto split: if_splits)
    qed
  qed
qed

lemma next_prov_cap:
  "next_prov env now svc c rq ch = (ch', r) \<Longrightarrow> length (ch_tried ch) \<le> SVC_CHAIN_MAX_TRIED \<Longrightarrow>
     length (ch_tried ch') \<le> SVC_CHAIN_MAX_TRIED"
proof (induction env now svc c rq ch rule: next_prov.induct)
  case (1 env now svc c rq ch)
  show ?case
  proof (cases "svc_chain_next env now c rq ch")
    case None
    with 1(2,3) show ?thesis by (auto simp: next_prov.simps [of env now svc c rq ch])
  next
    case (Some a)
    obtain c1 p m where a: "a = (c1, p, m)" by (cases a) auto
    have t: "length (ch_tried c1) \<le> SVC_CHAIN_MAX_TRIED" using svc_chain_next_tried [OF Some [unfolded a]] by simp
    show ?thesis
    proof (cases "provider_registry_find (sv_registry svc) m")
      case (Some j)
      with 1(2) \<open>svc_chain_next env now c rq ch = Some a\<close> a t show ?thesis
        by (auto simp: next_prov.simps [of env now svc c rq ch])
    next
      case None
      then have n: "next_prov env now svc c rq c1 = (ch', r)"
        using 1(2) Some a by (simp add: next_prov.simps [of env now svc c rq ch])
      show ?thesis by (rule 1(1) [OF Some a [symmetric] refl None n t])
    qed
  qed
qed

lemma others_log [simp]: "cw_log (others rv k w) = cw_log w"
  by (simp add: others_def split: prod.split)

lemma auto_cong: "ch_cfg a = ch_cfg b \<Longrightarrow> svc_chain_auto a = svc_chain_auto b"
  by (simp add: svc_chain_auto_def)

text \<open>One unfolding of the loop, by the result of its round.\<close>

lemma chain_loop_unfold:
  assumes "chain_try env rv svc q k i cm ch w = (ch1, w1, (model, mt), r)"
    and "next_prov env (rv_now32 rv k) svc (cw_router (others rv k w1)) (cq_route q) ch1 = (ch2, nx)"
  shows "chain_loop env rv svc q k i cm ch w =
    (case r of
       CHAIN_OK \<Rightarrow> (w1, Chain_Ok i model mt)
     | CHAIN_ERR e \<Rightarrow> (w1, Chain_Err e)
     | CHAIN_STOP \<Rightarrow> (w1, Chain_Err (if ch_first_err ch1 \<noteq> 0 then ch_first_err ch1 else err_invalid_model env))
     | CHAIN_NEXT \<Rightarrow>
         (case nx of
            Some (i2, m2) \<Rightarrow> chain_loop env rv svc q (Suc k) i2 m2 ch2 (others rv k w1)
          | None \<Rightarrow> (others rv k w1, Chain_Err (if ch_first_err ch2 \<noteq> 0 then ch_first_err ch2 else err_invalid_model env))))"
  unfolding chain_loop.simps [of env rv svc q k i cm ch w] assms(1) prod.case Let_def assms(2)
  by (cases r) (simp_all split: option.split)

text \<open>
  The induction that every property of the loop uses: a relation between the state a round starts
  in and the final result holds if it holds at the exits and is passed on by a round that goes on.
\<close>

lemma chain_loop_rule:
  assumes exits: "\<And>k i cm ch w ch1 w1 model mt r ch2 nx.
      I k i cm ch w \<Longrightarrow> chain_try env rv svc q k i cm ch w = (ch1, w1, (model, mt), r) \<Longrightarrow>
      next_prov env (rv_now32 rv k) svc (cw_router (others rv k w1)) (cq_route q) ch1 = (ch2, nx) \<Longrightarrow>
      (r = CHAIN_OK \<longrightarrow> P w1 (Chain_Ok i model mt)) \<and> (\<forall>e. r = CHAIN_ERR e \<longrightarrow> P w1 (Chain_Err e)) \<and>
      (r = CHAIN_STOP \<longrightarrow> P w1 (Chain_Err (if ch_first_err ch1 \<noteq> 0 then ch_first_err ch1 else err_invalid_model env))) \<and>
      (r = CHAIN_NEXT \<longrightarrow> nx = None \<longrightarrow>
         P (others rv k w1) (Chain_Err (if ch_first_err ch2 \<noteq> 0 then ch_first_err ch2 else err_invalid_model env)))"
    and step: "\<And>k i cm ch w ch1 w1 model mt ch2 i2 m2.
      I k i cm ch w \<Longrightarrow> chain_try env rv svc q k i cm ch w = (ch1, w1, (model, mt), CHAIN_NEXT) \<Longrightarrow>
      next_prov env (rv_now32 rv k) svc (cw_router (others rv k w1)) (cq_route q) ch1 = (ch2, Some (i2, m2)) \<Longrightarrow>
      I (Suc k) i2 m2 ch2 (others rv k w1)"
    and "I k i cm ch w"
  shows "case chain_loop env rv svc q k i cm ch w of (w', res) \<Rightarrow> P w' res"
  using assms(3)
proof (induction "SVC_CHAIN_MAX_TRIED - length (ch_tried ch)" arbitrary: k i cm ch w rule: less_induct)
  case less
  obtain ch1 w1 model mt r where t: "chain_try env rv svc q k i cm ch w = (ch1, w1, (model, mt), r)"
    by (metis prod.exhaust)
  obtain ch2 nx where n: "next_prov env (rv_now32 rv k) svc (cw_router (others rv k w1)) (cq_route q) ch1 = (ch2, nx)"
    by fastforce
  note u = chain_loop_unfold [OF t n] and x = exits [OF less.prems t n]
  show ?case
  proof (cases r)
    case CHAIN_NEXT
    show ?thesis
    proof (cases nx)
      case None
      with u x CHAIN_NEXT show ?thesis by simp
    next
      case (Some a)
      obtain i2 m2 where a: "a = (i2, m2)" by (cases a)
      note n' = n [unfolded Some a] and t' = t [unfolded CHAIN_NEXT]
      have "case chain_loop env rv svc q (Suc k) i2 m2 ch2 (others rv k w1) of (w', res) \<Rightarrow> P w' res"
        by (rule less.hyps [OF chain_round_measure [OF t n'] step [OF less.prems t' n']])
      with u Some a CHAIN_NEXT show ?thesis by simp
    qed
  qed (insert u x, simp_all)
qed

section \<open>How many calls, and what is reported\<close>

text \<open>
  C19. The calls of a chain. In auto mode a request makes at most one call more than the configured
  number of hops and never more than nine, whatever the endpoints answer and whatever other
  requests do to the router in between; the loop always ends.
\<close>

theorem chain_calls_bounded:
  assumes "rc_mode (sv_route svc) = SVC_CHAIN_AUTO"
  shows "int (length (cw_log (fst (svc_chain_run env rv svc q first s)))) \<le> 1 + min 8 (max 0 (rc_depth (sv_route svc)))"
proof -
  let ?I = "\<lambda>k i cm ch w. svc_chain_auto ch \<and> ch_cfg ch = sv_route svc \<and> int (length (cw_log w)) \<le> ch_hops ch \<and>
      int (length (cw_log w)) \<le> max 0 (rc_depth (sv_route svc)) \<and> length (cw_log w) \<le> length (ch_tried ch) \<and>
      length (ch_tried ch) \<le> SVC_CHAIN_MAX_TRIED"
  let ?P = "\<lambda>w res. int (length (cw_log w)) \<le> 1 + min 8 (max 0 (rc_depth (sv_route svc)))"
  have "case chain_loop env rv svc q 0 first [] (svc_chain_init env (Some (sv_route svc)) (rv_now64 rv 0))
       \<lparr>cw_router = fst s, cw_inflight = snd s, cw_log = []\<rparr> of (w', res) \<Rightarrow> ?P w' res"
  proof (rule chain_loop_rule [where I = ?I and P = ?P], goal_cases)
    case (1 k i cm ch w ch1 w1 model mt r ch2 nx)
    have "int (length (cw_log w1)) \<le> 1 + min 8 (max 0 (rc_depth (sv_route svc)))"
      using 1(1) by (cases rule: chain_try_cases [OF 1(2)]) (auto simp: SVC_CHAIN_MAX_TRIED_def)
    then show ?case by simp
  next
    case (2 k i cm ch w ch1 w1 model mt ch2 i2 m2)
    note nf = next_prov_frame [OF 2(3)] and nt = next_prov_tried [OF 2(3)]
    have tt: "length (ch_tried ch) \<le> length (ch_tried ch1)" using tried_try [of ch env rv svc q k i cm w] 2(2) by simp
    have cap: "length (ch_tried ch2) \<le> SVC_CHAIN_MAX_TRIED" by (rule next_prov_cap [OF 2(3)]) (insert nt, simp)
    show ?case using 2(1) nf nt tt cap
      by (cases rule: chain_try_cases [OF 2(2)]) (auto simp: svc_chain_auto_def)
  qed (insert assms, simp add: svc_chain_init_def svc_chain_auto_def)
  then show ?thesis by (simp add: svc_chain_run_def split: prod.splits)
qed

text \<open>
  C20. What a request reports. It succeeds with the endpoint of its last call, that call returned 0
  and all earlier ones failed; or it fails with the code of its first call. Without any call it
  reports an invalid model (auto) or that the endpoint is busy (off). In off mode there is at
  most one call and its code is passed on unchanged.
\<close>

theorem chain_outcome:
  "case svc_chain_run env rv svc q first s of (w, res) \<Rightarrow>
     (\<forall>j. Suc j < length (cw_log w) \<longrightarrow> fst (rv_attempt rv j) \<noteq> 0) \<and>
     (rc_mode (sv_route svc) \<noteq> SVC_CHAIN_AUTO \<longrightarrow> length (cw_log w) \<le> 1) \<and>
     (case res of
        Chain_Ok i model mt \<Rightarrow> cw_log w \<noteq> [] \<and> last (cw_log w) = (i, model) \<and> fst (rv_attempt rv (length (cw_log w) - 1)) = 0
      | Chain_Err e \<Rightarrow>
          if cw_log w = [] then e = (if rc_mode (sv_route svc) = SVC_CHAIN_AUTO then err_invalid_model env else err_busy env)
          else fst (rv_attempt rv (length (cw_log w) - 1)) \<noteq> 0 \<and> e = fst (rv_attempt rv 0))"
proof -
  let ?I = "\<lambda>k i cm ch w. ch_cfg ch = sv_route svc \<and> (\<forall>j<length (cw_log w). fst (rv_attempt rv j) \<noteq> 0) \<and>
      ch_first_err ch = (if cw_log w = [] then 0 else fst (rv_attempt rv 0)) \<and>
      (\<not> svc_chain_auto ch \<longrightarrow> cw_log w = [])"
  let ?P = "\<lambda>w res. (\<forall>j. Suc j < length (cw_log w) \<longrightarrow> fst (rv_attempt rv j) \<noteq> 0) \<and>
     (rc_mode (sv_route svc) \<noteq> SVC_CHAIN_AUTO \<longrightarrow> length (cw_log w) \<le> 1) \<and>
     (case res of
        Chain_Ok i model mt \<Rightarrow> cw_log w \<noteq> [] \<and> last (cw_log w) = (i, model) \<and> fst (rv_attempt rv (length (cw_log w) - 1)) = 0
      | Chain_Err e \<Rightarrow>
          if cw_log w = [] then e = (if rc_mode (sv_route svc) = SVC_CHAIN_AUTO then err_invalid_model env else err_busy env)
          else fst (rv_attempt rv (length (cw_log w) - 1)) \<noteq> 0 \<and> e = fst (rv_attempt rv 0))"
  have "case chain_loop env rv svc q 0 first [] (svc_chain_init env (Some (sv_route svc)) (rv_now64 rv 0))
       \<lparr>cw_router = fst s, cw_inflight = snd s, cw_log = []\<rparr> of (w', res) \<Rightarrow> ?P w' res"
  proof (rule chain_loop_rule [where I = ?I and P = ?P], goal_cases)
    case (1 k i cm ch w ch1 w1 model mt r ch2 nx)
    have m: "svc_chain_auto ch \<longleftrightarrow> rc_mode (sv_route svc) = SVC_CHAIN_AUTO" using 1(1) by (simp add: svc_chain_auto_def)
    have f: "ch_first_err ch2 = ch_first_err ch1" using next_prov_frame [OF 1(3)] by simp
    show ?case
    proof (cases rule: chain_try_cases [OF 1(2)])
      case 1
      then show ?thesis using \<open>?I k i cm ch w\<close> m f by auto
    next
      case 2
      show ?thesis using \<open>?I k i cm ch w\<close> m f 2(1,4,5,6)
        by (cases "svc_chain_auto ch"; cases "cw_log w = []") (auto simp: nth_append less_Suc_eq)
    qed
  next
    case (2 k i cm ch w ch1 w1 model mt ch2 i2 m2)
    note nf = next_prov_frame [OF 2(3)]
    show ?case
    proof (cases rule: chain_try_cases [OF 2(2)])
      case 1
      then show ?thesis using 2(1) nf by (auto simp: svc_chain_auto_def split: if_splits)
    next
      case 2
      then show ?thesis using \<open>?I k i cm ch w\<close> nf
        by (auto simp: svc_chain_auto_def less_Suc_eq split: if_splits)
    qed
  qed (simp add: svc_chain_init_def)
  then show ?thesis by (simp add: svc_chain_run_def)
qed

text \<open>
  A stream is never restarted. Once content has gone out after a call, no further call is made.
\<close>

theorem chain_stream_not_restarted:
  "0 < j \<and> j < length (cw_log (fst (svc_chain_run env rv svc q first s))) \<longrightarrow> \<not> rv_sent rv j"
proof -
  let ?I = "\<lambda>k i cm ch w. \<forall>j. 0 < j \<and> j \<le> length (cw_log w) \<longrightarrow> \<not> rv_sent rv j"
  let ?P = "\<lambda>w res. \<forall>j. 0 < j \<and> j < length (cw_log w) \<longrightarrow> \<not> rv_sent rv j"
  have "case chain_loop env rv svc q 0 first [] (svc_chain_init env (Some (sv_route svc)) (rv_now64 rv 0))
       \<lparr>cw_router = fst s, cw_inflight = snd s, cw_log = []\<rparr> of (w', res) \<Rightarrow> ?P w' res"
  proof (rule chain_loop_rule [where I = ?I and P = ?P], goal_cases)
    case (1 k i cm ch w ch1 w1 model mt r ch2 nx)
    have "?P w1 ()" using 1(1) by (cases rule: chain_try_cases [OF 1(2)]) auto
    then show ?case by simp
  next
    case (2 k i cm ch w ch1 w1 model mt ch2 i2 m2)
    then show ?case by (cases rule: chain_try_cases [OF 2(2)]) (auto simp: le_Suc_eq)
  qed simp
  then show ?thesis by (simp add: svc_chain_run_def split: prod.splits)
qed


section \<open>Seats\<close>

lemma chain_gate_seats:
  assumes "chain_gate env p i model am now ch w = (ch1, w1, g)"
  shows "cw_inflight w1 = (if g = Gate_Pass True then (cw_inflight w)(i := cw_inflight w i + 1) else cw_inflight w)"
    "g = Gate_Pass True \<Longrightarrow> cw_inflight w1 i \<le> svc_gate_limit p model"
  using assms by (auto simp: chain_gate_def svc_gate_acquire_def Let_def split: if_splits prod.splits)

lemma attempt_run_seats:
  assumes "attempt_run env rv k p i model gated w = (w1, ret)"
  shows "cw_inflight w1 = (if gated then (cw_inflight w)(i := cw_inflight w i - 1) else cw_inflight w)"
  using assms by (auto simp: attempt_run_def svc_gate_release_def Let_def split: prod.splits if_splits)

lemma chain_try_seats:
  assumes "chain_try env rv svc q k i cm ch w = (ch1, w1, x)"
  shows "cw_inflight w1 = cw_inflight w"
proof -
  let ?p = "sv_registry svc ! i"
  obtain md mx where sb: "step_build env svc q ?p cm = (md, mx)" by fastforce
  obtain c2 w2 g where g: "chain_gate env ?p i md (svc_chain_auto ch) (rv_now32 rv k) ch w = (c2, w2, g)"
    by (metis prod_cases3)
  note gs = chain_gate_seats(1) [OF g] and eq = assms [unfolded chain_try_eq [OF sb g]]
  show ?thesis
  proof (cases g)
    case (Gate_Pass b)
    obtain w3 ret where a: "attempt_run env rv k ?p i md b w2 = (w3, ret)" by fastforce
    show ?thesis using eq gs attempt_run_seats [OF a] by (auto simp: Gate_Pass a split: if_splits prod.splits)
  qed (insert eq gs, simp_all)
qed

text \<open>
  Seats are returned. A request takes a seat of a local endpoint only below the endpoint's
  limit, and on every exit, success, failure, refusal or stop, it has given back every seat it
  took: if the other requests leave the counters alone, they end as they began.
\<close>

theorem chain_seats_returned:
  assumes "\<And>k c f. snd (rv_others rv k (c, f)) = f"
  shows "cw_inflight (fst (svc_chain_run env rv svc q first s)) = snd s"
proof -
  let ?I = "\<lambda>k i cm ch w. cw_inflight w = snd s"
  have o: "cw_inflight (others rv k w) = cw_inflight w" for k w
    using assms [of k "cw_router w" "cw_inflight w"] by (auto simp: others_def split: prod.split)
  have "case chain_loop env rv svc q 0 first [] (svc_chain_init env (Some (sv_route svc)) (rv_now64 rv 0))
       \<lparr>cw_router = fst s, cw_inflight = snd s, cw_log = []\<rparr> of (w', res) \<Rightarrow> cw_inflight w' = snd s"
    by (rule chain_loop_rule [where I = ?I and P = "\<lambda>w res. cw_inflight w = snd s"])
      (auto simp: o dest: chain_try_seats)
  then show ?thesis by (simp add: svc_chain_run_def split: prod.splits)
qed

section \<open>A run\<close>

text \<open>
  Two providers with one model each. The first call times out, the second succeeds.
\<close>

definition example_chain_env :: chain_env where
  "example_chain_env = \<lparr>err_llm_auth_fail = - 401, err_llm_rate_limit = - 429, err_io = - 5,
     err_is_transport = (\<lambda>e. e = - 110), strncpy_term = (\<lambda>n s. take (n - 1) s),
     token_count = (\<lambda>p. Some (length p div 4)), qsort = (\<lambda>cmp xs. foldr (insert_by cmp) xs []),
     fo_on_default = 7, err_busy = - 16, err_invalid_model = - 2001\<rparr>"

definition example_provider :: "string \<Rightarrow> string \<Rightarrow> provider" where
  "example_provider n m = \<lparr>pv_name = n, pv_models = Some [m], pv_max_output = None, pv_max_concurrent = None,
     pv_props_state = 0, pv_total_slots = 0\<rparr>"

definition example_svc :: "int \<Rightarrow> llm_svc" where
  "example_svc mode = \<lparr>sv_registry = [example_provider ''p'' ''dear'', example_provider ''q'' ''cheap''],
     sv_default_model = ''dear'', sv_default_max_output = 0,
     sv_route = \<lparr>rc_mode = mode, rc_depth = 2, rc_on_mask = 7, rc_budget_ms = 0\<rparr>\<rparr>"

definition example_chain_ctx :: route_ctx where
  "example_chain_ctx = example_ctx [(priced ''dear'' 5 9 1)\<lparr>ep_provider_name := ''p''\<rparr>, (priced ''cheap'' 1 3 0)\<lparr>ep_provider_name := ''q''\<rparr>]"

definition example_meas :: resp_meas where
  "example_meas = \<lparr>rm_prompt_tokens = 0, rm_cached_tokens = 0, rm_prefill_tokens = 0, rm_decode_tokens = 0,
           rm_kv_cache_tokens = 0, rm_prefill_ms = 0, rm_decode_ms = 0\<rparr>"

definition example_run :: "(nat \<Rightarrow> int) \<Rightarrow> run_env" where
  "example_run rets = \<lparr>rv_now32 = (\<lambda>_. 0), rv_now64 = (\<lambda>_. 0), rv_attempt = (\<lambda>k. (rets k, example_meas, 7)),
     rv_sent = (\<lambda>_. False), rv_others = (\<lambda>_ s. s)\<rparr>"

definition example_creq :: chain_req where
  "example_creq = \<lparr>cq_model = [], cq_max_tokens = 0, cq_route = (example_req 0)\<lparr>rr_prompt_len := 0\<rparr>\<rparr>"

lemma example_run_value:
  "(case svc_chain_run example_chain_env (example_run (\<lambda>k. if k = 0 then - 110 else 0)) (example_svc 1) example_creq 0
      (example_chain_ctx, \<lambda>_. 0) of (w, r) \<Rightarrow> (cw_log w, r)) =
   ([(0, ''dear''), (1, ''cheap'')], Chain_Ok 1 ''cheap'' 0)"
  by code_simp

theorem chain_calls_bounded_witness:
  "rc_mode (sv_route (example_svc 1)) = SVC_CHAIN_AUTO \<and>
   length (cw_log (fst (svc_chain_run example_chain_env (example_run (\<lambda>_. - 110)) (example_svc 1) example_creq 0
      (example_chain_ctx, \<lambda>_. 0)))) \<le> 3"
proof -
  have m: "rc_mode (sv_route (example_svc 1)) = SVC_CHAIN_AUTO" "rc_depth (sv_route (example_svc 1)) = 2"
    by (simp_all add: example_svc_def SVC_CHAIN_AUTO_def)
  show ?thesis
    using chain_calls_bounded [OF m(1), of example_chain_env "example_run (\<lambda>_. - 110)" example_creq 0 "(example_chain_ctx, \<lambda>_. 0)"]
    by (simp add: m)
qed

theorem chain_outcome_witness:
  "rc_mode (sv_route (example_svc 0)) \<noteq> SVC_CHAIN_AUTO \<and>
   length (cw_log (fst (svc_chain_run example_chain_env (example_run (\<lambda>_. - 110)) (example_svc 0) example_creq 0
      (example_chain_ctx, \<lambda>_. 0)))) \<le> 1"
proof -
  have m: "rc_mode (sv_route (example_svc 0)) \<noteq> SVC_CHAIN_AUTO" by (simp add: example_svc_def SVC_CHAIN_AUTO_def)
  show ?thesis
    using m chain_outcome [where env = example_chain_env and rv = "example_run (\<lambda>_. - 110)" and svc = "example_svc 0" and q = example_creq
      and first = 0 and s = "(example_chain_ctx, \<lambda>_. 0)"]
    by (simp split: prod.splits)
qed

theorem chain_stream_not_restarted_witness:
  "\<not> rv_sent (example_run (\<lambda>k. if k = 0 then - 110 else 0)) 1 \<and>
   1 < length (cw_log (fst (svc_chain_run example_chain_env (example_run (\<lambda>k. if k = 0 then - 110 else 0)) (example_svc 1) example_creq 0
      (example_chain_ctx, \<lambda>_. 0))))"
proof -
  have "1 < length (cw_log (fst (svc_chain_run example_chain_env (example_run (\<lambda>k. if k = 0 then - 110 else 0)) (example_svc 1)
      example_creq 0 (example_chain_ctx, \<lambda>_. 0))))"
    using example_run_value by (simp split: prod.splits)
  with chain_stream_not_restarted [of 1 example_chain_env "example_run (\<lambda>k. if k = 0 then - 110 else 0)" "example_svc 1"
      example_creq 0 "(example_chain_ctx, \<lambda>_. 0)"]
  show ?thesis by simp
qed

text \<open>A local endpoint with two seats, one of them taken.\<close>

definition local_svc :: llm_svc where
  "local_svc = (example_svc 1)\<lparr>sv_registry := [(example_provider ''p'' ''dear'')\<lparr>pv_max_concurrent := Some [2],
     pv_props_state := 1, pv_total_slots := 4\<rparr>]\<rparr>"

theorem chain_seats_returned_witness:
  "cw_inflight (fst (svc_chain_run example_chain_env (example_run (\<lambda>_. - 110)) local_svc example_creq 0
      (example_chain_ctx, \<lambda>i. 1))) = (\<lambda>i. 1) \<and> svc_gate_limit (sv_registry local_svc ! 0) ''dear'' = 2"
proof -
  have "snd (rv_others (example_run (\<lambda>_. - 110)) k (c, f)) = f" for k c f by (simp add: example_run_def)
  from chain_seats_returned [of "example_run (\<lambda>_. - 110)", OF this, of example_chain_env local_svc example_creq 0
      "(example_chain_ctx, \<lambda>i. 1)"]
  show ?thesis
    by (simp add: svc_gate_limit_def prov_max_conc_def model_value_def local_svc_def example_svc_def example_provider_def)
qed

section \<open>Two providers, one model\<close>

text \<open>
  A candidate is an endpoint, a provider with a model, and the set of tried endpoints is keyed by
  both. \<open>next_prov\<close> resolves the candidate by its model alone, to the first provider that offers
  it: with two providers for one model the chain calls the first one twice and never the second.
\<close>

definition twin_svc :: llm_svc where
  "twin_svc = (example_svc 1)\<lparr>sv_registry := [example_provider ''p'' ''dear'', example_provider ''q'' ''dear'']\<rparr>"

definition twin_ctx :: route_ctx where
  "twin_ctx = example_ctx [(priced ''dear'' 5 9 1)\<lparr>ep_provider_name := ''p''\<rparr>, (priced ''dear'' 1 3 0)\<lparr>ep_provider_name := ''q''\<rparr>]"

theorem chain_repeats_provider:
  "(case svc_chain_run example_chain_env (example_run (\<lambda>_. - 110)) twin_svc example_creq 0 (twin_ctx, \<lambda>_. 0) of
      (w, r) \<Rightarrow> (cw_log w, r)) = ([(0, ''dear''), (0, ''dear'')], Chain_Err (- 110))"
  by code_simp

text \<open>
  The model of a routed request. For a request without a model the router chooses the endpoint
  \<open>q/cheap\<close>; the first call goes to provider \<open>q\<close> with the default model \<open>dear\<close>, which \<open>q\<close> does
  not offer: the routed model is used to find the provider and then dropped.
\<close>

definition cheap_ctx :: route_ctx where
  "cheap_ctx = example_ctx [(priced ''cheap'' 1 3 0)\<lparr>ep_provider_name := ''q''\<rparr>]"

theorem routed_model_dropped:
  "(case pick_provider example_chain_env 0 (example_svc 1) cheap_ctx example_creq of
      (c, Some i) \<Rightarrow> (i, cw_log (fst (svc_chain_run example_chain_env (example_run (\<lambda>_. 0)) (example_svc 1) example_creq i (c, \<lambda>_. 0)))))
   = (1, [(1, ''dear'')]) \<and> \<not> has_model ''dear'' (sv_registry (example_svc 1) ! 1)"
  by code_simp

end
