(* ===== verification/Llm_Retry.thy ===== *)
theory Llm_Retry
  imports Complex_Main Airy_Prelude "HOL-Library.Multiset"
begin

text \<open>
  llm_d, transport of the providers, first half: the latency statistics and the automatic time
  budget (\<open>providers/core/prov_stat.c\<close>) and the retry loop both transports share
  (\<open>providers/core/retry.c\<close>).

  Seconds are exact rationals where the code has \<open>double\<close>. The clock and the random generator
  are parameters of a run. The loop is generic in the user data of its hooks, as the code is.
\<close>

section \<open>libcurl results and kinds of timeouts\<close>

datatype curl_code =
  CURLE_OK | CURLE_COULDNT_RESOLVE_PROXY | CURLE_COULDNT_RESOLVE_HOST | CURLE_COULDNT_CONNECT
| CURLE_OPERATION_TIMEDOUT | CURLE_SSL_CONNECT_ERROR | CURLE_GOT_NOTHING | CURLE_SEND_ERROR
| CURLE_PARTIAL_FILE | CURLE_RECV_ERROR | CURLE_WRITE_ERROR | CURLE_PEER_FAILED_VERIFICATION
| CURLE_SSL_CERTPROBLEM | CURLE_SSL_CIPHER | CURLE_SSL_CACERT_BADFILE | CURLE_PROXY | CURLE_OTHER nat

datatype prov_tmo = PROV_TMO_CONNECT | PROV_TMO_STALL | PROV_TMO_TOTAL | PROV_TMO_KIND_N

section \<open>Statistics\<close>

definition PROV_STAT_SLOTS :: nat where "PROV_STAT_SLOTS = 64"
definition PROV_STAT_GROUPS :: nat where "PROV_STAT_GROUPS = 8"
definition PROV_NAME_MAX :: nat where "PROV_NAME_MAX = 64"
definition PROV_TMO_FLOOR_SEC :: rat where "PROV_TMO_FLOOR_SEC = 120"
definition PROV_TMO_CAP_SEC :: rat where "PROV_TMO_CAP_SEC = 180"
definition PROV_TMO_SCALE :: rat where "PROV_TMO_SCALE = 3 / 2"

record prov_lat =
  pl_name :: string
  pl_samples :: "32 word list"
  pl_head :: nat
  pl_count :: nat

record prov_stats =
  ps_tmo :: "prov_tmo \<Rightarrow> 64 word"
  ps_lat :: "prov_lat list"

definition lat_match :: "string \<Rightarrow> prov_lat \<Rightarrow> bool" where
  "lat_match provider l \<longleftrightarrow> pl_name l \<noteq> [] \<and> take (PROV_NAME_MAX - 1) (pl_name l) = take (PROV_NAME_MAX - 1) provider"

text \<open>The slot of a provider; with \<open>create\<close> the first free slot is taken for it.\<close>

definition lat_slot :: "string \<Rightarrow> bool \<Rightarrow> prov_lat list \<Rightarrow> prov_lat list \<times> nat option" where
  "lat_slot provider create ls =
     (case find_index (lat_match provider) ls of
        Some i \<Rightarrow> (ls, Some i)
      | None \<Rightarrow>
          (case find_index (\<lambda>l. pl_name l = []) ls of
             Some i \<Rightarrow> if create
               then (ls[i := (ls ! i)\<lparr>pl_name := take (PROV_NAME_MAX - 1) provider, pl_head := 0, pl_count := 0\<rparr>], Some i)
               else (ls, None)
           | None \<Rightarrow> (ls, None)))"

definition prov_stat_hit :: "prov_tmo \<Rightarrow> prov_stats \<Rightarrow> prov_stats" where
  "prov_stat_hit kind s = (if kind = PROV_TMO_KIND_N then s else s\<lparr>ps_tmo := (ps_tmo s)(kind := ps_tmo s kind + 1)\<rparr>)"

definition prov_stat_get :: "prov_tmo \<Rightarrow> prov_stats \<Rightarrow> 64 word" where
  "prov_stat_get kind s = (if kind = PROV_TMO_KIND_N then 0 else ps_tmo s kind)"

definition lat_push :: "32 word \<Rightarrow> prov_lat \<Rightarrow> prov_lat" where
  "lat_push ms l = l\<lparr>pl_samples := (pl_samples l)[pl_head l := ms], pl_head := (pl_head l + 1) mod PROV_STAT_SLOTS,
     pl_count := (if pl_count l < PROV_STAT_SLOTS then pl_count l + 1 else pl_count l)\<rparr>"

definition prov_stat_lat :: "string \<Rightarrow> 32 word \<Rightarrow> prov_stats \<Rightarrow> prov_stats" where
  "prov_stat_lat provider ms s =
     (if provider = [] then s
      else case lat_slot provider True (ps_lat s) of
             (ls, None) \<Rightarrow> s\<lparr>ps_lat := ls\<rparr>
           | (ls, Some i) \<Rightarrow> s\<lparr>ps_lat := ls[i := lat_push ms (ls ! i)]\<rparr>)"

text \<open>The insertion sort of \<open>prov_stat_p99\<close>, in place.\<close>

fun ins_shift :: "32 word list \<Rightarrow> 32 word \<Rightarrow> nat \<Rightarrow> 32 word list" where
  "ins_shift buf key 0 = buf[0 := key]"
| "ins_shift buf key (Suc j) =
     (if key < buf ! j then ins_shift (buf[Suc j := buf ! j]) key j else buf[Suc j := key])"

definition ins_sort :: "32 word list \<Rightarrow> 32 word list" where
  "ins_sort buf = foldl (\<lambda>b i. ins_shift b (b ! i) i) buf [1..<length buf]"

definition p99_idx :: "nat \<Rightarrow> nat" where
  "p99_idx n = (n * 99 + 99) div 100 - 1"

definition prov_stat_p99 :: "string \<Rightarrow> prov_stats \<Rightarrow> rat" where
  "prov_stat_p99 provider s =
     (if provider = [] then 0
      else case lat_slot provider False (ps_lat s) of
             (ls, None) \<Rightarrow> 0
           | (ls, Some i) \<Rightarrow>
               let buf = take (pl_count (ls ! i)) (pl_samples (ls ! i))
               in if buf = [] then 0 else of_nat (unat (ins_sort buf ! p99_idx (length buf))))"

definition prov_tmo_auto :: "string \<Rightarrow> prov_stats \<Rightarrow> rat" where
  "prov_tmo_auto provider s =
     (let p99 = prov_stat_p99 provider s
      in if p99 \<le> 0 then PROV_TMO_CAP_SEC
         else let scaled = p99 * PROV_TMO_SCALE
              in if PROV_TMO_FLOOR_SEC < scaled then scaled else PROV_TMO_FLOOR_SEC)"

definition prov_stat_reset :: "prov_stats \<Rightarrow> prov_stats" where
  "prov_stat_reset s = \<lparr>ps_tmo = (\<lambda>_. 0), ps_lat = map (\<lambda>l. l\<lparr>pl_name := [], pl_head := 0, pl_count := 0\<rparr>) (ps_lat s)\<rparr>"

section \<open>Retry decisions\<close>

datatype provider_retry_class = PROVIDER_RETRY_DEFAULT | PROVIDER_RETRY_CONNECT_ONLY

definition provider_retryable :: "curl_code \<Rightarrow> bool" where
  "provider_retryable code \<longleftrightarrow> code \<in> {CURLE_COULDNT_RESOLVE_PROXY, CURLE_COULDNT_RESOLVE_HOST, CURLE_COULDNT_CONNECT,
     CURLE_OPERATION_TIMEDOUT, CURLE_SSL_CONNECT_ERROR, CURLE_GOT_NOTHING, CURLE_SEND_ERROR, CURLE_PARTIAL_FILE,
     CURLE_RECV_ERROR}"

definition retry_in_class :: "curl_code \<Rightarrow> provider_retry_class \<Rightarrow> bool" where
  "retry_in_class code cls =
     (if cls \<noteq> PROVIDER_RETRY_CONNECT_ONLY then provider_retryable code
      else code \<in> {CURLE_COULDNT_RESOLVE_PROXY, CURLE_COULDNT_RESOLVE_HOST, CURLE_COULDNT_CONNECT})"

definition pre_send_fail :: "curl_code \<Rightarrow> bool" where
  "pre_send_fail code \<longleftrightarrow> code \<in> {CURLE_COULDNT_RESOLVE_PROXY, CURLE_COULDNT_RESOLVE_HOST, CURLE_COULDNT_CONNECT,
     CURLE_SSL_CONNECT_ERROR}"

definition retry_allowed :: "provider_retry_class \<Rightarrow> bool \<Rightarrow> curl_code \<Rightarrow> prov_tmo \<Rightarrow> bool" where
  "retry_allowed cls idempotent res tmo =
     (if res = CURLE_OPERATION_TIMEDOUT \<and> tmo = PROV_TMO_CONNECT then True
      else if \<not> retry_in_class res cls then False
      else if res = CURLE_OPERATION_TIMEDOUT then tmo \<noteq> PROV_TMO_TOTAL \<and> idempotent
      else pre_send_fail res \<or> idempotent)"

definition PROVIDER_RETRY_BASE_MS :: "32 word" where "PROVIDER_RETRY_BASE_MS = 200"
definition PROVIDER_RETRY_MAX_MS :: "32 word" where "PROVIDER_RETRY_MAX_MS = 2000"
definition PROVIDER_RETRY_JITTER_PCT :: "32 word" where "PROVIDER_RETRY_JITTER_PCT = 25"
definition PROVIDER_RETRY_MIN_LEFT_MS :: "32 word" where "PROVIDER_RETRY_MIN_LEFT_MS = 1000"
definition PROVIDER_RETRY_LOCAL_MS :: "32 word" where "PROVIDER_RETRY_LOCAL_MS = 500"

text \<open>The doubling loop: at most \<open>n\<close> rounds, none once the maximum is reached.\<close>

fun backoff_double :: "nat \<Rightarrow> 32 word \<Rightarrow> 32 word" where
  "backoff_double 0 b = b"
| "backoff_double (Suc n) b = (if b < PROVIDER_RETRY_MAX_MS then backoff_double n (push_bit 1 b) else b)"

definition backoff_base :: "nat \<Rightarrow> 32 word" where
  "backoff_base attempt =
     (let b = backoff_double attempt PROVIDER_RETRY_BASE_MS
      in if PROVIDER_RETRY_MAX_MS < b then PROVIDER_RETRY_MAX_MS else b)"

definition provider_backoff_ms :: "(32 word \<Rightarrow> 32 word \<Rightarrow> 32 word) \<Rightarrow> nat \<Rightarrow> 32 word" where
  "provider_backoff_ms rand attempt =
     (let b = backoff_base attempt; jitter = b * PROVIDER_RETRY_JITTER_PCT div 100
      in if jitter = 0 then b else b - jitter + rand 0 (jitter * 2))"

definition provider_left_sec :: "rat \<Rightarrow> 64 word \<Rightarrow> 64 word \<Rightarrow> rat" where
  "provider_left_sec timeout_sec start_ms now =
     (let spent = of_nat (unat (now - start_ms)) / 1000
      in if timeout_sec \<le> spent then 0 else timeout_sec - spent)"

definition provider_retry_budget_ok :: "rat \<Rightarrow> 64 word \<Rightarrow> 64 word \<Rightarrow> 32 word \<Rightarrow> bool" where
  "provider_retry_budget_ok timeout_sec start_ms now delay_ms \<longleftrightarrow>
     of_nat (unat delay_ms) + of_nat (unat PROVIDER_RETRY_MIN_LEFT_MS) \<le> provider_left_sec timeout_sec start_ms now * 1000"

section \<open>The loop\<close>

datatype provider_attempt = PROVIDER_TRY_FATAL | PROVIDER_TRY_FAILED | PROVIDER_TRY_DONE

type_synonym try_out = "curl_code \<times> int \<times> prov_tmo"

text \<open>The hooks get the old output values: an attempt may leave some of them unwritten.\<close>

record 'u provider_retry_cfg =
  rt_timeout_sec :: rat
  rt_max_retries :: int
  rt_class :: provider_retry_class
  rt_idempotent :: bool
  rt_attempt :: "'u \<Rightarrow> nat \<Rightarrow> rat \<Rightarrow> try_out \<Rightarrow> 'u \<times> provider_attempt \<times> try_out"
  rt_gate :: "('u \<Rightarrow> curl_code \<Rightarrow> int \<Rightarrow> bool) option"
  rt_reset :: "('u \<Rightarrow> 'u) option"

text \<open>Reading 0 of the clock is the start, \<open>2 r + 1\<close> and \<open>2 r + 2\<close> are the two of round \<open>r\<close>.\<close>

record retry_env =
  rt_now :: "nat \<Rightarrow> 64 word"
  rt_rand :: "nat \<Rightarrow> 32 word \<Rightarrow> 32 word \<Rightarrow> 32 word"

definition retry_delay :: "retry_env \<Rightarrow> 'u provider_retry_cfg \<Rightarrow> nat \<Rightarrow> 32 word" where
  "retry_delay env cfg retry =
     (if rt_class cfg = PROVIDER_RETRY_CONNECT_ONLY then PROVIDER_RETRY_LOCAL_MS
      else provider_backoff_ms (rt_rand env retry) retry)"

text \<open>\<open>None\<close>: the budget does not allow another attempt.\<close>

definition retry_wait :: "retry_env \<Rightarrow> 'u provider_retry_cfg \<Rightarrow> nat \<Rightarrow> 'u \<Rightarrow> 'u option" where
  "retry_wait env cfg retry u =
     (if provider_retry_budget_ok (rt_timeout_sec cfg) (rt_now env 0) (rt_now env (2 * retry + 2)) (retry_delay env cfg retry)
      then Some (case rt_reset cfg of None \<Rightarrow> u | Some f \<Rightarrow> f u) else None)"

definition gate_open :: "'u provider_retry_cfg \<Rightarrow> 'u \<Rightarrow> curl_code \<Rightarrow> int \<Rightarrow> bool" where
  "gate_open cfg u res code = (case rt_gate cfg of None \<Rightarrow> True | Some g \<Rightarrow> g u res code)"

text \<open>
  The result is \<open>None\<close> for a fatal attempt, else the outputs of the last one. The list of what the
  attempts returned is a ghost.
\<close>

function retry_loop ::
  "retry_env \<Rightarrow> 'u provider_retry_cfg \<Rightarrow> nat \<Rightarrow> nat \<Rightarrow> 'u \<Rightarrow> try_out \<Rightarrow> 'u \<times> try_out option \<times> (provider_attempt \<times> try_out) list" where
  "retry_loop env cfg max_retries retry u out =
     (if max_retries < retry then (u, Some out, [])
      else case rt_attempt cfg u retry (provider_left_sec (rt_timeout_sec cfg) (rt_now env 0) (rt_now env (2 * retry + 1)))
                  (fst out, fst (snd out), PROV_TMO_KIND_N) of
             (u, st, res, code, tmo) \<Rightarrow>
               (if st = PROVIDER_TRY_FATAL then (u, None, [(st, res, code, tmo)])
                else if st = PROVIDER_TRY_DONE then (u, Some (res, code, tmo), [(st, res, code, tmo)])
                else if max_retries \<le> retry \<or> \<not> retry_allowed (rt_class cfg) (rt_idempotent cfg) res tmo \<or>
                        \<not> gate_open cfg u res code
                then (u, Some (res, code, tmo), [(st, res, code, tmo)])
                else case retry_wait env cfg retry u of
                       None \<Rightarrow> (u, Some (res, code, tmo), [(st, res, code, tmo)])
                     | Some u \<Rightarrow>
                         (case retry_loop env cfg max_retries (Suc retry) u (res, code, tmo) of
                            (u, r, tr) \<Rightarrow> (u, r, (st, res, code, tmo) # tr))))"
  by pat_completeness auto
termination retry_loop
  by (relation "measure (\<lambda>(env, cfg, mx, retry, u, out). Suc mx - retry)") auto

declare retry_loop.simps [simp del]

definition provider_retry_run ::
  "retry_env \<Rightarrow> 'u provider_retry_cfg \<Rightarrow> 'u \<Rightarrow> 'u \<times> try_out option \<times> (provider_attempt \<times> try_out) list" where
  "provider_retry_run env cfg u =
     retry_loop env cfg (nat (if 0 < rt_max_retries cfg then rt_max_retries cfg else 0)) 0 u (CURLE_OK, 0, PROV_TMO_KIND_N)"

section \<open>The percentile\<close>

lemma ins_shift_sorts:
  "j < length buf \<Longrightarrow> sorted (take j buf) \<Longrightarrow>
     \<exists>p. ins_shift buf key j = p @ drop (Suc j) buf \<and> sorted p \<and> mset p = add_mset key (mset (take j buf))"
proof (induction j arbitrary: buf)
  case 0
  then show ?case by (intro exI [of _ "[key]"]) (cases buf, auto)
next
  case (Suc j)
  have t: "take (Suc j) buf = take j buf @ [buf ! j]" using Suc.prems(1) by (simp add: take_Suc_conv_app_nth)
  have d: "drop (Suc j) (buf[Suc j := x]) = x # drop (Suc (Suc j)) buf" for x
    using Suc.prems(1) by (metis Cons_nth_drop_Suc drop_update_cancel length_list_update lessI nth_list_update_eq)
  show ?case
  proof (cases "key < buf ! j")
    case True
    let ?b = "buf[Suc j := buf ! j]"
    obtain p where p: "ins_shift ?b key j = p @ drop (Suc j) ?b" "sorted p" "mset p = add_mset key (mset (take j buf))"
      using Suc.IH [of ?b] Suc.prems t by (auto simp: sorted_append)
    have "set p = insert key (set (take j buf))" using p(3) by (metis set_mset_add_mset_insert set_mset_mset)
    then have "sorted (p @ [buf ! j])" using p(2) True Suc.prems(2) t by (auto simp: sorted_append)
    with p True t d show ?thesis by (intro exI [of _ "p @ [buf ! j]"]) simp
  next
    case False
    have "buf[Suc j := key] = take (Suc j) buf @ key # drop (Suc (Suc j)) buf"
      using Suc.prems(1) by (simp add: upd_conv_take_nth_drop)
    moreover have "sorted (take (Suc j) buf @ [key])" using Suc.prems(2) t False by (auto simp: sorted_append)
    ultimately show ?thesis using False by (intro exI [of _ "take (Suc j) buf @ [key]"]) simp
  qed
qed

lemma ins_sort_fold:
  "n \<le> length buf \<Longrightarrow> 0 < n \<Longrightarrow>
     \<exists>p. foldl (\<lambda>b i. ins_shift b (b ! i) i) buf [1..<n] = p @ drop n buf \<and> sorted p \<and> mset p = mset (take n buf)"
proof (induction n)
  case (Suc n)
  show ?case
  proof (cases "n = 0")
    case True
    then show ?thesis using Suc.prems by (intro exI [of _ "take 1 buf"]) (cases buf, auto)
  next
    case False
    then obtain p where p: "foldl (\<lambda>b i. ins_shift b (b ! i) i) buf [1..<n] = p @ drop n buf" "sorted p" "mset p = mset (take n buf)"
      using Suc by auto
    have l: "length p = n" using p(3) Suc.prems by (metis length_take min.absorb2 size_mset Suc_leD)
    have x: "(p @ drop n buf) ! n = buf ! n" "drop n buf = buf ! n # drop (Suc n) buf"
      using l Suc.prems by (simp_all add: nth_append Cons_nth_drop_Suc)
    obtain p' where "ins_shift (p @ drop n buf) (buf ! n) n = p' @ drop (Suc n) (p @ drop n buf)" "sorted p'"
        "mset p' = add_mset (buf ! n) (mset (take n (p @ drop n buf)))"
      using ins_shift_sorts [of n "p @ drop n buf" "buf ! n"] l p(2) Suc.prems by auto
    then show ?thesis
      using p l x False Suc.prems by (intro exI [of _ p']) (simp add: take_Suc_conv_app_nth)
  qed
qed simp

lemma ins_sort_sort: "ins_sort buf = sort buf"
proof (cases "buf = []")
  case False
  then obtain p where "ins_sort buf = p" "sorted p" "mset p = mset buf"
    using ins_sort_fold [of "length buf" buf] by (auto simp: ins_sort_def)
  then show ?thesis by (metis properties_for_sort)
qed (simp add: ins_sort_def)

lemma p99_idx_last: "0 < n \<Longrightarrow> n \<le> 64 \<Longrightarrow> p99_idx n = n - 1"
proof -
  assume "0 < n" "n \<le> 64"
  then have "(n * 99 + 99) div 100 = n" by (intro div_nat_eqI) auto
  then show ?thesis by (simp add: p99_idx_def)
qed

lemma sorted_last_Max:
  assumes "sorted xs" and "xs \<noteq> []"
  shows "last xs = Max (set xs)"
proof (rule Max_eqI [symmetric])
  fix y assume "y \<in> set xs"
  then obtain i where "i < length xs" "y = xs ! i" by (auto simp: in_set_conv_nth)
  with assms show "y \<le> last xs" by (auto simp: last_conv_nth intro: sorted_nth_mono)
qed (insert assms, auto)

lemma p99_max:
  assumes "buf \<noteq> []" and "length buf \<le> 64"
  shows "ins_sort buf ! p99_idx (length buf) = Max (set buf)"
proof -
  have "p99_idx (length buf) = length (sort buf) - 1" using assms p99_idx_last by (cases buf) auto
  then have "ins_sort buf ! p99_idx (length buf) = last (sort buf)"
    using assms by (metis ins_sort_sort last_conv_nth length_0_conv length_sort)
  moreover have "sort buf \<noteq> []" using assms(1) by (metis length_0_conv length_sort)
  then have "last (sort buf) = Max (set (sort buf))" by (intro sorted_last_Max) auto
  ultimately show ?thesis by simp
qed

text \<open>The samples of a provider in a history, and the ring buffer that holds the last 64 of them.\<close>

definition mine :: "string \<Rightarrow> (string \<times> 32 word) list \<Rightarrow> 32 word list" where
  "mine n hist = map snd (filter (\<lambda>(q, ms). take (PROV_NAME_MAX - 1) q = n) hist)"

definition recent :: "32 word list \<Rightarrow> 32 word list" where
  "recent xs = drop (length xs - PROV_STAT_SLOTS) xs"

definition lat_ring_ok :: "32 word list \<Rightarrow> prov_lat \<Rightarrow> bool" where
  "lat_ring_ok xs l \<longleftrightarrow> pl_count l = min 64 (length xs) \<and> pl_head l = length xs mod 64 \<and>
     (\<forall>j. length xs \<le> j + 64 \<and> j < length xs \<longrightarrow> pl_samples l ! (j mod 64) = xs ! j)"

lemma mod_window:
  fixes a j :: nat
  assumes "j < a" and "a < j + 64"
  shows "j mod 64 \<noteq> a mod 64"
proof
  assume "j mod 64 = a mod 64"
  then have "64 dvd a - j" using assms(1) by (metis less_imp_le mod_eq_dvd_iff_nat)
  with assms show False by (auto dest: dvd_imp_le)
qed

lemma lat_push_ring:
  assumes "lat_ring_ok xs l" and "length (pl_samples l) = 64"
  shows "lat_ring_ok (xs @ [ms]) (lat_push ms l)"
proof -
  have "(pl_samples l)[pl_head l := ms] ! (j mod 64) = (xs @ [ms]) ! j"
    if "length xs + 1 \<le> j + 64" "j < length xs + 1" for j
  proof (cases "j = length xs")
    case True
    with assms show ?thesis by (simp add: lat_ring_ok_def)
  next
    case False
    then have "j mod 64 \<noteq> length xs mod 64" using that by (intro mod_window) auto
    with assms that False show ?thesis by (simp add: lat_ring_ok_def nth_append)
  qed
  with assms show ?thesis by (simp add: lat_ring_ok_def lat_push_def PROV_STAT_SLOTS_def mod_Suc_eq)
qed

lemma ring_set:
  assumes "lat_ring_ok xs l" and "length (pl_samples l) = 64"
  shows "set (take (pl_count l) (pl_samples l)) = set (recent xs)"
proof -
  let ?W = "{j. length xs \<le> j + 64 \<and> j < length xs}"
  have "set (take (pl_count l) (pl_samples l)) = (\<lambda>i. pl_samples l ! i) ` {..<pl_count l}"
    using assms nth_image [of "pl_count l" "pl_samples l"] by (simp add: lat_ring_ok_def atLeast0LessThan)
  also have "{..<pl_count l} = (\<lambda>j. j mod 64) ` ?W"
  proof (intro equalityI subsetI)
    fix i assume i: "i \<in> {..<pl_count l}"
    define m where "m = length xs - 1 - i"
    define j where "j = i + 64 * (m div 64)"
    have "i < length xs" "i < 64" using i assms(1) by (auto simp: lat_ring_ok_def)
    then have "length xs = m + 1 + i" "m = 64 * (m div 64) + m mod 64" "m mod 64 < 64" by (simp_all add: m_def)
    then have "j \<in> ?W" unfolding j_def mem_Collect_eq by linarith
    moreover have "j mod 64 = i" using \<open>i < 64\<close> by (simp add: j_def)
    ultimately show "i \<in> (\<lambda>j. j mod 64) ` ?W" by blast
  next
    fix i assume "i \<in> (\<lambda>j. j mod 64) ` ?W"
    then obtain j where j: "i = j mod 64" "j < length xs" by auto
    then have "i < 64" "i \<le> j" by simp_all
    with j assms(1) show "i \<in> {..<pl_count l}" by (simp add: lat_ring_ok_def)
  qed
  also have "(\<lambda>i. pl_samples l ! i) ` (\<lambda>j. j mod 64) ` ?W = (\<lambda>j. xs ! j) ` ?W"
    using assms(1) by (auto simp: lat_ring_ok_def image_image intro!: image_cong)
  also have "\<dots> = set (recent xs)"
  proof -
    have "?W = {length xs - 64..<length xs}" by auto
    then have "(\<lambda>j. xs ! j) ` ?W = set (map (\<lambda>j. xs ! j) [length xs - 64..<length xs])" by simp
    moreover have "map (\<lambda>j. xs ! j) [length xs - 64..<length xs] = drop (length xs - 64) xs"
      by (simp add: list_eq_iff_nth_eq)
    ultimately show ?thesis by (simp add: recent_def PROV_STAT_SLOTS_def)
  qed
  finally show ?thesis .
qed

section \<open>The percentile over a history\<close>

definition lat_ok :: "(string \<times> 32 word) list \<Rightarrow> prov_lat list \<Rightarrow> bool" where
  "lat_ok hist ls \<longleftrightarrow>
     (\<forall>i<length ls. length (pl_samples (ls ! i)) = 64) \<and> (\<forall>i<length ls. length (pl_name (ls ! i)) \<le> 63) \<and>
     (\<forall>i<length ls. pl_name (ls ! i) \<noteq> [] \<longrightarrow> lat_ring_ok (mine (pl_name (ls ! i)) hist) (ls ! i)) \<and>
     (\<forall>i<length ls. \<forall>j<length ls. i \<noteq> j \<longrightarrow> pl_name (ls ! i) \<noteq> [] \<longrightarrow> pl_name (ls ! i) \<noteq> pl_name (ls ! j)) \<and>
     (\<forall>q. q \<noteq> [] \<longrightarrow> find_index (lat_match q) ls = None \<longrightarrow>
        mine (take 63 q) hist = [] \<or> find_index (\<lambda>l. pl_name l = []) ls = None)"

lemma mine_snoc: "mine n (hist @ [(q, ms)]) = (if take 63 q = n then mine n hist @ [ms] else mine n hist)"
  by (simp add: mine_def PROV_NAME_MAX_def)

lemma lat_match_name: "length (pl_name l) \<le> 63 \<Longrightarrow> lat_match q l \<longleftrightarrow> pl_name l \<noteq> [] \<and> pl_name l = take 63 q"
  by (auto simp: lat_match_def PROV_NAME_MAX_def)

lemma lat_push_frame [simp]:
  "pl_name (lat_push ms l) = pl_name l" "length (pl_samples (lat_push ms l)) = length (pl_samples l)"
  by (simp_all add: lat_push_def)

lemma lat_okD:
  assumes "lat_ok hist ls"
  shows lat_ok_len: "i < length ls \<Longrightarrow> length (pl_samples (ls ! i)) = 64"
    and lat_ok_name: "i < length ls \<Longrightarrow> length (pl_name (ls ! i)) \<le> 63"
    and lat_ok_ring: "i < length ls \<Longrightarrow> pl_name (ls ! i) \<noteq> [] \<Longrightarrow> lat_ring_ok (mine (pl_name (ls ! i)) hist) (ls ! i)"
    and lat_ok_dist: "i < length ls \<Longrightarrow> j < length ls \<Longrightarrow> i \<noteq> j \<Longrightarrow> pl_name (ls ! i) \<noteq> [] \<Longrightarrow> pl_name (ls ! i) \<noteq> pl_name (ls ! j)"
    and lat_ok_free: "q \<noteq> [] \<Longrightarrow> find_index (lat_match q) ls = None \<Longrightarrow>
      mine (take 63 q) hist = [] \<or> find_index (\<lambda>l. pl_name l = []) ls = None"
  using assms by (simp_all add: lat_ok_def)

lemma lat_okI:
  assumes "\<And>i. i < length ls \<Longrightarrow> length (pl_samples (ls ! i)) = 64"
    and "\<And>i. i < length ls \<Longrightarrow> length (pl_name (ls ! i)) \<le> 63"
    and "\<And>i. i < length ls \<Longrightarrow> pl_name (ls ! i) \<noteq> [] \<Longrightarrow> lat_ring_ok (mine (pl_name (ls ! i)) hist) (ls ! i)"
    and "\<And>i j. i < length ls \<Longrightarrow> j < length ls \<Longrightarrow> i \<noteq> j \<Longrightarrow> pl_name (ls ! i) \<noteq> [] \<Longrightarrow> pl_name (ls ! i) \<noteq> pl_name (ls ! j)"
    and "\<And>q. q \<noteq> [] \<Longrightarrow> find_index (lat_match q) ls = None \<Longrightarrow>
      mine (take 63 q) hist = [] \<or> find_index (\<lambda>l. pl_name l = []) ls = None"
  shows "lat_ok hist ls"
  unfolding lat_ok_def by (intro conjI allI impI) (rule assms; assumption)+

lemma lat_ok_match:
  assumes "lat_ok hist ls" and "i < length ls"
  shows "lat_match q (ls ! i) \<longleftrightarrow> pl_name (ls ! i) \<noteq> [] \<and> pl_name (ls ! i) = take 63 q"
  by (rule lat_match_name [OF lat_ok_name [OF assms]])

lemma lat_ok_push:
  assumes ok: "lat_ok hist ls" and i: "i < length ls" "pl_name (ls ! i) = take 63 q" "q \<noteq> []"
  shows "lat_ok (hist @ [(q, ms)]) (ls[i := lat_push ms (ls ! i)])"
proof (rule lat_okI)
  let ?ls = "ls[i := lat_push ms (ls ! i)]"
  have n: "pl_name (?ls ! j) = pl_name (ls ! j)" for j using i(1) by (simp add: nth_list_update)
  have fm: "find_index (lat_match r) ?ls = None \<longleftrightarrow> find_index (lat_match r) ls = None" for r
    using n by (simp add: find_index_None all_set_conv_all_nth lat_match_def)
  have fe: "find_index (\<lambda>l. pl_name l = []) ?ls = None \<longleftrightarrow> find_index (\<lambda>l. pl_name l = []) ls = None"
    using n by (simp add: find_index_None all_set_conv_all_nth)
  fix j assume j: "j < length ?ls"
  then show "length (pl_samples (?ls ! j)) = 64" "length (pl_name (?ls ! j)) \<le> 63"
    using lat_ok_len [OF ok, of j] lat_ok_name [OF ok, of j] i(1) by (simp_all add: nth_list_update)
  show "pl_name (?ls ! j) \<noteq> pl_name (?ls ! k)" if "k < length ?ls" "j \<noteq> k" "pl_name (?ls ! j) \<noteq> []" for k
    using lat_ok_dist [OF ok, of j k] j that n by simp
  show "lat_ring_ok (mine (pl_name (?ls ! j)) (hist @ [(q, ms)])) (?ls ! j)" if "pl_name (?ls ! j) \<noteq> []"
  proof (cases "j = i")
    case True
    then show ?thesis
      using lat_push_ring [OF lat_ok_ring [OF ok i(1)]] lat_ok_len [OF ok i(1)] i by (simp add: mine_snoc)
  next
    case False
    then have "pl_name (ls ! j) \<noteq> take 63 q" using lat_ok_dist [OF ok i(1), of j] j i by simp
    with False lat_ok_ring [OF ok, of j] j that n show ?thesis by (simp add: mine_snoc)
  qed
next
  let ?ls = "ls[i := lat_push ms (ls ! i)]"
  fix r assume r: "r \<noteq> []" "find_index (lat_match r) ?ls = None"
  have n: "pl_name (?ls ! j) = pl_name (ls ! j)" for j using i(1) by (simp add: nth_list_update)
  have no: "find_index (lat_match r) ls = None"
    using r(2) n by (simp add: find_index_None all_set_conv_all_nth lat_match_def)
  then have "\<not> lat_match r (ls ! i)" using i(1) by (simp add: find_index_None)
  then have "take 63 q \<noteq> take 63 r" using lat_ok_match [OF ok i(1), of r] i by simp
  with lat_ok_free [OF ok r(1) no] n show "mine (take 63 r) (hist @ [(q, ms)]) = [] \<or> find_index (\<lambda>l. pl_name l = []) ?ls = None"
    by (simp add: mine_snoc find_index_None all_set_conv_all_nth)
qed

lemma lat_ok_same:
  assumes ok: "lat_ok hist ls" and q: "q = [] \<or> find_index (lat_match q) ls = None \<and> find_index (\<lambda>l. pl_name l = []) ls = None"
  shows "lat_ok (hist @ [(q, ms)]) ls"
proof (rule lat_okI)
  fix i assume i: "i < length ls"
  show "length (pl_samples (ls ! i)) = 64" "length (pl_name (ls ! i)) \<le> 63"
    by (rule lat_ok_len [OF ok i], rule lat_ok_name [OF ok i])
  show "pl_name (ls ! i) \<noteq> pl_name (ls ! j)" if "j < length ls" "i \<noteq> j" "pl_name (ls ! i) \<noteq> []" for j
    by (rule lat_ok_dist [OF ok i that])
  assume nm: "pl_name (ls ! i) \<noteq> []"
  have "q = [] \<or> \<not> lat_match q (ls ! i)" using q i by (auto simp: find_index_None)
  then have "take 63 q \<noteq> pl_name (ls ! i)" using lat_ok_match [OF ok i, of q] nm by (cases "q = []") simp_all
  then show "lat_ring_ok (mine (pl_name (ls ! i)) (hist @ [(q, ms)])) (ls ! i)"
    using lat_ok_ring [OF ok i nm] by (simp add: mine_snoc)
next
  fix r assume r: "r \<noteq> []" "find_index (lat_match r) ls = None"
  then show "mine (take 63 r) (hist @ [(q, ms)]) = [] \<or> find_index (\<lambda>l. pl_name l = []) ls = None"
    using lat_ok_free [OF ok r] q by (auto simp: mine_snoc)
qed

lemma lat_ok_claim:
  assumes ok: "lat_ok hist ls" and "q \<noteq> []" and no: "find_index (lat_match q) ls = None"
    and free: "find_index (\<lambda>l. pl_name l = []) ls = Some i"
  shows "lat_ok hist (ls[i := (ls ! i)\<lparr>pl_name := take 63 q, pl_head := 0, pl_count := 0\<rparr>])"
    (is "lat_ok hist ?ls")
proof (rule lat_okI)
  have i: "i < length ls" "pl_name (ls ! i) = []" using free by (auto simp: find_index_Some_iff)
  have e: "mine (take 63 q) hist = []" using lat_ok_free [OF ok assms(2) no] free by simp
  have other: "pl_name (ls ! j) \<noteq> take 63 q" if "j < length ls" for j
    using no that lat_ok_match [OF ok that, of q] assms(2) by (auto simp: find_index_None)
  fix j assume j: "j < length ?ls"
  show "length (pl_samples (?ls ! j)) = 64" "length (pl_name (?ls ! j)) \<le> 63"
    using lat_ok_len [OF ok, of j] lat_ok_name [OF ok, of j] j i(1) by (simp_all add: nth_list_update)
  show "lat_ring_ok (mine (pl_name (?ls ! j)) hist) (?ls ! j)" if "pl_name (?ls ! j) \<noteq> []"
    using lat_ok_ring [OF ok, of j] that j e by (cases "j = i") (simp_all add: lat_ring_ok_def)
  show "pl_name (?ls ! j) \<noteq> pl_name (?ls ! k)" if "k < length ?ls" "j \<noteq> k" "pl_name (?ls ! j) \<noteq> []" for k
    using lat_ok_dist [OF ok, of j k] that j other [of j] other [of k] i(1) by (auto simp: nth_list_update split: if_splits)
next
  have i: "i < length ls" "pl_name (ls ! i) = []" using free by (auto simp: find_index_Some_iff)
  fix r assume r: "r \<noteq> []" "find_index (lat_match r) ?ls = None"
  have "\<not> lat_match r (ls ! j)" if "j < length ls" for j
  proof (cases "j = i")
    case True
    with i show ?thesis by (simp add: lat_match_def)
  next
    case False
    then have "ls ! j \<in> set ?ls" using that by (metis length_list_update nth_list_update_neq nth_mem)
    with r(2) show ?thesis by (simp add: find_index_None)
  qed
  then have "find_index (lat_match r) ls = None" by (simp add: find_index_None all_set_conv_all_nth)
  with lat_ok_free [OF ok r(1)] free show "mine (take 63 r) hist = [] \<or> find_index (\<lambda>l. pl_name l = []) ?ls = None" by auto
qed

lemma lat_ok_step:
  assumes "lat_ok hist (ps_lat s)"
  shows "lat_ok (hist @ [(q, ms)]) (ps_lat (prov_stat_lat q ms s))"
proof (cases "q = []")
  case True
  with assms lat_ok_same show ?thesis by (simp add: prov_stat_lat_def)
next
  case False
  show ?thesis
  proof (cases "find_index (lat_match q) (ps_lat s)")
    case (Some i)
    then have i: "i < length (ps_lat s)" "lat_match q (ps_lat s ! i)" by (auto simp: find_index_Some_iff)
    with lat_ok_match [OF assms i(1), of q] lat_ok_push [OF assms i(1), of q ms] False Some show ?thesis
      by (simp add: prov_stat_lat_def lat_slot_def)
  next
    case None
    show ?thesis
    proof (cases "find_index (\<lambda>l. pl_name l = []) (ps_lat s)")
      case (Some i)
      then have "i < length (ps_lat s)" by (simp add: find_index_Some_iff)
      with lat_ok_push [OF lat_ok_claim [OF assms False None Some], of i q ms] False None Some show ?thesis
        by (simp add: prov_stat_lat_def lat_slot_def PROV_NAME_MAX_def)
    next
      case free: None
      with assms lat_ok_same None False show ?thesis by (simp add: prov_stat_lat_def lat_slot_def)
    qed
  qed
qed

definition stats_after :: "(string \<times> 32 word) list \<Rightarrow> prov_stats \<Rightarrow> prov_stats" where
  "stats_after hist s = foldl (\<lambda>s (q, ms). prov_stat_lat q ms s) s hist"

lemma lat_ok_after:
  assumes "\<forall>l\<in>set (ps_lat s). length (pl_samples l) = 64"
  shows "lat_ok hist (ps_lat (stats_after hist (prov_stat_reset s)))"
proof (induction hist rule: rev_induct)
  case Nil
  have "mine n [] = []" for n by (simp add: mine_def)
  with assms show ?case by (intro lat_okI) (auto simp: stats_after_def prov_stat_reset_def)
next
  case (snoc x hist)
  then show ?case using lat_ok_step [of hist "stats_after hist (prov_stat_reset s)" "fst x" "snd x"]
    by (simp add: stats_after_def split_beta)
qed

lemma p99_recent:
  assumes "\<forall>l\<in>set (ps_lat s). length (pl_samples l) = PROV_STAT_SLOTS" and "p \<noteq> []"
    and "\<exists>l\<in>set (ps_lat (stats_after hist (prov_stat_reset s))). lat_match p l"
    and "mine (take 63 p) hist \<noteq> []"
  shows "prov_stat_p99 p (stats_after hist (prov_stat_reset s)) = of_nat (unat (Max (set (recent (mine (take 63 p) hist)))))"
proof -
  define ls where "ls = ps_lat (stats_after hist (prov_stat_reset s))"
  have ok: "lat_ok hist ls" using lat_ok_after assms(1) by (simp add: ls_def PROV_STAT_SLOTS_def)
  obtain i where f: "find_index (lat_match p) ls = Some i"
    using assms(3) by (cases "find_index (lat_match p) ls") (auto simp: ls_def find_index_None)
  then have i: "i < length ls" "lat_match p (ls ! i)" by (auto simp: find_index_Some_iff)
  have n: "pl_name (ls ! i) = take 63 p" using lat_ok_match [OF ok i(1), of p] i(2) by simp
  have l: "length (pl_samples (ls ! i)) = 64" using lat_ok_len [OF ok i(1)] by simp
  have r: "lat_ring_ok (mine (take 63 p) hist) (ls ! i)" using lat_ok_ring [OF ok i(1)] n assms(2) by simp
  let ?buf = "take (pl_count (ls ! i)) (pl_samples (ls ! i))"
  have b: "?buf \<noteq> []" "length ?buf \<le> 64" using r l assms(4) by (auto simp: lat_ring_ok_def)
  show ?thesis
    using p99_max [OF b] b(1) ring_set [OF r l] assms(2) f
    by (simp add: prov_stat_p99_def lat_slot_def ls_def [symmetric] Let_def)
qed

text \<open>
  The percentile. After any history of samples of any providers, the 99th percentile the code
  reports for a provider with a slot is the largest of that provider's last 64 samples: with at
  most 64 samples the 99th rank is the last one.
\<close>

theorem p99_is_recent_maximum:
  assumes "\<forall>l\<in>set (ps_lat s). length (pl_samples l) = PROV_STAT_SLOTS" and "p \<noteq> []"
    and "\<exists>l\<in>set (ps_lat (stats_after hist (prov_stat_reset s))). lat_match p l"
    and "mine (take 63 p) hist \<noteq> []"
  shows "prov_stat_p99 p (stats_after hist (prov_stat_reset s)) = of_nat (unat (Max (set (recent (mine (take 63 p) hist)))))"
  by (rule p99_recent [OF assms])

text \<open>A fresh table of eight slots.\<close>

definition fresh_stats :: prov_stats where
  "fresh_stats = \<lparr>ps_tmo = (\<lambda>_. 0), ps_lat = replicate 8 \<lparr>pl_name = [], pl_samples = replicate 64 0, pl_head = 0, pl_count = 0\<rparr>\<rparr>"

lemma fresh_hyps:
  "\<forall>l\<in>set (ps_lat fresh_stats). length (pl_samples l) = PROV_STAT_SLOTS" "''p'' \<noteq> []"
  "\<exists>l\<in>set (ps_lat (stats_after [(''p'', 4000), (''p'', 3000)] (prov_stat_reset fresh_stats))). lat_match ''p'' l"
  "mine (take 63 ''p'') [(''p'', 4000), (''p'', 3000)] \<noteq> []"
  "of_nat (unat (Max (set (recent (mine (take 63 ''p'') [(''p'', 4000), (''p'', 3000)]))))) = (4000 :: rat)"
proof -
  show "\<forall>l\<in>set (ps_lat fresh_stats). length (pl_samples l) = PROV_STAT_SLOTS" "''p'' \<noteq> []"
    by (simp_all add: fresh_stats_def PROV_STAT_SLOTS_def)
  show "\<exists>l\<in>set (ps_lat (stats_after [(''p'', 4000), (''p'', 3000)] (prov_stat_reset fresh_stats))). lat_match ''p'' l"
    by code_simp
  have m: "mine (take 63 ''p'') [(''p'', 4000), (''p'', 3000)] = [4000, 3000]" by code_simp
  then show "mine (take 63 ''p'') [(''p'', 4000), (''p'', 3000)] \<noteq> []" by simp
  show "of_nat (unat (Max (set (recent (mine (take 63 ''p'') [(''p'', 4000), (''p'', 3000)]))))) = (4000 :: rat)"
    unfolding m by (simp add: recent_def PROV_STAT_SLOTS_def)
qed

theorem p99_is_recent_maximum_witness:
  "prov_stat_p99 ''p'' (stats_after [(''p'', 4000), (''p'', 3000)] (prov_stat_reset fresh_stats)) = 4000"
  unfolding p99_is_recent_maximum [OF fresh_hyps(1-4)] by (rule fresh_hyps(5))

text \<open>
  The unit of the automatic budget. Samples are milliseconds and the budget is read as seconds:
  after requests of 4 s and 3 s the budget of the next request is 6000 s.
\<close>

theorem auto_budget_unit:
  "prov_tmo_auto ''p'' (stats_after [(''p'', 4000), (''p'', 3000)] (prov_stat_reset fresh_stats)) = 6000"
  unfolding prov_tmo_auto_def p99_recent [OF fresh_hyps(1-4)] fresh_hyps(5)
  by (simp add: PROV_TMO_SCALE_def PROV_TMO_FLOOR_SEC_def)

section \<open>The delay\<close>

lemma backoff_base_values:
  "backoff_base 0 = 200" "backoff_base 1 = 400" "backoff_base 2 = 800" "backoff_base 3 = 1600"
  by code_simp+

lemma backoff_base_late: "backoff_base (n + 4) = 2000"
proof -
  have "backoff_double m 3200 = 3200" for m by (cases m) (simp_all add: PROVIDER_RETRY_MAX_MS_def)
  moreover have "backoff_double (Suc (Suc (Suc (Suc n)))) 200 = backoff_double n 3200"
    by (simp add: PROVIDER_RETRY_MAX_MS_def)
  moreover have "n + 4 = Suc (Suc (Suc (Suc n)))" by simp
  ultimately show ?thesis
    by (simp only: backoff_base_def PROVIDER_RETRY_BASE_MS_def) (simp add: PROVIDER_RETRY_MAX_MS_def)
qed

lemma backoff_base_cases: "backoff_base n \<in> {200, 400, 800, 1600, 2000}"
proof (cases "n < 4")
  case True
  then have "n = 0 \<or> n = 1 \<or> n = 2 \<or> n = 3" by linarith
  then show ?thesis using backoff_base_values by auto
next
  case False
  with backoff_base_late [of "n - 4"] show ?thesis by simp
qed

text \<open>The delay before jitter doubles from 200 ms to 2 s.\<close>

interpretation rb: capped_delay "\<lambda>n. int (unat (backoff_base n))" 200 2000
proof unfold_locales
  show "int (unat (backoff_base 0)) = min 200 2000" by (simp add: backoff_base_values)
  fix n
  show "int (unat (backoff_base n)) \<le> 2000" using backoff_base_cases [of n] by auto
  show "int (unat (backoff_base n)) \<le> int (unat (backoff_base (Suc n)))"
  proof (cases "n < 4")
    case True
    then have "n = 0 \<or> n = 1 \<or> n = 2 \<or> n = 3" by linarith
    then show ?thesis using backoff_base_values backoff_base_late [of 0] by (auto simp: numeral_2_eq_2 [symmetric])
  next
    case False
    then have "backoff_base n = 2000" "backoff_base (Suc n) = 2000"
      using backoff_base_late [of "n - 4"] backoff_base_late [of "Suc n - 4"] by simp_all
    then show ?thesis by simp
  qed
qed

text \<open>
  The delay between two attempts. If the random generator stays in the range it is asked for,
  the delay is within a quarter of the doubled base: never below 150 ms, never above 2.5 s, and
  the 32-bit arithmetic does not wrap.
\<close>

theorem backoff_range:
  assumes "\<And>lo hi. lo \<le> hi \<Longrightarrow> lo \<le> rand lo hi \<and> rand lo hi \<le> hi"
  shows "3 * unat (backoff_base n) \<le> 4 * unat (provider_backoff_ms rand n) \<and>
    4 * unat (provider_backoff_ms rand n) \<le> 5 * unat (backoff_base n) \<and>
    150 \<le> provider_backoff_ms rand n \<and> provider_backoff_ms rand n \<le> 2500"
proof -
  have r: "unat (rand 0 h) \<le> unat h" for h using assms [of 0 h] by (simp add: word_le_nat_alt)
  have a: "unat (a + rand 0 h) = unat a + unat (rand 0 h)" if "unat a + unat h < 2 ^ 32" for a h :: "32 word"
    using iffD1 [OF unat_add_lem, of a "rand 0 h"] r [of h] that by simp
  have p: "unat (provider_backoff_ms rand n) = unat (b - j) + unat (rand 0 (j * 2))"
    if "backoff_base n = b" "b * 25 div 100 = j" "j \<noteq> 0" "unat (b - j) + unat (j * 2) < 2 ^ 32" for b j
    using that a [of "b - j" "j * 2"] by (simp add: provider_backoff_ms_def PROVIDER_RETRY_JITTER_PCT_def)
  consider "backoff_base n = 200" | "backoff_base n = 400" | "backoff_base n = 800" | "backoff_base n = 1600" | "backoff_base n = 2000"
    using backoff_base_cases [of n] by auto
  then show ?thesis
  proof cases
    case 1
    with p [of 200 50] r [of 100] show ?thesis by (simp add: word_le_nat_alt)
  next
    case 2
    with p [of 400 100] r [of 200] show ?thesis by (simp add: word_le_nat_alt)
  next
    case 3
    with p [of 800 200] r [of 400] show ?thesis by (simp add: word_le_nat_alt)
  next
    case 4
    with p [of 1600 400] r [of 800] show ?thesis by (simp add: word_le_nat_alt)
  next
    case 5
    with p [of 2000 500] r [of 1000] show ?thesis by (simp add: word_le_nat_alt)
  qed
qed

theorem backoff_range_witness:
  "3 * unat (backoff_base 2) \<le> 4 * unat (provider_backoff_ms (\<lambda>lo hi. hi) 2) \<and>
   4 * unat (provider_backoff_ms (\<lambda>lo hi. hi) 2) \<le> 5 * unat (backoff_base 2) \<and>
   150 \<le> provider_backoff_ms (\<lambda>lo hi. hi) 2 \<and> provider_backoff_ms (\<lambda>lo hi. hi) 2 \<le> 2500"
  by (rule backoff_range) simp

section \<open>What the loop resends\<close>

text \<open>
  A failure after which the request cannot have reached the other side: libcurl reports these before it
  sends anything (name resolution, connection, TLS handshake), and a timeout of the connection phase is
  one of them. The table is written out, apart from the one in the code.
\<close>

definition not_sent :: "curl_code \<Rightarrow> prov_tmo \<Rightarrow> bool" where
  "not_sent res tmo \<longleftrightarrow>
     (case res of
        CURLE_COULDNT_RESOLVE_PROXY \<Rightarrow> True
      | CURLE_COULDNT_RESOLVE_HOST \<Rightarrow> True
      | CURLE_COULDNT_CONNECT \<Rightarrow> True
      | CURLE_SSL_CONNECT_ERROR \<Rightarrow> True
      | CURLE_OPERATION_TIMEDOUT \<Rightarrow> tmo = PROV_TMO_CONNECT
      | _ \<Rightarrow> False)"

lemma retry_allowed_sent: "retry_allowed cls idem res tmo \<Longrightarrow> idem \<or> not_sent res tmo"
  by (cases res) (auto simp: retry_allowed_def not_sent_def pre_send_fail_def split: if_splits)

lemma retry_allowed_total: "\<not> retry_allowed cls idem CURLE_OPERATION_TIMEDOUT PROV_TMO_TOTAL"
  by (simp add: retry_allowed_def)

lemma retry_trace:
  "retry_loop env cfg mx retry u out = (u', r, tr) \<Longrightarrow>
     length tr \<le> Suc mx - retry \<and>
     (\<forall>i. Suc i < length tr \<longrightarrow> (case tr ! i of (st, res, code, tmo) \<Rightarrow>
        st = PROVIDER_TRY_FAILED \<and> retry_allowed (rt_class cfg) (rt_idempotent cfg) res tmo \<and>
        provider_retry_budget_ok (rt_timeout_sec cfg) (rt_now env 0) (rt_now env (2 * (retry + i) + 2))
          (retry_delay env cfg (retry + i)))) \<and>
     (retry \<le> mx \<longrightarrow> tr \<noteq> [] \<and> r = (if fst (last tr) = PROVIDER_TRY_FATAL then None else Some (snd (last tr))))"
proof (induction "Suc mx - retry" arbitrary: retry u out u' r tr rule: less_induct)
  case less
  note 1 = less.prems
  show ?case
  proof (cases "mx < retry")
    case True
    with 1 show ?thesis by (simp add: retry_loop.simps [of env cfg mx retry u out])
  next
    case False
    obtain u1 st res code tmo where a: "rt_attempt cfg u retry
        (provider_left_sec (rt_timeout_sec cfg) (rt_now env 0) (rt_now env (2 * retry + 1)))
        (fst out, fst (snd out), PROV_TMO_KIND_N) = (u1, st, res, code, tmo)"
      by (metis prod_cases5)
    note unf = retry_loop.simps [of env cfg mx retry u out]
    show ?thesis
    proof (cases "st = PROVIDER_TRY_FAILED \<and> retry < mx \<and> retry_allowed (rt_class cfg) (rt_idempotent cfg) res tmo \<and>
        gate_open cfg u1 res code \<and> retry_wait env cfg retry u1 \<noteq> None")
      case True
      then obtain u2 where w: "retry_wait env cfg retry u1 = Some u2" by auto
      obtain u3 r3 tr3 where l: "retry_loop env cfg mx (Suc retry) u2 (res, code, tmo) = (u3, r3, tr3)"
        by (metis prod_cases3)
      have e: "tr = (st, res, code, tmo) # tr3" "r = r3"
        using 1 False True a w l by (simp_all add: unf)
      have ih: "length tr3 \<le> Suc mx - Suc retry \<and>
          (\<forall>i. Suc i < length tr3 \<longrightarrow> (case tr3 ! i of (st, res, code, tmo) \<Rightarrow>
             st = PROVIDER_TRY_FAILED \<and> retry_allowed (rt_class cfg) (rt_idempotent cfg) res tmo \<and>
             provider_retry_budget_ok (rt_timeout_sec cfg) (rt_now env 0) (rt_now env (2 * (Suc retry + i) + 2))
               (retry_delay env cfg (Suc retry + i)))) \<and>
          (Suc retry \<le> mx \<longrightarrow> tr3 \<noteq> [] \<and> r3 = (if fst (last tr3) = PROVIDER_TRY_FATAL then None else Some (snd (last tr3))))"
        by (rule less.hyps [OF _ l]) (insert False, simp)
      have b: "provider_retry_budget_ok (rt_timeout_sec cfg) (rt_now env 0) (rt_now env (2 * retry + 2)) (retry_delay env cfg retry)"
        using w by (simp add: retry_wait_def split: if_splits)
      have "case tr ! i of (st, res, code, tmo) \<Rightarrow>
          st = PROVIDER_TRY_FAILED \<and> retry_allowed (rt_class cfg) (rt_idempotent cfg) res tmo \<and>
          provider_retry_budget_ok (rt_timeout_sec cfg) (rt_now env 0) (rt_now env (2 * (retry + i) + 2))
            (retry_delay env cfg (retry + i))" if "Suc i < length tr" for i
        using that ih True b e by (cases i) auto
      then show ?thesis using ih e True by auto
    next
      case no: False
      have "tr = [(st, res, code, tmo)] \<and> r = (if st = PROVIDER_TRY_FATAL then None else Some (res, code, tmo))"
        using 1 False no a by (cases st) (auto simp: unf split: if_splits option.splits)
      then show ?thesis using False by auto
    qed
  qed
qed

section \<open>Two ways to reason about the loop\<close>

text \<open>A relation between the user data and the attempts so far.\<close>

lemma retry_loop_trace:
  assumes step: "\<And>u xs retry left out u1 st o1. I u xs \<Longrightarrow> rt_attempt cfg u retry left out = (u1, st, o1) \<Longrightarrow> I u1 (xs @ [(st, o1)])"
    and reset: "\<And>u xs g. rt_reset cfg = Some g \<Longrightarrow> I u xs \<Longrightarrow> I (g u) xs"
  shows "retry_loop env cfg mx retry u out = (u', r, tr) \<Longrightarrow> I u xs \<Longrightarrow> I u' (xs @ tr)"
proof (induction "Suc mx - retry" arbitrary: retry u out u' r tr xs rule: less_induct)
  case less
  note unf = retry_loop.simps [of env cfg mx retry u out]
  show ?case
  proof (cases "mx < retry")
    case True
    with less.prems show ?thesis by (simp add: unf)
  next
    case False
    obtain u1 st res code tmo where a: "rt_attempt cfg u retry
        (provider_left_sec (rt_timeout_sec cfg) (rt_now env 0) (rt_now env (2 * retry + 1)))
        (fst out, fst (snd out), PROV_TMO_KIND_N) = (u1, st, res, code, tmo)"
      by (metis prod_cases5)
    have f1: "I u1 (xs @ [(st, res, code, tmo)])" by (rule step [OF less.prems(2) a])
    show ?thesis
    proof (cases "st = PROVIDER_TRY_FAILED \<and> retry < mx \<and> retry_allowed (rt_class cfg) (rt_idempotent cfg) res tmo \<and>
        gate_open cfg u1 res code \<and> retry_wait env cfg retry u1 \<noteq> None")
      case True
      then obtain u2 where w: "retry_wait env cfg retry u1 = Some u2" by auto
      then have f2: "I u2 (xs @ [(st, res, code, tmo)])"
        using reset f1 by (auto simp: retry_wait_def split: if_splits option.splits)
      obtain u3 r3 tr3 where l: "retry_loop env cfg mx (Suc retry) u2 (res, code, tmo) = (u3, r3, tr3)"
        by (metis prod_cases3)
      have "I u3 ((xs @ [(st, res, code, tmo)]) @ tr3)" by (rule less.hyps [OF _ l f2]) (insert False, simp)
      then show ?thesis using less.prems(1) False True a w l by (auto simp: unf)
    next
      case no: False
      then show ?thesis using less.prems(1) False a f1 by (cases st) (auto simp: unf split: if_splits option.splits)
    qed
  qed
qed

text \<open>The retry loop ends with an attempt that started from a state the invariant allows.\<close>

lemma retry_last_attempt:
  assumes step: "\<And>u retry left out u1 st res code tmo. J u \<Longrightarrow> rt_attempt cfg u retry left out = (u1, st, res, code, tmo) \<Longrightarrow>
      gate_open cfg u1 res code \<Longrightarrow> J (case rt_reset cfg of None \<Rightarrow> u1 | Some f \<Rightarrow> f u1)"
  shows "J u \<Longrightarrow> retry \<le> mx \<Longrightarrow> retry_loop env cfg mx retry u out = (u', r, tr) \<Longrightarrow>
    \<exists>u0 k left out0 st out1. J u0 \<and> rt_attempt cfg u0 k left out0 = (u', st, out1) \<and>
      r = (if st = PROVIDER_TRY_FATAL then None else Some out1)"
proof (induction "Suc mx - retry" arbitrary: retry u out r tr rule: less_induct)
  case less
  note unf = retry_loop.simps [of env cfg mx retry u out]
  obtain u1 st res code tmo where a: "rt_attempt cfg u retry
      (provider_left_sec (rt_timeout_sec cfg) (rt_now env 0) (rt_now env (2 * retry + 1)))
      (fst out, fst (snd out), PROV_TMO_KIND_N) = (u1, st, res, code, tmo)"
    by (metis prod_cases5)
  show ?case
  proof (cases "st = PROVIDER_TRY_FAILED \<and> retry < mx \<and> retry_allowed (rt_class cfg) (rt_idempotent cfg) res tmo \<and>
      gate_open cfg u1 res code \<and> retry_wait env cfg retry u1 \<noteq> None")
    case True
    then obtain u2 where w: "retry_wait env cfg retry u1 = Some u2" by auto
    have j: "J u2" using step [OF less.prems(1) a] True w by (auto simp: retry_wait_def split: if_splits)
    obtain u3 r3 tr3 where l: "retry_loop env cfg mx (Suc retry) u2 (res, code, tmo) = (u3, r3, tr3)"
      by (metis prod_cases3)
    have e: "u3 = u'" "r3 = r" using less.prems True a w l by (auto simp: unf)
    show ?thesis by (rule less.hyps [OF _ j _ l [unfolded e]]) (insert True, auto)
  next
    case no: False
    have "u' = u1 \<and> r = (if st = PROVIDER_TRY_FATAL then None else Some (res, code, tmo))"
      using less.prems no a by (cases st) (auto simp: unf split: if_splits option.splits)
    with less.prems(1) a show ?thesis by blast
  qed
qed

section \<open>Resending\<close>

text \<open>
  What is resent. A request makes at most \<open>max_retries + 1\<close> attempts. An attempt is followed by
  another only if it failed in a way its class allows and the remaining time covers the delay and
  one more second; unless the request is declared idempotent, it is resent only after failures in
  which it cannot have reached the other side, and an exhausted total budget is never retried. The
  outputs are those of the last attempt.
\<close>

theorem retry_never_duplicates:
  assumes "provider_retry_run env cfg u = (u', r, tr)"
  shows "tr \<noteq> [] \<and> int (length tr) \<le> max 0 (rt_max_retries cfg) + 1 \<and>
    r = (if fst (last tr) = PROVIDER_TRY_FATAL then None else Some (snd (last tr))) \<and>
    (\<forall>i st res code tmo. Suc i < length tr \<and> tr ! i = (st, res, code, tmo) \<longrightarrow>
       st = PROVIDER_TRY_FAILED \<and> (rt_idempotent cfg \<or> not_sent res tmo) \<and>
       (res, tmo) \<noteq> (CURLE_OPERATION_TIMEDOUT, PROV_TMO_TOTAL) \<and>
       provider_retry_budget_ok (rt_timeout_sec cfg) (rt_now env 0) (rt_now env (2 * i + 2)) (retry_delay env cfg i))"
proof -
  define mx where "mx = nat (if 0 < rt_max_retries cfg then rt_max_retries cfg else 0)"
  have t: "length tr \<le> Suc mx - 0 \<and>
     (\<forall>i. Suc i < length tr \<longrightarrow> (case tr ! i of (st, res, code, tmo) \<Rightarrow>
        st = PROVIDER_TRY_FAILED \<and> retry_allowed (rt_class cfg) (rt_idempotent cfg) res tmo \<and>
        provider_retry_budget_ok (rt_timeout_sec cfg) (rt_now env 0) (rt_now env (2 * (0 + i) + 2)) (retry_delay env cfg (0 + i)))) \<and>
     (0 \<le> mx \<longrightarrow> tr \<noteq> [] \<and> r = (if fst (last tr) = PROVIDER_TRY_FATAL then None else Some (snd (last tr))))"
    by (rule retry_trace) (insert assms, simp add: provider_retry_run_def mx_def)
  have "int (length tr) \<le> max 0 (rt_max_retries cfg) + 1" using t by (auto simp: mx_def split: if_splits)
  moreover have "st = PROVIDER_TRY_FAILED \<and> (rt_idempotent cfg \<or> not_sent res tmo) \<and>
       (res, tmo) \<noteq> (CURLE_OPERATION_TIMEDOUT, PROV_TMO_TOTAL) \<and>
       provider_retry_budget_ok (rt_timeout_sec cfg) (rt_now env 0) (rt_now env (2 * i + 2)) (retry_delay env cfg i)"
    if i: "Suc i < length tr" "tr ! i = (st, res, code, tmo)" for i st res code tmo
  proof -
    have "case tr ! i of (st, res, code, tmo) \<Rightarrow> st = PROVIDER_TRY_FAILED \<and> retry_allowed (rt_class cfg) (rt_idempotent cfg) res tmo \<and>
        provider_retry_budget_ok (rt_timeout_sec cfg) (rt_now env 0) (rt_now env (2 * (0 + i) + 2)) (retry_delay env cfg (0 + i))"
      by (rule mp [OF spec [OF conjunct1 [OF conjunct2 [OF t]]] i(1)])
    then have ra: "retry_allowed (rt_class cfg) (rt_idempotent cfg) res tmo" and st: "st = PROVIDER_TRY_FAILED"
      and b: "provider_retry_budget_ok (rt_timeout_sec cfg) (rt_now env 0) (rt_now env (2 * i + 2)) (retry_delay env cfg i)"
      by (simp_all add: i(2))
    have "(res, tmo) \<noteq> (CURLE_OPERATION_TIMEDOUT, PROV_TMO_TOTAL)" using ra by (metis Pair_inject retry_allowed_total)
    with retry_allowed_sent [OF ra] st b show ?thesis by blast
  qed
  ultimately show ?thesis using mp [OF conjunct2 [OF conjunct2 [OF t]]] by blast
qed

text \<open>A request that first cannot connect and then stalls is sent twice, not three times.\<close>

definition example_retry_cfg :: "nat provider_retry_cfg" where
  "example_retry_cfg = \<lparr>rt_timeout_sec = 60, rt_max_retries = 5, rt_class = PROVIDER_RETRY_DEFAULT, rt_idempotent = False,
     rt_attempt = (\<lambda>n retry left out. (n + 1, PROVIDER_TRY_FAILED,
        if n = 0 then (CURLE_COULDNT_CONNECT, 0, PROV_TMO_KIND_N) else (CURLE_OPERATION_TIMEDOUT, 0, PROV_TMO_STALL))),
     rt_gate = None, rt_reset = None\<rparr>"

definition example_retry_env :: retry_env where
  "example_retry_env = \<lparr>rt_now = (\<lambda>k. of_nat k), rt_rand = (\<lambda>k lo hi. hi)\<rparr>"

theorem retry_never_duplicates_witness:
  "\<exists>tr. provider_retry_run example_retry_env example_retry_cfg 0 =
      (2, Some (CURLE_OPERATION_TIMEDOUT, 0, PROV_TMO_STALL), tr) \<and> length tr = 2 \<and>
      (case tr ! 0 of (st, res, code, tmo) \<Rightarrow> not_sent res tmo)"
proof -
  have e: "provider_retry_run example_retry_env example_retry_cfg 0 =
      (2, Some (CURLE_OPERATION_TIMEDOUT, 0, PROV_TMO_STALL),
       [(PROVIDER_TRY_FAILED, CURLE_COULDNT_CONNECT, 0, PROV_TMO_KIND_N),
        (PROVIDER_TRY_FAILED, CURLE_OPERATION_TIMEDOUT, 0, PROV_TMO_STALL)])"
    by code_simp
  show ?thesis using retry_never_duplicates [OF e] e by (auto simp: example_retry_cfg_def)
qed

end
