(* ===== verification/Llm_Http.thy ===== *)
theory Llm_Http
  imports Llm_Retry
begin

text \<open>
  llm_d, transport of the providers, second half: HTTP requests (\<open>providers/core/http.c\<close>), the
  diagnostic slot (\<open>prov_diag.c\<close>) and the rate limiter with its own retry loop on HTTP status
  codes (\<open>rate_limit.c\<close>).

  libcurl is a parameter: \<open>ne_curl k opts\<close> is the \<open>k\<close>-th transfer of a run, given the options the
  code sets. A transfer hands chunks to the write callback until the callback refuses one or the
  chunks are used up, and then reports a result; what it reports after a refusal is arbitrary.
  Allocation, environment variables, clocks, random numbers and what other requests do to the shared
  limiter are parameters as well. Error codes
  of the runtime are the constructors of a datatype: the code relies on their being distinct and
  different from \<open>AIRY_OK\<close>.
\<close>

section \<open>The environment\<close>

datatype net_ret =
  AIRY_OK | AIRY_ERR_INVALID_PARAM | AIRY_ERR_OUT_OF_MEMORY | AIRY_ERR_UNKNOWN | AIRY_ERR_IO | AIRY_ETIMEDOUT
| AIRY_ERR_LLM_STREAM_STALL | AIRY_ERR_LLM_STREAM_UNDONE | AIRY_ERR_LLM_AUTH_FAIL | AIRY_ERR_LLM_RATE_LIMIT
| AIRY_ERR_LLM_BAD_REQUEST | AIRY_ERR_LLM_NO_FINISH | AIRY_ERR_LLM_TRUNCATED | AIRY_ERR_LLM_CONTENT_FILTERED | AIRY_ERR_ADAPTER nat

record curl_opts =
  co_url :: string
  co_headers :: "string list"
  co_body :: string
  co_timeout :: int
  co_connect_timeout :: int
  co_low_speed_time :: int
  co_proxy :: "string option"
  co_cainfo :: "string option"

text \<open>
  \<open>x_end refused\<close>: result code, response code, connect time and total time.
\<close>

record xfer =
  x_chunks :: "string list"
  x_end :: "bool \<Rightarrow> curl_code \<times> int \<times> rat \<times> rat"

text \<open>
  The limiter of a provider. It belongs to the provider's context and is shared by its requests; the
  lock is held for single accesses only. \<open>ne_others m k\<close> is what other requests have made of it when
  this one takes the lock (\<open>m\<close> says which of the four accesses, \<open>k\<close> when).
\<close>

record provider_rate_limiter =
  rl_window_start :: int
  rl_count :: int
  rl_limit :: int
  rl_last_429 :: int
  rl_retry_after :: int
  rl_consecutive :: int

record net_env =
  ne_getenv :: "string \<Rightarrow> string option"
  ne_alloc :: "nat \<Rightarrow> bool"
  ne_curl :: "nat \<Rightarrow> curl_opts \<Rightarrow> xfer option"
  ne_retry :: "nat \<Rightarrow> retry_env"
  ne_time :: "nat \<Rightarrow> int"
  ne_rand99 :: "nat \<Rightarrow> nat"
  ne_others :: "nat \<Rightarrow> nat \<Rightarrow> provider_rate_limiter \<Rightarrow> provider_rate_limiter"

text \<open>
  The shared state: counters of what the environment was asked, the statistics, the diagnostic
  slot, and as a ghost the transfers with their outcomes.
\<close>

record net_world =
  nw_xfers :: nat
  nw_runs :: nat
  nw_times :: nat
  nw_stats :: prov_stats
  nw_diag :: string
  nw_log :: "(curl_opts \<times> curl_code \<times> prov_tmo) list"

definition PROV_DIAG_BODY_MAX :: nat where "PROV_DIAG_BODY_MAX = 512"

definition prov_diag_set :: "int \<Rightarrow> string \<Rightarrow> string" where
  "prov_diag_set http_code body =
     (if body \<noteq> []
      then snprintf_s (PROV_DIAG_BODY_MAX + 64)
             ((if 0 < http_code then ''upstream http '' @ show_int http_code @ '': '' else ''upstream transport: '') @
              take PROV_DIAG_BODY_MAX body)
      else if 0 < http_code then ''upstream http '' @ show_int http_code @ '' (empty body)''
      else [])"

section \<open>One transfer\<close>

record provider_http_resp =
  hr_data :: string
  hr_capacity :: nat

definition http_write_callback :: "(nat \<Rightarrow> bool) \<Rightarrow> provider_http_resp \<Rightarrow> string \<Rightarrow> provider_http_resp \<times> nat" where
  "http_write_callback alloc mem contents =
     (let new_size = length (hr_data mem) + length contents + 1
      in if hr_capacity mem < new_size
         then let new_cap = hr_capacity mem * 2; new_cap = (if new_cap < new_size then new_size else new_cap)
              in if alloc new_cap then (\<lparr>hr_data = hr_data mem @ contents, hr_capacity = new_cap\<rparr>, length contents) else (mem, 0)
         else (mem\<lparr>hr_data := hr_data mem @ contents\<rparr>, length contents))"

text \<open>The chunks of a transfer through a write callback, up to the first that is refused.\<close>

fun feed_chunks :: "('s \<Rightarrow> string \<Rightarrow> 's \<times> nat) \<Rightarrow> 's \<Rightarrow> string list \<Rightarrow> 's \<times> bool" where
  "feed_chunks cb s [] = (s, False)"
| "feed_chunks cb s (c # cs) = (case cb s c of (s, n) \<Rightarrow> if n = length c then feed_chunks cb s cs else (s, True))"

definition trunc_long :: "rat \<Rightarrow> int" where
  "trunc_long r = (if r < 0 then \<lceil>r\<rceil> else \<lfloor>r\<rfloor>)"

definition PROVIDER_CONNECT_TIMEOUT_SEC :: rat where "PROVIDER_CONNECT_TIMEOUT_SEC = 3"
definition PROVIDER_READ_IDLE_SEC :: rat where "PROVIDER_READ_IDLE_SEC = 30"

fun env_first_set :: "(string \<Rightarrow> string option) \<Rightarrow> string list \<Rightarrow> string option" where
  "env_first_set getenv [] = None"
| "env_first_set getenv (n # ns) =
     (case getenv n of Some v \<Rightarrow> if v \<noteq> [] then Some v else env_first_set getenv ns | None \<Rightarrow> env_first_set getenv ns)"

definition http_env_long :: "(string \<Rightarrow> string option) \<Rightarrow> string \<Rightarrow> int \<Rightarrow> int" where
  "http_env_long getenv name dflt =
     (case getenv name of
        None \<Rightarrow> dflt
      | Some v \<Rightarrow> if v = [] then dflt else if 0 < fst (strtol v) then fst (strtol v) else dflt)"

definition below_total :: "int \<Rightarrow> int \<Rightarrow> int" where
  "below_total total_sec sec =
     (if 0 < total_sec \<and> total_sec \<le> sec then (if 1 < total_sec then total_sec - 1 else 1) else sec)"

definition provider_http_setup ::
  "(string \<Rightarrow> string option) \<Rightarrow> string \<Rightarrow> string list \<Rightarrow> string \<Rightarrow> rat \<Rightarrow> rat \<Rightarrow> curl_opts" where
  "provider_http_setup getenv url headers body timeout_sec read_idle_sec =
     (let total_sec = trunc_long timeout_sec;
          connect_sec = http_env_long getenv ''AIRY_HTTP_CONNECT_TIMEOUT'' (trunc_long PROVIDER_CONNECT_TIMEOUT_SEC);
          idle = (if 0 < read_idle_sec then read_idle_sec else PROVIDER_READ_IDLE_SEC);
          idle_sec = http_env_long getenv ''AIRY_HTTP_READ_IDLE'' (trunc_long idle)
      in \<lparr>co_url = url, co_headers = headers, co_body = body, co_timeout = total_sec,
          co_connect_timeout = below_total total_sec connect_sec, co_low_speed_time = below_total total_sec idle_sec,
          co_proxy = env_first_set getenv [''AIRY_HTTP_PROXY'', ''HTTPS_PROXY'', ''https_proxy'', ''ALL_PROXY'', ''all_proxy'',
            ''HTTP_PROXY'', ''http_proxy''],
          co_cainfo = env_first_set getenv [''AIRY_HTTP_CAINFO'', ''CURL_CA_BUNDLE'', ''SSL_CERT_FILE'']\<rparr>)"

definition provider_tmo_class :: "rat \<Rightarrow> rat \<Rightarrow> rat \<Rightarrow> prov_tmo" where
  "provider_tmo_class connect elapsed budget_sec =
     (if connect \<le> 0 then PROV_TMO_CONNECT
      else if 0 < budget_sec \<and> budget_sec - 1 \<le> elapsed then PROV_TMO_TOTAL
      else PROV_TMO_STALL)"

text \<open>Classifies a timeout and counts it; \<open>tmo\<close> keeps its value for any other result.\<close>

definition prov_http_done :: "rat \<Rightarrow> rat \<Rightarrow> rat \<Rightarrow> curl_code \<Rightarrow> prov_tmo \<Rightarrow> prov_stats \<Rightarrow> prov_stats \<times> prov_tmo" where
  "prov_http_done connect elapsed budget_sec res tmo s =
     (if res = CURLE_OPERATION_TIMEDOUT
      then let kind = provider_tmo_class connect elapsed budget_sec in (prov_stat_hit kind s, kind)
      else (s, tmo))"

text \<open>
  The part \<open>http_try\<close> and \<open>sse_try\<close> have in common: options, transfer, end. \<open>None\<close>: no handle.
\<close>

definition curl_run ::
  "net_env \<Rightarrow> ('s \<Rightarrow> string \<Rightarrow> 's \<times> nat) \<Rightarrow> curl_opts \<Rightarrow> rat \<Rightarrow> net_world \<times> 's \<Rightarrow> prov_tmo \<Rightarrow>
   (net_world \<times> 's) \<times> (curl_code \<times> int \<times> prov_tmo) option" where
  "curl_run env cb opts budget u tmo =
     (case ne_curl env (nw_xfers (fst u)) opts of
        None \<Rightarrow> (((fst u)\<lparr>nw_xfers := nw_xfers (fst u) + 1\<rparr>, snd u), None)
      | Some x \<Rightarrow>
          (case feed_chunks cb (snd u) (x_chunks x) of
             (s, refused) \<Rightarrow>
               (case x_end x refused of
                  (res, code, connect, elapsed) \<Rightarrow>
                    (case prov_http_done connect elapsed budget res tmo (nw_stats (fst u)) of
                       (st, kind) \<Rightarrow>
                         (((fst u)\<lparr>nw_xfers := nw_xfers (fst u) + 1, nw_stats := st, nw_log := nw_log (fst u) @ [(opts, res, kind)]\<rparr>, s),
                          Some (res, code, kind))))))"

definition http_try ::
  "net_env \<Rightarrow> string \<Rightarrow> string list \<Rightarrow> string \<Rightarrow> rat \<Rightarrow> net_world \<times> provider_http_resp \<Rightarrow> nat \<Rightarrow> rat \<Rightarrow> try_out \<Rightarrow>
   (net_world \<times> provider_http_resp) \<times> provider_attempt \<times> try_out" where
  "http_try env url headers body timeout_sec u retry left_sec out =
     (let budget = (if retry = 0 then timeout_sec else left_sec)
      in case curl_run env (http_write_callback (ne_alloc env))
                (provider_http_setup (ne_getenv env) url headers body budget PROVIDER_READ_IDLE_SEC) budget u (snd (snd out)) of
           (u, None) \<Rightarrow> (u, PROVIDER_TRY_FATAL, out)
         | (u, Some (res, code, kind)) \<Rightarrow>
             (u, if res = CURLE_OK then PROVIDER_TRY_DONE else PROVIDER_TRY_FAILED,
              (res, if res = CURLE_OK then code else fst (snd out), kind)))"

definition empty_resp :: provider_http_resp where "empty_resp = \<lparr>hr_data = [], hr_capacity = 0\<rparr>"

definition http_try_reset :: "net_world \<times> provider_http_resp \<Rightarrow> net_world \<times> provider_http_resp" where
  "http_try_reset u = (fst u, empty_resp)"

definition post_fail_code :: "curl_code \<Rightarrow> prov_tmo \<Rightarrow> net_ret" where
  "post_fail_code res tmo =
     (if res \<noteq> CURLE_OPERATION_TIMEDOUT then AIRY_ERR_IO
      else if tmo = PROV_TMO_STALL then AIRY_ERR_LLM_STREAM_STALL
      else if tmo = PROV_TMO_TOTAL then AIRY_ETIMEDOUT
      else AIRY_ERR_IO)"

text \<open>The response and the status code are written on success only.\<close>

definition provider_http_post ::
  "net_env \<Rightarrow> string \<Rightarrow> string list \<Rightarrow> string \<Rightarrow> rat \<Rightarrow> int \<Rightarrow> provider_retry_class \<Rightarrow> bool \<Rightarrow> net_world \<Rightarrow>
   net_world \<times> net_ret \<times> (provider_http_resp \<times> int) option" where
  "provider_http_post env url headers body timeout_sec max_retries cls idempotent w =
     (if \<not> ne_alloc env 24 then (w, AIRY_ERR_OUT_OF_MEMORY, None)
      else let cfg = \<lparr>rt_timeout_sec = timeout_sec, rt_max_retries = max_retries, rt_class = cls, rt_idempotent = idempotent,
                 rt_attempt = http_try env url headers body timeout_sec, rt_gate = None, rt_reset = Some http_try_reset\<rparr>
           in case provider_retry_run (ne_retry env (nw_runs w)) cfg (w\<lparr>nw_runs := nw_runs w + 1\<rparr>, empty_resp) of
                ((w, resp), None, _) \<Rightarrow> (w, AIRY_ERR_UNKNOWN, None)
              | ((w, resp), Some (res, code, tmo), _) \<Rightarrow>
                  if res \<noteq> CURLE_OK then (w, post_fail_code res tmo, None) else (w, AIRY_OK, Some (resp, code)))"

section \<open>Requests\<close>

definition url_trim :: "string \<Rightarrow> string" where
  "url_trim s = rev (dropWhile (\<lambda>c. c = CHR ''/'' \<or> c = CHR 0x5C) (rev s))"

definition provider_url_join :: "string \<Rightarrow> string \<Rightarrow> nat \<Rightarrow> string option" where
  "provider_url_join api_base path out_size =
     (if out_size = 0 \<or> url_trim api_base = [] then None
      else let s = url_trim api_base @ path in if out_size \<le> length s then None else Some s)"

definition provider_http_err_map :: "int \<Rightarrow> net_ret \<Rightarrow> net_ret" where
  "provider_http_err_map http_code fallback =
     (if http_code = 401 \<or> http_code = 403 then AIRY_ERR_LLM_AUTH_FAIL
      else if http_code = 429 then AIRY_ERR_LLM_RATE_LIMIT
      else if http_code = 400 \<or> http_code = 422 then AIRY_ERR_LLM_BAD_REQUEST
      else fallback)"

text \<open>Pieces between separators, the last one included.\<close>

fun split_seps :: "(char \<Rightarrow> bool) \<Rightarrow> string \<Rightarrow> string list" where
  "split_seps P [] = [[]]"
| "split_seps P (c # cs) =
     (if P c then [] # split_seps P cs
      else case split_seps P cs of [] \<Rightarrow> [[c]] | p # ps \<Rightarrow> (c # p) # ps)"

definition trim_line :: "string \<Rightarrow> string" where
  "trim_line s = rev (dropWhile (\<lambda>c. is_blank c \<or> c = chr_cr) (rev (dropWhile is_blank s)))"

definition headers_add_extra :: "string list \<Rightarrow> string \<Rightarrow> string list" where
  "headers_add_extra headers raw =
     headers @ filter (\<lambda>l. l \<noteq> [] \<and> CHR '':'' \<in> set l) (map trim_line (split_seps (\<lambda>c. c = CHR '';'' \<or> c = chr_nl) (snprintf_s 512 raw)))"

datatype provider_auth_kind = PROVIDER_AUTH_NONE | PROVIDER_AUTH_BEARER | PROVIDER_AUTH_X_API_KEY

record provider_header_spec =
  hs_auth :: provider_auth_kind
  hs_extra :: "string list"

record provider_base =
  pb_name :: string
  pb_api_key :: string
  pb_api_base :: string
  pb_extra_headers :: string
  pb_timeout_sec :: rat
  pb_timeout_auto :: bool
  pb_max_retries :: int
  pb_retry_class :: provider_retry_class

definition provider_headers_build :: "provider_base \<Rightarrow> provider_header_spec option \<Rightarrow> string list" where
  "provider_headers_build base spec =
     (let auth = (case spec of
            Some sp \<Rightarrow> if hs_auth sp \<noteq> PROVIDER_AUTH_NONE \<and> pb_api_key base \<noteq> []
              then [snprintf_s 1024 ((if hs_auth sp = PROVIDER_AUTH_X_API_KEY then ''x-api-key: '' else ''Authorization: Bearer '') @ pb_api_key base)]
              else []
          | None \<Rightarrow> []);
          extra = (case spec of None \<Rightarrow> [] | Some sp \<Rightarrow> hs_extra sp)
      in headers_add_extra (auth @ [''Content-Type: application/json''] @ extra) (pb_extra_headers base))"

definition provider_budget_sec :: "provider_base \<Rightarrow> prov_stats \<Rightarrow> rat" where
  "provider_budget_sec base s =
     (if pb_timeout_auto base \<or> pb_timeout_sec base \<le> 0 then prov_tmo_auto (pb_name base) s else pb_timeout_sec base)"

section \<open>Rate limiter\<close>

definition PROVIDER_RL_DEFAULT_RPM :: int where "PROVIDER_RL_DEFAULT_RPM = 500"
definition PROVIDER_RL_MAX_RETRIES :: int where "PROVIDER_RL_MAX_RETRIES = 5"
definition PROVIDER_RL_BASE_DELAY_MS :: int where "PROVIDER_RL_BASE_DELAY_MS = 1000"
definition PROVIDER_RL_MAX_DELAY_MS :: int where "PROVIDER_RL_MAX_DELAY_MS = 60000"

definition provider_rl_init :: "int \<Rightarrow> provider_rate_limiter" where
  "provider_rl_init now = \<lparr>rl_window_start = now, rl_count = 0, rl_limit = PROVIDER_RL_DEFAULT_RPM, rl_last_429 = 0,
     rl_retry_after = 0, rl_consecutive = 0\<rparr>"

definition rl_check_rpm :: "int \<Rightarrow> provider_rate_limiter \<Rightarrow> provider_rate_limiter \<times> bool" where
  "rl_check_rpm now rl =
     (let rl = (if 60 \<le> now - rl_window_start rl then rl\<lparr>rl_count := 0, rl_window_start := now\<rparr> else rl)
      in if rl_limit rl \<le> rl_count rl then (rl, False) else (rl\<lparr>rl_count := rl_count rl + 1\<rparr>, True))"

definition rl_record_429 :: "int \<Rightarrow> int \<Rightarrow> provider_rate_limiter \<Rightarrow> provider_rate_limiter" where
  "rl_record_429 now retry_after rl = rl\<lparr>rl_last_429 := now, rl_consecutive := rl_consecutive rl + 1,
     rl_retry_after := (if 0 < retry_after then retry_after else 0)\<rparr>"

text \<open>\<open>int\<close> shifted to the left, as a machine word.\<close>

definition shl_int :: "int \<Rightarrow> nat \<Rightarrow> int" where
  "shl_int x n = sint (push_bit n (word_of_int x :: 32 word))"

definition rl_delay :: "nat \<Rightarrow> int" where
  "rl_delay attempt = (let d = shl_int PROVIDER_RL_BASE_DELAY_MS attempt in if PROVIDER_RL_MAX_DELAY_MS < d then PROVIDER_RL_MAX_DELAY_MS else d)"

definition rl_get_wait_ms :: "nat \<Rightarrow> nat \<Rightarrow> provider_rate_limiter \<Rightarrow> provider_rate_limiter \<times> int" where
  "rl_get_wait_ms rnd attempt rl =
     (if 0 < rl_retry_after rl then (rl\<lparr>rl_retry_after := 0\<rparr>, rl_retry_after rl * 1000)
      else (rl, trunc_long (of_int (rl_delay attempt) + of_nat rnd / 100 * of_int (rl_delay attempt) * (1 / 5))))"

definition rl_reset_429 :: "provider_rate_limiter \<Rightarrow> provider_rate_limiter" where
  "rl_reset_429 rl = rl\<lparr>rl_consecutive := 0, rl_retry_after := 0\<rparr>"

definition parse_retry_after :: "string \<Rightarrow> int" where
  "parse_retry_after data =
     (case (case strstr data ''retry-after:'' of None \<Rightarrow> strstr data ''Retry-After:'' | Some r \<Rightarrow> Some r) of
        None \<Rightarrow> 0
      | Some r \<Rightarrow>
          let seconds = fst (strtol (dropWhile is_blank (drop 12 r)))
          in if seconds \<le> 0 then 0 else if 300 < seconds then 300 else seconds)"

text \<open>
  The body of the last response is what \<open>parse_retry_after\<close> is given. The result is the limiter
  and the state; the delays are ghosts of the sleeping calls.
\<close>

definition rl_hold_429 ::
  "net_env \<Rightarrow> nat \<Rightarrow> provider_http_resp option \<Rightarrow> net_world \<times> provider_rate_limiter \<Rightarrow> (net_world \<times> provider_rate_limiter) \<times> int" where
  "rl_hold_429 env attempt resp s =
     (case s of (w, rl) \<Rightarrow>
        let retry_after = parse_retry_after (case resp of None \<Rightarrow> [] | Some r \<Rightarrow> hr_data r);
            rl = rl_record_429 (ne_time env (nw_times w)) retry_after (ne_others env 2 (nw_times w) rl);
            w = w\<lparr>nw_times := nw_times w + 1\<rparr>;
            w = (case resp of None \<Rightarrow> w | Some r \<Rightarrow> w\<lparr>nw_diag := prov_diag_set 429 (hr_data r)\<rparr>);
            (rl, wait_ms) = rl_get_wait_ms (ne_rand99 env (nw_times w)) attempt (ne_others env 3 (nw_times w) rl)
        in ((w, rl), wait_ms))"

text \<open>
  One round of \<open>provider_http_request_with_retry\<close>: \<open>Inr\<close> goes on with the next value of \<open>attempt\<close>
  (the same one after the limiter refused), \<open>Inl\<close> is the result. \<open>http_code\<close> is the caller's variable,
  which \<open>provider_http_post\<close> leaves alone on failure.
\<close>

definition rl_round ::
  "net_env \<Rightarrow> provider_base \<Rightarrow> string \<Rightarrow> string list \<Rightarrow> string \<Rightarrow> rat \<Rightarrow> bool \<Rightarrow> nat \<Rightarrow>
   nat \<Rightarrow> int \<Rightarrow> net_world \<times> provider_rate_limiter \<Rightarrow>
   (net_world \<times> provider_rate_limiter) \<times> int \<times> (net_ret \<times> provider_http_resp option + nat)" where
  "rl_round env base url headers body timeout_sec idempotent max_attempts attempt http_code s =
     (case rl_check_rpm (ne_time env (nw_times (fst s))) (ne_others env 0 (nw_times (fst s)) (snd s)) of
        (rl, False) \<Rightarrow> (((fst s)\<lparr>nw_times := nw_times (fst s) + 1\<rparr>, rl), http_code, Inr attempt)
      | (rl, True) \<Rightarrow>
          (let w = (fst s)\<lparr>nw_times := nw_times (fst s) + 1\<rparr>;
               budget = (if 0 < timeout_sec then timeout_sec else pb_timeout_sec base)
           in case provider_http_post env url headers body budget (pb_max_retries base) (pb_retry_class base) idempotent w of
                (w, ret, r) \<Rightarrow>
                  let http_code = (case r of None \<Rightarrow> http_code | Some (_, code) \<Rightarrow> code); resp = map_option fst r
                  in if ret = AIRY_OK \<and> http_code = 200 then ((w, rl_reset_429 (ne_others env 1 (nw_times w) rl)), http_code, Inl (AIRY_OK, resp))
                     else if http_code = 429
                     then (fst (rl_hold_429 env attempt resp (w, rl)), http_code, Inr (attempt + 1))
                     else if 500 \<le> http_code \<and> http_code < 600 \<and> attempt + 1 < max_attempts
                     then ((w, rl), http_code, Inr (attempt + 1))
                     else ((w, rl), http_code, Inl (provider_http_err_map http_code AIRY_ERR_IO, resp))))"

partial_function (option) rl_loop ::
  "net_env \<Rightarrow> provider_base \<Rightarrow> string \<Rightarrow> string list \<Rightarrow> string \<Rightarrow> rat \<Rightarrow> bool \<Rightarrow> nat \<Rightarrow>
   nat \<Rightarrow> int \<Rightarrow> net_world \<times> provider_rate_limiter \<Rightarrow>
   ((net_world \<times> provider_rate_limiter) \<times> int \<times> net_ret \<times> provider_http_resp option) option" where
  "rl_loop env base url headers body timeout_sec idempotent max_attempts attempt http_code s =
     (if attempt < max_attempts
      then case rl_round env base url headers body timeout_sec idempotent max_attempts attempt http_code s of
             (s, http_code, Inl r) \<Rightarrow> Some (s, http_code, r)
           | (s, http_code, Inr attempt) \<Rightarrow>
               rl_loop env base url headers body timeout_sec idempotent max_attempts attempt http_code s
      else Some (s, http_code, provider_http_err_map http_code AIRY_ERR_IO, None))"

declare rl_loop.simps [code]

definition rl_attempts :: "provider_base \<Rightarrow> nat" where
  "rl_attempts base = nat (if 0 < pb_max_retries base then pb_max_retries base else PROVIDER_RL_MAX_RETRIES)"

definition provider_http_request_with_retry ::
  "net_env \<Rightarrow> provider_base \<Rightarrow> string \<Rightarrow> string list \<Rightarrow> string \<Rightarrow> rat \<Rightarrow> bool \<Rightarrow> int \<Rightarrow> net_world \<times> provider_rate_limiter \<Rightarrow>
   ((net_world \<times> provider_rate_limiter) \<times> int \<times> net_ret \<times> provider_http_resp option) option" where
  "provider_http_request_with_retry env base url headers body timeout_sec idempotent http_code s =
     rl_loop env base url headers body timeout_sec idempotent (rl_attempts base) 0 http_code s"

section \<open>Counting transfers\<close>

definition xfer_count :: "net_world \<Rightarrow> net_world \<times> 's \<Rightarrow> nat \<Rightarrow> bool" where
  "xfer_count w0 u n \<longleftrightarrow> nw_xfers (fst u) = nw_xfers w0 + n \<and> nw_runs (fst u) = nw_runs w0 \<and> nw_times (fst u) = nw_times w0 \<and>
     nw_diag (fst u) = nw_diag w0"

lemma curl_run_count: "xfer_count w0 u n \<Longrightarrow> xfer_count w0 (fst (curl_run env cb opts budget u tmo)) (Suc n)"
  by (simp add: xfer_count_def curl_run_def split: option.split prod.split)

lemma http_try_count: "xfer_count w0 u n \<Longrightarrow> xfer_count w0 (fst (http_try env url headers body t u retry left out)) (Suc n)"
proof -
  have "fst (case x of (u, None) \<Rightarrow> (u, PROVIDER_TRY_FATAL, out) | (u, Some (res, code, kind)) \<Rightarrow> (u, a res, b res code kind)) = fst x"
    for x :: "(net_world \<times> provider_http_resp) \<times> (curl_code \<times> int \<times> prov_tmo) option" and a b
    by (auto split: prod.split option.split)
  then show "xfer_count w0 u n \<Longrightarrow> ?thesis" by (simp add: http_try_def Let_def curl_run_count)
qed

lemma reset_count: "xfer_count w0 u n \<Longrightarrow> xfer_count w0 (http_try_reset u) n"
  by (simp add: xfer_count_def http_try_reset_def)

lemma post_count:
  assumes "provider_http_post env url headers body t mr cls idem w = (w', x)"
  shows "nw_times w' = nw_times w" "nw_runs w' \<le> nw_runs w + 1" "nw_diag w' = nw_diag w"
    "nw_xfers w' \<le> nw_xfers w + nat (max 0 mr) + 1"
proof -
  have "nw_times w' = nw_times w \<and> nw_runs w' \<le> nw_runs w + 1 \<and> nw_diag w' = nw_diag w \<and>
      nw_xfers w' \<le> nw_xfers w + nat (max 0 mr) + 1"
  proof (cases "ne_alloc env 24")
    case False
    with assms show ?thesis by (simp add: provider_http_post_def)
  next
    case True
    define cfg where "cfg = \<lparr>rt_timeout_sec = t, rt_max_retries = mr, rt_class = cls, rt_idempotent = idem,
        rt_attempt = http_try env url headers body t, rt_gate = None, rt_reset = Some http_try_reset\<rparr>"
    define w0 where "w0 = w\<lparr>nw_runs := nw_runs w + 1\<rparr>"
    obtain u r tr where run: "provider_retry_run (ne_retry env (nw_runs w)) cfg (w0, empty_resp) = (u, r, tr)"
      by (metis prod_cases3)
    let ?mx = "nat (if 0 < rt_max_retries cfg then rt_max_retries cfg else 0)"
    have l: "retry_loop (ne_retry env (nw_runs w)) cfg ?mx 0 (w0, empty_resp) (CURLE_OK, 0, PROV_TMO_KIND_N) = (u, r, tr)"
      using run by (simp add: provider_retry_run_def)
    have "xfer_count w0 u (length ([] @ tr))"
    proof (rule retry_loop_trace [where I = "\<lambda>u xs. xfer_count w0 u (length xs)", OF _ _ l])
      show "xfer_count w0 (w0, empty_resp) (length [])" by (simp add: xfer_count_def)
    next
      fix u and xs :: "(provider_attempt \<times> try_out) list" and retry left out u1 st o1
      assume "xfer_count w0 u (length xs)" "rt_attempt cfg u retry left out = (u1, st, o1)"
      then show "xfer_count w0 u1 (length (xs @ [(st, o1)]))"
        using http_try_count [of w0 u "length xs" env url headers body t retry left out] by (simp add: cfg_def)
    qed (auto simp: cfg_def reset_count)
    moreover have "length tr \<le> nat (max 0 mr) + 1"
      using conjunct1 [OF retry_trace [OF l]] by (auto simp: cfg_def split: if_splits)
    moreover have "w' = fst u"
      using assms True run unfolding provider_http_post_def Let_def cfg_def [symmetric] w0_def [symmetric]
      by (auto split: option.splits prod.splits if_splits)
    ultimately show ?thesis by (simp add: xfer_count_def w0_def)
  qed
  then show "nw_times w' = nw_times w" "nw_runs w' \<le> nw_runs w + 1" "nw_diag w' = nw_diag w"
    "nw_xfers w' \<le> nw_xfers w + nat (max 0 mr) + 1" by simp_all
qed

section \<open>The limiter's loop\<close>

text \<open>
  Other requests do not change the limit, and they do not use up a window they have opened before this
  request has had a look at it.
\<close>

definition leaves_room :: "net_env \<Rightarrow> bool" where
  "leaves_room env \<longleftrightarrow> (\<forall>m k rl. rl_limit (ne_others env m k rl) = rl_limit rl \<and>
     (rl_window_start (ne_others env m k rl) = rl_window_start rl \<or> rl_count (ne_others env m k rl) < rl_limit rl))"

lemma leaves_room_limit: "leaves_room env \<Longrightarrow> rl_limit (ne_others env m k rl) = rl_limit rl"
  by (simp add: leaves_room_def)

lemma rl_check_frame:
  assumes "rl_check_rpm now (ne_others env m k rl) = (rl', ok)" and "0 < rl_limit rl" and "leaves_room env"
  shows "rl_limit rl' = rl_limit rl"
    and "\<not> ok \<Longrightarrow> rl_window_start rl' = rl_window_start rl \<and> now < rl_window_start rl + 60"
proof -
  let ?o = "ne_others env m k rl"
  have o: "rl_limit ?o = rl_limit rl" "rl_window_start ?o = rl_window_start rl \<or> rl_count ?o < rl_limit rl"
    using assms(3) by (auto simp: leaves_room_def)
  show "rl_limit rl' = rl_limit rl" using assms(1) o(1) by (auto simp: rl_check_rpm_def Let_def split: if_splits)
  show "rl_window_start rl' = rl_window_start rl \<and> now < rl_window_start rl + 60" if "\<not> ok"
    using assms(1,2) o that by (auto simp: rl_check_rpm_def Let_def split: if_splits)
qed

lemma hold_frame:
  assumes "rl_hold_429 env attempt resp (w, rl) = ((w', rl'), d)" and "leaves_room env"
  shows "rl_limit rl' = rl_limit rl" "nw_runs w' = nw_runs w" "nw_xfers w' = nw_xfers w"
  using assms
  by (auto simp: rl_hold_429_def rl_record_429_def rl_get_wait_ms_def leaves_room_limit Let_def split: option.splits if_splits)

definition limiter_codes :: "net_ret set" where
  "limiter_codes = {AIRY_OK, AIRY_ERR_LLM_AUTH_FAIL, AIRY_ERR_LLM_RATE_LIMIT, AIRY_ERR_LLM_BAD_REQUEST, AIRY_ERR_IO}"

lemma err_map_codes: "provider_http_err_map code AIRY_ERR_IO \<in> limiter_codes - {AIRY_OK}"
  by (simp add: provider_http_err_map_def limiter_codes_def)

lemma rl_round_accepted:
  assumes "rl_check_rpm (ne_time env (nw_times w)) (ne_others env 0 (nw_times w) rl) = (rl1, True)"
    and "provider_http_post env url headers body (if 0 < t then t else pb_timeout_sec base) (pb_max_retries base) (pb_retry_class base) idem
      (w\<lparr>nw_times := nw_times w + 1\<rparr>) = (w2, ret, r)"
    and "cd = (case r of None \<Rightarrow> code | Some (_, code) \<Rightarrow> code)"
  shows "rl_round env base url headers body t idem mx attempt code (w, rl) =
    (if ret = AIRY_OK \<and> cd = 200 then ((w2, rl_reset_429 (ne_others env 1 (nw_times w2) rl1)), cd, Inl (AIRY_OK, map_option fst r))
     else if cd = 429 then (fst (rl_hold_429 env attempt (map_option fst r) (w2, rl1)), cd, Inr (attempt + 1))
     else if 500 \<le> cd \<and> cd < 600 \<and> attempt + 1 < mx then ((w2, rl1), cd, Inr (attempt + 1))
     else ((w2, rl1), cd, Inl (provider_http_err_map cd AIRY_ERR_IO, map_option fst r)))"
  unfolding rl_round_def fst_conv snd_conv assms(1) prod.case bool.case Let_def assms(2) assms(3) [symmetric] ..

text \<open>A round is refused by the limiter, or it makes one request and ends or counts an attempt.\<close>

lemma rl_round_cases:
  assumes "rl_round env base url headers body t idem mx attempt code (w, rl) = ((w', rl'), code', x)" and "0 < rl_limit rl"
    and room: "leaves_room env"
  obtains
    (refused) "x = Inr attempt" "rl_window_start rl' = rl_window_start rl" "rl_limit rl' = rl_limit rl" "w' = w\<lparr>nw_times := nw_times w + 1\<rparr>" "ne_time env (nw_times w) < rl_window_start rl + 60"
  | (counted) "x = Inr (attempt + 1)" "rl_limit rl' = rl_limit rl" "nw_runs w' \<le> nw_runs w + 1"
      "nw_xfers w' \<le> nw_xfers w + nat (max 0 (pb_max_retries base)) + 1"
  | (ended) ret resp where "x = Inl (ret, resp)" "ret \<in> limiter_codes" "ret = AIRY_OK \<Longrightarrow> code' = 200 \<and> resp \<noteq> None"
      "nw_runs w' \<le> nw_runs w + 1" "nw_xfers w' \<le> nw_xfers w + nat (max 0 (pb_max_retries base)) + 1"
proof -
  obtain rl1 ok where c: "rl_check_rpm (ne_time env (nw_times w)) (ne_others env 0 (nw_times w) rl) = (rl1, ok)" by fastforce
  note cf = rl_check_frame [OF c assms(2) room]
  show thesis
  proof (cases ok)
    case False
    with assms(1) c cf show thesis by (intro refused) (auto simp: rl_round_def)
  next
    case True
    then have c': "rl_check_rpm (ne_time env (nw_times w)) (ne_others env 0 (nw_times w) rl) = (rl1, True)" using c by simp
    define w1 where "w1 = w\<lparr>nw_times := nw_times w + 1\<rparr>"
    obtain w2 ret r where p: "provider_http_post env url headers body (if 0 < t then t else pb_timeout_sec base)
        (pb_max_retries base) (pb_retry_class base) idem w1 = (w2, ret, r)"
      by (metis prod_cases3)
    note pc = post_count [OF p]
    define cd where "cd = (case r of None \<Rightarrow> code | Some (_, code) \<Rightarrow> code)"
    obtain w3 rl3 d where h: "rl_hold_429 env attempt (map_option fst r) (w2, rl1) = ((w3, rl3), d)" by (metis prod.exhaust)
    have e: "(if ret = AIRY_OK \<and> cd = 200 then ((w2, rl_reset_429 (ne_others env 1 (nw_times w2) rl1)), cd, Inl (AIRY_OK, map_option fst r))
        else if cd = 429 then ((w3, rl3), cd, Inr (attempt + 1))
        else if 500 \<le> cd \<and> cd < 600 \<and> attempt + 1 < mx then ((w2, rl1), cd, Inr (attempt + 1))
        else ((w2, rl1), cd, Inl (provider_http_err_map cd AIRY_ERR_IO, map_option fst r))) = ((w', rl'), code', x)"
      using assms(1) unfolding rl_round_accepted [OF c' p [unfolded w1_def] cd_def] h fst_conv .
    have ok_resp: "ret = AIRY_OK \<Longrightarrow> r \<noteq> None" using p
      by (auto simp: provider_http_post_def post_fail_code_def Let_def split: if_splits prod.splits option.splits)
    have w1: "nw_runs w1 = nw_runs w" "nw_xfers w1 = nw_xfers w" by (simp_all add: w1_def)
    consider "ret = AIRY_OK" "cd = 200" | "\<not> (ret = AIRY_OK \<and> cd = 200)" "cd = 429 \<or> 500 \<le> cd \<and> cd < 600 \<and> attempt + 1 < mx"
      | "\<not> (ret = AIRY_OK \<and> cd = 200)" "cd \<noteq> 429" "\<not> (500 \<le> cd \<and> cd < 600 \<and> attempt + 1 < mx)" by blast
    then show thesis
    proof cases
      case 1
      show thesis
        by (rule ended [of AIRY_OK "map_option fst r"]) (insert e 1 ok_resp pc w1, auto simp: limiter_codes_def)
    next
      case 2
      show thesis by (rule counted) (insert e 2 pc w1 hold_frame [OF h room] cf(1), auto split: if_splits)
    next
      case 3
      show thesis
        by (rule ended [of "provider_http_err_map cd AIRY_ERR_IO" "map_option fst r"])
          (insert e 3 pc w1 err_map_codes [of cd], auto)
    qed
  qed
qed

definition limiter_done :: "nat \<Rightarrow> nat \<Rightarrow> net_world \<Rightarrow> (net_world \<times> provider_rate_limiter) \<times> int \<times> net_ret \<times> provider_http_resp option \<Rightarrow> bool" where
  "limiter_done posts per w r \<longleftrightarrow> (case r of ((w', rl'), code, ret, resp) \<Rightarrow>
     ret \<in> limiter_codes \<and> (ret = AIRY_OK \<longrightarrow> code = 200 \<and> resp \<noteq> None) \<and>
     nw_runs w' \<le> nw_runs w + posts \<and> nw_xfers w' \<le> nw_xfers w + posts * per)"

lemma limiter_done_step:
  assumes "limiter_done d per w' q" and "nw_runs w' \<le> nw_runs w + 1" and "nw_xfers w' \<le> nw_xfers w + per"
  shows "limiter_done (Suc d) per w q"
  using assms by (auto simp: limiter_done_def)

lemma rl_loop_returns:
  assumes clock: "\<And>T k. K T \<le> k \<Longrightarrow> T \<le> ne_time env k" and room: "leaves_room env" and lim: "0 < rl_limit rl"
  shows "\<exists>r. rl_loop env base url headers body t idem mx attempt code (w, rl) = Some r \<and>
    limiter_done (mx - attempt) (nat (max 0 (pb_max_retries base)) + 1) w r"
  using lim
proof (induction "mx - attempt" arbitrary: attempt code w rl rule: less_induct)
  case outer: less
  show ?case using outer.prems
  proof (induction "K (rl_window_start rl + 60) - nw_times w" arbitrary: code w rl rule: less_induct)
    case inner: less
    note unf = rl_loop.simps [of env base url headers body t idem mx attempt code "(w, rl)"]
    let ?per = "nat (max 0 (pb_max_retries base)) + 1"
    show ?case
    proof (cases "attempt < mx")
      case False
      then show ?thesis using err_map_codes [of code] by (auto simp: unf limiter_done_def)
    next
      case True
      obtain w' rl' code' x where r: "rl_round env base url headers body t idem mx attempt code (w, rl) = ((w', rl'), code', x)"
        by (metis prod.exhaust)
      show ?thesis
        using r inner.prems room
      proof (cases rule: rl_round_cases)
        case refused
        have lt: "K (rl_window_start rl' + 60) - nw_times w' < K (rl_window_start rl + 60) - nw_times w"
        proof -
          have "nw_times w < K (rl_window_start rl + 60)"
            using clock [of "rl_window_start rl + 60" "nw_times w"] refused(5) by (meson linorder_not_less order.strict_trans1 order_less_irrefl)
          then show ?thesis using refused(2,4) by simp
        qed
        have "0 < rl_limit rl'" using refused(3) inner.prems by simp
        from inner.hyps [OF lt this, of code'] obtain q where
          "rl_loop env base url headers body t idem mx attempt code' (w', rl') = Some q" "limiter_done (mx - attempt) ?per w' q" by blast
        then show ?thesis using True r refused by (auto simp: unf limiter_done_def)
      next
        case counted
        have lim': "0 < rl_limit rl'" using counted inner.prems by simp
        have "mx - (attempt + 1) < mx - attempt" using True by simp
        from outer.hyps [OF this lim', of code' w'] obtain q where
          q: "rl_loop env base url headers body t idem mx (attempt + 1) code' (w', rl') = Some q"
             "limiter_done (mx - (attempt + 1)) ?per w' q" by blast
        have "mx - attempt = Suc (mx - (attempt + 1))" using True by simp
        then have "limiter_done (mx - attempt) ?per w q"
          using limiter_done_step [OF q(2) counted(3)] counted(4) by simp
        then show ?thesis using True r counted(1) q(1) by (simp add: unf)
      next
        case (ended ret resp)
        obtain d where "mx - attempt = Suc d" using True by (metis Suc_diff_Suc)
        with ended True r show ?thesis by (simp add: unf limiter_done_def)
      qed
    qed
  qed
qed

text \<open>
  C35. A rate-limited request ends unless others crowd it out. The limiter is shared: between any two
  of its accesses other requests may change it. If they never use up a window they have opened before
  this request looks at it (\<open>leaves_room\<close>), the wall clock does not stop and the limit is positive, the
  loop that waits for the limiter returns, whatever the transfers do; it makes at most \<open>max_attempts\<close> requests and each at most \<open>max_retries + 1\<close> transfers. It reports success only
  for status 200 with a response, and its error is one of four codes. Without the condition it may wait
  for ever (\<open>starved_request\<close>).
\<close>

theorem limited_request_returns:
  assumes "\<And>T. \<exists>k0. \<forall>k\<ge>k0. T \<le> ne_time env k" and "leaves_room env" and "0 < rl_limit rl"
  shows "\<exists>w' rl' code' ret resp.
    provider_http_request_with_retry env base url headers body t idem code (w, rl) = Some ((w', rl'), code', ret, resp) \<and>
    nw_runs w' \<le> nw_runs w + rl_attempts base \<and>
    nw_xfers w' \<le> nw_xfers w + rl_attempts base * (nat (max 0 (pb_max_retries base)) + 1) \<and>
    (ret = AIRY_OK \<longrightarrow> code' = 200 \<and> resp \<noteq> None) \<and>
    ret \<in> {AIRY_OK, AIRY_ERR_LLM_AUTH_FAIL, AIRY_ERR_LLM_RATE_LIMIT, AIRY_ERR_LLM_BAD_REQUEST, AIRY_ERR_IO}"
proof -
  obtain K where "\<And>T k. K T \<le> k \<Longrightarrow> T \<le> ne_time env k" using assms(1) by metis
  from rl_loop_returns [OF this assms(2,3), where attempt = 0 and mx = "rl_attempts base"]
  show ?thesis unfolding provider_http_request_with_retry_def limiter_done_def limiter_codes_def by fastforce
qed

text \<open>Three transfers: status 429, a stall after the request went out, success.\<close>

definition ok_xfer :: "int \<Rightarrow> xfer" where
  "ok_xfer code = \<lparr>x_chunks = [''{}''], x_end = (\<lambda>_. (CURLE_OK, code, 1, 2))\<rparr>"

definition stall_xfer :: xfer where
  "stall_xfer = \<lparr>x_chunks = [], x_end = (\<lambda>_. (CURLE_OPERATION_TIMEDOUT, 0, 1, 31))\<rparr>"

definition example_net :: "(nat \<Rightarrow> xfer) \<Rightarrow> net_env" where
  "example_net xs = \<lparr>ne_getenv = (\<lambda>_. None), ne_alloc = (\<lambda>_. True), ne_curl = (\<lambda>k opts. Some (xs k)),
     ne_retry = (\<lambda>_. example_retry_env), ne_time = (\<lambda>k. int k), ne_rand99 = (\<lambda>_. 0),
     ne_others = (\<lambda>_ _ rl. rl)\<rparr>"

definition example_world :: net_world where
  "example_world = \<lparr>nw_xfers = 0, nw_runs = 0, nw_times = 0, nw_stats = \<lparr>ps_tmo = (\<lambda>_. 0), ps_lat = []\<rparr>, nw_diag = [], nw_log = []\<rparr>"

definition example_base :: provider_base where
  "example_base = \<lparr>pb_name = ''p'', pb_api_key = ''k'', pb_api_base = ''http://h/'', pb_extra_headers = [], pb_timeout_sec = 60,
     pb_timeout_auto = False, pb_max_retries = 3, pb_retry_class = PROVIDER_RETRY_DEFAULT\<rparr>"

text \<open>Other requests that take one place of the window each time.\<close>

definition crowded_net :: net_env where
  "crowded_net = (example_net (\<lambda>_. stall_xfer))\<lparr>ne_others := (\<lambda>m k rl. rl\<lparr>rl_count := rl_count rl + 1\<rparr>)\<rparr>"

theorem limited_request_returns_witness:
  "\<exists>w' rl' code' ret resp.
    provider_http_request_with_retry crowded_net example_base ''u'' [] ''b'' 0 False 0 (example_world, provider_rl_init 0) =
      Some ((w', rl'), code', ret, resp) \<and> nw_xfers w' \<le> 12"
proof -
  have "\<exists>k0. \<forall>k\<ge>k0. T \<le> ne_time crowded_net k" for T
    by (rule exI [of _ "nat T"]) (auto simp: crowded_net_def example_net_def)
  moreover have "0 < rl_limit (provider_rl_init 0)" by (simp add: provider_rl_init_def PROVIDER_RL_DEFAULT_RPM_def)
  moreover have "leaves_room crowded_net" by (simp add: leaves_room_def crowded_net_def)
  ultimately show ?thesis
    using limited_request_returns [of crowded_net "provider_rl_init 0" example_base "''u''" "[]" "''b''" 0 False 0 example_world]
    by (fastforce simp: rl_attempts_def example_base_def example_world_def)
qed

text \<open>
  A request can be starved. A refused round sleeps one second and does not count as an attempt; when
  other requests open every window and use it up while this one sleeps, the loop never returns, whatever
  the clock says.
\<close>

lemma starved_round:
  assumes "\<And>m k rl. ne_others env m k rl = rl\<lparr>rl_window_start := ne_time env k, rl_count := rl_limit rl\<rparr>"
  shows "\<exists>s' c. rl_round env base url headers body t idem mx attempt code s = (s', c, Inr attempt)"
  using assms by (simp add: rl_round_def rl_check_rpm_def Let_def)

lemma starved_request:
  assumes "\<And>m k rl. ne_others env m k rl = rl\<lparr>rl_window_start := ne_time env k, rl_count := rl_limit rl\<rparr>"
  shows "provider_http_request_with_retry env base url headers body t idem code s = None"
proof -
  have pos: "0 < rl_attempts base" by (simp add: rl_attempts_def PROVIDER_RL_MAX_RETRIES_def)
  have no: "\<not> (e = env \<and> a < m)" if "rl_loop e b u h bd t i m a c s = Some y" for e b u h bd t i m a c s y
  proof (rule rl_loop.raw_induct [where P = "\<lambda>e b u h bd t i m a c s y. \<not> (e = env \<and> a < m)", OF _ that])
    fix f :: "net_env \<Rightarrow> provider_base \<Rightarrow> string \<Rightarrow> string list \<Rightarrow> string \<Rightarrow> rat \<Rightarrow> bool \<Rightarrow> nat \<Rightarrow> nat \<Rightarrow> int \<Rightarrow>
        net_world \<times> provider_rate_limiter \<Rightarrow> ((net_world \<times> provider_rate_limiter) \<times> int \<times> net_ret \<times> provider_http_resp option) option"
    fix e b u h bd t i m a c s y
    assume IH: "\<And>e b u h bd t i m a c s y. f e b u h bd t i m a c s = Some y \<Longrightarrow> \<not> (e = env \<and> a < m)"
      and eq: "(if a < m then case rl_round e b u h bd t i m a c s of (s, c, Inl r) \<Rightarrow> Some (s, c, r) | (s, c, Inr a) \<Rightarrow> f e b u h bd t i m a c s
        else Some (s, c, provider_http_err_map c AIRY_ERR_IO, None)) = Some y"
    show "\<not> (e = env \<and> a < m)"
    proof
      assume *: "e = env \<and> a < m"
      obtain s' c' where "rl_round e b u h bd t i m a c s = (s', c', Inr a)" using starved_round [OF assms] * by blast
      with eq * have "f e b u h bd t i m a c' s' = Some y" by simp
      from IH [OF this] * show False by blast
    qed
  qed
  show ?thesis
  proof (rule ccontr)
    assume "\<not> ?thesis"
    then obtain y where "rl_loop env base url headers body t idem (rl_attempts base) 0 code s = Some y"
      by (auto simp: provider_http_request_with_retry_def)
    from no [OF this] pos show False by simp
  qed
qed

text \<open>
  A stale status. \<open>provider_http_post\<close> writes the status code only when the transfer succeeds, so a
  transfer that stalls after a response 429 is taken for another 429: the request, which is not
  idempotent and may have been executed, is sent again.
\<close>

theorem stale_status_resends:
  "case provider_http_request_with_retry (example_net (\<lambda>k. if k = 0 then ok_xfer 429 else if k = 1 then stall_xfer else ok_xfer 200))
      example_base ''u'' [] ''b'' 0 False 0 (example_world, provider_rl_init 0) of
     Some ((w, rl), code, ret, resp) \<Rightarrow>
       map snd (nw_log w) = [(CURLE_OK, PROV_TMO_KIND_N), (CURLE_OPERATION_TIMEDOUT, PROV_TMO_STALL), (CURLE_OK, PROV_TMO_KIND_N)] \<and>
       ret = AIRY_OK \<and> \<not> not_sent CURLE_OPERATION_TIMEDOUT PROV_TMO_STALL
   | None \<Rightarrow> False"
  by code_simp

text \<open>
  The delay after a status code doubles from one second to one minute; the shift overflows at the
  twenty-second retry, which a configured \<open>max_retries\<close> can reach, and the delay becomes negative.
\<close>

lemma rl_delay_capped: "attempt \<le> 20 \<Longrightarrow> 1000 \<le> rl_delay attempt \<and> rl_delay attempt \<le> 60000"
proof -
  assume "attempt \<le> 20"
  then have "attempt \<in> set [0..<21]" by auto
  moreover have "\<forall>a\<in>set [0..<21]. 1000 \<le> rl_delay a \<and> rl_delay a \<le> 60000" by code_simp
  ultimately show ?thesis by blast
qed

lemma rl_delay_overflow: "rl_delay 22 = - 100663296"
  by code_simp

section \<open>Requests, buffers and timeouts\<close>

lemma http_env_long_pos: "0 < d \<Longrightarrow> 0 < http_env_long getenv n d"
  by (simp add: http_env_long_def split: option.split)

text \<open>
  The timeouts of a transfer. With a total of at least two seconds the connect timeout and the idle
  timeout are positive and strictly smaller than the total, whatever the environment variables say,
  so that the three kinds of timeout can be told apart.
\<close>

theorem setup_timeouts_ordered:
  assumes "2 \<le> timeout_sec"
  shows "let o1 = provider_http_setup getenv url headers body timeout_sec PROVIDER_READ_IDLE_SEC
    in 0 < co_connect_timeout o1 \<and> co_connect_timeout o1 < co_timeout o1 \<and> 0 < co_low_speed_time o1 \<and> co_low_speed_time o1 < co_timeout o1"
proof -
  have t: "2 \<le> trunc_long timeout_sec" using assms by (simp add: trunc_long_def le_floor_iff)
  have b: "0 < below_total (trunc_long timeout_sec) x \<and> below_total (trunc_long timeout_sec) x < trunc_long timeout_sec" if "0 < x" for x
    using t that by (auto simp: below_total_def)
  have c: "0 < http_env_long getenv n (trunc_long 3)" "0 < http_env_long getenv n (trunc_long 30)" for n
    by (rule http_env_long_pos, simp add: trunc_long_def)+
  show ?thesis using b [OF c(1)] b [OF c(2)]
    by (auto simp: provider_http_setup_def Let_def PROVIDER_CONNECT_TIMEOUT_SEC_def PROVIDER_READ_IDLE_SEC_def)
qed

text \<open>
  The minimal window of a retry is lost to truncation. The retry loop waits only if one second is
  left after the delay; a millisecond later less than a second is left, the total timeout of the
  next transfer is truncated to 0, and 0 switches libcurl's limit off.
\<close>

theorem retry_without_total_timeout:
  "provider_retry_budget_ok 10 0 8500 500 \<and>
   co_timeout (provider_http_setup getenv url headers body (provider_left_sec 10 0 (8500 + 500 + 1)) PROVIDER_READ_IDLE_SEC) = 0"
  by (simp add: provider_retry_budget_ok_def provider_left_sec_def provider_http_setup_def trunc_long_def
      PROVIDER_RETRY_MIN_LEFT_MS_def Let_def floor_eq_iff)

lemma url_trim_slash: "c = CHR ''/'' \<or> c = CHR 0x5C \<Longrightarrow> url_trim (b @ [c]) = url_trim b"
  by (auto simp: url_trim_def)

lemma url_trim_last: "url_trim b \<noteq> [] \<Longrightarrow> last (url_trim b) \<noteq> CHR ''/'' \<and> last (url_trim b) \<noteq> CHR 0x5C"
  using hd_dropWhile [of "\<lambda>c. c = CHR ''/'' \<or> c = CHR 0x5C" "rev b"] by (auto simp: url_trim_def last_rev)

text \<open>
  URLs. Trailing slashes of the base address do not matter; a joined address is the base without
  them followed by the path, so that a path that begins with a slash gives exactly one; an address
  that does not fit the buffer is an error and never a truncated address.
\<close>

theorem url_join_law:
  "provider_url_join (b @ slashes) path n =
     (if url_trim b = [] \<or> n \<le> length (url_trim b @ path) then None else Some (url_trim b @ path)) \<and>
   (url_trim b \<noteq> [] \<longrightarrow> last (url_trim b) \<noteq> CHR ''/'')"
  if "set slashes \<subseteq> {CHR ''/'', CHR 0x5C}"
proof -
  have "url_trim (b @ slashes) = url_trim b"
    using that
  proof (induction slashes rule: rev_induct)
    case (snoc c cs)
    then show ?case using url_trim_slash [of c "b @ cs"] by auto
  qed simp
  then show ?thesis using url_trim_last [of b] by (auto simp: provider_url_join_def Let_def)
qed

lemma write_callback_frame:
  assumes "http_write_callback alloc mem c = (mem', n)" and "hr_data mem \<noteq> [] \<longrightarrow> length (hr_data mem) < hr_capacity mem"
  shows "hr_data mem' \<noteq> [] \<longrightarrow> length (hr_data mem') < hr_capacity mem'"
    "n = length c \<Longrightarrow> c \<noteq> [] \<Longrightarrow> hr_data mem' = hr_data mem @ c"
  using assms by (auto simp: http_write_callback_def Let_def split: if_splits)

text \<open>
  The response buffer. After a transfer whose chunks were all accepted the buffer holds exactly the
  bytes received, in order, and always has room for the terminating zero.
\<close>

lemma buffer_exact:
  "case feed_chunks (http_write_callback alloc) empty_resp cs of (mem, refused) \<Rightarrow>
     (hr_data mem \<noteq> [] \<longrightarrow> length (hr_data mem) < hr_capacity mem) \<and> (\<not> refused \<longrightarrow> hr_data mem = concat cs)"
proof -
  have "case feed_chunks (http_write_callback alloc) m cs of (mem, refused) \<Rightarrow>
     (hr_data mem \<noteq> [] \<longrightarrow> length (hr_data mem) < hr_capacity mem) \<and> (\<not> refused \<longrightarrow> hr_data mem = hr_data m @ concat cs)"
    if "hr_data m \<noteq> [] \<longrightarrow> length (hr_data m) < hr_capacity m" for m
    using that
  proof (induction cs arbitrary: m)
    case (Cons c cs)
    obtain m1 n where w: "http_write_callback alloc m c = (m1, n)" by fastforce
    note wf = write_callback_frame [OF w Cons.prems]
    have e: "hr_data m1 = hr_data m @ c" if "n = length c"
      using wf(2) [OF that] w that by (cases "c = []") (auto simp: http_write_callback_def Let_def split: if_splits)
    from Cons.IH [OF wf(1)] wf(1) e w show ?case by (auto split: prod.splits)
  qed simp
  from this [of empty_resp] show ?thesis by (simp add: empty_resp_def)
qed

end
