(* ===== verification/Llm_Sse.thy ===== *)
theory Llm_Sse
  imports Llm_Http
begin

text \<open>
  llm_d, streamed responses: the framing of server-sent events (\<open>providers/core/sse.c\<close>) on top of
  the retry loop, and the choice of transport (\<open>exec_post\<close>, \<open>provider_http_exec\<close> of \<open>http.c\<close>).

  The adapter's callback is a parameter: it sees everything delivered so far, the new payload last,
  and returns non-zero to cancel. \<open>ss_log\<close> is that history, a ghost of the state. In named-event
  mode (\<open>ss_on_event\<close>) a payload comes with the name of its event.
\<close>

section \<open>Buffers\<close>

function grow_cap :: "nat \<Rightarrow> nat \<Rightarrow> nat" where
  "grow_cap cap needed = (if cap = 0 \<or> needed \<le> cap then cap else grow_cap (cap * 2) needed)"
  by pat_completeness auto
termination by (relation "measure (\<lambda>(cap, needed). needed - cap)") auto

declare grow_cap.simps [simp del]

text \<open>A buffer is its content and its capacity; \<open>None\<close>: no memory.\<close>

definition prov_buf_add :: "(nat \<Rightarrow> bool) \<Rightarrow> string \<times> nat \<Rightarrow> string \<Rightarrow> (string \<times> nat) option" where
  "prov_buf_add alloc b data =
     (if data = [] then Some b
      else let needed = length (fst b) + length data + 1
           in if snd b < needed
              then let new_cap = grow_cap (if 0 < snd b then snd b else 4096) needed
                   in if alloc new_cap then Some (fst b @ data, new_cap) else None
              else Some (fst b @ data, snd b))"

type_synonym delivery = "string option \<times> string"

record sse_stream =
  ss_line :: "string \<times> nat"
  ss_raw :: "(string \<times> nat) option"
  ss_on_event :: bool
  ss_event_name :: string
  ss_cancelled :: bool
  ss_done :: bool
  ss_log :: "delivery list"

definition sse_ctx_init :: "(nat \<Rightarrow> bool) \<Rightarrow> bool \<Rightarrow> sse_stream option" where
  "sse_ctx_init alloc on_event =
     (if alloc 4096
      then Some \<lparr>ss_line = ([], 4096), ss_raw = Some ([], 4096), ss_on_event = on_event, ss_event_name = [],
        ss_cancelled = False, ss_done = False, ss_log = []\<rparr>
      else None)"

definition sse_raw_append :: "(nat \<Rightarrow> bool) \<Rightarrow> string \<Rightarrow> sse_stream \<Rightarrow> sse_stream" where
  "sse_raw_append alloc data s =
     (case ss_raw s of
        None \<Rightarrow> s
      | Some b \<Rightarrow> (case prov_buf_add alloc b data of None \<Rightarrow> s | Some b' \<Rightarrow> s\<lparr>ss_raw := Some b'\<rparr>))"

section \<open>Lines\<close>

text \<open>
  The character after a line is a carriage return or a line feed, so skipping blanks never
  leaves the line.
\<close>

definition event_take :: "string \<Rightarrow> sse_stream \<Rightarrow> sse_stream" where
  "event_take line s = s\<lparr>ss_event_name := takeWhile (\<lambda>c. c \<noteq> CHR 0x00) (take 63 (dropWhile is_blank (drop 6 line)))\<rparr>"

definition data_deliver ::
  "(delivery list \<Rightarrow> int) \<Rightarrow> (nat \<Rightarrow> bool) \<Rightarrow> string \<Rightarrow> sse_stream \<Rightarrow> sse_stream \<times> int" where
  "data_deliver cb alloc data s =
     (if \<not> alloc (length data + 1) then (s, 0)
      else let log = ss_log s @ [(if ss_on_event s \<and> ss_event_name s \<noteq> [] then Some (ss_event_name s) else None, data)]
           in (s\<lparr>ss_log := log\<rparr>, cb log))"

definition sse_feed_line ::
  "(delivery list \<Rightarrow> int) \<Rightarrow> (nat \<Rightarrow> bool) \<Rightarrow> string \<Rightarrow> sse_stream \<Rightarrow> sse_stream \<times> int" where
  "sse_feed_line cb alloc line s =
     (if line = [] then (s, 0)
      else if ss_on_event s \<and> take 6 line = ''event:'' then (event_take line s, 0)
      else if take 5 line \<noteq> ''data:'' then (s, 0)
      else let data = dropWhile is_blank (drop 5 line)
           in if take 6 data = ''[DONE]'' then (s\<lparr>ss_done := True\<rparr>, 0)
              else case data_deliver cb alloc data s of
                     (s, ret) \<Rightarrow> (if ret \<noteq> 0 then s\<lparr>ss_cancelled := True\<rparr> else s, ret))"

definition strip_cr :: "string \<Rightarrow> string" where
  "strip_cr l = (if l \<noteq> [] \<and> last l = chr_cr then butlast l else l)"

text \<open>One line that has its line feed, stripped of it.\<close>

definition sse_line ::
  "(delivery list \<Rightarrow> int) \<Rightarrow> (nat \<Rightarrow> bool) \<Rightarrow> string \<Rightarrow> sse_stream \<Rightarrow> sse_stream" where
  "sse_line cb alloc l s =
     (if strip_cr l \<noteq> [] then fst (sse_feed_line cb alloc (strip_cr l) s)
      else if ss_on_event s then s\<lparr>ss_event_name := []\<rparr> else s)"

text \<open>
  The scan of the buffer: \<open>None\<close> when a callback cancels in the middle, else the bytes after the
  last line feed.
\<close>

function sse_scan ::
  "(delivery list \<Rightarrow> int) \<Rightarrow> (nat \<Rightarrow> bool) \<Rightarrow> string \<Rightarrow> sse_stream \<Rightarrow> sse_stream \<times> string option" where
  "sse_scan cb alloc p s =
     (case dropWhile (\<lambda>c. c \<noteq> chr_nl) p of
        [] \<Rightarrow> (s, Some p)
      | nl # rest \<Rightarrow>
          let l = takeWhile (\<lambda>c. c \<noteq> chr_nl) p; s' = sse_line cb alloc l s
          in if strip_cr l \<noteq> [] \<and> ss_cancelled s' then (s', None) else sse_scan cb alloc rest s')"
  by pat_completeness auto
termination
proof (relation "measure (\<lambda>(cb, alloc, p, s). length p)", goal_cases)
  case (2 cb alloc p s nl rest l s')
  have "length (dropWhile (\<lambda>c. c \<noteq> chr_nl) p) \<le> length p" by (rule length_dropWhile_le)
  with 2(1) show ?case by simp
qed simp

declare sse_scan.simps [simp del]

definition sse_process_buffer ::
  "(delivery list \<Rightarrow> int) \<Rightarrow> (nat \<Rightarrow> bool) \<Rightarrow> sse_stream \<Rightarrow> sse_stream" where
  "sse_process_buffer cb alloc s =
     (if fst (ss_line s) = [] then s
      else case sse_scan cb alloc (fst (ss_line s)) s of
             (s, None) \<Rightarrow> s
           | (s, Some rest) \<Rightarrow> s\<lparr>ss_line := (rest, snd (ss_line s))\<rparr>)"

definition sse_write_callback ::
  "(delivery list \<Rightarrow> int) \<Rightarrow> (nat \<Rightarrow> bool) \<Rightarrow> sse_stream \<Rightarrow> string \<Rightarrow> sse_stream \<times> nat" where
  "sse_write_callback cb alloc s contents =
     (if ss_cancelled s then (s, 0)
      else case prov_buf_add alloc (ss_line s) contents of
             None \<Rightarrow> (s, 0)
           | Some b \<Rightarrow>
               let s = sse_process_buffer cb alloc (sse_raw_append alloc contents (s\<lparr>ss_line := b\<rparr>))
               in (s, if ss_cancelled s then 0 else length contents))"

section \<open>The request\<close>

text \<open>Unlike \<open>http_try\<close>, \<open>sse_try\<close> takes the status code of a failed transfer too.\<close>

definition sse_try ::
  "net_env \<Rightarrow> (delivery list \<Rightarrow> int) \<Rightarrow> string \<Rightarrow> string list \<Rightarrow> string \<Rightarrow> rat \<Rightarrow> net_world \<times> sse_stream \<Rightarrow> nat \<Rightarrow> rat \<Rightarrow> try_out \<Rightarrow>
   (net_world \<times> sse_stream) \<times> provider_attempt \<times> try_out" where
  "sse_try env cb url headers body timeout_sec u retry left_sec out =
     (let budget = (if retry = 0 then timeout_sec else left_sec)
      in case curl_run env (sse_write_callback cb (ne_alloc env))
                (provider_http_setup (ne_getenv env) url headers body budget PROVIDER_READ_IDLE_SEC) budget u (snd (snd out)) of
           (u, None) \<Rightarrow> (u, PROVIDER_TRY_FATAL, out)
         | (u, Some (res, code, kind)) \<Rightarrow>
             (u, if res = CURLE_OK then PROVIDER_TRY_DONE else PROVIDER_TRY_FAILED, (res, code, kind)))"

definition raw_len :: "sse_stream \<Rightarrow> nat" where
  "raw_len s = (case ss_raw s of None \<Rightarrow> 0 | Some b \<Rightarrow> length (fst b))"

definition sse_gate :: "net_world \<times> sse_stream \<Rightarrow> curl_code \<Rightarrow> int \<Rightarrow> bool" where
  "sse_gate u res http_code \<longleftrightarrow> http_code = 0 \<and> raw_len (snd u) = 0"

definition sse_reset :: "net_world \<times> sse_stream \<Rightarrow> net_world \<times> sse_stream" where
  "sse_reset u = (fst u, (snd u)\<lparr>ss_line := ([], snd (ss_line (snd u))),
     ss_raw := map_option (\<lambda>b. ([], snd b)) (ss_raw (snd u)), ss_done := False, ss_cancelled := False, ss_event_name := []\<rparr>)"

definition body_dump :: "int \<Rightarrow> net_world \<times> sse_stream \<Rightarrow> net_world" where
  "body_dump http_code u =
     (case ss_raw (snd u) of
        Some b \<Rightarrow> if 400 \<le> http_code \<and> fst b \<noteq> [] then (fst u)\<lparr>nw_diag := prov_diag_set http_code (fst b)\<rparr> else fst u
      | None \<Rightarrow> fst u)"

definition curl_fail :: "curl_code \<Rightarrow> prov_tmo \<Rightarrow> net_ret" where
  "curl_fail res tmo =
     (if res = CURLE_OPERATION_TIMEDOUT
      then if tmo = PROV_TMO_STALL then AIRY_ERR_LLM_STREAM_STALL
           else if tmo = PROV_TMO_TOTAL then AIRY_ETIMEDOUT else AIRY_ERR_IO
      else AIRY_ERR_IO)"

definition http_fail :: "int \<Rightarrow> net_ret" where
  "http_fail http_code = (if http_code = 400 \<or> http_code = 422 then AIRY_ERR_LLM_BAD_REQUEST else AIRY_ERR_IO)"

text \<open>After the transfer: what is left in the buffer, diagnosis, and the return code.\<close>

definition stream_verdict ::
  "(delivery list \<Rightarrow> int) \<Rightarrow> (nat \<Rightarrow> bool) \<Rightarrow> net_world \<times> sse_stream \<Rightarrow> try_out \<Rightarrow> (net_world \<times> sse_stream) \<times> net_ret" where
  "stream_verdict cb alloc u out =
     (case out of (res, code, tmo) \<Rightarrow>
        let s = (if fst (ss_line (snd u)) \<noteq> [] then sse_process_buffer cb alloc (snd u) else snd u);
            w = body_dump code (fst u, s)
        in ((w, s),
            if res \<noteq> CURLE_OK then curl_fail res tmo
            else if 400 \<le> code then http_fail code
            else if \<not> ss_on_event s \<and> \<not> ss_done s \<and> \<not> ss_cancelled s then AIRY_ERR_LLM_STREAM_UNDONE
            else AIRY_OK))"

definition stream_cfg ::
  "net_env \<Rightarrow> (delivery list \<Rightarrow> int) \<Rightarrow> string \<Rightarrow> string list \<Rightarrow> string \<Rightarrow> rat \<Rightarrow> int \<Rightarrow> provider_retry_class \<Rightarrow> bool \<Rightarrow>
   (net_world \<times> sse_stream) provider_retry_cfg" where
  "stream_cfg env cb url headers body timeout_sec max_retries cls idempotent =
     \<lparr>rt_timeout_sec = timeout_sec, rt_max_retries = max_retries, rt_class = cls, rt_idempotent = idempotent,
      rt_attempt = sse_try env cb url headers body timeout_sec, rt_gate = Some sse_gate, rt_reset = Some sse_reset\<rparr>"

definition provider_stream_post ::
  "net_env \<Rightarrow> (delivery list \<Rightarrow> int) \<Rightarrow> string \<Rightarrow> string list \<Rightarrow> string \<Rightarrow> rat \<Rightarrow> int \<Rightarrow> provider_retry_class \<Rightarrow> bool \<Rightarrow> int \<Rightarrow>
   net_world \<times> sse_stream \<Rightarrow> (net_world \<times> sse_stream) \<times> int \<times> net_ret" where
  "provider_stream_post env cb url headers body timeout_sec max_retries cls idempotent http_code u =
     (case provider_retry_run (ne_retry env (nw_runs (fst u))) (stream_cfg env cb url headers body timeout_sec max_retries cls idempotent)
             ((fst u)\<lparr>nw_runs := nw_runs (fst u) + 1\<rparr>, snd u) of
        (u, None, _) \<Rightarrow> (u, http_code, AIRY_ERR_UNKNOWN)
      | (u, Some out, _) \<Rightarrow> (case stream_verdict cb (ne_alloc env) u out of (u, ret) \<Rightarrow> (u, fst (snd out), ret)))"

definition stream_entry ::
  "net_env \<Rightarrow> (delivery list \<Rightarrow> int) \<Rightarrow> bool \<Rightarrow> string \<Rightarrow> string list \<Rightarrow> string \<Rightarrow> rat \<Rightarrow> int \<Rightarrow> provider_retry_class \<Rightarrow> bool \<Rightarrow> int \<Rightarrow>
   net_world \<Rightarrow> net_world \<times> delivery list \<times> int \<times> net_ret" where
  "stream_entry env cb on_event url headers body timeout_sec max_retries cls idempotent http_code w =
     (case sse_ctx_init (ne_alloc env) on_event of
        None \<Rightarrow> (w, [], http_code, AIRY_ERR_OUT_OF_MEMORY)
      | Some s \<Rightarrow>
          (case provider_stream_post env cb url headers body timeout_sec (if max_retries < 0 then 0 else max_retries) cls idempotent
                  http_code (w, s) of
             ((w, s), code, ret) \<Rightarrow> (w, ss_log s, code, ret)))"

end
