(* ===== verification/Llm_Driver.thy ===== *)
theory Llm_Driver
  imports Llm_Sse
begin

text \<open>
  llm_d, the driver all adapters share (\<open>providers/core/adapter.c\<close>) and the choice of transport
  (\<open>exec_post\<close>, \<open>provider_http_exec\<close> of \<open>http.c\<close>).

  The adapter is a record of functions, as in the code. What depends on JSON, building a request,
  parsing a response, assembling the response of a stream, is a parameter; so is the refresh of the
  API key.
\<close>

section \<open>Execution\<close>

text \<open>\<open>rq_stream\<close>: no stream, a line protocol (\<open>Some False\<close>) or named events (\<open>Some True\<close>).\<close>

record provider_request =
  rq_base :: provider_base
  rq_path :: string
  rq_headers :: "provider_header_spec option"
  rq_body :: string
  rq_timeout_sec :: rat
  rq_idempotent :: bool
  rq_stream :: "bool option"

record http_result =
  ex_world :: net_world
  ex_rl :: "provider_rate_limiter option"
  ex_code :: int
  ex_ret :: net_ret
  ex_resp :: "provider_http_resp option"
  ex_log :: "delivery list"

definition exec_post ::
  "net_env \<Rightarrow> (delivery list \<Rightarrow> int) \<Rightarrow> provider_request \<Rightarrow> string \<Rightarrow> string list \<Rightarrow> rat \<Rightarrow> int \<Rightarrow>
   net_world \<times> provider_rate_limiter option \<Rightarrow> http_result option" where
  "exec_post env cb req url headers budget http_code s =
     (let b = rq_base req
      in case rq_stream req of
           Some on_event \<Rightarrow>
             (case stream_entry env cb on_event url headers (rq_body req) budget (pb_max_retries b) (pb_retry_class b) (rq_idempotent req)
                     http_code (fst s) of
                (w, lg, code, ret) \<Rightarrow> Some \<lparr>ex_world = w, ex_rl = snd s, ex_code = code, ex_ret = ret, ex_resp = None, ex_log = lg\<rparr>)
         | None \<Rightarrow>
             (case snd s of
                Some rl \<Rightarrow>
                  (case provider_http_request_with_retry env b url headers (rq_body req) budget (rq_idempotent req) http_code (fst s, rl) of
                     None \<Rightarrow> None
                   | Some ((w, rl), code, ret, resp) \<Rightarrow>
                       Some \<lparr>ex_world = w, ex_rl = Some rl, ex_code = code, ex_ret = ret, ex_resp = resp, ex_log = []\<rparr>)
              | None \<Rightarrow>
                  (case provider_http_post env url headers (rq_body req) budget (pb_max_retries b) (pb_retry_class b) (rq_idempotent req) (fst s) of
                     (w, ret, r) \<Rightarrow>
                       Some \<lparr>ex_world = w, ex_rl = None, ex_code = (case r of None \<Rightarrow> http_code | Some (_, code) \<Rightarrow> code), ex_ret = ret,
                             ex_resp = map_option fst r, ex_log = []\<rparr>)))"

definition provider_http_exec ::
  "net_env \<Rightarrow> (delivery list \<Rightarrow> int) \<Rightarrow> provider_request \<Rightarrow> int \<Rightarrow> net_world \<times> provider_rate_limiter option \<Rightarrow> http_result option" where
  "provider_http_exec env cb req http_code s =
     (case provider_url_join (pb_api_base (rq_base req)) (rq_path req) 1024 of
        None \<Rightarrow> Some \<lparr>ex_world = fst s, ex_rl = snd s, ex_code = http_code, ex_ret = AIRY_ERR_INVALID_PARAM, ex_resp = None, ex_log = []\<rparr>
      | Some url \<Rightarrow>
          exec_post env cb req url (provider_headers_build (rq_base req) (rq_headers req))
            (if 0 < rq_timeout_sec req then rq_timeout_sec req else provider_budget_sec (rq_base req) (nw_stats (fst s))) http_code s)"

section \<open>Responses\<close>

record llm_resp =
  lr_text :: string
  lr_finish_reason :: "string option"
  lr_context_window :: "32 word"
  lr_total_slots :: "32 word"

record props =
  pr_state :: int
  pr_n_ctx_slot :: int
  pr_total_slots :: int

definition stream_integrity :: "(string \<Rightarrow> bool) \<Rightarrow> (string \<Rightarrow> bool) \<Rightarrow> llm_resp \<Rightarrow> net_ret" where
  "stream_integrity truncated filtered resp =
     (case lr_finish_reason resp of
        None \<Rightarrow> AIRY_ERR_LLM_NO_FINISH
      | Some fr \<Rightarrow> if truncated fr then AIRY_ERR_LLM_TRUNCATED else if filtered fr then AIRY_ERR_LLM_CONTENT_FILTERED else AIRY_OK)"

definition resp_stamp_capacity :: "props \<Rightarrow> llm_resp \<Rightarrow> llm_resp" where
  "resp_stamp_capacity pr resp =
     (if pr_state pr \<noteq> 1 then resp
      else let resp = (if 0 < pr_n_ctx_slot pr then resp\<lparr>lr_context_window := word_of_int (pr_n_ctx_slot pr)\<rparr> else resp)
           in if 0 < pr_total_slots pr then resp\<lparr>lr_total_slots := word_of_int (pr_total_slots pr)\<rparr> else resp)"

record gen_cfg =
  gc_temperature :: rat
  gc_seed :: int

definition req_idem :: "gen_cfg \<Rightarrow> bool" where
  "req_idem cfg \<longleftrightarrow> gc_temperature cfg = 0 \<and> gc_seed cfg \<noteq> 0"

definition lat_note :: "provider_base \<Rightarrow> 64 word \<Rightarrow> net_world \<Rightarrow> net_world" where
  "lat_note base elapsed_ms w =
     (if pb_name base = [] then w else w\<lparr>nw_stats := prov_stat_lat (pb_name base) (ucast elapsed_ms) (nw_stats w)\<rparr>)"

section \<open>The driver\<close>

record provider_adapter =
  ad_chat_path :: string
  ad_headers :: "provider_header_spec option"
  ad_build :: "gen_cfg \<Rightarrow> string option"
  ad_parse :: "string \<Rightarrow> net_ret \<times> llm_resp option"
  ad_feed_event :: bool
  ad_take :: "delivery list \<Rightarrow> llm_resp option"
  ad_feed :: "delivery list \<Rightarrow> int"
  ad_truncated :: "string \<Rightarrow> bool"
  ad_filtered :: "string \<Rightarrow> bool"

definition req_fail :: "int \<Rightarrow> provider_http_resp option \<Rightarrow> net_world \<Rightarrow> net_world" where
  "req_fail http_code resp w = w\<lparr>nw_diag := prov_diag_set http_code (case resp of None \<Rightarrow> [] | Some r \<Rightarrow> hr_data r)\<rparr>"

definition complete_parse ::
  "provider_adapter \<Rightarrow> props \<Rightarrow> provider_http_resp \<Rightarrow> net_ret \<times> llm_resp option" where
  "complete_parse ops pr resp =
     (case ad_parse ops (hr_data resp) of
        (ret, out) \<Rightarrow> if ret \<noteq> AIRY_OK then (ret, out) else (ret, map_option (resp_stamp_capacity pr) out))"

text \<open>\<open>elapsed\<close> is what the clock measures around the call.\<close>

definition provider_driver_complete ::
  "net_env \<Rightarrow> provider_adapter \<Rightarrow> provider_base \<Rightarrow> props \<Rightarrow> gen_cfg \<Rightarrow> 64 word \<Rightarrow> net_world \<times> provider_rate_limiter option \<Rightarrow>
   (net_world \<times> provider_rate_limiter option \<times> net_ret \<times> llm_resp option) option" where
  "provider_driver_complete env ops base pr cfg elapsed s =
     (case ad_build ops cfg of
        None \<Rightarrow> Some (fst s, snd s, AIRY_ERR_OUT_OF_MEMORY, None)
      | Some body \<Rightarrow>
          (case provider_http_exec env (\<lambda>_. 0)
                  \<lparr>rq_base = base, rq_path = ad_chat_path ops, rq_headers = ad_headers ops, rq_body = body, rq_timeout_sec = 0,
                   rq_idempotent = req_idem cfg, rq_stream = None\<rparr> 0 s of
             None \<Rightarrow> None
           | Some e \<Rightarrow>
               (let w = (if ex_ret e = AIRY_OK then lat_note base elapsed (ex_world e) else ex_world e)
                in if ex_ret e \<noteq> AIRY_OK then Some (req_fail (ex_code e) (ex_resp e) w, ex_rl e, ex_ret e, None)
                   else if ex_code e \<noteq> 200
                   then Some (req_fail (ex_code e) (ex_resp e) w, ex_rl e, provider_http_err_map (ex_code e) AIRY_ERR_IO, None)
                   else Some (w, ex_rl e, complete_parse ops pr (the (ex_resp e))))))"

definition stream_finish :: "provider_adapter \<Rightarrow> props \<Rightarrow> delivery list \<Rightarrow> net_ret \<times> llm_resp option" where
  "stream_finish ops pr lg =
     (case ad_take ops lg of
        None \<Rightarrow> (AIRY_OK, None)
      | Some resp \<Rightarrow>
          let integrity = stream_integrity (ad_truncated ops) (ad_filtered ops) resp
          in if integrity \<noteq> AIRY_OK then (integrity, None) else (AIRY_OK, Some (resp_stamp_capacity pr resp)))"

definition provider_driver_complete_stream ::
  "net_env \<Rightarrow> provider_adapter \<Rightarrow> provider_base \<Rightarrow> props \<Rightarrow> gen_cfg \<Rightarrow> 64 word \<Rightarrow> net_world \<Rightarrow>
   (net_world \<times> net_ret \<times> llm_resp option \<times> delivery list) option" where
  "provider_driver_complete_stream env ops base pr cfg elapsed w =
     (case ad_build ops cfg of
        None \<Rightarrow> Some (w, AIRY_ERR_OUT_OF_MEMORY, None, [])
      | Some body \<Rightarrow>
          (case provider_http_exec env (ad_feed ops)
                  \<lparr>rq_base = base, rq_path = ad_chat_path ops, rq_headers = ad_headers ops, rq_body = body, rq_timeout_sec = 0,
                   rq_idempotent = req_idem cfg, rq_stream = Some (ad_feed_event ops)\<rparr> 0 (w, None) of
             None \<Rightarrow> None
           | Some e \<Rightarrow>
               (if ex_ret e \<noteq> AIRY_OK
                then Some (ex_world e, provider_http_err_map (ex_code e) (ex_ret e), None, ex_log e)
                else case stream_finish ops pr (ex_log e) of
                       (ret, resp) \<Rightarrow> Some (lat_note base elapsed (ex_world e), ret, resp, ex_log e))))"

end
