(* ===== verification/Llm_Sse_Spec.thy ===== *)
theory Llm_Sse_Spec
  imports Llm_Sse
begin

text \<open>
  What streaming promises: what is delivered does not depend on how the bytes arrive, it is exactly
  the payloads of the complete lines, and it all comes from one transfer.
\<close>

section \<open>Reference\<close>

text \<open>The lines that have their line feed, and what comes after the last one.\<close>

definition complete_lines :: "string \<Rightarrow> string list" where
  "complete_lines p = butlast (split_seps (\<lambda>c. c = chr_nl) p)"

primrec sse_lines :: "(delivery list \<Rightarrow> int) \<Rightarrow> (nat \<Rightarrow> bool) \<Rightarrow> string list \<Rightarrow> sse_stream \<Rightarrow> sse_stream" where
  "sse_lines cb alloc [] s = s"
| "sse_lines cb alloc (l # ls) s =
     (let s' = sse_line cb alloc l s in if strip_cr l \<noteq> [] \<and> ss_cancelled s' then s' else sse_lines cb alloc ls s')"

lemma split_seps_ne [simp]: "split_seps P p \<noteq> []"
  by (induction p) (auto split: list.splits)

lemma split_seps_no: "\<forall>c\<in>set p. \<not> P c \<Longrightarrow> split_seps P p = [p]"
  by (induction p) auto

lemma split_seps_sep: "\<forall>c\<in>set a. \<not> P c \<Longrightarrow> P x \<Longrightarrow> split_seps P (a @ x # b) = a # split_seps P b"
  by (induction a) (auto split: list.split)

lemma complete_lines_no: "chr_nl \<notin> set p \<Longrightarrow> complete_lines p = []"
  by (subst complete_lines_def, subst split_seps_no) auto

lemma complete_lines_cons: "chr_nl \<notin> set a \<Longrightarrow> complete_lines (a @ chr_nl # b) = a # complete_lines b"
  unfolding complete_lines_def by (subst split_seps_sep) auto

lemma first_line:
  obtains "chr_nl \<notin> set p" | a b where "p = a @ chr_nl # b" "chr_nl \<notin> set a"
  by (metis split_list_first)

lemma scan_no: "chr_nl \<notin> set p \<Longrightarrow> sse_scan cb alloc p s = (s, Some p)"
proof -
  assume "chr_nl \<notin> set p"
  then have "dropWhile (\<lambda>c. c \<noteq> chr_nl) p = []" by auto
  then show ?thesis by (simp only: sse_scan.simps [of cb alloc p s] list.case)
qed

lemma scan_line:
  "chr_nl \<notin> set a \<Longrightarrow> sse_scan cb alloc (a @ chr_nl # b) s =
     (if strip_cr a \<noteq> [] \<and> ss_cancelled (sse_line cb alloc a s) then (sse_line cb alloc a s, None)
      else sse_scan cb alloc b (sse_line cb alloc a s))"
proof -
  assume "chr_nl \<notin> set a"
  then have "dropWhile (\<lambda>c. c \<noteq> chr_nl) (a @ chr_nl # b) = chr_nl # b" "takeWhile (\<lambda>c. c \<noteq> chr_nl) (a @ chr_nl # b) = a"
    by (auto simp: dropWhile_append takeWhile_append)
  then show ?thesis by (simp add: sse_scan.simps [of cb alloc "a @ chr_nl # b" s] Let_def)
qed

text \<open>Induction on the lines of a text.\<close>

lemma line_induct:
  assumes "\<And>p. chr_nl \<notin> set p \<Longrightarrow> P p" and "\<And>a b. chr_nl \<notin> set a \<Longrightarrow> P b \<Longrightarrow> P (a @ chr_nl # b)"
  shows "P p"
proof (induction p rule: length_induct)
  case (1 p)
  then show ?case by (cases rule: first_line [of p]) (auto intro: assms)
qed

lemma scan_lines: "fst (sse_scan cb alloc p s) = sse_lines cb alloc (complete_lines p) s"
  by (induction p arbitrary: s rule: line_induct) (simp_all add: scan_no complete_lines_no scan_line complete_lines_cons Let_def)

lemma scan_append:
  "sse_scan cb alloc (p @ q) s =
     (case sse_scan cb alloc p s of (s', None) \<Rightarrow> (s', None) | (s', Some r) \<Rightarrow> sse_scan cb alloc (r @ q) s')"
  by (induction p arbitrary: s rule: line_induct) (simp_all add: scan_no scan_line)

lemma line_cancel: "\<not> ss_cancelled s \<Longrightarrow> ss_cancelled (sse_line cb alloc l s) \<Longrightarrow> strip_cr l \<noteq> []"
  by (auto simp: sse_line_def split: if_splits)

lemma scan_cancel: "\<not> ss_cancelled s \<Longrightarrow> sse_scan cb alloc p s = (s', r) \<Longrightarrow> ss_cancelled s' \<longleftrightarrow> r = None"
proof (induction p arbitrary: s rule: line_induct)
  case (2 a b)
  then show ?case using line_cancel [of s cb alloc a] by (auto simp: scan_line split: if_splits)
qed (auto simp: scan_no)

lemma scan_rest: "sse_scan cb alloc p s = (t, Some r) \<Longrightarrow> chr_nl \<notin> set r"
  by (induction p arbitrary: s rule: line_induct) (auto simp: scan_no scan_line split: if_splits)

text \<open>The buffers are not looked at while lines are processed.\<close>

definition core :: "sse_stream \<Rightarrow> sse_stream" where
  "core s = s\<lparr>ss_line := ([], 0), ss_raw := None\<rparr>"

lemma core_simps [simp]:
  "ss_log (core s) = ss_log s" "ss_done (core s) = ss_done s" "ss_cancelled (core s) = ss_cancelled s"
  "ss_event_name (core s) = ss_event_name s" "ss_on_event (core s) = ss_on_event s" "core (core s) = core s"
  "core (s\<lparr>ss_line := x\<rparr>) = core s" "core (s\<lparr>ss_raw := y\<rparr>) = core s"
  by (simp_all add: core_def)

lemma feed_line_core: "core (fst (sse_feed_line cb alloc l s)) = core (fst (sse_feed_line cb alloc l (core s)))"
  by (simp add: sse_feed_line_def data_deliver_def event_take_def Let_def) (simp add: core_def)

lemma line_core: "core (sse_line cb alloc l s) = core (sse_line cb alloc l (core s))"
  using feed_line_core [of cb alloc "strip_cr l" s] by (simp add: sse_line_def) (simp add: core_def)

lemma line_cong: "core s = core t \<Longrightarrow> core (sse_line cb alloc l s) = core (sse_line cb alloc l t)"
  by (metis line_core)

lemma core_cancelled: "core s = core t \<Longrightarrow> ss_cancelled s = ss_cancelled t"
  by (metis core_simps(3))

lemma scan_core:
  "core s = core t \<Longrightarrow> core (fst (sse_scan cb alloc p s)) = core (fst (sse_scan cb alloc p t)) \<and>
     snd (sse_scan cb alloc p s) = snd (sse_scan cb alloc p t)"
proof (induction p arbitrary: s t rule: line_induct)
  case (2 a b)
  note c = line_cong [OF 2(3), of cb alloc a]
  show ?case using 2(2) [OF c] c core_cancelled [OF c] by (simp add: scan_line 2(1))
qed (simp add: scan_no)

section \<open>Arrival in chunks\<close>

lemma buf_add_total: "\<forall>n. alloc n \<Longrightarrow> \<exists>cap. prov_buf_add alloc b d = Some (fst b @ d, cap)"
  by (cases b) (auto simp: prov_buf_add_def Let_def)

lemma raw_append_core [simp]: "core (sse_raw_append alloc d s) = core s" "ss_line (sse_raw_append alloc d s) = ss_line s"
  by (auto simp: sse_raw_append_def split: option.split)

text \<open>One call of the write callback, seen from the lines.\<close>

lemma write_callback_scan:
  assumes "\<forall>n. alloc n" and "\<not> ss_cancelled s" and "sse_scan cb alloc (fst (ss_line s) @ c) s = (t, r)"
    and "sse_write_callback cb alloc s c = (s', n)"
  shows "core s' = core t" "r = Some rest \<Longrightarrow> fst (ss_line s') = rest" "n = (if r = None then 0 else length c)"
proof -
  obtain cap where b: "prov_buf_add alloc (ss_line s) c = Some (fst (ss_line s) @ c, cap)"
    using buf_add_total [OF assms(1)] by blast
  define s1 where "s1 = sse_raw_append alloc c (s\<lparr>ss_line := (fst (ss_line s) @ c, cap)\<rparr>)"
  have l1: "fst (ss_line s1) = fst (ss_line s) @ c" and c1: "core s1 = core s" by (simp_all add: s1_def)
  obtain t1 r1 where sc: "sse_scan cb alloc (fst (ss_line s) @ c) s1 = (t1, r1)" by fastforce
  have eq: "core t1 = core t" "r1 = r"
    using scan_core [OF c1, of cb alloc "fst (ss_line s) @ c"] sc assms(3) by simp_all
  have p: "sse_process_buffer cb alloc s1 = (case r1 of None \<Rightarrow> t1 | Some rest \<Rightarrow> t1\<lparr>ss_line := (rest, snd (ss_line t1))\<rparr>)"
  proof (cases "fst (ss_line s) @ c = []")
    case True
    then have "t1 = s1" "r1 = Some []" using sc by (simp_all add: scan_no)
    moreover have "s1\<lparr>ss_line := ([], snd (ss_line s1))\<rparr> = s1" using True l1 by (cases s1) (metis prod.collapse select_convs(1) update_convs(1))
    ultimately show ?thesis using True l1 by (simp add: sse_process_buffer_def)
  next
    case False
    show ?thesis unfolding sse_process_buffer_def l1 if_not_P [OF False] sc by (cases r1) simp_all
  qed
  have s': "s' = sse_process_buffer cb alloc s1" "n = (if ss_cancelled s' then 0 else length c)"
    using assms(2,4) b by (auto simp: sse_write_callback_def s1_def Let_def)
  show cs: "core s' = core t" using s'(1) p eq by (auto split: option.splits)
  show "r = Some rest \<Longrightarrow> fst (ss_line s') = rest" using s'(1) p eq by simp
  show "n = (if r = None then 0 else length c)"
    using s'(2) core_cancelled [OF cs] scan_cancel [OF assms(2,3)] by simp
qed

lemma feed_cancelled: "ss_cancelled s \<Longrightarrow> fst (feed_chunks (sse_write_callback cb alloc) s cs) = s"
  by (induction cs) (auto simp: sse_write_callback_def)

lemma feed_scan:
  assumes "\<forall>n. alloc n"
  shows "\<not> ss_cancelled s \<Longrightarrow> chr_nl \<notin> set (fst (ss_line s)) \<Longrightarrow> feed_chunks (sse_write_callback cb alloc) s cs = (s', refused) \<Longrightarrow>
    sse_scan cb alloc (fst (ss_line s) @ concat cs) s = (t, r) \<Longrightarrow>
    core s' = core t \<and> (\<forall>rest. r = Some rest \<longrightarrow> fst (ss_line s') = rest \<and> \<not> refused)"
proof (induction cs arbitrary: s s' refused t r)
  case Nil
  then show ?case by (auto simp: scan_no)
next
  case (Cons c cs)
  obtain s1 n where w: "sse_write_callback cb alloc s c = (s1, n)" by fastforce
  obtain t1 r1 where sc: "sse_scan cb alloc (fst (ss_line s) @ c) s = (t1, r1)" by fastforce
  note wc = write_callback_scan [OF assms Cons.prems(1) sc w]
  have app: "sse_scan cb alloc ((fst (ss_line s) @ c) @ concat cs) s = (t, r)" using Cons.prems(4) by simp
  show ?case
  proof (cases r1)
    case None
    then have t: "t = t1" "r = None" using app [unfolded scan_append [of cb alloc "fst (ss_line s) @ c"] sc] by simp_all
    have "ss_cancelled s1" using scan_cancel [OF Cons.prems(1) sc] None core_cancelled [OF wc(1)] by simp
    then have "s' = s1"
      using Cons.prems(3) w feed_cancelled [of s1 cb alloc cs] by (auto split: if_splits prod.splits)
    then show ?thesis using t wc(1) by simp
  next
    case (Some rest)
    have l: "fst (ss_line s1) = rest" by (rule wc(2) [OF Some])
    have nc: "\<not> ss_cancelled s1" using scan_cancel [OF Cons.prems(1) sc] Some core_cancelled [OF wc(1)] by simp
    have f: "feed_chunks (sse_write_callback cb alloc) s1 cs = (s', refused)" using Cons.prems(3) w wc(3) Some by simp
    have sc1: "sse_scan cb alloc (rest @ concat cs) t1 = (t, r)" using app [unfolded scan_append [of cb alloc "fst (ss_line s) @ c"] sc] Some by simp
    obtain t2 r2 where sc2: "sse_scan cb alloc (rest @ concat cs) s1 = (t2, r2)" by fastforce
    have e: "core t2 = core t" "r2 = r" using scan_core [OF wc(1), of cb alloc "rest @ concat cs"] sc1 sc2 by simp_all
    from Cons.IH [OF nc _ f] l sc2 e scan_rest [OF sc [unfolded Some]] show ?thesis by simp
  qed
qed

definition fresh_stream :: "sse_stream \<Rightarrow> bool" where
  "fresh_stream s \<longleftrightarrow> fst (ss_line s) = [] \<and> \<not> ss_cancelled s \<and> \<not> ss_done s \<and> ss_event_name s = [] \<and> ss_log s = []"

text \<open>
  C25. Chunks do not matter. However the network cuts the bytes of a stream into pieces, the payloads
  delivered, the end marker and a cancellation are those of the complete lines of the whole text,
  processed one after the other until a callback cancels; after a stream that is not cancelled the
  buffer holds the unfinished last line.
\<close>

theorem sse_chunking:
  assumes "\<forall>n. alloc n" and "fresh_stream s"
  shows "let s' = fst (feed_chunks (sse_write_callback cb alloc) s cs); ref = sse_lines cb alloc (complete_lines (concat cs)) s
    in ss_log s' = ss_log ref \<and> ss_done s' = ss_done ref \<and> ss_cancelled s' = ss_cancelled ref \<and>
       (\<not> ss_cancelled s' \<longrightarrow> fst (ss_line s') = last (split_seps (\<lambda>c. c = chr_nl) (concat cs)))"
proof -
  have s: "\<not> ss_cancelled s" "fst (ss_line s) = []" using assms(2) by (simp_all add: fresh_stream_def)
  obtain s' refused where f: "feed_chunks (sse_write_callback cb alloc) s cs = (s', refused)" by fastforce
  obtain t r where sc: "sse_scan cb alloc (fst (ss_line s) @ concat cs) s = (t, r)" by fastforce
  have fs: "core s' = core t \<and> (\<forall>rest. r = Some rest \<longrightarrow> fst (ss_line s') = rest \<and> \<not> refused)"
    by (rule feed_scan [OF assms(1) s(1) _ f sc]) (simp add: s)
  have t: "t = sse_lines cb alloc (complete_lines (concat cs)) s" using scan_lines [of cb alloc "concat cs" s] sc s(2) by simp
  have rest: "rest = last (split_seps (\<lambda>c. c = chr_nl) p)" if "sse_scan cb alloc p q = (u, Some rest)" for p q u rest
    using that
  proof (induction p arbitrary: q rule: line_induct)
    case (1 p)
    have "split_seps (\<lambda>c. c = chr_nl) p = [p]" by (rule split_seps_no) (insert 1(1), auto)
    with 1 show ?case by (simp add: scan_no)
  next
    case (2 a b)
    have "split_seps (\<lambda>c. c = chr_nl) (a @ chr_nl # b) = a # split_seps (\<lambda>c. c = chr_nl) b"
      by (rule split_seps_sep) (insert 2(1), auto)
    with 2 show ?case by (auto simp: scan_line split: if_splits)
  qed
  have c: "ss_log s' = ss_log t" "ss_done s' = ss_done t" "ss_cancelled s' = ss_cancelled t"
    using fs by (metis core_simps)+
  have "fst (ss_line s') = last (split_seps (\<lambda>c. c = chr_nl) (concat cs))" if "\<not> ss_cancelled s'"
    using that c(3) scan_cancel [OF s(1) sc] fs rest [of "concat cs" s t] sc s(2) by auto
  then show ?thesis using c f t by (simp add: Let_def)
qed

section \<open>Payloads\<close>

definition data_of :: "string \<Rightarrow> string option" where
  "data_of l = (if take 5 (strip_cr l) = ''data:'' then Some (dropWhile is_blank (drop 5 (strip_cr l))) else None)"

definition is_done :: "string \<Rightarrow> bool" where
  "is_done d \<longleftrightarrow> take 6 d = ''[DONE]''"

definition payloads :: "string list \<Rightarrow> string list" where
  "payloads ls = filter (\<lambda>d. \<not> is_done d) (List.map_filter data_of ls)"

lemma line_payload:
  assumes "\<forall>n. alloc n" and "\<And>log. cb log = 0" and "\<not> ss_on_event s"
  shows "sse_line cb alloc l s = (case data_of l of
      None \<Rightarrow> s | Some d \<Rightarrow> if is_done d then s\<lparr>ss_done := True\<rparr> else s\<lparr>ss_log := ss_log s @ [(None, d)]\<rparr>)"
  using assms by (auto simp: sse_line_def sse_feed_line_def data_deliver_def data_of_def is_done_def Let_def)

lemma lines_payloads:
  assumes "\<forall>n. alloc n" and "\<And>log. cb log = 0"
  shows "\<not> ss_on_event s \<Longrightarrow> \<not> ss_cancelled s \<Longrightarrow>
    sse_lines cb alloc ls s = s\<lparr>ss_log := ss_log s @ map (Pair None) (payloads ls),
      ss_done := (ss_done s \<or> list_ex is_done (List.map_filter data_of ls))\<rparr>"
proof (induction ls arbitrary: s)
  case Nil
  then show ?case by (simp add: payloads_def)
next
  case (Cons l ls)
  note l = line_payload [OF assms Cons.prems(1), where l = l]
  show ?case
  proof (cases "data_of l")
    case None
    with l Cons show ?thesis by (simp add: payloads_def map_filter_simps)
  next
    case (Some d)
    show ?thesis
    proof (cases "is_done d")
      case True
      with l Some Cons.IH [of "s\<lparr>ss_done := True\<rparr>"] Cons.prems show ?thesis by (simp add: payloads_def map_filter_simps)
    next
      case False
      with l Some Cons.IH [of "s\<lparr>ss_log := ss_log s @ [(None, d)]\<rparr>"] Cons.prems show ?thesis
        by (simp add: payloads_def map_filter_simps)
    qed
  qed
qed

section \<open>One transfer\<close>

lemma raw_process [simp]: "ss_raw (sse_process_buffer cb alloc s) = ss_raw s"
proof -
  have l: "ss_raw (sse_line cb alloc l s) = ss_raw s" for l s
    by (auto simp: sse_line_def sse_feed_line_def data_deliver_def event_take_def Let_def)
  have "ss_raw (fst (sse_scan cb alloc p s)) = ss_raw s" for p s
    by (induction p arbitrary: s rule: line_induct) (simp_all add: scan_no scan_line l)
  then show ?thesis by (auto simp: sse_process_buffer_def split: prod.splits option.splits)
    (metis fst_conv)+
qed

lemma write_callback_raw:
  assumes "\<forall>n. alloc n" and "ss_raw s = Some b" and "sse_write_callback cb alloc s c = (s', n)"
  shows "\<exists>b'. ss_raw s' = Some b' \<and> length (fst b) \<le> length (fst b') \<and> (\<not> ss_cancelled s \<and> c \<noteq> [] \<longrightarrow> fst b' \<noteq> [])"
proof (cases "ss_cancelled s")
  case True
  then show ?thesis using assms by (simp add: sse_write_callback_def)
next
  case False
  obtain cap where l: "prov_buf_add alloc (ss_line s) c = Some (fst (ss_line s) @ c, cap)" using buf_add_total [OF assms(1)] by blast
  obtain cap' where r: "prov_buf_add alloc b c = Some (fst b @ c, cap')" using buf_add_total [OF assms(1)] by blast
  have "ss_raw s' = Some (fst b @ c, cap')"
    using assms(2,3) False l r by (auto simp: sse_write_callback_def sse_raw_append_def Let_def)
  then show ?thesis by simp
qed

lemma feed_raw:
  assumes "\<forall>n. alloc n"
  shows "ss_raw s = Some b \<Longrightarrow> feed_chunks (sse_write_callback cb alloc) s cs = (s', refused) \<Longrightarrow>
    \<exists>b'. ss_raw s' = Some b' \<and> length (fst b) \<le> length (fst b')"
proof (induction cs arbitrary: s b)
  case (Cons c cs)
  obtain s1 n where w: "sse_write_callback cb alloc s c = (s1, n)" by fastforce
  obtain b1 where b1: "ss_raw s1 = Some b1" "length (fst b) \<le> length (fst b1)"
    using write_callback_raw [OF assms Cons.prems(1) w] by blast
  show ?case
  proof (cases "n = length c")
    case True
    with Cons.IH [OF b1(1)] Cons.prems(2) w b1(2) show ?thesis by fastforce
  next
    case False
    with Cons.prems(2) w b1 show ?thesis by auto
  qed
qed auto

text \<open>A transfer that leaves the raw buffer empty has delivered nothing.\<close>

lemma feed_silent:
  assumes "\<forall>n. alloc n"
  shows "ss_raw s = Some b \<Longrightarrow> \<not> ss_cancelled s \<Longrightarrow> chr_nl \<notin> set (fst (ss_line s)) \<Longrightarrow>
    feed_chunks (sse_write_callback cb alloc) s cs = (s', refused) \<Longrightarrow> raw_len s' = 0 \<Longrightarrow> core s' = core s"
proof (induction cs arbitrary: s b)
  case (Cons c cs)
  obtain s1 n where w: "sse_write_callback cb alloc s c = (s1, n)" by fastforce
  obtain b1 where b1: "ss_raw s1 = Some b1" "c \<noteq> [] \<longrightarrow> fst b1 \<noteq> []"
    using write_callback_raw [OF assms Cons.prems(1) w] Cons.prems(2) by blast
  have le: "\<exists>b'. ss_raw s' = Some b' \<and> length (fst b1) \<le> length (fst b')"
    using feed_raw [OF assms b1(1), of cb cs s' refused] Cons.prems(4) w b1(1) by (cases "n = length c") auto
  then have c: "c = []" using Cons.prems(5) b1(2) by (auto simp: raw_len_def)
  have sc: "sse_scan cb alloc (fst (ss_line s) @ c) s = (s, Some (fst (ss_line s)))" using c Cons.prems(3) by (simp add: scan_no)
  note wc = write_callback_scan [OF assms Cons.prems(2) sc w]
  have "core s' = core s1"
  proof (rule Cons.IH [OF b1(1)])
    show "\<not> ss_cancelled s1" using core_cancelled [OF wc(1)] Cons.prems(2) by simp
    show "chr_nl \<notin> set (fst (ss_line s1))" using wc(2) [OF refl] Cons.prems(3) by simp
    show "feed_chunks (sse_write_callback cb alloc) s1 cs = (s', refused)" using Cons.prems(4) w wc(3) c by simp
  qed (rule Cons.prems(5))
  then show ?case using wc(1) by simp
qed simp

definition at_start :: "net_world \<times> sse_stream \<Rightarrow> bool" where
  "at_start u \<longleftrightarrow> fresh_stream (snd u) \<and> \<not> ss_on_event (snd u) \<and> (\<exists>cap. ss_raw (snd u) = Some ([], cap))"

lemma curl_run_Some:
  assumes "curl_run env cb opts budget u tmo = (u1, Some (res, code, kind))"
  obtains x refused where "ne_curl env (nw_xfers (fst u)) opts = Some x"
    "feed_chunks cb (snd u) (x_chunks x) = (snd u1, refused)"
    "nw_xfers (fst u1) = Suc (nw_xfers (fst u))" "nw_log (fst u1) = nw_log (fst u) @ [(opts, res, kind)]"
  using assms by (auto simp: curl_run_def split: option.splits prod.splits)

lemma setup_request:
  "co_url (provider_http_setup ge url headers body b i) = url" "co_body (provider_http_setup ge url headers body b i) = body"
  by (simp_all add: provider_http_setup_def Let_def)

lemma sse_try_feed:
  assumes "sse_try env cb url headers body t u retry left out = (u1, st, res, code, tmo)" and "st \<noteq> PROVIDER_TRY_FATAL"
  obtains opts kind x refused where "ne_curl env (nw_xfers (fst u)) opts = Some x"
    "feed_chunks (sse_write_callback cb (ne_alloc env)) (snd u) (x_chunks x) = (snd u1, refused)"
    "nw_xfers (fst u1) = Suc (nw_xfers (fst u))" "nw_log (fst u1) = nw_log (fst u) @ [(opts, res, kind)]"
    "co_url opts = url" "co_body opts = body"
proof -
  let ?b = "if retry = 0 then t else left"
  let ?o = "provider_http_setup (ne_getenv env) url headers body ?b PROVIDER_READ_IDLE_SEC"
  obtain r where r: "curl_run env (sse_write_callback cb (ne_alloc env)) ?o ?b u (snd (snd out)) = (u1, r)"
      and "r \<noteq> None" and "fst (the r) = res"
    using assms by (auto simp: sse_try_def Let_def split: option.splits prod.splits)
  then obtain cd kd where "r = Some (res, cd, kd)" by (cases r) auto
  from curl_run_Some [OF r [unfolded this]] obtain x refused where "ne_curl env (nw_xfers (fst u)) ?o = Some x"
    "feed_chunks (sse_write_callback cb (ne_alloc env)) (snd u) (x_chunks x) = (snd u1, refused)"
    "nw_xfers (fst u1) = Suc (nw_xfers (fst u))" "nw_log (fst u1) = nw_log (fst u) @ [(?o, res, kd)]" by blast
  with that setup_request show thesis by metis
qed

lemma sse_try_more:
  assumes "sse_try env cb url headers body t u retry left out = (u1, st, res, code, tmo)"
  shows "nw_xfers (fst u) \<le> nw_xfers (fst u1)"
  using assms by (auto simp: sse_try_def curl_run_def Let_def split: option.splits prod.splits)

lemma sse_try_fatal:
  assumes "sse_try env cb url headers body t u retry left out = (u1, PROVIDER_TRY_FATAL, out1)"
  shows "snd u1 = snd u"
  using assms by (auto simp: sse_try_def curl_run_def Let_def split: option.splits prod.splits if_splits)

lemma stream_reset_start:
  assumes al: "\<forall>n. ne_alloc env n" and j: "at_start u"
    and a: "sse_try env cb url headers body t u retry left out = (u1, st, res, code, tmo)" and g: "sse_gate u1 res code"
  shows "at_start (sse_reset u1)"
proof -
  obtain cap where raw: "ss_raw (snd u) = Some ([], cap)" using j by (auto simp: at_start_def)
  have fr: "\<not> ss_cancelled (snd u)" "fst (ss_line (snd u)) = []" "ss_log (snd u) = []" "\<not> ss_on_event (snd u)"
    using j by (auto simp: at_start_def fresh_stream_def)
  have c: "core (snd u1) = core (snd u) \<and> (\<exists>b. ss_raw (snd u1) = Some b)"
  proof (cases "st = PROVIDER_TRY_FATAL")
    case True
    have "snd u1 = snd u" by (rule sse_try_fatal [OF a [unfolded True]])
    with raw show ?thesis by simp
  next
    case False
    obtain opts x refused where "ne_curl env (nw_xfers (fst u)) opts = Some x" and f: "feed_chunks (sse_write_callback cb (ne_alloc env)) (snd u) (x_chunks x) = (snd u1, refused)"
      by (rule sse_try_feed [OF a False]) blast
    have "core (snd u1) = core (snd u)"
      by (rule feed_silent [OF al raw fr(1) _ f]) (insert fr g, simp_all add: sse_gate_def)
    then show ?thesis using feed_raw [OF al raw f] by blast
  qed
  then have "ss_log (snd u1) = []" "\<not> ss_on_event (snd u1)" using fr by (metis core_simps(1), metis core_simps(5))
  then show ?thesis using c by (auto simp: at_start_def fresh_stream_def sse_reset_def)
qed

lemma stream_start:
  "sse_ctx_init alloc False = Some s \<Longrightarrow> at_start (w, s)"
  by (auto simp: sse_ctx_init_def at_start_def fresh_stream_def split: if_splits)

text \<open>What a stream holds after a transfer, when nobody cancels.\<close>

lemma transfer_payloads:
  assumes al: "\<forall>n. alloc n" and cb: "\<And>log. cb log = 0" and j: "at_start (w, s)"
    and f: "feed_chunks (sse_write_callback cb alloc) s cs = (s', refused)"
  shows "ss_log s' = map (Pair None) (payloads (complete_lines (concat cs)))"
    "ss_done s' \<longleftrightarrow> list_ex is_done (List.map_filter data_of (complete_lines (concat cs)))"
    "\<not> ss_cancelled s'" "\<not> ss_on_event s'" "chr_nl \<notin> set (fst (ss_line s'))"
proof -
  have s: "\<not> ss_cancelled s" "\<not> ss_on_event s" "fst (ss_line s) = []" "ss_log s = []" "\<not> ss_done s"
    using j by (auto simp: at_start_def fresh_stream_def)
  obtain t r where sc: "sse_scan cb alloc (fst (ss_line s) @ concat cs) s = (t, r)" by fastforce
  have fs: "core s' = core t \<and> (\<forall>rest. r = Some rest \<longrightarrow> fst (ss_line s') = rest \<and> \<not> refused)"
    by (rule feed_scan [OF al s(1) _ f sc]) (simp add: s)
  have t: "t = sse_lines cb alloc (complete_lines (concat cs)) s" using scan_lines [of cb alloc "concat cs" s] sc s(3) by simp
  note lp = lines_payloads [OF al cb s(2,1), where ls = "complete_lines (concat cs)"]
  have c: "ss_log s' = ss_log t" "ss_done s' = ss_done t" "ss_cancelled s' = ss_cancelled t" "ss_on_event s' = ss_on_event t"
    using fs by (metis core_simps)+
  show "ss_log s' = map (Pair None) (payloads (complete_lines (concat cs)))"
    "ss_done s' \<longleftrightarrow> list_ex is_done (List.map_filter data_of (complete_lines (concat cs)))"
    "\<not> ss_cancelled s'" "\<not> ss_on_event s'"
    using c s by (simp_all add: t lp)
  have "\<not> ss_cancelled t" using s by (simp add: t lp)
  then obtain rest where "r = Some rest" using scan_cancel [OF s(1) sc] by (cases r) auto
  then show "chr_nl \<notin> set (fst (ss_line s'))" using fs scan_rest sc by auto
qed

lemma process_quiet: "chr_nl \<notin> set (fst (ss_line s)) \<Longrightarrow> core (sse_process_buffer cb alloc s) = core s"
  by (simp add: sse_process_buffer_def scan_no)

text \<open>
  C34. A stream of the line protocol (an adapter without named events) delivers one transfer. Whatever
  retries the transport makes, if memory suffices and the adapter does not cancel: when no handle can be
  had for the last attempt, the call returns AIRY_ERR_UNKNOWN and has delivered nothing; otherwise the
  payloads delivered are exactly those of the complete lines of the last transfer this call made (the
  last entry of the log, with its number, to its URL and with its body), in order, and nothing of an
  attempt that was given up. Success is reported only if that transfer contained the end marker and its
  status is below 400. Streams of named events, which need no end marker, are not meant.
\<close>

theorem stream_delivers_one_transfer:
  assumes "\<forall>n. ne_alloc env n" and "\<And>lg. cb lg = 0"
    and "stream_entry env cb False url headers body t mr cls idem code w = (w', lg, code', ret)"
  shows "if ret = AIRY_ERR_UNKNOWN then lg = []
    else \<exists>k opts x. nw_xfers w \<le> k \<and> nw_xfers w' = Suc k \<and> nw_log w' \<noteq> [] \<and> fst (last (nw_log w')) = opts \<and>
      co_url opts = url \<and> co_body opts = body \<and> ne_curl env k opts = Some x \<and>
      lg = map (Pair None) (payloads (complete_lines (concat (x_chunks x)))) \<and>
      (ret = AIRY_OK \<longrightarrow> list_ex is_done (List.map_filter data_of (complete_lines (concat (x_chunks x)))) \<and> code' < 400)"
proof -
  obtain s where s: "sse_ctx_init (ne_alloc env) False = Some s" using assms(1) by (simp add: sse_ctx_init_def)
  define mr' where "mr' = (if mr < 0 then 0 else mr)"
  define cfg where "cfg = stream_cfg env cb url headers body t mr' cls idem"
  obtain u r tr where run: "provider_retry_run (ne_retry env (nw_runs w)) cfg (w\<lparr>nw_runs := nw_runs w + 1\<rparr>, s) = (u, r, tr)"
    by (metis prod_cases3)
  define J where "J u \<longleftrightarrow> at_start u \<and> nw_xfers w \<le> nw_xfers (fst u)" for u
  have "\<exists>u0 k left out0 st out1. J u0 \<and> rt_attempt cfg u0 k left out0 = (u, st, out1) \<and>
      r = (if st = PROVIDER_TRY_FATAL then None else Some out1)"
  proof (rule retry_last_attempt [where J = J])
    show "J (w\<lparr>nw_runs := nw_runs w + 1\<rparr>, s)" using stream_start [OF s] by (simp add: J_def)
    show "retry_loop (ne_retry env (nw_runs w)) cfg (nat (if 0 < rt_max_retries cfg then rt_max_retries cfg else 0)) 0
        (w\<lparr>nw_runs := nw_runs w + 1\<rparr>, s) (CURLE_OK, 0, PROV_TMO_KIND_N) = (u, r, tr)"
      using run by (simp add: provider_retry_run_def)
  next
    fix u retry left out u1 st res code tmo
    assume j: "J u" and at: "rt_attempt cfg u retry left out = (u1, st, res, code, tmo)" and g: "gate_open cfg u1 res code"
    have at': "sse_try env cb url headers body t u retry left out = (u1, st, res, code, tmo)"
      using at by (simp add: cfg_def stream_cfg_def)
    have "at_start (sse_reset u1)"
      using j g by (intro stream_reset_start [OF assms(1) _ at']) (simp_all add: J_def cfg_def stream_cfg_def gate_open_def)
    moreover have "nw_xfers w \<le> nw_xfers (fst (sse_reset u1))"
      using j sse_try_more [OF at'] by (simp add: J_def sse_reset_def)
    ultimately show "J (case rt_reset cfg of None \<Rightarrow> u1 | Some f \<Rightarrow> f u1)"
      by (simp add: J_def cfg_def stream_cfg_def)
  qed simp
  then obtain u0 k left out0 st res cd tmo where a: "J u0"
      "sse_try env cb url headers body t u0 k left out0 = (u, st, res, cd, tmo)" "r = (if st = PROVIDER_TRY_FATAL then None else Some (res, cd, tmo))"
    by (auto simp: cfg_def stream_cfg_def)
  have post: "provider_stream_post env cb url headers body t mr' cls idem code (w, s) =
      (case r of None \<Rightarrow> (u, code, AIRY_ERR_UNKNOWN)
       | Some out \<Rightarrow> (case stream_verdict cb (ne_alloc env) u out of (u, ret) \<Rightarrow> (u, fst (snd out), ret)))"
    using run by (simp add: provider_stream_post_def cfg_def split: option.split)
  have entry: "(case provider_stream_post env cb url headers body t mr' cls idem code (w, s) of ((w, s), code, ret) \<Rightarrow> (w, ss_log s, code, ret)) =
      (w', lg, code', ret)"
    using assms(3) s by (simp add: stream_entry_def mr'_def)
  have st0: "at_start (fst u0, snd u0)" and more: "nw_xfers w \<le> nw_xfers (fst u0)" using a(1) by (simp_all add: J_def)
  show ?thesis
  proof (cases "st = PROVIDER_TRY_FATAL")
    case True
    have "snd u = snd u0" using a(2) sse_try_fatal True by blast
    then have "ss_log (snd u) = []" using st0 by (simp add: at_start_def fresh_stream_def)
    with entry post a(3) True show ?thesis by (auto split: prod.splits)
  next
    case nf: False
    obtain opts kind x refused where x: "ne_curl env (nw_xfers (fst u0)) opts = Some x"
        "feed_chunks (sse_write_callback cb (ne_alloc env)) (snd u0) (x_chunks x) = (snd u, refused)"
        "nw_xfers (fst u) = Suc (nw_xfers (fst u0))" "nw_log (fst u) = nw_log (fst u0) @ [(opts, res, kind)]"
        "co_url opts = url" "co_body opts = body"
      by (rule sse_try_feed [OF a(2) nf])
    note tp = transfer_payloads [OF assms(1,2) st0 x(2)]
    define s2 where "s2 = (if fst (ss_line (snd u)) \<noteq> [] then sse_process_buffer cb (ne_alloc env) (snd u) else snd u)"
    have c2: "core s2 = core (snd u)" using process_quiet [OF tp(5)] by (simp add: s2_def)
    have l2: "ss_log s2 = ss_log (snd u)" "ss_done s2 = ss_done (snd u)" "ss_cancelled s2 = ss_cancelled (snd u)" "ss_on_event s2 = ss_on_event (snd u)"
      using c2 by (metis core_simps)+
    have v: "w' = body_dump cd (fst u, s2) \<and> lg = ss_log s2 \<and> code' = cd \<and> ret \<noteq> AIRY_ERR_UNKNOWN \<and>
        (ret = AIRY_OK \<longrightarrow> ss_done s2 \<and> cd < 400)"
      using entry post a(3) nf tp(3,4) l2(3,4)
      by (auto simp: stream_verdict_def s2_def [symmetric] Let_def curl_fail_def http_fail_def split: if_splits)
    moreover have "nw_xfers (body_dump cd (fst u, s2)) = nw_xfers (fst u)" "nw_log (body_dump cd (fst u, s2)) = nw_log (fst u)"
      by (simp_all add: body_dump_def split: option.split)
    ultimately have "nw_xfers w' = Suc (nw_xfers (fst u0))" "nw_log w' \<noteq> []" "fst (last (nw_log w')) = opts"
      using x(3,4) by simp_all
    moreover have "lg = map (Pair None) (payloads (complete_lines (concat (x_chunks x))))"
      "ret = AIRY_OK \<longrightarrow> list_ex is_done (List.map_filter data_of (complete_lines (concat (x_chunks x)))) \<and> code' < 400"
      using v l2 tp by simp_all
    ultimately show ?thesis using x(1,5,6) more v by auto
  qed
qed

section \<open>Runs\<close>

definition chr_lf :: string where "chr_lf = [chr_nl]"

definition stream_xfer :: "string list \<Rightarrow> xfer" where
  "stream_xfer cs = \<lparr>x_chunks = cs, x_end = (\<lambda>refused. if refused then (CURLE_WRITE_ERROR, 200, 1, 2) else (CURLE_OK, 200, 1, 2))\<rparr>"

text \<open>A first attempt that cannot connect, then a stream in three pieces.\<close>

definition example_stream :: net_env where
  "example_stream = example_net (\<lambda>k. if k = 0 then \<lparr>x_chunks = [], x_end = (\<lambda>_. (CURLE_COULDNT_CONNECT, 0, 0, 0))\<rparr>
     else stream_xfer [''data: he'', ''llo'' @ chr_lf @ ''data: [DO'', ''NE]'' @ chr_lf])"

theorem sse_chunking_witness:
  "ss_log (fst (feed_chunks (sse_write_callback (\<lambda>_. 0) (\<lambda>_. True)) (the (sse_ctx_init (\<lambda>_. True) False))
      [''data: he'', ''llo'' @ chr_lf])) = [(None, ''hello'')]"
proof -
  have "fresh_stream (the (sse_ctx_init (\<lambda>_. True) False))" by code_simp
  moreover have "ss_log (sse_lines (\<lambda>_. 0) (\<lambda>_. True) (complete_lines (concat [''data: he'', ''llo'' @ chr_lf]))
      (the (sse_ctx_init (\<lambda>_. True) False))) = [(None, ''hello'')]" by code_simp
  ultimately show ?thesis
    using sse_chunking [of "\<lambda>_. True" "the (sse_ctx_init (\<lambda>_. True) False)" "\<lambda>_. 0" "[''data: he'', ''llo'' @ chr_lf]"]
    by (simp add: Let_def)
qed

lemma example_stream_run:
  "snd (stream_entry example_stream (\<lambda>_. 0) False ''u'' [] ''b'' 60 3 PROVIDER_RETRY_DEFAULT False 0 example_world) =
     ([(None, ''hello'')], 200, AIRY_OK)"
  by code_simp

lemma example_stream_xfers:
  "nw_xfers (fst (stream_entry example_stream (\<lambda>_. 0) False ''u'' [] ''b'' 60 3 PROVIDER_RETRY_DEFAULT False 0 example_world)) = 2"
  by code_simp

theorem stream_delivers_one_transfer_witness:
  "\<exists>opts x. ne_curl example_stream 1 opts = Some x \<and> co_url opts = ''u'' \<and>
    payloads (complete_lines (concat (x_chunks x))) = [''hello''] \<and>
    list_ex is_done (List.map_filter data_of (complete_lines (concat (x_chunks x))))"
proof -
  obtain w' where r: "stream_entry example_stream (\<lambda>_. 0) False ''u'' [] ''b'' 60 3 PROVIDER_RETRY_DEFAULT False 0 example_world =
      (w', [(None, ''hello'')], 200, AIRY_OK)"
    using example_stream_run by (metis prod.collapse)
  have al: "\<forall>n. ne_alloc example_stream n" by (simp add: example_stream_def example_net_def)
  have "nw_xfers w' = 2" using example_stream_xfers unfolding r by simp
  with stream_delivers_one_transfer [OF al _ r] show ?thesis by auto
qed

text \<open>
  A cancelled stream delivers twice. When the adapter cancels, the scan leaves the buffer as it
  was, and the scan after the transfer starts it again: the first line of the buffer is delivered
  a second time, after the cancellation.
\<close>

theorem cancel_redelivers:
  "snd (stream_entry (example_net (\<lambda>_. stream_xfer [''data: a'' @ chr_lf @ ''data: b'' @ chr_lf])) (\<lambda>l. if length l = 2 then 1 else 0) False
      ''u'' [] ''b'' 60 0 PROVIDER_RETRY_DEFAULT False 0 example_world) =
     ([(None, ''a''), (None, ''b''), (None, ''a'')], 200, AIRY_ERR_IO)"
  by code_simp

text \<open>
  The last line needs its line feed. A stream that ends with the end marker but without a line feed
  is reported as unfinished: the scan after the transfer looks for line feeds too.
\<close>

theorem unterminated_done_lost:
  "snd (stream_entry (example_net (\<lambda>_. stream_xfer [''data: a'' @ chr_lf @ ''data: [DONE]''])) (\<lambda>_. 0) False
      ''u'' [] ''b'' 60 0 PROVIDER_RETRY_DEFAULT False 0 example_world) =
     ([(None, ''a'')], 200, AIRY_ERR_LLM_STREAM_UNDONE)"
  by code_simp

end
