(* ===== verification/Llm_Driver_Spec.thy ===== *)
theory Llm_Driver_Spec
  imports Llm_Driver Llm_Sse_Spec
begin

text \<open>
  Completions end to end: what the driver may send twice, and where the response it returns
  comes from.
\<close>

section \<open>The log of transfers\<close>

definition sent_of :: "(provider_attempt \<times> try_out) list \<Rightarrow> (curl_code \<times> prov_tmo) list" where
  "sent_of tr = map (\<lambda>(st, res, code, tmo). (res, tmo)) (filter (\<lambda>(st, o1). st \<noteq> PROVIDER_TRY_FATAL) tr)"

lemma sent_of_nth:
  assumes "\<And>i. Suc i < length tr \<Longrightarrow> fst (tr ! i) = PROVIDER_TRY_FAILED" and "Suc i < length (sent_of tr)"
  shows "Suc i < length tr \<and> sent_of tr ! i = (case tr ! i of (st, res, code, tmo) \<Rightarrow> (res, tmo))"
proof (cases tr rule: rev_cases)
  case Nil
  with assms(2) show ?thesis by (simp add: sent_of_def)
next
  case (snoc xs x)
  have "fst y = PROVIDER_TRY_FAILED" if y: "y \<in> set xs" for y
  proof -
    obtain i where "i < length xs" "y = xs ! i" using y by (auto simp: in_set_conv_nth)
    with assms(1) [of i] snoc show ?thesis by (simp add: nth_append)
  qed
  then have f: "filter (\<lambda>(st, o1). st \<noteq> PROVIDER_TRY_FATAL) xs = xs" unfolding filter_id_conv by fastforce
  then show ?thesis using assms(2) snoc by (auto simp: sent_of_def nth_append split: prod.splits if_splits)
qed

lemma http_try_log:
  assumes "http_try env url headers body t u retry left out = (u1, st, o1)"
  shows "map snd (nw_log (fst u1)) = map snd (nw_log (fst u)) @ sent_of [(st, o1)]"
  using assms by (auto simp: http_try_def curl_run_def sent_of_def Let_def split: option.splits prod.splits if_splits)

lemma post_log:
  assumes "provider_http_post env url headers body t mr cls idem w = (w', ret, r)"
  shows "\<exists>es. map snd (nw_log w') = map snd (nw_log w) @ es \<and> length es \<le> nat (max 0 mr) + 1 \<and>
    (\<forall>i. Suc i < length es \<longrightarrow> idem \<or> not_sent (fst (es ! i)) (snd (es ! i)))"
proof (cases "ne_alloc env 24")
  case False
  with assms show ?thesis by (simp add: provider_http_post_def)
next
  case True
  define cfg where "cfg = \<lparr>rt_timeout_sec = t, rt_max_retries = mr, rt_class = cls, rt_idempotent = idem,
      rt_attempt = http_try env url headers body t, rt_gate = None, rt_reset = Some http_try_reset\<rparr>"
  define w0 where "w0 = w\<lparr>nw_runs := nw_runs w + 1\<rparr>"
  obtain u o1 tr where run: "provider_retry_run (ne_retry env (nw_runs w)) cfg (w0, empty_resp) = (u, o1, tr)"
    by (metis prod_cases3)
  let ?mx = "nat (if 0 < rt_max_retries cfg then rt_max_retries cfg else 0)"
  have l: "retry_loop (ne_retry env (nw_runs w)) cfg ?mx 0 (w0, empty_resp) (CURLE_OK, 0, PROV_TMO_KIND_N) = (u, o1, tr)"
    using run by (simp add: provider_retry_run_def)
  have w': "w' = fst u"
    using assms True run unfolding provider_http_post_def Let_def cfg_def [symmetric] w0_def [symmetric]
    by (auto split: option.splits prod.splits if_splits)
  have lg: "map snd (nw_log (fst u)) = map snd (nw_log w) @ sent_of ([] @ tr)"
  proof (rule retry_loop_trace [where I = "\<lambda>u xs. map snd (nw_log (fst u)) = map snd (nw_log w) @ sent_of xs", OF _ _ l])
    fix u and xs :: "(provider_attempt \<times> try_out) list" and retry left out u1 st o1
    assume "map snd (nw_log (fst u)) = map snd (nw_log w) @ sent_of xs" "rt_attempt cfg u retry left out = (u1, st, o1)"
    then show "map snd (nw_log (fst u1)) = map snd (nw_log w) @ sent_of (xs @ [(st, o1)])"
      using http_try_log [of env url headers body t u retry left out u1 st o1] by (simp add: cfg_def sent_of_def)
  qed (auto simp: cfg_def http_try_reset_def w0_def sent_of_def)
  have tr: "\<And>i. Suc i < length tr \<Longrightarrow> (case tr ! i of (st, res, code, tmo) \<Rightarrow> st = PROVIDER_TRY_FAILED \<and> (idem \<or> not_sent res tmo))"
  proof -
    fix i assume "Suc i < length tr"
    then have "case tr ! i of (st, res, code, tmo) \<Rightarrow> st = PROVIDER_TRY_FAILED \<and> retry_allowed (rt_class cfg) (rt_idempotent cfg) res tmo \<and>
        provider_retry_budget_ok (rt_timeout_sec cfg) (rt_now (ne_retry env (nw_runs w)) 0)
          (rt_now (ne_retry env (nw_runs w)) (2 * (0 + i) + 2)) (retry_delay (ne_retry env (nw_runs w)) cfg (0 + i))"
      by (rule mp [OF spec [OF conjunct1 [OF conjunct2 [OF retry_trace [OF l]]]]])
    then show "case tr ! i of (st, res, code, tmo) \<Rightarrow> st = PROVIDER_TRY_FAILED \<and> (idem \<or> not_sent res tmo)"
      using retry_allowed_sent [of "rt_class cfg" idem] by (cases "tr ! i") (auto simp: cfg_def)
  qed
  have "idem \<or> not_sent (fst (sent_of tr ! i)) (snd (sent_of tr ! i))" if "Suc i < length (sent_of tr)" for i
  proof -
    have "fst (tr ! i) = PROVIDER_TRY_FAILED" if "Suc i < length tr" for i using tr [OF that] by (auto split: prod.splits)
    from sent_of_nth [OF this that] tr [of i] show ?thesis by (auto split: prod.splits)
  qed
  moreover have "length (sent_of tr) \<le> nat (max 0 mr) + 1"
  proof -
    have "length tr \<le> nat (max 0 mr) + 1" using conjunct1 [OF retry_trace [OF l]] by (auto simp: cfg_def split: if_splits)
    moreover have "length (sent_of tr) \<le> length tr" unfolding sent_of_def length_map by (rule length_filter_le)
    ultimately show ?thesis by simp
  qed
  ultimately show ?thesis using lg w' by auto
qed

section \<open>Where a response comes from\<close>

text \<open>What the code relies on of libcurl: a transfer whose data is refused does not succeed.\<close>

definition refusal_fails :: "net_env \<Rightarrow> bool" where
  "refusal_fails env \<longleftrightarrow> (\<forall>k opts x. ne_curl env k opts = Some x \<longrightarrow> fst (x_end x True) \<noteq> CURLE_OK)"

definition one_transfer :: "net_env \<Rightarrow> provider_http_resp \<Rightarrow> bool" where
  "one_transfer env resp \<longleftrightarrow> (\<exists>k opts x. ne_curl env k opts = Some x \<and> hr_data resp = concat (x_chunks x))"

lemma post_one_transfer:
  assumes rf: "refusal_fails env" and "provider_http_post env url headers body t mr cls idem w = (w', ret, Some (resp, code))"
  shows "one_transfer env resp \<and> ret = AIRY_OK"
proof -
  define cfg where "cfg = \<lparr>rt_timeout_sec = t, rt_max_retries = mr, rt_class = cls, rt_idempotent = idem,
      rt_attempt = http_try env url headers body t, rt_gate = None, rt_reset = Some http_try_reset\<rparr>"
  define w0 where "w0 = w\<lparr>nw_runs := nw_runs w + 1\<rparr>"
  obtain u o1 tr where run: "provider_retry_run (ne_retry env (nw_runs w)) cfg (w0, empty_resp) = (u, o1, tr)"
    by (metis prod_cases3)
  have res: "o1 = Some (CURLE_OK, code, snd (snd (the o1)))" "resp = snd u" "ret = AIRY_OK"
    using assms(2) run unfolding provider_http_post_def Let_def cfg_def [symmetric] w0_def [symmetric]
    by (auto split: option.splits prod.splits if_splits)
  have "\<exists>u0 k left out0 st out1. snd u0 = empty_resp \<and> rt_attempt cfg u0 k left out0 = (u, st, out1) \<and>
      o1 = (if st = PROVIDER_TRY_FATAL then None else Some out1)"
    by (rule retry_last_attempt [where J = "\<lambda>u. snd u = empty_resp"])
      (insert run, auto simp: cfg_def http_try_reset_def provider_retry_run_def split: option.splits)
  then obtain u0 k left out0 st tmo where a: "snd u0 = empty_resp"
      "http_try env url headers body t u0 k left out0 = (u, st, CURLE_OK, code, tmo)" "st \<noteq> PROVIDER_TRY_FATAL"
    using res(1) by (auto simp: cfg_def split: if_splits)
  then obtain k1 opts x refused where x: "ne_curl env k1 opts = Some x"
      "feed_chunks (http_write_callback (ne_alloc env)) empty_resp (x_chunks x) = (snd u, refused)" "fst (x_end x refused) = CURLE_OK"
    by (auto simp: http_try_def curl_run_def Let_def split: option.splits prod.splits if_splits)
  have "\<not> refused" using rf x(1,3) by (cases refused) (auto simp: refusal_fails_def)
  then have "hr_data (snd u) = concat (x_chunks x)" using buffer_exact [where alloc = "ne_alloc env" and cs = "x_chunks x"] x(2) by simp
  with x(1) res show ?thesis by (auto simp: one_transfer_def)
qed

text \<open>What a call hands back: a response of one transfer, always present on success.\<close>

definition resp_ok :: "net_env \<Rightarrow> net_ret \<Rightarrow> provider_http_resp option \<Rightarrow> bool" where
  "resp_ok env ret resp \<longleftrightarrow> (case resp of None \<Rightarrow> ret \<noteq> AIRY_OK | Some rs \<Rightarrow> one_transfer env rs)"

lemma post_resp_ok:
  assumes "refusal_fails env" and "provider_http_post env url headers body t mr cls idem w = (w', ret, r)"
  shows "resp_ok env ret (map_option fst r)"
proof (cases r)
  case None
  with assms(2) show ?thesis
    by (auto simp: provider_http_post_def resp_ok_def post_fail_code_def Let_def split: if_splits prod.splits option.splits)
next
  case (Some a)
  with post_one_transfer [OF assms(1)] assms(2) show ?thesis by (cases a) (auto simp: resp_ok_def)
qed

lemma rl_round_resp_ok:
  assumes "refusal_fails env" and "rl_round env base url headers body t idem mx attempt code (w, rl) = (s', code', Inl (ret, resp))"
  shows "resp_ok env ret resp"
proof -
  obtain rl1 ok where c: "rl_check_rpm (ne_time env (nw_times w)) (ne_others env 0 (nw_times w) rl) = (rl1, ok)" by fastforce
  then have ok: ok using assms(2) by (cases ok) (auto simp: rl_round_def)
  obtain w2 ret2 r where p: "provider_http_post env url headers body (if 0 < t then t else pb_timeout_sec base)
      (pb_max_retries base) (pb_retry_class base) idem (w\<lparr>nw_times := nw_times w + 1\<rparr>) = (w2, ret2, r)"
    by (metis prod_cases3)
  have "resp = map_option fst r \<and> (ret = AIRY_OK \<longrightarrow> ret2 = AIRY_OK)"
    using assms(2) err_map_codes unfolding rl_round_accepted [OF c [unfolded eqTrueI [OF ok]] p refl] by (auto split: if_splits)
  with post_resp_ok [OF assms(1) p] show ?thesis by (auto simp: resp_ok_def split: option.splits)
qed

lemma rl_loop_resp_ok:
  assumes "refusal_fails env" and "rl_loop env base url headers body t idem mx attempt code s = Some (s', code', ret, resp)"
  shows "resp_ok env ret resp"
proof -
  let ?P = "\<lambda>e b u h bd t i m a c s (r :: (net_world \<times> provider_rate_limiter) \<times> int \<times> net_ret \<times> provider_http_resp option).
      e = env \<longrightarrow> resp_ok env (fst (snd (snd r))) (snd (snd (snd r)))"
  have "?P env base url headers body t idem mx attempt code s (s', code', ret, resp)"
  proof (rule rl_loop.raw_induct [where P = ?P, OF _ assms(2)])
    fix f e b u h bd t i m a c s y
    assume ih: "\<And>e b u h bd t i m a c s y. f e b u h bd t i m a c s = Some y \<Longrightarrow> ?P e b u h bd t i m a c s y"
      and eq: "(if a < m then case rl_round e b u h bd t i m a c s of (s, c, Inl r) \<Rightarrow> Some (s, c, r) | (s, c, Inr a) \<Rightarrow> f e b u h bd t i m a c s
         else Some (s, c, provider_http_err_map c AIRY_ERR_IO, None)) = Some y"
    obtain w rl where s: "s = (w, rl)" by (cases s)
    obtain s1 c1 x where r: "rl_round e b u h bd t i m a c s = (s1, c1, x)" by (metis prod_cases3)
    show "?P e b u h bd t i m a c s y"
    proof (cases "a < m")
      case False
      with eq err_map_codes [of c] show ?thesis by (auto simp: resp_ok_def)
    next
      case True
      show ?thesis
      proof (cases x)
        case (Inl q)
        then have "y = (s1, c1, fst q, snd q)" using eq True r by simp
        with rl_round_resp_ok [OF assms(1)] r Inl s show ?thesis by (metis fst_conv snd_conv prod.collapse)
      next
        case (Inr a')
        then have "f e b u h bd t i m a' c1 s1 = Some y" using eq True r by simp
        from ih [OF this] show ?thesis .
      qed
    qed
  qed
  then show ?thesis by simp
qed

lemma exec_resp_ok:
  assumes "refusal_fails env" and "provider_http_exec env cb req code (w, rl) = Some e" and "rq_stream req = None"
  shows "resp_ok env (ex_ret e) (ex_resp e)"
proof (cases "provider_url_join (pb_api_base (rq_base req)) (rq_path req) 1024")
  case None
  with assms show ?thesis by (auto simp: provider_http_exec_def resp_ok_def)
next
  case (Some url)
  obtain hs bu where ex: "exec_post env cb req url hs bu code (w, rl) = Some e"
    using assms(2) Some unfolding provider_http_exec_def by simp
  show ?thesis
  proof (cases rl)
    case None
    then obtain w' ret r where "provider_http_post env url hs (rq_body req) bu (pb_max_retries (rq_base req)) (pb_retry_class (rq_base req))
        (rq_idempotent req) w = (w', ret, r)" "ex_resp e = map_option fst r" "ex_ret e = ret"
      using ex assms(3) by (auto simp: exec_post_def Let_def split: prod.splits)
    with post_resp_ok [OF assms(1)] show ?thesis by metis
  next
    case (Some l)
    then obtain s' code' where "provider_http_request_with_retry env (rq_base req) url hs (rq_body req) bu (rq_idempotent req) code (w, l) =
        Some (s', code', ex_ret e, ex_resp e)"
      using ex assms(3) by (auto simp: exec_post_def Let_def split: option.splits prod.splits)
    with rl_loop_resp_ok [OF assms(1)] show ?thesis by (metis provider_http_request_with_retry_def)
  qed
qed

text \<open>
  A completion is what one transfer brought. If the driver returns a response, with or without
  the rate limiter and after any number of retries, it is the parse of exactly the bytes of one
  transfer, none missing and none of an earlier attempt in front, with the endpoint's capacity
  stamped on it.
\<close>

theorem completion_is_one_transfer:
  assumes "refusal_fails env" and "provider_driver_complete env ops base pr cfg elapsed (w, rl) = Some (w', rl', AIRY_OK, Some r)"
  shows "\<exists>k opts x r0. ne_curl env k opts = Some x \<and> ad_parse ops (concat (x_chunks x)) = (AIRY_OK, Some r0) \<and> r = resp_stamp_capacity pr r0"
proof -
  obtain body where b: "ad_build ops cfg = Some body"
    using assms(2) by (auto simp: provider_driver_complete_def split: option.splits)
  define req where "req = \<lparr>rq_base = base, rq_path = ad_chat_path ops, rq_headers = ad_headers ops, rq_body = body, rq_timeout_sec = 0,
      rq_idempotent = req_idem cfg, rq_stream = None\<rparr>"
  obtain e where e: "provider_http_exec env (\<lambda>_. 0) req 0 (w, rl) = Some e"
    using assms(2) b by (auto simp: provider_driver_complete_def req_def split: option.splits)
  have cp: "ex_ret e = AIRY_OK" "ex_code e = 200" "complete_parse ops pr (the (ex_resp e)) = (AIRY_OK, Some r)"
    using assms(2) b e by (auto simp: provider_driver_complete_def req_def [symmetric] Let_def split: if_splits)
  have "resp_ok env (ex_ret e) (ex_resp e)" by (rule exec_resp_ok [OF assms(1) e]) (simp add: req_def)
  then obtain resp where resp: "ex_resp e = Some resp" "one_transfer env resp"
    using cp(1) by (auto simp: resp_ok_def split: option.splits)
  with cp(3) resp show ?thesis
    by (auto simp: one_transfer_def complete_parse_def split: prod.splits if_splits)
qed

lemma driver_world [simp]: "nw_log (lat_note base e w) = nw_log w" "nw_log (req_fail c r w) = nw_log w"
  by (simp_all add: lat_note_def req_fail_def)

text \<open>
  C21. A completion is not sent twice by accident. Without a rate limiter, whatever the network does,
  a completion makes at most \<open>max_retries + 1\<close> transfers, and unless its sampling is deterministic
  (temperature 0 with a seed) every transfer but the last is one in which the request cannot have
  reached the provider.
\<close>

theorem completion_not_duplicated:
  assumes "provider_driver_complete env ops base pr cfg elapsed (w, None) = Some (w', res)"
  shows "\<exists>es. map snd (nw_log w') = map snd (nw_log w) @ es \<and> length es \<le> nat (max 0 (pb_max_retries base)) + 1 \<and>
    (\<forall>i. \<not> req_idem cfg \<and> Suc i < length es \<longrightarrow> not_sent (fst (es ! i)) (snd (es ! i)))"
proof (cases "ad_build ops cfg")
  case None
  with assms show ?thesis by (simp add: provider_driver_complete_def)
next
  case (Some body)
  define req where "req = \<lparr>rq_base = base, rq_path = ad_chat_path ops, rq_headers = ad_headers ops, rq_body = body, rq_timeout_sec = 0,
      rq_idempotent = req_idem cfg, rq_stream = None\<rparr>"
  obtain e where e: "provider_http_exec env (\<lambda>_. 0) req 0 (w, None) = Some e" and w': "nw_log w' = nw_log (ex_world e)"
    using assms Some by (auto simp: provider_driver_complete_def Let_def req_def split: option.splits if_splits)
  show ?thesis
  proof (cases "provider_url_join (pb_api_base base) (ad_chat_path ops) 1024")
    case None
    with e w' show ?thesis by (auto simp: provider_http_exec_def req_def)
  next
    case url: (Some url)
    obtain hs bu where ex: "exec_post env (\<lambda>_. 0) req url hs bu 0 (w, None) = Some e"
      using e url unfolding provider_http_exec_def by (simp add: req_def)
    then obtain w2 ret r where p: "provider_http_post env url hs body bu (pb_max_retries base) (pb_retry_class base) (req_idem cfg) w = (w2, ret, r)"
        "ex_world e = w2"
      by (auto simp: exec_post_def req_def Let_def split: prod.splits)
    from post_log [OF p(1)] w' p(2) show ?thesis by auto
  qed
qed

section \<open>Runs\<close>

definition example_adapter :: provider_adapter where
  "example_adapter = \<lparr>ad_chat_path = ''/chat'', ad_headers = None, ad_build = (\<lambda>_. Some ''b''),
     ad_parse = (\<lambda>d. (AIRY_OK, Some \<lparr>lr_text = d, lr_finish_reason = None, lr_context_window = 0, lr_total_slots = 0\<rparr>)),
     ad_feed_event = False, ad_take = (\<lambda>_. None), ad_feed = (\<lambda>_. 0), ad_truncated = (\<lambda>_. False), ad_filtered = (\<lambda>_. False)\<rparr>"

definition no_props :: props where "no_props = \<lparr>pr_state = 0, pr_n_ctx_slot = 0, pr_total_slots = 0\<rparr>"

definition split_xfer :: xfer where
  "split_xfer = \<lparr>x_chunks = [''{'', ''}''], x_end = (\<lambda>refused. (if refused then CURLE_WRITE_ERROR else CURLE_OK, 200, 1, 2))\<rparr>"

definition flaky_xfer :: xfer where
  "flaky_xfer = \<lparr>x_chunks = [''junk''], x_end = (\<lambda>refused. (CURLE_COULDNT_CONNECT, 0, 0, 0))\<rparr>"

definition flaky_net :: net_env where
  "flaky_net = example_net (\<lambda>k. if k = 0 then flaky_xfer else split_xfer)"

lemma flaky_run:
  "map_option (\<lambda>(w, rl, ret, r). (map snd (nw_log w), ret, map_option lr_text r))
     (provider_driver_complete flaky_net example_adapter example_base no_props \<lparr>gc_temperature = 1, gc_seed = 0\<rparr> 5 (example_world, None)) =
   Some ([(CURLE_COULDNT_CONNECT, PROV_TMO_KIND_N), (CURLE_OK, PROV_TMO_KIND_N)], AIRY_OK, Some ''{}'')"
  by code_simp

lemma flaky_result:
  obtains w' rl' r where "provider_driver_complete flaky_net example_adapter example_base no_props \<lparr>gc_temperature = 1, gc_seed = 0\<rparr> 5
      (example_world, None) = Some (w', rl', AIRY_OK, Some r)" "lr_text r = ''{}''"
    "map snd (nw_log w') = [(CURLE_COULDNT_CONNECT, PROV_TMO_KIND_N), (CURLE_OK, PROV_TMO_KIND_N)]"
  using flaky_run
  by (cases "provider_driver_complete flaky_net example_adapter example_base no_props \<lparr>gc_temperature = 1, gc_seed = 0\<rparr> 5 (example_world, None)")
    (auto split: prod.splits)

theorem completion_is_one_transfer_witness:
  "\<exists>k opts x. ne_curl flaky_net k opts = Some x \<and> concat (x_chunks x) = ''{}''"
proof -
  have rf: "refusal_fails flaky_net"
    by (auto simp: refusal_fails_def flaky_net_def example_net_def flaky_xfer_def split_xfer_def)
  obtain w' rl' r where run: "provider_driver_complete flaky_net example_adapter example_base no_props \<lparr>gc_temperature = 1, gc_seed = 0\<rparr> 5
      (example_world, None) = Some (w', rl', AIRY_OK, Some r)" and t: "lr_text r = ''{}''"
    by (rule flaky_result)
  from completion_is_one_transfer [OF rf run] t show ?thesis
    by (fastforce simp: example_adapter_def no_props_def resp_stamp_capacity_def)
qed

theorem completion_not_duplicated_witness:
  "\<exists>es. es = [(CURLE_COULDNT_CONNECT, PROV_TMO_KIND_N), (CURLE_OK, PROV_TMO_KIND_N)] \<and> not_sent (fst (es ! 0)) (snd (es ! 0)) \<and>
    length es \<le> nat (max 0 (pb_max_retries example_base)) + 1"
proof -
  obtain w' rl' r where run: "provider_driver_complete flaky_net example_adapter example_base no_props \<lparr>gc_temperature = 1, gc_seed = 0\<rparr> 5
      (example_world, None) = Some (w', rl', AIRY_OK, Some r)"
    and lg: "map snd (nw_log w') = [(CURLE_COULDNT_CONNECT, PROV_TMO_KIND_N), (CURLE_OK, PROV_TMO_KIND_N)]"
    by (rule flaky_result)
  have i: "\<not> req_idem \<lparr>gc_temperature = 1, gc_seed = 0\<rparr>" by (simp add: req_idem_def)
  from completion_not_duplicated [OF run] lg i show ?thesis by (force simp: example_world_def)
qed

end
