(* ===== verification/Tool_Sec.thy ===== *)
theory Tool_Sec
  imports Airy_Prelude
begin

text \<open>
  svc_common, the security core (\<open>common/src/security\<close>): initialisation and shutdown of the
  shared context, the ACL table with its rules file, the sanitizer of tool parameters, and the
  audit log. Every operation takes the one lock \<open>g_security_mutex\<close>, so each is one step on the
  shared context.

  The YAML reader is a library outside this repository: the rules file is what it delivers, the
  agent, tool and effect strings of each rule. The vault backend is injected by the caller; here
  only its \<open>open\<close> result matters. An audit line is kept as the fields it is formatted from.
\<close>

section \<open>State\<close>

datatype sec_err =
    SEC_INVALID_PARAM | SEC_EPERM | SEC_PERMISSION_DENIED | SEC_STATE_ERROR | SEC_OUT_OF_MEMORY
  | SEC_NOT_FOUND | SEC_PARSE_ERROR | SEC_BUSY | SEC_VIOLATION | SEC_QUOTA

definition MAX_ACL_ENTRIES :: nat where "MAX_ACL_ENTRIES = 256"
definition ACL_AGENT_SIZE :: nat where "ACL_AGENT_SIZE = 64"
definition ACL_RESOURCE_SIZE :: nat where "ACL_RESOURCE_SIZE = 128"

record acl_entry =
  acl_agent_id :: string
  acl_resource :: string
  acl_operations :: "32 word"
  acl_allowed :: bool

record audit_event =
  ev_service :: string
  ev_operation :: string
  ev_resource :: string
  ev_agent :: string
  ev_result_str :: string

record security_ctx =
  sc_initialized :: bool
  sc_permission_enabled :: bool
  sc_vault_enabled :: bool
  sc_audit_enabled :: bool
  sc_vault_open :: bool
  sc_acl_table :: "acl_entry list"
  sc_audit_log :: "audit_event list"

definition security_zero :: security_ctx where
  "security_zero = \<lparr>sc_initialized = False, sc_permission_enabled = False, sc_vault_enabled = False,
     sc_audit_enabled = False, sc_vault_open = False, sc_acl_table = [], sc_audit_log = []\<rparr>"

text \<open>What reading the rules file gives: the agent, tool and effect of each rule, if present.\<close>

type_synonym yaml_rule = "string option \<times> string option \<times> string option"

datatype rules_file = Rules_Missing | Rules_Unparsable | Rules_No_Section | Rules "yaml_rule list"

text \<open>\<open>cfg_vault\<close> is \<open>None\<close> without a provider, else the success of its \<open>open\<close>.\<close>

record security_config =
  cfg_enable_permission_cache :: bool
  cfg_enable_vault :: bool
  cfg_vault :: "bool option"
  cfg_enable_audit_logging :: bool
  cfg_rules :: "rules_file option"

section \<open>ACL\<close>

definition acl_key :: "acl_entry \<Rightarrow> string \<times> string" where
  "acl_key e = (acl_agent_id e, acl_resource e)"

definition acl_find :: "acl_entry list \<Rightarrow> string \<times> string \<Rightarrow> nat option" where
  "acl_find tab k = find_index (\<lambda>e. acl_key e = k) tab"

definition daemon_check_tool_permission :: "security_ctx \<Rightarrow> string \<Rightarrow> string \<Rightarrow> sec_err + unit" where
  "daemon_check_tool_permission c agent tool =
     (if \<not> sc_initialized c then Inl SEC_EPERM
      else if \<not> sc_permission_enabled c then Inl SEC_EPERM
      else case acl_find (sc_acl_table c) (agent, tool) of
             None \<Rightarrow> Inl SEC_PERMISSION_DENIED
           | Some i \<Rightarrow> if acl_allowed (sc_acl_table c ! i) then Inr () else Inl SEC_PERMISSION_DENIED)"

definition daemon_security_add_acl_rule ::
  "security_ctx \<Rightarrow> string \<Rightarrow> string \<Rightarrow> bool \<Rightarrow> security_ctx \<times> (sec_err + unit)" where
  "daemon_security_add_acl_rule c agent resource allowed =
     (if agent = [] \<or> resource = [] then (c, Inl SEC_INVALID_PARAM)
      else if ACL_AGENT_SIZE \<le> length agent \<or> ACL_RESOURCE_SIZE \<le> length resource then (c, Inl SEC_INVALID_PARAM)
      else if \<not> sc_initialized c then (c, Inl SEC_STATE_ERROR)
      else case acl_find (sc_acl_table c) (agent, resource) of
             Some i \<Rightarrow> (c\<lparr>sc_acl_table := (sc_acl_table c)[i := (sc_acl_table c ! i)\<lparr>acl_allowed := allowed\<rparr>]\<rparr>, Inr ())
           | None \<Rightarrow>
               if MAX_ACL_ENTRIES \<le> length (sc_acl_table c) then (c, Inl SEC_OUT_OF_MEMORY)
               else (c\<lparr>sc_acl_table := sc_acl_table c @
                       [\<lparr>acl_agent_id = snprintf_s ACL_AGENT_SIZE agent,
                         acl_resource = snprintf_s ACL_RESOURCE_SIZE resource,
                         acl_operations = - 1, acl_allowed = allowed\<rparr>]\<rparr>, Inr ()))"

text \<open>One rule of the file; an absent effect counts as deny.\<close>

definition load_rule :: "security_ctx \<Rightarrow> yaml_rule \<Rightarrow> security_ctx" where
  "load_rule c r =
     (case r of
        (Some agent, Some tool, effect) \<Rightarrow>
          if agent = [] \<or> tool = [] then c
          else fst (daemon_security_add_acl_rule c agent tool
                 ((case effect of None \<Rightarrow> ''deny'' | Some e \<Rightarrow> e) = ''allow''))
      | _ \<Rightarrow> c)"

definition daemon_security_load_rules_file :: "rules_file \<Rightarrow> security_ctx \<Rightarrow> security_ctx \<times> (sec_err + unit)" where
  "daemon_security_load_rules_file f c =
     (case f of
        Rules_Missing \<Rightarrow> (c, Inl SEC_NOT_FOUND)
      | Rules_Unparsable \<Rightarrow> (c, Inl SEC_PARSE_ERROR)
      | Rules_No_Section \<Rightarrow> (c, Inl SEC_PARSE_ERROR)
      | Rules rs \<Rightarrow> (foldl load_rule c rs, Inr ()))"

section \<open>Lifecycle\<close>

definition vault_state :: "security_config option \<Rightarrow> bool \<times> bool" where
  "vault_state cfg =
     (let enabled = (case cfg of None \<Rightarrow> True | Some g \<Rightarrow> cfg_enable_vault g);
          provider = (case cfg of None \<Rightarrow> None | Some g \<Rightarrow> cfg_vault g)
      in if enabled then (case provider of Some True \<Rightarrow> (True, True) | _ \<Rightarrow> (False, False))
         else (False, False))"

text \<open>The audit log is a file opened for appending: a new context keeps what was written.\<close>

definition daemon_security_init :: "security_config option \<Rightarrow> security_ctx \<Rightarrow> security_ctx" where
  "daemon_security_init cfg c =
     (if sc_initialized c then c
      else let c = security_zero\<lparr>sc_audit_log := sc_audit_log c,
                 sc_permission_enabled := (case cfg of None \<Rightarrow> True | Some g \<Rightarrow> cfg_enable_permission_cache g),
                 sc_audit_enabled := (case cfg of None \<Rightarrow> True | Some g \<Rightarrow> cfg_enable_audit_logging g),
                 sc_vault_enabled := fst (vault_state cfg), sc_vault_open := snd (vault_state cfg),
                 sc_initialized := True\<rparr>
           in case cfg of
                None \<Rightarrow> c
              | Some g \<Rightarrow> (case cfg_rules g of None \<Rightarrow> c | Some f \<Rightarrow> fst (daemon_security_load_rules_file f c)))"

definition daemon_security_shutdown :: "security_ctx \<Rightarrow> security_ctx" where
  "daemon_security_shutdown c =
     (if \<not> sc_initialized c then c
      else c\<lparr>sc_vault_open := False, sc_acl_table := [], sc_initialized := False,
             sc_permission_enabled := False, sc_vault_enabled := False, sc_audit_enabled := False\<rparr>)"

section \<open>Sanitizer and audit\<close>

definition c_isprint :: "char \<Rightarrow> bool" where
  "c_isprint c \<longleftrightarrow> 32 \<le> (of_char c :: nat) \<and> (of_char c :: nat) \<le> 126"

definition keeps :: "char \<Rightarrow> bool" where
  "keeps c \<longleftrightarrow> c_isprint c \<and> c \<noteq> CHR 0x5C \<and> c \<noteq> chr_nl \<and> c \<noteq> chr_cr \<and> c \<noteq> chr_tab"

text \<open>\<open>room\<close> is what is left of \<open>max_len - 1\<close>.\<close>

fun sanitize_loop :: "nat \<Rightarrow> string \<Rightarrow> string" where
  "sanitize_loop room [] = []"
| "sanitize_loop room (c # cs) =
     (if room = 0 then []
      else if keeps c then c # sanitize_loop (room - 1) cs
      else sanitize_loop room cs)"

definition sanitize_string :: "nat \<Rightarrow> string \<Rightarrow> string" where
  "sanitize_string max_len s = sanitize_loop (max_len - 1) s"

text \<open>The sanitized tool name and parameters; the context only decides whether a warning is logged.\<close>

definition daemon_sanitize_tool_params :: "string \<Rightarrow> string \<Rightarrow> nat \<Rightarrow> nat \<Rightarrow> string \<times> string" where
  "daemon_sanitize_tool_params tool params tool_size param_size =
     (sanitize_string tool_size tool, sanitize_string param_size params)"

definition daemon_audit_log_event ::
  "security_ctx \<Rightarrow> string \<Rightarrow> string \<Rightarrow> string \<Rightarrow> int \<Rightarrow> string \<Rightarrow> security_ctx \<times> (sec_err + unit)" where
  "daemon_audit_log_event c service operation resource result agent =
     (if \<not> sc_initialized c then (c, Inl SEC_STATE_ERROR)
      else if \<not> sc_audit_enabled c then (c, Inr ())
      else (c\<lparr>sc_audit_log := sc_audit_log c @
              [\<lparr>ev_service = service, ev_operation = operation, ev_resource = resource, ev_agent = agent,
                ev_result_str = (if result = 0 then ''SUCCESS'' else ''FAILED'')\<rparr>]\<rparr>, Inr ()))"

section \<open>The ACL as a map\<close>

interpretation acl: keyed_table "map acl_key" "\<lambda>_. True" acl_find
  by unfold_locales (auto simp: acl_find_def find_index_Some_iff)

text \<open>The table stands for the map of its entries; no key occurs twice.\<close>

definition acl_abs :: "acl_entry list \<Rightarrow> string \<times> string \<Rightarrow> bool option" where
  "acl_abs tab k = map_option (\<lambda>i. acl_allowed (tab ! i)) (acl_find tab k)"

definition acl_ok :: "security_ctx \<Rightarrow> bool" where
  "acl_ok c \<longleftrightarrow> distinct (map acl_key (sc_acl_table c)) \<and> length (sc_acl_table c) \<le> MAX_ACL_ENTRIES \<and>
     list_all (\<lambda>e. acl_agent_id e \<noteq> [] \<and> acl_resource e \<noteq> [] \<and> length (acl_agent_id e) < ACL_AGENT_SIZE \<and>
       length (acl_resource e) < ACL_RESOURCE_SIZE) (sc_acl_table c)"

definition rule_fits :: "string \<Rightarrow> string \<Rightarrow> bool" where
  "rule_fits agent resource \<longleftrightarrow> agent \<noteq> [] \<and> resource \<noteq> [] \<and> length agent < ACL_AGENT_SIZE \<and>
     length resource < ACL_RESOURCE_SIZE"

lemma acl_abs_None: "acl_abs tab k = None \<longleftrightarrow> k \<notin> acl_key ` set tab"
  using acl.find_None [of tab k] by (simp add: acl_abs_def)

lemma find_index_append:
  "find_index P (xs @ ys) =
     (case find_index P xs of Some i \<Rightarrow> Some i | None \<Rightarrow> map_option (\<lambda>i. length xs + i) (find_index P ys))"
proof (induction xs)
  case Nil
  then show ?case by (cases "find_index P ys") simp_all
next
  case (Cons x xs)
  then show ?case by (cases "find_index P xs"; cases "find_index P ys") simp_all
qed

lemma acl_abs_append:
  "k \<notin> acl_key ` set tab \<Longrightarrow> acl_key e = k \<Longrightarrow> acl_abs (tab @ [e]) = (acl_abs tab)(k \<mapsto> acl_allowed e)"
proof
  fix x
  assume k: "k \<notin> acl_key ` set tab" "acl_key e = k"
  show "acl_abs (tab @ [e]) x = ((acl_abs tab)(k \<mapsto> acl_allowed e)) x"
  proof (cases "acl_find tab x")
    case None
    then show ?thesis using k by (simp add: acl_abs_def acl_find_def find_index_append)
  next
    case (Some i)
    with acl.find_SomeD [OF Some] k(1) have "i < length tab" "x \<noteq> k" by auto
    with Some show ?thesis by (simp add: acl_abs_def acl_find_def find_index_append nth_append)
  qed
qed

lemma acl_key_update [simp]: "acl_key (e\<lparr>acl_allowed := a\<rparr>) = acl_key e"
  by (simp add: acl_key_def)

lemma acl_keys_update:
  "map acl_key (tab[i := (tab ! i)\<lparr>acl_allowed := a\<rparr>]) = map acl_key tab"
  by (metis acl_key_update list_update_id map_update)

lemma acl_abs_update:
  assumes "acl_find tab k = Some i"
  shows "acl_abs (tab[i := (tab ! i)\<lparr>acl_allowed := a\<rparr>]) = (acl_abs tab)(k \<mapsto> a)"
proof
  fix x
  have i: "i < length tab" "acl_key (tab ! i) = k" using acl.find_SomeD [OF assms] by auto
  have f: "acl_find (tab[i := (tab ! i)\<lparr>acl_allowed := a\<rparr>]) x = acl_find tab x"
    by (rule acl.find_cong) (rule acl_keys_update)
  show "acl_abs (tab[i := (tab ! i)\<lparr>acl_allowed := a\<rparr>]) x = ((acl_abs tab)(k \<mapsto> a)) x"
  proof (cases "x = k")
    case True
    then show ?thesis using assms i by (simp add: acl_abs_def f [unfolded True])
  next
    case False
    have "j \<noteq> i" if "acl_find tab x = Some j" for j
      using acl.find_SomeD [OF that] i False by auto
    then show ?thesis using False by (cases "acl_find tab x") (simp_all add: acl_abs_def f nth_list_update)
  qed
qed

text \<open>The contract of \<open>daemon_security_add_acl_rule\<close> over the map.\<close>

lemma add_acl_rule_abs:
  "acl_abs (sc_acl_table (fst (daemon_security_add_acl_rule c a r b))) =
     (if isl (snd (daemon_security_add_acl_rule c a r b)) then acl_abs (sc_acl_table c)
      else (acl_abs (sc_acl_table c))((a, r) \<mapsto> b))"
proof (cases "acl_find (sc_acl_table c) (a, r)")
  case (Some i)
  then show ?thesis by (simp add: daemon_security_add_acl_rule_def acl_abs_update)
next
  case None
  then have "(a, r) \<notin> acl_key ` set (sc_acl_table c)" using acl.find_None by simp
  from acl_abs_append [OF this] None show ?thesis
    by (simp add: daemon_security_add_acl_rule_def snprintf_s_id acl_key_def)
qed

lemma add_acl_rule_accepts:
  "isl (snd (daemon_security_add_acl_rule c a r b)) \<longleftrightarrow>
     \<not> (rule_fits a r \<and> sc_initialized c \<and>
        (acl_abs (sc_acl_table c) (a, r) \<noteq> None \<or> length (sc_acl_table c) < MAX_ACL_ENTRIES))"
  by (auto simp: daemon_security_add_acl_rule_def rule_fits_def acl_abs_def split: option.split)

lemma add_acl_rule_frame [frame]:
  "sc_initialized (fst (daemon_security_add_acl_rule c a r b)) = sc_initialized c"
  "sc_permission_enabled (fst (daemon_security_add_acl_rule c a r b)) = sc_permission_enabled c"
  "sc_audit_enabled (fst (daemon_security_add_acl_rule c a r b)) = sc_audit_enabled c"
  "sc_audit_log (fst (daemon_security_add_acl_rule c a r b)) = sc_audit_log c"
  by (simp_all add: daemon_security_add_acl_rule_def split: option.split)

lemma add_acl_rule_ok:
  assumes "acl_ok c"
  shows "acl_ok (fst (daemon_security_add_acl_rule c a r b))"
proof (cases "acl_find (sc_acl_table c) (a, r)")
  case (Some i)
  then have i: "i < length (sc_acl_table c)" using acl.find_SomeD by fastforce
  let ?t = "(sc_acl_table c)[i := (sc_acl_table c ! i)\<lparr>acl_allowed := b\<rparr>]"
  have "list_all P ?t" if "list_all P (sc_acl_table c)" "\<And>e x. P e \<Longrightarrow> P (e\<lparr>acl_allowed := x\<rparr>)" for P
    using that i by (auto simp: list_all_length nth_list_update)
  with Some assms show ?thesis
    by (auto simp: daemon_security_add_acl_rule_def acl_ok_def acl_keys_update)
next
  case None
  then have "(a, r) \<notin> acl_key ` set (sc_acl_table c)" using acl.find_None by simp
  with None assms show ?thesis
    by (auto simp: daemon_security_add_acl_rule_def acl_ok_def acl_key_def snprintf_s_id)
qed

lemma check_permission_abs:
  "daemon_check_tool_permission c a t = Inr () \<longleftrightarrow>
     sc_initialized c \<and> sc_permission_enabled c \<and> acl_abs (sc_acl_table c) (a, t) = Some True"
  by (auto simp: daemon_check_tool_permission_def acl_abs_def split: option.split)

lemma check_permission_map:
  "daemon_check_tool_permission c a t =
     (if \<not> sc_initialized c \<or> \<not> sc_permission_enabled c then Inl SEC_EPERM
      else if acl_abs (sc_acl_table c) (a, t) = Some True then Inr () else Inl SEC_PERMISSION_DENIED)"
  by (auto simp: daemon_check_tool_permission_def acl_abs_def split: option.split)

end
