(* ===== verification/Tool_Gate.thy ===== *)
theory Tool_Gate
  imports Tool_Sec
begin

text \<open>
  tool_d, the approval domain (\<open>tool_d/src/approval\<close>): the chain of six guards
  (\<open>safety_guard_bridge.c\<close>), the approval check (\<open>tool_approval.c\<close>), the pending requests of
  the interactive mode (\<open>tool_interactive_approval.c\<close>) and the gate that composes them
  (\<open>gate.c\<close>).

  The quota and audit store of the security dome is a library outside this repository: its state
  is the type variable and its three calls are fields of \<open>guard_env\<close>, as are the sizes of the two
  text buffers of the approval detail, whose type is declared there too. A request that waits
  for a decision gives up the lock: \<open>gate_ask\<close> is its first section, then one section when the
  wait ends.
\<close>

section \<open>Data model\<close>

record 'g guard_env =
  check_quota :: "'g \<Rightarrow> string \<Rightarrow> int \<times> bool"
  consume_quota :: "'g \<Rightarrow> string \<Rightarrow> 'g"
  record_audit :: "'g \<Rightarrow> string \<Rightarrow> string \<Rightarrow> string option \<Rightarrow> 'g"
  reason_size :: nat
  san_size :: nat

record sgb_config =
  sg_permission_guard :: bool
  sg_rate_limit_guard :: bool
  sg_content_filter :: bool
  sg_input_sanitization :: bool
  sg_resource_quota :: bool
  sg_audit_guard :: bool
  sg_rate_limit_per_minute :: "32 word"
  sg_max_params_size :: "32 word"
  sg_denied_patterns :: "string option"

definition sgb_cfg_defaults :: sgb_config where
  "sgb_cfg_defaults = \<lparr>sg_permission_guard = True, sg_rate_limit_guard = True, sg_content_filter = True,
     sg_input_sanitization = True, sg_resource_quota = True, sg_audit_guard = True,
     sg_rate_limit_per_minute = 0, sg_max_params_size = 0, sg_denied_patterns = None\<rparr>"

record 'g sgb =
  sb_config :: sgb_config
  sb_agent_id :: string
  sb_guard :: "'g option"
  sb_window_start :: "64 word"
  sb_call_count :: "64 word"
  sb_total_checks :: "64 word"
  sb_denied_count :: "64 word"
  sb_rate_limited :: "64 word"

definition safety_guard_bridge_create :: "sgb_config \<Rightarrow> string \<Rightarrow> 'g option \<Rightarrow> 'g sgb" where
  "safety_guard_bridge_create cfg agent guard = \<lparr>sb_config = cfg, sb_agent_id = snprintf_s 128 agent,
     sb_guard = guard, sb_window_start = 0, sb_call_count = 0, sb_total_checks = 0,
     sb_denied_count = 0, sb_rate_limited = 0\<rparr>"

record sgb_result =
  br_permission_passed :: bool
  br_rate_limit_passed :: bool
  br_content_filter_passed :: bool
  br_input_sanitized :: bool
  br_resource_quota_passed :: bool
  br_audit_recorded :: bool
  br_denial_reason :: string
  br_sanitized_params :: string
  br_chain_length :: nat
  br_executed :: nat

definition sgb_result_zero :: sgb_result where
  "sgb_result_zero = \<lparr>br_permission_passed = False, br_rate_limit_passed = False,
     br_content_filter_passed = False, br_input_sanitized = False, br_resource_quota_passed = False,
     br_audit_recorded = False, br_denial_reason = [], br_sanitized_params = [],
     br_chain_length = 0, br_executed = 0\<rparr>"

text \<open>The check context: its pointers are the agent, tool and parameters, the rest is state.\<close>

record 'g sgb_chk =
  ck_agent :: string
  ck_tool :: string
  ck_params :: "string option"
  ck_sec :: security_ctx
  ck_bridge :: "'g sgb"
  ck_res :: sgb_result
  ck_chain_len :: nat
  ck_executed :: nat

type_synonym 'g guard_stage = "'g sgb_chk \<Rightarrow> 'g sgb_chk \<times> sec_err option"

definition quoted :: "string \<Rightarrow> string" where
  "quoted s = CHR 0x27 # s @ [CHR 0x27]"

section \<open>The six guards\<close>

definition sgb_deny :: "'g sgb_chk \<Rightarrow> sec_err \<Rightarrow> string \<Rightarrow> 'g sgb_chk \<times> sec_err option" where
  "sgb_deny c code msg =
     (c\<lparr>ck_res := (ck_res c)\<lparr>br_denial_reason := snprintf_s 256 (snprintf_s 256 msg)\<rparr>,
        ck_bridge := (ck_bridge c)\<lparr>sb_denied_count := sb_denied_count (ck_bridge c) + 1\<rparr>\<rparr>, Some code)"

definition sgb_pass :: "(sgb_result \<Rightarrow> sgb_result) \<Rightarrow> 'g guard_stage" where
  "sgb_pass passed c = (c\<lparr>ck_res := passed (ck_res c), ck_executed := ck_executed c + 1\<rparr>, None)"

definition sgb_enter :: "'g sgb_chk \<Rightarrow> 'g sgb_chk" where
  "sgb_enter c = c\<lparr>ck_chain_len := ck_chain_len c + 1\<rparr>"

definition sgb_perm :: "'g guard_stage" where
  "sgb_perm c =
     (if \<not> sg_permission_guard (sb_config (ck_bridge c)) then (c, None)
      else let c = sgb_enter c
           in case daemon_check_tool_permission (ck_sec c) (ck_agent c) (ck_tool c) of
                Inl _ \<Rightarrow> sgb_deny c SEC_PERMISSION_DENIED
                  (''Permission denied: agent '' @ quoted (ck_agent c) @ '' cannot execute '' @ quoted (ck_tool c))
              | Inr _ \<Rightarrow> sgb_pass (br_permission_passed_update (\<lambda>_. True)) c)"

definition rate_window :: "64 word \<Rightarrow> 'g sgb \<Rightarrow> 'g sgb" where
  "rate_window now b =
     (let b = (if sb_window_start b = 0 then b\<lparr>sb_window_start := now\<rparr> else b);
          b = (if 60000 \<le> now - sb_window_start b then b\<lparr>sb_window_start := now, sb_call_count := 0\<rparr> else b)
      in b\<lparr>sb_call_count := sb_call_count b + 1\<rparr>)"

definition sgb_rate :: "64 word \<Rightarrow> 'g guard_stage" where
  "sgb_rate now c =
     (let cfg = sb_config (ck_bridge c)
      in if \<not> sg_rate_limit_guard cfg then (c, None)
         else if sg_rate_limit_per_minute cfg = 0
           then (c\<lparr>ck_res := (ck_res c)\<lparr>br_rate_limit_passed := True\<rparr>\<rparr>, None)
         else let c = (sgb_enter c)\<lparr>ck_bridge := rate_window now (ck_bridge c)\<rparr>;
                  calls = sb_call_count (ck_bridge c)
              in if \<not> calls \<le> ucast (sg_rate_limit_per_minute cfg)
                 then sgb_deny (c\<lparr>ck_bridge := (ck_bridge c)\<lparr>sb_rate_limited := sb_rate_limited (ck_bridge c) + 1\<rparr>\<rparr>) SEC_BUSY
                   (''Rate limit exceeded: '' @ show_nat (unat (sg_rate_limit_per_minute cfg)) @ ''/min for tool '' @
                    quoted (ck_tool c) @ '' ('' @ show_nat (unat calls) @ '' calls)'')
                 else sgb_pass (br_rate_limit_passed_update (\<lambda>_. True)) c)"

text \<open>The words of the comma-separated list, leading spaces removed; an empty word matches nothing.\<close>

definition denied_words :: "string \<Rightarrow> string list" where
  "denied_words denied = map (dropWhile (\<lambda>c. c = CHR '' '')) (strtok_acc (\<lambda>c. c = CHR '','') [] denied)"

fun sgb_scan :: "'g sgb_chk \<Rightarrow> string \<Rightarrow> string list \<Rightarrow> 'g sgb_chk \<times> sec_err option" where
  "sgb_scan c params [] = (c, None)"
| "sgb_scan c params (tok # toks) =
     (if tok \<noteq> [] \<and> strstr params tok \<noteq> None
      then sgb_deny c SEC_VIOLATION
        (''Content filter: denied pattern '' @ quoted tok @ '' found in tool '' @ quoted (ck_tool c) @ '' params'')
      else sgb_scan c params toks)"

definition sgb_filter :: "'g guard_stage" where
  "sgb_filter c =
     (let cfg = sb_config (ck_bridge c)
      in case ck_params c of
           None \<Rightarrow> (c, None)
         | Some params \<Rightarrow>
             if \<not> sg_content_filter cfg then (c, None)
             else let c = sgb_enter c
                  in case (case sg_denied_patterns cfg of
                             None \<Rightarrow> (c, None)
                           | Some denied \<Rightarrow> sgb_scan c params (denied_words denied)) of
                       (c, Some e) \<Rightarrow> (c, Some e)
                     | (c, None) \<Rightarrow>
                         if 0 < sg_max_params_size cfg \<and> unat (sg_max_params_size cfg) < length params
                         then sgb_deny c SEC_VIOLATION
                           (''Content filter: params size '' @ show_nat (length params) @ '' exceeds max '' @
                            show_nat (unat (sg_max_params_size cfg)) @ '' for tool '' @ quoted (ck_tool c))
                         else sgb_pass (br_content_filter_passed_update (\<lambda>_. True)) c)"

definition sgb_input :: "'g guard_stage" where
  "sgb_input c =
     (case ck_params c of
        None \<Rightarrow> (c, None)
      | Some params \<Rightarrow>
          if \<not> sg_input_sanitization (sb_config (ck_bridge c)) then (c, None)
          else let c = sgb_enter c;
                   san = snd (daemon_sanitize_tool_params (ck_tool c) params 128 4096);
                   c = (if params \<noteq> san
                        then c\<lparr>ck_res := (ck_res c)\<lparr>br_sanitized_params := snprintf_s 4096 san\<rparr>\<rparr> else c)
               in sgb_pass (br_input_sanitized_update (\<lambda>_. True)) c)"

definition sgb_quota :: "'g guard_env \<Rightarrow> 'g guard_stage" where
  "sgb_quota env c =
     (case sb_guard (ck_bridge c) of
        None \<Rightarrow> (c, None)
      | Some g \<Rightarrow>
          if \<not> sg_resource_quota (sb_config (ck_bridge c)) then (c, None)
          else let c = sgb_enter c; (rc, allowed) = check_quota env g (ck_tool c)
               in if rc = 0 \<and> \<not> allowed
                  then sgb_deny c SEC_QUOTA (''Resource quota exceeded for tool '' @ quoted (ck_tool c))
                  else let c = (if rc = 0 \<and> allowed
                                then c\<lparr>ck_bridge := (ck_bridge c)\<lparr>sb_guard := Some (consume_quota env g (ck_tool c))\<rparr>\<rparr>
                                else c)
                       in sgb_pass (br_resource_quota_passed_update (\<lambda>_. True)) c)"

definition sgb_audit :: "'g guard_env \<Rightarrow> 'g guard_stage" where
  "sgb_audit env c =
     (if \<not> sg_audit_guard (sb_config (ck_bridge c)) then (c, None)
      else let c = sgb_enter c;
               c = (case sb_guard (ck_bridge c) of
                      None \<Rightarrow> c
                    | Some g \<Rightarrow> c\<lparr>ck_bridge := (ck_bridge c)\<lparr>sb_guard :=
                        Some (record_audit env g (ck_tool c) (ck_agent c) (ck_params c))\<rparr>\<rparr>);
               c = c\<lparr>ck_sec := fst (daemon_audit_log_event (ck_sec c) ''tool_d'' ''tool_execute_safety_guard''
                     (ck_tool c) 0 (ck_agent c))\<rparr>
           in sgb_pass (br_audit_recorded_update (\<lambda>_. True)) c)"

fun run_stages :: "'g guard_stage list \<Rightarrow> 'g guard_stage" where
  "run_stages [] c = (c, None)"
| "run_stages (st # sts) c = (case st c of (c, Some e) \<Rightarrow> (c, Some e) | (c, None) \<Rightarrow> run_stages sts c)"

definition sgb_stages :: "'g guard_env \<Rightarrow> 64 word \<Rightarrow> 'g guard_stage list" where
  "sgb_stages env now = [sgb_perm, sgb_rate now, sgb_filter, sgb_input, sgb_quota env, sgb_audit env]"

definition pick_agent :: "string option \<Rightarrow> string \<Rightarrow> string" where
  "pick_agent agent dflt = (case agent of None \<Rightarrow> dflt | Some a \<Rightarrow> if a = [] then dflt else a)"

definition tool_name_of :: "string option \<Rightarrow> string" where
  "tool_name_of name = (case name of None \<Rightarrow> ''unknown'' | Some n \<Rightarrow> n)"

definition sgb_begin :: "security_ctx \<Rightarrow> 'g sgb \<Rightarrow> string option \<Rightarrow> string option \<Rightarrow> string option \<Rightarrow> 'g sgb_chk" where
  "sgb_begin sec b agent name params =
     \<lparr>ck_agent = pick_agent agent (sb_agent_id b), ck_tool = tool_name_of name, ck_params = params, ck_sec = sec,
      ck_bridge = b\<lparr>sb_total_checks := sb_total_checks b + 1\<rparr>, ck_res = sgb_result_zero,
      ck_chain_len = 0, ck_executed = 0\<rparr>"

definition safety_guard_bridge_check_for_agent ::
  "'g guard_env \<Rightarrow> 64 word \<Rightarrow> security_ctx \<Rightarrow> 'g sgb \<Rightarrow> string option \<Rightarrow> string option \<Rightarrow> string option \<Rightarrow>
   security_ctx \<times> 'g sgb \<times> sgb_result \<times> sec_err option" where
  "safety_guard_bridge_check_for_agent env now sec b agent name params =
     (case run_stages (sgb_stages env now) (sgb_begin sec b agent name params) of
        (c, rc) \<Rightarrow> (ck_sec c, ck_bridge c,
           (ck_res c)\<lparr>br_chain_length := ck_chain_len c, br_executed := ck_executed c\<rparr>, rc))"

section \<open>Approval check\<close>

datatype approval_decision = TOOL_APPROVAL_DENIED | TOOL_APPROVAL_ALLOWED | TOOL_APPROVAL_SANITIZED

record approval_detail =
  ad_decision :: approval_decision
  ad_permission_check_passed :: bool
  ad_safety_guard_passed :: bool
  ad_params_were_sanitized :: bool
  ad_reason :: string
  ad_sanitized_params :: string

definition ap_detail_init :: approval_detail where
  "ap_detail_init = \<lparr>ad_decision = TOOL_APPROVAL_DENIED, ad_permission_check_passed = False,
     ad_safety_guard_passed = False, ad_params_were_sanitized = False, ad_reason = [],
     ad_sanitized_params = []\<rparr>"

text \<open>The configured agent is an optional string; the context keeps a copy cut to its buffer.\<close>

record 'g approval_ctx =
  ac_cfg_agent :: "string option"
  ac_guard_chain :: bool
  ac_audit :: bool
  ac_agent_id :: string
  ac_total_checks :: "64 word"
  ac_denied_count :: "64 word"
  ac_sanitized_count :: "64 word"
  ac_bridge :: "'g sgb option"

definition tool_approval_create :: "(string option \<times> bool \<times> bool) option \<Rightarrow> 'g approval_ctx" where
  "tool_approval_create cfg =
     (case cfg of
        Some (agent, chain, audit) \<Rightarrow>
          \<lparr>ac_cfg_agent = agent, ac_guard_chain = chain, ac_audit = audit,
           ac_agent_id = (case agent of None \<Rightarrow> [] | Some a \<Rightarrow> snprintf_s 128 a),
           ac_total_checks = 0, ac_denied_count = 0, ac_sanitized_count = 0, ac_bridge = None\<rparr>
      | None \<Rightarrow>
          \<lparr>ac_cfg_agent = Some ''unknown'', ac_guard_chain = False, ac_audit = True,
           ac_agent_id = ''unknown'', ac_total_checks = 0, ac_denied_count = 0,
           ac_sanitized_count = 0, ac_bridge = None\<rparr>)"

definition tool_approval_set_safety_guard_bridge :: "'g approval_ctx \<Rightarrow> 'g sgb option \<Rightarrow> 'g approval_ctx" where
  "tool_approval_set_safety_guard_bridge ctx b = ctx\<lparr>ac_bridge := b\<rparr>"

definition ap_take_san :: "'g guard_env \<Rightarrow> approval_detail \<Rightarrow> bool \<Rightarrow> string \<Rightarrow> approval_detail" where
  "ap_take_san env d ok san =
     (if ok \<and> san \<noteq> [] then d\<lparr>ad_sanitized_params := snprintf_s (san_size env) san\<rparr> else d)"

definition ap_deny ::
  "'g approval_ctx \<Rightarrow> security_ctx \<Rightarrow> string \<Rightarrow> string \<Rightarrow> 'g approval_ctx \<times> security_ctx" where
  "ap_deny ctx sec agent tool =
     (ctx\<lparr>ac_denied_count := ac_denied_count ctx + 1\<rparr>,
      if ac_audit ctx then fst (daemon_audit_log_event sec ''tool_d'' ''tool_execute_denied'' tool 0 agent) else sec)"

definition ap_sanitize ::
  "'g guard_env \<Rightarrow> 'g approval_ctx \<Rightarrow> string \<Rightarrow> string option \<Rightarrow> approval_detail \<Rightarrow> 'g approval_ctx \<times> approval_detail" where
  "ap_sanitize env ctx tool params d =
     (case params of
        None \<Rightarrow> (ctx, d)
      | Some p \<Rightarrow>
          if p = [] then (ctx, d)
          else let san = snd (daemon_sanitize_tool_params tool p 256 4096)
               in if p = san then (ctx, d)
                  else (ctx\<lparr>ac_sanitized_count := ac_sanitized_count ctx + 1\<rparr>,
                        ap_take_san env (d\<lparr>ad_params_were_sanitized := True\<rparr>) True san))"

definition ap_bridge_deny :: "'g guard_env \<Rightarrow> approval_detail \<Rightarrow> sgb_result \<Rightarrow> approval_detail" where
  "ap_bridge_deny env d br =
     ap_take_san env
       (d\<lparr>ad_permission_check_passed := br_permission_passed br, ad_safety_guard_passed := False,
          ad_params_were_sanitized := br_input_sanitized br,
          ad_reason := snprintf_s (reason_size env)
            (if br_denial_reason br \<noteq> [] then br_denial_reason br else ''Denied by SafetyGuard chain'')\<rparr>)
       (br_input_sanitized br) (br_sanitized_params br)"

definition ap_bridge_allow :: "'g guard_env \<Rightarrow> approval_detail \<Rightarrow> sgb_result \<Rightarrow> string \<Rightarrow> approval_detail" where
  "ap_bridge_allow env d br tool =
     (ap_take_san env
        (d\<lparr>ad_decision := (if br_input_sanitized br then TOOL_APPROVAL_SANITIZED else TOOL_APPROVAL_ALLOWED),
           ad_permission_check_passed := br_permission_passed br, ad_safety_guard_passed := True,
           ad_params_were_sanitized := br_input_sanitized br\<rparr>)
        (br_input_sanitized br) (br_sanitized_params br))
     \<lparr>ad_reason := snprintf_s (reason_size env)
        (''Approved by SafetyGuard chain ('' @ show_nat (br_executed br) @ ''/'' @ show_nat (br_chain_length br) @
         '' guards) for tool '' @ quoted tool)\<rparr>"

text \<open>The result of a check: context, security context, detail, and whether the call is approved.\<close>

type_synonym 'g check_result = "'g approval_ctx \<times> security_ctx \<times> approval_detail \<times> (sec_err + unit)"

definition ap_bridge ::
  "'g guard_env \<Rightarrow> 64 word \<Rightarrow> 'g approval_ctx \<Rightarrow> security_ctx \<Rightarrow> 'g sgb \<Rightarrow> string \<Rightarrow> string option \<Rightarrow> string option \<Rightarrow>
   approval_detail \<Rightarrow> 'g check_result" where
  "ap_bridge env now ctx sec b agent name params d =
     (case safety_guard_bridge_check_for_agent env now sec b (Some agent) name params of
        (sec, b, br, Some e) \<Rightarrow>
          (case ap_deny (ctx\<lparr>ac_bridge := Some b\<rparr>) sec agent (tool_name_of name) of
             (ctx, sec) \<Rightarrow> (ctx, sec, ap_bridge_deny env d br, Inl SEC_PERMISSION_DENIED))
      | (sec, b, br, None) \<Rightarrow>
          (ctx\<lparr>ac_bridge := Some b\<rparr>, sec, ap_bridge_allow env d br (tool_name_of name), Inr ()))"

definition ap_local ::
  "'g guard_env \<Rightarrow> 'g approval_ctx \<Rightarrow> security_ctx \<Rightarrow> string \<Rightarrow> string \<Rightarrow> string option \<Rightarrow> approval_detail \<Rightarrow> 'g check_result" where
  "ap_local env ctx sec agent tool params d =
     (case ap_sanitize env ctx tool params d of
        (ctx, d) \<Rightarrow>
          (case daemon_check_tool_permission sec agent tool of
             Inl e \<Rightarrow>
               (case ap_deny ctx sec agent tool of
                  (ctx, sec) \<Rightarrow>
                    (ctx, sec, d\<lparr>ad_permission_check_passed := False,
                       ad_reason := snprintf_s (reason_size env)
                         (''Permission denied: agent '' @ quoted agent @ '' cannot execute tool '' @ quoted tool)\<rparr>,
                     Inl SEC_PERMISSION_DENIED))
           | Inr _ \<Rightarrow>
               (ctx,
                if ac_audit ctx then fst (daemon_audit_log_event sec ''tool_d'' ''tool_execute'' tool 1 agent) else sec,
                d\<lparr>ad_permission_check_passed := True,
                  ad_safety_guard_passed := (ac_guard_chain ctx \<or> ad_safety_guard_passed d),
                  ad_decision := (if ad_params_were_sanitized d then TOOL_APPROVAL_SANITIZED else TOOL_APPROVAL_ALLOWED),
                  ad_reason := snprintf_s (reason_size env)
                    ((if ad_params_were_sanitized d then ''Approved with sanitized params for tool ''
                      else ''Approved for tool '') @ quoted tool)\<rparr>,
                Inr ())))"

definition approval_check_as ::
  "'g guard_env \<Rightarrow> 64 word \<Rightarrow> 'g approval_ctx \<Rightarrow> security_ctx \<Rightarrow> string \<Rightarrow> string option \<Rightarrow> string option \<Rightarrow> 'g check_result" where
  "approval_check_as env now ctx sec subject name params =
     (let ctx = ctx\<lparr>ac_total_checks := ac_total_checks ctx + 1\<rparr>
      in case ac_bridge ctx of
           Some b \<Rightarrow> ap_bridge env now ctx sec b subject name params ap_detail_init
         | None \<Rightarrow> ap_local env ctx sec subject (tool_name_of name) params ap_detail_init)"

definition tool_approval_check ::
  "'g guard_env \<Rightarrow> 64 word \<Rightarrow> 'g approval_ctx \<Rightarrow> security_ctx \<Rightarrow> string option \<Rightarrow> string option \<Rightarrow> 'g check_result" where
  "tool_approval_check env now ctx sec name params =
     approval_check_as env now ctx sec (case ac_cfg_agent ctx of None \<Rightarrow> ''unknown'' | Some a \<Rightarrow> a) name params"

definition tool_approval_check_for_agent ::
  "'g guard_env \<Rightarrow> 64 word \<Rightarrow> 'g approval_ctx \<Rightarrow> security_ctx \<Rightarrow> string option \<Rightarrow> string option \<Rightarrow> string option \<Rightarrow> 'g check_result" where
  "tool_approval_check_for_agent env now ctx sec agent name params =
     (case agent of
        None \<Rightarrow> tool_approval_check env now ctx sec name params
      | Some a \<Rightarrow>
          if a = [] then tool_approval_check env now ctx sec name params
          else approval_check_as env now ctx sec a name params)"

section \<open>Interactive approval\<close>

datatype approval_outcome = AIRY_APPROVAL_DENIED | AIRY_APPROVAL_ALLOWED | AIRY_APPROVAL_ALWAYS

text \<open>\<open>pr_seq\<close> names the record: the pointer the waiting thread holds.\<close>

record pending_req =
  pr_seq :: "64 word"
  pr_request_id :: string
  pr_tool :: string
  pr_agent_id :: string
  pr_params :: string
  pr_created_at :: "64 word"
  pr_outcome :: approval_outcome
  pr_resolved :: bool

record interactive_approval =
  ia_enabled :: bool
  ia_timeout_ms :: "64 word"
  ia_head :: "pending_req list"
  ia_seq :: "64 word"

definition AIRY_APPROVAL_DEFAULT_TIMEOUT_MS :: "64 word" where
  "AIRY_APPROVAL_DEFAULT_TIMEOUT_MS = 120000"

definition approval_timeout_ms :: "string option \<Rightarrow> 64 word" where
  "approval_timeout_ms env_timeout =
     (case env_timeout of
        None \<Rightarrow> AIRY_APPROVAL_DEFAULT_TIMEOUT_MS
      | Some s \<Rightarrow> if s \<noteq> [] \<and> 0 < fst (strtol s) then word_of_int (fst (strtol s))
                  else AIRY_APPROVAL_DEFAULT_TIMEOUT_MS)"

definition interactive_approval_create :: "string option \<Rightarrow> string option \<Rightarrow> interactive_approval" where
  "interactive_approval_create env_mode env_timeout =
     \<lparr>ia_enabled = (env_mode = Some ''interactive''), ia_timeout_ms = approval_timeout_ms env_timeout,
      ia_head = [], ia_seq = 0\<rparr>"

definition request_id_of :: "64 word \<Rightarrow> 64 word \<Rightarrow> string" where
  "request_id_of now seq = snprintf_s 72 (''req_'' @ show_nat (unat now) @ ''_'' @ show_nat (unat seq))"

text \<open>\<open>interactive_approval_block\<close>: the section before the wait and the one after it.\<close>

definition ia_enqueue :: "64 word \<Rightarrow> string \<Rightarrow> string \<Rightarrow> string option \<Rightarrow> interactive_approval \<Rightarrow> interactive_approval" where
  "ia_enqueue now tool agent params m =
     m\<lparr>ia_head := ia_head m @ [\<lparr>pr_seq = ia_seq m, pr_request_id = request_id_of now (ia_seq m), pr_tool = tool,
         pr_agent_id = agent, pr_params = (case params of None \<Rightarrow> [] | Some p \<Rightarrow> p), pr_created_at = now,
         pr_outcome = AIRY_APPROVAL_DENIED, pr_resolved = False\<rparr>],
       ia_seq := ia_seq m + 1\<rparr>"

text \<open>The wait ends when the request is resolved, at the deadline, or when the wait fails.\<close>

definition ia_wait_over :: "64 word \<Rightarrow> 64 word \<Rightarrow> bool \<Rightarrow> pending_req \<Rightarrow> bool" where
  "ia_wait_over deadline now wait_failed r \<longleftrightarrow> pr_resolved r \<or> deadline \<le> now \<or> wait_failed"

definition ia_unlink :: "64 word \<Rightarrow> interactive_approval \<Rightarrow> interactive_approval" where
  "ia_unlink seq m = m\<lparr>ia_head := filter (\<lambda>r. pr_seq r \<noteq> seq) (ia_head m)\<rparr>"

definition decision_of :: "string \<Rightarrow> approval_outcome option" where
  "decision_of d =
     (if d = ''allow'' then Some AIRY_APPROVAL_ALLOWED
      else if d = ''always'' then Some AIRY_APPROVAL_ALWAYS
      else if d = ''deny'' then Some AIRY_APPROVAL_DENIED
      else None)"

definition interactive_approval_resolve ::
  "interactive_approval \<Rightarrow> string \<Rightarrow> string \<Rightarrow> interactive_approval \<times> (sec_err + unit)" where
  "interactive_approval_resolve m rid decision =
     (case decision_of decision of
        None \<Rightarrow> (m, Inl SEC_INVALID_PARAM)
      | Some outcome \<Rightarrow>
          (case find_index (\<lambda>r. pr_request_id r = rid) (ia_head m) of
             None \<Rightarrow> (m, Inl SEC_NOT_FOUND)
           | Some i \<Rightarrow>
               if pr_resolved (ia_head m ! i) then (m, Inl SEC_STATE_ERROR)
               else (m\<lparr>ia_head := (ia_head m)[i := (ia_head m ! i)\<lparr>pr_resolved := True, pr_outcome := outcome\<rparr>]\<rparr>,
                     Inr ())))"

section \<open>The gate\<close>

datatype gate_verdict = APPROVAL_GATE_DENIED | APPROVAL_GATE_ALLOWED

record 'g approval_gate =
  ag_ctx :: "'g approval_ctx"
  ag_interactive :: "interactive_approval option"

definition gate_create ::
  "(string option \<times> bool \<times> bool) \<Rightarrow> 'g option \<Rightarrow> string option \<Rightarrow> string option \<Rightarrow> 'g approval_gate" where
  "gate_create cfg guard env_mode env_timeout =
     \<lparr>ag_ctx = tool_approval_set_safety_guard_bridge (tool_approval_create (Some cfg))
        (Some (safety_guard_bridge_create sgb_cfg_defaults ''tool_d'' guard)),
      ag_interactive = Some (interactive_approval_create env_mode env_timeout)\<rparr>"

definition gate_create_default :: "'g option \<Rightarrow> string option \<Rightarrow> string option \<Rightarrow> 'g approval_gate" where
  "gate_create_default guard env_mode env_timeout =
     gate_create (Some ''tool_d'', True, True) guard env_mode env_timeout"

definition gate_int_enabled :: "'g approval_gate \<Rightarrow> bool" where
  "gate_int_enabled g = (case ag_interactive g of None \<Rightarrow> False | Some m \<Rightarrow> ia_enabled m)"

text \<open>A call of \<open>gate_ask\<close> that has been decided, or that waits for the request it has queued.\<close>

datatype ask_state =
    Ask_Done gate_verdict "string option"
  | Ask_Waiting "64 word" "64 word"

definition ask_subject :: "'g approval_gate \<Rightarrow> string option \<Rightarrow> string" where
  "ask_subject g agent = (case agent of Some a \<Rightarrow> a | None \<Rightarrow> ac_agent_id (ag_ctx g))"

text \<open>\<open>wall\<close> is the clock of the request ids, \<open>now\<close> the monotonic one.\<close>

definition gate_ask_begin ::
  "'g guard_env \<Rightarrow> 64 word \<Rightarrow> 64 word \<Rightarrow> security_ctx \<Rightarrow> 'g approval_gate \<Rightarrow> string option \<Rightarrow> string option \<Rightarrow> string option \<Rightarrow>
   security_ctx \<times> 'g approval_gate \<times> ask_state" where
  "gate_ask_begin env now wall sec g agent name params =
     (case tool_approval_check_for_agent env now (ag_ctx g) sec agent name params of
        (ctx, sec, d, rc) \<Rightarrow>
          let g = g\<lparr>ag_ctx := ctx\<rparr>
          in case rc of
               Inr _ \<Rightarrow> (sec, g, Ask_Done APPROVAL_GATE_ALLOWED None)
             | Inl _ \<Rightarrow>
                 (case ag_interactive g of
                    Some m \<Rightarrow>
                      if ia_enabled m
                      then (sec, g\<lparr>ag_interactive := Some (ia_enqueue wall (case name of None \<Rightarrow> ''?'' | Some n \<Rightarrow> n)
                              (ask_subject g agent) params m)\<rparr>,
                            Ask_Waiting (ia_seq m) (now + ia_timeout_ms m))
                      else (sec, g, Ask_Done APPROVAL_GATE_DENIED (if ad_reason d \<noteq> [] then Some (ad_reason d) else None))
                  | None \<Rightarrow> (sec, g, Ask_Done APPROVAL_GATE_DENIED (if ad_reason d \<noteq> [] then Some (ad_reason d) else None))))"

text \<open>What follows the wait, for the outcome found in the request.\<close>

definition gate_ask_settle ::
  "security_ctx \<Rightarrow> string \<Rightarrow> string option \<Rightarrow> approval_outcome \<Rightarrow> security_ctx \<times> gate_verdict \<times> string option" where
  "gate_ask_settle sec agent name outcome =
     (case outcome of
        AIRY_APPROVAL_ALLOWED \<Rightarrow> (sec, APPROVAL_GATE_ALLOWED, None)
      | AIRY_APPROVAL_ALWAYS \<Rightarrow>
          ((case name of None \<Rightarrow> sec | Some n \<Rightarrow> fst (daemon_security_add_acl_rule sec agent n True)),
           APPROVAL_GATE_ALLOWED, None)
      | AIRY_APPROVAL_DENIED \<Rightarrow> (sec, APPROVAL_GATE_DENIED, Some ''User denied tool execution''))"

definition gate_int_resolve :: "'g approval_gate \<Rightarrow> string \<Rightarrow> string \<Rightarrow> 'g approval_gate \<times> (sec_err + unit)" where
  "gate_int_resolve g rid decision =
     (case ag_interactive g of
        None \<Rightarrow> (g, Inl SEC_NOT_FOUND)
      | Some m \<Rightarrow> (case interactive_approval_resolve m rid decision of
                     (m, rc) \<Rightarrow> (g\<lparr>ag_interactive := Some m\<rparr>, rc)))"

definition gate_int_budget_ms :: "string option \<Rightarrow> 'g approval_gate \<Rightarrow> 64 word" where
  "gate_int_budget_ms env_timeout g = (if gate_int_enabled g then approval_timeout_ms env_timeout else 0)"

end
