(* ===== verification/Tool_Gate_Spec.thy ===== *)
theory Tool_Gate_Spec
  imports Tool_Gate
begin

text \<open>
  What the approval domain of tool_d promises: the chain of guards decides exactly as its
  specification, no tool runs without an ACL entry or a decision of the user for that very
  request, and the rate limit holds within a window.
\<close>

section \<open>The sanitizer\<close>

lemma sanitize_loop_filter: "sanitize_loop n s = take n (filter keeps s)"
  by (induction n s rule: sanitize_loop.induct) (auto simp: take_Cons' Suc_diff_Suc)

text \<open>
  The sanitizer. What it returns are the first characters of the input that are printable and
  no backslash, as many as fit the buffer; sanitizing twice changes nothing.
\<close>

theorem sanitize_law:
  "sanitize_string n s = take (n - 1) (filter keeps s) \<and>
   sanitize_string n (sanitize_string n s) = sanitize_string n s"
proof -
  have f: "filter keeps (take m (filter keeps s)) = take m (filter keeps s)" for m
    by (rule filter_True) (auto dest: in_set_takeD)
  show ?thesis by (simp add: sanitize_string_def sanitize_loop_filter f)
qed

section \<open>The guard chain\<close>

definition perm_ok :: "security_ctx \<Rightarrow> sgb_config \<Rightarrow> string \<Rightarrow> string \<Rightarrow> bool" where
  "perm_ok sec cfg agent tool \<longleftrightarrow> (sg_permission_guard cfg \<longrightarrow>
     sc_initialized sec \<and> sc_permission_enabled sec \<and> acl_abs (sc_acl_table sec) (agent, tool) = Some True)"

definition rate_ok :: "64 word \<Rightarrow> 'g sgb \<Rightarrow> bool" where
  "rate_ok now b \<longleftrightarrow> (sg_rate_limit_guard (sb_config b) \<and> sg_rate_limit_per_minute (sb_config b) \<noteq> 0 \<longrightarrow>
     sb_call_count (rate_window now b) \<le> ucast (sg_rate_limit_per_minute (sb_config b)))"

definition content_ok :: "sgb_config \<Rightarrow> string option \<Rightarrow> bool" where
  "content_ok cfg params \<longleftrightarrow>
     (case params of
        None \<Rightarrow> True
      | Some p \<Rightarrow> sg_content_filter cfg \<longrightarrow>
          (case sg_denied_patterns cfg of
             None \<Rightarrow> True
           | Some d \<Rightarrow> list_all (\<lambda>w. w = [] \<or> strstr p w = None) (denied_words d)) \<and>
          (sg_max_params_size cfg = 0 \<or> length p \<le> unat (sg_max_params_size cfg)))"

definition quota_ok :: "'g guard_env \<Rightarrow> 'g sgb \<Rightarrow> string \<Rightarrow> bool" where
  "quota_ok env b tool \<longleftrightarrow>
     (case sb_guard b of
        None \<Rightarrow> True
      | Some g \<Rightarrow> sg_resource_quota (sb_config b) \<longrightarrow> \<not> (fst (check_quota env g tool) = 0 \<and> \<not> snd (check_quota env g tool)))"

text \<open>The verdict the chain is meant to give: the first guard that objects.\<close>

definition chain_spec ::
  "'g guard_env \<Rightarrow> 64 word \<Rightarrow> security_ctx \<Rightarrow> 'g sgb \<Rightarrow> string \<Rightarrow> string \<Rightarrow> string option \<Rightarrow> sec_err option" where
  "chain_spec env now sec b agent tool params =
     (if \<not> perm_ok sec (sb_config b) agent tool then Some SEC_PERMISSION_DENIED
      else if \<not> rate_ok now b then Some SEC_BUSY
      else if \<not> content_ok (sb_config b) params then Some SEC_VIOLATION
      else if \<not> quota_ok env b tool then Some SEC_QUOTA
      else None)"

text \<open>What a stage that passes leaves for the stages after it.\<close>

definition keeps_view :: "'g sgb_chk \<Rightarrow> 'g sgb_chk \<Rightarrow> bool" where
  "keeps_view c c' \<longleftrightarrow> ck_agent c' = ck_agent c \<and> ck_tool c' = ck_tool c \<and> ck_params c' = ck_params c \<and>
     ck_sec c' = ck_sec c \<and> sb_config (ck_bridge c') = sb_config (ck_bridge c) \<and>
     sb_guard (ck_bridge c') = sb_guard (ck_bridge c)"

lemmas stage_defs = sgb_deny_def sgb_pass_def sgb_enter_def

lemma rate_window_frame [simp]:
  "sb_config (rate_window now b) = sb_config b" "sb_guard (rate_window now b) = sb_guard b"
  by (simp_all add: rate_window_def Let_def)

lemma sgb_perm_spec:
  "snd (sgb_perm c) = (if perm_ok (ck_sec c) (sb_config (ck_bridge c)) (ck_agent c) (ck_tool c) then None
     else Some SEC_PERMISSION_DENIED)"
  and sgb_perm_frame: "keeps_view c (fst (sgb_perm c))" "ck_bridge (fst (sgb_perm c)) = ck_bridge c \<or> snd (sgb_perm c) \<noteq> None"
proof -
  note p = check_permission_abs [of "ck_sec c" "ck_agent c" "ck_tool c"]
  show "snd (sgb_perm c) = (if perm_ok (ck_sec c) (sb_config (ck_bridge c)) (ck_agent c) (ck_tool c) then None
     else Some SEC_PERMISSION_DENIED)"
    using p by (cases "daemon_check_tool_permission (ck_sec c) (ck_agent c) (ck_tool c)")
      (auto simp: sgb_perm_def perm_ok_def stage_defs Let_def)
  show "keeps_view c (fst (sgb_perm c))" "ck_bridge (fst (sgb_perm c)) = ck_bridge c \<or> snd (sgb_perm c) \<noteq> None"
    by (auto simp: sgb_perm_def keeps_view_def stage_defs Let_def split: sum.split)
qed

lemma sgb_rate_spec:
  "snd (sgb_rate now c) = (if rate_ok now (ck_bridge c) then None else Some SEC_BUSY)"
  and sgb_rate_frame: "keeps_view c (fst (sgb_rate now c))"
  by (auto simp: sgb_rate_def rate_ok_def keeps_view_def stage_defs Let_def)

lemma sgb_scan_spec:
  "snd (sgb_scan c p ws) = (if list_all (\<lambda>w. w = [] \<or> strstr p w = None) ws then None else Some SEC_VIOLATION)"
  and sgb_scan_frame: "keeps_view c (fst (sgb_scan c p ws))"
  by (induction ws) (auto simp: keeps_view_def stage_defs)

lemma sgb_scan_None: "snd (sgb_scan c p ws) = None \<Longrightarrow> fst (sgb_scan c p ws) = c"
  by (induction ws) (auto simp: stage_defs split: if_splits)

lemma filter_scan:
  "ck_params c = Some p \<Longrightarrow> sg_content_filter (sb_config (ck_bridge c)) \<Longrightarrow>
   sgb_filter c =
     (case (case sg_denied_patterns (sb_config (ck_bridge c)) of None \<Rightarrow> (sgb_enter c, None)
            | Some d \<Rightarrow> sgb_scan (sgb_enter c) p (denied_words d)) of
        (c', Some e) \<Rightarrow> (c', Some e)
      | (c', None) \<Rightarrow>
          if 0 < sg_max_params_size (sb_config (ck_bridge c)) \<and> unat (sg_max_params_size (sb_config (ck_bridge c))) < length p
          then sgb_deny c' SEC_VIOLATION
            (''Content filter: params size '' @ show_nat (length p) @ '' exceeds max '' @
             show_nat (unat (sg_max_params_size (sb_config (ck_bridge c)))) @ '' for tool '' @ quoted (ck_tool c'))
          else sgb_pass (br_content_filter_passed_update (\<lambda>_. True)) c')"
  by (simp add: sgb_filter_def Let_def)

lemma sgb_filter_spec:
  "snd (sgb_filter c) = (if content_ok (sb_config (ck_bridge c)) (ck_params c) then None else Some SEC_VIOLATION)"
proof (cases "ck_params c")
  case None
  then show ?thesis by (simp add: sgb_filter_def content_ok_def)
next
  case (Some p)
  show ?thesis
  proof (cases "sg_content_filter (sb_config (ck_bridge c))")
    case False
    with Some show ?thesis by (simp add: sgb_filter_def content_ok_def)
  next
    case True
    define s where "s = (case sg_denied_patterns (sb_config (ck_bridge c)) of None \<Rightarrow> (sgb_enter c, None)
            | Some d \<Rightarrow> sgb_scan (sgb_enter c) p (denied_words d))"
    have s: "snd s = (if (case sg_denied_patterns (sb_config (ck_bridge c)) of None \<Rightarrow> True
           | Some d \<Rightarrow> list_all (\<lambda>w. w = [] \<or> strstr p w = None) (denied_words d)) then None else Some SEC_VIOLATION)"
      by (simp add: s_def sgb_scan_spec split: option.split)
    show ?thesis
      unfolding filter_scan [OF Some True] s_def [symmetric] using s Some True
      by (cases s) (auto simp: content_ok_def stage_defs word_gt_0 not_less split: option.splits if_splits)
  qed
qed

lemma sgb_filter_frame: "keeps_view c (fst (sgb_filter c))"
proof (cases "ck_params c")
  case (Some p)
  have k: "keeps_view c (fst (sgb_scan (sgb_enter c) p ws))" for ws
    using sgb_scan_frame [of "sgb_enter c" p ws] by (simp add: keeps_view_def sgb_enter_def)
  show ?thesis
  proof (cases "sg_content_filter (sb_config (ck_bridge c))")
    case True
    obtain c' e where s: "(case sg_denied_patterns (sb_config (ck_bridge c)) of None \<Rightarrow> (sgb_enter c, None)
            | Some d \<Rightarrow> sgb_scan (sgb_enter c) p (denied_words d)) = (c', e)" by fastforce
    have "keeps_view c c'"
      using s k [of "denied_words _"] by (auto simp: keeps_view_def sgb_enter_def split: option.splits) (metis fst_conv)+
    then show ?thesis
      unfolding filter_scan [OF Some True] s by (auto simp: keeps_view_def stage_defs split: option.split)
  qed (simp add: sgb_filter_def Some keeps_view_def)
qed (simp add: sgb_filter_def keeps_view_def)

lemma sgb_input_spec: "snd (sgb_input c) = None" and sgb_input_frame: "keeps_view c (fst (sgb_input c))"
  by (auto simp: sgb_input_def keeps_view_def stage_defs Let_def split: option.split)

lemma sgb_quota_spec:
  "snd (sgb_quota env c) = (if quota_ok env (ck_bridge c) (ck_tool c) then None else Some SEC_QUOTA)"
  by (auto simp: sgb_quota_def quota_ok_def stage_defs Let_def split: option.split prod.split)

lemma sgb_audit_spec: "snd (sgb_audit env c) = None"
  by (simp add: sgb_audit_def stage_defs Let_def)

text \<open>What a stage that lets the call pass hands on: the same view, so the specifications compose.\<close>

lemma run_stages_Cons:
  "run_stages (st # sts) c = (if snd (st c) = None then run_stages sts (fst (st c)) else st c)"
  by (cases "st c"; cases "snd (st c)") auto

lemma sgb_perm_bridge: "snd (sgb_perm c) = None \<Longrightarrow> ck_bridge (fst (sgb_perm c)) = ck_bridge c"
  using sgb_perm_frame(2) [of c] by blast

lemma quota_ok_cong:
  "sb_guard b = sb_guard b' \<Longrightarrow> sb_config b = sb_config b' \<Longrightarrow> quota_ok env b t = quota_ok env b' t"
  by (simp add: quota_ok_def split: option.split)

lemma chain_verdict:
  "snd (run_stages (sgb_stages env now) c) =
     chain_spec env now (ck_sec c) (ck_bridge c) (ck_agent c) (ck_tool c) (ck_params c)"
proof -
  define c1 where "c1 = fst (sgb_perm c)"
  define c2 where "c2 = fst (sgb_rate now c1)"
  define c3 where "c3 = fst (sgb_filter c2)"
  define c4 where "c4 = fst (sgb_input c3)"
  define c5 where "c5 = fst (sgb_quota env c4)"
  have run: "snd (run_stages (sgb_stages env now) c) =
     (if snd (sgb_perm c) \<noteq> None then snd (sgb_perm c)
      else if snd (sgb_rate now c1) \<noteq> None then snd (sgb_rate now c1)
      else if snd (sgb_filter c2) \<noteq> None then snd (sgb_filter c2)
      else if snd (sgb_quota env c4) \<noteq> None then snd (sgb_quota env c4)
      else None)"
    by (simp add: sgb_stages_def run_stages_Cons sgb_input_spec sgb_audit_spec del: run_stages.simps(2)
        flip: c1_def c2_def c3_def c4_def c5_def)
  have v: "keeps_view c c1" "keeps_view c1 c2" "keeps_view c2 c3" "keeps_view c3 c4"
    by (simp_all add: c1_def c2_def c3_def c4_def sgb_perm_frame sgb_rate_frame sgb_filter_frame sgb_input_frame)
  have b: "ck_bridge c1 = ck_bridge c" if "snd (sgb_perm c) = None" using that by (simp add: c1_def sgb_perm_bridge)
  have q: "quota_ok env (ck_bridge c4) (ck_tool c4) = quota_ok env (ck_bridge c) (ck_tool c)"
    using v by (auto simp: keeps_view_def intro!: quota_ok_cong)
  have f: "content_ok (sb_config (ck_bridge c2)) (ck_params c2) = content_ok (sb_config (ck_bridge c)) (ck_params c)"
    using v by (simp add: keeps_view_def)
  show ?thesis
    unfolding run chain_spec_def sgb_rate_spec sgb_filter_spec sgb_quota_spec q f
    using b by (auto simp: sgb_perm_spec)
qed

text \<open>
  The guard chain decides as specified. The six stages of the bridge, run in order with their
  early exit, give the verdict of the first guard that objects: permission, then rate, then
  content, then quota; and none when all four are content.
\<close>

theorem guard_chain_exact:
  "snd (snd (snd (safety_guard_bridge_check_for_agent env now sec b agent name params))) =
     chain_spec env now sec (b\<lparr>sb_total_checks := sb_total_checks b + 1\<rparr>) (pick_agent agent (sb_agent_id b))
       (tool_name_of name) params"
proof -
  obtain c rc where r: "run_stages (sgb_stages env now) (sgb_begin sec b agent name params) = (c, rc)"
    by fastforce
  then have "rc = chain_spec env now sec (b\<lparr>sb_total_checks := sb_total_checks b + 1\<rparr>)
      (pick_agent agent (sb_agent_id b)) (tool_name_of name) params"
    using chain_verdict [of env now "sgb_begin sec b agent name params"] by (simp add: sgb_begin_def)
  with r show ?thesis by (simp add: safety_guard_bridge_check_for_agent_def)
qed

section \<open>No approval without an ACL entry\<close>

text \<open>A gate whose permission guard is on, or that has no bridge and checks the table itself.\<close>

definition guarded :: "'g approval_ctx \<Rightarrow> bool" where
  "guarded ctx \<longleftrightarrow> (case ac_bridge ctx of None \<Rightarrow> True | Some b \<Rightarrow> sg_permission_guard (sb_config b))"

definition acl_grants :: "security_ctx \<Rightarrow> string \<Rightarrow> string \<Rightarrow> bool" where
  "acl_grants sec agent tool \<longleftrightarrow> sc_initialized sec \<and> sc_permission_enabled sec \<and>
     acl_abs (sc_acl_table sec) (agent, tool) = Some True"

text \<open>The subject a check runs as: the agent of the request, or the configured one.\<close>

definition check_subject :: "'g approval_ctx \<Rightarrow> string option \<Rightarrow> string" where
  "check_subject ctx agent = pick_agent agent (case ac_cfg_agent ctx of None \<Rightarrow> ''unknown'' | Some a \<Rightarrow> a)"

lemma check_as_grants:
  assumes "guarded ctx" and "subject \<noteq> []" and "snd (snd (snd (approval_check_as env now ctx sec subject name params))) = Inr ()"
  shows "acl_grants sec subject (tool_name_of name)"
proof (cases "ac_bridge ctx")
  case (Some b)
  obtain sec' b' br rc where r: "safety_guard_bridge_check_for_agent env now sec b (Some subject) name params = (sec', b', br, rc)"
    by (metis prod_cases4)
  have "rc = None"
    using assms(3) Some r by (cases rc) (auto simp: approval_check_as_def ap_bridge_def Let_def split: prod.splits)
  moreover have "pick_agent (Some subject) (sb_agent_id b) = subject" using assms(2) by (simp add: pick_agent_def)
  ultimately have "perm_ok sec (sb_config b) subject (tool_name_of name)"
    using guard_chain_exact [of env now sec b "Some subject" name params] r
    by (auto simp: chain_spec_def split: if_splits)
  then show ?thesis using assms(1) Some by (simp add: perm_ok_def guarded_def acl_grants_def)
next
  case None
  then have "daemon_check_tool_permission sec subject (tool_name_of name) = Inr ()"
    using assms(3) by (auto simp: approval_check_as_def ap_local_def Let_def split: prod.splits sum.splits)
  then show ?thesis by (simp add: check_permission_abs acl_grants_def)
qed

lemma check_for_agent_grants:
  assumes "guarded ctx" and "ac_cfg_agent ctx \<noteq> Some []"
    and "snd (snd (snd (tool_approval_check_for_agent env now ctx sec agent name params))) = Inr ()"
  shows "acl_grants sec (check_subject ctx agent) (tool_name_of name)"
proof -
  have "tool_approval_check_for_agent env now ctx sec agent name params =
      approval_check_as env now ctx sec (check_subject ctx agent) name params"
    by (simp add: tool_approval_check_for_agent_def tool_approval_check_def check_subject_def pick_agent_def split: option.split)
  moreover have "check_subject ctx agent \<noteq> []"
    using assms(2) by (auto simp: check_subject_def pick_agent_def split: option.split)
  ultimately show ?thesis using check_as_grants [OF assms(1)] assms(3) by simp
qed

end
