(* ===== verification/Tool_Gate_Run.thy ===== *)
theory Tool_Gate_Run
  imports Tool_Gate_Spec
begin

text \<open>
  The approval gate under concurrent use: workers ask, a user resolves pending requests, waits
  end, and other parties change ACL rules, in any order. Each event is one critical section of
  the code. The log of verdicts is a ghost: it records what \<open>gate_ask\<close> returned, and for a call
  that waited the id of its request.
\<close>

section \<open>The system\<close>

record waiter =
  w_seq :: "64 word"
  w_deadline :: "64 word"
  w_agent :: string
  w_name :: "string option"

record verdict_entry =
  ve_subject :: string
  ve_name :: "string option"
  ve_verdict :: gate_verdict
  ve_request :: "string option"

record 'g gate_sys =
  gs_sec :: security_ctx
  gs_gate :: "'g approval_gate"
  gs_waiting :: "waiter list"
  gs_log :: "verdict_entry list"

datatype ask_ev =
    GE_Ask "64 word" "64 word" "string option" "string option" "string option"
  | GE_Resolve string string
  | GE_Wake "64 word" "64 word" bool
  | GE_Rule string string bool
  | GE_Shutdown
  | GE_Init "security_config option"

definition gate_ask_step ::
  "'g guard_env \<Rightarrow> 'g gate_sys \<Rightarrow> 64 word \<Rightarrow> 64 word \<Rightarrow> string option \<Rightarrow> string option \<Rightarrow> string option \<Rightarrow> 'g gate_sys" where
  "gate_ask_step env s now wall agent name params =
     (case gate_ask_begin env now wall (gs_sec s) (gs_gate s) agent name params of
        (sec, g, Ask_Done v _) \<Rightarrow>
          s\<lparr>gs_sec := sec, gs_gate := g, gs_log := gs_log s @
             [\<lparr>ve_subject = check_subject (ag_ctx (gs_gate s)) agent, ve_name = name, ve_verdict = v, ve_request = None\<rparr>]\<rparr>
      | (sec, g, Ask_Waiting seq deadline) \<Rightarrow>
          s\<lparr>gs_sec := sec, gs_gate := g, gs_waiting := gs_waiting s @
             [\<lparr>w_seq = seq, w_deadline = deadline, w_agent = ask_subject (gs_gate s) agent, w_name = name\<rparr>]\<rparr>)"

text \<open>A waiting thread runs on when its wait is over: it unlinks its request and settles.\<close>

definition gate_wake_step :: "'g gate_sys \<Rightarrow> 64 word \<Rightarrow> 64 word \<Rightarrow> bool \<Rightarrow> 'g gate_sys" where
  "gate_wake_step s seq now wait_failed =
     (case (find (\<lambda>w. w_seq w = seq) (gs_waiting s), ag_interactive (gs_gate s)) of
        (Some w, Some m) \<Rightarrow>
          (case find (\<lambda>r. pr_seq r = seq) (ia_head m) of
             None \<Rightarrow> s
           | Some r \<Rightarrow>
               if \<not> ia_wait_over (w_deadline w) now wait_failed r then s
               else (case gate_ask_settle (gs_sec s) (w_agent w) (w_name w) (pr_outcome r) of
                       (sec, v, _) \<Rightarrow>
                         s\<lparr>gs_sec := sec, gs_gate := (gs_gate s)\<lparr>ag_interactive := Some (ia_unlink seq m)\<rparr>,
                           gs_waiting := filter (\<lambda>w. w_seq w \<noteq> seq) (gs_waiting s),
                           gs_log := gs_log s @
                             [\<lparr>ve_subject = w_agent w, ve_name = w_name w, ve_verdict = v,
                               ve_request = Some (pr_request_id r)\<rparr>]\<rparr>))
      | _ \<Rightarrow> s)"

fun ask_step :: "'g guard_env \<Rightarrow> 'g gate_sys \<Rightarrow> ask_ev \<Rightarrow> 'g gate_sys" where
  "ask_step env s (GE_Ask now wall agent name params) = gate_ask_step env s now wall agent name params"
| "ask_step env s (GE_Resolve rid d) = s\<lparr>gs_gate := fst (gate_int_resolve (gs_gate s) rid d)\<rparr>"
| "ask_step env s (GE_Wake seq now failed) = gate_wake_step s seq now failed"
| "ask_step env s (GE_Rule a r b) = s\<lparr>gs_sec := fst (daemon_security_add_acl_rule (gs_sec s) a r b)\<rparr>"
| "ask_step env s GE_Shutdown = s\<lparr>gs_sec := daemon_security_shutdown (gs_sec s)\<rparr>"
| "ask_step env s (GE_Init cfg) = s\<lparr>gs_sec := daemon_security_init cfg (gs_sec s)\<rparr>"

definition gate_sys_init :: "security_ctx \<Rightarrow> 'g option \<Rightarrow> string option \<Rightarrow> string option \<Rightarrow> 'g gate_sys" where
  "gate_sys_init sec guard env_mode env_timeout =
     \<lparr>gs_sec = sec, gs_gate = gate_create_default guard env_mode env_timeout, gs_waiting = [], gs_log = []\<rparr>"

section \<open>Request ids\<close>

lemma show_digits: "list_all c_isdigit (show_nat n)"
  using show_nat_digits by (auto simp: list_all_iff)

lemma request_id_full: "request_id_of now seq = ''req_'' @ show_nat (unat now) @ ''_'' @ show_nat (unat seq)"
proof -
  have "unat x < 2 ^ LENGTH(64)" for x :: "64 word" by (rule unsigned_less)
  then have w: "unat x < 10 ^ 20" for x :: "64 word" by (rule less_trans) simp
  have "length (show_nat (unat x)) \<le> 20" for x :: "64 word" by (rule length_show_nat [OF w]) simp
  from this [of now] this [of seq] show ?thesis by (simp add: request_id_of_def snprintf_s_id)
qed

lemma digits_split:
  assumes "list_all c_isdigit a" and "list_all c_isdigit b" and "a @ CHR ''_'' # x = b @ CHR ''_'' # y"
  shows "x = y"
proof -
  have n: "\<not> c_isdigit (CHR ''_'')" by (simp add: c_isdigit_def)
  have d: "dropWhile c_isdigit (z @ CHR ''_'' # r) = CHR ''_'' # r" if "list_all c_isdigit z" for z r
    using that n by (auto simp: dropWhile_append list_all_iff)
  show ?thesis using d [OF assms(1), of x] d [OF assms(2), of y] assms(3) by simp
qed

lemma request_id_inj:
  assumes "request_id_of t x = request_id_of u y"
  shows "x = y"
proof -
  have "show_nat (unat t) @ CHR ''_'' # show_nat (unat x) = show_nat (unat u) @ CHR ''_'' # show_nat (unat y)"
    using assms by (simp add: request_id_full)
  then have "show_nat (unat x) = show_nat (unat y)" by (rule digits_split [OF show_digits show_digits])
  then have "unat x = unat y" by (rule show_nat_inj)
  then show ?thesis by (simp add: word_unat_eq_iff)
qed

section \<open>Invariant\<close>

text \<open>
  A verdict that lets a tool run is justified by the events: a call decided at once found the ACL
  entry; a call that waited has an \<open>allow\<close> or \<open>always\<close> that named its request while it was
  pending for that agent and tool.
\<close>

definition justified :: "'g guard_env \<Rightarrow> 'g gate_sys \<Rightarrow> ask_ev list \<Rightarrow> verdict_entry \<Rightarrow> bool" where
  "justified env s0 es e \<longleftrightarrow>
     (case ve_request e of
        None \<Rightarrow> \<exists>es1 es2 now wall agent params. es = es1 @ GE_Ask now wall agent (ve_name e) params # es2 \<and>
          acl_grants (gs_sec (foldl (ask_step env) s0 es1)) (ve_subject e) (tool_name_of (ve_name e))
      | Some rid \<Rightarrow> \<exists>es1 es2 d m r. es = es1 @ GE_Resolve rid d # es2 \<and> d \<in> {''allow'', ''always''} \<and>
          ag_interactive (gs_gate (foldl (ask_step env) s0 es1)) = Some m \<and> r \<in> set (ia_head m) \<and>
          pr_request_id r = rid \<and> \<not> pr_resolved r \<and> pr_agent_id r = ve_subject e \<and>
          pr_tool r = (case ve_name e of None \<Rightarrow> ''?'' | Some n \<Rightarrow> n))"

text \<open>A request whose outcome is not a denial was resolved by such an event.\<close>

definition outcome_ok :: "'g guard_env \<Rightarrow> 'g gate_sys \<Rightarrow> ask_ev list \<Rightarrow> pending_req \<Rightarrow> bool" where
  "outcome_ok env s0 es r \<longleftrightarrow>
     (if pr_resolved r
      then pr_outcome r \<noteq> AIRY_APPROVAL_DENIED \<longrightarrow>
        (\<exists>es1 es2 d m r0. es = es1 @ GE_Resolve (pr_request_id r) d # es2 \<and> d \<in> {''allow'', ''always''} \<and>
          ag_interactive (gs_gate (foldl (ask_step env) s0 es1)) = Some m \<and> r0 \<in> set (ia_head m) \<and>
          pr_request_id r0 = pr_request_id r \<and> \<not> pr_resolved r0 \<and> pr_agent_id r0 = pr_agent_id r \<and>
          pr_tool r0 = pr_tool r)
      else pr_outcome r = AIRY_APPROVAL_DENIED)"

definition queue_ok :: "nat \<Rightarrow> interactive_approval \<Rightarrow> bool" where
  "queue_ok n m \<longleftrightarrow> distinct (map pr_seq (ia_head m)) \<and> unat (ia_seq m) \<le> n \<and>
     (\<forall>r\<in>set (ia_head m). unat (pr_seq r) < unat (ia_seq m) \<and> pr_request_id r = request_id_of (pr_created_at r) (pr_seq r))"

definition waiter_ok :: "interactive_approval \<Rightarrow> waiter \<Rightarrow> bool" where
  "waiter_ok m w \<longleftrightarrow> (\<forall>r\<in>set (ia_head m). pr_seq r = w_seq w \<longrightarrow>
     pr_agent_id r = w_agent w \<and> pr_tool r = (case w_name w of None \<Rightarrow> ''?'' | Some n \<Rightarrow> n)) \<and>
     unat (w_seq w) < unat (ia_seq m)"

definition sys_inv :: "'g guard_env \<Rightarrow> 'g gate_sys \<Rightarrow> ask_ev list \<Rightarrow> 'g gate_sys \<Rightarrow> bool" where
  "sys_inv env s0 es s \<longleftrightarrow> guarded (ag_ctx (gs_gate s)) \<and> ac_cfg_agent (ag_ctx (gs_gate s)) = Some ''tool_d'' \<and>
     (\<exists>m. ag_interactive (gs_gate s) = Some m \<and> queue_ok (length es) m \<and>
        list_all (outcome_ok env s0 es) (ia_head m) \<and> list_all (waiter_ok m) (gs_waiting s)) \<and>
     list_all (\<lambda>e. ve_verdict e = APPROVAL_GATE_ALLOWED \<longrightarrow> justified env s0 es e) (gs_log s)"

lemma justified_snoc: "justified env s0 es e \<Longrightarrow> justified env s0 (es @ [x]) e"
  by (fastforce simp: justified_def split: option.splits)

lemma outcome_ok_snoc: "outcome_ok env s0 es r \<Longrightarrow> outcome_ok env s0 (es @ [x]) r"
  by (fastforce simp: outcome_ok_def split: if_splits)

text \<open>Events that leave the queue, the waiters and the log alone.\<close>

lemma sys_inv_frame:
  assumes "sys_inv env s0 es s" and "gs_gate s' = gs_gate s" and "gs_waiting s' = gs_waiting s" and "gs_log s' = gs_log s"
  shows "sys_inv env s0 (es @ [x]) s'"
proof -
  obtain m where m: "ag_interactive (gs_gate s) = Some m" "queue_ok (length es) m"
    "list_all (outcome_ok env s0 es) (ia_head m)" "list_all (waiter_ok m) (gs_waiting s)"
    using assms(1) by (auto simp: sys_inv_def)
  have "queue_ok (length (es @ [x])) m" using m(2) by (simp add: queue_ok_def)
  moreover have "list_all (outcome_ok env s0 (es @ [x])) (ia_head m)"
    using m(3) by (auto simp: list_all_iff intro: outcome_ok_snoc)
  moreover have "list_all (\<lambda>e. ve_verdict e = APPROVAL_GATE_ALLOWED \<longrightarrow> justified env s0 (es @ [x]) e) (gs_log s)"
    using assms(1) by (auto simp: sys_inv_def list_all_iff intro: justified_snoc)
  ultimately show ?thesis using assms m by (auto simp: sys_inv_def)
qed

lemma keeps_view_config: "keeps_view c c' \<Longrightarrow> sb_config (ck_bridge c') = sb_config (ck_bridge c)"
  by (simp add: keeps_view_def)

lemma stage_config:
  "st \<in> set (sgb_stages env now) \<Longrightarrow> sb_config (ck_bridge (fst (st c))) = sb_config (ck_bridge c)"
proof -
  have "sb_config (ck_bridge (fst (sgb_quota env c))) = sb_config (ck_bridge c)"
    by (auto simp: sgb_quota_def stage_defs Let_def split: option.split prod.split)
  moreover have "sb_config (ck_bridge (fst (sgb_audit env c))) = sb_config (ck_bridge c)"
    by (auto simp: sgb_audit_def stage_defs Let_def split: option.split)
  moreover assume "st \<in> set (sgb_stages env now)"
  ultimately show ?thesis
    using keeps_view_config [OF sgb_perm_frame(1) [of c]] keeps_view_config [OF sgb_rate_frame [of c now]]
      keeps_view_config [OF sgb_filter_frame [of c]] keeps_view_config [OF sgb_input_frame [of c]]
    by (auto simp: sgb_stages_def)
qed

lemma run_stages_config:
  "(\<And>st c. st \<in> set sts \<Longrightarrow> sb_config (ck_bridge (fst (st c))) = sb_config (ck_bridge c)) \<Longrightarrow>
     sb_config (ck_bridge (fst (run_stages sts c))) = sb_config (ck_bridge c)"
  by (induction sts arbitrary: c) (auto simp: run_stages_Cons simp del: run_stages.simps(2))

lemma bridge_check_config:
  "sb_config (fst (snd (safety_guard_bridge_check_for_agent env now sec b a name params))) = sb_config b"
proof -
  have "sb_config (ck_bridge (fst (run_stages (sgb_stages env now) c))) = sb_config (ck_bridge c)" for c
    by (rule run_stages_config) (rule stage_config)
  from this [of "sgb_begin sec b a name params"] show ?thesis
    by (auto simp: safety_guard_bridge_check_for_agent_def sgb_begin_def split: prod.split)
qed

text \<open>The approval check changes counters of the context, never its configuration.\<close>

lemma check_frame:
  assumes "tool_approval_check_for_agent env now ctx sec agent name params = (ctx', sec', d, rc)"
  shows "guarded ctx' = guarded ctx \<and> ac_cfg_agent ctx' = ac_cfg_agent ctx \<and> ac_agent_id ctx' = ac_agent_id ctx"
proof -
  note b = bridge_check_config
  have c: "guarded ctx' = guarded ctx \<and> ac_cfg_agent ctx' = ac_cfg_agent ctx \<and> ac_agent_id ctx' = ac_agent_id ctx"
    if "approval_check_as env now ctx sec subject name params = (ctx', sec', d, rc)" for subject
  proof (cases "ac_bridge ctx")
    case None
    then show ?thesis using that
      by (auto simp: approval_check_as_def ap_local_def ap_deny_def ap_sanitize_def guarded_def Let_def
          split: option.splits sum.splits if_splits prod.splits)
  next
    case (Some bb)
    then show ?thesis using that b [of env now sec bb "Some subject" name params]
      by (auto simp: approval_check_as_def ap_bridge_def ap_deny_def guarded_def Let_def
          split: option.splits prod.splits)
  qed
  show ?thesis using assms c
    by (auto simp: tool_approval_check_for_agent_def tool_approval_check_def split: option.splits if_splits)
qed

section \<open>Every event keeps it\<close>

lemma queue_enqueue:
  assumes "queue_ok n m" and "n < 2 ^ 64 - 1"
  shows "queue_ok (Suc n) (ia_enqueue wall tool agent params m)"
proof -
  have "unat (ia_seq m + 1) = unat (ia_seq m) + 1"
    using assms by (intro unat_add_one) (auto simp: queue_ok_def)
  then show ?thesis using assms(1) by (fastforce simp: queue_ok_def ia_enqueue_def)
qed

lemma waiter_enqueue:
  assumes "queue_ok n m" and "n < 2 ^ 64 - 1" and "waiter_ok m w"
  shows "waiter_ok (ia_enqueue wall tool agent params m) w"
proof -
  have "unat (ia_seq m + 1) = unat (ia_seq m) + 1"
    using assms(1,2) by (intro unat_add_one) (auto simp: queue_ok_def)
  then show ?thesis using assms(3) by (fastforce simp: waiter_ok_def ia_enqueue_def)
qed

lemma waiter_new:
  assumes "queue_ok n m" and "n < 2 ^ 64 - 1"
  shows "waiter_ok (ia_enqueue wall (case name of None \<Rightarrow> ''?'' | Some n \<Rightarrow> n) agent params m)
    \<lparr>w_seq = ia_seq m, w_deadline = dl, w_agent = agent, w_name = name\<rparr>"
proof -
  have "unat (ia_seq m + 1) = unat (ia_seq m) + 1"
    using assms by (intro unat_add_one) (auto simp: queue_ok_def)
  then show ?thesis using assms(1) by (fastforce simp: waiter_ok_def queue_ok_def ia_enqueue_def)
qed

lemma outcome_enqueue:
  "list_all (outcome_ok env s0 es) (ia_head m) \<Longrightarrow>
     list_all (outcome_ok env s0 es) (ia_head (ia_enqueue wall tool agent params m))"
  by (simp add: ia_enqueue_def outcome_ok_def)

lemma ask_inv:
  assumes inv: "sys_inv env s0 es s" and s: "s = foldl (ask_step env) s0 es" and n: "length es < 2 ^ 64 - 1"
  shows "sys_inv env s0 (es @ [GE_Ask now wall agent name params]) (gate_ask_step env s now wall agent name params)"
proof -
  let ?es = "es @ [GE_Ask now wall agent name params]"
  obtain m where m: "ag_interactive (gs_gate s) = Some m" "queue_ok (length es) m"
    "list_all (outcome_ok env s0 ?es) (ia_head m)" "list_all (waiter_ok m) (gs_waiting s)"
    using inv by (auto simp: sys_inv_def list_all_iff intro: outcome_ok_snoc)
  have q: "queue_ok (length ?es) m" using m(2) by (simp add: queue_ok_def)
  have g: "guarded (ag_ctx (gs_gate s))" "ac_cfg_agent (ag_ctx (gs_gate s)) = Some ''tool_d''"
    using inv by (auto simp: sys_inv_def)
  have log: "list_all (\<lambda>e. ve_verdict e = APPROVAL_GATE_ALLOWED \<longrightarrow> justified env s0 ?es e) (gs_log s)"
    using inv by (auto simp: sys_inv_def list_all_iff intro: justified_snoc)
  obtain ctx sec d rc where c: "tool_approval_check_for_agent env now (ag_ctx (gs_gate s)) (gs_sec s) agent name params = (ctx, sec, d, rc)"
    by (metis prod_cases4)
  note f = check_frame [OF c]
  show ?thesis
  proof (cases rc)
    case (Inr u)
    then have "acl_grants (gs_sec s) (check_subject (ag_ctx (gs_gate s)) agent) (tool_name_of name)"
      using check_for_agent_grants [OF g(1), of env now "gs_sec s" agent name params] g(2) c by simp
    then have "justified env s0 ?es \<lparr>ve_subject = check_subject (ag_ctx (gs_gate s)) agent, ve_name = name,
        ve_verdict = APPROVAL_GATE_ALLOWED, ve_request = None\<rparr>"
      unfolding justified_def s by (simp only: verdict_entry.select_convs option.case) blast
    moreover have "gate_ask_step env s now wall agent name params =
        s\<lparr>gs_sec := sec, gs_gate := (gs_gate s)\<lparr>ag_ctx := ctx\<rparr>, gs_log := gs_log s @
          [\<lparr>ve_subject = check_subject (ag_ctx (gs_gate s)) agent, ve_name = name,
            ve_verdict = APPROVAL_GATE_ALLOWED, ve_request = None\<rparr>]\<rparr>"
      using c Inr by (simp add: gate_ask_step_def gate_ask_begin_def Let_def)
    ultimately show ?thesis using log m q g f by (auto simp: sys_inv_def)
  next
    case (Inl e)
    show ?thesis
    proof (cases "ia_enabled m")
      case True
      have a: "ask_subject ((gs_gate s)\<lparr>ag_ctx := ctx\<rparr>) agent = ask_subject (gs_gate s) agent"
        using f by (simp add: ask_subject_def split: option.split)
      let ?m = "ia_enqueue wall (case name of None \<Rightarrow> ''?'' | Some n \<Rightarrow> n) (ask_subject (gs_gate s) agent) params m"
      have "gate_ask_step env s now wall agent name params =
          s\<lparr>gs_sec := sec, gs_gate := (gs_gate s)\<lparr>ag_ctx := ctx, ag_interactive := Some ?m\<rparr>,
            gs_waiting := gs_waiting s @ [\<lparr>w_seq = ia_seq m, w_deadline = now + ia_timeout_ms m,
              w_agent = ask_subject (gs_gate s) agent, w_name = name\<rparr>]\<rparr>"
        using c Inl m(1) True a by (simp add: gate_ask_step_def gate_ask_begin_def Let_def)
      moreover have "list_all (waiter_ok ?m) (gs_waiting s)"
        using m(4) waiter_enqueue [OF m(2) n] by (auto simp: list_all_iff)
      ultimately show ?thesis
        using log outcome_enqueue [OF m(3)] queue_enqueue [OF m(2) n] waiter_new [OF m(2) n] g f by (auto simp: sys_inv_def)
    next
      case False
      then have "gate_ask_step env s now wall agent name params =
          s\<lparr>gs_sec := sec, gs_gate := (gs_gate s)\<lparr>ag_ctx := ctx\<rparr>, gs_log := gs_log s @
            [\<lparr>ve_subject = check_subject (ag_ctx (gs_gate s)) agent, ve_name = name,
              ve_verdict = APPROVAL_GATE_DENIED, ve_request = None\<rparr>]\<rparr>"
        using c Inl m(1) by (simp add: gate_ask_step_def gate_ask_begin_def Let_def)
      then show ?thesis using log m q g f by (auto simp: sys_inv_def)
    qed
  qed
qed

lemma resolve_inv:
  assumes inv: "sys_inv env s0 es s" and s: "s = foldl (ask_step env) s0 es"
  shows "sys_inv env s0 (es @ [GE_Resolve rid d]) (ask_step env s (GE_Resolve rid d))"
proof -
  let ?es = "es @ [GE_Resolve rid d]"
  obtain m where m: "ag_interactive (gs_gate s) = Some m" "queue_ok (length es) m"
    "list_all (outcome_ok env s0 es) (ia_head m)" "list_all (waiter_ok m) (gs_waiting s)"
    using inv by (auto simp: sys_inv_def)
  show ?thesis
  proof (cases "isl (snd (interactive_approval_resolve m rid d))")
    case True
    then have "fst (interactive_approval_resolve m rid d) = m"
      by (auto simp: interactive_approval_resolve_def split: option.splits if_splits)
    then have "fst (gate_int_resolve (gs_gate s) rid d) = gs_gate s"
      using m(1) by (cases "gs_gate s") (auto simp: gate_int_resolve_def split: prod.split)
    then show ?thesis using inv by (intro sys_inv_frame) simp_all
  next
    case False
    then obtain oc i where oc: "decision_of d = Some oc" and i: "find_index (\<lambda>r. pr_request_id r = rid) (ia_head m) = Some i"
      and u: "\<not> pr_resolved (ia_head m ! i)"
      by (auto simp: interactive_approval_resolve_def split: option.splits if_splits)
    let ?r = "(ia_head m ! i)\<lparr>pr_resolved := True, pr_outcome := oc\<rparr>"
    let ?m = "m\<lparr>ia_head := (ia_head m)[i := ?r]\<rparr>"
    have l: "i < length (ia_head m)" "pr_request_id (ia_head m ! i) = rid" using i by (auto simp: find_index_Some_iff)
    have g: "fst (gate_int_resolve (gs_gate s) rid d) = (gs_gate s)\<lparr>ag_interactive := Some ?m\<rparr>"
      using m(1) oc i u by (simp add: gate_int_resolve_def interactive_approval_resolve_def)
    have mem: "r \<in> set (ia_head m) \<or> r = ?r" if "r \<in> set (ia_head ?m)" for r
      using that set_update_subset_insert by fastforce
    have "map pr_seq (ia_head ?m) = map pr_seq (ia_head m)" using l by (simp add: map_update list_update_same_conv)
    then have "queue_ok (length ?es) ?m"
      using m(2) mem l by (fastforce simp: queue_ok_def)
    moreover have "outcome_ok env s0 ?es ?r"
    proof -
      have "oc \<noteq> AIRY_APPROVAL_DENIED \<Longrightarrow> d \<in> {''allow'', ''always''}"
        using oc by (auto simp: decision_of_def split: if_splits)
      moreover have "\<exists>es1 es2 d' m' r0. ?es = es1 @ GE_Resolve rid d' # es2 \<and> d' \<in> {''allow'', ''always''} \<and>
          ag_interactive (gs_gate (foldl (ask_step env) s0 es1)) = Some m' \<and> r0 \<in> set (ia_head m') \<and>
          pr_request_id r0 = rid \<and> \<not> pr_resolved r0 \<and> pr_agent_id r0 = pr_agent_id (ia_head m ! i) \<and>
          pr_tool r0 = pr_tool (ia_head m ! i)" if "d \<in> {''allow'', ''always''}"
        using that m(1) l u nth_mem [OF l(1)] unfolding s by blast
      ultimately show ?thesis using l by (simp add: outcome_ok_def)
    qed
    then have "list_all (outcome_ok env s0 ?es) (ia_head ?m)"
      using m(3) mem by (auto simp: list_all_iff simp del: interactive_approval.simps intro: outcome_ok_snoc)
    moreover have "list_all (waiter_ok ?m) (gs_waiting s)"
      using m(4) mem nth_mem [OF l(1)] by (fastforce simp: list_all_iff waiter_ok_def)
    moreover have "list_all (\<lambda>e. ve_verdict e = APPROVAL_GATE_ALLOWED \<longrightarrow> justified env s0 ?es e) (gs_log s)"
      using inv by (auto simp: sys_inv_def list_all_iff intro: justified_snoc)
    ultimately show ?thesis using inv g by (auto simp: sys_inv_def)
  qed
qed

lemma wake_inv:
  assumes inv: "sys_inv env s0 es s"
  shows "sys_inv env s0 (es @ [GE_Wake seq now failed]) (gate_wake_step s seq now failed)"
proof -
  let ?es = "es @ [GE_Wake seq now failed]"
  obtain m where m: "ag_interactive (gs_gate s) = Some m" "queue_ok (length es) m"
    "list_all (outcome_ok env s0 es) (ia_head m)" "list_all (waiter_ok m) (gs_waiting s)"
    using inv by (auto simp: sys_inv_def)
  show ?thesis
  proof (cases "gate_wake_step s seq now failed = s")
    case True
    then show ?thesis using inv by (simp add: sys_inv_frame)
  next
    case False
    obtain w r sec v x where w: "find (\<lambda>w. w_seq w = seq) (gs_waiting s) = Some w"
      and r: "find (\<lambda>r. pr_seq r = seq) (ia_head m) = Some r"
      and st: "gate_ask_settle (gs_sec s) (w_agent w) (w_name w) (pr_outcome r) = (sec, v, x)"
      and step: "gate_wake_step s seq now failed =
         s\<lparr>gs_sec := sec, gs_gate := (gs_gate s)\<lparr>ag_interactive := Some (ia_unlink seq m)\<rparr>,
           gs_waiting := filter (\<lambda>w. w_seq w \<noteq> seq) (gs_waiting s),
           gs_log := gs_log s @ [\<lparr>ve_subject = w_agent w, ve_name = w_name w, ve_verdict = v,
             ve_request = Some (pr_request_id r)\<rparr>]\<rparr>"
      using False m(1) by (auto simp: gate_wake_step_def split: option.splits if_splits prod.splits)
    have rm: "r \<in> set (ia_head m)" "pr_seq r = seq" and wm: "w \<in> set (gs_waiting s)" "w_seq w = seq"
      using w r by (auto simp: find_Some_iff)
    have ag: "pr_agent_id r = w_agent w" "pr_tool r = (case w_name w of None \<Rightarrow> ''?'' | Some n \<Rightarrow> n)"
      using m(4) rm wm by (auto simp: list_all_iff waiter_ok_def)
    have "justified env s0 ?es \<lparr>ve_subject = w_agent w, ve_name = w_name w, ve_verdict = v, ve_request = Some (pr_request_id r)\<rparr>"
      if "v = APPROVAL_GATE_ALLOWED"
    proof -
      have "pr_outcome r \<noteq> AIRY_APPROVAL_DENIED" using that st by (auto simp: gate_ask_settle_def split: approval_outcome.splits)
      moreover have "outcome_ok env s0 ?es r" using m(3) rm(1) by (auto simp: list_all_iff intro: outcome_ok_snoc)
      ultimately show ?thesis
        using ag by (cases "pr_resolved r") (simp_all add: outcome_ok_def justified_def)
    qed
    moreover have "list_all (\<lambda>e. ve_verdict e = APPROVAL_GATE_ALLOWED \<longrightarrow> justified env s0 ?es e) (gs_log s)"
      using inv by (auto simp: sys_inv_def list_all_iff intro: justified_snoc)
    moreover have "queue_ok (length ?es) (ia_unlink seq m)"
      using m(2) by (auto simp: queue_ok_def ia_unlink_def distinct_map_filter)
    moreover have "list_all (outcome_ok env s0 ?es) (ia_head (ia_unlink seq m))"
      using m(3) by (auto simp: list_all_iff ia_unlink_def intro: outcome_ok_snoc)
    moreover have "list_all (waiter_ok (ia_unlink seq m)) (filter (\<lambda>w. w_seq w \<noteq> seq) (gs_waiting s))"
      using m(4) by (auto simp: list_all_iff waiter_ok_def ia_unlink_def)
    ultimately show ?thesis using inv step by (auto simp: sys_inv_def)
  qed
qed

lemma ask_step_inv:
  assumes "sys_inv env s0 es s" and "s = foldl (ask_step env) s0 es" and "length es < 2 ^ 64 - 1"
  shows "sys_inv env s0 (es @ [e]) (ask_step env s e)"
proof (cases e)
  case (GE_Ask now wall agent name params)
  with ask_inv [OF assms] show ?thesis by simp
next
  case (GE_Resolve rid d)
  with resolve_inv [OF assms(1,2)] show ?thesis by simp
next
  case (GE_Wake seq now failed)
  with wake_inv [OF assms(1)] show ?thesis by simp
qed (insert assms(1), auto intro!: sys_inv_frame)

lemma init_sys_inv: "sys_inv env s0 [] (gate_sys_init sec guard md tm)"
  by (simp add: sys_inv_def gate_sys_init_def gate_create_default_def gate_create_def guarded_def queue_ok_def
      tool_approval_set_safety_guard_bridge_def tool_approval_create_def safety_guard_bridge_create_def
      sgb_cfg_defaults_def interactive_approval_create_def)

lemma sys_run_inv:
  "length es < 2 ^ 64 \<Longrightarrow>
     sys_inv env (gate_sys_init sec guard md tm) es (foldl (ask_step env) (gate_sys_init sec guard md tm) es)"
proof (induction es rule: rev_induct)
  case Nil
  then show ?case by (simp add: init_sys_inv)
next
  case (snoc e es)
  then show ?case using ask_step_inv [of env "gate_sys_init sec guard md tm" es] by simp
qed

text \<open>
  C18. No tool runs unauthorised. In every interleaving of calls, decisions, wake-ups, rule changes
  and restarts of the security core (below \<open>2 ^ 64\<close> events), a verdict that lets a tool run is
  justified: a call decided at once was asked when the core was initialised, permission checks
  were on and the ACL held an allow entry for that agent and tool; a call that waited was resolved
  by an \<open>allow\<close> or \<open>always\<close> that named its request id while that request was pending, unresolved,
  for the same agent and tool. Timeouts and failed waits deny.
\<close>

theorem tool_gate_authorised:
  assumes "length es < 2 ^ 64"
    and "e \<in> set (gs_log (foldl (ask_step env) (gate_sys_init sec guard md tm) es))"
    and "ve_verdict e = APPROVAL_GATE_ALLOWED"
  shows "justified env (gate_sys_init sec guard md tm) es e"
  using sys_run_inv [OF assms(1), of env sec guard md tm] assms(2,3) by (auto simp: sys_inv_def list_all_iff)

definition example_guard_env :: "unit guard_env" where
  "example_guard_env = \<lparr>check_quota = (\<lambda>_ _. (0, True)), consume_quota = (\<lambda>g _. g), record_audit = (\<lambda>g _ _ _. g),
     reason_size = 256, san_size = 4096\<rparr>"

definition ex_asks :: "ask_ev list" where
  "ex_asks = [GE_Init None, GE_Ask 10 5 (Some ''coder'') (Some ''shell_run'') None,
     GE_Resolve ''req_5_0'' ''always'', GE_Wake 0 20 False, GE_Ask 30 6 (Some ''coder'') (Some ''shell_run'') None]"

theorem tool_gate_authorised_witness:
  "gs_log (foldl (ask_step example_guard_env) (gate_sys_init security_zero (Some ()) (Some ''interactive'') None) ex_asks) =
     [\<lparr>ve_subject = ''coder'', ve_name = Some ''shell_run'', ve_verdict = APPROVAL_GATE_ALLOWED, ve_request = Some ''req_5_0''\<rparr>,
      \<lparr>ve_subject = ''coder'', ve_name = Some ''shell_run'', ve_verdict = APPROVAL_GATE_ALLOWED, ve_request = None\<rparr>] \<and>
   justified example_guard_env (gate_sys_init security_zero (Some ()) (Some ''interactive'') None) ex_asks
     \<lparr>ve_subject = ''coder'', ve_name = Some ''shell_run'', ve_verdict = APPROVAL_GATE_ALLOWED, ve_request = Some ''req_5_0''\<rparr> \<and>
   justified example_guard_env (gate_sys_init security_zero (Some ()) (Some ''interactive'') None) ex_asks
     \<lparr>ve_subject = ''coder'', ve_name = Some ''shell_run'', ve_verdict = APPROVAL_GATE_ALLOWED, ve_request = None\<rparr>"
proof -
  have log: "gs_log (foldl (ask_step example_guard_env) (gate_sys_init security_zero (Some ()) (Some ''interactive'') None) ex_asks) =
     [\<lparr>ve_subject = ''coder'', ve_name = Some ''shell_run'', ve_verdict = APPROVAL_GATE_ALLOWED, ve_request = Some ''req_5_0''\<rparr>,
      \<lparr>ve_subject = ''coder'', ve_name = Some ''shell_run'', ve_verdict = APPROVAL_GATE_ALLOWED, ve_request = None\<rparr>]"
    by code_simp
  have l: "length ex_asks < 2 ^ 64" by (simp add: ex_asks_def)
  note j = tool_gate_authorised [OF l, where env = example_guard_env and sec = security_zero and guard = "Some ()"
      and md = "Some ''interactive''" and tm = None, unfolded log]
  show ?thesis by (intro conjI log j) simp_all
qed

text \<open>
  An answer of \<open>always\<close> is remembered. On an initialised core with room for the rule, settling
  a request with it lets the next permission check of that agent and tool through, and no other
  agent or tool gains or loses an entry.
\<close>

theorem always_is_remembered:
  assumes "sc_initialized sec" and "sc_permission_enabled sec" and "rule_fits agent tool"
    and "length (sc_acl_table sec) < MAX_ACL_ENTRIES"
  shows "daemon_check_tool_permission (fst (gate_ask_settle sec agent (Some tool) AIRY_APPROVAL_ALWAYS)) agent tool = Inr () \<and>
    ((a, t) \<noteq> (agent, tool) \<longrightarrow>
      daemon_check_tool_permission (fst (gate_ask_settle sec agent (Some tool) AIRY_APPROVAL_ALWAYS)) a t =
      daemon_check_tool_permission sec a t)"
proof -
  let ?s = "fst (daemon_security_add_acl_rule sec agent tool True)"
  have acc: "\<not> isl (snd (daemon_security_add_acl_rule sec agent tool True))"
    using add_acl_rule_accepts [of sec agent tool True] assms by simp
  then have abs: "acl_abs (sc_acl_table ?s) = (acl_abs (sc_acl_table sec))((agent, tool) \<mapsto> True)"
    by (simp add: add_acl_rule_abs)
  have st: "fst (gate_ask_settle sec agent (Some tool) AIRY_APPROVAL_ALWAYS) = ?s" by (simp add: gate_ask_settle_def)
  have "daemon_check_tool_permission ?s agent tool = Inr ()"
    using assms(1,2) by (simp add: check_permission_abs abs add_acl_rule_frame)
  moreover have "daemon_check_tool_permission ?s a t = daemon_check_tool_permission sec a t" if "(a, t) \<noteq> (agent, tool)"
    using that assms(1,2) by (auto simp: check_permission_map add_acl_rule_frame abs)
  ultimately show ?thesis unfolding st by blast
qed

theorem always_is_remembered_witness:
  "daemon_check_tool_permission (fst (gate_ask_settle (daemon_security_init None security_zero) ''coder'' (Some ''fs_read'')
      AIRY_APPROVAL_ALWAYS)) ''coder'' ''fs_read'' = Inr ()"
  by (rule conjunct1 [OF always_is_remembered])
    (simp_all add: daemon_security_init_def security_zero_def rule_fits_def ACL_AGENT_SIZE_def ACL_RESOURCE_SIZE_def
      MAX_ACL_ENTRIES_def Let_def)

section \<open>The rate limit\<close>

text \<open>The calls let through by the rate guard, for the times at which it is asked.\<close>

fun rate_run :: "64 word \<Rightarrow> 'g sgb \<Rightarrow> 64 word list \<Rightarrow> bool list" where
  "rate_run limit b [] = []"
| "rate_run limit b (t # ts) = (sb_call_count (rate_window t b) \<le> limit) # rate_run limit (rate_window t b) ts"

lemma rate_window_within:
  "sb_window_start b \<noteq> 0 \<Longrightarrow> t - sb_window_start b < 60000 \<Longrightarrow>
     sb_call_count (rate_window t b) = sb_call_count b + 1 \<and> sb_window_start (rate_window t b) = sb_window_start b"
  by (auto simp: rate_window_def Let_def not_le)

text \<open>
  The rate limit. Within one window, that is for calls less than 60 s after its start, the
  rate guard lets through at most the limit, less the calls already counted in the window.
\<close>

theorem rate_limit_bound:
  assumes "sb_window_start b \<noteq> 0" and "list_all (\<lambda>t. t - sb_window_start b < 60000) ts"
    and "unat (sb_call_count b) + length ts < 2 ^ 64"
  shows "length (filter (\<lambda>ok. ok) (rate_run limit b ts)) \<le> unat limit - unat (sb_call_count b)"
  using assms
proof (induction ts arbitrary: b)
  case Nil
  then show ?case by simp
next
  case (Cons t ts)
  have w: "sb_call_count (rate_window t b) = sb_call_count b + 1" "sb_window_start (rate_window t b) = sb_window_start b"
    using rate_window_within [of b t] Cons.prems by simp_all
  have c: "unat (sb_call_count b + 1) = unat (sb_call_count b) + 1"
    using Cons.prems(3) by (intro unat_add_one) simp
  have IH: "length (filter (\<lambda>ok. ok) (rate_run limit (rate_window t b) ts)) \<le> unat limit - unat (sb_call_count b + 1)"
    using Cons.IH [of "rate_window t b"] Cons.prems w c by simp
  have k: "sb_call_count (rate_window t b) \<le> limit \<longleftrightarrow> unat (sb_call_count b) + 1 \<le> unat limit"
    by (simp only: word_le_nat_alt w c)
  show ?case using IH k unfolding c by auto
qed

theorem rate_limit_bound_witness:
  "length (filter (\<lambda>ok. ok) (rate_run 2 ((safety_guard_bridge_create sgb_cfg_defaults ''tool_d'' (None :: unit option))
      \<lparr>sb_window_start := 5\<rparr>) [6, 7, 8, 9])) \<le> 2"
  using rate_limit_bound [of "(safety_guard_bridge_create sgb_cfg_defaults ''tool_d'' (None :: unit option))\<lparr>sb_window_start := 5\<rparr>"
      "[6, 7, 8, 9]" 2]
  by (simp add: safety_guard_bridge_create_def)

section \<open>Audit\<close>

text \<open>
  The audit trail has the results swapped. A refused call is written to the audit log with the
  result SUCCESS, and a call approved by the local check with the result FAILED.
\<close>

theorem audit_results_swapped:
  assumes "sc_initialized sec" and "sc_audit_enabled sec" and "ac_audit ctx" and "ac_bridge ctx = None"
  shows "case approval_check_as env now ctx sec agent name params of
      (_, sec', _, rc) \<Rightarrow> \<exists>e. sc_audit_log sec' = sc_audit_log sec @ [e] \<and>
        ev_operation e = (if isl rc then ''tool_execute_denied'' else ''tool_execute'') \<and>
        ev_result_str e = (if isl rc then ''SUCCESS'' else ''FAILED'')"
  using assms
  by (auto simp: approval_check_as_def ap_local_def ap_sanitize_def ap_deny_def daemon_audit_log_event_def Let_def
      split: sum.split option.split)

theorem audit_results_swapped_witness:
  "case approval_check_as example_guard_env 0 (tool_approval_create None) (daemon_security_init None security_zero)
      ''coder'' (Some ''fs_read'') None of
      (_, sec', _, rc) \<Rightarrow> \<exists>e. sc_audit_log sec' = [e] \<and> isl rc \<and> ev_result_str e = ''SUCCESS''"
proof -
  let ?s = "daemon_security_init None security_zero"
  have s: "sc_initialized ?s" "sc_audit_enabled ?s" "sc_audit_log ?s = []"
    by (simp_all add: daemon_security_init_def security_zero_def Let_def)
  have c: "ac_audit (tool_approval_create None :: unit approval_ctx)" "ac_bridge (tool_approval_create None :: unit approval_ctx) = None"
    by (simp_all add: tool_approval_create_def)
  have d: "isl (snd (snd (snd (approval_check_as example_guard_env 0 (tool_approval_create None) ?s ''coder'' (Some ''fs_read'') None))))"
    by code_simp
  show ?thesis
    using audit_results_swapped [OF s(1,2) c, of example_guard_env 0 "''coder''" "Some ''fs_read''" None] d s(3)
    by (auto split: prod.splits)
qed

text \<open>Through the bridge every call with parameters is reported as sanitized, changed or not.\<close>

lemma bridge_reports_sanitized:
  assumes "sg_input_sanitization (sb_config (ck_bridge c))" and "ck_params c = Some p"
  shows "br_input_sanitized (ck_res (fst (sgb_input c)))"
  using assms by (simp add: sgb_input_def stage_defs Let_def)

end
