(* ===== verification/Mem_Sha.thy ===== *)
theory Mem_Sha
  imports Airy_Prelude
begin

unbundle bit_operations_syntax

text \<open>
  mem_d, the SHA-256 routine of the semantic cache (\<open>cache.c\<close>): the compression function, the
  streaming interface (init, update, final) and the hexadecimal digest that the cache uses as its
  exact key. The theorem of the theory relates the streaming code to the definition of the standard:
  pad the message, cut it into 64-byte blocks, compress them in order.
\<close>

section \<open>The code\<close>

record sha256_ctx =
  sha_state :: "32 word list"
  sha_bitlen :: "64 word"
  sha_data :: "8 word list"
  sha_datalen :: nat

definition SHA256_K :: "32 word list" where
  "SHA256_K =
     [0x428a2f98, 0x71374491, 0xb5c0fbcf, 0xe9b5dba5, 0x3956c25b] @
     [0x59f111f1, 0x923f82a4, 0xab1c5ed5, 0xd807aa98, 0x12835b01] @
     [0x243185be, 0x550c7dc3, 0x72be5d74, 0x80deb1fe, 0x9bdc06a7] @
     [0xc19bf174, 0xe49b69c1, 0xefbe4786, 0x0fc19dc6, 0x240ca1cc] @
     [0x2de92c6f, 0x4a7484aa, 0x5cb0a9dc, 0x76f988da, 0x983e5152] @
     [0xa831c66d, 0xb00327c8, 0xbf597fc7, 0xc6e00bf3, 0xd5a79147] @
     [0x06ca6351, 0x14292967, 0x27b70a85, 0x2e1b2138, 0x4d2c6dfc] @
     [0x53380d13, 0x650a7354, 0x766a0abb, 0x81c2c92e, 0x92722c85] @
     [0xa2bfe8a1, 0xa81a664b, 0xc24b8b70, 0xc76c51a3, 0xd192e819] @
     [0xd6990624, 0xf40e3585, 0x106aa070, 0x19a4c116, 0x1e376c08] @
     [0x2748774c, 0x34b0bcb5, 0x391c0cb3, 0x4ed8aa4a, 0x5b9cca4f] @
     [0x682e6ff3, 0x748f82ee, 0x78a5636f, 0x84c87814, 0x8cc70208] @
     [0x90befffa, 0xa4506ceb, 0xbef9a3f7, 0xc67178f2]"

definition ROTR :: "32 word \<Rightarrow> nat \<Rightarrow> 32 word" where
  "ROTR x n = drop_bit n x OR push_bit (32 - n) x"

text \<open>The first sixteen words of the message schedule, and the word computed at index \<open>i\<close>.\<close>

definition sha_load :: "8 word list \<Rightarrow> nat \<Rightarrow> 32 word" where
  "sha_load data i =
     push_bit 24 (ucast (data ! (i * 4))) OR push_bit 16 (ucast (data ! (i * 4 + 1))) OR
     push_bit 8 (ucast (data ! (i * 4 + 2))) OR ucast (data ! (i * 4 + 3))"

definition sha_sched :: "nat \<Rightarrow> 32 word list \<Rightarrow> 32 word list" where
  "sha_sched i w =
     (let x = w ! (i - 15); y = w ! (i - 2);
          s0 = ROTR x 7 XOR ROTR x 18 XOR drop_bit 3 x;
          s1 = ROTR y 17 XOR ROTR y 19 XOR drop_bit 10 y
      in w @ [w ! (i - 16) + s0 + w ! (i - 7) + s1])"

type_synonym sha_regs =
  "32 word \<times> 32 word \<times> 32 word \<times> 32 word \<times> 32 word \<times> 32 word \<times> 32 word \<times> 32 word"

fun sha_round :: "32 word \<Rightarrow> 32 word \<Rightarrow> sha_regs \<Rightarrow> sha_regs" where
  "sha_round k wi (a, b, c, d, e, f, g, h) =
     (let S1 = ROTR e 6 XOR ROTR e 11 XOR ROTR e 25;
          ch = (e AND f) XOR (NOT e AND g);
          S0 = ROTR a 2 XOR ROTR a 13 XOR ROTR a 22;
          maj = (a AND b) XOR (a AND c) XOR (b AND c);
          t2 = S0 + maj;
          t1 = h + S1 + ch + k + wi
      in (t1 + t2, a, b, c, d + t1, e, f, g))"

definition sha_words :: "8 word list \<Rightarrow> 32 word list" where
  "sha_words data = fold sha_sched [16..<64] (map (sha_load data) [0..<16])"

definition sha256_transform :: "8 word list \<Rightarrow> 32 word list \<Rightarrow> 32 word list" where
  "sha256_transform data s =
     (let w = sha_words data
      in case fold (\<lambda>i. sha_round (SHA256_K ! i) (w ! i)) [0..<64]
                (s ! 0, s ! 1, s ! 2, s ! 3, s ! 4, s ! 5, s ! 6, s ! 7) of
           (a, b, c, d, e, f, g, h) \<Rightarrow>
             [s ! 0 + a, s ! 1 + b, s ! 2 + c, s ! 3 + d, s ! 4 + e, s ! 5 + f, s ! 6 + g, s ! 7 + h])"

definition sha_iv :: "32 word list" where
  "sha_iv = [0x6a09e667, 0xbb67ae85, 0x3c6ef372, 0xa54ff53a, 0x510e527f, 0x9b05688c, 0x1f83d9ab, 0x5be0cd19]"

text \<open>\<open>sha256_init\<close> leaves the block buffer as it was on the stack.\<close>

definition sha256_init :: "8 word list \<Rightarrow> sha256_ctx" where
  "sha256_init junk = \<lparr>sha_state = sha_iv, sha_bitlen = 0, sha_data = junk, sha_datalen = 0\<rparr>"

definition sha_put :: "8 word \<Rightarrow> sha256_ctx \<Rightarrow> sha256_ctx" where
  "sha_put b ctx = ctx\<lparr>sha_data := (sha_data ctx)[sha_datalen ctx := b], sha_datalen := Suc (sha_datalen ctx)\<rparr>"

definition sha_byte :: "sha256_ctx \<Rightarrow> 8 word \<Rightarrow> sha256_ctx" where
  "sha_byte ctx b =
     (let ctx = sha_put b ctx
      in if sha_datalen ctx = 64
         then ctx\<lparr>sha_state := sha256_transform (sha_data ctx) (sha_state ctx),
                  sha_bitlen := sha_bitlen ctx + 512, sha_datalen := 0\<rparr>
         else ctx)"

definition sha256_update :: "sha256_ctx \<Rightarrow> 8 word list \<Rightarrow> sha256_ctx" where
  "sha256_update ctx bs = foldl sha_byte ctx bs"

text \<open>\<open>while (datalen < k) data[datalen++] = 0\<close>\<close>

definition sha_zeros :: "nat \<Rightarrow> sha256_ctx \<Rightarrow> sha256_ctx" where
  "sha_zeros k ctx = ((sha_put 0) ^^ (k - sha_datalen ctx)) ctx"

definition sha_len_byte :: "64 word \<Rightarrow> nat \<Rightarrow> 8 word" where
  "sha_len_byte bitlen i = ucast (drop_bit (i * 8) bitlen)"

definition sha256_final :: "sha256_ctx \<Rightarrow> 8 word list" where
  "sha256_final ctx =
     (let bitlen = sha_bitlen ctx + of_nat (sha_datalen ctx) * 8;
          ctx = sha_put 0x80 ctx;
          ctx = (if 56 < sha_datalen ctx
                 then let ctx = sha_zeros 64 ctx
                      in ctx\<lparr>sha_state := sha256_transform (sha_data ctx) (sha_state ctx), sha_datalen := 0\<rparr>
                 else ctx);
          ctx = sha_zeros 56 ctx;
          data = fold (\<lambda>i d. d[63 - i := sha_len_byte bitlen i]) [0..<8] (sha_data ctx);
          s = sha256_transform data (sha_state ctx)
      in map (\<lambda>i. ucast (drop_bit (24 - (i mod 4) * 8) (s ! (i div 4)))) [0..<32])"

definition c_bytes :: "string \<Rightarrow> 8 word list" where
  "c_bytes s = map (\<lambda>c. of_nat (of_char c)) s"

definition hex_byte :: "8 word \<Rightarrow> string" where
  "hex_byte b = [''0123456789abcdef'' ! unat (drop_bit 4 b), ''0123456789abcdef'' ! unat (b AND 0x0f)]"

definition sha256_hex :: "8 word list \<Rightarrow> string \<Rightarrow> string" where
  "sha256_hex junk input =
     concat (map hex_byte (sha256_final (sha256_update (sha256_init junk) (c_bytes input))))"

section \<open>The standard's definition\<close>

text \<open>
  Append the bit 1, then zeros up to 56 bytes modulo 64, then the length in bits as a big-endian
  64-bit number; compress the 64-byte blocks in order.
\<close>

definition sha_pad :: "8 word list \<Rightarrow> 8 word list" where
  "sha_pad m = m @ [0x80] @ replicate ((119 - length m mod 64) mod 64) 0 @
     map (\<lambda>i. sha_len_byte (8 * of_nat (length m)) (7 - i)) [0..<8]"

fun blocks :: "'a list \<Rightarrow> 'a list list" where
  "blocks xs = (if length xs < 64 then [] else take 64 xs # blocks (drop 64 xs))"

declare blocks.simps [simp del]

definition sha_ref :: "8 word list \<Rightarrow> 32 word list" where
  "sha_ref m = foldl (\<lambda>s b. sha256_transform b s) sha_iv (blocks (sha_pad m))"

definition sha_bytes_of :: "32 word list \<Rightarrow> 8 word list" where
  "sha_bytes_of s = map (\<lambda>i. ucast (drop_bit (24 - (i mod 4) * 8) (s ! (i div 4)))) [0..<32]"

section \<open>The streaming code computes it\<close>

lemma blocks_append: "64 dvd length p \<Longrightarrow> blocks (p @ q) = blocks p @ blocks q"
proof (induction p rule: blocks.induct)
  case (1 p)
  show ?case
  proof (cases "length p < 64")
    case True
    with 1(2) have "p = []" by (metis dvd_imp_le length_0_conv not_le zero_less_iff_neq_zero)
    then show ?thesis by (simp add: blocks.simps)
  next
    case False
    with 1(2) have "64 dvd length (drop 64 p)" by (simp add: dvd_diff_nat)
    with 1(1) False have "blocks (drop 64 p @ q) = blocks (drop 64 p) @ blocks q" by blast
    with False show ?thesis
      by (simp add: blocks.simps [of "p @ q"] blocks.simps [of p])
  qed
qed

lemma blocks_one: "length b = 64 \<Longrightarrow> blocks b = [b]"
  by (simp add: blocks.simps [of b] blocks.simps [of "[]"])

lemma blocks_two: "length a = 64 \<Longrightarrow> length b = 64 \<Longrightarrow> blocks (a @ b) = [a, b]"
  by (simp add: blocks_append blocks_one)

text \<open>
  The state of the stream after \<open>p @ r\<close>: the whole blocks \<open>p\<close> are compressed and \<open>r\<close> is in the buffer.
\<close>

definition sha_inv :: "8 word list \<Rightarrow> 8 word list \<Rightarrow> sha256_ctx \<Rightarrow> bool" where
  "sha_inv p r ctx \<longleftrightarrow> 64 dvd length p \<and> length r < 64 \<and> length (sha_data ctx) = 64 \<and>
     sha_datalen ctx = length r \<and> take (length r) (sha_data ctx) = r \<and>
     sha_state ctx = foldl (\<lambda>s b. sha256_transform b s) sha_iv (blocks p) \<and>
     sha_bitlen ctx = of_nat (8 * length p)"

lemma sha_put_take:
  assumes "sha_datalen ctx = length r" and "take (length r) (sha_data ctx) = r"
    and "length r < length (sha_data ctx)"
  shows "take (Suc (length r)) (sha_data (sha_put b ctx)) = r @ [b]"
  using assms by (simp add: sha_put_def take_Suc_conv_app_nth)

lemma sha_put_simps [simp]:
  "sha_datalen (sha_put b ctx) = Suc (sha_datalen ctx)" "length (sha_data (sha_put b ctx)) = length (sha_data ctx)"
  "sha_state (sha_put b ctx) = sha_state ctx" "sha_bitlen (sha_put b ctx) = sha_bitlen ctx"
  by (simp_all add: sha_put_def)

lemma sha_byte_inv:
  assumes "sha_inv p r ctx"
  shows "if length r = 63 then sha_inv (p @ r @ [b]) [] (sha_byte ctx b)
    else sha_inv p (r @ [b]) (sha_byte ctx b)"
proof -
  note a = assms [unfolded sha_inv_def]
  have t: "take (Suc (length r)) (sha_data (sha_put b ctx)) = r @ [b]"
    using a by (intro sha_put_take) simp_all
  show ?thesis
  proof (cases "length r = 63")
    case True
    then have d: "sha_data (sha_put b ctx) = r @ [b]" using t a by simp
    have "blocks (p @ r @ [b]) = blocks p @ [r @ [b]]"
      using a True by (simp add: blocks_append blocks_one)
    with True a d show ?thesis by (simp add: sha_inv_def sha_byte_def Let_def)
  next
    case False
    then show ?thesis using a t by (simp add: sha_inv_def sha_byte_def Let_def)
  qed
qed

lemma sha256_update_inv:
  assumes "length junk = 64"
  shows "\<exists>p r. m = p @ r \<and> sha_inv p r (sha256_update (sha256_init junk) m)"
proof (induction m rule: rev_induct)
  case Nil
  have "sha_inv [] [] (sha256_init junk)"
    using assms by (simp add: sha_inv_def sha256_init_def blocks.simps)
  then show ?case by (simp add: sha256_update_def)
next
  case (snoc b m)
  then obtain p r where m: "m = p @ r" and i: "sha_inv p r (sha256_update (sha256_init junk) m)" by blast
  have "sha256_update (sha256_init junk) (m @ [b]) = sha_byte (sha256_update (sha256_init junk) m) b"
    by (simp add: sha256_update_def)
  then show ?case
    using sha_byte_inv [OF i, of b] m by (cases "length r = 63") (simp, force)+
qed

lemma sha_zeros_inv:
  assumes "sha_datalen ctx = length r" and "take (length r) (sha_data ctx) = r"
    and "length r \<le> k" and "k \<le> length (sha_data ctx)"
  shows "take k (sha_data (sha_zeros k ctx)) = r @ replicate (k - length r) 0 \<and>
    sha_datalen (sha_zeros k ctx) = k \<and> length (sha_data (sha_zeros k ctx)) = length (sha_data ctx) \<and>
    sha_state (sha_zeros k ctx) = sha_state ctx"
proof -
  let ?c = "\<lambda>j. (sha_put 0 ^^ j) ctx"
  have "length r + j \<le> k \<Longrightarrow> take (length r + j) (sha_data (?c j)) = r @ replicate j 0 \<and>
      sha_datalen (?c j) = length r + j \<and> length (sha_data (?c j)) = length (sha_data ctx) \<and>
      sha_state (?c j) = sha_state ctx" for j
  proof (induction j)
    case 0
    then show ?case using assms by simp
  next
    case (Suc j)
    then have "take (Suc (length (r @ replicate j 0))) (sha_data (sha_put 0 (?c j))) = (r @ replicate j 0) @ [0]"
      using assms by (intro sha_put_take) simp_all
    with Suc show ?case by (simp add: replicate_append_same)
  qed
  from this [of "k - length r"] assms show ?thesis by (simp add: sha_zeros_def)
qed

lemma length_8E:
  "length xs = 8 \<Longrightarrow> \<exists>x0 x1 x2 x3 x4 x5 x6 x7. xs = [x0, x1, x2, x3, x4, x5, x6, x7]"
  by (auto simp: numeral_eq_Suc length_Suc_conv)

lemma sha_len_fold:
  assumes "length data = 64"
  shows "fold (\<lambda>i d. d[63 - i := f i]) [0..<8] data = take 56 data @ map (\<lambda>i. f (7 - i)) [0..<8]"
proof -
  have "length (drop 56 data) = 8" using assms by simp
  then obtain x0 x1 x2 x3 x4 x5 x6 x7 where "drop 56 data = [x0, x1, x2, x3, x4, x5, x6, x7]"
    using length_8E by blast
  then have d: "data = take 56 data @ [x0, x1, x2, x3, x4, x5, x6, x7]" by (metis append_take_drop_id)
  have "fold (\<lambda>i d. d[63 - i := f i]) [0..<8] (t @ [x0, x1, x2, x3, x4, x5, x6, x7]) =
      t @ map (\<lambda>i. f (7 - i)) [0..<8]" if "length t = 56" for t
    using that by (simp add: upt_conv_Cons list_update_append) (simp add: eval_nat_numeral)
  from this [of "take 56 data"] d assms show ?thesis by simp
qed

text \<open>The two shapes of the padding, as the code distinguishes them.\<close>

lemma sha_pad_split:
  assumes "64 dvd length p" and "length r < 64" and "m = p @ r"
    and "l = map (\<lambda>i. sha_len_byte (8 * of_nat (length m)) (7 - i)) [0..<8]"
  shows "sha_pad m = p @ (if length r < 56 then r @ [0x80] @ replicate (55 - length r) 0 @ l
    else (r @ [0x80] @ replicate (63 - length r) 0) @ replicate 56 0 @ l)"
proof -
  have n: "length m mod 64 = length r" using assms(1-3) by (auto elim!: dvdE)
  have z: "(119 - length r) mod 64 = (if length r < 56 then 55 - length r else (63 - length r) + 56)"
  proof (cases "length r < 56")
    case True
    then have "119 - length r = (55 - length r) + 64" by simp
    with True show ?thesis by (simp only: mod_add_self2) simp
  next
    case False
    with assms(2) show ?thesis by simp
  qed
  have "sha_pad m = p @ r @ [0x80] @ replicate ((119 - length r) mod 64) 0 @ l"
    unfolding sha_pad_def n using assms(3,4) by simp
  then show ?thesis unfolding z by (simp add: replicate_add)
qed

lemma sha256_final_inv:
  assumes "sha_inv p r ctx"
  shows "sha256_final ctx = sha_bytes_of (sha_ref (p @ r))"
proof -
  note a = assms [unfolded sha_inv_def]
  define m where "m = p @ r"
  define l where "l = map (\<lambda>i. sha_len_byte (8 * of_nat (length m)) (7 - i)) [0..<8]"
  define T where "T = (\<lambda>s b. sha256_transform b s)"
  let ?c1 = "sha_put 0x80 ctx" and ?l = "8 * of_nat (length m) :: 64 word"
  have len: "sha_bitlen ctx + of_nat (sha_datalen ctx) * 8 = ?l"
    using a by (simp add: m_def algebra_simps)
  have c1: "take (length (r @ [0x80])) (sha_data ?c1) = r @ [0x80]" "sha_datalen ?c1 = length (r @ [0x80])"
    using sha_put_take [of ctx r "0x80"] a by simp_all
  have pad: "sha_pad m = p @ (if length r < 56 then r @ [0x80] @ replicate (55 - length r) 0 @ l
      else (r @ [0x80] @ replicate (63 - length r) 0) @ replicate 56 0 @ l)"
    using a by (intro sha_pad_split) (simp_all add: m_def l_def)
  have ll: "length l = 8" by (simp add: l_def)
  have fin: "fold (\<lambda>i d. d[63 - i := sha_len_byte ?l i]) [0..<8] data = take 56 data @ l"
    if "length data = 64" for data
    using sha_len_fold [OF that] by (simp add: l_def)
  show ?thesis
  proof (cases "length r < 56")
    case True
    let ?c2 = "sha_zeros 56 ?c1"
    have c2: "take 56 (sha_data ?c2) = r @ [0x80] @ replicate (55 - length r) 0"
      "length (sha_data ?c2) = 64" "sha_state ?c2 = sha_state ctx"
      using sha_zeros_inv [of ?c1 "r @ [0x80]" 56] c1 a True by simp_all
    have "blocks (sha_pad m) = blocks p @ [take 56 (sha_data ?c2) @ l]"
      using pad True a c2 ll by (simp add: blocks_append blocks_one)
    then have ref: "sha_ref m = sha256_transform (take 56 (sha_data ?c2) @ l) (sha_state ctx)"
      using a by (simp add: sha_ref_def)
    have "\<not> 56 < sha_datalen ?c1" using c1 True by simp
    then show ?thesis
      using c2 fin [of "sha_data ?c2"] ref
      by (simp add: sha256_final_def Let_def len sha_bytes_of_def m_def)
  next
    case False
    let ?c2 = "sha_zeros 64 ?c1"
    let ?s2 = "sha256_transform (sha_data ?c2) (sha_state ?c2)"
    let ?c3 = "?c2\<lparr>sha_state := ?s2, sha_datalen := 0\<rparr>"
    let ?c4 = "sha_zeros 56 ?c3"
    have z2: "take 64 (sha_data ?c2) = r @ [0x80] @ replicate (63 - length r) 0"
      "length (sha_data ?c2) = 64" "sha_state ?c2 = sha_state ctx"
      using sha_zeros_inv [of ?c1 "r @ [0x80]" 64] c1 a False by simp_all
    have "sha_data ?c2 = r @ [0x80] @ replicate (63 - length r) 0"
      using z2(1) take_all [of "sha_data ?c2" 64] z2(2) by simp
    note c2 = this z2(2,3)
    have c4: "take 56 (sha_data ?c4) = replicate 56 0" "length (sha_data ?c4) = 64" "sha_state ?c4 = ?s2"
      using sha_zeros_inv [of ?c3 "[]" 56] c2(2) by simp_all
    have "blocks (sha_pad m) = blocks p @ [sha_data ?c2, take 56 (sha_data ?c4) @ l]"
      using pad False a c2(1,2) c4 ll blocks_two [of "sha_data ?c2" "replicate 56 0 @ l"]
      by (simp add: blocks_append)
    then have ref: "sha_ref m = sha256_transform (take 56 (sha_data ?c4) @ l) (sha_state ?c4)"
      using a c2(3) c4(3) by (simp add: sha_ref_def)
    have "56 < sha_datalen ?c1" using c1 False by simp
    then show ?thesis
      using c4 fin [of "sha_data ?c4"] ref
      by (simp add: sha256_final_def Let_def len sha_bytes_of_def m_def)
  qed
qed

text \<open>
  C36. The streaming SHA-256 is the standard's: whatever the block buffer held before, initialising,
  feeding the message byte by byte and finalising gives the bytes of the hash obtained by padding
  the message and compressing its 64-byte blocks in order, for messages of any length.
\<close>

theorem sha256_stream_correct:
  assumes "length junk = 64"
  shows "sha256_final (sha256_update (sha256_init junk) m) = sha_bytes_of (sha_ref m)"
proof -
  obtain p r where "m = p @ r" and "sha_inv p r (sha256_update (sha256_init junk) m)"
    using sha256_update_inv [OF assms] by blast
  with sha256_final_inv show ?thesis by simp
qed

theorem sha256_stream_correct_witness:
  "sha256_hex (replicate 64 0) ''abc'' = sha256_hex (replicate 64 7) ''abc''"
  using sha256_stream_correct [of "replicate 64 0"] sha256_stream_correct [of "replicate 64 7"]
  by (simp add: sha256_hex_def)

text \<open>The exact key is 64 characters long.\<close>

lemma length_sha256_hex: "length (sha256_hex junk input) = 64"
proof -
  have "length (concat (map hex_byte bs)) = 2 * length bs" for bs
    by (induction bs) (simp_all add: hex_byte_def)
  moreover have "length (sha256_final ctx) = 32" for ctx by (simp add: sha256_final_def Let_def)
  ultimately show ?thesis by (simp only: sha256_hex_def)
qed

end
