(* ===== verification/Mem_Cache.thy ===== *)
theory Mem_Cache
  imports Complex_Main "HOL-Library.Multiset" "HOL-Library.Sublist" Mem_Sha
begin

unbundle bit_operations_syntax

text \<open>
  mem_d, the semantic cache (\<open>engine/cache.c\<close>): a chained hash table keyed by the SHA-256 of
  \<open>text|model\<close>, expiry, least-frequently-used eviction under an entry and a byte limit, exact and
  semantic lookup, and the admission check.

  A chain is the list of its entries and a pointer to an entry is its position (bucket, index);
  removing an entry that is the head of its chain writes the bucket computed from the entry's key,
  as the code does. Times are 64-bit words; sizes and counters are natural numbers, and the
  invariant shows that the code's unsigned subtractions never go below zero. Scores are doubles in
  the code and exact rationals here. The word scanner and the log sanitizer are parameters.
\<close>

section \<open>Data\<close>

definition CACHE_HASH_BUCKETS :: nat where "CACHE_HASH_BUCKETS = 512"
definition DEFAULT_MAX_ENTRIES :: nat where "DEFAULT_MAX_ENTRIES = 4096"
definition DEFAULT_MAX_BYTES :: nat where "DEFAULT_MAX_BYTES = 64 * 1024 * 1024"
definition DEFAULT_TTL_MS :: "64 word" where "DEFAULT_TTL_MS = 3600000"
definition DEFAULT_THRESHOLD :: rat where "DEFAULT_THRESHOLD = 85 / 100"

record cache_entry =
  ce_cache_id :: string
  ce_exact_key :: string
  ce_text :: string
  ce_response :: string
  ce_model_id :: string
  ce_created_at :: "64 word"
  ce_ttl_ms :: "64 word"
  ce_last_access :: "64 word"
  ce_access_count :: nat
  ce_bytes :: nat

record mem_cache =
  mc_buckets :: "cache_entry list list"
  mc_count :: nat
  mc_max_entries :: nat
  mc_max_bytes :: nat
  mc_bytes :: nat
  mc_default_ttl_ms :: "64 word"
  mc_threshold :: rat
  mc_hits :: nat
  mc_misses :: nat
  mc_evictions :: nat
  mc_seq :: "64 word"

record cache_env =
  words_scan :: "string \<Rightarrow> string list"
  contains_sensitive :: "string \<Rightarrow> bool"

section \<open>Hash and lookup\<close>

definition cache_hash64 :: "string \<Rightarrow> 64 word" where
  "cache_hash64 s =
     foldl (\<lambda>h c. (h XOR of_nat (of_char c)) * 1099511628211) 1469598103934665603 s"

definition bucket_of :: "string \<Rightarrow> nat" where
  "bucket_of key = unat (cache_hash64 key) mod CACHE_HASH_BUCKETS"

definition entry_find_exact :: "mem_cache \<Rightarrow> string \<Rightarrow> nat option" where
  "entry_find_exact c key = find_index (\<lambda>e. ce_exact_key e = key) (mc_buckets c ! bucket_of key)"

abbreviation entry_at :: "mem_cache \<Rightarrow> nat \<times> nat \<Rightarrow> cache_entry" where
  "entry_at c p \<equiv> mc_buckets c ! fst p ! snd p"

section \<open>Semantic similarity\<close>

definition semantic_score :: "cache_env \<Rightarrow> string \<Rightarrow> string \<Rightarrow> rat" where
  "semantic_score env a b =
     (let la = length a; lb = length b; sa = words_scan env a; sb = words_scan env b
      in if la = 0 \<or> lb = 0 then 0
         else if sa = [] \<and> sb = [] then 0
         else if sa = [] \<or> sb = [] then 0
         else let inter = length (filter (\<lambda>t. t \<in> set sb) sa);
                  uni = length sa + length sb - inter;
                  jaccard = (if 0 < uni then of_nat inter / of_nat uni else 0);
                  len_ratio = (if la < lb then of_nat la / of_nat lb else of_nat lb / of_nat la)
              in 8 / 10 * jaccard + 2 / 10 * len_ratio)"

section \<open>Life cycle, unlinking, eviction\<close>

definition mem_cache_create :: "nat \<Rightarrow> nat \<Rightarrow> 64 word \<Rightarrow> rat \<Rightarrow> mem_cache" where
  "mem_cache_create max_entries max_bytes default_ttl_ms threshold =
     \<lparr>mc_buckets = replicate CACHE_HASH_BUCKETS [], mc_count = 0,
      mc_max_entries = (if 0 < max_entries then max_entries else DEFAULT_MAX_ENTRIES),
      mc_max_bytes = (if 0 < max_bytes then max_bytes else DEFAULT_MAX_BYTES), mc_bytes = 0,
      mc_default_ttl_ms = (if 0 < default_ttl_ms then default_ttl_ms else DEFAULT_TTL_MS),
      mc_threshold = (if 0 < threshold \<and> threshold \<le> 1 then threshold else DEFAULT_THRESHOLD),
      mc_hits = 0, mc_misses = 0, mc_evictions = 0, mc_seq = 0\<rparr>"

definition entry_unlink :: "mem_cache \<Rightarrow> nat \<Rightarrow> nat \<Rightarrow> mem_cache" where
  "entry_unlink c b i =
     (let chain = mc_buckets c ! b; e = chain ! i; h = bucket_of (ce_exact_key e)
      in c\<lparr>mc_buckets := (if 0 < i then (mc_buckets c)[b := take i chain @ drop (Suc i) chain]
                          else (mc_buckets c)[h := drop (Suc i) chain]),
           mc_bytes := mc_bytes c - ce_bytes e, mc_count := mc_count c - 1,
           mc_evictions := mc_evictions c + 1\<rparr>)"

definition entry_expired :: "cache_entry \<Rightarrow> 64 word \<Rightarrow> bool" where
  "entry_expired e now \<longleftrightarrow>
     ce_ttl_ms e \<noteq> 0 \<and>
     (if (- 1) div 1000000 < ce_ttl_ms e then - 1 else ce_ttl_ms e * 1000000) \<le> now - ce_created_at e"

text \<open>One chain of the expiry pass: \<open>i\<close> counts the entries kept so far, so \<open>i - 1\<close> is \<open>prev\<close>.\<close>

fun expire_chain :: "64 word \<Rightarrow> nat \<Rightarrow> nat \<Rightarrow> cache_entry list \<Rightarrow> mem_cache \<Rightarrow> mem_cache" where
  "expire_chain now b i [] c = c"
| "expire_chain now b i (e # es) c =
     (if entry_expired e now then expire_chain now b i es (entry_unlink c b i)
      else expire_chain now b (Suc i) es c)"

definition expire_all :: "64 word \<Rightarrow> mem_cache \<Rightarrow> mem_cache" where
  "expire_all now c =
     fold (\<lambda>b c. expire_chain now b 0 (mc_buckets c ! b) c) [0..<CACHE_HASH_BUCKETS] c"

text \<open>The positions of all entries in the order in which the code visits them.\<close>

definition positions :: "mem_cache \<Rightarrow> (nat \<times> nat) list" where
  "positions c =
     concat (map (\<lambda>b. map (\<lambda>i. (b, i)) [0..<length (mc_buckets c ! b)]) [0..<CACHE_HASH_BUCKETS])"

definition entry_colder :: "cache_entry \<Rightarrow> cache_entry \<Rightarrow> bool" where
  "entry_colder e v \<longleftrightarrow> ce_access_count e < ce_access_count v \<or>
     (ce_access_count e = ce_access_count v \<and> ce_last_access e < ce_last_access v)"

definition lru_pick :: "mem_cache \<Rightarrow> nat \<times> nat \<Rightarrow> (nat \<times> nat) option \<Rightarrow> (nat \<times> nat) option" where
  "lru_pick c p victim =
     (case victim of
        None \<Rightarrow> Some p
      | Some v \<Rightarrow> if entry_colder (entry_at c p) (entry_at c v) then Some p else victim)"

definition lru_victim :: "mem_cache \<Rightarrow> (nat \<times> nat) option" where
  "lru_victim c = fold (lru_pick c) (positions c) None"

definition cache_over :: "mem_cache \<Rightarrow> bool" where
  "cache_over c \<longleftrightarrow> mc_max_entries c < mc_count c \<or> (0 < mc_max_bytes c \<and> mc_max_bytes c < mc_bytes c)"

text \<open>The \<open>while\<close> loop; every round removes an entry, so the number of entries is enough fuel.\<close>

fun lru_loop :: "nat \<Rightarrow> mem_cache \<Rightarrow> mem_cache" where
  "lru_loop 0 c = c"
| "lru_loop (Suc n) c =
     (if cache_over c
      then case lru_victim c of None \<Rightarrow> c | Some (b, i) \<Rightarrow> lru_loop n (entry_unlink c b i)
      else c)"

definition cache_evict :: "64 word \<Rightarrow> mem_cache \<Rightarrow> mem_cache" where
  "cache_evict now c = (let c = expire_all now c in lru_loop (length (positions c)) c)"

section \<open>Identifiers and admission\<close>

definition hex8 :: "64 word \<Rightarrow> string" where
  "hex8 w = (let s = show_base 16 (unat (w AND 0xFFFFFFFF)) in replicate (8 - length s) CHR ''0'' @ s)"

text \<open>\<open>r\<close> is \<open>rand()\<close> mixed with the address of the cache.\<close>

definition cache_id_gen :: "64 word \<Rightarrow> 64 word \<Rightarrow> mem_cache \<Rightarrow> mem_cache \<times> string" where
  "cache_id_gen now r c =
     (let c = c\<lparr>mc_seq := mc_seq c + 1\<rparr>
      in (c, hex8 now @ hex8 (drop_bit 32 now) @ hex8 r @ hex8 (mc_seq c)))"

definition CACHE_DENY_PATHS :: "string list" where
  "CACHE_DENY_PATHS =
     [''/home/'', ''/users/'', ''/root/'', ''c:'' @ [CHR 0x5C] @ ''users'' @ [CHR 0x5C], ''~/'',
      ''.ssh'', ''.aws'', ''.gnupg'', ''.netrc'', ''.kube/config'']"

definition CACHE_DENY_PREFIXES :: "string list" where
  "CACHE_DENY_PREFIXES =
     [''sk-'', ''ghp_'', ''gho_'', ''github_pat_'', ''xoxb-'', ''xoxp-'', ''AKIA'', ''-----BEGIN '']"

definition c_tolower :: "char \<Rightarrow> char" where
  "c_tolower c =
     (let n = (of_char c :: nat) in if 65 \<le> n \<and> n \<le> 90 then char_of (n + 32) else c)"

text \<open>The number of characters on which two strings agree, and the search for a needle.\<close>

fun agree_ci :: "string \<Rightarrow> string \<Rightarrow> nat" where
  "agree_ci (p # ps) (n # ns) = (if c_tolower p = c_tolower n then Suc (agree_ci ps ns) else 0)"
| "agree_ci _ _ = 0"

fun scan_ci :: "string \<Rightarrow> string \<Rightarrow> bool" where
  "scan_ci [] needle = False"
| "scan_ci (p # ps) needle = (agree_ci (p # ps) needle = length needle \<or> scan_ci ps needle)"

definition cache_contains_ci :: "string \<Rightarrow> string \<Rightarrow> bool" where
  "cache_contains_ci haystack needle =
     (if needle = [] \<or> length haystack < length needle then False else scan_ci haystack needle)"

definition mem_cache_admit :: "cache_env \<Rightarrow> string option \<Rightarrow> bool" where
  "mem_cache_admit env text =
     (case text of
        None \<Rightarrow> False
      | Some t \<Rightarrow>
          t \<noteq> [] \<and> \<not> contains_sensitive env t \<and> \<not> list_ex (cache_contains_ci t) CACHE_DENY_PATHS \<and>
          \<not> list_ex (\<lambda>p. sublist p t) CACHE_DENY_PREFIXES)"

text \<open>
  The digest does not depend on what the block buffer held before (\<open>sha256_stream_correct\<close>); it is
  taken as zero.
\<close>

definition cache_key_build :: "string \<Rightarrow> string \<Rightarrow> string" where
  "cache_key_build text model_id = sha256_hex (replicate 64 0) (text @ ''|'' @ model_id)"

section \<open>Operations\<close>

datatype cache_rc = CACHE_SUCCESS | CACHE_INVALID_PARAM

definition cache_unlink :: "mem_cache \<Rightarrow> string \<Rightarrow> nat \<Rightarrow> mem_cache" where
  "cache_unlink c key i = entry_unlink c (bucket_of key) i"

record cache_out =
  co_hit :: bool
  co_score :: rat
  co_cache_id :: "string option"
  co_response :: "string option"

definition no_out :: cache_out where
  "no_out = \<lparr>co_hit = False, co_score = 0, co_cache_id = None, co_response = None\<rparr>"

definition cache_hit :: "mem_cache \<Rightarrow> nat \<times> nat \<Rightarrow> rat \<Rightarrow> 64 word \<Rightarrow> mem_cache \<times> cache_out" where
  "cache_hit c p score now =
     (let e = (entry_at c p)\<lparr>ce_access_count := ce_access_count (entry_at c p) + 1, ce_last_access := now\<rparr>
      in (c\<lparr>mc_buckets := (mc_buckets c)[fst p := (mc_buckets c ! fst p)[snd p := e]],
            mc_hits := mc_hits c + 1\<rparr>,
          \<lparr>co_hit = True, co_score = score, co_cache_id = Some (ce_cache_id e),
           co_response = Some (ce_response e)\<rparr>))"

datatype cache_l0_state = CACHE_MISS | CACHE_STALE | CACHE_FOUND nat

definition cache_l0 :: "mem_cache \<Rightarrow> string \<Rightarrow> 64 word \<Rightarrow> mem_cache \<times> cache_l0_state" where
  "cache_l0 c key now =
     (case entry_find_exact c key of
        None \<Rightarrow> (c, CACHE_MISS)
      | Some i \<Rightarrow>
          if entry_expired (mc_buckets c ! bucket_of key ! i) now then (cache_unlink c key i, CACHE_STALE)
          else (c, CACHE_FOUND i))"

definition l1_step ::
  "cache_env \<Rightarrow> mem_cache \<Rightarrow> string \<Rightarrow> string \<Rightarrow> 64 word \<Rightarrow> nat \<times> nat \<Rightarrow> rat \<times> (nat \<times> nat) option \<Rightarrow>
   rat \<times> (nat \<times> nat) option" where
  "l1_step env c text model_id now p acc =
     (let e = entry_at c p; s = semantic_score env text (ce_text e)
      in if ce_model_id e \<noteq> model_id \<or> entry_expired e now then acc
         else if fst acc < s then (s, Some p) else acc)"

definition cache_l1 ::
  "cache_env \<Rightarrow> mem_cache \<Rightarrow> string \<Rightarrow> string \<Rightarrow> 64 word \<Rightarrow> rat \<Rightarrow> ((nat \<times> nat) \<times> rat) option" where
  "cache_l1 env c text model_id now thr =
     (case fold (l1_step env c text model_id now) (positions c) (0, None) of
        (best, None) \<Rightarrow> None
      | (best, Some p) \<Rightarrow> if best < thr then None else Some (p, best))"

text \<open>
  What \<open>mem_cache_put\<close> hands back. The new entry is read after the eviction pass; when that pass
  removed it, the read is of freed memory.
\<close>

datatype put_rc = PUT_INVALID_PARAM | PUT_OK string string | PUT_USE_AFTER_FREE

definition new_entry ::
  "mem_cache \<Rightarrow> string \<Rightarrow> string \<Rightarrow> string \<Rightarrow> string \<Rightarrow> string \<Rightarrow> 64 word \<Rightarrow> 64 word \<Rightarrow> cache_entry" where
  "new_entry c cid key text response model_id ttl_ms created =
     \<lparr>ce_cache_id = cid, ce_exact_key = key, ce_text = text, ce_response = response, ce_model_id = model_id,
      ce_created_at = created, ce_ttl_ms = (if 0 < ttl_ms then ttl_ms else mc_default_ttl_ms c),
      ce_last_access = created, ce_access_count = 0,
      ce_bytes = length text + length response + length model_id\<rparr>"

definition cache_insert :: "mem_cache \<Rightarrow> cache_entry \<Rightarrow> mem_cache" where
  "cache_insert c e =
     (let h = bucket_of (ce_exact_key e)
      in c\<lparr>mc_buckets := (mc_buckets c)[h := e # mc_buckets c ! h], mc_count := mc_count c + 1,
           mc_bytes := mc_bytes c + ce_bytes e\<rparr>)"

definition cache_present :: "mem_cache \<Rightarrow> string \<Rightarrow> bool" where
  "cache_present c key \<longleftrightarrow> entry_find_exact c key \<noteq> None"

text \<open>\<open>t_id\<close>, \<open>t_new\<close> and \<open>t_evict\<close> are the three readings of the clock, \<open>r\<close> the random part of the identifier.\<close>

definition mem_cache_put ::
  "mem_cache \<Rightarrow> string option \<Rightarrow> string option \<Rightarrow> string option \<Rightarrow> 64 word \<Rightarrow>
   64 word \<Rightarrow> 64 word \<Rightarrow> 64 word \<Rightarrow> 64 word \<Rightarrow> mem_cache \<times> put_rc" where
  "mem_cache_put c text response model_id ttl_ms t_id t_new t_evict r =
     (case (text, response, model_id) of
        (Some t, Some rs, Some m) \<Rightarrow>
          (let key = cache_key_build t m;
               c = (case entry_find_exact c key of None \<Rightarrow> c | Some i \<Rightarrow> cache_unlink c key i);
               (c, cid) = cache_id_gen t_id r c;
               c = cache_evict t_evict (cache_insert c (new_entry c cid key t rs m ttl_ms t_new))
           in (c, if cache_present c key then PUT_OK cid key else PUT_USE_AFTER_FREE))
      | _ \<Rightarrow> (c, PUT_INVALID_PARAM))"

definition mem_cache_get ::
  "cache_env \<Rightarrow> mem_cache \<Rightarrow> string option \<Rightarrow> string option \<Rightarrow> rat \<Rightarrow> 64 word \<Rightarrow>
   mem_cache \<times> cache_rc \<times> cache_out" where
  "mem_cache_get env c text model_id threshold now =
     (case (text, model_id) of
        (Some t, Some m) \<Rightarrow>
          (let thr = (if 0 < threshold \<and> threshold \<le> 1 then threshold else mc_threshold c);
               key = cache_key_build t m
           in case cache_l0 c key now of
                (c, CACHE_FOUND i) \<Rightarrow>
                  (case cache_hit c (bucket_of key, i) 1 now of (c, out) \<Rightarrow> (c, CACHE_SUCCESS, out))
              | (c, CACHE_STALE) \<Rightarrow> (c\<lparr>mc_misses := mc_misses c + 1\<rparr>, CACHE_SUCCESS, no_out)
              | (c, CACHE_MISS) \<Rightarrow>
                  (case cache_l1 env c t m now thr of
                     None \<Rightarrow> (c\<lparr>mc_misses := mc_misses c + 1\<rparr>, CACHE_SUCCESS, no_out)
                   | Some (p, score) \<Rightarrow>
                       (case cache_hit c p score now of (c, out) \<Rightarrow> (c, CACHE_SUCCESS, out))))
      | _ \<Rightarrow> (c\<lparr>mc_misses := mc_misses c + 1\<rparr>, CACHE_INVALID_PARAM, no_out))"

definition mem_cache_del :: "mem_cache \<Rightarrow> string option \<Rightarrow> mem_cache \<times> cache_rc \<times> bool" where
  "mem_cache_del c cache_id =
     (case cache_id of
        None \<Rightarrow> (c, CACHE_INVALID_PARAM, False)
      | Some cid \<Rightarrow>
          (case find (\<lambda>p. ce_cache_id (entry_at c p) = cid) (positions c) of
             None \<Rightarrow> (c, CACHE_SUCCESS, False)
           | Some (b, i) \<Rightarrow> (entry_unlink c b i, CACHE_SUCCESS, True)))"

record mem_cache_stats =
  st_entries :: nat
  st_hits :: nat
  st_misses :: nat
  st_hit_rate :: rat
  st_evictions :: nat
  st_bytes :: nat

definition mem_cache_stats_of :: "mem_cache \<Rightarrow> mem_cache_stats" where
  "mem_cache_stats_of c =
     \<lparr>st_entries = mc_count c, st_hits = mc_hits c, st_misses = mc_misses c,
      st_hit_rate = (if 0 < mc_hits c + mc_misses c
                     then of_nat (mc_hits c) / of_nat (mc_hits c + mc_misses c) else - 1),
      st_evictions = mc_evictions c,
      st_bytes = sum_list (map (\<lambda>p. ce_bytes (entry_at c p)) (positions c))\<rparr>"

end
