(* ===== verification/Mem_Cache_Spec.thy ===== *)
theory Mem_Cache_Spec
  imports Mem_Cache
begin

text \<open>
  What the semantic cache guarantees: the table invariant and the capacity limits over every sequence
  of operations, the eviction order, what a lookup returns, and the admission rule. The abstraction
  is the bag of entries.
\<close>

section \<open>The table invariant\<close>

definition cache_bag :: "mem_cache \<Rightarrow> cache_entry multiset" where
  "cache_bag c = mset (concat (mc_buckets c))"

definition chain_ok :: "nat \<Rightarrow> cache_entry list \<Rightarrow> bool" where
  "chain_ok b es \<longleftrightarrow> list_all (\<lambda>e. bucket_of (ce_exact_key e) = b) es \<and> distinct (map ce_exact_key es)"

definition cache_inv :: "mem_cache \<Rightarrow> bool" where
  "cache_inv c \<longleftrightarrow> length (mc_buckets c) = 512 \<and> (\<forall>b<512. chain_ok b (mc_buckets c ! b)) \<and>
     mc_count c = size (cache_bag c) \<and> mc_bytes c = (\<Sum>e\<in>#cache_bag c. ce_bytes e)"

definition pos_ok :: "mem_cache \<Rightarrow> nat \<times> nat \<Rightarrow> bool" where
  "pos_ok c p \<longleftrightarrow> fst p < 512 \<and> snd p < length (mc_buckets c ! fst p)"

lemma bucket_of_less [simp]: "bucket_of key < 512"
  by (simp add: bucket_of_def CACHE_HASH_BUCKETS_def)

lemma set_positions: "set (positions c) = {p. pos_ok c p}"
  by (auto simp: positions_def pos_ok_def CACHE_HASH_BUCKETS_def image_iff)

lemma mset_concat_update:
  "b < length xss \<Longrightarrow> mset (concat (xss[b := ys])) + mset (xss ! b) = mset (concat xss) + mset ys"
proof (induction xss arbitrary: b)
  case (Cons xs xss)
  then show ?case by (cases b) (auto simp: ac_simps)
qed simp

lemma bag_mem_iff: "length (mc_buckets c) = 512 \<Longrightarrow> e \<in># cache_bag c \<longleftrightarrow> (\<exists>b<512. e \<in> set (mc_buckets c ! b))"
  by (simp add: cache_bag_def) (metis in_set_conv_nth)

lemma bag_mem_pos:
  assumes "length (mc_buckets c) = 512"
  shows "e \<in># cache_bag c \<longleftrightarrow> (\<exists>p. pos_ok c p \<and> entry_at c p = e)"
  unfolding bag_mem_iff [OF assms] pos_ok_def by (auto simp: in_set_conv_nth)

lemma length_positions:
  assumes "length (mc_buckets c) = 512"
  shows "length (positions c) = size (cache_bag c)"
proof -
  have "length (positions c) = sum_list (map (\<lambda>b. length (mc_buckets c ! b)) [0..<length (mc_buckets c)])"
    using assms by (simp add: positions_def length_concat comp_def CACHE_HASH_BUCKETS_def)
  also have "\<dots> = sum_list (map length (mc_buckets c))"
    by (metis (no_types, lifting) map_nth map_map comp_def map_eq_conv)
  finally show ?thesis by (simp add: cache_bag_def length_concat)
qed

lemma chain_ok_delete: "chain_ok b (xs @ e # ys) \<Longrightarrow> chain_ok b (xs @ ys)"
  by (auto simp: chain_ok_def)

text \<open>Removing the entry at a valid position of a well-formed table.\<close>

lemma entry_unlink_buckets:
  assumes "cache_inv c" and "b < 512" and "mc_buckets c ! b = xs @ e # ys"
  shows "mc_buckets (entry_unlink c b (length xs)) = (mc_buckets c)[b := xs @ ys]"
proof -
  have "chain_ok b (xs @ e # ys)" using assms by (auto simp: cache_inv_def)
  then have "bucket_of (ce_exact_key e) = b" by (auto simp: chain_ok_def)
  then show ?thesis using assms(3) by (auto simp: entry_unlink_def Let_def)
qed

lemma entry_unlink_bag:
  assumes "cache_inv c" and "b < 512" and "mc_buckets c ! b = xs @ e # ys"
  shows "cache_bag c = add_mset e (cache_bag (entry_unlink c b (length xs)))"
proof -
  have "mset (concat ((mc_buckets c)[b := xs @ ys])) + mset (xs @ e # ys) =
      mset (concat (mc_buckets c)) + mset (xs @ ys)"
    using mset_concat_update [of b "mc_buckets c" "xs @ ys"] assms by (simp add: cache_inv_def)
  then show ?thesis
    by (simp add: cache_bag_def entry_unlink_buckets [OF assms] ac_simps)
qed

lemma entry_unlink_sums:
  assumes "mc_buckets c ! b = xs @ e # ys"
  shows "mc_count (entry_unlink c b (length xs)) = mc_count c - 1"
    and "mc_bytes (entry_unlink c b (length xs)) = mc_bytes c - ce_bytes e"
  using assms by (simp_all add: entry_unlink_def Let_def)

lemma entry_unlink_inv:
  assumes "cache_inv c" and "b < 512" and "mc_buckets c ! b = xs @ e # ys"
  shows "cache_inv (entry_unlink c b (length xs))"
proof -
  let ?c = "entry_unlink c b (length xs)"
  note bag = entry_unlink_bag [OF assms]
  have "chain_ok b (xs @ ys)" using assms chain_ok_delete by (auto simp: cache_inv_def)
  then have "chain_ok b' (mc_buckets ?c ! b')" if "b' < 512" for b'
    using assms(1) that unfolding entry_unlink_buckets [OF assms] cache_inv_def by (cases "b' = b") auto
  moreover have "mc_count ?c = size (cache_bag ?c)" "mc_bytes ?c = (\<Sum>e\<in>#cache_bag ?c. ce_bytes e)"
    using assms(1) bag entry_unlink_sums [of c b xs e ys, OF assms(3)] by (simp_all add: cache_inv_def)
  ultimately show ?thesis
    using assms(1) entry_unlink_buckets [OF assms] by (simp add: cache_inv_def)
qed

lemma entry_unlink_frame [simp]:
  "mc_max_entries (entry_unlink c b i) = mc_max_entries c" "mc_max_bytes (entry_unlink c b i) = mc_max_bytes c"
  "mc_hits (entry_unlink c b i) = mc_hits c" "mc_misses (entry_unlink c b i) = mc_misses c"
  "mc_default_ttl_ms (entry_unlink c b i) = mc_default_ttl_ms c" "mc_threshold (entry_unlink c b i) = mc_threshold c"
  "mc_seq (entry_unlink c b i) = mc_seq c"
  by (simp_all add: entry_unlink_def Let_def)

lemma pos_ok_split:
  assumes "pos_ok c (b, i)"
  shows "b < 512 \<and> mc_buckets c ! b = take i (mc_buckets c ! b) @ entry_at c (b, i) # drop (Suc i) (mc_buckets c ! b) \<and>
    i = length (take i (mc_buckets c ! b))"
  using assms by (simp add: pos_ok_def id_take_nth_drop [symmetric])

lemma unlink_pos:
  assumes "cache_inv c" and "pos_ok c (b, i)"
  shows "cache_inv (entry_unlink c b i)"
    and "cache_bag c = add_mset (entry_at c (b, i)) (cache_bag (entry_unlink c b i))"
  using entry_unlink_inv [OF assms(1), of b] entry_unlink_bag [OF assms(1), of b] pos_ok_split [OF assms(2)]
  by metis+

section \<open>Eviction\<close>

lemma expire_chain_spec:
  "cache_inv c \<Longrightarrow> b < 512 \<Longrightarrow> mc_buckets c ! b = xs @ es \<Longrightarrow>
   cache_inv (expire_chain now b (length xs) es c) \<and>
   mc_buckets (expire_chain now b (length xs) es c) =
     (mc_buckets c)[b := xs @ filter (\<lambda>e. \<not> entry_expired e now) es] \<and>
   mc_max_entries (expire_chain now b (length xs) es c) = mc_max_entries c \<and>
   mc_max_bytes (expire_chain now b (length xs) es c) = mc_max_bytes c"
proof (induction es arbitrary: c xs)
  case Nil
  then show ?case by (metis append_Nil2 expire_chain.simps(1) filter.simps(1) list_update_id)
next
  case (Cons e es)
  show ?case
  proof (cases "entry_expired e now")
    case True
    let ?c = "entry_unlink c b (length xs)"
    have "mc_buckets ?c = (mc_buckets c)[b := xs @ es]"
      by (rule entry_unlink_buckets [OF Cons.prems])
    then have "mc_buckets ?c ! b = xs @ es" using Cons.prems by (simp add: cache_inv_def)
    with Cons.IH [OF entry_unlink_inv [OF Cons.prems] Cons.prems(2)] True
      \<open>mc_buckets ?c = (mc_buckets c)[b := xs @ es]\<close>
    show ?thesis by simp
  next
    case False
    with Cons.IH [OF Cons.prems(1,2), of "xs @ [e]"] Cons.prems(3) show ?thesis by simp
  qed
qed

lemma expire_fold:
  assumes "cache_inv c" and "n \<le> 512"
  shows "let c' = fold (\<lambda>b c. expire_chain now b 0 (mc_buckets c ! b) c) [0..<n] c
    in cache_inv c' \<and> mc_max_entries c' = mc_max_entries c \<and> mc_max_bytes c' = mc_max_bytes c \<and>
      mc_buckets c' = map (filter (\<lambda>e. \<not> entry_expired e now)) (take n (mc_buckets c)) @ drop n (mc_buckets c)"
  using assms(2)
proof (induction n)
  case 0
  then show ?case using assms(1) by simp
next
  case (Suc n)
  define c' where "c' = fold (\<lambda>b c. expire_chain now b 0 (mc_buckets c ! b) c) [0..<n] c"
  have len: "length (mc_buckets c) = 512" using assms(1) by (simp add: cache_inv_def)
  have ih: "cache_inv c'" "mc_max_entries c' = mc_max_entries c" "mc_max_bytes c' = mc_max_bytes c"
    "mc_buckets c' = map (filter (\<lambda>e. \<not> entry_expired e now)) (take n (mc_buckets c)) @ drop n (mc_buckets c)"
    using Suc by (simp_all add: c'_def Let_def)
  have nth: "mc_buckets c' ! n = mc_buckets c ! n" using ih(4) len Suc.prems by (simp add: nth_append)
  have "mc_buckets c' = map (filter (\<lambda>e. \<not> entry_expired e now)) (take n (mc_buckets c)) @
      mc_buckets c ! n # drop (Suc n) (mc_buckets c)"
    using ih(4) len Suc.prems by (simp add: Cons_nth_drop_Suc)
  then have "(mc_buckets c')[n := filter (\<lambda>e. \<not> entry_expired e now) (mc_buckets c ! n)] =
      map (filter (\<lambda>e. \<not> entry_expired e now)) (take (Suc n) (mc_buckets c)) @ drop (Suc n) (mc_buckets c)"
    using len Suc.prems by (simp add: list_update_append take_Suc_conv_app_nth)
  with expire_chain_spec [OF ih(1), of n "[]" "mc_buckets c ! n" now] nth Suc.prems ih(2,3)
  show ?case by (simp add: c'_def [symmetric] Let_def)
qed

lemma expire_all_spec:
  assumes "cache_inv c"
  shows "cache_inv (expire_all now c)"
    and "cache_bag (expire_all now c) = filter_mset (\<lambda>e. \<not> entry_expired e now) (cache_bag c)"
    and "mc_max_entries (expire_all now c) = mc_max_entries c" and "mc_max_bytes (expire_all now c) = mc_max_bytes c"
proof -
  have len: "length (mc_buckets c) = 512" using assms by (simp add: cache_inv_def)
  note f = expire_fold [OF assms order_refl, of now, folded CACHE_HASH_BUCKETS_def expire_all_def, unfolded Let_def]
  show "cache_inv (expire_all now c)" "mc_max_entries (expire_all now c) = mc_max_entries c"
    "mc_max_bytes (expire_all now c) = mc_max_bytes c"
    using f by blast+
  have "mc_buckets (expire_all now c) = map (filter (\<lambda>e. \<not> entry_expired e now)) (mc_buckets c)"
    using f len by (simp add: CACHE_HASH_BUCKETS_def)
  then show "cache_bag (expire_all now c) = filter_mset (\<lambda>e. \<not> entry_expired e now) (cache_bag c)"
    by (simp add: cache_bag_def filter_concat [symmetric])
qed

text \<open>The order by which the scan picks its victim.\<close>

lemma colder_trans: "entry_colder a b \<Longrightarrow> \<not> entry_colder c b \<Longrightarrow> \<not> entry_colder c a"
  by (auto simp: entry_colder_def)

lemma colder_irrefl: "\<not> entry_colder a a"
  by (simp add: entry_colder_def)

lemma lru_fold:
  "fold (lru_pick c) ps v = w \<Longrightarrow>
   (case v of None \<Rightarrow> True | Some p \<Rightarrow> set qs \<subseteq> {q. \<not> entry_colder (entry_at c q) (entry_at c p)} \<and> p \<in> set qs) \<Longrightarrow>
   (v = None \<Longrightarrow> qs = []) \<Longrightarrow>
   (case w of None \<Rightarrow> qs @ ps = []
    | Some p \<Rightarrow> set (qs @ ps) \<subseteq> {q. \<not> entry_colder (entry_at c q) (entry_at c p)} \<and> p \<in> set (qs @ ps))"
proof (induction ps arbitrary: v qs)
  case Nil
  then show ?case by (cases v) auto
next
  case (Cons p ps)
  have "case w of None \<Rightarrow> (qs @ [p]) @ ps = []
    | Some r \<Rightarrow> set ((qs @ [p]) @ ps) \<subseteq> {q. \<not> entry_colder (entry_at c q) (entry_at c r)} \<and> r \<in> set ((qs @ [p]) @ ps)"
  proof (rule Cons.IH [of "lru_pick c p v"])
    show "fold (lru_pick c) ps (lru_pick c p v) = w" using Cons.prems(1) by simp
    show "case lru_pick c p v of None \<Rightarrow> True
      | Some r \<Rightarrow> set (qs @ [p]) \<subseteq> {q. \<not> entry_colder (entry_at c q) (entry_at c r)} \<and> r \<in> set (qs @ [p])"
      using Cons.prems(2,3) by (cases v) (auto simp: lru_pick_def colder_irrefl dest: colder_trans)
    show "lru_pick c p v = None \<Longrightarrow> qs @ [p] = []" by (simp add: lru_pick_def split: option.splits if_splits)
  qed
  then show ?case by (cases w) auto
qed

lemma lru_victim_spec:
  "case lru_victim c of None \<Rightarrow> positions c = []
   | Some p \<Rightarrow> pos_ok c p \<and> (\<forall>q. pos_ok c q \<longrightarrow> \<not> entry_colder (entry_at c q) (entry_at c p))"
  using lru_fold [of c "positions c" None "lru_victim c" "[]"] set_positions [of c]
  by (cases "lru_victim c") (auto simp: lru_victim_def)

text \<open>\<open>M'\<close> is what is left of \<open>M\<close> when no survivor is colder than an entry that was removed.\<close>

definition sheds_coldest :: "cache_entry multiset \<Rightarrow> cache_entry multiset \<Rightarrow> bool" where
  "sheds_coldest M M' \<longleftrightarrow> M' \<subseteq># M \<and> (\<forall>e f. e \<in># M - M' \<longrightarrow> f \<in># M' \<longrightarrow> \<not> entry_colder f e)"

lemma sheds_coldest_refl: "sheds_coldest M M"
  by (simp add: sheds_coldest_def)

lemma sheds_coldest_step:
  assumes "sheds_coldest M M'" and "\<And>f. f \<in># M \<Longrightarrow> \<not> entry_colder f v"
  shows "sheds_coldest (add_mset v M) M'"
proof -
  have sub: "M' \<subseteq># M" using assms(1) by (simp add: sheds_coldest_def)
  then have "add_mset v M - M' = add_mset v (M - M')" 
    using multiset_diff_union_assoc [of M' M "{#v#}"] by simp
  with assms sub show ?thesis
    by (auto simp: sheds_coldest_def dest: mset_subset_eqD intro: subset_mset.order_trans)
qed

lemma empty_not_over: "cache_inv c \<Longrightarrow> positions c = [] \<Longrightarrow> \<not> cache_over c"
  using length_positions [of c] by (auto simp: cache_inv_def cache_over_def)

lemma lru_loop_spec:
  "cache_inv c \<Longrightarrow> length (positions c) \<le> n \<Longrightarrow>
   cache_inv (lru_loop n c) \<and> \<not> cache_over (lru_loop n c) \<and> sheds_coldest (cache_bag c) (cache_bag (lru_loop n c)) \<and>
   mc_max_entries (lru_loop n c) = mc_max_entries c \<and> mc_max_bytes (lru_loop n c) = mc_max_bytes c"
proof (induction n arbitrary: c)
  case 0
  then show ?case using empty_not_over by (simp add: sheds_coldest_refl)
next
  case (Suc n)
  show ?case
  proof (cases "cache_over c")
    case False
    then show ?thesis using Suc.prems by (simp add: sheds_coldest_refl)
  next
    case True
    then obtain b i where v: "lru_victim c = Some (b, i)"
      using empty_not_over [OF Suc.prems(1)] lru_victim_spec [of c] by (cases "lru_victim c") auto
    then have ok: "pos_ok c (b, i)" and cold: "\<And>q. pos_ok c q \<Longrightarrow> \<not> entry_colder (entry_at c q) (entry_at c (b, i))"
      using lru_victim_spec [of c] by simp_all
    let ?c = "entry_unlink c b i"
    note u = unlink_pos [OF Suc.prems(1) ok]
    have len: "length (mc_buckets c) = 512" "length (mc_buckets ?c) = 512"
      using Suc.prems(1) u(1) by (simp_all add: cache_inv_def)
    have "length (positions ?c) \<le> n"
      using Suc.prems(2) u(2) length_positions [OF len(1)] length_positions [OF len(2)] by simp
    note ih = Suc.IH [OF u(1) this]
    have colder: "\<not> entry_colder f (entry_at c (b, i))" if "f \<in># cache_bag ?c" for f
    proof -
      have "f \<in># cache_bag c" using that u(2) by simp
      then obtain q where q: "pos_ok c q \<and> entry_at c q = f"
        using bag_mem_pos [OF len(1), of f] by (simp del: split_paired_Ex) (erule exE)
      then show ?thesis using cold [of q] by simp
    qed
    have "sheds_coldest (add_mset (entry_at c (b, i)) (cache_bag ?c)) (cache_bag (lru_loop n ?c))"
    proof (rule sheds_coldest_step)
      show "sheds_coldest (cache_bag ?c) (cache_bag (lru_loop n ?c))" using ih by simp
    qed (rule colder)
    then have "sheds_coldest (cache_bag c) (cache_bag (lru_loop n ?c))" by (simp only: u(2) [symmetric])
    with ih True v show ?thesis by simp
  qed
qed

lemma cache_evict_spec:
  assumes "cache_inv c"
  shows "cache_inv (cache_evict now c) \<and> \<not> cache_over (cache_evict now c) \<and>
    sheds_coldest (filter_mset (\<lambda>e. \<not> entry_expired e now) (cache_bag c)) (cache_bag (cache_evict now c)) \<and>
    mc_max_entries (cache_evict now c) = mc_max_entries c \<and> mc_max_bytes (cache_evict now c) = mc_max_bytes c"
  using lru_loop_spec [OF expire_all_spec(1) [OF assms] order_refl, of now] expire_all_spec [OF assms, of now]
  by (simp add: cache_evict_def Let_def)

text \<open>When what is not expired fits, eviction removes nothing else.\<close>

lemma cache_evict_fits:
  assumes "cache_inv c" and "\<not> cache_over (expire_all now c)"
  shows "cache_bag (cache_evict now c) = filter_mset (\<lambda>e. \<not> entry_expired e now) (cache_bag c)"
proof -
  have "lru_loop n (expire_all now c) = expire_all now c" for n using assms(2) by (cases n) simp_all
  then show ?thesis using expire_all_spec(2) [OF assms(1)] by (simp add: cache_evict_def Let_def)
qed

text \<open>
  The eviction pass. From any well-formed table it ends with both limits respected; the entries
  left are unexpired, and no entry left was used less, or as often but longer ago, than an unexpired
  entry that was removed. The loop is run with as many rounds as there are entries, which is enough.
\<close>

theorem cache_evict_law:
  assumes "cache_inv c"
  shows "mc_count (cache_evict now c) \<le> mc_max_entries c \<and>
    (0 < mc_max_bytes c \<longrightarrow> mc_bytes (cache_evict now c) \<le> mc_max_bytes c) \<and>
    cache_bag (cache_evict now c) \<subseteq># filter_mset (\<lambda>e. \<not> entry_expired e now) (cache_bag c) \<and>
    (\<forall>e f. e \<in># filter_mset (\<lambda>e. \<not> entry_expired e now) (cache_bag c) - cache_bag (cache_evict now c) \<longrightarrow>
       f \<in># cache_bag (cache_evict now c) \<longrightarrow> \<not> entry_colder f e)"
  using cache_evict_spec [OF assms, of now] unfolding cache_over_def sheds_coldest_def by auto

definition example_entry :: "string \<Rightarrow> cache_entry" where
  "example_entry key =
     \<lparr>ce_cache_id = ''id'', ce_exact_key = key, ce_text = ''q'', ce_response = ''r'', ce_model_id = ''m'',
      ce_created_at = 0, ce_ttl_ms = 0, ce_last_access = 5, ce_access_count = 1, ce_bytes = 3\<rparr>"

definition example_cache :: mem_cache where
  "example_cache = cache_insert (mem_cache_create 1 0 0 0) (example_entry ''k'')"

lemma create_inv: "cache_inv (mem_cache_create n b t s)"
  by (auto simp: cache_inv_def mem_cache_create_def CACHE_HASH_BUCKETS_def chain_ok_def cache_bag_def
      concat_replicate_trivial)

lemma cache_insert_inv:
  assumes "cache_inv c" and "entry_find_exact c (ce_exact_key e) = None"
  shows "cache_inv (cache_insert c e)" and "cache_bag (cache_insert c e) = add_mset e (cache_bag c)"
proof -
  let ?h = "bucket_of (ce_exact_key e)"
  have len: "length (mc_buckets c) = 512" using assms(1) by (simp add: cache_inv_def)
  have bag: "cache_bag (cache_insert c e) = add_mset e (cache_bag c)"
    using mset_concat_update [of ?h "mc_buckets c" "e # mc_buckets c ! ?h"] len
    by (simp add: cache_bag_def cache_insert_def Let_def)
  have new: "ce_exact_key e \<notin> ce_exact_key ` set (mc_buckets c ! ?h)"
    using assms(2) by (auto simp: entry_find_exact_def find_index_None)
  have "chain_ok ?h (mc_buckets c ! ?h)" using assms(1) by (simp add: cache_inv_def)
  then have "chain_ok ?h (e # mc_buckets c ! ?h)" using new by (simp add: chain_ok_def)
  then have "chain_ok b (mc_buckets (cache_insert c e) ! b)" if "b < 512" for b
    using assms(1) len that by (cases "b = ?h") (auto simp: cache_insert_def Let_def cache_inv_def)
  with assms(1) bag len show "cache_inv (cache_insert c e)"
    by (simp add: cache_inv_def) (simp add: cache_insert_def Let_def)
  show "cache_bag (cache_insert c e) = add_mset e (cache_bag c)" by (rule bag)
qed

lemma create_lookup: "entry_find_exact (mem_cache_create n b t s) key = None"
  using bucket_of_less [of key] by (simp add: entry_find_exact_def mem_cache_create_def CACHE_HASH_BUCKETS_def)

lemma example_cache_inv: "cache_inv example_cache"
  unfolding example_cache_def by (rule cache_insert_inv) (rule create_inv, rule create_lookup)

lemma example_cache_bag: "cache_bag example_cache = {#example_entry ''k''#}"
  unfolding example_cache_def
  by (subst cache_insert_inv(2) [OF create_inv create_lookup])
    (simp add: cache_bag_def mem_cache_create_def concat_replicate_trivial)

section \<open>Lookup\<close>

interpretation ch: keyed_table "map ce_exact_key" "\<lambda>_. True" "\<lambda>es k. find_index (\<lambda>e. ce_exact_key e = k) es"
  by unfold_locales (auto simp: find_index_map_law)

lemma find_exact_pos:
  assumes "entry_find_exact c key = Some i"
  shows "pos_ok c (bucket_of key, i)" and "ce_exact_key (entry_at c (bucket_of key, i)) = key"
  using ch.find_SomeD [of key "mc_buckets c ! bucket_of key" i] assms
  by (auto simp: pos_ok_def entry_find_exact_def)

lemma find_exact_mem:
  assumes "cache_inv c" and "e \<in># cache_bag c"
  shows "\<exists>i. entry_find_exact c (ce_exact_key e) = Some i \<and> mc_buckets c ! bucket_of (ce_exact_key e) ! i = e"
proof -
  obtain b where b: "b < 512" "e \<in> set (mc_buckets c ! b)"
    using assms bag_mem_iff [of c e] by (auto simp: cache_inv_def)
  moreover have ok: "chain_ok b (mc_buckets c ! b)" using assms(1) b(1) by (simp add: cache_inv_def)
  ultimately have h: "bucket_of (ce_exact_key e) = b" by (simp add: chain_ok_def list_all_iff)
  obtain i where i: "i < length (mc_buckets c ! b)" "mc_buckets c ! b ! i = e"
    using b(2) by (auto simp: in_set_conv_nth)
  then have "find_index (\<lambda>f. ce_exact_key f = map ce_exact_key (mc_buckets c ! b) ! i) (mc_buckets c ! b) = Some i"
    using ok by (intro ch.find_nth_distinct) (simp_all add: chain_ok_def)
  with h i show ?thesis by (auto simp: entry_find_exact_def)
qed

lemma find_exact_None:
  assumes "cache_inv c"
  shows "entry_find_exact c key = None \<longleftrightarrow> (\<forall>e. e \<in># cache_bag c \<longrightarrow> ce_exact_key e \<noteq> key)"
proof
  assume none: "entry_find_exact c key = None"
  show "\<forall>e. e \<in># cache_bag c \<longrightarrow> ce_exact_key e \<noteq> key"
  proof (intro allI impI)
    fix e
    assume "e \<in># cache_bag c"
    from find_exact_mem [OF assms this] none show "ce_exact_key e \<noteq> key" by auto
  qed
next
  assume all: "\<forall>e. e \<in># cache_bag c \<longrightarrow> ce_exact_key e \<noteq> key"
  show "entry_find_exact c key = None"
  proof (rule ccontr)
    assume "entry_find_exact c key \<noteq> None"
    then obtain i where i: "entry_find_exact c key = Some i" by auto
    have "entry_at c (bucket_of key, i) \<in># cache_bag c"
      using find_exact_pos(1) [OF i] bag_mem_pos [of c] assms unfolding cache_inv_def by blast
    with all find_exact_pos(2) [OF i] show False by blast
  qed
qed

theorem cache_evict_law_witness:
  "mc_count (cache_evict 9 (cache_insert example_cache (example_entry ''j''))) \<le> 1"
proof -
  have "entry_find_exact example_cache ''j'' = None"
    using find_exact_None [OF example_cache_inv] by (simp add: example_cache_bag example_entry_def)
  then have "cache_inv (cache_insert example_cache (example_entry ''j''))"
    by (intro cache_insert_inv(1) example_cache_inv) (simp add: example_entry_def)
  from cache_evict_law [OF this, of 9] show ?thesis
    by (simp add: cache_insert_def Let_def example_cache_def mem_cache_create_def)
qed

text \<open>What is removed before an entry with the same key is inserted.\<close>

definition put_pre :: "mem_cache \<Rightarrow> string \<Rightarrow> mem_cache" where
  "put_pre c key = (case entry_find_exact c key of None \<Rightarrow> c | Some i \<Rightarrow> cache_unlink c key i)"

lemma put_pre_inv:
  assumes "cache_inv c"
  shows "cache_inv (put_pre c key) \<and> entry_find_exact (put_pre c key) key = None \<and>
    mc_max_entries (put_pre c key) = mc_max_entries c \<and> mc_max_bytes (put_pre c key) = mc_max_bytes c \<and>
    mc_default_ttl_ms (put_pre c key) = mc_default_ttl_ms c"
proof (cases "entry_find_exact c key")
  case None
  then show ?thesis using assms by (simp add: put_pre_def)
next
  case (Some i)
  let ?b = "bucket_of key" and ?c = "entry_unlink c (bucket_of key) i"
  note pos = find_exact_pos [OF Some]
  note sp = pos_ok_split [OF pos(1)]
  have "distinct (map ce_exact_key (mc_buckets c ! ?b))" using assms by (simp add: cache_inv_def chain_ok_def)
  then have "key \<notin> ce_exact_key ` set (take i (mc_buckets c ! ?b) @ drop (Suc i) (mc_buckets c ! ?b))"
    using sp pos(2) by (metis (no_types, lifting) distinct_append list.simps(9) map_append not_distinct_conv_prefix
        Un_iff distinct.simps(2) image_set set_append disjoint_insert(1) list.set(2))
  moreover have "mc_buckets ?c ! ?b = take i (mc_buckets c ! ?b) @ drop (Suc i) (mc_buckets c ! ?b)"
    using entry_unlink_buckets [OF assms, of ?b] sp assms by (metis cache_inv_def nth_list_update_eq)
  ultimately have "entry_find_exact ?c key = None"
    unfolding entry_find_exact_def find_index_None by auto
  then show ?thesis
    using Some unlink_pos(1) [OF assms pos(1)] by (simp add: put_pre_def cache_unlink_def)
qed

section \<open>Operations\<close>

lemma cache_bag_seq [simp]: "cache_bag (c\<lparr>mc_seq := q\<rparr>) = cache_bag c"
  "cache_bag (c\<lparr>mc_misses := n\<rparr>) = cache_bag c"
  by (simp_all add: cache_bag_def)

lemma cache_inv_seq [simp]: "cache_inv (c\<lparr>mc_seq := q\<rparr>) = cache_inv c"
  "cache_inv (c\<lparr>mc_misses := n\<rparr>) = cache_inv c"
  by (simp_all add: cache_inv_def)

lemma find_exact_seq [simp]: "entry_find_exact (c\<lparr>mc_seq := q\<rparr>) key = entry_find_exact c key"
  by (simp add: entry_find_exact_def)

text \<open>The table into which \<open>mem_cache_put\<close> hands over to the eviction pass.\<close>

definition put_mid :: "mem_cache \<Rightarrow> string \<Rightarrow> cache_entry \<Rightarrow> mem_cache" where
  "put_mid c key e = cache_insert ((put_pre c key)\<lparr>mc_seq := mc_seq (put_pre c key) + 1\<rparr>) e"

lemma put_mid_inv:
  assumes "cache_inv c" and "ce_exact_key e = key"
  shows "cache_inv (put_mid c key e)" and "cache_bag (put_mid c key e) = add_mset e (cache_bag (put_pre c key))"
    and "mc_max_entries (put_mid c key e) = mc_max_entries c" and "mc_max_bytes (put_mid c key e) = mc_max_bytes c"
proof -
  let ?c = "(put_pre c key)\<lparr>mc_seq := mc_seq (put_pre c key) + 1\<rparr>"
  have i: "cache_inv ?c" "entry_find_exact ?c (ce_exact_key e) = None"
    using put_pre_inv [OF assms(1), of key] assms(2) by simp_all
  from cache_insert_inv [OF i]
  show "cache_inv (put_mid c key e)" "cache_bag (put_mid c key e) = add_mset e (cache_bag (put_pre c key))"
    by (simp_all add: put_mid_def)
  show "mc_max_entries (put_mid c key e) = mc_max_entries c" "mc_max_bytes (put_mid c key e) = mc_max_bytes c"
    using put_pre_inv [OF assms(1), of key] by (simp_all add: put_mid_def cache_insert_def Let_def)
qed

lemma mem_cache_put_eq:
  "\<exists>cid. mem_cache_put c (Some t) (Some rs) (Some m) ttl t_id t_new t_evict r =
    (let key = cache_key_build t m; e = new_entry (put_pre c key) cid key t rs m ttl t_new;
         c' = cache_evict t_evict (put_mid c key e)
     in (c', if cache_present c' key then PUT_OK cid key else PUT_USE_AFTER_FREE))"
  unfolding mem_cache_put_def Let_def cache_id_gen_def put_mid_def put_pre_def new_entry_def
  by (simp add: case_prod_beta) blast

text \<open>The state between operations: well-formed and within the limits.\<close>

definition cache_ok :: "mem_cache \<Rightarrow> bool" where
  "cache_ok c \<longleftrightarrow> cache_inv c \<and> \<not> cache_over c"

lemma put_ok:
  assumes "cache_ok c"
  shows "cache_ok (fst (mem_cache_put c text response model_id ttl t_id t_new t_evict r))"
proof (cases "text"; cases response; cases model_id)
  fix t rs m
  assume s: "text = Some t" "response = Some rs" "model_id = Some m"
  let ?key = "cache_key_build t m"
  obtain cid where "fst (mem_cache_put c text response model_id ttl t_id t_new t_evict r) =
      cache_evict t_evict (put_mid c ?key (new_entry (put_pre c ?key) cid ?key t rs m ttl t_new))"
    using mem_cache_put_eq [of c t rs m ttl t_id t_new t_evict r] s by (auto simp: Let_def)
  with cache_evict_spec [OF put_mid_inv(1)] assms show ?thesis
    by (simp add: cache_ok_def new_entry_def)
qed (insert assms, simp_all add: mem_cache_put_def)

lemma bag_shrinks_ok:
  assumes "cache_ok c" and "cache_inv c'" and "cache_bag c = add_mset e (cache_bag c')"
    and "mc_max_entries c' = mc_max_entries c" and "mc_max_bytes c' = mc_max_bytes c"
  shows "cache_ok c'"
  using assms by (auto simp: cache_ok_def cache_over_def cache_inv_def)

lemma unlink_ok:
  assumes "cache_ok c" and "pos_ok c (b, i)"
  shows "cache_ok (entry_unlink c b i)"
  using bag_shrinks_ok [OF assms(1), of "entry_unlink c b i"] unlink_pos [of c b i] assms
  by (simp add: cache_ok_def)

lemma bag_swap:
  fixes A :: "'a multiset"
  assumes "A + C = B + D" and "add_mset x D = add_mset y C"
  shows "add_mset x A = add_mset y B"
proof -
  have "add_mset x A + C = B + add_mset x D" using assms(1) by simp
  also have "\<dots> = add_mset y B + C" using assms(2) by simp
  finally show ?thesis by (rule add_right_imp_eq)
qed

lemma cache_hit_ok:
  assumes "cache_ok c" and "pos_ok c p"
  shows "cache_ok (fst (cache_hit c p score now))"
proof -
  let ?e = "(entry_at c p)\<lparr>ce_access_count := ce_access_count (entry_at c p) + 1, ce_last_access := now\<rparr>"
  let ?ch = "mc_buckets c ! fst p" and ?c = "fst (cache_hit c p score now)"
  obtain b i where p: "p = (b, i)" by (cases p)
  have b: "b < 512" "i < length ?ch" using assms(2) p by (simp_all add: pos_ok_def)
  have inv: "cache_inv c" and len: "length (mc_buckets c) = 512" using assms(1) by (simp_all add: cache_ok_def cache_inv_def)
  have bk: "mc_buckets ?c = (mc_buckets c)[b := ?ch[i := ?e]]" by (simp add: cache_hit_def Let_def p)
  have sw: "add_mset (?ch ! i) (mset (?ch[i := ?e])) = add_mset ?e (mset ?ch)"
    using b(2) by (simp add: mset_update)
  have eq: "cache_bag ?c + mset ?ch = cache_bag c + mset (?ch[i := ?e])"
    using mset_concat_update [of b "mc_buckets c" "?ch[i := ?e]"] b(1) len p bk by (simp add: cache_bag_def)
  have bag: "add_mset (?ch ! i) (cache_bag ?c) = add_mset ?e (cache_bag c)" by (rule bag_swap [OF eq sw])
  have "map ce_exact_key (?ch[i := ?e]) = map ce_exact_key ?ch"
    using b(2) p by (simp add: map_update list_update_same_conv)
  moreover have "chain_ok b' es \<longleftrightarrow> list_all (\<lambda>k. bucket_of k = b') (map ce_exact_key es) \<and> distinct (map ce_exact_key es)" for b' es
    by (simp add: chain_ok_def list_all_iff)
  ultimately have "chain_ok b' (mc_buckets ?c ! b')" if "b' < 512" for b'
    using inv that b(1) len p unfolding bk cache_inv_def by (cases "b' = b") auto
  moreover have "size (cache_bag ?c) = size (cache_bag c)" using arg_cong [OF bag, of size] by simp
  moreover have "(\<Sum>e\<in>#cache_bag ?c. ce_bytes e) = (\<Sum>e\<in>#cache_bag c. ce_bytes e)"
    using arg_cong [OF bag, of "\<lambda>M. \<Sum>e\<in>#M. ce_bytes e"] p by simp
  moreover have "mc_count ?c = mc_count c" "mc_bytes ?c = mc_bytes c" "mc_max_entries ?c = mc_max_entries c"
    "mc_max_bytes ?c = mc_max_bytes c"
    by (simp_all add: cache_hit_def Let_def)
  moreover have "length (mc_buckets ?c) = 512" using bk len by simp
  ultimately show ?thesis
    using assms(1) unfolding cache_ok_def cache_inv_def cache_over_def by auto
qed

text \<open>What the semantic pass returns: the best unexpired entry of the model, if it reaches the threshold.\<close>

definition l1_cand :: "mem_cache \<Rightarrow> string \<Rightarrow> 64 word \<Rightarrow> nat \<times> nat \<Rightarrow> bool" where
  "l1_cand c m now p \<longleftrightarrow> ce_model_id (entry_at c p) = m \<and> \<not> entry_expired (entry_at c p) now"

lemma l1_fold:
  assumes "fold (l1_step env c t m now) ps (best0, v0) = (best, v)"
  shows "best0 \<le> best \<and>
    (v = v0 \<and> best = best0 \<or> (\<exists>p. v = Some p \<and> p \<in> set ps \<and> l1_cand c m now p \<and>
       best = semantic_score env t (ce_text (entry_at c p)))) \<and>
    (\<forall>p. p \<in> set ps \<longrightarrow> l1_cand c m now p \<longrightarrow> semantic_score env t (ce_text (entry_at c p)) \<le> best)"
  using assms
proof (induction ps arbitrary: best0 v0)
  case Nil
  then show ?case by simp
next
  case (Cons p ps)
  obtain b1 v1 where s: "l1_step env c t m now p (best0, v0) = (b1, v1)" by (cases "l1_step env c t m now p (best0, v0)")
  then have f: "fold (l1_step env c t m now) ps (b1, v1) = (best, v)" using Cons.prems by simp
  have step: "best0 \<le> b1 \<and> (v1 = v0 \<and> b1 = best0 \<or> v1 = Some p \<and> l1_cand c m now p \<and>
        b1 = semantic_score env t (ce_text (entry_at c p))) \<and>
      (l1_cand c m now p \<longrightarrow> semantic_score env t (ce_text (entry_at c p)) \<le> b1)"
    using s by (auto simp: l1_step_def l1_cand_def Let_def split: if_splits)
  show ?case using Cons.IH [OF f] step by (auto simp del: split_paired_Ex split_paired_All)
qed

lemma cache_l1_spec:
  assumes "cache_l1 env c t m now thr = Some (p, score)"
  shows "pos_ok c p" and "l1_cand c m now p" and "score = semantic_score env t (ce_text (entry_at c p))"
    and "thr \<le> score" and "\<And>q. pos_ok c q \<Longrightarrow> l1_cand c m now q \<Longrightarrow> semantic_score env t (ce_text (entry_at c q)) \<le> score"
proof -
  obtain best v where f: "fold (l1_step env c t m now) (positions c) (0, None) = (best, v)"
    by (cases "fold (l1_step env c t m now) (positions c) (0, None)")
  then have v: "v = Some p" "best = score" "thr \<le> score"
    using assms by (auto simp: cache_l1_def split: option.splits if_splits)
  note l = l1_fold [OF f, unfolded v set_positions]
  show "thr \<le> score" by (rule v)
  show "pos_ok c p" "l1_cand c m now p" "score = semantic_score env t (ce_text (entry_at c p))"
    using l by auto
  show "semantic_score env t (ce_text (entry_at c q)) \<le> score" if "pos_ok c q" "l1_cand c m now q" for q
    using l that by blast
qed

lemma cache_ok_misses [simp]: "cache_ok (c\<lparr>mc_misses := n\<rparr>) = cache_ok c"
  by (simp add: cache_ok_def cache_over_def)

lemma cache_l0_cases:
  assumes "cache_l0 c key now = (c', st)"
  shows "(st = CACHE_MISS \<and> c' = c \<and> entry_find_exact c key = None) \<or>
    (\<exists>i. entry_find_exact c key = Some i \<and> st = CACHE_STALE \<and> c' = entry_unlink c (bucket_of key) i \<and>
       entry_expired (entry_at c (bucket_of key, i)) now) \<or>
    (\<exists>i. entry_find_exact c key = Some i \<and> st = CACHE_FOUND i \<and> c' = c \<and>
       \<not> entry_expired (entry_at c (bucket_of key, i)) now)"
  using assms by (auto simp: cache_l0_def cache_unlink_def split: option.splits if_splits)

lemma get_ok:
  assumes "cache_ok c"
  shows "cache_ok (fst (mem_cache_get env c text model_id threshold now))"
proof (cases "text"; cases model_id)
  fix t m
  assume s: "text = Some t" "model_id = Some m"
  let ?key = "cache_key_build t m"
  obtain c' st where l0: "cache_l0 c ?key now = (c', st)" by (cases "cache_l0 c ?key now")
  show ?thesis
    using cache_l0_cases [OF l0] assms s l0 cache_l1_spec(1) [of env c t m now]
    by (auto simp: mem_cache_get_def Let_def case_prod_beta split: option.split
        intro!: unlink_ok cache_hit_ok find_exact_pos)
qed (insert assms, simp_all add: mem_cache_get_def)

lemma del_ok:
  assumes "cache_ok c"
  shows "cache_ok (fst (mem_cache_del c cid))"
proof -
  have "pos_ok c p" if "find P (positions c) = Some p" for P p
    using that set_positions [of c] by (metis find_Some_iff mem_Collect_eq nth_mem)
  then show ?thesis
    using assms by (auto simp: mem_cache_del_def split: option.split intro: unlink_ok)
qed

text \<open>One call of the interface.\<close>

datatype cache_call =
    Put "string option" "string option" "string option" "64 word" "64 word" "64 word" "64 word" "64 word"
  | Get "string option" "string option" rat "64 word"
  | Del "string option"

fun cache_step :: "cache_env \<Rightarrow> mem_cache \<Rightarrow> cache_call \<Rightarrow> mem_cache" where
  "cache_step env c (Put t rs m ttl t_id t_new t_evict r) = fst (mem_cache_put c t rs m ttl t_id t_new t_evict r)"
| "cache_step env c (Get t m thr now) = fst (mem_cache_get env c t m thr now)"
| "cache_step env c (Del cid) = fst (mem_cache_del c cid)"

interpretation cm: inv_machine "cache_step env" cache_ok for env
proof
  fix c e
  show "cache_ok c \<Longrightarrow> cache_ok (cache_step env c e)"
    by (cases e) (simp_all add: put_ok get_ok del_ok)
qed

lemma create_ok: "cache_ok (mem_cache_create n b t s)"
proof -
  have "mc_count (mem_cache_create n b t s) = 0" "mc_bytes (mem_cache_create n b t s) = 0"
    by (simp_all add: mem_cache_create_def)
  then show ?thesis by (simp add: cache_ok_def create_inv cache_over_def)
qed

text \<open>
  C16. The cache stays well-formed. After any sequence of puts, gets and deletes on a new cache, at any
  clock readings, every entry is in the bucket of its key, no key occurs twice, the counter and the
  byte total are those of the entries (so no subtraction of the code went below zero), and both
  capacity limits hold.
\<close>

theorem cache_run_inv:
  "cache_inv (foldl (cache_step env) (mem_cache_create n b ttl thr) calls) \<and>
   \<not> cache_over (foldl (cache_step env) (mem_cache_create n b ttl thr) calls)"
  using cm.run_inv [OF create_ok] unfolding cache_ok_def by blast

section \<open>What a lookup returns\<close>

lemma entry_at_bag: "cache_inv c \<Longrightarrow> pos_ok c p \<Longrightarrow> entry_at c p \<in># cache_bag c"
  using bag_mem_pos [of c "entry_at c p"] unfolding cache_inv_def by blast

lemma l1_cand_best:
  assumes "cache_inv c" and "cache_l1 env c t m now thr = Some (p, score)" and "f \<in># cache_bag c"
    and "ce_model_id f = m" and "\<not> entry_expired f now"
  shows "semantic_score env t (ce_text f) \<le> score"
proof -
  obtain q where "pos_ok c q \<and> entry_at c q = f"
    using assms(1,3) bag_mem_pos [of c f] unfolding cache_inv_def by blast
  then show ?thesis using cache_l1_spec(5) [OF assms(2), of q] assms(4,5) by (simp add: l1_cand_def)
qed

text \<open>
  A hit is justified. When a lookup reports a hit, the response is that of an unexpired entry of the
  table: either the one under the exact key, with score 1, or an entry of the same model whose
  similarity is the score, at least the threshold and the largest among the unexpired entries of the
  model. A lookup that is not a hit returns nothing.
\<close>

theorem cache_get_sound:
  assumes "cache_ok c" and "mem_cache_get env c (Some t) (Some m) threshold now = (c', rc, out)"
    and "thr = (if 0 < threshold \<and> threshold \<le> 1 then threshold else mc_threshold c)"
  shows "rc = CACHE_SUCCESS \<and> (if co_hit out
    then \<exists>e. e \<in># cache_bag c \<and> \<not> entry_expired e now \<and> co_response out = Some (ce_response e) \<and>
      co_cache_id out = Some (ce_cache_id e) \<and>
      (ce_exact_key e = cache_key_build t m \<and> co_score out = 1 \<or>
       ce_model_id e = m \<and> co_score out = semantic_score env t (ce_text e) \<and> thr \<le> co_score out \<and>
       (\<forall>f. f \<in># cache_bag c \<longrightarrow> ce_model_id f = m \<longrightarrow> \<not> entry_expired f now \<longrightarrow>
          semantic_score env t (ce_text f) \<le> co_score out))
    else out = no_out)"
proof -
  let ?key = "cache_key_build t m"
  have inv: "cache_inv c" using assms(1) by (simp add: cache_ok_def)
  obtain c1 st where l0: "cache_l0 c ?key now = (c1, st)" by (cases "cache_l0 c ?key now")
  show ?thesis
  proof (cases st)
    case (CACHE_FOUND i)
    then have f: "entry_find_exact c ?key = Some i" "c1 = c" "\<not> entry_expired (entry_at c (bucket_of ?key, i)) now"
      using cache_l0_cases [OF l0] by auto
    note pos = find_exact_pos [OF f(1)]
    have out: "rc = CACHE_SUCCESS" "out = snd (cache_hit c (bucket_of ?key, i) 1 now)"
      using assms(2) l0 CACHE_FOUND f(2) by (simp_all add: mem_cache_get_def Let_def case_prod_beta)
    then show ?thesis
      using entry_at_bag [OF inv pos(1)] pos(2) f(3)
      by (auto simp: cache_hit_def Let_def intro!: exI [of _ "entry_at c (bucket_of ?key, i)"])
  next
    case CACHE_STALE
    then have "rc = CACHE_SUCCESS" "out = no_out" using assms(2) l0 by (simp_all add: mem_cache_get_def Let_def)
    then show ?thesis by (simp add: no_out_def)
  next
    case CACHE_MISS
    then have c1: "c1 = c" using cache_l0_cases [OF l0] by auto
    show ?thesis
    proof (cases "cache_l1 env c t m now thr")
      case None
      then have "rc = CACHE_SUCCESS" "out = no_out"
        using assms(2,3) l0 CACHE_MISS c1 by (simp_all add: mem_cache_get_def Let_def)
      then show ?thesis by (simp add: no_out_def)
    next
      case (Some q)
      obtain p score where q: "q = (p, score)" by (cases q)
      note l1 = cache_l1_spec [OF Some [unfolded q]] and best = l1_cand_best [OF inv Some [unfolded q]]
      have out: "rc = CACHE_SUCCESS" "out = snd (cache_hit c p score now)"
        using assms(2,3) l0 CACHE_MISS c1 Some q by (simp_all add: mem_cache_get_def Let_def case_prod_beta)
      then show ?thesis
        using entry_at_bag [OF inv l1(1)] l1(2-4) best
        by (auto simp: cache_hit_def Let_def l1_cand_def intro!: exI [of _ "entry_at c p"])
    qed
  qed
qed

text \<open>The entry that a put leaves under its key.\<close>

lemma put_lookup:
  assumes "cache_ok c"
    and "mem_cache_put c (Some t) (Some rs) (Some m) ttl t_id t_new t_evict r = (c', PUT_OK cid key)"
  shows "key = cache_key_build t m"
    and "\<exists>i. entry_find_exact c' key = Some i \<and>
      entry_at c' (bucket_of key, i) = new_entry c cid key t rs m ttl t_new"
proof -
  let ?key = "cache_key_build t m"
  let ?e = "\<lambda>cid. new_entry (put_pre c ?key) cid ?key t rs m ttl t_new"
  obtain cid' where "mem_cache_put c (Some t) (Some rs) (Some m) ttl t_id t_new t_evict r =
      (let c' = cache_evict t_evict (put_mid c ?key (?e cid'))
       in (c', if cache_present c' ?key then PUT_OK cid' ?key else PUT_USE_AFTER_FREE))"
    using mem_cache_put_eq by (metis (no_types, lifting))
  then have eq: "c' = cache_evict t_evict (put_mid c ?key (?e cid))" "key = ?key" "cache_present c' ?key"
    using assms(2) by (auto simp: Let_def split: if_splits)
  show "key = ?key" by (rule eq)
  have inv: "cache_inv c" using assms(1) by (simp add: cache_ok_def)
  let ?mid = "put_mid c ?key (?e cid)"
  have mid: "cache_inv ?mid" "cache_bag ?mid = add_mset (?e cid) (cache_bag (put_pre c ?key))"
    using put_mid_inv [OF inv, of "?e cid" ?key] by (simp_all add: new_entry_def)
  have ev: "cache_inv c'" "cache_bag c' \<subseteq># cache_bag ?mid"
    using cache_evict_spec [OF mid(1), of t_evict] eq(1)
    by (auto simp: sheds_coldest_def intro: subset_mset.order_trans multiset_filter_subset)
  obtain i where i: "entry_find_exact c' ?key = Some i" using eq(3) by (auto simp: cache_present_def)
  note pos = find_exact_pos [OF i]
  have "entry_at c' (bucket_of ?key, i) \<in># cache_bag ?mid"
    using entry_at_bag [OF ev(1) pos(1)] ev(2) by (rule mset_subset_eqD [rotated])
  moreover have "entry_at c' (bucket_of ?key, i) \<notin># cache_bag (put_pre c ?key)"
    using find_exact_None [of "put_pre c ?key" ?key] put_pre_inv [OF inv, of ?key] pos(2) by auto
  ultimately have "entry_at c' (bucket_of ?key, i) = ?e cid" using mid(2) by simp
  moreover have "?e cid = new_entry c cid ?key t rs m ttl t_new"
    using put_pre_inv [OF inv, of ?key] by (simp add: new_entry_def)
  ultimately show "\<exists>i. entry_find_exact c' key = Some i \<and>
      entry_at c' (bucket_of key, i) = new_entry c cid key t rs m ttl t_new"
    using i eq(2) by auto
qed

lemma put_then_get_key:
  assumes "cache_ok c"
    and "mem_cache_put c (Some t) (Some rs) (Some m) ttl t_id t_new t_evict r = (c', PUT_OK cid key)"
    and "\<not> entry_expired (new_entry c cid key t rs m ttl t_new) now"
    and "cache_key_build t' m' = cache_key_build t m"
  shows "snd (mem_cache_get env c' (Some t') (Some m') thr now) =
    (CACHE_SUCCESS, \<lparr>co_hit = True, co_score = 1, co_cache_id = Some cid, co_response = Some rs\<rparr>)"
proof -
  obtain i where i: "entry_find_exact c' key = Some i"
    "entry_at c' (bucket_of key, i) = new_entry c cid key t rs m ttl t_new"
    using put_lookup(2) [OF assms(1,2)] by blast
  then have "cache_l0 c' key now = (c', CACHE_FOUND i)" using assms(3) by (simp add: cache_l0_def)
  then show ?thesis
    using i(2) put_lookup(1) [OF assms(1,2)] assms(4)
    by (simp add: mem_cache_get_def Let_def cache_hit_def new_entry_def)
qed

text \<open>
  Read your write. When a put reports success, a lookup of the same text and model before the entry
  expires is an exact hit with score 1 that returns the response and the identifier of the put,
  whatever else the eviction pass removed.
\<close>

theorem cache_put_get:
  assumes "cache_ok c"
    and "mem_cache_put c (Some t) (Some rs) (Some m) ttl t_id t_new t_evict r = (c', PUT_OK cid key)"
    and "\<not> entry_expired (new_entry c cid key t rs m ttl t_new) now"
  shows "snd (mem_cache_get env c' (Some t) (Some m) thr now) =
    (CACHE_SUCCESS, \<lparr>co_hit = True, co_score = 1, co_cache_id = Some cid, co_response = Some rs\<rparr>)"
  using put_then_get_key [OF assms] by simp

lemma put_present:
  assumes "cache_ok c" and "key = cache_key_build t m"
    and "\<And>cid. \<not> cache_over (expire_all t_evict (put_mid c key (new_entry (put_pre c key) cid key t rs m ttl t_new)))"
    and "\<And>cid. \<not> entry_expired (new_entry (put_pre c key) cid key t rs m ttl t_new) t_evict"
  shows "\<exists>cid c'. mem_cache_put c (Some t) (Some rs) (Some m) ttl t_id t_new t_evict r = (c', PUT_OK cid key)"
proof -
  have inv: "cache_inv c" using assms(1) by (simp add: cache_ok_def)
  let ?e = "\<lambda>cid. new_entry (put_pre c key) cid key t rs m ttl t_new"
  obtain cid where p: "mem_cache_put c (Some t) (Some rs) (Some m) ttl t_id t_new t_evict r =
      (let c' = cache_evict t_evict (put_mid c key (?e cid))
       in (c', if cache_present c' key then PUT_OK cid key else PUT_USE_AFTER_FREE))"
    using mem_cache_put_eq assms(2) by (metis (no_types, lifting))
  let ?c = "cache_evict t_evict (put_mid c key (?e cid))"
  have mid: "cache_inv (put_mid c key (?e cid))" "?e cid \<in># cache_bag (put_mid c key (?e cid))"
    using put_mid_inv [OF inv, of "?e cid" key] by (simp_all add: new_entry_def)
  have "?e cid \<in># cache_bag ?c" using cache_evict_fits [OF mid(1) assms(3)] mid(2) assms(4) by simp
  moreover have "cache_inv ?c" using cache_evict_spec [OF mid(1)] by blast
  ultimately have "cache_present ?c key"
    using find_exact_mem [of ?c "?e cid"] by (auto simp: cache_present_def new_entry_def)
  with p show ?thesis by (simp add: Let_def)
qed

abbreviation "example_new \<equiv> mem_cache_create 0 0 0 0"

lemma example_put: "\<exists>cid c' key. mem_cache_put example_new (Some ''q'') (Some ''r'') (Some ''m'') 0 1 2 4 3 = (c', PUT_OK cid key)"
proof -
  let ?key = "cache_key_build ''q'' ''m''"
  let ?e = "\<lambda>cid. new_entry (put_pre example_new ?key) cid ?key ''q'' ''r'' ''m'' 0 2"
  have pre: "put_pre example_new ?key = example_new" by (simp add: put_pre_def create_lookup)
  have mid: "cache_inv (put_mid example_new ?key (?e cid))" "cache_bag (put_mid example_new ?key (?e cid)) = {#?e cid#}"
    "mc_max_entries (put_mid example_new ?key (?e cid)) = 4096" "mc_max_bytes (put_mid example_new ?key (?e cid)) = 64 * 1024 * 1024" for cid
    using put_mid_inv [OF create_inv, of "?e cid" ?key 0 0 0 0]
    by (simp_all add: new_entry_def pre) (simp_all add: cache_bag_def mem_cache_create_def
        concat_replicate_trivial DEFAULT_MAX_ENTRIES_def DEFAULT_MAX_BYTES_def)
  have exp: "\<not> entry_expired (?e cid) 4" for cid
    unfolding pre by (simp add: entry_expired_def new_entry_def mem_cache_create_def DEFAULT_TTL_MS_def)
  have "\<not> cache_over (expire_all 4 (put_mid example_new ?key (?e cid)))" for cid
    using expire_all_spec [OF mid(1), of 4 cid] mid(2-4) [of cid] exp [of cid]
    by (simp add: cache_over_def cache_inv_def) (simp add: new_entry_def)
  from put_present [OF create_ok refl this exp] show ?thesis by blast
qed

definition example_cenv :: cache_env where
  "example_cenv = \<lparr>words_scan = (\<lambda>s. [s]), contains_sensitive = (\<lambda>s. False)\<rparr>"

lemma example_fresh: "\<not> entry_expired (new_entry example_new cid key ''q'' ''r'' ''m'' 0 2) 5"
  by (simp add: entry_expired_def new_entry_def mem_cache_create_def DEFAULT_TTL_MS_def)

theorem cache_put_get_witness:
  "co_response (snd (snd (mem_cache_get example_cenv
     (fst (mem_cache_put example_new (Some ''q'') (Some ''r'') (Some ''m'') 0 1 2 4 3))
     (Some ''q'') (Some ''m'') 0 5))) = Some ''r''"
proof -
  obtain cid c' key where p: "mem_cache_put example_new (Some ''q'') (Some ''r'') (Some ''m'') 0 1 2 4 3 = (c', PUT_OK cid key)"
    using example_put by blast
  from cache_put_get [OF create_ok p example_fresh, of example_cenv 0] show ?thesis by (simp add: p)
qed

theorem cache_get_sound_witness:
  "\<exists>e. e \<in># cache_bag (fst (mem_cache_put example_new (Some ''q'') (Some ''r'') (Some ''m'') 0 1 2 4 3)) \<and>
     ce_response e = ''r''"
proof -
  obtain cid c' key where p: "mem_cache_put example_new (Some ''q'') (Some ''r'') (Some ''m'') 0 1 2 4 3 = (c', PUT_OK cid key)"
    using example_put by blast
  obtain c2 rc out where g: "mem_cache_get example_cenv c' (Some ''q'') (Some ''m'') 0 5 = (c2, rc, out)"
    by (cases "mem_cache_get example_cenv c' (Some ''q'') (Some ''m'') 0 5")
  have hit: "co_hit out" "co_response out = Some ''r''"
    using put_then_get_key [OF create_ok p example_fresh refl, of example_cenv 0] g by simp_all
  have "cache_ok c'" using put_ok [OF create_ok, of 0 0 0 0 "Some ''q''" "Some ''r''" "Some ''m''" 0 1 2 4 3] p by simp
  from cache_get_sound [OF this g refl] hit show ?thesis by (auto simp: p)
qed

section \<open>A new entry can be its own victim\<close>

text \<open>When an entry colder than all others joins a bag that has no room, it is the one to go.\<close>

lemma sheds_newcomer:
  assumes "sheds_coldest (add_mset v M) M'" and "size M' \<le> size M" and "\<And>f. f \<in># M \<Longrightarrow> entry_colder v f"
  shows "v \<notin># M'"
proof
  assume "v \<in># M'"
  then obtain C where C: "M' = add_mset v C" by (metis mset_add)
  have sub: "C \<subseteq># M" using assms(1) C by (simp add: sheds_coldest_def)
  have "size C < size M" using assms(2) C by simp
  then have "M - C \<noteq> {#}" using size_Diff_submset [OF sub] by auto
  then obtain f where f: "f \<in># M - C" by auto
  then have "f \<in># add_mset v M - M'" by (simp add: C)
  then have "\<not> entry_colder v f" using assms(1) \<open>v \<in># M'\<close> by (simp add: sheds_coldest_def)
  with assms(3) [of f] f show False by (auto dest: in_diffD)
qed

text \<open>
  A full cache of used entries refuses new ones. When the table is full, nothing in it has expired
  and every entry has been hit at least once, then a put under a new key evicts the very entry it has
  inserted, since a new entry starts with access count 0; and \<open>mem_cache_put\<close> then copies
  \<open>e->cache_id\<close> out of the freed entry.
\<close>

theorem put_evicts_itself:
  assumes "cache_ok c" and "mc_count c = mc_max_entries c" and "entry_find_exact c (cache_key_build t m) = None"
    and "\<forall>e. e \<in># cache_bag c \<longrightarrow> 0 < ce_access_count e \<and> \<not> entry_expired e t_evict"
  shows "snd (mem_cache_put c (Some t) (Some rs) (Some m) ttl t_id t_new t_evict r) = PUT_USE_AFTER_FREE"
proof -
  let ?key = "cache_key_build t m"
  let ?e = "\<lambda>cid. new_entry c cid ?key t rs m ttl t_new"
  have inv: "cache_inv c" using assms(1) by (simp add: cache_ok_def)
  have pre: "put_pre c ?key = c" using assms(3) by (simp add: put_pre_def)
  obtain cid where p: "mem_cache_put c (Some t) (Some rs) (Some m) ttl t_id t_new t_evict r =
      (let c' = cache_evict t_evict (put_mid c ?key (?e cid))
       in (c', if cache_present c' ?key then PUT_OK cid ?key else PUT_USE_AFTER_FREE))"
    using mem_cache_put_eq [of c t rs m ttl t_id t_new t_evict r] pre by (auto simp: Let_def)
  let ?c = "cache_evict t_evict (put_mid c ?key (?e cid))"
  have mid: "cache_inv (put_mid c ?key (?e cid))" "cache_bag (put_mid c ?key (?e cid)) = add_mset (?e cid) (cache_bag c)"
    "mc_max_entries (put_mid c ?key (?e cid)) = mc_max_entries c"
    using put_mid_inv [OF inv, of "?e cid" ?key] pre by (simp_all add: new_entry_def)
  have live: "filter_mset (\<lambda>e. \<not> entry_expired e t_evict) (cache_bag c) = cache_bag c"
    using assms(4) by (simp add: filter_mset_eq_conv)
  let ?M = "filter_mset (\<lambda>e. \<not> entry_expired e t_evict) (cache_bag (put_mid c ?key (?e cid)))"
  note ev = cache_evict_spec [OF mid(1), of t_evict]
  have shed: "sheds_coldest ?M (cache_bag ?c)" using ev by blast
  have size: "size (cache_bag ?c) \<le> size (cache_bag c)"
    using ev mid(3) assms(2) inv by (auto simp: cache_over_def cache_inv_def)
  have gone: "?e cid \<notin># cache_bag ?c"
  proof (cases "entry_expired (?e cid) t_evict")
    case True
    then show ?thesis using shed by (auto simp: sheds_coldest_def dest: mset_subset_eqD)
  next
    case False
    have "?M = add_mset (?e cid) (cache_bag c)" using mid(2) live False by simp
    with shed have "sheds_coldest (add_mset (?e cid) (cache_bag c)) (cache_bag ?c)" by simp
    from sheds_newcomer [OF this size] assms(4) show ?thesis
      by (auto simp: entry_colder_def new_entry_def)
  qed
  have "ce_exact_key e \<noteq> ?key" if "e \<in># cache_bag ?c" for e
  proof -
    have "e \<in># ?M" using that shed by (auto simp: sheds_coldest_def dest: mset_subset_eqD)
    then have "e \<in># add_mset (?e cid) (cache_bag c)" using mid(2) by (metis multiset_filter_subset mset_subset_eqD)
    then have "e \<in># cache_bag c" using gone that by auto
    then show ?thesis using find_exact_None [OF inv, of ?key] assms(3) by auto
  qed
  then have "\<not> cache_present ?c ?key"
    using find_exact_None [of ?c ?key] ev by (simp add: cache_present_def)
  with p show ?thesis by (simp add: Let_def)
qed

theorem put_evicts_itself_witness:
  "snd (mem_cache_put example_cache (Some ''q'') (Some ''r'') (Some ''m'') 0 1 2 3 4) = PUT_USE_AFTER_FREE"
proof (rule put_evicts_itself)
  show "cache_ok example_cache"
    using example_cache_inv example_cache_bag
    by (simp add: cache_ok_def cache_over_def cache_inv_def)
      (simp add: example_cache_def cache_insert_def Let_def mem_cache_create_def DEFAULT_MAX_BYTES_def example_entry_def)
  show "mc_count example_cache = mc_max_entries example_cache"
    by (simp add: example_cache_def cache_insert_def Let_def mem_cache_create_def)
  have "length (cache_key_build ''q'' ''m'') = 64" by (simp add: cache_key_build_def length_sha256_hex)
  then have "cache_key_build ''q'' ''m'' \<noteq> ''k''" by (metis length_Cons list.size(3) num.distinct(1) one_eq_numeral_iff One_nat_def)
  then show "entry_find_exact example_cache (cache_key_build ''q'' ''m'') = None"
    using find_exact_None [OF example_cache_inv, of "cache_key_build ''q'' ''m''"]
    by (auto simp: example_cache_bag example_entry_def)
  show "\<forall>e. e \<in># cache_bag example_cache \<longrightarrow> 0 < ce_access_count e \<and> \<not> entry_expired e 3"
    by (simp add: example_cache_bag example_entry_def entry_expired_def)
qed

text \<open>
  The key of \<open>text|model\<close> does not say where the text ends, so an entry of one model answers the
  lookup of another: a hit that is not of the same model.
\<close>

lemma cross_model_hit:
  assumes "cache_ok c"
    and "mem_cache_put c (Some t) (Some rs) (Some (m1 @ ''|'' @ m2)) ttl t_id t_new t_evict r = (c', PUT_OK cid key)"
    and "\<not> entry_expired (new_entry c cid key t rs (m1 @ ''|'' @ m2) ttl t_new) now"
  shows "co_response (snd (snd (mem_cache_get env c' (Some (t @ ''|'' @ m1)) (Some m2) thr now))) = Some rs"
  using put_then_get_key [OF assms, of "t @ ''|'' @ m1" m2] by (simp add: cache_key_build_def)

text \<open>\<open>cache.h\<close> documents a default TTL of 0 as "never expires"; the constructor replaces it by one hour.\<close>

lemma create_ttl_zero: "mc_default_ttl_ms (mem_cache_create n b 0 s) = 3600000"
  by (simp add: mem_cache_create_def DEFAULT_TTL_MS_def)

section \<open>The similarity score\<close>

lemma inter_card:
  assumes "distinct sa"
  shows "length (filter (\<lambda>t. t \<in> set sb) sa) = card (set sa \<inter> set sb)"
proof -
  have "length (filter (\<lambda>t. t \<in> set sb) sa) = card (set (filter (\<lambda>t. t \<in> set sb) sa))"
    using assms by (intro distinct_card [symmetric]) simp
  also have "set (filter (\<lambda>t. t \<in> set sb) sa) = set sa \<inter> set sb" by auto
  finally show ?thesis .
qed

text \<open>
  The similarity is the documented one on sets of words: when the scanner reports no word twice,
  the score is 0.8 times the Jaccard index of the two word sets plus 0.2 times the length ratio, it is
  symmetric and lies between 0 and 1.
\<close>

theorem semantic_score_sets:
  assumes "distinct (words_scan env a)" and "distinct (words_scan env b)" and "a \<noteq> []" and "b \<noteq> []"
    and "A = set (words_scan env a)" and "B = set (words_scan env b)" and "A \<noteq> {}" and "B \<noteq> {}"
  shows "semantic_score env a b =
      8 / 10 * (of_nat (card (A \<inter> B)) / of_nat (card (A \<union> B))) +
      2 / 10 * (of_nat (min (length a) (length b)) / of_nat (max (length a) (length b))) \<and>
    semantic_score env a b = semantic_score env b a \<and>
    0 \<le> semantic_score env a b \<and> semantic_score env a b \<le> 1"
proof -
  have fin: "finite A" "finite B" using assms(5,6) by auto
  have eq: "semantic_score env x y =
      8 / 10 * (of_nat (card (X \<inter> Y)) / of_nat (card (X \<union> Y))) +
      2 / 10 * (of_nat (min (length x) (length y)) / of_nat (max (length x) (length y)))"
    if "distinct (words_scan env x)" "distinct (words_scan env y)" "x \<noteq> []" "y \<noteq> []"
      "X = set (words_scan env x)" "Y = set (words_scan env y)" "X \<noteq> {}" "Y \<noteq> {}" for x y X Y
  proof -
    have i: "length (filter (\<lambda>t. t \<in> set (words_scan env y)) (words_scan env x)) = card (X \<inter> Y)"
      using inter_card [OF that(1)] that(5,6) by simp
    have "length (words_scan env x) = card X" "length (words_scan env y) = card Y"
      using that by (simp_all add: distinct_card)
    moreover have "card X + card Y = card (X \<union> Y) + card (X \<inter> Y)"
      using that(5,6) by (intro card_Un_Int) simp_all
    ultimately have u: "length (words_scan env x) + length (words_scan env y) - card (X \<inter> Y) = card (X \<union> Y)" by simp
    have "0 < card (X \<union> Y)" using that(5-7) by (simp add: card_gt_0_iff)
    with that i u show ?thesis by (simp add: semantic_score_def Let_def min_def max_def)
  qed
  have e1: "semantic_score env a b = 8 / 10 * (of_nat (card (A \<inter> B)) / of_nat (card (A \<union> B))) +
      2 / 10 * (of_nat (min (length a) (length b)) / of_nat (max (length a) (length b)))"
    by (rule eq [OF assms])
  have e2: "semantic_score env b a = 8 / 10 * (of_nat (card (A \<inter> B)) / of_nat (card (A \<union> B))) +
      2 / 10 * (of_nat (min (length a) (length b)) / of_nat (max (length a) (length b)))"
    using eq [OF assms(2,1,4,3,6,5,8,7)] by (simp add: ac_simps)
  have "card (A \<inter> B) \<le> card (A \<union> B)" using fin by (intro card_mono) auto
  then have j: "of_nat (card (A \<inter> B)) / of_nat (card (A \<union> B)) \<le> (1 :: rat)" by (auto simp: divide_le_eq_1)
  have l: "of_nat (min (length a) (length b)) / of_nat (max (length a) (length b)) \<le> (1 :: rat)"
    using assms(3,4) by (simp add: divide_le_eq_1 min_le_iff_disj le_max_iff_disj less_max_iff_disj)
  show ?thesis unfolding e2 e1 using j l by simp
qed

theorem semantic_score_sets_witness: "semantic_score example_cenv ''a'' ''b'' = 2 / 10"
  using semantic_score_sets [of example_cenv "''a''" "''b''" "{''a''}" "{''b''}"]
  by (simp add: example_cenv_def)

text \<open>With repeated words the intersection is counted with repetition and the score exceeds 1.\<close>

lemma semantic_score_above_one:
  assumes "words_scan env a = [w, w, w]" and "words_scan env b = [w]" and "a \<noteq> []" and "b \<noteq> []"
  shows "1 < semantic_score env a b"
proof -
  have "0 \<le> (2 / 10 :: rat) * (if length a < length b then of_nat (length a) / of_nat (length b)
      else of_nat (length b) / of_nat (length a))" by simp
  then show ?thesis using assms by (simp add: semantic_score_def Let_def)
qed

section \<open>Admission\<close>

abbreviation lower :: "string \<Rightarrow> string" where "lower s \<equiv> map c_tolower s"

lemma agree_ci_prefix: "agree_ci ps ns = length ns \<longleftrightarrow> prefix (lower ns) (lower ps)"
  by (induction ps ns rule: agree_ci.induct) auto

lemma scan_ci_sublist: "needle \<noteq> [] \<Longrightarrow> scan_ci ps needle \<longleftrightarrow> sublist (lower needle) (lower ps)"
  by (induction ps) (auto simp: agree_ci_prefix sublist_Cons_right simp del: agree_ci.simps)

lemma contains_ci_sublist:
  assumes "needle \<noteq> []"
  shows "cache_contains_ci haystack needle \<longleftrightarrow> sublist (lower needle) (lower haystack)"
  using assms scan_ci_sublist [OF assms, of haystack] sublist_length_le [of "lower needle" "lower haystack"]
  by (auto simp: cache_contains_ci_def)

text \<open>
  What the admission check lets in: exactly the non-empty texts in which the sanitizer finds nothing,
  in which no listed path occurs in any mix of upper and lower case, and in which no listed key prefix
  occurs literally.
\<close>

theorem cache_admit_iff:
  "mem_cache_admit env (Some t) \<longleftrightarrow> t \<noteq> [] \<and> \<not> contains_sensitive env t \<and>
     list_all (\<lambda>p. \<not> sublist (map c_tolower p) (map c_tolower t)) CACHE_DENY_PATHS \<and>
     list_all (\<lambda>p. \<not> sublist p t) CACHE_DENY_PREFIXES"
proof -
  have "list_ex (cache_contains_ci t) CACHE_DENY_PATHS \<longleftrightarrow>
      list_ex (\<lambda>p. sublist (lower p) (lower t)) CACHE_DENY_PATHS"
    by (simp add: CACHE_DENY_PATHS_def contains_ci_sublist del: list.map)
  then show ?thesis by (simp add: mem_cache_admit_def list_ex_iff list_all_iff)
qed

end
