(* ===== verification/Mem_Ledger.thy ===== *)
theory Mem_Ledger
  imports Complex_Main "HOL-Library.Sublist" Airy_Prelude
begin

unbundle bit_operations_syntax

text \<open>
  mem_d, the context ledger (\<open>engine/ledger.c\<close>): per session an append-only chain of entries with
  token costs, a budget, and status changes that are themselves recorded as entries.

  A chain is the list of its entries, oldest first; the sessions are in the order of their list,
  newest first. Token counts and the sequence counter are 64-bit words, the numbers of entries and
  sessions natural numbers. The token counter, the clock, \<open>rand\<close> and the address of the ledger
  are parameters; the clock and \<open>rand\<close> are read once per value of the sequence counter, so they
  are functions of it. Whether an allocation succeeds is an argument of each operation. The warning
  ratio is a double in the code and an exact rational here.
\<close>

section \<open>Data\<close>

definition LEDGER_ENTRY_SYSTEM :: int where "LEDGER_ENTRY_SYSTEM = 0"
definition LEDGER_ENTRY_TOOL_DEF :: int where "LEDGER_ENTRY_TOOL_DEF = 1"
definition LEDGER_ENTRY_USER :: int where "LEDGER_ENTRY_USER = 2"
definition LEDGER_ENTRY_TOOL_RESULT :: int where "LEDGER_ENTRY_TOOL_RESULT = 3"
definition LEDGER_ENTRY_ASSISTANT :: int where "LEDGER_ENTRY_ASSISTANT = 4"
definition LEDGER_ENTRY_COMPRESSED :: int where "LEDGER_ENTRY_COMPRESSED = 5"
definition LEDGER_ENTRY_CACHE_HIT :: int where "LEDGER_ENTRY_CACHE_HIT = 6"

definition LEDGER_STATUS_ACTIVE :: int where "LEDGER_STATUS_ACTIVE = 0"
definition LEDGER_STATUS_EVICTED :: int where "LEDGER_STATUS_EVICTED = 1"
definition LEDGER_STATUS_COMPRESSED :: int where "LEDGER_STATUS_COMPRESSED = 2"
definition LEDGER_STATUS_DEDUPED :: int where "LEDGER_STATUS_DEDUPED = 3"

lemmas ledger_codes = LEDGER_ENTRY_SYSTEM_def LEDGER_ENTRY_TOOL_DEF_def LEDGER_ENTRY_USER_def
  LEDGER_ENTRY_TOOL_RESULT_def LEDGER_ENTRY_ASSISTANT_def LEDGER_ENTRY_COMPRESSED_def
  LEDGER_ENTRY_CACHE_HIT_def LEDGER_STATUS_ACTIVE_def LEDGER_STATUS_EVICTED_def
  LEDGER_STATUS_COMPRESSED_def LEDGER_STATUS_DEDUPED_def

definition LEDGER_FAMILY_NAME_MAX :: nat where "LEDGER_FAMILY_NAME_MAX = 16"
definition DEFAULT_BUDGET :: "64 word" where "DEFAULT_BUDGET = 32768"
definition DEFAULT_WARN_RATIO :: rat where "DEFAULT_WARN_RATIO = 8 / 10"
definition MAX_SESSION_ID_LEN :: nat where "MAX_SESSION_ID_LEN = 255"
definition DEFAULT_MAX_SESSIONS :: nat where "DEFAULT_MAX_SESSIONS = 1024"
definition LEDGER_MAX_ENTRIES :: nat where "LEDGER_MAX_ENTRIES = 200000"

datatype ledger_err = LEDGER_INVALID_PARAM | LEDGER_OVERFLOW | LEDGER_OUT_OF_MEMORY | LEDGER_NOT_FOUND

record ledger_entry =
  le_seq :: "64 word"
  le_entry_id :: string
  le_session_id :: string
  le_entry_type :: int
  le_token_in :: "64 word"
  le_token_out :: "64 word"
  le_source :: "string option"
  le_status :: int
  le_created_at :: "64 word"
  le_ref_id :: "string option"

record ledger_session =
  ls_session_id :: string
  ls_entries :: "ledger_entry list"
  ls_entry_count :: nat
  ls_active_tokens :: "64 word"
  ls_budget :: "64 word"

record mem_ledger =
  ml_sessions :: "ledger_session list"
  ml_session_count :: nat
  ml_entry_count :: nat
  ml_total_tokens :: "64 word"
  ml_default_budget :: "64 word"
  ml_warn_ratio :: rat
  ml_max_sessions :: nat
  ml_max_entries :: nat
  ml_token_family :: string
  ml_counter :: string
  ml_seq :: "64 word"

record ledger_entry_in =
  li_entry_type :: int
  li_text :: "string option"
  li_token_in :: "64 word"
  li_token_out :: "64 word"
  li_source :: "string option"
  li_ref_id :: "string option"

record ledger_env =
  lv_count :: "string \<Rightarrow> string \<Rightarrow> 64 word"
  lv_counter_ok :: "string \<Rightarrow> bool"
  lv_default_family :: string
  lv_time_ns :: "64 word \<Rightarrow> 64 word"
  lv_rand :: "64 word \<Rightarrow> 64 word"
  lv_addr :: "64 word"

text \<open>Which allocations of one call succeed; those of an entry by its position in the batch.\<close>

record ledger_alloc =
  la_session :: bool
  la_batch :: bool
  la_entry :: "nat \<Rightarrow> bool"
  la_sid :: "nat \<Rightarrow> bool"
  la_source :: "nat \<Rightarrow> bool"
  la_ref :: "nat \<Rightarrow> bool"

definition la_all :: ledger_alloc where
  "la_all = \<lparr>la_session = True, la_batch = True, la_entry = \<lambda>_. True, la_sid = \<lambda>_. True,
             la_source = \<lambda>_. True, la_ref = \<lambda>_. True\<rparr>"

section \<open>Helpers\<close>

definition id_hex8 :: "nat \<Rightarrow> string" where
  "id_hex8 n = (let s = show_hex n in replicate (8 - length s) (CHR ''0'') @ s)"

text \<open>\<open>seq\<close> is the counter after its increment.\<close>

definition entry_id_gen :: "ledger_env \<Rightarrow> 64 word \<Rightarrow> string" where
  "entry_id_gen env seq =
     (let now = lv_time_ns env seq; r = lv_rand env seq XOR lv_addr env
      in snprintf_s 33 (id_hex8 (unat (now AND mask 32)) @ id_hex8 (unat (drop_bit 32 now)) @
           id_hex8 (unat (r AND mask 32)) @ id_hex8 (unat (seq AND mask 32))))"

definition session_find :: "mem_ledger \<Rightarrow> string \<Rightarrow> nat option" where
  "session_find l sid = find_index (\<lambda>s. ls_session_id s = sid) (ml_sessions l)"

definition active_sum :: "ledger_entry list \<Rightarrow> 64 word" where
  "active_sum es = sum_list (map le_token_in (filter (\<lambda>e. le_status e = LEDGER_STATUS_ACTIVE) es))"

definition session_recalc_active :: "ledger_session \<Rightarrow> ledger_session" where
  "session_recalc_active s = s\<lparr>ls_active_tokens := active_sum (ls_entries s)\<rparr>"

definition entry_find_by_id :: "ledger_session \<Rightarrow> string \<Rightarrow> nat option" where
  "entry_find_by_id s eid = find_index (\<lambda>e. le_entry_id e = eid) (ls_entries s)"

section \<open>Life cycle\<close>

definition mem_ledger_create :: "ledger_env \<Rightarrow> 64 word \<Rightarrow> rat \<Rightarrow> mem_ledger option" where
  "mem_ledger_create env default_budget warn_ratio =
     (let fam = snprintf_s LEDGER_FAMILY_NAME_MAX (lv_default_family env)
      in if \<not> lv_counter_ok env fam then None
         else Some \<lparr>ml_sessions = [], ml_session_count = 0, ml_entry_count = 0, ml_total_tokens = 0,
                    ml_default_budget = (if 0 < default_budget then default_budget else DEFAULT_BUDGET),
                    ml_warn_ratio = (if 0 < warn_ratio \<and> warn_ratio \<le> 1 then warn_ratio
                                     else DEFAULT_WARN_RATIO),
                    ml_max_sessions = DEFAULT_MAX_SESSIONS, ml_max_entries = LEDGER_MAX_ENTRIES,
                    ml_token_family = fam, ml_counter = fam, ml_seq = 0\<rparr>)"

text \<open>\<open>ml_counter\<close> is the name the token counter was created with: the whole name, while the
  stored name is cut to its buffer.\<close>

definition mem_ledger_set_tfam ::
  "ledger_env \<Rightarrow> mem_ledger \<Rightarrow> string option \<Rightarrow> mem_ledger \<times> (ledger_err + unit)" where
  "mem_ledger_set_tfam env l family_name =
     (let name = (case family_name of
                    None \<Rightarrow> lv_default_family env
                  | Some n \<Rightarrow> if n = [] then lv_default_family env else n)
      in if name = ml_token_family l then (l, Inr ())
         else if \<not> lv_counter_ok env name then (l, Inl LEDGER_OUT_OF_MEMORY)
         else (l\<lparr>ml_token_family := snprintf_s LEDGER_FAMILY_NAME_MAX name, ml_counter := name\<rparr>, Inr ()))"

section \<open>Append\<close>

definition append_args_ok :: "mem_ledger \<Rightarrow> string \<Rightarrow> ledger_entry_in list \<Rightarrow> ledger_err option" where
  "append_args_ok l sid ins =
     (if sid = [] \<or> MAX_SESSION_ID_LEN < length sid then Some LEDGER_INVALID_PARAM
      else if ins = [] then None
      else if list_ex (\<lambda>i. li_entry_type i < LEDGER_ENTRY_SYSTEM \<or>
                           LEDGER_ENTRY_CACHE_HIT < li_entry_type i) ins
      then Some LEDGER_INVALID_PARAM
      else if ml_max_entries l < ml_entry_count l + length ins then Some LEDGER_OVERFLOW
      else None)"

text \<open>The session found, by its position, or a fresh one that is not linked yet.\<close>

definition append_session ::
  "ledger_alloc \<Rightarrow> mem_ledger \<Rightarrow> string \<Rightarrow> ledger_err + (nat option \<times> ledger_session)" where
  "append_session al l sid =
     (case session_find l sid of
        Some k \<Rightarrow> Inr (Some k, ml_sessions l ! k)
      | None \<Rightarrow>
          if ml_max_sessions l \<le> ml_session_count l then Inl LEDGER_OVERFLOW
          else if \<not> la_session al then Inl LEDGER_OUT_OF_MEMORY
          else Inr (None, \<lparr>ls_session_id = sid, ls_entries = [], ls_entry_count = 0,
                           ls_active_tokens = 0, ls_budget = ml_default_budget l\<rparr>))"

definition opt_dup :: "bool \<Rightarrow> string option \<Rightarrow> string option" where
  "opt_dup ok s = (if ok then s else None)"

definition append_entry ::
  "ledger_env \<Rightarrow> ledger_alloc \<Rightarrow> string \<Rightarrow> string \<Rightarrow> nat \<Rightarrow> ledger_entry_in \<Rightarrow> 64 word \<Rightarrow> ledger_entry" where
  "append_entry env al fam sid i inp seq =
     \<lparr>le_seq = seq + 2, le_entry_id = entry_id_gen env (seq + 1), le_session_id = sid,
      le_entry_type = li_entry_type inp,
      le_token_in = (if 0 < li_token_in inp then li_token_in inp
                     else case li_text inp of Some t \<Rightarrow> lv_count env fam t | None \<Rightarrow> 0),
      le_token_out = li_token_out inp,
      le_source = opt_dup (la_source al i) (li_source inp),
      le_status = LEDGER_STATUS_ACTIVE, le_created_at = lv_time_ns env (seq + 2),
      le_ref_id = opt_dup (la_ref al i) (li_ref_id inp)\<rparr>"

text \<open>The sequence counter advances by two per entry, and by one when the second allocation fails.\<close>

fun append_fill ::
  "ledger_env \<Rightarrow> ledger_alloc \<Rightarrow> string \<Rightarrow> string \<Rightarrow> nat \<Rightarrow> ledger_entry_in list \<Rightarrow> 64 word \<Rightarrow>
   64 word \<times> (ledger_err + ledger_entry list)" where
  "append_fill env al fam sid i [] seq = (seq, Inr [])"
| "append_fill env al fam sid i (inp # ins) seq =
     (if \<not> la_entry al i then (seq, Inl LEDGER_OUT_OF_MEMORY)
      else if \<not> la_sid al i then (seq + 1, Inl LEDGER_OUT_OF_MEMORY)
      else case append_fill env al fam sid (Suc i) ins (seq + 2) of
             (seq', Inl e) \<Rightarrow> (seq', Inl e)
           | (seq', Inr es) \<Rightarrow> (seq', Inr (append_entry env al fam sid i inp seq # es)))"

definition append_link ::
  "mem_ledger \<Rightarrow> nat option \<times> ledger_session \<Rightarrow> ledger_entry list \<Rightarrow> mem_ledger" where
  "append_link l ks batch =
     (let (k, s) = ks; toks = sum_list (map le_token_in batch);
          s' = s\<lparr>ls_entries := ls_entries s @ batch, ls_entry_count := ls_entry_count s + length batch,
                 ls_active_tokens := ls_active_tokens s + toks\<rparr>
      in l\<lparr>ml_sessions := (if ls_entries s = [] then s' # ml_sessions l
                           else (ml_sessions l)[the k := s']),
           ml_session_count := (if ls_entries s = [] then ml_session_count l + 1 else ml_session_count l),
           ml_entry_count := ml_entry_count l + length batch,
           ml_total_tokens := ml_total_tokens l + toks\<rparr>)"

definition mem_ledger_append ::
  "ledger_env \<Rightarrow> ledger_alloc \<Rightarrow> mem_ledger \<Rightarrow> string \<Rightarrow> ledger_entry_in list \<Rightarrow>
   mem_ledger \<times> (ledger_err + string option)" where
  "mem_ledger_append env al l sid ins =
     (case append_args_ok l sid ins of
        Some e \<Rightarrow> (l, Inl e)
      | None \<Rightarrow>
          if ins = [] then (l, Inr None)
          else case append_session al l sid of
                 Inl e \<Rightarrow> (l, Inl e)
               | Inr ks \<Rightarrow>
                   if \<not> la_batch al then (l, Inl LEDGER_OUT_OF_MEMORY)
                   else case append_fill env al (ml_counter l) sid 0 ins (ml_seq l) of
                          (seq, Inl e) \<Rightarrow> (l\<lparr>ml_seq := seq\<rparr>, Inl e)
                        | (seq, Inr batch) \<Rightarrow>
                            (append_link (l\<lparr>ml_seq := seq\<rparr>) ks batch, Inr (Some (le_entry_id (hd batch)))))"

section \<open>Queries\<close>

text \<open>\<open>vw k\<close> says whether the \<open>k\<close>-th view can be allocated; the copy stops at the first that cannot.\<close>

fun copy_views :: "(nat \<Rightarrow> bool) \<Rightarrow> nat \<Rightarrow> ledger_entry list \<Rightarrow> ledger_entry list" where
  "copy_views vw k [] = []"
| "copy_views vw k (e # es) = (if vw k then e # copy_views vw (Suc k) es else [])"

record ledger_window =
  lw_entries :: "ledger_entry list"
  lw_total_tokens :: "64 word"
  lw_warn :: bool

definition warn_at :: "64 word \<Rightarrow> rat \<Rightarrow> nat" where
  "warn_at budget ratio = nat \<lfloor>of_nat (unat budget) * ratio\<rfloor>"

definition mem_ledger_window :: "(nat \<Rightarrow> bool) \<Rightarrow> mem_ledger \<Rightarrow> string \<Rightarrow> ledger_window" where
  "mem_ledger_window vw l sid =
     (case session_find l sid of
        None \<Rightarrow> \<lparr>lw_entries = [], lw_total_tokens = 0, lw_warn = False\<rparr>
      | Some k \<Rightarrow> (let s = ml_sessions l ! k in
          \<lparr>lw_entries = copy_views vw 0 (filter (\<lambda>e. le_status e = LEDGER_STATUS_ACTIVE) (ls_entries s)),
           lw_total_tokens = ls_active_tokens s,
           lw_warn = (warn_at (ls_budget s) (ml_warn_ratio l) \<le> unat (ls_active_tokens s))\<rparr>))"

text \<open>Used, limit and headroom.\<close>

definition mem_ledger_budget :: "mem_ledger \<Rightarrow> string \<Rightarrow> 64 word \<times> 64 word \<times> 64 word" where
  "mem_ledger_budget l sid =
     (case session_find l sid of
        None \<Rightarrow> (0, ml_default_budget l, ml_default_budget l)
      | Some k \<Rightarrow> (let s = ml_sessions l ! k in
          (ls_active_tokens s, ls_budget s,
           if ls_active_tokens s < ls_budget s then ls_budget s - ls_active_tokens s else 0)))"

definition mem_ledger_history :: "(nat \<Rightarrow> bool) \<Rightarrow> mem_ledger \<Rightarrow> string \<Rightarrow> nat \<Rightarrow> ledger_entry list" where
  "mem_ledger_history vw l sid limit =
     (case session_find l sid of
        None \<Rightarrow> []
      | Some k \<Rightarrow>
          (let es = ls_entries (ml_sessions l ! k);
               n = (if 0 < limit \<and> limit < length es then limit else length es)
           in copy_views vw 0 (drop (length es - n) es)))"

definition mem_ledger_stats :: "mem_ledger \<Rightarrow> nat \<times> nat \<times> 64 word" where
  "mem_ledger_stats l = (ml_session_count l, ml_entry_count l, ml_total_tokens l)"

section \<open>Marking\<close>

definition status_record :: "ledger_env \<Rightarrow> string \<Rightarrow> ledger_entry \<Rightarrow> int \<Rightarrow> 64 word \<Rightarrow> ledger_entry" where
  "status_record env sid e status seq =
     \<lparr>le_seq = seq + 2, le_entry_id = entry_id_gen env (seq + 1), le_session_id = sid,
      le_entry_type = le_entry_type e, le_token_in = 0, le_token_out = 0,
      le_source = Some ''ledger'', le_status = status, le_created_at = lv_time_ns env (seq + 2),
      le_ref_id = Some (le_entry_id e)\<rparr>"

definition mark_one ::
  "ledger_env \<Rightarrow> string \<Rightarrow> int \<Rightarrow> nat \<Rightarrow> mem_ledger \<times> ledger_session \<Rightarrow> mem_ledger \<times> ledger_session" where
  "mark_one env sid status k ls =
     (let (l, s) = ls; e = ls_entries s ! k
      in (l\<lparr>ml_seq := ml_seq l + 2, ml_entry_count := ml_entry_count l + 1\<rparr>,
          s\<lparr>ls_entries := (ls_entries s)[k := e\<lparr>le_status := status\<rparr>] @
                           [status_record env sid e status (ml_seq l)],
            ls_entry_count := ls_entry_count s + 1\<rparr>))"

text \<open>
  The loop over the identifiers: the last component is the number of updates, or nothing when an
  allocation failed. A status record needs its entry (\<open>la_entry\<close>) and three strings (\<open>la_sid\<close>).
\<close>

fun mark_loop ::
  "ledger_env \<Rightarrow> ledger_alloc \<Rightarrow> string \<Rightarrow> int \<Rightarrow> nat \<Rightarrow> string list \<Rightarrow> mem_ledger \<times> ledger_session \<Rightarrow> nat \<Rightarrow>
   (mem_ledger \<times> ledger_session) \<times> nat option" where
  "mark_loop env al sid status i [] ls n = (ls, Some n)"
| "mark_loop env al sid status i (eid # eids) ls n =
     (case entry_find_by_id (snd ls) eid of
        None \<Rightarrow> mark_loop env al sid status (Suc i) eids ls n
      | Some k \<Rightarrow>
          if le_status (ls_entries (snd ls) ! k) = status
          then mark_loop env al sid status (Suc i) eids ls n
          else if \<not> la_entry al i then (ls, None)
          else if \<not> la_sid al i then (((fst ls)\<lparr>ml_seq := ml_seq (fst ls) + 1\<rparr>, snd ls), None)
          else mark_loop env al sid status (Suc i) eids (mark_one env sid status k ls) (n + 1))"

definition mem_ledger_mark ::
  "ledger_env \<Rightarrow> ledger_alloc \<Rightarrow> mem_ledger \<Rightarrow> string \<Rightarrow> string list \<Rightarrow> int \<Rightarrow>
   mem_ledger \<times> (ledger_err + nat)" where
  "mem_ledger_mark env al l sid eids status =
     (if status < LEDGER_STATUS_ACTIVE \<or> LEDGER_STATUS_DEDUPED < status then (l, Inl LEDGER_INVALID_PARAM)
      else case session_find l sid of
             None \<Rightarrow> (l, Inl LEDGER_NOT_FOUND)
           | Some k \<Rightarrow>
               (case mark_loop env al sid status 0 eids (l, ml_sessions l ! k) 0 of
                  ((l', s), None) \<Rightarrow> (l'\<lparr>ml_sessions := (ml_sessions l')[k := s]\<rparr>, Inl LEDGER_OUT_OF_MEMORY)
                | ((l', s), Some n) \<Rightarrow>
                    (l'\<lparr>ml_sessions := (ml_sessions l')[k := session_recalc_active s]\<rparr>, Inr n)))"

section \<open>Lookups\<close>

interpretation lse: keyed_table "\<lambda>l. map ls_session_id (ml_sessions l)" "\<lambda>_. True" session_find
  by unfold_locales (simp_all add: session_find_def find_index_map_law)

interpretation lid: keyed_table "\<lambda>s. map le_entry_id (ls_entries s)" "\<lambda>_. True" entry_find_by_id
  by unfold_locales (simp_all add: entry_find_by_id_def find_index_map_law)

lemma session_find_SomeD:
  "session_find l sid = Some k \<Longrightarrow> k < length (ml_sessions l) \<and> ls_session_id (ml_sessions l ! k) = sid"
  using lse.find_SomeD [of l sid k] by auto

lemma entry_find_SomeD:
  "entry_find_by_id s eid = Some k \<Longrightarrow> k < length (ls_entries s) \<and> le_entry_id (ls_entries s ! k) = eid"
  using lid.find_SomeD [of s eid k] by auto

section \<open>Accounting\<close>

text \<open>
  What the fields of a session and of the ledger count: a session has at least one entry, its
  active tokens are those of its active entries, the ledger's counters are those of its sessions.
\<close>

definition entry_ok :: "string \<Rightarrow> ledger_entry \<Rightarrow> bool" where
  "entry_ok sid e \<longleftrightarrow>
     le_session_id e = sid \<and> le_entry_type e \<in> {LEDGER_ENTRY_SYSTEM..LEDGER_ENTRY_CACHE_HIT} \<and>
     le_status e \<in> {LEDGER_STATUS_ACTIVE..LEDGER_STATUS_DEDUPED}"

definition session_ok :: "ledger_session \<Rightarrow> bool" where
  "session_ok s \<longleftrightarrow>
     ls_entries s \<noteq> [] \<and> list_all (entry_ok (ls_session_id s)) (ls_entries s) \<and>
     ls_entry_count s = length (ls_entries s) \<and> ls_active_tokens s = active_sum (ls_entries s) \<and>
     ls_session_id s \<noteq> [] \<and> length (ls_session_id s) \<le> MAX_SESSION_ID_LEN"

definition ledger_ok :: "mem_ledger \<Rightarrow> bool" where
  "ledger_ok l \<longleftrightarrow>
     list_all session_ok (ml_sessions l) \<and> distinct (map ls_session_id (ml_sessions l)) \<and>
     ml_session_count l = length (ml_sessions l) \<and> ml_session_count l \<le> ml_max_sessions l \<and>
     ml_entry_count l = sum_list (map (length \<circ> ls_entries) (ml_sessions l)) \<and>
     ml_total_tokens l = sum_list (map (\<lambda>s. sum_list (map le_token_in (ls_entries s))) (ml_sessions l))"

lemma ledger_create_ok: "mem_ledger_create env b r = Some l \<Longrightarrow> ledger_ok l"
  by (auto simp: mem_ledger_create_def ledger_ok_def Let_def DEFAULT_MAX_SESSIONS_def split: if_splits)

lemma sum_list_update_diff:
  fixes f :: "'a \<Rightarrow> 'b::ab_group_add"
  shows "k < length xs \<Longrightarrow> sum_list (map f (xs[k := y])) = sum_list (map f xs) - f (xs ! k) + f y"
proof (induction xs arbitrary: k)
  case Nil
  then show ?case by simp
next
  case (Cons x xs)
  then show ?case by (cases k) (simp_all add: algebra_simps)
qed

lemma sum_list_update_nat:
  fixes f :: "'a \<Rightarrow> nat"
  shows "k < length xs \<Longrightarrow> sum_list (map f (xs[k := y])) + f (xs ! k) = sum_list (map f xs) + f y"
proof (induction xs arbitrary: k)
  case Nil
  then show ?case by simp
next
  case (Cons x xs)
  show ?case
  proof (cases k)
    case 0
    then show ?thesis by simp
  next
    case (Suc j)
    with Cons.prems Cons.IH [of j] show ?thesis by simp
  qed
qed

lemma active_sum_append [simp]: "active_sum (xs @ ys) = active_sum xs + active_sum ys"
  by (simp add: active_sum_def)

lemma append_fill_batch:
  assumes "append_fill env al fam sid i ins seq = (seq', Inr es)"
  shows "length es = length ins \<and> seq' = seq + 2 * of_nat (length ins) \<and>
     (\<forall>j<length ins. es ! j = append_entry env al fam sid (i + j) (ins ! j) (seq + 2 * of_nat j))"
  using assms
proof (induction ins arbitrary: i seq seq' es)
  case Nil
  then show ?case by simp
next
  case (Cons inp ins)
  from Cons.prems obtain es' where es: "es = append_entry env al fam sid i inp seq # es'"
    and rec: "append_fill env al fam sid (Suc i) ins (seq + 2) = (seq', Inr es')"
    by (auto split: if_splits prod.splits sum.splits)
  from Cons.IH [OF rec] show ?case
    by (auto simp: es less_Suc_eq_0_disj algebra_simps)
qed

lemma batch_entry_ok:
  assumes "append_fill env al fam sid i ins seq = (seq', Inr es)"
    and "append_args_ok l sid ins = None"
  shows "list_all (entry_ok sid) es \<and> active_sum es = sum_list (map le_token_in es)"
proof -
  note b = append_fill_batch [OF assms(1)]
  have ty: "\<forall>j<length ins. li_entry_type (ins ! j) \<in> {LEDGER_ENTRY_SYSTEM..LEDGER_ENTRY_CACHE_HIT}"
    using assms(2) by (auto simp: append_args_ok_def list_ex_iff not_less split: if_splits)
  have e: "\<forall>j<length es. entry_ok sid (es ! j) \<and> le_status (es ! j) = LEDGER_STATUS_ACTIVE"
    using b ty by (auto simp: append_entry_def entry_ok_def ledger_codes)
  then have "\<forall>x\<in>set es. entry_ok sid x \<and> le_status x = LEDGER_STATUS_ACTIVE"
    by (auto simp: in_set_conv_nth)
  then show ?thesis by (simp add: list_all_iff active_sum_def)
qed

lemma append_cases:
  assumes "mem_ledger_append env al l sid ins = (l', r)"
  obtains (refused) e where "r = Inl e" "\<exists>seq. l' = l\<lparr>ml_seq := seq\<rparr>"
  | (empty) "ins = []" "r = Inr None" "l' = l"
  | (linked) k s seq batch where "append_args_ok l sid ins = None" "ins \<noteq> []"
      "append_session al l sid = Inr (k, s)" "append_fill env al (ml_counter l) sid 0 ins (ml_seq l) = (seq, Inr batch)"
      "l' = append_link (l\<lparr>ml_seq := seq\<rparr>) (k, s) batch" "r = Inr (Some (le_entry_id (hd batch)))"
proof -
  have same: "\<exists>seq. l = l\<lparr>ml_seq := seq\<rparr>" by (rule exI [of _ "ml_seq l"]) simp
  note a = assms [unfolded mem_ledger_append_def]
  show ?thesis
  proof (cases "append_args_ok l sid ins")
    case (Some e)
    with a same show ?thesis by (auto intro: refused)
  next
    case None
    note args = this
    show ?thesis
    proof (cases "ins = []")
      case True
      with a None show ?thesis by (auto intro: empty)
    next
      case False
      show ?thesis
      proof (cases "append_session al l sid")
        case (Inl e)
        with a None False same show ?thesis by (auto intro: refused)
      next
        case (Inr ks)
        obtain k s where ks: "ks = (k, s)" by fastforce
        obtain seq f where f: "append_fill env al (ml_counter l) sid 0 ins (ml_seq l) = (seq, f)" by fastforce
        show ?thesis
        proof (cases "la_batch al")
          case False
          with a None \<open>ins \<noteq> []\<close> Inr same show ?thesis by (auto intro: refused)
        next
          case True
          note b = a [simplified None Inr f, simplified \<open>ins \<noteq> []\<close> True, simplified]
          show ?thesis
          proof (cases f)
            case (Inl e)
            with b \<open>ins \<noteq> []\<close> show ?thesis by (auto intro: refused)
          next
            case (Inr batch)
            with b \<open>ins \<noteq> []\<close> show ?thesis
              using args False f \<open>append_session al l sid = Inr ks\<close> ks by (auto intro: linked)
          qed
        qed
      qed
    qed
  qed
qed

lemma append_session_cases:
  assumes "append_session al l sid = Inr (k, s)"
  obtains (old) i where "k = Some i" "session_find l sid = Some i" "s = ml_sessions l ! i"
  | (new) "k = None" "session_find l sid = None" "ml_session_count l < ml_max_sessions l"
      "s = \<lparr>ls_session_id = sid, ls_entries = [], ls_entry_count = 0, ls_active_tokens = 0,
            ls_budget = ml_default_budget l\<rparr>"
proof (cases "session_find l sid")
  case None
  with assms show ?thesis by (auto simp: append_session_def split: if_splits intro: new)
next
  case (Some i)
  with assms have "k = Some i" "s = ml_sessions l ! i" by (simp_all add: append_session_def)
  with Some show ?thesis by (intro old)
qed

lemma append_keeps_ok:
  assumes "ledger_ok l" and "mem_ledger_append env al l sid ins = (l', r)"
  shows "ledger_ok l'"
  using assms(2)
proof (cases rule: append_cases)
  case refused
  with assms(1) show ?thesis by (auto simp: ledger_ok_def)
next
  case empty
  with assms(1) show ?thesis by simp
next
  case (linked k s seq batch)
  have ne: "batch \<noteq> []" using append_fill_batch [OF linked(4)] linked(2) by auto
  note bo = batch_entry_ok [OF linked(4,1)]
  have sid: "sid \<noteq> []" "length sid \<le> MAX_SESSION_ID_LEN"
    using linked(1) by (auto simp: append_args_ok_def split: if_splits)
  from linked(3) show ?thesis
  proof (cases rule: append_session_cases)
    case (old i)
    from session_find_SomeD [OF old(2)] have i: "i < length (ml_sessions l)" "ls_session_id s = sid"
      by (auto simp: old(3))
    with assms(1) old(3) have so: "session_ok s" by (auto simp: ledger_ok_def list_all_length)
    let ?s = "s\<lparr>ls_entries := ls_entries s @ batch, ls_entry_count := ls_entry_count s + length batch,
                ls_active_tokens := ls_active_tokens s + sum_list (map le_token_in batch)\<rparr>"
    have so': "session_ok ?s" using so bo i by (simp add: session_ok_def)
    have l': "l' = l\<lparr>ml_seq := seq, ml_sessions := (ml_sessions l)[i := ?s],
        ml_entry_count := ml_entry_count l + length batch,
        ml_total_tokens := ml_total_tokens l + sum_list (map le_token_in batch)\<rparr>"
      using so by (simp add: linked(5) append_link_def old(1) session_ok_def Let_def)
    have "sum_list (map (length \<circ> ls_entries) ((ml_sessions l)[i := ?s])) =
        sum_list (map (length \<circ> ls_entries) (ml_sessions l)) + length batch"
      using sum_list_update_nat [OF i(1), of "length \<circ> ls_entries" ?s] old(3) by simp
    moreover have "sum_list (map (\<lambda>s. sum_list (map le_token_in (ls_entries s))) ((ml_sessions l)[i := ?s])) =
        sum_list (map (\<lambda>s. sum_list (map le_token_in (ls_entries s))) (ml_sessions l)) + sum_list (map le_token_in batch)"
      using sum_list_update_diff [OF i(1), of "\<lambda>s. sum_list (map le_token_in (ls_entries s))" ?s] old(3) by simp
    moreover have "map ls_session_id ((ml_sessions l)[i := ?s]) = map ls_session_id (ml_sessions l)"
      using i old(3) by (intro map_update_same) simp_all
    ultimately show ?thesis using assms(1) so' by (simp add: l' ledger_ok_def list_all_update)
  next
    case new
    have "sid \<notin> ls_session_id ` set (ml_sessions l)" using new(2) lse.find_None [where k = sid and t = l] by simp
    then show ?thesis using assms(1) ne bo sid new(3)
      by (simp add: linked(5) append_link_def new(4) ledger_ok_def session_ok_def Let_def)
  qed
qed

lemma mark_loop_inv:
  assumes "mark_loop env al sid status i eids (l, s) n = ((l', s'), r)"
    and "P (l, s)"
    and "\<And>k l s. P (l, s) \<Longrightarrow> k < length (ls_entries s) \<Longrightarrow> P (mark_one env sid status k (l, s))"
    and "\<And>l s. P (l, s) \<Longrightarrow> P (l\<lparr>ml_seq := ml_seq l + 1\<rparr>, s)"
  shows "P (l', s')"
  using assms(1,2)
proof (induction eids arbitrary: i l s n)
  case Nil
  then show ?case by simp
next
  case (Cons eid eids)
  show ?case
  proof (cases "entry_find_by_id s eid")
    case None
    with Cons.prems show ?thesis by (auto intro: Cons.IH)
  next
    case (Some k)
    then have k: "k < length (ls_entries s)" using entry_find_SomeD by blast
    obtain l1 s1 where m: "mark_one env sid status k (l, s) = (l1, s1)" by fastforce
    with assms(3) [OF Cons.prems(2) k] have "P (l1, s1)" by simp
    then show ?thesis
      using Cons.prems Some assms(4) [OF Cons.prems(2)] m
      by (auto split: if_splits intro: Cons.IH)
  qed
qed

text \<open>What a session marked so far satisfies against the session the loop started from.\<close>

definition marked_from :: "mem_ledger \<Rightarrow> ledger_session \<Rightarrow> mem_ledger \<times> ledger_session \<Rightarrow> bool" where
  "marked_from l s ls \<longleftrightarrow>
     fst ls = l\<lparr>ml_entry_count := ml_entry_count (fst ls), ml_seq := ml_seq (fst ls)\<rparr> \<and>
     ml_entry_count (fst ls) + length (ls_entries s) = ml_entry_count l + length (ls_entries (snd ls)) \<and>
     length (ls_entries s) \<le> length (ls_entries (snd ls)) \<and>
     ls_session_id (snd ls) = ls_session_id s \<and> ls_budget (snd ls) = ls_budget s \<and>
     ls_active_tokens (snd ls) = ls_active_tokens s \<and>
     list_all (entry_ok (ls_session_id s)) (ls_entries (snd ls)) \<and>
     ls_entry_count (snd ls) = length (ls_entries (snd ls)) \<and>
     sum_list (map le_token_in (ls_entries (snd ls))) = sum_list (map le_token_in (ls_entries s))"

lemma marked_from_frame:
  assumes "marked_from l0 s0 (l, s)"
  shows "ml_sessions l = ml_sessions l0" "ml_session_count l = ml_session_count l0"
    "ml_max_sessions l = ml_max_sessions l0" "ml_total_tokens l = ml_total_tokens l0"
proof -
  have l: "l = l0\<lparr>ml_entry_count := ml_entry_count l, ml_seq := ml_seq l\<rparr>"
    using assms unfolding marked_from_def fst_conv by blast
  show "ml_sessions l = ml_sessions l0" "ml_session_count l = ml_session_count l0"
    "ml_max_sessions l = ml_max_sessions l0" "ml_total_tokens l = ml_total_tokens l0"
    by (subst l, simp)+
qed

lemma marked_from_start: "session_ok s \<Longrightarrow> marked_from l s (l, s)"
  by (simp add: marked_from_def session_ok_def)

lemma entry_ok_status_record:
  "entry_ok sid e \<Longrightarrow> LEDGER_STATUS_ACTIVE \<le> status \<Longrightarrow> status \<le> LEDGER_STATUS_DEDUPED \<Longrightarrow>
   entry_ok sid (status_record env sid e status seq) \<and> entry_ok sid (e\<lparr>le_status := status\<rparr>)"
  by (simp add: entry_ok_def status_record_def)

lemma marked_from_one:
  assumes "marked_from l0 s0 (l, s)" and "k < length (ls_entries s)"
    and "ls_session_id s0 = sid" "LEDGER_STATUS_ACTIVE \<le> status" "status \<le> LEDGER_STATUS_DEDUPED"
  shows "marked_from l0 s0 (mark_one env sid status k (l, s))"
proof -
  let ?e = "ls_entries s ! k"
  have eo: "entry_ok sid ?e" using assms by (auto simp: marked_from_def list_all_length)
  note sr = entry_ok_status_record [OF eo assms(4,5), of env "ml_seq l"]
  have tk: "map le_token_in ((ls_entries s)[k := ?e\<lparr>le_status := status\<rparr>]) = map le_token_in (ls_entries s)"
    using assms(2) by (intro map_update_same) simp_all
  show ?thesis using assms sr tk
    by (cases l; cases l0) (simp add: marked_from_def mark_one_def Let_def list_all_update status_record_def)
qed

lemma marked_from_seq: "marked_from l0 s0 (l, s) \<Longrightarrow> marked_from l0 s0 (l\<lparr>ml_seq := ml_seq l + 1\<rparr>, s)"
  by (cases l; cases l0) (simp add: marked_from_def)

lemma mark_keeps_ok:
  assumes "ledger_ok l" and "mem_ledger_mark env al l sid eids status = (l', Inr n)"
  shows "ledger_ok l'"
proof -
  from assms(2) obtain k l1 s1 where st: "LEDGER_STATUS_ACTIVE \<le> status" "status \<le> LEDGER_STATUS_DEDUPED"
    and k: "session_find l sid = Some k"
    and m: "mark_loop env al sid status 0 eids (l, ml_sessions l ! k) 0 = ((l1, s1), Some n)"
    and l': "l' = l1\<lparr>ml_sessions := (ml_sessions l1)[k := session_recalc_active s1]\<rparr>"
    by (auto simp: mem_ledger_mark_def not_less split: if_splits option.splits prod.splits)
  let ?s = "ml_sessions l ! k"
  from session_find_SomeD [OF k] have kl: "k < length (ml_sessions l)" "ls_session_id ?s = sid" by auto
  then have so: "session_ok ?s" using assms(1) by (auto simp: ledger_ok_def list_all_length)
  have mf: "marked_from l ?s (l1, s1)"
    using m marked_from_start [OF so]
    by (rule mark_loop_inv) (use kl st in \<open>auto intro: marked_from_one marked_from_seq\<close>)
  note fr = marked_from_frame [OF mf]
  let ?t = "session_recalc_active s1"
  have so': "session_ok ?t" and sl: "ls_entries ?t = ls_entries s1"
    using mf so by (auto simp: session_recalc_active_def session_ok_def marked_from_def)
  have "sum_list (map (length \<circ> ls_entries) ((ml_sessions l)[k := ?t])) =
      sum_list (map (length \<circ> ls_entries) (ml_sessions l)) + (length (ls_entries s1) - length (ls_entries ?s))"
    using sum_list_update_nat [OF kl(1), of "length \<circ> ls_entries" ?t] mf sl by (simp add: marked_from_def)
  moreover have "sum_list (map (\<lambda>s. sum_list (map le_token_in (ls_entries s))) ((ml_sessions l)[k := ?t])) =
      sum_list (map (\<lambda>s. sum_list (map le_token_in (ls_entries s))) (ml_sessions l))"
    using sum_list_update_diff [OF kl(1), of "\<lambda>s. sum_list (map le_token_in (ls_entries s))" ?t] mf sl
    by (simp add: marked_from_def)
  moreover have "map ls_session_id ((ml_sessions l)[k := ?t]) = map ls_session_id (ml_sessions l)"
    using kl mf by (intro map_update_same) (simp_all add: session_recalc_active_def marked_from_def)
  moreover have "ml_entry_count l1 = ml_entry_count l + (length (ls_entries s1) - length (ls_entries ?s))"
    using mf unfolding marked_from_def fst_conv snd_conv by linarith
  ultimately show ?thesis using assms(1) so' by (simp add: l' ledger_ok_def list_all_update fr)
qed

section \<open>Runs\<close>

datatype ledger_ev =
    LAppend ledger_alloc string "ledger_entry_in list"
  | LMark ledger_alloc string "string list" int
  | LFamily "string option"

fun ledger_step :: "ledger_env \<Rightarrow> mem_ledger \<Rightarrow> ledger_ev \<Rightarrow> mem_ledger" where
  "ledger_step env l (LAppend al sid ins) = fst (mem_ledger_append env al l sid ins)"
| "ledger_step env l (LMark al sid eids status) = fst (mem_ledger_mark env al l sid eids status)"
| "ledger_step env l (LFamily f) = fst (mem_ledger_set_tfam env l f)"

text \<open>No allocation fails in the middle of a marking.\<close>

definition mark_memory_ok :: "ledger_ev \<Rightarrow> bool" where
  "mark_memory_ok e \<longleftrightarrow> (\<forall>al sid eids st. e = LMark al sid eids st \<longrightarrow> la_entry al = (\<lambda>_. True) \<and> la_sid al = (\<lambda>_. True))"

lemma mark_loop_Some:
  "la_entry al = (\<lambda>_. True) \<Longrightarrow> la_sid al = (\<lambda>_. True) \<Longrightarrow>
   \<exists>ls' m. mark_loop env al sid status i eids ls n = (ls', Some m)"
  by (induction eids arbitrary: i ls n) (auto split: option.split)

lemma ledger_step_ok:
  assumes "ledger_ok l" and "mark_memory_ok e"
  shows "ledger_ok (ledger_step env l e)"
proof (cases e)
  case (LAppend al sid ins)
  then show ?thesis using append_keeps_ok [OF assms(1)] by (metis ledger_step.simps(1) prod.collapse)
next
  case (LMark al sid eids status)
  with assms(2) have al: "la_entry al = (\<lambda>_. True)" "la_sid al = (\<lambda>_. True)" by (auto simp: mark_memory_ok_def)
  obtain l' r where m: "mem_ledger_mark env al l sid eids status = (l', r)" by fastforce
  show ?thesis
  proof (cases r)
    case (Inl err)
    have "l' = l" using m Inl mark_loop_Some [OF al]
      by (auto simp: mem_ledger_mark_def split: if_splits option.splits prod.splits) (metis option.distinct(1) snd_conv)
    then show ?thesis using LMark m assms(1) by simp
  next
    case (Inr n)
    with mark_keeps_ok [OF assms(1)] m LMark show ?thesis by simp
  qed
next
  case (LFamily f)
  then show ?thesis using assms(1) by (auto simp: mem_ledger_set_tfam_def ledger_ok_def Let_def split: option.split)
qed

interpretation lgr: event_machine "ledger_step env" mark_memory_ok ledger_ok for env
  by unfold_locales (rule ledger_step_ok)

section \<open>Append-only\<close>

definition entries_of :: "mem_ledger \<Rightarrow> string \<Rightarrow> ledger_entry list" where
  "entries_of l sid = (case session_find l sid of None \<Rightarrow> [] | Some k \<Rightarrow> ls_entries (ml_sessions l ! k))"

text \<open>An entry without its status, the only field that ever changes.\<close>

definition entry_core :: "ledger_entry \<Rightarrow> ledger_entry" where
  "entry_core e = e\<lparr>le_status := LEDGER_STATUS_ACTIVE\<rparr>"

definition extends :: "mem_ledger \<Rightarrow> mem_ledger \<Rightarrow> bool" where
  "extends l l' \<longleftrightarrow> (\<forall>sid. prefix (map entry_core (entries_of l sid)) (map entry_core (entries_of l' sid)))"

lemma extends_refl: "extends l l"
  by (simp add: extends_def)

lemma entries_of_cong: "ml_sessions l' = ml_sessions l \<Longrightarrow> entries_of l' sid = entries_of l sid"
  by (simp add: entries_of_def session_find_def split: option.split)

lemma extends_same: "ml_sessions l' = ml_sessions l \<Longrightarrow> extends l l'"
  by (simp add: extends_def entries_of_cong [of l' l])

lemma extends_trans: "extends l l' \<Longrightarrow> extends l' l'' \<Longrightarrow> extends l l''"
  by (meson extends_def prefix_order.trans)

lemma session_find_update:
  assumes "k < length (ml_sessions l)" and "ls_session_id s = ls_session_id (ml_sessions l ! k)"
  shows "session_find (l'\<lparr>ml_sessions := (ml_sessions l)[k := s]\<rparr>) sid = session_find l sid"
  by (rule lse.find_cong) (simp add: assms map_update_same)

lemma extends_update:
  assumes "k < length (ml_sessions l)" and "ls_session_id s = ls_session_id (ml_sessions l ! k)"
    and "prefix (map entry_core (ls_entries (ml_sessions l ! k))) (map entry_core (ls_entries s))"
    and "ml_sessions l' = (ml_sessions l)[k := s]"
  shows "extends l l'"
proof -
  have f: "session_find l' sid = session_find l sid" for sid
    using session_find_update [OF assms(1,2), of l' sid] by (simp flip: assms(4))
  have "prefix (map entry_core (entries_of l sid)) (map entry_core (entries_of l' sid))" for sid
  proof (cases "session_find l sid")
    case None
    then show ?thesis by (simp add: entries_of_def)
  next
    case (Some j)
    with session_find_SomeD have "j < length (ml_sessions l)" by blast
    with Some assms show ?thesis by (cases "j = k") (simp_all add: entries_of_def f)
  qed
  then show ?thesis by (simp add: extends_def)
qed

lemma append_extends:
  assumes "ledger_ok l" and "mem_ledger_append env al l sid ins = (l', r)"
  shows "extends l l'"
  using assms(2)
proof (cases rule: append_cases)
  case refused
  then show ?thesis by (auto intro: extends_same)
next
  case empty
  then show ?thesis by (simp add: extends_refl)
next
  case (linked k s seq batch)
  from linked(3) show ?thesis
  proof (cases rule: append_session_cases)
    case (old i)
    from session_find_SomeD [OF old(2)] have i: "i < length (ml_sessions l)" by blast
    moreover from i assms(1) have "ls_entries s \<noteq> []"
      by (auto simp: old(3) ledger_ok_def list_all_length session_ok_def)
    ultimately show ?thesis
      by (intro extends_update [of i]) (auto simp: linked(5) append_link_def old Let_def)
  next
    case new
    have "entries_of l' x = (if x = sid then batch else entries_of l x)" for x
      by (auto simp: entries_of_def session_find_def linked(5) append_link_def new(4) Let_def split: option.split)
    moreover have "entries_of l sid = []" by (simp add: entries_of_def new(2))
    ultimately show ?thesis by (simp add: extends_def)
  qed
qed

lemma mark_extends:
  assumes "mem_ledger_mark env al l sid eids status = (l', r)"
  shows "extends l l'"
proof (cases "l' = l")
  case True
  then show ?thesis by (simp add: extends_refl)
next
  case False
  with assms obtain k l1 s1 r1 where k: "session_find l sid = Some k"
    and m: "mark_loop env al sid status 0 eids (l, ml_sessions l ! k) 0 = ((l1, s1), r1)"
    and l': "l' = l1\<lparr>ml_sessions := (ml_sessions l1)[k := s1]\<rparr> \<or>
             l' = l1\<lparr>ml_sessions := (ml_sessions l1)[k := session_recalc_active s1]\<rparr>"
    by (auto simp: mem_ledger_mark_def split: if_splits option.splits prod.splits)
  let ?s = "ml_sessions l ! k"
  have "ml_sessions l1 = ml_sessions l \<and> ls_session_id s1 = ls_session_id ?s \<and>
      prefix (map entry_core (ls_entries ?s)) (map entry_core (ls_entries s1))"
    using mark_loop_inv [OF m, of "\<lambda>(l1, s1). ml_sessions l1 = ml_sessions l \<and> ls_session_id s1 = ls_session_id ?s \<and>
      prefix (map entry_core (ls_entries ?s)) (map entry_core (ls_entries s1))"]
    by (auto simp: mark_one_def Let_def map_update_same entry_core_def intro: prefix_order.trans)
  note e = this
  from l' obtain t where "ml_sessions l' = (ml_sessions l1)[k := t]" "ls_session_id t = ls_session_id s1"
    "ls_entries t = ls_entries s1" by (auto simp: session_recalc_active_def)
  with e session_find_SomeD [OF k] show ?thesis by (intro extends_update [of k _ t]) auto
qed

lemma family_extends: "extends l (fst (mem_ledger_set_tfam env l f))"
  by (rule extends_same) (simp add: mem_ledger_set_tfam_def Let_def)

lemma step_extends: "ledger_ok l \<Longrightarrow> extends l (ledger_step env l e)"
  by (cases e) (auto intro: append_extends mark_extends family_extends, (metis append_extends mark_extends prod.collapse)+)

interpretation lgx: event_machine "ledger_step env" mark_memory_ok "\<lambda>l. ledger_ok l \<and> extends l0 l" for env l0
  by unfold_locales (auto intro: ledger_step_ok extends_trans step_extends)

lemma copy_views_all [simp]: "copy_views (\<lambda>_. True) k es = es"
  by (induction es arbitrary: k) simp_all

lemma history_all [simp]: "mem_ledger_history (\<lambda>_. True) l sid 0 = entries_of l sid"
  by (simp add: mem_ledger_history_def entries_of_def Let_def split: option.split)

lemma window_active:
  "lw_entries (mem_ledger_window (\<lambda>_. True) l sid) =
   filter (\<lambda>e. le_status e = LEDGER_STATUS_ACTIVE) (entries_of l sid)"
  by (simp add: mem_ledger_window_def entries_of_def Let_def split: option.split)

lemma budget_exact:
  assumes "ledger_ok l"
  shows "fst (mem_ledger_budget l sid) = active_sum (entries_of l sid) \<and>
     lw_total_tokens (mem_ledger_window vw l sid) = active_sum (entries_of l sid)"
proof (cases "session_find l sid")
  case None
  then show ?thesis by (simp add: mem_ledger_budget_def mem_ledger_window_def entries_of_def active_sum_def)
next
  case (Some k)
  with session_find_SomeD have "k < length (ml_sessions l)" by blast
  with assms have "session_ok (ml_sessions l ! k)" by (simp add: ledger_ok_def list_all_length)
  with Some show ?thesis
    by (simp add: mem_ledger_budget_def mem_ledger_window_def entries_of_def session_ok_def Let_def)
qed

definition ex_ledger_env :: ledger_env where
  "ex_ledger_env = \<lparr>lv_count = \<lambda>_ t. of_nat (length t), lv_counter_ok = \<lambda>_. True,
     lv_default_family = ''generic'', lv_time_ns = \<lambda>_. 0, lv_rand = \<lambda>_. 0, lv_addr = 0\<rparr>"

definition ex_in :: "int \<Rightarrow> string \<Rightarrow> ledger_entry_in" where
  "ex_in ty t = \<lparr>li_entry_type = ty, li_text = Some t, li_token_in = 0, li_token_out = 0,
                 li_source = None, li_ref_id = None\<rparr>"

definition ex_ledger0 :: mem_ledger where
  "ex_ledger0 = the (mem_ledger_create ex_ledger_env 0 0)"

text \<open>
  C15. After any history of appends, markings and changes of the token family, in which no
  allocation fails inside a marking, what the ledger reports is exact: the tokens used by a session
  are those of its active entries, which are the entries its window shows, the statistics are the
  number of sessions, of entries and of tokens ever charged, and at most \<open>DEFAULT_MAX_SESSIONS\<close>
  sessions exist.
\<close>

theorem ledger_accounting:
  assumes "mem_ledger_create env b r = Some l0" and "list_all mark_memory_ok es"
  shows "let l = foldl (ledger_step env) l0 es; win = mem_ledger_window (\<lambda>_. True) l sid
     in fst (mem_ledger_budget l sid) = sum_list (map le_token_in (lw_entries win)) \<and>
        lw_total_tokens win = sum_list (map le_token_in (lw_entries win)) \<and>
        lw_entries win = filter (\<lambda>e. le_status e = LEDGER_STATUS_ACTIVE) (mem_ledger_history (\<lambda>_. True) l sid 0) \<and>
        mem_ledger_stats l =
          (length (ml_sessions l), sum_list (map (length \<circ> ls_entries) (ml_sessions l)),
           sum_list (map (\<lambda>s. sum_list (map le_token_in (ls_entries s))) (ml_sessions l))) \<and>
        distinct (map ls_session_id (ml_sessions l)) \<and> length (ml_sessions l) \<le> ml_max_sessions l"
proof -
  have "ledger_ok (foldl (ledger_step env) l0 es)"
    using ledger_create_ok [OF assms(1)] assms(2) by (rule lgr.events_inv)
  note ok = this and b = budget_exact [OF this]
  show ?thesis using ok b [of sid "\<lambda>_. True"]
    by (simp add: Let_def window_active active_sum_def ledger_ok_def mem_ledger_stats_def)
qed

lemma ex_ledger0_created: "mem_ledger_create ex_ledger_env 0 0 = Some ex_ledger0"
  by (simp add: ex_ledger0_def mem_ledger_create_def ex_ledger_env_def Let_def)

lemma ex_id1: "entry_id_gen ex_ledger_env 1 = ''00000000000000000000000000000001''"
  and ex_id3: "entry_id_gen ex_ledger_env 3 = ''00000000000000000000000000000003''"
  and ex_id5: "entry_id_gen ex_ledger_env 5 = ''00000000000000000000000000000005''"
  by code_simp+

lemma ex_env_simps: "lv_count ex_ledger_env f t = of_nat (length t)" "lv_time_ns ex_ledger_env q = 0"
  by (simp_all add: ex_ledger_env_def)

lemma ex_ledger0_eq:
  "ex_ledger0 = \<lparr>ml_sessions = [], ml_session_count = 0, ml_entry_count = 0, ml_total_tokens = 0,
     ml_default_budget = 32768, ml_warn_ratio = 8 / 10, ml_max_sessions = 1024, ml_max_entries = 200000,
     ml_token_family = ''generic'', ml_counter = ''generic'', ml_seq = 0\<rparr>"
  by (simp add: ex_ledger0_def mem_ledger_create_def ex_ledger_env_def Let_def DEFAULT_BUDGET_def
      DEFAULT_WARN_RATIO_def DEFAULT_MAX_SESSIONS_def LEDGER_MAX_ENTRIES_def LEDGER_FAMILY_NAME_MAX_def snprintf_s_def)

lemmas ex_run_defs = ex_ledger0_eq ex_env_simps mem_ledger_append_def append_args_ok_def append_session_def
  session_find_def append_entry_def append_link_def mem_ledger_mark_def mark_one_def status_record_def
  entry_find_by_id_def session_recalc_active_def active_sum_def entries_of_def mem_ledger_budget_def
  la_all_def ex_in_def opt_dup_def Let_def ledger_codes MAX_SESSION_ID_LEN_def

theorem ledger_accounting_witness:
  "let es = [LAppend la_all ''s1'' [ex_in LEDGER_ENTRY_USER ''hello'', ex_in LEDGER_ENTRY_ASSISTANT ''hi''],
             LMark la_all ''s1'' [''00000000000000000000000000000001''] LEDGER_STATUS_EVICTED];
       l = foldl (ledger_step ex_ledger_env) ex_ledger0 es
   in fst (mem_ledger_budget l ''s1'') = 2 \<and> length (mem_ledger_history (\<lambda>_. True) l ''s1'' 0) = 3 \<and>
      fst (mem_ledger_budget l ''s1'') = lw_total_tokens (mem_ledger_window (\<lambda>_. True) l ''s1'')"
proof -
  let ?es = "[LAppend la_all ''s1'' [ex_in LEDGER_ENTRY_USER ''hello'', ex_in LEDGER_ENTRY_ASSISTANT ''hi''],
             LMark la_all ''s1'' [''00000000000000000000000000000001''] LEDGER_STATUS_EVICTED]"
  have "list_all mark_memory_ok ?es" by (simp add: mark_memory_ok_def la_all_def)
  note acc = ledger_accounting [OF ex_ledger0_created this, of "''s1''"]
  have "fst (mem_ledger_budget (foldl (ledger_step ex_ledger_env) ex_ledger0 ?es) ''s1'') = 2"
    "length (entries_of (foldl (ledger_step ex_ledger_env) ex_ledger0 ?es) ''s1'') = 3"
    by (simp_all add: ex_run_defs ex_id1 ex_id3 ex_id5)
  with acc show ?thesis by (simp add: Let_def)
qed

text \<open>
  C29. The ledger is append-only: however a run goes on, the history of every session keeps what it
  had, entry by entry and field by field, the status alone excepted; new entries only follow.
\<close>

theorem ledger_append_only:
  assumes "mem_ledger_create env b r = Some l0" and "list_all mark_memory_ok (es @ es')"
  shows "let l = foldl (ledger_step env) l0 es; l' = foldl (ledger_step env) l0 (es @ es')
     in prefix (map entry_core (mem_ledger_history (\<lambda>_. True) l sid 0))
               (map entry_core (mem_ledger_history (\<lambda>_. True) l' sid 0))"
proof -
  let ?l = "foldl (ledger_step env) l0 es"
  have "ledger_ok ?l" using ledger_create_ok [OF assms(1)] assms(2) by (intro lgr.events_inv) simp_all
  then have "ledger_ok ?l \<and> extends ?l ?l" by (simp add: extends_refl)
  then have "extends ?l (foldl (ledger_step env) ?l es')"
    using assms(2) lgx.events_inv [of ?l ?l es' env] by simp
  then show ?thesis by (simp add: extends_def Let_def)
qed

theorem ledger_append_only_witness:
  "let es = [LAppend la_all ''s1'' [ex_in LEDGER_ENTRY_USER ''hello'']];
       es' = [LMark la_all ''s1'' [''00000000000000000000000000000001''] LEDGER_STATUS_EVICTED];
       l = foldl (ledger_step ex_ledger_env) ex_ledger0 es; l' = foldl (ledger_step ex_ledger_env) ex_ledger0 (es @ es')
   in length (mem_ledger_history (\<lambda>_. True) l ''s1'' 0) = 1 \<and> length (mem_ledger_history (\<lambda>_. True) l' ''s1'' 0) = 2 \<and>
      prefix (map entry_core (mem_ledger_history (\<lambda>_. True) l ''s1'' 0))
             (map entry_core (mem_ledger_history (\<lambda>_. True) l' ''s1'' 0))"
proof -
  let ?es = "[LAppend la_all ''s1'' [ex_in LEDGER_ENTRY_USER ''hello'']]"
  let ?es' = "[LMark la_all ''s1'' [''00000000000000000000000000000001''] LEDGER_STATUS_EVICTED]"
  have "list_all mark_memory_ok (?es @ ?es')" by (simp add: mark_memory_ok_def la_all_def)
  note ao = ledger_append_only [OF ex_ledger0_created this, of "''s1''"]
  have "length (entries_of (foldl (ledger_step ex_ledger_env) ex_ledger0 ?es) ''s1'') = 1"
    "length (entries_of (foldl (ledger_step ex_ledger_env) ex_ledger0 (?es @ ?es')) ''s1'') = 2"
    by (simp_all add: ex_run_defs ex_id1 ex_id3)
  with ao show ?thesis by (simp add: Let_def)
qed

text \<open>What a linked batch does to each session.\<close>

lemma entries_of_link:
  assumes "ledger_ok l" and "append_session al l sid = Inr (k, s)"
  shows "entries_of (append_link (l\<lparr>ml_seq := seq\<rparr>) (k, s) batch) x =
     (if x = sid then entries_of l sid @ batch else entries_of l x)"
  using assms(2)
proof (cases rule: append_session_cases)
  case (old i)
  from session_find_SomeD [OF old(2)] have i: "i < length (ml_sessions l)" "ls_session_id (ml_sessions l ! i) = sid"
    by blast+
  with assms(1) have ne: "ls_entries s \<noteq> []" and d: "distinct (map ls_session_id (ml_sessions l))"
    by (auto simp: old(3) ledger_ok_def list_all_length session_ok_def)
  let ?l = "append_link (l\<lparr>ml_seq := seq\<rparr>) (k, s) batch"
  have f: "session_find ?l x = session_find l x"
    by (rule lse.find_cong) (use ne i in \<open>simp add: append_link_def old Let_def map_update_same\<close>)
  show ?thesis
  proof (cases "session_find l x")
    case None
    then show ?thesis using f old(2) by (auto simp: entries_of_def)
  next
    case (Some j)
    with session_find_SomeD have j: "j < length (ml_sessions l)" "ls_session_id (ml_sessions l ! j) = x" by blast+
    show ?thesis
    proof (cases "x = sid")
      case True
      with Some old(2) have "j = i" by simp
      with Some f ne i True old(2) show ?thesis by (simp add: entries_of_def append_link_def old(1,3) Let_def)
    next
      case False
      with i j have "j \<noteq> i" by blast
      with Some f ne False show ?thesis by (simp add: entries_of_def append_link_def old(1) Let_def)
    qed
  qed
next
  case new
  have "entries_of l sid = []" by (simp add: entries_of_def new(2))
  moreover have "entries_of (append_link (l\<lparr>ml_seq := seq\<rparr>) (k, s) batch) x = (if x = sid then batch else entries_of l x)"
    by (auto simp: entries_of_def session_find_def append_link_def new(4) Let_def split: option.split)
  ultimately show ?thesis by simp
qed

text \<open>
  C28. An append is all or nothing. When it reports an error (parameters, limits, memory, at any
  point of the batch) nothing is left of it but advanced sequence numbers. When it succeeds, the
  session has exactly the whole batch appended, active, with the given or counted tokens, and no
  other session changes.
\<close>

theorem append_all_or_nothing:
  assumes "ledger_ok l"
  shows "case mem_ledger_append env al l sid ins of
       (l', Inl e) \<Rightarrow> l' = l\<lparr>ml_seq := ml_seq l'\<rparr>
     | (l', Inr first) \<Rightarrow>
         (\<exists>batch. entries_of l' sid = entries_of l sid @ batch \<and> length batch = length ins \<and>
            (\<forall>j<length ins. batch ! j = append_entry env al (ml_counter l) sid j (ins ! j) (ml_seq l + 2 * of_nat j)) \<and>
            (\<forall>x. x \<noteq> sid \<longrightarrow> entries_of l' x = entries_of l x) \<and>
            first = (if ins = [] then None else Some (le_entry_id (hd batch))))"
proof -
  obtain l' r where a: "mem_ledger_append env al l sid ins = (l', r)" by fastforce
  then show ?thesis
  proof (cases rule: append_cases)
    case refused
    with a show ?thesis by auto
  next
    case empty
    with a show ?thesis by (auto intro: exI [of _ "[]"])
  next
    case (linked k s seq batch)
    note b = append_fill_batch [OF linked(4)] and e = entries_of_link [OF assms linked(3)]
    show ?thesis using a b linked(2) by (auto simp: linked(5,6) e intro!: exI [of _ batch])
  qed
qed

theorem append_all_or_nothing_witness:
  "ledger_ok ex_ledger0 \<and>
   fst (mem_ledger_append ex_ledger_env (la_all\<lparr>la_sid := \<lambda>i. i = 0\<rparr>) ex_ledger0 ''s1''
          [ex_in LEDGER_ENTRY_USER ''a'', ex_in LEDGER_ENTRY_USER ''b'']) = ex_ledger0\<lparr>ml_seq := 3\<rparr>"
  using append_all_or_nothing [OF ledger_create_ok [OF ex_ledger0_created], where env = ex_ledger_env
      and al = "la_all\<lparr>la_sid := \<lambda>i. i = 0\<rparr>" and sid = "''s1''" and ins = "[ex_in LEDGER_ENTRY_USER ''a'', ex_in LEDGER_ENTRY_USER ''b'']"]
    ledger_create_ok [OF ex_ledger0_created]
  by (simp add: ex_run_defs)

text \<open>
  When memory runs out inside a marking, the entries marked before keep their new status but the
  token count is not recomputed: the budget still charges an evicted entry.
\<close>

lemma mark_oom_stale_budget:
  "let l = fst (mem_ledger_append ex_ledger_env la_all ex_ledger0 ''s1''
                 [ex_in LEDGER_ENTRY_USER ''hello'', ex_in LEDGER_ENTRY_USER ''hi'']);
       (l', r) = mem_ledger_mark ex_ledger_env (la_all\<lparr>la_entry := \<lambda>i. i = 0\<rparr>) l ''s1''
                 [''00000000000000000000000000000001'', ''00000000000000000000000000000003''] LEDGER_STATUS_EVICTED
   in r = Inl LEDGER_OUT_OF_MEMORY \<and> fst (mem_ledger_budget l' ''s1'') = 7 \<and> active_sum (entries_of l' ''s1'') = 2"
  by (simp add: ex_run_defs ex_id1 ex_id3 ex_id5)

text \<open>The limit on entries is checked by appends only: a marking adds its record beyond it.\<close>

lemma mark_ignores_limit:
  assumes "session_find l sid = Some k" and "entry_find_by_id (ml_sessions l ! k) eid = Some j"
    and "le_status (ls_entries (ml_sessions l ! k) ! j) \<noteq> status"
    and "status \<in> {LEDGER_STATUS_ACTIVE..LEDGER_STATUS_DEDUPED}"
  shows "ml_entry_count (fst (mem_ledger_mark env la_all l sid [eid] status)) = ml_entry_count l + 1"
  using assms by (simp add: mem_ledger_mark_def mark_one_def la_all_def Let_def)

end
