(* ===== verification/Mem_Compress.thy ===== *)
theory Mem_Compress
  imports Mem_Ledger
begin

text \<open>
  mem_d, prompt compression (\<open>engine/compress.c\<close>) and its use in \<open>handle_compress\<close>
  (\<open>handlers/ledger_handlers.c\<close>), which plans a compression and books it in the ledger.

  The arrays of \<open>cmp_ctx_t\<close> are lists of equal length, indexed as in the code. Tokens are 64-bit
  words, scores and thresholds exact rationals; a measured value of the gate is \<open>None\<close> when the
  double is not a number. The token counter is the one of the ledger's environment and the word
  scanner a parameter. Allocation failure is not modelled here.
\<close>

section \<open>Data\<close>

definition COMPRESS_DEFAULT_MAX_TOOL_TOKENS :: "64 word" where "COMPRESS_DEFAULT_MAX_TOOL_TOKENS = 1024"
definition COMPRESS_DEFAULT_MAX_TURNS :: "64 word" where "COMPRESS_DEFAULT_MAX_TURNS = 20"
definition COMPRESS_GATE_MIN_ACR :: rat where "COMPRESS_GATE_MIN_ACR = 95 / 100"
definition COMPRESS_GATE_MAX_TTFT_MS :: rat where "COMPRESS_GATE_MAX_TTFT_MS = 800"

datatype compress_action = COMPRESS_ACTION_NONE | COMPRESS_ACTION_TRUNCATE | COMPRESS_ACTION_EXTRACT
  | COMPRESS_ACTION_DROP | COMPRESS_ACTION_DEDUP

record compress_gate =
  cg_grayscale_enabled :: bool
  cg_acr :: "rat option"
  cg_ttft_ms :: "rat option"

record compress_config =
  cc_max_tool_tokens :: "64 word"
  cc_max_turns :: "64 word"
  cc_l1_enabled :: bool
  cc_l2_enabled :: bool
  cc_dedup :: bool
  cc_gate :: compress_gate

record compress_entry_in =
  ci_entry_id :: string
  ci_entry_type :: int
  ci_text :: "string option"
  ci_token_in :: "64 word"

record compress_plan_item =
  cp_entry_id :: string
  cp_entry_type :: int
  cp_action :: compress_action

record cmp_ctx =
  cx_ents :: "compress_entry_in list"
  cx_cfg :: compress_config
  cx_counter :: string
  cx_act :: "compress_action list"
  cx_repl :: "string option list"
  cx_hashes :: "64 word list"
  cx_tokens :: "64 word list"
  cx_saved :: "64 word"
  cx_turn_of :: "int list"
  cx_turns :: int
  cx_cur_user :: int

record compress_env = ledger_env +
  cv_words :: "string \<Rightarrow> string list"

section \<open>Sentences\<close>

definition cjk_seps :: "string list" where
  "cjk_seps = [[CHR 0xE3, CHR 0x80, CHR 0x82], [CHR 0xEF, CHR 0xBC, CHR 0x81],
               [CHR 0xEF, CHR 0xBC, CHR 0x9F], [CHR 0xEF, CHR 0xBC, CHR 0x9B]]"

definition starts_with_utf8 :: "string \<Rightarrow> string \<Rightarrow> bool" where
  "starts_with_utf8 p pat = is_prefix pat p"

text \<open>\<open>p\<close> is the rest of the text from the current position; its end is the terminating zero.\<close>

definition is_sep :: "string \<Rightarrow> bool" where
  "is_sep p \<longleftrightarrow> p = [] \<or> hd p \<in> {CHR ''!'', CHR ''?'', CHR '';'', CHR ''.'', chr_nl} \<or>
     list_ex (starts_with_utf8 p) cjk_seps"

definition sent_blank :: "string \<Rightarrow> bool" where
  "sent_blank s \<longleftrightarrow> list_all (\<lambda>c. c \<in> {CHR '' '', chr_tab, chr_cr}) s"

definition sent_take :: "string \<Rightarrow> string list" where
  "sent_take acc = (if acc = [] \<or> sent_blank acc then [] else [rev acc])"

text \<open>\<open>acc\<close> is what lies between \<open>start\<close> and \<open>p\<close>, reversed; the next sentence starts one byte on.\<close>

fun split_from :: "string \<Rightarrow> string \<Rightarrow> string list" where
  "split_from acc [] = sent_take acc"
| "split_from acc (c # cs) =
     (if is_sep (c # cs) then sent_take acc @ split_from [] cs else split_from (c # acc) cs)"

definition split_sentences :: "string \<Rightarrow> string list" where
  "split_sentences text = split_from [] text"

text \<open>The instruction words; the Chinese ones as UTF-8 bytes.\<close>

definition instruction_words :: "string list" where
  "instruction_words =
     [''please'', ''ensure'', ''must'', ''always'', ''never'', ''verify'', ''confirm'',
      [CHR 0xE6, CHR 0xB3, CHR 0xA8, CHR 0xE6, CHR 0x84, CHR 0x8F],
      [CHR 0xE7, CHR 0xA1, CHR 0xAE, CHR 0xE4, CHR 0xBF, CHR 0x9D],
      [CHR 0xE9, CHR 0x9C, CHR 0x80, CHR 0xE8, CHR 0xA6, CHR 0x81],
      [CHR 0xE5, CHR 0xBF, CHR 0x85, CHR 0xE9, CHR 0xA1, CHR 0xBB],
      [CHR 0xE8, CHR 0xAF, CHR 0xB7],
      [CHR 0xE5, CHR 0x8A, CHR 0xA1, CHR 0xE5, CHR 0xBF, CHR 0x85],
      [CHR 0xE4, CHR 0xB8, CHR 0x8D, CHR 0xE8, CHR 0xA6, CHR 0x81]]"

definition is_instruction_word :: "string \<Rightarrow> bool" where
  "is_instruction_word w \<longleftrightarrow> w \<in> set instruction_words"

type_synonym wordfreq = "(string \<times> nat) list"

fun wordfreq_add :: "wordfreq \<Rightarrow> string \<Rightarrow> wordfreq" where
  "wordfreq_add [] w = [(w, 1)]"
| "wordfreq_add ((v, n) # fr) w = (if v = w then (v, n + 1) # fr else (v, n) # wordfreq_add fr w)"

definition wordfreq_get :: "wordfreq \<Rightarrow> string \<Rightarrow> nat" where
  "wordfreq_get fr w = (case map_of fr w of None \<Rightarrow> 0 | Some n \<Rightarrow> n)"

definition word_weight :: "string \<Rightarrow> wordfreq \<Rightarrow> rat" where
  "word_weight w fr = (if 1 < wordfreq_get fr w then 1 / 10 else 0) + (if is_instruction_word w then 5 / 10 else 0)"

definition c_isalnum :: "char \<Rightarrow> bool" where
  "c_isalnum c \<longleftrightarrow> (let n = of_char c :: nat in 97 \<le> n \<and> n \<le> 122 \<or> 48 \<le> n \<and> n \<le> 57 \<or> 65 \<le> n \<and> n \<le> 90)"

definition fold_case :: "char \<Rightarrow> char" where
  "fold_case c = (if 65 \<le> (of_char c :: nat) \<and> (of_char c :: nat) \<le> 90 then char_of ((of_char c :: nat) + 32) else c)"

text \<open>\<open>w\<close> is the word buffer, reversed; characters beyond its 127 are passed over.\<close>

fun sent_score_from :: "wordfreq \<Rightarrow> string \<Rightarrow> string \<Rightarrow> rat" where
  "sent_score_from fr w [] = (if w = [] then 0 else word_weight (rev w) fr)"
| "sent_score_from fr w (c # cs) =
     (if c_isalnum c \<and> length w < 127 then sent_score_from fr (fold_case c # w) cs
      else if \<not> c_isalnum c \<and> w \<noteq> [] then word_weight (rev w) fr + sent_score_from fr [] cs
      else sent_score_from fr w cs)"

definition sent_score :: "string \<Rightarrow> wordfreq \<Rightarrow> rat" where
  "sent_score text fr = sent_score_from fr [] text"

definition top_k :: "nat \<Rightarrow> nat" where
  "top_k n = (let k = n div 2 in if k < 2 then 2 else if 3 < k then 3 else k)"

fun top_rest_from :: "rat list \<Rightarrow> bool list \<Rightarrow> nat \<Rightarrow> nat option \<Rightarrow> nat \<Rightarrow> nat option" where
  "top_rest_from scores picked i best 0 = best"
| "top_rest_from scores picked i best (Suc m) =
     top_rest_from scores picked (Suc i)
       (if picked ! i then best
        else case best of None \<Rightarrow> Some i | Some b \<Rightarrow> if scores ! b < scores ! i then Some i else Some b) m"

definition top_rest :: "rat list \<Rightarrow> bool list \<Rightarrow> nat option" where
  "top_rest scores picked = top_rest_from scores picked 0 None (length scores)"

fun pick_top :: "rat list \<Rightarrow> nat \<Rightarrow> bool list \<Rightarrow> bool list" where
  "pick_top scores 0 picked = picked"
| "pick_top scores (Suc k) picked =
     pick_top scores k (case top_rest scores picked of None \<Rightarrow> picked | Some b \<Rightarrow> picked[b := True])"

definition sent_scores :: "string list \<Rightarrow> wordfreq \<Rightarrow> rat list" where
  "sent_scores sents fr =
     mapi (\<lambda>i s. sent_score s fr + (if i = 0 then 3 / 10 else 0) +
                 (if i + 1 = length sents then 2 / 10 else 0)) sents"

definition extract_key_sentences :: "string \<Rightarrow> wordfreq \<Rightarrow> string" where
  "extract_key_sentences text fr =
     (let sents = split_sentences text; n = length sents
      in if n \<le> 2 then text
         else let picked = pick_top (sent_scores sents fr) (top_k n) (replicate n False)
              in concat (map (\<lambda>(s, p). if p then s @ [chr_nl] else []) (zip sents picked)))"

definition text_hash :: "string \<Rightarrow> 64 word" where
  "text_hash s = foldl (\<lambda>h c. (h XOR of_nat (of_char c)) * 1099511628211) 1469598103934665603 s"

section \<open>The gate of the second stage\<close>

definition mem_compress_gate_pass :: "compress_gate option \<Rightarrow> bool" where
  "mem_compress_gate_pass gate =
     (case gate of
        None \<Rightarrow> False
      | Some g \<Rightarrow>
          if \<not> cg_grayscale_enabled g then False
          else case (cg_acr g, cg_ttft_ms g) of
                 (Some acr, Some ttft) \<Rightarrow>
                   if acr < 0 \<or> 1 < acr then False
                   else if ttft < 0 then False
                   else if acr < COMPRESS_GATE_MIN_ACR then False
                   else if COMPRESS_GATE_MAX_TTFT_MS < ttft then False
                   else True
               | _ \<Rightarrow> False)"

section \<open>First stage\<close>

definition cmp_defaults :: compress_config where
  "cmp_defaults =
     \<lparr>cc_max_tool_tokens = COMPRESS_DEFAULT_MAX_TOOL_TOKENS, cc_max_turns = COMPRESS_DEFAULT_MAX_TURNS,
      cc_l1_enabled = True, cc_l2_enabled = False, cc_dedup = True,
      cc_gate = \<lparr>cg_grayscale_enabled = False, cg_acr = Some (- 1), cg_ttft_ms = Some (- 1)\<rparr>\<rparr>"

definition cmp_cfg :: "compress_config option \<Rightarrow> compress_config" where
  "cmp_cfg cfg =
     (case cfg of
        None \<Rightarrow> cmp_defaults
      | Some c \<Rightarrow>
          \<lparr>cc_max_tool_tokens = (if 0 < cc_max_tool_tokens c then cc_max_tool_tokens c else COMPRESS_DEFAULT_MAX_TOOL_TOKENS),
           cc_max_turns = (if 0 < cc_max_turns c then cc_max_turns c else COMPRESS_DEFAULT_MAX_TURNS),
           cc_l1_enabled = cc_l1_enabled c, cc_l2_enabled = cc_l2_enabled c, cc_dedup = cc_dedup c,
           cc_gate = cc_gate c\<rparr>)"

definition cmp_token :: "('a) ledger_env_scheme \<Rightarrow> string \<Rightarrow> compress_entry_in \<Rightarrow> 64 word" where
  "cmp_token env fam e =
     (if 0 < ci_token_in e then ci_token_in e
      else case ci_text e of Some t \<Rightarrow> lv_count env fam t | None \<Rightarrow> 0)"

text \<open>The token counts, their sum, and the position of the last user entry (or \<open>-1\<close>).\<close>

definition cmp_tokens :: "('a) ledger_env_scheme \<Rightarrow> cmp_ctx \<Rightarrow> cmp_ctx \<times> 64 word" where
  "cmp_tokens env x =
     (let toks = map (cmp_token env (cx_counter x)) (cx_ents x)
      in (x\<lparr>cx_tokens := toks,
            cx_cur_user := foldl (\<lambda>cu i. if ci_entry_type (cx_ents x ! i) = LEDGER_ENTRY_USER then int i else cu)
                             (cx_cur_user x) [0..<length (cx_ents x)]\<rparr>, sum_list toks))"

fun turn_numbers :: "int \<Rightarrow> compress_entry_in list \<Rightarrow> int list" where
  "turn_numbers cur [] = []"
| "turn_numbers cur (e # es) =
     (let cur = (if ci_entry_type e = LEDGER_ENTRY_USER then cur + 1 else cur) in cur # turn_numbers cur es)"

definition cmp_turns :: "cmp_ctx \<Rightarrow> cmp_ctx" where
  "cmp_turns x =
     (let ts = turn_numbers 0 (cx_ents x)
      in x\<lparr>cx_turn_of := ts, cx_turns := (if ts = [] then 0 else last ts)\<rparr>)"

definition cmp_protected :: "cmp_ctx \<Rightarrow> nat \<Rightarrow> bool" where
  "cmp_protected x i \<longleftrightarrow>
     (let ty = ci_entry_type (cx_ents x ! i)
      in ty = LEDGER_ENTRY_SYSTEM \<or> ty = LEDGER_ENTRY_TOOL_DEF \<or> ty = LEDGER_ENTRY_CACHE_HIT \<or>
         int i = cx_cur_user x)"

text \<open>\<open>(int)max_turns\<close> keeps the low 32 bits.\<close>

definition int_of_size :: "64 word \<Rightarrow> int" where
  "int_of_size w = sint (ucast w :: 32 word)"

definition l1_drop_turn :: "cmp_ctx \<Rightarrow> nat \<Rightarrow> cmp_ctx \<times> bool" where
  "l1_drop_turn x i =
     (let ty = ci_entry_type (cx_ents x ! i); mt = int_of_size (cc_max_turns (cx_cfg x))
      in if ty \<noteq> LEDGER_ENTRY_USER \<and> ty \<noteq> LEDGER_ENTRY_ASSISTANT \<and> ty \<noteq> LEDGER_ENTRY_TOOL_RESULT
         then (x, False)
         else let keep_tail = (if 1 < mt then mt - 1 else 0); keep_from = cx_turns x - keep_tail + 1
              in if cx_turns x \<le> mt \<or> cx_turn_of x ! i \<le> 1 \<or> keep_from \<le> cx_turn_of x ! i then (x, False)
                 else (x\<lparr>cx_act := (cx_act x)[i := COMPRESS_ACTION_DROP],
                         cx_saved := cx_saved x + cx_tokens x ! i\<rparr>, True))"

definition ellipsis :: string where "ellipsis = [CHR 0xE2, CHR 0x80, CHR 0xA6]"

definition trunc_note :: "64 word \<Rightarrow> string" where
  "trunc_note n = [chr_nl] @ ellipsis @ ''[truncated '' @ show_nat (unat n) @ '' tokens]'' @ ellipsis @ [chr_nl]"

definition l1_truncate :: "cmp_ctx \<Rightarrow> nat \<Rightarrow> cmp_ctx" where
  "l1_truncate x i =
     (case ci_text (cx_ents x ! i) of
        None \<Rightarrow> x
      | Some t \<Rightarrow>
          if ci_entry_type (cx_ents x ! i) \<noteq> LEDGER_ENTRY_TOOL_RESULT \<or>
             cx_tokens x ! i \<le> cc_max_tool_tokens (cx_cfg x) then x
          else let len = length t; head = len * 2 div 5; tail = len * 2 div 5
               in if len \<le> 32 then x
                  else if len \<le> head + tail then x
                  else let nlen = head + tail + 48; note = trunc_note (cx_tokens x ! i - cc_max_tool_tokens (cx_cfg x))
                       in if nlen - head \<le> length note then x
                          else x\<lparr>cx_repl := (cx_repl x)[i := Some (take head t @ note @ drop (len - tail) t)],
                                 cx_act := (cx_act x)[i := COMPRESS_ACTION_TRUNCATE],
                                 cx_saved := cx_saved x + (cx_tokens x ! i - cc_max_tool_tokens (cx_cfg x))\<rparr>)"

definition dup_of :: "cmp_ctx \<Rightarrow> string \<Rightarrow> nat \<Rightarrow> bool" where
  "dup_of x t j \<longleftrightarrow> cx_act x ! j \<noteq> COMPRESS_ACTION_DROP \<and> cx_hashes x ! j = text_hash t \<and>
     ci_text (cx_ents x ! j) = Some t"

definition l1_dedup :: "cmp_ctx \<Rightarrow> nat \<Rightarrow> cmp_ctx \<times> bool" where
  "l1_dedup x i =
     (case ci_text (cx_ents x ! i) of
        None \<Rightarrow> (x, False)
      | Some t \<Rightarrow>
          if \<not> cc_dedup (cx_cfg x) then (x, False)
          else if list_ex (dup_of x t) [0..<i] \<and> cx_act x ! i = COMPRESS_ACTION_NONE
          then (x\<lparr>cx_act := (cx_act x)[i := COMPRESS_ACTION_DEDUP], cx_saved := cx_saved x + cx_tokens x ! i\<rparr>, True)
          else (x\<lparr>cx_hashes := (cx_hashes x)[i := text_hash t]\<rparr>, False))"

definition l1_hash :: "cmp_ctx \<Rightarrow> nat \<Rightarrow> cmp_ctx" where
  "l1_hash x i =
     (case ci_text (cx_ents x ! i) of
        Some t \<Rightarrow> if cx_act x ! i = COMPRESS_ACTION_NONE then x\<lparr>cx_hashes := (cx_hashes x)[i := text_hash t]\<rparr> else x
      | None \<Rightarrow> x)"

definition cmp_l1_entry :: "cmp_ctx \<Rightarrow> nat \<Rightarrow> cmp_ctx" where
  "cmp_l1_entry x i =
     (if cmp_protected x i then x
      else if cc_l1_enabled (cx_cfg x) then
        (case l1_drop_turn x i of
           (x, True) \<Rightarrow> x
         | (x, False) \<Rightarrow>
             (case l1_dedup (l1_truncate x i) i of (x, True) \<Rightarrow> x | (x, False) \<Rightarrow> l1_hash x i))
      else l1_hash x i)"

definition cmp_l1 :: "cmp_ctx \<Rightarrow> cmp_ctx" where
  "cmp_l1 x = foldl cmp_l1_entry x [0..<length (cx_ents x)]"

section \<open>Second stage\<close>

definition l2_extract :: "('a) ledger_env_scheme \<Rightarrow> wordfreq \<Rightarrow> cmp_ctx \<Rightarrow> nat \<Rightarrow> cmp_ctx" where
  "l2_extract env fr x i =
     (let e = cx_ents x ! i; ty = ci_entry_type e
      in if cx_act x ! i \<noteq> COMPRESS_ACTION_NONE then x
         else if ty \<noteq> LEDGER_ENTRY_ASSISTANT \<and> ty \<noteq> LEDGER_ENTRY_USER then x
         else if int i = cx_cur_user x then x
         else if cx_turn_of x ! i = 1 \<and> ty = LEDGER_ENTRY_USER then x
         else case ci_text e of
                None \<Rightarrow> x
              | Some t \<Rightarrow>
                  if cx_tokens x ! i < 32 then x
                  else let summ = extract_key_sentences t fr
                       in if summ \<noteq> t \<and> length summ < length t then
                            (let new_tok = lv_count env (cx_counter x) summ
                             in if new_tok < cx_tokens x ! i
                                then x\<lparr>cx_repl := (cx_repl x)[i := Some summ],
                                       cx_act := (cx_act x)[i := COMPRESS_ACTION_EXTRACT],
                                       cx_saved := cx_saved x + (cx_tokens x ! i - new_tok)\<rparr>
                                else x)
                          else x)"

definition word_counts :: "compress_env \<Rightarrow> compress_entry_in list \<Rightarrow> wordfreq" where
  "word_counts env es =
     foldl wordfreq_add [] (concat (map (\<lambda>e. case ci_text e of Some t \<Rightarrow> cv_words env t | None \<Rightarrow> []) es))"

definition cmp_l2 :: "compress_env \<Rightarrow> mem_ledger option \<Rightarrow> string \<Rightarrow> 64 word \<Rightarrow> cmp_ctx \<Rightarrow> cmp_ctx" where
  "cmp_l2 env led sid used x =
     (if cc_l2_enabled (cx_cfg x) \<and> mem_compress_gate_pass (Some (cc_gate (cx_cfg x))) then
        (let budget = (case led of Some l \<Rightarrow> fst (snd (mem_ledger_budget l sid)) | None \<Rightarrow> 0);
             remaining = (if cx_saved x < used then used - cx_saved x else 0);
             ratio = (case led of Some l \<Rightarrow> ml_warn_ratio l | None \<Rightarrow> 8 / 10);
             over_budget = (0 < budget \<and> warn_at budget ratio \<le> unat remaining)
         in if over_budget \<or> int_of_size (cc_max_turns (cx_cfg x)) < cx_turns x
            then foldl (l2_extract env (word_counts env (cx_ents x))) x [0..<length (cx_ents x)]
            else x)
      else x)"

section \<open>Result\<close>

definition cmp_piece :: "cmp_ctx \<Rightarrow> nat \<Rightarrow> string" where
  "cmp_piece x i =
     (case cx_repl x ! i of Some r \<Rightarrow> r
      | None \<Rightarrow> (case ci_text (cx_ents x ! i) of Some t \<Rightarrow> t | None \<Rightarrow> []))"

definition cmp_kept :: "cmp_ctx \<Rightarrow> nat \<Rightarrow> bool" where
  "cmp_kept x i \<longleftrightarrow> cx_act x ! i \<noteq> COMPRESS_ACTION_DROP \<and> cx_act x ! i \<noteq> COMPRESS_ACTION_DEDUP"

definition join_nl :: "string list \<Rightarrow> string" where
  "join_nl ps = foldl (\<lambda>ctx p. (if ctx = [] then [] else ctx @ [chr_nl]) @ p) [] ps"

definition cmp_build :: "cmp_ctx \<Rightarrow> string \<times> compress_plan_item list" where
  "cmp_build x =
     (let is = [0..<length (cx_ents x)]
      in (join_nl (map (cmp_piece x) (filter (cmp_kept x) is)),
          map (\<lambda>i. \<lparr>cp_entry_id = ci_entry_id (cx_ents x ! i), cp_entry_type = ci_entry_type (cx_ents x ! i),
                    cp_action = cx_act x ! i\<rparr>)
              (filter (\<lambda>i. cx_act x ! i \<noteq> COMPRESS_ACTION_NONE) is)))"

definition cmp_saved :: "('a) ledger_env_scheme \<Rightarrow> cmp_ctx \<Rightarrow> string \<Rightarrow> 64 word \<Rightarrow> 64 word" where
  "cmp_saved env x ctx used =
     (if cx_saved x = 0 then 0
      else let new_tok = lv_count env (cx_counter x) ctx
           in if new_tok < used then used - new_tok else cx_saved x)"

definition cmp_start :: "compress_env \<Rightarrow> mem_ledger option \<Rightarrow> compress_entry_in list \<Rightarrow> compress_config option \<Rightarrow> cmp_ctx" where
  "cmp_start env led ents cfg =
     (let n = length ents
      in \<lparr>cx_ents = ents, cx_cfg = cmp_cfg cfg,
          cx_counter = (case led of Some l \<Rightarrow> ml_token_family l | None \<Rightarrow> lv_default_family env),
          cx_act = replicate n COMPRESS_ACTION_NONE, cx_repl = replicate n None,
          cx_hashes = replicate n 0, cx_tokens = replicate n 0, cx_saved = 0, cx_turn_of = replicate n 0,
          cx_turns = 0, cx_cur_user = - 1\<rparr>)"

text \<open>The context after both stages, and the tokens used before.\<close>

definition cmp_stages ::
  "compress_env \<Rightarrow> mem_ledger option \<Rightarrow> string \<Rightarrow> compress_entry_in list \<Rightarrow> compress_config option \<Rightarrow> cmp_ctx \<times> 64 word" where
  "cmp_stages env led sid ents cfg =
     (let (x, used) = cmp_tokens env (cmp_turns (cmp_start env led ents cfg))
      in (cmp_l2 env led sid used (cmp_l1 x), used))"

record compress_result =
  cr_context :: "string option"
  cr_saved :: "64 word"
  cr_actions :: "compress_plan_item list"

definition mem_compress_plan ::
  "compress_env \<Rightarrow> mem_ledger option \<Rightarrow> string \<Rightarrow> compress_entry_in list \<Rightarrow> compress_config option \<Rightarrow> compress_result" where
  "mem_compress_plan env led sid ents cfg =
     (if ents = [] then \<lparr>cr_context = None, cr_saved = 0, cr_actions = []\<rparr>
      else let (x, used) = cmp_stages env led sid ents cfg; (ctx, plans) = cmp_build x
           in \<lparr>cr_context = Some ctx, cr_saved = cmp_saved env x ctx used, cr_actions = plans\<rparr>)"

section \<open>Booking a compression in the ledger\<close>

definition action_status :: "compress_action \<Rightarrow> int" where
  "action_status a =
     (if a = COMPRESS_ACTION_DROP then LEDGER_STATUS_EVICTED
      else if a = COMPRESS_ACTION_DEDUP then LEDGER_STATUS_DEDUPED else LEDGER_STATUS_COMPRESSED)"

definition ledger_status_from_string :: "string \<Rightarrow> int" where
  "ledger_status_from_string s =
     (if s = ''active'' then LEDGER_STATUS_ACTIVE else if s = ''evicted'' then LEDGER_STATUS_EVICTED
      else if s = ''compressed'' then LEDGER_STATUS_COMPRESSED else if s = ''deduped'' then LEDGER_STATUS_DEDUPED
      else - 1)"

definition ledger_type_from_string :: "string \<Rightarrow> int" where
  "ledger_type_from_string s =
     (if s = ''tool_def'' then LEDGER_ENTRY_TOOL_DEF else if s = ''user'' then LEDGER_ENTRY_USER
      else if s = ''tool_result'' then LEDGER_ENTRY_TOOL_RESULT
      else if s = ''assistant'' then LEDGER_ENTRY_ASSISTANT
      else if s = ''compressed'' then LEDGER_ENTRY_COMPRESSED
      else if s = ''cache_hit'' then LEDGER_ENTRY_CACHE_HIT else LEDGER_ENTRY_SYSTEM)"

definition item_type :: "string option \<Rightarrow> int" where
  "item_type ty = (case ty of Some s \<Rightarrow> ledger_type_from_string s | None \<Rightarrow> LEDGER_ENTRY_SYSTEM)"

text \<open>
  The handler, from the parsed parameters (identifier, type and text of each item) to the ledger and
  the parts of the answer. Each call of \<open>mem_ledger_mark\<close> writes \<open>marked\<close> anew when it succeeds.
\<close>

definition book_action ::
  "compress_env \<Rightarrow> string \<Rightarrow> mem_ledger \<times> nat \<Rightarrow> compress_plan_item \<Rightarrow> mem_ledger \<times> nat" where
  "book_action env sid lm a =
     (case mem_ledger_mark (ledger_env.truncate env) la_all (fst lm) sid [cp_entry_id a] (action_status (cp_action a)) of
        (l, Inr n) \<Rightarrow> (l, n)
      | (l, Inl e) \<Rightarrow> (l, snd lm))"

definition request_entries :: "(string \<times> string option \<times> string option) list \<Rightarrow> compress_entry_in list" where
  "request_entries items =
     map (\<lambda>(eid, ty, t). \<lparr>ci_entry_id = eid, ci_entry_type = item_type ty, ci_text = t, ci_token_in = 0\<rparr>) items"

definition request_config :: "bool \<Rightarrow> bool \<Rightarrow> compress_gate \<Rightarrow> compress_config" where
  "request_config l1_on l2_on gate =
     \<lparr>cc_max_tool_tokens = COMPRESS_DEFAULT_MAX_TOOL_TOKENS, cc_max_turns = COMPRESS_DEFAULT_MAX_TURNS,
      cc_l1_enabled = l1_on, cc_l2_enabled = l2_on, cc_dedup = True, cc_gate = gate\<rparr>"

definition compressed_block :: "compress_result \<Rightarrow> ledger_entry_in" where
  "compressed_block res =
     \<lparr>li_entry_type = LEDGER_ENTRY_COMPRESSED, li_text = cr_context res, li_token_in = 0, li_token_out = 0,
      li_source = Some ''ledger'', li_ref_id = Some (cp_entry_id (hd (cr_actions res)))\<rparr>"

definition handle_compress ::
  "compress_env \<Rightarrow> mem_ledger \<Rightarrow> string \<Rightarrow> (string \<times> string option \<times> string option) list \<Rightarrow> bool \<Rightarrow> bool \<Rightarrow> compress_gate \<Rightarrow>
   mem_ledger \<times> compress_result \<times> nat" where
  "handle_compress env l sid items l1_on l2_on gate =
     (let res = mem_compress_plan env (Some l) sid (request_entries items) (Some (request_config l1_on l2_on gate));
          (l1, marked) = foldl (book_action env sid) (l, 0) (cr_actions res)
      in if cr_actions res \<noteq> [] \<and> 0 < marked \<and> (case cr_context res of Some c \<Rightarrow> c \<noteq> [] | None \<Rightarrow> False)
         then (fst (mem_ledger_append (ledger_env.truncate env) la_all l1 sid [compressed_block res]), res, marked)
         else (l1, res, marked))"

section \<open>What each action means\<close>

text \<open>The fields the stages never change.\<close>

definition cmp_static where
  "cmp_static x = (cx_ents x, cx_cfg x, cx_counter x, cx_tokens x, cx_turn_of x, cx_turns x, cx_cur_user x)"

definition cmp_lens :: "cmp_ctx \<Rightarrow> bool" where
  "cmp_lens x \<longleftrightarrow> length (cx_act x) = length (cx_ents x) \<and> length (cx_repl x) = length (cx_ents x) \<and>
     length (cx_hashes x) = length (cx_ents x)"

definition conversational :: "compress_entry_in \<Rightarrow> bool" where
  "conversational e \<longleftrightarrow> ci_entry_type e = LEDGER_ENTRY_USER \<or> ci_entry_type e = LEDGER_ENTRY_ASSISTANT \<or>
     ci_entry_type e = LEDGER_ENTRY_TOOL_RESULT"

text \<open>The turns beyond the limit: after the first, before the last \<open>max_turns - 1\<close>.\<close>

definition old_turn :: "cmp_ctx \<Rightarrow> nat \<Rightarrow> bool" where
  "old_turn x i \<longleftrightarrow> (let mt = int_of_size (cc_max_turns (cx_cfg x)) in
     conversational (cx_ents x ! i) \<and> mt < cx_turns x \<and> 1 < cx_turn_of x ! i \<and>
     cx_turn_of x ! i \<le> cx_turns x - max 0 (mt - 1))"

definition truncated :: "cmp_ctx \<Rightarrow> nat \<Rightarrow> string option \<Rightarrow> bool" where
  "truncated x i r \<longleftrightarrow> (\<exists>t. ci_text (cx_ents x ! i) = Some t \<and> 32 < length t \<and>
     ci_entry_type (cx_ents x ! i) = LEDGER_ENTRY_TOOL_RESULT \<and> cc_max_tool_tokens (cx_cfg x) < cx_tokens x ! i \<and>
     r = Some (take (length t * 2 div 5) t @ trunc_note (cx_tokens x ! i - cc_max_tool_tokens (cx_cfg x)) @
               drop (length t - length t * 2 div 5) t))"

definition l1_law :: "cmp_ctx \<Rightarrow> nat \<Rightarrow> compress_action \<Rightarrow> string option \<Rightarrow> bool" where
  "l1_law x i a r \<longleftrightarrow>
     (cmp_protected x i \<or> \<not> cc_l1_enabled (cx_cfg x) \<longrightarrow> a = COMPRESS_ACTION_NONE) \<and>
     (cc_l1_enabled (cx_cfg x) \<and> \<not> cmp_protected x i \<longrightarrow> (a = COMPRESS_ACTION_DROP \<longleftrightarrow> old_turn x i)) \<and>
     (case a of
        COMPRESS_ACTION_NONE \<Rightarrow> r = None
      | COMPRESS_ACTION_TRUNCATE \<Rightarrow> truncated x i r
      | COMPRESS_ACTION_DROP \<Rightarrow> r = None
      | COMPRESS_ACTION_DEDUP \<Rightarrow> r = None \<and> ci_text (cx_ents x ! i) \<noteq> None \<and>
          (\<exists>j<i. cx_act x ! j \<noteq> COMPRESS_ACTION_DROP \<and> ci_text (cx_ents x ! j) = ci_text (cx_ents x ! i))
      | COMPRESS_ACTION_EXTRACT \<Rightarrow> False)"

lemma l1_drop_turn_eq:
  "l1_drop_turn x i =
     (if old_turn x i
      then (x\<lparr>cx_act := (cx_act x)[i := COMPRESS_ACTION_DROP], cx_saved := cx_saved x + cx_tokens x ! i\<rparr>, True)
      else (x, False))"
  by (auto simp: l1_drop_turn_def old_turn_def conversational_def Let_def max_def)

lemma l1_truncate_cases:
  obtains (skip) "l1_truncate x i = x"
  | (cut) r where "truncated x i r"
      "l1_truncate x i = x\<lparr>cx_repl := (cx_repl x)[i := r], cx_act := (cx_act x)[i := COMPRESS_ACTION_TRUNCATE],
         cx_saved := cx_saved x + (cx_tokens x ! i - cc_max_tool_tokens (cx_cfg x))\<rparr>"
proof (cases "ci_text (cx_ents x ! i)")
  case None
  then show ?thesis by (intro skip) (simp add: l1_truncate_def)
next
  case (Some t)
  let ?r = "Some (take (length t * 2 div 5) t @ trunc_note (cx_tokens x ! i - cc_max_tool_tokens (cx_cfg x)) @
               drop (length t - length t * 2 div 5) t)"
  show ?thesis
  proof (cases "ci_entry_type (cx_ents x ! i) = LEDGER_ENTRY_TOOL_RESULT \<and> cc_max_tool_tokens (cx_cfg x) < cx_tokens x ! i \<and>
      32 < length t \<and> length t * 2 div 5 + length t * 2 div 5 < length t \<and>
      length (trunc_note (cx_tokens x ! i - cc_max_tool_tokens (cx_cfg x))) < length t * 2 div 5 + 48")
    case True
    with Some show ?thesis by (intro cut [of ?r]) (auto simp: l1_truncate_def truncated_def Let_def not_le)
  next
    case False
    with Some show ?thesis by (intro skip) (auto simp: l1_truncate_def Let_def not_le)
  qed
qed

lemma l1_entry_effect:
  assumes "i < length (cx_ents x)" and "cmp_lens x"
    and "cx_act x ! i = COMPRESS_ACTION_NONE" "cx_repl x ! i = None"
  shows "\<exists>a r. cx_act (cmp_l1_entry x i) = (cx_act x)[i := a] \<and> cx_repl (cmp_l1_entry x i) = (cx_repl x)[i := r] \<and>
     l1_law x i a r \<and> cmp_lens (cmp_l1_entry x i) \<and> cmp_static (cmp_l1_entry x i) = cmp_static x"
proof -
  have len: "i < length (cx_act x)" "i < length (cx_repl x)" "i < length (cx_hashes x)"
    using assms(1,2) by (auto simp: cmp_lens_def)
  have same: "(cx_act x)[i := COMPRESS_ACTION_NONE] = cx_act x" "(cx_repl x)[i := None] = cx_repl x"
    using assms(3,4) list_update_id by metis+
  show ?thesis
  proof (cases "cmp_protected x i \<or> \<not> cc_l1_enabled (cx_cfg x)")
    case True
    then have "cx_act (cmp_l1_entry x i) = cx_act x \<and> cx_repl (cmp_l1_entry x i) = cx_repl x \<and>
        cmp_lens (cmp_l1_entry x i) \<and> cmp_static (cmp_l1_entry x i) = cmp_static x"
      using assms(2) by (auto simp: cmp_l1_entry_def l1_hash_def cmp_lens_def cmp_static_def split: option.split)
    moreover have "l1_law x i COMPRESS_ACTION_NONE None" using True by (auto simp: l1_law_def)
    ultimately show ?thesis using same by metis
  next
    case False
    show ?thesis
    proof (cases "old_turn x i")
      case True
      then have "cmp_l1_entry x i = x\<lparr>cx_act := (cx_act x)[i := COMPRESS_ACTION_DROP], cx_saved := cx_saved x + cx_tokens x ! i\<rparr>"
        using False by (simp add: cmp_l1_entry_def l1_drop_turn_eq)
      moreover have "l1_law x i COMPRESS_ACTION_DROP None" using False True by (simp add: l1_law_def)
      ultimately show ?thesis using same assms(2)
        by (intro exI [of _ COMPRESS_ACTION_DROP] exI [of _ None]) (simp add: cmp_lens_def cmp_static_def)
    next
      case old: False
      have e: "cmp_l1_entry x i = (case l1_dedup (l1_truncate x i) i of (x, True) \<Rightarrow> x | (x, False) \<Rightarrow> l1_hash x i)"
        using False old by (simp add: cmp_l1_entry_def l1_drop_turn_eq)
      show ?thesis
      proof (cases rule: l1_truncate_cases [of x i])
        case skip
        show ?thesis
        proof (cases "snd (l1_dedup x i)")
          case True
          then have d: "cmp_l1_entry x i = x\<lparr>cx_act := (cx_act x)[i := COMPRESS_ACTION_DEDUP], cx_saved := cx_saved x + cx_tokens x ! i\<rparr>"
            and j: "\<exists>t j. ci_text (cx_ents x ! i) = Some t \<and> j < i \<and> dup_of x t j"
            by (auto simp: e skip l1_dedup_def list_ex_iff split: option.splits if_splits)
          from j have "l1_law x i COMPRESS_ACTION_DEDUP None" using False old by (auto simp: l1_law_def dup_of_def)
          then show ?thesis using same assms(2) d
            by (intro exI [of _ COMPRESS_ACTION_DEDUP] exI [of _ None]) (simp add: cmp_lens_def cmp_static_def)
        next
          case nodup: False
          then have "cx_act (cmp_l1_entry x i) = cx_act x \<and> cx_repl (cmp_l1_entry x i) = cx_repl x \<and>
              cmp_lens (cmp_l1_entry x i) \<and> cmp_static (cmp_l1_entry x i) = cmp_static x"
            using assms(2) by (auto simp: e skip l1_dedup_def l1_hash_def cmp_lens_def cmp_static_def split: option.splits)
          moreover have "l1_law x i COMPRESS_ACTION_NONE None" using False old by (simp add: l1_law_def)
          ultimately show ?thesis using same by metis
        qed
      next
        case (cut r)
        let ?y = "l1_truncate x i"
        have y: "cx_act ?y ! i = COMPRESS_ACTION_TRUNCATE" using len by (simp add: cut(2))
        then have "cx_act (cmp_l1_entry x i) = cx_act ?y \<and> cx_repl (cmp_l1_entry x i) = cx_repl ?y \<and>
            length (cx_hashes (cmp_l1_entry x i)) = length (cx_hashes x) \<and> cmp_static (cmp_l1_entry x i) = cmp_static ?y"
          by (auto simp: e l1_dedup_def l1_hash_def cmp_static_def cut(2) split: option.split)
        moreover have "l1_law x i COMPRESS_ACTION_TRUNCATE r" using False old cut(1) by (simp add: l1_law_def)
        ultimately show ?thesis using assms(2)
          by (intro exI [of _ COMPRESS_ACTION_TRUNCATE] exI [of _ r])
             (auto simp: cut(2) cmp_lens_def cmp_static_def)
      qed
    qed
  qed
qed

lemma cmp_staticD:
  assumes "cmp_static x = cmp_static y"
  shows "cx_ents x = cx_ents y" "cx_cfg x = cx_cfg y" "cx_counter x = cx_counter y" "cx_tokens x = cx_tokens y"
    "cx_turn_of x = cx_turn_of y" "cx_turns x = cx_turns y" "cx_cur_user x = cx_cur_user y"
  using assms by (simp_all add: cmp_static_def)

lemma l1_law_cong:
  assumes "cmp_static x = cmp_static y"
    and "\<And>j. j < i \<Longrightarrow> (cx_act x ! j = COMPRESS_ACTION_DROP) = (cx_act y ! j = COMPRESS_ACTION_DROP)"
  shows "l1_law x i a r = l1_law y i a r"
  using assms(2) cmp_staticD [OF assms(1)]
  by (auto simp: l1_law_def cmp_protected_def old_turn_def truncated_def split: compress_action.split)

lemma protected_cong: "cmp_static x = cmp_static y \<Longrightarrow> cmp_protected x i = cmp_protected y i"
  using cmp_staticD [of x y] by (simp add: cmp_protected_def)

lemma old_turn_cong: "cmp_static x = cmp_static y \<Longrightarrow> old_turn x i = old_turn y i"
  using cmp_staticD [of x y] by (simp add: old_turn_def)

definition l1_upto :: "cmp_ctx \<Rightarrow> cmp_ctx \<Rightarrow> nat \<Rightarrow> bool" where
  "l1_upto x0 x k \<longleftrightarrow> cmp_lens x \<and> cmp_static x = cmp_static x0 \<and>
     (\<forall>i<k. l1_law x i (cx_act x ! i) (cx_repl x ! i)) \<and>
     (\<forall>i. k \<le> i \<and> i < length (cx_ents x) \<longrightarrow> cx_act x ! i = COMPRESS_ACTION_NONE \<and> cx_repl x ! i = None)"

lemma l1_upto_step:
  assumes "l1_upto x0 x k" and "k < length (cx_ents x)"
  shows "l1_upto x0 (cmp_l1_entry x k) (Suc k)"
proof -
  let ?y = "cmp_l1_entry x k"
  from assms obtain a r where e: "cx_act ?y = (cx_act x)[k := a]" "cx_repl ?y = (cx_repl x)[k := r]"
    "l1_law x k a r" "cmp_lens ?y" "cmp_static ?y = cmp_static x"
    using l1_entry_effect [of k x] by (auto simp: l1_upto_def)
  have len: "k < length (cx_act x)" "k < length (cx_repl x)" using assms by (auto simp: l1_upto_def cmp_lens_def)
  have "l1_law ?y i (cx_act ?y ! i) (cx_repl ?y ! i)" if "i < Suc k" for i
  proof -
    have c: "l1_law ?y i b q = l1_law x i b q" for b q
      using that by (intro l1_law_cong e(5)) (simp add: e(1))
    show ?thesis
    proof (cases "i = k")
      case True
      with e(3) len c show ?thesis by (simp add: e(1,2))
    next
      case False
      with that assms(1) show ?thesis by (simp add: c e(1,2) l1_upto_def)
    qed
  qed
  moreover have "cx_ents ?y = cx_ents x" using e(5) by (rule cmp_staticD)
  ultimately show ?thesis using assms(1) e by (simp add: l1_upto_def)
qed

lemma l1_upto_run: "l1_upto x0 x0 0 \<Longrightarrow> k \<le> length (cx_ents x0) \<Longrightarrow> l1_upto x0 (foldl cmp_l1_entry x0 [0..<k]) k"
proof (induction k)
  case 0
  then show ?case by simp
next
  case (Suc k)
  then have u: "l1_upto x0 (foldl cmp_l1_entry x0 [0..<k]) k" by simp
  then have "cx_ents (foldl cmp_l1_entry x0 [0..<k]) = cx_ents x0" by (auto simp: l1_upto_def dest: cmp_staticD)
  with l1_upto_step [OF u] Suc.prems(2) show ?case by simp
qed

section \<open>The whole plan\<close>

definition extracted :: "cmp_ctx \<Rightarrow> nat \<Rightarrow> bool" where
  "extracted x i \<longleftrightarrow> \<not> cmp_protected x i \<and> cc_l2_enabled (cx_cfg x) \<and> mem_compress_gate_pass (Some (cc_gate (cx_cfg x))) \<and>
     (\<exists>t s. ci_text (cx_ents x ! i) = Some t \<and> cx_repl x ! i = Some s \<and> length s < length t)"

definition plan_law :: "cmp_ctx \<Rightarrow> nat \<Rightarrow> bool" where
  "plan_law x i \<longleftrightarrow>
     (if cx_act x ! i = COMPRESS_ACTION_EXTRACT then extracted x i else l1_law x i (cx_act x ! i) (cx_repl x ! i))"

definition plan_ok :: "cmp_ctx \<Rightarrow> cmp_ctx \<Rightarrow> bool" where
  "plan_ok x0 x \<longleftrightarrow> cmp_lens x \<and> cmp_static x = cmp_static x0 \<and>
     (\<forall>i<length (cx_ents x). plan_law x i \<and> (cx_act x ! i = COMPRESS_ACTION_DROP \<longleftrightarrow> cc_l1_enabled (cx_cfg x) \<and>
        \<not> cmp_protected x i \<and> old_turn x i))"

lemma l1_upto_plan_ok:
  assumes "l1_upto x0 x (length (cx_ents x))"
  shows "plan_ok x0 x"
proof -
  have "plan_law x i \<and> (cx_act x ! i = COMPRESS_ACTION_DROP \<longleftrightarrow> cc_l1_enabled (cx_cfg x) \<and> \<not> cmp_protected x i \<and> old_turn x i)"
    if "i < length (cx_ents x)" for i
  proof -
    have l: "l1_law x i (cx_act x ! i) (cx_repl x ! i)" using assms that by (simp add: l1_upto_def)
    then have "cx_act x ! i \<noteq> COMPRESS_ACTION_EXTRACT" by (auto simp: l1_law_def)
    with l show ?thesis by (auto simp: plan_law_def l1_law_def)
  qed
  then show ?thesis using assms by (simp add: plan_ok_def l1_upto_def)
qed

lemma l2_extract_cases:
  obtains (skip) "l2_extract env fr x i = x"
  | (cut) t s q where "ci_text (cx_ents x ! i) = Some t" "length s < length t" "cx_act x ! i = COMPRESS_ACTION_NONE"
      "int i \<noteq> cx_cur_user x" "ci_entry_type (cx_ents x ! i) = LEDGER_ENTRY_ASSISTANT \<or> ci_entry_type (cx_ents x ! i) = LEDGER_ENTRY_USER"
      "l2_extract env fr x i = x\<lparr>cx_repl := (cx_repl x)[i := Some s], cx_act := (cx_act x)[i := COMPRESS_ACTION_EXTRACT], cx_saved := q\<rparr>"
proof (cases "l2_extract env fr x i = x")
  case True
  then show ?thesis by (rule skip)
next
  case False
  then obtain t where t: "ci_text (cx_ents x ! i) = Some t" by (auto simp: l2_extract_def Let_def split: option.splits if_splits)
  with False have "length (extract_key_sentences t fr) < length t" "cx_act x ! i = COMPRESS_ACTION_NONE"
      "int i \<noteq> cx_cur_user x" "ci_entry_type (cx_ents x ! i) = LEDGER_ENTRY_ASSISTANT \<or> ci_entry_type (cx_ents x ! i) = LEDGER_ENTRY_USER"
    by (auto simp: l2_extract_def Let_def split: if_splits)
  moreover from False t have "l2_extract env fr x i = x\<lparr>cx_repl := (cx_repl x)[i := Some (extract_key_sentences t fr)],
      cx_act := (cx_act x)[i := COMPRESS_ACTION_EXTRACT],
      cx_saved := cx_saved x + (cx_tokens x ! i - lv_count env (cx_counter x) (extract_key_sentences t fr))\<rparr>"
    by (auto simp: l2_extract_def Let_def split: if_splits)
  ultimately show ?thesis using t by (intro cut) auto
qed

lemma l2_extract_plan_ok:
  assumes "plan_ok x0 x" and "i < length (cx_ents x)"
    and "cc_l2_enabled (cx_cfg x)" "mem_compress_gate_pass (Some (cc_gate (cx_cfg x)))"
  shows "plan_ok x0 (l2_extract env fr x i)"
proof (cases rule: l2_extract_cases [of env fr x i])
  case skip
  with assms(1) show ?thesis by simp
next
  case (cut t s q)
  let ?y = "l2_extract env fr x i"
  have st: "cmp_static ?y = cmp_static x" by (simp add: cut(6) cmp_static_def)
  have len: "i < length (cx_act x)" "i < length (cx_repl x)" using assms by (auto simp: plan_ok_def cmp_lens_def)
  have np: "\<not> cmp_protected x i" using cut(4,5) by (auto simp: cmp_protected_def ledger_codes)
  have nd: "(cx_act ?y ! j = COMPRESS_ACTION_DROP) = (cx_act x ! j = COMPRESS_ACTION_DROP)" for j
    using cut(3) len by (cases "j = i") (simp_all add: cut(6))
  have law: "plan_law ?y j" if "j < length (cx_ents x)" for j
  proof (cases "j = i")
    case True
    with len cut(1,2) np assms(3,4) show ?thesis
      by (simp add: plan_law_def extracted_def cut(6) cmp_protected_def)
  next
    case False
    have "plan_law x j" using assms(1) that by (simp add: plan_ok_def)
    moreover have "l1_law ?y j a r = l1_law x j a r" for a r using st nd by (rule l1_law_cong)
    moreover have "extracted ?y j = extracted x j" using False by (simp add: extracted_def cut(6) cmp_protected_def)
    ultimately show ?thesis using False by (simp add: plan_law_def cut(6) split: if_splits)
  qed
  show ?thesis unfolding plan_ok_def using assms(1) law st nd protected_cong [OF st] old_turn_cong [OF st] cmp_staticD [OF st]
    by (simp add: plan_ok_def cut(6) cmp_lens_def)
qed

lemma l2_run_plan_ok:
  "plan_ok x0 x \<Longrightarrow> set is \<subseteq> {..<length (cx_ents x)} \<Longrightarrow> cc_l2_enabled (cx_cfg x) \<Longrightarrow>
   mem_compress_gate_pass (Some (cc_gate (cx_cfg x))) \<Longrightarrow> plan_ok x0 (foldl (l2_extract env fr) x is)"
proof (induction "is" arbitrary: x)
  case Nil
  then show ?case by simp
next
  case (Cons i "is")
  have ok: "plan_ok x0 (l2_extract env fr x i)" using Cons.prems by (intro l2_extract_plan_ok) auto
  have "cmp_static (l2_extract env fr x i) = cmp_static x"
    using ok Cons.prems(1) by (simp add: plan_ok_def)
  note st = cmp_staticD [OF this]
  show ?case using Cons.prems st ok by (auto intro!: Cons.IH)
qed

lemma turn_numbers_length [simp]: "length (turn_numbers c es) = length es"
  by (induction es arbitrary: c) (simp_all add: Let_def)

lemma stages_plan_ok:
  assumes "cmp_stages env led sid ents cfg = (x, used)"
  shows "plan_ok (fst (cmp_tokens env (cmp_turns (cmp_start env led ents cfg)))) x"
proof -
  let ?x0 = "fst (cmp_tokens env (cmp_turns (cmp_start env led ents cfg)))"
  have "l1_upto ?x0 ?x0 0"
    by (simp add: l1_upto_def cmp_lens_def cmp_tokens_def cmp_turns_def cmp_start_def Let_def)
  from l1_upto_run [OF this order.refl] have u: "l1_upto ?x0 (cmp_l1 ?x0) (length (cx_ents ?x0))"
    by (simp add: cmp_l1_def)
  then have "cx_ents (cmp_l1 ?x0) = cx_ents ?x0" by (auto simp: l1_upto_def dest: cmp_staticD)
  with u have p: "plan_ok ?x0 (cmp_l1 ?x0)" by (intro l1_upto_plan_ok) simp
  have "x = cmp_l2 env led sid used (cmp_l1 ?x0)"
    using assms by (auto simp: cmp_stages_def split: prod.splits)
  then show ?thesis using p by (auto simp: cmp_l2_def Let_def intro!: l2_run_plan_ok)
qed

lemma last_user:
  "foldl (\<lambda>cu i. if P i then int i else cu) (- 1) [0..<k] = int i \<longleftrightarrow> i < k \<and> P i \<and> (\<forall>j. i < j \<and> j < k \<longrightarrow> \<not> P j)"
proof (induction k)
  case 0
  then show ?case by simp
next
  case (Suc k)
  show ?case
  proof (cases "P k")
    case True
    then show ?thesis by (auto simp: less_Suc_eq)
  next
    case False
    with Suc show ?thesis by (auto simp: less_Suc_eq)
  qed
qed

text \<open>The entries that are never compressed: system, tool definitions, cache hits, the current request.\<close>

definition must_keep :: "compress_entry_in list \<Rightarrow> nat \<Rightarrow> bool" where
  "must_keep ents i \<longleftrightarrow> i < length ents \<and>
     (ci_entry_type (ents ! i) \<in> {LEDGER_ENTRY_SYSTEM, LEDGER_ENTRY_TOOL_DEF, LEDGER_ENTRY_CACHE_HIT} \<or>
      ci_entry_type (ents ! i) = LEDGER_ENTRY_USER \<and>
      (\<forall>j. i < j \<and> j < length ents \<longrightarrow> ci_entry_type (ents ! j) \<noteq> LEDGER_ENTRY_USER))"

definition entry_text :: "compress_entry_in \<Rightarrow> string" where
  "entry_text e = (case ci_text e of Some t \<Rightarrow> t | None \<Rightarrow> [])"

lemma stages_static:
  assumes "cmp_stages env led sid ents cfg = (x, used)"
  shows "cx_ents x = ents" "cx_cfg x = cmp_cfg cfg" "cx_turn_of x = turn_numbers 0 ents"
    "cx_turns x = (if ents = [] then 0 else last (turn_numbers 0 ents))"
    "i < length ents \<Longrightarrow> cmp_protected x i = must_keep ents i"
proof -
  let ?x0 = "fst (cmp_tokens env (cmp_turns (cmp_start env led ents cfg)))"
  have "cmp_static x = cmp_static ?x0" using stages_plan_ok [OF assms] by (simp add: plan_ok_def)
  note st = cmp_staticD [OF this]
  have x0: "cx_ents ?x0 = ents" "cx_cfg ?x0 = cmp_cfg cfg" "cx_turn_of ?x0 = turn_numbers 0 ents"
    "cx_turns ?x0 = (if turn_numbers 0 ents = [] then 0 else last (turn_numbers 0 ents))"
    "cx_cur_user ?x0 = foldl (\<lambda>cu i. if ci_entry_type (ents ! i) = LEDGER_ENTRY_USER then int i else cu) (- 1) [0..<length ents]"
    by (simp_all add: cmp_tokens_def cmp_turns_def cmp_start_def Let_def)
  have e: "turn_numbers 0 ents = [] \<longleftrightarrow> ents = []" by (metis length_0_conv turn_numbers_length)
  show "cx_ents x = ents" "cx_cfg x = cmp_cfg cfg" "cx_turn_of x = turn_numbers 0 ents"
    "cx_turns x = (if ents = [] then 0 else last (turn_numbers 0 ents))"
    using st x0 e by simp_all
  show "cmp_protected x i = must_keep ents i" if "i < length ents"
    using that st x0 last_user [of "\<lambda>i. ci_entry_type (ents ! i) = LEDGER_ENTRY_USER" "length ents" i]
    by (auto simp: cmp_protected_def must_keep_def Let_def eq_commute [of "int i"])
qed

lemma plan_unfold:
  assumes "ents \<noteq> []" and "cmp_stages env led sid ents cfg = (x, used)"
  shows "cr_context (mem_compress_plan env led sid ents cfg) =
      Some (join_nl (map (cmp_piece x) (filter (cmp_kept x) [0..<length ents])))"
    "map cp_entry_id (cr_actions (mem_compress_plan env led sid ents cfg)) =
      map (\<lambda>i. ci_entry_id (ents ! i)) (filter (\<lambda>i. cx_act x ! i \<noteq> COMPRESS_ACTION_NONE) [0..<length ents])"
  using assms stages_static(1) [OF assms(2)] by (simp_all add: mem_compress_plan_def cmp_build_def Let_def)

lemma protected_untouched:
  assumes "cmp_stages env led sid ents cfg = (x, used)" and "must_keep ents i"
  shows "cx_act x ! i = COMPRESS_ACTION_NONE \<and> cmp_kept x i \<and> cmp_piece x i = entry_text (ents ! i)"
proof -
  have i: "i < length ents" using assms(2) by (simp add: must_keep_def)
  with stages_static [OF assms(1)] assms(2) have p: "cmp_protected x i" "cx_ents x = ents" by simp_all
  have "plan_law x i" using stages_plan_ok [OF assms(1)] i p(2) by (auto simp: plan_ok_def)
  with p have "cx_act x ! i = COMPRESS_ACTION_NONE" "cx_repl x ! i = None"
    by (auto simp: plan_law_def extracted_def l1_law_def split: if_splits)
  then show ?thesis using p(2) by (simp add: cmp_kept_def cmp_piece_def entry_text_def)
qed

text \<open>
  C27. System prompts, tool definitions, cache hits and the current request (the last user entry)
  survive every compression: their texts, verbatim and in order, are among the pieces the new
  context is joined from, and no action is reported for them.
\<close>

theorem compress_protects:
  assumes "ents \<noteq> []"
  shows "\<exists>pieces acted.
     cr_context (mem_compress_plan env led sid ents cfg) = Some (join_nl pieces) \<and>
     subseq (map (\<lambda>i. entry_text (ents ! i)) (filter (must_keep ents) [0..<length ents])) pieces \<and>
     map cp_entry_id (cr_actions (mem_compress_plan env led sid ents cfg)) =
       map (\<lambda>i. ci_entry_id (ents ! i)) (filter acted [0..<length ents]) \<and>
     (\<forall>i. must_keep ents i \<longrightarrow> \<not> acted i)"
proof -
  obtain x used where x: "cmp_stages env led sid ents cfg = (x, used)" by fastforce
  let ?n = "[0..<length ents]"
  have "map (\<lambda>i. entry_text (ents ! i)) (filter (must_keep ents) ?n) = map (cmp_piece x) (filter (must_keep ents) ?n)"
    using protected_untouched [OF x] by (simp add: map_eq_conv)
  moreover have "filter (must_keep ents) ?n = filter (must_keep ents) (filter (cmp_kept x) ?n)"
    using protected_untouched [OF x] by (simp add: filter_filter conj_commute cong: filter_cong) metis
  ultimately have "subseq (map (\<lambda>i. entry_text (ents ! i)) (filter (must_keep ents) ?n)) (map (cmp_piece x) (filter (cmp_kept x) ?n))"
    by (metis subseq_filter_left subseq_map)
  then show ?thesis using plan_unfold [OF assms x] protected_untouched [OF x]
    by (intro exI [of _ "map (cmp_piece x) (filter (cmp_kept x) ?n)"] exI [of _ "\<lambda>i. cx_act x ! i \<noteq> COMPRESS_ACTION_NONE"]) auto
qed

definition ex_cenv :: compress_env where
  "ex_cenv = ledger_env.extend ex_ledger_env \<lparr>cv_words = \<lambda>_. []\<rparr>"

definition ex_ce :: "string \<Rightarrow> int \<Rightarrow> string \<Rightarrow> compress_entry_in" where
  "ex_ce eid ty t = \<lparr>ci_entry_id = eid, ci_entry_type = ty, ci_text = Some t, ci_token_in = 0\<rparr>"

theorem compress_protects_witness:
  "\<exists>pieces. cr_context (mem_compress_plan ex_cenv None ''s'' [ex_ce ''a'' LEDGER_ENTRY_SYSTEM ''sys'', ex_ce ''b'' LEDGER_ENTRY_USER ''hi''] None) = Some (join_nl pieces) \<and>
     subseq [''sys'', ''hi''] pieces"
proof -
  let ?es = "[ex_ce ''a'' LEDGER_ENTRY_SYSTEM ''sys'', ex_ce ''b'' LEDGER_ENTRY_USER ''hi'']"
  have "?es \<noteq> []" by simp
  from compress_protects [OF this, of ex_cenv None "''s''" None]
  obtain pieces where p: "cr_context (mem_compress_plan ex_cenv None ''s'' ?es None) = Some (join_nl pieces)"
    "subseq (map (\<lambda>i. entry_text (?es ! i)) (filter (must_keep ?es) [0..<length ?es])) pieces" by blast
  have "must_keep ?es 0" by (simp add: must_keep_def ex_ce_def ledger_codes)
  moreover have "must_keep ?es (Suc 0)" by (simp add: must_keep_def ex_ce_def ledger_codes)
  ultimately have "subseq [''sys'', ''hi''] pieces" using p(2) by (simp add: entry_text_def ex_ce_def)
  with p(1) show ?thesis by blast
qed

lemma turn_numbers_bounds:
  "i < length es \<Longrightarrow> c \<le> turn_numbers c es ! i \<and> turn_numbers c es ! i \<le> last (turn_numbers c es)"
proof (induction es arbitrary: c i)
  case Nil
  then show ?case by simp
next
  case (Cons e es)
  let ?c = "if ci_entry_type e = LEDGER_ENTRY_USER then c + 1 else c"
  show ?case
  proof (cases "es = []")
    case True
    with Cons.prems show ?thesis by (simp add: Let_def)
  next
    case False
    then have ne: "turn_numbers ?c es \<noteq> []" by (metis length_0_conv turn_numbers_length)
    from False have "?c \<le> last (turn_numbers ?c es)"
      using Cons.IH [of "length es - 1" ?c] by simp
    with Cons.IH [of "i - 1" ?c] Cons.prems ne show ?thesis
      by (cases i) (auto simp: Let_def)
  qed
qed

lemma must_keep_user_turn:
  assumes "must_keep ents i" and "ci_entry_type (ents ! i) = LEDGER_ENTRY_USER"
  shows "turn_numbers c ents ! i = last (turn_numbers c ents)"
  using assms
proof (induction ents arbitrary: c i)
  case Nil
  then show ?case by (simp add: must_keep_def)
next
  case (Cons e es)
  let ?c = "if ci_entry_type e = LEDGER_ENTRY_USER then c + 1 else c"
  show ?case
  proof (cases i)
    case 0
    have "ci_entry_type (es ! k) \<noteq> LEDGER_ENTRY_USER" if "k < length es" for k
    proof -
      have "ci_entry_type ((e # es) ! Suc k) \<noteq> LEDGER_ENTRY_USER"
        using Cons.prems 0 that by (auto simp: must_keep_def ledger_codes)
      then show ?thesis by simp
    qed
    then have "\<forall>x\<in>set es. ci_entry_type x \<noteq> LEDGER_ENTRY_USER" by (auto simp: in_set_conv_nth)
    then have "turn_numbers d es = replicate (length es) d" for d by (induction es) (simp_all add: Let_def)
    then show ?thesis using 0 by (simp add: Let_def last_replicate)
  next
    case (Suc j)
    have j: "j < length es" using Cons.prems(1) Suc by (simp add: must_keep_def)
    have "ci_entry_type (es ! k) \<noteq> LEDGER_ENTRY_USER" if "j < k" "k < length es" for k
    proof -
      have "ci_entry_type ((e # es) ! Suc k) \<noteq> LEDGER_ENTRY_USER"
        using Cons.prems Suc that by (auto simp: must_keep_def ledger_codes)
      then show ?thesis by simp
    qed
    with j Cons.prems(2) Suc have m: "must_keep es j" by (simp add: must_keep_def)
    from j have "turn_numbers ?c es \<noteq> []" by (metis length_0_conv less_nat_zero_code turn_numbers_length)
    then show ?thesis using Cons.IH [OF m, of ?c] Cons.prems(2) Suc by (simp add: Let_def)
  qed
qed

text \<open>
  With the first stage on and a limit of at least two turns, the conversation that is kept (user,
  assistant and tool entries) spans at most \<open>max_turns\<close> turns: the first one and the latest ones.
\<close>

theorem compress_turns_bounded:
  assumes "cc_l1_enabled (cmp_cfg cfg)" and "2 \<le> int_of_size (cc_max_turns (cmp_cfg cfg))"
  shows "int (card {turn_numbers 0 ents ! i | i. i < length ents \<and> conversational (ents ! i) \<and>
       0 < turn_numbers 0 ents ! i \<and> cmp_kept (fst (cmp_stages env led sid ents cfg)) i})
     \<le> int_of_size (cc_max_turns (cmp_cfg cfg))"
proof -
  let ?mt = "int_of_size (cc_max_turns (cmp_cfg cfg))" and ?T = "last (turn_numbers 0 ents)"
  obtain x used where x: "cmp_stages env led sid ents cfg = (x, used)" by fastforce
  note st = stages_static [OF x] and pk = stages_plan_ok [OF x]
  let ?K = "{turn_numbers 0 ents ! i | i. i < length ents \<and> conversational (ents ! i) \<and>
       0 < turn_numbers 0 ents ! i \<and> cmp_kept (fst (cmp_stages env led sid ents cfg)) i}"
  show ?thesis
  proof (cases "?T \<le> ?mt \<or> ents = []")
    case True
    then have "?K \<subseteq> {1..?mt}" using turn_numbers_bounds [of _ ents 0] by fastforce
    from card_mono [OF _ this] have "card ?K \<le> nat ?mt" by simp
    then show ?thesis using assms(2) by linarith
  next
    case False
    have "turn_numbers 0 ents ! i \<in> insert 1 {?T - ?mt + 2..?T}"
      if i: "i < length ents" "conversational (ents ! i)" "0 < turn_numbers 0 ents ! i" "cmp_kept x i" for i
    proof -
      have nd: "cx_act x ! i \<noteq> COMPRESS_ACTION_DROP" using i(4) by (simp add: cmp_kept_def)
      have "cmp_protected x i \<or> \<not> old_turn x i"
        using pk i(1) nd assms(1) st(1,2) by (auto simp: plan_ok_def)
      then show ?thesis
      proof
        assume "cmp_protected x i"
        then have mk: "must_keep ents i" using st(5) i(1) by simp
        then have "ci_entry_type (ents ! i) = LEDGER_ENTRY_USER"
          using i(2) by (auto simp: must_keep_def conversational_def ledger_codes)
        from must_keep_user_turn [OF mk this, of 0] show ?thesis using assms(2) by simp
      next
        assume "\<not> old_turn x i"
        then show ?thesis using False i assms(2) st turn_numbers_bounds [OF i(1), of 0]
          by (auto simp: old_turn_def Let_def)
      qed
    qed
    then have "?K \<subseteq> insert 1 {?T - ?mt + 2..?T}" unfolding x fst_conv by blast
    from card_mono [OF _ this] have "card ?K \<le> card (insert 1 {?T - ?mt + 2..?T})" by simp
    also have "\<dots> \<le> Suc (nat (?mt - 1))" by (simp add: card_insert_if)
    finally show ?thesis using assms(2) by linarith
  qed
qed

theorem compress_turns_bounded_witness:
  "int (card {turn_numbers 0 [ex_ce ''a'' LEDGER_ENTRY_USER ''hi''] ! i | i. i < 1 \<and>
      conversational ([ex_ce ''a'' LEDGER_ENTRY_USER ''hi''] ! i) \<and>
      0 < turn_numbers 0 [ex_ce ''a'' LEDGER_ENTRY_USER ''hi''] ! i \<and>
      cmp_kept (fst (cmp_stages ex_cenv None ''s'' [ex_ce ''a'' LEDGER_ENTRY_USER ''hi''] None)) i}) \<le> 20"
proof -
  have "cc_l1_enabled (cmp_cfg None)" by (simp add: cmp_cfg_def cmp_defaults_def)
  moreover have m: "int_of_size (cc_max_turns (cmp_cfg None)) = 20"
    by (simp add: cmp_cfg_def cmp_defaults_def COMPRESS_DEFAULT_MAX_TURNS_def int_of_size_def)
  ultimately show ?thesis
    using compress_turns_bounded [of None "[ex_ce ''a'' LEDGER_ENTRY_USER ''hi'']" ex_cenv None "''s''"]
    by simp
qed

text \<open>A duplicate that is removed leaves an earlier entry with the same text.\<close>

lemma dedup_leaves_copy:
  assumes "plan_ok x0 x" and "i < length (cx_ents x)" and "cx_act x ! i = COMPRESS_ACTION_DEDUP"
  shows "\<exists>j<i. cmp_kept x j \<and> ci_text (cx_ents x ! j) = ci_text (cx_ents x ! i)"
  using assms(2,3)
proof (induction i rule: less_induct)
  case (less i)
  have "plan_law x i" using assms(1) less.prems(1) by (simp add: plan_ok_def)
  then obtain j where j: "j < i" "cx_act x ! j \<noteq> COMPRESS_ACTION_DROP" "ci_text (cx_ents x ! j) = ci_text (cx_ents x ! i)"
    using less.prems(2) by (auto simp: plan_law_def l1_law_def)
  show ?case
  proof (cases "cx_act x ! j = COMPRESS_ACTION_DEDUP")
    case True
    with less.IH [OF j(1)] less.prems(1) j obtain k where "k < j" "cmp_kept x k" "ci_text (cx_ents x ! k) = ci_text (cx_ents x ! j)"
      by auto
    with j show ?thesis by (metis order.strict_trans)
  next
    case False
    with j show ?thesis by (auto simp: cmp_kept_def)
  qed
qed

lemma gate_pass_iff:
  "mem_compress_gate_pass (Some g) \<longleftrightarrow> cg_grayscale_enabled g \<and>
     (\<exists>acr ttft. cg_acr g = Some acr \<and> cg_ttft_ms g = Some ttft \<and> 95 / 100 \<le> acr \<and> acr \<le> 1 \<and> 0 \<le> ttft \<and> ttft \<le> 800)"
  by (auto simp: mem_compress_gate_pass_def COMPRESS_GATE_MIN_ACR_def COMPRESS_GATE_MAX_TTFT_MS_def split: option.split)

text \<open>
  Every action of a plan is justified. A dropped entry belongs to a turn beyond the limit; a
  duplicate leaves an earlier copy in the context; a truncated entry is a tool result over the
  token limit, kept with its first and last two fifths; an extract is shorter than its text and
  occurs only when the second stage is on and its gate passes (measured fidelity at least 0.95,
  latency at most 800 ms). An entry without an action is in the context unchanged.
\<close>

theorem compress_actions_justified:
  assumes "cmp_stages env led sid ents cfg = (x, used)" and "i < length ents"
  shows "case cx_act x ! i of
       COMPRESS_ACTION_NONE \<Rightarrow> cmp_kept x i \<and> cmp_piece x i = entry_text (ents ! i)
     | COMPRESS_ACTION_DROP \<Rightarrow> old_turn x i
     | COMPRESS_ACTION_DEDUP \<Rightarrow> (\<exists>j<i. cmp_kept x j \<and> ci_text (ents ! j) = ci_text (ents ! i))
     | COMPRESS_ACTION_TRUNCATE \<Rightarrow> truncated x i (Some (cmp_piece x i))
     | COMPRESS_ACTION_EXTRACT \<Rightarrow> length (cmp_piece x i) < length (entry_text (ents ! i)) \<and> cc_l2_enabled (cmp_cfg cfg) \<and>
         (\<exists>acr ttft. cg_acr (cc_gate (cmp_cfg cfg)) = Some acr \<and> cg_ttft_ms (cc_gate (cmp_cfg cfg)) = Some ttft \<and>
            95 / 100 \<le> acr \<and> ttft \<le> 800)"
proof -
  note st = stages_static [OF assms(1)] and pk = stages_plan_ok [OF assms(1)]
  have i: "i < length (cx_ents x)" using assms(2) st(1) by simp
  have law: "plan_law x i" using pk i by (simp add: plan_ok_def)
  show ?thesis
  proof (cases "cx_act x ! i")
    case COMPRESS_ACTION_NONE
    with law show ?thesis by (simp add: plan_law_def l1_law_def cmp_kept_def cmp_piece_def entry_text_def st(1))
  next
    case COMPRESS_ACTION_TRUNCATE
    with law have t: "truncated x i (cx_repl x ! i)" by (simp add: plan_law_def l1_law_def)
    then have "cx_repl x ! i = Some (cmp_piece x i)" by (auto simp: truncated_def cmp_piece_def)
    with t COMPRESS_ACTION_TRUNCATE show ?thesis by simp
  next
    case COMPRESS_ACTION_EXTRACT
    with law have "extracted x i" by (simp add: plan_law_def)
    with COMPRESS_ACTION_EXTRACT show ?thesis
      by (auto simp: extracted_def gate_pass_iff cmp_piece_def entry_text_def st(1,2))
  next
    case COMPRESS_ACTION_DROP
    with pk i have "old_turn x i" by (auto simp: plan_ok_def)
    with COMPRESS_ACTION_DROP show ?thesis by simp
  next
    case COMPRESS_ACTION_DEDUP
    with dedup_leaves_copy [OF pk i] st(1) show ?thesis by auto
  qed
qed

theorem compress_actions_justified_witness:
  "let x = fst (cmp_stages ex_cenv None ''s'' [ex_ce ''a'' LEDGER_ENTRY_USER ''q'', ex_ce ''b'' LEDGER_ENTRY_ASSISTANT ''bbbb'',
              ex_ce ''c'' LEDGER_ENTRY_ASSISTANT ''bbbb''] None)
   in cx_act x ! 2 = COMPRESS_ACTION_DEDUP \<and> (\<exists>j<2. cmp_kept x j)"
proof -
  let ?es = "[ex_ce ''a'' LEDGER_ENTRY_USER ''q'', ex_ce ''b'' LEDGER_ENTRY_ASSISTANT ''bbbb'', ex_ce ''c'' LEDGER_ENTRY_ASSISTANT ''bbbb'']"
  obtain x u where x: "cmp_stages ex_cenv None ''s'' ?es None = (x, u)" by fastforce
  have "cx_act (fst (cmp_stages ex_cenv None ''s'' ?es None)) ! 2 = COMPRESS_ACTION_DEDUP" by code_simp
  with compress_actions_justified [OF x, of 2] x show ?thesis by auto
qed

section \<open>Compression and ledger together\<close>

lemma la_all_mark: "mark_memory_ok (LMark la_all sid eids st)"
  by (simp add: mark_memory_ok_def la_all_def)

lemma book_action_ok: "ledger_ok (fst lm) \<Longrightarrow> ledger_ok (fst (book_action env sid lm a))"
  using ledger_step_ok [OF _ la_all_mark, of "fst lm" "ledger_env.truncate env" sid "[cp_entry_id a]" "action_status (cp_action a)"]
  by (auto simp: book_action_def split: prod.split sum.split)

interpretation bk: inv_machine "book_action env sid" "\<lambda>lm. ledger_ok (fst lm)" for env sid
  by unfold_locales (rule book_action_ok)

lemma handle_compress_cases:
  obtains l1 m acts res where "foldl (book_action env sid) (l, 0) acts = (l1, m)"
    "handle_compress env l sid items l1_on l2_on gate = (l1, res, m) \<or>
     handle_compress env l sid items l1_on l2_on gate =
       (fst (mem_ledger_append (ledger_env.truncate env) la_all l1 sid [compressed_block res]), res, m)"
proof -
  let ?res = "mem_compress_plan env (Some l) sid (request_entries items) (Some (request_config l1_on l2_on gate))"
  obtain l1 m where "foldl (book_action env sid) (l, 0) (cr_actions ?res) = (l1, m)" by fastforce
  then show ?thesis by (intro that [of "cr_actions ?res" l1 m ?res]) (simp_all add: handle_compress_def Let_def)
qed

text \<open>Booking a compression keeps the accounts of the ledger exact.\<close>

lemma handle_compress_ledger_ok:
  assumes "ledger_ok l"
  shows "ledger_ok (fst (handle_compress env l sid items l1_on l2_on gate))"
proof -
  obtain l1 m acts res where f: "foldl (book_action env sid) (l, 0) acts = (l1, m)"
    and h: "handle_compress env l sid items l1_on l2_on gate = (l1, res, m) \<or>
      handle_compress env l sid items l1_on l2_on gate =
       (fst (mem_ledger_append (ledger_env.truncate env) la_all l1 sid [compressed_block res]), res, m)"
    by (rule handle_compress_cases)
  have l1: "ledger_ok l1" using bk.run_inv [of "(l, 0)" env sid acts] assms f by simp
  obtain l2 r where a: "mem_ledger_append (ledger_env.truncate env) la_all l1 sid [compressed_block res] = (l2, r)" by fastforce
  from h l1 append_keeps_ok [OF l1 a] show ?thesis by (auto simp: a)
qed

lemma mark_single_bound: "mem_ledger_mark env al l sid [eid] st = (l', Inr n) \<Longrightarrow> n \<le> 1"
  by (auto simp: mem_ledger_mark_def split: if_splits option.splits prod.splits)

lemma book_action_count: "snd lm \<le> 1 \<Longrightarrow> snd (book_action env sid lm a) \<le> 1"
  by (auto simp: book_action_def split: prod.split sum.split dest: mark_single_bound)

interpretation bkc: inv_machine "book_action env sid" "\<lambda>lm. snd lm \<le> (1 :: nat)" for env sid
  by unfold_locales (rule book_action_count)

text \<open>
  The number of marked entries in the answer is that of the last action only: never more than one,
  however many entries were marked.
\<close>

lemma compress_marked_at_most_one: "snd (snd (handle_compress env l sid items l1_on l2_on gate)) \<le> 1"
proof -
  obtain l1 m acts res where f: "foldl (book_action env sid) (l, 0) acts = (l1, m)"
    and h: "handle_compress env l sid items l1_on l2_on gate = (l1, res, m) \<or>
      handle_compress env l sid items l1_on l2_on gate =
       (fst (mem_ledger_append (ledger_env.truncate env) la_all l1 sid [compressed_block res]), res, m)"
    by (rule handle_compress_cases)
  have "m \<le> 1" using bkc.run_inv [of "(l, 0)" env sid acts] f by simp
  with h show ?thesis by auto
qed

text \<open>When the last action concerns an entry the ledger does not have, no block is booked at all.\<close>

lemma compress_block_lost:
  assumes "session_find (fst lm) sid = Some k" and "entry_find_by_id (ml_sessions (fst lm) ! k) (cp_entry_id a) = None"
  shows "snd (book_action env sid lm a) = 0"
  using assms by (simp add: book_action_def mem_ledger_mark_def action_status_def ledger_codes)

text \<open>A three-byte separator ends a sentence, but the next one starts with its last two bytes.\<close>

lemma split_leaves_stray_bytes:
  "split_sentences (''a'' @ [CHR 0xE3, CHR 0x80, CHR 0x82] @ ''b'') = [''a'', [CHR 0x80, CHR 0x82] @ ''b'']"
  by code_simp

definition ex_ledger1 :: mem_ledger where
  "ex_ledger1 = fst (mem_ledger_append ex_ledger_env la_all ex_ledger0 ''s''
     [ex_in LEDGER_ENTRY_USER ''aaaa'', ex_in LEDGER_ENTRY_ASSISTANT ''bbbb'', ex_in LEDGER_ENTRY_ASSISTANT ''bbbb''])"

lemma ex_cenv_simps: "lv_count ex_cenv f t = of_nat (length t)" "ledger_env.truncate ex_cenv = ex_ledger_env"
  by (simp_all add: ex_cenv_def ex_ledger_env_def ledger_env.defs)

lemmas plan_defs = mem_compress_plan_def cmp_stages_def cmp_start_def cmp_turns_def cmp_tokens_def cmp_token_def
  cmp_cfg_def cmp_l1_def cmp_l1_entry_def cmp_protected_def l1_drop_turn_def l1_truncate_def l1_dedup_def l1_hash_def
  dup_of_def cmp_l2_def cmp_build_def cmp_kept_def cmp_piece_def join_nl_def cmp_saved_def

text \<open>
  The block that is booked holds the whole new context, also the parts whose entries stay active:
  removing a duplicate of four tokens raises the tokens in use from 12 to 17.
\<close>

lemma compress_raises_budget:
  "let items = [(''00000000000000000000000000000001'', Some ''user'', Some ''aaaa''),
                (''00000000000000000000000000000003'', Some ''assistant'', Some ''bbbb''),
                (''00000000000000000000000000000005'', Some ''assistant'', Some ''bbbb'')];
       (l, res, marked) = handle_compress ex_cenv ex_ledger1 ''s'' items True False (cc_gate cmp_defaults)
   in marked = 1 \<and> cr_saved res = 3 \<and> fst (mem_ledger_budget ex_ledger1 ''s'') = 12 \<and> fst (mem_ledger_budget l ''s'') = 17"
proof -
  have id7: "entry_id_gen ex_ledger_env 7 = ''00000000000000000000000000000007''"
    and id9: "entry_id_gen ex_ledger_env 9 = ''00000000000000000000000000000009''" by code_simp+
  have p: "mem_compress_plan ex_cenv (Some l) ''s'' (request_entries
      [(''00000000000000000000000000000001'', Some ''user'', Some ''aaaa''),
       (''00000000000000000000000000000003'', Some ''assistant'', Some ''bbbb''),
       (''00000000000000000000000000000005'', Some ''assistant'', Some ''bbbb'')])
      (Some (request_config True False (cc_gate cmp_defaults))) =
    \<lparr>cr_context = Some (''aaaa'' @ [chr_nl] @ ''bbbb''), cr_saved = 3,
     cr_actions = [\<lparr>cp_entry_id = ''00000000000000000000000000000005'', cp_entry_type = 4, cp_action = COMPRESS_ACTION_DEDUP\<rparr>]\<rparr>" for l
    by (simp add: plan_defs request_entries_def request_config_def item_type_def ledger_type_from_string_def ledger_codes
        ex_cenv_simps COMPRESS_DEFAULT_MAX_TOOL_TOKENS_def COMPRESS_DEFAULT_MAX_TURNS_def int_of_size_def Let_def)
  show ?thesis
    by (simp add: handle_compress_def p compressed_block_def book_action_def action_status_def
        ex_ledger1_def ex_run_defs ex_id1 ex_id3 ex_id5 id7 id9 ex_cenv_simps)
qed

end
