(* ===== verification/Mem_Vector.thy ===== *)
theory Mem_Vector
  imports Complex_Main "HOL-Library.Multiset" Airy_Prelude
begin

unbundle bit_operations_syntax

text \<open>
  mem_d, vectors for the search (\<open>engine/vector.c\<close>): the tokenizer, the term vector of a text, the
  table of document frequencies, and the cosine of two weighted vectors.

  A text is the list of its bytes. A term frequency is a float that counts by ones, so it stops at
  \<open>2^24\<close>. The frequency table is open addressing with tombstones; a slot carries the key and the
  count only while it is in use. Hashes are 64-bit words, sizes natural numbers. The weights of the
  cosine are doubles in the code and reals here. Allocation failure is not modelled.
\<close>

section \<open>Tokens\<close>

definition MEM_VEC_MAX_WORD_LEN :: nat where "MEM_VEC_MAX_WORD_LEN = 63"

definition mem_stopwords :: "string list" where
  "mem_stopwords =
     [''a'', ''am'', ''an'', ''and'', ''are'', ''as'', ''at'', ''be'', ''been'', ''being'',
      ''but'', ''by'', ''can'', ''could'', ''did'', ''do'', ''does'', ''for'', ''from'', ''had'',
      ''has'', ''have'', ''he'', ''her'', ''his'', ''i'', ''if'', ''in'', ''into'', ''is'',
      ''it'', ''its'', ''may'', ''me'', ''might'', ''must'', ''my'', ''no'', ''not'', ''of'',
      ''on'', ''or'', ''our'', ''she'', ''should'', ''so'', ''than'', ''that'', ''the'',
      ''their'', ''them'', ''then'', ''there'', ''these'', ''they'', ''this'', ''those'', ''to'',
      ''too'', ''us'', ''was'', ''we'', ''were'', ''what'', ''when'', ''where'', ''which'',
      ''who'', ''will'', ''with'', ''would'', ''you'', ''your'', ''s'', ''t'', ''m'', ''d'',
      ''re'', ''ll'', ''ve'']"

definition mem_vec_is_stopword :: "string \<Rightarrow> bool" where
  "mem_vec_is_stopword term \<longleftrightarrow> term \<noteq> [] \<and> term \<in> set mem_stopwords"

definition byte_of :: "char \<Rightarrow> 32 word" where
  "byte_of c = of_nat (of_char c)"

definition mem_utf8_seq_len :: "char \<Rightarrow> nat" where
  "mem_utf8_seq_len c =
     (let b = byte_of c
      in if b < 0x80 then 1
         else if b AND 0xE0 = 0xC0 then 2
         else if b AND 0xF0 = 0xE0 then 3
         else if b AND 0xF8 = 0xF0 then 4
         else 0)"

definition mem_utf8_decode :: "string \<Rightarrow> nat \<Rightarrow> 32 word" where
  "mem_utf8_decode s len =
     (let b = (\<lambda>i. byte_of (s ! i))
      in if len = 2 then push_bit 6 (b 0 AND 0x1F) OR (b 1 AND 0x3F)
         else if len = 3 then push_bit 12 (b 0 AND 0x0F) OR push_bit 6 (b 1 AND 0x3F) OR (b 2 AND 0x3F)
         else if len = 4 then push_bit 18 (b 0 AND 0x07) OR push_bit 12 (b 1 AND 0x3F) OR
                              push_bit 6 (b 2 AND 0x3F) OR (b 3 AND 0x3F)
         else 0)"

definition mem_utf8_is_cjk :: "32 word \<Rightarrow> bool" where
  "mem_utf8_is_cjk cp \<longleftrightarrow>
     0x3400 \<le> cp \<and> cp \<le> 0x4DBF \<or> 0x4E00 \<le> cp \<and> cp \<le> 0x9FFF \<or>
     0xF900 \<le> cp \<and> cp \<le> 0xFAFF \<or> 0x20000 \<le> cp \<and> cp \<le> 0x2FA1F"

section \<open>Term vectors\<close>

type_synonym mem_vec_terms = "(string \<times> nat) list"

record mem_tfidf_vec =
  tv_terms :: mem_vec_terms
  tv_total :: nat

text \<open>\<open>tf += 1.0f\<close>: from \<open>2^24\<close> on the sum rounds back.\<close>

definition tf_inc :: "nat \<Rightarrow> nat" where
  "tf_inc n = (if n < 2 ^ 24 then n + 1 else n)"

fun mem_vec_upsert :: "mem_vec_terms \<Rightarrow> string \<Rightarrow> mem_vec_terms" where
  "mem_vec_upsert [] t = [(t, 1)]"
| "mem_vec_upsert ((u, n) # v) t = (if u = t then (u, tf_inc n) # v else (u, n) # mem_vec_upsert v t)"

text \<open>The loop: vector and number of tokens so far, the word buffer (reversed), the last ideograph.\<close>

record vec_state =
  vs_terms :: mem_vec_terms
  vs_total :: nat
  vs_word :: string
  vs_last_han :: string

definition vec_put :: "vec_state \<Rightarrow> string \<Rightarrow> vec_state" where
  "vec_put s t = s\<lparr>vs_terms := mem_vec_upsert (vs_terms s) t, vs_total := vs_total s + 1\<rparr>"

definition vec_word_flush :: "vec_state \<Rightarrow> vec_state" where
  "vec_word_flush s =
     (if vs_word s = [] then s
      else let w = rev (vs_word s)
           in (if mem_vec_is_stopword w then s else vec_put s w)\<lparr>vs_word := []\<rparr>)"

definition vec_han_step :: "vec_state \<Rightarrow> string \<Rightarrow> vec_state" where
  "vec_han_step s buf =
     (let s1 = vec_put s buf;
          s2 = (if vs_last_han s \<noteq> [] then vec_put s1 (snprintf_s 9 (vs_last_han s @ buf)) else s1)
      in s2\<lparr>vs_last_han := buf\<rparr>)"

definition c_alnum :: "char \<Rightarrow> bool" where
  "c_alnum c \<longleftrightarrow> (let n = of_char c :: nat in 97 \<le> n \<and> n \<le> 122 \<or> 65 \<le> n \<and> n \<le> 90 \<or> 48 \<le> n \<and> n \<le> 57)"

definition c_lower :: "char \<Rightarrow> char" where
  "c_lower c = (if 65 \<le> (of_char c :: nat) \<and> (of_char c :: nat) \<le> 90 then char_of ((of_char c :: nat) + 32) else c)"

function vec_scan :: "vec_state \<Rightarrow> string \<Rightarrow> vec_state" where
  "vec_scan s [] = vec_word_flush s"
| "vec_scan s (c # cs) =
     (if c_alnum c then
        vec_scan (if length (vs_word s) < MEM_VEC_MAX_WORD_LEN then s\<lparr>vs_word := c_lower c # vs_word s\<rparr> else s) cs
      else let s = vec_word_flush s; slen = mem_utf8_seq_len c
           in if byte_of c < 0x80 then vec_scan (s\<lparr>vs_last_han := []\<rparr>) cs
              else if slen < 2 \<or> length (c # cs) < slen then vec_scan (s\<lparr>vs_last_han := []\<rparr>) cs
              else if mem_utf8_is_cjk (mem_utf8_decode (c # cs) slen)
              then vec_scan (vec_han_step s (take slen (c # cs))) (drop slen (c # cs))
              else vec_scan (s\<lparr>vs_last_han := []\<rparr>) (drop slen (c # cs)))"
  by pat_completeness auto
termination by (relation "measure (\<lambda>(s, cs). length cs)") auto

definition mem_vec_build :: "string option \<Rightarrow> mem_tfidf_vec" where
  "mem_vec_build text =
     (case text of
        None \<Rightarrow> \<lparr>tv_terms = [], tv_total = 0\<rparr>
      | Some t \<Rightarrow>
          (let s = vec_scan \<lparr>vs_terms = [], vs_total = 0, vs_word = [], vs_last_han = []\<rparr> t
           in \<lparr>tv_terms = vs_terms s, tv_total = vs_total s\<rparr>))"

section \<open>Document frequencies\<close>

datatype mem_df_entry = DF_FREE | DF_TOMB | DF_USED string nat

record mem_df_table =
  dt_entries :: "mem_df_entry list"
  dt_capacity :: nat
  dt_count :: nat

datatype df_rc = DF_OK | DF_INVALID_PARAM | DF_BUSY | DF_EXISTS

definition mem_df_hash_fn :: "string \<Rightarrow> 64 word" where
  "mem_df_hash_fn s = foldl (\<lambda>h c. (push_bit 5 h + h) + of_nat (of_char c)) 5381 s"

definition mem_df_init :: "nat \<Rightarrow> mem_df_table option" where
  "mem_df_init capacity =
     (if capacity = 0 then None
      else Some \<lparr>dt_entries = replicate capacity DF_FREE, dt_capacity = capacity, dt_count = 0\<rparr>)"

definition df_home :: "mem_df_table \<Rightarrow> string \<Rightarrow> nat" where
  "df_home tbl t = unat (mem_df_hash_fn t) mod dt_capacity tbl"

text \<open>The positions every operation visits, in order.\<close>

definition df_probes :: "mem_df_table \<Rightarrow> string \<Rightarrow> nat list" where
  "df_probes tbl t = map (\<lambda>i. (df_home tbl t + i) mod dt_capacity tbl) [0..<dt_capacity tbl]"

text \<open>The scan of \<open>mem_df_get\<close>, \<open>mem_df_add\<close> and \<open>mem_df_remove\<close>: the used slot with the key.\<close>

fun df_locate :: "mem_df_entry list \<Rightarrow> string \<Rightarrow> nat list \<Rightarrow> nat option" where
  "df_locate es t [] = None"
| "df_locate es t (p # ps) =
     (case es ! p of
        DF_FREE \<Rightarrow> None
      | DF_TOMB \<Rightarrow> df_locate es t ps
      | DF_USED k d \<Rightarrow> if k = t then Some p else df_locate es t ps)"

definition df_at :: "mem_df_entry \<Rightarrow> nat" where
  "df_at e = (case e of DF_USED k d \<Rightarrow> d | _ \<Rightarrow> 0)"

definition mem_df_get :: "mem_df_table \<Rightarrow> string \<Rightarrow> nat" where
  "mem_df_get tbl t =
     (if dt_count tbl = 0 then 0
      else case df_locate (dt_entries tbl) t (df_probes tbl t) of
             None \<Rightarrow> 0 | Some p \<Rightarrow> df_at (dt_entries tbl ! p))"

text \<open>The slot a new key goes to: the first tombstone before the first free slot, else that slot.\<close>

fun df_insert_scan :: "mem_df_entry list \<Rightarrow> string \<Rightarrow> nat option \<Rightarrow> nat list \<Rightarrow> df_rc + nat option" where
  "df_insert_scan es t tomb [] = Inr tomb"
| "df_insert_scan es t tomb (p # ps) =
     (case es ! p of
        DF_FREE \<Rightarrow> Inr (if tomb = None then Some p else tomb)
      | DF_TOMB \<Rightarrow> df_insert_scan es t (if tomb = None then Some p else tomb) ps
      | DF_USED k d \<Rightarrow> if k = t then Inl DF_EXISTS else df_insert_scan es t tomb ps)"

definition mem_df_insert :: "mem_df_table \<Rightarrow> string \<Rightarrow> mem_df_table \<times> df_rc" where
  "mem_df_insert tbl t =
     (if dt_capacity tbl * 3 div 4 \<le> dt_count tbl then (tbl, DF_BUSY)
      else case df_insert_scan (dt_entries tbl) t None (df_probes tbl t) of
             Inl e \<Rightarrow> (tbl, e)
           | Inr None \<Rightarrow> (tbl, DF_BUSY)
           | Inr (Some p) \<Rightarrow>
               (tbl\<lparr>dt_entries := (dt_entries tbl)[p := DF_USED t 1], dt_count := dt_count tbl + 1\<rparr>, DF_OK))"

definition mem_df_add :: "mem_df_table \<Rightarrow> string \<Rightarrow> mem_df_table \<times> df_rc" where
  "mem_df_add tbl t =
     (case df_locate (dt_entries tbl) t (df_probes tbl t) of
        Some p \<Rightarrow> (tbl\<lparr>dt_entries := (dt_entries tbl)[p := DF_USED t (df_at (dt_entries tbl ! p) + 1)]\<rparr>, DF_OK)
      | None \<Rightarrow> mem_df_insert tbl t)"

definition mem_df_remove :: "mem_df_table \<Rightarrow> string \<Rightarrow> mem_df_table" where
  "mem_df_remove tbl t =
     (if dt_count tbl = 0 then tbl
      else case df_locate (dt_entries tbl) t (df_probes tbl t) of
             None \<Rightarrow> tbl
           | Some p \<Rightarrow>
               if 1 < df_at (dt_entries tbl ! p)
               then tbl\<lparr>dt_entries := (dt_entries tbl)[p := DF_USED t (df_at (dt_entries tbl ! p) - 1)]\<rparr>
               else tbl\<lparr>dt_entries := (dt_entries tbl)[p := DF_TOMB], dt_count := dt_count tbl - 1\<rparr>)"

definition mem_df_add_doc :: "mem_df_table \<Rightarrow> mem_tfidf_vec \<Rightarrow> mem_df_table" where
  "mem_df_add_doc tbl doc = foldl (\<lambda>tbl t. fst (mem_df_add tbl t)) tbl (map fst (tv_terms doc))"

definition mem_df_remove_doc :: "mem_df_table \<Rightarrow> mem_tfidf_vec \<Rightarrow> mem_df_table" where
  "mem_df_remove_doc tbl doc = foldl mem_df_remove tbl (map fst (tv_terms doc))"

section \<open>Similarity\<close>

definition mem_idf :: "nat \<Rightarrow> nat \<Rightarrow> real" where
  "mem_idf df doc_count =
     (if doc_count = 0 then 0 else ln ((real doc_count + 1) / (real df + 1)) + 1)"

definition term_weight :: "mem_df_table \<Rightarrow> nat \<Rightarrow> string \<times> nat \<Rightarrow> real" where
  "term_weight tbl n tn = real (snd tn) * mem_idf (mem_df_get tbl (fst tn)) n"

text \<open>The contribution of one query term: the first document term with its name.\<close>

definition dot_term :: "mem_df_table \<Rightarrow> nat \<Rightarrow> mem_vec_terms \<Rightarrow> string \<times> nat \<Rightarrow> real" where
  "dot_term tbl n doc tn =
     (case map_of doc (fst tn) of
        None \<Rightarrow> 0
      | Some tf \<Rightarrow> term_weight tbl n tn * (real tf * mem_idf (mem_df_get tbl (fst tn)) n))"

definition vec_norm2 :: "mem_df_table \<Rightarrow> nat \<Rightarrow> mem_vec_terms \<Rightarrow> real" where
  "vec_norm2 tbl n v = sum_list (map (\<lambda>tn. (term_weight tbl n tn)\<^sup>2) v)"

definition mem_vec_cosine :: "mem_tfidf_vec \<Rightarrow> mem_tfidf_vec \<Rightarrow> mem_df_table \<Rightarrow> nat \<Rightarrow> real" where
  "mem_vec_cosine query doc tbl n =
     (if tv_terms query = [] \<or> tv_terms doc = [] then 0
      else let dot = sum_list (map (dot_term tbl n (tv_terms doc)) (tv_terms query));
               q_norm = vec_norm2 tbl n (tv_terms query); d_norm = vec_norm2 tbl n (tv_terms doc)
           in if q_norm = 0 \<or> dot \<le> 0 then 0
              else if d_norm = 0 then 0
              else min 1 (max 0 (dot / (sqrt q_norm * sqrt d_norm))))"

section \<open>The frequency table as a map\<close>

text \<open>
  A key that is in the table lies behind no free slot on its probe path, no key is stored twice,
  and the counter is the number of used slots.
\<close>

definition df_used :: "mem_df_entry \<Rightarrow> bool" where
  "df_used e \<longleftrightarrow> e \<noteq> DF_FREE \<and> e \<noteq> DF_TOMB"

definition df_reach :: "mem_df_table \<Rightarrow> string \<Rightarrow> nat \<Rightarrow> bool" where
  "df_reach tbl k p \<longleftrightarrow> (\<exists>us vs. df_probes tbl k = us @ p # vs \<and> (\<forall>q\<in>set us. dt_entries tbl ! q \<noteq> DF_FREE))"

definition df_ok :: "mem_df_table \<Rightarrow> bool" where
  "df_ok tbl \<longleftrightarrow>
     0 < dt_capacity tbl \<and> length (dt_entries tbl) = dt_capacity tbl \<and>
     dt_count tbl = length (filter df_used (dt_entries tbl)) \<and>
     (\<forall>p<dt_capacity tbl. \<forall>k d. dt_entries tbl ! p = DF_USED k d \<longrightarrow> 0 < d \<and> df_reach tbl k p) \<and>
     (\<forall>p<dt_capacity tbl. \<forall>q<dt_capacity tbl. \<forall>k d d'.
        dt_entries tbl ! p = DF_USED k d \<longrightarrow> dt_entries tbl ! q = DF_USED k d' \<longrightarrow> p = q)"

lemma df_ok_unique:
  "df_ok tbl \<Longrightarrow> q < dt_capacity tbl \<Longrightarrow> p < dt_capacity tbl \<Longrightarrow> dt_entries tbl ! q = DF_USED k e \<Longrightarrow>
   dt_entries tbl ! p = DF_USED k d \<Longrightarrow> q = p"
  unfolding df_ok_def by blast

lemma df_ok_reach:
  "df_ok tbl \<Longrightarrow> p < dt_capacity tbl \<Longrightarrow> dt_entries tbl ! p = DF_USED k d \<Longrightarrow> df_reach tbl k p"
  unfolding df_ok_def by blast

lemma df_ok_pos: "df_ok tbl \<Longrightarrow> p < dt_capacity tbl \<Longrightarrow> dt_entries tbl ! p = DF_USED k d \<Longrightarrow> 0 < d"
  unfolding df_ok_def by blast

lemma df_used_iff: "df_used e \<longleftrightarrow> (\<exists>k d. e = DF_USED k d)"
  by (cases e) (auto simp: df_used_def)

lemma df_home_less: "0 < dt_capacity tbl \<Longrightarrow> df_home tbl t < dt_capacity tbl"
  by (simp add: df_home_def)

lemma set_df_probes:
  assumes "0 < dt_capacity tbl"
  shows "set (df_probes tbl t) = {..<dt_capacity tbl}"
proof
  show "set (df_probes tbl t) \<subseteq> {..<dt_capacity tbl}" using assms by (auto simp: df_probes_def)
next
  let ?h = "df_home tbl t" and ?c = "dt_capacity tbl"
  show "{..<?c} \<subseteq> set (df_probes tbl t)"
  proof
    fix p assume "p \<in> {..<?c}"
    then have p: "p < ?c" by simp
    have h: "?h < ?c" by (rule df_home_less [OF assms])
    have "(?h + (p + ?c - ?h) mod ?c) mod ?c = (?h + (p + ?c - ?h)) mod ?c" by (simp add: mod_add_right_eq)
    also have "\<dots> = p" using p h by simp
    finally have "p = (?h + (p + ?c - ?h) mod ?c) mod ?c" ..
    moreover have "(p + ?c - ?h) mod ?c < ?c" using assms by simp
    ultimately show "p \<in> set (df_probes tbl t)" unfolding df_probes_def by (auto simp: image_iff)
  qed
qed

lemma df_locate_SomeD:
  "df_locate es t ps = Some p \<Longrightarrow> p \<in> set ps \<and> (\<exists>d. es ! p = DF_USED t d)"
  by (induction ps) (auto split: mem_df_entry.splits if_splits)

lemma df_locate_found:
  assumes "es ! p = DF_USED t d" and "\<forall>q\<in>set us. es ! q \<noteq> DF_FREE"
    and "\<forall>q\<in>set us. \<forall>e. es ! q = DF_USED t e \<longrightarrow> q = p"
  shows "df_locate es t (us @ p # vs) = Some p"
  using assms(2,3)
proof (induction us)
  case Nil
  with assms(1) show ?case by simp
next
  case (Cons q us)
  then show ?case using assms(1) by (auto split: mem_df_entry.split)
qed

lemma df_locate_iff:
  assumes "df_ok tbl"
  shows "df_locate (dt_entries tbl) t (df_probes tbl t) = Some p \<longleftrightarrow>
     p < dt_capacity tbl \<and> (\<exists>d. dt_entries tbl ! p = DF_USED t d)"
proof
  assume "df_locate (dt_entries tbl) t (df_probes tbl t) = Some p"
  from df_locate_SomeD [OF this] show "p < dt_capacity tbl \<and> (\<exists>d. dt_entries tbl ! p = DF_USED t d)"
    using set_df_probes [of tbl t] assms by (simp add: df_ok_def)
next
  assume p: "p < dt_capacity tbl \<and> (\<exists>d. dt_entries tbl ! p = DF_USED t d)"
  then obtain d where d: "dt_entries tbl ! p = DF_USED t d" by blast
  with p df_ok_reach [OF assms] have "df_reach tbl t p" by blast
  then obtain us vs where uv: "df_probes tbl t = us @ p # vs" "\<forall>q\<in>set us. dt_entries tbl ! q \<noteq> DF_FREE"
    by (auto simp: df_reach_def)
  have c: "0 < dt_capacity tbl" using assms by (simp add: df_ok_def)
  have "set us \<subseteq> {..<dt_capacity tbl}" using set_df_probes [OF c, of t] by (auto simp: uv(1))
  then have "\<forall>q\<in>set us. \<forall>e. dt_entries tbl ! q = DF_USED t e \<longrightarrow> q = p"
    using df_ok_unique [OF assms _ _ _ d, of _ ]  p by blast
  with d uv show "df_locate (dt_entries tbl) t (df_probes tbl t) = Some p" by (simp add: df_locate_found)
qed

text \<open>The map the table stands for.\<close>

definition df_abs :: "mem_df_table \<Rightarrow> string \<Rightarrow> nat" where
  "df_abs tbl t = (case df_locate (dt_entries tbl) t (df_probes tbl t) of None \<Rightarrow> 0 | Some p \<Rightarrow> df_at (dt_entries tbl ! p))"

lemma df_abs_used:
  "df_ok tbl \<Longrightarrow> p < dt_capacity tbl \<Longrightarrow> dt_entries tbl ! p = DF_USED t d \<Longrightarrow> df_abs tbl t = d"
  using df_locate_iff [of tbl t p] by (simp add: df_abs_def df_at_def)

lemma df_abs_none:
  assumes "df_ok tbl" and "\<And>p d. p < dt_capacity tbl \<Longrightarrow> dt_entries tbl ! p \<noteq> DF_USED t d"
  shows "df_abs tbl t = 0"
proof (cases "df_locate (dt_entries tbl) t (df_probes tbl t)")
  case None
  then show ?thesis by (simp add: df_abs_def)
next
  case (Some p)
  with df_locate_iff [OF assms(1)] assms(2) show ?thesis by blast
qed

lemma df_abs_pos_iff:
  assumes "df_ok tbl"
  shows "0 < df_abs tbl t \<longleftrightarrow> (\<exists>p<dt_capacity tbl. \<exists>d. dt_entries tbl ! p = DF_USED t d)"
proof
  assume "0 < df_abs tbl t"
  then obtain p where "df_locate (dt_entries tbl) t (df_probes tbl t) = Some p"
    by (auto simp: df_abs_def split: option.splits)
  with df_locate_iff [OF assms] show "\<exists>p<dt_capacity tbl. \<exists>d. dt_entries tbl ! p = DF_USED t d" by blast
next
  assume "\<exists>p<dt_capacity tbl. \<exists>d. dt_entries tbl ! p = DF_USED t d"
  then obtain p d where "p < dt_capacity tbl" "dt_entries tbl ! p = DF_USED t d" by blast
  with df_abs_used [OF assms] df_ok_pos [OF assms] show "0 < df_abs tbl t" by metis
qed

lemma mem_df_get_abs:
  assumes "df_ok tbl"
  shows "mem_df_get tbl t = df_abs tbl t"
proof (cases "dt_count tbl = 0")
  case True
  with assms have "\<forall>e\<in>set (dt_entries tbl). \<not> df_used e" by (simp add: df_ok_def filter_empty_conv)
  with assms have "df_abs tbl t = 0" by (intro df_abs_none) (auto simp: df_ok_def df_used_iff)
  with True show ?thesis by (simp add: mem_df_get_def)
next
  case False
  then show ?thesis by (simp add: mem_df_get_def df_abs_def)
qed

lemma length_filter_update:
  "p < length xs \<Longrightarrow> length (filter P (xs[p := y])) + of_bool (P (xs ! p)) = length (filter P xs) + of_bool (P y)"
proof (induction xs arbitrary: p)
  case Nil
  then show ?case by simp
next
  case (Cons x xs)
  then show ?case by (cases p) auto
qed

text \<open>Writing a slot that never becomes free: the invariant, and the map afterwards.\<close>

definition df_put :: "mem_df_table \<Rightarrow> nat \<Rightarrow> mem_df_entry \<Rightarrow> mem_df_table" where
  "df_put tbl p e = tbl\<lparr>dt_entries := (dt_entries tbl)[p := e], dt_count := length (filter df_used ((dt_entries tbl)[p := e]))\<rparr>"

definition df_put_pre :: "mem_df_table \<Rightarrow> nat \<Rightarrow> mem_df_entry \<Rightarrow> bool" where
  "df_put_pre tbl p e \<longleftrightarrow> df_ok tbl \<and> p < dt_capacity tbl \<and> e \<noteq> DF_FREE \<and>
     (\<forall>k d. e = DF_USED k d \<longrightarrow> 0 < d \<and> df_reach tbl k p \<and>
        (\<forall>q<dt_capacity tbl. \<forall>c. dt_entries tbl ! q = DF_USED k c \<longrightarrow> q = p))"

lemma df_put_capacity [simp]: "dt_capacity (df_put tbl p e) = dt_capacity tbl"
  by (simp add: df_put_def)

lemma df_put_nth:
  "df_put_pre tbl p e \<Longrightarrow> q < dt_capacity tbl \<Longrightarrow> dt_entries (df_put tbl p e) ! q = (if q = p then e else dt_entries tbl ! q)"
  by (simp add: df_put_def df_put_pre_def df_ok_def nth_list_update)

lemma df_put_reach:
  assumes "df_put_pre tbl p e" and "df_reach tbl k q"
  shows "df_reach (df_put tbl p e) k q"
proof -
  from assms(2) obtain us vs where u: "df_probes tbl k = us @ q # vs" "\<forall>r\<in>set us. dt_entries tbl ! r \<noteq> DF_FREE"
    by (auto simp: df_reach_def)
  have pr: "df_probes (df_put tbl p e) k = df_probes tbl k" by (simp add: df_probes_def df_home_def df_put_def)
  have sub: "set us \<subseteq> {..<dt_capacity tbl}"
    using set_df_probes [of tbl k] assms(1) u(1) by (auto simp: df_put_pre_def df_ok_def)
  have "dt_entries (df_put tbl p e) ! r \<noteq> DF_FREE" if "r \<in> set us" for r
  proof -
    from that sub have "r < dt_capacity tbl" by blast
    from df_put_nth [OF assms(1) this] u(2) that assms(1) show ?thesis by (simp add: df_put_pre_def)
  qed
  with u(1) pr show ?thesis by (auto simp: df_reach_def)
qed

lemma df_put_ok:
  assumes "df_put_pre tbl p e"
  shows "df_ok (df_put tbl p e)"
proof -
  let ?t = "df_put tbl p e"
  have ok: "df_ok tbl" using assms by (simp add: df_put_pre_def)
  have new: "0 < d \<and> df_reach tbl k p \<and> (\<forall>q<dt_capacity tbl. \<forall>c. dt_entries tbl ! q = DF_USED k c \<longrightarrow> q = p)"
    if "e = DF_USED k d" for k d using assms that by (simp add: df_put_pre_def)
  have a: "0 < d \<and> df_reach ?t k q" if q: "q < dt_capacity tbl" and u: "dt_entries ?t ! q = DF_USED k d" for q k d
  proof (cases "q = p")
    case True
    with df_put_nth [OF assms q] u have "e = DF_USED k d" by simp
    with new True df_put_reach [OF assms] show ?thesis by blast
  next
    case False
    with df_put_nth [OF assms q] u have "dt_entries tbl ! q = DF_USED k d" by simp
    with df_ok_pos [OF ok q] df_ok_reach [OF ok q] df_put_reach [OF assms] show ?thesis by blast
  qed
  have b: "q = r" if qr: "q < dt_capacity tbl" "r < dt_capacity tbl"
    and u: "dt_entries ?t ! q = DF_USED k d" "dt_entries ?t ! r = DF_USED k d'" for q r k d d'
  proof (rule ccontr)
    assume ne: "q \<noteq> r"
    note nq = df_put_nth [OF assms qr(1)] and nr = df_put_nth [OF assms qr(2)]
    consider "q = p" | "r = p" | "q \<noteq> p" "r \<noteq> p" by blast
    then show False
    proof cases
      case 1
      with nq nr u ne have "e = DF_USED k d" "dt_entries tbl ! r = DF_USED k d'" by auto
      with new qr(2) 1 ne show False by blast
    next
      case 2
      with nq nr u ne have "e = DF_USED k d'" "dt_entries tbl ! q = DF_USED k d" by auto
      with new qr(1) 2 ne show False by blast
    next
      case 3
      with nq nr u have "dt_entries tbl ! q = DF_USED k d" "dt_entries tbl ! r = DF_USED k d'" by auto
      with df_ok_unique [OF ok qr] ne show False by blast
    qed
  qed
  have len: "length (dt_entries ?t) = dt_capacity tbl" "dt_count ?t = length (filter df_used (dt_entries ?t))" "0 < dt_capacity tbl"
    using ok by (simp_all add: df_put_def df_ok_def)
  show ?thesis unfolding df_ok_def df_put_capacity using len a b by blast
qed

lemma df_put_abs_new:
  assumes "df_put_pre tbl p (DF_USED k d)"
  shows "df_abs (df_put tbl p (DF_USED k d)) k = d"
  by (rule df_abs_used [OF df_put_ok [OF assms], of p])
     (use assms df_put_nth [OF assms, of p] in \<open>simp_all add: df_put_pre_def\<close>)

lemma df_put_abs_other:
  assumes "df_put_pre tbl p e" and e: "\<And>d. e \<noteq> DF_USED t d" and o: "\<And>d. dt_entries tbl ! p \<noteq> DF_USED t d"
  shows "df_abs (df_put tbl p e) t = df_abs tbl t"
proof -
  have ok: "df_ok tbl" using assms(1) by (simp add: df_put_pre_def)
  note ok' = df_put_ok [OF assms(1)]
  show ?thesis
  proof (cases "0 < df_abs tbl t")
    case True
    then obtain q d where q: "q < dt_capacity tbl" "dt_entries tbl ! q = DF_USED t d"
      using df_abs_pos_iff [OF ok] by blast
    with o have "q \<noteq> p" by auto
    with q df_put_nth [OF assms(1) q(1)] have "df_abs (df_put tbl p e) t = d" by (intro df_abs_used [OF ok']) auto
    with df_abs_used [OF ok q] show ?thesis by simp
  next
    case False
    have "dt_entries (df_put tbl p e) ! q \<noteq> DF_USED t d" if "q < dt_capacity tbl" for q d
      using that False df_abs_pos_iff [OF ok, of t] df_put_nth [OF assms(1) that] e by auto
    then have "df_abs (df_put tbl p e) t = 0" by (intro df_abs_none [OF ok']) simp
    with False show ?thesis by simp
  qed
qed

lemma df_put_abs_gone:
  assumes "df_put_pre tbl p DF_TOMB" and "dt_entries tbl ! p = DF_USED t d0"
  shows "df_abs (df_put tbl p DF_TOMB) t = 0"
proof -
  have ok: "df_ok tbl" and p: "p < dt_capacity tbl" using assms(1) by (simp_all add: df_put_pre_def)
  have "dt_entries (df_put tbl p DF_TOMB) ! q \<noteq> DF_USED t d" if "q < dt_capacity tbl" for q d
    using df_put_nth [OF assms(1) that] df_ok_unique [OF ok that p _ assms(2)] by (cases "q = p") auto
  then show ?thesis by (intro df_abs_none [OF df_put_ok [OF assms(1)]]) simp
qed

lemma df_put_eq:
  assumes "df_ok tbl" and "p < dt_capacity tbl"
    and "n + of_bool (df_used (dt_entries tbl ! p)) = dt_count tbl + of_bool (df_used e)"
  shows "tbl\<lparr>dt_entries := (dt_entries tbl)[p := e], dt_count := n\<rparr> = df_put tbl p e"
proof -
  have "length (filter df_used ((dt_entries tbl)[p := e])) + of_bool (df_used (dt_entries tbl ! p)) =
      dt_count tbl + of_bool (df_used e)"
    using assms(1,2) length_filter_update [of p "dt_entries tbl" df_used e] by (simp add: df_ok_def)
  with assms(3) have "length (filter df_used ((dt_entries tbl)[p := e])) = n" by linarith
  then show ?thesis by (simp add: df_put_def)
qed

text \<open>A slot that holds the key already may be rewritten or given up.\<close>

lemma df_put_pre_same:
  assumes "df_ok tbl" and "p < dt_capacity tbl" and "dt_entries tbl ! p = DF_USED t d"
  shows "df_put_pre tbl p DF_TOMB" and "0 < n \<Longrightarrow> df_put_pre tbl p (DF_USED t n)"
proof -
  have "\<forall>q<dt_capacity tbl. \<forall>c. dt_entries tbl ! q = DF_USED t c \<longrightarrow> q = p"
    using df_ok_unique [OF assms(1) _ assms(2) _ assms(3)] by blast
  note u = this df_ok_reach [OF assms] assms(1,2)
  show "df_put_pre tbl p DF_TOMB" unfolding df_put_pre_def using u by blast
  show "df_put_pre tbl p (DF_USED t n)" if "0 < n" unfolding df_put_pre_def using u that by blast
qed

lemma df_put_abs_fun:
  assumes "df_put_pre tbl p (DF_USED t n)" and "\<And>k d. dt_entries tbl ! p = DF_USED k d \<Longrightarrow> k = t"
  shows "df_abs (df_put tbl p (DF_USED t n)) = (df_abs tbl)(t := n)"
proof
  fix u
  show "df_abs (df_put tbl p (DF_USED t n)) u = ((df_abs tbl)(t := n)) u"
    using df_put_abs_new [OF assms(1)] df_put_abs_other [OF assms(1), of u] assms(2) by (cases "u = t") auto
qed

lemma df_insert_scan_law:
  assumes "\<And>q d. q \<in> set ps \<Longrightarrow> es ! q \<noteq> DF_USED t d"
  shows "df_insert_scan es t (Some p) ps = Inr (Some p)"
    and "(\<exists>q\<in>set ps. \<not> df_used (es ! q)) \<Longrightarrow>
      \<exists>us q vs. ps = us @ q # vs \<and> df_insert_scan es t None ps = Inr (Some q) \<and> \<not> df_used (es ! q) \<and>
        (\<forall>r\<in>set us. df_used (es ! r))"
proof -
  have s: "df_insert_scan es t (Some p) ps = Inr (Some p)" if "\<And>q d. q \<in> set ps \<Longrightarrow> es ! q \<noteq> DF_USED t d" for p ps
    using that by (induction ps) (auto split: mem_df_entry.split)
  from assms show "df_insert_scan es t (Some p) ps = Inr (Some p)" by (rule s)
  show "\<exists>us q vs. ps = us @ q # vs \<and> df_insert_scan es t None ps = Inr (Some q) \<and> \<not> df_used (es ! q) \<and>
        (\<forall>r\<in>set us. df_used (es ! r))" if "\<exists>q\<in>set ps. \<not> df_used (es ! q)"
    using that assms
  proof (induction ps)
    case Nil
    then show ?case by simp
  next
    case (Cons p ps)
    show ?case
    proof (cases "df_used (es ! p)")
      case True
      then obtain k d where kd: "es ! p = DF_USED k d" by (auto simp: df_used_iff)
      with Cons.prems(2) [of p d] have "k \<noteq> t" by auto
      from True Cons.prems(1) have "\<exists>q\<in>set ps. \<not> df_used (es ! q)" by auto
      from Cons.IH [OF this] Cons.prems(2) obtain us q vs where
        "ps = us @ q # vs" "df_insert_scan es t None ps = Inr (Some q)" "\<not> df_used (es ! q)" "\<forall>r\<in>set us. df_used (es ! r)"
        by auto
      with kd \<open>k \<noteq> t\<close> True show ?thesis
        by (intro exI [of _ "p # us"] exI [of _ q] exI [of _ vs]) simp
    next
      case False
      then have "es ! p = DF_FREE \<or> es ! p = DF_TOMB" by (auto simp: df_used_def)
      then have "df_insert_scan es t None (p # ps) = Inr (Some p)" using s Cons.prems(2) by auto
      with False show ?thesis by (intro exI [of _ "[]"] exI [of _ p] exI [of _ ps]) simp
    qed
  qed
qed

lemma df_insert_ok:
  assumes "df_ok tbl" and "df_abs tbl t = 0" and "dt_count tbl < dt_capacity tbl * 3 div 4"
  shows "\<exists>tbl'. mem_df_insert tbl t = (tbl', DF_OK) \<and> df_ok tbl' \<and> dt_capacity tbl' = dt_capacity tbl \<and>
     df_abs tbl' = (df_abs tbl)(t := 1)"
proof -
  let ?ps = "df_probes tbl t" and ?es = "dt_entries tbl"
  have c: "0 < dt_capacity tbl" "length ?es = dt_capacity tbl" "dt_count tbl = length (filter df_used ?es)"
    using assms(1) by (simp_all add: df_ok_def)
  have none: "?es ! q \<noteq> DF_USED t d" if "q < dt_capacity tbl" for q d
    using df_abs_pos_iff [OF assms(1), of t] assms(2) that by auto
  then have none': "?es ! q \<noteq> DF_USED t d" if "q \<in> set ?ps" for q d
    using that set_df_probes [OF c(1)] by auto
  have "dt_count tbl < length ?es" using assms(3) c(2) by linarith
  then have "\<exists>q<length ?es. \<not> df_used (?es ! q)"
    using c(3) by (metis filter_True in_set_conv_nth order_less_irrefl)
  then have "\<exists>q\<in>set ?ps. \<not> df_used (?es ! q)" using set_df_probes [OF c(1), of t] c(2) by auto
  from df_insert_scan_law(2) [OF none' this] obtain us p vs where
    s: "?ps = us @ p # vs" "df_insert_scan ?es t None ?ps = Inr (Some p)" "\<not> df_used (?es ! p)"
      "\<forall>r\<in>set us. df_used (?es ! r)" by auto
  have p: "p < dt_capacity tbl" using set_df_probes [OF c(1), of t] s(1) by auto
  have "df_reach tbl t p" using s(1,4) by (auto simp: df_reach_def df_used_def)
  with p none assms(1) have pre: "df_put_pre tbl p (DF_USED t 1)" by (auto simp: df_put_pre_def)
  have "mem_df_insert tbl t = (df_put tbl p (DF_USED t 1), DF_OK)"
    using assms(3) s(2,3) df_put_eq [OF assms(1) p, of "dt_count tbl + 1" "DF_USED t 1"]
    by (simp add: mem_df_insert_def df_used_def)
  moreover have "df_abs (df_put tbl p (DF_USED t 1)) = (df_abs tbl)(t := 1)"
    using s(3) by (intro df_put_abs_fun [OF pre]) (auto simp: df_used_def)
  ultimately show ?thesis using df_put_ok [OF pre] by auto
qed

lemma df_add_law:
  assumes "df_ok tbl"
  shows "df_ok (fst (mem_df_add tbl t)) \<and> dt_capacity (fst (mem_df_add tbl t)) = dt_capacity tbl \<and>
    (if df_abs tbl t = 0 \<and> dt_capacity tbl * 3 div 4 \<le> dt_count tbl then mem_df_add tbl t = (tbl, DF_BUSY)
     else df_abs (fst (mem_df_add tbl t)) = (df_abs tbl)(t := df_abs tbl t + 1))"
proof (cases "df_locate (dt_entries tbl) t (df_probes tbl t)")
  case (Some p)
  with df_locate_iff [OF assms] obtain d where p: "p < dt_capacity tbl" "dt_entries tbl ! p = DF_USED t d" by blast
  have d: "df_abs tbl t = d" "0 < d" using df_abs_used [OF assms p] df_ok_pos [OF assms p] by simp_all
  have pre: "df_put_pre tbl p (DF_USED t (d + 1))" using df_put_pre_same(2) [OF assms p] by simp
  have "mem_df_add tbl t = (df_put tbl p (DF_USED t (d + 1)), DF_OK)"
    using Some p df_put_eq [OF assms p(1), of "dt_count tbl" "DF_USED t (d + 1)"]
    by (simp add: mem_df_add_def df_at_def df_used_def)
  with d df_put_ok [OF pre] df_put_abs_fun [OF pre] p(2) show ?thesis by simp
next
  case None
  then have a: "mem_df_add tbl t = mem_df_insert tbl t" "df_abs tbl t = 0" by (simp_all add: mem_df_add_def df_abs_def)
  show ?thesis
  proof (cases "dt_capacity tbl * 3 div 4 \<le> dt_count tbl")
    case True
    with a assms show ?thesis by (simp add: mem_df_insert_def)
  next
    case False
    with df_insert_ok [OF assms a(2)] a show ?thesis by auto
  qed
qed

lemma df_remove_law:
  assumes "df_ok tbl"
  shows "df_ok (mem_df_remove tbl t) \<and> dt_capacity (mem_df_remove tbl t) = dt_capacity tbl \<and>
    df_abs (mem_df_remove tbl t) = (df_abs tbl)(t := df_abs tbl t - 1)"
proof (cases "df_locate (dt_entries tbl) t (df_probes tbl t)")
  case None
  then have "mem_df_remove tbl t = tbl" "df_abs tbl t = 0" by (simp_all add: mem_df_remove_def df_abs_def)
  with assms show ?thesis by (simp add: fun_upd_idem)
next
  case (Some p)
  with df_locate_iff [OF assms] obtain d where p: "p < dt_capacity tbl" "dt_entries tbl ! p = DF_USED t d" by blast
  have d: "df_abs tbl t = d" "0 < d" using df_abs_used [OF assms p] df_ok_pos [OF assms p] by simp_all
  have u: "df_used (dt_entries tbl ! p)" by (simp add: p(2) df_used_def)
  then have "dt_entries tbl ! p \<in> set (filter df_used (dt_entries tbl))" using p(1) assms by (simp add: df_ok_def)
  then have cnt: "0 < dt_count tbl" using assms by (metis df_ok_def length_pos_if_in_set)
  show ?thesis
  proof (cases "1 < d")
    case True
    then have pre: "df_put_pre tbl p (DF_USED t (d - 1))" using df_put_pre_same(2) [OF assms p] by simp
    have "mem_df_remove tbl t = df_put tbl p (DF_USED t (d - 1))"
      using Some p True cnt df_put_eq [OF assms p(1), of "dt_count tbl" "DF_USED t (d - 1)"]
      by (simp add: mem_df_remove_def df_at_def df_used_def)
    with d df_put_ok [OF pre] df_put_abs_fun [OF pre] p(2) show ?thesis by simp
  next
    case False
    have pre: "df_put_pre tbl p DF_TOMB" by (rule df_put_pre_same(1) [OF assms p])
    have "mem_df_remove tbl t = df_put tbl p DF_TOMB"
      using Some p False cnt df_put_eq [OF assms p(1), of "dt_count tbl - 1" DF_TOMB]
      by (simp add: mem_df_remove_def df_at_def df_used_def)
    moreover have "df_abs (df_put tbl p DF_TOMB) = (df_abs tbl)(t := 0)"
    proof
      fix x
      show "df_abs (df_put tbl p DF_TOMB) x = ((df_abs tbl)(t := 0)) x"
        using df_put_abs_gone [OF pre p(2)] df_put_abs_other [OF pre, of x] p(2) by (cases "x = t") auto
    qed
    ultimately show ?thesis using d False df_put_ok [OF pre] by simp
  qed
qed

lemma df_count_card:
  assumes "df_ok tbl"
  shows "dt_count tbl = card {t. 0 < df_abs tbl t}"
proof -
  let ?P = "{p. p < dt_capacity tbl \<and> df_used (dt_entries tbl ! p)}"
  define key where "key p = (case dt_entries tbl ! p of DF_USED k d \<Rightarrow> k | _ \<Rightarrow> [])" for p
  have used: "dt_entries tbl ! p = DF_USED (key p) (df_at (dt_entries tbl ! p))" if "p \<in> ?P" for p
    using that by (cases "dt_entries tbl ! p") (simp_all add: key_def df_at_def df_used_def)
  have "dt_count tbl = card ?P" using assms by (simp add: df_ok_def length_filter_conv_card)
  moreover have "inj_on key ?P"
  proof (rule inj_onI)
    fix p q assume p: "p \<in> ?P" and q: "q \<in> ?P" and k: "key p = key q"
    have "dt_entries tbl ! p = DF_USED (key p) (df_at (dt_entries tbl ! p))"
      "dt_entries tbl ! q = DF_USED (key p) (df_at (dt_entries tbl ! q))" using used [OF p] used [OF q] k by metis+
    with p q df_ok_unique [OF assms] show "p = q" by blast
  qed
  moreover have "key ` ?P = {t. 0 < df_abs tbl t}"
  proof (intro set_eqI iffI)
    fix t assume "t \<in> key ` ?P"
    then obtain p where "p \<in> ?P" "t = key p" by blast
    with used [of p] df_abs_pos_iff [OF assms, of t] show "t \<in> {t. 0 < df_abs tbl t}" by blast
  next
    fix t assume "t \<in> {t. 0 < df_abs tbl t}"
    then obtain p d where "p < dt_capacity tbl" "dt_entries tbl ! p = DF_USED t d"
      using df_abs_pos_iff [OF assms, of t] by blast
    then have "p \<in> ?P" "key p = t" by (simp_all add: key_def df_used_def)
    then show "t \<in> key ` ?P" by blast
  qed
  ultimately show ?thesis by (metis card_image)
qed

lemma df_add_terms:
  assumes "df_ok tbl" and "distinct ts" and "set ts \<subseteq> V" and "finite V"
    and "card V \<le> dt_capacity tbl * 3 div 4" and "{t. 0 < df_abs tbl t} \<subseteq> V"
  shows "let tbl' = foldl (\<lambda>tbl t. fst (mem_df_add tbl t)) tbl ts
     in df_ok tbl' \<and> dt_capacity tbl' = dt_capacity tbl \<and> (\<forall>t. df_abs tbl' t = df_abs tbl t + of_bool (t \<in> set ts))"
  using assms
proof (induction ts arbitrary: tbl)
  case Nil
  then show ?case by simp
next
  case (Cons u ts)
  have room: "\<not> (df_abs tbl u = 0 \<and> dt_capacity tbl * 3 div 4 \<le> dt_count tbl)"
  proof
    assume f: "df_abs tbl u = 0 \<and> dt_capacity tbl * 3 div 4 \<le> dt_count tbl"
    then have "{t. 0 < df_abs tbl t} \<subset> V" using Cons.prems(3,6) by auto
    from psubset_card_mono [OF Cons.prems(4) this] df_count_card [OF Cons.prems(1)] f Cons.prems(5) show False by simp
  qed
  let ?t = "fst (mem_df_add tbl u)"
  from df_add_law [OF Cons.prems(1), of u] room have t: "df_ok ?t" "dt_capacity ?t = dt_capacity tbl"
    "df_abs ?t = (df_abs tbl)(u := df_abs tbl u + 1)" by auto
  have "{t. 0 < df_abs ?t t} \<subseteq> V" using t(3) Cons.prems(3,6) by auto
  with Cons.IH [of ?t] Cons.prems t(1,2) show ?case by (auto simp: t(3) Let_def)
qed

lemma df_remove_terms:
  assumes "df_ok tbl" and "distinct ts"
  shows "let tbl' = foldl mem_df_remove tbl ts
     in df_ok tbl' \<and> dt_capacity tbl' = dt_capacity tbl \<and> (\<forall>t. df_abs tbl' t = df_abs tbl t - of_bool (t \<in> set ts))"
  using assms
proof (induction ts arbitrary: tbl)
  case Nil
  then show ?case by simp
next
  case (Cons u ts)
  from df_remove_law [OF Cons.prems(1), of u] Cons.IH [of "mem_df_remove tbl u"] Cons.prems(2) show ?case
    by (auto simp: Let_def)
qed

section \<open>The vector of a text\<close>

lemma upsert_keys: "map fst (mem_vec_upsert v t) = (if t \<in> fst ` set v then map fst v else map fst v @ [t])"
  by (induction v t rule: mem_vec_upsert.induct) auto

lemma upsert_distinct: "distinct (map fst v) \<Longrightarrow> distinct (map fst (mem_vec_upsert v t))"
  by (auto simp: upsert_keys)

lemma flush_distinct: "distinct (map fst (vs_terms s)) \<Longrightarrow> distinct (map fst (vs_terms (vec_word_flush s)))"
  by (simp add: vec_word_flush_def vec_put_def upsert_distinct Let_def)

lemma han_distinct: "distinct (map fst (vs_terms s)) \<Longrightarrow> distinct (map fst (vs_terms (vec_han_step s b)))"
  by (simp add: vec_han_step_def vec_put_def upsert_distinct Let_def)

lemma scan_distinct: "distinct (map fst (vs_terms s)) \<Longrightarrow> distinct (map fst (vs_terms (vec_scan s cs)))"
proof (induction s cs rule: vec_scan.induct)
  case (1 s)
  then show ?case by (simp add: flush_distinct)
next
  case (2 s c cs)
  then show ?case by (simp add: Let_def flush_distinct han_distinct)
qed

definition text_terms :: "string \<Rightarrow> string list" where
  "text_terms t = map fst (tv_terms (mem_vec_build (Some t)))"

lemma text_terms_distinct: "distinct (text_terms t)"
  by (simp add: text_terms_def mem_vec_build_def scan_distinct Let_def)

section \<open>Documents\<close>

text \<open>
  Documents come and go; the model keeps the texts that are in, the code keeps the table.
\<close>

datatype df_ev = DFAdd string | DFRemove nat

fun df_step :: "mem_df_table \<times> string list \<Rightarrow> df_ev \<Rightarrow> mem_df_table \<times> string list" where
  "df_step (tbl, docs) (DFAdd t) = (mem_df_add_doc tbl (mem_vec_build (Some t)), docs @ [t])"
| "df_step (tbl, docs) (DFRemove i) =
     (if i < length docs then (mem_df_remove_doc tbl (mem_vec_build (Some (docs ! i))), take i docs @ drop (Suc i) docs)
      else (tbl, docs))"

definition df_docs_ok :: "string set \<Rightarrow> df_ev \<Rightarrow> bool" where
  "df_docs_ok V e \<longleftrightarrow> (\<forall>t. e = DFAdd t \<longrightarrow> set (text_terms t) \<subseteq> V)"

definition docs_with :: "string list \<Rightarrow> string \<Rightarrow> nat" where
  "docs_with docs t = length (filter (\<lambda>d. t \<in> set (text_terms d)) docs)"

definition df_exact :: "string set \<Rightarrow> nat \<Rightarrow> mem_df_table \<times> string list \<Rightarrow> bool" where
  "df_exact V cap s \<longleftrightarrow> finite V \<and> card V \<le> cap * 3 div 4 \<and> df_ok (fst s) \<and> dt_capacity (fst s) = cap \<and>
     (\<forall>t. df_abs (fst s) t = docs_with (snd s) t) \<and> (\<forall>d\<in>set (snd s). set (text_terms d) \<subseteq> V)"

lemma docs_with_split: "i < length docs \<Longrightarrow>
   docs_with docs t = docs_with (take i docs @ drop (Suc i) docs) t + of_bool (t \<in> set (text_terms (docs ! i)))"
proof -
  assume "i < length docs"
  then have "docs = take i docs @ docs ! i # drop (Suc i) docs" by (simp add: id_take_nth_drop)
  then have "docs_with docs t = docs_with (take i docs @ docs ! i # drop (Suc i) docs) t" by simp
  then show ?thesis by (simp add: docs_with_def)
qed

lemma df_step_exact:
  assumes "df_exact V cap s" and "df_docs_ok V e"
  shows "df_exact V cap (df_step s e)"
proof -
  obtain tbl docs where s: "s = (tbl, docs)" by fastforce
  have ok: "finite V" "card V \<le> cap * 3 div 4" "df_ok tbl" "dt_capacity tbl = cap"
    and ex: "\<And>t. df_abs tbl t = docs_with docs t" and sub: "\<And>d. d \<in> set docs \<Longrightarrow> set (text_terms d) \<subseteq> V"
    using assms(1) by (simp_all add: s df_exact_def)
  show ?thesis
  proof (cases e)
    case (DFAdd x)
    have x: "set (text_terms x) \<subseteq> V" using assms(2) DFAdd by (simp add: df_docs_ok_def)
    have dom: "{t. 0 < df_abs tbl t} \<subseteq> V" using ex sub by (auto simp: docs_with_def filter_empty_conv)
    note a = df_add_terms [OF ok(3) text_terms_distinct x ok(1) ok(2) [folded ok(4)] dom]
    then show ?thesis using ok ex sub x
      by (auto simp: s DFAdd df_exact_def mem_df_add_doc_def docs_with_def Let_def simp flip: text_terms_def)
  next
    case (DFRemove i)
    show ?thesis
    proof (cases "i < length docs")
      case True
      note r = df_remove_terms [OF ok(3) text_terms_distinct [of "docs ! i"]]
      have "d \<in> set docs" if "d \<in> set (take i docs @ drop (Suc i) docs)" for d
        using that by (auto dest: in_set_takeD in_set_dropD)
      then show ?thesis using r True ok ex sub docs_with_split [OF True]
        by (auto simp: s DFRemove df_exact_def mem_df_remove_doc_def Let_def simp flip: text_terms_def)
    next
      case False
      with assms(1) show ?thesis by (simp add: s DFRemove)
    qed
  qed
qed

interpretation dfm: event_machine df_step "df_docs_ok V" "df_exact V cap" for V cap
  by unfold_locales (rule df_step_exact)

lemma df_init_exact:
  assumes "mem_df_init cap = Some tbl" and "finite V" and "card V \<le> cap * 3 div 4"
  shows "df_exact V cap (tbl, [])"
proof -
  have t: "tbl = \<lparr>dt_entries = replicate cap DF_FREE, dt_capacity = cap, dt_count = 0\<rparr>" "0 < cap"
    using assms(1) by (auto simp: mem_df_init_def split: if_splits)
  have ok: "df_ok tbl" by (auto simp: t df_ok_def df_used_def)
  moreover have "df_abs tbl x = 0" for x using ok by (intro df_abs_none) (auto simp: t)
  ultimately show ?thesis using assms(2,3) by (simp add: df_exact_def docs_with_def t)
qed

text \<open>
  C14. The table of document frequencies is exact: after any sequence of additions and removals of
  documents, as long as all terms fit into three quarters of the table, the frequency it returns
  for a term is the number of documents present that contain it, through all collisions,
  tombstones and reuse of slots. Without the room the counts drift (\<open>df_full_drifts\<close>).
\<close>

theorem df_counts_documents:
  assumes "mem_df_init cap = Some tbl" and "finite V" "card V \<le> cap * 3 div 4" and "list_all (df_docs_ok V) es"
  shows "mem_df_get (fst (foldl df_step (tbl, []) es)) t =
     length (filter (\<lambda>d. t \<in> set (text_terms d)) (snd (foldl df_step (tbl, []) es)))"
proof -
  have "df_exact V cap (foldl df_step (tbl, []) es)"
    by (rule dfm.events_inv [OF df_init_exact [OF assms(1-3)] assms(4)])
  then show ?thesis by (simp add: df_exact_def mem_df_get_abs docs_with_def)
qed

theorem df_counts_documents_witness:
  "mem_df_get (fst (foldl df_step (\<lparr>dt_entries = replicate 4 DF_FREE, dt_capacity = 4, dt_count = 0\<rparr>, [])
       [DFAdd ''red fish'', DFAdd ''red'', DFRemove 0, DFAdd ''blue''])) ''red'' = 1"
proof -
  have i: "mem_df_init 4 = Some \<lparr>dt_entries = replicate 4 DF_FREE, dt_capacity = 4, dt_count = 0\<rparr>"
    by (simp add: mem_df_init_def)
  have tt: "text_terms ''red fish'' = [''red'', ''fish'']" "text_terms ''red'' = [''red'']" "text_terms ''blue'' = [''blue'']"
    by code_simp+
  have "list_all (df_docs_ok {''red'', ''fish'', ''blue''}) [DFAdd ''red fish'', DFAdd ''red'', DFRemove 0, DFAdd ''blue'']"
    by (simp add: df_docs_ok_def tt)
  from df_counts_documents [OF i _ _ this, of "''red''"] show ?thesis by (simp add: tt)
qed

text \<open>
  When the table is full a new term is not counted, but the removal of its document is: the
  frequency of a document that came later is taken away.
\<close>

lemma ex_hashes: "mem_df_hash_fn ''red'' = 193504576" "mem_df_hash_fn ''blue'' = 6385084301"
  by code_simp+

lemma ex_texts: "map fst (tv_terms (mem_vec_build (Some ''red''))) = [''red'']"
  "map fst (tv_terms (mem_vec_build (Some ''blue''))) = [''blue'']"
  by code_simp+

lemma ex_probes:
  assumes "dt_capacity tbl = 2"
  shows "df_probes tbl ''red'' = [0, 1]" "df_probes tbl ''blue'' = [1, 0]"
proof -
  have "[0..<2] = [0, 1 :: nat]" by (simp add: upt_rec)
  moreover have "df_home tbl ''red'' = 0" "df_home tbl ''blue'' = 1" using assms by (simp_all add: df_home_def ex_hashes)
  ultimately show "df_probes tbl ''red'' = [0, 1]" "df_probes tbl ''blue'' = [1, 0]"
    using assms by (simp_all add: df_probes_def)
qed

lemma df_full_drifts:
  "let (tbl, docs) = foldl df_step (\<lparr>dt_entries = replicate 2 DF_FREE, dt_capacity = 2, dt_count = 0\<rparr>, [])
         [DFAdd ''red'', DFAdd ''blue'', DFRemove 0, DFAdd ''blue'', DFRemove 0]
   in docs = [''blue''] \<and> mem_df_get tbl ''blue'' = 0"
proof -
  have two: "replicate 2 DF_FREE = [DF_FREE, DF_FREE]" by (simp add: numeral_2_eq_2)
  show ?thesis
  by (simp add: mem_df_add_doc_def mem_df_remove_doc_def ex_texts mem_df_add_def mem_df_insert_def mem_df_remove_def
      mem_df_get_def ex_probes df_at_def two)
qed

section \<open>Tokens of plain text\<close>

definition ascii_tokens :: "string \<Rightarrow> string list" where
  "ascii_tokens t =
     filter (\<lambda>w. \<not> mem_vec_is_stopword w)
       (map (\<lambda>w. take MEM_VEC_MAX_WORD_LEN (map c_lower w)) (strtok_acc (\<lambda>c. \<not> c_alnum c) [] t))"

definition cut_word :: "string \<Rightarrow> string" where
  "cut_word acc = take MEM_VEC_MAX_WORD_LEN (map c_lower (rev acc))"

lemma cut_word_empty: "cut_word acc = [] \<longleftrightarrow> acc = []"
  by (simp add: cut_word_def MEM_VEC_MAX_WORD_LEN_def)

lemma cut_word_Cons:
  "cut_word (c # acc) = (if length (cut_word acc) < MEM_VEC_MAX_WORD_LEN then cut_word acc @ [c_lower c] else cut_word acc)"
  by (auto simp: cut_word_def)

text \<open>What flushing the word collected so far adds.\<close>

definition flush_tokens :: "string \<Rightarrow> string list" where
  "flush_tokens acc = (if acc = [] \<or> mem_vec_is_stopword (cut_word acc) then [] else [cut_word acc])"

lemma flush_law:
  assumes "vs_word s = rev (cut_word acc)"
  shows "vs_terms (vec_word_flush s) = foldl mem_vec_upsert (vs_terms s) (flush_tokens acc) \<and>
     vs_total (vec_word_flush s) = vs_total s + length (flush_tokens acc) \<and> vs_word (vec_word_flush s) = []"
  using assms by (simp add: vec_word_flush_def flush_tokens_def vec_put_def cut_word_empty Let_def)

definition tokens_from :: "string \<Rightarrow> string \<Rightarrow> string list" where
  "tokens_from acc t = filter (\<lambda>w. \<not> mem_vec_is_stopword w)
       (map (\<lambda>w. take MEM_VEC_MAX_WORD_LEN (map c_lower w)) (strtok_acc (\<lambda>c. \<not> c_alnum c) acc t))"

lemma tokens_from_simps:
  "tokens_from acc [] = flush_tokens acc"
  "c_alnum c \<Longrightarrow> tokens_from acc (c # cs) = tokens_from (c # acc) cs"
  "\<not> c_alnum c \<Longrightarrow> tokens_from acc (c # cs) = flush_tokens acc @ tokens_from [] cs"
  by (simp_all add: tokens_from_def flush_tokens_def cut_word_def)

lemma scan_ascii:
  assumes "\<forall>c\<in>set cs. byte_of c < 0x80" and "vs_word s = rev (cut_word acc)"
  shows "vs_terms (vec_scan s cs) = foldl mem_vec_upsert (vs_terms s) (tokens_from acc cs) \<and>
     vs_total (vec_scan s cs) = vs_total s + length (tokens_from acc cs)"
  using assms
proof (induction cs arbitrary: s acc)
  case Nil
  then show ?case using flush_law [OF Nil.prems(2)] by (simp add: tokens_from_simps)
next
  case (Cons c cs)
  show ?case
  proof (cases "c_alnum c")
    case True
    let ?s = "if length (vs_word s) < MEM_VEC_MAX_WORD_LEN then s\<lparr>vs_word := c_lower c # vs_word s\<rparr> else s"
    have "vs_word ?s = rev (cut_word (c # acc))" using Cons.prems(2) by (simp add: cut_word_Cons)
    from Cons.IH [OF _ this] Cons.prems(1) True show ?thesis by (simp add: tokens_from_simps)
  next
    case False
    let ?s = "(vec_word_flush s)\<lparr>vs_last_han := []\<rparr>"
    note f = flush_law [OF Cons.prems(2)]
    have "vs_word ?s = rev (cut_word [])" using f by (simp add: cut_word_def)
    from Cons.IH [OF _ this] Cons.prems(1) False f show ?thesis by (simp add: tokens_from_simps Let_def)
  qed
qed

lemma upsert_map_of:
  "map_of (mem_vec_upsert v t) w = (if w = t then Some (case map_of v t of None \<Rightarrow> 1 | Some n \<Rightarrow> tf_inc n) else map_of v w)"
  by (induction v t rule: mem_vec_upsert.induct) auto

lemma upserts_count:
  "map_of (foldl mem_vec_upsert [] ts) w = (if w \<in> set ts then Some (min (count_list ts w) (2 ^ 24)) else None)"
proof (induction ts rule: rev_induct)
  case Nil
  then show ?case by simp
next
  case (snoc t ts)
  have z: "count_list ts t = 0" if "t \<notin> set ts" using that by (simp add: count_list_0_iff)
  show ?case using snoc z by (cases "t \<in> set ts"; cases "w = t") (auto simp: upsert_map_of tf_inc_def min_def)
qed

text \<open>
  On plain ASCII text the vector is the word count one expects: the tokens are the maximal runs
  of letters and digits, in lower case, cut to 63 characters, without the stop words; every token
  has its number of occurrences as frequency (up to the precision of a float) and the total is the
  number of tokens.
\<close>

theorem vec_build_counts_words:
  assumes "\<forall>c\<in>set t. byte_of c < 0x80"
  shows "tv_total (mem_vec_build (Some t)) = length (ascii_tokens t) \<and>
     map_of (tv_terms (mem_vec_build (Some t))) w =
       (if w \<in> set (ascii_tokens t) then Some (min (count_list (ascii_tokens t) w) (2 ^ 24)) else None)"
proof -
  let ?s = "\<lparr>vs_terms = [], vs_total = 0, vs_word = [], vs_last_han = []\<rparr>"
  have "vs_word ?s = rev (cut_word [])" by (simp add: cut_word_def)
  from scan_ascii [OF assms this] have
    "vs_terms (vec_scan ?s t) = foldl mem_vec_upsert [] (ascii_tokens t)" "vs_total (vec_scan ?s t) = length (ascii_tokens t)"
    by (simp_all add: tokens_from_def ascii_tokens_def)
  then show ?thesis by (simp add: mem_vec_build_def Let_def upserts_count)
qed

theorem vec_build_counts_words_witness:
  "map_of (tv_terms (mem_vec_build (Some ''The Cat and cat''))) ''cat'' = Some 2"
proof -
  have a: "\<forall>c\<in>set ''The Cat and cat''. byte_of c < 0x80" by code_simp
  have t: "ascii_tokens ''The Cat and cat'' = [''cat'', ''cat'']" by code_simp
  show ?thesis using vec_build_counts_words [OF a, of "''cat''"] by (simp add: t)
qed

section \<open>Similarity\<close>

lemma mem_idf_pos: "df \<le> n \<Longrightarrow> 0 < n \<Longrightarrow> 1 \<le> mem_idf df n"
  by (simp add: mem_idf_def)

lemma young_step:
  fixes S A B x y :: real
  assumes "S\<^sup>2 \<le> A * B" and "0 \<le> A" "0 \<le> B"
  shows "2 * S * (x * y) \<le> A * y\<^sup>2 + B * x\<^sup>2"
proof -
  have "(2 * S * (x * y))\<^sup>2 = 4 * S\<^sup>2 * (x * y)\<^sup>2" by (simp add: power_mult_distrib)
  also have "\<dots> \<le> 4 * (A * B) * (x * y)\<^sup>2" using assms(1) by (intro mult_right_mono) auto
  also have "\<dots> \<le> 4 * (A * B) * (x * y)\<^sup>2 + (A * y\<^sup>2 - B * x\<^sup>2)\<^sup>2" by simp
  also have "\<dots> = (A * y\<^sup>2 + B * x\<^sup>2)\<^sup>2" by (simp add: power2_eq_square algebra_simps)
  finally have "(2 * S * (x * y))\<^sup>2 \<le> (A * y\<^sup>2 + B * x\<^sup>2)\<^sup>2" .
  moreover have "0 \<le> A * y\<^sup>2 + B * x\<^sup>2" using assms by simp
  ultimately show ?thesis by (rule power2_le_imp_le)
qed

lemma cauchy_schwarz:
  fixes a b :: "'a \<Rightarrow> real"
  assumes "finite U"
  shows "(\<Sum>i\<in>U. a i * b i)\<^sup>2 \<le> (\<Sum>i\<in>U. (a i)\<^sup>2) * (\<Sum>i\<in>U. (b i)\<^sup>2)"
  using assms
proof (induction U)
  case empty
  then show ?case by simp
next
  case (insert u U)
  let ?S = "\<Sum>i\<in>U. a i * b i" and ?A = "\<Sum>i\<in>U. (a i)\<^sup>2" and ?B = "\<Sum>i\<in>U. (b i)\<^sup>2"
  have "2 * ?S * (a u * b u) \<le> ?A * (b u)\<^sup>2 + ?B * (a u)\<^sup>2"
    by (rule young_step [OF insert.IH]) (simp_all add: sum_nonneg)
  with insert.IH have "(a u * b u + ?S)\<^sup>2 \<le> ((a u)\<^sup>2 + ?A) * ((b u)\<^sup>2 + ?B)"
    by (simp add: power2_sum power_mult_distrib algebra_simps)
  with insert.hyps show ?case by simp
qed

text \<open>The weight of a term in a vector, zero when it does not occur.\<close>

definition weight_of :: "mem_df_table \<Rightarrow> nat \<Rightarrow> mem_vec_terms \<Rightarrow> string \<Rightarrow> real" where
  "weight_of tbl n v t = (case map_of v t of None \<Rightarrow> 0 | Some tf \<Rightarrow> real tf * mem_idf (mem_df_get tbl t) n)"

lemma weight_of_elem: "distinct (map fst v) \<Longrightarrow> tn \<in> set v \<Longrightarrow> weight_of tbl n v (fst tn) = term_weight tbl n tn"
  by (cases tn) (simp add: weight_of_def term_weight_def)

lemma weight_of_absent: "t \<notin> fst ` set v \<Longrightarrow> weight_of tbl n v t = 0"
  by (simp add: weight_of_def map_of_eq_None_iff [THEN iffD2])

lemma sum_over_terms:
  assumes "distinct (map fst v)" and "finite U" "fst ` set v \<subseteq> U" and "\<And>t. t \<notin> fst ` set v \<Longrightarrow> g t = 0"
    and "\<And>tn. tn \<in> set v \<Longrightarrow> g (fst tn) = f tn"
  shows "sum_list (map f v) = (\<Sum>t\<in>U. g t :: real)"
proof -
  have "sum_list (map f v) = sum_list (map (g \<circ> fst) v)" using assms(5) by (intro arg_cong [of _ _ sum_list]) simp
  also have "\<dots> = sum_list (map g (map fst v))" by simp
  also have "\<dots> = sum g (fst ` set v)" using sum_list_distinct_conv_sum_set [OF assms(1), of g] by simp
  also have "\<dots> = sum g U" using assms(2-4) by (intro sum.mono_neutral_left) auto
  finally show ?thesis .
qed

lemma norm2_nonneg: "0 \<le> vec_norm2 tbl n v"
  unfolding vec_norm2_def by (rule sum_list_nonneg) auto

lemma norm2_sum:
  assumes "distinct (map fst v)" and "finite U" "fst ` set v \<subseteq> U"
  shows "vec_norm2 tbl n v = (\<Sum>t\<in>U. (weight_of tbl n v t)\<^sup>2)"
  unfolding vec_norm2_def
  by (rule sum_over_terms [OF assms]) (simp_all add: weight_of_absent weight_of_elem [OF assms(1)])

lemma dot_sum:
  assumes "distinct (map fst q)" and "finite U" "fst ` set q \<subseteq> U"
  shows "sum_list (map (dot_term tbl n d) q) = (\<Sum>t\<in>U. weight_of tbl n q t * weight_of tbl n d t)"
proof (rule sum_over_terms [OF assms])
  show "weight_of tbl n q t * weight_of tbl n d t = 0" if "t \<notin> fst ` set q" for t
    using that by (simp add: weight_of_absent)
  show "weight_of tbl n q (fst tn) * weight_of tbl n d (fst tn) = dot_term tbl n d tn" if "tn \<in> set q" for tn
    using weight_of_elem [OF assms(1) that] by (simp add: dot_term_def weight_of_def [of _ _ d] split: option.split)
qed

text \<open>
  The similarity of two texts is a true cosine: the value the code divides never leaves the
  interval from 0 to 1 upwards (the cut at 1 only guards against rounding), and a text with at least
  one term has similarity 1 with itself, provided no term is in more documents than there are.
\<close>

theorem cosine_law:
  assumes "distinct (map fst (tv_terms q))" and "distinct (map fst (tv_terms d))"
  shows "sum_list (map (dot_term tbl n (tv_terms d)) (tv_terms q)) \<le>
      sqrt (vec_norm2 tbl n (tv_terms q)) * sqrt (vec_norm2 tbl n (tv_terms d)) \<and>
    (tv_terms q \<noteq> [] \<and> 0 < n \<and> (\<forall>t tf. (t, tf) \<in> set (tv_terms q) \<longrightarrow> 0 < tf \<and> mem_df_get tbl t \<le> n) \<longrightarrow>
      mem_vec_cosine q q tbl n = 1)"
proof
  let ?U = "fst ` set (tv_terms q) \<union> fst ` set (tv_terms d)" and ?w = "weight_of tbl n"
  have U: "finite ?U" by simp
  have sq: "(sum_list (map (dot_term tbl n (tv_terms d)) (tv_terms q)))\<^sup>2 \<le> vec_norm2 tbl n (tv_terms q) * vec_norm2 tbl n (tv_terms d)"
    using cauchy_schwarz [OF U, of "?w (tv_terms q)" "?w (tv_terms d)"] norm2_sum [OF assms(1) U] norm2_sum [OF assms(2) U]
      dot_sum [OF assms(1) U] by simp
  have nn: "0 \<le> sqrt (vec_norm2 tbl n (tv_terms q)) * sqrt (vec_norm2 tbl n (tv_terms d))"
    by (simp add: norm2_nonneg)
  have eq: "(sqrt (vec_norm2 tbl n (tv_terms q)) * sqrt (vec_norm2 tbl n (tv_terms d)))\<^sup>2 =
      vec_norm2 tbl n (tv_terms q) * vec_norm2 tbl n (tv_terms d)"
    by (simp add: power_mult_distrib norm2_nonneg)
  show "sum_list (map (dot_term tbl n (tv_terms d)) (tv_terms q)) \<le>
      sqrt (vec_norm2 tbl n (tv_terms q)) * sqrt (vec_norm2 tbl n (tv_terms d))"
    by (rule power2_le_imp_le [OF _ nn]) (unfold eq, rule sq)
  show "tv_terms q \<noteq> [] \<and> 0 < n \<and> (\<forall>t tf. (t, tf) \<in> set (tv_terms q) \<longrightarrow> 0 < tf \<and> mem_df_get tbl t \<le> n) \<longrightarrow>
      mem_vec_cosine q q tbl n = 1"
  proof (intro impI)
    assume a: "tv_terms q \<noteq> [] \<and> 0 < n \<and> (\<forall>t tf. (t, tf) \<in> set (tv_terms q) \<longrightarrow> 0 < tf \<and> mem_df_get tbl t \<le> n)"
    let ?Q = "fst ` set (tv_terms q)"
    have dot: "sum_list (map (dot_term tbl n (tv_terms q)) (tv_terms q)) = vec_norm2 tbl n (tv_terms q)"
      using dot_sum [OF assms(1), of ?Q tbl n "tv_terms q"] norm2_sum [OF assms(1), of ?Q tbl n]
      by (simp add: power2_eq_square)
    obtain t tf where t: "(t, tf) \<in> set (tv_terms q)" using a by (metis list.set_intros(1) neq_Nil_conv surj_pair)
    have "1 \<le> mem_idf (mem_df_get tbl t) n" "0 < tf" using a t by (auto intro: mem_idf_pos)
    then have "0 < (term_weight tbl n (t, tf))\<^sup>2" by (simp add: term_weight_def)
    moreover have "(term_weight tbl n (t, tf))\<^sup>2 \<le> vec_norm2 tbl n (tv_terms q)"
      unfolding vec_norm2_def using t by (intro member_le_sum_list) (auto simp: image_iff intro!: bexI [of _ "(t, tf)"])
    ultimately have "0 < vec_norm2 tbl n (tv_terms q)" by linarith
    with dot a show "mem_vec_cosine q q tbl n = 1" by (simp add: mem_vec_cosine_def Let_def)
  qed
qed

theorem cosine_law_witness:
  "let q = \<lparr>tv_terms = [(''cat'', 2)], tv_total = 2\<rparr>; tbl = \<lparr>dt_entries = replicate 4 DF_FREE, dt_capacity = 4, dt_count = 0\<rparr>
   in mem_vec_cosine q q tbl 1 = 1"
  using cosine_law [of "\<lparr>tv_terms = [(''cat'', 2)], tv_total = 2\<rparr>" "\<lparr>tv_terms = [(''cat'', 2)], tv_total = 2\<rparr>"
      "\<lparr>dt_entries = replicate 4 DF_FREE, dt_capacity = 4, dt_count = 0\<rparr>" 1]
  by (simp add: Let_def mem_df_get_def)

end
