(* ===== verification/Mem_Store.thy ===== *)
theory Mem_Store
  imports Mem_Vector
begin

text \<open>
  mem_d, the record store: the service (\<open>core/service.c\<close>), its file (\<open>engine/mem_persist.c\<close>), the
  knowledge bases on top of it (\<open>engine/kb.c\<close>) and the health of the embedding backend
  (\<open>engine/emb_client.c\<close>).

  The array of records with its count is the list of the records in use. The hash index, cJSON, the
  UTF-8 sanitizer and the embedding server are outside the repository and appear as functions of
  \<open>store_env\<close> or as arguments; record identifiers, times and the outcome of file operations are
  arguments. A write and the later installation of its embedding are two critical sections, as in the
  code. Scores are floats in the code and reals here. Allocation failure is not modelled.
\<close>

section \<open>Data\<close>

record mem_record =
  mr_record_id :: string
  mr_data :: string
  mr_metadata :: "string option"
  mr_created_at :: "64 word"
  mr_vec :: mem_tfidf_vec
  mr_emb :: "real list"

text \<open>What parsing one line of the file gives: the fields with the type the loader asks for.\<close>

record json_record =
  jr_record_id :: "string option"
  jr_data :: "string option"
  jr_len :: "nat option"
  jr_metadata :: "string option"
  jr_created_at :: "64 word option"

record 'h store_env =
  hx_init :: "nat \<Rightarrow> 'h"
  hx_put :: "'h \<Rightarrow> string \<Rightarrow> nat \<Rightarrow> 'h option"
  hx_get :: "'h \<Rightarrow> string \<Rightarrow> nat option"
  hx_del :: "'h \<Rightarrow> string \<Rightarrow> 'h"
  se_parse :: "string \<Rightarrow> json_record option"
  se_kb_field :: "string \<Rightarrow> string option"
  se_kb_meta :: "string \<Rightarrow> string \<Rightarrow> nat \<Rightarrow> string"
  se_utf8_sanitize :: "string \<Rightarrow> string"

record mem_emb_client =
  ec_enabled :: bool
  ec_healthy :: bool
  ec_last_fail_time :: "64 word"
  ec_retry_after_ms :: "64 word"

record 'h mem_service =
  ms_records :: "mem_record list"
  ms_max_records :: nat
  ms_index :: 'h
  ms_df :: mem_df_table
  ms_tfidf_weight :: real
  ms_emb :: mem_emb_client
  ms_file :: "string option"

datatype mem_err = MEM_INVALID_PARAM | MEM_OUT_OF_MEMORY | MEM_NOT_FOUND | MEM_INDEX_FULL

definition MEM_DEFAULT_MAX_RECORDS :: nat where "MEM_DEFAULT_MAX_RECORDS = 1024"
definition MEM_HASH_LOAD_FACTOR :: nat where "MEM_HASH_LOAD_FACTOR = 4"
definition MEM_RECENT_DEFAULT_LIMIT :: nat where "MEM_RECENT_DEFAULT_LIMIT = 10"
definition MEM_KB_DEFAULT_CHUNK_SIZE :: nat where "MEM_KB_DEFAULT_CHUNK_SIZE = 512"
definition MEM_KB_ID_MAX :: nat where "MEM_KB_ID_MAX = 256"
definition MEM_EMB_RETRY_AFTER_MS :: "64 word" where "MEM_EMB_RETRY_AFTER_MS = 60000"

section \<open>Embedding backend\<close>

definition mem_emb_client_init :: "string option \<Rightarrow> string option \<Rightarrow> mem_emb_client" where
  "mem_emb_client_init url retry_seconds =
     (let off = \<lparr>ec_enabled = False, ec_healthy = False, ec_last_fail_time = 0, ec_retry_after_ms = MEM_EMB_RETRY_AFTER_MS\<rparr>
      in if url = None \<or> url = Some [] then off
         else let retry = (case retry_seconds of
                             Some r \<Rightarrow> if r \<noteq> [] \<and> 0 < fst (strtol r) then of_int (fst (strtol r)) * 1000 else MEM_EMB_RETRY_AFTER_MS
                           | None \<Rightarrow> MEM_EMB_RETRY_AFTER_MS)
              in off\<lparr>ec_enabled := True, ec_healthy := True, ec_retry_after_ms := retry\<rparr>)"

definition mem_emb_should_try :: "64 word \<Rightarrow> mem_emb_client \<Rightarrow> bool" where
  "mem_emb_should_try now c =
     (if \<not> ec_enabled c then False
      else if ec_healthy c then True
      else if now < ec_last_fail_time c then False
      else ec_retry_after_ms c \<le> now - ec_last_fail_time c)"

definition mem_emb_mark_fail :: "64 word \<Rightarrow> mem_emb_client \<Rightarrow> mem_emb_client" where
  "mem_emb_mark_fail now c = c\<lparr>ec_healthy := False, ec_last_fail_time := now\<rparr>"

text \<open>\<open>reply\<close> is the vector of a successful and well-formed answer; \<open>now\<close> the time of a failure.\<close>

definition mem_emb_embed :: "64 word \<Rightarrow> real list option \<Rightarrow> mem_emb_client \<Rightarrow> mem_emb_client \<times> real list option" where
  "mem_emb_embed now reply c =
     (if \<not> ec_enabled c then (c, None)
      else case reply of
             None \<Rightarrow> (mem_emb_mark_fail now c, None)
           | Some v \<Rightarrow> if v = [] then (mem_emb_mark_fail now c, None) else (c\<lparr>ec_healthy := True\<rparr>, Some v))"

definition mem_emb_cosine :: "real list \<Rightarrow> real list \<Rightarrow> real" where
  "mem_emb_cosine a b =
     (if a = [] then 0
      else let dot = sum_list (map (\<lambda>(x, y). x * y) (zip a b)); na = sum_list (map (\<lambda>x. x * x) a);
               nb = sum_list (map (\<lambda>x. x * x) b)
           in if na = 0 \<or> nb = 0 then 0 else min 1 (max 0 (dot / (sqrt na * sqrt nb))))"

section \<open>The file\<close>

definition chr_bs :: char where "chr_bs = CHR 0x5C"
definition chr_dq :: char where "chr_dq = CHR 0x22"

definition json_escape_char :: "char \<Rightarrow> string" where
  "json_escape_char c =
     (if c = chr_dq then [chr_bs, chr_dq]
      else if c = chr_bs then [chr_bs, chr_bs]
      else if c = chr_nl then chr_bs # ''n''
      else if c = chr_tab then chr_bs # ''t''
      else if c = chr_cr then chr_bs # ''r''
      else if c = CHR 0x08 then chr_bs # ''b''
      else if c = CHR 0x0C then chr_bs # ''f''
      else if (of_char c :: nat) < 32
      then chr_bs # ''u00'' @ [hex_digit ((of_char c :: nat) div 16), hex_digit ((of_char c :: nat) mod 16)]
      else [c])"

definition mem_json_escape :: "string \<Rightarrow> string" where
  "mem_json_escape s = concat (map json_escape_char s)"

definition mem_jsonl_emit :: "mem_record \<Rightarrow> string" where
  "mem_jsonl_emit r =
     CHR ''{'' # (chr_dq # ''record_id'' @ [chr_dq]) @ '':'' @ [chr_dq] @ mr_record_id r @ [chr_dq] @ '','' @
     (chr_dq # ''data'' @ [chr_dq]) @ '':'' @ [chr_dq] @ mem_json_escape (mr_data r) @ [chr_dq] @ '','' @
     (chr_dq # ''metadata'' @ [chr_dq]) @ '':'' @ (case mr_metadata r of Some m \<Rightarrow> m | None \<Rightarrow> ''null'') @ '','' @
     (chr_dq # ''created_at'' @ [chr_dq]) @ '':'' @ show_nat (unat (mr_created_at r)) @ '','' @
     (chr_dq # ''len'' @ [chr_dq]) @ '':'' @ show_nat (length (mr_data r)) @ ''}'' @ [chr_nl]"

text \<open>An append may be cut short by a write error: with \<open>Some k\<close> only \<open>k\<close> characters of the line reach the file.\<close>

definition mem_persist_append_record :: "nat option \<Rightarrow> 'h mem_service \<Rightarrow> mem_record \<Rightarrow> 'h mem_service" where
  "mem_persist_append_record short s r =
     (case ms_file s of
        None \<Rightarrow> s
      | Some f \<Rightarrow> s\<lparr>ms_file := Some (f @ (case short of None \<Rightarrow> mem_jsonl_emit r | Some k \<Rightarrow> take k (mem_jsonl_emit r)))\<rparr>)"

text \<open>A rewrite goes through a temporary file: all or nothing.\<close>

definition mem_persist_rewrite_all :: "bool \<Rightarrow> 'h mem_service \<Rightarrow> 'h mem_service" where
  "mem_persist_rewrite_all io s =
     (case ms_file s of
        None \<Rightarrow> s
      | Some f \<Rightarrow> if io then s\<lparr>ms_file := Some (concat (map mem_jsonl_emit (ms_records s)))\<rparr> else s)"

definition mem_record_build_vector :: "mem_df_table \<Rightarrow> mem_record \<Rightarrow> mem_df_table \<times> mem_record" where
  "mem_record_build_vector df r =
     (let v = mem_vec_build (Some (mr_data r)) in (mem_df_add_doc df v, r\<lparr>mr_vec := v\<rparr>))"

definition empty_vec :: mem_tfidf_vec where "empty_vec = \<lparr>tv_terms = [], tv_total = 0\<rparr>"

text \<open>
  One parsed line becomes a record. The length of the copy is the \<open>len\<close> field; beyond the string
  and its terminating zero the copy leaves the string's memory (\<open>None\<close>).
\<close>

definition mem_record_decode ::
  "'h store_env \<Rightarrow> 64 word \<Rightarrow> 'h mem_service \<Rightarrow> json_record \<Rightarrow> ('h mem_service \<times> bool) option" where
  "mem_record_decode env now s j =
     (case (jr_record_id j, jr_data j) of
        (Some rid, Some v) \<Rightarrow>
          if ms_max_records s \<le> length (ms_records s) then Some (s, False)
          else let n = (case jr_len j of Some n \<Rightarrow> n | None \<Rightarrow> length v); n = (if n = 0 then length v else n)
               in if length v + 1 < n then None
                  else let r = \<lparr>mr_record_id = rid, mr_data = take n (v @ [CHR 0x00]), mr_metadata = jr_metadata j,
                                mr_created_at = (case jr_created_at j of Some t \<Rightarrow> t | None \<Rightarrow> now),
                                mr_vec = empty_vec, mr_emb = []\<rparr>
                       in (case hx_put env (ms_index s) rid (length (ms_records s)) of
                             None \<Rightarrow> Some (s, False)
                           | Some h \<Rightarrow>
                               (let (df, r) = mem_record_build_vector (ms_df s) r
                                in Some (s\<lparr>ms_records := ms_records s @ [r], ms_index := h, ms_df := df\<rparr>, True)))
      | _ \<Rightarrow> Some (s, False))"

fun split_lines :: "string \<Rightarrow> string \<Rightarrow> string list" where
  "split_lines acc [] = [rev acc]"
| "split_lines acc (c # cs) = (if c = chr_nl then rev acc # split_lines [] cs else split_lines (c # acc) cs)"

definition strip_line_cr :: "string \<Rightarrow> string" where
  "strip_line_cr l = rev (dropWhile (\<lambda>c. c = chr_cr) (rev l))"

definition load_line ::
  "'h store_env \<Rightarrow> 64 word \<Rightarrow> ('h mem_service \<times> nat) option \<Rightarrow> string \<Rightarrow> ('h mem_service \<times> nat) option" where
  "load_line env now sl line =
     (case sl of
        None \<Rightarrow> None
      | Some (s, n) \<Rightarrow>
          (let l = strip_line_cr (takeWhile (\<lambda>c. c \<noteq> CHR 0x00) line)
           in if l = [] then Some (s, n)
              else case se_parse env l of
                     None \<Rightarrow> Some (s, n)
                   | Some j \<Rightarrow> (case mem_record_decode env now s j of
                                 None \<Rightarrow> None
                               | Some (s, loaded) \<Rightarrow> Some (s, if loaded then n + 1 else n))))"

definition mem_load_lines ::
  "'h store_env \<Rightarrow> 64 word \<Rightarrow> 'h mem_service \<Rightarrow> string \<Rightarrow> ('h mem_service \<times> nat) option" where
  "mem_load_lines env now s content = foldl (load_line env now) (Some (s, 0)) (split_lines [] content)"

text \<open>
  The repair of old files: the new content replaces the old one in memory only when both the backup and
  the rewrite succeed. \<open>None\<close> means that nothing is replaced.
\<close>

definition mem_persist_repair_utf8 :: "'h store_env \<Rightarrow> bool \<Rightarrow> bool \<Rightarrow> string \<Rightarrow> string option" where
  "mem_persist_repair_utf8 env bak_ok rewrite_ok content =
     (let clean = se_utf8_sanitize env content
      in if clean = content then None
         else if \<not> bak_ok then None
         else if \<not> rewrite_ok then None
         else Some clean)"

definition mem_persist_load_existing ::
  "'h store_env \<Rightarrow> 64 word \<Rightarrow> bool \<Rightarrow> bool \<Rightarrow> 'h mem_service \<Rightarrow> 'h mem_service option" where
  "mem_persist_load_existing env now bak_ok rewrite_ok s =
     (case ms_file s of
        None \<Rightarrow> Some s
      | Some f \<Rightarrow>
          if f = [] then Some s
          else (case mem_persist_repair_utf8 env bak_ok rewrite_ok f of
                  Some clean \<Rightarrow> map_option fst (mem_load_lines env now (s\<lparr>ms_file := Some clean\<rparr>) clean)
                | None \<Rightarrow> map_option fst (mem_load_lines env now s f)))"

section \<open>Life cycle\<close>

definition mem_service_create ::
  "'h store_env \<Rightarrow> nat \<Rightarrow> real \<Rightarrow> mem_emb_client \<Rightarrow> string option \<Rightarrow> 64 word \<Rightarrow> bool \<Rightarrow> bool \<Rightarrow> 'h mem_service option" where
  "mem_service_create env max_records weight emb file now bak_ok rewrite_ok =
     (let m = (if max_records = 0 then MEM_DEFAULT_MAX_RECORDS else max_records)
      in case mem_df_init (m * 64) of
           None \<Rightarrow> None
         | Some df \<Rightarrow>
             mem_persist_load_existing env now bak_ok rewrite_ok
               \<lparr>ms_records = [], ms_max_records = m, ms_index = hx_init env (m * MEM_HASH_LOAD_FACTOR), ms_df = df,
                ms_tfidf_weight = weight, ms_emb = emb, ms_file = file\<rparr>)"

section \<open>Write, get, delete\<close>

definition mem_rec_find :: "'h store_env \<Rightarrow> 'h mem_service \<Rightarrow> string \<Rightarrow> nat option" where
  "mem_rec_find env s rid =
     (case hx_get env (ms_index s) rid of
        None \<Rightarrow> None
      | Some i \<Rightarrow> if length (ms_records s) \<le> i then None else Some i)"

text \<open>On failure of the index the frequencies of the new record stay counted.\<close>

definition mem_service_write ::
  "'h store_env \<Rightarrow> string \<Rightarrow> 64 word \<Rightarrow> nat option \<Rightarrow> 'h mem_service \<Rightarrow> string \<Rightarrow> string option \<Rightarrow>
   'h mem_service \<times> (mem_err + string)" where
  "mem_service_write env oid now k s data meta =
     (if data = [] then (s, Inl MEM_INVALID_PARAM)
      else if ms_max_records s \<le> length (ms_records s) then (s, Inl MEM_OUT_OF_MEMORY)
      else let r0 = \<lparr>mr_record_id = oid, mr_data = data, mr_metadata = meta, mr_created_at = now,
                     mr_vec = empty_vec, mr_emb = []\<rparr>;
               (df, r) = mem_record_build_vector (ms_df s) r0
           in case hx_put env (ms_index s) oid (length (ms_records s)) of
                None \<Rightarrow> (s\<lparr>ms_df := df\<rparr>, Inl MEM_INDEX_FULL)
              | Some h \<Rightarrow>
                  (mem_persist_append_record k (s\<lparr>ms_records := ms_records s @ [r], ms_index := h, ms_df := df\<rparr>) r, Inr oid))"

definition mem_rec_embed :: "'h store_env \<Rightarrow> 64 word \<Rightarrow> real list option \<Rightarrow> 'h mem_service \<Rightarrow> string \<Rightarrow> 'h mem_service" where
  "mem_rec_embed env now reply s rid =
     (case mem_emb_embed now reply (ms_emb s) of
        (c, None) \<Rightarrow> s\<lparr>ms_emb := c\<rparr>
      | (c, Some v) \<Rightarrow>
          (case mem_rec_find env s rid of
             None \<Rightarrow> s\<lparr>ms_emb := c\<rparr>
           | Some i \<Rightarrow> s\<lparr>ms_emb := c, ms_records := (ms_records s)[i := (ms_records s ! i)\<lparr>mr_emb := v\<rparr>]\<rparr>))"

definition mem_service_get :: "'h store_env \<Rightarrow> 'h mem_service \<Rightarrow> string \<Rightarrow> mem_err + (string \<times> string option)" where
  "mem_service_get env s rid =
     (case mem_rec_find env s rid of
        None \<Rightarrow> Inl MEM_NOT_FOUND
      | Some i \<Rightarrow> Inr (mr_data (ms_records s ! i), mr_metadata (ms_records s ! i)))"

text \<open>The last record takes the place of the removed one; the result of its \<open>hindex_put\<close> is ignored.\<close>

definition mem_remove_record_at :: "'h store_env \<Rightarrow> nat \<Rightarrow> 'h mem_service \<Rightarrow> 'h mem_service" where
  "mem_remove_record_at env idx s =
     (let rs = ms_records s; r = rs ! idx; lst = length rs - 1; h = hx_del env (ms_index s) (mr_record_id r);
          df = mem_df_remove_doc (ms_df s) (mr_vec r)
      in if idx \<noteq> lst
         then s\<lparr>ms_df := df, ms_records := take lst (rs[idx := rs ! lst]),
                ms_index := (case hx_put env h (mr_record_id (rs ! lst)) idx of Some h' \<Rightarrow> h' | None \<Rightarrow> h)\<rparr>
         else s\<lparr>ms_df := df, ms_records := take lst rs, ms_index := h\<rparr>)"

definition mem_service_delete :: "'h store_env \<Rightarrow> bool \<Rightarrow> 'h mem_service \<Rightarrow> string \<Rightarrow> 'h mem_service \<times> (mem_err + unit)" where
  "mem_service_delete env io s rid =
     (case mem_rec_find env s rid of
        None \<Rightarrow> (s, Inl MEM_NOT_FOUND)
      | Some i \<Rightarrow> (mem_persist_rewrite_all io (mem_remove_record_at env i s), Inr ()))"

definition mem_service_count :: "'h mem_service \<Rightarrow> nat" where
  "mem_service_count s = length (ms_records s)"

definition mem_service_recent :: "'h mem_service \<Rightarrow> nat \<Rightarrow> mem_record list" where
  "mem_service_recent s limit =
     (let l = (if limit = 0 then MEM_RECENT_DEFAULT_LIMIT else limit); n = length (ms_records s);
          k = (if n < l then n else l)
      in map (\<lambda>i. ms_records s ! (n - 1 - i)) [0..<k])"

section \<open>Search\<close>

definition mem_compute_score :: "mem_record \<Rightarrow> string \<Rightarrow> real" where
  "mem_compute_score r query =
     (let text = mr_data r; q = length query
      in if text = [] \<or> q = 0 then 0
         else let m = length (filter (\<lambda>i. i + q \<le> length text \<and> take q (drop i text) = query) [0..<length text])
              in if m = 0 then 0 else min 1 (real m * real q / real (length text)))"

record mem_rank =
  rk_query :: string
  rk_qvec :: mem_tfidf_vec
  rk_emb :: "real list"

definition mem_rank_open :: "real list option \<Rightarrow> string \<Rightarrow> mem_rank" where
  "mem_rank_open emb query =
     \<lparr>rk_query = query, rk_qvec = mem_vec_build (Some query), rk_emb = (case emb of Some v \<Rightarrow> v | None \<Rightarrow> [])\<rparr>"

definition mem_rec_vec_score :: "'h mem_service \<Rightarrow> mem_rank \<Rightarrow> mem_record \<Rightarrow> real" where
  "mem_rec_vec_score s k r =
     (if rk_emb k \<noteq> [] \<and> mr_emb r \<noteq> [] \<and> length (mr_emb r) = length (rk_emb k)
      then mem_emb_cosine (rk_emb k) (mr_emb r)
      else if tv_terms (mr_vec r) \<noteq> [] then mem_vec_cosine (rk_qvec k) (mr_vec r) (ms_df s) (length (ms_records s))
      else 0)"

definition mem_hit_score :: "'h mem_service \<Rightarrow> mem_rank \<Rightarrow> mem_record \<Rightarrow> real" where
  "mem_hit_score s k r =
     ms_tfidf_weight s * mem_rec_vec_score s k r + (1 - ms_tfidf_weight s) * mem_compute_score r (rk_query k)"

definition mem_rec_kb_id :: "'h store_env \<Rightarrow> mem_record \<Rightarrow> string option" where
  "mem_rec_kb_id env r =
     (case mr_metadata r of
        None \<Rightarrow> None
      | Some m \<Rightarrow> if m = [] then None else map_option (snprintf_s MEM_KB_ID_MAX) (se_kb_field env m))"

definition mem_rec_in_kb :: "'h store_env \<Rightarrow> string \<Rightarrow> mem_record \<Rightarrow> bool" where
  "mem_rec_in_kb env kb r \<longleftrightarrow> mem_rec_kb_id env r = Some kb"

definition mem_hits_collect ::
  "'h store_env \<Rightarrow> 'h mem_service \<Rightarrow> mem_rank \<Rightarrow> string option \<Rightarrow> (string \<times> real) list" where
  "mem_hits_collect env s k kb =
     map (\<lambda>r. (mr_record_id r, mem_hit_score s k r))
       (filter (\<lambda>r. (case kb of Some b \<Rightarrow> mem_rec_in_kb env b r | None \<Rightarrow> True) \<and> 0 < mem_hit_score s k r) (ms_records s))"

text \<open>One pass of the bubble sort over the first \<open>m\<close> neighbouring pairs, and the passes.\<close>

fun bubble_pass :: "nat \<Rightarrow> ('a \<times> 'k::linorder) list \<Rightarrow> ('a \<times> 'k) list" where
  "bubble_pass (Suc m) (x # y # zs) =
     (if snd x < snd y then y # bubble_pass m (x # zs) else x # bubble_pass m (y # zs))"
| "bubble_pass m xs = xs"

definition bubble_sort :: "('a \<times> 'k::linorder) list \<Rightarrow> ('a \<times> 'k) list" where
  "bubble_sort xs = foldl (\<lambda>xs i. bubble_pass (length xs - i - 1) xs) xs [0..<length xs - 1]"

definition mem_hits_trim :: "nat \<Rightarrow> ('a \<times> 'k::linorder) list \<Rightarrow> ('a \<times> 'k) list" where
  "mem_hits_trim limit hits = take limit (bubble_sort hits)"

definition mem_service_search_filtered ::
  "'h store_env \<Rightarrow> real list option \<Rightarrow> 'h mem_service \<Rightarrow> string option \<Rightarrow> string \<Rightarrow> nat \<Rightarrow> (string \<times> real) list" where
  "mem_service_search_filtered env emb s kb query limit =
     mem_hits_trim (if limit = 0 then 10 else limit) (mem_hits_collect env s (mem_rank_open emb query) kb)"

section \<open>Knowledge bases\<close>

definition is_cont :: "char \<Rightarrow> bool" where
  "is_cont c \<longleftrightarrow> byte_of c AND 0xC0 = 0x80"

text \<open>\<open>p\<close> moves back while it stands on a continuation byte.\<close>

fun chunk_back :: "string \<Rightarrow> nat \<Rightarrow> nat \<Rightarrow> nat" where
  "chunk_back text off 0 = 0"
| "chunk_back text off (Suc p) = (if off < Suc p \<and> is_cont (text ! Suc p) then chunk_back text off p else Suc p)"

definition mem_kb_chunk_len :: "string \<Rightarrow> nat \<Rightarrow> nat \<Rightarrow> nat" where
  "mem_kb_chunk_len text off chunk_size =
     (if length text \<le> off + chunk_size then length text - off else chunk_back text off (off + chunk_size) - off)"

text \<open>
  The loop over the chunks. \<open>io j\<close> gives the identifier, the time and the outcome of the append for
  the \<open>j\<close>-th write. The result is the service, the number of chunks written and the error, if any.
\<close>

function kb_ingest_loop ::
  "'h store_env \<Rightarrow> (nat \<Rightarrow> string \<times> 64 word \<times> nat option) \<Rightarrow> string \<Rightarrow> string \<Rightarrow> string \<Rightarrow> nat \<Rightarrow> nat \<Rightarrow> nat \<Rightarrow>
   'h mem_service \<Rightarrow> 'h mem_service \<times> nat \<times> mem_err option" where
  "kb_ingest_loop env io kb doc text csz off j s =
     (if off < length text then
        (let clen = mem_kb_chunk_len text off csz
         in if clen = 0 then (s, j, None)
            else case io j of (oid, now, k) \<Rightarrow>
              (case mem_service_write env oid now k s (take clen (drop off text)) (Some (se_kb_meta env kb doc j)) of
                 (s, Inl e) \<Rightarrow> (s, j, Some e)
               | (s, Inr rid) \<Rightarrow> kb_ingest_loop env io kb doc text csz (off + clen) (Suc j) s))
      else (s, j, None))"
  by pat_completeness auto
termination by (relation "measure (\<lambda>(env, io, kb, doc, text, csz, off, j, s). length text - off)") auto

definition mem_service_kb_ingest ::
  "'h store_env \<Rightarrow> (nat \<Rightarrow> string \<times> 64 word \<times> nat option) \<Rightarrow> 'h mem_service \<Rightarrow> string \<Rightarrow> string \<Rightarrow> string \<Rightarrow> nat \<Rightarrow>
   'h mem_service \<times> nat \<times> mem_err option" where
  "mem_service_kb_ingest env io s kb doc text chunk_size =
     (if kb = [] \<or> text = [] then (s, 0, Some MEM_INVALID_PARAM)
      else kb_ingest_loop env io kb doc text (if chunk_size = 0 then MEM_KB_DEFAULT_CHUNK_SIZE else chunk_size) 0 0 s)"

text \<open>\<open>i\<close> stays where it is after a removal, because another record has moved there.\<close>

function kb_delete_loop :: "'h store_env \<Rightarrow> string \<Rightarrow> nat \<Rightarrow> nat \<Rightarrow> 'h mem_service \<Rightarrow> 'h mem_service \<times> nat" where
  "kb_delete_loop env kb i n s =
     (if i < length (ms_records s) then
        (if mem_rec_in_kb env kb (ms_records s ! i) then kb_delete_loop env kb i (n + 1) (mem_remove_record_at env i s)
         else kb_delete_loop env kb (i + 1) n s)
      else (s, n))"
  by pat_completeness auto
termination
  by (relation "measure (\<lambda>(env, kb, i, n, s). length (ms_records s) - i)")
     (auto simp: mem_remove_record_at_def Let_def)

definition mem_service_kb_delete ::
  "'h store_env \<Rightarrow> bool \<Rightarrow> 'h mem_service \<Rightarrow> string \<Rightarrow> 'h mem_service \<times> (mem_err + nat)" where
  "mem_service_kb_delete env io s kb =
     (if kb = [] then (s, Inl MEM_INVALID_PARAM)
      else let (s, n) = kb_delete_loop env kb 0 0 s
           in (if 0 < n then mem_persist_rewrite_all io s else s, Inr n))"

definition mem_service_kb_list :: "'h store_env \<Rightarrow> 'h mem_service \<Rightarrow> string list" where
  "mem_service_kb_list env s =
     foldl (\<lambda>ids r. case mem_rec_kb_id env r of
                       None \<Rightarrow> ids
                     | Some kb \<Rightarrow> if kb \<in> set ids then ids else ids @ [kb]) [] (ms_records s)"

end
