(* ===== verification/Mem_Store_Spec.thy ===== *)
theory Mem_Store_Spec
  imports Mem_Store
begin

text \<open>
  What the record store of mem_d promises: it is a map from identifiers to records under every
  sequence of operations, its search returns the best hits in a stable order, its frequency table
  counts the records, its file carries it over a restart, and a document split into chunks is whole.
\<close>

section \<open>Ranking\<close>

lemma length_bubble_pass [simp]: "length (bubble_pass m xs) = length xs"
  by (induction m xs rule: bubble_pass.induct) auto

lemma mset_bubble_pass: "mset (bubble_pass m xs) = mset xs"
  by (induction m xs rule: bubble_pass.induct) auto

lemma filter_bubble_pass: "filter (\<lambda>h. snd h = k) (bubble_pass m xs) = filter (\<lambda>h. snd h = k) xs"
  by (induction m xs rule: bubble_pass.induct) auto

lemma bubble_pass_append: "m < length us \<Longrightarrow> bubble_pass m (us @ vs) = bubble_pass m us @ vs"
proof (induction m us rule: bubble_pass.induct)
  case (1 m x y zs)
  then show ?case by auto
qed auto

text \<open>A pass over a whole segment moves its smallest element to the end.\<close>

lemma bubble_pass_min:
  "us \<noteq> [] \<Longrightarrow> \<exists>ws x. bubble_pass (length us - 1) us = ws @ [x] \<and> (\<forall>w\<in>set ws. snd x \<le> snd w)"
proof (induction "length us" arbitrary: us)
  case 0
  then show ?case by simp
next
  case (Suc n)
  show ?case
  proof (cases us)
    case Nil
    with Suc.prems show ?thesis by simp
  next
    case (Cons x rest)
    show ?thesis
    proof (cases rest)
      case Nil
      with Cons show ?thesis by (intro exI [of _ "[]"]) simp
    next
      case (Cons y zs)
      let ?lo = "if snd x < snd y then x else y" and ?hi = "if snd x < snd y then y else x"
      have b: "bubble_pass (length us - 1) us = ?hi # bubble_pass (length (?lo # zs) - 1) (?lo # zs)"
        by (simp add: \<open>us = x # rest\<close> Cons)
      obtain ws z where w: "bubble_pass (length (?lo # zs) - 1) (?lo # zs) = ws @ [z]" "\<forall>w\<in>set ws. snd z \<le> snd w"
        using Suc.hyps(1) [of "?lo # zs"] Suc.hyps(2) by (auto simp: \<open>us = x # rest\<close> Cons)
      have "set (ws @ [z]) = set (?lo # zs)"
        unfolding w(1) [symmetric] by (rule mset_eq_setD [OF mset_bubble_pass])
      then have "?lo \<in> set (ws @ [z])" by (simp only: list.set_intros)
      then have "snd z \<le> snd ?lo" using w(2) by auto
      moreover have "snd ?lo \<le> snd ?hi" by auto
      ultimately have "\<forall>w\<in>set (?hi # ws). snd z \<le> snd w" using w(2) by auto
      then show ?thesis using b w(1) by (intro exI [of _ "?hi # ws"] exI [of _ z]) simp
    qed
  qed
qed

definition sorted_tail :: "nat \<Rightarrow> ('a \<times> 'k::linorder) list \<Rightarrow> bool" where
  "sorted_tail k xs \<longleftrightarrow> (\<exists>us vs. xs = us @ vs \<and> length vs = k \<and> sorted_wrt (\<lambda>a b. snd b \<le> snd a) vs \<and>
     (\<forall>u\<in>set us. \<forall>v\<in>set vs. snd v \<le> snd u))"

lemma sorted_tail_pass:
  assumes "sorted_tail k xs" and "k < length xs"
  shows "sorted_tail (Suc k) (bubble_pass (length xs - k - 1) xs)"
proof -
  from assms(1) obtain us vs where x: "xs = us @ vs" "length vs = k" "sorted_wrt (\<lambda>a b. snd b \<le> snd a) vs"
    "\<forall>u\<in>set us. \<forall>v\<in>set vs. snd v \<le> snd u" by (auto simp: sorted_tail_def)
  then have ne: "us \<noteq> []" and m: "length xs - k - 1 = length us - 1" "length us - 1 < length us" using assms(2) by auto
  obtain ws z where w: "bubble_pass (length us - 1) us = ws @ [z]" "\<forall>w\<in>set ws. snd z \<le> snd w"
    using bubble_pass_min [OF ne] by auto
  have s: "set (ws @ [z]) = set us" using mset_bubble_pass [of "length us - 1" us] w(1) by (metis set_mset_mset)
  have "bubble_pass (length xs - k - 1) xs = ws @ (z # vs)"
    using bubble_pass_append [OF m(2), of vs] w(1) m(1) x(1) by simp
  moreover have "sorted_wrt (\<lambda>a b. snd b \<le> snd a) (z # vs)" using x(3,4) s by auto
  moreover have "\<forall>u\<in>set ws. \<forall>v\<in>set (z # vs). snd v \<le> snd u" using w(2) x(4) s by auto
  ultimately show ?thesis unfolding sorted_tail_def using x(2)
    by (intro exI [of _ ws] exI [of _ "z # vs"]) simp
qed

lemma bubble_passes:
  assumes "k \<le> length xs - 1"
  shows "let ys = foldl (\<lambda>xs i. bubble_pass (length xs - i - 1) xs) xs [0..<k]
     in sorted_tail k ys \<and> mset ys = mset xs \<and> (\<forall>c. filter (\<lambda>h. snd h = c) ys = filter (\<lambda>h. snd h = c) xs)"
  using assms
proof (induction k)
  case 0
  then show ?case by (simp add: sorted_tail_def)
next
  case (Suc k)
  let ?ys = "foldl (\<lambda>xs i. bubble_pass (length xs - i - 1) xs) xs [0..<k]"
  have ih: "sorted_tail k ?ys" "mset ?ys = mset xs" "\<forall>c. filter (\<lambda>h. snd h = c) ?ys = filter (\<lambda>h. snd h = c) xs"
    using Suc.IH [unfolded Let_def] Suc.prems by (meson Suc_leD)+
  have "length ?ys = length xs" by (rule mset_eq_length [OF ih(2)])
  then have "sorted_tail (Suc k) (bubble_pass (length ?ys - k - 1) ?ys)" using Suc.prems by (intro sorted_tail_pass ih(1)) simp
  moreover have "foldl (\<lambda>xs i. bubble_pass (length xs - i - 1) xs) xs [0..<Suc k] = bubble_pass (length ?ys - k - 1) ?ys"
    by simp
  ultimately show ?case unfolding Let_def using ih(2,3) by (simp only: mset_bubble_pass filter_bubble_pass) blast
qed

lemma bubble_sort_stable:
  fixes xs :: "('a \<times> real) list"
  shows "bubble_sort xs = sort_key (\<lambda>h. - snd h) xs"
proof -
  let ?n = "length xs - 1"
  from bubble_passes [of ?n xs] have b: "sorted_tail ?n (bubble_sort xs)" "mset (bubble_sort xs) = mset xs"
    "\<And>c. filter (\<lambda>h. snd h = c) (bubble_sort xs) = filter (\<lambda>h. snd h = c) xs"
    by (simp_all add: bubble_sort_def Let_def)
  have "sorted (map (\<lambda>h. - snd h) (bubble_sort xs))"
  proof -
    from b(1) obtain us vs where u: "bubble_sort xs = us @ vs" "length vs = ?n" "sorted_wrt (\<lambda>a b. snd b \<le> snd a) vs"
      "\<forall>u\<in>set us. \<forall>v\<in>set vs. snd v \<le> snd u" by (auto simp: sorted_tail_def)
    have "length (us @ vs) = length xs" using b(2) u(1) by (metis size_mset)
    then have "length us \<le> 1" using u(2) by auto
    then have "us = [] \<or> (\<exists>w. us = [w])" by (cases us) auto
    then show ?thesis using u by (auto simp: sorted_wrt_map sorted_wrt_append)
  qed
  moreover have "filter (\<lambda>h. - snd k = - snd h) (bubble_sort xs) = filter (\<lambda>h. - snd k = - snd h) xs" for k :: "'a \<times> real"
    using b(3) [of "snd k"] by (simp add: eq_commute [of "snd k"])
  ultimately have "sort_key (\<lambda>h. - snd h) xs = bubble_sort xs"
    using b(2) by (intro properties_for_sort_key) simp_all
  then show ?thesis by simp
qed

text \<open>
  A search returns the best records: of all records (of the knowledge base, when one is given)
  whose score is positive, the first \<open>limit\<close> in the stable order of descending score, ten when no
  limit is given.
\<close>

theorem search_returns_best:
  "mem_service_search_filtered env emb s kb query limit =
     take (if limit = 0 then 10 else limit) (sort_key (\<lambda>h. - snd h)
       (map (\<lambda>r. (mr_record_id r, mem_hit_score s (mem_rank_open emb query) r))
         (filter (\<lambda>r. (case kb of Some b \<Rightarrow> mem_rec_in_kb env b r | None \<Rightarrow> True) \<and>
                      0 < mem_hit_score s (mem_rank_open emb query) r) (ms_records s))))"
  by (simp add: mem_service_search_filtered_def mem_hits_trim_def mem_hits_collect_def bubble_sort_stable)

section \<open>The records and their index\<close>

text \<open>
  What the code relies on of the hash index: it is a map from keys to positions, a put that
  succeeds updates it, and a put of a key that is present succeeds.
\<close>

definition hindex_law :: "'h store_env \<Rightarrow> bool" where
  "hindex_law env \<longleftrightarrow>
     (\<forall>n k. hx_get env (hx_init env n) k = None) \<and>
     (\<forall>h k i h'. hx_put env h k i = Some h' \<longrightarrow> hx_get env h' = (hx_get env h)(k \<mapsto> i)) \<and>
     (\<forall>h k. hx_get env (hx_del env h k) = (hx_get env h)(k := None)) \<and>
     (\<forall>h k i. hx_get env h k \<noteq> None \<longrightarrow> hx_put env h k i \<noteq> None)"

lemma hindex_putD: "hindex_law env \<Longrightarrow> hx_put env h k i = Some h' \<Longrightarrow> hx_get env h' = (hx_get env h)(k \<mapsto> i)"
  and hindex_del: "hindex_law env \<Longrightarrow> hx_get env (hx_del env h k) = (hx_get env h)(k := None)"
  and hindex_reput: "hindex_law env \<Longrightarrow> hx_get env h k \<noteq> None \<Longrightarrow> \<exists>h'. hx_put env h k i = Some h'"
  and hindex_init: "hindex_law env \<Longrightarrow> hx_get env (hx_init env n) k = None"
  unfolding hindex_law_def by blast+

definition index_exact :: "'h store_env \<Rightarrow> 'h \<Rightarrow> mem_record list \<Rightarrow> bool" where
  "index_exact env h rs \<longleftrightarrow> (\<forall>k i. hx_get env h k = Some i \<longleftrightarrow> i < length rs \<and> mr_record_id (rs ! i) = k)"

lemma index_exactI:
  "(\<And>k i. hx_get env h k = Some i \<longleftrightarrow> i < length rs \<and> mr_record_id (rs ! i) = k) \<Longrightarrow> index_exact env h rs"
  by (simp add: index_exact_def)

lemma index_exactD: "index_exact env h rs \<Longrightarrow> hx_get env h k = Some i \<longleftrightarrow> i < length rs \<and> mr_record_id (rs ! i) = k"
  by (simp add: index_exact_def)

lemma index_inj:
  assumes "index_exact env h rs" and "i < length rs" "j < length rs" and "mr_record_id (rs ! i) = mr_record_id (rs ! j)"
  shows "i = j"
proof -
  from assms have "hx_get env h (mr_record_id (rs ! i)) = Some i" "hx_get env h (mr_record_id (rs ! i)) = Some j"
    by (simp_all add: index_exact_def)
  then show ?thesis by simp
qed

lemma index_distinct: "index_exact env h rs \<Longrightarrow> distinct (map mr_record_id rs)"
  by (auto simp: distinct_conv_nth dest: index_inj)

lemma index_append:
  assumes "hindex_law env" and "index_exact env h rs" and "mr_record_id r \<notin> mr_record_id ` set rs"
    and "hx_put env h (mr_record_id r) (length rs) = Some h'"
  shows "index_exact env h' (rs @ [r])"
proof (rule index_exactI)
  fix k i
  have "mr_record_id (rs ! j) \<noteq> mr_record_id r" if "j < length rs" for j using assms(3) that by (metis image_eqI nth_mem)
  then show "hx_get env h' k = Some i \<longleftrightarrow> i < length (rs @ [r]) \<and> mr_record_id ((rs @ [r]) ! i) = k"
    using index_exactD [OF assms(2), of k i] hindex_putD [OF assms(1,4)]
    by (cases "k = mr_record_id r"; cases "i < length rs") (auto simp: nth_append less_Suc_eq)
qed

text \<open>Removing by moving the last record into the gap.\<close>

definition swap_remove :: "nat \<Rightarrow> 'a list \<Rightarrow> 'a list" where
  "swap_remove i xs = take (length xs - 1) (xs[i := xs ! (length xs - 1)])"

lemma length_swap_remove [simp]: "length (swap_remove i xs) = length xs - 1"
  by (simp add: swap_remove_def)

lemma nth_swap_remove:
  "i < length xs \<Longrightarrow> j < length xs - 1 \<Longrightarrow> swap_remove i xs ! j = (if j = i then xs ! (length xs - 1) else xs ! j)"
  by (simp add: swap_remove_def nth_list_update)

lemma mset_swap_remove:
  assumes "i < length xs"
  shows "mset xs = add_mset (xs ! i) (mset (swap_remove i xs))"
proof -
  from assms have "xs \<noteq> []" by auto
  then obtain ys y where x: "xs = ys @ [y]" by (metis rev_exhaust)
  show ?thesis
  proof (cases "i < length ys")
    case True
    then have "swap_remove i xs = ys[i := y]" by (simp add: x swap_remove_def list_update_append)
    moreover have "mset (ys[i := y]) = add_mset y (mset ys - {#ys ! i#})" using True by (simp add: mset_update)
    ultimately show ?thesis using True by (simp add: x nth_append)
  next
    case False
    with assms have "i = length ys" by (simp add: x)
    then show ?thesis by (simp add: x swap_remove_def)
  qed
qed

lemma remove_records:
  assumes "i < length (ms_records s)"
  shows "ms_records (mem_remove_record_at env i s) = swap_remove i (ms_records s)"
    and "ms_max_records (mem_remove_record_at env i s) = ms_max_records s"
    and "ms_file (mem_remove_record_at env i s) = ms_file s"
    and "ms_df (mem_remove_record_at env i s) = mem_df_remove_doc (ms_df s) (mr_vec (ms_records s ! i))"
  using assms by (auto simp: mem_remove_record_at_def Let_def swap_remove_def)

lemma index_remove:
  assumes "hindex_law env" and "index_exact env (ms_index s) (ms_records s)" and "i < length (ms_records s)"
  shows "index_exact env (ms_index (mem_remove_record_at env i s)) (swap_remove i (ms_records s))"
proof (rule index_exactI)
  fix k j
  let ?rs = "ms_records s" and ?l = "length (ms_records s) - 1"
  let ?h = "hx_del env (ms_index s) (mr_record_id (?rs ! i))"
  note ix = index_exactD [OF assms(2)] and inj = index_inj [OF assms(2)]
  have h: "hx_get env ?h q = Some p \<longleftrightarrow> p < length ?rs \<and> p \<noteq> i \<and> mr_record_id (?rs ! p) = q" for p q
    using ix [of q p] inj [of i p] assms(3) by (auto simp: hindex_del [OF assms(1)])
  show "hx_get env (ms_index (mem_remove_record_at env i s)) k = Some j \<longleftrightarrow>
      j < length (swap_remove i ?rs) \<and> mr_record_id (swap_remove i ?rs ! j) = k"
  proof (cases "i = ?l")
    case True
    then have "ms_index (mem_remove_record_at env i s) = ?h" by (simp add: mem_remove_record_at_def Let_def)
    with h [of k j] True nth_swap_remove [OF assms(3), of j] show ?thesis by auto
  next
    case False
    then have "i < ?l" using assms(3) by linarith
    with h [of "mr_record_id (?rs ! ?l)" ?l] have "hx_get env ?h (mr_record_id (?rs ! ?l)) \<noteq> None" by auto
    from hindex_reput [OF assms(1) this] obtain h' where p: "hx_put env ?h (mr_record_id (?rs ! ?l)) i = Some h'" by blast
    with False have "ms_index (mem_remove_record_at env i s) = h'" by (simp add: mem_remove_record_at_def Let_def)
    moreover have "hx_get env h' k = (if k = mr_record_id (?rs ! ?l) then Some i else hx_get env ?h k)"
      using hindex_putD [OF assms(1) p] by simp
    ultimately have g: "hx_get env (ms_index (mem_remove_record_at env i s)) k =
        (if k = mr_record_id (?rs ! ?l) then Some i else hx_get env ?h k)" by simp
    show ?thesis
    proof (cases "j = i")
      case True
      with g h [of k i] \<open>i < ?l\<close> nth_swap_remove [OF assms(3), of j] show ?thesis by auto
    next
      case False
      have "mr_record_id (?rs ! j) \<noteq> mr_record_id (?rs ! ?l)" if "j < ?l"
        using inj [of j ?l] that assms(3) by fastforce
      moreover have "j < ?l \<or> j = ?l \<or> length ?rs \<le> j" by linarith
      ultimately show ?thesis using False g h [of k j] \<open>i < ?l\<close> nth_swap_remove [OF assms(3), of j] by auto
    qed
  qed
qed

section \<open>The store as a map\<close>

definition rec_kv :: "mem_record \<Rightarrow> string \<times> string \<times> string option" where
  "rec_kv r = (mr_record_id r, mr_data r, mr_metadata r)"

definition store_map :: "'h mem_service \<Rightarrow> string \<rightharpoonup> string \<times> string option" where
  "store_map s = map_of (map rec_kv (ms_records s))"

definition store_ok :: "'h store_env \<Rightarrow> 'h mem_service \<Rightarrow> bool" where
  "store_ok env s \<longleftrightarrow> hindex_law env \<and> index_exact env (ms_index s) (ms_records s) \<and> length (ms_records s) \<le> ms_max_records s"

lemma fst_rec_kv: "map (fst \<circ> rec_kv) rs = map mr_record_id rs"
  by (simp add: rec_kv_def)

lemma kv_distinct: "index_exact env h rs \<Longrightarrow> distinct (map fst (map rec_kv rs))"
  by (simp add: fst_rec_kv index_distinct)

lemma store_map_iff:
  "index_exact env (ms_index s) (ms_records s) \<Longrightarrow> store_map s k = Some v \<longleftrightarrow> (k, v) \<in> rec_kv ` set (ms_records s)"
  using map_of_eq_Some_iff [OF kv_distinct, of env "ms_index s" "ms_records s" k v] by (simp add: store_map_def)

lemma store_map_None: "store_map s k = None \<longleftrightarrow> k \<notin> mr_record_id ` set (ms_records s)"
  unfolding store_map_def map_of_eq_None_iff by (simp add: image_image rec_kv_def)

lemma mem_rec_find_ok: "store_ok env s \<Longrightarrow> mem_rec_find env s rid = hx_get env (ms_index s) rid"
  using index_exactD [of env "ms_index s" "ms_records s" rid "the (hx_get env (ms_index s) rid)"]
  by (cases "hx_get env (ms_index s) rid") (simp_all add: store_ok_def mem_rec_find_def)

lemma mem_rec_find_SomeD:
  "store_ok env s \<Longrightarrow> mem_rec_find env s rid = Some i \<Longrightarrow> i < length (ms_records s) \<and> mr_record_id (ms_records s ! i) = rid"
  by (simp add: mem_rec_find_ok) (simp add: store_ok_def index_exact_def)

lemma mem_rec_find_None:
  assumes "store_ok env s"
  shows "mem_rec_find env s rid = None \<longleftrightarrow> store_map s rid = None"
proof -
  have ix: "index_exact env (ms_index s) (ms_records s)" using assms by (simp add: store_ok_def)
  have "hx_get env (ms_index s) rid = None \<longleftrightarrow> (\<forall>i. \<not> (i < length (ms_records s) \<and> mr_record_id (ms_records s ! i) = rid))"
    using index_exactD [OF ix, of rid] by (cases "hx_get env (ms_index s) rid") auto
  also have "\<dots> \<longleftrightarrow> store_map s rid = None" unfolding store_map_None image_iff set_conv_nth by blast
  finally show ?thesis by (simp add: mem_rec_find_ok [OF assms])
qed

lemma get_law:
  assumes "store_ok env s"
  shows "mem_service_get env s k = (case store_map s k of None \<Rightarrow> Inl MEM_NOT_FOUND | Some v \<Rightarrow> Inr v)"
proof (cases "mem_rec_find env s k")
  case None
  then have "store_map s k = None" using mem_rec_find_None [OF assms] by blast
  with None show ?thesis by (simp add: mem_service_get_def)
next
  case (Some i)
  from mem_rec_find_SomeD [OF assms this] have "(k, mr_data (ms_records s ! i), mr_metadata (ms_records s ! i)) \<in> rec_kv ` set (ms_records s)"
    by (auto simp: rec_kv_def image_iff intro!: bexI [of _ "ms_records s ! i"])
  then have "store_map s k = Some (mr_data (ms_records s ! i), mr_metadata (ms_records s ! i))"
    using assms by (simp add: store_map_iff [of env] store_ok_def)
  with Some show ?thesis by (simp add: mem_service_get_def)
qed

text \<open>Each operation keeps the invariant and acts on the map.\<close>

lemma map_of_remove:
  assumes "index_exact env h rs" and "i < length rs" and "index_exact env h' (swap_remove i rs)"
  shows "map_of (map rec_kv (swap_remove i rs)) = (map_of (map rec_kv rs))(mr_record_id (rs ! i) := None)"
proof
  fix k
  let ?m = "map_of (map rec_kv rs)" and ?m' = "map_of (map rec_kv (swap_remove i rs))"
  note iff = map_of_eq_Some_iff [OF kv_distinct [OF assms(1)]] map_of_eq_Some_iff [OF kv_distinct [OF assms(3)]]
  have st: "set rs = insert (rs ! i) (set (swap_remove i rs))"
    using mset_swap_remove [OF assms(2)] by (metis set_mset_add_mset_insert set_mset_mset)
  have "distinct (map mr_record_id (rs ! i # swap_remove i rs))"
    using index_distinct [OF assms(1)] mset_swap_remove [OF assms(2)]
    by (metis mset.simps(2) mset_eq_imp_distinct_iff mset_map)
  then have "mr_record_id (rs ! i) \<notin> mr_record_id ` set (swap_remove i rs)" by simp
  then have ne: "mr_record_id r \<noteq> mr_record_id (rs ! i)" if "r \<in> set (swap_remove i rs)" for r
    using that by (metis image_eqI)
  have "?m' k = Some v \<longleftrightarrow> (?m(mr_record_id (rs ! i) := None)) k = Some v" for v
    by (auto simp: iff st rec_kv_def dest!: ne)
  then show "?m' k = (?m(mr_record_id (rs ! i) := None)) k" by (metis not_Some_eq)
qed

lemma remove_law:
  assumes "store_ok env s" and "i < length (ms_records s)"
  shows "store_ok env (mem_remove_record_at env i s)"
    and "store_map (mem_remove_record_at env i s) = (store_map s)(mr_record_id (ms_records s ! i) := None)"
proof -
  have l: "hindex_law env" and ix: "index_exact env (ms_index s) (ms_records s)" using assms(1) by (simp_all add: store_ok_def)
  note ix' = index_remove [OF l ix assms(2)]
  with assms(1) show "store_ok env (mem_remove_record_at env i s)"
    by (auto simp: store_ok_def remove_records [OF assms(2)])
  show "store_map (mem_remove_record_at env i s) = (store_map s)(mr_record_id (ms_records s ! i) := None)"
    unfolding store_map_def remove_records [OF assms(2)] by (rule map_of_remove [OF ix assms(2) ix'])
qed

text \<open>What depends only on the records and the index.\<close>

lemma store_ok_cong:
  "ms_records s' = ms_records s \<Longrightarrow> ms_index s' = ms_index s \<Longrightarrow> ms_max_records s' = ms_max_records s \<Longrightarrow>
   store_ok env s' = store_ok env s \<and> store_map s' = store_map s"
  by (simp add: store_ok_def store_map_def)

lemma rewrite_keeps [simp]:
  "ms_records (mem_persist_rewrite_all io s) = ms_records s" "ms_index (mem_persist_rewrite_all io s) = ms_index s"
  "ms_max_records (mem_persist_rewrite_all io s) = ms_max_records s" "ms_df (mem_persist_rewrite_all io s) = ms_df s"
  by (simp_all add: mem_persist_rewrite_all_def split: option.split)

lemma append_keeps [simp]:
  "ms_records (mem_persist_append_record k s r) = ms_records s" "ms_index (mem_persist_append_record k s r) = ms_index s"
  "ms_max_records (mem_persist_append_record k s r) = ms_max_records s" "ms_df (mem_persist_append_record k s r) = ms_df s"
  by (simp_all add: mem_persist_append_record_def split: option.split)

lemma rewrite_store [simp]:
  "store_ok env (mem_persist_rewrite_all io s) = store_ok env s" "store_map (mem_persist_rewrite_all io s) = store_map s"
  using store_ok_cong [of "mem_persist_rewrite_all io s" s] by simp_all

lemma delete_law:
  assumes "store_ok env s"
  shows "store_ok env (fst (mem_service_delete env io s k)) \<and>
     store_map (fst (mem_service_delete env io s k)) = (store_map s)(k := None) \<and>
     (snd (mem_service_delete env io s k) = (if store_map s k = None then Inl MEM_NOT_FOUND else Inr ()))"
proof (cases "mem_rec_find env s k")
  case None
  with mem_rec_find_None [OF assms, of k] assms show ?thesis by (simp add: mem_service_delete_def fun_upd_idem)
next
  case (Some i)
  from mem_rec_find_SomeD [OF assms Some] have i: "i < length (ms_records s)" "mr_record_id (ms_records s ! i) = k" by simp_all
  have "store_map s k \<noteq> None" using mem_rec_find_None [OF assms, of k] Some by simp
  with Some i remove_law [OF assms i(1)] show ?thesis by (simp add: mem_service_delete_def)
qed

lemma write_law:
  assumes "store_ok env s" and "store_map s oid = None"
  shows "store_ok env (fst (mem_service_write env oid now k s data meta)) \<and>
     (case snd (mem_service_write env oid now k s data meta) of
        Inl e \<Rightarrow> ms_records (fst (mem_service_write env oid now k s data meta)) = ms_records s
      | Inr rid \<Rightarrow> rid = oid \<and> data \<noteq> [] \<and> length (ms_records s) < ms_max_records s \<and>
          store_map (fst (mem_service_write env oid now k s data meta)) = (store_map s)(oid \<mapsto> (data, meta)))"
proof (cases "data = [] \<or> ms_max_records s \<le> length (ms_records s)")
  case True
  with assms show ?thesis by (auto simp: mem_service_write_def)
next
  case False
  let ?r0 = "\<lparr>mr_record_id = oid, mr_data = data, mr_metadata = meta, mr_created_at = now, mr_vec = empty_vec, mr_emb = []\<rparr>"
  define r where "r = snd (mem_record_build_vector (ms_df s) ?r0)"
  define df where "df = fst (mem_record_build_vector (ms_df s) ?r0)"
  have b: "mem_record_build_vector (ms_df s) ?r0 = (df, r)" by (simp add: r_def df_def)
  have r: "mr_record_id r = oid" "rec_kv r = (oid, data, meta)"
    by (simp_all add: r_def mem_record_build_vector_def rec_kv_def Let_def)
  show ?thesis
  proof (cases "hx_put env (ms_index s) oid (length (ms_records s))")
    case None
    have "mem_service_write env oid now k s data meta = (s\<lparr>ms_df := df\<rparr>, Inl MEM_INDEX_FULL)"
      using False None by (simp add: mem_service_write_def b)
    with assms(1) show ?thesis by (simp add: store_ok_def)
  next
    case (Some h)
    let ?s = "mem_persist_append_record k (s\<lparr>ms_records := ms_records s @ [r], ms_index := h, ms_df := df\<rparr>) r"
    have w: "mem_service_write env oid now k s data meta = (?s, Inr oid)"
      using False Some by (simp add: mem_service_write_def b)
    have n: "mr_record_id r \<notin> mr_record_id ` set (ms_records s)" using assms(2) by (simp add: store_map_None r)
    have p: "hx_put env (ms_index s) (mr_record_id r) (length (ms_records s)) = Some h" using Some by (simp add: r)
    have ix: "index_exact env h (ms_records s @ [r])"
      using assms(1) by (intro index_append [OF _ _ n p]) (simp_all add: store_ok_def)
    have "map_of (map rec_kv (ms_records s)) oid = None" using assms(2) by (simp add: store_map_def)
    then have "store_map ?s = (store_map s)(oid \<mapsto> (data, meta))"
      by (auto simp: store_map_def map_add_def r split: option.split)
    with w False assms(1) ix show ?thesis by (simp add: store_ok_def)
  qed
qed

lemma embed_law:
  assumes "store_ok env s"
  shows "store_ok env (mem_rec_embed env now reply s k) \<and> store_map (mem_rec_embed env now reply s k) = store_map s"
proof (cases "snd (mem_emb_embed now reply (ms_emb s)) = None \<or> mem_rec_find env s k = None")
  case True
  then have "ms_records (mem_rec_embed env now reply s k) = ms_records s" "ms_index (mem_rec_embed env now reply s k) = ms_index s"
    "ms_max_records (mem_rec_embed env now reply s k) = ms_max_records s"
    by (auto simp: mem_rec_embed_def split: prod.split option.split)
  with assms store_ok_cong [of "mem_rec_embed env now reply s k" s] show ?thesis by simp
next
  case False
  then obtain c v i where e: "mem_emb_embed now reply (ms_emb s) = (c, Some v)" "mem_rec_find env s k = Some i"
    by (cases "mem_emb_embed now reply (ms_emb s)") auto
  let ?rs = "(ms_records s)[i := (ms_records s ! i)\<lparr>mr_emb := v\<rparr>]"
  have i: "i < length (ms_records s)" using mem_rec_find_SomeD [OF assms e(2)] by simp
  have kv: "map rec_kv ?rs = map rec_kv (ms_records s)"
    by (rule map_update_same) (simp add: rec_kv_def)
  have ids: "mr_record_id (?rs ! j) = mr_record_id (ms_records s ! j)" if "j < length (ms_records s)" for j
    using that i by (simp add: nth_list_update)
  have "index_exact env (ms_index s) ?rs"
  proof (rule index_exactI)
    fix q j
    show "hx_get env (ms_index s) q = Some j \<longleftrightarrow> j < length ?rs \<and> mr_record_id (?rs ! j) = q"
      using index_exactD [of env "ms_index s" "ms_records s" q j] ids [of j] assms unfolding store_ok_def length_list_update
      by metis
  qed
  with assms kv show ?thesis by (simp add: mem_rec_embed_def e store_ok_def store_map_def)
qed

text \<open>Deleting a knowledge base.\<close>

definition kv_in_kb :: "'h store_env \<Rightarrow> string \<Rightarrow> string \<times> string option \<Rightarrow> bool" where
  "kv_in_kb env kb v \<longleftrightarrow>
     (case snd v of None \<Rightarrow> False | Some m \<Rightarrow> m \<noteq> [] \<and> map_option (snprintf_s MEM_KB_ID_MAX) (se_kb_field env m) = Some kb)"

definition kv_drop :: "'h store_env \<Rightarrow> string \<Rightarrow> (string \<rightharpoonup> string \<times> string option) \<Rightarrow> string \<rightharpoonup> string \<times> string option" where
  "kv_drop env kb m k = (case m k of None \<Rightarrow> None | Some v \<Rightarrow> if kv_in_kb env kb v then None else Some v)"

lemma in_kb_kv: "mem_rec_in_kb env kb r = kv_in_kb env kb (snd (rec_kv r))"
  by (auto simp: mem_rec_in_kb_def mem_rec_kb_id_def kv_in_kb_def rec_kv_def split: option.split)

lemma kv_drop_removed: "(\<And>v. m k = Some v \<Longrightarrow> kv_in_kb env kb v) \<Longrightarrow> kv_drop env kb (m(k := None)) = kv_drop env kb m"
  by (auto simp: kv_drop_def fun_eq_iff split: option.split)

lemma kv_drop_none:
  assumes "store_ok env s" and "\<forall>r\<in>set (ms_records s). \<not> mem_rec_in_kb env kb r"
  shows "kv_drop env kb (store_map s) = store_map s"
proof
  fix k
  have "\<not> kv_in_kb env kb v" if "store_map s k = Some v" for v
  proof -
    from that assms(1) obtain r where "r \<in> set (ms_records s)" "rec_kv r = (k, v)"
      using store_map_iff [of env s k v] by (auto simp: store_ok_def)
    with assms(2) show ?thesis by (metis in_kb_kv snd_conv)
  qed
  then show "kv_drop env kb (store_map s) k = store_map s k" by (auto simp: kv_drop_def split: option.split)
qed

declare kb_delete_loop.simps [simp del]

lemma kb_delete_loop_law:
  assumes "store_ok env s" and "\<forall>j<i. j < length (ms_records s) \<longrightarrow> \<not> mem_rec_in_kb env kb (ms_records s ! j)"
  shows "let (s', n') = kb_delete_loop env kb i n s
     in store_ok env s' \<and> store_map s' = kv_drop env kb (store_map s) \<and>
        n' + length (ms_records s') = n + length (ms_records s) \<and> ms_max_records s' = ms_max_records s"
  using assms
proof (induction env kb i n s rule: kb_delete_loop.induct)
  case (1 env kb i n s)
  consider "length (ms_records s) \<le> i" | "i < length (ms_records s)" "mem_rec_in_kb env kb (ms_records s ! i)"
    | "i < length (ms_records s)" "\<not> mem_rec_in_kb env kb (ms_records s ! i)" by linarith
  then show ?case
  proof cases
    case 1
    then have "\<forall>r\<in>set (ms_records s). \<not> mem_rec_in_kb env kb r"
      using "1.prems"(2) by (auto simp: in_set_conv_nth)
    from kv_drop_none [OF "1.prems"(1) this] 1 "1.prems"(1) show ?thesis by (simp add: kb_delete_loop.simps)
  next
    case 2
    let ?s = "mem_remove_record_at env i s" and ?r = "ms_records s ! i"
    note rm = remove_law [OF "1.prems"(1) 2(1)] and rr = remove_records [OF 2(1), of env]
    have "\<forall>j<i. j < length (ms_records ?s) \<longrightarrow> \<not> mem_rec_in_kb env kb (ms_records ?s ! j)"
      using "1.prems"(2) 2(1) by (simp add: rr nth_swap_remove)
    note ih = "1.IH"(1) [OF 2 rm(1) this]
    have "kv_in_kb env kb v" if "store_map s (mr_record_id ?r) = Some v" for v
    proof -
      from 2(1) have "(mr_record_id ?r, snd (rec_kv ?r)) \<in> rec_kv ` set (ms_records s)"
        by (intro image_eqI [of _ _ ?r]) (simp_all add: rec_kv_def)
      then have "store_map s (mr_record_id ?r) = Some (snd (rec_kv ?r))"
        using "1.prems"(1) store_map_iff [of env s] by (simp add: store_ok_def)
      with that 2(2) show ?thesis by (simp add: in_kb_kv)
    qed
    from kv_drop_removed [where k = "mr_record_id ?r", OF this] rm(2)
    have "kv_drop env kb (store_map ?s) = kv_drop env kb (store_map s)" by simp
    with ih 2 show ?thesis by (auto simp: kb_delete_loop.simps [of env kb i n s] rr Let_def split: prod.splits)
  next
    case 3
    have "\<forall>j<i + 1. j < length (ms_records s) \<longrightarrow> \<not> mem_rec_in_kb env kb (ms_records s ! j)"
      using "1.prems"(2) 3(2) by (auto simp: less_Suc_eq)
    from "1.IH"(2) [OF 3 "1.prems"(1) this] 3 show ?thesis by (simp add: kb_delete_loop.simps [of env kb i n s])
  qed
qed

lemma kb_delete_law:
  assumes "store_ok env s"
  shows "store_ok env (fst (mem_service_kb_delete env io s kb)) \<and>
     ms_max_records (fst (mem_service_kb_delete env io s kb)) = ms_max_records s \<and>
     (case snd (mem_service_kb_delete env io s kb) of
        Inl e \<Rightarrow> kb = [] \<and> fst (mem_service_kb_delete env io s kb) = s
      | Inr n \<Rightarrow> kb \<noteq> [] \<and> store_map (fst (mem_service_kb_delete env io s kb)) = kv_drop env kb (store_map s) \<and>
          n + length (ms_records (fst (mem_service_kb_delete env io s kb))) = length (ms_records s))"
proof (cases "kb = []")
  case True
  with assms show ?thesis by (simp add: mem_service_kb_delete_def)
next
  case False
  obtain s' n where l: "kb_delete_loop env kb 0 0 s = (s', n)" by fastforce
  with kb_delete_loop_law [OF assms, of 0 kb 0] False show ?thesis by (simp add: mem_service_kb_delete_def)
qed

text \<open>Ingesting a document writes its chunks one by one.\<close>

function kb_chunks :: "string \<Rightarrow> nat \<Rightarrow> nat \<Rightarrow> string list" where
  "kb_chunks text csz off =
     (if off < length text \<and> mem_kb_chunk_len text off csz \<noteq> 0
      then take (mem_kb_chunk_len text off csz) (drop off text) # kb_chunks text csz (off + mem_kb_chunk_len text off csz)
      else [])"
  by pat_completeness auto
termination by (relation "measure (\<lambda>(text, csz, off). length text - off)") auto

declare kb_chunks.simps [simp del]
declare kb_ingest_loop.simps [simp del]

fun kv_put_chunks :: "(nat \<Rightarrow> string) \<Rightarrow> (nat \<Rightarrow> string) \<Rightarrow> nat \<Rightarrow> (string \<rightharpoonup> string \<times> string option) \<Rightarrow> string list \<Rightarrow>
   string \<rightharpoonup> string \<times> string option" where
  "kv_put_chunks ident meta j m [] = m"
| "kv_put_chunks ident meta j m (c # cs) = kv_put_chunks ident meta (Suc j) (m(ident j \<mapsto> (c, Some (meta j)))) cs"

lemma kv_put_chunks_other:
  "(\<And>i. j \<le> i \<Longrightarrow> i < j + length cs \<Longrightarrow> ident i \<noteq> k) \<Longrightarrow> kv_put_chunks ident meta j m cs k = m k"
proof (induction cs arbitrary: j m)
  case Nil
  then show ?case by simp
next
  case (Cons c cs)
  have "ident j \<noteq> k" using Cons.prems [of j] by simp
  moreover have "kv_put_chunks ident meta (Suc j) (m(ident j \<mapsto> (c, Some (meta j)))) cs k = (m(ident j \<mapsto> (c, Some (meta j)))) k"
    by (rule Cons.IH) (simp add: Cons.prems)
  ultimately show ?case by simp
qed

lemma kb_ingest_loop_law:
  assumes "store_ok env s" and "inj ident" and "\<And>i. j \<le> i \<Longrightarrow> store_map s (ident i) = None"
  shows "let (s', c, err) = kb_ingest_loop env (\<lambda>i. (ident i, io i)) kb doc body csz off j s
     in store_ok env s' \<and> ms_max_records s' = ms_max_records s \<and> j \<le> c \<and> c \<le> j + length (kb_chunks body csz off) \<and>
        (err = None \<longrightarrow> c = j + length (kb_chunks body csz off)) \<and>
        store_map s' = kv_put_chunks ident (se_kb_meta env kb doc) j (store_map s) (take (c - j) (kb_chunks body csz off))"
  using assms(1,3)
proof (induction body csz off arbitrary: j s rule: kb_chunks.induct)
  case (1 body csz off)
  let ?n = "mem_kb_chunk_len body off csz"
  show ?case
  proof (cases "off < length body \<and> ?n \<noteq> 0")
    case False
    then show ?thesis
      using "1.prems"(1) by (auto simp: kb_chunks.simps [of body csz off] kb_ingest_loop.simps [where ?off = off] Let_def)
  next
    case True
    let ?ch = "take ?n (drop off body)" and ?m = "Some (se_kb_meta env kb doc j)"
    obtain now k where io: "io j = (now, k)" by fastforce
    obtain s1 res where w: "mem_service_write env (ident j) now k s ?ch ?m = (s1, res)" by fastforce
    have wl: "store_ok env s1" "case res of Inl e \<Rightarrow> ms_records s1 = ms_records s
        | Inr rid \<Rightarrow> store_map s1 = (store_map s)(ident j \<mapsto> (?ch, ?m))"
      using write_law [OF "1.prems"(1) "1.prems"(2) [OF order_refl], of now k ?ch ?m] w by (auto split: sum.splits)
    have mx: "ms_max_records s1 = ms_max_records s"
      using w by (auto simp: mem_service_write_def Let_def split: if_splits option.splits prod.splits)
    have ch: "kb_chunks body csz off = ?ch # kb_chunks body csz (off + ?n)" using True by (simp add: kb_chunks.simps [of body csz off])
    have step: "kb_ingest_loop env (\<lambda>i. (ident i, io i)) kb doc body csz off j s =
        (case res of Inl e \<Rightarrow> (s1, j, Some e)
         | Inr _ \<Rightarrow> kb_ingest_loop env (\<lambda>i. (ident i, io i)) kb doc body csz (off + ?n) (Suc j) s1)"
      using True by (simp add: kb_ingest_loop.simps [where ?off = off] io w Let_def split: sum.split)
    show ?thesis
    proof (cases res)
      case (Inl e)
      then have "store_map s1 = store_map s" using wl(2) by (simp add: store_map_def)
      with step Inl wl(1) mx show ?thesis by simp
    next
      case (Inr rid)
      then have m: "store_map s1 = (store_map s)(ident j \<mapsto> (?ch, ?m))" using wl(2) by simp
      have "store_map s1 (ident i) = None" if "Suc j \<le> i" for i
        using that "1.prems"(2) [of i] injD [OF assms(2), of i j] by (auto simp: m)
      note ih = "1.IH" [where j = "Suc j", OF True wl(1) this]
      obtain s2 c err where l: "kb_ingest_loop env (\<lambda>i. (ident i, io i)) kb doc body csz (off + ?n) (Suc j) s1 = (s2, c, err)"
        by (metis prod_cases3)
      have "Suc j \<le> c" using ih by (simp add: l)
      then have "c - j = Suc (c - Suc j)" by simp
      with ih show ?thesis by (simp add: step Inr l ch mx m fun_upd_def)
    qed
  qed
qed

section \<open>Runs of the store\<close>

text \<open>
  The events of the service. Next to the service the model keeps the number of identifiers drawn
  so far and the map the clients have been told about: it changes by the answers of the operations.
\<close>

datatype store_ev =
    SWrite "64 word" "nat option" string "string option"
  | SEmbed "64 word" "real list option" string
  | SDelete bool string
  | SKbIngest "nat \<Rightarrow> 64 word \<times> nat option" string string string nat
  | SKbDelete bool string

type_synonym 'h store_sys = "'h mem_service \<times> nat \<times> (string \<rightharpoonup> string \<times> string option)"

definition kb_csz :: "nat \<Rightarrow> nat" where
  "kb_csz chunk_size = (if chunk_size = 0 then MEM_KB_DEFAULT_CHUNK_SIZE else chunk_size)"

fun store_step :: "'h store_env \<Rightarrow> (nat \<Rightarrow> string) \<Rightarrow> 'h store_sys \<Rightarrow> store_ev \<Rightarrow> 'h store_sys" where
  "store_step env gen (s, n, m) (SWrite now k data meta) =
     (case mem_service_write env (gen n) now k s data meta of
        (s, Inl _) \<Rightarrow> (s, Suc n, m) | (s, Inr rid) \<Rightarrow> (s, Suc n, m(rid \<mapsto> (data, meta))))"
| "store_step env gen (s, n, m) (SEmbed now reply rid) = (mem_rec_embed env now reply s rid, n, m)"
| "store_step env gen (s, n, m) (SDelete io rid) =
     (case mem_service_delete env io s rid of (s, Inl _) \<Rightarrow> (s, n, m) | (s, Inr _) \<Rightarrow> (s, n, m(rid := None)))"
| "store_step env gen (s, n, m) (SKbIngest io kb doc body csz) =
     (case mem_service_kb_ingest env (\<lambda>j. (gen (n + j), io j)) s kb doc body csz of
        (s, c, _) \<Rightarrow> (s, n + Suc c, kv_put_chunks (\<lambda>j. gen (n + j)) (se_kb_meta env kb doc) 0 m (take c (kb_chunks body (kb_csz csz) 0))))"
| "store_step env gen (s, n, m) (SKbDelete io kb) =
     (case mem_service_kb_delete env io s kb of (s, Inl _) \<Rightarrow> (s, n, m) | (s, Inr _) \<Rightarrow> (s, n, kv_drop env kb m))"

definition store_inv :: "'h store_env \<Rightarrow> (nat \<Rightarrow> string) \<Rightarrow> 'h store_sys \<Rightarrow> bool" where
  "store_inv env gen sys \<longleftrightarrow> (case sys of (s, n, m) \<Rightarrow>
     inj gen \<and> store_ok env s \<and> store_map s = m \<and> (\<forall>j\<ge>n. m (gen j) = None))"

lemma store_step_inv:
  assumes "store_inv env gen sys"
  shows "store_inv env gen (store_step env gen sys e)"
proof -
  obtain s n m where sys: "sys = (s, n, m)" by (metis prod_cases3)
  have i: "inj gen" "store_ok env s" "m = store_map s" "\<And>j. n \<le> j \<Longrightarrow> store_map s (gen j) = None"
    using assms by (simp_all add: store_inv_def sys)
  have gen: "gen j \<noteq> gen n" if "Suc n \<le> j" for j using injD [OF i(1), of j n] that by auto
  show ?thesis
  proof (cases e)
    case (SWrite now k data meta)
    obtain s' res where w: "mem_service_write env (gen n) now k s data meta = (s', res)" by fastforce
    show ?thesis
    proof (cases res)
      case (Inl err)
      with write_law [OF i(2) i(4) [OF order_refl], of now k data meta] w have "store_ok env s'" "store_map s' = store_map s"
        by (simp_all add: store_map_def)
      with i w Inl show ?thesis by (simp add: sys SWrite store_inv_def)
    next
      case (Inr rid)
      with write_law [OF i(2) i(4) [OF order_refl], of now k data meta] w
      have "store_ok env s'" "rid = gen n" "store_map s' = (store_map s)(gen n \<mapsto> (data, meta))" by simp_all
      with i w Inr gen show ?thesis by (simp add: sys SWrite store_inv_def)
    qed
  next
    case (SEmbed now reply rid)
    with i embed_law [OF i(2), of now reply rid] show ?thesis by (simp add: sys store_inv_def)
  next
    case (SDelete io rid)
    obtain s' res where d: "mem_service_delete env io s rid = (s', res)" by fastforce
    with delete_law [OF i(2), of io rid] have "store_ok env s'" "store_map s' = (store_map s)(rid := None)"
      "res = (if store_map s rid = None then Inl MEM_NOT_FOUND else Inr ())" by simp_all
    with i d show ?thesis by (auto simp: sys SDelete store_inv_def fun_upd_idem)
  next
    case (SKbIngest io kb doc body csz)
    show ?thesis
    proof (cases "kb = [] \<or> body = []")
      case True
      with i show ?thesis by (auto simp: sys SKbIngest store_inv_def mem_service_kb_ingest_def)
    next
      case False
      let ?id = "\<lambda>j. gen (n + j)"
      have inj: "inj ?id" by (rule injI) (use injD [OF i(1)] in force)
      obtain s' c err where l: "kb_ingest_loop env (\<lambda>i. (?id i, io i)) kb doc body (kb_csz csz) 0 0 s = (s', c, err)"
        by (metis prod_cases3)
      let ?m = "kv_put_chunks ?id (se_kb_meta env kb doc) 0 (store_map s) (take c (kb_chunks body (kb_csz csz) 0))"
      have r: "store_ok env s'" "store_map s' = ?m"
        using kb_ingest_loop_law [OF i(2) inj, of 0 io kb doc body "kb_csz csz" 0] i(4) by (simp_all add: l)
      have "?m (gen j) = None" if "n + Suc c \<le> j" for j
      proof -
        have "?m (gen j) = store_map s (gen j)"
          by (rule kv_put_chunks_other) (use that injD [OF i(1)] in force)
        with i(4) [of j] that show ?thesis by simp
      qed
      with r i(1,3) False l show ?thesis by (simp add: sys SKbIngest store_inv_def mem_service_kb_ingest_def flip: kb_csz_def)
    qed
  next
    case (SKbDelete io kb)
    obtain s' res where d: "mem_service_kb_delete env io s kb = (s', res)" by fastforce
    have "kv_drop env kb (store_map s) (gen j) = None" if "n \<le> j" for j using i(4) [OF that] by (simp add: kv_drop_def)
    with kb_delete_law [OF i(2), of io kb] d i show ?thesis by (cases res) (auto simp: sys SKbDelete store_inv_def)
  qed
qed

interpretation str: inv_machine "store_step env gen" "store_inv env gen" for env gen
  by unfold_locales (rule store_step_inv)

lemma store_create_inv:
  assumes "hindex_law env" and "inj gen" and "mem_service_create env mx w emb file now b1 b2 = Some s" and "file = None \<or> file = Some []"
  shows "store_inv env gen (s, 0, Map.empty)"
proof -
  have s: "ms_records s = []" "\<exists>n. ms_index s = hx_init env n"
    using assms(3,4) by (auto simp: mem_service_create_def mem_persist_load_existing_def Let_def split: option.splits)
  with assms(1,2) show ?thesis
    by (auto simp: store_inv_def store_ok_def index_exact_def store_map_def hindex_init)
qed

lemma count_card:
  assumes "store_ok env s"
  shows "mem_service_count s = card (dom (store_map s))"
proof -
  have "distinct (map mr_record_id (ms_records s))" using assms by (auto simp: store_ok_def intro: index_distinct)
  moreover have "dom (store_map s) = set (map mr_record_id (ms_records s))"
    using store_map_None [of s] by (auto simp: dom_def)
  ultimately show ?thesis by (simp add: mem_service_count_def distinct_card del: set_map)
qed

text \<open>
  C12. The store is a map: after any sequence of writes, deletions, installations of embeddings,
  ingestions and deletions of knowledge bases from an empty store, a get returns exactly what
  the answers of the earlier operations promise, the count is the number of live identifiers and
  within the limit, and a deletion succeeds exactly on a live identifier; the record moved into
  the gap by a deletion stays reachable.
\<close>

theorem store_is_map:
  assumes "hindex_law env" and "inj gen"
    and "mem_service_create env mx w emb file now b1 b2 = Some s0" and "file = None \<or> file = Some []"
    and "foldl (store_step env gen) (s0, 0, Map.empty) es = (s, n, m)"
  shows "mem_service_get env s k = (case m k of None \<Rightarrow> Inl MEM_NOT_FOUND | Some v \<Rightarrow> Inr v) \<and>
    mem_service_count s = card (dom m) \<and> mem_service_count s \<le> ms_max_records s \<and>
    snd (mem_service_delete env io s k) = (if m k = None then Inl MEM_NOT_FOUND else Inr ())"
proof -
  have "store_inv env gen (s, n, m)"
    unfolding assms(5) [symmetric] by (rule str.run_inv [OF store_create_inv [OF assms(1-4)]])
  then have i: "store_ok env s" "m = store_map s" by (simp_all add: store_inv_def)
  have "mem_service_count s \<le> ms_max_records s" using i(1) by (simp add: store_ok_def mem_service_count_def)
  with get_law [OF i(1)] count_card [OF i(1)] delete_law [OF i(1)] i(2) show ?thesis by blast
qed

definition list_env :: "(string \<times> nat) list store_env" where
  "list_env = \<lparr>hx_init = \<lambda>_. [], hx_put = \<lambda>h k i. Some ((k, i) # h), hx_get = map_of,
     hx_del = \<lambda>h k. filter (\<lambda>p. fst p \<noteq> k) h, se_parse = \<lambda>_. None, se_kb_field = \<lambda>m. Some m,
     se_kb_meta = \<lambda>kb doc j. kb, se_utf8_sanitize = \<lambda>s. s\<rparr>"

definition demo_store :: "(string \<times> nat) list mem_service" where
  "demo_store = \<lparr>ms_records = [], ms_max_records = 4, ms_index = [],
     ms_df = \<lparr>dt_entries = replicate 256 DF_FREE, dt_capacity = 256, dt_count = 0\<rparr>, ms_tfidf_weight = 1,
     ms_emb = mem_emb_client_init None None, ms_file = Some []\<rparr>"

lemma list_env_law: "hindex_law list_env"
proof -
  have "map_of (filter (\<lambda>p. fst p \<noteq> k) h) = (map_of h)(k := None)" for h :: "(string \<times> nat) list" and k
    by (induction h) (auto simp: fun_eq_iff)
  then show ?thesis by (simp add: hindex_law_def list_env_def)
qed

lemma demo_create: "mem_service_create list_env 4 1 (mem_emb_client_init None None) (Some []) 0 True True = Some demo_store"
  by (simp add: mem_service_create_def mem_df_init_def mem_persist_load_existing_def demo_store_def list_env_def Let_def)

lemma demo_gen: "inj (\<lambda>n. replicate n CHR ''a'')"
  by (rule injI) (metis length_replicate)

lemma demo_vec: "mem_vec_build (Some ''-'') = empty_vec" "mem_vec_build (Some ''+'') = empty_vec" "mem_vec_build (Some ''*'') = empty_vec"
  by code_simp+

lemmas demo_simps = list_env_def demo_store_def mem_service_write_def mem_record_build_vector_def demo_vec empty_vec_def
  mem_df_add_doc_def mem_df_remove_doc_def mem_service_delete_def mem_rec_find_def mem_remove_record_at_def
  mem_persist_append_record_def mem_persist_rewrite_all_def

theorem store_is_map_witness:
  "let (s, n, m) = foldl (store_step list_env (\<lambda>n. replicate n CHR ''a'')) (demo_store, 0, Map.empty)
       [SWrite 0 None ''-'' None, SWrite 0 None ''+'' (Some ''k''), SDelete True []]
   in mem_service_get list_env s ''a'' = Inr (''+'', Some ''k'') \<and> mem_service_get list_env s [] = Inl MEM_NOT_FOUND"
proof -
  obtain s n m where r: "foldl (store_step list_env (\<lambda>n. replicate n CHR ''a'')) (demo_store, 0, Map.empty)
       [SWrite 0 None ''-'' None, SWrite 0 None ''+'' (Some ''k''), SDelete True []] = (s, n, m)" by (metis prod_cases3)
  from r have "m ''a'' = Some (''+'', Some ''k'')" "m [] = None" by (auto simp: demo_simps Let_def)
  with store_is_map [OF list_env_law demo_gen demo_create _ r] show ?thesis unfolding r by simp
qed

section \<open>A document in chunks\<close>

definition cont_runs_short :: "string \<Rightarrow> bool" where
  "cont_runs_short body \<longleftrightarrow> (\<forall>i<length body - 3. \<exists>j<4. \<not> is_cont (body ! (i + j)))"

lemma chunk_back_law:
  "chunk_back body off p \<le> p \<and> (off \<le> p \<longrightarrow> off \<le> chunk_back body off p) \<and>
   (off < chunk_back body off p \<longrightarrow> \<not> is_cont (body ! chunk_back body off p)) \<and>
   (\<forall>q. off < q \<and> q \<le> p \<and> \<not> is_cont (body ! q) \<longrightarrow> q \<le> chunk_back body off p)"
  by (induction p) (auto simp: le_Suc_eq)

lemma chunk_len_law:
  assumes "off < length body" and "4 \<le> csz" and "cont_runs_short body"
  shows "0 < mem_kb_chunk_len body off csz" and "mem_kb_chunk_len body off csz \<le> csz"
    and "off + mem_kb_chunk_len body off csz \<le> length body"
    and "off + mem_kb_chunk_len body off csz < length body \<Longrightarrow> \<not> is_cont (body ! (off + mem_kb_chunk_len body off csz))"
proof -
  let ?n = "mem_kb_chunk_len body off csz" and ?b = "chunk_back body off (off + csz)"
  have "0 < ?n \<and> ?n \<le> csz \<and> off + ?n \<le> length body \<and> (off + ?n < length body \<longrightarrow> \<not> is_cont (body ! (off + ?n)))"
  proof (cases "length body \<le> off + csz")
    case True
    with assms(1) show ?thesis by (simp add: mem_kb_chunk_len_def)
  next
    case False
    then have "off + 1 < length body - 3" using assms(2) by linarith
    with assms(3) obtain j where j: "j < 4" "\<not> is_cont (body ! (off + 1 + j))" unfolding cont_runs_short_def by blast
    note b = chunk_back_law [of body off "off + csz"]
    have "off < off + 1 + j \<and> off + 1 + j \<le> off + csz" using j(1) assms(2) by linarith
    with b j(2) have "off + 1 + j \<le> ?b" by blast
    then have "off < ?b" by linarith
    moreover have "?n = ?b - off" using False by (simp add: mem_kb_chunk_len_def)
    ultimately show ?thesis using b False by auto
  qed
  then show "0 < ?n" "?n \<le> csz" "off + ?n \<le> length body" "off + ?n < length body \<Longrightarrow> \<not> is_cont (body ! (off + ?n))"
    by simp_all
qed

lemma kb_chunks_law:
  assumes "4 \<le> csz" and "cont_runs_short body" and "off \<le> length body"
  shows "concat (kb_chunks body csz off) = drop off body \<and>
    (\<forall>c\<in>set (kb_chunks body csz off). c \<noteq> [] \<and> length c \<le> csz) \<and>
    (off < length body \<and> \<not> is_cont (body ! off) \<longrightarrow> (\<forall>c\<in>set (kb_chunks body csz off). \<not> is_cont (hd c))) \<and>
    (\<forall>c\<in>set (tl (kb_chunks body csz off)). \<not> is_cont (hd c))"
  using assms
proof (induction body csz off rule: kb_chunks.induct)
  case (1 body csz off)
  let ?n = "mem_kb_chunk_len body off csz"
  show ?case
  proof (cases "off < length body")
    case False
    then have "kb_chunks body csz off = []" by (simp add: kb_chunks.simps [of body csz off])
    with False "1.prems" show ?thesis by simp
  next
    case True
    note n = chunk_len_law [OF True "1.prems"(1,2)]
    have ch: "kb_chunks body csz off = take ?n (drop off body) # kb_chunks body csz (off + ?n)"
      using True n(1) by (simp add: kb_chunks.simps [of body csz off])
    note ih = "1.IH" [OF _ "1.prems"(1,2) n(3)]
    have "take ?n (drop off body) @ drop (off + ?n) body = drop off body"
      by (metis add.commute append_take_drop_id drop_drop)
    moreover have "hd (take ?n (drop off body)) = body ! off" using True n(1) by (simp add: hd_drop_conv_nth hd_take)
    moreover have "length (take ?n (drop off body)) \<le> csz" "take ?n (drop off body) \<noteq> []" using n(1,2) True by auto
    moreover have "\<forall>c\<in>set (kb_chunks body csz (off + ?n)). \<not> is_cont (hd c)"
    proof (cases "off + ?n < length body")
      case True
      with ih n(1,4) \<open>off < length body\<close> show ?thesis by auto
    next
      case False
      then show ?thesis by (simp add: kb_chunks.simps [of body csz "off + ?n"])
    qed
    ultimately show ?thesis using ih True n(1) by (simp add: ch)
  qed
qed

lemma write_records:
  assumes "mem_service_write env oid now k s data meta = (s', Inr rid)"
  shows "\<exists>r. ms_records s' = ms_records s @ [r] \<and> mr_data r = data"
  using assms
  by (auto simp: mem_service_write_def mem_record_build_vector_def Let_def split: if_splits option.splits)

lemma ingest_records:
  assumes "kb_ingest_loop env io kb doc body csz off j s = (s', c, None)"
  shows "\<exists>new. ms_records s' = ms_records s @ new \<and> map mr_data new = kb_chunks body csz off \<and> c = j + length new"
  using assms
proof (induction body csz off arbitrary: j s rule: kb_chunks.induct)
  case (1 body csz off)
  let ?n = "mem_kb_chunk_len body off csz"
  show ?case
  proof (cases "off < length body \<and> ?n \<noteq> 0")
    case False
    with "1.prems" show ?thesis
      by (auto simp: kb_chunks.simps [of body csz off] kb_ingest_loop.simps [where ?off = off] Let_def split: if_splits)
  next
    case True
    obtain oid now k where io: "io j = (oid, now, k)" by (metis prod_cases3)
    obtain s1 res where w: "mem_service_write env oid now k s (take ?n (drop off body)) (Some (se_kb_meta env kb doc j)) = (s1, res)"
      by fastforce
    from "1.prems" True obtain rid where r: "res = Inr rid"
      by (cases res) (auto simp: kb_ingest_loop.simps [where ?off = off] io w Let_def)
    then have "kb_ingest_loop env io kb doc body csz (off + ?n) (Suc j) s1 = (s', c, None)"
      using "1.prems" True by (simp add: kb_ingest_loop.simps [where ?off = off] io w Let_def)
    from "1.IH" [OF True this] write_records [OF w [unfolded r]] obtain new x where
      "ms_records s' = ms_records s1 @ new" "map mr_data new = kb_chunks body csz (off + ?n)" "c = Suc j + length new"
      "ms_records s1 = ms_records s @ [x]" "mr_data x = take ?n (drop off body)" by blast
    then show ?thesis using True by (intro exI [of _ "x # new"]) (simp add: kb_chunks.simps [of body csz off])
  qed
qed

text \<open>
  C32. An ingested document is whole: when the ingestion of a text with no four continuation bytes in
  a row (every UTF-8 text) with chunks of at least four bytes, or of the default size (0), succeeds, the new
  records, in their order, spell the text, no chunk is empty or longer than asked for, their number is the one
  returned, and no chunk after the first begins inside a character. Smaller chunks can lose the text
  (\<open>kb_ingest_small_chunks\<close>).
\<close>

theorem kb_ingest_whole:
  assumes "mem_service_kb_ingest env io s kb doc body csz = (s', c, None)"
    and "csz = 0 \<or> 4 \<le> csz" and "cont_runs_short body"
  shows "\<exists>new. ms_records s' = ms_records s @ new \<and> c = length new \<and> concat (map mr_data new) = body \<and>
    (\<forall>r\<in>set new. mr_data r \<noteq> [] \<and> length (mr_data r) \<le> (if csz = 0 then 512 else csz)) \<and>
    (\<forall>r\<in>set (tl new). \<not> is_cont (hd (mr_data r)))"
proof -
  have k: "4 \<le> kb_csz csz" "kb_csz csz = (if csz = 0 then 512 else csz)"
    using assms(2) by (auto simp: kb_csz_def MEM_KB_DEFAULT_CHUNK_SIZE_def)
  from assms(1) have "kb_ingest_loop env io kb doc body (kb_csz csz) 0 0 s = (s', c, None)"
    by (simp add: mem_service_kb_ingest_def kb_csz_def split: if_splits)
  from ingest_records [OF this] obtain new where
    n: "ms_records s' = ms_records s @ new" "map mr_data new = kb_chunks body (kb_csz csz) 0" "c = length new" by auto
  note ch = kb_chunks_law [OF k(1) assms(3), of 0, folded n(2)]
  have "\<forall>r\<in>set (tl new). \<not> is_cont (hd (mr_data r))" using ch by (simp flip: map_tl)
  with n(1,3) ch k(2) show ?thesis by simp
qed

definition accent_text :: string where
  "accent_text = [CHR ''-'', CHR ''+'', CHR ''*'', CHR 0xC3, CHR 0xA9, CHR ''-'']"

theorem kb_ingest_whole_witness:
  "let (s', c, err) = mem_service_kb_ingest list_env (\<lambda>j. (replicate j CHR ''a'', 0, None)) demo_store ''kb'' ''doc'' accent_text 4
   in err = None \<and> concat (map mr_data (ms_records s')) = accent_text \<and> length (ms_records s') = c"
proof -
  have l: "mem_kb_chunk_len accent_text 0 4 = 3" "mem_kb_chunk_len accent_text 3 4 = 3" by code_simp+
  have v: "mem_vec_build (Some ''-+*'') = empty_vec" "mem_vec_build (Some [CHR 0xC3, CHR 0xA9, CHR ''-'']) = empty_vec"
    by code_simp+
  have c: "cont_runs_short accent_text" by code_simp
  obtain s' c err where r: "mem_service_kb_ingest list_env (\<lambda>j. (replicate j CHR ''a'', 0, None)) demo_store ''kb'' ''doc'' accent_text 4
      = (s', c, err)" by (metis prod_cases3)
  then have "err = None"
    by (auto simp: mem_service_kb_ingest_def kb_ingest_loop.simps l [unfolded accent_text_def] accent_text_def v demo_simps Let_def)
  with kb_ingest_whole [OF r [unfolded \<open>err = None\<close>] _ c] show ?thesis unfolding r by (auto simp: demo_store_def)
qed

definition cjk_text :: string where
  "cjk_text = [CHR 0xE4, CHR 0xB8, CHR 0xAD, CHR 0xE6, CHR 0x96, CHR 0x87]"

text \<open>A chunk size smaller than a character ends the ingestion at once, with success and nothing written.\<close>

lemma kb_ingest_small_chunks:
  "mem_service_kb_ingest env io s ''kb'' doc cjk_text 2 = (s, 0, None)"
proof -
  have "mem_kb_chunk_len cjk_text 0 2 = 0" by code_simp
  then show ?thesis by (simp add: mem_service_kb_ingest_def kb_ingest_loop.simps cjk_text_def Let_def)
qed

end
