(* ===== verification/Mem_Restart.thy ===== *)
theory Mem_Restart
  imports Mem_Store_Spec "HOL-Library.Monad_Syntax"
begin

text \<open>
  mem_d, the store and its file: what the file holds after a run, that a restart reads it back, and
  that the frequency table counts the records of the store. cJSON is a parameter; what is used of it is
  that an object with the five fields whose string bodies are valid JSON (RFC 8259, section 7) parses to
  the decoded strings, the numbers and the metadata value (\<open>json_reader\<close>). That the bodies the store
  writes are valid and decode to the data is proved (\<open>unescape_escape\<close>).
\<close>

section \<open>Lines\<close>

definition record_line :: "mem_record \<Rightarrow> string" where
  "record_line r = butlast (mem_jsonl_emit r)"

lemma emit_line: "mem_jsonl_emit r = record_line r @ [chr_nl]"
proof -
  have "mem_jsonl_emit r \<noteq> [] \<and> last (mem_jsonl_emit r) = chr_nl" by (simp add: mem_jsonl_emit_def)
  then show ?thesis unfolding record_line_def by (metis append_butlast_last_id)
qed

lemma record_line_shape: "record_line r \<noteq> [] \<and> last (record_line r) = CHR ''}''"
  by (simp add: record_line_def mem_jsonl_emit_def butlast_append)

definition plain :: "string \<Rightarrow> bool" where
  "plain t \<longleftrightarrow> chr_nl \<notin> set t \<and> CHR 0x00 \<notin> set t"

lemma plain_append [simp]: "plain (a @ b) \<longleftrightarrow> plain a \<and> plain b"
  by (auto simp: plain_def)

lemma plain_Cons [simp]: "plain (c # t) \<longleftrightarrow> c \<noteq> chr_nl \<and> c \<noteq> CHR 0x00 \<and> plain t"
  by (auto simp: plain_def)

lemma plain_Nil [simp]: "plain []"
  by (simp add: plain_def)

lemma hex_digit_plain: "n < 16 \<Longrightarrow> hex_digit n \<noteq> chr_nl \<and> hex_digit n \<noteq> CHR 0x00"
proof -
  assume "n < 16"
  then have "(of_char (hex_digit n) :: nat) = (if n < 10 then 48 + n else 87 + n)" by (simp add: hex_digit_def)
  then have "10 < (of_char (hex_digit n) :: nat)" by simp
  moreover have "(of_char chr_nl :: nat) = 10" "(of_char (CHR 0x00) :: nat) = 0" by code_simp+
  ultimately show ?thesis by auto
qed

lemma show_nat_plain: "plain (show_nat n)"
proof -
  have "\<not> c_isdigit chr_nl" "\<not> c_isdigit (CHR 0x00)" by code_simp+
  then show ?thesis using show_nat_digits [of _ n] unfolding plain_def by blast
qed

lemma escape_plain: "plain (mem_json_escape t)"
proof -
  have "plain (json_escape_char c)" for c
  proof (cases "(of_char c :: nat) < 32")
    case True
    then have "(of_char c :: nat) div 16 < 16" "(of_char c :: nat) mod 16 < 16" by auto
    note h = hex_digit_plain [OF this(1)] hex_digit_plain [OF this(2)]
    show ?thesis using h True by (simp add: json_escape_char_def chr_dq_def chr_bs_def chr_nl_def)
  next
    case False
    then have "c \<noteq> CHR 0x00" by auto
    with False show ?thesis by (simp add: json_escape_char_def chr_dq_def chr_bs_def chr_nl_def)
  qed
  then show ?thesis by (induction t) (simp_all add: mem_json_escape_def)
qed

lemma record_line_plain:
  assumes "plain (mr_record_id r)" and "\<And>m. mr_metadata r = Some m \<Longrightarrow> plain m"
  shows "plain (record_line r)"
proof -
  have "plain (case mr_metadata r of Some m \<Rightarrow> m | None \<Rightarrow> ''null'')"
    using assms(2) by (cases "mr_metadata r") (simp_all add: chr_nl_def)
  with assms(1) show ?thesis
    by (simp add: record_line_def mem_jsonl_emit_def butlast_append escape_plain show_nat_plain chr_nl_def chr_dq_def)
qed

lemma split_lines_line:
  "chr_nl \<notin> set l \<Longrightarrow> split_lines acc (l @ chr_nl # rest) = (rev acc @ l) # split_lines [] rest"
  by (induction l arbitrary: acc) auto

lemma split_records:
  "\<forall>r\<in>set rs. plain (record_line r) \<Longrightarrow> split_lines [] (concat (map mem_jsonl_emit rs)) = map record_line rs @ [[]]"
  by (induction rs) (simp_all add: emit_line split_lines_line plain_def)

section \<open>JSON string bodies\<close>

fun hex_val :: "char \<Rightarrow> nat option" where
  "hex_val c =
     (let n = (of_char c :: nat)
      in if 48 \<le> n \<and> n \<le> 57 then Some (n - 48)
         else if 97 \<le> n \<and> n \<le> 102 then Some (n - 87)
         else if 65 \<le> n \<and> n \<le> 70 then Some (n - 55) else None)"

definition esc_letter :: "char \<Rightarrow> char option" where
  "esc_letter e = map_of [(chr_dq, chr_dq), (chr_bs, chr_bs), (CHR ''/'', CHR ''/''), (CHR ''n'', chr_nl),
     (CHR ''t'', chr_tab), (CHR ''r'', chr_cr), (CHR ''b'', CHR 0x08), (CHR ''f'', CHR 0x0C)] e"

fun hex4_val :: "string \<Rightarrow> nat option" where
  "hex4_val [a, b, c, d] =
     (case (hex_val a, hex_val b, hex_val c, hex_val d) of
        (Some i, Some j, Some k, Some l) \<Rightarrow> Some (((i * 16 + j) * 16 + k) * 16 + l)
      | _ \<Rightarrow> None)"
| "hex4_val _ = None"

text \<open>
  The text a JSON string body stands for (RFC 8259, section 7). A quote, a control character and an
  unknown escape have no meaning there; of the four-digit escapes those below 128 are decoded, and the
  one of the zero character is left out, because a C string ends at it.
\<close>

function json_unescape :: "string \<Rightarrow> string option" where
  "json_unescape [] = Some []"
| "json_unescape (c # b) =
     (if c = chr_dq \<or> (of_char c :: nat) < 32 then None
      else if c \<noteq> chr_bs then map_option (Cons c) (json_unescape b)
      else if b \<noteq> [] \<and> hd b = CHR ''u'' then
        (case hex4_val (take 4 (tl b)) of
           Some n \<Rightarrow> if 0 < n \<and> n < 128 then map_option (Cons (char_of n)) (json_unescape (drop 5 b)) else None
         | None \<Rightarrow> None)
      else if b \<noteq> [] then
        (case esc_letter (hd b) of
           Some d \<Rightarrow> map_option (Cons d) (json_unescape (tl b))
         | None \<Rightarrow> None)
      else None)"
  by pat_completeness auto

termination json_unescape
  by (relation "measure length") (auto simp: less_Suc_eq_le)

lemma hex_val_digit: "n < 16 \<Longrightarrow> hex_val (hex_digit n) = Some n"
  by (simp add: hex_digit_def)

lemma hex4_control: "n < 32 \<Longrightarrow> hex4_val (''00'' @ [hex_digit (n div 16), hex_digit (n mod 16)]) = Some n"
  by (simp add: hex_val_digit del: hex_val.simps) (simp add: hex_val.simps)

lemmas esc_chars = chr_dq_def chr_bs_def chr_nl_def chr_tab_def chr_cr_def

text \<open>What is written for one character decodes to it.\<close>

lemma unescape_char:
  assumes "c \<noteq> CHR 0x00"
  shows "json_unescape (json_escape_char c @ b) = map_option (Cons c) (json_unescape b)"
proof -
  let ?n = "of_char c :: nat"
  consider (letter) "c \<in> {chr_dq, chr_bs, chr_nl, chr_tab, chr_cr, CHR 0x08, CHR 0x0C}"
    | (control) "c \<notin> {chr_dq, chr_bs, chr_nl, chr_tab, chr_cr, CHR 0x08, CHR 0x0C}" "?n < 32"
    | (raw) "c \<notin> {chr_dq, chr_bs, chr_nl, chr_tab, chr_cr, CHR 0x08, CHR 0x0C}" "\<not> ?n < 32"
    by blast
  then show ?thesis
  proof cases
    case letter
    then show ?thesis by (auto simp: json_escape_char_def esc_letter_def esc_chars)
  next
    case control
    have "char_of (0 :: nat) = CHR 0x00" by code_simp
    with assms have "?n \<noteq> 0" by (metis char_of_char)
    moreover have "json_escape_char c = chr_bs # CHR ''u'' # ''00'' @ [hex_digit (?n div 16), hex_digit (?n mod 16)]"
      using control by (simp add: json_escape_char_def)
    moreover have "(of_char chr_bs :: nat) = 92" "chr_bs \<noteq> chr_dq" by code_simp+
    ultimately show ?thesis
      using hex4_control [OF control(2)] control(2) by (simp add: json_unescape.simps(2))
  next
    case raw
    then show ?thesis by (simp add: json_escape_char_def)
  qed
qed


lemma unescape_escape: "CHR 0x00 \<notin> set t \<Longrightarrow> json_unescape (mem_json_escape t) = Some t"
  by (induction t) (auto simp: mem_json_escape_def unescape_char)

section \<open>Reading back\<close>

text \<open>One line of the file, from the bodies of its two strings, the text of the metadata and two numbers.\<close>

definition json_line :: "string \<Rightarrow> string \<Rightarrow> string \<Rightarrow> nat \<Rightarrow> nat \<Rightarrow> string" where
  "json_line idb dat meta cr len =
     CHR ''{'' # (chr_dq # ''record_id'' @ [chr_dq]) @ '':'' @ [chr_dq] @ idb @ [chr_dq] @ '','' @
     (chr_dq # ''data'' @ [chr_dq]) @ '':'' @ [chr_dq] @ dat @ [chr_dq] @ '','' @
     (chr_dq # ''metadata'' @ [chr_dq]) @ '':'' @ meta @ '','' @
     (chr_dq # ''created_at'' @ [chr_dq]) @ '':'' @ show_nat cr @ '','' @
     (chr_dq # ''len'' @ [chr_dq]) @ '':'' @ show_nat len @ ''}''"

text \<open>
  What is used of cJSON. \<open>printed m\<close> says that \<open>m\<close> is a text \<open>cJSON_PrintUnformatted\<close> gives for a value
  other than null: reading such a text and printing it again changes nothing. Numbers are doubles, so
  integers are exact up to \<open>2 ^ 53\<close>.
\<close>

definition json_reader :: "(string \<Rightarrow> bool) \<Rightarrow> (string \<Rightarrow> json_record option) \<Rightarrow> bool" where
  "json_reader printed parse \<longleftrightarrow> \<not> printed ''null'' \<and>
     (\<forall>idb dat meta cr len rid v. json_unescape idb = Some rid \<longrightarrow> json_unescape dat = Some v \<longrightarrow>
        printed meta \<or> meta = ''null'' \<longrightarrow> cr \<le> 2 ^ 53 \<longrightarrow> len \<le> 2 ^ 53 \<longrightarrow>
        parse (json_line idb dat meta cr len) =
          Some \<lparr>jr_record_id = Some rid, jr_data = Some v, jr_len = Some len,
                jr_metadata = (if printed meta then Some meta else None), jr_created_at = Some (of_nat cr)\<rparr>)"

text \<open>
  A record the file can hold: an identifier that needs no escape (it is written as it is), data
  without the zero character, printed metadata on one line, numbers a double can hold.
\<close>

definition storable :: "(string \<Rightarrow> bool) \<Rightarrow> mem_record \<Rightarrow> bool" where
  "storable printed r \<longleftrightarrow>
     list_all (\<lambda>c. c \<noteq> chr_dq \<and> c \<noteq> chr_bs \<and> 32 \<le> (of_char c :: nat)) (mr_record_id r) \<and>
     CHR 0x00 \<notin> set (mr_data r) \<and>
     (\<forall>m. mr_metadata r = Some m \<longrightarrow> printed m \<and> m \<noteq> ''null'' \<and> chr_nl \<notin> set m \<and> CHR 0x00 \<notin> set m) \<and>
     unat (mr_created_at r) \<le> 2 ^ 53 \<and> length (mr_data r) \<le> 2 ^ 53"

definition parsed :: "mem_record \<Rightarrow> json_record" where
  "parsed r = \<lparr>jr_record_id = Some (mr_record_id r), jr_data = Some (mr_data r), jr_len = Some (length (mr_data r)),
     jr_metadata = mr_metadata r, jr_created_at = Some (mr_created_at r)\<rparr>"

lemma record_line_json:
  "record_line r = json_line (mr_record_id r) (mem_json_escape (mr_data r))
     (case mr_metadata r of Some m \<Rightarrow> m | None \<Rightarrow> ''null'') (unat (mr_created_at r)) (length (mr_data r))"
  by (simp add: record_line_def mem_jsonl_emit_def json_line_def butlast_append)

lemma json_readerD:
  assumes "json_reader printed parse" and "json_unescape idb = Some rid" and "json_unescape dat = Some v"
    and "printed meta \<or> meta = ''null''" and "cr \<le> 2 ^ 53" and "len \<le> 2 ^ 53"
  shows "parse (json_line idb dat meta cr len) =
    Some \<lparr>jr_record_id = Some rid, jr_data = Some v, jr_len = Some len,
          jr_metadata = (if printed meta then Some meta else None), jr_created_at = Some (of_nat cr)\<rparr>"
  using assms unfolding json_reader_def by blast

lemma unescape_plain_id:
  "list_all (\<lambda>c. c \<noteq> chr_dq \<and> c \<noteq> chr_bs \<and> 32 \<le> (of_char c :: nat)) t \<Longrightarrow> json_unescape t = Some t"
  by (induction t) auto

lemma record_parsed:
  assumes "json_reader printed parse" and "storable printed r"
  shows "parse (record_line r) = Some (parsed r)"
proof -
  let ?m = "case mr_metadata r of Some m \<Rightarrow> m | None \<Rightarrow> ''null''"
  have m: "printed ?m \<or> ?m = ''null''" "(if printed ?m then Some ?m else None) = mr_metadata r"
    using assms by (auto simp: storable_def json_reader_def split: option.splits)
  have "json_unescape (mr_record_id r) = Some (mr_record_id r)"
    and "json_unescape (mem_json_escape (mr_data r)) = Some (mr_data r)"
    and "unat (mr_created_at r) \<le> 2 ^ 53" and "length (mr_data r) \<le> 2 ^ 53"
    using assms(2) by (simp_all add: storable_def unescape_plain_id unescape_escape)
  from json_readerD [OF assms(1) this(1,2) m(1) this(3,4)] show ?thesis
    by (simp add: record_line_json parsed_def m(2))
qed

text \<open>What the loader needs of a line.\<close>

definition line_reads :: "'h store_env \<Rightarrow> mem_record \<Rightarrow> bool" where
  "line_reads env r \<longleftrightarrow> plain (record_line r) \<and> se_parse env (record_line r) = Some (parsed r)"

lemma storable_line:
  assumes "json_reader printed (se_parse env)" and "storable printed r"
  shows "line_reads env r"
proof -
  have "plain t" if "list_all (\<lambda>c. c \<noteq> chr_dq \<and> c \<noteq> chr_bs \<and> 32 \<le> (of_char c :: nat)) t" for t
    using that by (induction t) (auto simp: chr_nl_def)
  then have "plain (record_line r)" using assms(2) by (intro record_line_plain) (auto simp: storable_def plain_def)
  with record_parsed [OF assms] show ?thesis by (simp add: line_reads_def)
qed

lemma line_reads_clean:
  assumes "line_reads env r"
  shows "strip_line_cr (takeWhile (\<lambda>c. c \<noteq> CHR 0x00) (record_line r)) = record_line r"
proof -
  have "takeWhile (\<lambda>c. c \<noteq> CHR 0x00) (record_line r) = record_line r"
    using assms by (auto simp: takeWhile_eq_all_conv line_reads_def plain_def)
  moreover obtain us where "record_line r = us @ [CHR ''}'']" using record_line_shape [of r] by (metis append_butlast_last_id)
  ultimately show ?thesis by (simp add: strip_line_cr_def chr_cr_def)
qed

text \<open>The record a line becomes: embeddings are not stored.\<close>

definition reloaded :: "mem_record \<Rightarrow> mem_record" where
  "reloaded r = r\<lparr>mr_vec := mem_vec_build (Some (mr_data r)), mr_emb := []\<rparr>"

lemma load_record:
  assumes "line_reads env r" and "length (ms_records s) < ms_max_records s"
    and "hx_put env (ms_index s) (mr_record_id r) (length (ms_records s)) = Some h"
  shows "load_line env now (Some (s, n)) (record_line r) =
     Some (s\<lparr>ms_records := ms_records s @ [reloaded r], ms_index := h,
             ms_df := mem_df_add_doc (ms_df s) (mem_vec_build (Some (mr_data r)))\<rparr>, n + 1)"
proof -
  have "se_parse env (record_line r) = Some (parsed r)" using assms(1) by (simp add: line_reads_def)
  then show ?thesis
    using assms(2,3) record_line_shape [of r]
    by (simp add: load_line_def line_reads_clean [OF assms(1)] mem_record_decode_def parsed_def
        mem_record_build_vector_def reloaded_def Let_def)
qed

lemma load_records:
  assumes "hindex_law env" and "\<And>h k i. hx_put env h k i \<noteq> None" and "\<forall>r\<in>set rs. line_reads env r"
    and "length (ms_records s) + length rs \<le> ms_max_records s" and "index_exact env (ms_index s) (ms_records s)"
    and "distinct (map mr_record_id (ms_records s @ rs))"
  shows "\<exists>s' k. foldl (load_line env now) (Some (s, n)) (map record_line rs) = Some (s', k) \<and>
     ms_records s' = ms_records s @ map reloaded rs \<and> index_exact env (ms_index s') (ms_records s') \<and>
     ms_max_records s' = ms_max_records s \<and> ms_file s' = ms_file s \<and>
     ms_df s' = foldl (\<lambda>df r. mem_df_add_doc df (mem_vec_build (Some (mr_data r)))) (ms_df s) rs"
  using assms(3-6)
proof (induction rs arbitrary: s n)
  case Nil
  then show ?case by simp
next
  case (Cons r rs)
  from assms(2) obtain h where h: "hx_put env (ms_index s) (mr_record_id r) (length (ms_records s)) = Some h" by blast
  let ?s = "s\<lparr>ms_records := ms_records s @ [reloaded r], ms_index := h,
             ms_df := mem_df_add_doc (ms_df s) (mem_vec_build (Some (mr_data r)))\<rparr>"
  have id: "mr_record_id (reloaded r) = mr_record_id r" by (simp add: reloaded_def)
  have step: "load_line env now (Some (s, n)) (record_line r) = Some (?s, n + 1)"
    using Cons.prems(1,2) by (intro load_record h) simp_all
  have new: "mr_record_id (reloaded r) \<notin> mr_record_id ` set (ms_records s)" using Cons.prems(4) by (auto simp: id)
  have ix: "index_exact env (ms_index ?s) (ms_records ?s)"
    using index_append [OF assms(1) Cons.prems(3) new] h by (simp add: id)
  have "distinct (map mr_record_id (ms_records ?s @ rs))" using Cons.prems(4) by (simp add: id)
  from Cons.IH [OF _ _ ix this, of "n + 1"] Cons.prems(1,2) step show ?case by auto
qed

section \<open>What the file holds\<close>

definition file_exact :: "'h mem_service \<Rightarrow> bool" where
  "file_exact s \<longleftrightarrow> ms_file s = Some (concat (map mem_jsonl_emit (ms_records s)))"

definition durable :: "store_ev \<Rightarrow> bool" where
  "durable e \<longleftrightarrow> (case e of
      SWrite now short data meta \<Rightarrow> short = None
    | SKbIngest io kb doc body csz \<Rightarrow> (\<forall>j. snd (io j) = None)
    | SDelete io rid \<Rightarrow> io
    | SKbDelete io kb \<Rightarrow> io
    | SEmbed now reply rid \<Rightarrow> True)"

lemma write_file:
  assumes "file_exact s"
  shows "file_exact (fst (mem_service_write env oid now None s data meta))"
proof (cases "data = [] \<or> ms_max_records s \<le> length (ms_records s)")
  case True
  with assms show ?thesis by (auto simp: mem_service_write_def)
next
  case False
  with assms show ?thesis
    by (cases "hx_put env (ms_index s) oid (length (ms_records s))")
       (simp_all add: mem_service_write_def mem_record_build_vector_def mem_persist_append_record_def file_exact_def Let_def)
qed

lemma rewrite_file: "ms_file s \<noteq> None \<Longrightarrow> file_exact (mem_persist_rewrite_all True s)"
  by (auto simp: mem_persist_rewrite_all_def file_exact_def)

lemma embed_file:
  assumes "store_ok env s" and "file_exact s"
  shows "file_exact (mem_rec_embed env now reply s rid)"
proof (cases "snd (mem_emb_embed now reply (ms_emb s)) = None \<or> mem_rec_find env s rid = None")
  case True
  with assms(2) show ?thesis by (auto simp: mem_rec_embed_def file_exact_def split: prod.split option.split)
next
  case False
  then obtain c v i where e: "mem_emb_embed now reply (ms_emb s) = (c, Some v)" "mem_rec_find env s rid = Some i"
    by (cases "mem_emb_embed now reply (ms_emb s)") auto
  have "mem_jsonl_emit ((ms_records s ! i)\<lparr>mr_emb := v\<rparr>) = mem_jsonl_emit (ms_records s ! i)" by (simp add: mem_jsonl_emit_def)
  then have "map mem_jsonl_emit ((ms_records s)[i := (ms_records s ! i)\<lparr>mr_emb := v\<rparr>]) = map mem_jsonl_emit (ms_records s)"
    by (rule map_update_same)
  with assms(2) show ?thesis by (simp add: mem_rec_embed_def e file_exact_def)
qed

lemma delete_file:
  assumes "store_ok env s" and "file_exact s"
  shows "file_exact (fst (mem_service_delete env True s rid))"
proof (cases "mem_rec_find env s rid")
  case None
  with assms show ?thesis by (simp add: mem_service_delete_def)
next
  case (Some i)
  from mem_rec_find_SomeD [OF assms(1) this] have "i < length (ms_records s)" by simp
  with assms(2) have "ms_file (mem_remove_record_at env i s) \<noteq> None" by (simp add: remove_records file_exact_def)
  with Some rewrite_file show ?thesis by (simp add: mem_service_delete_def)
qed

lemma ingest_file:
  assumes "file_exact s" and "\<And>i. snd (snd (io i)) = None"
  shows "file_exact (fst (kb_ingest_loop env io kb doc body csz off j s))"
  using assms(1)
proof (induction body csz off arbitrary: j s rule: kb_chunks.induct)
  case (1 body csz off)
  let ?n = "mem_kb_chunk_len body off csz"
  obtain oid now where io: "io j = (oid, now, None)" using assms(2) [of j] by (metis prod.collapse)
  let ?w = "mem_service_write env oid now None s (take ?n (drop off body)) (Some (se_kb_meta env kb doc j))"
  have w: "file_exact (fst ?w)" by (rule write_file [OF "1.prems"])
  show ?case
  proof (cases "off < length body \<and> ?n \<noteq> 0")
    case False
    with "1.prems" show ?thesis by (auto simp: kb_ingest_loop.simps [where ?off = off] Let_def)
  next
    case True
    obtain s1 res where r: "?w = (s1, res)" by fastforce
    with w have "file_exact s1" by simp
    with True "1.IH" [OF True this, of "Suc j"] r show ?thesis
      by (cases res) (simp_all add: kb_ingest_loop.simps [where ?off = off] io Let_def)
  qed
qed

lemma kb_delete_loop_same:
  "kb_delete_loop env kb i n s = (s', n') \<Longrightarrow> n \<le> n' \<and> (n' = n \<longrightarrow> s' = s) \<and> (ms_file s \<noteq> None \<longrightarrow> ms_file s' \<noteq> None)"
proof (induction env kb i n s arbitrary: s' n' rule: kb_delete_loop.induct)
  case (1 env kb i n s)
  consider "length (ms_records s) \<le> i" | "i < length (ms_records s)" "mem_rec_in_kb env kb (ms_records s ! i)"
    | "i < length (ms_records s)" "\<not> mem_rec_in_kb env kb (ms_records s ! i)" by linarith
  then show ?case
  proof cases
    case 1
    with "1.prems" show ?thesis by (simp add: kb_delete_loop.simps)
  next
    case 2
    with "1.prems" have "kb_delete_loop env kb i (n + 1) (mem_remove_record_at env i s) = (s', n')"
      by (simp add: kb_delete_loop.simps [of env kb i n s])
    from "1.IH"(1) [OF 2 this] show ?thesis by (simp add: remove_records(3) [OF 2(1)])
  next
    case 3
    with "1.prems" have "kb_delete_loop env kb (i + 1) n s = (s', n')" by (simp add: kb_delete_loop.simps [of env kb i n s])
    from "1.IH"(2) [OF 3 this] show ?thesis .
  qed
qed

lemma kb_delete_file:
  assumes "file_exact s"
  shows "file_exact (fst (mem_service_kb_delete env True s kb))"
proof -
  obtain s' n where l: "kb_delete_loop env kb 0 0 s = (s', n)" by fastforce
  have "ms_file s \<noteq> None" using assms by (simp add: file_exact_def)
  with kb_delete_loop_same [OF l] assms rewrite_file [of s'] show ?thesis
    by (cases "n = 0") (simp_all add: mem_service_kb_delete_def l)
qed

text \<open>The limit never changes.\<close>

lemma write_max: "ms_max_records (fst (mem_service_write env oid now short s data meta)) = ms_max_records s"
  by (simp add: mem_service_write_def mem_record_build_vector_def Let_def split: option.split)

lemma ingest_max: "ms_max_records (fst (kb_ingest_loop env io kb doc body csz off j s)) = ms_max_records s"
proof (induction body csz off arbitrary: j s rule: kb_chunks.induct)
  case (1 body csz off)
  let ?n = "mem_kb_chunk_len body off csz"
  obtain oid now short where io: "io j = (oid, now, short)" by (metis prod_cases3)
  obtain s1 res where r: "mem_service_write env oid now short s (take ?n (drop off body)) (Some (se_kb_meta env kb doc j)) = (s1, res)"
    by fastforce
  then have "ms_max_records s1 = ms_max_records s" using write_max by (metis fst_conv)
  with "1.IH" [of "Suc j" s1] r show ?case
    by (cases res) (auto simp: kb_ingest_loop.simps [where ?off = off] io Let_def)
qed

lemma embed_max: "ms_max_records (mem_rec_embed env now reply s rid) = ms_max_records s"
  by (simp add: mem_rec_embed_def split: prod.split option.split)

lemma delete_max: "ms_max_records (fst (mem_service_delete env io s rid)) = ms_max_records s"
  by (simp add: mem_service_delete_def mem_remove_record_at_def Let_def split: option.split)

lemma store_step_max:
  assumes "store_inv env gen sys"
  shows "ms_max_records (fst (store_step env gen sys e)) = ms_max_records (fst sys)"
proof -
  obtain s n m where sys: "sys = (s, n, m)" by (metis prod_cases3)
  have s: "store_ok env s" using assms by (simp add: sys store_inv_def)
  show ?thesis
  proof (cases e)
    case (SWrite now short data meta)
    with write_max [of env "gen n" now short s data meta] show ?thesis by (auto simp: sys split: prod.splits sum.splits)
  next
    case (SEmbed now reply rid)
    then show ?thesis by (simp add: sys embed_max)
  next
    case (SDelete io rid)
    with delete_max [of env io s rid] show ?thesis by (auto simp: sys split: prod.splits sum.splits)
  next
    case (SKbIngest io kb doc body csz)
    have "ms_max_records (fst (mem_service_kb_ingest env (\<lambda>j. (gen (n + j), io j)) s kb doc body csz)) = ms_max_records s"
      by (simp add: mem_service_kb_ingest_def ingest_max)
    then show ?thesis by (auto simp: sys SKbIngest split: prod.splits)
  next
    case (SKbDelete io kb)
    with kb_delete_law [OF s, of io kb] show ?thesis by (auto simp: sys split: prod.splits sum.splits)
  qed
qed

lemma store_step_file:
  assumes "store_inv env gen sys \<and> file_exact (fst sys)" and "durable e"
  shows "store_inv env gen (store_step env gen sys e) \<and> file_exact (fst (store_step env gen sys e))"
proof
  show "store_inv env gen (store_step env gen sys e)" using assms(1) by (blast intro: store_step_inv)
  obtain s n m where sys: "sys = (s, n, m)" by (metis prod_cases3)
  have s: "store_ok env s" "file_exact s" using assms(1) by (simp_all add: sys store_inv_def)
  show "file_exact (fst (store_step env gen sys e))"
  proof (cases e)
    case (SWrite now short data meta)
    with assms(2) write_file [OF s(2), of env "gen n" now data meta] show ?thesis
      by (auto simp: sys durable_def split: prod.splits sum.splits)
  next
    case (SEmbed now reply rid)
    with embed_file [OF s] show ?thesis by (simp add: sys)
  next
    case (SDelete io rid)
    with assms(2) delete_file [OF s, of rid] show ?thesis by (auto simp: sys durable_def split: prod.splits sum.splits)
  next
    case (SKbIngest io kb doc body csz)
    have "file_exact (fst (mem_service_kb_ingest env (\<lambda>j. (gen (n + j), io j)) s kb doc body csz))"
      using s(2) assms(2) ingest_file [OF s(2), of "\<lambda>j. (gen (n + j), io j)"]
      by (simp add: mem_service_kb_ingest_def SKbIngest durable_def)
    then show ?thesis by (auto simp: sys SKbIngest split: prod.splits)
  next
    case (SKbDelete io kb)
    with assms(2) kb_delete_file [OF s(2), of env kb] show ?thesis
      by (auto simp: sys durable_def split: prod.splits sum.splits)
  qed
qed

definition kept :: "'h store_env \<Rightarrow> (nat \<Rightarrow> string) \<Rightarrow> nat \<Rightarrow> 'h store_sys \<Rightarrow> bool" where
  "kept env gen mx sys \<longleftrightarrow> store_inv env gen sys \<and> file_exact (fst sys) \<and> ms_max_records (fst sys) = mx"

interpretation sfl: event_machine "store_step env gen" durable "kept env gen mx" for env gen mx
  by unfold_locales (simp add: kept_def store_step_file store_step_max)

lemma create_kept:
  assumes "hindex_law env" and "inj gen" and "mem_service_create env mx w emb (Some []) now b1 b2 = Some s0"
  shows "kept env gen (if mx = 0 then MEM_DEFAULT_MAX_RECORDS else mx) (s0, 0, Map.empty)"
proof -
  have "store_inv env gen (s0, 0, Map.empty)" by (rule store_create_inv [OF assms]) simp
  moreover have "file_exact s0 \<and> ms_max_records s0 = (if mx = 0 then MEM_DEFAULT_MAX_RECORDS else mx)"
    using assms(3) by (auto simp: mem_service_create_def mem_persist_load_existing_def file_exact_def Let_def split: option.splits)
  ultimately show ?thesis by (simp add: kept_def)
qed

section \<open>Restart\<close>

lemma store_map_reloaded: "ms_records s' = map reloaded (ms_records s) \<Longrightarrow> store_map s' = store_map s"
proof -
  have "rec_kv (reloaded r) = rec_kv r" for r by (simp add: rec_kv_def reloaded_def)
  then show "ms_records s' = map reloaded (ms_records s) \<Longrightarrow> store_map s' = store_map s"
    by (simp add: store_map_def comp_def)
qed

lemma reload_store:
  assumes "hindex_law env" and "\<And>h k i. hx_put env h k i \<noteq> None" and "store_ok env s"
    and "\<forall>r\<in>set (ms_records s). line_reads env r" and "ms_records s \<noteq> []"
    and "se_utf8_sanitize env (concat (map mem_jsonl_emit (ms_records s))) = concat (map mem_jsonl_emit (ms_records s))"
    and "ms_records s1 = []" and "ms_index s1 = hx_init env c" and "ms_max_records s1 = ms_max_records s"
    and "ms_file s1 = Some (concat (map mem_jsonl_emit (ms_records s)))"
  shows "\<exists>s'. mem_persist_load_existing env now b1 b2 s1 = Some s' \<and> ms_records s' = map reloaded (ms_records s) \<and> store_ok env s'"
proof -
  let ?rs = "ms_records s" and ?f = "concat (map mem_jsonl_emit (ms_records s))"
  have ix: "index_exact env (ms_index s1) (ms_records s1)" using assms(7,8) by (simp add: index_exact_def hindex_init [OF assms(1)])
  have d: "distinct (map mr_record_id (ms_records s1 @ ?rs))"
    using assms(3,7) by (auto simp: store_ok_def intro: index_distinct)
  have room: "length (ms_records s1) + length ?rs \<le> ms_max_records s1" using assms(3,7,9) by (simp add: store_ok_def)
  from load_records [OF assms(1,2,4) room ix d, of now 0] obtain s' k where
    l: "foldl (load_line env now) (Some (s1, 0)) (map record_line ?rs) = Some (s', k)"
      "ms_records s' = map reloaded ?rs" "index_exact env (ms_index s') (ms_records s')" "ms_max_records s' = ms_max_records s"
    using assms(7,9) by auto
  have ne: "?f \<noteq> []" using assms(5) by (cases ?rs) (simp_all add: emit_line)
  have "split_lines [] ?f = map record_line ?rs @ [[]]"
    using assms(4) by (intro split_records) (auto simp: line_reads_def)
  moreover have "load_line env now (Some (s', k)) [] = Some (s', k)" by (simp add: load_line_def strip_line_cr_def)
  ultimately have "mem_load_lines env now s1 ?f = Some (s', k)" using l(1) by (simp add: mem_load_lines_def)
  then have "mem_persist_load_existing env now b1 b2 s1 = Some s'"
    using ne assms(6,10) by (auto simp add: mem_persist_load_existing_def mem_persist_repair_utf8_def)
  moreover have "store_ok env s'" using assms(1,3) l by (simp add: store_ok_def)
  ultimately show ?thesis using l(2) by blast
qed

text \<open>
  C13. A restart loses nothing: after any sequence of operations whose file operations succeed, a service
  created on the file that is left holds the same records in the same order, with their data, metadata
  and times, so every get answers as before the restart. Asked of the records that are present: the
  identifier needs no escape, the data has no zero character, the metadata is a text cJSON printed, the
  numbers are at most \<open>2 ^ 53\<close>. Used of cJSON: it reads valid JSON lines (\<open>json_reader\<close>); of the sanitizer:
  it does not change the file.
\<close>

theorem restart_keeps_records:
  assumes "hindex_law env" and "\<And>h k i. hx_put env h k i \<noteq> None" and "inj gen"
    and "mem_service_create env mx w emb (Some []) now b1 b2 = Some s0" and "list_all durable es"
    and "foldl (store_step env gen) (s0, 0, Map.empty) es = (s, n, m)"
    and "json_reader printed (se_parse env)" and "\<forall>r\<in>set (ms_records s). storable printed r"
    and "\<And>f. ms_file s = Some f \<Longrightarrow> se_utf8_sanitize env f = f"
  shows "\<exists>s'. mem_service_create env mx w' emb' (ms_file s) now' b1' b2' = Some s' \<and>
     ms_records s' = map reloaded (ms_records s) \<and> (\<forall>k. mem_service_get env s' k = (case m k of None \<Rightarrow> Inl MEM_NOT_FOUND | Some v \<Rightarrow> Inr v))"
proof -
  let ?mx = "if mx = 0 then MEM_DEFAULT_MAX_RECORDS else mx" and ?f = "concat (map mem_jsonl_emit (ms_records s))"
  have "kept env gen ?mx (s, n, m)"
    unfolding assms(6) [symmetric] by (rule sfl.events_inv [OF create_kept [OF assms(1,3,4)] assms(5)])
  then have k: "store_ok env s" "m = store_map s" "ms_file s = Some ?f" "ms_max_records s = ?mx"
    by (simp_all add: kept_def store_inv_def file_exact_def)
  obtain df where df: "mem_df_init (?mx * 64) = Some df"
    using assms(4) by (auto simp: mem_service_create_def Let_def split: option.splits)
  let ?s1 = "\<lparr>ms_records = [], ms_max_records = ?mx, ms_index = hx_init env (?mx * MEM_HASH_LOAD_FACTOR), ms_df = df,
                ms_tfidf_weight = w', ms_emb = emb', ms_file = Some ?f\<rparr>"
  have c: "mem_service_create env mx w' emb' (ms_file s) now' b1' b2' = mem_persist_load_existing env now' b1' b2' ?s1"
    using df by (simp add: mem_service_create_def k(3) Let_def)
  have "\<exists>s'. mem_persist_load_existing env now' b1' b2' ?s1 = Some s' \<and> ms_records s' = map reloaded (ms_records s) \<and> store_ok env s'"
  proof (cases "ms_records s = []")
    case True
    then show ?thesis
      by (simp add: mem_persist_load_existing_def store_ok_def index_exact_def hindex_init [OF assms(1)] assms(1))
  next
    case False
    have rd: "\<forall>r\<in>set (ms_records s). line_reads env r" using assms(7,8) storable_line by blast
    from assms(9) [OF k(3)] k(4) show ?thesis by (intro reload_store [OF assms(1,2) k(1) rd False]) simp_all
  qed
  then obtain s' where s': "mem_persist_load_existing env now' b1' b2' ?s1 = Some s'" "ms_records s' = map reloaded (ms_records s)"
    "store_ok env s'" by blast
  with c k(2) store_map_reloaded [OF s'(2)] get_law [OF s'(3)] show ?thesis by simp
qed

section \<open>A reader\<close>

text \<open>A concrete reader of such lines, for metadata that is the empty object: the hypothesis can hold.\<close>

fun take_body :: "string \<Rightarrow> (string \<times> string) option" where
  "take_body [] = None"
| "take_body (c # b) =
     (if c = chr_dq then Some ([], b)
      else if c = chr_bs then (case b of [] \<Rightarrow> None | e # b' \<Rightarrow> map_option (apfst (\<lambda>t. c # e # t)) (take_body b'))
      else map_option (apfst (Cons c)) (take_body b))"

definition skip_text :: "string \<Rightarrow> string \<Rightarrow> string option" where
  "skip_text p s = (if take (length p) s = p then Some (drop (length p) s) else None)"

lemma skip_text_append [simp]: "skip_text p (p @ s) = Some s"
  by (simp add: skip_text_def)

fun key_text :: "string \<Rightarrow> string" where
  "key_text k = chr_dq # k @ [chr_dq] @ '':''"

definition toy_read :: "string \<Rightarrow> json_record option" where
  "toy_read l =
     do { l \<leftarrow> skip_text (CHR ''{'' # key_text ''record_id'' @ [chr_dq]) l;
          (idb, l) \<leftarrow> take_body l; rid \<leftarrow> json_unescape idb;
          l \<leftarrow> skip_text ('','' @ key_text ''data'' @ [chr_dq]) l;
          (dat, l) \<leftarrow> take_body l; v \<leftarrow> json_unescape dat;
          l \<leftarrow> skip_text ('','' @ key_text ''metadata'') l;
          (m, l) \<leftarrow> (case skip_text ''{}'' l of
                      Some l' \<Rightarrow> Some (Some ''{}'', l')
                    | None \<Rightarrow> map_option (Pair None) (skip_text ''null'' l));
          l \<leftarrow> skip_text ('','' @ key_text ''created_at'') l;
          (let (cr, l) = strtol l
           in do { l \<leftarrow> skip_text ('','' @ key_text ''len'') l;
                   Some \<lparr>jr_record_id = Some rid, jr_data = Some v, jr_len = Some (nat (fst (strtol l))),
                         jr_metadata = m, jr_created_at = Some (of_int cr)\<rparr> }) }"

lemma hex4_shape:
  assumes "hex4_val (take 4 xs) = Some n"
  obtains a b c d zs where "xs = a # b # c # d # zs" "set [a, b, c, d] \<inter> {chr_dq, chr_bs} = {}"
proof -
  obtain a b c d where abcd: "take 4 xs = [a, b, c, d]"
    using assms by (cases "take 4 xs" rule: hex4_val.cases) auto
  have ok: "x \<notin> {chr_dq, chr_bs}" if "hex_val x \<noteq> None" for x
    using that by (auto simp: chr_dq_def chr_bs_def)
  have "hex_val a \<noteq> None \<and> hex_val b \<noteq> None \<and> hex_val c \<noteq> None \<and> hex_val d \<noteq> None"
    using assms by (auto simp: abcd simp del: hex_val.simps split: option.splits)
  with ok have "set [a, b, c, d] \<inter> {chr_dq, chr_bs} = {}" by auto
  moreover have "xs = a # b # c # d # drop 4 xs" using append_take_drop_id [of 4 xs] by (simp add: abcd)
  ultimately show thesis using that by blast
qed

lemma take_body_skip:
  "json_unescape b = Some t \<Longrightarrow> take_body (b @ chr_dq # s) = Some (b, s)"
proof (induction b arbitrary: t rule: json_unescape.induct)
  case 1
  then show ?case by simp
next
  case (2 c b)
  have dq: "chr_bs \<noteq> chr_dq" by code_simp
  consider (raw) "c \<noteq> chr_dq" "\<not> (of_char c :: nat) < 32" "c \<noteq> chr_bs"
    | (hex) "c = chr_bs" "b \<noteq> [] \<and> hd b = CHR ''u''"
    | (letter) "c = chr_bs" "b \<noteq> []" "hd b \<noteq> CHR ''u''"
    using "2.prems" by (auto simp: json_unescape.simps(2) split: if_splits)
  then show ?case
  proof cases
    case raw
    with "2.prems" "2.IH"(1) show ?thesis by auto
  next
    case hex
    with "2.prems" obtain n where n: "hex4_val (take 4 (tl b)) = Some n" "0 < n \<and> n < 128"
      "json_unescape (drop 5 b) \<noteq> None" and c: "\<not> (c = chr_dq \<or> (of_char c :: nat) < 32)"
      by (auto simp: json_unescape.simps(2) split: if_splits option.splits)
    from n(3) obtain u where u: "json_unescape (drop 5 b) = Some u" by blast
    obtain h1 h2 h3 h4 zs where h: "tl b = h1 # h2 # h3 # h4 # zs" "set [h1, h2, h3, h4] \<inter> {chr_dq, chr_bs} = {}"
      using n(1) by (rule hex4_shape)
    have b: "b = CHR ''u'' # h1 # h2 # h3 # h4 # zs" using hex(2) h(1) by (metis list.collapse)
    have "take_body (zs @ chr_dq # s) = Some (zs, s)"
      using "2.IH"(2) [OF c _ hex(2) n(1,2) u] hex(1) by (simp add: b)
    then show ?thesis using h(2) dq by (auto simp: hex(1) b)
  next
    case letter
    then obtain e b' where b: "b = e # b'" by (cases b) auto
    with letter "2.prems" obtain d u where d: "esc_letter (hd b) = Some d" "json_unescape (tl b) = Some u"
      and c: "\<not> (c = chr_dq \<or> (of_char c :: nat) < 32)"
      by (auto simp: json_unescape.simps(2) split: if_splits option.splits)
    have "take_body (b' @ chr_dq # s) = Some (b', s)"
      using "2.IH"(3) [OF c _ _ letter(2) d] letter(1,3) by (simp add: b)
    then show ?thesis using dq by (simp add: letter(1) b)
  qed
qed

lemma toy_reader: "json_reader (\<lambda>m. m = ''{}'') toy_read"
proof -
  have num: "strtol (show_nat n @ r) = (int n, r)" if "n \<le> 2 ^ 53" "r = CHR '','' # r' \<or> r = ''}''" for n r r'
    using that by (intro strtol_show_nat_rest) (auto simp: LONG_MAX_def c_isdigit_def)
  have "toy_read (json_line idb dat meta cr len) =
      Some \<lparr>jr_record_id = Some rid, jr_data = Some v, jr_len = Some len,
            jr_metadata = (if meta = ''{}'' then Some meta else None), jr_created_at = Some (of_nat cr)\<rparr>"
    if "json_unescape idb = Some rid" "json_unescape dat = Some v" "meta = ''{}'' \<or> meta = ''null''"
      "cr \<le> 2 ^ 53" "len \<le> 2 ^ 53" for idb dat meta cr len rid v
    using that num [of cr] num [of len]
    by (auto simp: toy_read_def json_line_def take_body_skip skip_text_def Let_def)
  then show ?thesis by (simp add: json_reader_def)
qed

definition quote_data :: string where
  "quote_data = [chr_dq, CHR ''+'']"

definition demo_rec :: mem_record where
  "demo_rec = \<lparr>mr_record_id = ''a'', mr_data = quote_data, mr_metadata = Some ''{}'', mr_created_at = 7, mr_vec = empty_vec, mr_emb = []\<rparr>"

definition read_env :: "(string \<times> nat) list store_env" where
  "read_env = list_env\<lparr>se_parse := toy_read\<rparr>"

lemma quote_vec: "mem_vec_build (Some quote_data) = empty_vec"
  by code_simp

theorem restart_keeps_records_witness:
  "let (s, n, m) = foldl (store_step read_env (\<lambda>n. replicate n CHR ''a'')) (demo_store, 0, Map.empty)
       [SWrite 0 None ''-'' None, SWrite 7 None quote_data (Some ''{}''), SDelete True []]
   in \<exists>s'. mem_service_create read_env 4 1 (mem_emb_client_init None None) (ms_file s) 0 True True = Some s' \<and>
        mem_service_get read_env s' ''a'' = Inr (quote_data, Some ''{}'')"
proof -
  have law: "hindex_law read_env" using list_env_law by (simp add: hindex_law_def read_env_def)
  have room: "hx_put read_env h k i \<noteq> None" for h k i by (simp add: read_env_def list_env_def)
  have rd: "json_reader (\<lambda>m. m = ''{}'') (se_parse read_env)" using toy_reader by (simp add: read_env_def)
  have c: "mem_service_create read_env 4 1 (mem_emb_client_init None None) (Some []) 0 True True = Some demo_store"
    by (simp add: mem_service_create_def mem_df_init_def mem_persist_load_existing_def demo_store_def read_env_def list_env_def Let_def)
  obtain s n m where r: "foldl (store_step read_env (\<lambda>n. replicate n CHR ''a'')) (demo_store, 0, Map.empty)
       [SWrite 0 None ''-'' None, SWrite 7 None quote_data (Some ''{}''), SDelete True []] = (s, n, m)" by (metis prod_cases3)
  have ne: "quote_data \<noteq> []" by (simp add: quote_data_def)
  from r have m: "m ''a'' = Some (quote_data, Some ''{}'')" "ms_records s = [demo_rec]"
    by (auto simp: read_env_def demo_simps demo_rec_def quote_vec ne Let_def)
  have "storable (\<lambda>m. m = ''{}'') demo_rec"
    by (simp add: storable_def demo_rec_def quote_data_def chr_dq_def chr_bs_def chr_nl_def)
  then have st: "\<forall>r\<in>set (ms_records s). storable (\<lambda>m. m = ''{}'') r" by (simp add: m(2))
  have "list_all durable [SWrite 0 None ''-'' None, SWrite 7 None quote_data (Some ''{}''), SDelete True []]" by (simp add: durable_def)
  from restart_keeps_records [OF law room demo_gen c this r rd st, of 1 "mem_emb_client_init None None" 0 True True] m(1)
  show ?thesis unfolding r by (auto simp: read_env_def list_env_def)
qed

section \<open>Where the code differs from its description\<close>

text \<open>The list of recent records is newest first only until a record is deleted: the last record moves into the gap.\<close>

lemma recent_after_delete:
  "let (s, n, m) = foldl (store_step list_env (\<lambda>n. replicate n CHR ''a'')) (demo_store, 0, Map.empty)
       [SWrite 1 None ''-'' None, SWrite 2 None ''+'' None, SWrite 3 None ''*'' None, SDelete True []]
   in map mr_created_at (mem_service_recent s 10) = [2, 3]"
  by (simp add: demo_simps mem_service_recent_def upt_rec Let_def)

text \<open>A knowledge base whose identifier has 256 characters or more takes documents, but none of them belongs to it.\<close>

lemma long_kb_unreachable: "256 \<le> length kb \<Longrightarrow> \<not> mem_rec_in_kb env kb r"
proof
  assume l: "256 \<le> length kb" and "mem_rec_in_kb env kb r"
  then obtain f where "kb = snprintf_s MEM_KB_ID_MAX f"
    by (auto simp: mem_rec_in_kb_def mem_rec_kb_id_def split: option.splits if_splits)
  then have "length kb \<le> MEM_KB_ID_MAX - 1" using length_snprintf_s [of MEM_KB_ID_MAX f] by simp
  with l show False by (simp add: MEM_KB_ID_MAX_def)
qed

text \<open>A write that the index refuses leaves its terms in the frequency table.\<close>

lemma refused_write_counted:
  assumes "data \<noteq> []" and "length (ms_records s) < ms_max_records s"
    and "hx_put env (ms_index s) oid (length (ms_records s)) = None"
  shows "mem_service_write env oid now short s data meta =
     (s\<lparr>ms_df := mem_df_add_doc (ms_df s) (mem_vec_build (Some data))\<rparr>, Inl MEM_INDEX_FULL)"
  using assms by (simp add: mem_service_write_def mem_record_build_vector_def Let_def)

text \<open>
  The length stored with a record is the length before the repair of invalid UTF-8: the repaired data
  is longer and is cut when it is loaded, in the middle of the replacement character.
\<close>

lemma repaired_record_cut:
  assumes "length (ms_records s) < ms_max_records s" and "hx_put env (ms_index s) rid (length (ms_records s)) = Some h"
    and "jr_record_id j = Some rid" "jr_data j = Some [CHR 0xEF, CHR 0xBF, CHR 0xBD]" "jr_len j = Some 1"
  shows "\<exists>s'. mem_record_decode env now s j = Some (s', True) \<and> mr_data (last (ms_records s')) = [CHR 0xEF]"
  using assms by (simp add: mem_record_decode_def mem_record_build_vector_def Let_def)

end
