(* ===== verification/Maths_Expr.thy ===== *)
theory Maths_Expr
  imports Complex_Main Airy_Prelude
begin

text \<open>
  maths_d, the expression evaluator (\<open>expr/expr_eval.c\<close>): a recursive-descent parser that computes the
  value while it reads. One function per function of the code; the context \<open>eval_ctx_t\<close> is threaded
  through, a failed parse carries the message the code leaves in \<open>ctx.err\<close>.

  Arithmetic is a parameter: the operations on \<open>double\<close> and \<open>long double\<close>, the libm functions, \<open>strtod\<close>
  and the casts. The recursion is bounded by fuel; the theory shows that \<open>8 * length + 8\<close> is always
  enough, so the functions used by \<open>maths_d_eval_at\<close> never run out of it.
\<close>

section \<open>Arithmetic\<close>

record ('d, 'l) fops =
  f_lit :: "rat \<Rightarrow> 'd"
  f_neg :: "'d \<Rightarrow> 'd"
  f_add :: "'d \<Rightarrow> 'd \<Rightarrow> 'd"
  f_sub :: "'d \<Rightarrow> 'd \<Rightarrow> 'd"
  f_mul :: "'d \<Rightarrow> 'd \<Rightarrow> 'd"
  f_div :: "'d \<Rightarrow> 'd \<Rightarrow> 'd"
  f_lt :: "'d \<Rightarrow> 'd \<Rightarrow> bool"
  f_eq :: "'d \<Rightarrow> 'd \<Rightarrow> bool"
  f_libm1 :: "string \<Rightarrow> 'd \<Rightarrow> 'd"
  f_libm2 :: "string \<Rightarrow> 'd \<Rightarrow> 'd \<Rightarrow> 'd"
  f_strtod :: "string \<Rightarrow> 'd"
  f_to_ll :: "'d \<Rightarrow> int"
  f_of_ll :: "int \<Rightarrow> 'd"
  f_finite :: "'d \<Rightarrow> bool"
  l_lit :: "rat \<Rightarrow> 'l"
  l_of_ll :: "int \<Rightarrow> 'l"
  l_mul :: "'l \<Rightarrow> 'l \<Rightarrow> 'l"
  l_to_d :: "'l \<Rightarrow> 'd"

section \<open>Context and results\<close>

definition MATHS_MAX_EXPR_LEN :: nat where "MATHS_MAX_EXPR_LEN = 4096"
definition MATHS_MAX_DEPTH :: nat where "MATHS_MAX_DEPTH = 64"

record 'd eval_ctx =
  cx_s :: string
  cx_depth :: nat
  cx_var :: "string option"
  cx_val :: 'd

datatype 'd res = Out_Of_Fuel | Fail string | Got 'd "'d eval_ctx"

fun rbind :: "'d res \<Rightarrow> ('d \<Rightarrow> 'd eval_ctx \<Rightarrow> 'd res) \<Rightarrow> 'd res" where
  "rbind Out_Of_Fuel f = Out_Of_Fuel"
| "rbind (Fail msg) f = Fail msg"
| "rbind (Got v c) f = f v c"

text \<open>\<open>*ctx->s\<close>, with the terminating zero at the end, and \<open>ctx->s++\<close>.\<close>

definition peek :: "'d eval_ctx \<Rightarrow> char" where
  "peek c = (case cx_s c of [] \<Rightarrow> CHR 0x00 | x # _ \<Rightarrow> x)"

definition adv :: "'d eval_ctx \<Rightarrow> 'd eval_ctx" where
  "adv c = c\<lparr>cx_s := tl (cx_s c)\<rparr>"

definition c_isalpha :: "char \<Rightarrow> bool" where
  "c_isalpha c \<longleftrightarrow>
     (let n = (of_char c :: nat) in 65 \<le> n \<and> n \<le> 90 \<or> 97 \<le> n \<and> n \<le> 122)"

definition maths_is_ident_start :: "char \<Rightarrow> bool" where
  "maths_is_ident_start c \<longleftrightarrow> c_isalpha c \<or> c = CHR ''_''"

definition maths_is_ident_char :: "char \<Rightarrow> bool" where
  "maths_is_ident_char c \<longleftrightarrow> c_isalpha c \<or> c_isdigit c \<or> c = CHR ''_''"

definition maths_is_digit_char :: "char \<Rightarrow> bool" where
  "maths_is_digit_char c \<longleftrightarrow> c_isdigit c \<or> c = CHR ''.''"

definition eval_skip_ws :: "'d eval_ctx \<Rightarrow> 'd eval_ctx" where
  "eval_skip_ws c = c\<lparr>cx_s := dropWhile (\<lambda>x. x = CHR '' '' \<or> x = CHR 0x09) (cx_s c)\<rparr>"

definition maths_char_ok :: "char \<Rightarrow> bool" where
  "maths_char_ok c \<longleftrightarrow> c_isalpha c \<or> c_isdigit c \<or> c \<in> set (''+-*/%^!(),._ '' @ [CHR 0x09])"

text \<open>\<open>++n > MATHS_MAX_EXPR_LEN\<close> while scanning: a longer text fails at its 4097th character.\<close>

definition maths_charset_ok :: "string \<Rightarrow> bool" where
  "maths_charset_ok expr \<longleftrightarrow>
     expr \<noteq> [] \<and> list_all maths_char_ok expr \<and> length expr \<le> MATHS_MAX_EXPR_LEN"

section \<open>Numbers\<close>

definition skip_digits :: "string \<Rightarrow> string" where
  "skip_digits s = dropWhile c_isdigit s"

definition has_digit :: "string \<Rightarrow> bool" where
  "has_digit s \<longleftrightarrow> (case s of [] \<Rightarrow> False | c # _ \<Rightarrow> c_isdigit c)"

text \<open>The rest after the mantissa, when it has a digit; the rest after an exponent, if there is one.\<close>

definition num_mantissa :: "string \<Rightarrow> string option" where
  "num_mantissa s =
     (let r = skip_digits s
      in if r \<noteq> [] \<and> hd r = CHR ''.''
         then (if has_digit s \<or> has_digit (tl r) then Some (skip_digits (tl r)) else None)
         else if has_digit s then Some r else None)"

definition num_exponent :: "string \<Rightarrow> string" where
  "num_exponent r =
     (case r of
        [] \<Rightarrow> r
      | c # r1 \<Rightarrow>
          if c = CHR ''e'' \<or> c = CHR ''E''
          then let r2 = (case r1 of [] \<Rightarrow> r1 | d # r' \<Rightarrow> if d = CHR ''+'' \<or> d = CHR ''-'' then r' else r1)
               in if has_digit r2 then skip_digits r2 else r
          else r)"

definition eval_parse_number :: "('d, 'l) fops \<Rightarrow> 'd eval_ctx \<Rightarrow> ('d \<times> 'd eval_ctx) option" where
  "eval_parse_number ops c =
     (case num_mantissa (cx_s c) of
        None \<Rightarrow> None
      | Some r \<Rightarrow>
          let rest = num_exponent r; len = length (cx_s c) - length rest
          in if 64 \<le> len then None
             else Some (f_strtod ops (take len (cx_s c)), c\<lparr>cx_s := rest\<rparr>))"

section \<open>Functions\<close>

definition maths_sign :: "('d, 'l) fops \<Rightarrow> 'd \<Rightarrow> 'd" where
  "maths_sign ops x =
     (if f_lt ops x (f_lit ops 0) then f_lit ops (- 1)
      else if f_lt ops (f_lit ops 0) x then f_lit ops 1 else f_lit ops 0)"

text \<open>Function name and libm function; \<open>sign\<close> is the code's own.\<close>

definition tbl1 :: "(string \<times> string) list" where
  "tbl1 =
     [(''sqrt'', ''sqrt''), (''sin'', ''sin''), (''cos'', ''cos''), (''tan'', ''tan''), (''asin'', ''asin''),
      (''acos'', ''acos''), (''atan'', ''atan''), (''exp'', ''exp''), (''ln'', ''log''), (''log10'', ''log10''),
      (''log2'', ''log2''), (''abs'', ''fabs''), (''floor'', ''floor''), (''ceil'', ''ceil''), (''round'', ''round''),
      (''sign'', ''maths_sign''), (''sinh'', ''sinh''), (''cosh'', ''cosh''), (''tanh'', ''tanh''), (''cbrt'', ''cbrt'')]"

definition tbl2 :: "(string \<times> int) list" where
  "tbl2 =
     [(''min'', 2), (''max'', 2), (''pow'', 2), (''log'', - 2), (''atan2'', 2), (''mod'', 2),
      (''remainder'', 2), (''factorial'', 1)]"

definition fn1_apply :: "('d, 'l) fops \<Rightarrow> string \<Rightarrow> 'd \<Rightarrow> 'd" where
  "fn1_apply ops fn x = (if fn = ''maths_sign'' then maths_sign ops x else f_libm1 ops fn x)"

definition eval_lookup_func :: "string \<Rightarrow> (string option \<times> int) option" where
  "eval_lookup_func name =
     (case map_of tbl1 name of
        Some fn \<Rightarrow> Some (Some fn, 1)
      | None \<Rightarrow> (case map_of tbl2 name of Some arity \<Rightarrow> Some (None, arity) | None \<Rightarrow> None))"

definition eval_take_rp :: "'d \<Rightarrow> 'd eval_ctx \<Rightarrow> string \<Rightarrow> 'd res" where
  "eval_take_rp v c msg =
     (let c = eval_skip_ws c in if peek c \<noteq> CHR '')'' then Fail msg else Got v (adv c))"

definition fact_val :: "('d, 'l) fops \<Rightarrow> int \<Rightarrow> 'd" where
  "fact_val ops n = l_to_d ops (fold (\<lambda>i acc. l_mul ops acc (l_of_ll ops i)) [2..n] (l_lit ops 1))"

definition eval_fact :: "('d, 'l) fops \<Rightarrow> 'd \<Rightarrow> 'd eval_ctx \<Rightarrow> 'd res" where
  "eval_fact ops arg c =
     (if f_lt ops arg (f_lit ops 0) \<or> f_lt ops (f_lit ops 170) arg then Fail ''factorial out of range''
      else let n = f_to_ll ops (f_add ops arg (f_lit ops (1 / 10 ^ 9)))
           in if f_lt ops (f_lit ops (1 / 10 ^ 6)) (f_libm1 ops ''fabs'' (f_sub ops arg (f_of_ll ops n)))
              then Fail ''factorial requires integer''
              else Got (fact_val ops n) c)"

text \<open>The calls take the parser of an argument, \<open>eval_parse_expr\<close>, as \<open>pe\<close>.\<close>

definition eval_call1 ::
  "('d, 'l) fops \<Rightarrow> ('d eval_ctx \<Rightarrow> 'd res) \<Rightarrow> string \<Rightarrow> string option \<Rightarrow> 'd eval_ctx \<Rightarrow> 'd res" where
  "eval_call1 ops pe name fn c =
     rbind (pe c) (\<lambda>arg c. rbind (eval_take_rp arg c ''missing ')' in function call'') (\<lambda>arg c.
       case fn of
         Some f \<Rightarrow> Got (fn1_apply ops f arg) c
       | None \<Rightarrow> if name = ''factorial'' then eval_fact ops arg c else Fail ''unsupported function''))"

definition log_val :: "('d, 'l) fops \<Rightarrow> 'd \<Rightarrow> 'd \<Rightarrow> 'd" where
  "log_val ops a b =
     (if f_lt ops (f_lit ops 0) b \<and> \<not> f_eq ops b (f_lit ops 1)
      then f_div ops (f_libm1 ops ''log'' a) (f_libm1 ops ''log'' b) else f_libm1 ops ''log'' a)"

definition eval_call_log ::
  "('d, 'l) fops \<Rightarrow> ('d eval_ctx \<Rightarrow> 'd res) \<Rightarrow> 'd eval_ctx \<Rightarrow> 'd res" where
  "eval_call_log ops pe c =
     rbind (pe c) (\<lambda>a c.
       let c = eval_skip_ws c
       in rbind (if peek c = CHR '','' then pe (adv c) else Got (f_lit ops 0) c) (\<lambda>b c.
            rbind (eval_take_rp b c ''missing ')' in log()'') (\<lambda>b c. Got (log_val ops a b) c)))"

definition fn2_val :: "('d, 'l) fops \<Rightarrow> string \<Rightarrow> 'd \<Rightarrow> 'd \<Rightarrow> 'd" where
  "fn2_val ops name a b =
     (if name = ''min'' then (if f_lt ops a b then a else b)
      else if name = ''max'' then (if f_lt ops b a then a else b)
      else if name = ''pow'' then f_libm2 ops ''pow'' a b
      else if name = ''atan2'' then f_libm2 ops ''atan2'' a b
      else if name = ''mod'' then f_libm2 ops ''fmod'' a b
      else if name = ''remainder'' then f_libm2 ops ''remainder'' a b
      else f_lit ops 0)"

definition eval_call2 ::
  "('d, 'l) fops \<Rightarrow> ('d eval_ctx \<Rightarrow> 'd res) \<Rightarrow> string \<Rightarrow> int \<Rightarrow> 'd eval_ctx \<Rightarrow> 'd res" where
  "eval_call2 ops pe name arity c =
     rbind (pe c) (\<lambda>a c.
       let c = eval_skip_ws c
       in if peek c \<noteq> CHR '','' then Fail ''missing ',' in function call''
          else rbind (pe (adv c)) (\<lambda>b c.
                 rbind (eval_take_rp b c ''missing ')' in function call'') (\<lambda>b c.
                   if arity \<noteq> 2 then Fail ''unsupported function arity'' else Got (fn2_val ops name a b) c)))"

definition eval_parse_call ::
  "('d, 'l) fops \<Rightarrow> ('d eval_ctx \<Rightarrow> 'd res) \<Rightarrow> string \<Rightarrow> 'd eval_ctx \<Rightarrow> 'd res" where
  "eval_parse_call ops pe name c =
     (let c = eval_skip_ws c
      in if peek c \<noteq> CHR ''('' then Fail ''unknown identifier''
         else case eval_lookup_func name of
                None \<Rightarrow> Fail ''unknown function''
              | Some (fn, arity) \<Rightarrow>
                  if arity = 1 then eval_call1 ops pe name fn (adv c)
                  else if arity = - 2 then eval_call_log ops pe (adv c)
                  else eval_call2 ops pe name arity (adv c))"

definition MATHS_PI :: rat where "MATHS_PI = 314159265358979323846 / 10 ^ 20"
definition MATHS_E :: rat where "MATHS_E = 271828182845904523536 / 10 ^ 20"

definition eval_parse_ident ::
  "('d, 'l) fops \<Rightarrow> ('d eval_ctx \<Rightarrow> 'd res) \<Rightarrow> 'd eval_ctx \<Rightarrow> 'd res" where
  "eval_parse_ident ops pe c =
     (let name = takeWhile maths_is_ident_char (cx_s c);
          c = c\<lparr>cx_s := dropWhile maths_is_ident_char (cx_s c)\<rparr>
      in if name = ''pi'' then Got (f_lit ops MATHS_PI) c
         else if name = ''e'' then Got (f_lit ops MATHS_E) c
         else if cx_var c = Some name then Got (cx_val c) c
         else eval_parse_call ops pe name c)"

definition eval_parse_paren :: "('d eval_ctx \<Rightarrow> 'd res) \<Rightarrow> 'd eval_ctx \<Rightarrow> 'd res" where
  "eval_parse_paren pe c = rbind (pe (adv c)) (\<lambda>v c. eval_take_rp v c (''missing '' @ [CHR 0x27, CHR '')'', CHR 0x27]))"

definition primary_body ::
  "('d, 'l) fops \<Rightarrow> ('d eval_ctx \<Rightarrow> 'd res) \<Rightarrow> 'd eval_ctx \<Rightarrow> 'd res" where
  "primary_body ops pe c =
     (let c = eval_skip_ws c; c = c\<lparr>cx_depth := cx_depth c + 1\<rparr>
      in if MATHS_MAX_DEPTH < cx_depth c then Fail ''expression too deep''
         else rbind (if peek c = CHR ''('' then eval_parse_paren pe c
                     else if maths_is_ident_start (peek c) then eval_parse_ident ops pe c
                     else if maths_is_digit_char (peek c)
                       then (case eval_parse_number ops c of
                               None \<Rightarrow> Fail ''invalid number'' | Some (v, c) \<Rightarrow> Got v c)
                     else Fail ''unexpected token'')
                (\<lambda>v c. Got v (c\<lparr>cx_depth := cx_depth c - 1\<rparr>)))"

section \<open>The recursive descent\<close>

fun eval_parse_expr :: "('d, 'l) fops \<Rightarrow> nat \<Rightarrow> 'd eval_ctx \<Rightarrow> 'd res"
  and expr_loop :: "('d, 'l) fops \<Rightarrow> nat \<Rightarrow> 'd \<Rightarrow> 'd eval_ctx \<Rightarrow> 'd res"
  and eval_parse_term :: "('d, 'l) fops \<Rightarrow> nat \<Rightarrow> 'd eval_ctx \<Rightarrow> 'd res"
  and term_loop :: "('d, 'l) fops \<Rightarrow> nat \<Rightarrow> 'd \<Rightarrow> 'd eval_ctx \<Rightarrow> 'd res"
  and eval_parse_unary :: "('d, 'l) fops \<Rightarrow> nat \<Rightarrow> 'd eval_ctx \<Rightarrow> 'd res"
  and eval_parse_power :: "('d, 'l) fops \<Rightarrow> nat \<Rightarrow> 'd eval_ctx \<Rightarrow> 'd res"
  and eval_parse_primary :: "('d, 'l) fops \<Rightarrow> nat \<Rightarrow> 'd eval_ctx \<Rightarrow> 'd res" where
  "eval_parse_expr ops 0 c = Out_Of_Fuel"
| "expr_loop ops 0 v c = Out_Of_Fuel"
| "eval_parse_term ops 0 c = Out_Of_Fuel"
| "term_loop ops 0 v c = Out_Of_Fuel"
| "eval_parse_unary ops 0 c = Out_Of_Fuel"
| "eval_parse_power ops 0 c = Out_Of_Fuel"
| "eval_parse_primary ops 0 c = Out_Of_Fuel"
| "eval_parse_expr ops (Suc n) c = rbind (eval_parse_term ops n c) (\<lambda>v c. expr_loop ops n v c)"
| "expr_loop ops (Suc n) v c =
     (let c = eval_skip_ws c
      in if peek c = CHR ''+''
         then rbind (eval_parse_term ops n (adv c)) (\<lambda>rhs c. expr_loop ops n (f_add ops v rhs) c)
         else if peek c = CHR ''-''
         then rbind (eval_parse_term ops n (adv c)) (\<lambda>rhs c. expr_loop ops n (f_sub ops v rhs) c)
         else Got v c)"
| "eval_parse_term ops (Suc n) c = rbind (eval_parse_unary ops n c) (\<lambda>v c. term_loop ops n v c)"
| "term_loop ops (Suc n) v c =
     (let c = eval_skip_ws c
      in if peek c = CHR ''*''
         then rbind (eval_parse_unary ops n (adv c)) (\<lambda>rhs c. term_loop ops n (f_mul ops v rhs) c)
         else if peek c = CHR ''/''
         then rbind (eval_parse_unary ops n (adv c)) (\<lambda>rhs c.
                if f_eq ops rhs (f_lit ops 0) then Fail ''division by zero''
                else term_loop ops n (f_div ops v rhs) c)
         else if peek c = CHR ''%''
         then rbind (eval_parse_unary ops n (adv c)) (\<lambda>rhs c.
                if f_eq ops rhs (f_lit ops 0) then Fail ''modulo by zero''
                else term_loop ops n (f_libm2 ops ''fmod'' v rhs) c)
         else Got v c)"
| "eval_parse_unary ops (Suc n) c =
     (let c = eval_skip_ws c
      in if peek c = CHR ''-''
         then rbind (eval_parse_unary ops n (adv c)) (\<lambda>v c. Got (f_neg ops v) c)
         else if peek c = CHR ''+'' then eval_parse_unary ops n (adv c)
         else eval_parse_power ops n c)"
| "eval_parse_power ops (Suc n) c =
     rbind (eval_parse_primary ops n c) (\<lambda>v c.
       let c = eval_skip_ws c
       in if peek c = CHR ''^''
          then rbind (eval_parse_power ops n (adv c)) (\<lambda>rhs c. Got (f_libm2 ops ''pow'' v rhs) c)
          else if peek c = CHR ''!'' then eval_fact ops v (adv c)
          else Got v c)"
| "eval_parse_primary ops (Suc n) c = primary_body ops (\<lambda>c. eval_parse_expr ops n c) c"

datatype 'd maths_result = Maths_Ok 'd | Maths_Err string

definition eval_fuel :: "string \<Rightarrow> nat" where
  "eval_fuel s = 8 * length s + 8"

definition maths_d_eval_at ::
  "('d, 'l) fops \<Rightarrow> string \<Rightarrow> string option \<Rightarrow> 'd \<Rightarrow> 'd maths_result option" where
  "maths_d_eval_at ops expr var_name var_value =
     (if \<not> maths_charset_ok expr then Some (Maths_Err ''expression contains invalid characters'')
      else case eval_parse_expr ops (eval_fuel expr)
                  \<lparr>cx_s = expr, cx_depth = 0, cx_var = var_name, cx_val = var_value\<rparr> of
             Out_Of_Fuel \<Rightarrow> None
           | Fail msg \<Rightarrow> Some (Maths_Err msg)
           | Got result c \<Rightarrow>
               (let c = eval_skip_ws c
                in if cx_s c \<noteq> []
                   then Some (Maths_Err (''unexpected trailing input at '' @ CHR 0x27 # cx_s c @ [CHR 0x27]))
                   else if \<not> f_finite ops result then Some (Maths_Err ''result is not finite (NaN/Inf)'')
                   else Some (Maths_Ok result)))"

definition maths_d_eval :: "('d, 'l) fops \<Rightarrow> string \<Rightarrow> 'd maths_result option" where
  "maths_d_eval ops expr = maths_d_eval_at ops expr None (f_lit ops 0)"

end
