(* ===== verification/Maths_Spec.thy ===== *)
theory Maths_Spec
  imports Maths_Expr
begin

text \<open>
  The recursion of the evaluator of maths_d: more fuel changes nothing, the fuel of the entry point is
  always sufficient, and the parser satisfies the equations of the code without fuel.
\<close>

section \<open>More fuel changes nothing\<close>

definition res_le :: "'d res \<Rightarrow> 'd res \<Rightarrow> bool" where
  "res_le a b \<longleftrightarrow> a = Out_Of_Fuel \<or> a = b"

lemma res_le_refl [simp]: "res_le a a"
  by (simp add: res_le_def)

lemma res_le_bind:
  assumes "res_le a b" and "\<And>v c. res_le (f v c) (g v c)"
  shows "res_le (rbind a f) (rbind b g)"
proof (cases "a = Out_Of_Fuel")
  case True
  then show ?thesis by (simp add: res_le_def)
next
  case False
  then have "b = a" using assms(1) by (simp add: res_le_def)
  then show ?thesis by (cases a) (simp_all add: assms(2))
qed

lemma res_le_if: "res_le a a' \<Longrightarrow> res_le b b' \<Longrightarrow> res_le (if P then a else b) (if P then a' else b')"
  by simp

lemma res_le_let: "(\<And>x. res_le (f x) (g x)) \<Longrightarrow> res_le (let x = a in f x) (let x = a in g x)"
  by simp

lemma res_le_prim:
  assumes "\<And>c. res_le (pe c) (pe' c)"
  shows "res_le (primary_body ops pe c) (primary_body ops pe' c)"
proof -
  note r = res_le_let res_le_if res_le_bind assms res_le_refl
  have c1: "res_le (eval_call1 ops pe name fn c) (eval_call1 ops pe' name fn c)" for name fn c
    unfolding eval_call1_def by (intro r)
  have cl: "res_le (eval_call_log ops pe c) (eval_call_log ops pe' c)" for c
    unfolding eval_call_log_def by (intro r)
  have c2: "res_le (eval_call2 ops pe name ar c) (eval_call2 ops pe' name ar c)" for name ar c
    unfolding eval_call2_def by (intro r)
  have call: "res_le (eval_parse_call ops pe name c) (eval_parse_call ops pe' name c)" for name c
    unfolding eval_parse_call_def
    by (intro res_le_let res_le_if res_le_refl) (auto simp: c1 cl c2 split: option.split)
  have ident: "res_le (eval_parse_ident ops pe c) (eval_parse_ident ops pe' c)" for c
    unfolding eval_parse_ident_def by (intro res_le_let res_le_if res_le_refl call)
  have paren: "res_le (eval_parse_paren pe c) (eval_parse_paren pe' c)" for c
    unfolding eval_parse_paren_def by (intro r)
  show ?thesis
    unfolding primary_body_def by (intro res_le_let res_le_if res_le_bind res_le_refl ident paren)
qed

lemma fuel_step:
  "(\<forall>c. res_le (eval_parse_expr ops n c) (eval_parse_expr ops (Suc n) c)) \<and>
   (\<forall>v c. res_le (expr_loop ops n v c) (expr_loop ops (Suc n) v c)) \<and>
   (\<forall>c. res_le (eval_parse_term ops n c) (eval_parse_term ops (Suc n) c)) \<and>
   (\<forall>v c. res_le (term_loop ops n v c) (term_loop ops (Suc n) v c)) \<and>
   (\<forall>c. res_le (eval_parse_unary ops n c) (eval_parse_unary ops (Suc n) c)) \<and>
   (\<forall>c. res_le (eval_parse_power ops n c) (eval_parse_power ops (Suc n) c)) \<and>
   (\<forall>c. res_le (eval_parse_primary ops n c) (eval_parse_primary ops (Suc n) c))"
proof (induction n)
  case 0
  then show ?case by (simp add: res_le_def)
next
  case (Suc n)
  then have ih: "\<And>c. res_le (eval_parse_expr ops n c) (eval_parse_expr ops (Suc n) c)"
    "\<And>v c. res_le (expr_loop ops n v c) (expr_loop ops (Suc n) v c)"
    "\<And>c. res_le (eval_parse_term ops n c) (eval_parse_term ops (Suc n) c)"
    "\<And>v c. res_le (term_loop ops n v c) (term_loop ops (Suc n) v c)"
    "\<And>c. res_le (eval_parse_unary ops n c) (eval_parse_unary ops (Suc n) c)"
    "\<And>c. res_le (eval_parse_power ops n c) (eval_parse_power ops (Suc n) c)"
    "\<And>c. res_le (eval_parse_primary ops n c) (eval_parse_primary ops (Suc n) c)"
    by blast+
  note r = res_le_let res_le_if res_le_bind ih res_le_refl
  show ?case
  proof (intro conjI allI)
    fix v c
    show "res_le (eval_parse_expr ops (Suc n) c) (eval_parse_expr ops (Suc (Suc n)) c)"
      unfolding eval_parse_expr.simps(2) [of ops n c] eval_parse_expr.simps(2) [of ops "Suc n" c] by (intro r)
    show "res_le (expr_loop ops (Suc n) v c) (expr_loop ops (Suc (Suc n)) v c)"
      unfolding expr_loop.simps(2) [of ops n v c] expr_loop.simps(2) [of ops "Suc n" v c] by (intro r)
    show "res_le (eval_parse_term ops (Suc n) c) (eval_parse_term ops (Suc (Suc n)) c)"
      unfolding eval_parse_term.simps(2) [of ops n c] eval_parse_term.simps(2) [of ops "Suc n" c] by (intro r)
    show "res_le (term_loop ops (Suc n) v c) (term_loop ops (Suc (Suc n)) v c)"
      unfolding term_loop.simps(2) [of ops n v c] term_loop.simps(2) [of ops "Suc n" v c] by (intro r)
    show "res_le (eval_parse_unary ops (Suc n) c) (eval_parse_unary ops (Suc (Suc n)) c)"
      unfolding eval_parse_unary.simps(2) [of ops n c] eval_parse_unary.simps(2) [of ops "Suc n" c] by (intro r)
    show "res_le (eval_parse_power ops (Suc n) c) (eval_parse_power ops (Suc (Suc n)) c)"
      unfolding eval_parse_power.simps(2) [of ops n c] eval_parse_power.simps(2) [of ops "Suc n" c] by (intro r)
    show "res_le (eval_parse_primary ops (Suc n) c) (eval_parse_primary ops (Suc (Suc n)) c)"
      unfolding eval_parse_primary.simps(2) [of ops n c] eval_parse_primary.simps(2) [of ops "Suc n" c] by (intro res_le_prim ih)
  qed
qed

section \<open>Fuel is always sufficient\<close>

text \<open>How a context moves: the input shrinks, depth and variable binding stay.\<close>

definition ctx_le :: "'d eval_ctx \<Rightarrow> 'd eval_ctx \<Rightarrow> bool" where
  "ctx_le c c' \<longleftrightarrow> length (cx_s c') \<le> length (cx_s c) \<and> cx_depth c' = cx_depth c \<and> cx_var c' = cx_var c \<and> cx_val c' = cx_val c"

definition ctx_lt :: "'d eval_ctx \<Rightarrow> 'd eval_ctx \<Rightarrow> bool" where
  "ctx_lt c c' \<longleftrightarrow> ctx_le c c' \<and> length (cx_s c') < length (cx_s c)"

definition ok_le :: "'d eval_ctx \<Rightarrow> 'd res \<Rightarrow> bool" where
  "ok_le c r \<longleftrightarrow> r \<noteq> Out_Of_Fuel \<and> (\<forall>v c'. r = Got v c' \<longrightarrow> ctx_le c c')"

definition ok_lt :: "'d eval_ctx \<Rightarrow> 'd res \<Rightarrow> bool" where
  "ok_lt c r \<longleftrightarrow> r \<noteq> Out_Of_Fuel \<and> (\<forall>v c'. r = Got v c' \<longrightarrow> ctx_lt c c')"

lemma ctx_le_refl [simp]: "ctx_le c c"
  by (simp add: ctx_le_def)

lemma ok_simps [simp]:
  "ok_le c (Fail msg)" "ok_lt c (Fail msg)" "ok_le c (Got v c') \<longleftrightarrow> ctx_le c c'" "ok_lt c (Got v c') \<longleftrightarrow> ctx_lt c c'"
  by (simp_all add: ok_le_def ok_lt_def)

lemma ok_lt_le: "ok_lt c r \<Longrightarrow> ok_le c r"
  by (simp add: ok_lt_def ok_le_def ctx_lt_def)

lemma ok_le_le: "ctx_le c c1 \<Longrightarrow> ok_le c1 r \<Longrightarrow> ok_le c r"
  by (auto simp: ok_le_def ctx_le_def)

lemma ok_lt_le_lt: "ctx_lt c c1 \<Longrightarrow> ok_le c1 r \<Longrightarrow> ok_lt c r"
  by (fastforce simp: ok_le_def ok_lt_def ctx_le_def ctx_lt_def)

lemma ok_le_lt_lt: "ctx_le c c1 \<Longrightarrow> ok_lt c1 r \<Longrightarrow> ok_lt c r"
  by (fastforce simp: ok_le_def ok_lt_def ctx_le_def ctx_lt_def)

lemma ok_le_bind: "ok_le c a \<Longrightarrow> (\<And>v c'. ctx_le c c' \<Longrightarrow> ok_le c' (f v c')) \<Longrightarrow> ok_le c (rbind a f)"
  by (cases a) (auto simp: ok_le_def [of c Out_Of_Fuel] intro: ok_le_le)

lemma ok_lt_bind: "ok_lt c a \<Longrightarrow> (\<And>v c'. ctx_lt c c' \<Longrightarrow> ok_le c' (f v c')) \<Longrightarrow> ok_lt c (rbind a f)"
  by (cases a) (auto simp: ok_lt_def [of c Out_Of_Fuel] intro: ok_lt_le_lt)

lemma ctx_skip: "ctx_le c (eval_skip_ws c)"
  by (simp add: ctx_le_def eval_skip_ws_def length_dropWhile_le)

lemma peek_NUL: "peek c \<noteq> CHR 0x00 \<Longrightarrow> cx_s c \<noteq> []"
  by (auto simp: peek_def)

lemma ctx_adv: "peek c \<noteq> CHR 0x00 \<Longrightarrow> ctx_lt c (adv c)"
  by (auto simp: ctx_lt_def ctx_le_def adv_def peek_def split: list.splits)

lemma ctx_lt_leD: "ctx_lt c c' \<Longrightarrow> ctx_le c c'"
  by (simp add: ctx_lt_def)

lemma ctx_lt_trans: "ctx_le c c1 \<Longrightarrow> ctx_lt c1 c2 \<Longrightarrow> ctx_lt c c2"
  "ctx_lt c c1 \<Longrightarrow> ctx_le c1 c2 \<Longrightarrow> ctx_lt c c2"
  by (auto simp: ctx_lt_def ctx_le_def)

lemma ctx_skip_adv: "peek (eval_skip_ws c) \<noteq> CHR 0x00 \<Longrightarrow> ctx_lt c (adv (eval_skip_ws c))"
  by (rule ctx_lt_trans(1) [OF ctx_skip ctx_adv])

lemma ok_take_rp: "ok_lt c (eval_take_rp v c msg)"
  using ctx_skip_adv [of c] by (simp add: eval_take_rp_def Let_def)

lemma ok_fact: "ctx_le c c' \<Longrightarrow> ok_le c (eval_fact ops v c')"
  by (simp add: eval_fact_def Let_def)

lemma ctx_lt_len: "ctx_lt c c' \<Longrightarrow> length (cx_s c') < length (cx_s c)"
  by (simp add: ctx_lt_def)

text \<open>A parser for arguments that behaves on every input shorter than \<open>k\<close>.\<close>

definition pe_ok :: "nat \<Rightarrow> ('d eval_ctx \<Rightarrow> 'd res) \<Rightarrow> bool" where
  "pe_ok k pe \<longleftrightarrow> (\<forall>c. length (cx_s c) < k \<longrightarrow> ok_lt c (pe c))"

lemma pe_okD: "pe_ok k pe \<Longrightarrow> length (cx_s c) < k \<Longrightarrow> ok_lt c (pe c)"
  by (simp add: pe_ok_def)

lemma ok_call1:
  assumes "pe_ok k pe" and "length (cx_s c) < k"
  shows "ok_lt c (eval_call1 ops pe name fn c)"
  unfolding eval_call1_def
proof (rule ok_lt_bind [OF pe_okD [OF assms]], rule ok_le_bind)
  fix v c' v' c''
  show "ok_le c' (eval_take_rp v c' ''missing ')' in function call'')" by (rule ok_lt_le [OF ok_take_rp])
  show "ok_le c'' (case fn of None \<Rightarrow> if name = ''factorial'' then eval_fact ops v' c'' else Fail ''unsupported function''
      | Some f \<Rightarrow> Got (fn1_apply ops f v') c'')"
    by (cases fn) (simp_all add: ok_fact)
qed

lemma ok_call_log:
  assumes "pe_ok k pe" and "length (cx_s c) < k"
  shows "ok_lt c (eval_call_log ops pe c)"
  unfolding eval_call_log_def
proof (rule ok_lt_bind [OF pe_okD [OF assms]])
  fix a c'
  assume lt: "ctx_lt c c'"
  let ?c = "eval_skip_ws c'"
  have "ok_le c' (if peek ?c = CHR '','' then pe (adv ?c) else Got (f_lit ops 0) ?c)"
  proof (cases "peek ?c = CHR '',''")
    case True
    then have adv: "ctx_lt c' (adv ?c)" by (intro ctx_skip_adv) simp
    then have "ok_lt (adv ?c) (pe (adv ?c))"
      using lt assms(2) by (intro pe_okD [OF assms(1)]) (auto dest!: ctx_lt_len)
    with True adv show ?thesis by (auto intro: ok_le_le ok_lt_le ctx_lt_leD)
  qed (simp add: ctx_skip)
  then have "ok_le c' (rbind (if peek ?c = CHR '','' then pe (adv ?c) else Got (f_lit ops 0) ?c) (\<lambda>b c.
      rbind (eval_take_rp b c ''missing ')' in log()'') (\<lambda>b c. Got (log_val ops a b) c)))"
    by (rule ok_le_bind) (rule ok_le_bind [OF ok_lt_le [OF ok_take_rp]], simp)
  then show "ok_le c' (let c = ?c in rbind (if peek c = CHR '','' then pe (adv c) else Got (f_lit ops 0) c) (\<lambda>b c.
      rbind (eval_take_rp b c ''missing ')' in log()'') (\<lambda>b c. Got (log_val ops a b) c)))"
    by (simp add: Let_def)
qed

lemma ok_call2:
  assumes "pe_ok k pe" and "length (cx_s c) < k"
  shows "ok_lt c (eval_call2 ops pe name ar c)"
  unfolding eval_call2_def
proof (rule ok_lt_bind [OF pe_okD [OF assms]])
  fix a c'
  assume lt: "ctx_lt c c'"
  let ?c = "eval_skip_ws c'"
  have "ok_le c' (rbind (pe (adv ?c)) (\<lambda>b c. rbind (eval_take_rp b c ''missing ')' in function call'') (\<lambda>b c.
      if ar \<noteq> 2 then Fail ''unsupported function arity'' else Got (fn2_val ops name a b) c)))"
    if "peek ?c = CHR '',''"
  proof -
    have adv: "ctx_lt c' (adv ?c)" using that by (intro ctx_skip_adv) simp
    then have "ok_lt (adv ?c) (pe (adv ?c))"
      using lt assms(2) by (intro pe_okD [OF assms(1)]) (auto dest!: ctx_lt_len)
    then have "ok_le c' (pe (adv ?c))" using adv by (auto intro: ok_le_le ok_lt_le ctx_lt_leD)
    then show ?thesis by (rule ok_le_bind) (rule ok_le_bind [OF ok_lt_le [OF ok_take_rp]], simp)
  qed
  then show "ok_le c' (let c = ?c in if peek c \<noteq> CHR '','' then Fail ''missing ',' in function call''
      else rbind (pe (adv c)) (\<lambda>b c. rbind (eval_take_rp b c ''missing ')' in function call'') (\<lambda>b c.
        if ar \<noteq> 2 then Fail ''unsupported function arity'' else Got (fn2_val ops name a b) c)))"
    by (simp add: Let_def)
qed

lemma ok_call:
  assumes "pe_ok k pe" and "length (cx_s c) \<le> k"
  shows "ok_lt c (eval_parse_call ops pe name c)"
proof -
  let ?c = "eval_skip_ws c"
  show ?thesis
  proof (cases "peek ?c = CHR ''(''")
    case True
    then have adv: "ctx_lt c (adv ?c)" by (intro ctx_skip_adv) simp
    then have len: "length (cx_s (adv ?c)) < k" using assms(2) by (auto dest!: ctx_lt_len)
    have "ok_lt c r" if "ok_lt (adv ?c) r" for r
      using ok_le_lt_lt [OF ctx_lt_leD [OF adv] that] .
    then show ?thesis
      using True ok_call1 [OF assms(1) len, of ops] ok_call_log [OF assms(1) len, of ops]
        ok_call2 [OF assms(1) len, of ops]
      by (auto simp: eval_parse_call_def Let_def split: option.split)
  qed (simp add: eval_parse_call_def Let_def)
qed

lemma ok_ident:
  assumes "pe_ok k pe" and "length (cx_s c) \<le> k" and "maths_is_ident_start (peek c)"
  shows "ok_lt c (eval_parse_ident ops pe c)"
proof -
  let ?c = "c\<lparr>cx_s := dropWhile maths_is_ident_char (cx_s c)\<rparr>"
  have "peek c \<noteq> CHR 0x00" using assms(3) by (auto simp: maths_is_ident_start_def c_isalpha_def)
  then obtain x xs where x: "cx_s c = x # xs" "maths_is_ident_char x"
    using assms(3) by (cases "cx_s c") (auto simp: peek_def maths_is_ident_start_def maths_is_ident_char_def)
  have lt: "ctx_lt c ?c"
    using x length_dropWhile_le [of maths_is_ident_char xs] by (simp add: ctx_lt_def ctx_le_def le_imp_less_Suc)
  have "ok_lt ?c (eval_parse_call ops pe name ?c)" for name
    using lt assms(2) by (intro ok_call [OF assms(1)]) (auto dest!: ctx_lt_len)
  then have "ok_lt c (eval_parse_call ops pe name ?c)" for name
    using ok_le_lt_lt [OF ctx_lt_leD [OF lt]] by blast
  then show ?thesis using lt by (simp add: eval_parse_ident_def Let_def)
qed

lemma ok_paren:
  assumes "pe_ok k pe" and "length (cx_s c) \<le> k" and "peek c = CHR ''(''"
  shows "ok_lt c (eval_parse_paren pe c)"
proof -
  have adv: "ctx_lt c (adv c)" using assms(3) by (intro ctx_adv) simp
  then have "ok_lt (adv c) (pe (adv c))"
    using assms(2) by (intro pe_okD [OF assms(1)]) (auto dest!: ctx_lt_len)
  then have "ok_lt c (pe (adv c))" by (rule ok_le_lt_lt [OF ctx_lt_leD [OF adv]])
  then show ?thesis unfolding eval_parse_paren_def by (rule ok_lt_bind) (rule ok_lt_le [OF ok_take_rp])
qed

lemma skip_digits_le: "length (skip_digits s) \<le> length s"
  by (simp add: skip_digits_def length_dropWhile_le)

lemma skip_digits_lt: "has_digit s \<Longrightarrow> length (skip_digits s) < length s"
  using length_dropWhile_le [of c_isdigit "tl s"]
  by (cases s) (auto simp: skip_digits_def has_digit_def le_imp_less_Suc)

lemma num_exponent_le: "length (num_exponent r) \<le> length r"
proof (cases r)
  case (Cons c r1)
  define r2 where "r2 = (case r1 of [] \<Rightarrow> r1 | d # r' \<Rightarrow> if d = CHR ''+'' \<or> d = CHR ''-'' then r' else r1)"
  have "length r2 \<le> length r1" by (auto simp: r2_def split: list.split)
  then have "length (skip_digits r2) \<le> length r" using skip_digits_le [of r2] Cons by simp
  then show ?thesis by (simp add: num_exponent_def Cons r2_def [symmetric] Let_def)
qed (simp add: num_exponent_def)

lemma num_mantissa_lt:
  assumes "num_mantissa s = Some r"
  shows "length r < length s"
proof (cases "skip_digits s \<noteq> [] \<and> hd (skip_digits s) = CHR ''.''")
  case True
  then have "r = skip_digits (tl (skip_digits s))"
    using assms by (simp add: num_mantissa_def Let_def split: if_splits)
  then have "length r < length (skip_digits s)"
    using True skip_digits_le [of "tl (skip_digits s)"] by (cases "skip_digits s") auto
  then show ?thesis using skip_digits_le [of s] by simp
next
  case False
  then have "has_digit s \<and> r = skip_digits s"
    using assms by (simp add: num_mantissa_def Let_def split: if_splits)
  then show ?thesis using skip_digits_lt by simp
qed

lemma ok_number:
  "ok_lt c (case eval_parse_number ops c of None \<Rightarrow> Fail msg | Some (v, c) \<Rightarrow> Got v c)"
proof (cases "num_mantissa (cx_s c)")
  case (Some r)
  have "length (num_exponent r) < length (cx_s c)"
    using num_mantissa_lt [OF Some] num_exponent_le [of r] by simp
  then show ?thesis using Some by (simp add: eval_parse_number_def Let_def ctx_lt_def ctx_le_def)
qed (simp add: eval_parse_number_def)

lemma ok_primary:
  assumes "pe_ok (length (cx_s c)) pe"
  shows "ok_lt c (primary_body ops pe c)"
proof -
  let ?c = "(eval_skip_ws c)\<lparr>cx_depth := cx_depth (eval_skip_ws c) + 1\<rparr>"
  define r where "r = (if peek ?c = CHR ''('' then eval_parse_paren pe ?c
      else if maths_is_ident_start (peek ?c) then eval_parse_ident ops pe ?c
      else if maths_is_digit_char (peek ?c)
        then (case eval_parse_number ops ?c of None \<Rightarrow> Fail ''invalid number'' | Some (v, c) \<Rightarrow> Got v c)
      else Fail ''unexpected token'')"
  have len: "length (cx_s ?c) \<le> length (cx_s c)" using ctx_skip [of c] by (simp add: ctx_le_def)
  have "ok_lt ?c r"
    unfolding r_def using ok_paren [OF assms len] ok_ident [OF assms len, of ops] ok_number [where c = ?c and ops = ops] by simp
  then have "ok_lt c (rbind r (\<lambda>v c. Got v (c\<lparr>cx_depth := cx_depth c - 1\<rparr>)))"
    using ctx_skip [of c] by (cases r) (auto simp: ok_lt_def ctx_lt_def ctx_le_def)
  then show ?thesis unfolding primary_body_def Let_def r_def by simp
qed

text \<open>The rank of each function at equal input length.\<close>

lemma fuel_enough:
  fixes ops :: "('d, 'l) fops"
  shows "(\<forall>c. 8 * length (cx_s c) + 7 \<le> n \<longrightarrow> ok_lt c (eval_parse_expr ops n c)) \<and>
   (\<forall>v c. 8 * length (cx_s c) + 1 \<le> n \<longrightarrow> ok_le c (expr_loop ops n v c)) \<and>
   (\<forall>c. 8 * length (cx_s c) + 6 \<le> n \<longrightarrow> ok_lt c (eval_parse_term ops n c)) \<and>
   (\<forall>v c. 8 * length (cx_s c) + 1 \<le> n \<longrightarrow> ok_le c (term_loop ops n v c)) \<and>
   (\<forall>c. 8 * length (cx_s c) + 5 \<le> n \<longrightarrow> ok_lt c (eval_parse_unary ops n c)) \<and>
   (\<forall>c. 8 * length (cx_s c) + 4 \<le> n \<longrightarrow> ok_lt c (eval_parse_power ops n c)) \<and>
   (\<forall>c. 8 * length (cx_s c) + 3 \<le> n \<longrightarrow> ok_lt c (eval_parse_primary ops n c))"
proof (induction n)
  case 0
  then show ?case by simp
next
  case (Suc n)
  then have ih: "\<And>c. 8 * length (cx_s c) + 7 \<le> n \<Longrightarrow> ok_lt c (eval_parse_expr ops n c)"
    "\<And>v c. 8 * length (cx_s c) + 1 \<le> n \<Longrightarrow> ok_le c (expr_loop ops n v c)"
    "\<And>c. 8 * length (cx_s c) + 6 \<le> n \<Longrightarrow> ok_lt c (eval_parse_term ops n c)"
    "\<And>v c. 8 * length (cx_s c) + 1 \<le> n \<Longrightarrow> ok_le c (term_loop ops n v c)"
    "\<And>c. 8 * length (cx_s c) + 5 \<le> n \<Longrightarrow> ok_lt c (eval_parse_unary ops n c)"
    "\<And>c. 8 * length (cx_s c) + 4 \<le> n \<Longrightarrow> ok_lt c (eval_parse_power ops n c)"
    "\<And>c. 8 * length (cx_s c) + 3 \<le> n \<Longrightarrow> ok_lt c (eval_parse_primary ops n c)"
    by blast+
  show ?case
  proof (intro conjI allI impI)
    fix v and c :: "'d eval_ctx"
    let ?c = "eval_skip_ws c"
    { assume a: "8 * length (cx_s c) + 7 \<le> Suc n"
      show "ok_lt c (eval_parse_expr ops (Suc n) c)"
        unfolding eval_parse_expr.simps
      proof (rule ok_lt_bind)
        show "ok_lt c (eval_parse_term ops n c)" using a by (intro ih) simp
        show "ok_le c' (expr_loop ops n v c')" if "ctx_lt c c'" for v c'
          using a ctx_lt_len [OF that] by (intro ih) simp
      qed }
    { assume a: "8 * length (cx_s c) + 6 \<le> Suc n"
      show "ok_lt c (eval_parse_term ops (Suc n) c)"
        unfolding eval_parse_term.simps
      proof (rule ok_lt_bind)
        show "ok_lt c (eval_parse_unary ops n c)" using a by (intro ih) simp
        show "ok_le c' (term_loop ops n v c')" if "ctx_lt c c'" for v c'
          using a ctx_lt_len [OF that] by (intro ih) simp
      qed }
    { assume a: "8 * length (cx_s c) + 1 \<le> Suc n"
      have next_term: "ok_le c (rbind (eval_parse_term ops n (adv ?c)) (\<lambda>rhs c. expr_loop ops n (f rhs) c))"
        if "peek ?c \<noteq> CHR 0x00" for f
      proof -
        note adv = ctx_skip_adv [OF that]
        have "ok_lt c (eval_parse_term ops n (adv ?c))"
          by (rule ok_le_lt_lt [OF ctx_lt_leD [OF adv]], rule ih) (use a ctx_lt_len [OF adv] in simp)
        then have "ok_lt c (rbind (eval_parse_term ops n (adv ?c)) (\<lambda>rhs c. expr_loop ops n (f rhs) c))"
        proof (rule ok_lt_bind)
          show "ok_le c' (expr_loop ops n (f v) c')" if "ctx_lt c c'" for v c'
            using a ctx_lt_len [OF that] by (intro ih) simp
        qed
        then show ?thesis by (rule ok_lt_le)
      qed
      show "ok_le c (expr_loop ops (Suc n) v c)"
        using next_term ctx_skip [of c] by (simp add: Let_def) }
    { assume a: "8 * length (cx_s c) + 1 \<le> Suc n"
      have next_unary: "ok_le c (rbind (eval_parse_unary ops n (adv ?c)) g)"
        if "peek ?c \<noteq> CHR 0x00" "\<And>v c'. ctx_lt c c' \<Longrightarrow> ok_le c' (g v c')" for g
      proof -
        note adv = ctx_skip_adv [OF that(1)]
        have "ok_lt c (eval_parse_unary ops n (adv ?c))"
          by (rule ok_le_lt_lt [OF ctx_lt_leD [OF adv]], rule ih) (use a ctx_lt_len [OF adv] in simp)
        then show ?thesis by (intro ok_lt_le [OF ok_lt_bind] that(2))
      qed
      have loop: "ok_le c' (term_loop ops n v c')" if "ctx_lt c c'" for v c'
        using a ctx_lt_len [OF that] by (intro ih) simp
      show "ok_le c (term_loop ops (Suc n) v c)"
        using ctx_skip [of c] loop by (auto simp: Let_def intro!: next_unary) }
    { assume a: "8 * length (cx_s c) + 5 \<le> Suc n"
      have un: "ok_lt c (eval_parse_unary ops n (adv ?c))" if "peek ?c \<noteq> CHR 0x00"
        by (rule ok_le_lt_lt [OF ctx_lt_leD [OF ctx_skip_adv [OF that]]], rule ih)
          (use a ctx_lt_len [OF ctx_skip_adv [OF that]] in simp)
      have "ok_lt c (eval_parse_power ops n ?c)"
        by (rule ok_le_lt_lt [OF ctx_skip], rule ih) (insert a ctx_skip [of c], simp add: ctx_le_def)
      then show "ok_lt c (eval_parse_unary ops (Suc n) c)"
        using un by (auto simp: Let_def intro!: ok_lt_bind) }
    { assume a: "8 * length (cx_s c) + 4 \<le> Suc n"
      show "ok_lt c (eval_parse_power ops (Suc n) c)"
        unfolding eval_parse_power.simps
      proof (rule ok_lt_bind)
        show "ok_lt c (eval_parse_primary ops n c)" using a by (intro ih) simp
        fix v c'
        assume lt: "ctx_lt c c'"
        let ?d = "eval_skip_ws c'"
        have pow: "ok_le c' (rbind (eval_parse_power ops n (adv ?d)) (\<lambda>rhs c. Got (f rhs) c))"
          if "peek ?d \<noteq> CHR 0x00" for f
        proof (rule ok_lt_le, rule ok_lt_bind)
          show "ok_lt c' (eval_parse_power ops n (adv ?d))"
            by (rule ok_le_lt_lt [OF ctx_lt_leD [OF ctx_skip_adv [OF that]]], rule ih)
              (use a ctx_lt_len [OF ctx_skip_adv [OF that]] ctx_lt_len [OF lt] in simp)
        qed simp
        show "ok_le c' (let c = ?d in if peek c = CHR ''^''
            then rbind (eval_parse_power ops n (adv c)) (\<lambda>rhs c. Got (f_libm2 ops ''pow'' v rhs) c)
            else if peek c = CHR ''!'' then eval_fact ops v (adv c) else Got v c)"
          using pow ctx_skip [of c'] ctx_lt_leD [OF ctx_skip_adv [of c']] by (simp add: Let_def ok_fact)
      qed }
    { assume a: "8 * length (cx_s c) + 3 \<le> Suc n"
      have "pe_ok (length (cx_s c)) (\<lambda>c. eval_parse_expr ops n c)"
        unfolding pe_ok_def using a by (auto intro!: ih)
      then show "ok_lt c (eval_parse_primary ops (Suc n) c)" by (simp add: ok_primary) }
  qed
qed

section \<open>The parser without fuel\<close>

lemma res_le_trans: "res_le a b \<Longrightarrow> res_le b c \<Longrightarrow> res_le a c"
  by (auto simp: res_le_def)

lemma res_le_chain:
  assumes "\<And>n. res_le (f n) (f (Suc n))" and "m \<le> n"
  shows "res_le (f m) (f n)"
  using assms(2) by (induction n rule: dec_induct) (auto intro: res_le_trans assms(1))

lemma fuel_mono:
  "res_le (eval_parse_expr ops n c) (eval_parse_expr ops (Suc n) c)"
  "res_le (expr_loop ops n v c) (expr_loop ops (Suc n) v c)"
  "res_le (eval_parse_term ops n c) (eval_parse_term ops (Suc n) c)"
  "res_le (term_loop ops n v c) (term_loop ops (Suc n) v c)"
  "res_le (eval_parse_unary ops n c) (eval_parse_unary ops (Suc n) c)"
  "res_le (eval_parse_power ops n c) (eval_parse_power ops (Suc n) c)"
  "res_le (eval_parse_primary ops n c) (eval_parse_primary ops (Suc n) c)"
  using fuel_step [of ops n] by blast+

text \<open>A computation that has settled at fuel \<open>k\<close> bounds every other run of it.\<close>

lemma res_le_settled:
  assumes "\<And>n. res_le (f n) (f (Suc n))" and "f k \<noteq> Out_Of_Fuel"
  shows "res_le (f n) (f k)"
proof (cases "n \<le> k")
  case True
  then show ?thesis using res_le_chain [of f n k] assms(1) by blast
next
  case False
  then have "res_le (f k) (f n)" using res_le_chain [of f k n] assms(1) by simp
  then show ?thesis using assms(2) by (simp add: res_le_def)
qed

definition pexpr where "pexpr ops c = eval_parse_expr ops (8 * length (cx_s c) + 7) c"
definition pexpr_loop where "pexpr_loop ops v c = expr_loop ops (8 * length (cx_s c) + 1) v c"
definition pterm where "pterm ops c = eval_parse_term ops (8 * length (cx_s c) + 6) c"
definition pterm_loop where "pterm_loop ops v c = term_loop ops (8 * length (cx_s c) + 1) v c"
definition punary where "punary ops c = eval_parse_unary ops (8 * length (cx_s c) + 5) c"
definition ppower where "ppower ops c = eval_parse_power ops (8 * length (cx_s c) + 4) c"
definition pprimary where "pprimary ops c = eval_parse_primary ops (8 * length (cx_s c) + 3) c"

lemmas p_defs = pexpr_def pexpr_loop_def pterm_def pterm_loop_def punary_def ppower_def pprimary_def

lemma p_ok: "ok_lt c (pexpr ops c)" "ok_le c (pexpr_loop ops v c)" "ok_lt c (pterm ops c)"
  "ok_le c (pterm_loop ops v c)" "ok_lt c (punary ops c)" "ok_lt c (ppower ops c)" "ok_lt c (pprimary ops c)"
  unfolding p_defs using fuel_enough [of _ ops] by blast+

lemma p_total: "pexpr ops c \<noteq> Out_Of_Fuel" "pexpr_loop ops v c \<noteq> Out_Of_Fuel" "pterm ops c \<noteq> Out_Of_Fuel"
  "pterm_loop ops v c \<noteq> Out_Of_Fuel" "punary ops c \<noteq> Out_Of_Fuel" "ppower ops c \<noteq> Out_Of_Fuel"
  "pprimary ops c \<noteq> Out_Of_Fuel"
  using p_ok(1,3,5,6,7) [of c ops] p_ok(2,4) [of c ops v] by (simp_all add: ok_lt_def ok_le_def)

lemma p_bounds:
  "res_le (eval_parse_expr ops n c) (pexpr ops c)"
  "res_le (expr_loop ops n v c) (pexpr_loop ops v c)"
  "res_le (eval_parse_term ops n c) (pterm ops c)"
  "res_le (term_loop ops n v c) (pterm_loop ops v c)"
  "res_le (eval_parse_unary ops n c) (punary ops c)"
  "res_le (eval_parse_power ops n c) (ppower ops c)"
  "res_le (eval_parse_primary ops n c) (pprimary ops c)"
proof -
  show "res_le (eval_parse_expr ops n c) (pexpr ops c)"
    unfolding pexpr_def by (rule res_le_settled [OF fuel_mono(1) p_total(1) [unfolded pexpr_def]])
  show "res_le (expr_loop ops n v c) (pexpr_loop ops v c)"
    unfolding pexpr_loop_def by (rule res_le_settled [OF fuel_mono(2) p_total(2) [unfolded pexpr_loop_def]])
  show "res_le (eval_parse_term ops n c) (pterm ops c)"
    unfolding pterm_def by (rule res_le_settled [OF fuel_mono(3) p_total(3) [unfolded pterm_def]])
  show "res_le (term_loop ops n v c) (pterm_loop ops v c)"
    unfolding pterm_loop_def by (rule res_le_settled [OF fuel_mono(4) p_total(4) [unfolded pterm_loop_def]])
  show "res_le (eval_parse_unary ops n c) (punary ops c)"
    unfolding punary_def by (rule res_le_settled [OF fuel_mono(5) p_total(5) [unfolded punary_def]])
  show "res_le (eval_parse_power ops n c) (ppower ops c)"
    unfolding ppower_def by (rule res_le_settled [OF fuel_mono(6) p_total(6) [unfolded ppower_def]])
  show "res_le (eval_parse_primary ops n c) (pprimary ops c)"
    unfolding pprimary_def by (rule res_le_settled [OF fuel_mono(7) p_total(7) [unfolded pprimary_def]])
qed

lemma settle: "res_le a b \<Longrightarrow> a \<noteq> Out_Of_Fuel \<Longrightarrow> a = b"
  by (simp add: res_le_def)

lemma pexpr_eq: "pexpr ops c = rbind (pterm ops c) (\<lambda>v c. pexpr_loop ops v c)"
proof (rule settle [OF _ p_total(1)])
  have n: "8 * length (cx_s c) + 7 = Suc (8 * length (cx_s c) + 6)" by simp
  show "res_le (pexpr ops c) (rbind (pterm ops c) (\<lambda>v c. pexpr_loop ops v c))"
    unfolding pexpr_def [of ops c] n eval_parse_expr.simps by (intro res_le_bind p_bounds)
qed

lemma pexpr_loop_eq: "pexpr_loop ops v c =
  (let c = eval_skip_ws c
   in if peek c = CHR ''+'' then rbind (pterm ops (adv c)) (\<lambda>rhs c. pexpr_loop ops (f_add ops v rhs) c)
      else if peek c = CHR ''-'' then rbind (pterm ops (adv c)) (\<lambda>rhs c. pexpr_loop ops (f_sub ops v rhs) c)
      else Got v c)"
proof (rule settle [OF _ p_total(2)])
  show "res_le (pexpr_loop ops v c) (let c = eval_skip_ws c
   in if peek c = CHR ''+'' then rbind (pterm ops (adv c)) (\<lambda>rhs c. pexpr_loop ops (f_add ops v rhs) c)
      else if peek c = CHR ''-'' then rbind (pterm ops (adv c)) (\<lambda>rhs c. pexpr_loop ops (f_sub ops v rhs) c)
      else Got v c)"
    unfolding pexpr_loop_def [of ops v c] Suc_eq_plus1 [symmetric] expr_loop.simps
    by (intro res_le_let res_le_if res_le_bind p_bounds res_le_refl)
qed

lemma pterm_eq: "pterm ops c = rbind (punary ops c) (\<lambda>v c. pterm_loop ops v c)"
proof (rule settle [OF _ p_total(3)])
  have n: "8 * length (cx_s c) + 6 = Suc (8 * length (cx_s c) + 5)" by simp
  show "res_le (pterm ops c) (rbind (punary ops c) (\<lambda>v c. pterm_loop ops v c))"
    unfolding pterm_def [of ops c] n eval_parse_term.simps by (intro res_le_bind p_bounds)
qed

lemma pterm_loop_eq: "pterm_loop ops v c =
  (let c = eval_skip_ws c
   in if peek c = CHR ''*'' then rbind (punary ops (adv c)) (\<lambda>rhs c. pterm_loop ops (f_mul ops v rhs) c)
      else if peek c = CHR ''/'' then rbind (punary ops (adv c)) (\<lambda>rhs c.
        if f_eq ops rhs (f_lit ops 0) then Fail ''division by zero'' else pterm_loop ops (f_div ops v rhs) c)
      else if peek c = CHR ''%'' then rbind (punary ops (adv c)) (\<lambda>rhs c.
        if f_eq ops rhs (f_lit ops 0) then Fail ''modulo by zero'' else pterm_loop ops (f_libm2 ops ''fmod'' v rhs) c)
      else Got v c)"
proof (rule settle [OF _ p_total(4)])
  show "res_le (pterm_loop ops v c) (let c = eval_skip_ws c
   in if peek c = CHR ''*'' then rbind (punary ops (adv c)) (\<lambda>rhs c. pterm_loop ops (f_mul ops v rhs) c)
      else if peek c = CHR ''/'' then rbind (punary ops (adv c)) (\<lambda>rhs c.
        if f_eq ops rhs (f_lit ops 0) then Fail ''division by zero'' else pterm_loop ops (f_div ops v rhs) c)
      else if peek c = CHR ''%'' then rbind (punary ops (adv c)) (\<lambda>rhs c.
        if f_eq ops rhs (f_lit ops 0) then Fail ''modulo by zero'' else pterm_loop ops (f_libm2 ops ''fmod'' v rhs) c)
      else Got v c)"
    unfolding pterm_loop_def [of ops v c] Suc_eq_plus1 [symmetric] term_loop.simps
    by (intro res_le_let res_le_if res_le_bind p_bounds res_le_refl)
qed

lemma punary_eq: "punary ops c =
  (let c = eval_skip_ws c
   in if peek c = CHR ''-'' then rbind (punary ops (adv c)) (\<lambda>v c. Got (f_neg ops v) c)
      else if peek c = CHR ''+'' then punary ops (adv c) else ppower ops c)"
proof (rule settle [OF _ p_total(5)])
  have n: "8 * length (cx_s c) + 5 = Suc (8 * length (cx_s c) + 4)" by simp
  show "res_le (punary ops c) (let c = eval_skip_ws c
   in if peek c = CHR ''-'' then rbind (punary ops (adv c)) (\<lambda>v c. Got (f_neg ops v) c)
      else if peek c = CHR ''+'' then punary ops (adv c) else ppower ops c)"
    unfolding punary_def [of ops c] n eval_parse_unary.simps
    by (intro res_le_let res_le_if res_le_bind p_bounds res_le_refl)
qed

lemma ppower_eq: "ppower ops c =
  rbind (pprimary ops c) (\<lambda>v c.
    let c = eval_skip_ws c
    in if peek c = CHR ''^'' then rbind (ppower ops (adv c)) (\<lambda>rhs c. Got (f_libm2 ops ''pow'' v rhs) c)
       else if peek c = CHR ''!'' then eval_fact ops v (adv c) else Got v c)"
proof (rule settle [OF _ p_total(6)])
  have n: "8 * length (cx_s c) + 4 = Suc (8 * length (cx_s c) + 3)" by simp
  show "res_le (ppower ops c) (rbind (pprimary ops c) (\<lambda>v c.
    let c = eval_skip_ws c
    in if peek c = CHR ''^'' then rbind (ppower ops (adv c)) (\<lambda>rhs c. Got (f_libm2 ops ''pow'' v rhs) c)
       else if peek c = CHR ''!'' then eval_fact ops v (adv c) else Got v c))"
    unfolding ppower_def [of ops c] n eval_parse_power.simps
    by (intro res_le_let res_le_if res_le_bind p_bounds res_le_refl)
qed

lemma pprimary_eq: "pprimary ops c = primary_body ops (pexpr ops) c"
proof (rule settle [OF _ p_total(7)])
  have n: "8 * length (cx_s c) + 3 = Suc (8 * length (cx_s c) + 2)" by simp
  show "res_le (pprimary ops c) (primary_body ops (pexpr ops) c)"
    unfolding pprimary_def [of ops c] n eval_parse_primary.simps by (intro res_le_prim p_bounds)
qed

lemma eval_fuel_enough: "eval_parse_expr ops (eval_fuel (cx_s c)) c = pexpr ops c"
proof -
  have "res_le (pexpr ops c) (eval_parse_expr ops (eval_fuel (cx_s c)) c)"
    unfolding pexpr_def eval_fuel_def
    by (rule res_le_chain [where f = "\<lambda>n. eval_parse_expr ops n c", OF fuel_mono(1)]) simp
  then show ?thesis using p_total(1) by (metis settle)
qed

text \<open>
  The evaluator always answers. For every text, variable binding and arithmetic the recursive
  descent ends within the fuel, and the answer is a finite value or a message. A text that is accepted
  has between 1 and 4096 characters, all from the permitted set.
\<close>

theorem maths_eval_total:
  "case maths_d_eval_at ops expr var_name var_value of
     None \<Rightarrow> False
   | Some (Maths_Ok v) \<Rightarrow> f_finite ops v \<and> 0 < length expr \<and> length expr \<le> 4096 \<and> list_all maths_char_ok expr
   | Some (Maths_Err msg) \<Rightarrow> True"
proof -
  let ?c = "\<lparr>cx_s = expr, cx_depth = 0, cx_var = var_name, cx_val = var_value\<rparr>"
  have e: "eval_parse_expr ops (eval_fuel expr) ?c = pexpr ops ?c" using eval_fuel_enough [of ops ?c] by simp
  show ?thesis
    using p_total(1) [of ops ?c] unfolding maths_d_eval_at_def e
    by (cases "pexpr ops ?c") (simp_all add: maths_charset_ok_def MATHS_MAX_EXPR_LEN_def Let_def)
qed

end
