(* ===== verification/Maths_Grammar.thy ===== *)
theory Maths_Grammar
  imports Maths_Spec
begin

text \<open>
  The evaluator of maths_d against its grammar: on the text of every derivation the parser returns the
  value of the derivation, or the first evaluation error from left to right.
\<close>

section \<open>Derivations of the grammar\<close>

text \<open>
  The grammar of the file, with \<open>power := primary ('^' power)?\<close> as the code has it. Number literals are
  digits with an optional fraction; function names are those of the two tables.
\<close>

datatype prim =
    PNum string string | PPi | PE | PVar string | PParen ex | PFn1 string ex | PFact ex
  | PLog ex | PLogB ex ex | PFn2 string ex ex
and pw = PwPrim prim | PwPow prim pw | PwFact prim
and un = UNeg un | UPos un | UPow pw
and tm = TUn un | TMul tm un | TDiv tm un | TMod tm un
and ex = ETm tm | EAdd ex tm | ESub ex tm

primrec show_prim :: "prim \<Rightarrow> string" and show_pw :: "pw \<Rightarrow> string" and show_un :: "un \<Rightarrow> string"
  and show_tm :: "tm \<Rightarrow> string" and show_ex :: "ex \<Rightarrow> string" where
  "show_prim (PNum ds fs) = ds @ (if fs = [] then [] else CHR ''.'' # fs)"
| "show_prim PPi = ''pi''"
| "show_prim PE = ''e''"
| "show_prim (PVar x) = x"
| "show_prim (PParen e) = CHR ''('' # show_ex e @ '')''"
| "show_prim (PFn1 f e) = f @ CHR ''('' # show_ex e @ '')''"
| "show_prim (PFact e) = ''factorial('' @ show_ex e @ '')''"
| "show_prim (PLog e) = ''log('' @ show_ex e @ '')''"
| "show_prim (PLogB a b) = ''log('' @ show_ex a @ CHR '','' # show_ex b @ '')''"
| "show_prim (PFn2 f a b) = f @ CHR ''('' # show_ex a @ CHR '','' # show_ex b @ '')''"
| "show_pw (PwPrim p) = show_prim p"
| "show_pw (PwPow p w) = show_prim p @ CHR ''^'' # show_pw w"
| "show_pw (PwFact p) = show_prim p @ ''!''"
| "show_un (UNeg u) = CHR ''-'' # show_un u"
| "show_un (UPos u) = CHR ''+'' # show_un u"
| "show_un (UPow w) = show_pw w"
| "show_tm (TUn u) = show_un u"
| "show_tm (TMul t u) = show_tm t @ CHR ''*'' # show_un u"
| "show_tm (TDiv t u) = show_tm t @ CHR ''/'' # show_un u"
| "show_tm (TMod t u) = show_tm t @ CHR ''%'' # show_un u"
| "show_ex (ETm t) = show_tm t"
| "show_ex (EAdd e t) = show_ex e @ CHR ''+'' # show_tm t"
| "show_ex (ESub e t) = show_ex e @ CHR ''-'' # show_tm t"

text \<open>How deep primaries nest.\<close>

primrec dp_prim :: "prim \<Rightarrow> nat" and dp_pw :: "pw \<Rightarrow> nat" and dp_un :: "un \<Rightarrow> nat"
  and dp_tm :: "tm \<Rightarrow> nat" and dp_ex :: "ex \<Rightarrow> nat" where
  "dp_prim (PNum ds fs) = 1"
| "dp_prim PPi = 1"
| "dp_prim PE = 1"
| "dp_prim (PVar x) = 1"
| "dp_prim (PParen e) = 1 + dp_ex e"
| "dp_prim (PFn1 f e) = 1 + dp_ex e"
| "dp_prim (PFact e) = 1 + dp_ex e"
| "dp_prim (PLog e) = 1 + dp_ex e"
| "dp_prim (PLogB a b) = 1 + max (dp_ex a) (dp_ex b)"
| "dp_prim (PFn2 f a b) = 1 + max (dp_ex a) (dp_ex b)"
| "dp_pw (PwPrim p) = dp_prim p"
| "dp_pw (PwPow p w) = max (dp_prim p) (dp_pw w)"
| "dp_pw (PwFact p) = dp_prim p"
| "dp_un (UNeg u) = dp_un u"
| "dp_un (UPos u) = dp_un u"
| "dp_un (UPow w) = dp_pw w"
| "dp_tm (TUn u) = dp_un u"
| "dp_tm (TMul t u) = max (dp_tm t) (dp_un u)"
| "dp_tm (TDiv t u) = max (dp_tm t) (dp_un u)"
| "dp_tm (TMod t u) = max (dp_tm t) (dp_un u)"
| "dp_ex (ETm t) = dp_tm t"
| "dp_ex (EAdd e t) = max (dp_ex e) (dp_tm t)"
| "dp_ex (ESub e t) = max (dp_ex e) (dp_tm t)"

definition is_ident :: "string \<Rightarrow> bool" where
  "is_ident x \<longleftrightarrow> x \<noteq> [] \<and> maths_is_ident_start (hd x) \<and> list_all maths_is_ident_char x"

definition fn2_names :: "string list" where
  "fn2_names = [''min'', ''max'', ''pow'', ''atan2'', ''mod'', ''remainder'']"

text \<open>Literals, names and bindings as the parser expects them; \<open>var\<close> is the bound variable.\<close>

primrec wf_prim :: "string option \<Rightarrow> prim \<Rightarrow> bool" and wf_pw :: "string option \<Rightarrow> pw \<Rightarrow> bool"
  and wf_un :: "string option \<Rightarrow> un \<Rightarrow> bool" and wf_tm :: "string option \<Rightarrow> tm \<Rightarrow> bool"
  and wf_ex :: "string option \<Rightarrow> ex \<Rightarrow> bool" where
  "wf_prim var (PNum ds fs) \<longleftrightarrow>
     ds \<noteq> [] \<and> list_all c_isdigit ds \<and> list_all c_isdigit fs \<and> length ds + length fs + 1 < 64"
| "wf_prim var PPi \<longleftrightarrow> True"
| "wf_prim var PE \<longleftrightarrow> True"
| "wf_prim var (PVar x) \<longleftrightarrow> var = Some x \<and> is_ident x \<and> x \<noteq> ''pi'' \<and> x \<noteq> ''e''"
| "wf_prim var (PParen e) \<longleftrightarrow> wf_ex var e"
| "wf_prim var (PFn1 f e) \<longleftrightarrow> f \<in> set (map fst tbl1) \<and> var \<noteq> Some f \<and> wf_ex var e"
| "wf_prim var (PFact e) \<longleftrightarrow> var \<noteq> Some ''factorial'' \<and> wf_ex var e"
| "wf_prim var (PLog e) \<longleftrightarrow> var \<noteq> Some ''log'' \<and> wf_ex var e"
| "wf_prim var (PLogB a b) \<longleftrightarrow> var \<noteq> Some ''log'' \<and> wf_ex var a \<and> wf_ex var b"
| "wf_prim var (PFn2 f a b) \<longleftrightarrow> f \<in> set fn2_names \<and> var \<noteq> Some f \<and> wf_ex var a \<and> wf_ex var b"
| "wf_pw var (PwPrim p) \<longleftrightarrow> wf_prim var p"
| "wf_pw var (PwPow p w) \<longleftrightarrow> wf_prim var p \<and> wf_pw var w"
| "wf_pw var (PwFact p) \<longleftrightarrow> wf_prim var p"
| "wf_un var (UNeg u) \<longleftrightarrow> wf_un var u"
| "wf_un var (UPos u) \<longleftrightarrow> wf_un var u"
| "wf_un var (UPow w) \<longleftrightarrow> wf_pw var w"
| "wf_tm var (TUn u) \<longleftrightarrow> wf_un var u"
| "wf_tm var (TMul t u) \<longleftrightarrow> wf_tm var t \<and> wf_un var u"
| "wf_tm var (TDiv t u) \<longleftrightarrow> wf_tm var t \<and> wf_un var u"
| "wf_tm var (TMod t u) \<longleftrightarrow> wf_tm var t \<and> wf_un var u"
| "wf_ex var (ETm t) \<longleftrightarrow> wf_tm var t"
| "wf_ex var (EAdd e t) \<longleftrightarrow> wf_ex var e \<and> wf_tm var t"
| "wf_ex var (ESub e t) \<longleftrightarrow> wf_ex var e \<and> wf_tm var t"

text \<open>The value of a derivation, or the first error from left to right.\<close>

fun vbind :: "string + 'a \<Rightarrow> ('a \<Rightarrow> string + 'b) \<Rightarrow> string + 'b" where
  "vbind (Inl m) f = Inl m"
| "vbind (Inr v) f = f v"

definition vfact :: "('d, 'l) fops \<Rightarrow> 'd \<Rightarrow> string + 'd" where
  "vfact ops arg =
     (if f_lt ops arg (f_lit ops 0) \<or> f_lt ops (f_lit ops 170) arg then Inl ''factorial out of range''
      else let n = f_to_ll ops (f_add ops arg (f_lit ops (1 / 10 ^ 9)))
           in if f_lt ops (f_lit ops (1 / 10 ^ 6)) (f_libm1 ops ''fabs'' (f_sub ops arg (f_of_ll ops n)))
              then Inl ''factorial requires integer'' else Inr (fact_val ops n))"

primrec val_prim :: "('d, 'l) fops \<Rightarrow> 'd \<Rightarrow> prim \<Rightarrow> string + 'd" and val_pw :: "('d, 'l) fops \<Rightarrow> 'd \<Rightarrow> pw \<Rightarrow> string + 'd"
  and val_un :: "('d, 'l) fops \<Rightarrow> 'd \<Rightarrow> un \<Rightarrow> string + 'd" and val_tm :: "('d, 'l) fops \<Rightarrow> 'd \<Rightarrow> tm \<Rightarrow> string + 'd"
  and val_ex :: "('d, 'l) fops \<Rightarrow> 'd \<Rightarrow> ex \<Rightarrow> string + 'd" where
  "val_prim ops x (PNum ds fs) = Inr (f_strtod ops (ds @ (if fs = [] then [] else CHR ''.'' # fs)))"
| "val_prim ops x PPi = Inr (f_lit ops MATHS_PI)"
| "val_prim ops x PE = Inr (f_lit ops MATHS_E)"
| "val_prim ops x (PVar n) = Inr x"
| "val_prim ops x (PParen e) = val_ex ops x e"
| "val_prim ops x (PFn1 f e) = vbind (val_ex ops x e) (\<lambda>a. Inr (fn1_apply ops (the (map_of tbl1 f)) a))"
| "val_prim ops x (PFact e) = vbind (val_ex ops x e) (vfact ops)"
| "val_prim ops x (PLog e) = vbind (val_ex ops x e) (\<lambda>a. Inr (log_val ops a (f_lit ops 0)))"
| "val_prim ops x (PLogB a b) = vbind (val_ex ops x a) (\<lambda>a. vbind (val_ex ops x b) (\<lambda>b. Inr (log_val ops a b)))"
| "val_prim ops x (PFn2 f a b) = vbind (val_ex ops x a) (\<lambda>a. vbind (val_ex ops x b) (\<lambda>b. Inr (fn2_val ops f a b)))"
| "val_pw ops x (PwPrim p) = val_prim ops x p"
| "val_pw ops x (PwPow p w) = vbind (val_prim ops x p) (\<lambda>a. vbind (val_pw ops x w) (\<lambda>b. Inr (f_libm2 ops ''pow'' a b)))"
| "val_pw ops x (PwFact p) = vbind (val_prim ops x p) (vfact ops)"
| "val_un ops x (UNeg u) = vbind (val_un ops x u) (\<lambda>a. Inr (f_neg ops a))"
| "val_un ops x (UPos u) = val_un ops x u"
| "val_un ops x (UPow w) = val_pw ops x w"
| "val_tm ops x (TUn u) = val_un ops x u"
| "val_tm ops x (TMul t u) = vbind (val_tm ops x t) (\<lambda>a. vbind (val_un ops x u) (\<lambda>b. Inr (f_mul ops a b)))"
| "val_tm ops x (TDiv t u) = vbind (val_tm ops x t) (\<lambda>a. vbind (val_un ops x u) (\<lambda>b.
     if f_eq ops b (f_lit ops 0) then Inl ''division by zero'' else Inr (f_div ops a b)))"
| "val_tm ops x (TMod t u) = vbind (val_tm ops x t) (\<lambda>a. vbind (val_un ops x u) (\<lambda>b.
     if f_eq ops b (f_lit ops 0) then Inl ''modulo by zero'' else Inr (f_libm2 ops ''fmod'' a b)))"
| "val_ex ops x (ETm t) = val_tm ops x t"
| "val_ex ops x (EAdd e t) = vbind (val_ex ops x e) (\<lambda>a. vbind (val_tm ops x t) (\<lambda>b. Inr (f_add ops a b)))"
| "val_ex ops x (ESub e t) = vbind (val_ex ops x e) (\<lambda>a. vbind (val_tm ops x t) (\<lambda>b. Inr (f_sub ops a b)))"

section \<open>Shapes of texts\<close>

fun emb :: "string + 'd \<Rightarrow> 'd eval_ctx \<Rightarrow> 'd res" where
  "emb (Inl m) c = Fail m"
| "emb (Inr v) c = Got v c"

fun vloop :: "string + 'd \<Rightarrow> ('d \<Rightarrow> 'd res) \<Rightarrow> 'd res" where
  "vloop (Inl m) f = Fail m"
| "vloop (Inr v) f = f v"

lemma rbind_emb: "rbind (emb x c) f = vloop x (\<lambda>v. f v c)"
  by (cases x) simp_all

lemma rbind_vloop: "rbind (vloop x f) g = vloop x (\<lambda>v. rbind (f v) g)"
  by (cases x) simp_all

lemma emb_vbind: "emb (vbind x f) c = vloop x (\<lambda>v. emb (f v) c)"
  by (cases x) simp_all

lemma vloop_vbind: "vloop (vbind x f) g = vloop x (\<lambda>v. vloop (f v) g)"
  by (cases x) simp_all

lemma emb_vloop: "emb x c = vloop x (\<lambda>v. Got v c)"
  by (cases x) simp_all

lemma eval_fact_emb: "eval_fact ops a c = emb (vfact ops a) c"
  by (simp add: eval_fact_def vfact_def Let_def)

abbreviation on :: "'d eval_ctx \<Rightarrow> string \<Rightarrow> 'd eval_ctx" where
  "on c s \<equiv> c\<lparr>cx_s := s\<rparr>"

text \<open>What may follow a primary, a power and a term.\<close>

definition sep :: "string \<Rightarrow> bool" where
  "sep r \<longleftrightarrow> r = [] \<or> hd r \<in> set ''+-*/%^!),''"

definition psep :: "string \<Rightarrow> bool" where
  "psep r \<longleftrightarrow> r = [] \<or> hd r \<in> set ''+-*/%),''"

definition tsep :: "string \<Rightarrow> bool" where
  "tsep r \<longleftrightarrow> r = [] \<or> hd r \<in> set ''+-),''"

definition esep :: "string \<Rightarrow> bool" where
  "esep r \<longleftrightarrow> r = [] \<or> hd r \<in> set ''),''"

lemma seps: "esep r \<Longrightarrow> tsep r" "tsep r \<Longrightarrow> psep r" "psep r \<Longrightarrow> sep r"
  by (auto simp: esep_def tsep_def psep_def sep_def)

lemma sep_Cons [simp]:
  "sep (x # r) \<longleftrightarrow> x \<in> set ''+-*/%^!),''" "psep (x # r) \<longleftrightarrow> x \<in> set ''+-*/%),''"
  "tsep (x # r) \<longleftrightarrow> x \<in> set ''+-),''" "esep (x # r) \<longleftrightarrow> x \<in> set ''),''"
  by (auto simp: sep_def psep_def tsep_def esep_def)

lemma skip_sep: "sep r \<Longrightarrow> eval_skip_ws (on c r) = on c r"
  by (cases r) (auto simp: eval_skip_ws_def sep_def)

lemma peek_on [simp]: "peek (on c (x # r)) = x" "adv (on c (x # r)) = on c r" "peek (on c []) = CHR 0x00"
  by (simp_all add: peek_def adv_def)

text \<open>How a primary begins.\<close>

definition pstart :: "char \<Rightarrow> bool" where
  "pstart x \<longleftrightarrow> c_isdigit x \<or> maths_is_ident_start x \<or> x = CHR ''(''"

lemma pstart_not: "pstart x \<Longrightarrow> x \<notin> set ''+- ''" "pstart x \<Longrightarrow> x \<noteq> CHR 0x09"
  by (auto simp: pstart_def c_isdigit_def maths_is_ident_start_def c_isalpha_def)

lemma skip_pstart: "pstart x \<Longrightarrow> eval_skip_ws (on c (x # r)) = on c (x # r)"
  using pstart_not [of x] by (auto simp: eval_skip_ws_def)

lemma tbl1_ident: "f \<in> set (map fst tbl1) \<Longrightarrow> is_ident f"
  by (auto simp: tbl1_def is_ident_def maths_is_ident_start_def maths_is_ident_char_def c_isalpha_def c_isdigit_def)

lemma fn2_ident: "f \<in> set fn2_names \<Longrightarrow> is_ident f"
  by (auto simp: fn2_names_def is_ident_def maths_is_ident_start_def maths_is_ident_char_def c_isalpha_def c_isdigit_def)

lemma name_idents: "is_ident ''pi''" "is_ident ''e''" "is_ident ''log''" "is_ident ''factorial''"
  by (simp_all add: is_ident_def maths_is_ident_start_def maths_is_ident_char_def c_isalpha_def)

lemma ident_start: "is_ident f \<Longrightarrow> \<exists>x xs. f = x # xs \<and> maths_is_ident_start x"
  by (cases f) (auto simp: is_ident_def)

lemma show_start:
  "wf_prim var p \<Longrightarrow> \<exists>x xs. show_prim p = x # xs \<and> pstart x"
  "wf_pw var w \<Longrightarrow> \<exists>x xs. show_pw w = x # xs \<and> pstart x"
proof -
  have prim: "\<exists>x xs. show_prim p = x # xs \<and> pstart x" if "wf_prim var p" for p
  proof (cases p)
    case (PNum ds fs)
    then show ?thesis using that by (cases ds) (auto simp: pstart_def)
  next
    case (PVar x)
    then show ?thesis using that ident_start [of x] by (auto simp: pstart_def)
  next
    case (PFn1 f e)
    then show ?thesis using that tbl1_ident [of f] ident_start [of f] by (auto simp: pstart_def)
  next
    case (PFn2 f a b)
    then show ?thesis using that fn2_ident [of f] ident_start [of f] by (auto simp: pstart_def)
  qed (simp_all add: pstart_def maths_is_ident_start_def c_isalpha_def)
  then show "wf_prim var p \<Longrightarrow> \<exists>x xs. show_prim p = x # xs \<and> pstart x" .
  show "\<exists>x xs. show_pw w = x # xs \<and> pstart x" if "wf_pw var w"
    using prim that by (cases w) fastforce+
qed

lemma loops_stop:
  "tsep r \<Longrightarrow> pterm_loop ops v (on c r) = Got v (on c r)"
  "esep r \<Longrightarrow> pexpr_loop ops v (on c r) = Got v (on c r)"
  using seps skip_sep [of r c]
  by (cases r; auto simp: pterm_loop_eq [of ops v] pexpr_loop_eq [of ops v] Let_def)+

section \<open>Primaries\<close>

lemma sep_not_ident: "sep r \<Longrightarrow> r = [] \<or> \<not> maths_is_ident_char (hd r)"
  by (auto simp: sep_def maths_is_ident_char_def c_isalpha_def c_isdigit_def)

lemma sep_not_digit_dot: "sep r \<Longrightarrow> r = [] \<or> \<not> c_isdigit (hd r) \<and> hd r \<notin> {CHR ''.'', CHR ''e'', CHR ''E''}"
  by (auto simp: sep_def c_isdigit_def)

lemma ident_split:
  assumes "is_ident f" and "r = [] \<or> \<not> maths_is_ident_char (hd r)"
  shows "takeWhile maths_is_ident_char (f @ r) = f" and "dropWhile maths_is_ident_char (f @ r) = r"
  using assms by (cases r; simp add: is_ident_def list_all_iff takeWhile_tail)+

abbreviation dn :: "'d eval_ctx \<Rightarrow> 'd eval_ctx" where
  "dn c \<equiv> c\<lparr>cx_depth := cx_depth c + 1\<rparr>"

abbreviation up :: "'d \<Rightarrow> 'd eval_ctx \<Rightarrow> 'd res" where
  "up v c \<equiv> Got v (c\<lparr>cx_depth := cx_depth c - 1\<rparr>)"

lemma on_depth [simp]: "(on c s)\<lparr>cx_depth := n\<rparr> = on (c\<lparr>cx_depth := n\<rparr>) s"
  by simp

lemma up_dn: "rbind (emb x (on (dn c) r)) up = emb x (on c r)"
  by (cases x) simp_all

lemma primary_paren:
  assumes "cx_depth c < 64"
  shows "primary_body ops pe (on c (CHR ''('' # s)) = rbind (eval_parse_paren pe (on (dn c) (CHR ''('' # s))) up"
  using assms by (simp add: primary_body_def Let_def skip_pstart pstart_def MATHS_MAX_DEPTH_def)

lemma primary_ident:
  assumes "cx_depth c < 64" and "is_ident f"
  shows "primary_body ops pe (on c (f @ s)) = rbind (eval_parse_ident ops pe (on (dn c) (f @ s))) up"
proof -
  obtain x xs where f: "f = x # xs" "maths_is_ident_start x" using ident_start [OF assms(2)] by blast
  then have "x \<noteq> CHR ''(''" by (auto simp: maths_is_ident_start_def c_isalpha_def)
  with f assms(1) show ?thesis by (simp add: primary_body_def Let_def skip_pstart pstart_def MATHS_MAX_DEPTH_def)
qed

lemma primary_number:
  assumes "cx_depth c < 64" and "list_all c_isdigit ds" and "ds \<noteq> []" and "list_all c_isdigit fs"
    and "length ds + length fs + 1 < 64" and "sep r" and "t = (if fs = [] then [] else CHR ''.'' # fs)"
  shows "primary_body ops pe (on c (ds @ t @ r)) = Got (f_strtod ops (ds @ t)) (on c r)"
proof -
  obtain x xs where ds: "ds = x # xs" using assms(3) by (cases ds) auto
  have x: "c_isdigit x" using assms(2) ds by simp
  have sk: "skip_digits (d @ q) = q" if "list_all c_isdigit d" "q = [] \<or> \<not> c_isdigit (hd q)" for d q
    using that by (cases q) (simp_all add: skip_digits_def list_all_iff dropWhile_append3)
  have r: "r = [] \<or> \<not> c_isdigit (hd r) \<and> hd r \<notin> {CHR ''.'', CHR ''e'', CHR ''E''}" by (rule sep_not_digit_dot [OF assms(6)])
  have "num_mantissa (ds @ t @ r) = Some r"
  proof (cases "fs = []")
    case True
    then have "skip_digits (ds @ t @ r) = r" using sk [OF assms(2), of r] r assms(7) by auto
    then show ?thesis using r x ds by (auto simp: num_mantissa_def has_digit_def)
  next
    case False
    then have "skip_digits (ds @ t @ r) = CHR ''.'' # fs @ r"
      using sk [OF assms(2), of "CHR ''.'' # fs @ r"] assms(7) by (simp add: c_isdigit_def)
    moreover have "skip_digits (fs @ r) = r" using sk [OF assms(4), of r] r by auto
    ultimately show ?thesis using x ds by (simp add: num_mantissa_def has_digit_def)
  qed
  moreover have "num_exponent r = r" using r by (cases r) (auto simp: num_exponent_def)
  ultimately have num: "eval_parse_number ops (on (dn c) (ds @ t @ r)) = Some (f_strtod ops (ds @ t), on (dn c) r)"
    using assms(5,7) by (auto simp: eval_parse_number_def Let_def)
  have "\<not> maths_is_ident_start x" "x \<noteq> CHR ''(''" "maths_is_digit_char x" "pstart x"
    using x by (auto simp: maths_is_ident_start_def c_isalpha_def c_isdigit_def maths_is_digit_char_def pstart_def)
  with num assms(1) ds show ?thesis
    by (simp add: primary_body_def Let_def skip_pstart MATHS_MAX_DEPTH_def)
qed

lemma ident_const:
  assumes "sep r"
  shows "eval_parse_ident ops pe (on c (''pi'' @ r)) = Got (f_lit ops MATHS_PI) (on c r)"
    and "eval_parse_ident ops pe (on c (''e'' @ r)) = Got (f_lit ops MATHS_E) (on c r)"
    and "is_ident x \<Longrightarrow> x \<noteq> ''pi'' \<Longrightarrow> x \<noteq> ''e'' \<Longrightarrow> cx_var c = Some x \<Longrightarrow>
      eval_parse_ident ops pe (on c (x @ r)) = Got (cx_val c) (on c r)"
  using ident_split [OF name_idents(1) sep_not_ident [OF assms]] ident_split [OF name_idents(2) sep_not_ident [OF assms]]
    ident_split [OF _ sep_not_ident [OF assms], of x]
  by (simp_all add: eval_parse_ident_def Let_def)

lemma ident_call:
  assumes "is_ident f" and "f \<noteq> ''pi''" and "f \<noteq> ''e''" and "cx_var c \<noteq> Some f" and "eval_lookup_func f = Some (fn, ar)"
  shows "eval_parse_ident ops pe (on c (f @ CHR ''('' # s)) =
    (if ar = 1 then eval_call1 ops pe f fn (on c s) else if ar = - 2 then eval_call_log ops pe (on c s)
     else eval_call2 ops pe f ar (on c s))"
proof -
  have "CHR ''('' # s = [] \<or> \<not> maths_is_ident_char (hd (CHR ''('' # s))"
    by (simp add: maths_is_ident_char_def c_isalpha_def c_isdigit_def)
  note sp = ident_split [OF assms(1) this]
  show ?thesis
    using assms(2-5) by (simp add: eval_parse_ident_def Let_def sp eval_parse_call_def skip_pstart pstart_def)
qed

lemma take_rp: "eval_take_rp v (on c (CHR '')'' # r)) msg = Got v (on c r)"
  by (simp add: eval_take_rp_def Let_def skip_sep)

text \<open>The calls, once the arguments parse as their values.\<close>

lemma call_values:
  assumes "\<And>q. pe (on c (s @ CHR '')'' # q)) = emb x (on c (CHR '')'' # q))"
  shows "eval_call1 ops pe f fn (on c (s @ CHR '')'' # r)) = emb (vbind x (\<lambda>a. case fn of
      Some g \<Rightarrow> Inr (fn1_apply ops g a) | None \<Rightarrow> if f = ''factorial'' then vfact ops a else Inl ''unsupported function'')) (on c r)"
    and "eval_call_log ops pe (on c (s @ CHR '')'' # r)) = emb (vbind x (\<lambda>a. Inr (log_val ops a (f_lit ops 0)))) (on c r)"
  using assms [of r]
  by (cases x; cases fn; simp add: eval_call1_def eval_call_log_def take_rp eval_fact_emb Let_def skip_sep)+

lemma call2_values:
  assumes "\<And>q. pe (on c (s @ CHR '','' # q)) = emb x (on c (CHR '','' # q))"
    and "\<And>q. pe (on c (s' @ CHR '')'' # q)) = emb y (on c (CHR '')'' # q))"
  shows "eval_call2 ops pe f 2 (on c (s @ CHR '','' # s' @ CHR '')'' # r)) =
      emb (vbind x (\<lambda>a. vbind y (\<lambda>b. Inr (fn2_val ops f a b)))) (on c r)"
    and "eval_call_log ops pe (on c (s @ CHR '','' # s' @ CHR '')'' # r)) =
      emb (vbind x (\<lambda>a. vbind y (\<lambda>b. Inr (log_val ops a b)))) (on c r)"
  using assms(1) [of "s' @ CHR '')'' # r"] assms(2) [of r]
  by (cases x; cases y; simp add: eval_call2_def eval_call_log_def take_rp Let_def skip_sep)+

lemma paren_value:
  assumes "pe (on c (s @ CHR '')'' # r)) = emb x (on c (CHR '')'' # r))"
  shows "eval_parse_paren pe (on c (CHR ''('' # s @ CHR '')'' # r)) = emb x (on c r)"
  using assms by (cases x) (simp_all add: eval_parse_paren_def take_rp)

section \<open>The parser follows the grammar\<close>

definition bound_ctx :: "string option \<Rightarrow> 'd \<Rightarrow> nat \<Rightarrow> 'd eval_ctx \<Rightarrow> bool" where
  "bound_ctx var x k c \<longleftrightarrow> cx_var c = var \<and> cx_val c = x \<and> cx_depth c + k \<le> 64"

lemma bound_ctx_simps [simp]:
  "bound_ctx var x (max j k) c \<longleftrightarrow> bound_ctx var x j c \<and> bound_ctx var x k c"
  "bound_ctx var x (Suc k) c \<longleftrightarrow> cx_depth c < 64 \<and> bound_ctx var x k (c\<lparr>cx_depth := Suc (cx_depth c)\<rparr>)"
  by (auto simp: bound_ctx_def)

lemma bound_ctxD: "bound_ctx var x k c \<Longrightarrow> cx_var c = var" "bound_ctx var x k c \<Longrightarrow> cx_val c = x"
  by (simp_all add: bound_ctx_def)

lemma tbl1_lookup: "f \<in> set (map fst tbl1) \<Longrightarrow>
    eval_lookup_func f = Some (Some (the (map_of tbl1 f)), 1) \<and> f \<noteq> ''pi'' \<and> f \<noteq> ''e''"
  by (auto simp: tbl1_def eval_lookup_func_def)

lemma fn2_lookup: "f \<in> set fn2_names \<Longrightarrow> eval_lookup_func f = Some (None, 2) \<and> f \<noteq> ''pi'' \<and> f \<noteq> ''e''"
  by (auto simp: fn2_names_def eval_lookup_func_def tbl1_def tbl2_def)

lemma special_lookup: "eval_lookup_func ''log'' = Some (None, - 2)" "eval_lookup_func ''factorial'' = Some (None, 1)"
  by (simp_all add: eval_lookup_func_def tbl1_def tbl2_def)

text \<open>An argument followed by a closing parenthesis or a comma, from the statement for expressions.\<close>

lemma arg_value:
  assumes "pexpr ops (on c (s @ q # r)) = vloop y (\<lambda>v. pexpr_loop ops v (on c (q # r)))" and "q \<in> set ''),''"
  shows "pexpr ops (on c (s @ q # r)) = emb y (on c (q # r))"
  using assms loops_stop(2) [of "q # r" ops _ c] by (cases y) simp_all

lemma unary_power: "pstart a \<Longrightarrow> punary ops (on c (a # s)) = ppower ops (on c (a # s))"
  using pstart_not [of a] by (simp add: punary_eq Let_def skip_pstart)

lemma parse_derivation:
  fixes ops :: "('d, 'l) fops"
  shows "wf_prim var p \<Longrightarrow> (\<And>c r. bound_ctx var x (dp_prim p) c \<Longrightarrow> sep r \<Longrightarrow>
      pprimary ops (on c (show_prim p @ r)) = emb (val_prim ops x p) (on c r))"
    and "wf_pw var w \<Longrightarrow> (\<And>c r. bound_ctx var x (dp_pw w) c \<Longrightarrow> psep r \<Longrightarrow>
      ppower ops (on c (show_pw w @ r)) = emb (val_pw ops x w) (on c r))"
    and "wf_un var u \<Longrightarrow> (\<And>c r. bound_ctx var x (dp_un u) c \<Longrightarrow> psep r \<Longrightarrow>
      punary ops (on c (show_un u @ r)) = emb (val_un ops x u) (on c r))"
    and "wf_tm var t \<Longrightarrow> (\<And>c r. bound_ctx var x (dp_tm t) c \<Longrightarrow> psep r \<Longrightarrow>
      pterm ops (on c (show_tm t @ r)) = vloop (val_tm ops x t) (\<lambda>v. pterm_loop ops v (on c r)))"
    and "wf_ex var e \<Longrightarrow> (\<And>c r. bound_ctx var x (dp_ex e) c \<Longrightarrow> tsep r \<Longrightarrow>
      pexpr ops (on c (show_ex e @ r)) = vloop (val_ex ops x e) (\<lambda>v. pexpr_loop ops v (on c r)))"
proof (induction p and w and u and t and e)
  case (PNum ds fs)
  then show ?case
    using primary_number [of c ds fs r "if fs = [] then [] else CHR ''.'' # fs" ops "pexpr ops"]
    by (simp add: pprimary_eq split del: if_split)
next
  case PPi
  then show ?case
    using primary_ident [OF _ name_idents(1), of c ops "pexpr ops" r] ident_const(1) [of r ops "pexpr ops" "dn c"]
    by (simp add: pprimary_eq)
next
  case PE
  then show ?case
    using primary_ident [OF _ name_idents(2), of c ops "pexpr ops" r] ident_const(2) [of r ops "pexpr ops" "dn c"]
    by (simp add: pprimary_eq)
next
  case (PVar y)
  then show ?case
    using primary_ident [of c y ops "pexpr ops" r] ident_const(3) [of r y "dn c" ops "pexpr ops"]
    by (simp add: pprimary_eq bound_ctx_def)
next
  case (PParen e)
  then have "pexpr ops (on (dn c) (show_ex e @ CHR '')'' # r)) = emb (val_ex ops x e) (on (dn c) (CHR '')'' # r))"
    by (intro arg_value) simp_all
  with PParen show ?case
    using primary_paren [of c ops "pexpr ops"] paren_value [where pe = "pexpr ops" and c = "dn c"] up_dn [where c = c and r = r]
    by (simp add: pprimary_eq)
next
  case (PFn1 f e)
  then have a: "pexpr ops (on (dn c) (show_ex e @ CHR '')'' # q)) = emb (val_ex ops x e) (on (dn c) (CHR '')'' # q))" for q
    by (intro arg_value) simp_all
  have f: "is_ident f" "cx_var (dn c) \<noteq> Some f" "cx_depth c < 64"
    using PFn1 tbl1_ident [of f] by (auto dest: bound_ctxD)
  have l: "f \<noteq> ''pi''" "f \<noteq> ''e''" "eval_lookup_func f = Some (Some (the (map_of tbl1 f)), 1)"
    using PFn1 tbl1_lookup [of f] by auto
  show ?case
    using primary_ident [OF f(3,1), of ops "pexpr ops" "CHR ''('' # show_ex e @ CHR '')'' # r"]
      ident_call [OF f(1) l(1,2) f(2) l(3), of ops "pexpr ops" "show_ex e @ CHR '')'' # r"]
      call_values(1) [where pe = "pexpr ops", OF a, of ops f "Some (the (map_of tbl1 f))" r] up_dn [where c = c and r = r]
    by (simp add: pprimary_eq)
next
  case (PFact e)
  then have a: "pexpr ops (on (dn c) (show_ex e @ CHR '')'' # q)) = emb (val_ex ops x e) (on (dn c) (CHR '')'' # q))" for q
    by (intro arg_value) simp_all
  have f: "cx_var (dn c) \<noteq> Some ''factorial''" "cx_depth c < 64" using PFact by (auto dest: bound_ctxD)
  show ?case
    using primary_ident [OF f(2) name_idents(4), of ops "pexpr ops" "CHR ''('' # show_ex e @ CHR '')'' # r"]
      ident_call [OF name_idents(4) _ _ f(1) special_lookup(2), of ops "pexpr ops" "show_ex e @ CHR '')'' # r"]
      call_values(1) [where pe = "pexpr ops", OF a, of ops "''factorial''" None r] up_dn [where c = c and r = r]
    by (simp add: pprimary_eq)
next
  case (PLog e)
  then have a: "pexpr ops (on (dn c) (show_ex e @ CHR '')'' # q)) = emb (val_ex ops x e) (on (dn c) (CHR '')'' # q))" for q
    by (intro arg_value) simp_all
  have f: "cx_var (dn c) \<noteq> Some ''log''" "cx_depth c < 64" using PLog by (auto dest: bound_ctxD)
  show ?case
    using primary_ident [OF f(2) name_idents(3), of ops "pexpr ops" "CHR ''('' # show_ex e @ CHR '')'' # r"]
      ident_call [OF name_idents(3) _ _ f(1) special_lookup(1), of ops "pexpr ops" "show_ex e @ CHR '')'' # r"]
      call_values(2) [where pe = "pexpr ops", OF a, of ops r] up_dn [where c = c and r = r]
    by (simp add: pprimary_eq)
next
  case (PLogB a b)
  then have a: "pexpr ops (on (dn c) (show_ex a @ CHR '','' # q)) = emb (val_ex ops x a) (on (dn c) (CHR '','' # q))"
    "pexpr ops (on (dn c) (show_ex b @ CHR '')'' # q)) = emb (val_ex ops x b) (on (dn c) (CHR '')'' # q))" for q
    by (intro arg_value; simp)+
  have f: "cx_var (dn c) \<noteq> Some ''log''" "cx_depth c < 64" using PLogB by (auto dest: bound_ctxD)
  show ?case
    using primary_ident [OF f(2) name_idents(3), of ops "pexpr ops" "CHR ''('' # show_ex a @ CHR '','' # show_ex b @ CHR '')'' # r"]
      ident_call [OF name_idents(3) _ _ f(1) special_lookup(1), of ops "pexpr ops" "show_ex a @ CHR '','' # show_ex b @ CHR '')'' # r"]
      call2_values(2) [where pe = "pexpr ops", OF a, of ops r] up_dn [where c = c and r = r]
    by (simp add: pprimary_eq)
next
  case (PFn2 f a b)
  then have a: "pexpr ops (on (dn c) (show_ex a @ CHR '','' # q)) = emb (val_ex ops x a) (on (dn c) (CHR '','' # q))"
    "pexpr ops (on (dn c) (show_ex b @ CHR '')'' # q)) = emb (val_ex ops x b) (on (dn c) (CHR '')'' # q))" for q
    by (intro arg_value; simp)+
  have f: "is_ident f" "cx_var (dn c) \<noteq> Some f" "cx_depth c < 64"
    using PFn2 fn2_ident [of f] by (auto dest: bound_ctxD)
  have l: "f \<noteq> ''pi''" "f \<noteq> ''e''" "eval_lookup_func f = Some (None, 2)"
    using PFn2 fn2_lookup [of f] by auto
  show ?case
    using primary_ident [OF f(3,1), of ops "pexpr ops" "CHR ''('' # show_ex a @ CHR '','' # show_ex b @ CHR '')'' # r"]
      ident_call [OF f(1) l(1,2) f(2) l(3), of ops "pexpr ops" "show_ex a @ CHR '','' # show_ex b @ CHR '')'' # r"]
      call2_values(1) [where pe = "pexpr ops", OF a, of ops f r] up_dn [where c = c and r = r]
    by (simp add: pprimary_eq)
next
  case (PwPrim p)
  then have "pprimary ops (on c (show_prim p @ r)) = emb (val_prim ops x p) (on c r)" by (simp add: seps)
  moreover have "psep r \<Longrightarrow> r = [] \<or> hd r \<notin> {CHR ''^'', CHR ''!''}" by (auto simp: psep_def)
  ultimately show ?case
    using PwPrim(4) skip_sep [OF seps(3), of r c]
    by (cases r; cases "val_prim ops x p") (auto simp: ppower_eq Let_def)
next
  case (PwPow p w)
  then have "pprimary ops (on c (show_prim p @ CHR ''^'' # show_pw w @ r)) =
      emb (val_prim ops x p) (on c (CHR ''^'' # show_pw w @ r))" by simp
  with PwPow show ?case
    by (cases "val_prim ops x p"; cases "val_pw ops x w")
      (simp_all add: ppower_eq [of ops "on c (show_prim p @ q)" for q] Let_def skip_sep)
next
  case (PwFact p)
  then have "pprimary ops (on c (show_prim p @ CHR ''!'' # r)) = emb (val_prim ops x p) (on c (CHR ''!'' # r))" by simp
  then show ?case
    by (cases "val_prim ops x p") (simp_all add: ppower_eq Let_def skip_sep eval_fact_emb)
next
  case (UNeg u)
  then show ?case
    by (cases "val_un ops x u") (simp_all add: punary_eq [of ops "on c (CHR ''-'' # q)" for q] Let_def skip_sep)
next
  case (UPos u)
  then show ?case by (simp add: punary_eq [of ops "on c (CHR ''+'' # q)" for q] Let_def skip_sep)
next
  case (UPow w)
  then obtain a s where "show_pw w = a # s" "pstart a" using show_start(2) [of var w] by auto
  with UPow show ?case using unary_power [where a = a and ops = ops and c = c and s = "s @ r"] by simp
next
  case (TUn u)
  then show ?case by (simp add: pterm_eq rbind_emb)
next
  case (TMul t u)
  then show ?case
    by (cases "val_tm ops x t"; cases "val_un ops x u")
      (simp_all add: pterm_loop_eq [of ops _ "on c (CHR ''*'' # q)" for q] Let_def skip_sep)
next
  case (TDiv t u)
  then show ?case
    by (cases "val_tm ops x t"; cases "val_un ops x u")
      (simp_all add: pterm_loop_eq [of ops _ "on c (CHR ''/'' # q)" for q] Let_def skip_sep)
next
  case (TMod t u)
  then show ?case
    by (cases "val_tm ops x t"; cases "val_un ops x u")
      (simp_all add: pterm_loop_eq [of ops _ "on c (CHR ''%'' # q)" for q] Let_def skip_sep)
next
  case (ETm t)
  then show ?case
    by (cases "val_tm ops x t") (simp_all add: pexpr_eq seps loops_stop)
next
  case (EAdd e t)
  then show ?case
    by (cases "val_ex ops x e"; cases "val_tm ops x t")
      (simp_all add: pexpr_loop_eq [of ops _ "on c (CHR ''+'' # q)" for q] Let_def skip_sep seps loops_stop)
next
  case (ESub e t)
  then show ?case
    by (cases "val_ex ops x e"; cases "val_tm ops x t")
      (simp_all add: pexpr_loop_eq [of ops _ "on c (CHR ''-'' # q)" for q] Let_def skip_sep seps loops_stop)
qed

lemma ident_chars_ok: "list_all maths_is_ident_char f \<Longrightarrow> list_all maths_char_ok f"
  by (erule list.pred_mono_strong) (unfold maths_is_ident_char_def maths_char_ok_def, elim disjE, simp_all)

lemma digits_ok: "list_all c_isdigit f \<Longrightarrow> list_all maths_char_ok f"
  by (erule list.pred_mono_strong) (simp add: maths_char_ok_def)

lemma is_ident_ok: "is_ident f \<Longrightarrow> list_all maths_char_ok f"
  by (simp add: is_ident_def ident_chars_ok)

lemma literal_ok: "maths_char_ok CHR ''+''" "maths_char_ok CHR ''-''" "maths_char_ok CHR ''*''" "maths_char_ok CHR ''/''"
  "maths_char_ok CHR ''%''" "maths_char_ok CHR ''^''" "maths_char_ok CHR ''!''" "maths_char_ok CHR ''(''"
  "maths_char_ok CHR '')''" "maths_char_ok CHR '',''" "maths_char_ok CHR ''.''" "maths_char_ok CHR ''f''"
  "maths_char_ok CHR ''a''" "maths_char_ok CHR ''c''" "maths_char_ok CHR ''t''" "maths_char_ok CHR ''o''"
  "maths_char_ok CHR ''r''" "maths_char_ok CHR ''i''" "maths_char_ok CHR ''l''" "maths_char_ok CHR ''g''"
  "maths_char_ok CHR ''p''" "maths_char_ok CHR ''e''"
  by (simp_all add: maths_char_ok_def c_isalpha_def)

lemma fn_names_ok: "f \<in> set (map fst tbl1) \<Longrightarrow> list_all maths_char_ok f"
  "f \<in> set fn2_names \<Longrightarrow> list_all maths_char_ok f"
  using is_ident_ok tbl1_ident fn2_ident by blast+

lemma show_charset:
  "wf_prim var p \<Longrightarrow> list_all maths_char_ok (show_prim p)" "wf_pw var w \<Longrightarrow> list_all maths_char_ok (show_pw w)"
  "wf_un var u \<Longrightarrow> list_all maths_char_ok (show_un u)" "wf_tm var t \<Longrightarrow> list_all maths_char_ok (show_tm t)"
  "wf_ex var e \<Longrightarrow> list_all maths_char_ok (show_ex e)"
proof (induction p and w and u and t and e)
  case (PNum ds fs)
  then show ?case using digits_ok [of ds] digits_ok [of fs] by (simp add: literal_ok)
next
  case (PVar f)
  then show ?case using is_ident_ok [of f] by simp
next
  case (PFn1 f e)
  then show ?case using fn_names_ok(1) [of f] by (simp add: literal_ok)
next
  case (PFn2 f a b)
  then show ?case using fn_names_ok(2) [of f] by (simp add: literal_ok)
qed (simp_all add: literal_ok)

lemma show_nonempty: "wf_un var u \<Longrightarrow> show_un u \<noteq> []" "wf_tm var t \<Longrightarrow> show_tm t \<noteq> []" "wf_ex var e \<Longrightarrow> show_ex e \<noteq> []"
proof -
  have u: "wf_un var u \<Longrightarrow> show_un u \<noteq> []" for u using show_start(2) [of var] by (cases u) fastforce+
  moreover have t: "wf_tm var t \<Longrightarrow> show_tm t \<noteq> []" for t using u by (cases t) auto
  moreover have "wf_ex var e \<Longrightarrow> show_ex e \<noteq> []" for e using t by (cases e) auto
  ultimately show "wf_un var u \<Longrightarrow> show_un u \<noteq> []" "wf_tm var t \<Longrightarrow> show_tm t \<noteq> []" "wf_ex var e \<Longrightarrow> show_ex e \<noteq> []"
    by blast+
qed

text \<open>
  C10. The evaluator implements its grammar. For every derivation of the grammar (with precedence, the
  associativity of the operators, function calls, constants and the bound variable), whose primaries
  nest at most 64 deep and whose text has at most 4096 characters, evaluating the text gives the value
  of the derivation under the given arithmetic if that value is finite, and otherwise the first error
  from left to right: division or modulo by zero, a factorial out of its domain, or a result that is
  not finite.
\<close>

theorem maths_eval_grammar:
  assumes "wf_ex var e" and "dp_ex e \<le> 64" and "length (show_ex e) \<le> 4096"
  shows "maths_d_eval_at ops (show_ex e) var x =
    Some (case val_ex ops x e of
       Inl msg \<Rightarrow> Maths_Err msg
     | Inr v \<Rightarrow> if f_finite ops v then Maths_Ok v else Maths_Err ''result is not finite (NaN/Inf)'')"
proof -
  let ?c = "\<lparr>cx_s = show_ex e, cx_depth = 0, cx_var = var, cx_val = x\<rparr>"
  have "bound_ctx var x (dp_ex e) ?c" using assms(2) by (simp add: bound_ctx_def)
  moreover have "?c = on ?c (show_ex e @ [])" by simp
  ultimately have "pexpr ops ?c = vloop (val_ex ops x e) (\<lambda>v. pexpr_loop ops v (on ?c []))"
    using parse_derivation(5) [OF assms(1), of x ?c "[]" ops] by (simp add: tsep_def)
  then have p: "pexpr ops ?c = emb (val_ex ops x e) (on ?c [])"
    using loops_stop(2) [of "[]" ops _ ?c] by (cases "val_ex ops x e") (simp_all add: esep_def)
  have "eval_parse_expr ops (eval_fuel (show_ex e)) ?c = pexpr ops ?c" using eval_fuel_enough [of ops ?c] by simp
  moreover have "maths_charset_ok (show_ex e)"
    using assms show_charset(5) show_nonempty(3) by (simp add: maths_charset_ok_def MATHS_MAX_EXPR_LEN_def)
  ultimately show ?thesis
    using p by (cases "val_ex ops x e") (simp_all add: maths_d_eval_at_def eval_skip_ws_def Let_def)
qed

text \<open>An arithmetic on rationals, with \<open>strtod\<close> for plain digits.\<close>

definition example_ops :: "(rat, rat) fops" where
  "example_ops =
     \<lparr>f_lit = (\<lambda>q. q), f_neg = uminus, f_add = (+), f_sub = (-), f_mul = (*), f_div = (/), f_lt = (<), f_eq = (=),
      f_libm1 = (\<lambda>f a. if f = ''fabs'' then abs a else 0), f_libm2 = (\<lambda>f a b. if f = ''pow'' then a ^ nat \<lfloor>b\<rfloor> else 0),
      f_strtod = (\<lambda>s. of_int (fst (c_digits 0 s))), f_to_ll = floor, f_of_ll = of_int, f_finite = (\<lambda>_. True),
      l_lit = (\<lambda>q. q), l_of_ll = of_int, l_mul = (*), l_to_d = (\<lambda>q. q)\<rparr>"

abbreviation "num s \<equiv> UPow (PwPrim (PNum s []))"

theorem maths_eval_grammar_witness:
  "maths_d_eval example_ops ''2-3*4^2/8-1'' = Some (Maths_Ok (- 5))"
proof -
  let ?e = "ESub (ESub (ETm (TUn (num ''2'')))
    (TDiv (TMul (TUn (num ''3'')) (UPow (PwPow (PNum ''4'' []) (PwPrim (PNum ''2'' []))))) (num ''8''))) (TUn (num ''1''))"
  have "wf_ex None ?e" by (simp add: c_isdigit_def)
  from maths_eval_grammar [OF this, of example_ops 0] show ?thesis
    by (simp add: maths_d_eval_def example_ops_def c_isdigit_def c_digit_val_def)
qed

text \<open>
  The grammar in the comment of \<open>expr_eval.c\<close> has \<open>power := primary ('^' unary)?\<close>, by which a signed exponent
  is derivable; the code parses the exponent with \<open>eval_parse_power\<close> and rejects it.
\<close>

lemma signed_exponent_rejected: "maths_d_eval ops ''2^-1'' = Some (Maths_Err ''unexpected token'')"
proof -
  let ?c = "\<lparr>cx_s = ''2^-1'', cx_depth = 0, cx_var = None, cx_val = f_lit ops 0\<rparr>"
  have "pprimary ops (on ?c (show_prim (PNum ''2'' []) @ ''^-1'')) =
      emb (val_prim ops (f_lit ops 0) (PNum ''2'' [])) (on ?c ''^-1'')"
    by (rule parse_derivation(1) [where var = None]) (simp_all add: c_isdigit_def bound_ctx_def)
  moreover have "pprimary ops (on ?c ''-1'') = Fail ''unexpected token''"
    by (simp add: pprimary_eq primary_body_def eval_skip_ws_def Let_def MATHS_MAX_DEPTH_def peek_def
        maths_is_ident_start_def c_isalpha_def maths_is_digit_char_def c_isdigit_def)
  ultimately have "ppower ops (on ?c ''2^-1'') = Fail ''unexpected token''"
    by (subst ppower_eq, simp add: Let_def eval_skip_ws_def peek_def adv_def, subst ppower_eq, simp)
  then have "pexpr ops ?c = Fail ''unexpected token''"
    using unary_power [where a = "CHR ''2''" and ops = ops and c = ?c and s = "''^-1''"]
    by (simp add: pexpr_eq pterm_eq pstart_def c_isdigit_def)
  then show ?thesis
    using eval_fuel_enough [of ops ?c]
    by (simp add: maths_d_eval_def maths_d_eval_at_def maths_charset_ok_def maths_char_ok_def c_isdigit_def
        MATHS_MAX_EXPR_LEN_def)
qed

end
