(* ===== verification/Agent_Stream.thy ===== *)
theory Agent_Stream
  imports Complex_Main Airy_Prelude
begin

text \<open>
  agent_d, the stream of a model's answer (\<open>run/agent_run_stream.c\<close>): plain bytes are text, frames
  between record separators carry tool calls, reasoning, usage and errors. The payloads may cut the
  stream anywhere.

  Buffers are lists; a buffer that was never written is the empty list. The texts pushed to the client
  are kept in \<open>st_out\<close>, oldest first. The test for a tag, the limit of a frame and the JSON parser are
  outside the repository and appear in \<open>stream_env\<close>; costs are exact rationals. Allocation failure is
  not modelled.
\<close>

section \<open>Data\<close>

record usage_obj =
  uo_prompt :: "rat option"
  uo_completion :: "rat option"
  uo_total :: "rat option"
  uo_cost :: "rat option"

record 'j stream_env =
  sn_is_tag :: "char \<Rightarrow> bool"
  sn_frame_max :: nat
  sn_tools :: "string \<Rightarrow> 'j list option"
  sn_usage :: "string \<Rightarrow> usage_obj option"
  sn_error :: "string \<Rightarrow> int option \<times> string option"

text \<open>
  The state of a stream. \<open>st_out\<close> is what was pushed to the client so far; \<open>st_errs\<close> is a history variable,
  the number of error frames taken (no code reads it).
\<close>

record 'j agent_stream =
  st_text :: string
  st_sent :: nat
  st_reason :: string
  st_frame :: string
  st_tag :: "char option"
  st_dropped :: nat
  st_prev_rs :: bool
  st_tools :: "'j list option"
  st_tokens :: "64 word"
  st_cost :: rat
  st_error_code :: int
  st_error_msg :: string
  st_out :: "string list"
  st_errs :: nat

record 'j stream_result =
  sr_text :: string
  sr_reason :: "string option"
  sr_tools :: "'j list option"
  sr_tokens :: "64 word"
  sr_cost :: rat
  sr_error_code :: int
  sr_error_msg :: string

definition LLM_RS :: char where "LLM_RS = CHR 0x1E"
definition TAG_TOOL :: char where "TAG_TOOL = CHR ''T''"
definition TAG_REASON :: char where "TAG_REASON = CHR ''R''"
definition TAG_USAGE :: char where "TAG_USAGE = CHR ''U''"
definition TAG_ERROR :: char where "TAG_ERROR = CHR ''E''"
definition AGENT_STREAM_ERR_LEN :: nat where "AGENT_STREAM_ERR_LEN = 256"

section \<open>Text\<close>

definition cont_byte :: "char \<Rightarrow> bool" where
  "cont_byte c \<longleftrightarrow> 128 \<le> (of_char c :: nat) \<and> (of_char c :: nat) < 192"

definition utf8_need :: "char \<Rightarrow> nat" where
  "utf8_need c =
     (let b = (of_char c :: nat)
      in if 192 \<le> b \<and> b < 224 then 2 else if 224 \<le> b \<and> b < 240 then 3 else if 240 \<le> b \<and> b < 248 then 4 else 1)"

text \<open>The scan from the end: \<open>n\<close> continuation bytes seen, the rest in reverse.\<close>

fun utf8_tail_from :: "nat \<Rightarrow> string \<Rightarrow> nat" where
  "utf8_tail_from n [] = n"
| "utf8_tail_from n (c # cs) =
     (if 4 \<le> n then n
      else if cont_byte c then utf8_tail_from (n + 1) cs
      else if n + 1 < utf8_need c then n + 1 else 0)"

definition run_utf8_tail :: "string \<Rightarrow> nat" where
  "run_utf8_tail s = utf8_tail_from 0 (rev s)"

definition run_emit_text :: "'j agent_stream \<Rightarrow> string \<Rightarrow> 'j agent_stream" where
  "run_emit_text st data =
     (if data = [] then st
      else let text = st_text st @ data; safe = length text - run_utf8_tail text
           in if safe \<le> st_sent st then st\<lparr>st_text := text\<rparr>
              else st\<lparr>st_text := text, st_sent := safe,
                      st_out := st_out st @ [take (safe - st_sent st) (drop (st_sent st) text)]\<rparr>)"

section \<open>Frames\<close>

definition run_take_tools :: "'j stream_env \<Rightarrow> 'j agent_stream \<Rightarrow> 'j agent_stream" where
  "run_take_tools env st = (case sn_tools env (st_frame st) of None \<Rightarrow> st | Some arr \<Rightarrow> st\<lparr>st_tools := Some arr\<rparr>)"

definition pos_part :: "rat option \<Rightarrow> 64 word" where
  "pos_part x = (case x of None \<Rightarrow> 0 | Some v \<Rightarrow> if 0 < v then of_int \<lfloor>v\<rfloor> else 0)"

definition run_take_usage :: "'j stream_env \<Rightarrow> 'j agent_stream \<Rightarrow> 'j agent_stream" where
  "run_take_usage env st =
     (case sn_usage env (st_frame st) of
        None \<Rightarrow> st
      | Some u \<Rightarrow>
          (let total = pos_part (uo_total u);
               total = (if total = 0 then pos_part (uo_prompt u) + pos_part (uo_completion u) else total);
               st = (if 0 < total then st\<lparr>st_tokens := total\<rparr> else st)
           in case uo_cost u of None \<Rightarrow> st | Some c \<Rightarrow> st\<lparr>st_cost := c\<rparr>))"

definition run_take_error :: "'j stream_env \<Rightarrow> 'j agent_stream \<Rightarrow> 'j agent_stream" where
  "run_take_error env st =
     (let (code, msg) = sn_error env (st_frame st)
      in st\<lparr>st_error_code := (case code of Some c \<Rightarrow> c | None \<Rightarrow> -32602),
            st_error_msg := snprintf_s AGENT_STREAM_ERR_LEN (case msg of Some m \<Rightarrow> m | None \<Rightarrow> ''LLM stream error''),
            st_text := [], st_sent := 0, st_reason := [], st_tools := None, st_errs := st_errs st + 1\<rparr>)"

definition run_frame_dispatch :: "'j stream_env \<Rightarrow> 'j agent_stream \<Rightarrow> 'j agent_stream" where
  "run_frame_dispatch env st =
     (let st' = (if 0 < st_dropped st then st
                 else if st_frame st = [] then st
                 else if st_tag st = Some TAG_TOOL then run_take_tools env st
                 else if st_tag st = Some TAG_REASON then st\<lparr>st_reason := st_reason st @ st_frame st\<rparr>
                 else if st_tag st = Some TAG_USAGE then run_take_usage env st
                 else if st_tag st = Some TAG_ERROR then run_take_error env st
                 else st)
      in st'\<lparr>st_tag := None, st_frame := [], st_dropped := 0\<rparr>)"

definition frame_push :: "'j stream_env \<Rightarrow> 'j agent_stream \<Rightarrow> char \<Rightarrow> 'j agent_stream" where
  "frame_push env st c =
     (if st_dropped st = 0 \<and> length (st_frame st) + 1 < sn_frame_max env then st\<lparr>st_frame := st_frame st @ [c]\<rparr>
      else st\<lparr>st_dropped := st_dropped st + 1\<rparr>)"

fun run_frame_drain :: "'j stream_env \<Rightarrow> 'j agent_stream \<Rightarrow> string \<Rightarrow> 'j agent_stream \<times> string" where
  "run_frame_drain env st [] = (st, [])"
| "run_frame_drain env st (c # cs) =
     (if st_tag st = None then (st, c # cs)
      else if c = LLM_RS then run_frame_drain env (run_frame_dispatch env st) cs
      else run_frame_drain env (frame_push env st c) cs)"

section \<open>Feeding a payload\<close>

definition agent_stream_init :: "'j agent_stream" where
  "agent_stream_init =
     \<lparr>st_text = [], st_sent = 0, st_reason = [], st_frame = [], st_tag = None, st_dropped = 0, st_prev_rs = False,
      st_tools = None, st_tokens = 0, st_cost = 0, st_error_code = 0, st_error_msg = [], st_out = [], st_errs = 0\<rparr>"

lemma drain_length: "length (snd (run_frame_drain env st cs)) \<le> length cs"
  by (induction env st cs rule: run_frame_drain.induct) auto

text \<open>The main loop: \<open>seg\<close> is the text since \<open>start\<close>, in reverse.\<close>

function feed_loop :: "'j stream_env \<Rightarrow> 'j agent_stream \<Rightarrow> string \<Rightarrow> string \<Rightarrow> 'j agent_stream" where
  "feed_loop env st seg [] = run_emit_text st (rev seg)"
| "feed_loop env st seg [c] =
     (if c = LLM_RS then (run_emit_text st (rev seg))\<lparr>st_prev_rs := True\<rparr> else run_emit_text st (rev (c # seg)))"
| "feed_loop env st seg (c # d # ds) =
     (if c \<noteq> LLM_RS then feed_loop env st (c # seg) (d # ds)
      else if sn_is_tag env d
      then (case run_frame_drain env ((run_emit_text st (rev seg))\<lparr>st_tag := Some d\<rparr>) ds of
              (st, rest) \<Rightarrow> if st_tag st \<noteq> None then st else feed_loop env st [] rest)
      else feed_loop env (run_emit_text (run_emit_text st (rev seg)) [c, d]) [] ds)"
  by pat_completeness auto
termination
proof (relation "measure (\<lambda>(env, st, seg, data). length data)", goal_cases)
  case (3 env st seg c d ds x rest)
  then show ?case using drain_length [of env _ ds] by (metis (no_types, lifting) Pair_inject in_measure case_prod_conv le_imp_less_Suc le_SucI length_Cons snd_conv)
qed auto

text \<open>After a frame left over from the last payload: the separator left over from it, then the loop.\<close>

definition feed_rest :: "'j stream_env \<Rightarrow> 'j agent_stream \<Rightarrow> string \<Rightarrow> 'j agent_stream" where
  "feed_rest env st rest =
     (if st_prev_rs st
      then let st = st\<lparr>st_prev_rs := False\<rparr>
           in if sn_is_tag env (hd rest)
              then (let (st, rest) = run_frame_drain env (st\<lparr>st_tag := Some (hd rest)\<rparr>) (tl rest)
                    in if st_tag st \<noteq> None \<or> rest = [] then st else feed_loop env st [] rest)
              else feed_loop env (run_emit_text st [LLM_RS]) [] rest
      else feed_loop env st [] rest)"

definition agent_stream_feed :: "'j stream_env \<Rightarrow> 'j agent_stream \<Rightarrow> string \<Rightarrow> 'j agent_stream" where
  "agent_stream_feed env st data =
     (if data = [] then st
      else let (st, rest) = (if st_tag st \<noteq> None then run_frame_drain env st data else (st, data))
           in if st_tag st \<noteq> None \<or> rest = [] then st else feed_rest env st rest)"

definition agent_stream_finish :: "'j agent_stream \<Rightarrow> 'j agent_stream" where
  "agent_stream_finish st =
     (let st = (if st_tag st \<noteq> None then st\<lparr>st_tag := None, st_frame := [], st_dropped := 0\<rparr> else st);
          st = (if st_prev_rs st then run_emit_text (st\<lparr>st_prev_rs := False\<rparr>) [LLM_RS] else st)
      in if st_sent st < length (st_text st)
         then st\<lparr>st_out := st_out st @ [drop (st_sent st) (st_text st)], st_sent := length (st_text st)\<rparr>
         else st)"

definition agent_stream_take :: "'j agent_stream \<Rightarrow> 'j stream_result" where
  "agent_stream_take st =
     \<lparr>sr_text = st_text st, sr_reason = (if st_reason st = [] then None else Some (st_reason st)), sr_tools = st_tools st,
      sr_tokens = st_tokens st, sr_cost = st_cost st, sr_error_code = st_error_code st,
      sr_error_msg = snprintf_s AGENT_STREAM_ERR_LEN (st_error_msg st)\<rparr>"

section \<open>The stream byte by byte\<close>

text \<open>
  The reference: one byte at a time, without what has been pushed so far. It is a function of the
  bytes, so what the code makes of them does not depend on how they were cut.
\<close>

definition stream_core :: "'j agent_stream \<Rightarrow> 'j agent_stream" where
  "stream_core st = st\<lparr>st_out := [], st_sent := 0\<rparr>"

definition add_text :: "'j agent_stream \<Rightarrow> string \<Rightarrow> 'j agent_stream" where
  "add_text st d = st\<lparr>st_text := st_text st @ d\<rparr>"

definition ref_step :: "'j stream_env \<Rightarrow> 'j agent_stream \<Rightarrow> char \<Rightarrow> 'j agent_stream" where
  "ref_step env s c =
     (if st_tag s \<noteq> None then (if c = LLM_RS then stream_core (run_frame_dispatch env s) else frame_push env s c)
      else if st_prev_rs s
      then (let s = s\<lparr>st_prev_rs := False\<rparr>
            in if sn_is_tag env c then s\<lparr>st_tag := Some c\<rparr>
               else if c = LLM_RS then (add_text s [LLM_RS])\<lparr>st_prev_rs := True\<rparr>
               else add_text s [LLM_RS, c])
      else if c = LLM_RS then s\<lparr>st_prev_rs := True\<rparr>
      else add_text s [c])"

text \<open>Outside a frame no separator follows another one at once.\<close>

fun clean :: "'j stream_env \<Rightarrow> 'j agent_stream \<Rightarrow> string \<Rightarrow> bool" where
  "clean env s [] = True"
| "clean env s (c # cs) = (\<not> (st_tag s = None \<and> st_prev_rs s \<and> c = LLM_RS) \<and> clean env (ref_step env s c) cs)"

lemma clean_append: "clean env s (a @ b) = (clean env s a \<and> clean env (foldl (ref_step env) s a) b)"
  by (induction a arbitrary: s) auto

lemma core_fields [simp]:
  "st_tag (stream_core st) = st_tag st" "st_prev_rs (stream_core st) = st_prev_rs st" "st_text (stream_core st) = st_text st"
  "st_frame (stream_core st) = st_frame st" "st_dropped (stream_core st) = st_dropped st" "stream_core (stream_core st) = stream_core st"
  by (simp_all add: stream_core_def)

lemma core_updates [simp]:
  "stream_core (st\<lparr>st_tag := t\<rparr>) = (stream_core st)\<lparr>st_tag := t\<rparr>" "stream_core (st\<lparr>st_prev_rs := b\<rparr>) = (stream_core st)\<lparr>st_prev_rs := b\<rparr>"
  by (simp_all add: stream_core_def)

lemma core_emit: "stream_core (run_emit_text st d) = add_text (stream_core st) d"
  by (simp add: run_emit_text_def stream_core_def add_text_def Let_def)

lemma emit_fields [simp]:
  "st_tag (run_emit_text st d) = st_tag st" "st_prev_rs (run_emit_text st d) = st_prev_rs st"
  "st_text (run_emit_text st d) = st_text st @ d" "st_reason (run_emit_text st d) = st_reason st"
  "st_tools (run_emit_text st d) = st_tools st" "st_tokens (run_emit_text st d) = st_tokens st"
  "st_cost (run_emit_text st d) = st_cost st" "st_error_code (run_emit_text st d) = st_error_code st"
  "st_error_msg (run_emit_text st d) = st_error_msg st"
  by (simp_all add: run_emit_text_def Let_def)

lemma prev_same: "\<not> st_prev_rs s \<Longrightarrow> s\<lparr>st_prev_rs := False\<rparr> = s"
  by (cases s) simp

lemma add_text_fields [simp]: "st_tag (add_text st d) = st_tag st" "st_prev_rs (add_text st d) = st_prev_rs st"
  "add_text st [] = st" "add_text (add_text st a) b = add_text st (a @ b)"
  by (simp_all add: add_text_def)

lemma core_push: "stream_core (frame_push env st c) = frame_push env (stream_core st) c"
  by (simp add: frame_push_def stream_core_def)

lemma core_dispatch: "stream_core (run_frame_dispatch env (stream_core st)) = stream_core (run_frame_dispatch env st)"
  by (simp add: run_frame_dispatch_def run_take_tools_def run_take_usage_def run_take_error_def stream_core_def Let_def
      split: option.split prod.split)

lemma dispatch_fields [simp]:
  "st_tag (run_frame_dispatch env st) = None" "st_prev_rs (run_frame_dispatch env st) = st_prev_rs st"
  by (simp_all add: run_frame_dispatch_def run_take_tools_def run_take_usage_def run_take_error_def Let_def
      split: option.split prod.split)

lemma push_fields [simp]: "st_tag (frame_push env st c) = st_tag st" "st_prev_rs (frame_push env st c) = st_prev_rs st"
  by (simp_all add: frame_push_def)

lemma drain_law:
  "foldl (ref_step env) (stream_core st) cs = foldl (ref_step env) (stream_core (fst (run_frame_drain env st cs))) (snd (run_frame_drain env st cs)) \<and>
   st_prev_rs (fst (run_frame_drain env st cs)) = st_prev_rs st \<and>
   (st_tag (fst (run_frame_drain env st cs)) \<noteq> None \<longrightarrow> snd (run_frame_drain env st cs) = []) \<and>
   (clean env (stream_core st) cs \<longrightarrow> clean env (stream_core (fst (run_frame_drain env st cs))) (snd (run_frame_drain env st cs)))"
proof (induction env st cs rule: run_frame_drain.induct)
  case (1 env st)
  then show ?case by simp
next
  case (2 env st c cs)
  show ?case
  proof (cases "st_tag st = None")
    case True
    then show ?thesis by simp
  next
    case False
    then have r: "ref_step env (stream_core st) c = stream_core (if c = LLM_RS then run_frame_dispatch env st else frame_push env st c)"
      by (simp add: ref_step_def core_push core_dispatch)
    show ?thesis
    proof (cases "c = LLM_RS")
      case True
      with r have "ref_step env (stream_core st) LLM_RS = stream_core (run_frame_dispatch env st)" by simp
      with 2(1) [OF False True] False True show ?thesis by auto
    next
      case c: False
      with r have "ref_step env (stream_core st) c = stream_core (frame_push env st c)" by simp
      with 2(2) [OF False c] False c show ?thesis by auto
    qed
  qed
qed

text \<open>The loop over a payload, started outside a frame.\<close>

lemma feed_loop_law:
  assumes "st_tag st = None" and "\<not> st_prev_rs st" and "clean env (add_text (stream_core st) (rev seg)) data"
  shows "stream_core (feed_loop env st seg data) = foldl (ref_step env) (add_text (stream_core st) (rev seg)) data"
  using assms
proof (induction env st seg data rule: feed_loop.induct)
  case (1 env st seg)
  then show ?case by (simp add: core_emit)
next
  case (2 env st seg c)
  then show ?case by (auto simp: core_emit ref_step_def)
next
  case (3 env st seg c d ds)
  let ?s = "add_text (stream_core st) (rev seg)"
  show ?case
  proof (cases "c = LLM_RS")
    case False
    then have "ref_step env ?s c = add_text (stream_core st) (rev (c # seg))" using "3.prems" by (simp add: ref_step_def)
    with "3.IH"(1) [OF False] "3.prems" False show ?thesis by simp
  next
    case True
    show ?thesis
    proof (cases "sn_is_tag env d")
      case tag: True
      let ?t = "(run_emit_text st (rev seg))\<lparr>st_tag := Some d\<rparr>"
      obtain st' rest where dr: "run_frame_drain env ?t ds = (st', rest)" by fastforce
      have two: "ref_step env (ref_step env ?s c) d = stream_core ?t"
        using "3.prems" True tag by (simp add: ref_step_def core_emit Let_def)
      have cl: "clean env (stream_core ?t) ds" using "3.prems"(3) True two by simp
      note d = drain_law [of env ?t ds, unfolded dr fst_conv snd_conv]
      show ?thesis
      proof (cases "st_tag st' = None")
        case none: True
        have "stream_core (feed_loop env st' [] rest) = foldl (ref_step env) (stream_core st') rest"
          using "3.IH"(2) [OF _ tag dr [symmetric]] True none d cl "3.prems"(2) by simp
        then show ?thesis using True tag dr none d two by simp
      next
        case False
        with d True tag dr two show ?thesis by simp
      qed
    next
      case no: False
      let ?t = "run_emit_text (run_emit_text st (rev seg)) [c, d]"
      have ne: "d \<noteq> LLM_RS" using "3.prems" True by (auto simp: ref_step_def)
      have two: "ref_step env (ref_step env ?s c) d = stream_core ?t"
        using "3.prems" True no ne by (simp add: ref_step_def core_emit prev_same Let_def)
      have "stream_core (feed_loop env ?t [] ds) = foldl (ref_step env) (stream_core ?t) ds"
        using "3.IH"(3) [OF _ no] True "3.prems" two by simp
      then show ?thesis using True no two by simp
    qed
  qed
qed

lemma feed_law:
  assumes "st_tag st = None \<or> \<not> st_prev_rs st" and "clean env (stream_core st) data"
  shows "stream_core (agent_stream_feed env st data) = foldl (ref_step env) (stream_core st) data"
proof (cases "data = []")
  case True
  then show ?thesis by (simp add: agent_stream_feed_def)
next
  case ne: False
  define p where "p = (if st_tag st \<noteq> None then run_frame_drain env st data else (st, data))"
  obtain s1 rest where p: "p = (s1, rest)" by fastforce
  have d: "foldl (ref_step env) (stream_core st) data = foldl (ref_step env) (stream_core s1) rest" "clean env (stream_core s1) rest"
    "st_tag s1 \<noteq> None \<longrightarrow> rest = []" "st_prev_rs s1 = st_prev_rs st"
    using drain_law [of env st data] assms(2) p by (auto simp: p_def split: if_splits)
  have f: "agent_stream_feed env st data =
      (if st_tag s1 \<noteq> None \<or> rest = [] then s1
       else if st_prev_rs s1
       then let st = s1\<lparr>st_prev_rs := False\<rparr>
            in if sn_is_tag env (hd rest)
               then (let (st, rest) = run_frame_drain env (st\<lparr>st_tag := Some (hd rest)\<rparr>) (tl rest)
                     in if st_tag st \<noteq> None \<or> rest = [] then st else feed_loop env st [] rest)
               else feed_loop env (run_emit_text st [LLM_RS]) [] rest
       else feed_loop env s1 [] rest)"
    using ne p by (simp add: agent_stream_feed_def feed_rest_def p_def)
  show ?thesis
  proof (cases "st_tag s1 \<noteq> None \<or> rest = []")
    case True
    with f d show ?thesis by auto
  next
    case False
    then obtain c cs where r: "rest = c # cs" and t1: "st_tag s1 = None" by (cases rest) auto
    show ?thesis
    proof (cases "st_prev_rs s1")
      case no: False
      have "stream_core (feed_loop env s1 [] rest) = foldl (ref_step env) (stream_core s1) rest"
        using feed_loop_law [OF t1 no, of env "[]" rest] d(2) by simp
      with f d(1) False no show ?thesis by simp
    next
      case prev: True
      show ?thesis
      proof (cases "sn_is_tag env c")
        case tag: True
        let ?t = "s1\<lparr>st_prev_rs := False, st_tag := Some c\<rparr>"
        obtain s2 rest2 where dr: "run_frame_drain env ?t cs = (s2, rest2)" by fastforce
        have one: "ref_step env (stream_core s1) c = stream_core ?t" using prev tag t1 by (simp add: ref_step_def Let_def)
        note d2 = drain_law [of env ?t cs, unfolded dr fst_conv snd_conv]
        have cl: "clean env (stream_core ?t) cs" using d(2) one by (simp add: r)
        show ?thesis
        proof (cases "st_tag s2 \<noteq> None \<or> rest2 = []")
          case True
          with f d(1) d2 r prev tag dr t1 one show ?thesis by auto
        next
          case n2: False
          then have "stream_core (feed_loop env s2 [] rest2) = foldl (ref_step env) (stream_core s2) rest2"
            using feed_loop_law [of s2 env "[]" rest2] d2 cl by simp
          with f d(1) d2 r prev tag dr t1 one n2 show ?thesis by simp
        qed
      next
        case no: False
        let ?t = "run_emit_text (s1\<lparr>st_prev_rs := False\<rparr>) [LLM_RS]"
        have ne2: "c \<noteq> LLM_RS" using d(2) prev t1 by (auto simp: r)
        have one: "ref_step env (stream_core s1) c = ref_step env (stream_core ?t) c"
          using prev no t1 ne2 by (simp add: ref_step_def core_emit Let_def)
        have cl: "clean env (stream_core ?t) rest" using d(2) one prev t1 by (simp add: r core_emit)
        have "stream_core (feed_loop env ?t [] rest) = foldl (ref_step env) (stream_core ?t) rest"
          using feed_loop_law [of ?t env "[]" rest] cl t1 by simp
        with f d(1) r prev no t1 one show ?thesis by simp
      qed
    qed
  qed
qed

lemma ref_step_modes: "st_tag s = None \<or> \<not> st_prev_rs s \<Longrightarrow> st_tag (ref_step env s c) = None \<or> \<not> st_prev_rs (ref_step env s c)"
  by (auto simp: ref_step_def Let_def)

lemma ref_modes: "st_tag s = None \<or> \<not> st_prev_rs s \<Longrightarrow>
   st_tag (foldl (ref_step env) s cs) = None \<or> \<not> st_prev_rs (foldl (ref_step env) s cs)"
  by (induction cs arbitrary: s) (simp_all add: ref_step_modes)

lemma feeds_law:
  assumes "st_tag st = None \<or> \<not> st_prev_rs st" and "clean env (stream_core st) (concat ps)"
  shows "stream_core (foldl (agent_stream_feed env) st ps) = foldl (ref_step env) (stream_core st) (concat ps)"
  using assms
proof (induction ps arbitrary: st)
  case Nil
  then show ?case by simp
next
  case (Cons p ps)
  have f: "stream_core (agent_stream_feed env st p) = foldl (ref_step env) (stream_core st) p"
    using Cons.prems by (intro feed_law) (simp_all add: clean_append)
  have "st_tag (agent_stream_feed env st p) = None \<or> \<not> st_prev_rs (agent_stream_feed env st p)"
    using ref_modes [of "stream_core st" env p] Cons.prems(1) by (metis core_fields(1,2) f)
  with Cons.IH [of "agent_stream_feed env st p"] Cons.prems(2) show ?case by (simp add: clean_append f)
qed

lemma finish_fields:
  "st_text (agent_stream_finish st) = st_text st @ (if st_prev_rs st then [LLM_RS] else [])"
  "st_reason (agent_stream_finish st) = st_reason st" "st_tools (agent_stream_finish st) = st_tools st"
  "st_tokens (agent_stream_finish st) = st_tokens st" "st_cost (agent_stream_finish st) = st_cost st"
  "st_error_code (agent_stream_finish st) = st_error_code st" "st_error_msg (agent_stream_finish st) = st_error_msg st"
  by (simp_all add: agent_stream_finish_def Let_def)

lemma take_finish_core: "agent_stream_take (agent_stream_finish st) = agent_stream_take (agent_stream_finish (stream_core st))"
  unfolding agent_stream_take_def finish_fields by (simp add: stream_core_def)

definition stream_value :: "'j stream_env \<Rightarrow> string \<Rightarrow> 'j stream_result" where
  "stream_value env bytes = agent_stream_take (agent_stream_finish (foldl (ref_step env) agent_stream_init bytes))"

text \<open>
  C24. What a stream means does not depend on how the network cuts it: for every division of the
  bytes into payloads, text, reasoning, tool calls, usage and error are those of the bytes read one by
  one, provided that outside a frame no separator follows another one at once.
\<close>

theorem agent_stream_chunking:
  assumes "clean env agent_stream_init (concat payloads)"
  shows "agent_stream_take (agent_stream_finish (foldl (agent_stream_feed env) agent_stream_init payloads)) =
     stream_value env (concat payloads)"
proof -
  have i: "stream_core agent_stream_init = agent_stream_init" by (simp add: stream_core_def agent_stream_init_def)
  have "stream_core (foldl (agent_stream_feed env) agent_stream_init payloads) = foldl (ref_step env) agent_stream_init (concat payloads)"
    using feeds_law [of agent_stream_init env payloads] assms by (simp add: i) (simp add: agent_stream_init_def)
  then show ?thesis unfolding stream_value_def by (subst take_finish_core) (metis core_fields(6) take_finish_core)
qed

definition demo_env :: "string stream_env" where
  "demo_env = \<lparr>sn_is_tag = \<lambda>c. c \<in> set ''TRUE'', sn_frame_max = 64, sn_tools = \<lambda>b. Some [b], sn_usage = \<lambda>_. None,
     sn_error = \<lambda>_. (None, None)\<rparr>"

theorem agent_stream_chunking_witness:
  "agent_stream_take (agent_stream_finish (foldl (agent_stream_feed demo_env) agent_stream_init
     [''He'', ''llo'' @ [LLM_RS], ''Rso'', [LLM_RS, LLM_RS], ''T[]'' @ [LLM_RS] @ ''!''])) =
   agent_stream_take (agent_stream_finish (agent_stream_feed demo_env agent_stream_init
     (''Hello'' @ [LLM_RS] @ ''Rso'' @ [LLM_RS, LLM_RS] @ ''T[]'' @ [LLM_RS] @ ''!'')))"
proof -
  let ?ps = "[''He'', ''llo'' @ [LLM_RS], ''Rso'', [LLM_RS, LLM_RS], ''T[]'' @ [LLM_RS] @ ''!'']"
  have c: "clean demo_env agent_stream_init (concat ?ps)" by code_simp
  then have c1: "clean demo_env agent_stream_init (concat [concat ?ps])" by simp
  from agent_stream_chunking [OF c] agent_stream_chunking [OF c1] show ?thesis by simp
qed

section \<open>What the client has seen\<close>

text \<open>
  As long as no error frame has been taken, what was pushed is a prefix of the text, and no error is
  recorded; the error frame throws the text away.
\<close>

definition pushed_ok :: "'j agent_stream \<Rightarrow> bool" where
  "pushed_ok st \<longleftrightarrow> st_sent st \<le> length (st_text st) \<and> (st_errs st = 0 \<longrightarrow>
     concat (st_out st) = take (st_sent st) (st_text st) \<and> st_error_code st = 0 \<and> st_error_msg st = [])"

lemma pushed_emit:
  assumes "pushed_ok st"
  shows "pushed_ok (run_emit_text st d)"
proof -
  let ?t = "st_text st @ d"
  let ?safe = "length ?t - run_utf8_tail ?t"
  have "take ?safe ?t = take (st_sent st) ?t @ take (?safe - st_sent st) (drop (st_sent st) ?t)" if "st_sent st < ?safe"
    using that by (metis le_add_diff_inverse less_imp_le take_add)
  moreover have "take (st_sent st) ?t = take (st_sent st) (st_text st)" using assms by (simp add: pushed_ok_def)
  ultimately show ?thesis using assms by (auto simp: pushed_ok_def run_emit_text_def Let_def)
qed

lemma pushed_dispatch:
  assumes "pushed_ok st"
  shows "pushed_ok (run_frame_dispatch env st)"
proof -
  have "pushed_ok (run_take_error env st)" by (simp add: pushed_ok_def run_take_error_def split: prod.split)
  moreover have "pushed_ok (run_take_tools env st)" "pushed_ok (run_take_usage env st)"
    using assms by (auto simp: pushed_ok_def run_take_tools_def run_take_usage_def Let_def split: option.split)
  ultimately show ?thesis using assms by (auto simp: pushed_ok_def run_frame_dispatch_def Let_def)
qed

lemma pushed_drain: "pushed_ok st \<Longrightarrow> pushed_ok (fst (run_frame_drain env st cs))"
proof (induction env st cs rule: run_frame_drain.induct)
  case (2 env st c cs)
  have "pushed_ok (frame_push env st c)" using 2(3) by (simp add: pushed_ok_def frame_push_def)
  with 2 pushed_dispatch [OF 2(3)] show ?case by simp
qed simp

lemma pushed_mode: "pushed_ok (st\<lparr>st_tag := t\<rparr>) = pushed_ok st" "pushed_ok (st\<lparr>st_prev_rs := b\<rparr>) = pushed_ok st"
  by (simp_all add: pushed_ok_def)

lemma pushed_loop: "pushed_ok st \<Longrightarrow> pushed_ok (feed_loop env st seg data)"
proof (induction env st seg data rule: feed_loop.induct)
  case (3 env st seg c d ds)
  obtain st' rest where dr: "run_frame_drain env ((run_emit_text st (rev seg))\<lparr>st_tag := Some d\<rparr>) ds = (st', rest)" by fastforce
  have e: "pushed_ok (run_emit_text st (rev seg))" using 3(4) by (rule pushed_emit)
  then have "pushed_ok st'" using pushed_drain [of "(run_emit_text st (rev seg))\<lparr>st_tag := Some d\<rparr>" env ds] dr by (simp add: pushed_mode)
  with 3 e dr pushed_emit [OF e] show ?case by simp
qed (simp_all add: pushed_emit pushed_mode)

lemma pushed_rest:
  assumes "pushed_ok st"
  shows "pushed_ok (feed_rest env st rest)"
proof (cases "st_prev_rs st \<and> sn_is_tag env (hd rest)")
  case True
  let ?t = "st\<lparr>st_prev_rs := False, st_tag := Some (hd rest)\<rparr>"
  obtain s2 rest2 where dr: "run_frame_drain env ?t (tl rest) = (s2, rest2)" by fastforce
  have "pushed_ok s2" using pushed_drain [of ?t env "tl rest"] assms dr by (simp add: pushed_mode)
  with True dr pushed_loop [of s2 env "[]" rest2] show ?thesis by (simp add: feed_rest_def)
next
  case False
  have "pushed_ok (run_emit_text (st\<lparr>st_prev_rs := False\<rparr>) [LLM_RS])" using assms by (simp add: pushed_emit pushed_mode)
  with False assms pushed_loop show ?thesis by (auto simp: feed_rest_def)
qed

lemma pushed_feed:
  assumes "pushed_ok st"
  shows "pushed_ok (agent_stream_feed env st data)"
proof -
  obtain s1 rest where p: "(if st_tag st \<noteq> None then run_frame_drain env st data else (st, data)) = (s1, rest)" by fastforce
  have "pushed_ok s1" using pushed_drain [OF assms, of env data] assms p by (auto split: if_splits)
  with p pushed_rest [of s1 env rest] assms show ?thesis unfolding agent_stream_feed_def p by simp
qed

interpretation asf: inv_machine "agent_stream_feed env" pushed_ok for env
  by unfold_locales (simp add: pushed_feed)

lemma emit_errs [simp]: "st_errs (run_emit_text st d) = st_errs st"
  by (simp add: run_emit_text_def Let_def)

lemma finish_errs: "st_errs (agent_stream_finish st) = st_errs st"
  by (simp add: agent_stream_finish_def Let_def)

lemma pushed_finish:
  assumes "pushed_ok st" and "st_errs st = 0"
  shows "concat (st_out (agent_stream_finish st)) = st_text (agent_stream_finish st)"
proof -
  define s1 where "s1 = (if st_tag st \<noteq> None then st\<lparr>st_tag := None, st_frame := [], st_dropped := 0\<rparr> else st)"
  define s2 where "s2 = (if st_prev_rs s1 then run_emit_text (s1\<lparr>st_prev_rs := False\<rparr>) [LLM_RS] else s1)"
  have f: "agent_stream_finish st = (if st_sent s2 < length (st_text s2)
      then s2\<lparr>st_out := st_out s2 @ [drop (st_sent s2) (st_text s2)], st_sent := length (st_text s2)\<rparr> else s2)"
    by (simp add: agent_stream_finish_def s1_def s2_def Let_def)
  have "pushed_ok s1" using assms(1) by (simp add: s1_def pushed_ok_def)
  then have "pushed_ok s2" by (simp add: s2_def pushed_emit pushed_mode)
  moreover have "st_errs s2 = 0" using assms(2) by (simp add: s1_def s2_def)
  ultimately have "concat (st_out s2) = take (st_sent s2) (st_text s2)" by (simp add: pushed_ok_def)
  then show ?thesis by (simp add: f)
qed

text \<open>
  C31. What the client has seen is what the run keeps: when a stream ends and no error frame was taken,
  whatever the parser makes of the other frames and however the stream was cut, no error is reported and
  the increments pushed while it came in, put together, are exactly the text it is taken for.
\<close>

theorem agent_stream_deltas:
  assumes "st = agent_stream_finish (foldl (agent_stream_feed env) agent_stream_init payloads)"
    and "st_errs st = 0"
  shows "concat (st_out st) = sr_text (agent_stream_take st) \<and>
    sr_error_code (agent_stream_take st) = 0 \<and> sr_error_msg (agent_stream_take st) = []"
proof -
  let ?f = "foldl (agent_stream_feed env) agent_stream_init payloads"
  have "pushed_ok (agent_stream_init :: 'a agent_stream)" by (simp add: pushed_ok_def agent_stream_init_def)
  then have ok: "pushed_ok ?f" by (rule asf.run_inv)
  have errs: "st_errs ?f = 0" using assms by (simp add: finish_errs)
  then have "st_error_code ?f = 0" "st_error_msg ?f = []" using ok by (simp_all add: pushed_ok_def)
  then show ?thesis
    using pushed_finish [OF ok errs] assms(1)
    by (simp add: agent_stream_take_def finish_fields snprintf_s_def)
qed

theorem agent_stream_deltas_witness:
  "concat (st_out (agent_stream_finish (foldl (agent_stream_feed demo_env) agent_stream_init
     [[CHR ''a'', CHR 0xE4], [CHR 0xB8], [CHR 0xAD] @ [LLM_RS] @ ''Rso'' @ [LLM_RS]]))) = [CHR ''a'', CHR 0xE4, CHR 0xB8, CHR 0xAD]"
proof -
  let ?st = "agent_stream_finish (foldl (agent_stream_feed demo_env) agent_stream_init
     [[CHR ''a'', CHR 0xE4], [CHR 0xB8], [CHR 0xAD] @ [LLM_RS] @ ''Rso'' @ [LLM_RS]])"
  have e: "st_errs ?st = 0" and x: "sr_text (agent_stream_take ?st) = [CHR ''a'', CHR 0xE4, CHR 0xB8, CHR 0xAD]"
    by code_simp+
  from agent_stream_deltas [OF refl e] show ?thesis unfolding x by blast
qed

text \<open>
  Two separators in a row: in one payload both are text and hide the frame that the second one opens;
  cut between them, the frame is recognised.
\<close>

lemma doubled_separator_depends_on_cut:
  "sr_reason (agent_stream_take (agent_stream_finish (foldl (agent_stream_feed demo_env) agent_stream_init
     [[LLM_RS, LLM_RS] @ ''Rso'' @ [LLM_RS]]))) = None"
  "sr_reason (agent_stream_take (agent_stream_finish (foldl (agent_stream_feed demo_env) agent_stream_init
     [[LLM_RS], [LLM_RS] @ ''Rso'' @ [LLM_RS]]))) = Some ''so''"
  by code_simp+

text \<open>An error frame whose code is zero counts as success, with the text thrown away.\<close>

lemma error_code_zero:
  assumes "sn_error env b = (Some 0, m)" and "b \<noteq> []"
  shows "sr_error_code (agent_stream_take (run_frame_dispatch env
     (agent_stream_init\<lparr>st_tag := Some TAG_ERROR, st_text := ''partial'', st_frame := b\<rparr>))) = 0 \<and>
     sr_text (agent_stream_take (run_frame_dispatch env
     (agent_stream_init\<lparr>st_tag := Some TAG_ERROR, st_text := ''partial'', st_frame := b\<rparr>))) = []"
  using assms by (simp add: run_frame_dispatch_def run_take_error_def agent_stream_take_def agent_stream_init_def
      TAG_TOOL_def TAG_REASON_def TAG_USAGE_def TAG_ERROR_def)

end
