(* ===== verification/Agent_Run.thy ===== *)
theory Agent_Run
  imports Agent_Stream
begin

text \<open>
  agent_d, one run of an agent: the loop of model calls and tool calls (\<open>run/agent_run_loop.c\<close>), its
  account in the context ledger of mem_d with the replacement of old messages by a summary
  (\<open>run/agent_run_ledger.c\<close>), and the registry of running sessions (\<open>run/agent_run_engine.c\<close>).

  The nodes of the message array that the ledger keeps pointers to are numbered. llm_d, tool_d and mem_d
  answer over RPC; their answers are functions of a counter that advances with every call
  (\<open>run_world\<close>), so nothing is assumed about them. The requests sent to the model are kept in
  \<open>rx_calls\<close>. Times are not modelled, nor is allocation failure.
\<close>

section \<open>Data\<close>

definition AGENT_RUN_MAX_TOOL_LOOPS :: nat where "AGENT_RUN_MAX_TOOL_LOOPS = 8"
definition AGENT_RUN_TOOL_FAIL_LIMIT :: nat where "AGENT_RUN_TOOL_FAIL_LIMIT = 3"
definition AGENT_RUN_RC_TOOL_FUSE :: int where "AGENT_RUN_RC_TOOL_FUSE = 2"
definition AGENT_RUN_SESSION_ID_LEN :: nat where "AGENT_RUN_SESSION_ID_LEN = 64"
definition AGENT_LEDGER_ID_LEN :: nat where "AGENT_LEDGER_ID_LEN = 33"
definition AGENT_LEDGER_TYPE_LEN :: nat where "AGENT_LEDGER_TYPE_LEN = 12"

definition LG_PREFIX :: string where "LG_PREFIX = ''[compressed context]'' @ [chr_nl]"

record tool_call =
  tc_id :: "string option"
  tc_name :: "string option"
  tc_args :: "string option"

record run_msg =
  m_node :: nat
  m_role :: string
  m_content :: "string option"
  m_calls :: "tool_call list option"
  m_call_id :: "string option"

record trace_item =
  tr_tool :: string
  tr_args :: string
  tr_result :: string
  tr_ok :: bool

record ledger_item =
  it_entry_id :: string
  it_type :: string
  it_msg :: nat

record agent_ledger =
  lg_enabled :: bool
  lg_items :: "ledger_item list"

datatype run_event =
    TokenDelta string
  | ToolStart string string string
  | ToolEnd string string string

text \<open>A parsed answer of tool_d, and the three ways a call can end.\<close>

record tool_obj =
  to_success :: "int option"
  to_output :: "string option"
  to_error :: "string option"
  to_code :: "int option"
  to_diag :: "(int \<times> string) option"

datatype tool_answer = TA_FAIL int | TA_BAD | TA_OK tool_obj

record run_world =
  rw_stream :: "tool_call stream_env"
  rw_llm :: "nat \<Rightarrow> run_msg list \<Rightarrow> string list \<times> bool"
  rw_tool :: "nat \<Rightarrow> string \<Rightarrow> string \<Rightarrow> tool_answer"
  rw_append :: "nat \<Rightarrow> string \<Rightarrow> string option \<Rightarrow> 64 word \<Rightarrow> string option option"
  rw_warn :: "nat \<Rightarrow> bool"
  rw_compress :: "nat \<Rightarrow> (string \<times> string \<times> string) list \<Rightarrow> string option"
  rw_cancelled :: "nat \<Rightarrow> bool"
  rw_mem_sock :: bool
  rw_sink :: bool
  rw_err_str :: "int \<Rightarrow> string"
  rw_transport :: "int \<Rightarrow> bool"
  rw_err_protocol :: int

record run_ctx =
  rx_messages :: "run_msg list"
  rx_next :: nat
  rx_trace :: "trace_item list"
  rx_lg :: agent_ledger
  rx_seq :: "64 word"
  rx_events :: "(64 word \<times> run_event) list"
  rx_text :: "string option"
  rx_reason :: string
  rx_streak :: nat
  rx_fused :: bool
  rx_fuse :: string
  rx_tokens :: "64 word"
  rx_cost :: rat
  rx_clock :: nat
  rx_calls :: "run_msg list list"

section \<open>The context ledger\<close>

definition agent_ledger_init :: "run_world \<Rightarrow> string option \<Rightarrow> agent_ledger" where
  "agent_ledger_init w sess =
     \<lparr>lg_enabled = (case sess of None \<Rightarrow> False | Some s \<Rightarrow> s \<noteq> [] \<and> length s < AGENT_RUN_SESSION_ID_LEN \<and> rw_mem_sock w),
      lg_items = []\<rparr>"

definition lg_item_push :: "agent_ledger \<Rightarrow> string \<Rightarrow> string \<Rightarrow> nat \<Rightarrow> agent_ledger" where
  "lg_item_push lg eid type msg =
     lg\<lparr>lg_items := lg_items lg @ [\<lparr>it_entry_id = snprintf_s AGENT_LEDGER_ID_LEN eid,
                                    it_type = snprintf_s AGENT_LEDGER_TYPE_LEN type, it_msg = msg\<rparr>]\<rparr>"

definition agent_ledger_add :: "run_world \<Rightarrow> run_ctx \<Rightarrow> string \<Rightarrow> string option \<Rightarrow> 64 word \<Rightarrow> nat \<Rightarrow> run_ctx" where
  "agent_ledger_add w r type text token_out msg =
     (if \<not> lg_enabled (rx_lg r) then r
      else let answer = rw_append w (rx_clock r) type text token_out; r = r\<lparr>rx_clock := Suc (rx_clock r)\<rparr>
           in case answer of
                None \<Rightarrow> r
              | Some lid \<Rightarrow> r\<lparr>rx_lg := lg_item_push (rx_lg r) (case lid of Some i \<Rightarrow> i | None \<Rightarrow> []) type msg\<rparr>)"

definition lg_protect_start :: "ledger_item list \<Rightarrow> nat" where
  "lg_protect_start its =
     (case find_index (\<lambda>it. it_type it = ''assistant'') (rev its) of None \<Rightarrow> length its | Some k \<Rightarrow> length its - 1 - k)"

definition node_content :: "run_msg list \<Rightarrow> nat \<Rightarrow> string option" where
  "node_content ms n = (case find_index (\<lambda>m. m_node m = n) ms of None \<Rightarrow> None | Some i \<Rightarrow> m_content (ms ! i))"

definition lg_cand_entries :: "run_msg list \<Rightarrow> ledger_item list \<Rightarrow> nat \<Rightarrow> (string \<times> string \<times> string) list" where
  "lg_cand_entries ms its protect =
     concat (map (\<lambda>it. if it_entry_id it = [] then []
                       else case node_content ms (it_msg it) of None \<Rightarrow> [] | Some c \<Rightarrow> [(it_entry_id it, it_type it, c)])
       (drop 1 (take protect its)))"

definition lg_is_candidate :: "ledger_item list \<Rightarrow> nat \<Rightarrow> run_msg \<Rightarrow> bool" where
  "lg_is_candidate its protect m \<longleftrightarrow> m_node m \<in> it_msg ` set (drop 1 (take protect its))"

definition lg_apply :: "run_ctx \<Rightarrow> nat \<Rightarrow> string \<Rightarrow> run_ctx" where
  "lg_apply r protect context =
     (let ms = rx_messages r; its = lg_items (rx_lg r)
      in case find_index (lg_is_candidate its protect) ms of
           None \<Rightarrow> r
         | Some i \<Rightarrow>
             (let summary = \<lparr>m_node = rx_next r, m_role = ''user'', m_content = Some (LG_PREFIX @ context),
                             m_calls = None, m_call_id = None\<rparr>;
                  kept = filter (\<lambda>m. \<not> lg_is_candidate its protect m) ms;
                  lg = (rx_lg r)\<lparr>lg_items := hd its # drop protect its\<rparr>
              in r\<lparr>rx_messages := take i kept @ summary # drop i kept, rx_next := Suc (rx_next r),
                   rx_lg := lg_item_push lg [] ''user'' (rx_next r)\<rparr>))"

definition agent_ledger_fit :: "run_world \<Rightarrow> run_ctx \<Rightarrow> run_ctx" where
  "agent_ledger_fit w r =
     (if \<not> lg_enabled (rx_lg r) then r
      else let warn = rw_warn w (rx_clock r); r = r\<lparr>rx_clock := Suc (rx_clock r)\<rparr>;
               its = lg_items (rx_lg r); protect = lg_protect_start its;
               entries = (if 1 < protect then lg_cand_entries (rx_messages r) its protect else [])
           in if \<not> warn \<or> entries = [] then r
              else let context = rw_compress w (rx_clock r) entries; r = r\<lparr>rx_clock := Suc (rx_clock r)\<rparr>
                   in case context of
                        None \<Rightarrow> r
                      | Some c \<Rightarrow> if c = [] then r else lg_apply r protect c)"

section \<open>Seeding\<close>

definition preamble_base :: string where
  "preamble_base =
     [CHR 0xE3, CHR 0x80, CHR 0x90, CHR 0xE5, CHR 0xB7, CHR 0xA5, CHR 0xE5, CHR 0x85, CHR 0xB7, CHR 0xE8,
     CHR 0xB7, CHR 0xAF, CHR 0xE5, CHR 0xBE, CHR 0x84, CHR 0xE5, CHR 0xA5, CHR 0x91, CHR 0xE7, CHR 0xBA,
     CHR 0xA6, CHR 0xE3, CHR 0x80, CHR 0x91, CHR 0xE6, CHR 0x96, CHR 0x87, CHR 0xE4, CHR 0xBB, CHR 0xB6,
     CHR 0xE7, CHR 0xB1, CHR 0xBB, CHR 0xE5, CHR 0xB7, CHR 0xA5, CHR 0xE5, CHR 0x85, CHR 0xB7, CHR 0xEF,
     CHR 0xBC, CHR 0x88, CHR 0x66, CHR 0x73, CHR 0x5F, CHR 0x2A, CHR 0xEF, CHR 0xBC, CHR 0x89, CHR 0xE4,
     CHR 0xB8, CHR 0x8E, CHR 0x20, CHR 0x73, CHR 0x68, CHR 0x65, CHR 0x6C, CHR 0x6C, CHR 0x5F, CHR 0x72,
     CHR 0x75, CHR 0x6E, CHR 0x20, CHR 0xE7, CHR 0x9A, CHR 0x84, CHR 0xE7, CHR 0x9B, CHR 0xB8, CHR 0xE5,
     CHR 0xAF, CHR 0xB9, CHR 0xE8, CHR 0xB7, CHR 0xAF, CHR 0xE5, CHR 0xBE, CHR 0x84, CHR 0xE4, CHR 0xBB,
     CHR 0xA5, CHR 0xE5, CHR 0xB7, CHR 0xA5, CHR 0xE5, CHR 0x85, CHR 0xB7, CHR 0xE6, CHR 0x9C, CHR 0x8D,
     CHR 0xE5, CHR 0x8A, CHR 0xA1, CHR 0xEF, CHR 0xBC, CHR 0x88, CHR 0x74, CHR 0x6F, CHR 0x6F, CHR 0x6C,
     CHR 0x5F, CHR 0x64, CHR 0xEF, CHR 0xBC, CHR 0x89, CHR 0xE7, CHR 0x9A, CHR 0x84, CHR 0xE5, CHR 0xB7,
     CHR 0xA5, CHR 0xE4, CHR 0xBD, CHR 0x9C, CHR 0xE7, CHR 0x9B, CHR 0xAE, CHR 0xE5, CHR 0xBD, CHR 0x95,
     CHR 0xE4, CHR 0xB8, CHR 0xBA, CHR 0xE8, CHR 0xA7, CHR 0xA3, CHR 0xE6, CHR 0x9E, CHR 0x90, CHR 0xE5,
     CHR 0x9F, CHR 0xBA, CHR 0xE5, CHR 0x87, CHR 0x86, CHR 0xEF, CHR 0xBC, CHR 0x9B, CHR 0xE5, CHR 0xB7,
     CHR 0xA5, CHR 0xE5, CHR 0x85, CHR 0xB7, CHR 0xE7, CHR 0xBB, CHR 0x93, CHR 0xE6, CHR 0x9E, CHR 0x9C,
     CHR 0xE5, CHR 0x9B, CHR 0x9E, CHR 0xE6, CHR 0x89, CHR 0xA7, CHR 0xE4, CHR 0xBC, CHR 0x9A, CHR 0xE5,
     CHR 0x9B, CHR 0x9E, CHR 0xE6, CHR 0x98, CHR 0xBE, CHR 0xE8, CHR 0xA7, CHR 0xA3, CHR 0xE6, CHR 0x9E,
     CHR 0x90, CHR 0xE5, CHR 0x90, CHR 0x8E, CHR 0xE7, CHR 0x9A, CHR 0x84, CHR 0xE7, CHR 0xBB, CHR 0x9D,
     CHR 0xE5, CHR 0xAF, CHR 0xB9, CHR 0xE8, CHR 0xB7, CHR 0xAF, CHR 0xE5, CHR 0xBE, CHR 0x84, CHR 0xE3,
     CHR 0x80, CHR 0x82]"

definition preamble_boundary :: string where
  "preamble_boundary =
     [CHR 0xE3, CHR 0x80, CHR 0x90, CHR 0xE8, CHR 0xBD, CHR 0xAE, CHR 0xE6, CHR 0xAC, CHR 0xA1, CHR 0xE8,
     CHR 0xBE, CHR 0xB9, CHR 0xE7, CHR 0x95, CHR 0x8C, CHR 0xE3, CHR 0x80, CHR 0x91, CHR 0xE6, CHR 0x9C,
     CHR 0xAC, CHR 0xE6, CHR 0xAC, CHR 0xA1, CHR 0xE8, CHR 0xAF, CHR 0xB7, CHR 0xE6, CHR 0xB1, CHR 0x82,
     CHR 0xE6, CHR 0x90, CHR 0xBA, CHR 0xE5, CHR 0xB8, CHR 0xA6, CHR 0xE4, CHR 0xBA, CHR 0x86, CHR 0xE5,
     CHR 0x8E, CHR 0x86, CHR 0xE5, CHR 0x8F, CHR 0xB2, CHR 0xE6, CHR 0xB6, CHR 0x88, CHR 0xE6, CHR 0x81,
     CHR 0xAF, CHR 0xE3, CHR 0x80, CHR 0x82, CHR 0xE5, CHR 0x8E, CHR 0x86, CHR 0xE5, CHR 0x8F, CHR 0xB2,
     CHR 0xE6, CHR 0xB6, CHR 0x88, CHR 0xE6, CHR 0x81, CHR 0xAF, CHR 0xE4, CHR 0xBB, CHR 0x85, CHR 0xE4,
     CHR 0xBE, CHR 0x9B, CHR 0xE6, CHR 0x8C, CHR 0x87, CHR 0xE4, CHR 0xBB, CHR 0xA3, CHR 0xE6, CHR 0xB6,
     CHR 0x88, CHR 0xE8, CHR 0xA7, CHR 0xA3, CHR 0xE4, CHR 0xB8, CHR 0x8E, CHR 0xE8, CHR 0x83, CHR 0x8C,
     CHR 0xE6, CHR 0x99, CHR 0xAF, CHR 0xE7, CHR 0x90, CHR 0x86, CHR 0xE8, CHR 0xA7, CHR 0xA3, CHR 0xEF,
     CHR 0xBC, CHR 0x9B, CHR 0xE4, CHR 0xBD, CHR 0xA0, CHR 0xE7, CHR 0x9A, CHR 0x84, CHR 0xE5, CHR 0x9B,
     CHR 0x9E, CHR 0xE7, CHR 0xAD, CHR 0x94, CHR 0xE5, CHR 0xBF, CHR 0x85, CHR 0xE9, CHR 0xA1, CHR 0xBB,
     CHR 0xE7, CHR 0x9B, CHR 0xB4, CHR 0xE6, CHR 0x8E, CHR 0xA5, CHR 0xE5, CHR 0x9B, CHR 0x9E, CHR 0xE5,
     CHR 0xBA, CHR 0x94, CHR 0xE6, CHR 0x9C, CHR 0x80, CHR 0xE5, CHR 0x90, CHR 0x8E, CHR 0xE4, CHR 0xB8,
     CHR 0x80, CHR 0xE6, CHR 0x9D, CHR 0xA1, CHR 0xE7, CHR 0x94, CHR 0xA8, CHR 0xE6, CHR 0x88, CHR 0xB7,
     CHR 0xE6, CHR 0xB6, CHR 0x88, CHR 0xE6, CHR 0x81, CHR 0xAF, CHR 0xE3, CHR 0x80, CHR 0x82, CHR 0xE8,
     CHR 0x8B, CHR 0xA5, CHR 0xE5, CHR 0x8E, CHR 0x86, CHR 0xE5, CHR 0x8F, CHR 0xB2, CHR 0xE4, CHR 0xB8,
     CHR 0xBB, CHR 0xE9, CHR 0xA2, CHR 0x98, CHR 0xE4, CHR 0xB8, CHR 0x8E, CHR 0xE6, CHR 0x9C, CHR 0x80,
     CHR 0xE5, CHR 0x90, CHR 0x8E, CHR 0xE4, CHR 0xB8, CHR 0x80, CHR 0xE6, CHR 0x9D, CHR 0xA1, CHR 0xE7,
     CHR 0x94, CHR 0xA8, CHR 0xE6, CHR 0x88, CHR 0xB7, CHR 0xE6, CHR 0xB6, CHR 0x88, CHR 0xE6, CHR 0x81,
     CHR 0xAF, CHR 0xE4, CHR 0xB8, CHR 0x8D, CHR 0xE4, CHR 0xB8, CHR 0x80, CHR 0xE8, CHR 0x87, CHR 0xB4,
     CHR 0xEF, CHR 0xBC, CHR 0x8C, CHR 0xE4, CHR 0xBB, CHR 0xA5, CHR 0xE6, CHR 0x9C, CHR 0x80, CHR 0xE5,
     CHR 0x90, CHR 0x8E, CHR 0xE4, CHR 0xB8, CHR 0x80, CHR 0xE6, CHR 0x9D, CHR 0xA1, CHR 0xE7, CHR 0x94,
     CHR 0xA8, CHR 0xE6, CHR 0x88, CHR 0xB7, CHR 0xE6, CHR 0xB6, CHR 0x88, CHR 0xE6, CHR 0x81, CHR 0xAF,
     CHR 0xE4, CHR 0xB8, CHR 0xBA, CHR 0xE5, CHR 0x87, CHR 0x86, CHR 0xEF, CHR 0xBC, CHR 0x8C, CHR 0xE7,
     CHR 0xA6, CHR 0x81, CHR 0xE6, CHR 0xAD, CHR 0xA2, CHR 0xE5, CHR 0xBB, CHR 0xB6, CHR 0xE7, CHR 0xBB,
     CHR 0xAD, CHR 0xE5, CHR 0x8E, CHR 0x86, CHR 0xE5, CHR 0x8F, CHR 0xB2, CHR 0xE4, CHR 0xB8, CHR 0xBB,
     CHR 0xE9, CHR 0xA2, CHR 0x98, CHR 0xE4, CHR 0xBD, CHR 0x9C, CHR 0xE7, CHR 0xAD, CHR 0x94, CHR 0xEF,
     CHR 0xBC, CHR 0x8C, CHR 0xE7, CHR 0xA6, CHR 0x81, CHR 0xE6, CHR 0xAD, CHR 0xA2, CHR 0xE7, CHR 0xBB,
     CHR 0xAD, CHR 0xE5, CHR 0x86, CHR 0x99, CHR 0xE5, CHR 0x8E, CHR 0x86, CHR 0xE5, CHR 0x8F, CHR 0xB2,
     CHR 0xE4, CHR 0xB8, CHR 0xAD, CHR 0xE6, CHR 0x9C, CHR 0xAA, CHR 0xE5, CHR 0xAE, CHR 0x8C, CHR 0xE6,
     CHR 0x88, CHR 0x90, CHR 0xE7, CHR 0x9A, CHR 0x84, CHR 0xE5, CHR 0x9B, CHR 0x9E, CHR 0xE7, CHR 0xAD,
     CHR 0x94, CHR 0xE3, CHR 0x80, CHR 0x82]"

definition new_msg :: "run_ctx \<Rightarrow> string \<Rightarrow> string option \<Rightarrow> tool_call list option \<Rightarrow> string option \<Rightarrow> run_msg" where
  "new_msg r role content calls cid =
     \<lparr>m_node = rx_next r, m_role = role, m_content = content, m_calls = calls, m_call_id = cid\<rparr>"

definition push_msg :: "run_ctx \<Rightarrow> run_msg \<Rightarrow> run_ctx" where
  "push_msg r m = r\<lparr>rx_messages := rx_messages r @ [m], rx_next := Suc (m_node m)\<rparr>"

definition run_preamble :: "run_ctx \<Rightarrow> run_ctx" where
  "run_preamble r =
     (let content = snprintf_s 1024 (preamble_base @ (if 1 < length (rx_messages r) then preamble_boundary else []))
      in r\<lparr>rx_messages := new_msg r ''system'' (Some content) None None # rx_messages r, rx_next := Suc (rx_next r)\<rparr>)"

text \<open>A history that is not empty is copied; the nodes of the copy are numbered from zero.\<close>

definition number_nodes :: "run_msg list \<Rightarrow> run_msg list" where
  "number_nodes ms = map (\<lambda>(i, m). m\<lparr>m_node := i\<rparr>) (zip [0..<length ms] ms)"

definition run_seed :: "run_world \<Rightarrow> run_msg list \<Rightarrow> string \<Rightarrow> run_ctx \<Rightarrow> run_ctx" where
  "run_seed w history prompt r =
     (let r = (if history \<noteq> [] then r\<lparr>rx_messages := number_nodes history, rx_next := length history\<rparr>
               else push_msg r (new_msg r ''user'' (Some prompt) None None));
          r = run_preamble r
      in case find_index (\<lambda>m. m_role m = ''user'') (rx_messages r) of
           None \<Rightarrow> r
         | Some i \<Rightarrow> agent_ledger_add w r ''user'' (m_content (rx_messages r ! i)) 0 (m_node (rx_messages r ! i)))"

section \<open>One round\<close>

definition run_ev_send :: "run_world \<Rightarrow> run_ctx \<Rightarrow> run_event \<Rightarrow> run_ctx" where
  "run_ev_send w r ev =
     (if rw_sink w then r\<lparr>rx_events := rx_events r @ [(rx_seq r, ev)], rx_seq := rx_seq r + 1\<rparr> else r)"

definition run_emit_delta :: "run_world \<Rightarrow> run_ctx \<Rightarrow> string \<Rightarrow> run_ctx" where
  "run_emit_delta w r delta = (if delta = [] then r else run_ev_send w r (TokenDelta delta))"

definition run_reason_add :: "run_ctx \<Rightarrow> string \<Rightarrow> run_ctx" where
  "run_reason_add r add = r\<lparr>rx_reason := (if rx_reason r = [] then add else rx_reason r @ [chr_nl] @ add)\<rparr>"

datatype llm_round = LR_FINAL | LR_TOOLS "tool_call list" | LR_FAIL

text \<open>Up to the accounting of a good answer, and then the assistant's message.\<close>

definition run_llm_recv :: "run_world \<Rightarrow> run_ctx \<Rightarrow> run_ctx \<times> tool_call stream_result option" where
  "run_llm_recv w r =
     (let (payloads, rpc_ok) = rw_llm w (rx_clock r) (rx_messages r);
          r = r\<lparr>rx_clock := Suc (rx_clock r), rx_calls := rx_calls r @ [rx_messages r]\<rparr>;
          st = agent_stream_finish (foldl (agent_stream_feed (rw_stream w)) agent_stream_init payloads);
          r = foldl (run_emit_delta w) r (st_out st);
          sr = agent_stream_take st
      in if \<not> rpc_ok \<or> sr_error_code sr \<noteq> 0 then (r, None)
         else let r = r\<lparr>rx_tokens := rx_tokens r + sr_tokens sr, rx_cost := rx_cost r + sr_cost sr\<rparr>
              in (case sr_reason sr of None \<Rightarrow> r | Some a \<Rightarrow> run_reason_add r a, Some sr))"

definition run_llm_round :: "run_world \<Rightarrow> run_ctx \<Rightarrow> run_ctx \<times> llm_round" where
  "run_llm_round w r =
     (case run_llm_recv w r of
        (r, None) \<Rightarrow> (r, LR_FAIL)
      | (r, Some sr) \<Rightarrow>
          (let calls = (case sr_tools sr of None \<Rightarrow> None | Some cs \<Rightarrow> if cs = [] then None else Some cs);
               am = new_msg r ''assistant'' (Some (sr_text sr)) calls None;
               r = agent_ledger_add w (push_msg r am) ''assistant'' (Some (sr_text sr)) (sr_tokens sr) (m_node am)
           in case calls of
                Some cs \<Rightarrow> (r, LR_TOOLS cs)
              | None \<Rightarrow> (r\<lparr>rx_text := Some (sr_text sr)\<rparr>, LR_FINAL)))"

definition run_fail_text :: "run_world \<Rightarrow> int \<Rightarrow> string" where
  "run_fail_text w rc0 =
     (let rc = (if rc0 = 0 then rw_err_protocol w else rc0);
          s = (if rw_err_str w rc = [] then ''unknown error'' else rw_err_str w rc)
      in snprintf_s 512
           (if rw_transport w rc then ''Error: tool service unreachable ('' @ s @ '', code: '' @ show_int rc @ '')''
            else ''Error: '' @ s @ '' (code: '' @ show_int rc @ '')''))"

definition tool_text :: "tool_obj \<Rightarrow> string" where
  "tool_text t =
     (let (e, code) = (case to_diag t of
            Some (c, d) \<Rightarrow> if d \<noteq> [] then (d, c)
                           else (case to_error t of Some e \<Rightarrow> e | None \<Rightarrow> ''execution failed'', case to_code t of Some c \<Rightarrow> c | None \<Rightarrow> 0)
          | None \<Rightarrow> (case to_error t of Some e \<Rightarrow> e | None \<Rightarrow> ''execution failed'', case to_code t of Some c \<Rightarrow> c | None \<Rightarrow> 0))
      in snprintf_s 1024 (if code \<noteq> 0 then ''Error: '' @ e @ '' (code: '' @ show_int code @ '')'' else ''Error: '' @ e))"

definition run_execute_tool :: "run_world \<Rightarrow> nat \<Rightarrow> string \<Rightarrow> string \<Rightarrow> bool \<times> string" where
  "run_execute_tool w clock name args =
     (case rw_tool w clock name (if args = [] then ''{}'' else args) of
        TA_FAIL rc \<Rightarrow> (False, run_fail_text w rc)
      | TA_BAD \<Rightarrow> (False, ''Tool service returned invalid response'')
      | TA_OK t \<Rightarrow>
          if to_success t \<noteq> None \<and> to_success t \<noteq> Some 0
          then (True, case to_output t of Some x \<Rightarrow> x | None \<Rightarrow> ''(no output)'')
          else (False, tool_text t))"

definition run_fail_streak_bump :: "nat \<Rightarrow> bool \<Rightarrow> nat \<times> bool" where
  "run_fail_streak_bump streak ok =
     (let s = (if ok then 0 else streak + 1) in (s, AGENT_RUN_TOOL_FAIL_LIMIT \<le> s))"

definition call_name :: "tool_call \<Rightarrow> string" where
  "call_name tc = (case tc_name tc of Some n \<Rightarrow> n | None \<Rightarrow> [])"

definition call_args :: "tool_call \<Rightarrow> string" where
  "call_args tc = (case tc_args tc of Some a \<Rightarrow> a | None \<Rightarrow> ''{}'')"

definition call_tid :: "tool_call \<Rightarrow> string" where
  "call_tid tc = (case tc_id tc of Some i \<Rightarrow> i | None \<Rightarrow> [])"

text \<open>Up to the closing event, and then the bookkeeping.\<close>

definition run_tool_exec :: "run_world \<Rightarrow> run_ctx \<Rightarrow> tool_call \<Rightarrow> run_ctx \<times> bool \<times> string" where
  "run_tool_exec w r tc =
     (let r = run_ev_send w r (ToolStart (call_name tc) (call_tid tc) (snprintf_s 160 (call_args tc)));
          (ok, res) = run_execute_tool w (rx_clock r) (call_name tc) (call_args tc);
          r = r\<lparr>rx_clock := Suc (rx_clock r)\<rparr>;
          (streak, trip) = run_fail_streak_bump (rx_streak r) ok;
          r = r\<lparr>rx_streak := streak\<rparr>;
          r = (if trip then r\<lparr>rx_fused := True, rx_fuse := snprintf_s 256 (call_name tc @ '': '' @ res)\<rparr> else r)
      in (run_ev_send w r (ToolEnd (call_tid tc) (if ok then ''ok'' else ''error'') (snprintf_s 160 res)), ok, res))"

definition run_tool_one :: "run_world \<Rightarrow> run_ctx \<Rightarrow> tool_call \<Rightarrow> run_ctx" where
  "run_tool_one w r tc =
     (let (r, ok, res) = run_tool_exec w r tc;
          msg = new_msg r ''tool'' (Some res) None (Some (call_tid tc));
          r = agent_ledger_add w (push_msg r msg) ''tool_result'' (Some res) 0 (m_node msg)
      in r\<lparr>rx_trace := rx_trace r @ [\<lparr>tr_tool = call_name tc, tr_args = call_args tc, tr_result = res, tr_ok = ok\<rparr>]\<rparr>)"

fun run_tools :: "run_world \<Rightarrow> run_ctx \<Rightarrow> tool_call list \<Rightarrow> run_ctx" where
  "run_tools w r [] = r"
| "run_tools w r (tc # tcs) = (if rx_fused r then r else run_tools w (run_tool_one w r tc) tcs)"

text \<open>The result is 1 to go on, 0 for a final answer, -1 for a failure and 2 for a blown fuse.\<close>

definition run_step :: "run_world \<Rightarrow> run_ctx \<Rightarrow> run_ctx \<times> int" where
  "run_step w r =
     (case run_llm_round w r of
        (r, LR_FAIL) \<Rightarrow> (r, -1)
      | (r, LR_FINAL) \<Rightarrow> (r, 0)
      | (r, LR_TOOLS calls) \<Rightarrow>
          (let r = run_tools w r calls
           in if \<not> rx_fused r then (r, 1)
              else (r\<lparr>rx_text := Some (snprintf_s 384 (''Tool execution failed '' @ show_nat (rx_streak r) @
                      '' times in a row; further attempts stopped ('' @ rx_fuse r @ '')''))\<rparr>, AGENT_RUN_RC_TOOL_FUSE)))"

fun run_rounds :: "run_world \<Rightarrow> nat \<Rightarrow> run_ctx \<Rightarrow> run_ctx \<times> int" where
  "run_rounds w 0 r = (r, -1)"
| "run_rounds w (Suc n) r =
     (let cancelled = rw_cancelled w (rx_clock r); r = r\<lparr>rx_clock := Suc (rx_clock r)\<rparr>
      in if cancelled then (r, 1)
         else case run_step w (agent_ledger_fit w r) of
                (r, st) \<Rightarrow> if st \<noteq> 1 then (r, st) else run_rounds w n r)"

definition run_ctx0 :: "run_world \<Rightarrow> string option \<Rightarrow> run_ctx" where
  "run_ctx0 w sess =
     \<lparr>rx_messages = [], rx_next = 0, rx_trace = [], rx_lg = agent_ledger_init w sess, rx_seq = 0, rx_events = [],
      rx_text = None, rx_reason = [], rx_streak = 0, rx_fused = False, rx_fuse = [], rx_tokens = 0, rx_cost = 0,
      rx_clock = 0, rx_calls = []\<rparr>"

definition agent_run_tool_loop :: "run_world \<Rightarrow> string option \<Rightarrow> run_msg list \<Rightarrow> string \<Rightarrow> run_ctx \<times> int" where
  "agent_run_tool_loop w sess history prompt =
     run_rounds w AGENT_RUN_MAX_TOOL_LOOPS (run_seed w history prompt (run_ctx0 w sess))"

end
