(* ===== verification/Agent_Run_Spec.thy ===== *)
theory Agent_Run_Spec
  imports Agent_Run "HOL-Library.Sublist"
begin

text \<open>
  What a run of an agent guarantees: the number of model calls is bounded, three failing tool calls in a
  row end it and nothing else does so with that code, and every request sent to the model is a sequence
  of complete turns that starts with the seeded messages, whatever the ledger compressed in between.
\<close>

section \<open>What the steps leave alone\<close>

lemma ev_send_frame [simp]:
  "rx_messages (run_ev_send w r e) = rx_messages r" "rx_next (run_ev_send w r e) = rx_next r"
  "rx_trace (run_ev_send w r e) = rx_trace r" "rx_lg (run_ev_send w r e) = rx_lg r"
  "rx_text (run_ev_send w r e) = rx_text r" "rx_streak (run_ev_send w r e) = rx_streak r"
  "rx_fused (run_ev_send w r e) = rx_fused r" "rx_calls (run_ev_send w r e) = rx_calls r"
  by (simp_all add: run_ev_send_def)

lemma emit_delta_frame [simp]:
  "rx_messages (run_emit_delta w r e) = rx_messages r" "rx_next (run_emit_delta w r e) = rx_next r"
  "rx_trace (run_emit_delta w r e) = rx_trace r" "rx_lg (run_emit_delta w r e) = rx_lg r"
  "rx_text (run_emit_delta w r e) = rx_text r" "rx_streak (run_emit_delta w r e) = rx_streak r"
  "rx_fused (run_emit_delta w r e) = rx_fused r" "rx_calls (run_emit_delta w r e) = rx_calls r"
  by (simp_all add: run_emit_delta_def)

lemma emit_deltas_frame [simp]:
  "rx_messages (foldl (run_emit_delta w) r ds) = rx_messages r" "rx_next (foldl (run_emit_delta w) r ds) = rx_next r"
  "rx_trace (foldl (run_emit_delta w) r ds) = rx_trace r" "rx_lg (foldl (run_emit_delta w) r ds) = rx_lg r"
  "rx_text (foldl (run_emit_delta w) r ds) = rx_text r" "rx_streak (foldl (run_emit_delta w) r ds) = rx_streak r"
  "rx_fused (foldl (run_emit_delta w) r ds) = rx_fused r" "rx_calls (foldl (run_emit_delta w) r ds) = rx_calls r"
  by (induction ds arbitrary: r) simp_all

lemma ledger_add_frame [simp]:
  "rx_messages (agent_ledger_add w r ty tx k n) = rx_messages r" "rx_next (agent_ledger_add w r ty tx k n) = rx_next r"
  "rx_trace (agent_ledger_add w r ty tx k n) = rx_trace r" "rx_text (agent_ledger_add w r ty tx k n) = rx_text r"
  "rx_streak (agent_ledger_add w r ty tx k n) = rx_streak r" "rx_fused (agent_ledger_add w r ty tx k n) = rx_fused r"
  "rx_calls (agent_ledger_add w r ty tx k n) = rx_calls r"
  by (simp_all add: agent_ledger_add_def Let_def split: option.split)

lemma push_msg_frame [simp]:
  "rx_messages (push_msg r m) = rx_messages r @ [m]" "rx_next (push_msg r m) = Suc (m_node m)"
  "rx_trace (push_msg r m) = rx_trace r" "rx_lg (push_msg r m) = rx_lg r"
  "rx_text (push_msg r m) = rx_text r" "rx_streak (push_msg r m) = rx_streak r"
  "rx_fused (push_msg r m) = rx_fused r" "rx_calls (push_msg r m) = rx_calls r"
  by (simp_all add: push_msg_def)

lemma fit_frame [simp]:
  "rx_trace (agent_ledger_fit w r) = rx_trace r" "rx_text (agent_ledger_fit w r) = rx_text r"
  "rx_streak (agent_ledger_fit w r) = rx_streak r" "rx_fused (agent_ledger_fit w r) = rx_fused r"
  "rx_calls (agent_ledger_fit w r) = rx_calls r"
  by (simp_all add: agent_ledger_fit_def lg_apply_def Let_def split: option.split)

lemma reason_add_frame [simp]:
  "rx_messages (run_reason_add r a) = rx_messages r" "rx_next (run_reason_add r a) = rx_next r"
  "rx_trace (run_reason_add r a) = rx_trace r" "rx_lg (run_reason_add r a) = rx_lg r"
  "rx_text (run_reason_add r a) = rx_text r" "rx_streak (run_reason_add r a) = rx_streak r"
  "rx_fused (run_reason_add r a) = rx_fused r" "rx_calls (run_reason_add r a) = rx_calls r"
  by (simp_all add: run_reason_add_def)

section \<open>The fuse and the bound\<close>

definition fails_tail :: "trace_item list \<Rightarrow> nat" where
  "fails_tail tr = length (takeWhile (\<lambda>t. \<not> tr_ok t) (rev tr))"

definition fuse_inv :: "run_ctx \<Rightarrow> bool" where
  "fuse_inv r \<longleftrightarrow> rx_streak r = fails_tail (rx_trace r) \<and> rx_fused r = (AGENT_RUN_TOOL_FAIL_LIMIT \<le> rx_streak r) \<and>
     (\<forall>n<length (rx_trace r). fails_tail (take n (rx_trace r)) < AGENT_RUN_TOOL_FAIL_LIMIT)"

lemma fails_tail_snoc [simp]: "fails_tail (tr @ [t]) = (if tr_ok t then 0 else Suc (fails_tail tr))"
  by (simp add: fails_tail_def)

lemma run_tool_exec_frame:
  assumes "run_tool_exec w r tc = (q, ok, res)"
  shows "rx_messages q = rx_messages r" "rx_next q = rx_next r" "rx_lg q = rx_lg r" "rx_trace q = rx_trace r"
    "rx_text q = rx_text r" "rx_calls q = rx_calls r" "rx_streak q = (if ok then 0 else rx_streak r + 1)"
    "rx_fused q = (rx_fused r \<or> AGENT_RUN_TOOL_FAIL_LIMIT \<le> rx_streak q)"
  using assms by (auto simp: run_tool_exec_def run_fail_streak_bump_def Let_def split: prod.splits if_splits)

lemma run_tool_one_trace:
  obtains t where "rx_trace (run_tool_one w r tc) = rx_trace r @ [t]"
    and "rx_streak (run_tool_one w r tc) = (if tr_ok t then 0 else rx_streak r + 1)"
    and "rx_fused (run_tool_one w r tc) = (rx_fused r \<or> AGENT_RUN_TOOL_FAIL_LIMIT \<le> rx_streak (run_tool_one w r tc))"
proof -
  obtain q ok res where q: "run_tool_exec w r tc = (q, ok, res)" by (cases "run_tool_exec w r tc")
  from run_tool_exec_frame[OF q] show ?thesis
    by (intro that[of "\<lparr>tr_tool = call_name tc, tr_args = call_args tc, tr_result = res, tr_ok = ok\<rparr>"])
      (simp_all add: run_tool_one_def q Let_def)
qed

lemma run_tool_one_frame [simp]:
  "rx_text (run_tool_one w r tc) = rx_text r" "rx_calls (run_tool_one w r tc) = rx_calls r"
  using run_tool_exec_frame by (simp_all add: run_tool_one_def Let_def split: prod.split)

lemma fuse_tool_one:
  assumes "fuse_inv r" "\<not> rx_fused r"
  shows "fuse_inv (run_tool_one w r tc)"
proof -
  obtain t where t: "rx_trace (run_tool_one w r tc) = rx_trace r @ [t]"
    "rx_streak (run_tool_one w r tc) = (if tr_ok t then 0 else rx_streak r + 1)"
    "rx_fused (run_tool_one w r tc) = (rx_fused r \<or> AGENT_RUN_TOOL_FAIL_LIMIT \<le> rx_streak (run_tool_one w r tc))"
    by (rule run_tool_one_trace)
  have "fails_tail (take n (rx_trace r @ [t])) < AGENT_RUN_TOOL_FAIL_LIMIT" if "n < Suc (length (rx_trace r))" for n
    using assms that by (cases "n = length (rx_trace r)") (auto simp: fuse_inv_def)
  then show ?thesis
    using assms t by (simp add: fuse_inv_def)
qed

text \<open>The calls of one answer are the events of a machine that stands still once the fuse is blown.\<close>

definition tool_event :: "run_world \<Rightarrow> run_ctx \<Rightarrow> tool_call \<Rightarrow> run_ctx" where
  "tool_event w r tc = (if rx_fused r then r else run_tool_one w r tc)"

lemma run_tools_events: "run_tools w r tcs = foldl (tool_event w) r tcs"
proof -
  have "rx_fused r \<Longrightarrow> foldl (tool_event w) r tcs = r" for r tcs
    by (induction tcs) (simp_all add: tool_event_def)
  then show ?thesis by (induction w r tcs rule: run_tools.induct) (simp_all add: tool_event_def)
qed

interpretation agt: inv_machine "tool_event w" fuse_inv for w
  by unfold_locales (simp add: tool_event_def fuse_tool_one)

lemma run_tools_inv: "fuse_inv r \<Longrightarrow> fuse_inv (run_tools w r tcs)"
  unfolding run_tools_events by (rule agt.run_inv)

lemma run_tools_frame [simp]: "rx_text (run_tools w r tcs) = rx_text r" "rx_calls (run_tools w r tcs) = rx_calls r"
  by (induction w r tcs rule: run_tools.induct) auto

lemma fuse_inv_cong:
  "rx_streak r' = rx_streak r \<Longrightarrow> rx_trace r' = rx_trace r \<Longrightarrow> rx_fused r' = rx_fused r \<Longrightarrow> fuse_inv r' = fuse_inv r"
  by (simp add: fuse_inv_def)

lemma llm_recv_frame:
  assumes "run_llm_recv w r = (q, s)"
  shows "rx_messages q = rx_messages r" "rx_next q = rx_next r" "rx_lg q = rx_lg r" "rx_streak q = rx_streak r"
    "rx_trace q = rx_trace r" "rx_fused q = rx_fused r" "rx_text q = rx_text r"
    "rx_calls q = rx_calls r @ [rx_messages r]"
  using assms by (auto simp: run_llm_recv_def Let_def split: prod.splits option.splits if_splits)

lemma llm_round_frame:
  assumes "run_llm_round w r = (r', a)"
  shows "rx_streak r' = rx_streak r" "rx_trace r' = rx_trace r" "rx_fused r' = rx_fused r"
    "rx_calls r' = rx_calls r @ [rx_messages r]" "rx_text r = None \<Longrightarrow> (rx_text r' = None) = (a \<noteq> LR_FINAL)"
proof -
  obtain q s where q: "run_llm_recv w r = (q, s)" by (cases "run_llm_recv w r")
  show "rx_streak r' = rx_streak r" "rx_trace r' = rx_trace r" "rx_fused r' = rx_fused r"
    "rx_calls r' = rx_calls r @ [rx_messages r]" "rx_text r = None \<Longrightarrow> (rx_text r' = None) = (a \<noteq> LR_FINAL)"
    using assms llm_recv_frame[OF q] by (auto simp: run_llm_round_def q Let_def split: option.splits if_splits)
qed

lemma run_step_law:
  assumes "run_step w r = (r', st)" "fuse_inv r" "\<not> rx_fused r" "rx_text r = None"
  shows "fuse_inv r'" "rx_calls r' = rx_calls r @ [rx_messages r]" "st \<in> {-1, 0, 1, 2}"
    "st = AGENT_RUN_RC_TOOL_FUSE \<longleftrightarrow> rx_fused r'" "rx_text r' = None \<longleftrightarrow> st \<in> {-1, 1}"
proof -
  obtain q a where q: "run_llm_round w r = (q, a)" by (cases "run_llm_round w r")
  note f = llm_round_frame[OF q]
  have inv: "fuse_inv q" using assms(2) f(1-3) by (simp add: fuse_inv_def)
  show "fuse_inv r'" "rx_calls r' = rx_calls r @ [rx_messages r]" "st \<in> {-1, 0, 1, 2}"
    "st = AGENT_RUN_RC_TOOL_FUSE \<longleftrightarrow> rx_fused r'" "rx_text r' = None \<longleftrightarrow> st \<in> {-1, 1}"
    using assms(1) q inv f assms(3,4) run_tools_inv[OF inv]
    by (cases a; auto simp: run_step_def Let_def AGENT_RUN_RC_TOOL_FUSE_def fuse_inv_def split: if_splits)+
qed

lemma run_rounds_law:
  "run_rounds w n r = (r', st) \<Longrightarrow> fuse_inv r \<Longrightarrow> \<not> rx_fused r \<Longrightarrow> rx_text r = None \<Longrightarrow>
     fuse_inv r' \<and> length (rx_calls r') \<le> length (rx_calls r) + n \<and> st \<in> {-1, 0, 1, 2} \<and>
     (st = AGENT_RUN_RC_TOOL_FUSE \<longleftrightarrow> rx_fused r') \<and> (rx_text r' = None \<longleftrightarrow> st \<in> {-1, 1})"
proof (induction n arbitrary: r)
  case 0
  then show ?case by (auto simp: AGENT_RUN_RC_TOOL_FUSE_def)
next
  case (Suc n)
  define q where "q = agent_ledger_fit w (r\<lparr>rx_clock := Suc (rx_clock r)\<rparr>)"
  have q: "fuse_inv q" "\<not> rx_fused q" "rx_text q = None" "rx_calls q = rx_calls r"
    using Suc.prems by (simp_all add: q_def fuse_inv_def)
  show ?case
  proof (cases "rw_cancelled w (rx_clock r)")
    case True
    then show ?thesis using Suc.prems by (auto simp: AGENT_RUN_RC_TOOL_FUSE_def fuse_inv_def)
  next
    case False
    obtain p st1 where p: "run_step w q = (p, st1)" by (cases "run_step w q")
    note s = run_step_law[OF p q(1,2,3)]
    have eq: "run_rounds w (Suc n) r = (if st1 \<noteq> 1 then (p, st1) else run_rounds w n p)"
      using False p by (simp add: Let_def q_def)
    show ?thesis
    proof (cases "st1 = 1")
      case True
      then have "\<not> rx_fused p" "rx_text p = None" using s(4,5) by (auto simp: AGENT_RUN_RC_TOOL_FUSE_def)
      from Suc.IH[OF _ s(1) this, of] Suc.prems(1) eq True s(2) q(4) show ?thesis by simp
    next
      case False
      then show ?thesis using Suc.prems(1) eq s q(4) by auto
    qed
  qed
qed

lemma seed_frame [simp]:
  "rx_trace (run_seed w h p r) = rx_trace r" "rx_text (run_seed w h p r) = rx_text r"
  "rx_streak (run_seed w h p r) = rx_streak r" "rx_fused (run_seed w h p r) = rx_fused r"
  "rx_calls (run_seed w h p r) = rx_calls r"
  by (simp_all add: run_seed_def run_preamble_def Let_def split: option.split)

lemma tool_loop_law:
  assumes "agent_run_tool_loop w sess history prompt = (r, rc)"
  shows "fuse_inv r \<and> length (rx_calls r) \<le> 8 \<and> rc \<in> {-1, 0, 1, 2} \<and>
    (rc = AGENT_RUN_RC_TOOL_FUSE \<longleftrightarrow> rx_fused r) \<and> (rx_text r = None \<longleftrightarrow> rc \<in> {-1, 1})"
proof -
  let ?s = "run_seed w history prompt (run_ctx0 w sess)"
  have s: "fuse_inv ?s" "\<not> rx_fused ?s" "rx_text ?s = None" "rx_calls ?s = []"
    by (simp_all add: fuse_inv_def run_ctx0_def fails_tail_def AGENT_RUN_TOOL_FAIL_LIMIT_def)
  from run_rounds_law[OF assms[unfolded agent_run_tool_loop_def] s(1,2,3)] s(4) show ?thesis
    by (simp add: AGENT_RUN_MAX_TOOL_LOOPS_def)
qed

text \<open>
  C22. A run ends after at most eight calls of the model with one of the codes 0, 1, -1 and 2. The code is 2
  exactly when the last three tool calls failed; no tool is called once three calls in a row have failed,
  and the run has a text exactly when it ended with an answer or by the fuse.
\<close>

theorem agent_loop_bounds:
  assumes "agent_run_tool_loop w sess history prompt = (r, rc)"
  shows "length (rx_calls r) \<le> 8 \<and> rc \<in> {-1, 0, 1, 2} \<and>
    (rc = AGENT_RUN_RC_TOOL_FUSE \<longleftrightarrow> 3 \<le> fails_tail (rx_trace r)) \<and>
    (\<forall>n<length (rx_trace r). fails_tail (take n (rx_trace r)) < 3) \<and>
    (rx_text r = None \<longleftrightarrow> rc \<in> {-1, 1})"
  using tool_loop_law[OF assms] by (auto simp: fuse_inv_def AGENT_RUN_TOOL_FAIL_LIMIT_def)

section \<open>The events\<close>

text \<open>What a tool event shows of its call, and what the trace of the run keeps of it.\<close>

definition ev_brief :: "run_event \<Rightarrow> (string \<times> string) list" where
  "ev_brief e = (case e of TokenDelta _ \<Rightarrow> [] | ToolStart n _ a \<Rightarrow> [(n, a)] | ToolEnd _ s h \<Rightarrow> [(s, h)])"

definition trace_brief :: "trace_item \<Rightarrow> (string \<times> string) list" where
  "trace_brief t = [(tr_tool t, snprintf_s 160 (tr_args t)), (if tr_ok t then ''ok'' else ''error'', snprintf_s 160 (tr_result t))]"

definition events_ok :: "run_ctx \<Rightarrow> (string \<times> string) list \<Rightarrow> bool" where
  "events_ok r bs \<longleftrightarrow> map fst (rx_events r) = map of_nat [0..<length (rx_events r)] \<and> rx_seq r = of_nat (length (rx_events r)) \<and>
     concat (map (\<lambda>e. ev_brief (snd e)) (rx_events r)) = bs"

abbreviation run_events_inv :: "run_ctx \<Rightarrow> bool" where
  "run_events_inv r \<equiv> events_ok r (concat (map trace_brief (rx_trace r)))"

lemma events_cong: "rx_events q = rx_events r \<Longrightarrow> rx_seq q = rx_seq r \<Longrightarrow> events_ok q bs = events_ok r bs"
  by (simp add: events_ok_def)

lemma events_frame [simp]:
  "rx_events (agent_ledger_add w r ty tx k n) = rx_events r" "rx_seq (agent_ledger_add w r ty tx k n) = rx_seq r"
  "rx_events (push_msg r m) = rx_events r" "rx_seq (push_msg r m) = rx_seq r"
  "rx_events (agent_ledger_fit w r) = rx_events r" "rx_seq (agent_ledger_fit w r) = rx_seq r"
  "rx_events (run_reason_add r a) = rx_events r" "rx_seq (run_reason_add r a) = rx_seq r"
  "rx_events (run_seed w h p r) = rx_events r" "rx_seq (run_seed w h p r) = rx_seq r"
proof -
  show a: "rx_events (agent_ledger_add w r ty tx k n) = rx_events r" "rx_seq (agent_ledger_add w r ty tx k n) = rx_seq r"
    for r ty tx k n by (simp_all add: agent_ledger_add_def Let_def split: option.split)
  show "rx_events (push_msg r m) = rx_events r" "rx_seq (push_msg r m) = rx_seq r"
    "rx_events (run_reason_add r a) = rx_events r" "rx_seq (run_reason_add r a) = rx_seq r"
    by (simp_all add: push_msg_def run_reason_add_def)
  show "rx_events (agent_ledger_fit w r) = rx_events r" "rx_seq (agent_ledger_fit w r) = rx_seq r"
    by (simp_all add: agent_ledger_fit_def lg_apply_def Let_def split: option.split)
  show "rx_events (run_seed w h p r) = rx_events r" "rx_seq (run_seed w h p r) = rx_seq r"
    by (simp_all add: run_seed_def run_preamble_def push_msg_def a Let_def split: option.split)
qed

lemma events_snoc:
  assumes "events_ok r bs" "rx_events q = rx_events r @ [(rx_seq r, e)]" "rx_seq q = rx_seq r + 1"
  shows "events_ok q (bs @ ev_brief e)"
  using assms(1) unfolding events_ok_def assms(2,3) by (simp add: add.commute)

lemma events_send: "events_ok r bs \<Longrightarrow> rw_sink w \<Longrightarrow> events_ok (run_ev_send w r e) (bs @ ev_brief e)"
  by (rule events_snoc) (simp_all add: run_ev_send_def)

lemma events_deltas: "events_ok r bs \<Longrightarrow> rw_sink w \<Longrightarrow> events_ok (foldl (run_emit_delta w) r ds) bs"
proof (induction ds arbitrary: r)
  case (Cons d ds)
  have "events_ok (run_emit_delta w r d) bs"
    using events_send[OF Cons.prems, of "TokenDelta d"] Cons.prems(1) by (simp add: run_emit_delta_def ev_brief_def)
  from Cons.IH[OF this Cons.prems(2)] show ?case by simp
qed simp

lemma events_recv:
  assumes "events_ok r bs" "rw_sink w" "run_llm_recv w r = (q, s)"
  shows "events_ok q bs"
proof -
  obtain ps ok where l: "rw_llm w (rx_clock r) (rx_messages r) = (ps, ok)" by (cases "rw_llm w (rx_clock r) (rx_messages r)")
  let ?p = "foldl (run_emit_delta w) (r\<lparr>rx_clock := Suc (rx_clock r), rx_calls := rx_calls r @ [rx_messages r]\<rparr>)
    (st_out (agent_stream_finish (foldl (agent_stream_feed (rw_stream w)) agent_stream_init ps)))"
  have p: "events_ok ?p bs" by (rule events_deltas[OF _ assms(2)]) (use assms(1) in \<open>simp add: events_ok_def\<close>)
  have "rx_events q = rx_events ?p" "rx_seq q = rx_seq ?p"
    using assms(3) l by (auto simp: run_llm_recv_def Let_def split: option.splits if_splits)
  from events_cong[OF this] p show ?thesis by blast
qed

lemma events_round:
  assumes "events_ok r bs" "rw_sink w" "run_llm_round w r = (q, a)"
  shows "events_ok q bs"
proof -
  obtain p s where p: "run_llm_recv w r = (p, s)" by (cases "run_llm_recv w r")
  have "rx_events q = rx_events p" "rx_seq q = rx_seq p"
    using assms(3) by (auto simp: run_llm_round_def p Let_def split: option.splits if_splits)
  from events_cong[OF this] events_recv[OF assms(1,2) p] show ?thesis by blast
qed

lemma events_tool_exec:
  assumes "run_tool_exec w r tc = (q, ok, res)" "events_ok r bs" "rw_sink w"
  shows "events_ok q (bs @ [(call_name tc, snprintf_s 160 (call_args tc)), (if ok then ''ok'' else ''error'', snprintf_s 160 res)])"
proof -
  let ?s = "run_ev_send w r (ToolStart (call_name tc) (call_tid tc) (snprintf_s 160 (call_args tc)))"
  let ?e = "ToolEnd (call_tid tc) (if ok then ''ok'' else ''error'') (snprintf_s 160 res)"
  have q: "rx_events q = rx_events ?s @ [(rx_seq ?s, ?e)]" "rx_seq q = rx_seq ?s + 1"
    using assms(1,3) by (auto simp: run_tool_exec_def run_ev_send_def Let_def split: prod.splits)
  have "events_ok ?s (bs @ [(call_name tc, snprintf_s 160 (call_args tc))])"
    using events_send[OF assms(2,3), of "ToolStart (call_name tc) (call_tid tc) (snprintf_s 160 (call_args tc))"]
    by (simp add: ev_brief_def)
  from events_snoc[OF this q] show ?thesis by (simp add: ev_brief_def)
qed

lemma events_tool_one: "rw_sink w \<Longrightarrow> run_events_inv r \<Longrightarrow> run_events_inv (run_tool_one w r tc)"
proof -
  assume w: "rw_sink w" and r: "run_events_inv r"
  obtain q ok res where q: "run_tool_exec w r tc = (q, ok, res)" by (cases "run_tool_exec w r tc")
  from events_tool_exec[OF q r w] run_tool_exec_frame(4)[OF q] show ?thesis
    by (simp add: run_tool_one_def q Let_def trace_brief_def events_ok_def)
qed

interpretation age: inv_machine "tool_event w" "\<lambda>r. rw_sink w \<and> run_events_inv r" for w
  by unfold_locales (simp add: tool_event_def events_tool_one)

lemma events_step:
  assumes "run_step w r = (q, st)" "rw_sink w" "run_events_inv r"
  shows "run_events_inv q"
proof -
  obtain p a where p: "run_llm_round w r = (p, a)" by (cases "run_llm_round w r")
  have "run_events_inv p" using events_round[OF assms(3,2) p] llm_round_frame(2)[OF p] by simp
  with assms(2) age.run_inv[of w p] have "run_events_inv (run_tools w p cs)" for cs by (simp add: run_tools_events)
  with \<open>run_events_inv p\<close> assms(1) p show ?thesis
    by (auto simp: run_step_def Let_def events_ok_def split: llm_round.splits if_splits)
qed

lemma events_rounds: "rw_sink w \<Longrightarrow> run_events_inv r \<Longrightarrow> run_events_inv (fst (run_rounds w n r))"
proof (induction n arbitrary: r)
  case (Suc n)
  let ?p = "agent_ledger_fit w (r\<lparr>rx_clock := Suc (rx_clock r)\<rparr>)"
  obtain q st where q: "run_step w ?p = (q, st)" by (cases "run_step w ?p")
  have "run_events_inv ?p" using Suc.prems(2) by (simp add: events_ok_def)
  from events_step[OF q Suc.prems(1) this] have e: "run_events_inv q" .
  from Suc.IH[OF Suc.prems(1) e] e Suc.prems(2) q show ?case by (simp add: Let_def events_ok_def)
qed simp

text \<open>
  C30. To a client that listens, a run numbers its events 0, 1, 2, ... without a gap, and its tool events
  are, in order, a start and an end for each entry of the trace, with the name of the tool, whether it
  succeeded, and the first 159 bytes of its arguments and its result.
\<close>

theorem agent_event_stream:
  fixes sess history prompt
  assumes "rw_sink w"
  defines "r \<equiv> fst (agent_run_tool_loop w sess history prompt)"
  shows "map fst (rx_events r) = map of_nat [0..<length (rx_events r)] \<and>
    concat (map (\<lambda>e. ev_brief (snd e)) (rx_events r)) = concat (map trace_brief (rx_trace r))"
proof -
  have "run_events_inv (run_seed w history prompt (run_ctx0 w sess))" by (simp add: events_ok_def run_ctx0_def)
  from events_rounds[OF assms(1) this] show ?thesis unfolding r_def agent_run_tool_loop_def events_ok_def by blast
qed

section \<open>The requests\<close>

text \<open>Complete turns: no tool message stands alone, and the calls of a message are all answered right after it.\<close>

definition answers :: "tool_call \<Rightarrow> run_msg \<Rightarrow> bool" where
  "answers tc m \<longleftrightarrow> m_role m = ''tool'' \<and> m_call_id m = Some (call_tid tc)"

fun turns :: "run_msg list \<Rightarrow> bool" where
  "turns [] = True"
| "turns (m # ms) =
     (m_role m \<noteq> ''tool'' \<and>
      (case m_calls m of
         None \<Rightarrow> turns ms
       | Some cs \<Rightarrow> length cs \<le> length ms \<and> list_all2 answers cs (take (length cs) ms) \<and> turns (drop (length cs) ms)))"

lemma turns_append: "turns a \<Longrightarrow> turns b \<Longrightarrow> turns (a @ b)"
  by (induction a rule: turns.induct) (auto split: option.splits)

lemma turns_group:
  "m_role m = ''assistant'' \<Longrightarrow> m_calls m = Some cs \<Longrightarrow> list_all2 answers cs ts \<Longrightarrow> turns (m # ts)"
  by (simp add: list_all2_lengthD)

lemma turns_number: "turns (map (\<lambda>(i, m). m\<lparr>m_node := i\<rparr>) (zip ns ms)) = turns ms" if "length ns = length ms"
  using that
proof (induction ms arbitrary: ns rule: turns.induct)
  case (2 m ms)
  obtain k ks where ns: "ns = k # ks" "length ks = length ms" using "2.prems" by (cases ns) auto
  have ans: "list_all2 answers cs (map (\<lambda>(i, m). m\<lparr>m_node := i\<rparr>) (zip js xs)) = list_all2 answers cs xs"
    if "length js = length xs" for cs js xs
    using that by (auto simp: list_all2_conv_all_nth answers_def)
  show ?case
  proof (cases "m_calls m")
    case None
    then show ?thesis using 2(1)[OF None, of ks] ns by simp
  next
    case (Some cs)
    have "turns (map (\<lambda>(i, m). m\<lparr>m_node := i\<rparr>) (zip (drop (length cs) ks) (drop (length cs) ms))) = turns (drop (length cs) ms)"
      using 2(2)[OF Some, of "drop (length cs) ks"] ns by simp
    then show ?thesis using Some ns ans[of "take (length cs) ks" "take (length cs) ms" cs]
      by (simp add: drop_map drop_zip take_map take_zip)
  qed
qed simp

text \<open>
  The messages are a seeded part, which is never touched, and the rest. The ledger holds the entry message
  and, when it is enabled, exactly the messages of the rest. Before a round of calls the rest ends with the
  group of the last answer, and so do the ledger's items.
\<close>

definition nodes :: "run_msg list \<Rightarrow> nat list" where
  "nodes ms = map m_node ms"

definition ready :: "run_msg list \<Rightarrow> run_msg list \<Rightarrow> run_ctx \<Rightarrow> bool" where
  "ready pre rest r \<longleftrightarrow> rx_messages r = pre @ rest \<and> turns pre \<and> turns rest \<and>
     distinct (nodes (pre @ rest)) \<and> (\<forall>n\<in>set (nodes (pre @ rest)). n < rx_next r) \<and>
     (lg_enabled (rx_lg r) \<longrightarrow> lg_items (rx_lg r) \<noteq> [] \<and> it_type (hd (lg_items (rx_lg r))) \<noteq> ''assistant'' \<and>
        it_msg ` set (tl (lg_items (rx_lg r))) = set (nodes rest))"

definition ledger_split :: "ledger_item list \<Rightarrow> run_msg list \<Rightarrow> run_msg list \<Rightarrow> bool" where
  "ledger_split its old grp \<longleftrightarrow> (\<exists>u io a il. its = u # io @ a # il \<and> it_type u \<noteq> ''assistant'' \<and>
     it_type a = ''assistant'' \<and> (\<forall>i\<in>set il. it_type i \<noteq> ''assistant'') \<and>
     it_msg ` set io = set (nodes old) \<and> it_msg ` set (a # il) = set (nodes grp))"

definition grouped :: "run_msg list \<Rightarrow> run_msg list \<Rightarrow> run_msg list \<Rightarrow> run_ctx \<Rightarrow> bool" where
  "grouped pre old grp r \<longleftrightarrow> rx_messages r = pre @ old @ grp \<and> turns pre \<and> turns old \<and>
     distinct (nodes (pre @ old @ grp)) \<and> (\<forall>n\<in>set (nodes (pre @ old @ grp)). n < rx_next r) \<and>
     (lg_enabled (rx_lg r) \<longrightarrow> ledger_split (lg_items (rx_lg r)) old grp)"

lemma ledger_splitE:
  assumes "ledger_split its old grp"
  obtains u io a il where "its = u # io @ a # il" "it_type u \<noteq> ''assistant''"
    "it_type a = ''assistant''" "\<forall>i\<in>set il. it_type i \<noteq> ''assistant''"
    "it_msg ` set io = set (nodes old)" "it_msg ` set (a # il) = set (nodes grp)"
  using assms unfolding ledger_split_def by (elim exE conjE) (rule that)

lemma ledger_split_all:
  "ledger_split its old grp \<Longrightarrow> its \<noteq> [] \<and> it_type (hd its) \<noteq> ''assistant'' \<and> it_msg ` set (tl its) = set (nodes (old @ grp))"
  by (erule ledger_splitE) (auto simp: nodes_def)

lemma grouped_ready: "grouped pre old grp r \<Longrightarrow> turns grp \<Longrightarrow> ready pre (old @ grp) r"
  using ledger_split_all[of "lg_items (rx_lg r)" old grp] by (auto simp: grouped_def ready_def turns_append)

lemma find_index_after: "\<forall>x\<in>set a. \<not> P x \<Longrightarrow> P y \<Longrightarrow> find_index P (a @ y # b) = Some (length a)"
  by (induction a) simp_all

lemma protect_group:
  assumes "it_type a = ''assistant''" "\<forall>i\<in>set il. it_type i \<noteq> ''assistant''"
  shows "lg_protect_start (u # io @ a # il) = Suc (length io)"
proof -
  have "find_index (\<lambda>it. it_type it = ''assistant'') (rev il @ a # rev io @ [u]) = Some (length il)"
    using assms find_index_after[of "rev il"] by simp
  then show ?thesis by (simp add: lg_protect_start_def)
qed

lemma candidates_group:
  assumes "it_msg ` set io = set (nodes old)"
  shows "lg_is_candidate (u # io @ rest) (Suc (length io)) = (\<lambda>m. m_node m \<in> set (nodes old))"
  using assms by (simp add: lg_is_candidate_def fun_eq_iff)

lemma filter_group:
  assumes "distinct (nodes (pre @ old @ grp))"
  shows "filter (\<lambda>m. m_node m \<notin> set (nodes old)) (pre @ old @ grp) = pre @ grp"
proof -
  have "m_node m \<notin> set (nodes old)" if "m \<in> set pre \<union> set grp" for m
    using that assms by (auto simp: nodes_def)
  moreover have "m_node m \<in> set (nodes old)" if "m \<in> set old" for m
    using that by (simp add: nodes_def)
  ultimately show ?thesis by (simp add: filter_id_conv filter_empty_conv)
qed

lemma first_group:
  assumes "distinct (nodes (pre @ old @ grp))" "old \<noteq> []"
  shows "find_index (\<lambda>m. m_node m \<in> set (nodes old)) (pre @ old @ grp) = Some (length pre)"
proof -
  obtain y ys where o: "old = y # ys" using assms(2) by (cases old) auto
  have "set (nodes pre) \<inter> set (nodes old) = {}" "m_node y \<in> set (nodes old)"
    using assms(1) o by (auto simp: nodes_def)
  then have "\<forall>m\<in>set pre. m_node m \<notin> set (nodes old)" "m_node y \<in> set (nodes old)"
    by (auto simp: nodes_def disjoint_iff)
  from find_index_after[of pre "\<lambda>m. m_node m \<in> set (nodes old)", OF this] show ?thesis
    by (simp add: o)
qed

lemma apply_group:
  assumes "grouped pre old grp r" "lg_enabled (rx_lg r)" "turns grp" "old \<noteq> []"
  shows "\<exists>rest. ready pre rest (lg_apply r (lg_protect_start (lg_items (rx_lg r))) c)"
proof -
  have "ledger_split (lg_items (rx_lg r)) old grp" using assms(1,2) by (simp add: grouped_def)
  then obtain u io a il where it: "lg_items (rx_lg r) = u # io @ a # il" "it_type u \<noteq> ''assistant''"
    "it_type a = ''assistant''" "\<forall>i\<in>set il. it_type i \<noteq> ''assistant''"
    "it_msg ` set io = set (nodes old)" "it_msg ` set (a # il) = set (nodes grp)"
    by (rule ledger_splitE)
  have p: "lg_protect_start (u # io @ a # il) = Suc (length io)" by (rule protect_group[OF it(3,4)])
  have d: "distinct (nodes (pre @ old @ grp))" "rx_messages r = pre @ old @ grp"
    using assms(1) by (simp_all add: grouped_def)
  have lt: "\<forall>n\<in>set (nodes (pre @ old @ grp)). n < rx_next r" using assms(1) by (simp add: grouped_def)
  let ?s = "\<lparr>m_node = rx_next r, m_role = ''user'', m_content = Some (LG_PREFIX @ c), m_calls = None, m_call_id = None\<rparr>"
  have eq: "lg_apply r (lg_protect_start (lg_items (rx_lg r))) c =
      r\<lparr>rx_messages := pre @ ?s # grp, rx_next := Suc (rx_next r),
        rx_lg := lg_item_push ((rx_lg r)\<lparr>lg_items := u # a # il\<rparr>) [] ''user'' (rx_next r)\<rparr>"
    unfolding lg_apply_def Let_def it(1) p d(2) candidates_group[OF it(5)] first_group[OF d(1) assms(4)] filter_group[OF d(1)]
    by simp
  have lt': "rx_next r \<notin> set (nodes (pre @ old @ grp))" using lt less_irrefl by blast
  have fresh: "distinct (nodes (pre @ ?s # grp))" "\<forall>n\<in>set (nodes (pre @ ?s # grp)). n < Suc (rx_next r)"
    using d(1) lt' lt by (auto simp: nodes_def ball_Un less_SucI)
  have "ready pre (?s # grp) (lg_apply r (lg_protect_start (lg_items (rx_lg r))) c)"
    unfolding eq using assms(1,3) fresh it(2,6)
    by (auto simp: ready_def grouped_def lg_item_push_def nodes_def)
  then show ?thesis by blast
qed

lemma fit_cases:
  obtains n where "agent_ledger_fit w r = r\<lparr>rx_clock := n\<rparr>"
  | n c where "agent_ledger_fit w r = lg_apply (r\<lparr>rx_clock := n\<rparr>) (lg_protect_start (lg_items (rx_lg r))) c"
      "lg_enabled (rx_lg r)" "lg_cand_entries (rx_messages r) (lg_items (rx_lg r)) (lg_protect_start (lg_items (rx_lg r))) \<noteq> []"
proof (cases "lg_enabled (rx_lg r)")
  case False
  then have "agent_ledger_fit w r = r\<lparr>rx_clock := rx_clock r\<rparr>" by (simp add: agent_ledger_fit_def)
  then show ?thesis by (rule that(1))
next
  case True
  let ?p = "lg_protect_start (lg_items (rx_lg r))"
  let ?es = "if 1 < ?p then lg_cand_entries (rx_messages r) (lg_items (rx_lg r)) ?p else []"
  show ?thesis
  proof (cases "\<not> rw_warn w (rx_clock r) \<or> ?es = []")
    case True
    then have "agent_ledger_fit w r = r\<lparr>rx_clock := Suc (rx_clock r)\<rparr>"
      using \<open>lg_enabled (rx_lg r)\<close> by (auto simp: agent_ledger_fit_def Let_def)
    then show ?thesis by (rule that(1))
  next
    case False
    then have w: "rw_warn w (rx_clock r)" "1 < ?p" and es: "?es = lg_cand_entries (rx_messages r) (lg_items (rx_lg r)) ?p"
      "lg_cand_entries (rx_messages r) (lg_items (rx_lg r)) ?p \<noteq> []" by (auto split: if_splits)
    have eq: "agent_ledger_fit w r = (case rw_compress w (Suc (rx_clock r)) ?es of
        None \<Rightarrow> r\<lparr>rx_clock := Suc (Suc (rx_clock r))\<rparr>
      | Some c \<Rightarrow> if c = [] then r\<lparr>rx_clock := Suc (Suc (rx_clock r))\<rparr>
                  else lg_apply (r\<lparr>rx_clock := Suc (Suc (rx_clock r))\<rparr>) ?p c)"
      using True w es by (simp add: agent_ledger_fit_def Let_def split: option.split)
    show ?thesis
    proof (cases "rw_compress w (Suc (rx_clock r)) ?es")
      case None
      with eq that(1) show ?thesis by simp
    next
      case (Some c)
      with eq that(1) that(2)[OF _ True es(2)] show ?thesis by (cases "c = []") simp_all
    qed
  qed
qed

lemma fit_ready:
  assumes "grouped pre old grp r" "turns grp"
  shows "\<exists>rest. ready pre rest (agent_ledger_fit w r)"
proof (cases rule: fit_cases[of w r])
  case (1 n)
  have "ready pre (old @ grp) (r\<lparr>rx_clock := n\<rparr>)" using grouped_ready[OF assms] by (simp add: ready_def)
  then show ?thesis unfolding 1 by blast
next
  case (2 n c)
  let ?its = "lg_items (rx_lg r)"
  note f = 2(1) and e = 2(2,3)
  have g: "grouped pre old grp (r\<lparr>rx_clock := n\<rparr>)" using assms(1) by (simp add: grouped_def)
  have "old \<noteq> []"
  proof
    assume old: "old = []"
    have "ledger_split ?its old grp" using assms(1) e(1) by (simp add: grouped_def)
    then obtain u io a il where "?its = u # io @ a # il" "it_type a = ''assistant''"
      "\<forall>i\<in>set il. it_type i \<noteq> ''assistant''" "it_msg ` set io = set (nodes old)"
      by (rule ledger_splitE)
    moreover from this(4) old have "io = []" by (simp add: nodes_def)
    ultimately have "?its = u # a # il" "it_type a = ''assistant''" "\<forall>i\<in>set il. it_type i \<noteq> ''assistant''"
      by simp_all
    with e(2) protect_group[of a il u "[]"] show False by (simp add: lg_cand_entries_def)
  qed
  with apply_group[OF g _ assms(2), of c] e(1) f show ?thesis by simp
qed


text \<open>The ledger records every message when mem_d answers; a ledger that is off stays off.\<close>

definition appends :: "run_world \<Rightarrow> bool" where
  "appends w \<longleftrightarrow> (\<forall>c ty tx k. rw_append w c ty tx k \<noteq> None)"

lemma ledger_add_enabled [simp]: "lg_enabled (rx_lg (agent_ledger_add w r ty tx k n)) = lg_enabled (rx_lg r)"
  by (simp add: agent_ledger_add_def lg_item_push_def Let_def split: option.split)

lemma type_name_fits:
  "snprintf_s AGENT_LEDGER_TYPE_LEN ''assistant'' = ''assistant''"
  "snprintf_s AGENT_LEDGER_TYPE_LEN ''tool_result'' = ''tool_result''"
  "snprintf_s AGENT_LEDGER_TYPE_LEN ''user'' = ''user''"
  by (simp_all add: snprintf_s_def AGENT_LEDGER_TYPE_LEN_def)

lemma ledger_add_items:
  assumes "appends w" "lg_enabled (rx_lg r)"
  obtains e where "lg_items (rx_lg (agent_ledger_add w r ty tx k n)) =
    lg_items (rx_lg r) @ [\<lparr>it_entry_id = e, it_type = snprintf_s AGENT_LEDGER_TYPE_LEN ty, it_msg = n\<rparr>]"
proof (cases "rw_append w (rx_clock r) ty tx k")
  case None
  then show ?thesis using assms(1) unfolding appends_def by blast
next
  case (Some lid)
  then show ?thesis using assms(2) that by (simp add: agent_ledger_add_def lg_item_push_def Let_def)
qed

lemma fresh_push:
  assumes "distinct (nodes ms)" "\<forall>n\<in>set (nodes ms). n < k" "m_node m = k"
  shows "distinct (nodes (ms @ [m]))" "\<forall>n\<in>set (nodes (ms @ [m])). n < Suc k"
  using assms by (auto simp: nodes_def less_SucI)

lemma ready_push:
  assumes "ready pre rest r" "lg_enabled (rx_lg r) \<longrightarrow> appends w" "m_node m = rx_next r" "m_node m = n"
  shows "grouped pre rest [m] (agent_ledger_add w (push_msg r m) ''assistant'' tx k n)"
proof -
  let ?q = "agent_ledger_add w (push_msg r m) ''assistant'' tx k n"
  have f: "distinct (nodes ((pre @ rest) @ [m]))" "\<forall>n\<in>set (nodes ((pre @ rest) @ [m])). n < Suc (m_node m)"
    using assms(1,3) fresh_push[of "pre @ rest" "rx_next r" m] by (simp_all add: ready_def)
  have "ledger_split (lg_items (rx_lg ?q)) rest [m]" if en: "lg_enabled (rx_lg r)"
  proof -
    obtain e where e: "lg_items (rx_lg ?q) = lg_items (rx_lg r) @ [\<lparr>it_entry_id = e, it_type = ''assistant'', it_msg = n\<rparr>]"
      using ledger_add_items[OF assms(2)[rule_format, OF en], of "push_msg r m"] en
      by (metis push_msg_frame(4) type_name_fits(1))
    obtain u io where u: "lg_items (rx_lg r) = u # io" "it_type u \<noteq> ''assistant''" "it_msg ` set io = set (nodes rest)"
      using assms(1) en by (cases "lg_items (rx_lg r)") (auto simp: ready_def)
    show ?thesis unfolding ledger_split_def e u(1)
      using u(2,3) assms(4) by (intro exI[of _ u] exI[of _ io] exI[of _ "\<lparr>it_entry_id = e, it_type = ''assistant'', it_msg = n\<rparr>"] exI[of _ "[]"])
        (simp add: nodes_def)
  qed
  then show ?thesis using assms(1) f by (simp add: grouped_def ready_def)
qed

lemma grouped_push:
  assumes "grouped pre old grp r" "lg_enabled (rx_lg r) \<longrightarrow> appends w" "m_node m = rx_next r" "m_node m = n"
  shows "grouped pre old (grp @ [m]) (agent_ledger_add w (push_msg r m) ''tool_result'' tx k n)"
proof -
  let ?q = "agent_ledger_add w (push_msg r m) ''tool_result'' tx k n"
  have f: "distinct (nodes ((pre @ old @ grp) @ [m]))" "\<forall>n\<in>set (nodes ((pre @ old @ grp) @ [m])). n < Suc (m_node m)"
    using assms(1,3) fresh_push[of "pre @ old @ grp" "rx_next r" m] by (simp_all add: grouped_def)
  have "ledger_split (lg_items (rx_lg ?q)) old (grp @ [m])" if en: "lg_enabled (rx_lg r)"
  proof -
    obtain e where e: "lg_items (rx_lg ?q) = lg_items (rx_lg r) @ [\<lparr>it_entry_id = e, it_type = ''tool_result'', it_msg = n\<rparr>]"
      using ledger_add_items[OF assms(2)[rule_format, OF en], of "push_msg r m"] en
      by (metis push_msg_frame(4) type_name_fits(2))
    have "ledger_split (lg_items (rx_lg r)) old grp" using assms(1) en by (simp add: grouped_def)
    then obtain u io a il where u: "lg_items (rx_lg r) = u # io @ a # il" "it_type u \<noteq> ''assistant''"
      "it_type a = ''assistant''" "\<forall>i\<in>set il. it_type i \<noteq> ''assistant''"
      "it_msg ` set io = set (nodes old)" "it_msg ` set (a # il) = set (nodes grp)"
      by (rule ledger_splitE)
    let ?i = "\<lparr>it_entry_id = e, it_type = ''tool_result'', it_msg = n\<rparr>"
    have "it_msg ` set (a # il @ [?i]) = set (nodes (grp @ [m]))" using u(6) assms(4) by (auto simp: nodes_def)
    with u show ?thesis unfolding ledger_split_def e u(1)
      by (intro exI[of _ u] exI[of _ io] exI[of _ a] exI[of _ "il @ [?i]"]) simp
  qed
  then show ?thesis using assms(1) f by (simp add: grouped_def)
qed

lemma grouped_cong:
  "rx_messages q = rx_messages r \<Longrightarrow> rx_next q = rx_next r \<Longrightarrow> rx_lg q = rx_lg r \<Longrightarrow> grouped pre old grp q = grouped pre old grp r"
  by (simp add: grouped_def)

lemma ready_cong:
  "rx_messages q = rx_messages r \<Longrightarrow> rx_next q = rx_next r \<Longrightarrow> rx_lg q = rx_lg r \<Longrightarrow> ready pre rest q = ready pre rest r"
  by (simp add: ready_def)


lemma run_tool_one_grouped:
  assumes "grouped pre old grp r" "lg_enabled (rx_lg r) \<longrightarrow> appends w"
  shows "\<exists>m. answers tc m \<and> grouped pre old (grp @ [m]) (run_tool_one w r tc)"
proof -
  obtain q ok res where q: "run_tool_exec w r tc = (q, ok, res)" by (cases "run_tool_exec w r tc")
  let ?m = "new_msg q ''tool'' (Some res) None (Some (call_tid tc))"
  have "grouped pre old grp q" using assms(1) grouped_cong[OF run_tool_exec_frame(1-3)[OF q]] by simp
  then have "grouped pre old (grp @ [?m]) (agent_ledger_add w (push_msg q ?m) ''tool_result'' (Some res) 0 (m_node ?m))"
    using assms(2) run_tool_exec_frame(3)[OF q] by (intro grouped_push) (simp_all add: new_msg_def)
  then have "grouped pre old (grp @ [?m]) (run_tool_one w r tc)" by (simp add: run_tool_one_def q grouped_def Let_def)
  moreover have "answers tc ?m" by (simp add: answers_def new_msg_def)
  ultimately show ?thesis by blast
qed

lemma run_tool_one_enabled: "lg_enabled (rx_lg (run_tool_one w r tc)) = lg_enabled (rx_lg r)"
proof -
  obtain q ok res where q: "run_tool_exec w r tc = (q, ok, res)" by (cases "run_tool_exec w r tc")
  show ?thesis using run_tool_exec_frame(3)[OF q] by (simp add: run_tool_one_def q Let_def)
qed

lemma run_tools_enabled: "lg_enabled (rx_lg (run_tools w r tcs)) = lg_enabled (rx_lg r)"
  by (induction tcs arbitrary: r) (simp_all add: run_tool_one_enabled)

lemma run_tools_grouped:
  "grouped pre old grp r \<Longrightarrow> lg_enabled (rx_lg r) \<longrightarrow> appends w \<Longrightarrow>
   \<exists>ts. grouped pre old (grp @ ts) (run_tools w r tcs) \<and> (\<not> rx_fused (run_tools w r tcs) \<longrightarrow> list_all2 answers tcs ts)"
proof (induction tcs arbitrary: r grp)
  case Nil
  then show ?case by (intro exI[of _ "[]"]) simp
next
  case (Cons tc tcs)
  show ?case
  proof (cases "rx_fused r")
    case True
    then show ?thesis using Cons.prems by (intro exI[of _ "[]"]) simp
  next
    case False
    obtain m where m: "answers tc m" "grouped pre old (grp @ [m]) (run_tool_one w r tc)"
      using run_tool_one_grouped[OF Cons.prems] by blast
    from Cons.IH[OF m(2)] Cons.prems(2) obtain ts where ts: "grouped pre old ((grp @ [m]) @ ts) (run_tools w (run_tool_one w r tc) tcs)"
      "\<not> rx_fused (run_tools w (run_tool_one w r tc) tcs) \<longrightarrow> list_all2 answers tcs ts" by (auto simp: run_tool_one_enabled)
    then show ?thesis using False m(1) by (intro exI[of _ "m # ts"]) simp
  qed
qed

lemma llm_round_grouped:
  assumes "run_llm_round w r = (q, LR_TOOLS cs)" "ready pre rest r" "lg_enabled (rx_lg r) \<longrightarrow> appends w"
  shows "\<exists>am. m_role am = ''assistant'' \<and> m_calls am = Some cs \<and> grouped pre rest [am] q"
    and "lg_enabled (rx_lg q) = lg_enabled (rx_lg r)"
proof -
  obtain p s where p: "run_llm_recv w r = (p, s)" by (cases "run_llm_recv w r")
  obtain t n where e: "q = agent_ledger_add w (push_msg p (new_msg p ''assistant'' (Some t) (Some cs) None)) ''assistant'' (Some t) n
      (m_node (new_msg p ''assistant'' (Some t) (Some cs) None))"
    using assms(1) by (auto simp: run_llm_round_def p Let_def split: option.splits if_splits)
  have rdy: "ready pre rest p" using assms(2) ready_cong[OF llm_recv_frame(1-3)[OF p]] by simp
  have lg: "rx_lg p = rx_lg r" using llm_recv_frame(3)[OF p] .
  then have "lg_enabled (rx_lg p) \<longrightarrow> appends w" using assms(3) by simp
  from ready_push[OF rdy this, of "new_msg p ''assistant'' (Some t) (Some cs) None"]
  show "\<exists>am. m_role am = ''assistant'' \<and> m_calls am = Some cs \<and> grouped pre rest [am] q"
    unfolding e by (intro exI[of _ "new_msg p ''assistant'' (Some t) (Some cs) None"]) (simp add: new_msg_def)
  show "lg_enabled (rx_lg q) = lg_enabled (rx_lg r)" using lg by (simp add: e)
qed

lemma run_step_grouped:
  assumes "run_step w r = (q, 1)" "ready pre rest r" "lg_enabled (rx_lg r) \<longrightarrow> appends w"
  shows "(\<exists>grp. grouped pre rest grp q \<and> turns grp) \<and> lg_enabled (rx_lg q) = lg_enabled (rx_lg r)"
proof -
  obtain p a where p: "run_llm_round w r = (p, a)" by (cases "run_llm_round w r")
  with assms(1) obtain cs where cs: "a = LR_TOOLS cs" "q = run_tools w p cs" "\<not> rx_fused q"
    by (auto simp: run_step_def Let_def AGENT_RUN_RC_TOOL_FUSE_def split: llm_round.splits if_splits)
  obtain am where am: "m_role am = ''assistant''" "m_calls am = Some cs" "grouped pre rest [am] p"
    using llm_round_grouped(1)[OF p[unfolded cs(1)] assms(2,3)] by blast
  have en: "lg_enabled (rx_lg p) = lg_enabled (rx_lg r)" using llm_round_grouped(2)[OF p[unfolded cs(1)] assms(2,3)] .
  then have "lg_enabled (rx_lg p) \<longrightarrow> appends w" using assms(3) by simp
  from run_tools_grouped[OF am(3) this, of cs] cs(2,3) obtain ts
    where ts: "grouped pre rest ([am] @ ts) q" "list_all2 answers cs ts" by auto
  have "\<exists>grp. grouped pre rest grp q \<and> turns grp"
    using ts turns_group[OF am(1,2) ts(2)] by (intro exI[of _ "am # ts"]) simp
  then show ?thesis using en cs(2) by (simp add: run_tools_enabled)
qed

text \<open>A state the loop may start a round from, for every answer of mem_d.\<close>

definition fits :: "run_msg list \<Rightarrow> run_ctx \<Rightarrow> bool" where
  "fits pre r \<longleftrightarrow> (\<forall>w n. \<exists>rest. ready pre rest (agent_ledger_fit w (r\<lparr>rx_clock := n\<rparr>)))"

lemma grouped_fits: "grouped pre old grp r \<Longrightarrow> turns grp \<Longrightarrow> fits pre r"
  unfolding fits_def by (intro allI fit_ready[of pre old grp]) (simp_all add: grouped_def)

lemma run_step_calls: "run_step w r = (q, st) \<Longrightarrow> rx_calls q = rx_calls r @ [rx_messages r]"
  by (auto simp: run_step_def Let_def dest: llm_round_frame(4) split: prod.splits llm_round.splits if_splits)

lemma fit_enabled: "lg_enabled (rx_lg (agent_ledger_fit w r)) = lg_enabled (rx_lg r)"
  by (cases rule: fit_cases[of w r]) (simp_all add: lg_apply_def lg_item_push_def Let_def split: option.split)

lemma run_rounds_requests:
  shows "fits pre r \<Longrightarrow> lg_enabled (rx_lg r) \<longrightarrow> appends w \<Longrightarrow> \<forall>c\<in>set (rx_calls r). turns c \<and> prefix pre c \<Longrightarrow>
    \<forall>c\<in>set (rx_calls (fst (run_rounds w n r))). turns c \<and> prefix pre c"
proof (induction n arbitrary: r)
  case (Suc n)
  define p where "p = agent_ledger_fit w (r\<lparr>rx_clock := Suc (rx_clock r)\<rparr>)"
  obtain rest where rest: "ready pre rest p" using Suc.prems(1) unfolding fits_def p_def by blast
  obtain q st where q: "run_step w p = (q, st)" by (cases "run_step w p")
  have en: "lg_enabled (rx_lg p) = lg_enabled (rx_lg r)" by (simp add: p_def fit_enabled)
  have "rx_calls p = rx_calls r" by (simp add: p_def)
  moreover have "turns (rx_messages p)" "prefix pre (rx_messages p)"
    using rest by (simp_all add: ready_def turns_append)
  ultimately have calls: "\<forall>c\<in>set (rx_calls q). turns c \<and> prefix pre c"
    using Suc.prems(3) run_step_calls[OF q] by auto
  have eq: "run_rounds w (Suc n) r = (if rw_cancelled w (rx_clock r) then (r\<lparr>rx_clock := Suc (rx_clock r)\<rparr>, 1)
      else if st \<noteq> 1 then (q, st) else run_rounds w n q)"
    using q by (simp add: Let_def p_def)
  show ?case
  proof (cases "\<not> rw_cancelled w (rx_clock r) \<and> st = 1")
    case True
    have "(\<exists>grp. grouped pre rest grp q \<and> turns grp) \<and> lg_enabled (rx_lg q) = lg_enabled (rx_lg p)"
      using run_step_grouped[OF _ rest] q True en Suc.prems(2) by simp
    then have "fits pre q" "lg_enabled (rx_lg q) \<longrightarrow> appends w" using grouped_fits en Suc.prems(2) by auto
    from Suc.IH[OF this calls] True show ?thesis unfolding eq by simp
  next
    case False
    then show ?thesis using calls Suc.prems(3) unfolding eq by auto
  qed
qed simp


lemma number_nodes_facts:
  "nodes (number_nodes h) = [0..<length h]" "turns (number_nodes h) = turns h" "length (number_nodes h) = length h"
  "map m_role (number_nodes h) = map m_role h"
proof -
  show "nodes (number_nodes h) = [0..<length h]" "length (number_nodes h) = length h"
    "map m_role (number_nodes h) = map m_role h"
    by (auto simp: number_nodes_def nodes_def intro!: nth_equalityI)
  show "turns (number_nodes h) = turns h" unfolding number_nodes_def by (rule turns_number) simp
qed

definition seeded :: "run_msg list \<Rightarrow> string \<Rightarrow> run_ctx \<Rightarrow> run_ctx" where
  "seeded h prompt r = run_preamble (if h \<noteq> [] then r\<lparr>rx_messages := number_nodes h, rx_next := length h\<rparr>
     else push_msg r (new_msg r ''user'' (Some prompt) None None))"

lemma seeded_facts:
  assumes "rx_next r = 0" "rx_messages r = []" "turns h"
  shows "turns (rx_messages (seeded h prompt r))" "distinct (nodes (rx_messages (seeded h prompt r)))"
    "\<forall>n\<in>set (nodes (rx_messages (seeded h prompt r))). n < rx_next (seeded h prompt r)"
    "rx_lg (seeded h prompt r) = rx_lg r"
proof -
  have lt: "m_node m < length h" if "m \<in> set (number_nodes h)" for m
  proof -
    have "m_node m \<in> set (nodes (number_nodes h))" using that by (simp add: nodes_def)
    then show ?thesis by (simp add: number_nodes_facts(1))
  qed
  then have neq: "length h \<noteq> m_node m" if "m \<in> set (number_nodes h)" for m using that by (metis less_irrefl)
  show "turns (rx_messages (seeded h prompt r))" "distinct (nodes (rx_messages (seeded h prompt r)))"
    "\<forall>n\<in>set (nodes (rx_messages (seeded h prompt r))). n < rx_next (seeded h prompt r)"
    "rx_lg (seeded h prompt r) = rx_lg r"
    using assms number_nodes_facts(1-3)[of h] lt neq
    by (simp_all add: seeded_def run_preamble_def new_msg_def Let_def nodes_def less_SucI push_msg_def image_iff)
qed

lemma seeded_user:
  assumes "h = [] \<or> (\<exists>m\<in>set h. m_role m = ''user'')"
  shows "find_index (\<lambda>m. m_role m = ''user'') (rx_messages (seeded h prompt r)) \<noteq> None"
proof -
  have "\<exists>m\<in>set (rx_messages (seeded h prompt r)). m_role m = ''user''"
  proof (cases "h = []")
    case True
    then show ?thesis by (simp add: seeded_def run_preamble_def new_msg_def Let_def)
  next
    case False
    with assms have "''user'' \<in> set (map m_role (number_nodes h))" unfolding number_nodes_facts(4) by force
    then show ?thesis using False by (auto simp: seeded_def run_preamble_def Let_def)
  qed
  then show ?thesis by (auto simp: find_index_None)
qed

lemma fit_single:
  assumes "lg_items (rx_lg r) = [u]" "it_type u \<noteq> ''assistant''"
  shows "\<exists>n. agent_ledger_fit w r = r\<lparr>rx_clock := n\<rparr>"
proof (cases rule: fit_cases[of w r])
  case (2 n c)
  then show ?thesis using assms by (simp add: lg_protect_start_def lg_cand_entries_def)
qed blast

lemma seed_fits:
  fixes prompt sess
  assumes "turns h" "h = [] \<or> (\<exists>m\<in>set h. m_role m = ''user'')"
    and "lg_enabled (rx_lg (run_ctx0 w sess)) \<longrightarrow> appends w"
  defines "s \<equiv> run_seed w h prompt (run_ctx0 w sess)"
  shows "fits (rx_messages s) s"
proof -
  define r where "r = seeded h prompt (run_ctx0 w sess)"
  note f = seeded_facts[OF _ _ assms(1), of "run_ctx0 w sess" prompt, folded r_def]
  obtain i where i: "find_index (\<lambda>m. m_role m = ''user'') (rx_messages r) = Some i"
    using seeded_user[OF assms(2)] unfolding r_def by blast
  have s: "s = agent_ledger_add w r ''user'' (m_content (rx_messages r ! i)) 0 (m_node (rx_messages r ! i))"
    using i by (simp add: s_def run_seed_def Let_def seeded_def r_def)
  have lg: "lg_items (rx_lg r) = []" using f(4) by (simp add: run_ctx0_def agent_ledger_init_def)
  have items: "\<exists>u. lg_items (rx_lg s) = [u] \<and> it_type u = ''user''" if "lg_enabled (rx_lg s)"
  proof -
    have "lg_enabled (rx_lg r)" using that by (simp add: s)
    moreover from this have "appends w" using assms(3) f(4) by (simp add: run_ctx0_def)
    ultimately obtain e where "lg_items (rx_lg s) =
        lg_items (rx_lg r) @ [\<lparr>it_entry_id = e, it_type = snprintf_s AGENT_LEDGER_TYPE_LEN ''user'', it_msg = m_node (rx_messages r ! i)\<rparr>]"
      unfolding s using ledger_add_items by blast
    then show ?thesis by (simp add: lg type_name_fits(3))
  qed
  have ready: "ready (rx_messages s) [] (s\<lparr>rx_clock := n\<rparr>)" for n
    using f items by (auto simp: ready_def nodes_def s run_ctx0_def)
  have "\<exists>m. agent_ledger_fit v (s\<lparr>rx_clock := n\<rparr>) = s\<lparr>rx_clock := m\<rparr>" for v n
  proof (cases "lg_enabled (rx_lg s)")
    case True
    with items obtain u where "lg_items (rx_lg s) = [u]" "it_type u = ''user''" by blast
    with fit_single[of "s\<lparr>rx_clock := n\<rparr>" u v] show ?thesis by simp
  next
    case False
    then show ?thesis by (auto simp: agent_ledger_fit_def)
  qed
  then show ?thesis unfolding fits_def using ready by metis
qed

lemma seed_enabled:
  "lg_enabled (rx_lg (run_seed w history prompt r)) = lg_enabled (rx_lg r)"
  by (simp add: run_seed_def run_preamble_def Let_def split: option.split)

text \<open>
  C11. Take a run whose ledger is off, or whose ledger is on and mem_d refuses none of its entries, started
  from a history of complete turns with a user's message, or from none. Every request of the run is again a
  sequence of complete turns, in which each tool call is followed by its answers in order and no tool message
  stands alone, and it begins with the seeded messages: compression only ever replaces whole turns that came
  after them. With a refused entry this fails (\<open>refused_entry_orphans\<close>).
\<close>

theorem agent_requests_wellformed:
  assumes "turns history" "history = [] \<or> (\<exists>m\<in>set history. m_role m = ''user'')"
    and "lg_enabled (rx_lg (run_ctx0 w sess)) \<longrightarrow> appends w"
  shows "\<forall>c\<in>set (rx_calls (fst (agent_run_tool_loop w sess history prompt))).
    turns c \<and> prefix (rx_messages (run_seed w history prompt (run_ctx0 w sess))) c"
  unfolding agent_run_tool_loop_def
  using assms(3) seed_enabled[of w history prompt "run_ctx0 w sess"]
  by (intro run_rounds_requests[OF seed_fits[OF assms]]) (simp_all add: run_ctx0_def)


section \<open>Concrete runs\<close>

text \<open>
  A model that says the number of messages it was sent and calls one tool in every round, a compressor that
  loses nothing, a budget that is always exceeded, a tool and a ledger as given.
\<close>

definition demo_run_world :: "bool \<Rightarrow> (string \<Rightarrow> bool) \<Rightarrow> run_world" where
  "demo_run_world tool_ok ledger_ok =
     \<lparr>rw_stream = \<lparr>sn_is_tag = \<lambda>c. c = TAG_TOOL, sn_frame_max = 64,
        sn_tools = \<lambda>b. Some [\<lparr>tc_id = Some b, tc_name = Some ''fs_read'', tc_args = None\<rparr>],
        sn_usage = \<lambda>_. None, sn_error = \<lambda>_. (None, None)\<rparr>,
      rw_llm = \<lambda>_ ms. ([show_nat (length ms) @ [LLM_RS], ''Tx'' @ [LLM_RS]], True),
      rw_tool = \<lambda>_ _ _. if tool_ok then TA_OK \<lparr>to_success = Some 1, to_output = Some ''ok'', to_error = None, to_code = None, to_diag = None\<rparr>
                         else TA_FAIL 5,
      rw_append = \<lambda>_ ty _ _. if ledger_ok ty then Some (Some ''e'') else None,
      rw_warn = \<lambda>_. True,
      rw_compress = \<lambda>_ es. Some (concat (map (\<lambda>(_, _, t). t @ '';'') es)),
      rw_cancelled = \<lambda>_. False, rw_mem_sock = True, rw_sink = True,
      rw_err_str = \<lambda>_. ''lost'', rw_transport = \<lambda>_. False, rw_err_protocol = 9\<rparr>"

theorem agent_loop_bounds_witness:
  "\<exists>r. agent_run_tool_loop (demo_run_world False (\<lambda>_. True)) (Some ''s'') [] ''hi'' = (r, 2) \<and>
     length (rx_trace r) = 3 \<and> length (rx_calls r) = 3 \<and> 3 \<le> fails_tail (rx_trace r) \<and> fails_tail (take 2 (rx_trace r)) < 3"
proof -
  obtain r rc where r: "agent_run_tool_loop (demo_run_world False (\<lambda>_. True)) (Some ''s'') [] ''hi'' = (r, rc)"
    by (cases "agent_run_tool_loop (demo_run_world False (\<lambda>_. True)) (Some ''s'') [] ''hi''")
  have "(\<lambda>(r, rc). (rc, length (rx_trace r), length (rx_calls r)))
      (agent_run_tool_loop (demo_run_world False (\<lambda>_. True)) (Some ''s'') [] ''hi'') = (2, 3, 3)"
    by code_simp
  then have v: "rc = 2" "length (rx_trace r) = 3" "length (rx_calls r) = 3" by (simp_all add: r)
  from agent_loop_bounds[OF r] v r show ?thesis by (simp add: AGENT_RUN_RC_TOOL_FUSE_def)
qed

theorem agent_event_stream_witness:
  "let r = fst (agent_run_tool_loop (demo_run_world False (\<lambda>_. True)) (Some ''s'') [] ''hi'')
   in length (rx_events r) = 9 \<and> map fst (rx_events r) = map of_nat [0..<9] \<and>
      concat (map (\<lambda>e. ev_brief (snd e)) (rx_events r)) = concat (map trace_brief (rx_trace r))"
proof -
  have "length (rx_events (fst (agent_run_tool_loop (demo_run_world False (\<lambda>_. True)) (Some ''s'') [] ''hi''))) = 9"
    by code_simp
  with agent_event_stream[of "demo_run_world False (\<lambda>_. True)" "Some ''s''" "[]" "''hi''"] show ?thesis
    unfolding Let_def by (simp add: demo_run_world_def)
qed

theorem agent_requests_wellformed_witness:
  "let r = fst (agent_run_tool_loop (demo_run_world True (\<lambda>_. True)) (Some ''s'') [] ''hi'')
   in length (rx_calls r) = 8 \<and> turns (rx_calls r ! 7)"
proof -
  let ?r = "fst (agent_run_tool_loop (demo_run_world True (\<lambda>_. True)) (Some ''s'') [] ''hi'')"
  have n: "length (rx_calls ?r) = 8" by code_simp
  have "\<forall>c\<in>set (rx_calls ?r). turns c \<and>
      prefix (rx_messages (run_seed (demo_run_world True (\<lambda>_. True)) [] ''hi'' (run_ctx0 (demo_run_world True (\<lambda>_. True)) (Some ''s'')))) c"
    by (rule agent_requests_wellformed) (simp_all add: appends_def demo_run_world_def)
  then show ?thesis using n nth_mem[of 7 "rx_calls ?r"] by simp
qed

text \<open>
  The summary of an earlier compression has no ledger entry: the next compression removes it with the other
  candidates but does not submit its text. The third request of this run still has the first answer, in the
  summary of the first compression; the fourth has lost it, although the compressor drops nothing.
\<close>

definition said :: "run_msg list \<Rightarrow> string" where
  "said ms = concat (map (\<lambda>m. case m_content m of Some c \<Rightarrow> c @ '';'' | None \<Rightarrow> []) (drop 2 ms))"

lemma summary_of_summary_lost:
  "map said (take 4 (rx_calls (fst (agent_run_tool_loop (demo_run_world True (\<lambda>_. True)) (Some ''s'') [] ''hi'')))) =
     [[], ''2;ok;'', LG_PREFIX @ ''2;ok;;4;ok;'', LG_PREFIX @ ''4;ok;;5;ok;'']"
  by code_simp

text \<open>When mem_d refuses an entry, a compression leaves the tool message of a removed call behind.\<close>

lemma refused_entry_orphans:
  "map turns (take 3 (rx_calls (fst (agent_run_tool_loop (demo_run_world True (\<lambda>ty. ty \<noteq> ''tool_result'')) (Some ''s'') [] ''hi'')))) =
     [True, True, False]"
  by code_simp

end
