(* ===== verification/Agent_Exec.thy ===== *)
theory Agent_Exec
  imports Agent_Run_Spec
begin

text \<open>
  agent_d, the frame around the tool loop: the registry of running sessions, identifiers and the
  orchestration of a subagent (\<open>run/agent_run_engine.c\<close>), and one execution of \<open>agent.run\<close> from opening
  the session to the last event (\<open>run/agent_run_exec.c\<close>).

  The registry is the linked list, newest first, its entries named by address. think_d, the agent
  service, the model defaults, the file and cJSON answer through \<open>exec_world\<close>, which also says when a
  cancellation is seen; what other runs do to the registry while one execution is under way is not
  modelled. The records written to the decision chain and to mem_d are kept in the state.
  The loop numbers its events itself; they appear here with those numbers.
\<close>

section \<open>The registry of sessions\<close>

record run_session =
  rs_addr :: nat
  rs_session_id :: string
  rs_run_id :: string
  rs_cancelled :: bool

definition agent_run_register :: "nat \<Rightarrow> string option \<Rightarrow> run_session list \<Rightarrow> run_session list \<times> nat option" where
  "agent_run_register addr sid reg =
     (case sid of
        None \<Rightarrow> (reg, None)
      | Some s \<Rightarrow>
          if s = [] then (reg, None)
          else (\<lparr>rs_addr = addr, rs_session_id = snprintf_s AGENT_RUN_SESSION_ID_LEN s, rs_run_id = [], rs_cancelled = False\<rparr> # reg,
                Some addr))"

fun agent_run_unregister :: "nat \<Rightarrow> run_session list \<Rightarrow> run_session list" where
  "agent_run_unregister a [] = []"
| "agent_run_unregister a (s # ss) = (if rs_addr s = a then ss else s # agent_run_unregister a ss)"

definition agent_run_is_cancelled :: "run_session list \<Rightarrow> nat \<Rightarrow> bool" where
  "agent_run_is_cancelled reg a \<longleftrightarrow> list_ex (\<lambda>s. rs_addr s = a \<and> rs_cancelled s) reg"

definition session_at :: "run_session list \<Rightarrow> string \<Rightarrow> nat option" where
  "session_at reg sid = find_index (\<lambda>s. rs_session_id s = sid) reg"

text \<open>The flag says whether a session was found.\<close>

definition agent_run_cancel_by_session :: "string \<Rightarrow> run_session list \<Rightarrow> run_session list \<times> bool" where
  "agent_run_cancel_by_session sid reg =
     (if sid = [] then (reg, False)
      else case session_at reg sid of
             None \<Rightarrow> (reg, False)
           | Some i \<Rightarrow> (reg[i := (reg ! i)\<lparr>rs_cancelled := True\<rparr>], True))"

definition set_run_id :: "nat \<Rightarrow> string \<Rightarrow> run_session list \<Rightarrow> run_session list" where
  "set_run_id a rid reg = map (\<lambda>s. if rs_addr s = a then s\<lparr>rs_run_id := rid\<rparr> else s) reg"

section \<open>Identifiers\<close>

definition hex_pad :: "nat \<Rightarrow> nat \<Rightarrow> string" where
  "hex_pad k n = (let s = show_hex n in replicate (k - length s) (CHR ''0'') @ s)"

unbundle bit_operations_syntax

definition run_gen_id :: "64 word \<Rightarrow> 64 word \<Rightarrow> string \<Rightarrow> string" where
  "run_gen_id now s pfx =
     (let m = (now XOR push_bit 17 s) * 6364136223846793005
      in snprintf_s AGENT_RUN_SESSION_ID_LEN
           (pfx @ ''_'' @ hex_pad 16 (unat (now XOR m)) @ ''_'' @ hex_pad 4 (unat (s AND 0xFFFF))))"

section \<open>A subagent\<close>

datatype agent_spec = SpecParsed string | SpecRole string | SpecOther string

record think_obj =
  th_need :: bool
  th_questions :: "string option"
  th_plan :: "string option"

record exec_world =
  xw_loop :: "nat \<Rightarrow> run_world"
  xw_now :: "64 word \<Rightarrow> 64 word"
  xw_addr :: nat
  xw_model :: "string option \<Rightarrow> string option"
  xw_think :: "string \<Rightarrow> string option \<Rightarrow> think_obj option"
  xw_spawn :: "agent_spec \<Rightarrow> int \<times> string option"
  xw_invoke :: "string \<Rightarrow> string \<Rightarrow> int \<times> string option"
  xw_err_name :: "int \<Rightarrow> string"
  xw_file :: "string \<Rightarrow> string option"
  xw_json_object :: "string \<Rightarrow> bool"
  xw_cancel_seen :: bool
  xw_cancelled :: bool
  xw_xsink :: bool

definition AGENT_RUN_RC_SUBAGENT_FAIL :: int where "AGENT_RUN_RC_SUBAGENT_FAIL = 3"
definition AGENT_RUN_AGENT_FILE_MAX :: nat where "AGENT_RUN_AGENT_FILE_MAX = 64 * 1024"

definition agent_run_orch_reason :: "exec_world \<Rightarrow> string \<Rightarrow> int \<Rightarrow> string" where
  "agent_run_orch_reason w stage rc =
     snprintf_s 256 (''agent.'' @ stage @ '' failed: '' @ xw_err_name w rc @ '' ('' @ show_int rc @ '')'')"

text \<open>The text, or the reason of the failure.\<close>

definition agent_run_orchestrate :: "exec_world \<Rightarrow> agent_spec \<Rightarrow> string \<Rightarrow> string + string" where
  "agent_run_orchestrate w spec prompt =
     (case spec of
        SpecOther _ \<Rightarrow> Inl ''params.agent must be a JSON object (role/language/...)''
      | _ \<Rightarrow>
          (case xw_spawn w spec of
             (rc, aid) \<Rightarrow>
               if rc \<noteq> 0 \<or> aid = None then Inl (agent_run_orch_reason w ''spawn'' rc)
               else case xw_invoke w (the aid) prompt of
                      (rt, out) \<Rightarrow> if rt \<noteq> 0 \<or> out = None then Inl (agent_run_orch_reason w ''invoke'' rt) else Inr (the out)))"

function yaml_role_value :: "string \<Rightarrow> string option" where
  "yaml_role_value s =
     (if s = [] then None
      else if take 4 s = ''role''
      then (let q = dropWhile is_blank (drop 4 s)
            in if q \<noteq> [] \<and> hd q = CHR '':'' then Some (tl q) else yaml_role_value (drop 4 s))
      else yaml_role_value (tl s))"
  by pat_completeness auto
termination by (relation "measure length") auto

definition role_text :: "string \<Rightarrow> string" where
  "role_text src =
     rev (dropWhile (\<lambda>c. is_blank c \<or> c = CHR 0x22 \<or> c = CHR 0x27)
       (rev (take 127 (takeWhile (\<lambda>c. c \<noteq> chr_nl \<and> c \<noteq> CHR 0x0D \<and> c \<noteq> CHR '','') (dropWhile is_blank src)))))"

definition agent_spec_from_file :: "exec_world \<Rightarrow> string \<Rightarrow> agent_spec option" where
  "agent_spec_from_file w path =
     (if path = [] then None
      else case xw_file w path of
             None \<Rightarrow> None
           | Some content \<Rightarrow>
               (let buf = takeWhile (\<lambda>c. c \<noteq> CHR 0x00) (take AGENT_RUN_AGENT_FILE_MAX content)
                in if xw_json_object w buf then Some (SpecParsed buf)
                   else let role = role_text (case yaml_role_value buf of Some src \<Rightarrow> src | None \<Rightarrow> buf)
                        in if role = [] then None else Some (SpecRole role)))"

section \<open>One execution\<close>

datatype exec_event =
    RunStart string string
  | LoopEvent run_event
  | PlanEvent string
  | MessageEvent string "string option"
  | RunEnd string "64 word"
  | ErrorEvent int string bool

datatype chain_record =
    ChainStart string
  | ChainPlan string
  | ChainTools "(string \<times> string \<times> string) list"
  | ChainResult int "64 word" rat string

record exec_args =
  xa_prompt :: string
  xa_model :: "string option"
  xa_history :: "run_msg list"
  xa_answers :: "string option"
  xa_spec :: "agent_spec option"
  xa_file :: "string option"
  xa_session :: "string option"

record exec_ctx =
  xc_reg :: "run_session list"
  xc_ids :: "64 word"
  xc_sess :: string
  xc_run_id :: string
  xc_mname :: string
  xc_seq :: "64 word"
  xc_events :: "(64 word \<times> exec_event) list"
  xc_chain :: "chain_record list"
  xc_gccp :: bool
  xc_think :: "think_obj option"
  xc_trace :: "trace_item list option"
  xc_text :: "string option"
  xc_reason :: string
  xc_tokens :: "64 word"
  xc_cost :: rat
  xc_rc :: int
  xc_loops :: nat
  xc_calls :: "run_msg list list"
  xc_written :: "string list"

record run_result =
  rr_session :: string
  rr_response :: string
  rr_tokens :: "64 word"
  rr_cost :: rat
  rr_trace :: "trace_item list"
  rr_interaction :: bool
  rr_questions :: "string option"
  rr_thinking :: "think_obj option"

definition emit_event :: "exec_world \<Rightarrow> exec_ctx \<Rightarrow> exec_event \<Rightarrow> exec_ctx" where
  "emit_event w c ev =
     (if xw_xsink w then c\<lparr>xc_events := xc_events c @ [(xc_seq c, ev)], xc_seq := xc_seq c + 1\<rparr> else c)"

definition agent_record_event :: "exec_ctx \<Rightarrow> chain_record \<Rightarrow> exec_ctx" where
  "agent_record_event c e = (if xc_sess c = [] then c else c\<lparr>xc_chain := xc_chain c @ [e]\<rparr>)"

definition run_loop :: "exec_world \<Rightarrow> exec_args \<Rightarrow> run_msg list \<Rightarrow> exec_ctx \<Rightarrow> exec_ctx" where
  "run_loop w a history c =
     (case agent_run_tool_loop (xw_loop w (xc_loops c)) (Some (xc_sess c)) history (xa_prompt a) of
        (r, rc) \<Rightarrow>
          (let done = rc = 0 \<or> rc = AGENT_RUN_RC_TOOL_FUSE
           in c\<lparr>xc_rc := rc, xc_trace := (if done then Some (rx_trace r) else None),
                xc_text := (if done then rx_text r else None), xc_reason := (if done then rx_reason r else []),
                xc_tokens := rx_tokens r, xc_cost := rx_cost r, xc_loops := Suc (xc_loops c),
                xc_calls := xc_calls c @ rx_calls r,
                xc_events := xc_events c @ map (\<lambda>(n, e). (n, LoopEvent e)) (rx_events r)\<rparr>))"

definition no_model_text :: string where
  "no_model_text = ''no model configured: set $AIRY_CONFIG_DIR/model.yaml or AIRY_AGENT_MODEL''"

definition run_open :: "exec_world \<Rightarrow> exec_args \<Rightarrow> exec_ctx \<Rightarrow> exec_ctx \<times> bool" where
  "run_open w a c =
     (let own = (case xa_session a of
                   Some s \<Rightarrow> s \<noteq> [] \<and> length s < AGENT_RUN_SESSION_ID_LEN \<and> take 5 s = ''sess_''
                 | None \<Rightarrow> False);
          c = (if own then c\<lparr>xc_sess := the (xa_session a)\<rparr>
               else c\<lparr>xc_sess := run_gen_id (xw_now w (xc_ids c)) (xc_ids c) ''sess'', xc_ids := xc_ids c + 1\<rparr>)
      in case agent_run_register (xw_addr w) (Some (xc_sess c)) (xc_reg c) of
           (reg, None) \<Rightarrow> (c\<lparr>xc_reg := reg\<rparr>, False)
         | (reg, Some addr) \<Rightarrow>
             (let rid = run_gen_id (xw_now w (xc_ids c)) (xc_ids c) ''run'';
                  c = c\<lparr>xc_reg := set_run_id addr rid reg, xc_run_id := rid, xc_ids := xc_ids c + 1\<rparr>
              in case xw_model w (xa_model a) of
                   Some m \<Rightarrow> (c\<lparr>xc_mname := snprintf_s 128 m\<rparr>, True)
                 | None \<Rightarrow>
                     (let c = emit_event w c (ErrorEvent (-32603) no_model_text False)
                      in (c\<lparr>xc_reg := agent_run_unregister addr (xc_reg c)\<rparr>, False))))"

definition run_announce :: "exec_world \<Rightarrow> exec_args \<Rightarrow> exec_ctx \<Rightarrow> exec_ctx" where
  "run_announce w a c =
     (let p = snprintf_s 520 (xa_prompt a)
      in emit_event w (agent_record_event c (ChainStart p)) (RunStart p (xc_mname c)))"

definition run_orch :: "exec_world \<Rightarrow> exec_args \<Rightarrow> agent_spec \<Rightarrow> exec_ctx \<Rightarrow> exec_ctx" where
  "run_orch w a spec c =
     (case agent_run_orchestrate w spec (xa_prompt a) of
        Inr out \<Rightarrow> c\<lparr>xc_rc := 0, xc_trace := Some [], xc_text := Some out\<rparr>
      | Inl err \<Rightarrow> c\<lparr>xc_rc := AGENT_RUN_RC_SUBAGENT_FAIL, xc_trace := Some [], xc_text := Some err\<rparr>)"

definition plan_tail :: string where
  "plan_tail =
     [CHR 0x0A, CHR 0xE3, CHR 0x80, CHR 0x90, CHR 0xE8, CHR 0xBD, CHR 0xAE, CHR 0xE6, CHR 0xAC, CHR 0xA1,
     CHR 0xE8, CHR 0xBE, CHR 0xB9, CHR 0xE7, CHR 0x95, CHR 0x8C, CHR 0xE3, CHR 0x80, CHR 0x91, CHR 0xE5,
     CHR 0x8E, CHR 0x86, CHR 0xE5, CHR 0x8F, CHR 0xB2, CHR 0xE6, CHR 0xB6, CHR 0x88, CHR 0xE6, CHR 0x81,
     CHR 0xAF, CHR 0xEF, CHR 0xBC, CHR 0x88, CHR 0xE8, CHR 0x8B, CHR 0xA5, CHR 0xE6, CHR 0x9C, CHR 0x89,
     CHR 0xEF, CHR 0xBC, CHR 0x89, CHR 0xE4, CHR 0xBB, CHR 0x85, CHR 0xE4, CHR 0xBE, CHR 0x9B, CHR 0xE6,
     CHR 0x8C, CHR 0x87, CHR 0xE4, CHR 0xBB, CHR 0xA3, CHR 0xE6, CHR 0xB6, CHR 0x88, CHR 0xE8, CHR 0xA7,
     CHR 0xA3, CHR 0xEF, CHR 0xBC, CHR 0x9B, CHR 0xE5, CHR 0x9B, CHR 0x9E, CHR 0xE7, CHR 0xAD, CHR 0x94,
     CHR 0xE5, CHR 0xBF, CHR 0x85, CHR 0xE9, CHR 0xA1, CHR 0xBB, CHR 0xE7, CHR 0x9B, CHR 0xB4, CHR 0xE6,
     CHR 0x8E, CHR 0xA5, CHR 0xE9, CHR 0x92, CHR 0x88, CHR 0xE5, CHR 0xAF, CHR 0xB9, CHR 0xE6, CHR 0x9C,
     CHR 0xAC, CHR 0xE4, CHR 0xBB, CHR 0xBB, CHR 0xE5, CHR 0x8A, CHR 0xA1, CHR 0xE7, CHR 0x9A, CHR 0x84,
     CHR 0xE6, CHR 0x9C, CHR 0x80, CHR 0xE5, CHR 0x90, CHR 0x8E, CHR 0xE4, CHR 0xB8, CHR 0x80, CHR 0xE6,
     CHR 0x9D, CHR 0xA1, CHR 0xE7, CHR 0x94, CHR 0xA8, CHR 0xE6, CHR 0x88, CHR 0xB7, CHR 0xE6, CHR 0xB6,
     CHR 0x88, CHR 0xE6, CHR 0x81, CHR 0xAF, CHR 0xEF, CHR 0xBC, CHR 0x8C, CHR 0xE7, CHR 0xA6, CHR 0x81,
     CHR 0xE6, CHR 0xAD, CHR 0xA2, CHR 0xE5, CHR 0xBB, CHR 0xB6, CHR 0xE7, CHR 0xBB, CHR 0xAD, CHR 0xE5,
     CHR 0x8E, CHR 0x86, CHR 0xE5, CHR 0x8F, CHR 0xB2, CHR 0xE4, CHR 0xB8, CHR 0xBB, CHR 0xE9, CHR 0xA2,
     CHR 0x98, CHR 0xE4, CHR 0xBD, CHR 0x9C, CHR 0xE7, CHR 0xAD, CHR 0x94, CHR 0xE3, CHR 0x80, CHR 0x82]"

definition plan_system :: "string \<Rightarrow> string" where
  "plan_system plan =
     (let s = ''You are executing a task under the AgentRT dual-thinking system (GCCP goal confirmation + '' @
              ''GRAD plan critique). A verified action plan has been produced. Follow this DAG plan strictly:'' @ [chr_nl] @
              plan @ plan_tail
      in if length s < 8192 then s else ''Execute the user request following the verified action plan.'')"

definition plan_msg :: "string \<Rightarrow> string \<Rightarrow> run_msg" where
  "plan_msg role content = \<lparr>m_node = 0, m_role = role, m_content = Some content, m_calls = None, m_call_id = None\<rparr>"

definition run_plan :: "exec_world \<Rightarrow> exec_args \<Rightarrow> string \<Rightarrow> exec_ctx \<Rightarrow> exec_ctx" where
  "run_plan w a plan c =
     (let c = agent_record_event c (ChainPlan (snprintf_s 1024 plan));
          messages = xa_history a @ [plan_msg ''system'' (plan_system plan), plan_msg ''user'' (xa_prompt a)];
          c = run_loop w a messages c
      in emit_event w c (PlanEvent (snprintf_s 2048 plan)))"

definition run_think :: "exec_world \<Rightarrow> exec_args \<Rightarrow> exec_ctx \<Rightarrow> exec_ctx" where
  "run_think w a c =
     (case xw_think w (xc_sess c) (xa_answers a) of
        None \<Rightarrow> run_loop w a (xa_history a) c
      | Some t \<Rightarrow>
          (let c = c\<lparr>xc_think := Some t\<rparr>
           in if th_need t then c\<lparr>xc_gccp := True, xc_trace := Some [], xc_rc := 0\<rparr>
              else let c = (case th_plan t of None \<Rightarrow> c | Some plan \<Rightarrow> run_plan w a plan c)
                   in if xc_rc c < 0 then run_loop w a (xa_history a) c else c))"

definition run_tools_evt :: "exec_ctx \<Rightarrow> trace_item list \<Rightarrow> exec_ctx" where
  "run_tools_evt c trace =
     agent_record_event c (ChainTools (map (\<lambda>t. (tr_tool t, snprintf_s 160 (tr_args t), snprintf_s 160 (tr_result t))) (take 32 trace)))"

definition text_or_empty :: "exec_ctx \<Rightarrow> string" where
  "text_or_empty c = (case xc_text c of Some t \<Rightarrow> t | None \<Rightarrow> [])"

definition run_chain :: "exec_ctx \<Rightarrow> exec_ctx" where
  "run_chain c =
     (let c = (case xc_trace c of Some (t # ts) \<Rightarrow> run_tools_evt c (t # ts) | _ \<Rightarrow> c)
      in if xc_gccp c then c
         else agent_record_event c (ChainResult (xc_rc c) (xc_tokens c) (xc_cost c) (snprintf_s 520 (text_or_empty c))))"

definition run_fill :: "exec_args \<Rightarrow> exec_ctx \<Rightarrow> exec_ctx \<times> run_result" where
  "run_fill a c =
     (let ask = xc_think c \<noteq> None \<and> xc_gccp c \<and> xc_rc c = 0;
          res = \<lparr>rr_session = xc_sess c, rr_response = text_or_empty c, rr_tokens = xc_tokens c, rr_cost = xc_cost c,
                 rr_trace = (case xc_trace c of Some t \<Rightarrow> t | None \<Rightarrow> []), rr_interaction = ask,
                 rr_questions = (if ask then th_questions (the (xc_think c)) else None), rr_thinking = xc_think c\<rparr>;
          c = (if xc_rc c = 0 \<and> \<not> xc_gccp c
               then c\<lparr>xc_written := xc_written c @ [''user: '' @ xa_prompt a @ [chr_nl] @ ''assistant: '' @ text_or_empty c]\<rparr> else c)
      in (c\<lparr>xc_trace := None, xc_think := None\<rparr>, res))"

definition failure_text :: "exec_ctx \<Rightarrow> string" where
  "failure_text c =
     (if text_or_empty c \<noteq> [] then text_or_empty c else ''agent.run failed: tool loop exhausted or LLM service error'')"

definition run_tail :: "exec_world \<Rightarrow> bool \<Rightarrow> exec_ctx \<Rightarrow> exec_ctx" where
  "run_tail w cancelled c =
     (let c = (case xc_text c of
                 Some t \<Rightarrow>
                   if xc_rc c = 0 \<and> \<not> xc_gccp c
                   then emit_event w c (MessageEvent t (if xc_reason c = [] then None else Some (xc_reason c))) else c
               | None \<Rightarrow> c);
          c = emit_event w c (RunEnd (if cancelled then ''cancelled'' else if xc_rc c \<noteq> 0 then ''failed'' else ''completed'') (xc_tokens c))
      in if xc_rc c \<noteq> 0 \<and> \<not> cancelled then emit_event w c (ErrorEvent (-32603) (failure_text c) True) else c)"

definition exec_ctx0 :: "run_session list \<Rightarrow> 64 word \<Rightarrow> exec_ctx" where
  "exec_ctx0 reg ids =
     \<lparr>xc_reg = reg, xc_ids = ids, xc_sess = [], xc_run_id = [], xc_mname = [], xc_seq = 0, xc_events = [], xc_chain = [],
      xc_gccp = False, xc_think = None, xc_trace = None, xc_text = None, xc_reason = [], xc_tokens = 0, xc_cost = 0,
      xc_rc = -1, xc_loops = 0, xc_calls = [], xc_written = []\<rparr>"

definition run_branch :: "exec_world \<Rightarrow> exec_args \<Rightarrow> exec_ctx \<Rightarrow> exec_ctx" where
  "run_branch w a c =
     (let spec = (case xa_spec a of
                    Some s \<Rightarrow> Some s
                  | None \<Rightarrow> (case xa_file a of Some f \<Rightarrow> agent_spec_from_file w f | None \<Rightarrow> None))
      in case spec of Some s \<Rightarrow> run_orch w a s c | None \<Rightarrow> run_think w a c)"

definition agent_run_execute :: "exec_world \<Rightarrow> exec_args \<Rightarrow> run_session list \<Rightarrow> 64 word \<Rightarrow> exec_ctx \<times> int \<times> run_result option" where
  "agent_run_execute w a reg ids =
     (if xa_prompt a = [] then (exec_ctx0 reg ids, -1, None)
      else case run_open w a (exec_ctx0 reg ids) of
             (c, False) \<Rightarrow> (c, -1, None)
           | (c, True) \<Rightarrow>
               (let c = run_branch w a (run_announce w a c);
                    c = (if \<not> xw_cancel_seen w \<and> xc_rc c = 0 then run_chain c else c);
                    c = c\<lparr>xc_reg := agent_run_unregister (xw_addr w) (xc_reg c)\<rparr>;
                    (c, res) = run_fill a c;
                    c = run_tail w (xw_cancelled w) c
                in (c, if xw_cancelled w then 1 else xc_rc c, Some res)))"


section \<open>What a client sees of an execution\<close>

definition body_event :: "exec_event \<Rightarrow> bool" where
  "body_event e = (case e of LoopEvent _ \<Rightarrow> True | PlanEvent _ \<Rightarrow> True | _ \<Rightarrow> False)"

definition tail_events :: "bool \<Rightarrow> exec_ctx \<Rightarrow> exec_event list" where
  "tail_events cancelled c =
     (if xc_rc c = 0 \<and> \<not> xc_gccp c then [MessageEvent (text_or_empty c) (if xc_reason c = [] then None else Some (xc_reason c))] else []) @
     [RunEnd (if cancelled then ''cancelled'' else if xc_rc c = 0 then ''completed'' else ''failed'') (xc_tokens c)] @
     (if xc_rc c \<noteq> 0 \<and> \<not> cancelled then [ErrorEvent (-32603) (failure_text c) True] else [])"

text \<open>What a branch of the execution leaves: it only adds events of its body, and the code and text agree.\<close>

definition branch_ok :: "exec_ctx \<Rightarrow> nat \<Rightarrow> exec_ctx \<Rightarrow> bool" where
  "branch_ok c n q \<longleftrightarrow> (\<exists>mid. map snd (xc_events q) = map snd (xc_events c) @ mid \<and> list_all body_event mid) \<and>
     length (xc_calls q) \<le> length (xc_calls c) + n \<and> xc_reg q = xc_reg c \<and> xc_sess q = xc_sess c \<and> xc_mname q = xc_mname c \<and>
     xc_rc q \<in> {-1, 0, 1, 2, 3} \<and> (xc_rc q = 0 \<longrightarrow> xc_gccp q \<or> xc_text q \<noteq> None)"

lemma emit_event_frame [simp]:
  "xc_reg (emit_event w c e) = xc_reg c" "xc_sess (emit_event w c e) = xc_sess c" "xc_mname (emit_event w c e) = xc_mname c"
  "xc_rc (emit_event w c e) = xc_rc c" "xc_text (emit_event w c e) = xc_text c" "xc_gccp (emit_event w c e) = xc_gccp c"
  "xc_reason (emit_event w c e) = xc_reason c" "xc_tokens (emit_event w c e) = xc_tokens c" "xc_calls (emit_event w c e) = xc_calls c"
  "xc_written (emit_event w c e) = xc_written c" "xc_chain (emit_event w c e) = xc_chain c" "xc_trace (emit_event w c e) = xc_trace c"
  "xw_xsink w \<Longrightarrow> map snd (xc_events (emit_event w c e)) = map snd (xc_events c) @ [e]"
  by (simp_all add: emit_event_def)

lemma record_event_frame [simp]:
  "xc_reg (agent_record_event c e) = xc_reg c" "xc_sess (agent_record_event c e) = xc_sess c" "xc_mname (agent_record_event c e) = xc_mname c"
  "xc_rc (agent_record_event c e) = xc_rc c" "xc_text (agent_record_event c e) = xc_text c" "xc_gccp (agent_record_event c e) = xc_gccp c"
  "xc_reason (agent_record_event c e) = xc_reason c" "xc_tokens (agent_record_event c e) = xc_tokens c" "xc_calls (agent_record_event c e) = xc_calls c"
  "xc_written (agent_record_event c e) = xc_written c" "xc_trace (agent_record_event c e) = xc_trace c"
  "xc_events (agent_record_event c e) = xc_events c" "xc_loops (agent_record_event c e) = xc_loops c"
  by (simp_all add: agent_record_event_def)

lemma branch_trans:
  assumes "branch_ok c n p" "branch_ok p m q"
  shows "branch_ok c (n + m) q"
proof -
  obtain x y where "map snd (xc_events p) = map snd (xc_events c) @ x" "list_all body_event x"
    "map snd (xc_events q) = map snd (xc_events p) @ y" "list_all body_event y"
    using assms unfolding branch_ok_def by blast
  then have "map snd (xc_events q) = map snd (xc_events c) @ (x @ y)" "list_all body_event (x @ y)" by simp_all
  then have "\<exists>mid. map snd (xc_events q) = map snd (xc_events c) @ mid \<and> list_all body_event mid" by blast
  then show ?thesis using assms by (simp add: branch_ok_def)
qed

lemma run_loop_branch: "branch_ok c 8 (run_loop w a h c)"
proof -
  obtain r rc where l: "agent_run_tool_loop (xw_loop w (xc_loops c)) (Some (xc_sess c)) h (xa_prompt a) = (r, rc)"
    by (cases "agent_run_tool_loop (xw_loop w (xc_loops c)) (Some (xc_sess c)) h (xa_prompt a)")
  have e: "list_all body_event (map (snd \<circ> (\<lambda>(n, e). (n, LoopEvent e))) (rx_events r))"
    by (auto simp: body_event_def list_all_iff)
  from tool_loop_law[OF l] e show ?thesis
    by (auto simp: branch_ok_def run_loop_def l Let_def AGENT_RUN_RC_TOOL_FUSE_def)
qed

lemma branch_event: "branch_ok c n q \<Longrightarrow> body_event e \<Longrightarrow> branch_ok c n (emit_event w q e)"
  by (cases "xw_xsink w") (auto simp: branch_ok_def emit_event_def)

lemma run_plan_branch: "branch_ok c 8 (run_plan w a plan c)"
proof -
  let ?d = "agent_record_event c (ChainPlan (snprintf_s 1024 plan))"
  have "branch_ok ?d 8 (run_loop w a (xa_history a @ [plan_msg ''system'' (plan_system plan), plan_msg ''user'' (xa_prompt a)]) ?d)"
    by (rule run_loop_branch)
  then have "branch_ok c 8 (run_loop w a (xa_history a @ [plan_msg ''system'' (plan_system plan), plan_msg ''user'' (xa_prompt a)]) ?d)"
    by (simp add: branch_ok_def)
  then show ?thesis unfolding run_plan_def Let_def by (rule branch_event) (simp add: body_event_def)
qed

lemma run_think_branch:
  assumes "xc_rc c = -1"
  shows "branch_ok c 16 (run_think w a c)"
proof (cases "xw_think w (xc_sess c) (xa_answers a)")
  case None
  then show ?thesis using run_loop_branch[of c w a "xa_history a"] by (simp add: run_think_def branch_ok_def)
next
  case (Some t)
  let ?c = "c\<lparr>xc_think := Some t\<rparr>"
  let ?p = "case th_plan t of None \<Rightarrow> ?c | Some plan \<Rightarrow> run_plan w a plan ?c"
  have p: "branch_ok ?c 8 ?p" using run_plan_branch[of ?c w a] assms by (simp add: branch_ok_def split: option.split)
  then have "branch_ok ?c 16 ?p" by (simp add: branch_ok_def)
  moreover have "branch_ok ?c 16 (run_loop w a (xa_history a) ?p)"
    using branch_trans[OF p run_loop_branch[of ?p w a "xa_history a"]] by simp
  moreover have "branch_ok ?c 16 (?c\<lparr>xc_gccp := True, xc_trace := Some [], xc_rc := 0\<rparr>)" by (simp add: branch_ok_def)
  ultimately have "branch_ok ?c 16 (run_think w a c)" by (simp add: run_think_def Some Let_def)
  then show ?thesis by (simp add: branch_ok_def)
qed

lemma run_branch_ok:
  assumes "xc_rc c = -1"
  shows "branch_ok c 16 (run_branch w a c)"
proof -
  have "branch_ok c 16 (run_orch w a spec c)" for spec
    by (simp add: run_orch_def branch_ok_def AGENT_RUN_RC_SUBAGENT_FAIL_def split: sum.split)
  then show ?thesis using run_think_branch[OF assms] by (simp add: run_branch_def Let_def split: option.split)
qed

lemma run_chain_frame [simp]:
  "xc_reg (run_chain c) = xc_reg c" "xc_mname (run_chain c) = xc_mname c" "xc_rc (run_chain c) = xc_rc c"
  "xc_text (run_chain c) = xc_text c" "xc_gccp (run_chain c) = xc_gccp c" "xc_calls (run_chain c) = xc_calls c"
  "xc_events (run_chain c) = xc_events c" "xc_written (run_chain c) = xc_written c"
  by (auto simp: run_chain_def run_tools_evt_def Let_def split: option.split list.split)

lemma run_fill_frame [simp]:
  "xc_reg (fst (run_fill a c)) = xc_reg c" "xc_mname (fst (run_fill a c)) = xc_mname c" "xc_rc (fst (run_fill a c)) = xc_rc c"
  "xc_text (fst (run_fill a c)) = xc_text c" "xc_gccp (fst (run_fill a c)) = xc_gccp c" "xc_calls (fst (run_fill a c)) = xc_calls c"
  "xc_events (fst (run_fill a c)) = xc_events c" "rr_response (snd (run_fill a c)) = text_or_empty c"
  by (simp_all add: run_fill_def Let_def)

lemma run_tail_frame [simp]:
  "xc_reg (run_tail w k c) = xc_reg c" "xc_mname (run_tail w k c) = xc_mname c" "xc_rc (run_tail w k c) = xc_rc c"
  "xc_text (run_tail w k c) = xc_text c" "xc_gccp (run_tail w k c) = xc_gccp c" "xc_calls (run_tail w k c) = xc_calls c"
  "xc_reason (run_tail w k c) = xc_reason c" "xc_tokens (run_tail w k c) = xc_tokens c"
  by (auto simp: run_tail_def Let_def split: option.split)

lemma run_tail_events:
  assumes "xw_xsink w" "xc_rc c = 0 \<longrightarrow> xc_gccp c \<or> xc_text c \<noteq> None"
  shows "map snd (xc_events (run_tail w k c)) = map snd (xc_events c) @ tail_events k (run_tail w k c)"
  using assms by (cases "xc_text c") (auto simp: run_tail_def tail_events_def text_or_empty_def failure_text_def Let_def)

lemma set_run_id_fresh: "a \<notin> rs_addr ` set reg \<Longrightarrow> set_run_id a rid reg = reg"
  unfolding set_run_id_def by (rule map_idI) auto

lemma run_open_facts:
  assumes "run_open w a (exec_ctx0 reg ids) = (c, True)" "xw_addr w \<notin> rs_addr ` set reg"
  shows "\<exists>s. xc_reg c = s # reg \<and> rs_addr s = xw_addr w" "xc_events c = []" "xc_calls c = []" "xc_rc c = -1"
  using assms set_run_id_fresh[OF assms(2)]
  by (auto simp: run_open_def exec_ctx0_def agent_run_register_def set_run_id_def Let_def split: if_splits option.splits)

text \<open>
  C23. An execution that yields a result shows a listening client first the start, then only the loop's
  events and the plan, and at the end, in this order, the message if there is an answer, exactly one
  end with its status, and an error if it failed and was not cancelled. Its code is one of -1, 0, 1, 2,
  3 (1 when cancelled), an answer of code 0 that asks nothing back has a text and it is the
  response, there are at most sixteen model calls, and the session is registered no more.
\<close>

theorem agent_execute_protocol:
  assumes "agent_run_execute w a reg ids = (c, ret, Some res)" "xw_xsink w" "xw_addr w \<notin> rs_addr ` set reg"
  shows "(\<exists>mid. map snd (xc_events c) = RunStart (snprintf_s 520 (xa_prompt a)) (xc_mname c) # mid @ tail_events (xw_cancelled w) c \<and>
      list_all body_event mid) \<and>
    ret = (if xw_cancelled w then 1 else xc_rc c) \<and> xc_rc c \<in> {-1, 0, 1, 2, 3} \<and>
    (xc_rc c = 0 \<and> \<not> xc_gccp c \<longrightarrow> xc_text c = Some (rr_response res)) \<and>
    length (xc_calls c) \<le> 16 \<and> xc_reg c = reg"
proof -
  obtain o1 where o: "run_open w a (exec_ctx0 reg ids) = (o1, True)"
    using assms(1) by (auto simp: agent_run_execute_def split: if_splits prod.splits bool.splits)
  note of = run_open_facts[OF o assms(3)]
  define b where "b = run_branch w a (run_announce w a o1)"
  define d where "d = (if \<not> xw_cancel_seen w \<and> xc_rc b = 0 then run_chain b else b)\<lparr>xc_reg := agent_run_unregister (xw_addr w) (xc_reg b)\<rparr>"
  have ann: "map snd (xc_events (run_announce w a o1)) = [RunStart (snprintf_s 520 (xa_prompt a)) (xc_mname o1)]"
    "xc_rc (run_announce w a o1) = -1" "xc_calls (run_announce w a o1) = []" "xc_reg (run_announce w a o1) = xc_reg o1"
    "xc_mname (run_announce w a o1) = xc_mname o1"
    using of assms(2) by (simp_all add: run_announce_def Let_def)
  note br = run_branch_ok[OF ann(2), of w a, folded b_def, unfolded branch_ok_def ann]
  have dd: "xc_events d = xc_events b" "xc_calls d = xc_calls b" "xc_rc d = xc_rc b" "xc_gccp d = xc_gccp b" "xc_text d = xc_text b"
    "xc_mname d = xc_mname b" "xc_reg d = agent_run_unregister (xw_addr w) (xc_reg b)"
    by (simp_all add: d_def)
  have c: "c = run_tail w (xw_cancelled w) (fst (run_fill a d))" "ret = (if xw_cancelled w then 1 else xc_rc c)" "res = snd (run_fill a d)"
    using assms(1) o by (auto simp: agent_run_execute_def Let_def b_def d_def split: if_splits prod.splits)
  obtain mid where mid: "map snd (xc_events b) = RunStart (snprintf_s 520 (xa_prompt a)) (xc_mname o1) # mid" "list_all body_event mid"
    using br by auto
  have t: "xc_rc (fst (run_fill a d)) = 0 \<longrightarrow> xc_gccp (fst (run_fill a d)) \<or> xc_text (fst (run_fill a d)) \<noteq> None"
    using br by (simp add: dd)
  have ev: "map snd (xc_events c) = RunStart (snprintf_s 520 (xa_prompt a)) (xc_mname c) # mid @ tail_events (xw_cancelled w) c"
    using run_tail_events[OF assms(2) t, of "xw_cancelled w"] mid(1) br by (simp add: c(1) dd)
  have "xc_reg c = reg" using of(1) br by (auto simp: c(1) dd)
  moreover have "xc_rc c = 0 \<and> \<not> xc_gccp c \<longrightarrow> xc_text c = Some (rr_response res)"
    using br by (auto simp: c(1,3) dd text_or_empty_def)
  moreover have "xc_rc c \<in> {-1, 0, 1, 2, 3}" "length (xc_calls c) \<le> 16" using br by (simp_all add: c(1) dd)
  ultimately show ?thesis using ev mid(2) c(2) by (intro conjI exI[of _ mid])
qed

section \<open>The registry\<close>

interpretation rsn: keyed_table "map rs_session_id" "\<lambda>_. True" session_at
  by unfold_locales (auto simp: session_at_def find_index_Some_iff)

lemma cancel_exact:
  assumes "sid \<noteq> []"
  shows "snd (agent_run_cancel_by_session sid reg) \<longleftrightarrow> sid \<in> rs_session_id ` set reg"
    and "agent_run_is_cancelled (fst (agent_run_cancel_by_session sid reg)) x \<longleftrightarrow>
      agent_run_is_cancelled reg x \<or> (\<exists>i. session_at reg sid = Some i \<and> x = rs_addr (reg ! i))"
proof -
  show "snd (agent_run_cancel_by_session sid reg) \<longleftrightarrow> sid \<in> rs_session_id ` set reg"
    using rsn.find_None[where k = sid and t = reg] assms by (auto simp: agent_run_cancel_by_session_def split: option.split)
  show "agent_run_is_cancelled (fst (agent_run_cancel_by_session sid reg)) x \<longleftrightarrow>
      agent_run_is_cancelled reg x \<or> (\<exists>i. session_at reg sid = Some i \<and> x = rs_addr (reg ! i))"
  proof (cases "session_at reg sid")
    case None
    then show ?thesis by (simp add: agent_run_cancel_by_session_def)
  next
    case (Some i)
    then have i: "i < length reg" by (simp add: session_at_def find_index_Some_iff)
    have "(\<exists>s\<in>set (reg[i := (reg ! i)\<lparr>rs_cancelled := True\<rparr>]). rs_addr s = x \<and> rs_cancelled s) \<longleftrightarrow>
        (\<exists>s\<in>set reg. rs_addr s = x \<and> rs_cancelled s) \<or> x = rs_addr (reg ! i)"
    proof -
      have "(\<exists>s\<in>set xs. rs_addr s = x \<and> rs_cancelled s) \<longleftrightarrow> (\<exists>j<length xs. rs_addr (xs ! j) = x \<and> rs_cancelled (xs ! j))" for xs :: "run_session list"
        by (metis in_set_conv_nth)
      then show ?thesis using i by (auto simp: nth_list_update)
    qed
    with Some assms show ?thesis by (simp add: agent_run_cancel_by_session_def agent_run_is_cancelled_def list_ex_iff)
  qed
qed

text \<open>Two runs of one session: a cancellation reaches the newer one only.\<close>

lemma older_run_not_cancelled:
  "let reg = fst (agent_run_register 2 (Some ''sess_a'') (fst (agent_run_register 1 (Some ''sess_a'') [])));
       reg' = fst (agent_run_cancel_by_session ''sess_a'' reg)
   in agent_run_is_cancelled reg' 2 \<and> \<not> agent_run_is_cancelled reg' 1"
  by code_simp

section \<open>Concrete executions\<close>

text \<open>
  A plan is followed by a loop that uses 5 tokens in its first round and then loses the connection; the
  second loop answers at once and uses 7.
\<close>

definition usage_world :: "rat \<Rightarrow> bool \<Rightarrow> run_world" where
  "usage_world n fails =
     (demo_run_world True (\<lambda>_. True))
       \<lparr>rw_stream := (rw_stream (demo_run_world True (\<lambda>_. True)))
          \<lparr>sn_is_tag := \<lambda>c. c = TAG_TOOL \<or> c = TAG_USAGE,
           sn_usage := \<lambda>_. Some \<lparr>uo_prompt = None, uo_completion = None, uo_total = Some n, uo_cost = None\<rparr>\<rparr>,
        rw_llm := \<lambda>_ ms. ([''hm'' @ [LLM_RS] @ ''Uu'' @ [LLM_RS] @ (if fails then [LLM_RS] @ ''Tx'' @ [LLM_RS] else [])],
                         \<not> (fails \<and> list_ex (\<lambda>m. m_role m = ''tool'') ms))\<rparr>"

definition demo_exec_world :: exec_world where
  "demo_exec_world =
     \<lparr>xw_loop = \<lambda>k. if k = 0 then usage_world 5 True else usage_world 7 False, xw_now = \<lambda>_. 0, xw_addr = 1,
      xw_model = \<lambda>_. Some ''m'', xw_think = \<lambda>_ _. Some \<lparr>th_need = False, th_questions = None, th_plan = Some ''[]''\<rparr>,
      xw_spawn = \<lambda>_. (7, None), xw_invoke = \<lambda>_ _. (0, None), xw_err_name = \<lambda>_. ''E'', xw_file = \<lambda>_. None,
      xw_json_object = \<lambda>_. False, xw_cancel_seen = False, xw_cancelled = False, xw_xsink = True\<rparr>"

definition demo_exec_args :: "agent_spec option \<Rightarrow> exec_args" where
  "demo_exec_args spec =
     \<lparr>xa_prompt = ''hi'', xa_model = None, xa_history = [], xa_answers = None, xa_spec = spec, xa_file = None, xa_session = Some ''sess_x''\<rparr>"

theorem agent_execute_protocol_witness:
  "\<exists>c ret res. agent_run_execute demo_exec_world (demo_exec_args None) [] 0 = (c, ret, Some res) \<and> ret = 0 \<and>
     length (xc_calls c) = 3 \<and> xc_reg c = [] \<and> xc_text c = Some (rr_response res)"
proof -
  obtain c ret out where e: "agent_run_execute demo_exec_world (demo_exec_args None) [] 0 = (c, ret, out)"
    by (cases "agent_run_execute demo_exec_world (demo_exec_args None) [] 0")
  have "(\<lambda>(c, ret, out). (ret, xc_rc c, xc_gccp c, length (xc_calls c), out = None))
      (agent_run_execute demo_exec_world (demo_exec_args None) [] 0) = (0, 0, False, 3, False)"
    by code_simp
  with e obtain res where v: "ret = 0" "xc_rc c = 0" "\<not> xc_gccp c" "length (xc_calls c) = 3" "out = Some res" by auto
  from agent_execute_protocol[OF e[unfolded v(5)]] v e show ?thesis by (simp add: demo_exec_world_def)
qed

text \<open>The tokens of the first loop are not in the account of the run.\<close>

lemma failed_plan_tokens_lost:
  "(\<lambda>(c, ret, out). xc_tokens c) (agent_run_execute demo_exec_world (demo_exec_args None) [] 0) = 7"
  by code_simp

text \<open>The numbers of the events repeat: the loop counts from zero beside the execution.\<close>

lemma event_numbers_repeat:
  "(\<lambda>(c, ret, out). map fst (xc_events c)) (agent_run_execute demo_exec_world (demo_exec_args None) [] 0) = [0, 0, 1, 2, 3, 1, 0, 2, 3]"
  by code_simp

text \<open>A failed subagent returns a result.\<close>

lemma failed_run_has_result:
  "(\<lambda>(c, ret, out). (ret, map_option rr_response out)) (agent_run_execute demo_exec_world (demo_exec_args (Some (SpecRole ''r''))) [] 0) =
     (3, Some ''agent.spawn failed: E (7)'')"
  by code_simp

text \<open>A quoted role keeps its opening quote, and a key that only ends in the word is taken for it.\<close>

lemma quoted_role: "role_text ('' '' @ [CHR 0x22] @ ''planner'' @ [CHR 0x22]) = [CHR 0x22] @ ''planner''"
  by code_simp

lemma other_key_taken: "yaml_role_value ''parole: no'' = Some '' no''"
  by code_simp

end
