(* ===== verification/Spec2Isabelle.thy ===== *)
theory Spec2Isabelle
  imports Sup_Ctrl Sched_Spec Sched_Tasks_Thms Svc_Swap Llm_Chain_Spec Llm_Driver_Spec Tool_Gate_Run Mem_Cache_Spec
    Mem_Compress Mem_Restart Maths_Grammar Agent_Exec
begin

text \<open>
  \<^bold>\<open>The AgentRT daemons: a verification development.\<close>

  \<^medskip>\<^bold>\<open>The program.\<close> The repository is a set of user-space daemons in C that together run
  agents. \<open>supervisor_d\<close> reads the launch declarations, starts the other daemons, restarts what
  dies and answers control requests. \<open>sched_d\<close> takes single tasks and whole blueprint graphs and
  hands them to agents. \<open>llm_d\<close> routes a completion request to one of several model providers,
  fails over between them and talks HTTP to the one it chose. \<open>tool_d\<close> decides whether a tool
  call may run and runs it. \<open>agent_d\<close> runs an agent: it calls the model and the tools in turn, streams what
  happens to the client and keeps its account in the ledger. \<open>mem_d\<close> keeps records that are searched by words and embeddings, the ledger
  of what a conversation costs, compresses prompts and caches answers. \<open>maths_d\<close> evaluates
  expressions. \<open>common\<close> (the library svc_common) holds what they share: the hot-swap gate of a configuration, the security core, RPC helpers.

  The daemons meet in the scheduler's executor (it calls agents), in the supervisor's probes and
  in JSON-RPC requests; inside one daemon components meet under a mutex. The development follows
  that: a component is a record and its operations, a critical section is one step, and whatever
  other threads or processes do between two sections is either an explicit event of the model or
  a parameter about which nothing is assumed.

  \<^medskip>\<^bold>\<open>Theories and sources.\<close>

  \<^item> \<open>Airy_Prelude\<close>: C strings (\<open>snprintf\<close>, \<open>strncat\<close>, \<open>strtol\<close>, \<open>strstr\<close>, tokens), lists searched by
    index, word arithmetic, and the interfaces below.
  \<^item> \<open>Sup_Decl\<close>, \<open>Sup_Proc\<close>, \<open>Sup_Ctrl\<close>: \<open>supervisor_d/src/decl/decl.c\<close>, \<open>proc/proc.c\<close>,
    \<open>ctrl/ctrl.c\<close> and the loop functions of \<open>svc.c\<close>, POSIX branch. The process table is the
    record \<open>sup_ctx\<close>; a tick of the main loop is \<open>reconcile\<close> over \<open>tick_proc\<close> and \<open>reap_proc\<close>.
  \<^item> \<open>Sched_Parse\<close>, \<open>Sched_Engine\<close>, \<open>Sched_Work\<close>, \<open>Sched_Spec\<close>: \<open>sched_d/src/dag\<close>: the builder
    with its cycle check, the engine, the service operations and the worker, as the step function
    \<open>sched_step\<close> over critical sections.
  \<^item> \<open>Sched_Tasks\<close>, \<open>Sched_Tasks_Spec\<close>, \<open>Sched_Tasks_Thms\<close>: \<open>sched_d/src/service\<close>: agents and their
    selection, the ring buffer of single tasks and its worker, as \<open>task_next\<close>.
  \<^item> \<open>Llm_Breaker\<close>, \<open>Llm_State\<close>, \<open>Llm_Router\<close>, \<open>Llm_Router_Spec\<close>: \<open>llm_d/src/router\<close>: failover
    classes and circuit breaker, the state file, selection of an endpoint.
  \<^item> \<open>Llm_Chain\<close>, \<open>Llm_Chain_Spec\<close>: \<open>llm_d/src/rpc/service_chain.c\<close> with the parts of
    \<open>service_request.c\<close>, \<open>registry.c\<close> it calls: one request over several providers.
  \<^item> \<open>Llm_Retry\<close>, \<open>Llm_Http\<close>, \<open>Llm_Sse\<close>, \<open>Llm_Sse_Spec\<close>, \<open>Llm_Driver\<close>, \<open>Llm_Driver_Spec\<close>:
    \<open>llm_d/src/providers/core\<close>: \<open>prov_stat.c\<close> and \<open>retry.c\<close>; \<open>http.c\<close>, \<open>rate_limit.c\<close> and
    \<open>prov_diag.c\<close>; \<open>sse.c\<close>; the driver of \<open>adapter.c\<close>.
  \<^item> \<open>Svc_Swap\<close>: \<open>common/src/svc/svc_swap.c\<close> and its client, the reload of \<open>llm_d\<close>
    (\<open>rpc/service_reload.c\<close> and the tickets of \<open>service_request.c\<close>).
  \<^item> \<open>Tool_Sec\<close>, \<open>Tool_Gate\<close>, \<open>Tool_Gate_Spec\<close>, \<open>Tool_Gate_Run\<close>: \<open>common/src/security\<close> and
    \<open>tool_d/src/approval\<close>: access rules, sanitizer, audit log, the six guards, the interactive
    approval and the gate with waiting threads.
  \<^item> \<open>Mem_Sha\<close>, \<open>Mem_Cache\<close>, \<open>Mem_Cache_Spec\<close>: \<open>mem_d/src/engine/cache.c\<close>.
  \<^item> \<open>Mem_Ledger\<close>: \<open>mem_d/src/engine/ledger.c\<close>; \<open>Mem_Compress\<close>: \<open>engine/compress.c\<close> and \<open>handle_compress\<close> of
    \<open>handlers/ledger_handlers.c\<close>, which books a plan in the ledger.
  \<^item> \<open>Mem_Vector\<close>: \<open>engine/vector.c\<close>; \<open>Mem_Store\<close>, \<open>Mem_Store_Spec\<close>, \<open>Mem_Restart\<close>: \<open>core/service.c\<close>,
    \<open>engine/mem_persist.c\<close>, \<open>kb.c\<close>, \<open>emb_client.c\<close>. The array of records is a list, a deletion moves its
    last element into the gap as the code does; the run of the service is \<open>store_step\<close>.
  \<^item> \<open>Agent_Stream\<close>: \<open>agent_d/src/run/agent_run_stream.c\<close>, the decoder of a model's answer; \<open>Agent_Run\<close>,
    \<open>Agent_Run_Spec\<close>: \<open>agent_run_loop.c\<close> and \<open>agent_run_ledger.c\<close>. A run is the record \<open>run_ctx\<close>; the message
    nodes that the ledger points to are numbered; the answers of the other daemons are \<open>run_world\<close>.
    \<open>Agent_Exec\<close>: \<open>agent_run_exec.c\<close> and \<open>agent_run_engine.c\<close>, the execution around the loop as \<open>exec_ctx\<close>.
  \<^item> \<open>Maths_Expr\<close>, \<open>Maths_Spec\<close>, \<open>Maths_Grammar\<close>: \<open>maths_d/src/expr/expr_eval.c\<close>.

  \<^medskip>\<^bold>\<open>What the lemmas show.\<close>

  \<^item> Supervisor: the lifecycle invariant holds under every interleaving of ticks and activations;
    a tick refines an abstract lifecycle automaton; the number of starts the ticks issue for a process
    that never becomes reachable is bounded; shutdown ends, kills exactly the children that polling did
    not find gone and waits for them; the control answers and the field scanner of the endpoint.
  \<^item> Graphs: the builder accepts exactly the resolvable acyclic graphs; dependencies complete
    before a node runs; the verdict on a graph is true of its nodes; failure propagation is
    exactly reachability; dispatches are bounded; the worker sleeps with work left only if a backoff
    ends between its two clock reads, a race that is shown to be real.
  \<^item> Tasks: the ring is a list; the highest priority runs first, in order of submission; records
    are well-typed and final states stay; the queue drains.
  \<^item> Routing: what the breaker does with a history of failures, that it survives a restart, the
    state file read back, soundness and completeness of routing, the order of candidates.
  \<^item> Failover and transport: how many calls, requests and transfers one completion makes, which
    error it reports, when it may be sent twice, that a response and a stream come from one
    transfer however the network cuts it, when the shared rate limiter lets it return, that seats are
    returned.
  \<^item> Reload: no request reads two configurations unless the drain was forced.
  \<^item> Approval: no verdict lets a tool run without a rule or a decision of the user for it; the
    guard chain equals its specification.
  \<^item> Memory: the store is a map under all its operations, and its records survive a restart, the escaping
    of their data included; a document ingested in chunks of four bytes or more is whole; a search returns the best records in a stable order; the open-addressing table
    of document frequencies counts the documents as long as the terms fit; the similarity is a cosine. The ledger is
    append-only, its figures are exact, an append is all or nothing; a compression keeps what it must
    keep and every action has its reason.
  \<^item> Agent runs: the decoder gives the same answer however the stream is cut, and without an error frame
    pushes exactly the text; a run ends after at most eight calls, the fuse blows exactly at the third failure in a row;
    unless mem_d refuses a ledger entry, every request consists of complete turns behind the seeded
    messages although old turns are compressed; the events are numbered and match the trace; an
    execution keeps the order of events a client relies on, and returns its session.
  \<^item> Cache and evaluator: table invariant, eviction, put and get, SHA-256 as a stream; the
    evaluator against a grammar, and its termination.

  \<^medskip>\<^bold>\<open>Interfaces.\<close> \<open>event_machine\<close> (a step function, admissible events, an invariant they
  keep), \<open>inv_machine\<close> (every event is admissible; a sublocale) and \<open>potential_machine\<close> (a cost bounded
  by a potential) carry the reachable-state arguments; they are interpreted on the supervisor's
  ticks, the loading passes, the graph service, the task queue, the gate of the reload, the
  cache, the ledger, the frequency table, the record store and its file, the stream of an answer and the tool calls of a run. \<open>keyed_table\<close> is the lookup of the first entry with a key, interpreted on the process
  table, node identifiers, graphs, tasks, access rules, cache entries, ledger sessions, running sessions and saved endpoints.
  \<open>capped_delay\<close> is a delay that doubles up to a bound, interpreted on the backoff of the
  supervisor and of the HTTP retries. \<open>list_queue\<close> is a bounded queue, interpreted on the ring.

  \<^medskip>\<^bold>\<open>Parameters.\<close> Code outside the repository and the outside world are arguments: \<open>fork\<close>,
  \<open>waitpid\<close>, the clocks, random numbers, the file text, cJSON (the tree it returns), the agent
  executor, libcurl (\<open>ne_curl\<close>: the pieces it delivers and how the transfer ends), the YAML
  reader, the vault, the quota and audit guards of the security layer, floating-point operations
  (\<open>fops\<close>; costs and seconds are exact rationals), the token counter, the hash index, the UTF-8 sanitizer, the embedding server, what llm_d, tool_d and mem_d answer to an agent's run, other requests running at
  the same time. Where a property needs something of them it is a named hypothesis
  (\<open>refusal_fails\<close>: a transfer whose data is refused does not succeed; \<open>hindex_law\<close>: the hash index
  of the store is a map; \<open>json_reader\<close>: cJSON reads a line of valid JSON fields;
  \<open>appends\<close>: mem_d answers a run's ledger entries; \<open>leaves_room\<close>: other requests do not use up each new
  window of the rate limiter first; identifiers do not repeat; a clock that does not stop; enough memory for a stream), and its witness gives concrete functions that satisfy it.

  \<^medskip>\<^bold>\<open>Bounds and fuel.\<close> Machine integers keep their width where the code can reach it: counters,
  millisecond clocks and backoff levels are words, and the array limits (\<open>SUP_MAX_DAEMONS\<close>,
  \<open>AIRY_CAP_MAX_TASKS\<close>, buffer sizes) are those of the code. Loops are structural recursion or
  have a measure: the cycle check by the nodes left, propagation by the pending nodes, the
  failover by the providers not yet tried (at most \<open>SVC_CHAIN_MAX_TRIED\<close>), retries by the
  attempts left. The evaluator uses fuel proportional to the text and \<open>maths_eval_total\<close>
  shows that it is never used up; shutdown uses fuel for its polling loop and \<open>shutdown_reaps_all\<close> shows
  how much is enough. The rate limiter's wait may really not end, so it is a partial
  function, and \<open>limited_request_returns\<close> proves when it does.

  \<^medskip>\<^bold>\<open>Not modelled.\<close> Sockets, threads and processes as such (their effect is in the
  parameters above); the Windows branches; logging; allocation failure where the code only
  reports it; the JSON-RPC shells (\<open>svc.c\<close>, \<open>main.c\<close>, \<open>rpc/\<close>) that unpack parameters and call the
  modelled operations; and the daemons whose work is mostly calls into other libraries
  (\<open>gateway_d\<close>, \<open>market_d\<close>, \<open>monit_d\<close>, \<open>channel_d\<close>, \<open>notify_d\<close>, \<open>a2a_d\<close>,
  \<open>think_d\<close>), together with the parts of \<open>agent_d\<close>, \<open>llm_d\<close>, \<open>tool_d\<close>, \<open>mem_d\<close> and \<open>maths_d\<close> not named above.
\<close>

end
